(* ===== verification/Prelude.thy ===== *)
theory Prelude
  imports Main "HOL-Library.Word"
begin

text \<open>
  What every component of the storage engine shares: the Python exceptions as a datatype,
  results with exceptions (\<open>'a res\<close>), computations over a state that may raise
  (\<open>('s, 'a) pm\<close>; the state survives the exception, as in Python), byte strings with Python's
  slices and slice assignment, and the big-endian \<open>struct\<close> formats \<open>>B\<close>, \<open>>H\<close>, \<open>>I\<close>
  as a width in bytes.
\<close>

section \<open>Exceptions and results\<close>

datatype pyerr =
    ValueError | IndexError | KeyError | TypeError | AttributeError | StructError | OverflowError
  | UnicodeError | OSError
  | AssertionError | RuntimeErr | FreelistCorruptionError | OverflowChainError
  | NameError | SyntaxErr | ParseError | CatalogError | ProgrammingError | OperationalError
  | Diverges \<comment> \<open>the fuel of a page walk ran out: the Python loop would not have ended yet\<close>

type_synonym 'a res = "pyerr + 'a"

definition bindR :: "'a res \<Rightarrow> ('a \<Rightarrow> 'b res) \<Rightarrow> 'b res" where
  "bindR m f = (case m of Inl e \<Rightarrow> Inl e | Inr x \<Rightarrow> f x)"

lemma bindR_simps [simp]:
  "bindR (Inl e) f = Inl e"
  "bindR (Inr x) f = f x"
  by (simp_all add: bindR_def)

lemma bindR_eq_Inr_iff: "bindR m f = Inr y \<longleftrightarrow> (\<exists>x. m = Inr x \<and> f x = Inr y)"
  by (cases m) auto

lemma bindR_assoc: "bindR (bindR m f) g = bindR m (\<lambda>x. bindR (f x) g)"
  by (cases m) auto

lemma bindR_cong [fundef_cong]:
  "m = m' \<Longrightarrow> (\<And>x. m' = Inr x \<Longrightarrow> f x = f' x) \<Longrightarrow> bindR m f = bindR m' f'"
  by (cases m') auto

definition assertR :: "bool \<Rightarrow> pyerr \<Rightarrow> unit res" where
  "assertR b e = (if b then Inr () else Inl e)"

lemma assertR_eq_Inr_iff [simp]: "assertR b e = Inr u \<longleftrightarrow> b"
  by (simp add: assertR_def)

lemma assertR_True [simp]: "assertR True e = Inr ()"
  by (simp add: assertR_def)

text \<open>A Python comprehension \<open>[f(x) for x in xs]\<close> whose body may raise.\<close>

fun mapR :: "('a \<Rightarrow> 'b res) \<Rightarrow> 'a list \<Rightarrow> 'b list res" where
  "mapR f [] = Inr []"
| "mapR f (x # xs) = bindR (f x) (\<lambda>y. bindR (mapR f xs) (\<lambda>ys. Inr (y # ys)))"

lemma mapR_cong [fundef_cong]:
  "xs = ys \<Longrightarrow> (\<And>x. x \<in> set ys \<Longrightarrow> f x = g x) \<Longrightarrow> mapR f xs = mapR g ys"
  by (induction ys arbitrary: xs) auto

lemma mapR_Inr: "(\<And>x. x \<in> set xs \<Longrightarrow> f x = Inr (g x)) \<Longrightarrow> mapR f xs = Inr (map g xs)"
  by (induction xs) auto

lemma mapR_length: "mapR f xs = Inr ys \<Longrightarrow> length ys = length xs"
  by (induction xs arbitrary: ys) (auto simp: bindR_eq_Inr_iff)

lemma mapR_nth: "mapR f xs = Inr ys \<Longrightarrow> i < length xs \<Longrightarrow> f (xs ! i) = Inr (ys ! i)"
  by (induction xs arbitrary: ys i) (auto simp: bindR_eq_Inr_iff less_Suc_eq_0_disj)

text \<open>A Python \<open>for\<close> loop that threads a value and may raise.\<close>

fun foldR :: "('a \<Rightarrow> 'b \<Rightarrow> 'b res) \<Rightarrow> 'a list \<Rightarrow> 'b \<Rightarrow> 'b res" where
  "foldR f [] a = Inr a"
| "foldR f (x # xs) a = bindR (f x a) (\<lambda>a'. foldR f xs a')"

lemma foldR_append: "foldR f (xs @ ys) a = bindR (foldR f xs a) (foldR f ys)"
proof (induction xs arbitrary: a)
  case (Cons x xs)
  then show ?case by (cases "f x a") auto
qed simp

section \<open>Computations over a state\<close>

type_synonym ('s, 'a) pm = "'s \<Rightarrow> 'a res \<times> 's"

definition retS :: "'a \<Rightarrow> ('s, 'a) pm" where
  "retS x = (\<lambda>s. (Inr x, s))"

definition raiseS :: "pyerr \<Rightarrow> ('s, 'a) pm" where
  "raiseS e = (\<lambda>s. (Inl e, s))"

definition liftR :: "'a res \<Rightarrow> ('s, 'a) pm" where
  "liftR r = (\<lambda>s. (r, s))"

definition getS :: "('s \<Rightarrow> 'a) \<Rightarrow> ('s, 'a) pm" where
  "getS f = (\<lambda>s. (Inr (f s), s))"

definition modifyS :: "('s \<Rightarrow> 's) \<Rightarrow> ('s, unit) pm" where
  "modifyS f = (\<lambda>s. (Inr (), f s))"

definition bindS :: "('s, 'a) pm \<Rightarrow> ('a \<Rightarrow> ('s, 'b) pm) \<Rightarrow> ('s, 'b) pm" where
  "bindS m f = (\<lambda>s. case m s of (Inl e, s') \<Rightarrow> (Inl e, s') | (Inr x, s') \<Rightarrow> f x s')"

lemma bindS_cong [fundef_cong]:
  assumes "m s = m' s'" and "s = s'" and "\<And>x t. m' s' = (Inr x, t) \<Longrightarrow> f x t = f' x t"
  shows "bindS m f s = bindS m' f' s'"
  using assms by (auto simp: bindS_def split: prod.split sum.split)

lemma pm_simps [simp]:
  "retS x s = (Inr x, s)" "raiseS e s = (Inl e, s)" "liftR r s = (r, s)"
  "getS g s = (Inr (g s), s)" "modifyS h s = (Inr (), h s)"
  by (simp_all add: retS_def raiseS_def liftR_def getS_def modifyS_def)

lemma bindS_Inr: "m s = (Inr x, s') \<Longrightarrow> bindS m f s = f x s'"
  by (simp add: bindS_def)

lemma bindS_Inl: "m s = (Inl e, s') \<Longrightarrow> bindS m f s = (Inl e, s')"
  by (simp add: bindS_def)

lemma bindS_assoc: "bindS (bindS m f) g = bindS m (\<lambda>x. bindS (f x) g)"
  by (rule ext) (auto simp: bindS_def split: prod.split sum.split)

lemma bindS_simps [simp]:
  "bindS (retS x) f = f x"
  "bindS (raiseS e) f = raiseS e"
  "bindS (liftR (Inr y)) f = f y"
  "bindS (liftR (Inl e)) f = raiseS e"
  by (rule ext, simp add: bindS_def)+

lemma bindS_ret_right [simp]: "bindS m retS = m"
  by (rule ext) (auto simp: bindS_def split: prod.split sum.split)

fun mapS :: "('a \<Rightarrow> ('s, 'b) pm) \<Rightarrow> 'a list \<Rightarrow> ('s, 'b list) pm" where
  "mapS f [] = retS []"
| "mapS f (x # xs) = bindS (f x) (\<lambda>y. bindS (mapS f xs) (\<lambda>ys. retS (y # ys)))"

fun forS :: "('a \<Rightarrow> ('s, unit) pm) \<Rightarrow> 'a list \<Rightarrow> ('s, unit) pm" where
  "forS f [] = retS ()"
| "forS f (x # xs) = bindS (f x) (\<lambda>_. forS f xs)"

section \<open>Byte strings\<close>

type_synonym byte = "8 word"
type_synonym bytes = "byte list"

definition pyslice :: "'a list \<Rightarrow> nat \<Rightarrow> nat \<Rightarrow> 'a list" where
  \<comment> \<open>Python's \<open>xs[i:j]\<close> for indices that are not negative\<close>
  "pyslice xs i j = take (j - i) (drop i xs)"

definition blit :: "'a list \<Rightarrow> nat \<Rightarrow> 'a list \<Rightarrow> 'a list" where
  \<comment> \<open>Python's \<open>xs[i : i + len(ys)] = ys\<close> for \<open>0 <= i\<close>; it grows \<open>xs\<close> past its end\<close>
  "blit xs i ys = take i xs @ ys @ drop (i + length ys) xs"

definition clamp_index :: "nat \<Rightarrow> int \<Rightarrow> nat" where
  \<comment> \<open>a slice bound against a length: negative counts from the end, then clamped\<close>
  "clamp_index n i = (if i < 0 then nat (max 0 (i + int n)) else min (nat i) n)"

definition blit_int :: "'a list \<Rightarrow> int \<Rightarrow> 'a list \<Rightarrow> 'a list" where
  \<comment> \<open>the same assignment at an index that may be negative\<close>
  "blit_int xs i ys =
     (let lo = clamp_index (length xs) i;
          hi = max lo (clamp_index (length xs) (i + int (length ys)))
      in take lo xs @ ys @ drop hi xs)"

lemma length_pyslice [simp]: "length (pyslice xs i j) = min (j - i) (length xs - i)"
  by (simp add: pyslice_def)

lemma length_blit [simp]: "i + length ys \<le> length xs \<Longrightarrow> length (blit xs i ys) = length xs"
  by (simp add: blit_def)

lemma blit_Nil [simp]: "blit xs i [] = xs"
  by (simp add: blit_def)

lemma pyslice_blit_same [simp]:
  "i + length ys \<le> length xs \<Longrightarrow> j = i + length ys \<Longrightarrow> pyslice (blit xs i ys) i j = ys"
  by (simp add: pyslice_def blit_def)

lemma nth_blit:
  "i + length ys \<le> length xs \<Longrightarrow> k < length xs \<Longrightarrow>
   blit xs i ys ! k = (if i \<le> k \<and> k < i + length ys then ys ! (k - i) else xs ! k)"
  by (auto simp: blit_def nth_append min_def)

lemma pyslice_eqI:
  assumes "length xs = length ys" and "\<And>k. i \<le> k \<Longrightarrow> k < j \<Longrightarrow> k < length xs \<Longrightarrow> xs ! k = ys ! k"
  shows "pyslice xs i j = pyslice ys i j"
  using assms by (intro nth_equalityI) (auto simp: pyslice_def)

lemma pyslice_blit_other:
  assumes "i + length ys \<le> length xs" and "k' \<le> i \<or> i + length ys \<le> k"
  shows "pyslice (blit xs i ys) k k' = pyslice xs k k'"
  using assms by (intro pyslice_eqI) (auto simp: nth_blit)

lemma pyslice_blit_inside:
  assumes "i + length ys \<le> length xs" and "i \<le> k" and "k' \<le> i + length ys"
  shows "pyslice (blit xs i ys) k k' = pyslice ys (k - i) (k' - i)"
  using assms by (intro nth_equalityI) (auto simp: pyslice_def nth_blit)

lemma blit_int_nonneg:
  "0 \<le> i \<Longrightarrow> nat i + length ys \<le> length xs \<Longrightarrow> blit_int xs i ys = blit xs (nat i) ys"
  by (simp add: blit_int_def blit_def clamp_index_def nat_add_distrib Let_def)

lemma pyslice_full [simp]: "n = length xs \<Longrightarrow> pyslice xs 0 n = xs"
  by (simp add: pyslice_def)

lemma pyslice_append_left: "j \<le> length xs \<Longrightarrow> pyslice (xs @ ys) i j = pyslice xs i j"
  by (cases "i \<le> j") (auto simp: pyslice_def)

lemma pyslice_append_right:
  "length xs \<le> i \<Longrightarrow> pyslice (xs @ ys) i j = pyslice ys (i - length xs) (j - length xs)"
  by (simp add: pyslice_def)

lemma pyslice_middle: "i = length xs \<Longrightarrow> j = i + length ys \<Longrightarrow> pyslice (xs @ ys @ zs) i j = ys"
  by (simp add: pyslice_def)

lemma pyslice_nth: "i < j \<Longrightarrow> j \<le> length xs \<Longrightarrow> k < j - i \<Longrightarrow> pyslice xs i j ! k = xs ! (i + k)"
  by (simp add: pyslice_def)

section \<open>Big-endian integers\<close>

fun be_bytes :: "nat \<Rightarrow> nat \<Rightarrow> bytes" where
  \<comment> \<open>\<open>v.to_bytes(n, "big")\<close>: the \<open>n\<close> low bytes of \<open>v\<close>\<close>
  "be_bytes 0 v = []"
| "be_bytes (Suc n) v = be_bytes n (v div 256) @ [of_nat v]"

definition be_nat :: "bytes \<Rightarrow> nat" where
  \<comment> \<open>\<open>int.from_bytes(bs, "big")\<close>\<close>
  "be_nat bs = foldl (\<lambda>acc b. acc * 256 + unat b) 0 bs"

lemma be_bytes_numeral: "be_bytes (numeral k) v = be_bytes (pred_numeral k) (v div 256) @ [of_nat v]"
  by (subst numeral_eq_Suc) (rule be_bytes.simps(2))

lemma be_nat_Nil [simp]: "be_nat [] = 0"
  by (simp add: be_nat_def)

lemma be_nat_snoc [simp]: "be_nat (bs @ [b]) = be_nat bs * 256 + unat b"
  by (simp add: be_nat_def)

lemma be_nat_single [simp]: "be_nat [b] = unat b"
  by (simp add: be_nat_def)

lemma length_be_bytes [simp]: "length (be_bytes n v) = n"
  by (induction n v rule: be_bytes.induct) auto

lemma unat_of_nat_byte: "unat (of_nat v :: byte) = v mod 256"
  by (simp add: unat_of_nat)

lemma be_nat_be_bytes: "be_nat (be_bytes n v) = v mod 256 ^ n"
proof (induction n v rule: be_bytes.induct)
  case (2 n v)
  have "(v div 256) mod 256 ^ n * 256 + v mod 256 = v mod (256 * 256 ^ n)"
    by (simp add: mod_mult2_eq)
  with 2 show ?case by (simp add: unat_of_nat_byte)
qed simp

lemma be_nat_be_bytes_id [simp]: "v < 256 ^ n \<Longrightarrow> be_nat (be_bytes n v) = v"
  by (simp add: be_nat_be_bytes)

lemma be_nat_bound: "be_nat bs < 256 ^ length bs"
proof (induction bs rule: rev_induct)
  case (snoc b bs)
  have "unat b < 256" using unsigned_less [of b, where ?'a = nat] by simp
  moreover have "be_nat bs + 1 \<le> 256 ^ length bs" using snoc by simp
  then have "(be_nat bs + 1) * 256 \<le> 256 ^ length bs * 256" by (rule mult_right_mono) simp
  ultimately show ?case by simp
qed simp

lemma be_bytes_be_nat: "n = length bs \<Longrightarrow> be_bytes n (be_nat bs) = bs"
proof (induction bs arbitrary: n rule: rev_induct)
  case (snoc b bs)
  have "unat b < 256" using unsigned_less [of b, where ?'a = nat] by simp
  moreover have "of_nat (be_nat bs * 256 + unat b) = b"
    by (rule unsigned_word_eqI [where 'a = nat], subst unat_of_nat_byte) (simp add: calculation)
  ultimately show ?case using snoc by simp
qed simp

text \<open>\<open>struct.unpack_from\<close> and \<open>struct.pack_into\<close> for one unsigned field of \<open>w\<close> bytes.\<close>

definition unpack_from :: "nat \<Rightarrow> bytes \<Rightarrow> nat \<Rightarrow> nat res" where
  "unpack_from w buf off =
     (if off + w \<le> length buf then Inr (be_nat (pyslice buf off (off + w))) else Inl StructError)"

definition pack_into :: "nat \<Rightarrow> bytes \<Rightarrow> nat \<Rightarrow> int \<Rightarrow> bytes res" where
  "pack_into w buf off v =
     (if 0 \<le> v \<and> v < 256 ^ w \<and> off + w \<le> length buf
      then Inr (blit buf off (be_bytes w (nat v))) else Inl StructError)"

definition pack :: "nat \<Rightarrow> int \<Rightarrow> bytes res" where
  "pack w v = (if 0 \<le> v \<and> v < 256 ^ w then Inr (be_bytes w (nat v)) else Inl StructError)"

lemma unpack_from_ok: "off + w \<le> length buf \<Longrightarrow>
    unpack_from w buf off = Inr (be_nat (pyslice buf off (off + w)))"
  by (simp add: unpack_from_def)

lemma int_less_256_power: "v < 256 ^ w \<Longrightarrow> int v < 256 ^ w"
  by (metis of_nat_less_iff of_nat_numeral of_nat_power)

lemma pack_into_ok: "v < 256 ^ w \<Longrightarrow> off + w \<le> length buf \<Longrightarrow>
    pack_into w buf off (int v) = Inr (blit buf off (be_bytes w v))"
  by (simp add: pack_into_def int_less_256_power)

lemma pack_into_length: "pack_into w buf off v = Inr buf' \<Longrightarrow> length buf' = length buf"
  by (auto simp: pack_into_def split: if_splits)

lemma pack_ok: "v < 256 ^ w \<Longrightarrow> pack w (int v) = Inr (be_bytes w v)"
  by (simp add: pack_def int_less_256_power)

lemma pack_Inr: "pack w v = Inr bs \<Longrightarrow> length bs = w"
  by (auto simp: pack_def split: if_splits)

end
