(* ===== verification/Constants.thy ===== *)
theory Constants
  imports Prelude
begin

text \<open>
  \<open>constants.py\<close>: the page geometry, and the two resolvers of the page-cache budgets. The
  leaf cell ceiling \<open>LEAF_MAX_CELLS\<close> comes from the environment (9999 by default); it is an
  argument, called \<open>cap\<close>, of every definition that reads it.
\<close>

section \<open>Page geometry\<close>

definition PAGE_SIZE :: nat where "PAGE_SIZE = 8192"
definition PAGE_LEAF_TABLE :: nat where "PAGE_LEAF_TABLE = 0x0D"
definition PAGE_INTERIOR_TABLE :: nat where "PAGE_INTERIOR_TABLE = 0x05"
definition LEAF_HEADER_SIZE :: nat where "LEAF_HEADER_SIZE = 8"
definition INTERIOR_HEADER_SIZE :: nat where "INTERIOR_HEADER_SIZE = 12"
definition OVERFLOW_THRESHOLD :: nat where "OVERFLOW_THRESHOLD = PAGE_SIZE - 35"
definition OVERFLOW_NEXT_OFFSET :: nat where "OVERFLOW_NEXT_OFFSET = 0"
definition OVERFLOW_DATA_OFFSET :: nat where "OVERFLOW_DATA_OFFSET = 4"
definition LEAF_MAX_CELLS_default :: nat where "LEAF_MAX_CELLS_default = 9999"

definition DB_MAGIC :: bytes where \<comment> \<open>\<open>b"LILLI storage 1\x00"\<close>\<close>
  "DB_MAGIC = [76, 73, 76, 76, 73, 32, 115, 116, 111, 114, 97, 103, 101, 32, 49, 0]"

text \<open>The fields of the database header on page 1: offset and width of \<open>_HDR_FIELDS\<close>.\<close>

datatype hdr_field = HPageSize | HWriteVersion | HReadVersion | HDbSize | HFirstTrunk | HFreelistCount

fun hdr_offset :: "hdr_field \<Rightarrow> nat" where
  "hdr_offset HPageSize = 16"
| "hdr_offset HWriteVersion = 18"
| "hdr_offset HReadVersion = 19"
| "hdr_offset HDbSize = 28"
| "hdr_offset HFirstTrunk = 32"
| "hdr_offset HFreelistCount = 36"

fun hdr_width :: "hdr_field \<Rightarrow> nat" where
  "hdr_width HPageSize = 2"
| "hdr_width HWriteVersion = 1"
| "hdr_width HReadVersion = 1"
| "hdr_width HDbSize = 4"
| "hdr_width HFirstTrunk = 4"
| "hdr_width HFreelistCount = 4"

lemma hdr_in_page: "hdr_offset f + hdr_width f \<le> 40"
  by (cases f) simp_all

lemma hdr_disjoint:
  "f \<noteq> g \<Longrightarrow> hdr_offset f + hdr_width f \<le> hdr_offset g \<or> hdr_offset g + hdr_width g \<le> hdr_offset f"
  by (cases f; cases g) simp_all

section \<open>Cache budgets\<close>

definition MIN_CACHE_KIB :: int where "MIN_CACHE_KIB = 4096"
definition MAIN_CACHE_KIB :: int where "MAIN_CACHE_KIB = 65536"
definition RO_CONN_CACHE_KIB :: int where "RO_CONN_CACHE_KIB = 8192"
definition RO_AGGREGATE_CEILING_KIB :: int where "RO_AGGREGATE_CEILING_KIB = 4 * MAIN_CACHE_KIB"

text \<open>Python's \<open>int(s)\<close> on ASCII text: blanks around, a sign, digits with single underscores.\<close>

definition is_blank :: "char \<Rightarrow> bool" where
  "is_blank c \<longleftrightarrow> of_char c \<in> {9, 10, 11, 12, 13, 28, 29, 30, 31, 32 :: nat}"

definition digit_of :: "char \<Rightarrow> nat option" where
  "digit_of c = (if 48 \<le> (of_char c :: nat) \<and> of_char c \<le> (57 :: nat) then Some (of_char c - 48) else None)"

fun py_digits :: "nat \<Rightarrow> string \<Rightarrow> nat option" where
  \<comment> \<open>the digits behind a first digit; \<open>acc\<close> is the value so far\<close>
  "py_digits acc [] = Some acc"
| "py_digits acc (c # cs) =
     (if c = CHR ''_'' then
        (case cs of
           d # ds \<Rightarrow> (case digit_of d of Some n \<Rightarrow> py_digits (acc * 10 + n) ds | None \<Rightarrow> None)
         | [] \<Rightarrow> None)
      else (case digit_of c of Some n \<Rightarrow> py_digits (acc * 10 + n) cs | None \<Rightarrow> None))"

definition py_nat :: "string \<Rightarrow> nat option" where
  "py_nat s = (case s of [] \<Rightarrow> None
     | c # cs \<Rightarrow> (case digit_of c of Some n \<Rightarrow> py_digits n cs | None \<Rightarrow> None))"

definition py_int :: "string \<Rightarrow> int option" where
  "py_int s0 =
     (let s = rev (dropWhile is_blank (rev (dropWhile is_blank s0))) in
      case s of
        [] \<Rightarrow> None
      | c # cs \<Rightarrow>
          if c = CHR ''-'' then map_option (\<lambda>n. - int n) (py_nat cs)
          else if c = CHR ''+'' then map_option int (py_nat cs)
          else map_option int (py_nat s))"

definition resolve_cache_size_kib :: "string \<Rightarrow> int \<Rightarrow> (string \<Rightarrow> string option) \<Rightarrow> int" where
  "resolve_cache_size_kib env_key default_kib env =
     (case (case env env_key of None \<Rightarrow> Some default_kib | Some raw \<Rightarrow> py_int raw) of
        None \<Rightarrow> default_kib
      | Some kib \<Rightarrow>
          if kib \<le> 0 then default_kib
          else if kib < MIN_CACHE_KIB then MIN_CACHE_KIB
          else kib)"

definition resolve_ro_slot_cache_kib :: "int \<Rightarrow> (string \<Rightarrow> string option) \<Rightarrow> int" where
  "resolve_ro_slot_cache_kib pool_size env =
     (let resolved = resolve_cache_size_kib ''IAI_MCP_RO_CONN_CACHE_SIZE_KIB'' RO_CONN_CACHE_KIB env;
          per_slot_ceiling = RO_AGGREGATE_CEILING_KIB div max 1 pool_size
      in max MIN_CACHE_KIB (min resolved per_slot_ceiling))"

text \<open>
  The read-only pool's cache budget: whatever the environment says, a slot gets at least the
  minimum, and for pools of at most 64 slots all slots together stay at or under the ceiling.
\<close>

theorem ro_cache_budget:
  assumes "1 \<le> pool_size" and "pool_size \<le> 64"
  shows "MIN_CACHE_KIB \<le> resolve_ro_slot_cache_kib pool_size env \<and>
    resolve_ro_slot_cache_kib pool_size env * pool_size \<le> RO_AGGREGATE_CEILING_KIB"
proof (rule conjI)
  show "MIN_CACHE_KIB \<le> resolve_ro_slot_cache_kib pool_size env"
    by (simp add: resolve_ro_slot_cache_kib_def Let_def)
  let ?c = "RO_AGGREGATE_CEILING_KIB div pool_size"
  have c: "?c * pool_size \<le> RO_AGGREGATE_CEILING_KIB"
    using assms by (simp add: minus_mod_eq_div_mult [symmetric])
  have "MIN_CACHE_KIB \<le> ?c"
  proof -
    have "RO_AGGREGATE_CEILING_KIB div 64 \<le> ?c"
      using assms by (intro zdiv_mono2) (simp_all add: RO_AGGREGATE_CEILING_KIB_def MAIN_CACHE_KIB_def)
    then show ?thesis by (simp add: RO_AGGREGATE_CEILING_KIB_def MAIN_CACHE_KIB_def MIN_CACHE_KIB_def)
  qed
  then have "resolve_ro_slot_cache_kib pool_size env \<le> ?c"
    using assms by (simp add: resolve_ro_slot_cache_kib_def Let_def)
  then have "resolve_ro_slot_cache_kib pool_size env * pool_size \<le> ?c * pool_size"
    using assms by (intro mult_right_mono) auto
  with c show "resolve_ro_slot_cache_kib pool_size env * pool_size \<le> RO_AGGREGATE_CEILING_KIB"
    by linarith
qed

theorem ro_cache_budget_witness:
  "resolve_ro_slot_cache_kib 40 (\<lambda>_. Some ''65536'') * 40 \<le> RO_AGGREGATE_CEILING_KIB
   \<and> resolve_ro_slot_cache_kib 40 (\<lambda>_. Some ''65536'') = 6553"
  using ro_cache_budget [of 40 "\<lambda>_. Some ''65536''"]
  by (simp add: resolve_ro_slot_cache_kib_def resolve_cache_size_kib_def py_int_def py_nat_def
      is_blank_def digit_of_def RO_AGGREGATE_CEILING_KIB_def MAIN_CACHE_KIB_def MIN_CACHE_KIB_def)

end
