(* ===== verification/Varint.thy ===== *)
theory Varint
  imports Prelude
begin

unbundle bit_operations_syntax

text \<open>
  \<open>record.py\<close>, first half: SQLite's variable-length integers, \<open>encode_varint\<close> and
  \<open>decode_varint\<close>. The first eight bytes carry seven bits each under a continuation bit, a
  ninth byte carries eight. The lemmas give the round trip behind any prefix and before any
  suffix, the exact size of an encoding and what becomes of a negative value.
\<close>

section \<open>The codec\<close>

definition varint_len :: "int \<Rightarrow> nat" where
  \<comment> \<open>the byte count \<open>n\<close> of the threshold chain in \<open>encode_varint\<close>\<close>
  "varint_len value =
     (if value \<le> 0x7F then 1
      else if value \<le> 0x3FFF then 2
      else if value \<le> 0x1FFFFF then 3
      else if value \<le> 0xFFFFFFF then 4
      else if value \<le> 0x7FFFFFFFF then 5
      else if value \<le> 0x3FFFFFFFFFF then 6
      else if value \<le> 0x1FFFFFFFFFFFF then 7
      else if value \<le> 0xFFFFFFFFFFFFFF then 8
      else 9)"

fun varint_fill :: "nat \<Rightarrow> nat \<Rightarrow> int \<Rightarrow> bytes \<Rightarrow> bytes" where
  \<comment> \<open>the loop \<open>for i in range(k - 1, -1, -1)\<close> that fills \<open>buf[0..k-1]\<close> from the right, in
     front of the bytes \<open>acc\<close> already written\<close>
  "varint_fill n 0 value acc = acc"
| "varint_fill n (Suc i) value acc =
     varint_fill n i (drop_bit 7 value)
       (of_int ((value AND 0x7F) OR (if i < n - 1 then 0x80 else 0)) # acc)"

definition encode_varint :: "int \<Rightarrow> bytes" where
  "encode_varint value0 =
     (let value = (if value0 < 0 then value0 AND (2 ^ 64 - 1) else value0);
          n = varint_len value
      in if n < 9 then varint_fill n n value []
         else varint_fill 9 8 (drop_bit 8 value) [of_int (value AND 0xFF)])"

function decode_varint_loop :: "bytes \<Rightarrow> nat \<Rightarrow> nat \<Rightarrow> nat \<Rightarrow> (nat \<times> nat) res" where
  "decode_varint_loop data off i value =
     (if 9 \<le> i then Inl ValueError
      else if length data \<le> off + i then Inl ValueError
      else
        let byte = unat (data ! (off + i)) in
        if i < 8 then
          let value' = push_bit 7 value OR (byte AND 0x7F) in
          if byte AND 0x80 = 0 then Inr (value', i + 1)
          else decode_varint_loop data off (i + 1) value'
        else Inr (push_bit 8 value OR byte, 9))"
  by pat_completeness auto
termination
  by (relation "measure (\<lambda>(data, off, i, value). 9 - i)") auto

declare decode_varint_loop.simps [simp del]

definition decode_varint :: "bytes \<Rightarrow> nat \<Rightarrow> (nat \<times> nat) res" where
  \<comment> \<open>the value and the number of bytes consumed; \<open>ValueError\<close> when the buffer ends early\<close>
  "decode_varint data off = decode_varint_loop data off 0 0"

section \<open>The codec in arithmetic\<close>

lemma and_disjoint:
  fixes a b :: "'a :: linordered_euclidean_semiring_bit_operations"
  assumes "take_bit k b = b"
  shows "push_bit k a AND b = 0"
proof (rule bit_eqI)
  fix n
  have "bit b n \<Longrightarrow> n < k" by (metis assms bit_take_bit_iff)
  then show "bit (push_bit k a AND b) n = bit 0 n" by (auto simp: bit_simps)
qed

lemma or_disjoint:
  fixes a b :: "'a :: linordered_euclidean_semiring_bit_operations"
  assumes "take_bit k b = b"
  shows "push_bit k a OR b = a * 2 ^ k + b"
  using disjunctive_add_eq_or [OF and_disjoint [OF assms, of a]] by (simp add: push_bit_eq_mult)

lemma and_masks:
  "(v :: int) AND 0x7F = v mod 128" "(v :: int) AND 0xFF = v mod 256"
  "(b :: nat) AND 0x7F = b mod 128" "(v :: int) AND (2 ^ 64 - 1) = v mod 2 ^ 64"
  using take_bit_eq_mask [of 7 v] take_bit_eq_mask [of 8 v] take_bit_eq_mask [of 7 b]
    take_bit_eq_mask [of 64 v]
  by (simp_all add: mask_eq_exp_minus_1 take_bit_eq_mod)

lemma and_continuation: "b < 256 \<Longrightarrow> (b :: nat) AND 0x80 = 0 \<longleftrightarrow> b < 128"
proof -
  assume b: "b < 256"
  have "b AND 0x80 = 0 \<longleftrightarrow> \<not> bit b 7"
    using and_exp_eq_0_iff_not_bit [of b 7] by simp
  also have "\<dots> \<longleftrightarrow> even (b div 128)" by (simp add: bit_iff_odd)
  also have "\<dots> \<longleftrightarrow> b < 128"
  proof -
    have "b div 128 < 2" using b by simp
    then show ?thesis by (auto simp: less_2_cases_iff)
  qed
  finally show ?thesis .
qed

lemma varint_byte:
  "(v AND 0x7F) OR (if c then 0x80 else 0) = v mod 128 + (if c then 128 else (0 :: int))"
proof -
  have "take_bit 7 (v mod 128) = v mod 128" by (simp add: take_bit_eq_mod)
  from or_disjoint [OF this, of 1] show ?thesis
    by (simp add: and_masks or.commute [of _ 128])
qed

lemma varint_step: "b < 128 \<Longrightarrow> push_bit 7 v OR (b :: nat) = v * 128 + b"
  using or_disjoint [of 7 b v] by (simp add: take_bit_eq_mod)

lemma varint_step8: "b < 256 \<Longrightarrow> push_bit 8 v OR (b :: nat) = v * 256 + b"
  using or_disjoint [of 8 b v] by (simp add: take_bit_eq_mod)

section \<open>Round trip\<close>

text \<open>The decoder over the remaining bytes, in arithmetic.\<close>

fun dec_tail :: "bytes \<Rightarrow> nat \<Rightarrow> nat \<Rightarrow> (nat \<times> nat) res" where
  "dec_tail [] i value = Inl ValueError"
| "dec_tail (b # bs) i value =
     (if 9 \<le> i then Inl ValueError
      else if i < 8 then
        (if unat b < 128 then Inr (value * 128 + unat b, i + 1)
         else dec_tail bs (i + 1) (value * 128 + (unat b - 128)))
      else Inr (value * 256 + unat b, 9))"

lemma byte_bound [simp]: "unat (b :: byte) < 256"
  using unsigned_less [of b, where ?'a = nat] by simp

lemma mod_128: "x < 256 \<Longrightarrow> x mod 128 = (if x < 128 then x else x - (128 :: nat))"
  by (simp add: le_mod_geq)

lemma decode_varint_loop_tail:
  "decode_varint_loop data off i v = dec_tail (drop (off + i) data) i v"
proof (induction data off i v rule: decode_varint_loop.induct)
  case (1 data off i v)
  show ?case
  proof (cases "off + i < length data \<and> i < 9")
    case True
    define b where "b = data ! (off + i)"
    have d: "drop (off + i) data = b # drop (off + (i + 1)) data"
      using True by (simp add: b_def Cons_nth_drop_Suc)
    have m: "unat b mod 128 = (if unat b < 128 then unat b else unat b - 128)"
      by (rule mod_128) (rule byte_bound)
    show ?thesis
      using True 1 m
      by (simp add: decode_varint_loop.simps [of data off i v] d and_masks
          and_continuation varint_step varint_step8 Let_def flip: b_def)
  next
    case False
    then show ?thesis
      by (cases "drop (off + i) data") (auto simp: decode_varint_loop.simps [of data off i v])
  qed
qed

lemma decode_varint_tail: "decode_varint data off = dec_tail (drop off data) 0 0"
  by (simp add: decode_varint_def decode_varint_loop_tail)

lemma varint_fill_Suc:
  "varint_fill n (Suc i) (int v) acc =
     varint_fill n i (int (v div 128))
       (of_nat (v mod 128 + (if i < n - 1 then 128 else 0)) # acc)"
proof -
  have "int v mod 128 + (if i < n - 1 then 128 else 0)
      = int (v mod 128 + (if i < n - 1 then 128 else 0))"
    by (simp add: zmod_int)
  moreover have "drop_bit 7 (int v) = int (v div 128)"
    by (simp add: drop_bit_eq_div zdiv_int)
  ultimately show ?thesis by (simp only: varint_fill.simps varint_byte of_int_of_nat_eq)
qed

lemma length_varint_fill [simp]: "length (varint_fill n k v acc) = k + length acc"
  by (induction n k v acc rule: varint_fill.induct) auto

lemma dec_tail_fill:
  "k \<le> n - 1 \<Longrightarrow> i + k \<le> 8 \<Longrightarrow>
   dec_tail (varint_fill n k (int v) acc @ post) i a =
   dec_tail (acc @ post) (i + k) (a * 128 ^ k + v mod 128 ^ k)"
proof (induction k arbitrary: v acc)
  case (Suc k)
  have u: "unat (of_nat (v mod 128 + 128) :: byte) = v mod 128 + 128"
    by (simp add: unat_of_nat_byte del: of_nat_add)
  have m: "(a * 128 ^ k + v div 128 mod 128 ^ k) * 128 + v mod 128
      = a * 128 ^ Suc k + v mod 128 ^ Suc k"
    by (simp add: mod_mult2_eq algebra_simps)
  have "dec_tail (varint_fill n (Suc k) (int v) acc @ post) i a =
      dec_tail (of_nat (v mod 128 + 128) # acc @ post) (i + k) (a * 128 ^ k + v div 128 mod 128 ^ k)"
    using Suc.prems Suc.IH [of "v div 128"] by (simp only: varint_fill_Suc) simp
  also have "\<dots> = dec_tail (acc @ post) (i + Suc k) (a * 128 ^ Suc k + v mod 128 ^ Suc k)"
    using Suc.prems u by (subst m [symmetric]) (simp del: of_nat_add power_Suc)
  finally show ?case .
qed simp

lemma varint_len_bounds: "1 \<le> varint_len v" "varint_len v \<le> 9"
  by (simp_all add: varint_len_def)

lemma varint_len_fits: "varint_len (int v) < 9 \<Longrightarrow> v < 128 ^ varint_len (int v)"
  by (simp add: varint_len_def split: if_splits)

lemma encode_varint_nonneg:
  "encode_varint (int v) =
     (if varint_len (int v) < 9 then varint_fill (varint_len (int v)) (varint_len (int v)) (int v) []
      else varint_fill 9 8 (int (v div 256)) [of_nat (v mod 256)])"
proof -
  have "(of_int (int v AND 0xFF) :: byte) = of_nat (v mod 256)"
    by (simp only: and_masks) (metis of_int_of_nat_eq of_nat_mod of_nat_numeral)
  moreover have "drop_bit 8 (int v) = int (v div 256)"
    by (simp add: drop_bit_eq_div zdiv_int)
  ultimately show ?thesis by (simp add: encode_varint_def Let_def)
qed

lemma length_encode_varint: "0 \<le> v \<Longrightarrow> length (encode_varint v) = varint_len v"
  using encode_varint_nonneg [of "nat v"] varint_len_bounds [of v] by auto

lemma dec_tail_encode:
  "dec_tail (encode_varint (int v) @ post) 0 0 = Inr (v mod 2 ^ 64, varint_len (int v))"
proof (cases "varint_len (int v) < 9")
  case True
  then obtain k where k: "varint_len (int v) = Suc k" "k < 8"
    using varint_len_bounds [of "int v"] by (cases "varint_len (int v)") auto
  have "v < 128 * 128 ^ k" using varint_len_fits [OF True] k by simp
  then have q: "v div 128 < 128 ^ k" by (simp add: less_mult_imp_div_less mult.commute)
  have u: "unat (of_nat (v mod 128) :: byte) = v mod 128" by (simp add: unat_of_nat_byte)
  have "(128 :: nat) ^ Suc k \<le> 128 ^ 8" using k by (intro power_increasing) auto
  with \<open>v < 128 * 128 ^ k\<close> have "v < 2 ^ 64" by simp
  moreover have "encode_varint (int v) = varint_fill (Suc k) k (int (v div 128)) [of_nat (v mod 128)]"
    using True k by (simp only: encode_varint_nonneg varint_fill_Suc) simp
  ultimately show ?thesis
    using k q u by (simp add: dec_tail_fill)
next
  case False
  then have l: "varint_len (int v) = 9" using varint_len_bounds [of "int v"] by simp
  have q: "v div 256 mod 128 ^ 8 * 256 + v mod 256 = v mod 2 ^ 64"
    using mod_mult2_eq [of v 256 "128 ^ 8"] by simp
  have u: "unat (of_nat (v mod 256) :: byte) = v mod 256" by (simp add: unat_of_nat_byte)
  show ?thesis
    using l q u dec_tail_fill [of 8 9 0 "v div 256" "[of_nat (v mod 256)]" post 0]
    by (simp add: encode_varint_nonneg)
qed

lemma encode_varint_neg: "v < 0 \<Longrightarrow> encode_varint v = encode_varint (int (nat (v mod 2 ^ 64)))"
proof -
  assume neg: "v < 0"
  have p: "int (nat (v mod 2 ^ 64)) = v mod 2 ^ 64" by simp
  have n: "(v mod 2 ^ 64 < 0) = False" by simp
  from neg show ?thesis
    by (simp only: encode_varint_def Let_def p and_masks(4) n if_True if_False)
qed

lemma encode_varint_cases: "\<exists>n. encode_varint v = encode_varint (int n) \<and> int (n mod 2 ^ 64) = v mod 2 ^ 64"
proof (cases "v < 0")
  case True
  then show ?thesis
    by (intro exI [of _ "nat (v mod 2 ^ 64)"]) (simp add: encode_varint_neg nat_mod_distrib)
next
  case False
  then show ?thesis by (intro exI [of _ "nat v"]) (simp add: nat_mod_distrib zmod_int)
qed

lemma decode_encode_varint:
  "drop off data = encode_varint v @ post \<Longrightarrow>
   decode_varint data off = Inr (nat (v mod 2 ^ 64), length (encode_varint v))"
  using encode_varint_cases [of v]
  by (auto simp: decode_varint_tail dec_tail_encode length_encode_varint simp flip: of_nat_mod)

text \<open>
  C31. Decoding what \<open>encode_varint\<close> wrote, behind any bytes and before any bytes, returns the
  value modulo 2 to the 64 and exactly the number of bytes written, for every Python integer: the
  codec is lossless on unsigned 64-bit values, and only there.
\<close>

theorem varint_roundtrip:
  "decode_varint (pre @ encode_varint v @ post) (length pre)
     = Inr (nat (v mod 2 ^ 64), length (encode_varint v))"
  by (rule decode_encode_varint) simp

lemma varint_roundtrip_nonneg:
  "0 \<le> v \<Longrightarrow> v < 2 ^ 64 \<Longrightarrow> drop off data = encode_varint v @ post \<Longrightarrow>
   decode_varint data off = Inr (nat v, length (encode_varint v))"
  by (simp add: decode_encode_varint)

lemma encode_varint_small: "0 \<le> v \<Longrightarrow> v < 128 \<Longrightarrow> encode_varint v = [of_int v]"
  by (simp add: encode_varint_def varint_len_def and_masks)

lemma length_encode_varint_bounds: "1 \<le> length (encode_varint v)" "length (encode_varint v) \<le> 9"
  using encode_varint_cases [of v] varint_len_bounds by (auto simp: length_encode_varint)

lemma varint_len_mono: "v \<le> w \<Longrightarrow> varint_len v \<le> varint_len w"
  by (simp add: varint_len_def)

section \<open>Truncated and foreign input\<close>

lemma dec_tail_bounds:
  "dec_tail bs i a = Inr (v, n) \<Longrightarrow> i < n \<and> n \<le> 9 \<and> n \<le> i + length bs"
  by (induction bs i a rule: dec_tail.induct) (auto split: if_splits)

lemma decode_varint_bounds:
  assumes "decode_varint data off = Inr (v, n)"
  shows "1 \<le> n" "n \<le> 9" "off + n \<le> length data"
  using dec_tail_bounds [of "drop off data" 0 0 v n] assms by (auto simp: decode_varint_tail)

lemma decode_varint_err: "decode_varint data off = Inl e \<Longrightarrow> e = ValueError"
proof -
  have "dec_tail bs i a = Inl e \<Longrightarrow> e = ValueError" for bs i a
    by (induction bs i a rule: dec_tail.induct) (auto split: if_splits)
  then show "decode_varint data off = Inl e \<Longrightarrow> e = ValueError" by (simp add: decode_varint_tail)
qed

lemma dec_tail_prefix:
  "dec_tail (bs @ cs) i a = Inr (v, n) \<Longrightarrow> i + length bs < n \<Longrightarrow> dec_tail bs i a = Inl ValueError"
  by (induction bs i a rule: dec_tail.induct) (auto split: if_splits)

text \<open>
  A varint cut short is never misread: on every proper prefix of an encoding the decoder
  raises \<open>ValueError\<close>.
\<close>

theorem varint_truncated:
  assumes "k < length (encode_varint v)"
  shows "decode_varint (pre @ take k (encode_varint v)) (length pre) = Inl ValueError"
proof -
  have "dec_tail (take k (encode_varint v) @ drop k (encode_varint v)) 0 0
      = Inr (nat (v mod 2 ^ 64), length (encode_varint v))"
    using varint_roundtrip [of "[]" v "[]"] by (simp add: decode_varint_tail)
  from dec_tail_prefix [OF this] assms show ?thesis
    by (simp add: decode_varint_tail min_def)
qed

theorem varint_truncated_witness:
  "1 < length (encode_varint 300) \<and>
   decode_varint ([] @ take 1 (encode_varint 300)) (length ([] :: bytes)) = Inl ValueError"
proof -
  have "1 < length (encode_varint 300)"
    by (simp add: length_encode_varint varint_len_def)
  with varint_truncated [OF this, of "[]"] show ?thesis by blast
qed

end
