(* ===== verification/PageHeader.thy ===== *)
theory PageHeader
  imports Constants Varint
begin

text \<open>
  \<open>btree/page.py\<close> without the leaf cells: page headers, the cell pointer array, interior nodes
  and the page-type byte. Every function that writes a page takes the \<open>bytearray\<close> and returns
  the new one; \<open>StructError\<close> stands for a field or an offset out of range.
\<close>

definition LEAF_PTR_ARRAY_START :: nat where "LEAF_PTR_ARRAY_START = LEAF_HEADER_SIZE + 4"
definition INTERIOR_PTR_ARRAY_START :: nat where "INTERIOR_PTR_ARRAY_START = INTERIOR_HEADER_SIZE"
definition LEAF_SIBLING_OFFSET :: nat where "LEAF_SIBLING_OFFSET = LEAF_HEADER_SIZE"

text \<open>\<open>struct.pack_into\<close> of several fields, each a width and a number.\<close>

definition pack_fields :: "(nat \<times> int) list \<Rightarrow> bytes res" where
  "pack_fields fs = bindR (mapR (\<lambda>(w, v). pack w v) fs) (\<lambda>bss. Inr (concat bss))"

definition pack_fields_into :: "(nat \<times> int) list \<Rightarrow> bytes \<Rightarrow> nat \<Rightarrow> bytes res" where
  "pack_fields_into fs buf off =
     bindR (pack_fields fs) (\<lambda>bs.
     if off + length bs \<le> length buf then Inr (blit buf off bs) else Inl StructError)"

section \<open>Headers\<close>

definition write_leaf_header :: "bytes \<Rightarrow> int \<Rightarrow> int \<Rightarrow> int \<Rightarrow> int \<Rightarrow> bytes res" where
  "write_leaf_header page num_cells cell_content_start first_freeblock fragmented_bytes =
     pack_fields_into
       [(1, int PAGE_LEAF_TABLE), (2, first_freeblock), (2, num_cells), (2, cell_content_start),
        (1, fragmented_bytes)] page 0"

definition read_leaf_header :: "bytes \<Rightarrow> (nat \<times> nat \<times> nat \<times> nat) res" where
  \<comment> \<open>\<open>(num_cells, cell_content_start, first_freeblock, fragmented_bytes)\<close>\<close>
  "read_leaf_header page =
     (if length page < 8 then Inl StructError
      else Inr (be_nat (pyslice page 3 5), be_nat (pyslice page 5 7), be_nat (pyslice page 1 3),
                be_nat (pyslice page 7 8)))"

definition write_interior_header :: "bytes \<Rightarrow> int \<Rightarrow> int \<Rightarrow> int \<Rightarrow> bytes res" where
  "write_interior_header page num_cells cell_content_start rightmost_child =
     pack_fields_into
       [(1, int PAGE_INTERIOR_TABLE), (2, 0), (2, num_cells), (2, cell_content_start), (1, 0),
        (4, rightmost_child)] page 0"

definition read_interior_header :: "bytes \<Rightarrow> (nat \<times> nat \<times> nat) res" where
  \<comment> \<open>\<open>(num_cells, cell_content_start, rightmost_child)\<close>\<close>
  "read_interior_header page =
     (if length page < 12 then Inl StructError
      else Inr (be_nat (pyslice page 3 5), be_nat (pyslice page 5 7), be_nat (pyslice page 8 12)))"

definition page_type :: "bytes \<Rightarrow> nat res" where
  "page_type page =
     bindR (unpack_from 1 page 0) (\<lambda>ptype.
     if ptype = PAGE_LEAF_TABLE \<or> ptype = PAGE_INTERIOR_TABLE then Inr ptype else Inl ValueError)"

section \<open>Cells and their pointers\<close>

definition insert_cell_ptr :: "bytes \<Rightarrow> nat \<Rightarrow> nat \<Rightarrow> nat \<Rightarrow> int \<Rightarrow> bytes res" where
  "insert_cell_ptr page header_size key_order_index num_cells_before cell_offset =
     (let insert_at = header_size + key_order_index * 2;
          tail_len = (num_cells_before - key_order_index) * 2;
          page' = if 0 < tail_len
                  then blit page (insert_at + 2) (pyslice page insert_at (insert_at + tail_len))
                  else page
      in pack_into 2 page' insert_at cell_offset)"

fun place_cells :: "bytes \<Rightarrow> int \<Rightarrow> bytes list \<Rightarrow> bytes \<times> int \<times> int list" where
  \<comment> \<open>the loop that lays cells out from \<open>write_pos\<close> downward: page, final position, pointers\<close>
  "place_cells page write_pos [] = (page, write_pos, [])"
| "place_cells page write_pos (c # cs) =
     (let wp = write_pos - int (length c);
          (page', final_pos, ptrs) = place_cells (blit_int page wp c) wp cs
      in (page', final_pos, wp # ptrs))"

fun write_ptrs :: "nat \<Rightarrow> bytes \<Rightarrow> int list \<Rightarrow> bytes res" where
  \<comment> \<open>the loop that writes the pointer array, from byte \<open>at\<close> on\<close>
  "write_ptrs at page [] = Inr page"
| "write_ptrs at page (p # ps) = bindR (pack_into 2 page at p) (\<lambda>page'. write_ptrs (at + 2) page' ps)"

definition leaf_of_cells :: "bytes \<Rightarrow> bytes list \<Rightarrow> bytes res" where
  \<comment> \<open>the tail every leaf writer shares: lay out the encoded cells, the pointers, the header\<close>
  "leaf_of_cells page raw_cells =
     (let (page', write_pos, ptrs) = place_cells page (int PAGE_SIZE) raw_cells in
      bindR (write_ptrs LEAF_PTR_ARRAY_START page' ptrs) (\<lambda>page''.
      write_leaf_header page'' (int (length raw_cells))
        (if raw_cells = [] then int PAGE_SIZE else write_pos) 0 0))"

section \<open>Interior nodes\<close>

definition interior_cell :: "nat \<Rightarrow> int \<Rightarrow> bytes res" where
  "interior_cell left_child key = bindR (pack 4 (int left_child)) (\<lambda>c. Inr (c @ encode_varint key))"

definition write_interior_node :: "bytes \<Rightarrow> int list \<Rightarrow> nat list \<Rightarrow> bytes res" where
  "write_interior_node page keys children =
     (if length children \<noteq> length keys + 1 then Inl ValueError
      else
        bindR (mapR (\<lambda>(c, k). interior_cell c k) (zip children keys)) (\<lambda>raw_cells.
        let (page', write_pos, ptrs) = place_cells page (int PAGE_SIZE) raw_cells in
        bindR (write_ptrs INTERIOR_PTR_ARRAY_START page' ptrs) (\<lambda>page''.
        write_interior_header page'' (int (length keys))
          (if keys = [] then int PAGE_SIZE else write_pos) (int (last children)))))"

definition read_interior_cell :: "bytes \<Rightarrow> nat \<Rightarrow> (nat \<times> int) res" where
  "read_interior_cell page i =
     bindR (unpack_from 2 page (INTERIOR_PTR_ARRAY_START + i * 2)) (\<lambda>ptr.
     bindR (unpack_from 4 page ptr) (\<lambda>left_child.
     bindR (decode_varint page (ptr + 4)) (\<lambda>(key, n).
     Inr (left_child, int key))))"

definition read_interior_node :: "bytes \<Rightarrow> (int list \<times> nat list) res" where
  "read_interior_node page =
     bindR (read_interior_header page) (\<lambda>(num_cells, ccs, rightmost).
     bindR (mapR (read_interior_cell page) [0..<num_cells]) (\<lambda>cells.
     Inr (map snd cells, map fst cells @ [rightmost])))"

section \<open>What the layout loops write\<close>

lemma blit_blit_before:
  "i + length ys + length zs \<le> length xs \<Longrightarrow> blit (blit xs (i + length ys) zs) i ys = blit xs i (ys @ zs)"
  by (rule nth_equalityI) (auto simp: nth_blit nth_append)

lemma blit_blit_after:
  "i + length ys + length zs \<le> length xs \<Longrightarrow> blit (blit xs i ys) (i + length ys) zs = blit xs i (ys @ zs)"
  by (rule nth_equalityI) (auto simp: nth_blit nth_append)

definition cells_size :: "bytes list \<Rightarrow> nat" where
  "cells_size raws = sum_list (map length raws)"

lemma cells_size_simps [simp]:
  "cells_size [] = 0" "cells_size (c # cs) = length c + cells_size cs"
  "cells_size (xs @ ys) = cells_size xs + cells_size ys" "cells_size (rev xs) = cells_size xs"
  by (simp_all add: cells_size_def flip: rev_map)

lemma length_concat_cells: "length (concat raws) = cells_size raws"
  by (simp add: cells_size_def length_concat)

lemma cells_size_split: "cells_size (take i raws) + cells_size (drop i raws) = cells_size raws"
  by (metis append_take_drop_id cells_size_simps(3))

definition cell_offsets :: "nat \<Rightarrow> bytes list \<Rightarrow> nat list" where
  "cell_offsets wp raws = map (\<lambda>i. wp - cells_size (take (Suc i) raws)) [0..<length raws]"

lemma cell_offsets_Cons:
  "cell_offsets wp (c # cs) = (wp - length c) # cell_offsets (wp - length c) cs"
  by (simp add: cell_offsets_def upt_conv_Cons map_Suc_upt [symmetric] del: upt_Suc)

lemma place_cells_closed:
  "cells_size raws \<le> wp \<Longrightarrow> wp \<le> length page \<Longrightarrow>
   place_cells page (int wp) raws =
     (blit page (wp - cells_size raws) (concat (rev raws)), int (wp - cells_size raws),
      map int (cell_offsets wp raws))"
proof (induction raws arbitrary: page wp)
  case Nil
  then show ?case by (simp add: cell_offsets_def)
next
  case (Cons c cs)
  let ?w = "wp - length c"
  have b: "blit_int page (int ?w) c = blit page ?w c"
    using Cons.prems by (subst blit_int_nonneg) (simp_all del: of_nat_diff)
  have i: "int wp - int (length c) = int ?w" using Cons.prems by simp
  have "blit (blit page ?w c) (?w - cells_size cs) (concat (rev cs))
      = blit page (?w - cells_size cs) (concat (rev cs) @ c)"
    using blit_blit_before [of "?w - cells_size cs" "concat (rev cs)" c page] Cons.prems
    by (simp add: length_concat_cells)
  moreover have "place_cells (blit page ?w c) (int ?w) cs
      = (blit (blit page ?w c) (?w - cells_size cs) (concat (rev cs)), int (?w - cells_size cs),
         map int (cell_offsets ?w cs))"
    using Cons.prems by (intro Cons.IH) auto
  ultimately show ?case
    by (simp only: place_cells.simps Let_def i b cell_offsets_Cons) simp
qed

lemma write_ptrs_closed:
  "\<forall>p \<in> set ps. p < 65536 \<Longrightarrow> at + 2 * length ps \<le> length page \<Longrightarrow>
   write_ptrs at page (map int ps) = Inr (blit page at (concat (map (be_bytes 2) ps)))"
proof (induction ps arbitrary: at page)
  case (Cons p ps)
  have "pack_into 2 page at (int p) = Inr (blit page at (be_bytes 2 p))"
    using Cons.prems by (intro pack_into_ok) auto
  moreover have "write_ptrs (at + 2) (blit page at (be_bytes 2 p)) (map int ps)
      = Inr (blit (blit page at (be_bytes 2 p)) (at + 2) (concat (map (be_bytes 2) ps)))"
    using Cons.prems by (intro Cons.IH) auto
  moreover have "length (concat (map (be_bytes 2) ps)) = 2 * length ps"
    by (induction ps) auto
  ultimately show ?case
    using blit_blit_after [of at "be_bytes 2 p" "concat (map (be_bytes 2) ps)" page] Cons.prems
    by simp
qed simp

lemma pyslice_concat_map:
  assumes "\<forall>x \<in> set xs. length (f x) = w" and "i < length xs"
  shows "pyslice (concat (map f xs)) (i * w) (i * w + w) = f (xs ! i)"
proof -
  have "length (concat (map f (take i xs))) = i * w"
    using assms by (induction xs arbitrary: i) (auto simp: take_Cons split: nat.splits)
  moreover have "concat (map f xs) = concat (map f (take i xs)) @ f (xs ! i) @ concat (map f (drop (Suc i) xs))"
    using id_take_nth_drop [OF assms(2)] by (metis concat.simps(2) concat_append list.simps(9) map_append)
  ultimately show ?thesis using assms by (auto intro!: pyslice_middle)
qed

definition cell_at :: "bytes \<Rightarrow> nat \<Rightarrow> nat \<Rightarrow> bytes \<Rightarrow> bool" where
  \<comment> \<open>slot \<open>i\<close> of the pointer array at \<open>start\<close> points to the bytes \<open>raw\<close>, behind the header\<close>
  "cell_at pg start i raw \<longleftrightarrow>
     (\<exists>ptr. unpack_from 2 pg (start + i * 2) = Inr ptr \<and> start \<le> ptr \<and> ptr + length raw \<le> length pg
          \<and> pyslice pg ptr (ptr + length raw) = raw)"

definition slotted :: "bytes \<Rightarrow> bytes list \<Rightarrow> nat \<Rightarrow> bytes \<Rightarrow> bytes" where
  "slotted page raws start hdr =
     blit (blit (blit page (PAGE_SIZE - cells_size raws) (concat (rev raws)))
            start (concat (map (be_bytes 2) (cell_offsets PAGE_SIZE raws)))) 0 hdr"

lemma length_ptr_bytes [simp]: "length (concat (map (be_bytes 2) ps)) = 2 * length ps"
  by (induction ps) auto

lemma length_cell_offsets [simp]: "length (cell_offsets wp raws) = length raws"
  by (simp add: cell_offsets_def)

lemma slotted_page:
  assumes len: "length page = PAGE_SIZE" and fit: "start + 2 * length raws + cells_size raws \<le> PAGE_SIZE"
    and hdr: "length hdr \<le> start"
  shows "length (slotted page raws start hdr) = PAGE_SIZE"
    and "pyslice (slotted page raws start hdr) 0 (length hdr) = hdr"
    and "pyslice (slotted page raws start hdr) (length hdr) start = pyslice page (length hdr) start"
    and "i < length raws \<Longrightarrow> cell_at (slotted page raws start hdr) start i (raws ! i)"
proof -
  define W where "W = PAGE_SIZE - cells_size raws"
  define P where "P = concat (map (be_bytes 2) (cell_offsets PAGE_SIZE raws))"
  define p1 where "p1 = blit page W (concat (rev raws))"
  define p2 where "p2 = blit p1 start P"
  have W: "W + cells_size raws = PAGE_SIZE" using fit by (simp add: W_def)
  have l1: "length p1 = PAGE_SIZE" using len W by (simp add: p1_def length_concat_cells)
  have l3: "length P = 2 * length raws" by (simp add: P_def)
  have l2: "length p2 = PAGE_SIZE" using l1 l3 fit by (simp add: p2_def)
  note lens = l1 l2 l3
  have pg: "slotted page raws start hdr = blit p2 0 hdr"
    by (simp add: slotted_def p2_def p1_def P_def W_def)
  show "length (slotted page raws start hdr) = PAGE_SIZE"
    and "pyslice (slotted page raws start hdr) 0 (length hdr) = hdr"
    using lens fit hdr by (simp_all add: pg)
  show "pyslice (slotted page raws start hdr) (length hdr) start = pyslice page (length hdr) start"
    unfolding pg p2_def p1_def using lens len fit hdr W
    by (simp add: pyslice_blit_other length_concat_cells)
  show "cell_at (slotted page raws start hdr) start i (raws ! i)" if i: "i < length raws"
  proof -
    define off where "off = W + cells_size (drop (Suc i) raws)"
    have split: "concat (rev raws) = concat (rev (drop (Suc i) raws)) @ raws ! i @ concat (rev (take i raws))"
      using id_take_nth_drop [OF i] by (metis append_Nil2 append_assoc concat.simps concat_append rev.simps rev_append)
    have size: "cells_size (take (Suc i) raws) + cells_size (drop (Suc i) raws) = cells_size raws"
      by (rule cells_size_split)
    have tk: "cells_size (take (Suc i) raws) = cells_size (take i raws) + length (raws ! i)"
      using i by (simp add: take_Suc_conv_app_nth)
    have off: "cell_offsets PAGE_SIZE raws ! i = off"
      using i size W by (simp add: cell_offsets_def off_def)
    have "pyslice (blit p2 0 hdr) (start + i * 2) (start + i * 2 + 2) = pyslice P (i * 2) (i * 2 + 2)"
      using lens fit hdr i by (simp add: pyslice_blit_other p2_def pyslice_blit_inside)
    also have "\<dots> = be_bytes 2 off"
      unfolding P_def using i by (subst pyslice_concat_map) (simp_all add: off)
    finally have ptr: "unpack_from 2 (blit p2 0 hdr) (start + i * 2) = Inr off"
      using lens fit hdr i W size tk
      by (simp add: unpack_from_ok off_def PAGE_SIZE_def)
    have low: "start + 2 * length raws \<le> off" using fit W by (simp add: off_def)
    then have "pyslice (blit p2 0 hdr) off (off + length (raws ! i)) = pyslice p1 off (off + length (raws ! i))"
      using lens fit hdr by (simp add: pyslice_blit_other p2_def)
    also have "\<dots> = raws ! i"
      unfolding p1_def using len W size tk
      by (subst pyslice_blit_inside) (auto simp: off_def length_concat_cells split intro!: pyslice_middle)
    finally show ?thesis
      unfolding cell_at_def pg using ptr lens fit hdr W size tk low by (auto simp: off_def)
  qed
qed

section \<open>Writing a page and reading it back\<close>

lemma pack_fields_ok:
  "\<forall>(w, v) \<in> set fs. v < 256 ^ w \<Longrightarrow>
   pack_fields (map (\<lambda>(w, v). (w, int v)) fs) = Inr (concat (map (\<lambda>(w, v). be_bytes w v) fs))"
proof -
  assume "\<forall>(w, v) \<in> set fs. v < 256 ^ w"
  then have "mapR (\<lambda>(w, v). pack w v) (map (\<lambda>(w, v). (w, int v)) fs) = Inr (map (\<lambda>(w, v). be_bytes w v) fs)"
    by (induction fs) (auto simp: pack_ok)
  then show ?thesis by (simp add: pack_fields_def)
qed

definition leaf_hdr :: "nat \<Rightarrow> nat \<Rightarrow> bytes" where
  "leaf_hdr n ccs = be_bytes 1 PAGE_LEAF_TABLE @ be_bytes 2 0 @ be_bytes 2 n @ be_bytes 2 ccs @ be_bytes 1 0"

definition interior_hdr :: "nat \<Rightarrow> nat \<Rightarrow> nat \<Rightarrow> bytes" where
  "interior_hdr n ccs right =
     be_bytes 1 PAGE_INTERIOR_TABLE @ be_bytes 2 0 @ be_bytes 2 n @ be_bytes 2 ccs @ be_bytes 1 0
     @ be_bytes 4 right"

lemma length_hdrs [simp]: "length (leaf_hdr n ccs) = 8" "length (interior_hdr n ccs r) = 12"
  by (simp_all add: leaf_hdr_def interior_hdr_def)

lemma write_leaf_header_ok:
  "n < 65536 \<Longrightarrow> ccs < 65536 \<Longrightarrow> 8 \<le> length page \<Longrightarrow>
   write_leaf_header page (int n) (int ccs) 0 0 = Inr (blit page 0 (leaf_hdr n ccs))"
  using pack_fields_ok [of "[(1, PAGE_LEAF_TABLE), (2, 0), (2, n), (2, ccs), (1, 0)]"]
  by (simp add: write_leaf_header_def pack_fields_into_def leaf_hdr_def PAGE_LEAF_TABLE_def)

lemma write_interior_header_ok:
  "n < 65536 \<Longrightarrow> ccs < 65536 \<Longrightarrow> right < 2 ^ 32 \<Longrightarrow> 12 \<le> length page \<Longrightarrow>
   write_interior_header page (int n) (int ccs) (int right) = Inr (blit page 0 (interior_hdr n ccs right))"
  using pack_fields_ok
    [of "[(1, PAGE_INTERIOR_TABLE), (2, 0), (2, n), (2, ccs), (1, 0), (4, right)]"]
  by (simp add: write_interior_header_def pack_fields_into_def interior_hdr_def PAGE_INTERIOR_TABLE_def)

lemma pyslice_prefix:
  "pyslice pg 0 (length hdr) = hdr \<Longrightarrow> j \<le> length hdr \<Longrightarrow> pyslice pg i j = pyslice hdr i j"
proof -
  assume "pyslice pg 0 (length hdr) = hdr" and j: "j \<le> length hdr"
  then have "take (length hdr) pg = hdr" by (simp add: pyslice_def)
  then have "pyslice hdr i j = pyslice (take (length hdr) pg) i j" by simp
  also have "\<dots> = pyslice pg i j" using j by (simp add: pyslice_def drop_take min_def)
  finally show ?thesis by simp
qed

lemma read_leaf_hdr:
  assumes "pyslice pg 0 8 = leaf_hdr n ccs" and "length pg = PAGE_SIZE" and "n < 65536" "ccs < 65536"
  shows "read_leaf_header pg = Inr (n, ccs, 0, 0)" and "page_type pg = Inr PAGE_LEAF_TABLE"
proof -
  have p: "j \<le> 8 \<Longrightarrow> pyslice pg i j = pyslice (leaf_hdr n ccs) i j" for i j
    using pyslice_prefix [of pg "leaf_hdr n ccs" j i] assms(1) by simp
  show "read_leaf_header pg = Inr (n, ccs, 0, 0)"
    using assms by (simp add: read_leaf_header_def p PAGE_SIZE_def) (simp add: leaf_hdr_def pyslice_def)
  show "page_type pg = Inr PAGE_LEAF_TABLE"
    using assms
    by (simp add: page_type_def unpack_from_def p PAGE_SIZE_def)
      (simp add: leaf_hdr_def pyslice_def PAGE_LEAF_TABLE_def)
qed

lemma read_interior_hdr:
  assumes "pyslice pg 0 12 = interior_hdr n ccs r" and "length pg = PAGE_SIZE"
    and "n < 65536" "ccs < 65536" "r < 2 ^ 32"
  shows "read_interior_header pg = Inr (n, ccs, r)" and "page_type pg = Inr PAGE_INTERIOR_TABLE"
proof -
  have p: "j \<le> 12 \<Longrightarrow> pyslice pg i j = pyslice (interior_hdr n ccs r) i j" for i j
    using pyslice_prefix [of pg "interior_hdr n ccs r" j i] assms(1) by simp
  show "read_interior_header pg = Inr (n, ccs, r)"
    using assms by (simp add: read_interior_header_def p PAGE_SIZE_def) (simp add: interior_hdr_def pyslice_def)
  show "page_type pg = Inr PAGE_INTERIOR_TABLE"
    using assms
    by (simp add: page_type_def unpack_from_def p PAGE_SIZE_def)
      (simp add: interior_hdr_def pyslice_def PAGE_LEAF_TABLE_def PAGE_INTERIOR_TABLE_def)
qed

lemma cell_offsets_bound: "\<forall>p \<in> set (cell_offsets PAGE_SIZE raws). p < 65536"
  by (auto simp: cell_offsets_def PAGE_SIZE_def)

lemma layout_run:
  assumes "length page = PAGE_SIZE" and "start + 2 * length raws + cells_size raws \<le> PAGE_SIZE"
  obtains page' page'' where
    "place_cells page (int PAGE_SIZE) raws =
       (page', int (PAGE_SIZE - cells_size raws), map int (cell_offsets PAGE_SIZE raws))"
    "write_ptrs start page' (map int (cell_offsets PAGE_SIZE raws)) = Inr page''"
    "length page'' = PAGE_SIZE"
    "\<And>hdr. blit page'' 0 hdr = slotted page raws start hdr"
proof
  let ?p = "blit page (PAGE_SIZE - cells_size raws) (concat (rev raws))"
  let ?q = "blit ?p start (concat (map (be_bytes 2) (cell_offsets PAGE_SIZE raws)))"
  show "place_cells page (int PAGE_SIZE) raws =
       (?p, int (PAGE_SIZE - cells_size raws), map int (cell_offsets PAGE_SIZE raws))"
    using assms by (intro place_cells_closed) auto
  have l: "length ?p = PAGE_SIZE" using assms by (simp add: length_concat_cells)
  show "write_ptrs start ?p (map int (cell_offsets PAGE_SIZE raws)) = Inr ?q"
    using assms l by (intro write_ptrs_closed cell_offsets_bound) simp
  show "length ?q = PAGE_SIZE" using assms l by simp
  show "blit ?q 0 hdr = slotted page raws start hdr" for hdr by (simp add: slotted_def)
qed

definition leaf_page :: "bytes \<Rightarrow> bytes list \<Rightarrow> nat \<Rightarrow> bool" where
  \<comment> \<open>a well-formed leaf: its raw cells in slot order and its sibling link\<close>
  "leaf_page pg raws sib \<longleftrightarrow>
     length pg = PAGE_SIZE \<and> page_type pg = Inr PAGE_LEAF_TABLE \<and>
     (\<exists>ccs fb fr. read_leaf_header pg = Inr (length raws, ccs, fb, fr)) \<and>
     (\<forall>i < length raws. cell_at pg LEAF_PTR_ARRAY_START i (raws ! i)) \<and>
     be_nat (pyslice pg 8 12) = sib"

lemma leaf_of_cells_ok:
  assumes len: "length page = PAGE_SIZE"
    and fit: "LEAF_PTR_ARRAY_START + 2 * length raws + cells_size raws \<le> PAGE_SIZE"
  shows "\<exists>pg. leaf_of_cells page raws = Inr pg \<and> leaf_page pg raws (be_nat (pyslice page 8 12))"
proof -
  let ?ccs = "PAGE_SIZE - cells_size raws"
  let ?pg = "slotted page raws LEAF_PTR_ARRAY_START (leaf_hdr (length raws) ?ccs)"
  have bounds: "length raws < 65536" "?ccs < 65536" "LEAF_PTR_ARRAY_START = 12"
    using fit by (simp_all add: PAGE_SIZE_def LEAF_PTR_ARRAY_START_def LEAF_HEADER_SIZE_def)
  obtain page' page'' where run: "place_cells page (int PAGE_SIZE) raws =
       (page', int ?ccs, map int (cell_offsets PAGE_SIZE raws))"
    "write_ptrs LEAF_PTR_ARRAY_START page' (map int (cell_offsets PAGE_SIZE raws)) = Inr page''"
    "length page'' = PAGE_SIZE" "\<And>hdr. blit page'' 0 hdr = slotted page raws LEAF_PTR_ARRAY_START hdr"
    by (rule layout_run [OF len fit]) blast
  have ccs: "(if raws = [] then int PAGE_SIZE else int ?ccs) = int ?ccs" by simp
  have "8 \<le> length page''" using run(3) by (simp add: PAGE_SIZE_def)
  from write_leaf_header_ok [OF bounds(1,2) this] have "leaf_of_cells page raws = Inr ?pg"
    by (simp add: leaf_of_cells_def run(1,2,4) ccs del: of_nat_diff)
  moreover note props = slotted_page [OF len fit, of "leaf_hdr (length raws) ?ccs"]
  have "leaf_page ?pg raws (be_nat (pyslice page 8 12))"
    unfolding leaf_page_def
    using props read_leaf_hdr [of ?pg "length raws" ?ccs] bounds by auto
  ultimately show ?thesis by blast
qed

definition interior_cells :: "int list \<Rightarrow> nat list \<Rightarrow> bytes list" where
  "interior_cells keys children = map (\<lambda>(c, k). be_bytes 4 c @ encode_varint k) (zip children keys)"

definition interior_page :: "bytes \<Rightarrow> int list \<Rightarrow> nat list \<Rightarrow> bool" where
  \<comment> \<open>a well-formed interior page with these keys and children\<close>
  "interior_page pg keys children \<longleftrightarrow>
     length pg = PAGE_SIZE \<and> page_type pg = Inr PAGE_INTERIOR_TABLE
     \<and> read_interior_node pg = Inr (keys, children)
     \<and> (\<exists>ccs. read_interior_header pg = Inr (length keys, ccs, last children))"

definition key_ok :: "int \<Rightarrow> bool" where
  \<comment> \<open>a rowid the varint codec stores without loss\<close>
  "key_ok k \<longleftrightarrow> 0 \<le> k \<and> k < 2 ^ 64"

lemma drop_of_pyslice:
  "pyslice pg p (p + length r) = r \<Longrightarrow> p + length r \<le> length pg \<Longrightarrow> drop p pg = r @ drop (p + length r) pg"
  by (metis add.commute append_take_drop_id add_diff_cancel_left' drop_drop pyslice_def)

lemma read_interior_cell_ok:
  assumes "cell_at pg INTERIOR_PTR_ARRAY_START i (be_bytes 4 c @ encode_varint k)"
    and "c < 2 ^ 32" and "key_ok k"
  shows "read_interior_cell pg i = Inr (c, k)"
proof -
  let ?raw = "be_bytes 4 c @ encode_varint k"
  obtain ptr where ptr: "unpack_from 2 pg (INTERIOR_PTR_ARRAY_START + i * 2) = Inr ptr"
    "ptr + length ?raw \<le> length pg" "pyslice pg ptr (ptr + length ?raw) = ?raw"
    using assms(1) by (auto simp: cell_at_def)
  have d: "drop ptr pg = ?raw @ drop (ptr + length ?raw) pg"
    using ptr(2,3) by (intro drop_of_pyslice)
  have "pyslice pg ptr (ptr + 4) = be_bytes 4 c"
    by (simp add: pyslice_def d)
  then have c: "unpack_from 4 pg ptr = Inr c"
    using ptr(2) assms(2) by (simp add: unpack_from_ok)
  have "drop (ptr + 4) pg = drop 4 (drop ptr pg)" by (simp add: add.commute)
  then have "drop (ptr + 4) pg = encode_varint k @ drop (ptr + length ?raw) pg" by (simp add: d)
  then have "decode_varint pg (ptr + 4) = Inr (nat k, length (encode_varint k))"
    using assms(3) by (intro varint_roundtrip_nonneg) (auto simp: key_ok_def)
  then show ?thesis
    using ptr(1) c assms(3) by (simp add: read_interior_cell_def key_ok_def)
qed

lemma write_interior_node_ok:
  assumes len: "length page = PAGE_SIZE" and lens: "length children = length keys + 1"
    and fit: "INTERIOR_PTR_ARRAY_START + 2 * length keys + cells_size (interior_cells keys children) \<le> PAGE_SIZE"
    and keys: "\<forall>k \<in> set keys. key_ok k" and ch: "\<forall>c \<in> set children. c < 2 ^ 32"
  shows "\<exists>pg. write_interior_node page keys children = Inr pg \<and> interior_page pg keys children"
proof -
  let ?raws = "interior_cells keys children"
  let ?ccs = "PAGE_SIZE - cells_size ?raws"
  let ?hdr = "interior_hdr (length keys) ?ccs (last children)"
  let ?pg = "slotted page ?raws INTERIOR_PTR_ARRAY_START ?hdr"
  have n: "length ?raws = length keys" using lens by (simp add: interior_cells_def)
  have bounds: "length keys < 65536" "?ccs < 65536" "INTERIOR_PTR_ARRAY_START = 12"
    using fit by (simp_all add: PAGE_SIZE_def INTERIOR_PTR_ARRAY_START_def INTERIOR_HEADER_SIZE_def)
  have last: "last children < 2 ^ 32" using ch lens by (cases children) auto
  have cells: "mapR (\<lambda>(c, k). interior_cell c k) (zip children keys) = Inr ?raws"
    unfolding interior_cells_def using ch
    by (intro mapR_Inr) (auto simp: interior_cell_def pack_ok dest: set_zip_leftD)
  have fit': "INTERIOR_PTR_ARRAY_START + 2 * length ?raws + cells_size ?raws \<le> PAGE_SIZE"
    using fit by (simp add: n)
  obtain page' page'' where run: "place_cells page (int PAGE_SIZE) ?raws =
       (page', int ?ccs, map int (cell_offsets PAGE_SIZE ?raws))"
    "write_ptrs INTERIOR_PTR_ARRAY_START page' (map int (cell_offsets PAGE_SIZE ?raws)) = Inr page''"
    "length page'' = PAGE_SIZE" "\<And>hdr. blit page'' 0 hdr = slotted page ?raws INTERIOR_PTR_ARRAY_START hdr"
    by (rule layout_run [OF len fit']) blast
  have ccs: "(if keys = [] then int PAGE_SIZE else int ?ccs) = int ?ccs"
    by (simp add: interior_cells_def)
  have "12 \<le> length page''" using run(3) by (simp add: PAGE_SIZE_def)
  from write_interior_header_ok [OF bounds(1,2) last this]
  have w: "write_interior_node page keys children = Inr ?pg"
    using lens by (simp add: write_interior_node_def cells run(1,2,4) ccs del: of_nat_diff)
  note props = slotted_page [OF len fit', of ?hdr]
  have hdr: "read_interior_header ?pg = Inr (length keys, ?ccs, last children)"
    "page_type ?pg = Inr PAGE_INTERIOR_TABLE"
    using read_interior_hdr [of ?pg "length keys" ?ccs "last children"] props bounds last by auto
  have "read_interior_cell ?pg i = Inr (children ! i, keys ! i)" if "i < length keys" for i
    using that props(4) [of i] keys ch lens n bounds
    by (intro read_interior_cell_ok) (auto simp: interior_cells_def)
  then have "mapR (read_interior_cell ?pg) [0..<length keys] = Inr (map (\<lambda>i. (children ! i, keys ! i)) [0..<length keys])"
    by (intro mapR_Inr) simp
  moreover have "map ((!) children) [0..<length keys] @ [last children] = children"
  proof -
    have "last children = children ! length keys" using lens by (subst last_conv_nth) auto
    then show ?thesis using lens by (intro nth_equalityI) (auto simp: nth_append less_Suc_eq)
  qed
  ultimately have "read_interior_node ?pg = Inr (keys, children)"
    by (simp add: read_interior_node_def hdr o_def map_nth)
  then show ?thesis using w props(1) hdr bounds by (auto simp: interior_page_def)
qed

end
