(* ===== verification/PagerOps.thy ===== *)
theory PagerOps
  imports PageHeader
begin

text \<open>
  The interface between the pager and everything above it. The B+tree, freelist and overflow
  code is duck-typed: it calls methods of whatever \<open>pager\<close> object it is given. A pager class
  is here a record of its methods over a state \<open>'s\<close>; \<open>store_ops\<close> is the reference pager, a
  plain table of pages. The locale \<open>page_store\<close> states what an implementation promises: each
  method refines the reference method. Its lemmas lift that refinement through the control
  structures, so that a routine proved on the reference pager holds on every implementation.
\<close>

section \<open>Pager objects\<close>

record 's pager_ops =
  op_page_size :: "'s \<Rightarrow> nat"
  op_read_page :: "nat \<Rightarrow> ('s, bytes) pm"
  op_write_page :: "nat \<Rightarrow> bytes \<Rightarrow> ('s, unit) pm"
  op_extend_file :: "('s, nat) pm"
  op_read_hdr :: "hdr_field \<Rightarrow> ('s, nat) pm"
  op_update_hdr :: "hdr_field \<Rightarrow> nat \<Rightarrow> ('s, unit) pm"
  op_record_before :: "nat \<Rightarrow> bytes \<Rightarrow> ('s, unit) pm" \<comment> \<open>\<open>journal.record_before_image\<close>\<close>
  op_has_journal :: "'s \<Rightarrow> bool" \<comment> \<open>\<open>pager._journal is not None\<close>\<close>
  op_wal_mode :: "'s \<Rightarrow> bool"
  op_root_page_no :: nat

section \<open>The reference pager\<close>

record store =
  st_pages :: "nat \<Rightarrow> bytes"
  st_journal :: bool
  st_wal :: bool

definition store_hdr :: "store \<Rightarrow> hdr_field \<Rightarrow> nat" where
  "store_hdr st f = be_nat (pyslice (st_pages st 1) (hdr_offset f) (hdr_offset f + hdr_width f))"

definition store_read :: "nat \<Rightarrow> (store, bytes) pm" where
  "store_read n st = (if n = 0 then (Inl OSError, st) else (Inr (st_pages st n), st))"

text \<open>
  The reference pager is strict: it refuses what no caller may do. Pages are written inside the
  file only and never over the header page, the header fields of the freelist are the only ones a
  caller sets, and a before-image must be the current content of a possible page. A run of the reference
  pager that returns is therefore also a proof that the pager was used correctly.
\<close>

definition store_write :: "nat \<Rightarrow> bytes \<Rightarrow> (store, unit) pm" where
  "store_write n data st =
     (if n \<le> 1 \<or> store_hdr st HDbSize < n then (Inl OSError, st)
      else if length data \<noteq> PAGE_SIZE then (Inl ValueError, st)
      else (Inr (), st\<lparr>st_pages := (st_pages st)(n := data)\<rparr>))"

definition store_put_hdr :: "hdr_field \<Rightarrow> nat \<Rightarrow> (store, unit) pm" where
  "store_put_hdr f v st =
     (case pack_into (hdr_width f) (st_pages st 1) (hdr_offset f) (int v) of
        Inl e \<Rightarrow> (Inl e, st)
      | Inr page \<Rightarrow> (Inr (), st\<lparr>st_pages := (st_pages st)(1 := page)\<rparr>))"

definition store_update_hdr :: "hdr_field \<Rightarrow> nat \<Rightarrow> (store, unit) pm" where
  "store_update_hdr f v =
     (if f = HFirstTrunk \<or> f = HFreelistCount then store_put_hdr f v else raiseS RuntimeErr)"

definition store_record :: "nat \<Rightarrow> bytes \<Rightarrow> (store, unit) pm" where
  "store_record n data st =
     (if 1 \<le> n \<and> n < 2 ^ 32 \<and> data = st_pages st n then (Inr (), st) else (Inl RuntimeErr, st))"

definition store_read_hdr :: "hdr_field \<Rightarrow> (store, nat) pm" where
  "store_read_hdr f st = (unpack_from (hdr_width f) (st_pages st 1) (hdr_offset f), st)"

definition store_extend :: "(store, nat) pm" where
  "store_extend =
     bindS (store_read_hdr HDbSize) (\<lambda>current_size.
     bindS (modifyS (\<lambda>st. st\<lparr>st_pages := (st_pages st)(current_size + 1 := replicate PAGE_SIZE 0)\<rparr>)) (\<lambda>_.
     bindS (store_put_hdr HDbSize (current_size + 1)) (\<lambda>_.
     retS (current_size + 1))))"

definition store_ops :: "store pager_ops" where
  "store_ops = \<lparr>
     op_page_size = (\<lambda>_. PAGE_SIZE),
     op_read_page = store_read,
     op_write_page = store_write,
     op_extend_file = store_extend,
     op_read_hdr = store_read_hdr,
     op_update_hdr = store_update_hdr,
     op_record_before = store_record,
     op_has_journal = st_journal,
     op_wal_mode = st_wal,
     op_root_page_no = 2\<rparr>"

lemma store_ops_simps [simp]:
  "op_page_size store_ops st = PAGE_SIZE" "op_read_page store_ops = store_read"
  "op_write_page store_ops = store_write" "op_extend_file store_ops = store_extend"
  "op_read_hdr store_ops = store_read_hdr" "op_update_hdr store_ops = store_update_hdr"
  "op_record_before store_ops = store_record" "op_has_journal store_ops = st_journal"
  "op_wal_mode store_ops = st_wal" "op_root_page_no store_ops = 2"
  by (simp_all add: store_ops_def)

section \<open>Refinement between computations\<close>

definition refines :: "('s \<Rightarrow> bool) \<Rightarrow> ('s \<Rightarrow> 't) \<Rightarrow> ('s, 'a) pm \<Rightarrow> ('t, 'a) pm \<Rightarrow> bool" where
  \<comment> \<open>where the reference run returns, the implementation returns the same from any state it
     abstracts to, and its new state abstracts to the new reference state\<close>
  "refines ok view m m' \<longleftrightarrow>
     (\<forall>s x t. ok s \<longrightarrow> m' (view s) = (Inr x, t) \<longrightarrow>
        (\<exists>s'. m s = (Inr x, s') \<and> ok s' \<and> view s' = t))"

named_theorems refine_intros

lemma refinesI:
  "(\<And>s x t. ok s \<Longrightarrow> m' (view s) = (Inr x, t) \<Longrightarrow> \<exists>s'. m s = (Inr x, s') \<and> ok s' \<and> view s' = t)
   \<Longrightarrow> refines ok view m m'"
  by (auto simp: refines_def)

lemma refinesD:
  "refines ok view m m' \<Longrightarrow> ok s \<Longrightarrow> m' (view s) = (Inr x, t) \<Longrightarrow>
   \<exists>s'. m s = (Inr x, s') \<and> ok s' \<and> view s' = t"
  by (auto simp: refines_def)

lemma refines_ret [refine_intros]: "refines ok view (retS x) (retS x)"
  by (auto intro: refinesI)

lemma refines_raise [refine_intros]: "refines ok view (raiseS e) (raiseS e')"
  by (auto intro: refinesI)

lemma refines_lift [refine_intros]: "refines ok view (liftR r) (liftR r)"
  by (auto intro: refinesI)

lemma refines_bind [refine_intros]:
  assumes "refines ok view m m'" and "\<And>x. refines ok view (f x) (f' x)"
  shows "refines ok view (bindS m f) (bindS m' f')"
proof (rule refinesI)
  fix s x t assume ok: "ok s" and run: "bindS m' f' (view s) = (Inr x, t)"
  then obtain y u where y: "m' (view s) = (Inr y, u)" and f: "f' y u = (Inr x, t)"
    by (auto simp: bindS_def split: prod.splits sum.splits)
  obtain s1 where s1: "m s = (Inr y, s1)" "ok s1" "view s1 = u"
    using refinesD [OF assms(1) ok y] by blast
  then obtain s' where "f y s1 = (Inr x, s')" "ok s'" "view s' = t"
    using refinesD [OF assms(2)] f by blast
  with s1(1) show "\<exists>s'. bindS m f s = (Inr x, s') \<and> ok s' \<and> view s' = t"
    by (auto simp: bindS_def)
qed

lemma refines_bind_lift:
  "(\<And>x. r = Inr x \<Longrightarrow> refines ok view (f x) (f' x)) \<Longrightarrow>
   refines ok view (bindS (liftR r) f) (bindS (liftR r) f')"
  by (cases r) (auto intro: refines_raise)

lemma refines_if [refine_intros]:
  "(b \<Longrightarrow> refines ok view m m') \<Longrightarrow> (\<not> b \<Longrightarrow> refines ok view n n') \<Longrightarrow>
   refines ok view (if b then m else n) (if b then m' else n')"
  by simp

lemma refines_case_prod [refine_intros]:
  "(\<And>a b. refines ok view (f a b) (f' a b)) \<Longrightarrow>
   refines ok view (case p of (a, b) \<Rightarrow> f a b) (case p of (a, b) \<Rightarrow> f' a b)"
  by (cases p) simp

lemma refines_case_option [refine_intros]:
  "refines ok view m m' \<Longrightarrow> (\<And>a. refines ok view (f a) (f' a)) \<Longrightarrow>
   refines ok view (case x of None \<Rightarrow> m | Some a \<Rightarrow> f a) (case x of None \<Rightarrow> m' | Some a \<Rightarrow> f' a)"
  by (cases x) simp_all

lemma refines_case_list [refine_intros]:
  "refines ok view m m' \<Longrightarrow> (\<And>a as. refines ok view (f a as) (f' a as)) \<Longrightarrow>
   refines ok view (case xs of [] \<Rightarrow> m | a # as \<Rightarrow> f a as) (case xs of [] \<Rightarrow> m' | a # as \<Rightarrow> f' a as)"
  by (cases xs) simp_all

lemma refines_let [refine_intros]:
  "(\<And>x. refines ok view (f x) (f' x)) \<Longrightarrow> refines ok view (let x = a in f x) (let x = a in f' x)"
  by simp

lemma refines_mapS [refine_intros]:
  "(\<And>x. refines ok view (f x) (f' x)) \<Longrightarrow> refines ok view (mapS f xs) (mapS f' xs)"
  by (induction xs) (auto intro!: refine_intros)

lemma refines_forS [refine_intros]:
  "(\<And>x. refines ok view (f x) (f' x)) \<Longrightarrow> refines ok view (forS f xs) (forS f' xs)"
  by (induction xs) (auto intro!: refine_intros)

section \<open>The contract of a pager\<close>

text \<open>What reading needs: a pager that is only read keeps any condition \<open>ok\<close> that reading keeps.\<close>

locale page_reader =
  fixes ops :: "'s pager_ops" and view :: "'s \<Rightarrow> store" and ok :: "'s \<Rightarrow> bool"
  assumes page_size: "ok s \<Longrightarrow> op_page_size ops s = PAGE_SIZE"
    and read_page: "refines ok view (op_read_page ops n) (op_read_page store_ops n)"
    and read_hdr: "refines ok view (op_read_hdr ops f) (op_read_hdr store_ops f)"
begin

lemmas read_refines = read_page read_hdr

lemma page_size_refines: "refines ok view (getS (op_page_size ops)) (getS (op_page_size store_ops))"
  by (auto intro!: refinesI simp: page_size)

text \<open>The use of a refinement: a run of the reference pager is a run of this pager.\<close>

lemma run:
  assumes "refines ok view m m'" and "ok s" and "m' (view s) = (Inr x, t)"
  obtains s' where "m s = (Inr x, s')" "ok s'" "view s' = t"
  using refinesD [OF assms] by blast

end

text \<open>What the tree, the freelist and the overflow chains need.\<close>

locale page_store = page_reader +
  assumes write_page: "refines ok view (op_write_page ops n data) (op_write_page store_ops n data)"
    and extend_file: "refines ok view (op_extend_file ops) (op_extend_file store_ops)"
    and update_hdr: "refines ok view (op_update_hdr ops f v) (op_update_hdr store_ops f v)"
    and record_before:
      "refines ok view (op_record_before ops n data) (op_record_before store_ops n data)"
    and has_journal: "ok s \<Longrightarrow> op_has_journal ops s = st_journal (view s)"
    and wal_mode: "ok s \<Longrightarrow> op_wal_mode ops s = st_wal (view s)"
    and root_page_no: "op_root_page_no ops = 2"
begin

lemmas op_refines = read_page write_page extend_file read_hdr update_hdr record_before

lemma get_refines:
  "refines ok view (getS (op_page_size ops)) (getS (op_page_size store_ops))"
  "refines ok view (getS (op_has_journal ops)) (getS (op_has_journal store_ops))"
  "refines ok view (getS (op_wal_mode ops)) (getS (op_wal_mode store_ops))"
  by (auto intro!: refinesI simp: page_size has_journal wal_mode)

lemma root_same: "op_root_page_no ops = op_root_page_no store_ops"
  by (simp add: root_page_no)

end

section \<open>Runs of the reference pager\<close>

definition set_hdr :: "hdr_field \<Rightarrow> nat \<Rightarrow> store \<Rightarrow> store" where
  "set_hdr f v st =
     st\<lparr>st_pages := (st_pages st)(1 := blit (st_pages st 1) (hdr_offset f) (be_bytes (hdr_width f) v))\<rparr>"

definition set_page :: "nat \<Rightarrow> bytes \<Rightarrow> store \<Rightarrow> store" where
  "set_page n data st = st\<lparr>st_pages := (st_pages st)(n := data)\<rparr>"

definition hdr_page_ok :: "store \<Rightarrow> bool" where
  "hdr_page_ok st \<longleftrightarrow> length (st_pages st 1) = PAGE_SIZE"

named_theorems store_run \<comment> \<open>how each method of the reference pager runs\<close>

lemma store_read_run [store_run]: "n \<noteq> 0 \<Longrightarrow> store_read n st = (Inr (st_pages st n), st)"
  by (simp add: store_read_def)

lemma store_write_run [store_run]:
  "1 < n \<Longrightarrow> n \<le> store_hdr st HDbSize \<Longrightarrow> length data = PAGE_SIZE \<Longrightarrow>
   store_write n data st = (Inr (), set_page n data st)"
  by (simp add: store_write_def set_page_def)

lemma store_read_hdr_run [store_run]:
  "hdr_page_ok st \<Longrightarrow> store_read_hdr f st = (Inr (store_hdr st f), st)"
  using hdr_in_page [of f]
  by (simp add: store_read_hdr_def store_hdr_def unpack_from_ok hdr_page_ok_def PAGE_SIZE_def)

lemma store_put_hdr_run [store_run]:
  "hdr_page_ok st \<Longrightarrow> v < 256 ^ hdr_width f \<Longrightarrow> store_put_hdr f v st = (Inr (), set_hdr f v st)"
  using hdr_in_page [of f]
  by (simp add: store_put_hdr_def set_hdr_def pack_into_ok hdr_page_ok_def PAGE_SIZE_def)

lemma store_update_hdr_run [store_run]:
  "hdr_page_ok st \<Longrightarrow> v < 256 ^ hdr_width HFirstTrunk \<Longrightarrow>
   store_update_hdr HFirstTrunk v st = (Inr (), set_hdr HFirstTrunk v st)"
  "hdr_page_ok st \<Longrightarrow> v < 256 ^ hdr_width HFreelistCount \<Longrightarrow>
   store_update_hdr HFreelistCount v st = (Inr (), set_hdr HFreelistCount v st)"
  by (simp_all add: store_update_hdr_def store_put_hdr_run)

lemma store_record_run [store_run, simp]:
  "1 \<le> n \<Longrightarrow> n < 2 ^ 32 \<Longrightarrow> data = st_pages st n \<Longrightarrow> store_record n data st = (Inr (), st)"
  by (simp add: store_record_def)

lemma journal_runs [simp]:
  \<comment> \<open>the guarded calls \<open>if journal is not None: journal.record_before_image(...)\<close>\<close>
  "1 \<le> n \<Longrightarrow> n < 2 ^ 32 \<Longrightarrow> data = st_pages st n \<Longrightarrow> (if jr then store_record n data else retS ()) st = (Inr (), st)"
  "(if jr then (\<lambda>s. (Inr (), s)) else retS ()) st = (Inr (), st)"
  by simp_all

lemma set_hdr_ok [simp]: "hdr_page_ok st \<Longrightarrow> hdr_page_ok (set_hdr f v st)"
  using hdr_in_page [of f] by (simp add: hdr_page_ok_def set_hdr_def PAGE_SIZE_def)

lemma set_page_ok [simp]: "hdr_page_ok st \<Longrightarrow> n \<noteq> 1 \<Longrightarrow> hdr_page_ok (set_page n data st)"
  by (simp add: hdr_page_ok_def set_page_def)

lemma store_hdr_set_page [simp]: "n \<noteq> 1 \<Longrightarrow> store_hdr (set_page n data st) f = store_hdr st f"
  by (simp add: store_hdr_def set_page_def)

lemma store_hdr_set_hdr [simp]:
  assumes "hdr_page_ok st" and "v < 256 ^ hdr_width f"
  shows "store_hdr (set_hdr f v st) g = (if f = g then v else store_hdr st g)"
proof (cases "f = g")
  case True
  then show ?thesis
    using assms hdr_in_page [of f]
    by (simp add: store_hdr_def set_hdr_def hdr_page_ok_def PAGE_SIZE_def)
next
  case False
  then show ?thesis
    using assms hdr_in_page [of f] hdr_disjoint [OF False]
    by (auto simp: store_hdr_def set_hdr_def hdr_page_ok_def PAGE_SIZE_def pyslice_blit_other)
qed

lemma pages_set_hdr [simp]: "n \<noteq> 1 \<Longrightarrow> st_pages (set_hdr f v st) n = st_pages st n"
  by (simp add: set_hdr_def)

lemma pages_set_page [simp]: "st_pages (set_page n data st) m = (if m = n then data else st_pages st m)"
  by (simp add: set_page_def)

lemma st_flags_set [simp]:
  "st_journal (set_hdr f v st) = st_journal st" "st_wal (set_hdr f v st) = st_wal st"
  "st_journal (set_page n d st) = st_journal st" "st_wal (set_page n d st) = st_wal st"
  by (simp_all add: set_hdr_def set_page_def)

lemma store_extend_run [store_run]:
  assumes "hdr_page_ok st" and "store_hdr st HDbSize + 1 < 2 ^ 32" and "store_hdr st HDbSize \<noteq> 0"
  shows "store_extend st = (Inr (store_hdr st HDbSize + 1),
    set_hdr HDbSize (store_hdr st HDbSize + 1)
      (set_page (store_hdr st HDbSize + 1) (replicate PAGE_SIZE 0) st))"
proof -
  let ?n = "store_hdr st HDbSize + 1"
  have "hdr_page_ok (set_page ?n (replicate PAGE_SIZE 0) st)" using assms by simp
  then show ?thesis
    using assms by (simp add: store_extend_def bindS_def store_run set_page_def)
qed

lemma store_hdr_bound: "hdr_page_ok st \<Longrightarrow> store_hdr st f < 256 ^ hdr_width f"
  using be_nat_bound [of "pyslice (st_pages st 1) (hdr_offset f) (hdr_offset f + hdr_width f)"] hdr_in_page [of f]
  by (auto simp: store_hdr_def hdr_page_ok_def PAGE_SIZE_def min_def split: if_splits)

definition fresh_store :: "nat \<Rightarrow> store" where
  \<comment> \<open>a database of \<open>n\<close> pages whose header says so, everything else zero\<close>
  "fresh_store n =
     \<lparr>st_pages = (\<lambda>p. if p = 1 then blit (replicate PAGE_SIZE 0) 28 (be_bytes 4 n)
                    else replicate PAGE_SIZE 0),
      st_journal = False, st_wal = True\<rparr>"

lemma be_nat_zeros [simp]: "be_nat (replicate k 0) = 0"
proof (induction k)
  case (Suc k)
  then show ?case by (simp only: replicate_Suc replicate_append_same [symmetric] be_nat_snoc) simp
qed simp

lemma pyslice_replicate: "j \<le> n \<Longrightarrow> pyslice (replicate n x) i j = replicate (j - i) x"
  by (simp add: pyslice_def min_def)

lemma fresh_store_hdr:
  assumes "n < 2 ^ 32"
  shows "hdr_page_ok (fresh_store n)" and "store_hdr (fresh_store n) HDbSize = n"
    and "store_hdr (fresh_store n) HFirstTrunk = 0" and "store_hdr (fresh_store n) HFreelistCount = 0"
  using assms
  by (simp_all add: hdr_page_ok_def store_hdr_def fresh_store_def PAGE_SIZE_def pyslice_blit_other
      pyslice_replicate)

end
