(* ===== verification/FileIO.thy ===== *)
theory FileIO
  imports PagerOps
begin

text \<open>
  The files under the pager. A file is its durable bytes and the writes since its last sync; a
  running process reads the file with all of them applied, a crash keeps any torn part of each of
  them. The two sidecar files (rollback journal and write-ahead log) also have a directory entry,
  which a crash may set back until the directory is synced. \<open>fsync(2)\<close> does not promise that syncing a
  new file makes its entry durable, and some file systems do it all the same: the field \<open>d_links\<close> says
  whether this one does, and a theorem that needs it says so. A write call writes everything or fails;
  a short count, which the code would not notice, is not modelled. \<open>io.py\<close>, the choice of the flush primitive, is
  translated at the end.
\<close>

section \<open>Reading and writing bytes\<close>

definition pread :: "bytes \<Rightarrow> nat \<Rightarrow> nat \<Rightarrow> bytes" where
  \<comment> \<open>\<open>os.pread(fd, n, off)\<close>: short at the end of the file\<close>
  "pread f n off = take n (drop off f)"

definition pwrite :: "bytes \<Rightarrow> bytes \<Rightarrow> nat \<Rightarrow> bytes" where
  \<comment> \<open>\<open>os.pwrite(fd, data, off)\<close>: a gap before \<open>off\<close> reads as zeros\<close>
  "pwrite f data off =
     (if data = [] then f else blit (f @ replicate (off - length f) 0) off data)"

definition ftruncate :: "bytes \<Rightarrow> nat \<Rightarrow> bytes" where
  "ftruncate f n = take n f @ replicate (n - length f) 0"

definition byte_at :: "bytes \<Rightarrow> nat \<Rightarrow> byte" where
  "byte_at f i = (if i < length f then f ! i else 0)"

lemma length_pread [simp]: "length (pread f n off) = min n (length f - off)"
  by (simp add: pread_def)

lemma length_pwrite: "length (pwrite f data off) = (if data = [] then length f else max (length f) (off + length data))"
  by (auto simp: pwrite_def blit_def)

lemma byte_at_pwrite [simp]:
  "byte_at (pwrite f data off) i =
     (if off \<le> i \<and> i < off + length data then data ! (i - off) else byte_at f i)"
proof (cases "data = []")
  case False
  let ?f = "f @ replicate (off - length f) 0"
  have f: "byte_at ?f i = byte_at f i" for i by (simp add: byte_at_def nth_append)
  have "off \<le> length ?f" by simp
  then have "byte_at (blit ?f off data) i =
      (if off \<le> i \<and> i < off + length data then data ! (i - off) else byte_at ?f i)"
    by (auto simp: byte_at_def blit_def nth_append min_def)
  with False f show ?thesis by (simp add: pwrite_def)
qed (auto simp: pwrite_def)

lemma pread_nth: "i < n \<Longrightarrow> off + i < length f \<Longrightarrow> pread f n off ! i = byte_at f (off + i)"
  by (simp add: pread_def byte_at_def)

lemma bytes_eqI: "length f = length g \<Longrightarrow> (\<And>i. i < length f \<Longrightarrow> byte_at f i = byte_at g i) \<Longrightarrow> f = g"
  by (rule nth_equalityI) (auto simp: byte_at_def)

lemma pread_cong:
  "off + n \<le> length f \<Longrightarrow> off + n \<le> length g \<Longrightarrow> (\<And>i. off \<le> i \<Longrightarrow> i < off + n \<Longrightarrow> byte_at f i = byte_at g i)
   \<Longrightarrow> pread f n off = pread g n off"
  by (rule nth_equalityI) (auto simp: pread_nth)

lemma take_cong_bytes:
  "n \<le> length f \<Longrightarrow> n \<le> length g \<Longrightarrow> (\<And>i. i < n \<Longrightarrow> byte_at f i = byte_at g i) \<Longrightarrow> take n f = take n g"
  by (rule nth_equalityI) (auto simp: byte_at_def)

section \<open>Pages of a file\<close>

definition page_img :: "bytes \<Rightarrow> nat \<Rightarrow> bytes" where
  \<comment> \<open>page \<open>n\<close> of the file, zero where the file is short\<close>
  "page_img f n = map (byte_at f) [(n - 1) * PAGE_SIZE..<(n - 1) * PAGE_SIZE + PAGE_SIZE]"

lemma length_page_img [simp]: "length (page_img f n) = PAGE_SIZE"
  by (simp add: page_img_def)

lemma page_img_eqI:
  "(\<And>i. (n - 1) * PAGE_SIZE \<le> i \<Longrightarrow> i < (n - 1) * PAGE_SIZE + PAGE_SIZE \<Longrightarrow> byte_at f i = byte_at g i)
   \<Longrightarrow> page_img f n = page_img g n"
  by (simp add: page_img_def)

lemma page_img_nth: "i < PAGE_SIZE \<Longrightarrow> page_img f n ! i = byte_at f ((n - 1) * PAGE_SIZE + i)"
  by (simp add: page_img_def)

lemma page_img_pread:
  "page_img f n = pread f PAGE_SIZE ((n - 1) * PAGE_SIZE) @
     replicate (PAGE_SIZE - length (pread f PAGE_SIZE ((n - 1) * PAGE_SIZE))) 0"
  by (rule nth_equalityI) (auto simp: page_img_nth nth_append byte_at_def pread_def min_def split: if_splits)

lemma page_blocks: "1 \<le> p \<Longrightarrow> 1 \<le> q \<Longrightarrow> p \<noteq> q \<Longrightarrow>
    (p - 1) * PAGE_SIZE + PAGE_SIZE \<le> (q - 1) * PAGE_SIZE \<or> (q - 1) * PAGE_SIZE + PAGE_SIZE \<le> (p - 1) * PAGE_SIZE"
proof -
  assume a: "1 \<le> p" "1 \<le> q" "p \<noteq> q"
  have "p \<le> q - 1 \<or> q \<le> p - 1" using a by linarith
  then have "p * PAGE_SIZE \<le> (q - 1) * PAGE_SIZE \<or> q * PAGE_SIZE \<le> (p - 1) * PAGE_SIZE"
    using mult_le_mono1 by blast
  moreover have "p * PAGE_SIZE = (p - 1) * PAGE_SIZE + PAGE_SIZE" "q * PAGE_SIZE = (q - 1) * PAGE_SIZE + PAGE_SIZE"
    using a by (simp_all add: algebra_simps)
  ultimately show ?thesis by linarith
qed

lemma page_img_pwrite:
  assumes "1 \<le> p" and "1 \<le> q" and "length data = PAGE_SIZE"
  shows "page_img (pwrite f data ((p - 1) * PAGE_SIZE)) q = (if p = q then data else page_img f q)"
proof (cases "p = q")
  case True
  then show ?thesis using assms by (intro nth_equalityI) (auto simp: page_img_nth)
next
  case False
  then show ?thesis using page_blocks [OF assms(1,2) False] assms(3) by (auto intro!: page_img_eqI)
qed

lemma page_img_Nil: "page_img [] n = replicate PAGE_SIZE 0"
  by (rule nth_equalityI) (simp_all add: page_img_nth byte_at_def)

section \<open>Writes, syncs and crashes\<close>

datatype wr = Pwrite nat bytes | Ftruncate nat

fun apply_wr :: "wr \<Rightarrow> bytes \<Rightarrow> bytes" where
  "apply_wr (Pwrite off data) f = pwrite f data off"
| "apply_wr (Ftruncate n) f = ftruncate f n"

record dfile =
  f_synced :: bytes
  f_pending :: "wr list"

definition content :: "dfile \<Rightarrow> bytes" where
  \<comment> \<open>what the process reads\<close>
  "content f = fold apply_wr (f_pending f) (f_synced f)"

definition add_wr :: "wr \<Rightarrow> dfile \<Rightarrow> dfile" where
  "add_wr w f = f\<lparr>f_pending := f_pending f @ [w]\<rparr>"

definition sync_file :: "dfile \<Rightarrow> dfile" where
  "sync_file f = \<lparr>f_synced = content f, f_pending = []\<rparr>"

definition settled_file :: "bytes \<Rightarrow> dfile" where
  "settled_file bs = \<lparr>f_synced = bs, f_pending = []\<rparr>"

lemma content_simps [simp]:
  "content (add_wr w f) = apply_wr w (content f)" "content (sync_file f) = content f"
  "content (settled_file bs) = bs" "f_pending (sync_file f) = []" "f_synced (sync_file f) = content f"
  "f_pending (add_wr w f) = f_pending f @ [w]" "f_synced (add_wr w f) = f_synced f"
  "f_pending (settled_file bs) = []" "f_synced (settled_file bs) = bs"
  by (simp_all add: content_def add_wr_def sync_file_def settled_file_def)

inductive torn :: "wr \<Rightarrow> bytes \<Rightarrow> bytes \<Rightarrow> bool" where
  \<comment> \<open>what one write may leave behind: each byte of its range old or new, in any combination\<close>
  torn_pwrite: "length f \<le> length g \<Longrightarrow> length g \<le> length (pwrite f data off) \<Longrightarrow>
    (\<And>i. i < length g \<Longrightarrow> g ! i = byte_at f i \<or> off \<le> i \<and> i < off + length data \<and> g ! i = data ! (i - off)) \<Longrightarrow>
    torn (Pwrite off data) f g"
| torn_truncate: "torn (Ftruncate n) f (ftruncate f n)"

inductive_cases torn_pwriteE: "torn (Pwrite off data) f g"
inductive_cases torn_truncateE: "torn (Ftruncate n) f g"

inductive crash_bytes :: "wr list \<Rightarrow> bytes \<Rightarrow> bytes \<Rightarrow> bool" where
  \<comment> \<open>a lost truncation takes the later writes with it: file systems journal the size\<close>
  crash_done: "crash_bytes [] f f"
| crash_cut: "crash_bytes (Ftruncate n # ws) f f"
| crash_step: "torn w f g \<Longrightarrow> crash_bytes ws g h \<Longrightarrow> crash_bytes (w # ws) f h"

inductive_simps crash_Nil [simp]: "crash_bytes [] f g"
inductive_simps crash_Cons: "crash_bytes (w # ws) f h"

definition crash_file :: "dfile \<Rightarrow> bytes \<Rightarrow> bool" where
  "crash_file f g \<longleftrightarrow> crash_bytes (f_pending f) (f_synced f) g"


lemma torn_all: "torn w f (apply_wr w f)"
proof (cases w)
  case (Pwrite off data)
  have nth: "g ! i = byte_at g i" if "i < length g" for g i
    using that by (simp add: byte_at_def)
  show ?thesis
    unfolding Pwrite apply_wr.simps
  proof (rule torn_pwrite)
    show "pwrite f data off ! i = byte_at f i \<or>
        off \<le> i \<and> i < off + length data \<and> pwrite f data off ! i = data ! (i - off)"
      if "i < length (pwrite f data off)" for i
      unfolding nth [OF that] byte_at_pwrite by simp
  qed (simp_all add: length_pwrite)
qed (auto intro: torn_truncate)

lemma torn_none: "torn (Pwrite off data) f f"
  by (auto simp: length_pwrite byte_at_def intro!: torn_pwrite)

lemma crash_all: "crash_bytes ws f (fold apply_wr ws f)"
  by (induction ws arbitrary: f) (auto intro: crash_bytes.intros torn_all)

lemma crash_none: "crash_bytes ws f f"
proof (induction ws)
  case (Cons w ws)
  then show ?case by (cases w) (auto intro: crash_bytes.intros torn_none)
qed (rule crash_done)

lemma crash_content: "crash_file f (content f)"
  by (simp add: crash_file_def content_def crash_all)

lemma crash_synced: "f_pending f = [] \<Longrightarrow> crash_file f g \<longleftrightarrow> g = content f"
  by (auto simp: crash_file_def content_def)

text \<open>A crash changes bytes only where a write was pending, to what that write would put there.\<close>

definition covers :: "wr list \<Rightarrow> nat \<Rightarrow> bool" where
  "covers ws i \<longleftrightarrow> (\<exists>off data. Pwrite off data \<in> set ws \<and> off \<le> i \<and> i < off + length data)"

definition only_pwrites :: "wr list \<Rightarrow> bool" where
  "only_pwrites ws \<longleftrightarrow> (\<forall>w \<in> set ws. case w of Pwrite off data \<Rightarrow> True | Ftruncate n \<Rightarrow> False)"

lemma covers_simps [simp]:
  "\<not> covers [] i" "covers (ws @ vs) i \<longleftrightarrow> covers ws i \<or> covers vs i"
  "covers (Pwrite off data # ws) i \<longleftrightarrow> off \<le> i \<and> i < off + length data \<or> covers ws i"
  by (auto simp: covers_def)

lemma only_pwrites_simps [simp]:
  "only_pwrites []" "only_pwrites (Pwrite off data # ws) = only_pwrites ws"
  "\<not> only_pwrites (Ftruncate n # ws)" "only_pwrites (ws @ vs) \<longleftrightarrow> only_pwrites ws \<and> only_pwrites vs"
  by (auto simp: only_pwrites_def)

lemma torn_byte:
  assumes "torn (Pwrite off data) f g"
  shows "byte_at g i = byte_at f i \<or> off \<le> i \<and> i < off + length data \<and> byte_at g i = data ! (i - off)"
    and "length f \<le> length g"
proof -
  have g: "length f \<le> length g" "i < length g \<Longrightarrow> g ! i = byte_at f i \<or>
      off \<le> i \<and> i < off + length data \<and> g ! i = data ! (i - off)" for i
    using assms by (auto elim!: torn_pwriteE)
  then show "length f \<le> length g" by simp
  show "byte_at g i = byte_at f i \<or> off \<le> i \<and> i < off + length data \<and> byte_at g i = data ! (i - off)"
  proof (cases "i < length g")
    case True
    then have "byte_at g i = g ! i" by (simp add: byte_at_def)
    with g(2) [OF True] show ?thesis by argo
  next
    case False
    with g(1) show ?thesis by (simp add: byte_at_def)
  qed
qed

lemma crash_outside:
  assumes "crash_bytes ws f g" and "only_pwrites ws" and "\<not> covers ws i"
  shows "byte_at g i = byte_at f i"
  using assms
proof (induction rule: crash_bytes.induct)
  case (crash_step w f g ws h)
  then obtain off data where w: "w = Pwrite off data" by (cases w) auto
  then show ?case using crash_step torn_byte(1) [of off data f g i] by auto
qed simp_all

lemma crash_length: "crash_bytes ws f g \<Longrightarrow> only_pwrites ws \<Longrightarrow> length f \<le> length g"
proof (induction rule: crash_bytes.induct)
  case (crash_step w f g ws h)
  then obtain off data where "w = Pwrite off data" by (cases w) auto
  then show ?case using crash_step torn_byte(2) [of off data f g] by auto
qed simp_all

lemma content_outside:
  "only_pwrites ws \<Longrightarrow> \<not> covers ws i \<Longrightarrow> byte_at (fold apply_wr ws f) i = byte_at f i"
  using crash_outside crash_all by blast

lemma crash_prefix:
  assumes "crash_bytes ws f g" and "only_pwrites ws" and "n \<le> length f" and "\<And>i. i < n \<Longrightarrow> \<not> covers ws i"
  shows "take n g = take n f"
  using assms crash_length [OF assms(1,2)] crash_outside [OF assms(1,2)] by (intro take_cong_bytes) auto

lemma crash_page:
  assumes "crash_bytes ws f g" and "only_pwrites ws"
    and "\<And>off data. Pwrite off data \<in> set ws \<Longrightarrow> \<exists>p. 1 \<le> p \<and> p \<noteq> n \<and> off = (p - 1) * PAGE_SIZE \<and> length data = PAGE_SIZE"
    and "1 \<le> n"
  shows "page_img g n = page_img f n"
proof (rule page_img_eqI)
  fix i assume i: "(n - 1) * PAGE_SIZE \<le> i" "i < (n - 1) * PAGE_SIZE + PAGE_SIZE"
  have "\<not> covers ws i"
  proof
    assume "covers ws i"
    then obtain off data where w: "Pwrite off data \<in> set ws" "off \<le> i" "i < off + length data"
      by (auto simp: covers_def)
    then obtain p where "1 \<le> p" "p \<noteq> n" "off = (p - 1) * PAGE_SIZE" "length data = PAGE_SIZE"
      using assms(3) by blast
    then show False using page_blocks [of p n] w i assms(4) by linarith
  qed
  then show "byte_at g i = byte_at f i" by (rule crash_outside [OF assms(1,2)])
qed

section \<open>The disk\<close>

datatype side = Jrn | Wal

record sidecar =
  sc_cur :: "dfile option" \<comment> \<open>the file the path names now\<close>
  sc_stale :: "dfile option list" \<comment> \<open>what the path may name again after a crash\<close>

record disk =
  d_db :: dfile
  d_jrn :: sidecar
  d_wal :: sidecar
  d_budget :: "nat option" \<comment> \<open>how many system calls still succeed; \<open>None\<close>: all of them\<close>
  d_links :: bool \<comment> \<open>the file system makes the directory entry of a file durable when the file is synced\<close>

definition d_side :: "side \<Rightarrow> disk \<Rightarrow> sidecar" where
  "d_side k d = (case k of Jrn \<Rightarrow> d_jrn d | Wal \<Rightarrow> d_wal d)"

definition upd_side :: "side \<Rightarrow> (sidecar \<Rightarrow> sidecar) \<Rightarrow> disk \<Rightarrow> disk" where
  "upd_side k h d = (case k of Jrn \<Rightarrow> d\<lparr>d_jrn := h (d_jrn d)\<rparr> | Wal \<Rightarrow> d\<lparr>d_wal := h (d_wal d)\<rparr>)"

definition side_content :: "side \<Rightarrow> disk \<Rightarrow> bytes" where
  "side_content k d = (case sc_cur (d_side k d) of None \<Rightarrow> [] | Some f \<Rightarrow> content f)"

definition db_content :: "disk \<Rightarrow> bytes" where
  "db_content d = content (d_db d)"

definition io_call :: "(disk \<Rightarrow> disk) \<Rightarrow> (disk, unit) pm" where
  \<comment> \<open>one system call: it fails with \<open>OSError\<close> when the budget is spent\<close>
  "io_call h d =
     (case d_budget d of
        None \<Rightarrow> (Inr (), h d)
      | Some 0 \<Rightarrow> (Inl OSError, d)
      | Some (Suc k) \<Rightarrow> (Inr (), h (d\<lparr>d_budget := Some k\<rparr>)))"

definition db_pwrite :: "bytes \<Rightarrow> nat \<Rightarrow> (disk, unit) pm" where
  "db_pwrite data off = io_call (\<lambda>d. d\<lparr>d_db := add_wr (Pwrite off data) (d_db d)\<rparr>)"

definition db_fsync :: "(disk, unit) pm" where
  "db_fsync = io_call (\<lambda>d. d\<lparr>d_db := sync_file (d_db d)\<rparr>)"

definition side_write :: "side \<Rightarrow> wr \<Rightarrow> (disk, unit) pm" where
  "side_write k w = io_call (upd_side k (\<lambda>sc. sc\<lparr>sc_cur := map_option (add_wr w) (sc_cur sc)\<rparr>))"

definition side_fsync :: "side \<Rightarrow> (disk, unit) pm" where
  \<comment> \<open>the content; the directory entry only where the file system does that too\<close>
  "side_fsync k = io_call (\<lambda>d. upd_side k (\<lambda>sc.
     \<lparr>sc_cur = map_option sync_file (sc_cur sc), sc_stale = (if d_links d then [] else sc_stale sc)\<rparr>) d)"

definition side_create :: "side \<Rightarrow> (disk, unit) pm" where
  \<comment> \<open>\<open>os.open(path, O_CREAT | O_RDWR)\<close>\<close>
  "side_create k = io_call (upd_side k (\<lambda>sc.
     case sc_cur sc of
       None \<Rightarrow> \<lparr>sc_cur = Some (settled_file []), sc_stale = None # sc_stale sc\<rparr>
     | Some f \<Rightarrow> sc))"

definition side_create_trunc :: "side \<Rightarrow> (disk, unit) pm" where
  \<comment> \<open>\<open>os.open(path, O_CREAT | O_RDWR | O_TRUNC)\<close>\<close>
  "side_create_trunc k = io_call (upd_side k (\<lambda>sc.
     case sc_cur sc of
       None \<Rightarrow> \<lparr>sc_cur = Some (settled_file []), sc_stale = None # sc_stale sc\<rparr>
     | Some f \<Rightarrow> sc\<lparr>sc_cur := Some (add_wr (Ftruncate 0) f)\<rparr>))"

definition side_unlink :: "side \<Rightarrow> (disk, unit) pm" where
  \<comment> \<open>\<open>path.unlink(missing_ok=True)\<close>\<close>
  "side_unlink k = io_call (upd_side k (\<lambda>sc.
     case sc_cur sc of
       None \<Rightarrow> sc
     | Some f \<Rightarrow> \<lparr>sc_cur = None, sc_stale = Some f # sc_stale sc\<rparr>))"

definition dir_fsync :: "(disk, unit) pm" where
  "dir_fsync = io_call (\<lambda>d. d\<lparr>d_jrn := (d_jrn d)\<lparr>sc_stale := []\<rparr>, d_wal := (d_wal d)\<lparr>sc_stale := []\<rparr>\<rparr>)"

definition crash_side :: "sidecar \<Rightarrow> sidecar \<Rightarrow> bool" where
  "crash_side sc sc' \<longleftrightarrow> sc_stale sc' = [] \<and>
     (\<exists>e \<in> set (sc_cur sc # sc_stale sc).
        case e of None \<Rightarrow> sc_cur sc' = None
        | Some f \<Rightarrow> \<exists>g. crash_file f g \<and> sc_cur sc' = Some (settled_file g))"

definition crash_disk :: "disk \<Rightarrow> disk \<Rightarrow> bool" where
  \<comment> \<open>what the machine may find on its disk when it comes up again\<close>
  "crash_disk d d' \<longleftrightarrow>
     (\<exists>g. crash_file (d_db d) g \<and> d_db d' = settled_file g) \<and>
     crash_side (d_jrn d) (d_jrn d') \<and> crash_side (d_wal d) (d_wal d') \<and> d_budget d' = None \<and>
     d_links d' = d_links d"

definition reboot :: "disk \<Rightarrow> disk" where
  \<comment> \<open>a crash that loses nothing\<close>
  "reboot d =
     (let keep = (\<lambda>sc. \<lparr>sc_cur = map_option (\<lambda>f. settled_file (content f)) (sc_cur sc), sc_stale = []\<rparr>)
      in \<lparr>d_db = settled_file (content (d_db d)), d_jrn = keep (d_jrn d), d_wal = keep (d_wal d), d_budget = None, d_links = d_links d\<rparr>)"

lemma crash_reboot: "crash_disk d (reboot d)"
  using crash_content by (auto simp: crash_disk_def crash_side_def reboot_def Let_def split: option.split)

lemma io_call_free: "d_budget d = None \<Longrightarrow> io_call h d = (Inr (), h d)"
  by (simp add: io_call_def)

lemma io_call_cases:
  obtains (fail) "io_call h d = (Inl OSError, d)" "d_budget d \<noteq> None"
  | (ok) b where "io_call h d = (Inr (), h (d\<lparr>d_budget := b\<rparr>))" "d_budget d = None \<Longrightarrow> b = None"
proof (cases "d_budget d")
  case None
  then have "io_call h d = (Inr (), h (d\<lparr>d_budget := None\<rparr>))"
    by (metis (mono_tags, lifting) disk.surjective disk.update_convs(4) io_call_free)
  with None show thesis by (intro ok) auto
next
  case (Some k)
  then show thesis by (cases k) (auto simp: io_call_def intro: fail ok)
qed

lemma side_simps [simp]:
  "d_side k (upd_side k h d) = h (d_side k d)" "d_db (upd_side k h d) = d_db d"
  "d_budget (upd_side k h d) = d_budget d" "k \<noteq> l \<Longrightarrow> d_side k (upd_side l h d) = d_side k d"
  "d_side k (d\<lparr>d_db := x\<rparr>) = d_side k d" "d_side k (d\<lparr>d_budget := b\<rparr>) = d_side k d"
  "d_links (upd_side k h d) = d_links d"
  by (cases k; cases l; simp add: d_side_def upd_side_def)+

section \<open>Writing pages of the database file\<close>

definition page_write :: "nat \<times> bytes \<Rightarrow> wr" where
  "page_write = (\<lambda>(p, data). Pwrite ((p - 1) * PAGE_SIZE) data)"

definition add_wrs :: "wr list \<Rightarrow> dfile \<Rightarrow> dfile" where
  "add_wrs ws f = f\<lparr>f_pending := f_pending f @ ws\<rparr>"

definition pages_ok :: "(nat \<times> bytes) list \<Rightarrow> bool" where
  "pages_ok items \<longleftrightarrow> (\<forall>(p, data) \<in> set items. 1 \<le> p \<and> length data = PAGE_SIZE)"

lemma add_wrs_simps [simp]:
  "add_wrs [] f = f" "add_wrs ws (add_wr w f) = add_wrs (w # ws) f"
  "add_wr w (add_wrs ws f) = add_wrs (ws @ [w]) f" "add_wrs vs (add_wrs ws f) = add_wrs (ws @ vs) f"
  "f_synced (add_wrs ws f) = f_synced f" "f_pending (add_wrs ws f) = f_pending f @ ws"
  "content (add_wrs ws f) = fold apply_wr ws (content f)"
  by (simp_all add: add_wrs_def add_wr_def content_def)

lemma only_page_writes [simp]: "only_pwrites (map page_write items)"
  by (auto simp: only_pwrites_def page_write_def)

lemma pages_ok_simps [simp]:
  "pages_ok []" "pages_ok ((p, data) # items) \<longleftrightarrow> 1 \<le> p \<and> length data = PAGE_SIZE \<and> pages_ok items"
  by (auto simp: pages_ok_def)

lemma pages_ok_take: "pages_ok items \<Longrightarrow> pages_ok (take k items)"
  by (auto simp: pages_ok_def dest: in_set_takeD)

lemma page_writes_img:
  "pages_ok items \<Longrightarrow> distinct (map fst items) \<Longrightarrow> 1 \<le> q \<Longrightarrow>
   page_img (fold apply_wr (map page_write items) f) q =
     (case map_of items q of Some data \<Rightarrow> data | None \<Rightarrow> page_img f q)"
proof (induction items arbitrary: f)
  case (Cons item items)
  obtain p data where item: "item = (p, data)" by (cases item)
  have "map_of items p = None" using Cons.prems(2) item by (simp add: map_of_eq_None_iff)
  then show ?case
    using Cons item by (auto simp: page_write_def page_img_pwrite [unfolded One_nat_def] split: option.split)
qed simp

lemma page_writes_crash:
  assumes "crash_bytes (map page_write items) f g" and "pages_ok items" and "1 \<le> q" and "q \<notin> fst ` set items"
  shows "page_img g q = page_img f q"
proof (rule crash_page [OF assms(1) only_page_writes _ assms(3)])
  fix off data assume "Pwrite off data \<in> set (map page_write items)"
  then obtain p where "(p, data) \<in> set items" "off = (p - 1) * PAGE_SIZE" by (auto simp: page_write_def)
  then show "\<exists>p. 1 \<le> p \<and> p \<noteq> q \<and> off = (p - 1) * PAGE_SIZE \<and> length data = PAGE_SIZE"
    using assms(2,4) by (force simp: pages_ok_def)
qed

text \<open>A loop of page writes under any budget: it stops somewhere, and only there.\<close>

lemma db_pwrite_cases:
  obtains (fail) "db_pwrite data off d = (Inl OSError, d)" "d_budget d \<noteq> None"
  | (ok) b where "db_pwrite data off d = (Inr (), d\<lparr>d_db := add_wr (Pwrite off data) (d_db d), d_budget := b\<rparr>)"
      "d_budget d = None \<Longrightarrow> b = None"
proof (cases rule: io_call_cases [of "\<lambda>d. d\<lparr>d_db := add_wr (Pwrite off data) (d_db d)\<rparr>" d])
  case (ok b)
  then show thesis by (intro that(2) [of b]) (simp_all add: db_pwrite_def)
qed (auto simp: db_pwrite_def intro: fail)

lemma forS_page_writes:
  assumes pw: "\<And>p data d. (p, data) \<in> set items \<Longrightarrow> m (p, data) d = db_pwrite data ((p - 1) * PAGE_SIZE) d"
  obtains k b r where "k \<le> length items"
    "forS m items d = (r, d\<lparr>d_db := add_wrs (map page_write (take k items)) (d_db d), d_budget := b\<rparr>)"
    "r = Inr () \<and> k = length items \<or> r = Inl OSError" "d_budget d = None \<Longrightarrow> b = None \<and> r = Inr ()"
  using assms
proof (induction items arbitrary: d thesis)
  case Nil
  show ?case by (rule Nil(1) [of 0 "Inr ()" "d_budget d"]) simp_all
next
  case (Cons item items)
  obtain p data where item: "item = (p, data)" by (cases item)
  have m: "m (p, data) d = db_pwrite data ((p - 1) * PAGE_SIZE) d" by (rule Cons.prems(2)) (simp add: item)
  show ?case
  proof (cases rule: db_pwrite_cases [of data "(p - 1) * PAGE_SIZE" d])
    case fail
    then show ?thesis
      by (intro Cons.prems(1) [of 0 "Inl OSError" "d_budget d"]) (simp_all add: item m bindS_def)
  next
    case (ok b)
    let ?d = "d\<lparr>d_db := add_wr (Pwrite ((p - 1) * PAGE_SIZE) data) (d_db d), d_budget := b\<rparr>"
    obtain k b' r where k: "k \<le> length items"
      "forS m items ?d = (r, ?d\<lparr>d_db := add_wrs (map page_write (take k items)) (d_db ?d), d_budget := b'\<rparr>)"
      "r = Inr () \<and> k = length items \<or> r = Inl OSError" "d_budget ?d = None \<Longrightarrow> b' = None \<and> r = Inr ()"
      by (rule Cons.IH [of ?d]) (use Cons.prems(2) in auto)
    show ?thesis
    proof (rule Cons.prems(1) [of "Suc k" r b'])
      show "forS m (item # items) d = (r, d\<lparr>d_db := add_wrs (map page_write (take (Suc k) (item # items))) (d_db d), d_budget := b'\<rparr>)"
        using ok(1) k(2) by (simp add: item m bindS_def page_write_def)
    qed (use k ok in auto)
  qed
qed

section \<open>The flush primitives\<close>

record sync_env = \<comment> \<open>the platform and what its calls do\<close>
  darwin :: bool
  fast_mode :: bool \<comment> \<open>\<open>LILLI_FSYNC_MODE=fast\<close>\<close>
  full_flush :: "int res" \<comment> \<open>\<open>fcntl(fd, F_FULLFSYNC)\<close>: what it returns or raises\<close>
  os_fsync :: "nat \<Rightarrow> unit res" \<comment> \<open>the first call of \<open>os.fsync\<close>, and the second\<close>
  os_fdatasync :: "unit res option" \<comment> \<open>\<open>None\<close>: the platform has none\<close>
  os_open_dir :: "unit res"
  os_close :: "unit res"

datatype flush = FullFlush | Fsync | Fdatasync

definition full_flush_disabled :: "sync_env \<Rightarrow> bool" where
  "full_flush_disabled e = fast_mode e"

definition fsync_call :: "sync_env \<Rightarrow> nat \<Rightarrow> unit res \<times> flush list" where
  \<comment> \<open>the result and the flushes that took place\<close>
  "fsync_call e i = (case os_fsync e i of Inl x \<Rightarrow> (Inl x, []) | Inr u \<Rightarrow> (Inr u, [Fsync]))"

definition darwin_flush :: "sync_env \<Rightarrow> unit res \<times> flush list" where
  \<comment> \<open>the \<open>os.fsync\<close> after a non-zero result is inside the \<open>try\<close>, so its error is caught and it is called again\<close>
  "darwin_flush e =
     (case full_flush e of
        Inr ret \<Rightarrow>
          if ret = 0 then (Inr (), [FullFlush])
          else (case fsync_call e 0 of
                  (Inl x, done') \<Rightarrow> if x = AttributeError \<or> x = OSError then fsync_call e 1 else (Inl x, done')
                | result \<Rightarrow> result)
      | Inl x \<Rightarrow> if x = AttributeError \<or> x = OSError then fsync_call e 0 else (Inl x, []))"

definition durable_fsync :: "sync_env \<Rightarrow> unit res \<times> flush list" where
  "durable_fsync e =
     (if darwin e \<and> \<not> full_flush_disabled e then darwin_flush e else fsync_call e 0)"

definition durable_fdatasync :: "sync_env \<Rightarrow> unit res \<times> flush list" where
  "durable_fdatasync e =
     (if darwin e \<and> \<not> full_flush_disabled e then darwin_flush e
      else case os_fdatasync e of
          Some r \<Rightarrow> (case r of Inl x \<Rightarrow> (Inl x, []) | Inr u \<Rightarrow> (Inr u, [Fdatasync]))
        | None \<Rightarrow> fsync_call e 0)"

definition fsync_directory :: "sync_env \<Rightarrow> unit res \<times> flush list" where
  "fsync_directory e =
     (case os_open_dir e of
        Inl x \<Rightarrow> (Inl x, [])
      | Inr u \<Rightarrow>
          (case fsync_call e 0 of
             (r, flushed) \<Rightarrow> (case os_close e of Inl x \<Rightarrow> (Inl x, flushed) | Inr u \<Rightarrow> (r, flushed))))"

text \<open>
  A sync that returns has flushed, exactly once, and it raises only when nothing was flushed. On macOS, unless
  it is turned off, the one flush is the full flush of the drive cache if and only if that call reports
  success; where it fails, or reports failure, the sync still returns when a plain \<open>os.fsync\<close> succeeds, at the
  second attempt after a failure report.
\<close>

theorem durable_sync_flushes:
  "(case durable_fsync e of (Inr u, fl) \<Rightarrow> length fl = 1 | (Inl x, fl) \<Rightarrow> fl = []) \<and>
   (case durable_fdatasync e of (Inr u, fl) \<Rightarrow> length fl = 1 | (Inl x, fl) \<Rightarrow> fl = []) \<and>
   (fst (fsync_directory e) = Inr () \<longrightarrow> snd (fsync_directory e) = [Fsync]) \<and>
   (snd (durable_fsync e) = [FullFlush] \<longleftrightarrow> darwin e \<and> \<not> fast_mode e \<and> full_flush e = Inr 0) \<and>
   (darwin e \<and> \<not> fast_mode e \<and> full_flush e \<in> {Inl AttributeError, Inl OSError, Inr 1} \<longrightarrow>
     (fst (durable_fsync e) = Inr () \<longleftrightarrow>
        os_fsync e 0 = Inr () \<or> full_flush e = Inr 1 \<and> os_fsync e 0 \<in> {Inl AttributeError, Inl OSError} \<and> os_fsync e 1 = Inr ()))"
  by (auto simp: durable_fsync_def durable_fdatasync_def fsync_directory_def darwin_flush_def fsync_call_def
      full_flush_disabled_def split: sum.splits option.splits prod.splits if_splits)

end
