(* ===== verification/Wal.thy ===== *)
theory Wal
  imports FileIO "HOL-Library.AList"
begin

text \<open>
  \<open>wal.py\<close>: the write-ahead log. The checksum chain, the header and frame formats, the writer
  with its in-process index, and the recovery scan. A writer runs on the disk of \<open>FileIO\<close>; its
  random salts are arguments. Python dicts are association lists in insertion order.
\<close>

section \<open>Constants\<close>

definition WAL_MAGIC_BE :: nat where "WAL_MAGIC_BE = 0x377F0683"
definition WAL_FORMAT_VERSION :: nat where "WAL_FORMAT_VERSION = 3007000"
definition WAL_HEADER_SIZE :: nat where "WAL_HEADER_SIZE = 32"
definition WAL_FRAME_HEADER_SIZE :: nat where "WAL_FRAME_HEADER_SIZE = 24"
definition WAL_WRITE_VERSION :: nat where "WAL_WRITE_VERSION = 2"
definition WAL_FRAME_SIZE :: nat where "WAL_FRAME_SIZE = WAL_FRAME_HEADER_SIZE + PAGE_SIZE"
definition WAL_AUTOCHECKPOINT_FRAMES :: nat where "WAL_AUTOCHECKPOINT_FRAMES = 1000"

section \<open>The checksum\<close>

type_synonym sums = "32 word \<times> 32 word"

function wal_sum :: "bytes \<Rightarrow> sums \<Rightarrow> sums" where
  \<comment> \<open>the \<open>while offset < end\<close> loop, on the bytes from \<open>offset\<close> on\<close>
  "wal_sum data s =
     (if data = [] then s
      else
        let word0 = of_nat (be_nat (take 4 data));
            word1 = of_nat (be_nat (take 4 (drop 4 data)));
            s0 = fst s + word0 + snd s;
            s1 = snd s + word1 + s0
        in wal_sum (drop 8 data) (s0, s1))"
  by auto
termination by (relation "measure (\<lambda>(data, s). length data)") auto

declare wal_sum.simps [simp del]

definition wal_checksum :: "bytes \<Rightarrow> sums \<Rightarrow> sums res" where
  "wal_checksum data s = bindR (assertR (length data mod 8 = 0) AssertionError) (\<lambda>_. Inr (wal_sum data s))"

section \<open>Formats\<close>

definition pack_u32s :: "nat list \<Rightarrow> bytes res" where
  \<comment> \<open>\<open>struct.pack(">II...", ...)\<close>\<close>
  "pack_u32s vs = bindR (mapR (\<lambda>v. pack 4 (int v)) vs) (\<lambda>fs. Inr (concat fs))"

definition sum_bytes :: "sums \<Rightarrow> bytes" where
  "sum_bytes s = be_bytes 4 (unat (fst s)) @ be_bytes 4 (unat (snd s))"

definition u32_at :: "bytes \<Rightarrow> nat \<Rightarrow> nat" where
  \<comment> \<open>one field of \<open>struct.unpack(">IIII...", raw)\<close> on a string of the full length\<close>
  "u32_at raw i = be_nat (pyslice raw (4 * i) (4 * i + 4))"

section \<open>The writer\<close>

record wal =
  w_page_size :: nat
  w_salt1 :: nat
  w_salt2 :: nat
  w_seq :: nat
  w_run :: sums
  w_next :: nat
  w_index :: "(nat \<times> nat) list"
  w_count :: nat
  w_com :: sums
  w_com_next :: nat

type_synonym 'a wm = "(wal \<times> disk, 'a) pm"

definition on_disk :: "(disk, 'a) pm \<Rightarrow> 'a wm" where
  "on_disk m = (\<lambda>(w, d). case m d of (r, d') \<Rightarrow> (r, (w, d')))"

definition upd_wal :: "(wal \<Rightarrow> wal) \<Rightarrow> unit wm" where
  "upd_wal h = modifyS (\<lambda>(w, d). (h w, d))"

definition write_wal_header :: "unit wm" where
  "write_wal_header =
     bindS (getS fst) (\<lambda>w.
     bindS (liftR (pack_u32s [WAL_MAGIC_BE, WAL_FORMAT_VERSION, w_page_size w, w_seq w, w_salt1 w, w_salt2 w])) (\<lambda>body.
     bindS (liftR (wal_checksum body (0, 0))) (\<lambda>s.
     bindS (on_disk (side_write Wal (Pwrite 0 (body @ sum_bytes s)))) (\<lambda>_.
     upd_wal (\<lambda>w. w\<lparr>w_run := s, w_com := s, w_com_next := WAL_HEADER_SIZE\<rparr>)))))"

definition wal_init :: "nat \<Rightarrow> nat \<Rightarrow> nat \<Rightarrow> wal" where
  "wal_init page_size salt1 salt2 =
     \<lparr>w_page_size = page_size, w_salt1 = salt1, w_salt2 = salt2, w_seq = 0, w_run = (0, 0),
      w_next = WAL_HEADER_SIZE, w_index = [], w_count = 0, w_com = (0, 0), w_com_next = WAL_HEADER_SIZE\<rparr>"

definition wal_open :: "nat \<Rightarrow> nat \<Rightarrow> nat \<Rightarrow> disk \<Rightarrow> wal res \<times> disk" where
  \<comment> \<open>\<open>WALWriter.__init__\<close>\<close>
  "wal_open page_size salt1 salt2 d =
     (case bindS (on_disk (side_create Wal)) (\<lambda>_.
           bindS (on_disk (side_write Wal (Ftruncate 0))) (\<lambda>_.
           bindS write_wal_header (\<lambda>_. getS fst))) (wal_init page_size salt1 salt2, d) of
        (r, (w, d')) \<Rightarrow> (r, d'))"

definition append_frame :: "nat \<Rightarrow> bytes \<Rightarrow> nat \<Rightarrow> unit wm" where
  "append_frame page_no page_data db_size_after =
     bindS (getS fst) (\<lambda>w.
     bindS (liftR (assertR (length page_data = w_page_size w) ValueError)) (\<lambda>_.
     bindS (liftR (pack_u32s [page_no, db_size_after, w_salt1 w, w_salt2 w])) (\<lambda>raw_header.
     bindS (liftR (wal_checksum (take 8 raw_header @ page_data) (w_run w))) (\<lambda>new.
     bindS (on_disk (side_write Wal (Pwrite (w_next w) (raw_header @ sum_bytes new @ page_data)))) (\<lambda>_.
     upd_wal (\<lambda>w. w\<lparr>w_next := w_next w + WAL_FRAME_SIZE, w_run := new\<rparr>))))))"

fun append_frames :: "(nat \<times> bytes) list \<Rightarrow> nat \<Rightarrow> unit wm" where
  \<comment> \<open>the \<open>enumerate(items)\<close> loop: the last frame carries the commit marker\<close>
  "append_frames [] db_size = retS ()"
| "append_frames ((page_no, page_data) # items) db_size =
     bindS (append_frame page_no page_data (if items = [] then db_size else 0)) (\<lambda>_.
     append_frames items db_size)"

fun index_frames :: "nat \<Rightarrow> nat list \<Rightarrow> (nat \<times> nat) list \<Rightarrow> (nat \<times> nat) list" where
  "index_frames i [] ix = ix"
| "index_frames i (page_no # pns) ix = index_frames (i + 1) pns (AList.update page_no i ix)"

definition commit_transaction :: "(nat \<times> bytes) list \<Rightarrow> nat \<Rightarrow> unit wm" where
  "commit_transaction items db_size_after =
     (if items = [] then retS ()
      else
        bindS (getS (\<lambda>(w, d). w_count w)) (\<lambda>start_frame_idx.
        bindS (append_frames items db_size_after) (\<lambda>_.
        bindS (on_disk (side_fsync Wal)) (\<lambda>_.
        bindS (upd_wal (\<lambda>w. w\<lparr>w_index := index_frames start_frame_idx (map fst items) (w_index w)\<rparr>)) (\<lambda>_.
        bindS (upd_wal (\<lambda>w. w\<lparr>w_count := w_count w + length items\<rparr>)) (\<lambda>_.
        upd_wal (\<lambda>w. w\<lparr>w_com := w_run w, w_com_next := w_next w\<rparr>)))))))"

definition wal_rollback :: "unit wm" where
  "wal_rollback = upd_wal (\<lambda>w. w\<lparr>w_run := w_com w, w_next := w_com_next w\<rparr>)"

definition frame_data :: "wal \<Rightarrow> disk \<Rightarrow> nat \<Rightarrow> bytes" where
  \<comment> \<open>the page in frame \<open>frame_idx\<close> of the sidecar\<close>
  "frame_data w d frame_idx =
     drop WAL_FRAME_HEADER_SIZE
       (pread (side_content Wal d) WAL_FRAME_SIZE (WAL_HEADER_SIZE + frame_idx * WAL_FRAME_SIZE))"

definition page_offset :: "nat \<Rightarrow> nat \<Rightarrow> nat res" where
  \<comment> \<open>\<open>(page_no - 1) * page_size\<close>; a negative offset makes the system call fail\<close>
  "page_offset page_size page_no = (if page_no = 0 then Inl OSError else Inr ((page_no - 1) * page_size))"

definition wal_read_page :: "nat \<Rightarrow> bytes wm" where
  "wal_read_page page_no =
     bindS (getS id) (\<lambda>(w, d).
     case map_of (w_index w) page_no of
       Some frame_idx \<Rightarrow> retS (frame_data w d frame_idx)
     | None \<Rightarrow>
         bindS (liftR (page_offset (w_page_size w) page_no)) (\<lambda>off.
         retS (pread (db_content d) (w_page_size w) off)))"

definition copy_frame :: "nat \<times> nat \<Rightarrow> unit wm" where
  "copy_frame = (\<lambda>(page_no, frame_idx).
     bindS (getS id) (\<lambda>(w, d).
     bindS (liftR (page_offset (w_page_size w) page_no)) (\<lambda>off.
     on_disk (db_pwrite (frame_data w d frame_idx) off))))"

definition wal_checkpoint :: "nat \<Rightarrow> unit wm" where
  \<comment> \<open>\<open>new_salt2\<close>: the salt drawn for the next cycle\<close>
  "wal_checkpoint new_salt2 =
     bindS (getS (\<lambda>(w, d). w_index w)) (\<lambda>index.
     if index = [] then retS ()
     else
       bindS (on_disk (side_fsync Wal)) (\<lambda>_.
       bindS (forS copy_frame index) (\<lambda>_.
       bindS (on_disk db_fsync) (\<lambda>_.
       bindS (upd_wal (\<lambda>w. w\<lparr>w_seq := w_seq w + 1, w_salt2 := new_salt2\<rparr>)) (\<lambda>_.
       bindS (on_disk (side_write Wal (Ftruncate WAL_HEADER_SIZE))) (\<lambda>_.
       bindS write_wal_header (\<lambda>_.
       upd_wal (\<lambda>w. w\<lparr>w_index := [], w_count := 0, w_next := WAL_HEADER_SIZE\<rparr>))))))))"

section \<open>Recovery\<close>

type_synonym page_dict = "(nat \<times> bytes) list"

function recover_loop :: "bytes \<Rightarrow> nat \<Rightarrow> nat \<Rightarrow> nat \<Rightarrow> nat \<Rightarrow> sums \<Rightarrow> page_dict \<Rightarrow> page_dict \<Rightarrow> page_dict res" where
  "recover_loop log page_size salt1 salt2 read_offset s pend committed =
     (let fh_raw = pread log WAL_FRAME_HEADER_SIZE read_offset in
      if length fh_raw < WAL_FRAME_HEADER_SIZE then Inr committed
      else
        let page_data = pread log page_size (read_offset + WAL_FRAME_HEADER_SIZE) in
        if length page_data < page_size then Inr committed
        else if (u32_at fh_raw 2, u32_at fh_raw 3) \<noteq> (salt1, salt2) then Inr committed
        else
          bindR (wal_checksum (take 8 fh_raw @ page_data) s) (\<lambda>new.
          if new \<noteq> (of_nat (u32_at fh_raw 4), of_nat (u32_at fh_raw 5)) then Inr committed
          else
            let pend' = AList.update (u32_at fh_raw 0) page_data pend in
            if 0 < u32_at fh_raw 1
            then recover_loop log page_size salt1 salt2 (read_offset + WAL_FRAME_SIZE) new [] (AList.updates (map fst pend') (map snd pend') committed)
            else recover_loop log page_size salt1 salt2 (read_offset + WAL_FRAME_SIZE) new pend' committed))"
  by auto
termination
  by (relation "measure (\<lambda>(log, ps, a, b, off, s, p, c). length log - off)")
    (auto simp: WAL_FRAME_HEADER_SIZE_def WAL_FRAME_SIZE_def)

declare recover_loop.simps [simp del]

definition wal_header_ok :: "nat \<Rightarrow> bytes \<Rightarrow> bool res" where
  \<comment> \<open>magic, page size and header checksum\<close>
  "wal_header_ok page_size raw =
     (if u32_at raw 0 \<noteq> WAL_MAGIC_BE then Inr False
      else if u32_at raw 2 \<noteq> page_size then Inr False
      else bindR (wal_checksum (take 24 raw) (0, 0)) (\<lambda>s.
             Inr (s = (of_nat (u32_at raw 6), of_nat (u32_at raw 7)))))"

definition write_committed :: "nat \<Rightarrow> nat \<times> bytes \<Rightarrow> (disk, unit) pm" where
  "write_committed page_size = (\<lambda>(page_no, page_bytes).
     bindS (liftR (page_offset page_size page_no)) (\<lambda>off. db_pwrite page_bytes off))"

definition recover_wal_on_open :: "nat \<Rightarrow> bool \<Rightarrow> (disk, unit) pm" where
  \<comment> \<open>\<open>openable\<close>: \<open>os.open\<close> of the sidecar succeeds\<close>
  "recover_wal_on_open page_size openable =
     bindS (getS (\<lambda>d. sc_cur (d_side Wal d))) (\<lambda>wal_file.
     case wal_file of
       None \<Rightarrow> retS ()
     | Some f \<Rightarrow>
         if \<not> openable then retS ()
         else
           let log = content f; raw_header = pread log WAL_HEADER_SIZE 0 in
           if length raw_header < WAL_HEADER_SIZE then side_unlink Wal
           else
             bindS (liftR (wal_header_ok page_size raw_header)) (\<lambda>good.
             if \<not> good then side_unlink Wal
             else
               bindS (liftR (recover_loop log page_size (u32_at raw_header 4) (u32_at raw_header 5) WAL_HEADER_SIZE
                        (of_nat (u32_at raw_header 6), of_nat (u32_at raw_header 7)) [] [])) (\<lambda>committed.
               bindS (if committed \<noteq> []
                      then bindS (forS (write_committed page_size) committed) (\<lambda>_. db_fsync)
                      else retS ()) (\<lambda>_.
               side_unlink Wal))))"

end
