(* ===== verification/WalLog.thy ===== *)
theory WalLog
  imports Wal
begin

text \<open>
  The log as a list of frames. The writer's bytes are the encoding of a frame list under a chain of
  checksums; the recovery scan reads back the longest valid prefix and keeps the frames up to the
  last commit marker. The checksum chain itself is shown to be injective in its seed and to notice
  every change inside one aligned block.
\<close>

section \<open>The checksum chain\<close>

lemma wal_sum_Nil [simp]: "wal_sum [] s = s"
  by (simp add: wal_sum.simps)

lemma wal_sum_append: "8 dvd length xs \<Longrightarrow> wal_sum (xs @ ys) s = wal_sum ys (wal_sum xs s)"
proof (induction xs s rule: wal_sum.induct)
  case (1 xs s)
  show ?case
  proof (cases "xs = []")
    case False
    then have "8 \<le> length xs" using 1(2) by (auto dest: dvd_imp_le)
    moreover have "8 dvd length (drop 8 xs)" using 1(2) by simp
    ultimately show ?thesis
      using False 1(1) [OF False refl refl refl refl]
      by (subst wal_sum.simps, subst (2) wal_sum.simps) (simp add: Let_def)
  qed simp
qed

definition sum_step :: "bytes \<Rightarrow> sums \<Rightarrow> sums" where
  "sum_step b s =
     (let s0 = fst s + of_nat (be_nat (take 4 b)) + snd s
      in (s0, snd s + of_nat (be_nat (drop 4 b)) + s0))"

lemma wal_sum_block: "length b = 8 \<Longrightarrow> wal_sum b s = sum_step b s"
  by (subst wal_sum.simps) (auto simp: sum_step_def Let_def)

lemma sums_unique:
  fixes a b c d :: "32 word"
  assumes "a + b = c + d" and "2 * b + a = 2 * d + c"
  shows "a = c \<and> b = d"
proof -
  have "b + (a + b) = d + (c + d)" using assms(2) unfolding mult_2 by (simp only: ac_simps)
  then have bd: "b = d" unfolding assms(1) by (rule add_right_imp_eq)
  with assms(1) have "a + d = c + d" by (simp only:)
  then show ?thesis using bd add_right_imp_eq by blast
qed

lemma sum_step_inj: "sum_step b s = sum_step b t \<longleftrightarrow> s = t"
  by (cases s; cases t) (auto simp: sum_step_def Let_def dest: sums_unique)

lemma sum_step_block:
  assumes "length b = 8" and "length c = 8"
  shows "sum_step b s = sum_step c s \<longleftrightarrow> b = c"
proof
  have small: "be_nat (take 4 x) < 2 ^ 32" "be_nat (drop 4 x) < 2 ^ 32" if "length x = 8" for x :: bytes
    using be_nat_bound [of "take 4 x"] be_nat_bound [of "drop 4 x"] that by simp_all
  have len: "2 ^ LENGTH(32) = (2 ^ 32 :: nat)" by simp
  have word: "m = n" if "of_nat m = (of_nat n :: 32 word)" "m < 2 ^ 32" "n < 2 ^ 32" for m n
  proof -
    have "unat (of_nat m :: 32 word) = m" "unat (of_nat n :: 32 word) = n"
      by (simp_all only: unat_of_nat mod_less [OF that(2)] mod_less [OF that(3)] len)
    then show ?thesis using that(1) by metis
  qed
  have bytes: "x = y" if "be_nat x = be_nat y" "length x = length y" for x y :: bytes
    using that be_bytes_be_nat by metis
  assume eq: "sum_step b s = sum_step c s"
  then have "be_nat (take 4 b) = be_nat (take 4 c)" "be_nat (drop 4 b) = be_nat (drop 4 c)"
    using small [OF assms(1)] small [OF assms(2)] by (auto simp: sum_step_def Let_def intro!: word)
  then have "take 4 b = take 4 c" "drop 4 b = drop 4 c" using assms by (auto intro: bytes)
  then show "b = c" by (metis append_take_drop_id)
qed simp

lemma wal_sum_inj: "wal_sum xs s = wal_sum xs t \<longleftrightarrow> s = t"
proof (induction xs s arbitrary: t rule: wal_sum.induct)
  case (1 xs s)
  show ?case
  proof (cases "xs = []")
    case False
    show ?thesis
      using 1 [OF False refl refl refl refl] False
      by (subst (1 2) wal_sum.simps) (cases s; cases t; auto simp: Let_def dest: sums_unique)
  qed simp
qed

text \<open>
  C37. The chained checksum notices every change inside one aligned 8-byte block of its input, and
  a chain that starts from another seed never gives the same sums for the same input: once a frame
  differs in one block, every later frame of the chain has another checksum too. The function is
  total on inputs whose length is a multiple of eight and raises AssertionError on all others.
\<close>

theorem wal_checksum_detects:
  assumes "8 dvd length pre" and "length b = 8" and "length c = 8"
  shows "(wal_checksum (pre @ b @ post) s = wal_checksum (pre @ c @ post) s
            \<longleftrightarrow> b = c \<or> \<not> 8 dvd length post) \<and>
    (8 dvd length post \<longrightarrow> (wal_checksum (pre @ b @ post) s = wal_checksum (pre @ b @ post) t \<longleftrightarrow> s = t)) \<and>
    (\<not> 8 dvd length post \<longrightarrow> wal_checksum (pre @ b @ post) s = Inl AssertionError)"
proof -
  have len: "length (pre @ x @ post) mod 8 = 0 \<longleftrightarrow> 8 dvd length post" if "length x = 8" for x :: bytes
    using assms(1) that by (simp add: dvd_add_right_iff flip: dvd_eq_mod_eq_0)
  have sum: "wal_sum (pre @ x @ post) s = wal_sum post (sum_step x (wal_sum pre s))" if "length x = 8" for x s
    using assms(1) that by (simp add: wal_sum_append wal_sum_block)
  show ?thesis
    using len [OF assms(2)] len [OF assms(3)] assms(2,3)
    by (auto simp: wal_checksum_def assertR_def sum wal_sum_inj sum_step_inj sum_step_block)
qed

theorem wal_checksum_detects_witness:
  "wal_checksum [1, 2, 3, 4, 5, 6, 7, 8] (0, 0) \<noteq> wal_checksum [1, 2, 3, 4, 5, 6, 7, 9] (0, 0)"
  using wal_checksum_detects [of "[]" "[1, 2, 3, 4, 5, 6, 7, 8]" "[1, 2, 3, 4, 5, 6, 7, 9]" "[]" "(0, 0)" "(0, 0)"]
  by simp

section \<open>Frames\<close>

type_synonym frame = "nat \<times> nat \<times> bytes" \<comment> \<open>page number, commit size, page data\<close>

definition frame_ok :: "frame \<Rightarrow> bool" where
  "frame_ok = (\<lambda>(pn, sz, data). pn < 2 ^ 32 \<and> sz < 2 ^ 32 \<and> length data = PAGE_SIZE)"

definition frame_sum :: "sums \<Rightarrow> frame \<Rightarrow> sums" where
  "frame_sum s = (\<lambda>(pn, sz, data). wal_sum (be_bytes 4 pn @ be_bytes 4 sz @ data) s)"

definition frame_bytes :: "nat \<Rightarrow> nat \<Rightarrow> sums \<Rightarrow> frame \<Rightarrow> bytes" where
  "frame_bytes salt1 salt2 s fr =
     (case fr of (pn, sz, data) \<Rightarrow>
        (be_bytes 4 pn @ be_bytes 4 sz @ be_bytes 4 salt1 @ be_bytes 4 salt2) @
        sum_bytes (frame_sum s fr) @ data)"

fun frames_bytes :: "nat \<Rightarrow> nat \<Rightarrow> sums \<Rightarrow> frame list \<Rightarrow> bytes" where
  "frames_bytes salt1 salt2 s [] = []"
| "frames_bytes salt1 salt2 s (fr # frs) =
     frame_bytes salt1 salt2 s fr @ frames_bytes salt1 salt2 (frame_sum s fr) frs"

definition read_frame :: "bytes \<Rightarrow> nat \<Rightarrow> nat \<Rightarrow> sums \<Rightarrow> nat \<Rightarrow> frame option" where
  \<comment> \<open>the frame the scan accepts at this offset\<close>
  "read_frame log salt1 salt2 s off =
     (let fh = pread log WAL_FRAME_HEADER_SIZE off; pd = pread log PAGE_SIZE (off + WAL_FRAME_HEADER_SIZE) in
      if length fh < WAL_FRAME_HEADER_SIZE \<or> length pd < PAGE_SIZE
         \<or> (u32_at fh 2, u32_at fh 3) \<noteq> (salt1, salt2)
         \<or> wal_checksum (take 8 fh @ pd) s \<noteq> Inr (of_nat (u32_at fh 4), of_nat (u32_at fh 5))
      then None else Some (u32_at fh 0, u32_at fh 1, pd))"

definition replay1 :: "page_dict \<times> page_dict \<Rightarrow> frame \<Rightarrow> page_dict \<times> page_dict" where
  "replay1 = (\<lambda>(pend, committed) (pn, sz, data).
     let pend' = AList.update pn data pend in
     if 0 < sz then ([], AList.updates (map fst pend') (map snd pend') committed) else (pend', committed))"

lemma WAL_FRAME_SIZE_numeral: "WAL_FRAME_SIZE = 8216"
  by (simp add: WAL_FRAME_SIZE_def WAL_FRAME_HEADER_SIZE_def PAGE_SIZE_def)

lemma length_sum_bytes [simp]: "length (sum_bytes s) = 8"
  by (simp add: sum_bytes_def)

lemma length_frame_bytes: "frame_ok fr \<Longrightarrow> length (frame_bytes a b s fr) = WAL_FRAME_SIZE"
  by (auto simp: frame_bytes_def frame_ok_def WAL_FRAME_SIZE_def WAL_FRAME_HEADER_SIZE_def)

lemma length_frames_bytes:
  "list_all frame_ok frs \<Longrightarrow> length (frames_bytes a b s frs) = WAL_FRAME_SIZE * length frs"
  by (induction frs arbitrary: s) (auto simp: length_frame_bytes)

lemma frames_bytes_append:
  "frames_bytes a b s (frs @ gs) = frames_bytes a b s frs @ frames_bytes a b (foldl frame_sum s frs) gs"
  by (induction frs arbitrary: s) simp_all

lemma u32_at_Nil_append [simp]:
  "u32_at (be_bytes 4 v @ rest) 0 = v mod 2 ^ 32" "u32_at (be_bytes 4 v) 0 = v mod 2 ^ 32"
  by (simp_all add: u32_at_def pyslice_def be_nat_be_bytes)

lemma u32_at_skip [simp]:
  "length xs = 4 \<Longrightarrow> u32_at (xs @ rest) (Suc i) = u32_at rest i"
  "length xs = 4 \<Longrightarrow> u32_at (xs @ rest) (numeral k) = u32_at rest (pred_numeral k)"
  by (simp_all add: u32_at_def pyslice_def numeral_eq_Suc)

lemma of_nat_unat_sums [simp]: "unat (x :: 32 word) mod 4294967296 = unat x"
  using unsigned_less [of x, where ?'a = nat] by simp

lemma read_frame_written:
  assumes "pread log WAL_FRAME_SIZE off = frame_bytes a b s fr" and fr: "frame_ok fr"
    and salts: "a < 2 ^ 32" "b < 2 ^ 32"
  shows "read_frame log a b s off = Some fr"
proof -
  obtain pn sz data where [simp]: "fr = (pn, sz, data)" by (cases fr)
  have len: "pn < 2 ^ 32" "sz < 2 ^ 32" "length data = PAGE_SIZE" using fr by (simp_all add: frame_ok_def)
  let ?h = "be_bytes 4 pn @ be_bytes 4 sz @ be_bytes 4 a @ be_bytes 4 b @ sum_bytes (frame_sum s fr)"
  have all: "take WAL_FRAME_SIZE (drop off log) = ?h @ data"
    using assms(1) by (simp add: pread_def frame_bytes_def)
  have h: "pread log WAL_FRAME_HEADER_SIZE off = ?h"
  proof -
    have "pread log WAL_FRAME_HEADER_SIZE off = take WAL_FRAME_HEADER_SIZE (take WAL_FRAME_SIZE (drop off log))"
      by (simp add: pread_def WAL_FRAME_SIZE_def)
    also have "\<dots> = ?h" unfolding all by (simp add: WAL_FRAME_HEADER_SIZE_def)
    finally show ?thesis .
  qed
  have d: "pread log PAGE_SIZE (off + WAL_FRAME_HEADER_SIZE) = data"
  proof -
    have "pread log PAGE_SIZE (off + WAL_FRAME_HEADER_SIZE) =
        drop WAL_FRAME_HEADER_SIZE (take WAL_FRAME_SIZE (drop off log))"
      by (simp add: pread_def WAL_FRAME_SIZE_def drop_take add.commute)
    also have "\<dots> = data" unfolding all by (simp add: WAL_FRAME_HEADER_SIZE_def)
    finally show ?thesis .
  qed
  have "length data mod 8 = 0" using len by (simp add: PAGE_SIZE_def)
  then show ?thesis
    using len salts
    unfolding read_frame_def h d
    by (simp add: wal_checksum_def sum_bytes_def frame_sum_def WAL_FRAME_HEADER_SIZE_def)
qed

lemma recover_loop_frame:
  assumes "read_frame log a b s off = Some (pn, sz, data)"
  shows "recover_loop log PAGE_SIZE a b off s pend committed =
    (case replay1 (pend, committed) (pn, sz, data) of (pend', committed') \<Rightarrow>
       recover_loop log PAGE_SIZE a b (off + WAL_FRAME_SIZE) (frame_sum s (pn, sz, data)) pend' committed')"
proof -
  let ?fh = "pread log WAL_FRAME_HEADER_SIZE off" and ?pd = "pread log PAGE_SIZE (off + WAL_FRAME_HEADER_SIZE)"
  let ?new = "(of_nat (u32_at ?fh 4), of_nat (u32_at ?fh 5)) :: sums"
  have c: "length ?fh = WAL_FRAME_HEADER_SIZE" "length ?pd = PAGE_SIZE" "u32_at ?fh 2 = a" "u32_at ?fh 3 = b"
    "wal_checksum (take 8 ?fh @ ?pd) s = Inr ?new" "pn = u32_at ?fh 0" "sz = u32_at ?fh 1" "data = ?pd"
    using assms by (auto simp: read_frame_def Let_def not_less split: if_splits)
  have "take 8 ?fh = take 4 ?fh @ take 4 (drop 4 ?fh)" by (simp flip: take_add)
  also have "\<dots> = be_bytes 4 pn @ be_bytes 4 sz"
    unfolding c(6,7) using c(1)
    by (simp add: u32_at_def pyslice_def be_bytes_be_nat WAL_FRAME_HEADER_SIZE_def del: length_pread)
  finally have "frame_sum s (pn, sz, data) = ?new"
    using c(5) by (simp add: frame_sum_def wal_checksum_def c(8) bindR_eq_Inr_iff)
  then show ?thesis
    using c by (subst recover_loop.simps) (simp add: Let_def replay1_def del: length_pread)
qed

lemma recover_loop_end:
  assumes "read_frame log a b s off = None"
  shows "recover_loop log PAGE_SIZE a b off s pend committed = Inr committed"
proof -
  let ?fh = "pread log WAL_FRAME_HEADER_SIZE off" and ?pd = "pread log PAGE_SIZE (off + WAL_FRAME_HEADER_SIZE)"
  have "length (take 8 ?fh @ ?pd) mod 8 = 0"
    if "\<not> length ?fh < WAL_FRAME_HEADER_SIZE" "\<not> length ?pd < PAGE_SIZE"
    using that by (simp add: PAGE_SIZE_def WAL_FRAME_HEADER_SIZE_def)
  then show ?thesis
    using assms by (subst recover_loop.simps)
      (auto simp: read_frame_def Let_def wal_checksum_def split: if_splits simp del: length_pread)
qed

section \<open>What the scan accepts\<close>

lemma read_frame_inside: "read_frame log a b s off = Some fr \<Longrightarrow> off < length log"
  by (auto simp: read_frame_def Let_def WAL_FRAME_HEADER_SIZE_def split: if_splits)

function accepted :: "bytes \<Rightarrow> nat \<Rightarrow> nat \<Rightarrow> sums \<Rightarrow> nat \<Rightarrow> frame list" where
  "accepted log a b s off =
     (case read_frame log a b s off of
        None \<Rightarrow> []
      | Some fr \<Rightarrow> fr # accepted log a b (frame_sum s fr) (off + WAL_FRAME_SIZE))"
  by auto
termination
  by (relation "measure (\<lambda>(log, a, b, s, off). length log - off)")
    (auto simp: WAL_FRAME_SIZE_numeral dest!: read_frame_inside)

declare accepted.simps [simp del]

definition frame_dict :: "frame list \<Rightarrow> page_dict" where
  \<comment> \<open>the committed pages of a frame list\<close>
  "frame_dict frs = snd (foldl replay1 ([], []) frs)"

lemma recover_loop_accepted:
  "recover_loop log PAGE_SIZE a b off s pend committed =
     Inr (snd (foldl replay1 (pend, committed) (accepted log a b s off)))"
proof (induction log a b s off arbitrary: pend committed rule: accepted.induct)
  case (1 log a b s off)
  show ?case
  proof (cases "read_frame log a b s off")
    case None
    then show ?thesis by (subst accepted.simps) (simp add: recover_loop_end)
  next
    case (Some fr)
    obtain pn sz data where fr: "fr = (pn, sz, data)" by (cases fr)
    obtain p' c' where r: "replay1 (pend, committed) fr = (p', c')" by fastforce
    show ?thesis
      using recover_loop_frame [OF Some [unfolded fr], of pend committed] 1 [OF Some, of p' c'] r
      by (subst accepted.simps) (simp add: Some fr)
  qed
qed

lemma accepted_frames:
  assumes "\<And>k. k < length frs \<Longrightarrow>
      read_frame log a b (foldl frame_sum s (take k frs)) (off + k * WAL_FRAME_SIZE) = Some (frs ! k)"
  shows "accepted log a b s off = frs @ accepted log a b (foldl frame_sum s frs) (off + length frs * WAL_FRAME_SIZE)"
  using assms
proof (induction frs arbitrary: s off)
  case (Cons fr frs)
  have "read_frame log a b s off = Some fr" using Cons.prems [of 0] by simp
  moreover have "accepted log a b (frame_sum s fr) (off + WAL_FRAME_SIZE) =
      frs @ accepted log a b (foldl frame_sum (frame_sum s fr) frs) (off + WAL_FRAME_SIZE + length frs * WAL_FRAME_SIZE)"
    using Cons.prems [of "Suc k" for k] by (intro Cons.IH) (simp add: add.assoc)
  ultimately show ?case by (subst accepted.simps) (simp add: add.assoc)
qed simp

definition frame_at :: "nat \<Rightarrow> nat \<Rightarrow> sums \<Rightarrow> frame list \<Rightarrow> nat \<Rightarrow> bytes" where
  \<comment> \<open>the bytes of frame \<open>k\<close> of a list\<close>
  "frame_at a b s frs k = frame_bytes a b (foldl frame_sum s (take k frs)) (frs ! k)"

lemma frames_bytes_pread:
  assumes "pread log (WAL_FRAME_SIZE * length frs) off = frames_bytes a b s frs"
    and "list_all frame_ok frs" and "k < length frs"
  shows "pread log WAL_FRAME_SIZE (off + k * WAL_FRAME_SIZE) = frame_at a b s frs k"
proof -
  have split: "frs = take k frs @ frs ! k # drop (Suc k) frs" using assms(3) by (simp add: id_take_nth_drop)
  have ok: "list_all frame_ok (take k frs)" "frame_ok (frs ! k)"
    using assms(2,3) by (simp_all add: list_all_length)
  have "frames_bytes a b s frs = frames_bytes a b s (take k frs) @ frame_at a b s frs k @
      frames_bytes a b (foldl frame_sum s (take (Suc k) frs)) (drop (Suc k) frs)"
    using assms(3) by (subst split, subst frames_bytes_append) (simp add: frame_at_def take_Suc_conv_app_nth)
  then have "take WAL_FRAME_SIZE (drop (k * WAL_FRAME_SIZE) (frames_bytes a b s frs)) = frame_at a b s frs k"
    using length_frames_bytes [OF ok(1), of a b s] length_frame_bytes [OF ok(2)] assms(3)
    by (simp add: frame_at_def mult.commute)
  moreover have "Suc k * WAL_FRAME_SIZE \<le> WAL_FRAME_SIZE * length frs"
    using mult_le_mono1 [of "Suc k" "length frs" WAL_FRAME_SIZE] assms(3) by (simp add: mult.commute)
  then have "WAL_FRAME_SIZE \<le> WAL_FRAME_SIZE * length frs - k * WAL_FRAME_SIZE" by simp
  ultimately show ?thesis
    unfolding assms(1) [symmetric] pread_def
    by (simp add: drop_take take_take min_def add.commute le_diff_conv2)
qed

lemma accepted_prefix:
  assumes L: "pread g (WAL_FRAME_SIZE * length L) off = frames_bytes a b s L"
    and ok: "list_all frame_ok L" "list_all frame_ok t" and salts: "a < 2 ^ 32" "b < 2 ^ 32"
    and len: "length g \<le> off + WAL_FRAME_SIZE * (length L + length t)"
    and tears: "\<And>k. k < length t \<Longrightarrow>
      pread g WAL_FRAME_SIZE (off + (length L + k) * WAL_FRAME_SIZE) \<noteq> frame_at a b s (L @ t) (length L + k) \<Longrightarrow>
      read_frame g a b (foldl frame_sum s (L @ take k t)) (off + (length L + k) * WAL_FRAME_SIZE) = None"
  obtains k where "k \<le> length t" "accepted g a b s off = L @ take k t"
    "k < length t \<Longrightarrow> pread g WAL_FRAME_SIZE (off + (length L + k) * WAL_FRAME_SIZE) \<noteq> frame_at a b s (L @ t) (length L + k)"
proof -
  let ?at = "\<lambda>k. pread g WAL_FRAME_SIZE (off + (length L + k) * WAL_FRAME_SIZE) = frame_at a b s (L @ t) (length L + k)"
  define k where "k = (if \<exists>k < length t. \<not> ?at k then LEAST k. k < length t \<and> \<not> ?at k else length t)"
  have k: "k \<le> length t" "\<forall>j < k. ?at j" "k < length t \<Longrightarrow> \<not> ?at k"
  proof -
    consider (ex) "\<exists>k < length t. \<not> ?at k" | (all) "\<forall>k < length t. ?at k" by blast
    then have "k \<le> length t \<and> (\<forall>j < k. ?at j) \<and> (k < length t \<longrightarrow> \<not> ?at k)"
    proof cases
      case ex
      then have "k < length t \<and> \<not> ?at k" unfolding k_def using LeastI_ex [of "\<lambda>k. k < length t \<and> \<not> ?at k"] by auto
      moreover have "?at j" if "j < k" for j
        using not_less_Least [of j "\<lambda>k. k < length t \<and> \<not> ?at k"] that ex calculation by (auto simp: k_def)
      ultimately show ?thesis by auto
    next
      case all
      then show ?thesis by (auto simp: k_def)
    qed
    then show "k \<le> length t" "\<forall>j < k. ?at j" "k < length t \<Longrightarrow> \<not> ?at k" by blast+
  qed
  let ?frs = "L @ take k t"
  have read: "read_frame g a b (foldl frame_sum s (take i ?frs)) (off + i * WAL_FRAME_SIZE) = Some (?frs ! i)"
    if i: "i < length ?frs" for i
  proof -
    have pr: "pread g WAL_FRAME_SIZE (off + i * WAL_FRAME_SIZE) = frame_bytes a b (foldl frame_sum s (take i ?frs)) (?frs ! i)"
    proof (cases "i < length L")
      case True
      then show ?thesis
        using frames_bytes_pread [OF L ok(1) True] by (simp add: frame_at_def nth_append)
    next
      case False
      define j where "j = i - length L"
      have j: "i = length L + j" "j < k" using False i k(1) by (auto simp: j_def)
      then have "?at j" using k(2) by blast
      then show ?thesis using j k(1) by (simp add: frame_at_def nth_append take_take min_def)
    qed
    have "frame_ok (?frs ! i)" using ok i k(1) by (auto simp: list_all_length nth_append)
    then show ?thesis by (rule read_frame_written [OF pr _ salts])
  qed
  have "read_frame g a b (foldl frame_sum s ?frs) (off + length ?frs * WAL_FRAME_SIZE) = None"
  proof (cases "k < length t")
    case True
    then show ?thesis using tears [OF True k(3)] k(1) by (simp add: min_def)
  next
    case False
    then have "length g \<le> off + length ?frs * WAL_FRAME_SIZE" using len k(1) by (simp add: mult.commute min_def)
    then show ?thesis using read_frame_inside by (metis linorder_not_le not_None_eq)
  qed
  then have "accepted g a b (foldl frame_sum s ?frs) (off + length ?frs * WAL_FRAME_SIZE) = []"
    by (subst accepted.simps) simp
  with accepted_frames [OF read] have "accepted g a b s off = ?frs" by simp
  then show thesis using k by (intro that) auto
qed

end
