(* ===== verification/WalTxn.thy ===== *)
theory WalTxn
  imports WalLog
begin

text \<open>
  Transactions in the log: what the scan keeps of a list of transactions, the invariant of the
  writer between transactions, and the runs of its operations when any system call may fail.
\<close>

section \<open>Dicts\<close>

lemma map_of_rev_dict: "distinct (map fst xs) \<Longrightarrow> map_of (rev xs) = map_of xs"
  by (rule ext) (metis distinct_rev map_of_eqI map_of_is_SomeI map_of_SomeD rev_map set_rev
      map_of_eq_None_iff option.exhaust)

lemma map_of_updates:
  "distinct (map fst items) \<Longrightarrow>
   map_of (AList.updates (map fst items) (map snd items) al) = map_of al ++ map_of items"
  by (simp add: updates_conv' map_upds_def zip_map_fst_snd map_of_rev_dict)

section \<open>Transactions\<close>

type_synonym txn = "page_dict \<times> nat"

fun mark :: "page_dict \<Rightarrow> nat \<Rightarrow> frame list" where
  \<comment> \<open>the frames of one transaction: the last one carries the commit size\<close>
  "mark [] n = []"
| "mark ((p, data) # items) n = (p, if items = [] then n else 0, data) # mark items n"

definition txn_ok :: "txn \<Rightarrow> bool" where
  "txn_ok = (\<lambda>(items, n). items \<noteq> [] \<and> distinct (map fst items) \<and> 0 < n \<and> n < 2 ^ 32 \<and>
     (\<forall>(p, data) \<in> set items. 1 \<le> p \<and> p < 2 ^ 32 \<and> length data = PAGE_SIZE))"

definition log_frames :: "txn list \<Rightarrow> frame list" where
  "log_frames ts = concat (map (\<lambda>(items, n). mark items n) ts)"

definition logged :: "txn list \<Rightarrow> (nat \<rightharpoonup> bytes)" where
  \<comment> \<open>the newest committed content of each page in the log\<close>
  "logged ts = foldl (\<lambda>m (items, n). m ++ map_of items) Map.empty ts"

lemma log_frames_simps [simp]:
  "log_frames [] = []" "log_frames (ts @ [(items, n)]) = log_frames ts @ mark items n"
  by (simp_all add: log_frames_def)

lemma logged_simps [simp]:
  "logged [] = Map.empty" "logged (ts @ [(items, n)]) = logged ts ++ map_of items"
  by (simp_all add: logged_def)

lemma length_mark [simp]: "length (mark items n) = length items"
  by (induction items n rule: mark.induct) auto

lemma map_fst_mark [simp]: "map fst (mark items n) = map fst items"
  by (induction items n rule: mark.induct) auto

lemma mark_nth: "k < length items \<Longrightarrow>
   mark items n ! k = (fst (items ! k), if k = length items - 1 then n else 0, snd (items ! k))"
proof (induction items n arbitrary: k rule: mark.induct)
  case (2 p data items n)
  then show ?case by (cases k) auto
qed simp

lemma mark_ok: "n < 2 ^ 32 \<Longrightarrow> \<forall>(p, data) \<in> set items. p < 2 ^ 32 \<and> length data = PAGE_SIZE \<Longrightarrow>
    list_all frame_ok (mark items n)"
  by (induction items n rule: mark.induct) (auto simp: frame_ok_def)

lemma txn_frames_ok: "txn_ok (items, n) \<Longrightarrow> list_all frame_ok (mark items n)"
  by (intro mark_ok) (auto simp: txn_ok_def)

lemma log_frames_ok: "list_all txn_ok ts \<Longrightarrow> list_all frame_ok (log_frames ts)"
  by (induction ts) (auto simp: log_frames_def txn_ok_def intro!: mark_ok)

lemma replay_mark:
  "items \<noteq> [] \<Longrightarrow> 0 < n \<Longrightarrow> foldl replay1 (pend, c) (mark items n) =
     ([], let p = AList.updates (map fst items) (map snd items) pend in AList.updates (map fst p) (map snd p) c)"
proof (induction items n arbitrary: pend rule: mark.induct)
  case (2 p data items n)
  show ?case
  proof (cases "items = []")
    case True
    then show ?thesis using 2 by (simp add: replay1_def Let_def)
  next
    case False
    then show ?thesis using 2 by (simp add: replay1_def)
  qed
qed simp

lemma replay_part: "k < length items \<Longrightarrow> snd (foldl replay1 (pend, c) (take k (mark items n))) = c"
proof (induction items n arbitrary: pend k rule: mark.induct)
  case (2 p data items n)
  show ?case
  proof (cases k)
    case (Suc j)
    then have "items \<noteq> []" "j < length items" using 2(2) by auto
    then show ?thesis using 2(1) Suc by (simp add: replay1_def)
  qed simp
qed simp

lemma replay_mark_map:
  assumes "txn_ok (items, n)"
  shows "fst (foldl replay1 ([], c) (mark items n)) = []"
    and "map_of (snd (foldl replay1 ([], c) (mark items n))) = map_of c ++ map_of items"
    and "distinct (map fst c) \<Longrightarrow> distinct (map fst (snd (foldl replay1 ([], c) (mark items n))))"
proof -
  have t: "items \<noteq> []" "0 < n" "distinct (map fst items)" using assms by (simp_all add: txn_ok_def)
  let ?p = "AList.updates (map fst items) (map snd items) []"
  have p: "distinct (map fst ?p)" "map_of ?p = map_of items"
    using map_of_updates [OF t(3), of "[]"] by (simp_all add: distinct_updates)
  show "fst (foldl replay1 ([], c) (mark items n)) = []"
    using replay_mark [OF t(1,2)] by simp
  show "map_of (snd (foldl replay1 ([], c) (mark items n))) = map_of c ++ map_of items"
    using replay_mark [OF t(1,2), of "[]" c] map_of_updates [OF p(1)] p(2) by (simp add: Let_def)
  show "distinct (map fst (snd (foldl replay1 ([], c) (mark items n))))" if "distinct (map fst c)"
    using replay_mark [OF t(1,2), of "[]" c] that by (simp add: Let_def distinct_updates)
qed

lemma replay_log:
  "list_all txn_ok ts \<Longrightarrow> \<exists>c. foldl replay1 ([], []) (log_frames ts) = ([], c) \<and> map_of c = logged ts \<and> distinct (map fst c)"
proof (induction ts rule: rev_induct)
  case (snoc t ts)
  obtain items n where t: "t = (items, n)" by (cases t)
  obtain c where c: "foldl replay1 ([], []) (log_frames ts) = ([], c)" "map_of c = logged ts" "distinct (map fst c)"
    using snoc by auto
  have ok: "txn_ok (items, n)" using snoc.prems t by simp
  let ?c = "snd (foldl replay1 ([], c) (mark items n))"
  have "foldl replay1 ([], c) (mark items n) = ([], ?c)"
    using replay_mark_map(1) [OF ok, of c] by (metis prod.collapse)
  then have "foldl replay1 ([], []) (log_frames (ts @ [t])) = ([], ?c)" by (simp add: t c(1))
  then show ?case
    using c(2,3) replay_mark_map(2,3) [OF ok, of c] by (intro exI [of _ ?c]) (simp add: t)
qed simp

lemma dict_of_log:
  assumes "list_all txn_ok ts" and "txn_ok (items, n)" and "k \<le> length items"
  shows "map_of (frame_dict (log_frames ts @ take k (mark items n))) =
      (if k < length items then logged ts else logged (ts @ [(items, n)]))"
    and "distinct (map fst (frame_dict (log_frames ts @ take k (mark items n))))"
proof -
  obtain c where c: "foldl replay1 ([], []) (log_frames ts) = ([], c)" "map_of c = logged ts" "distinct (map fst c)"
    using replay_log [OF assms(1)] by blast
  show "map_of (frame_dict (log_frames ts @ take k (mark items n))) =
      (if k < length items then logged ts else logged (ts @ [(items, n)]))"
    using c assms(3) replay_part [of k items "[]" c n] replay_mark_map(2) [OF assms(2), of c]
    by (auto simp: frame_dict_def)
  show "distinct (map fst (frame_dict (log_frames ts @ take k (mark items n))))"
    using c assms(3) replay_part [of k items "[]" c n] replay_mark_map(3) [OF assms(2), of c]
    by (cases "k < length items") (auto simp: frame_dict_def)
qed

lemma logged_pages:
  assumes "list_all txn_ok ts" and "logged ts p = Some data"
  shows "1 \<le> p \<and> p < 2 ^ 32 \<and> length data = PAGE_SIZE"
  using assms
proof (induction ts rule: rev_induct)
  case (snoc t ts)
  obtain items n where t: "t = (items, n)" by (cases t)
  with snoc show ?case
    by (auto simp: map_add_Some_iff txn_ok_def dest!: map_of_SomeD)
qed simp

section \<open>The state of the writer\<close>

definition wal_hdr :: "wal \<Rightarrow> bytes" where
  "wal_hdr w = concat (map (be_bytes 4)
     [WAL_MAGIC_BE, WAL_FORMAT_VERSION, w_page_size w, w_seq w, w_salt1 w, w_salt2 w])"

definition hdr_sums :: "wal \<Rightarrow> sums" where
  "hdr_sums w = wal_sum (wal_hdr w) (0, 0)"

definition header_bytes :: "wal \<Rightarrow> bytes" where
  "header_bytes w = wal_hdr w @ sum_bytes (hdr_sums w)"

definition wal_dict :: "bytes option \<Rightarrow> page_dict" where
  \<comment> \<open>the pages recovery takes from a sidecar file\<close>
  "wal_dict side =
     (case side of
        None \<Rightarrow> []
      | Some log \<Rightarrow>
          if length log < WAL_HEADER_SIZE \<or> wal_header_ok PAGE_SIZE (take WAL_HEADER_SIZE log) \<noteq> Inr True then []
          else frame_dict (accepted log (u32_at log 4) (u32_at log 5)
                 (of_nat (u32_at log 6), of_nat (u32_at log 7)) WAL_HEADER_SIZE))"

definition overlay :: "(nat \<rightharpoonup> bytes) \<Rightarrow> bytes \<Rightarrow> nat \<Rightarrow> bytes" where
  \<comment> \<open>the pages of a file with some replaced\<close>
  "overlay m f p = (case m p of Some data \<Rightarrow> data | None \<Rightarrow> page_img f p)"

definition dict_pages :: "page_dict \<Rightarrow> bool" where
  "dict_pages c \<longleftrightarrow> distinct (map fst c) \<and> pages_ok c"

definition absorbed :: "bytes option \<Rightarrow> bytes \<Rightarrow> bool" where
  \<comment> \<open>replaying this sidecar on that file changes no page\<close>
  "absorbed side f \<longleftrightarrow> dict_pages (wal_dict side) \<and> (\<forall>p data. map_of (wal_dict side) p = Some data \<longrightarrow> page_img f p = data)"

lemma header_upd [simp]:
  "hdr_sums (w\<lparr>w_next := x\<rparr>) = hdr_sums w" "hdr_sums (w\<lparr>w_run := s\<rparr>) = hdr_sums w"
  "hdr_sums (w\<lparr>w_index := ix\<rparr>) = hdr_sums w" "hdr_sums (w\<lparr>w_count := x\<rparr>) = hdr_sums w"
  "hdr_sums (w\<lparr>w_com := s\<rparr>) = hdr_sums w" "hdr_sums (w\<lparr>w_com_next := x\<rparr>) = hdr_sums w"
  "header_bytes (w\<lparr>w_next := x\<rparr>) = header_bytes w" "header_bytes (w\<lparr>w_run := s\<rparr>) = header_bytes w"
  "header_bytes (w\<lparr>w_index := ix\<rparr>) = header_bytes w" "header_bytes (w\<lparr>w_count := x\<rparr>) = header_bytes w"
  "header_bytes (w\<lparr>w_com := s\<rparr>) = header_bytes w" "header_bytes (w\<lparr>w_com_next := x\<rparr>) = header_bytes w"
  by (simp_all add: header_bytes_def hdr_sums_def wal_hdr_def)

lemma length_wal_hdr [simp]: "length (wal_hdr w) = 24"
  by (simp add: wal_hdr_def)

lemma length_header_bytes [simp]: "length (header_bytes w) = WAL_HEADER_SIZE"
  by (simp add: header_bytes_def WAL_HEADER_SIZE_def)

lemma absorbed_overlay: "absorbed side f \<Longrightarrow> overlay (map_of (wal_dict side)) f = page_img f"
  by (rule ext) (auto simp: absorbed_def overlay_def split: option.split)

lemma header_fields:
  assumes "w_page_size w = PAGE_SIZE" and "w_salt1 w < 2 ^ 32" and "w_salt2 w < 2 ^ 32"
  shows "wal_header_ok PAGE_SIZE (header_bytes w) = Inr True"
    and "u32_at (header_bytes w @ rest) 4 = w_salt1 w" and "u32_at (header_bytes w @ rest) 5 = w_salt2 w"
    and "(of_nat (u32_at (header_bytes w @ rest) 6), of_nat (u32_at (header_bytes w @ rest) 7)) = hdr_sums w"
  using assms
  by (simp_all add: wal_header_ok_def header_bytes_def wal_hdr_def sum_bytes_def wal_checksum_def hdr_sums_def
      WAL_MAGIC_BE_def PAGE_SIZE_def)

section \<open>The invariant\<close>

definition last_index :: "frame list \<Rightarrow> nat \<Rightarrow> nat option" where
  \<comment> \<open>the newest frame of each page\<close>
  "last_index L p = (if p \<in> fst ` set L then Some (GREATEST i. i < length L \<and> fst (L ! i) = p) else None)"

definition at_rest :: "wal \<Rightarrow> bool" where
  \<comment> \<open>no transaction in flight\<close>
  "at_rest w \<longleftrightarrow> w_run w = w_com w \<and> w_next w = w_com_next w"

definition writer_ok :: "wal \<Rightarrow> txn list \<Rightarrow> bool" where
  "writer_ok w ts \<longleftrightarrow>
     w_page_size w = PAGE_SIZE \<and> w_salt1 w < 2 ^ 32 \<and> w_salt2 w < 2 ^ 32 \<and> w_seq w < 2 ^ 32 \<and>
     list_all txn_ok ts \<and> w_com_next w = WAL_HEADER_SIZE + WAL_FRAME_SIZE * length (log_frames ts) \<and>
     w_com w = foldl frame_sum (hdr_sums w) (log_frames ts) \<and> w_count w = length (log_frames ts) \<and>
     map_of (w_index w) = last_index (log_frames ts) \<and> distinct (map fst (w_index w))"

definition log_bytes :: "wal \<Rightarrow> txn list \<Rightarrow> bytes" where
  \<comment> \<open>what the sidecar holds\<close>
  "log_bytes w ts = header_bytes w @ frames_bytes (w_salt1 w) (w_salt2 w) (hdr_sums w) (log_frames ts)"

definition log_synced :: "wal \<Rightarrow> disk \<Rightarrow> txn list \<Rightarrow> bool" where
  \<comment> \<open>the committed log is durable\<close>
  "log_synced w d ts \<longleftrightarrow> d_wal d = \<lparr>sc_cur = Some (settled_file (log_bytes w ts)), sc_stale = []\<rparr>"

definition side_image :: "sidecar \<Rightarrow> bytes option" where
  "side_image sc = map_option content (sc_cur sc)"

definition quiet_side :: "sidecar \<Rightarrow> bytes \<Rightarrow> bool" where
  \<comment> \<open>whatever a crash makes of this sidecar, replaying it changes nothing\<close>
  "quiet_side sc f \<longleftrightarrow> (\<forall>sc'. crash_side sc sc' \<longrightarrow> absorbed (side_image sc') f)"

definition log_fresh :: "wal \<Rightarrow> disk \<Rightarrow> bool" where
  \<comment> \<open>a new cycle: the truncated file and its header are not yet durable, but every older sidecar
     that may come back has been copied into the database file\<close>
  "log_fresh w d \<longleftrightarrow>
     (\<exists>B n. n \<le> WAL_HEADER_SIZE \<and>
       sc_cur (d_wal d) = Some \<lparr>f_synced = B, f_pending = [Ftruncate n, Pwrite 0 (header_bytes w)]\<rparr> \<and>
       quiet_side \<lparr>sc_cur = Some (settled_file B), sc_stale = sc_stale (d_wal d)\<rparr> (db_content d))"

definition wal_inv :: "wal \<Rightarrow> disk \<Rightarrow> txn list \<Rightarrow> bool" where
  \<comment> \<open>between transactions: \<open>ts\<close> are the transactions committed since the last checkpoint\<close>
  "wal_inv w d ts \<longleftrightarrow> writer_ok w ts \<and> at_rest w \<and> f_pending (d_db d) = [] \<and>
     (log_synced w d ts \<or> ts = [] \<and> log_fresh w d)"

definition wal_pages :: "wal \<Rightarrow> disk \<Rightarrow> nat \<Rightarrow> bytes" where
  \<comment> \<open>what a reader sees: the newest committed frame, else the database file\<close>
  "wal_pages w d p =
     (case map_of (w_index w) p of Some i \<Rightarrow> frame_data w d i | None \<Rightarrow> page_img (db_content d) p)"

lemma last_index_snoc:
  "last_index (L @ [fr]) = (last_index L)(fst fr \<mapsto> length L)"
proof
  fix p
  show "last_index (L @ [fr]) p = ((last_index L)(fst fr \<mapsto> length L)) p"
  proof (cases "fst fr = p")
    case True
    have "(GREATEST i. i < length (L @ [fr]) \<and> fst ((L @ [fr]) ! i) = p) = length L"
      using True by (intro Greatest_equality) auto
    with True show ?thesis by (auto simp: last_index_def)
  next
    case False
    have "(\<lambda>i. i < length (L @ [fr]) \<and> fst ((L @ [fr]) ! i) = p) = (\<lambda>i. i < length L \<and> fst (L ! i) = p)"
      using False by (auto simp: nth_append less_Suc_eq)
    with False show ?thesis by (auto simp: last_index_def)
  qed
qed

lemma last_index_empty: "last_index L = Map.empty \<longleftrightarrow> L = []"
proof (cases L rule: rev_cases)
  case (snoc L' fr)
  then have "last_index L (fst fr) = Some (length L')" by (simp add: last_index_snoc)
  with snoc show ?thesis by auto
qed (simp add: last_index_def fun_eq_iff)

lemma log_frames_Nil: "list_all txn_ok ts \<Longrightarrow> log_frames ts = [] \<longleftrightarrow> ts = []"
proof (cases ts)
  case (Cons t us)
  assume ok: "list_all txn_ok ts"
  obtain items n where t: "t = (items, n)" by (cases t)
  then have "mark items n \<noteq> []" using ok Cons by (cases items) (auto simp: txn_ok_def)
  then show ?thesis using Cons t by (auto simp: log_frames_def)
qed simp

lemma index_frames_run:
  "map_of ix = last_index L \<Longrightarrow>
   map_of (index_frames (length L) (map fst frs) ix) = last_index (L @ frs)"
proof (induction frs arbitrary: L ix)
  case (Cons fr frs)
  have "map_of (AList.update (fst fr) (length L) ix) = last_index (L @ [fr])"
    using Cons.prems by (simp add: update_conv' last_index_snoc)
  from Cons.IH [OF this] show ?case by simp
qed simp

lemma index_frames_distinct: "distinct (map fst ix) \<Longrightarrow> distinct (map fst (index_frames i ps ix))"
  by (induction i ps ix rule: index_frames.induct) (auto simp: distinct_update)

lemma last_index_Some:
  assumes "last_index L p = Some i"
  shows "i < length L" and "fst (L ! i) = p"
proof -
  have p: "p \<in> fst ` set L" and i: "i = (GREATEST i. i < length L \<and> fst (L ! i) = p)"
    using assms by (auto simp: last_index_def split: if_splits)
  obtain j where "j < length L \<and> fst (L ! j) = p"
    using p by (metis (no_types, lifting) imageE in_set_conv_nth)
  then have "i < length L \<and> fst (L ! i) = p"
    unfolding i by (rule GreatestI_nat [where b = "length L"]) auto
  then show "i < length L" "fst (L ! i) = p" by auto
qed

lemma last_index_logged:
  assumes "list_all txn_ok ts"
  shows "logged ts p = map_option (\<lambda>i. snd (snd (log_frames ts ! i))) (last_index (log_frames ts) p)"
  using assms
proof (induction ts rule: rev_induct)
  case Nil
  then show ?case by (simp add: last_index_def)
next
  case (snoc t ts)
  obtain items n where t: "t = (items, n)" by (cases t)
  have d: "distinct (map fst items)" using snoc.prems t by (simp add: txn_ok_def)
  have gen: "map_option (\<lambda>i. snd (snd ((L @ mark items n) ! i))) (last_index (L @ mark items n) p) =
      (case map_of items p of Some data \<Rightarrow> Some data
       | None \<Rightarrow> map_option (\<lambda>i. snd (snd (L ! i))) (last_index L p))" for L
    using d
  proof (induction items n arbitrary: L rule: mark.induct)
    case (2 q data items n)
    let ?fr = "(q, if items = [] then n else 0, data)"
    have "map_option (\<lambda>i. snd (snd ((L @ [?fr]) ! i))) (last_index (L @ [?fr]) p) =
        (if q = p then Some data else map_option (\<lambda>i. snd (snd (L ! i))) (last_index L p))"
      by (auto simp: last_index_snoc nth_append dest: last_index_Some split: option.split
          intro!: option.map_cong0)
    moreover have "q = p \<Longrightarrow> map_of items p = None" using 2(2) by (auto simp: map_of_eq_None_iff)
    ultimately show ?case using 2(1) [of "L @ [?fr]"] 2(2) by (auto split: option.split)
  qed simp
  show ?case
    using snoc gen [of "log_frames ts"] by (auto simp: t map_add_def split: option.split)
qed

lemma frame_data_log:
  assumes "side_content Wal d = header_bytes w @ frames_bytes a b s L @ rest"
    and "list_all frame_ok L" and "i < length L"
  shows "frame_data w d i = snd (snd (L ! i))"
proof -
  have "pread (side_content Wal d) (WAL_FRAME_SIZE * length L) WAL_HEADER_SIZE = frames_bytes a b s L"
    using length_frames_bytes [OF assms(2), of a b s] by (simp add: assms(1) pread_def)
  from frames_bytes_pread [OF this assms(2,3)]
  have "pread (side_content Wal d) WAL_FRAME_SIZE (WAL_HEADER_SIZE + i * WAL_FRAME_SIZE) =
      frame_bytes a b (foldl frame_sum s (take i L)) (L ! i)"
    by (simp add: frame_at_def)
  then show ?thesis
    by (simp add: frame_data_def frame_bytes_def WAL_FRAME_HEADER_SIZE_def split: prod.splits)
qed

lemma wal_content:
  assumes "wal_inv w d ts"
  shows "side_content Wal d = log_bytes w ts"
proof -
  have "ftruncate B n = take n B" if "n \<le> length B" for B n using that by (simp add: ftruncate_def)
  have "blit xs 0 ys = ys" if "length xs \<le> length ys" for xs ys :: bytes using that by (simp add: blit_def)
  moreover have "header_bytes w \<noteq> []" using length_header_bytes [of w] by (auto simp: WAL_HEADER_SIZE_def simp del: length_header_bytes)
  then have "pwrite f (header_bytes w) 0 = header_bytes w" if "length f \<le> WAL_HEADER_SIZE" for f
    using that by (simp add: pwrite_def blit_def)
  moreover have "length (ftruncate B n) = n" for B n by (simp add: ftruncate_def)
  ultimately show ?thesis
    using assms
    by (auto simp: wal_inv_def log_synced_def log_fresh_def side_content_def d_side_def content_def log_bytes_def)
qed

lemma wal_pages_overlay:
  assumes "wal_inv w d ts"
  shows "wal_pages w d = overlay (logged ts) (db_content d)"
proof
  fix p
  have w: "writer_ok w ts" using assms by (simp add: wal_inv_def)
  then have ts: "list_all txn_ok ts" and ix: "map_of (w_index w) = last_index (log_frames ts)"
    by (simp_all add: writer_ok_def)
  note content = wal_content [OF assms, unfolded log_bytes_def]
  show "wal_pages w d p = overlay (logged ts) (db_content d) p"
    using frame_data_log [of d w "w_salt1 w" "w_salt2 w" "hdr_sums w" "log_frames ts" "[]", OF _ log_frames_ok [OF ts]] content
    by (auto simp: wal_pages_def overlay_def ix last_index_logged [OF ts] dest!: last_index_Some(1) split: option.split)
qed

end
