(* ===== verification/WalCommit.thy ===== *)
theory WalCommit
  imports WalTxn
begin

text \<open>
  Commits, checkpoints and recovery under failures: every operation is run with an arbitrary budget
  of system calls, and every disk a crash may leave at that moment is recovered to the pages before
  or after the transaction.
\<close>

section \<open>Recovery as an overlay\<close>

definition recovered :: "disk \<Rightarrow> nat \<Rightarrow> bytes" where
  \<comment> \<open>the pages after write-ahead recovery of this disk\<close>
  "recovered d = overlay (map_of (wal_dict (side_image (d_wal d)))) (db_content d)"

lemma u32_at_take: "4 * i + 4 \<le> n \<Longrightarrow> u32_at (take n xs) i = u32_at xs i"
  by (simp add: u32_at_def pyslice_def drop_take)

lemma wal_dict_image:
  "wal_dict (side_image sc) =
     (case sc_cur sc of
        None \<Rightarrow> []
      | Some f \<Rightarrow>
          (let log = content f; raw = pread log WAL_HEADER_SIZE 0 in
           if length raw < WAL_HEADER_SIZE \<or> wal_header_ok PAGE_SIZE raw \<noteq> Inr True then []
           else frame_dict (accepted log (u32_at raw 4) (u32_at raw 5)
                  (of_nat (u32_at raw 6), of_nat (u32_at raw 7)) WAL_HEADER_SIZE)))"
  by (auto simp: wal_dict_def side_image_def pread_def u32_at_take WAL_HEADER_SIZE_def Let_def split: option.split)

lemma header_ok_total: "\<exists>b. wal_header_ok ps (pread log WAL_HEADER_SIZE 0) = Inr b"
  if "\<not> length (pread log WAL_HEADER_SIZE 0) < WAL_HEADER_SIZE"
  using that by (auto simp: wal_header_ok_def wal_checksum_def WAL_HEADER_SIZE_def)

lemma write_committed_run: "1 \<le> p \<Longrightarrow> write_committed PAGE_SIZE (p, data) d = db_pwrite data ((p - 1) * PAGE_SIZE) d"
  by (simp add: write_committed_def page_offset_def)

lemma overlay_crash:
  assumes "crash_bytes (map page_write items) f g" and "pages_ok items"
    and "fst ` set items \<subseteq> dom m" and "1 \<le> p"
  shows "overlay m g p = overlay m f p"
  using page_writes_crash [OF assms(1,2,4)] assms(3)
  by (auto simp: overlay_def split: option.split)

lemma overlay_written:
  assumes "dict_pages c" and "1 \<le> p"
  shows "page_img (fold apply_wr (map page_write c) f) p = overlay (map_of c) f p"
  using assms page_writes_img [of c p f] by (auto simp: dict_pages_def overlay_def)

definition settled :: "disk \<Rightarrow> bool" where
  \<comment> \<open>nothing is waiting to be written\<close>
  "settled d \<longleftrightarrow> f_pending (d_db d) = [] \<and> sc_stale (d_wal d) = [] \<and> sc_stale (d_jrn d) = [] \<and>
     (\<forall>f. sc_cur (d_wal d) = Some f \<longrightarrow> f_pending f = []) \<and> (\<forall>f. sc_cur (d_jrn d) = Some f \<longrightarrow> f_pending f = [])"

lemma settled_file_id: "f_pending f = [] \<Longrightarrow> settled_file (content f) = f"
  by (simp add: settled_file_def content_def)

lemma crash_settled: "crash_disk d d' \<Longrightarrow> settled d'"
  by (auto simp: crash_disk_def crash_side_def settled_def settled_file_def split: option.splits)

lemma side_unlink_cases:
  obtains (fail) "side_unlink k d = (Inl OSError, d)" "d_budget d \<noteq> None"
  | (ok) b where "side_unlink k d = (Inr (), upd_side k (\<lambda>sc. case sc_cur sc of None \<Rightarrow> sc
        | Some f \<Rightarrow> \<lparr>sc_cur = None, sc_stale = Some f # sc_stale sc\<rparr>) (d\<lparr>d_budget := b\<rparr>))"
      "d_budget d = None \<Longrightarrow> b = None"
  unfolding side_unlink_def by (rule io_call_cases) (auto intro: fail ok)

lemma db_fsync_cases:
  obtains (fail) "db_fsync d = (Inl OSError, d)" "d_budget d \<noteq> None"
  | (ok) b where "db_fsync d = (Inr (), d\<lparr>d_db := sync_file (d_db d), d_budget := b\<rparr>)"
      "d_budget d = None \<Longrightarrow> b = None"
proof (cases rule: io_call_cases [of "\<lambda>d. d\<lparr>d_db := sync_file (d_db d)\<rparr>" d])
  case (ok b)
  then show thesis by (intro that(2) [of b]) (simp_all add: db_fsync_def)
qed (auto simp: db_fsync_def intro: fail)

text \<open>
  What recovery does to the disk: with dict \<open>c\<close>, it is in the middle of the copy, after the copy,
  or done.
\<close>

definition recovering :: "page_dict \<Rightarrow> disk \<Rightarrow> disk \<Rightarrow> bool" where
  "recovering c d d' \<longleftrightarrow> d_jrn d' = d_jrn d \<and>
     (d_wal d' = d_wal d \<and> (\<exists>k. d_db d' = add_wrs (map page_write (take k c)) (d_db d)) \<or>
      d_wal d' = d_wal d \<and> d_db d' = sync_file (add_wrs (map page_write c) (d_db d)))"

definition recovery_done :: "page_dict \<Rightarrow> disk \<Rightarrow> disk \<Rightarrow> bool" where
  "recovery_done c d d' \<longleftrightarrow> d_jrn d' = d_jrn d \<and>
     d_wal d' = (case sc_cur (d_wal d) of None \<Rightarrow> d_wal d | Some f \<Rightarrow> \<lparr>sc_cur = None, sc_stale = Some f # sc_stale (d_wal d)\<rparr>) \<and>
     d_db d' = (if c = [] then d_db d else sync_file (add_wrs (map page_write c) (d_db d)))"

lemma upd_side_Wal [simp]:
  "d_wal (upd_side Wal h d) = h (d_wal d)" "d_jrn (upd_side Wal h d) = d_jrn d"
  "d_jrn (upd_side Jrn h d) = h (d_jrn d)" "d_wal (upd_side Jrn h d) = d_wal d"
  "d_side Wal d = d_wal d" "d_side Jrn d = d_jrn d"
  by (simp_all add: upd_side_def d_side_def)

lemma unlink_done:
  assumes "d_jrn d1 = d_jrn d" "d_wal d1 = d_wal d"
    "d_db d1 = (if c = [] then d_db d else sync_file (add_wrs (map page_write c) (d_db d)))"
  obtains r d2 where "side_unlink Wal d1 = (r, d2)" "r = Inr () \<and> recovery_done c d d2 \<or> r = Inl OSError \<and> recovering c d d2"
    "d_budget d1 = None \<Longrightarrow> r = Inr () \<and> d_budget d2 = None"
proof (cases rule: side_unlink_cases [of Wal d1])
  case fail
  have "recovering c d d1"
    using assms by (auto simp: recovering_def intro!: exI [of _ 0])
  with fail show thesis by (intro that [of "Inl OSError" d1]) auto
next
  case (ok b)
  then show thesis
    using assms
    by (intro that [OF ok(1)]) (auto simp: recovery_done_def split: option.split)
qed

lemma recover_run:
  assumes c: "c = wal_dict (side_image (d_wal d))" and pages: "dict_pages c"
  obtains r d' where "recover_wal_on_open PAGE_SIZE True d = (r, d')"
    "r = Inr () \<and> recovery_done c d d' \<or> r = Inl OSError \<and> recovering c d d'"
    "d_budget d = None \<Longrightarrow> r = Inr () \<and> d_budget d' = None"
proof (cases "sc_cur (d_wal d)")
  case None
  then have "recover_wal_on_open PAGE_SIZE True d = (Inr (), d)" "c = []"
    using c by (simp_all add: recover_wal_on_open_def bindS_def wal_dict_image)
  then show thesis using None by (intro that [of "Inr ()" d]) (auto simp: recovery_done_def)
next
  case (Some f)
  let ?raw = "pread (content f) WAL_HEADER_SIZE 0"
  let ?bad = "length ?raw < WAL_HEADER_SIZE \<or> wal_header_ok PAGE_SIZE ?raw \<noteq> Inr True"
  show thesis
  proof (cases ?bad)
    case True
    then have "c = []" using c Some by (simp add: wal_dict_image Let_def)
    moreover have "recover_wal_on_open PAGE_SIZE True d = side_unlink Wal d"
      using True header_ok_total [of "content f" PAGE_SIZE] Some
      by (auto simp: recover_wal_on_open_def bindS_def Let_def)
    moreover obtain r d2 where "side_unlink Wal d = (r, d2)"
      "r = Inr () \<and> recovery_done [] d d2 \<or> r = Inl OSError \<and> recovering [] d d2"
      "d_budget d = None \<Longrightarrow> r = Inr () \<and> d_budget d2 = None"
      by (rule unlink_done [of d d "[]"]) auto
    ultimately show thesis by (intro that [of r d2]) auto
  next
    case False
    then have good: "wal_header_ok PAGE_SIZE ?raw = Inr True" "\<not> length ?raw < WAL_HEADER_SIZE" by auto
    have c': "recover_loop (content f) PAGE_SIZE (u32_at ?raw 4) (u32_at ?raw 5) WAL_HEADER_SIZE
        (of_nat (u32_at ?raw 6), of_nat (u32_at ?raw 7)) [] [] = Inr c"
      using c Some good by (simp add: recover_loop_accepted wal_dict_image Let_def frame_dict_def)
    have run: "recover_wal_on_open PAGE_SIZE True d =
        bindS (if c \<noteq> [] then bindS (forS (write_committed PAGE_SIZE) c) (\<lambda>_. db_fsync) else retS ()) (\<lambda>_. side_unlink Wal) d"
      using Some good c' by (simp add: recover_wal_on_open_def bindS_def Let_def)
    show thesis
    proof (cases "c = []")
      case True
      obtain r d2 where "side_unlink Wal d = (r, d2)"
        "r = Inr () \<and> recovery_done [] d d2 \<or> r = Inl OSError \<and> recovering [] d d2"
        "d_budget d = None \<Longrightarrow> r = Inr () \<and> d_budget d2 = None"
        by (rule unlink_done [of d d "[]"]) auto
      then show thesis using run True by (intro that [of r d2]) auto
    next
      case ne: False
      obtain k b r where w: "k \<le> length c"
        "forS (write_committed PAGE_SIZE) c d = (r, d\<lparr>d_db := add_wrs (map page_write (take k c)) (d_db d), d_budget := b\<rparr>)"
        "r = Inr () \<and> k = length c \<or> r = Inl OSError" "d_budget d = None \<Longrightarrow> b = None \<and> r = Inr ()"
        by (rule forS_page_writes [of c "write_committed PAGE_SIZE" d])
          (use pages in \<open>auto simp: dict_pages_def pages_ok_def write_committed_run\<close>)
      let ?d1 = "d\<lparr>d_db := add_wrs (map page_write (take k c)) (d_db d), d_budget := b\<rparr>"
      have mid: "recovering c d ?d1" by (auto simp: recovering_def)
      show thesis
      proof (cases "r = Inr ()")
        case False
        then show thesis
          using w mid ne by (intro that [of "Inl OSError" ?d1]) (auto simp: run bindS_def)
      next
        case True
        then have k: "k = length c" using w(3) by auto
        show thesis
        proof (cases rule: db_fsync_cases [of ?d1])
          case fail
          then show thesis
            using w mid ne True by (intro that [of "Inl OSError" ?d1]) (auto simp: run bindS_def)
        next
          case (ok b2)
          let ?d2 = "?d1\<lparr>d_db := sync_file (d_db ?d1), d_budget := b2\<rparr>"
          obtain r3 d3 where u: "side_unlink Wal ?d2 = (r3, d3)"
            "r3 = Inr () \<and> recovery_done c d d3 \<or> r3 = Inl OSError \<and> recovering c d d3"
            "d_budget ?d2 = None \<Longrightarrow> r3 = Inr () \<and> d_budget d3 = None"
            by (rule unlink_done [of ?d2 d c]) (use ne k in auto)
          show thesis
          proof (rule that [of r3 d3])
            show "recover_wal_on_open PAGE_SIZE True d = (r3, d3)"
              using w(2) True ok(1) u(1) ne by (simp add: run bindS_def)
          qed (use u w(4) ok(2) in auto)
        qed
      qed
    qed
  qed
qed

lemma crash_disk_parts:
  assumes "crash_disk d d'"
  obtains g where "crash_file (d_db d) g" "db_content d' = g" "d_db d' = settled_file g"
    "crash_side (d_wal d) (d_wal d')" "crash_side (d_jrn d) (d_jrn d')" "d_budget d' = None"
  using assms by (auto simp: crash_disk_def db_content_def)

lemma crash_side_settled:
  assumes "crash_side sc sc'" and "sc_stale sc = []" and "\<forall>f. sc_cur sc = Some f \<longrightarrow> f_pending f = []"
  shows "sc' = sc"
  using assms by (cases sc') (auto simp: crash_side_def crash_synced settled_file_id split: option.splits)

lemma crash_side_unlinked:
  assumes "crash_side \<lparr>sc_cur = None, sc_stale = [Some f]\<rparr> sc'" and "f_pending f = []"
  shows "side_image sc' = None \<or> side_image sc' = Some (content f)"
  using assms by (auto simp: crash_side_def side_image_def crash_synced split: option.splits)

lemma overlay_copied: "dict_pages c \<Longrightarrow> 1 \<le> p \<Longrightarrow>
    overlay (map_of c) (fold apply_wr (map page_write c) f) p = overlay (map_of c) f p"
  by (auto simp: overlay_def dict_pages_def page_writes_img split: option.split)

lemma recovered_side:
  assumes d: "settled d" and run: "recovery_done c d d' \<or> recovering c d d'" and crash: "crash_disk d' d''"
  shows "side_image (d_wal d'') = None \<or> side_image (d_wal d'') = side_image (d_wal d)"
proof -
  have g: "crash_side (d_wal d') (d_wal d'')" using crash_disk_parts [OF crash] by metis
  have wal: "sc_stale (d_wal d) = []" "\<forall>f. sc_cur (d_wal d) = Some f \<longrightarrow> f_pending f = []" using d by (auto simp: settled_def)
  show ?thesis
  proof (cases "d_wal d' = d_wal d")
    case True
    then show ?thesis using crash_side_settled [of "d_wal d" "d_wal d''"] g wal by simp
  next
    case False
    then obtain f where f: "sc_cur (d_wal d) = Some f" "d_wal d' = \<lparr>sc_cur = None, sc_stale = [Some f]\<rparr>"
      using run wal by (auto simp: recovery_done_def recovering_def split: option.splits)
    then show ?thesis using crash_side_unlinked [of f "d_wal d''"] g wal(2) by (simp add: side_image_def)
  qed
qed

lemma recovered_same:
  assumes d: "settled d" and c: "c = wal_dict (side_image (d_wal d))" "dict_pages c"
    and run: "recovery_done c d d' \<or> recovering c d d'" and crash: "crash_disk d' d''" and p: "1 \<le> p"
  shows "recovered d'' p = recovered d p"
proof -
  obtain g where g: "crash_file (d_db d') g" "db_content d'' = g" "crash_side (d_wal d') (d_wal d'')"
    using crash_disk_parts [OF crash] by metis
  let ?f = "db_content d" and ?ws = "map page_write c"
  have pend: "f_pending (d_db d) = []" and wal: "sc_stale (d_wal d) = []" "\<forall>f. sc_cur (d_wal d) = Some f \<longrightarrow> f_pending f = []"
    using d by (auto simp: settled_def)
  have f: "?f = f_synced (d_db d)" using pend by (simp add: db_content_def content_def)
  show ?thesis
    using run
  proof
    assume r: "recovering c d d'"
    then have "d_wal d' = d_wal d" by (auto simp: recovering_def)
    then have w: "d_wal d'' = d_wal d" using crash_side_settled [OF g(3)] wal by simp
    consider k where "d_db d' = add_wrs (map page_write (take k c)) (d_db d)"
      | "d_db d' = sync_file (add_wrs ?ws (d_db d))"
      using r by (auto simp: recovering_def)
    then have "overlay (map_of c) g p = overlay (map_of c) ?f p"
    proof cases
      case 1
      then have "crash_bytes (map page_write (take k c)) ?f g"
        using g(1) pend by (simp add: crash_file_def f)
      then show ?thesis
        by (rule overlay_crash [OF _ pages_ok_take _ p])
          (use c(2) in \<open>auto simp: dict_pages_def dom_map_of_conv_image_fst dest: in_set_takeD\<close>)
    next
      case 2
      then have "g = fold apply_wr ?ws ?f" using g(1) by (simp add: crash_synced db_content_def)
      then show ?thesis using overlay_copied [OF c(2) p] by simp
    qed
    then show ?thesis using w g(2) c(1) by (simp add: recovered_def)
  next
    assume r: "recovery_done c d d'"
    have gd: "page_img g p = recovered d p" "overlay (map_of c) g p = recovered d p"
    proof -
      have "g = (if c = [] then ?f else fold apply_wr ?ws ?f)"
        using r g(1) pend by (auto simp: recovery_done_def crash_synced db_content_def)
      then have "page_img g p = overlay (map_of c) ?f p \<and> overlay (map_of c) g p = overlay (map_of c) ?f p"
        using overlay_written [OF c(2) p] overlay_copied [OF c(2) p] by (auto simp: overlay_def)
      then show "page_img g p = recovered d p" "overlay (map_of c) g p = recovered d p"
        by (simp_all add: recovered_def c(1))
    qed
    have "side_image (d_wal d'') = None \<or> side_image (d_wal d'') = side_image (d_wal d)"
      by (rule recovered_side [OF d run crash])
    then show ?thesis
      using gd g(2) c(1) by (auto simp: recovered_def overlay_def wal_dict_def split: option.splits)
  qed
qed

lemma recovery_pages:
  assumes d: "settled d" and c: "c = wal_dict (side_image (d_wal d))" "dict_pages c"
    and r: "recovery_done c d d'" and p: "1 \<le> p"
  shows "page_img (db_content d') p = recovered d p"
  using r overlay_written [OF c(2) p, of "db_content d"]
  by (auto simp: recovered_def recovery_done_def db_content_def overlay_def simp flip: c(1))

section \<open>Appending frames\<close>

lemma pack_u32s_ok: "\<forall>v \<in> set vs. v < 2 ^ 32 \<Longrightarrow> pack_u32s vs = Inr (concat (map (be_bytes 4) vs))"
proof -
  assume "\<forall>v \<in> set vs. v < 2 ^ 32"
  then have "mapR (\<lambda>v. pack 4 (int v)) vs = Inr (map (be_bytes 4) vs)"
    by (intro mapR_Inr pack_ok) simp
  then show ?thesis by (simp add: pack_u32s_def)
qed

fun frame_writes :: "nat \<Rightarrow> nat \<Rightarrow> sums \<Rightarrow> nat \<Rightarrow> frame list \<Rightarrow> wr list" where
  "frame_writes a b s off [] = []"
| "frame_writes a b s off (fr # frs) =
     Pwrite off (frame_bytes a b s fr) # frame_writes a b (frame_sum s fr) (off + WAL_FRAME_SIZE) frs"

definition add_side :: "wr list \<Rightarrow> disk \<Rightarrow> disk" where
  "add_side ws = upd_side Wal (\<lambda>sc. sc\<lparr>sc_cur := map_option (add_wrs ws) (sc_cur sc)\<rparr>)"

lemma add_side_simps [simp]:
  "d_db (add_side ws d) = d_db d" "d_jrn (add_side ws d) = d_jrn d" "d_budget (add_side ws d) = d_budget d"
  "sc_cur (d_wal (add_side ws d)) = map_option (add_wrs ws) (sc_cur (d_wal d))"
  "sc_stale (d_wal (add_side ws d)) = sc_stale (d_wal d)"
  "d_links (add_side ws d) = d_links d"
  "add_side vs (add_side ws d) = add_side (ws @ vs) d"
  "(add_side ws d)\<lparr>d_budget := b\<rparr> = add_side ws (d\<lparr>d_budget := b\<rparr>)"
  by (simp_all add: add_side_def upd_side_def option.map_comp comp_def add_wrs_def [abs_def])

lemma add_side_Nil [simp]: "add_side [] d = d"
  by (cases "sc_cur (d_wal d)") (simp_all add: add_side_def upd_side_def)

lemma side_write_cases:
  obtains (fail) "side_write Wal w d = (Inl OSError, d)" "d_budget d \<noteq> None"
  | (ok) b where "side_write Wal w d = (Inr (), add_side [w] (d\<lparr>d_budget := b\<rparr>))" "d_budget d = None \<Longrightarrow> b = None"
proof (cases rule: io_call_cases [of "upd_side Wal (\<lambda>sc. sc\<lparr>sc_cur := map_option (add_wr w) (sc_cur sc)\<rparr>)" d])
  case (ok b)
  have "add_wr w = add_wrs [w]" by (rule ext) (simp add: add_wr_def add_wrs_def)
  then show thesis using ok by (intro that(2) [of b]) (simp_all add: side_write_def add_side_def)
qed (auto simp: side_write_def intro: fail)

lemma append_frame_cases:
  assumes "w_page_size w = PAGE_SIZE" "w_salt1 w < 2 ^ 32" "w_salt2 w < 2 ^ 32" and fr: "frame_ok (p, n, data)"
  obtains (fail) "append_frame p data n (w, d) = (Inl OSError, (w, d))" "d_budget d \<noteq> None"
  | (ok) b where "append_frame p data n (w, d) =
      (Inr (), (w\<lparr>w_next := w_next w + WAL_FRAME_SIZE, w_run := frame_sum (w_run w) (p, n, data)\<rparr>,
         add_side [Pwrite (w_next w) (frame_bytes (w_salt1 w) (w_salt2 w) (w_run w) (p, n, data))] (d\<lparr>d_budget := b\<rparr>)))"
      "d_budget d = None \<Longrightarrow> b = None"
proof -
  have pk: "pack_u32s [p, n, w_salt1 w, w_salt2 w] =
      Inr (be_bytes 4 p @ be_bytes 4 n @ be_bytes 4 (w_salt1 w) @ be_bytes 4 (w_salt2 w))"
    using assms by (subst pack_u32s_ok) (auto simp: frame_ok_def)
  have len: "length data = PAGE_SIZE" "PAGE_SIZE mod 8 = 0" using fr by (simp_all add: frame_ok_def PAGE_SIZE_def)
  let ?new = "frame_sum (w_run w) (p, n, data)"
  let ?fb = "frame_bytes (w_salt1 w) (w_salt2 w) (w_run w) (p, n, data)"
  have run: "append_frame p data n (w, d) =
      bindS (on_disk (side_write Wal (Pwrite (w_next w) ?fb))) (\<lambda>_.
        upd_wal (\<lambda>w. w\<lparr>w_next := w_next w + WAL_FRAME_SIZE, w_run := ?new\<rparr>)) (w, d)"
    using assms(1) pk len
    by (simp add: append_frame_def bindS_def wal_checksum_def frame_sum_def frame_bytes_def)
  show thesis
    by (cases rule: side_write_cases [of "Pwrite (w_next w) ?fb" d])
      (auto simp: run bindS_def on_disk_def upd_wal_def intro: fail ok)
qed

lemma append_frames_cases:
  assumes "w_page_size w = PAGE_SIZE" "w_salt1 w < 2 ^ 32" "w_salt2 w < 2 ^ 32" and "list_all frame_ok (mark items n)"
  obtains k b r where "k \<le> length items"
    "append_frames items n (w, d) =
      (r, (w\<lparr>w_next := w_next w + k * WAL_FRAME_SIZE, w_run := foldl frame_sum (w_run w) (take k (mark items n))\<rparr>,
         add_side (frame_writes (w_salt1 w) (w_salt2 w) (w_run w) (w_next w) (take k (mark items n))) (d\<lparr>d_budget := b\<rparr>)))"
    "r = Inr () \<and> k = length items \<or> r = Inl OSError" "d_budget d = None \<Longrightarrow> b = None \<and> r = Inr ()"
  using assms
proof (induction items arbitrary: w d thesis)
  case Nil
  show ?case by (rule Nil(1) [of 0 "Inr ()" "d_budget d"]) simp_all
next
  case (Cons item items)
  obtain p data where item: "item = (p, data)" by (cases item)
  let ?n = "if items = [] then n else 0"
  have fr: "frame_ok (p, ?n, data)" "list_all frame_ok (mark items n)" using Cons.prems(5) item by simp_all
  show ?case
  proof (cases rule: append_frame_cases [OF Cons.prems(2,3,4) fr(1), of d])
    case 1
    then show ?thesis
      by (intro Cons.prems(1) [of 0 "Inl OSError" "d_budget d"]) (simp_all add: item bindS_def)
  next
    case (2 b)
    let ?w = "w\<lparr>w_next := w_next w + WAL_FRAME_SIZE, w_run := frame_sum (w_run w) (p, ?n, data)\<rparr>"
    let ?d = "add_side [Pwrite (w_next w) (frame_bytes (w_salt1 w) (w_salt2 w) (w_run w) (p, ?n, data))] (d\<lparr>d_budget := b\<rparr>)"
    obtain k b' r where k: "k \<le> length items"
      "append_frames items n (?w, ?d) =
        (r, (?w\<lparr>w_next := w_next ?w + k * WAL_FRAME_SIZE, w_run := foldl frame_sum (w_run ?w) (take k (mark items n))\<rparr>,
           add_side (frame_writes (w_salt1 ?w) (w_salt2 ?w) (w_run ?w) (w_next ?w) (take k (mark items n))) (?d\<lparr>d_budget := b'\<rparr>)))"
      "r = Inr () \<and> k = length items \<or> r = Inl OSError" "d_budget ?d = None \<Longrightarrow> b' = None \<and> r = Inr ()"
      by (rule Cons.IH [of ?w ?d]) (use Cons.prems(2-4) fr in auto)
    show ?thesis
    proof (rule Cons.prems(1) [of "Suc k" r b'])
      show "append_frames (item # items) n (w, d) =
        (r, (w\<lparr>w_next := w_next w + Suc k * WAL_FRAME_SIZE, w_run := foldl frame_sum (w_run w) (take (Suc k) (mark (item # items) n))\<rparr>,
           add_side (frame_writes (w_salt1 w) (w_salt2 w) (w_run w) (w_next w) (take (Suc k) (mark (item # items) n))) (d\<lparr>d_budget := b'\<rparr>)))"
        using 2(1) k(2) by (simp add: item bindS_def add.assoc)
    qed (use k 2 in auto)
  qed
qed

end
