(* ===== verification/WalAtomic.thy ===== *)
theory WalAtomic
  imports WalCommit
begin

text \<open>
  The two theorems on the write-ahead log: a commit is atomic and durable at every failing system
  call and every crash the checksums notice, and a checkpoint never changes what is recovered.
\<close>

section \<open>Files with appended frames\<close>

lemma pwrite_end: "pwrite f data (length f) = f @ data"
  by (simp add: pwrite_def blit_def)

lemma append_content:
  "list_all frame_ok frs \<Longrightarrow> fold apply_wr (frame_writes a b s (length c) frs) c = c @ frames_bytes a b s frs"
proof (induction frs arbitrary: c s)
  case (Cons fr frs)
  have "fold apply_wr (frame_writes a b (frame_sum s fr) (length (c @ frame_bytes a b s fr)) frs) (c @ frame_bytes a b s fr)
      = (c @ frame_bytes a b s fr) @ frames_bytes a b (frame_sum s fr) frs"
    using Cons.prems by (intro Cons.IH) simp
  then show ?case using Cons.prems by (simp add: pwrite_end length_frame_bytes)
qed simp

lemma frame_writes_in:
  "Pwrite off' data \<in> set (frame_writes a b s off frs) \<Longrightarrow> list_all frame_ok frs \<Longrightarrow>
   off \<le> off' \<and> off' + length data \<le> off + WAL_FRAME_SIZE * length frs"
proof (induction frs arbitrary: s off)
  case (Cons fr frs)
  then show ?case using length_frame_bytes [of fr a b s] by fastforce
qed simp

lemma frame_writes_only [simp]: "only_pwrites (frame_writes a b s off frs)"
  by (induction frs arbitrary: s off) auto

lemma crash_length_le:
  "crash_bytes ws f g \<Longrightarrow> only_pwrites ws \<Longrightarrow> length f \<le> N \<Longrightarrow>
   (\<And>off data. Pwrite off data \<in> set ws \<Longrightarrow> off + length data \<le> N) \<Longrightarrow> length g \<le> N"
proof (induction rule: crash_bytes.induct)
  case (crash_step w f g ws h)
  then obtain off data where w: "w = Pwrite off data" by (cases w) auto
  have "length g \<le> length (pwrite f data off)" using crash_step.hyps(1) by (auto simp: w elim: torn_pwriteE)
  moreover have "off + length data \<le> N" using crash_step.prems(3) w by simp
  ultimately have "length g \<le> N" using crash_step.prems(2) by (auto simp: length_pwrite split: if_splits)
  then show ?case using crash_step w by auto
qed auto

lemma frames_crash:
  assumes "crash_bytes (frame_writes a b s (length c) frs) c g" and "list_all frame_ok frs"
  shows "take (length c) g = c" and "length g \<le> length c + WAL_FRAME_SIZE * length frs"
proof -
  have "take (length c) g = take (length c) c"
  proof (rule crash_prefix [OF assms(1)])
    fix i assume "i < length c"
    then show "\<not> covers (frame_writes a b s (length c) frs) i"
      by (auto simp: covers_def dest!: frame_writes_in [OF _ assms(2)])
  qed simp_all
  then show "take (length c) g = c" by simp
  show "length g \<le> length c + WAL_FRAME_SIZE * length frs"
    by (rule crash_length_le [OF assms(1)]) (use frame_writes_in [OF _ assms(2)] in auto)
qed

section \<open>What a torn sidecar gives\<close>

definition slot :: "txn list \<Rightarrow> nat \<Rightarrow> nat" where
  \<comment> \<open>the offset of frame \<open>k\<close> of the transaction after \<open>ts\<close>\<close>
  "slot ts k = WAL_HEADER_SIZE + (length (log_frames ts) + k) * WAL_FRAME_SIZE"

definition tears_noticed :: "wal \<Rightarrow> txn list \<Rightarrow> txn \<Rightarrow> bytes \<Rightarrow> bool" where
  \<comment> \<open>the checksums do their work on this file: a header that is not the one written fails its
     check, and so does a frame of the transaction that is not the one written\<close>
  "tears_noticed w ts t g \<longleftrightarrow>
     (case t of (items, n) \<Rightarrow>
       (length g < WAL_HEADER_SIZE \<or> take WAL_HEADER_SIZE g = header_bytes w
          \<or> wal_header_ok PAGE_SIZE (take WAL_HEADER_SIZE g) = Inr False) \<and>
       (\<forall>k < length items.
          pread g WAL_FRAME_SIZE (slot ts k)
            \<noteq> frame_at (w_salt1 w) (w_salt2 w) (hdr_sums w) (log_frames ts @ mark items n) (length (log_frames ts) + k) \<longrightarrow>
          read_frame g (w_salt1 w) (w_salt2 w)
            (foldl frame_sum (hdr_sums w) (log_frames ts @ take k (mark items n))) (slot ts k) = None))"

lemma dict_pages_logged:
  assumes "list_all txn_ok ts" and "distinct (map fst c)" and "map_of c = logged ts"
  shows "dict_pages c"
proof -
  have "1 \<le> p \<and> length data = PAGE_SIZE" if "(p, data) \<in> set c" for p data
    using that assms logged_pages [OF assms(1), of p data] by (metis map_of_is_SomeI)
  then show ?thesis using assms(2) by (auto simp: dict_pages_def pages_ok_def)
qed

lemma torn_log:
  assumes w: "writer_ok w ts" and t: "txn_ok (items, n)"
    and pre: "take (length (log_bytes w ts)) g = log_bytes w ts"
    and len: "length g \<le> length (log_bytes w ts) + WAL_FRAME_SIZE * length items"
    and tears: "tears_noticed w ts (items, n) g"
  obtains k where "k \<le> length items" "dict_pages (wal_dict (Some g))"
    "map_of (wal_dict (Some g)) = (if k < length items then logged ts else logged (ts @ [(items, n)]))"
    "k < length items \<Longrightarrow> pread g WAL_FRAME_SIZE (slot ts k)
       \<noteq> frame_at (w_salt1 w) (w_salt2 w) (hdr_sums w) (log_frames ts @ mark items n) (length (log_frames ts) + k)"
proof -
  let ?a = "w_salt1 w" and ?b = "w_salt2 w" and ?s = "hdr_sums w"
  let ?L = "log_frames ts" and ?t = "mark items n"
  have ps: "w_page_size w = PAGE_SIZE" and salts: "?a < 2 ^ 32" "?b < 2 ^ 32" and ts: "list_all txn_ok ts"
    using w by (simp_all add: writer_ok_def)
  have okL: "list_all frame_ok ?L" using ts by (rule log_frames_ok)
  have okt: "list_all frame_ok ?t" using t by (rule txn_frames_ok)
  have fl: "length (frames_bytes ?a ?b ?s ?L) = WAL_FRAME_SIZE * length ?L" using okL by (rule length_frames_bytes)
  obtain rest where g: "g = header_bytes w @ frames_bytes ?a ?b ?s ?L @ rest"
    using append_take_drop_id [of "length (log_bytes w ts)" g] pre by (metis append.assoc log_bytes_def)
  have "pread g (WAL_FRAME_SIZE * length ?L) WAL_HEADER_SIZE = frames_bytes ?a ?b ?s ?L"
    using fl by (simp add: g pread_def)
  then obtain k where k: "k \<le> length ?t" "accepted g ?a ?b ?s WAL_HEADER_SIZE = ?L @ take k ?t"
    "k < length ?t \<Longrightarrow> pread g WAL_FRAME_SIZE (WAL_HEADER_SIZE + (length ?L + k) * WAL_FRAME_SIZE) \<noteq> frame_at ?a ?b ?s (?L @ ?t) (length ?L + k)"
  proof (rule accepted_prefix [OF _ okL okt salts])
    show "length g \<le> WAL_HEADER_SIZE + WAL_FRAME_SIZE * (length ?L + length ?t)"
      using len fl by (simp add: log_bytes_def distrib_left)
  qed (use tears in \<open>auto simp: tears_noticed_def slot_def\<close>)
  have "wal_dict (Some g) = frame_dict (accepted g ?a ?b ?s WAL_HEADER_SIZE)"
    using header_fields [OF ps salts] by (simp add: wal_dict_def g)
  then have d: "wal_dict (Some g) = frame_dict (?L @ take k ?t)" by (simp add: k(2))
  have m: "map_of (wal_dict (Some g)) = (if k < length items then logged ts else logged (ts @ [(items, n)]))"
    using dict_of_log(1) [OF ts t, of k] k(1) by (simp add: d)
  have "distinct (map fst (wal_dict (Some g)))" using dict_of_log(2) [OF ts t, of k] k(1) by (simp add: d)
  then have "dict_pages (wal_dict (Some g))"
    using m ts t dict_pages_logged [of ts] dict_pages_logged [of "ts @ [(items, n)]"] by (simp split: if_splits)
  with k m show thesis by (intro that [of k]) (simp_all add: slot_def)
qed

section \<open>Commit\<close>

lemma side_fsync_cases:
  obtains (fail) "side_fsync k d = (Inl OSError, d)" "d_budget d \<noteq> None"
  | (ok) b where "side_fsync k d = (Inr (), upd_side k (\<lambda>sc.
        \<lparr>sc_cur = map_option sync_file (sc_cur sc), sc_stale = (if d_links d then [] else sc_stale sc)\<rparr>) (d\<lparr>d_budget := b\<rparr>))"
      "d_budget d = None \<Longrightarrow> b = None"
  unfolding side_fsync_def by (rule io_call_cases) (auto intro: fail ok)

definition entry_kept :: "disk \<Rightarrow> bool" where
  \<comment> \<open>a synced log is found again after a crash: its directory entry is durable, or becomes so with its content\<close>
  "entry_kept d \<longleftrightarrow> d_links d \<or> sc_stale (d_wal d) = []"

definition log_logged :: "wal \<Rightarrow> disk \<Rightarrow> txn list \<Rightarrow> dfile option list \<Rightarrow> bool" where
  \<comment> \<open>the content of the log is durable; \<open>st\<close> is what the path may name instead after a crash\<close>
  "log_logged w d ts st \<longleftrightarrow> writer_ok w ts \<and> at_rest w \<and> d_wal d = \<lparr>sc_cur = Some (settled_file (log_bytes w ts)), sc_stale = st\<rparr>"

lemma log_logged_synced:
  "log_logged w d ts [] \<Longrightarrow> f_pending (d_db d) = [] \<Longrightarrow> wal_inv w d ts \<and> log_synced w d ts"
  by (simp add: log_logged_def wal_inv_def log_synced_def)

lemma log_logged_pages:
  assumes "log_logged w d ts st" and "f_pending (d_db d) = []"
  shows "wal_pages w d = overlay (logged ts) (db_content d)"
proof -
  let ?e = "d\<lparr>d_wal := (d_wal d)\<lparr>sc_stale := []\<rparr>\<rparr>"
  have "wal_inv w ?e ts" using assms log_logged_synced [of w ?e ts] by (simp add: log_logged_def)
  moreover have "wal_pages w ?e = wal_pages w d" "db_content ?e = db_content d"
    by (auto simp: wal_pages_def frame_data_def side_content_def d_side_def db_content_def fun_eq_iff split: option.split)
  ultimately show ?thesis using wal_pages_overlay [of w ?e ts] by simp
qed

definition in_flight :: "wal \<Rightarrow> disk \<Rightarrow> txn \<Rightarrow> nat \<Rightarrow> disk \<Rightarrow> bool" where
  \<comment> \<open>the first \<open>k\<close> frames of the transaction are written, not synced\<close>
  "in_flight w d t k d' \<longleftrightarrow>
     (\<exists>b. d' = add_side (frame_writes (w_salt1 w) (w_salt2 w) (w_com w) (w_com_next w) (take k (mark (fst t) (snd t)))) (d\<lparr>d_budget := b\<rparr>))"

lemma wal_file:
  assumes "wal_inv w d ts"
  obtains f where "sc_cur (d_wal d) = Some f" "content f = log_bytes w ts" "length (content f) = w_com_next w"
proof -
  obtain f where f: "sc_cur (d_wal d) = Some f"
    using assms by (auto simp: wal_inv_def log_synced_def log_fresh_def)
  then have "content f = log_bytes w ts" using wal_content [OF assms] by (simp add: side_content_def)
  moreover have "length (log_bytes w ts) = w_com_next w"
    using assms length_frames_bytes [OF log_frames_ok, of ts]
    by (auto simp: log_bytes_def wal_inv_def writer_ok_def)
  ultimately show thesis using f that by simp
qed

lemma commit_cases:
  assumes i: "wal_inv w d ts" and t: "txn_ok (items, n)"
    and run: "commit_transaction items n (w, d) = (r, (w', d'))"
  obtains (stopped) k where "r = Inl OSError" "k \<le> length items" "in_flight w d (items, n) k d'" "d_budget d \<noteq> None"
    "wal_rollback (w', d') = (Inr (), (w, d'))"
  | (committed) "r = Inr ()" "log_logged w' d' (ts @ [(items, n)]) (if d_links d then [] else sc_stale (d_wal d))"
      "d_db d' = d_db d" "d_jrn d' = d_jrn d" "d_budget d = None \<Longrightarrow> d_budget d' = None" "w_seq w' = w_seq w"
proof -
  have w: "w_page_size w = PAGE_SIZE" "w_salt1 w < 2 ^ 32" "w_salt2 w < 2 ^ 32"
    and rest: "w_run w = w_com w" "w_next w = w_com_next w"
    using i by (simp_all add: wal_inv_def writer_ok_def at_rest_def)
  have ok: "list_all frame_ok (mark items n)" using t by (rule txn_frames_ok)
  have ne: "items \<noteq> []" using t by (simp add: txn_ok_def)
  obtain k b r1 where a: "k \<le> length items"
    "append_frames items n (w, d) =
      (r1, (w\<lparr>w_next := w_next w + k * WAL_FRAME_SIZE, w_run := foldl frame_sum (w_run w) (take k (mark items n))\<rparr>,
         add_side (frame_writes (w_salt1 w) (w_salt2 w) (w_run w) (w_next w) (take k (mark items n))) (d\<lparr>d_budget := b\<rparr>)))"
    "r1 = Inr () \<and> k = length items \<or> r1 = Inl OSError" "d_budget d = None \<Longrightarrow> b = None \<and> r1 = Inr ()"
    by (rule append_frames_cases [OF w ok, of d], rule that, assumption, assumption, assumption, simp)
  let ?w1 = "w\<lparr>w_next := w_next w + k * WAL_FRAME_SIZE, w_run := foldl frame_sum (w_run w) (take k (mark items n))\<rparr>"
  let ?d1 = "add_side (frame_writes (w_salt1 w) (w_salt2 w) (w_run w) (w_next w) (take k (mark items n))) (d\<lparr>d_budget := b\<rparr>)"
  have fl: "in_flight w d (items, n) k ?d1" by (auto simp: in_flight_def rest)
  have undo: "wal_rollback (?w1, x) = (Inr (), (w, x))" for x
    using rest by (simp add: wal_rollback_def upd_wal_def)
  show thesis
  proof (cases "r1 = Inr ()")
    case False
    then have "commit_transaction items n (w, d) = (Inl OSError, (?w1, ?d1))"
      using a(2,3) ne by (simp add: commit_transaction_def bindS_def)
    then show thesis using run fl a(1,4) undo False by (intro stopped [of k]) auto
  next
    case True
    then have k: "k = length items" using a(3) by auto
    show thesis
    proof (cases rule: side_fsync_cases [of Wal ?d1])
      case fail
      then have "commit_transaction items n (w, d) = (Inl OSError, (?w1, ?d1))"
        using a(2) True ne by (simp add: commit_transaction_def bindS_def on_disk_def)
      then show thesis using run fl a(1,4) undo fail(2) by (intro stopped [of k]) auto
    next
      case (ok b2)
      let ?d2 = "upd_side Wal (\<lambda>sc. \<lparr>sc_cur = map_option sync_file (sc_cur sc),
          sc_stale = (if d_links ?d1 then [] else sc_stale sc)\<rparr>) (?d1\<lparr>d_budget := b2\<rparr>)"
      let ?w2 = "?w1\<lparr>w_index := index_frames (w_count w) (map fst items) (w_index w), w_count := w_count w + length items,
        w_com := foldl frame_sum (w_run w) (mark items n), w_com_next := w_next w + k * WAL_FRAME_SIZE\<rparr>"
      have "commit_transaction items n (w, d) = (Inr (), (?w2, ?d2))"
        using a(2) True ne ok(1) k by (simp add: commit_transaction_def bindS_def on_disk_def upd_wal_def)
      then have r: "r = Inr ()" "w' = ?w2" "d' = ?d2" using run by auto
      have wok: "writer_ok w ts" using i by (simp add: wal_inv_def)
      have wok2: "writer_ok w' (ts @ [(items, n)])"
        using wok t rest k index_frames_run [of "w_index w" "log_frames ts" "mark items n"]
        by (simp add: r writer_ok_def index_frames_distinct distrib_left)
      obtain f where f: "sc_cur (d_wal d) = Some f" "content f = log_bytes w ts" "length (content f) = w_com_next w"
        by (rule wal_file [OF i])
      have "fold apply_wr (frame_writes (w_salt1 w) (w_salt2 w) (w_com w) (w_com_next w) (mark items n)) (content f)
          = log_bytes w (ts @ [(items, n)])"
        using append_content [of "mark items n" "w_salt1 w" "w_salt2 w" "w_com w" "content f"] f
          txn_frames_ok [OF t] wok
        by (simp add: log_bytes_def frames_bytes_append writer_ok_def)
      moreover have "log_bytes w' (ts @ [(items, n)]) = log_bytes w (ts @ [(items, n)])"
        by (simp add: log_bytes_def r)
      ultimately have "log_logged w' d' (ts @ [(items, n)]) (if d_links d then [] else sc_stale (d_wal d))"
        using f k rest wok2 by (simp add: log_logged_def at_rest_def r settled_file_def sync_file_def)
      then show thesis using r ok(2) a(4) by (intro committed) auto
    qed
  qed
qed

text \<open>The database file is not touched by a commit; the crash can only tear the sidecar.\<close>

lemma crash_side_cases:
  assumes "crash_side sc sc'"
  obtains (gone) "None \<in> set (sc_cur sc # sc_stale sc)" "side_image sc' = None"
  | (held) f g where "Some f \<in> set (sc_cur sc # sc_stale sc)" "crash_file f g" "side_image sc' = Some g"
proof -
  obtain e where e: "e \<in> set (sc_cur sc # sc_stale sc)"
    "case e of None \<Rightarrow> sc_cur sc' = None | Some f \<Rightarrow> \<exists>g. crash_file f g \<and> sc_cur sc' = Some (settled_file g)"
    using assms unfolding crash_side_def by blast
  show thesis
  proof (cases e)
    case None
    then show thesis using e gone by (simp add: side_image_def)
  next
    case (Some f)
    then show thesis using e held [of f] by (auto simp: side_image_def)
  qed
qed

lemma synced_flight:
  assumes w: "writer_ok w ts" and sy: "log_synced w d ts" and t: "txn_ok (items, n)" and fl: "in_flight w d (items, n) k d'"
    and k: "k \<le> length items" and g: "crash_side (d_wal d') sc'"
  obtains g where "side_image sc' = Some g" "take (length (log_bytes w ts)) g = log_bytes w ts"
    "length g \<le> length (log_bytes w ts) + WAL_FRAME_SIZE * k"
proof -
  have len: "length (log_bytes w ts) = w_com_next w"
    using w length_frames_bytes [OF log_frames_ok, of ts] by (auto simp: log_bytes_def writer_ok_def)
  let ?frs = "take k (mark items n)"
  have d': "d_wal d' = \<lparr>sc_cur = Some (add_wrs (frame_writes (w_salt1 w) (w_salt2 w) (w_com w) (w_com_next w) ?frs) (settled_file (log_bytes w ts))), sc_stale = []\<rparr>"
    using fl sy by (auto simp: in_flight_def log_synced_def intro: sidecar.equality)
  have "list_all frame_ok ?frs"
    using txn_frames_ok [OF t] by (auto simp: list_all_iff dest: in_set_takeD)
  note fc = frames_crash [OF _ this, of "w_salt1 w" "w_salt2 w" "w_com w" "log_bytes w ts", unfolded len]
  obtain g where "side_image sc' = Some g"
    "crash_bytes (frame_writes (w_salt1 w) (w_salt2 w) (w_com w) (w_com_next w) ?frs) (log_bytes w ts) g"
    by (cases rule: crash_side_cases [OF g]) (auto simp: d' crash_file_def)
  then show thesis using fc [of g] k by (intro that [of g]) (simp_all add: len)
qed

lemma fresh_flight:
  assumes w: "writer_ok w []" and fr: "log_fresh w d" and t: "txn_ok (items, n)" and fl: "in_flight w d (items, n) k d'"
    and k: "k \<le> length items" and g: "crash_side (d_wal d') sc'"
  obtains (old) "absorbed (side_image sc') (db_content d)"
  | (new) g where "side_image sc' = Some g" "length g \<le> WAL_HEADER_SIZE + WAL_FRAME_SIZE * k"
proof -
  obtain B m where B: "m \<le> WAL_HEADER_SIZE"
      "sc_cur (d_wal d) = Some \<lparr>f_synced = B, f_pending = [Ftruncate m, Pwrite 0 (header_bytes w)]\<rparr>"
    and quiet: "quiet_side \<lparr>sc_cur = Some (settled_file B), sc_stale = sc_stale (d_wal d)\<rparr> (db_content d)"
    using fr unfolding log_fresh_def by blast
  let ?frs = "take k (mark items n)"
  let ?ws = "frame_writes (w_salt1 w) (w_salt2 w) (w_com w) (w_com_next w) ?frs"
  have cur: "sc_cur (d_wal d') = Some \<lparr>f_synced = B, f_pending = Ftruncate m # Pwrite 0 (header_bytes w) # ?ws\<rparr>"
    and stale: "sc_stale (d_wal d') = sc_stale (d_wal d)"
    using fl B(2) by (auto simp: in_flight_def add_wrs_def)
  have ok: "list_all frame_ok ?frs"
    using txn_frames_ok [OF t] by (auto simp: list_all_iff dest: in_set_takeD)
  have nx: "w_com_next w = WAL_HEADER_SIZE" using w by (simp add: writer_ok_def)
  have oldB: thesis if "crash_side \<lparr>sc_cur = Some (settled_file B), sc_stale = sc_stale (d_wal d)\<rparr> sc'"
    using old quiet that by (simp add: quiet_side_def)
  have st: "sc_stale sc' = []" using g by (simp add: crash_side_def)
  show thesis
  proof (cases rule: crash_side_cases [OF g])
    case 1
    then have "None \<in> set (sc_stale (d_wal d))" "sc_cur sc' = None"
      using cur stale by (auto simp: side_image_def)
    then have "crash_side \<lparr>sc_cur = Some (settled_file B), sc_stale = sc_stale (d_wal d)\<rparr> sc'"
      using st by (auto simp: crash_side_def intro!: bexI [of _ None])
    then show thesis by (rule oldB)
  next
    case (2 f g')
    have held: "sc_cur sc' = Some (settled_file g')"
      using g 2(3) by (auto simp: crash_side_def side_image_def split: option.splits)
    show thesis
    proof (cases "Some f \<in> set (sc_stale (d_wal d))")
      case True
      then have "crash_side \<lparr>sc_cur = Some (settled_file B), sc_stale = sc_stale (d_wal d)\<rparr> sc'"
        using st 2(2) held by (auto simp: crash_side_def intro!: bexI [of _ "Some f"])
      then show thesis by (rule oldB)
    next
      case False
      then have "f = \<lparr>f_synced = B, f_pending = Ftruncate m # Pwrite 0 (header_bytes w) # ?ws\<rparr>"
        using 2(1) cur stale by auto
      then have cb: "crash_bytes (Ftruncate m # Pwrite 0 (header_bytes w) # ?ws) B g'"
        using 2(2) by (simp add: crash_file_def)
      then consider "g' = B" | "crash_bytes (Pwrite 0 (header_bytes w) # ?ws) (ftruncate B m) g'"
        by (auto elim: crash_bytes.cases torn_truncateE)
      then show thesis
      proof cases
        case 1
        then have "crash_side \<lparr>sc_cur = Some (settled_file B), sc_stale = sc_stale (d_wal d)\<rparr> sc'"
          using st held by (auto simp: crash_side_def crash_synced)
        then show thesis by (rule oldB)
      next
        case cut: 2
        have "length g' \<le> WAL_HEADER_SIZE + WAL_FRAME_SIZE * length ?frs"
        proof (rule crash_length_le [OF cut])
          show "length (ftruncate B m) \<le> WAL_HEADER_SIZE + WAL_FRAME_SIZE * length ?frs"
            using B(1) by (simp add: ftruncate_def)
          show "off + length data \<le> WAL_HEADER_SIZE + WAL_FRAME_SIZE * length ?frs"
            if "Pwrite off data \<in> set (Pwrite 0 (header_bytes w) # ?ws)" for off data
            using that frame_writes_in [OF _ ok, of off data "w_salt1 w" "w_salt2 w" "w_com w" "w_com_next w"] nx
            by auto
        qed simp
        then show thesis using k 2(3) by (intro new) auto
      qed
    qed
  qed
qed

lemma log_dict_of:
  assumes "w_page_size w = PAGE_SIZE" "w_salt1 w < 2 ^ 32" "w_salt2 w < 2 ^ 32" "list_all txn_ok ts"
  shows "dict_pages (wal_dict (Some (log_bytes w ts)))" and "map_of (wal_dict (Some (log_bytes w ts))) = logged ts"
proof -
  let ?a = "w_salt1 w" and ?b = "w_salt2 w" and ?s = "hdr_sums w" and ?g = "log_bytes w ts" and ?L = "log_frames ts"
  have ps: "w_page_size w = PAGE_SIZE" and salts: "?a < 2 ^ 32" "?b < 2 ^ 32" and ts: "list_all txn_ok ts"
    using assms by (simp_all add: writer_ok_def)
  have okL: "list_all frame_ok ?L" using ts by (rule log_frames_ok)
  have fl: "length (frames_bytes ?a ?b ?s ?L) = WAL_FRAME_SIZE * length ?L" using okL by (rule length_frames_bytes)
  have "pread ?g (WAL_FRAME_SIZE * length ?L) WAL_HEADER_SIZE = frames_bytes ?a ?b ?s ?L"
    using fl by (simp add: log_bytes_def pread_def)
  then obtain k where "accepted ?g ?a ?b ?s WAL_HEADER_SIZE = ?L @ take k []"
    by (rule accepted_prefix [OF _ okL _ salts, of _ _ _ "[]"]) (simp_all add: log_bytes_def fl)
  then have d: "wal_dict (Some ?g) = frame_dict ?L"
    using header_fields [OF ps salts] by (simp add: wal_dict_def log_bytes_def)
  obtain c where "foldl replay1 ([], []) ?L = ([], c)" "map_of c = logged ts" "distinct (map fst c)"
    using replay_log [OF ts] by blast
  then show "dict_pages (wal_dict (Some ?g))" "map_of (wal_dict (Some ?g)) = logged ts"
    using dict_pages_logged [OF ts] by (simp_all add: d frame_dict_def)
qed

lemma log_dict:
  assumes "writer_ok w ts"
  shows "dict_pages (wal_dict (Some (log_bytes w ts)))" and "map_of (wal_dict (Some (log_bytes w ts))) = logged ts"
  using log_dict_of [of w ts] assms by (simp_all add: writer_ok_def)

definition txn_pages :: "page_dict \<Rightarrow> (nat \<Rightarrow> bytes) \<Rightarrow> nat \<Rightarrow> bytes" where
  \<comment> \<open>the pages after a transaction\<close>
  "txn_pages items pg p = (case map_of items p of Some data \<Rightarrow> data | None \<Rightarrow> pg p)"

lemma overlay_txn: "overlay (m ++ map_of items) f = txn_pages items (overlay m f)"
  by (rule ext) (auto simp: overlay_def txn_pages_def map_add_def split: option.split)

lemma recover_total:
  assumes d: "settled d" "d_budget d = None" and c: "dict_pages (wal_dict (side_image (d_wal d)))"
  obtains d' where "recover_wal_on_open PAGE_SIZE True d = (Inr (), d')" "sc_cur (d_wal d') = None"
    "\<And>p. 1 \<le> p \<Longrightarrow> page_img (db_content d') p = recovered d p"
proof -
  obtain r d' where r: "recover_wal_on_open PAGE_SIZE True d = (r, d')"
    "r = Inr () \<and> recovery_done (wal_dict (side_image (d_wal d))) d d' \<or> r = Inl OSError \<and> recovering (wal_dict (side_image (d_wal d))) d d'"
    "d_budget d = None \<Longrightarrow> r = Inr () \<and> d_budget d' = None"
    by (rule recover_run [OF refl c], rule that, assumption, assumption, simp)
  then have "recovery_done (wal_dict (side_image (d_wal d))) d d'" using d(2) by auto
  moreover from this have "sc_cur (d_wal d') = None" by (auto simp: recovery_done_def split: option.splits)
  ultimately show thesis using r d recovery_pages [OF d(1) refl c] by (intro that [of d']) auto
qed

lemma commit_crash:
  assumes i: "wal_inv w d ts" and t: "txn_ok (items, n)"
    and run: "commit_transaction items n (w, d) = (r, (w', d'))" and crash: "crash_disk d' d2"
    and tears: "\<And>g. r \<noteq> Inr () \<Longrightarrow> side_image (d_wal d2) = Some g \<Longrightarrow> tears_noticed w ts (items, n) g \<or> ts = [] \<and> absorbed (Some g) (db_content d)"
  shows "dict_pages (wal_dict (side_image (d_wal d2)))"
    and "(r = Inr () \<longrightarrow> \<not> entry_kept d) \<and> recovered d2 = wal_pages w d \<or> recovered d2 = txn_pages items (wal_pages w d)"
proof -
  have wok: "writer_ok w ts" and db: "f_pending (d_db d) = []" using i by (simp_all add: wal_inv_def)
  obtain g' where g': "crash_file (d_db d') g'" "db_content d2 = g'" "crash_side (d_wal d') (d_wal d2)"
    using crash_disk_parts [OF crash] by metis
  note old = wal_pages_overlay [OF i]
  have "dict_pages (wal_dict (side_image (d_wal d2))) \<and>
    ((r = Inr () \<longrightarrow> \<not> entry_kept d) \<and> recovered d2 = wal_pages w d \<or> recovered d2 = txn_pages items (wal_pages w d))"
  proof (cases rule: commit_cases [OF i t run])
    case (1 k)
    have same: "db_content d2 = db_content d"
      using g' db 1(3) by (auto simp: in_flight_def crash_synced db_content_def)
    have absd: ?thesis if "absorbed (side_image (d_wal d2)) (db_content d)" "ts = []"
      using absorbed_overlay [OF that(1)] that 1(1) by (simp add: recovered_def same old absorbed_def overlay_def fun_eq_iff)
    have torn: ?thesis if g: "side_image (d_wal d2) = Some g" "take (length (log_bytes w ts)) g = log_bytes w ts"
      "length g \<le> length (log_bytes w ts) + WAL_FRAME_SIZE * length items" "tears_noticed w ts (items, n) g" for g
    proof -
      obtain j where "j \<le> length items" "dict_pages (wal_dict (Some g))"
        "map_of (wal_dict (Some g)) = (if j < length items then logged ts else logged (ts @ [(items, n)]))"
        by (rule torn_log [OF wok t g(2-4)]) blast
      then show ?thesis using 1(1) by (auto simp: recovered_def g(1) same old overlay_txn split: if_splits)
    qed
    from i have "log_synced w d ts \<or> ts = [] \<and> log_fresh w d" by (simp add: wal_inv_def)
    then show ?thesis
    proof
      assume sy: "log_synced w d ts"
      obtain g where g: "side_image (d_wal d2) = Some g" "take (length (log_bytes w ts)) g = log_bytes w ts"
        "length g \<le> length (log_bytes w ts) + WAL_FRAME_SIZE * k"
        by (rule synced_flight [OF wok sy t 1(3,2) g'(3)])
      then have len: "length g \<le> length (log_bytes w ts) + WAL_FRAME_SIZE * length items"
        using 1(2) mult_le_mono2 [OF 1(2), of WAL_FRAME_SIZE] by linarith
      show ?thesis
      proof (cases "tears_noticed w ts (items, n) g")
        case True
        then show ?thesis using torn [OF g(1,2) len] by blast
      next
        case False
        then have "absorbed (side_image (d_wal d2)) (db_content d)" "ts = []" using tears [OF _ g(1)] g(1) 1(1) by auto
        then show ?thesis by (rule absd)
      qed
    next
      assume "ts = [] \<and> log_fresh w d"
      then have fr: "log_fresh w d" "ts = []" by auto
      have L: "length (log_bytes w ts) = WAL_HEADER_SIZE" using fr(2) by (simp add: log_bytes_def)
      have wok0: "writer_ok w []" using wok fr(2) by simp
      show ?thesis
      proof (cases rule: fresh_flight [OF wok0 fr(1) t 1(3,2) g'(3)])
        case 1
        then show ?thesis using absd fr(2) by blast
      next
        case (2 g)
        then have len: "length g \<le> length (log_bytes w ts) + WAL_FRAME_SIZE * length items"
          using \<open>k \<le> length items\<close> mult_le_mono2 [of k "length items" WAL_FRAME_SIZE] L by linarith
        consider "absorbed (Some g) (db_content d)" | "tears_noticed w ts (items, n) g"
          using tears [OF _ 2(1)] 1(1) by blast
        then show ?thesis
        proof cases
          case 1
          then show ?thesis using absd fr(2) 2(1) by simp
        next
          case noticed: 2
          show ?thesis
          proof (cases "take WAL_HEADER_SIZE g = header_bytes w")
            case True
            then have "take (length (log_bytes w ts)) g = log_bytes w ts" unfolding L by (simp add: log_bytes_def fr(2))
            then show ?thesis using torn [OF 2(1) _ len noticed] by blast
          next
            case False
            then have "wal_dict (Some g) = []" using noticed by (auto simp: tears_noticed_def wal_dict_def)
            then have "absorbed (Some g) (db_content d)" by (simp add: absorbed_def dict_pages_def)
            then show ?thesis using absd fr(2) 2(1) by simp
          qed
        qed
      qed
    qed
  next
    case 2
    let ?st = "if d_links d then [] else sc_stale (d_wal d)"
    have wal': "d_wal d' = \<lparr>sc_cur = Some (settled_file (log_bytes w' (ts @ [(items, n)]))), sc_stale = ?st\<rparr>"
      and wok': "writer_ok w' (ts @ [(items, n)])" using 2(2) by (simp_all add: log_logged_def)
    have same: "db_content d2 = db_content d" using g' db 2(3) by (simp add: crash_synced db_content_def)
    have new: ?thesis if "side_image (d_wal d2) = Some (log_bytes w' (ts @ [(items, n)]))"
      using log_dict [OF wok'] that by (simp add: recovered_def same old overlay_txn)
    have lost: ?thesis if x: "e \<in> set ?st"
      "case e of None \<Rightarrow> sc_cur (d_wal d2) = None | Some f \<Rightarrow> \<exists>g. crash_file f g \<and> sc_cur (d_wal d2) = Some (settled_file g)" for e
    proof -
      have st: "\<not> d_links d" "e \<in> set (sc_stale (d_wal d))" using x(1) by (simp_all split: if_splits)
      then have "\<not> entry_kept d" by (auto simp: entry_kept_def)
      moreover have fr: "log_fresh w d" "ts = []" using i st by (auto simp: wal_inv_def log_synced_def)
      then obtain B where "quiet_side \<lparr>sc_cur = Some (settled_file B), sc_stale = sc_stale (d_wal d)\<rparr> (db_content d)"
        by (auto simp: log_fresh_def)
      moreover have "crash_side \<lparr>sc_cur = Some (settled_file B), sc_stale = sc_stale (d_wal d)\<rparr> (d_wal d2)" for B
        using g'(3) st x(2) by (auto simp: crash_side_def intro!: bexI [of _ e])
      ultimately have a: "absorbed (side_image (d_wal d2)) (db_content d)" "\<not> entry_kept d" by (auto simp: quiet_side_def)
      then show ?thesis
        using absorbed_overlay [OF a(1)] fr(2) by (simp add: recovered_def same old absorbed_def overlay_def fun_eq_iff)
    qed
    obtain e where e: "e \<in> set (sc_cur (d_wal d') # sc_stale (d_wal d'))"
      "case e of None \<Rightarrow> sc_cur (d_wal d2) = None | Some f \<Rightarrow> \<exists>g. crash_file f g \<and> sc_cur (d_wal d2) = Some (settled_file g)"
      using g'(3) unfolding crash_side_def by blast
    then consider "e = sc_cur (d_wal d')" | "e \<in> set ?st" by (auto simp: wal')
    then show ?thesis
    proof cases
      case 1
      then show ?thesis using e(2) by (intro new) (auto simp: wal' side_image_def crash_synced)
    qed (rule lost [OF _ e(2)])
  qed
  then show "dict_pages (wal_dict (side_image (d_wal d2)))"
    and "(r = Inr () \<longrightarrow> \<not> entry_kept d) \<and> recovered d2 = wal_pages w d \<or> recovered d2 = txn_pages items (wal_pages w d)" by blast+
qed

lemma commit_inv:
  assumes i: "wal_inv w d ts" and t: "txn_ok (items, n)"
    and run: "commit_transaction items n (w, d) = (Inr (), (w', d'))" and kept: "entry_kept d"
  shows "wal_inv w' d' (ts @ [(items, n)])" and "log_synced w' d' (ts @ [(items, n)])"
    and "wal_pages w' d' = txn_pages items (wal_pages w d)"
proof -
  have db: "f_pending (d_db d) = []" using i by (simp add: wal_inv_def)
  have "wal_inv w' d' (ts @ [(items, n)]) \<and> log_synced w' d' (ts @ [(items, n)]) \<and>
      wal_pages w' d' = txn_pages items (wal_pages w d)"
  proof (cases rule: commit_cases [OF i t run])
    case 2
    have "wal_inv w' d' (ts @ [(items, n)]) \<and> log_synced w' d' (ts @ [(items, n)])"
      using log_logged_synced [of w' d'] 2(2,3) kept db by (auto simp: entry_kept_def split: if_splits)
    then show ?thesis
      using wal_pages_overlay [of w' d' "ts @ [(items, n)]"] wal_pages_overlay [OF i] 2(3) by (simp add: overlay_txn db_content_def)
  qed simp
  then show "wal_inv w' d' (ts @ [(items, n)])" "log_synced w' d' (ts @ [(items, n)])"
    "wal_pages w' d' = txn_pages items (wal_pages w d)" by blast+
qed


text \<open>
  The first commits of a new log can be lost after they returned. The code syncs the log but never the
  directory it was created in. On a file system that does not make the entry durable with the file, a commit
  to a log whose path a crash may still find empty returns and shows its pages, and after some crash the log is
  gone: recovery ends without error on the pages from before the transaction.
\<close>

theorem new_log_lost:
  assumes "wal_inv w d []" and "None \<in> set (sc_stale (d_wal d))" and "\<not> d_links d" and "d_budget d = None"
    and "txn_ok (items, n)"
  shows "\<exists>w' d' d2 d3. commit_transaction items n (w, d) = (Inr (), (w', d')) \<and>
    wal_pages w' d' = txn_pages items (wal_pages w d) \<and> crash_disk d' d2 \<and>
    recover_wal_on_open PAGE_SIZE True d2 = (Inr (), d3) \<and> (\<forall>p \<ge> 1. page_img (db_content d3) p = wal_pages w d p)"
proof -
  obtain r w' d' where run: "commit_transaction items n (w, d) = (r, (w', d'))" by (metis surj_pair)
  show ?thesis
  proof (cases rule: commit_cases [OF assms(1,5) run])
    case 2
    let ?d2 = "(reboot d')\<lparr>d_wal := \<lparr>sc_cur = None, sc_stale = []\<rparr>\<rparr>"
    have db: "f_pending (d_db d) = []" using assms(1) by (simp add: wal_inv_def)
    have same: "db_content ?d2 = db_content d" using 2(3) by (simp add: reboot_def db_content_def)
    have "sc_stale (d_wal d') = sc_stale (d_wal d)" using 2(2) assms(3) by (simp add: log_logged_def)
    then have gone: "crash_side (d_wal d') \<lparr>sc_cur = None, sc_stale = []\<rparr>"
      using assms(2) by (auto simp: crash_side_def intro!: bexI [of _ None])
    have crash: "crash_disk d' ?d2" using crash_reboot [of d'] gone by (auto simp: crash_disk_def)
    have rec: "recover_wal_on_open PAGE_SIZE True ?d2 = (Inr (), ?d2)"
      by (simp add: recover_wal_on_open_def bindS_def d_side_def)
    have old: "wal_pages w d = page_img (db_content d)"
      using wal_pages_overlay [OF assms(1)] by (simp add: overlay_def fun_eq_iff)
    have "wal_pages w' d' = txn_pages items (wal_pages w d)"
      using log_logged_pages [OF 2(2)] wal_pages_overlay [OF assms(1)] db 2(3) overlay_txn [of Map.empty items]
      by (simp add: logged_def db_content_def)
    then show ?thesis using run 2(1) crash rec old same by (metis (no_types, lifting))
  qed (use assms(4) in auto)
qed

section \<open>A rollback after a failed sync\<close>

lemma append_frames_budget:
  assumes "w_page_size w = PAGE_SIZE" "w_salt1 w < 2 ^ 32" "w_salt2 w < 2 ^ 32" and "list_all frame_ok (mark items n)"
    and "d_budget d = Some (length items + m)"
  shows "append_frames items n (w, d) =
      (Inr (), (w\<lparr>w_next := w_next w + length items * WAL_FRAME_SIZE, w_run := foldl frame_sum (w_run w) (mark items n)\<rparr>,
         add_side (frame_writes (w_salt1 w) (w_salt2 w) (w_run w) (w_next w) (mark items n)) (d\<lparr>d_budget := Some m\<rparr>)))"
  using assms
proof (induction items arbitrary: w d)
  case Nil
  then show ?case by simp
next
  case (Cons item items)
  obtain p data where item: "item = (p, data)" by (cases item)
  let ?n = "if items = [] then n else 0"
  have fr: "frame_ok (p, ?n, data)" "list_all frame_ok (mark items n)" using Cons.prems(4) item by simp_all
  let ?w = "w\<lparr>w_next := w_next w + WAL_FRAME_SIZE, w_run := frame_sum (w_run w) (p, ?n, data)\<rparr>"
  let ?wr = "Pwrite (w_next w) (frame_bytes (w_salt1 w) (w_salt2 w) (w_run w) (p, ?n, data))"
  have "side_write Wal ?wr d = (Inr (), add_side [?wr] (d\<lparr>d_budget := Some (length items + m)\<rparr>))"
  proof -
    have "add_wr ?wr = add_wrs [?wr]" by (rule ext) (simp add: add_wr_def add_wrs_def)
    then show ?thesis using Cons.prems(5) by (simp add: side_write_def io_call_def add_side_def)
  qed
  moreover have "pack_u32s [p, ?n, w_salt1 w, w_salt2 w] =
      Inr (be_bytes 4 p @ be_bytes 4 ?n @ be_bytes 4 (w_salt1 w) @ be_bytes 4 (w_salt2 w))"
    using Cons.prems(2,3) fr(1) by (subst pack_u32s_ok) (auto simp: frame_ok_def)
  moreover have "length data = PAGE_SIZE" "PAGE_SIZE mod 8 = 0" using fr(1) by (simp_all add: frame_ok_def PAGE_SIZE_def)
  ultimately have step: "append_frame p data ?n (w, d) = (Inr (), (?w, add_side [?wr] (d\<lparr>d_budget := Some (length items + m)\<rparr>)))"
    using Cons.prems(1)
    by (simp add: append_frame_def bindS_def wal_checksum_def frame_sum_def frame_bytes_def on_disk_def upd_wal_def
        del: add_side_simps)
  have "append_frames items n (?w, add_side [?wr] (d\<lparr>d_budget := Some (length items + m)\<rparr>)) =
      (Inr (), (?w\<lparr>w_next := w_next ?w + length items * WAL_FRAME_SIZE, w_run := foldl frame_sum (w_run ?w) (mark items n)\<rparr>,
         add_side (frame_writes (w_salt1 ?w) (w_salt2 ?w) (w_run ?w) (w_next ?w) (mark items n))
           ((add_side [?wr] (d\<lparr>d_budget := Some (length items + m)\<rparr>))\<lparr>d_budget := Some m\<rparr>)))"
    using Cons.prems(1-3) fr(2) by (intro Cons.IH) simp_all
  then show ?case by (simp add: item bindS_def step add.assoc)
qed

text \<open>
  C17. A rolled-back transaction can come back. When only the sync of a commit fails, the frames,
  commit marker included, are in the sidecar; \<open>rollback\<close> rewinds the writer and leaves them there,
  and if the machine stops before the next commit overwrites them, recovery replays the transaction
  that the caller was told had failed and then rolled back.
\<close>

theorem rolled_back_commit_returns:
  assumes "wal_inv w d ts" and "log_synced w d ts" and "txn_ok (items, n)" and "d_budget d = Some (length items)"
  shows "\<exists>w1 d1 d2 d3. commit_transaction items n (w, d) = (Inl OSError, (w1, d1)) \<and>
    wal_rollback (w1, d1) = (Inr (), (w, d1)) \<and> crash_disk d1 d2 \<and>
    recover_wal_on_open PAGE_SIZE True d2 = (Inr (), d3) \<and>
    (\<forall>p \<ge> 1. page_img (db_content d3) p = txn_pages items (wal_pages w d) p)"
proof -
  have w: "writer_ok w ts" and rest: "w_run w = w_com w" "w_next w = w_com_next w" and db: "f_pending (d_db d) = []"
    using assms(1) by (simp_all add: wal_inv_def at_rest_def)
  have ws: "w_page_size w = PAGE_SIZE" "w_salt1 w < 2 ^ 32" "w_salt2 w < 2 ^ 32" "list_all txn_ok ts"
    using w by (simp_all add: writer_ok_def)
  note ok = txn_frames_ok [OF assms(3)]
  have ne: "items \<noteq> []" using assms(3) by (simp add: txn_ok_def)
  let ?ws = "frame_writes (w_salt1 w) (w_salt2 w) (w_run w) (w_next w) (mark items n)"
  define w1 where "w1 = w\<lparr>w_next := w_next w + length items * WAL_FRAME_SIZE, w_run := foldl frame_sum (w_run w) (mark items n)\<rparr>"
  define d1 where "d1 = add_side ?ws (d\<lparr>d_budget := Some 0\<rparr>)"
  have a: "append_frames items n (w, d) = (Inr (), (w1, d1))"
    unfolding w1_def d1_def using append_frames_budget [OF ws(1-3) ok, of d 0] assms(4) by simp
  have "d_budget d1 = Some 0" by (simp add: d1_def)
  then have "side_fsync Wal d1 = (Inl OSError, d1)" by (simp add: side_fsync_def io_call_def)
  then have run: "commit_transaction items n (w, d) = (Inl OSError, (w1, d1))"
    using a ne by (simp add: commit_transaction_def bindS_def on_disk_def)
  have roll: "wal_rollback (w1, d1) = (Inr (), (w, d1))"
    using rest by (simp add: wal_rollback_def upd_wal_def w1_def)
  have wal1: "d_wal d1 = \<lparr>sc_cur = Some (add_wrs ?ws (settled_file (log_bytes w ts))), sc_stale = []\<rparr>"
    using assms(2) by (auto simp: d1_def log_synced_def intro: sidecar.equality)
  have len: "length (log_bytes w ts) = w_next w"
    using w length_frames_bytes [OF log_frames_ok [OF ws(4)]] rest by (simp add: log_bytes_def writer_ok_def)
  have all: "fold apply_wr ?ws (log_bytes w ts) = log_bytes w (ts @ [(items, n)])"
    using append_content [OF ok, of "w_salt1 w" "w_salt2 w" "w_com w" "log_bytes w ts"] len rest w
    by (simp add: log_bytes_def frames_bytes_append writer_ok_def)
  define d2 where "d2 = reboot d1"
  have crash: "crash_disk d1 d2" unfolding d2_def by (rule crash_reboot)
  have t2: "list_all txn_ok (ts @ [(items, n)])" using ws(4) assms(3) by simp
  note dict = log_dict_of [OF ws(1-3) t2]
  have img: "side_image (d_wal d2) = Some (log_bytes w (ts @ [(items, n)]))"
    by (simp add: d2_def reboot_def side_image_def wal1 all)
  have rec: "recovered d2 = txn_pages items (wal_pages w d)"
    using dict(2) wal_pages_overlay [OF assms(1)]
    by (simp add: recovered_def img overlay_txn) (simp add: d2_def d1_def reboot_def db_content_def)
  have "settled d2" "d_budget d2 = None" using crash_settled [OF crash] by (simp_all add: d2_def reboot_def)
  from recover_total [OF this] dict(1) obtain d3 where "recover_wal_on_open PAGE_SIZE True d2 = (Inr (), d3)"
    "\<And>p. 1 \<le> p \<Longrightarrow> page_img (db_content d3) p = recovered d2 p"
    unfolding img by metis
  then show ?thesis using run roll crash rec by (intro exI conjI) auto
qed

end
