(* ===== verification/WalCheckpoint.thy ===== *)
theory WalCheckpoint
  imports WalAtomic
begin

text \<open>
  Opening the log and checkpointing it: a checkpoint moves the committed pages into the database
  file and starts a new cycle, and no crash on the way changes what recovery finds.
\<close>

section \<open>The header of a cycle\<close>

lemma write_wal_header_cases:
  assumes "w_page_size w = PAGE_SIZE" "w_salt1 w < 2 ^ 32" "w_salt2 w < 2 ^ 32" "w_seq w < 2 ^ 32"
  obtains (fail) "write_wal_header (w, d) = (Inl OSError, (w, d))" "d_budget d \<noteq> None"
  | (ok) b where "write_wal_header (w, d) =
      (Inr (), (w\<lparr>w_run := hdr_sums w, w_com := hdr_sums w, w_com_next := WAL_HEADER_SIZE\<rparr>,
         add_side [Pwrite 0 (header_bytes w)] (d\<lparr>d_budget := b\<rparr>)))"
      "d_budget d = None \<Longrightarrow> b = None"
proof -
  have "pack_u32s [WAL_MAGIC_BE, WAL_FORMAT_VERSION, w_page_size w, w_seq w, w_salt1 w, w_salt2 w] = Inr (wal_hdr w)"
    unfolding wal_hdr_def using assms
    by (intro pack_u32s_ok) (simp add: WAL_MAGIC_BE_def WAL_FORMAT_VERSION_def PAGE_SIZE_def)
  moreover have "wal_checksum (wal_hdr w) (0, 0) = Inr (hdr_sums w)"
    by (simp add: wal_checksum_def hdr_sums_def)
  ultimately have run: "write_wal_header (w, d) =
      bindS (on_disk (side_write Wal (Pwrite 0 (header_bytes w)))) (\<lambda>_.
        upd_wal (\<lambda>w'. w'\<lparr>w_run := hdr_sums w, w_com := hdr_sums w, w_com_next := WAL_HEADER_SIZE\<rparr>)) (w, d)"
    by (simp add: write_wal_header_def bindS_def header_bytes_def)
  show thesis
    by (cases rule: side_write_cases [of "Pwrite 0 (header_bytes w)" d])
      (auto simp: run bindS_def on_disk_def upd_wal_def intro: fail ok)
qed

lemma short_log: "length g \<le> WAL_HEADER_SIZE \<Longrightarrow> wal_dict (Some g) = []"
proof -
  assume "length g \<le> WAL_HEADER_SIZE"
  then have "accepted g a b s WAL_HEADER_SIZE = []" for a b s
    by (subst accepted.simps) (auto dest: read_frame_inside split: option.split)
  then show ?thesis by (simp add: wal_dict_def frame_dict_def)
qed

lemma absorbed_empty [simp]: "absorbed None f" "wal_dict side = [] \<Longrightarrow> absorbed side f"
  by (simp_all add: absorbed_def wal_dict_def dict_pages_def)

lemma wal_init_simps [simp]:
  "w_page_size (wal_init ps a b) = ps" "w_salt1 (wal_init ps a b) = a" "w_salt2 (wal_init ps a b) = b"
  "w_seq (wal_init ps a b) = 0" "w_next (wal_init ps a b) = WAL_HEADER_SIZE" "w_index (wal_init ps a b) = []"
  "w_count (wal_init ps a b) = 0"
  by (simp_all add: wal_init_def)

lemma fresh_writer:
  assumes "w_page_size w = PAGE_SIZE" "w_salt1 w < 2 ^ 32" "w_salt2 w < 2 ^ 32" "w_seq w < 2 ^ 32"
    and "w_run w = hdr_sums w" "w_com w = hdr_sums w" "w_com_next w = WAL_HEADER_SIZE" "w_next w = WAL_HEADER_SIZE"
    and "w_index w = []" "w_count w = 0"
  shows "writer_ok w []" and "at_rest w"
  using assms by (auto simp: writer_ok_def at_rest_def last_index_def)

text \<open>
  Opening a log on a disk whose old sidecar, if a crash can still bring one back, has been
  copied into the database file gives a sound writer with an empty log that shows the pages of the
  database file.
\<close>

lemma wal_open_run:
  assumes "sc_cur (d_wal d) = None" and "quiet_side (d_wal d) (db_content d)" and "f_pending (d_db d) = []"
    and "salt1 < 2 ^ 32" "salt2 < 2 ^ 32" and "d_budget d = None"
  shows "\<exists>w d'. wal_open PAGE_SIZE salt1 salt2 d = (Inr w, d') \<and> wal_inv w d' [] \<and>
    wal_pages w d' = page_img (db_content d) \<and> w_seq w = 0 \<and>
    d_db d' = d_db d \<and> d_jrn d' = d_jrn d \<and> d_budget d' = None \<and> d_links d' = d_links d \<and>
    sc_stale (d_wal d') = None # sc_stale (d_wal d)"
proof -
  let ?init = "wal_init PAGE_SIZE salt1 salt2"
  let ?sc = "\<lparr>sc_cur = Some (settled_file []), sc_stale = None # sc_stale (d_wal d)\<rparr>"
  define d1 where "d1 = upd_side Wal (\<lambda>sc. case sc_cur sc of
       None \<Rightarrow> \<lparr>sc_cur = Some (settled_file []), sc_stale = None # sc_stale sc\<rparr> | Some f \<Rightarrow> sc) d"
  have d1: "d_wal d1 = ?sc" "d_db d1 = d_db d" "d_jrn d1 = d_jrn d" "d_budget d1 = None" "d_links d1 = d_links d"
    using assms(1,6) by (simp_all add: d1_def)
  obtain b where tr: "side_write Wal (Ftruncate 0) d1 = (Inr (), add_side [Ftruncate 0] (d1\<lparr>d_budget := b\<rparr>))" "b = None"
    by (cases rule: side_write_cases [of "Ftruncate 0" d1]) (use d1(4) in auto)
  define d2 where "d2 = add_side [Ftruncate 0] (d1\<lparr>d_budget := b\<rparr>)"
  have w0: "w_page_size ?init = PAGE_SIZE" "w_salt1 ?init < 2 ^ 32" "w_salt2 ?init < 2 ^ 32" "w_seq ?init < 2 ^ 32"
    using assms(4,5) by (simp_all add: wal_init_def)
  let ?w = "?init\<lparr>w_run := hdr_sums ?init, w_com := hdr_sums ?init, w_com_next := WAL_HEADER_SIZE\<rparr>"
  let ?d = "\<lambda>b. add_side [Pwrite 0 (header_bytes ?init)] (d2\<lparr>d_budget := b\<rparr>)"
  obtain b' where hd: "write_wal_header (?init, d2) = (Inr (), (?w, ?d b'))" "b' = None"
    by (cases rule: write_wal_header_cases [OF w0, of d2]) (use tr(2) in \<open>auto simp: d2_def\<close>)
  have "side_create Wal d = (Inr (), d1)" using assms(6) by (simp add: side_create_def io_call_free d1_def)
  then have run: "wal_open PAGE_SIZE salt1 salt2 d = (Inr ?w, ?d b')"
    using tr(1) hd(1) by (simp add: wal_open_def bindS_def on_disk_def d2_def)
  have cur: "sc_cur (d_wal (?d b')) = Some \<lparr>f_synced = [], f_pending = [Ftruncate 0, Pwrite 0 (header_bytes ?w)]\<rparr>"
    "sc_stale (d_wal (?d b')) = None # sc_stale (d_wal d)"
    by (simp_all add: d2_def d1 settled_file_def add_wrs_def)
  have "quiet_side ?sc (db_content d)"
    unfolding quiet_side_def
  proof (intro allI impI)
    fix sc' assume c: "crash_side ?sc sc'"
    show "absorbed (side_image sc') (db_content d)"
    proof (cases "crash_side (d_wal d) sc'")
      case True
      then show ?thesis using assms(2) by (simp add: quiet_side_def)
    next
      case False
      then have "side_image sc' = None \<or> side_image sc' = Some []"
        using c assms(1) by (auto simp: crash_side_def side_image_def crash_synced)
      then show ?thesis using short_log [of "[]"] by auto
    qed
  qed
  then have "log_fresh ?w (?d b')"
    unfolding log_fresh_def cur by (intro exI [of _ "[]"] exI [of _ 0]) (simp add: db_content_def d2_def d1)
  moreover have "writer_ok ?w []" "at_rest ?w"
    using fresh_writer [of ?w] w0 by simp_all
  ultimately have i: "wal_inv ?w (?d b') []" using assms(3) by (simp add: wal_inv_def d2_def d1)
  have same: "db_content (?d b') = db_content d" "d_db (?d b') = d_db d" "d_jrn (?d b') = d_jrn d" "d_budget (?d b') = None"
    "d_links (?d b') = d_links d"
    using hd(2) by (simp_all add: db_content_def d2_def d1)
  have seq: "w_seq ?w = 0" by simp
  have "wal_pages ?w (?d b') = page_img (db_content d)"
    using wal_pages_overlay [OF i] by (simp add: overlay_def fun_eq_iff same(1) del: add_side_simps)
  then show ?thesis using i run same(2-5) seq cur(2) by blast
qed

section \<open>Checkpoint\<close>

lemma bind_disk:
  "m d = (Inr x, d') \<Longrightarrow> bindS (on_disk m) K (w, d) = K x (w, d')"
  "m d = (Inl e, d') \<Longrightarrow> bindS (on_disk m) K (w, d) = (Inl e, (w, d'))"
  "bindS (upd_wal h) K' (w, d) = K' () (h w, d)"
  by (simp_all add: bindS_def on_disk_def upd_wal_def)

lemma checkpoint_unfold:
  "w_index w \<noteq> [] \<Longrightarrow> wal_checkpoint s2 (w, d) =
       bindS (on_disk (side_fsync Wal)) (\<lambda>_.
       bindS (forS copy_frame (w_index w)) (\<lambda>_.
       bindS (on_disk db_fsync) (\<lambda>_.
       bindS (upd_wal (\<lambda>w. w\<lparr>w_seq := w_seq w + 1, w_salt2 := s2\<rparr>)) (\<lambda>_.
       bindS (on_disk (side_write Wal (Ftruncate WAL_HEADER_SIZE))) (\<lambda>_.
       bindS write_wal_header (\<lambda>_.
       upd_wal (\<lambda>w. w\<lparr>w_index := [], w_count := 0, w_next := WAL_HEADER_SIZE\<rparr>))))))) (w, d)"
  by (simp add: wal_checkpoint_def bindS_Inr [where m = "getS (\<lambda>(w, d). w_index w)"])

definition copies :: "wal \<Rightarrow> disk \<Rightarrow> (nat \<times> nat) list \<Rightarrow> page_dict" where
  "copies w d ix = map (\<lambda>(p, i). (p, frame_data w d i)) ix"

lemma frame_data_db [simp]: "frame_data w (d\<lparr>d_db := x, d_budget := b\<rparr>) i = frame_data w d i"
  by (simp add: frame_data_def side_content_def d_side_def)

lemma copy_frames_cases:
  assumes "w_page_size w = PAGE_SIZE" and "\<forall>(p, i) \<in> set ix. 1 \<le> p"
  obtains k b r where "k \<le> length ix"
    "forS copy_frame ix (w, d) = (r, (w, d\<lparr>d_db := add_wrs (map page_write (take k (copies w d ix))) (d_db d), d_budget := b\<rparr>))"
    "r = Inr () \<and> k = length ix \<or> r = Inl OSError" "d_budget d = None \<longrightarrow> b = None \<and> r = Inr ()"
  using assms
proof (induction ix arbitrary: d thesis)
  case Nil
  show ?case by (rule Nil(1) [of 0 "Inr ()" "d_budget d"]) (simp_all add: copies_def)
next
  case (Cons x ix)
  obtain p i where x: "x = (p, i)" by (cases x)
  let ?data = "frame_data w d i"
  have p: "1 \<le> p" using Cons.prems(3) x by simp
  have step: "copy_frame x (w, d) = on_disk (db_pwrite ?data ((p - 1) * PAGE_SIZE)) (w, d)"
    using Cons.prems(2) p by (simp add: x copy_frame_def page_offset_def bindS_def)
  show ?case
  proof (cases rule: db_pwrite_cases [of ?data "(p - 1) * PAGE_SIZE" d])
    case fail
    then show ?thesis
      by (intro Cons.prems(1) [of 0 "Inl OSError" "d_budget d"]) (simp_all add: step bindS_def on_disk_def)
  next
    case (ok b)
    let ?d = "d\<lparr>d_db := add_wr (Pwrite ((p - 1) * PAGE_SIZE) ?data) (d_db d), d_budget := b\<rparr>"
    obtain k b' r where k: "k \<le> length ix"
      "forS copy_frame ix (w, ?d) = (r, (w, ?d\<lparr>d_db := add_wrs (map page_write (take k (copies w ?d ix))) (d_db ?d), d_budget := b'\<rparr>))"
      "r = Inr () \<and> k = length ix \<or> r = Inl OSError" "d_budget ?d = None \<longrightarrow> b' = None \<and> r = Inr ()"
      by (rule Cons.IH [of ?d]) (use Cons.prems(2,3) in auto)
    show ?thesis
    proof (rule Cons.prems(1) [of "Suc k" r b'])
      show "forS copy_frame (x # ix) (w, d) =
          (r, (w, d\<lparr>d_db := add_wrs (map page_write (take (Suc k) (copies w d (x # ix)))) (d_db d), d_budget := b'\<rparr>))"
        using ok(1) k(2) by (simp add: step [unfolded x] bindS_def on_disk_def copies_def page_write_def x)
    qed (use k ok in auto)
  qed
qed

lemma copies_logged:
  assumes i: "wal_inv w d ts"
  shows "map_of (copies w d (w_index w)) = logged ts" and "dict_pages (copies w d (w_index w))"
proof -
  have w: "writer_ok w ts" using i by (simp add: wal_inv_def)
  then have ts: "list_all txn_ok ts" and ix: "map_of (w_index w) = last_index (log_frames ts)" "distinct (map fst (w_index w))"
    by (simp_all add: writer_ok_def)
  have "frame_data w d j = snd (snd (log_frames ts ! j))" if "last_index (log_frames ts) p = Some j" for p j
    using frame_data_log [of d w "w_salt1 w" "w_salt2 w" "hdr_sums w" "log_frames ts" "[]" j]
      wal_content [OF i] log_frames_ok [OF ts] last_index_Some(1) [OF that]
    by (simp add: log_bytes_def)
  then show m: "map_of (copies w d (w_index w)) = logged ts"
    by (auto simp: copies_def map_of_map fun_eq_iff ix last_index_logged [OF ts] intro!: option.map_cong0)
  have "map fst (copies w d (w_index w)) = map fst (w_index w)"
    by (auto simp: copies_def split: prod.splits)
  then show "dict_pages (copies w d (w_index w))"
    using m ix dict_pages_logged [OF ts] by simp
qed

text \<open>Between transactions a crash loses nothing.\<close>

lemma idle_crash:
  assumes i: "wal_inv w d ts" and crash: "crash_disk d d2"
  shows "dict_pages (wal_dict (side_image (d_wal d2)))" and "recovered d2 = wal_pages w d"
proof -
  obtain g where g: "crash_file (d_db d) g" "db_content d2 = g" "crash_side (d_wal d) (d_wal d2)"
    using crash_disk_parts [OF crash] by metis
  have w: "writer_ok w ts" and db: "f_pending (d_db d) = []" using i by (simp_all add: wal_inv_def)
  have same: "db_content d2 = db_content d" using g db by (simp add: crash_synced db_content_def)
  note old = wal_pages_overlay [OF i]
  let ?goal = "dict_pages (wal_dict (side_image (d_wal d2))) \<and> recovered d2 = wal_pages w d"
  have abs: ?goal if "absorbed (side_image (d_wal d2)) (db_content d)" "ts = []"
    using absorbed_overlay [OF that(1)] that by (simp add: recovered_def same old absorbed_def overlay_def fun_eq_iff)
  have ?goal
  proof (cases "log_synced w d ts")
    case True
    then have "d_wal d2 = d_wal d" using crash_side_settled [OF g(3)] by (simp add: log_synced_def)
    then show ?thesis
      using True log_dict [OF w] by (simp add: log_synced_def side_image_def recovered_def same old)
  next
    case False
    then have fr: "log_fresh w d" "ts = []" using i by (auto simp: wal_inv_def)
    then obtain B n where B: "n \<le> WAL_HEADER_SIZE"
      "sc_cur (d_wal d) = Some \<lparr>f_synced = B, f_pending = [Ftruncate n, Pwrite 0 (header_bytes w)]\<rparr>"
      "quiet_side \<lparr>sc_cur = Some (settled_file B), sc_stale = sc_stale (d_wal d)\<rparr> (db_content d)"
      unfolding log_fresh_def by blast
    have "absorbed (side_image (d_wal d2)) (db_content d)"
    proof (cases "crash_side \<lparr>sc_cur = Some (settled_file B), sc_stale = sc_stale (d_wal d)\<rparr> (d_wal d2)")
      case True
      then show ?thesis using B(3) by (simp add: quiet_side_def)
    next
      case False
      have "sc_stale (d_wal d2) = []" using g(3) by (simp add: crash_side_def)
      then obtain f h where h: "Some f = sc_cur (d_wal d)" "crash_file f h" "sc_cur (d_wal d2) = Some (settled_file h)"
        using g(3) False B(2) unfolding crash_side_def by (auto split: option.splits)
      then have "crash_bytes [Ftruncate n, Pwrite 0 (header_bytes w)] B h" "h \<noteq> B"
        using B(2) False \<open>sc_stale (d_wal d2) = []\<close> by (auto simp: crash_file_def crash_side_def)
      then have cut: "crash_bytes [Pwrite 0 (header_bytes w)] (ftruncate B n) h"
        by (auto elim: crash_bytes.cases torn_truncateE)
      have "length h \<le> WAL_HEADER_SIZE"
        by (rule crash_length_le [OF cut]) (use B(1) in \<open>auto simp: ftruncate_def\<close>)
      then show ?thesis using h(3) short_log by (simp add: side_image_def)
    qed
    then show ?thesis using abs fr(2) by blast
  qed
  then show "dict_pages (wal_dict (side_image (d_wal d2)))" "recovered d2 = wal_pages w d" by blast+
qed

lemma checkpoint_crash:
  assumes i: "wal_inv w d ts" and seq: "w_seq w + 1 < 2 ^ 32" and salt: "s2 < 2 ^ 32"
    and run: "wal_checkpoint s2 (w, d) = (r, (w', d'))" and crash: "crash_disk d' d2"
  shows "dict_pages (wal_dict (side_image (d_wal d2)))" and "\<forall>p \<ge> 1. recovered d2 p = wal_pages w d p"
    and "r = Inr () \<Longrightarrow> wal_inv w' d' [] \<and> (\<forall>p \<ge> 1. page_img (db_content d') p = wal_pages w d p)"
    and "d_budget d = None \<Longrightarrow> r = Inr () \<and> d_budget d' = None"
proof -
  let ?ix = "w_index w" and ?c = "copies w d (w_index w)"
  have w: "writer_ok w ts" and db: "f_pending (d_db d) = []" and ps: "w_page_size w = PAGE_SIZE"
    using i by (simp_all add: wal_inv_def writer_ok_def)
  note old = wal_pages_overlay [OF i] and c = copies_logged [OF i]
  have dbs: "f_synced (d_db d) = db_content d" using db by (simp add: db_content_def content_def)
  have nil: "?ix = [] \<longleftrightarrow> ts = []"
    using w last_index_empty [of "log_frames ts"] log_frames_Nil [of ts]
    by (metis map_of_eq_empty_iff writer_ok_def)
  let ?safe = "dict_pages (wal_dict (side_image (d_wal d2))) \<and> (\<forall>p \<ge> 1. recovered d2 p = wal_pages w d p)"
  let ?fin = "wal_inv w' d' [] \<and> (\<forall>p \<ge> 1. page_img (db_content d') p = wal_pages w d p)"
  obtain g where g: "crash_file (d_db d') g" "db_content d2 = g" "crash_side (d_wal d') (d_wal d2)"
    using crash_disk_parts [OF crash] by metis
  let ?free = "d_budget d = None \<longrightarrow> r = Inr () \<and> d_budget d' = None"
  have "?safe \<and> (r = Inr () \<longrightarrow> ?fin) \<and> ?free"
  proof (cases "?ix = []")
    case True
    then have "r = Inr ()" "w' = w" "d' = d" using run by (simp_all add: wal_checkpoint_def bindS_def)
    then show ?thesis
      using idle_crash [OF i] crash i old True nil by (simp add: overlay_def)
  next
    case False
    then have sy: "log_synced w d ts" using i nil by (auto simp: wal_inv_def)
    have mid: ?safe if "d_wal d' = d_wal d" "d_db d' = add_wrs (map page_write (take k ?c)) (d_db d)" for k
    proof -
      have "d_wal d2 = d_wal d" using crash_side_settled [OF g(3)] sy that(1) by (simp add: log_synced_def)
      then have side: "side_image (d_wal d2) = Some (log_bytes w ts)" using sy by (simp add: log_synced_def side_image_def)
      have "crash_bytes (map page_write (take k ?c)) (db_content d) g"
        using g(1) that(2) db dbs by (simp add: crash_file_def)
      then have "overlay (logged ts) g p = overlay (logged ts) (db_content d) p" if "1 \<le> p" for p
        unfolding c(1) [symmetric]
        by (rule overlay_crash [OF _ pages_ok_take _ that])
          (use c(2) in \<open>auto simp: dict_pages_def dom_map_of_conv_image_fst dest: in_set_takeD\<close>)
      then show ?thesis using log_dict [OF w] by (simp add: recovered_def side g(2) old)
    qed
    have post: ?safe if "d_db d' = sync_file (add_wrs (map page_write ?c) (d_db d))"
      and side: "side_image (d_wal d2) = Some (log_bytes w ts) \<or> wal_dict (side_image (d_wal d2)) = []"
    proof -
      have "g = fold apply_wr (map page_write ?c) (db_content d)"
        using g(1) that(1) by (simp add: crash_synced db_content_def)
      then have "page_img g p = wal_pages w d p" "overlay (logged ts) g p = wal_pages w d p" if "1 \<le> p" for p
        using overlay_written [OF c(2) that] overlay_copied [OF c(2) that] by (simp_all add: old c(1))
      then show ?thesis
        using side log_dict [OF w] by (auto simp: recovered_def g(2) overlay_def dict_pages_def)
    qed
    note un = checkpoint_unfold [OF False, of s2 d]
    obtain b1 where f1: "side_fsync Wal d = (Inl OSError, d) \<and> d_budget d \<noteq> None \<or>
        side_fsync Wal d = (Inr (), d\<lparr>d_budget := b1\<rparr>)" "d_budget d = None \<longrightarrow> b1 = None"
    proof (cases rule: side_fsync_cases [of Wal d])
      case (ok b)
      have "upd_side Wal (\<lambda>sc. \<lparr>sc_cur = map_option sync_file (sc_cur sc), sc_stale = (if d_links d then [] else sc_stale sc)\<rparr>) (d\<lparr>d_budget := b\<rparr>) = d\<lparr>d_budget := b\<rparr>"
        using sy by (cases d) (simp add: log_synced_def upd_side_def settled_file_def sync_file_def content_def)
      with ok show thesis by (intro that [of b]) auto
    next
      case fail
      then show thesis by (intro that [of None]) auto
    qed
    show ?thesis
    proof (cases "side_fsync Wal d = (Inl OSError, d)")
      case True
      then have "wal_checkpoint s2 (w, d) = (Inl OSError, (w, d))" unfolding un by (rule bind_disk(2))
      then have "r = Inl OSError" "d' = d" using run by simp_all
      then show ?thesis using mid [of 0] f1(1) True by auto
    next
      case synced: False
      let ?d1 = "d\<lparr>d_budget := b1\<rparr>"
      have f1': "side_fsync Wal d = (Inr (), ?d1)" using f1(1) synced by blast
      have c1: "copies w ?d1 ?ix = ?c" by (simp add: copies_def frame_data_def side_content_def d_side_def)
      have one: "\<forall>(p, j) \<in> set ?ix. 1 \<le> p" using c(2) by (auto simp: dict_pages_def pages_ok_def copies_def)
      obtain k b2 r2 where cp: "k \<le> length ?ix"
        "forS copy_frame ?ix (w, ?d1) = (r2, (w, ?d1\<lparr>d_db := add_wrs (map page_write (take k ?c)) (d_db ?d1), d_budget := b2\<rparr>))"
        "r2 = Inr () \<and> k = length ?ix \<or> r2 = Inl OSError" "d_budget ?d1 = None \<longrightarrow> b2 = None \<and> r2 = Inr ()"
        by (rule copy_frames_cases [OF ps one, of ?d1, unfolded c1], rule that, assumption+)
      let ?d2 = "d\<lparr>d_db := add_wrs (map page_write (take k ?c)) (d_db d), d_budget := b2\<rparr>"
      have d2: "?d1\<lparr>d_db := add_wrs (map page_write (take k ?c)) (d_db ?d1), d_budget := b2\<rparr> = ?d2" by simp
      have midk: ?safe if "d' = ?d2" using that by (intro mid [of k]) simp_all
      show ?thesis
      proof (cases "r2 = Inr ()")
        case False
        then have "forS copy_frame ?ix (w, ?d1) = (Inl OSError, (w, ?d2))" using cp(2,3) d2 by simp
        then have "wal_checkpoint s2 (w, d) = (Inl OSError, (w, ?d2))"
          unfolding un bind_disk(1) [of "side_fsync Wal", OF f1'] by (rule bindS_Inl)
        then have "r = Inl OSError" "d' = ?d2" using run by simp_all
        then show ?thesis using midk f1(2) cp(4) False by auto
      next
        case copied: True
        then have k: "take k ?c = ?c" using cp(3) by (simp add: copies_def)
        have f2: "forS copy_frame ?ix (w, ?d1) = (Inr (), (w, ?d2))" using cp(2) copied d2 by simp
        note u2 = un [unfolded bind_disk(1) [of "side_fsync Wal", OF f1'] bindS_Inr [of "forS copy_frame ?ix", OF f2]]
        show ?thesis
        proof (cases rule: db_fsync_cases [of ?d2])
          case fail
          then have "wal_checkpoint s2 (w, d) = (Inl OSError, (w, ?d2))" unfolding u2 by (intro bind_disk(2))
          then have "r = Inl OSError" "d' = ?d2" using run by simp_all
          then show ?thesis using midk f1(2) cp(4) fail(2) by auto
        next
          case (ok b3)
          let ?db = "sync_file (add_wrs (map page_write ?c) (d_db d))"
          define d3 where "d3 = d\<lparr>d_db := ?db, d_budget := b3\<rparr>"
          have f3: "db_fsync ?d2 = (Inr (), d3)" using ok(1) k by (simp add: d3_def)
          have free3: "d_budget d = None \<longrightarrow> d_budget d3 = None" using f1(2) cp(4) ok(2) by (auto simp: d3_def)
          let ?wn = "w\<lparr>w_seq := w_seq w + 1, w_salt2 := s2\<rparr>"
          have wn: "w_page_size ?wn = PAGE_SIZE" "w_salt1 ?wn < 2 ^ 32" "w_salt2 ?wn < 2 ^ 32" "w_seq ?wn < 2 ^ 32"
            using w seq salt by (simp_all add: writer_ok_def)
          have d3: "d_wal d3 = d_wal d" "d_db d3 = ?db" by (simp_all add: d3_def)
          note u3 = u2 [unfolded bind_disk(1) [of db_fsync, OF f3] bind_disk(3)]
          show ?thesis
          proof (cases rule: side_write_cases [of "Ftruncate WAL_HEADER_SIZE" d3])
            case fail
            then have "wal_checkpoint s2 (w, d) = (Inl OSError, (?wn, d3))" unfolding u3 by (intro bind_disk(2))
            then have r: "r = Inl OSError" "d' = d3" using run by simp_all
            have "d_wal d2 = d_wal d" using crash_side_settled [OF g(3)] sy by (simp add: r d3 log_synced_def)
            then have "side_image (d_wal d2) = Some (log_bytes w ts)" using sy by (simp add: log_synced_def side_image_def)
            then show ?thesis using post r d3 free3 fail(2) by auto
          next
            case (ok b4)
            define d4 where "d4 = add_side [Ftruncate WAL_HEADER_SIZE] (d3\<lparr>d_budget := b4\<rparr>)"
            have d4: "d_wal d4 = \<lparr>sc_cur = Some (add_wrs [Ftruncate WAL_HEADER_SIZE] (settled_file (log_bytes w ts))), sc_stale = []\<rparr>"
              "d_db d4 = ?db"
              using sy by (auto simp: d4_def d3 log_synced_def intro: sidecar.equality)
            have f4: "side_write Wal (Ftruncate WAL_HEADER_SIZE) d3 = (Inr (), d4)" using ok(1) by (simp add: d4_def)
            have free4: "d_budget d = None \<longrightarrow> d_budget d4 = None" using free3 ok(2) by (auto simp: d4_def)
            note u4 = u3 [unfolded bind_disk(1) [of "side_write Wal (Ftruncate WAL_HEADER_SIZE)", OF f4]]
            show ?thesis
            proof (cases rule: write_wal_header_cases [OF wn, of d4])
              case 1
              then have "wal_checkpoint s2 (w, d) = (Inl OSError, (?wn, d4))" unfolding u4 by (intro bindS_Inl)
              then have r: "r = Inl OSError" "d' = d4" using run by simp_all
              have "side_image (d_wal d2) = Some (log_bytes w ts) \<or>
                  side_image (d_wal d2) = Some (ftruncate (log_bytes w ts) WAL_HEADER_SIZE)"
                using g(3) by (auto simp: r d4 crash_side_def side_image_def crash_file_def elim!: torn_truncateE
                    elim: crash_bytes.cases)
              then have "side_image (d_wal d2) = Some (log_bytes w ts) \<or> wal_dict (side_image (d_wal d2)) = []"
                using short_log [of "ftruncate (log_bytes w ts) WAL_HEADER_SIZE"] by (auto simp: ftruncate_def)
              then show ?thesis using post r d4 free4 1(2) by auto
            next
              case (2 b5)
              then have r: "r = Inr ()" "d' = add_side [Pwrite 0 (header_bytes ?wn)] (d4\<lparr>d_budget := b5\<rparr>)"
                "w' = ?wn\<lparr>w_run := hdr_sums ?wn, w_com := hdr_sums ?wn, w_com_next := WAL_HEADER_SIZE,
                   w_index := [], w_count := 0, w_next := WAL_HEADER_SIZE\<rparr>"
                using run unfolding u4 bindS_Inr [of write_wal_header, OF 2(1)] upd_wal_def by simp_all
              have dbc: "db_content d' = fold apply_wr (map page_write ?c) (db_content d)"
                by (simp add: r d4 db_content_def)
              then have pages: "page_img (db_content d') p = wal_pages w d p" if "1 \<le> p" for p
                using overlay_written [OF c(2) that] by (simp add: old c(1))
              have "quiet_side \<lparr>sc_cur = Some (settled_file (log_bytes w ts)), sc_stale = []\<rparr> (db_content d')"
                unfolding quiet_side_def
              proof (intro allI impI)
                fix sc' assume "crash_side \<lparr>sc_cur = Some (settled_file (log_bytes w ts)), sc_stale = []\<rparr> sc'"
                then have img: "side_image sc' = Some (log_bytes w ts)"
                  by (auto simp: crash_side_def side_image_def crash_synced)
                have "page_img (db_content d') p = data" if "logged ts p = Some data" for p data
                proof -
                  have "1 \<le> p" using logged_pages [OF _ that] w by (simp add: writer_ok_def)
                  then show ?thesis using pages [of p] that by (simp add: old overlay_def)
                qed
                then show "absorbed (side_image sc') (db_content d')"
                  using log_dict [OF w] by (simp add: img absorbed_def)
              qed
              then have "log_fresh w' d'"
                unfolding log_fresh_def
                by (intro exI [of _ "log_bytes w ts"] exI [of _ WAL_HEADER_SIZE])
                  (simp add: r d4 settled_file_def add_wrs_def)
              moreover have "writer_ok w' []" "at_rest w'"
                using fresh_writer [of w'] wn by (simp_all add: r)
              ultimately have iv: "wal_inv w' d' []" by (simp add: wal_inv_def r d4)
              have "wal_pages w' d' p = wal_pages w d p" if "1 \<le> p" for p
                using wal_pages_overlay [OF iv] pages [OF that] by (simp add: overlay_def)
              then have ?safe using idle_crash [OF iv crash] by simp
              moreover have ?free using free4 2(2) by (simp add: r)
              ultimately show ?thesis using iv pages by blast
            qed
          qed
        qed
      qed
    qed
  qed
  then show "dict_pages (wal_dict (side_image (d_wal d2)))" and "\<forall>p \<ge> 1. recovered d2 p = wal_pages w d p"
    and "r = Inr () \<Longrightarrow> wal_inv w' d' [] \<and> (\<forall>p \<ge> 1. page_img (db_content d') p = wal_pages w d p)"
    and "d_budget d = None \<Longrightarrow> r = Inr () \<and> d_budget d' = None"
    by blast+
qed


inductive recovery_attempts :: "disk \<Rightarrow> disk \<Rightarrow> bool" where
  \<comment> \<open>reopenings, each stopped at any of its system calls or after the last one, and a crash after each\<close>
  no_attempt: "recovery_attempts d d"
| one_more: "recovery_attempts d d1 \<Longrightarrow> recover_wal_on_open PAGE_SIZE True (d1\<lparr>d_budget := b\<rparr>) = (r, d2) \<Longrightarrow>
    crash_disk d2 d3 \<Longrightarrow> recovery_attempts d d3"

definition recoverable :: "disk \<Rightarrow> bool" where
  \<comment> \<open>nothing is pending, and what the log commits are pages\<close>
  "recoverable d \<longleftrightarrow> settled d \<and> dict_pages (wal_dict (side_image (d_wal d)))"

lemma recoverable_budget [simp]: "recoverable (d\<lparr>d_budget := b\<rparr>) = recoverable d" "recovered (d\<lparr>d_budget := b\<rparr>) = recovered d"
  by (simp_all add: recoverable_def settled_def recovered_def db_content_def)

lemma one_attempt:
  assumes d: "recoverable d" and run: "recover_wal_on_open PAGE_SIZE True d = (r, d')"
  shows "r = Inr () \<or> r = Inl OSError \<and> d_budget d \<noteq> None"
    and "r = Inr () \<Longrightarrow> 1 \<le> p \<Longrightarrow> page_img (db_content d') p = recovered d p"
    and "crash_disk d' d2 \<Longrightarrow> recoverable d2"
    and "crash_disk d' d2 \<Longrightarrow> 1 \<le> p \<Longrightarrow> recovered d2 p = recovered d p"
proof -
  let ?c = "wal_dict (side_image (d_wal d))"
  have st: "settled d" and c: "dict_pages ?c" using d by (simp_all add: recoverable_def)
  have "(r = Inr () \<and> recovery_done ?c d d' \<or> r = Inl OSError \<and> recovering ?c d d') \<and> (d_budget d = None \<longrightarrow> r = Inr ())"
  proof (rule recover_run [OF refl c])
    fix r0 d0 assume "recover_wal_on_open PAGE_SIZE True d = (r0, d0)"
      "r0 = Inr () \<and> recovery_done ?c d d0 \<or> r0 = Inl OSError \<and> recovering ?c d d0"
      "d_budget d = None \<Longrightarrow> r0 = Inr () \<and> d_budget d0 = None"
    then show ?thesis using run by simp
  qed
  then have k: "r = Inr () \<and> recovery_done ?c d d' \<or> r = Inl OSError \<and> recovering ?c d d'" "d_budget d = None \<longrightarrow> r = Inr ()"
    by blast+
  then show "r = Inr () \<or> r = Inl OSError \<and> d_budget d \<noteq> None" by auto
  show "page_img (db_content d') p = recovered d p" if "r = Inr ()" "1 \<le> p"
    using recovery_pages [OF st refl c _ that(2)] k that(1) by auto
  assume crash: "crash_disk d' d2"
  have kind: "recovery_done ?c d d' \<or> recovering ?c d d'" using k by blast
  show "recovered d2 p = recovered d p" if "1 \<le> p" by (rule recovered_same [OF st refl c kind crash that])
  have "side_image (d_wal d2) = None \<or> side_image (d_wal d2) = side_image (d_wal d)"
    by (rule recovered_side [OF st kind crash])
  then show "recoverable d2" using c crash_settled [OF crash] by (auto simp: recoverable_def wal_dict_def dict_pages_def)
qed

lemma attempts_same:
  assumes "recovery_attempts d d1" and "recoverable d"
  shows "recoverable d1 \<and> (\<forall>p \<ge> 1. recovered d1 p = recovered d p)"
  using assms
proof (induction rule: recovery_attempts.induct)
  case (one_more d d1 b r d2 d3)
  then have "recoverable (d1\<lparr>d_budget := b\<rparr>)" by simp
  note one = one_attempt [OF this one_more(2)]
  have "recovered d3 p = recovered d p" if "1 \<le> p" for p
    using one(4) [OF one_more(3) that] one_more that by simp
  with one(3) [OF one_more(3)] show ?case by blast
qed simp

text \<open>
  C16. Recovery ends in the committed state, however often it is interrupted. Take a disk as a crash leaves
  it, with a log whose committed frames are pages. Reopen it any number of times, each time stopped by a
  failing system call at any point (or not at all) and followed by a crash that tears what was not synced:
  the next recovery in which no system call fails returns, and the database file then holds the pages that
  the log committed over the pages the file had at first. Whatever the calls do, an attempt that returns has
  written exactly those pages, and the only error it can raise is that of a failing call.
\<close>

theorem recovery_idempotent:
  assumes "settled d" and "dict_pages (wal_dict (side_image (d_wal d)))" and "recovery_attempts d d1"
  shows "(\<exists>d2. recover_wal_on_open PAGE_SIZE True (d1\<lparr>d_budget := None\<rparr>) = (Inr (), d2) \<and>
      (\<forall>p \<ge> 1. page_img (db_content d2) p = recovered d p)) \<and>
    (\<forall>b r d2. recover_wal_on_open PAGE_SIZE True (d1\<lparr>d_budget := b\<rparr>) = (r, d2) \<longrightarrow>
      r = Inr () \<and> (\<forall>p \<ge> 1. page_img (db_content d2) p = recovered d p) \<or> r = Inl OSError \<and> b \<noteq> None)"
proof -
  have d1: "recoverable d1" "\<And>p. 1 \<le> p \<Longrightarrow> recovered d1 p = recovered d p"
    using attempts_same [OF assms(3)] assms(1,2) by (auto simp: recoverable_def)
  have any: "r = Inr () \<and> (\<forall>p \<ge> 1. page_img (db_content d2) p = recovered d p) \<or> r = Inl OSError \<and> b \<noteq> None"
    if "recover_wal_on_open PAGE_SIZE True (d1\<lparr>d_budget := b\<rparr>) = (r, d2)" for b r d2
    using one_attempt(1,2) [of "d1\<lparr>d_budget := b\<rparr>" r d2] that d1 by auto
  obtain r d2 where run: "recover_wal_on_open PAGE_SIZE True (d1\<lparr>d_budget := None\<rparr>) = (r, d2)" by fastforce
  then have "r = Inr ()" "\<forall>p \<ge> 1. page_img (db_content d2) p = recovered d p" using any [OF run] by auto
  then show ?thesis using any run by blast
qed

section \<open>Concrete instances\<close>

definition empty_disk :: disk where
  "empty_disk = \<lparr>d_db = settled_file [], d_jrn = \<lparr>sc_cur = None, sc_stale = []\<rparr>,
     d_wal = \<lparr>sc_cur = None, sc_stale = []\<rparr>, d_budget = None, d_links = True\<rparr>"

definition demo_items :: page_dict where "demo_items = [(2, replicate PAGE_SIZE 7)]"

lemma demo_txn: "txn_ok (demo_items, 2)"
  by (simp add: demo_items_def txn_ok_def)

lemma demo_writer:
  \<comment> \<open>a new log, on either kind of file system\<close>
  obtains w d where "wal_inv w d []" "d_budget d = None" "w_seq w = 0" "d_links d = l" "None \<in> set (sc_stale (d_wal d))"
    "db_content d = []"
proof -
  let ?d = "empty_disk\<lparr>d_links := l\<rparr>"
  have q: "quiet_side (d_wal ?d) (db_content ?d)"
    by (auto simp: quiet_side_def empty_disk_def crash_side_def side_image_def)
  show thesis
    using wal_open_run [OF _ q, of 3 4] by (auto simp: empty_disk_def db_content_def intro: that)
qed

lemma demo_committed:
  obtains w d w' d' where "wal_inv w d []" "d_budget d = None"
    "commit_transaction demo_items 2 (w, d) = (Inr (), (w', d'))" "entry_kept d"
    "wal_inv w' d' [(demo_items, 2)]" "log_synced w' d' [(demo_items, 2)]" "d_budget d' = None" "w_seq w' = 0"
    "db_content d' = []"
proof -
  obtain w d where i: "wal_inv w d []" "d_budget d = None" "w_seq w = 0" "d_links d" "db_content d = []"
    by (rule demo_writer [of True]) auto
  obtain r w' d' where run: "commit_transaction demo_items 2 (w, d) = (r, (w', d'))" by (metis surj_pair)
  have kept: "entry_kept d" using i(4) by (simp add: entry_kept_def)
  show thesis
  proof (cases rule: commit_cases [OF i(1) demo_txn run])
    case 2
    then show thesis
      using i run kept commit_inv [OF i(1) demo_txn, of w' d'] by (intro that [of w d w' d']) (simp_all add: db_content_def)
  qed (use i in auto)
qed


theorem new_log_lost_witness:
  "\<exists>w d w' d' d2 d3. commit_transaction demo_items 2 (w, d) = (Inr (), (w', d')) \<and> wal_pages w' d' 2 = replicate PAGE_SIZE 7 \<and>
    crash_disk d' d2 \<and> recover_wal_on_open PAGE_SIZE True d2 = (Inr (), d3) \<and> page_img (db_content d3) 2 = wal_pages w d 2"
proof -
  obtain w d where i: "wal_inv w d []" "d_budget d = None" "w_seq w = 0" "\<not> d_links d" "None \<in> set (sc_stale (d_wal d))"
    by (rule demo_writer [of False]) auto
  from new_log_lost [OF i(1,5,4,2) demo_txn] obtain w' d' d2 d3 where
    "commit_transaction demo_items 2 (w, d) = (Inr (), (w', d'))" "wal_pages w' d' = txn_pages demo_items (wal_pages w d)"
    "crash_disk d' d2" "recover_wal_on_open PAGE_SIZE True d2 = (Inr (), d3)" "\<forall>p \<ge> 1. page_img (db_content d3) p = wal_pages w d p"
    by blast
  moreover have "txn_pages demo_items pg 2 = replicate PAGE_SIZE 7" for pg by (simp add: txn_pages_def demo_items_def)
  ultimately show ?thesis by (intro exI conjI) auto
qed


theorem rolled_back_commit_returns_witness:
  "\<exists>w d w1 d1 d2 d3. commit_transaction demo_items 2 (w, d) = (Inl OSError, (w1, d1)) \<and>
    wal_rollback (w1, d1) = (Inr (), (w, d1)) \<and> crash_disk d1 d2 \<and>
    recover_wal_on_open PAGE_SIZE True d2 = (Inr (), d3) \<and> page_img (db_content d3) 2 = replicate PAGE_SIZE 7"
proof -
  obtain w0 d0 w d where i: "wal_inv w0 d0 []" "wal_inv w d [(demo_items, 2)]" "log_synced w d [(demo_items, 2)]"
    by (rule demo_committed)
  let ?d = "d\<lparr>d_budget := Some (length demo_items)\<rparr>"
  have "wal_inv w ?d [(demo_items, 2)]" "log_synced w ?d [(demo_items, 2)]"
    using i(2,3) by (simp_all add: wal_inv_def log_synced_def)
  from rolled_back_commit_returns [OF this demo_txn] obtain w1 d1 d2 d3 where
    "commit_transaction demo_items 2 (w, ?d) = (Inl OSError, (w1, d1))"
    "wal_rollback (w1, d1) = (Inr (), (w, d1))" "crash_disk d1 d2"
    "recover_wal_on_open PAGE_SIZE True d2 = (Inr (), d3)"
    "\<forall>p \<ge> 1. page_img (db_content d3) p = txn_pages demo_items (wal_pages w ?d) p"
    by auto
  moreover have "txn_pages demo_items pg 2 = replicate PAGE_SIZE 7" for pg by (simp add: txn_pages_def demo_items_def)
  ultimately show ?thesis by fastforce
qed

theorem recovery_idempotent_witness:
  "\<exists>d d1 r d2 d3. d_budget d1 = Some 1 \<and> recover_wal_on_open PAGE_SIZE True d1 = (r, d2) \<and> page_img (db_content d1) 2 \<noteq> replicate PAGE_SIZE 7 \<and>
     recovery_attempts d (reboot d2) \<and> recover_wal_on_open PAGE_SIZE True (reboot d2) = (Inr (), d3) \<and>
     page_img (db_content d3) 2 = replicate PAGE_SIZE 7"
proof -
  obtain w0 d0 w d where i: "wal_inv w0 d0 []" "wal_inv w d [(demo_items, 2)]" "log_synced w d [(demo_items, 2)]" "db_content d = []"
    by (rule demo_committed)
  let ?d = "reboot d"
  have w: "writer_ok w [(demo_items, 2)]" using i(2) by (simp add: wal_inv_def)
  have img: "side_image (d_wal ?d) = Some (log_bytes w [(demo_items, 2)])"
    using i(3) by (simp add: reboot_def Let_def side_image_def log_synced_def)
  have st: "settled ?d" using crash_settled [OF crash_reboot [of d]] .
  have c: "dict_pages (wal_dict (side_image (d_wal ?d)))" using log_dict(1) [OF w] by (simp only: img)
  obtain r d2 where run: "recover_wal_on_open PAGE_SIZE True (?d\<lparr>d_budget := Some 1\<rparr>) = (r, d2)" by (metis surj_pair)
  have at: "recovery_attempts ?d (reboot d2)" by (rule one_more [OF no_attempt run crash_reboot])
  have "(reboot d2)\<lparr>d_budget := None\<rparr> = reboot d2" by (simp add: reboot_def Let_def)
  then obtain d3 where d3: "recover_wal_on_open PAGE_SIZE True (reboot d2) = (Inr (), d3)"
    "\<forall>p \<ge> 1. page_img (db_content d3) p = recovered ?d p"
    using recovery_idempotent [OF st c at] by auto
  have "recovered ?d 2 = replicate PAGE_SIZE 7"
    using log_dict(2) [OF w] unfolding recovered_def img by (simp add: overlay_def logged_def demo_items_def)
  moreover have "page_img (db_content (?d\<lparr>d_budget := Some 1\<rparr>)) 2 \<noteq> replicate PAGE_SIZE 7"
  proof
    assume "page_img (db_content (?d\<lparr>d_budget := Some 1\<rparr>)) 2 = replicate PAGE_SIZE 7"
    then have "page_img [] 2 ! 0 = (7 :: 8 word)" using i(4) by (simp add: reboot_def db_content_def Let_def PAGE_SIZE_def)
    then show False by (simp add: page_img_nth byte_at_def PAGE_SIZE_def)
  qed
  ultimately show ?thesis using run at d3 by (intro exI [of _ ?d] exI [of _ "?d\<lparr>d_budget := Some 1\<rparr>"] exI conjI) auto
qed

end
