(* ===== verification/PyText.thy ===== *)
theory PyText
  imports Prelude
begin

text \<open>
  The parts of Python's standard library the record codec uses for text: \<open>str\<close> as its list of
  code points, \<open>str.encode()\<close> and \<open>bytes.decode()\<close> (strict UTF-8), and \<open>isoformat\<close> of
  \<open>datetime\<close> and \<open>date\<close>.
\<close>

section \<open>UTF-8\<close>

type_synonym pystr = "nat list"

definition utf8_char :: "nat \<Rightarrow> nat list res" where
  "utf8_char c =
     (if c < 0x80 then Inr [c]
      else if c < 0x800 then Inr [0xC0 + c div 64, 0x80 + c mod 64]
      else if c < 0x10000 then
        if 0xD800 \<le> c \<and> c \<le> 0xDFFF then Inl UnicodeError
        else Inr [0xE0 + c div 4096, 0x80 + c div 64 mod 64, 0x80 + c mod 64]
      else if c < 0x110000 then
        Inr [0xF0 + c div 262144, 0x80 + c div 4096 mod 64, 0x80 + c div 64 mod 64, 0x80 + c mod 64]
      else Inl UnicodeError)"

definition utf8_encode :: "pystr \<Rightarrow> bytes res" where
  "utf8_encode s = bindR (mapR utf8_char s) (\<lambda>cs. Inr (map of_nat (concat cs)))"

definition is_cont :: "nat \<Rightarrow> bool" where
  "is_cont b \<longleftrightarrow> 0x80 \<le> b \<and> b < 0xC0"

fun utf8_dec :: "nat list \<Rightarrow> pystr res" where
  "utf8_dec [] = Inr []"
| "utf8_dec (a # bs) =
     (if a < 0x80 then bindR (utf8_dec bs) (\<lambda>r. Inr (a # r))
      else if 0xC2 \<le> a \<and> a < 0xE0 then
        (case bs of
           b # bs' \<Rightarrow>
             if is_cont b then bindR (utf8_dec bs') (\<lambda>r. Inr (((a - 0xC0) * 64 + (b - 0x80)) # r))
             else Inl UnicodeError
         | _ \<Rightarrow> Inl UnicodeError)
      else if 0xE0 \<le> a \<and> a < 0xF0 then
        (case bs of
           b # c # bs' \<Rightarrow>
             let u = (a - 0xE0) * 4096 + (b - 0x80) * 64 + (c - 0x80) in
             if is_cont b \<and> is_cont c \<and> 0x800 \<le> u \<and> \<not> (0xD800 \<le> u \<and> u \<le> 0xDFFF)
             then bindR (utf8_dec bs') (\<lambda>r. Inr (u # r)) else Inl UnicodeError
         | _ \<Rightarrow> Inl UnicodeError)
      else if 0xF0 \<le> a \<and> a < 0xF5 then
        (case bs of
           b # c # d # bs' \<Rightarrow>
             let u = (a - 0xF0) * 262144 + (b - 0x80) * 4096 + (c - 0x80) * 64 + (d - 0x80) in
             if is_cont b \<and> is_cont c \<and> is_cont d \<and> 0x10000 \<le> u \<and> u < 0x110000
             then bindR (utf8_dec bs') (\<lambda>r. Inr (u # r)) else Inl UnicodeError
         | _ \<Rightarrow> Inl UnicodeError)
      else Inl UnicodeError)"

definition utf8_decode :: "bytes \<Rightarrow> pystr res" where
  "utf8_decode bs = utf8_dec (map unat bs)"

lemma utf8_char_bytes: "utf8_char c = Inr bs \<Longrightarrow> \<forall>b \<in> set bs. b < 256"
  by (auto simp: utf8_char_def split: if_splits)

lemma div_chain:
  "c div 4096 = c div 64 div (64 :: nat)" "c div 262144 = c div 64 div 64 div (64 :: nat)"
  by (simp_all flip: div_mult2_eq)

lemma join_64: "(c div 64) * 64 + c mod 64 = (c :: nat)"
  by simp

lemma join_4096: "(c div 4096) * 4096 + (c div 64 mod 64) * 64 + c mod 64 = (c :: nat)"
  unfolding div_chain using join_64 [of c] join_64 [of "c div 64"] by linarith

lemma join_262144:
  "(c div 262144) * 262144 + (c div 4096 mod 64) * 4096 + (c div 64 mod 64) * 64 + c mod 64 = (c :: nat)"
  unfolding div_chain
  using join_64 [of c] join_64 [of "c div 64"] join_64 [of "c div 64 div 64"] by linarith

lemma utf8_dec_char:
  "utf8_char c = Inr bs \<Longrightarrow> utf8_dec (bs @ rest) = bindR (utf8_dec rest) (\<lambda>r. Inr (c # r))"
proof -
  have m: "x mod 64 < (64 :: nat)" for x by simp
  have d2: "c < 0x800 \<Longrightarrow> c div 64 < 32" by simp
  have d3: "c < 0x10000 \<Longrightarrow> c div 4096 < 16" by simp
  have d4: "c < 0x110000 \<Longrightarrow> c div 262144 < 5" by simp
  assume "utf8_char c = Inr bs"
  then show ?thesis
    using m [of c] m [of "c div 64"] m [of "c div 4096"] d2 d3 d4
      join_64 [of c] join_4096 [of c] join_262144 [of c]
    by (auto simp: utf8_char_def is_cont_def Let_def split: if_splits)
qed

lemma utf8_dec_chars:
  "mapR utf8_char s = Inr cs \<Longrightarrow> utf8_dec (concat cs) = Inr s"
  by (induction s arbitrary: cs) (auto simp: bindR_eq_Inr_iff utf8_dec_char)

text \<open>Decoding is a left inverse of encoding, wherever encoding does not raise.\<close>

lemma utf8_roundtrip: "utf8_encode s = Inr bs \<Longrightarrow> utf8_decode bs = Inr s"
proof -
  assume "utf8_encode s = Inr bs"
  then obtain cs where cs: "mapR utf8_char s = Inr cs" and bs: "bs = map of_nat (concat cs)"
    by (auto simp: utf8_encode_def bindR_eq_Inr_iff)
  have "\<forall>b \<in> set (concat cs). b < 256"
    using cs by (induction s arbitrary: cs) (auto simp: bindR_eq_Inr_iff dest: utf8_char_bytes [rule_format])
  then have "map unat (map of_nat (concat cs) :: bytes) = concat cs"
    by (simp add: o_def unat_of_nat_byte) (rule map_idI, auto)
  then show "utf8_decode bs = Inr s"
    by (simp add: bs utf8_decode_def utf8_dec_chars [OF cs])
qed

lemma utf8_encode_ascii:
  "\<forall>c \<in> set s. c < 0x80 \<Longrightarrow> utf8_encode s = Inr (map of_nat s)"
  by (induction s) (auto simp: utf8_encode_def utf8_char_def bindR_eq_Inr_iff)

section \<open>Dates and times in ISO form\<close>

record date =
  year :: nat
  month :: nat
  day :: nat

record datetime =
  dt_date :: date
  hour :: nat
  minute :: nat
  second :: nat
  microsecond :: nat
  utcoffset :: "int option" \<comment> \<open>in microseconds; \<open>None\<close> for a naive value\<close>

fun decimal :: "nat \<Rightarrow> nat \<Rightarrow> pystr" where
  \<comment> \<open>\<open>"%0wd" % n\<close> for a number of at most \<open>w\<close> digits\<close>
  "decimal 0 n = []"
| "decimal (Suc w) n = decimal w (n div 10) @ [48 + n mod 10]"

definition pystr_of :: "string \<Rightarrow> pystr" where
  "pystr_of s = map of_char s"

definition date_isoformat :: "date \<Rightarrow> pystr" where
  "date_isoformat d =
     decimal 4 (year d) @ pystr_of ''-'' @ decimal 2 (month d) @ pystr_of ''-'' @ decimal 2 (day d)"

definition offset_isoformat :: "int option \<Rightarrow> pystr" where
  "offset_isoformat off = (case off of None \<Rightarrow> [] | Some o1 \<Rightarrow>
     let us = nat \<bar>o1\<bar>;
         ss = us div 1000000 mod 60; uu = us mod 1000000
     in pystr_of (if o1 < 0 then ''-'' else ''+'')
        @ decimal 2 (us div 3600000000) @ pystr_of '':'' @ decimal 2 (us div 60000000 mod 60)
        @ (if ss \<noteq> 0 \<or> uu \<noteq> 0
           then pystr_of '':'' @ decimal 2 ss
             @ (if uu \<noteq> 0 then pystr_of ''.'' @ decimal 6 uu else [])
           else []))"

definition datetime_isoformat :: "datetime \<Rightarrow> pystr" where
  \<comment> \<open>\<open>isoformat(sep=" ")\<close>\<close>
  "datetime_isoformat t =
     date_isoformat (dt_date t) @ pystr_of '' ''
     @ decimal 2 (hour t) @ pystr_of '':'' @ decimal 2 (minute t) @ pystr_of '':'' @ decimal 2 (second t)
     @ (if microsecond t \<noteq> 0 then pystr_of ''.'' @ decimal 6 (microsecond t) else [])
     @ offset_isoformat (utcoffset t)"

lemma decimal_ascii: "c \<in> set (decimal w n) \<Longrightarrow> 48 \<le> c \<and> c \<le> 57"
  by (induction w n rule: decimal.induct) auto

lemma length_decimal [simp]: "length (decimal w n) = w"
  by (induction w n rule: decimal.induct) auto

lemma pystr_of_simps [simp]:
  "pystr_of ''-'' = [45]" "pystr_of '':'' = [58]" "pystr_of ''.'' = [46]" "pystr_of '' '' = [32]"
  "pystr_of ''+'' = [43]"
  by (simp_all add: pystr_of_def)

lemma datetime_separator: "datetime_isoformat t ! 10 = 32"
  \<comment> \<open>the space-form separator the storage relies on sits at index 10\<close>
  by (simp add: datetime_isoformat_def date_isoformat_def nth_append)

end
