(* ===== verification/RecordCodec.thy ===== *)
theory RecordCodec
  imports Varint PyText
begin

text \<open>
  \<open>record.py\<close>, second half: the serial-type record codec. A record is a header (its own
  size and one serial type per column, all varints) followed by the packed column bodies.
  \<open>decode_record\<close>, \<open>decode_record_views\<close> and \<open>decode_record_projected\<close> share the cell
  decoder \<open>decode_cell\<close>, which is the branch chain the three loops repeat.
\<close>

section \<open>Values and their serial types\<close>

datatype pyval =
    PNull \<comment> \<open>the \<open>SqlNull\<close> sentinel\<close>
  | PBool bool
  | PInt int
  | PFloat "64 word" \<comment> \<open>a double by its IEEE-754 bit pattern\<close>
  | PStr pystr
  | PBytes bytes
  | PView bytes \<comment> \<open>a \<open>memoryview\<close> with these contents\<close>
  | PDatetime datetime
  | PDate date
  | POther \<comment> \<open>any other Python object\<close>

definition serial_type_for :: "pyval \<Rightarrow> nat res" where
  "serial_type_for v =
     (case v of
        PBool b \<Rightarrow> Inr 1
      | PBytes bs \<Rightarrow> Inr (13 + 2 * length bs)
      | PView bs \<Rightarrow> Inr (13 + 2 * length bs)
      | PFloat w \<Rightarrow> Inr 7
      | PInt i \<Rightarrow>
          (if i = 0 then Inr 8
           else if i = 1 then Inr 9
           else if - (2 ^ 7) \<le> i \<and> i < 2 ^ 7 then Inr 1
           else if - (2 ^ 15) \<le> i \<and> i < 2 ^ 15 then Inr 2
           else if - (2 ^ 31) \<le> i \<and> i < 2 ^ 31 then Inr 4
           else Inr 6)
      | PNull \<Rightarrow> Inr 0
      | PStr s \<Rightarrow> bindR (utf8_encode s) (\<lambda>bs. Inr (12 + 2 * length bs))
      | PDatetime t \<Rightarrow> bindR (utf8_encode (datetime_isoformat t)) (\<lambda>bs. Inr (12 + 2 * length bs))
      | PDate d \<Rightarrow> bindR (utf8_encode (date_isoformat d)) (\<lambda>bs. Inr (12 + 2 * length bs))
      | POther \<Rightarrow> Inl ValueError)"

definition to_bytes_signed :: "nat \<Rightarrow> int \<Rightarrow> bytes res" where
  \<comment> \<open>\<open>i.to_bytes(n, "big", signed=True)\<close>\<close>
  "to_bytes_signed n i =
     (if - (2 ^ (8 * n - 1)) \<le> i \<and> i < 2 ^ (8 * n - 1)
      then Inr (be_bytes n (nat (i mod 256 ^ n))) else Inl OverflowError)"

definition from_bytes_signed :: "bytes \<Rightarrow> int" where
  \<comment> \<open>\<open>int.from_bytes(bs, "big", signed=True)\<close>\<close>
  "from_bytes_signed bs =
     (let n = int (be_nat bs); k = length bs in
      if k \<noteq> 0 \<and> 2 ^ (8 * k - 1) \<le> n then n - 256 ^ k else n)"

definition int_width :: "nat \<Rightarrow> nat" where
  "int_width st = (if st = 1 then 1 else if st = 2 then 2 else if st = 4 then 4 else 8)"

definition body_for :: "pyval \<Rightarrow> nat \<Rightarrow> bytes res" where
  "body_for v st =
     (if st = 0 then Inr []
      else if st = 8 \<or> st = 9 then Inr []
      else if st = 7 then (case v of PFloat w \<Rightarrow> Inr (be_bytes 8 (unat w)) | _ \<Rightarrow> Inl AssertionError)
      else case v of
        PDatetime t \<Rightarrow> utf8_encode (datetime_isoformat t)
      | PDate d \<Rightarrow> utf8_encode (date_isoformat d)
      | PStr s \<Rightarrow> utf8_encode s
      | PBytes bs \<Rightarrow> Inr bs
      | PView bs \<Rightarrow> Inr bs
      | PBool b \<Rightarrow> Inr (be_bytes (int_width st) (if b then 1 else 0))
      | PInt i \<Rightarrow> to_bytes_signed (int_width st) i
      | _ \<Rightarrow> Inl AssertionError)"

definition body_size :: "nat \<Rightarrow> nat res" where
  "body_size st =
     (if st = 0 then Inr 0
      else if st = 8 \<or> st = 9 then Inr 0
      else if st = 1 then Inr 1
      else if st = 2 then Inr 2
      else if st = 4 then Inr 4
      else if st = 6 \<or> st = 7 then Inr 8
      else if 13 \<le> st \<and> st mod 2 = 1 then Inr ((st - 13) div 2)
      else if 12 \<le> st \<and> st mod 2 = 0 then Inr ((st - 12) div 2)
      else Inl ValueError)"

section \<open>The encoder\<close>

fun header_size_loop :: "nat \<Rightarrow> nat \<Rightarrow> bytes \<Rightarrow> bytes" where
  \<comment> \<open>\<open>for _ in range(3)\<close> over the length \<open>tlen\<close> of the type codes: the bytes of the size field\<close>
  "header_size_loop 0 tlen hsv = hsv"
| "header_size_loop (Suc k) tlen hsv =
     (let hsv1 = encode_varint (int (length (encode_varint 0) + tlen));
          candidate_size = length hsv1 + tlen;
          hsv2 = encode_varint (int candidate_size)
      in if length hsv2 + tlen = candidate_size then hsv2 else header_size_loop k tlen hsv2)"

definition encode_record :: "pyval list \<Rightarrow> bytes res" where
  "encode_record values =
     bindR (mapR serial_type_for values) (\<lambda>serial_types.
     let type_bytes = concat (map (\<lambda>st. encode_varint (int st)) serial_types);
         header = header_size_loop 3 (length type_bytes) [] @ type_bytes
     in bindR (mapR (\<lambda>(v, st). body_for v st) (zip values serial_types)) (\<lambda>bodies.
        Inr (header @ concat bodies)))"

section \<open>The decoders\<close>

function decode_types :: "bytes \<Rightarrow> nat \<Rightarrow> nat \<Rightarrow> nat list res" where
  \<comment> \<open>\<open>while offset < header_end\<close>: the serial-type codes\<close>
  "decode_types data off header_end =
     (if off < header_end then
        (case decode_varint data off of
           Inl e \<Rightarrow> Inl e
         | Inr (st, n) \<Rightarrow> bindR (decode_types data (off + n) header_end) (\<lambda>sts. Inr (st # sts)))
      else Inr [])"
  by pat_completeness auto
termination
proof (relation "measure (\<lambda>(data, off, header_end). header_end - off)", goal_cases)
  case (2 data off header_end b st n)
  from \<open>decode_varint data off = Inr b\<close> \<open>(st, n) = b\<close>
  have "1 \<le> n" using decode_varint_bounds(1) by metis
  with \<open>off < header_end\<close> show ?case by simp
qed simp

declare decode_types.simps [simp del]

definition decode_cell :: "bool \<Rightarrow> bytes \<Rightarrow> nat \<Rightarrow> nat \<Rightarrow> nat \<Rightarrow> pyval res" where
  \<comment> \<open>one column of type \<open>st\<close> with \<open>sz\<close> body bytes at \<open>off\<close>; \<open>is_mv\<close>: blobs are views\<close>
  "decode_cell is_mv data off st sz =
     (if st = 0 then Inr PNull
      else if st = 8 then Inr (PInt 0)
      else if st = 9 then Inr (PInt 1)
      else if st = 7 then bindR (unpack_from 8 data off) (\<lambda>w. Inr (PFloat (of_nat w)))
      else if 13 \<le> st \<and> st mod 2 = 1 then
        Inr ((if is_mv then PView else PBytes) (pyslice data off (off + sz)))
      else if 12 \<le> st \<and> st mod 2 = 0 then
        bindR (utf8_decode (pyslice data off (off + sz))) (\<lambda>s. Inr (PStr s))
      else Inr (PInt (from_bytes_signed (pyslice data off (off + sz)))))"

fun decode_body :: "bool \<Rightarrow> bytes \<Rightarrow> nat \<Rightarrow> nat list \<Rightarrow> (pyval list \<times> nat) res" where
  \<comment> \<open>the loop over the serial types: the values and the offset behind the last body\<close>
  "decode_body is_mv data off [] = Inr ([], off)"
| "decode_body is_mv data off (st # sts) =
     bindR (body_size st) (\<lambda>sz.
     bindR (decode_cell is_mv data off st sz) (\<lambda>v.
     bindR (decode_body is_mv data (off + sz) sts) (\<lambda>(vs, end_off). Inr (v # vs, end_off))))"

definition decode_header :: "bytes \<Rightarrow> nat \<Rightarrow> (nat list \<times> nat) res" where
  \<comment> \<open>the shared header walk: the serial types and \<open>header_end\<close>\<close>
  "decode_header data off =
     bindR (decode_varint data off) (\<lambda>(header_size, n).
     bindR (decode_types data (off + n) (off + header_size)) (\<lambda>sts.
     Inr (sts, off + header_size)))"

definition decode_record :: "bytes \<Rightarrow> nat \<Rightarrow> (pyval list \<times> nat) res" where
  "decode_record data off =
     bindR (decode_header data off) (\<lambda>(serial_types, header_end).
     bindR (decode_body False data header_end serial_types) (\<lambda>(values, body_off).
     Inr (values, body_off - off)))"

definition decode_record_views :: "bool \<Rightarrow> bytes \<Rightarrow> nat \<Rightarrow> (pyval list \<times> nat) res" where
  \<comment> \<open>\<open>is_mv\<close>: the input is a \<open>memoryview\<close>, so that blobs come back as views of it\<close>
  "decode_record_views is_mv data off =
     bindR (decode_header data off) (\<lambda>(serial_types, header_end).
     bindR (decode_body is_mv data header_end serial_types) (\<lambda>(values, body_off).
     Inr (values, body_off - off)))"

fun decode_projected_body ::
  "bool \<Rightarrow> bytes \<Rightarrow> nat \<Rightarrow> nat set \<Rightarrow> nat \<Rightarrow> nat list \<Rightarrow> ((nat \<times> pyval) list \<times> nat) res" where
  "decode_projected_body is_mv data off cols i [] = Inr ([], off)"
| "decode_projected_body is_mv data off cols i (st # sts) =
     bindR (body_size st) (\<lambda>sz.
     bindR (if i \<in> cols then bindR (decode_cell is_mv data off st sz) (\<lambda>v. Inr [(i, v)])
            else Inr []) (\<lambda>here.
     bindR (decode_projected_body is_mv data (off + sz) cols (i + 1) sts) (\<lambda>(vs, end_off).
     Inr (here @ vs, end_off))))"

definition decode_record_projected ::
  "bool \<Rightarrow> bytes \<Rightarrow> nat \<Rightarrow> nat set \<Rightarrow> ((nat \<times> pyval) list \<times> nat) res" where
  \<comment> \<open>the dict of the requested columns, in its insertion order\<close>
  "decode_record_projected is_mv data off cols =
     bindR (decode_header data off) (\<lambda>(serial_types, header_end).
     bindR (decode_projected_body is_mv data header_end cols 0 serial_types) (\<lambda>(values, body_off).
     Inr (values, body_off - off)))"

section \<open>Round trip of one column\<close>

fun stored :: "pyval \<Rightarrow> pyval" where
  \<comment> \<open>what a value is after storage: booleans become integers, dates their ISO text, views bytes\<close>
  "stored (PBool b) = PInt (if b then 1 else 0)"
| "stored (PView bs) = PBytes bs"
| "stored (PDatetime t) = PStr (datetime_isoformat t)"
| "stored (PDate d) = PStr (date_isoformat d)"
| "stored v = v"

lemma from_to_bytes_signed:
  assumes "to_bytes_signed n i = Inr bs" and "0 < n"
  shows "from_bytes_signed bs = i"
proof -
  have r: "- (2 ^ (8 * n - 1)) \<le> i" "i < 2 ^ (8 * n - 1)" and bs: "bs = be_bytes n (nat (i mod 256 ^ n))"
    using assms(1) by (auto simp: to_bytes_signed_def split: if_splits)
  have p: "(256 :: int) ^ n = 2 * 2 ^ (8 * n - 1)"
    using assms(2) by (cases n) (simp_all add: power_add power_mult)
  have pos: "(0 :: int) \<le> i mod 256 ^ n" "i mod 256 ^ n < 256 ^ n" by simp_all
  then have "nat (i mod 256 ^ n) < 256 ^ n" by (simp add: nat_less_iff)
  then have n: "int (be_nat bs) = i mod 256 ^ n" using pos by (simp add: bs)
  show ?thesis
  proof (cases "0 \<le> i")
    case True
    then have "i mod 256 ^ n = i" using r p by (intro mod_pos_pos_trivial) auto
    then show ?thesis using r n by (simp add: from_bytes_signed_def bs Let_def)
  next
    case False
    have "i mod 256 ^ n = (i + 256 ^ n) mod 256 ^ n" by simp
    also have "\<dots> = i + 256 ^ n" using False r p by (intro mod_pos_pos_trivial) auto
    finally show ?thesis using False r n p assms(2) by (simp add: from_bytes_signed_def bs Let_def)
  qed
qed

lemma length_to_bytes_signed: "to_bytes_signed n i = Inr bs \<Longrightarrow> length bs = n"
  by (auto simp: to_bytes_signed_def split: if_splits)

lemma int_width_simps [simp]:
  "int_width (Suc 0) = 1" "int_width 1 = 1" "int_width 2 = 2" "int_width 4 = 4" "int_width 6 = 8"
  by (simp_all add: int_width_def)

lemma column_size:
  assumes "serial_type_for v = Inr st" and "body_for v st = Inr body"
  shows "body_size st = Inr (length body)"
  using assms
  by (cases v) (auto simp: serial_type_for_def body_for_def body_size_def bindR_eq_Inr_iff
      length_to_bytes_signed split: if_splits)

lemma be_one: "from_bytes_signed [0] = 0" "from_bytes_signed [1] = 1"
  by (simp_all add: from_bytes_signed_def be_nat_def)

lemma decode_cell_blob: "decode_cell mv data off (13 + 2 * k) k
    = Inr ((if mv then PView else PBytes) (pyslice data off (off + k)))"
  by (simp add: decode_cell_def)

lemma decode_cell_text: "decode_cell mv data off (12 + 2 * k) k
    = bindR (utf8_decode (pyslice data off (off + k))) (\<lambda>s. Inr (PStr s))"
  by (simp add: decode_cell_def)

lemma column_roundtrip:
  assumes st: "serial_type_for v = Inr st" and body: "body_for v st = Inr body"
    and data: "pyslice data off (off + length body) = body" and len: "off + length body \<le> length data"
  shows "decode_cell False data off st (length body) = Inr (stored v)"
proof (cases v)
  case (PInt i)
  then show ?thesis
    using st body data len
    by (auto simp: serial_type_for_def body_for_def decode_cell_def from_to_bytes_signed
        length_to_bytes_signed split: if_splits)
next
  case (PBool b)
  then show ?thesis
    using st body data by (auto simp: serial_type_for_def body_for_def decode_cell_def be_one)
next
  case (PFloat w)
  then have "body = be_bytes 8 (unat w)" "st = 7"
    using st body by (auto simp: serial_type_for_def body_for_def)
  moreover have "unat w < 256 ^ 8" using unsigned_less [of w, where ?'a = nat] by simp
  ultimately show ?thesis
    using PFloat data len by (simp add: decode_cell_def unpack_from_ok)
next
  case (PStr s)
  then show ?thesis
    using st body data
    by (auto simp: serial_type_for_def body_for_def bindR_eq_Inr_iff decode_cell_text utf8_roundtrip)
next
  case (PDatetime t)
  then show ?thesis
    using st body data
    by (auto simp: serial_type_for_def body_for_def bindR_eq_Inr_iff decode_cell_text utf8_roundtrip)
next
  case (PDate t)
  then show ?thesis
    using st body data
    by (auto simp: serial_type_for_def body_for_def bindR_eq_Inr_iff decode_cell_text utf8_roundtrip)
qed (use st body data in \<open>auto simp: serial_type_for_def body_for_def decode_cell_blob,
      auto simp: decode_cell_def\<close>)

section \<open>Round trip of a record\<close>

lemma pyslice_drop: "pyslice data off (off + k) = take k (drop off data)"
  by (simp add: pyslice_def)

lemma decode_body_roundtrip:
  assumes "mapR serial_type_for values = Inr sts"
    and "mapR (\<lambda>(v, st). body_for v st) (zip values sts) = Inr bodies"
    and "drop off data = concat bodies @ post" and "off \<le> length data"
  shows "decode_body False data off sts = Inr (map stored values, off + length (concat bodies))"
  using assms
proof (induction "values" arbitrary: sts bodies off)
  case (Cons v vs)
  then obtain st sts' body bodies' where
    st: "serial_type_for v = Inr st" and sts': "mapR serial_type_for vs = Inr sts'" and s: "sts = st # sts'"
    and body: "body_for v st = Inr body"
    and bodies': "mapR (\<lambda>(v, st). body_for v st) (zip vs sts') = Inr bodies'" and b: "bodies = body # bodies'"
    by (auto simp: bindR_eq_Inr_iff)
  have d: "drop off data = body @ concat bodies' @ post" using Cons.prems(3) b by simp
  have "length (drop off data) = length body + length (concat bodies' @ post)" by (simp add: d)
  then have len: "off + length body \<le> length data" using Cons.prems(4) by simp
  have "drop (off + length body) data = drop (length body) (drop off data)"
    by (simp add: add.commute)
  then have "drop (off + length body) data = concat bodies' @ post" by (simp add: d)
  from Cons.IH [OF sts' bodies' this len] have IH: "decode_body False data (off + length body) sts'
    = Inr (map stored vs, off + length body + length (concat bodies'))" .
  have "decode_cell False data off st (length body) = Inr (stored v)"
    using column_roundtrip [OF st body, of data off] len d by (simp add: pyslice_drop)
  with IH show ?case by (simp add: s b column_size [OF st body])
qed simp

lemma decode_types_roundtrip:
  assumes "drop off data = concat (map (\<lambda>st. encode_varint (int st)) sts) @ post"
    and "\<forall>st \<in> set sts. st < 2 ^ 64"
  shows "decode_types data off (off + length (concat (map (\<lambda>st. encode_varint (int st)) sts))) = Inr sts"
  using assms
proof (induction sts arbitrary: off)
  case Nil
  then show ?case by (simp add: decode_types.simps)
next
  case (Cons st sts)
  let ?e = "encode_varint (int st)"
  have d: "drop off data = ?e @ (concat (map (\<lambda>st. encode_varint (int st)) sts) @ post)"
    using Cons.prems(1) by simp
  then have v: "decode_varint data off = Inr (st, length ?e)"
    using Cons.prems(2) by (simp add: decode_encode_varint nat_mod_distrib)
  have "drop (off + length ?e) data = drop (length ?e) (drop off data)" by (simp add: add.commute)
  then have "drop (off + length ?e) data = concat (map (\<lambda>st. encode_varint (int st)) sts) @ post"
    by (simp add: d)
  from Cons.IH [OF this] Cons.prems(2)
  have "decode_types data (off + length ?e)
      (off + length ?e + length (concat (map (\<lambda>st. encode_varint (int st)) sts))) = Inr sts" by simp
  then show ?case
    using v length_encode_varint_bounds(1) [of "int st"]
    by (subst decode_types.simps) (auto simp: add.assoc)
qed

definition header_fits :: "nat \<Rightarrow> bool" where
  \<comment> \<open>counting the size field does not make it longer, for type codes of this length\<close>
  "header_fits tlen \<longleftrightarrow> varint_len (int (tlen + varint_len (int (tlen + 1)))) = varint_len (int (tlen + 1))"

lemma header_size_loop_fits:
  assumes "header_fits tlen"
  shows "header_size_loop 3 tlen [] = encode_varint (int (varint_len (int (tlen + 1)) + tlen))"
    and "length (header_size_loop 3 tlen []) = varint_len (int (tlen + 1))"
proof -
  have one: "length (encode_varint 0) = 1" by (simp add: length_encode_varint varint_len_def)
  show eq: "header_size_loop 3 tlen [] = encode_varint (int (varint_len (int (tlen + 1)) + tlen))"
    using assms
    by (simp add: numeral_3_eq_3 one Let_def length_encode_varint header_fits_def add.commute)
  show "length (header_size_loop 3 tlen []) = varint_len (int (tlen + 1))"
    using assms unfolding eq by (simp add: length_encode_varint header_fits_def add.commute)
qed

lemma header_fits_small: "tlen < 16382 \<Longrightarrow> header_fits tlen"
  by (auto simp: header_fits_def varint_len_def)

lemma type_codes_length: "length (concat (map (\<lambda>st. encode_varint (int st)) sts)) \<le> 9 * length sts"
proof (induction sts)
  case (Cons st sts)
  then show ?case using length_encode_varint_bounds(2) [of "int st"] by simp
qed simp

lemma body_size_bound: "body_size st = Inr k \<Longrightarrow> st \<le> 14 + 2 * k"
  by (auto simp: body_size_def split: if_splits)

lemma column_bounds:
  assumes "mapR serial_type_for values = Inr sts"
    and "mapR (\<lambda>(v, st). body_for v st) (zip values sts) = Inr bodies"
  shows "\<forall>st \<in> set sts. st \<le> 14 + 2 * length (concat bodies)"
  using assms
proof (induction "values" arbitrary: sts bodies)
  case (Cons v vs)
  then obtain st sts' body bodies' where
    st: "serial_type_for v = Inr st" and sts': "mapR serial_type_for vs = Inr sts'" and s: "sts = st # sts'"
    and body: "body_for v st = Inr body"
    and bodies': "mapR (\<lambda>(v, st). body_for v st) (zip vs sts') = Inr bodies'" and b: "bodies = body # bodies'"
    by (auto simp: bindR_eq_Inr_iff)
  have "st \<le> 14 + 2 * length body" by (rule body_size_bound [OF column_size [OF st body]])
  moreover have "\<forall>st \<in> set sts'. st \<le> 14 + 2 * length (concat bodies')"
    by (rule Cons.IH [OF sts' bodies'])
  ultimately show ?case by (auto simp: s b)
qed simp

lemma encode_record_cases:
  assumes "encode_record values = Inr enc"
  obtains sts bodies where
    "mapR serial_type_for values = Inr sts"
    "mapR (\<lambda>(v, st). body_for v st) (zip values sts) = Inr bodies"
    "enc = header_size_loop 3 (length (concat (map (\<lambda>st. encode_varint (int st)) sts))) []
       @ concat (map (\<lambda>st. encode_varint (int st)) sts) @ concat bodies"
  using assms by (auto simp: encode_record_def Let_def bindR_eq_Inr_iff)

lemma decode_record_parts:
  assumes h: "drop off data = encode_varint (int hsize) @ tail" and hs: "hsize < 2 ^ 64"
    and types: "decode_types data (off + length (encode_varint (int hsize))) (off + hsize) = Inr sts"
    and body: "decode_body False data (off + hsize) sts = Inr (vs, fin)"
  shows "decode_record data off = Inr (vs, fin - off)"
proof -
  have "decode_varint data off = Inr (hsize, length (encode_varint (int hsize)))"
    using h hs by (simp add: decode_encode_varint nat_mod_distrib)
  then show ?thesis
    using types body by (simp add: decode_record_def decode_header_def)
qed

lemma record_roundtrip_gen:
  assumes enc: "mapR serial_type_for values = Inr sts"
      "mapR (\<lambda>(v, st). body_for v st) (zip values sts) = Inr bodies"
    and tc: "tc = concat (map (\<lambda>st. encode_varint (int st)) sts)"
    and e: "enc = header_size_loop 3 (length tc) [] @ tc @ concat bodies"
    and fits: "header_fits (length tc)" and len: "length enc < 2 ^ 62"
  shows "decode_record (pre @ enc @ post) (length pre) = Inr (map stored values, length enc)"
proof -
  let ?h = "header_size_loop 3 (length tc) []" and ?data = "pre @ enc @ post"
  define hsize where "hsize = length ?h + length tc"
  have h: "?h = encode_varint (int hsize)"
    using header_size_loop_fits [OF fits] by (simp add: hsize_def)
  have hs: "hsize < 2 ^ 64" using len e by (simp add: hsize_def)
  have d: "drop (length pre) ?data = encode_varint (int hsize) @ tc @ concat bodies @ post"
    by (simp add: e h)
  have small: "\<forall>st \<in> set sts. st < 2 ^ 64"
    using column_bounds [OF enc] len e by fastforce
  have d1: "drop (length pre + length ?h) ?data = tc @ concat bodies @ post" by (simp add: e)
  have types: "decode_types ?data (length pre + length (encode_varint (int hsize))) (length pre + hsize) = Inr sts"
    unfolding h [symmetric]
    using decode_types_roundtrip [OF d1 [unfolded tc] small] by (simp add: hsize_def tc add.assoc)
  have d2: "drop (length pre + hsize) ?data = concat bodies @ post" by (simp add: e hsize_def)
  have "decode_body False ?data (length pre + hsize) sts
      = Inr (map stored values, length pre + hsize + length (concat bodies))"
    by (rule decode_body_roundtrip [OF enc d2]) (simp add: e hsize_def)
  from decode_record_parts [OF d hs types this] show ?thesis by (simp add: e hsize_def)
qed

lemma small_record_roundtrip:
  assumes "encode_record values = Inr enc" and "length values \<le> 1820" and "length enc < 2 ^ 62"
  shows "decode_record (pre @ enc @ post) (length pre) = Inr (map stored values, length enc)"
proof -
  obtain sts bodies where
    st: "mapR serial_type_for values = Inr sts" and
    b: "mapR (\<lambda>(v, st). body_for v st) (zip values sts) = Inr bodies" and
    e: "enc = header_size_loop 3 (length (concat (map (\<lambda>st. encode_varint (int st)) sts))) []
       @ concat (map (\<lambda>st. encode_varint (int st)) sts) @ concat bodies"
    using assms(1) by (rule encode_record_cases)
  have "header_fits (length (concat (map (\<lambda>st. encode_varint (int st)) sts)))"
    using type_codes_length [of sts] mapR_length [OF st] assms(2) by (intro header_fits_small) simp
  from record_roundtrip_gen [OF st b refl e this assms(3)] show ?thesis .
qed

text \<open>
  C23. Every record of at most 1820 columns that \<open>encode_record\<close> accepts is read back by
  \<open>decode_record\<close> from any position of any buffer: the same columns (booleans as 0 and 1, dates
  as their ISO text, views as bytes) and exactly the bytes that were written.
\<close>

theorem record_roundtrip:
  assumes "encode_record values = Inr enc" and "length values \<le> 1820" and "length enc < 2 ^ 62"
  shows "decode_record (pre @ enc @ post) (length pre) = Inr (map stored values, length enc)"
  by (rule small_record_roundtrip [OF assms])

lemma header_size_small: "tlen < 127 \<Longrightarrow> header_size_loop 3 tlen [] = [of_nat (tlen + 1)]"
  using header_size_loop_fits(1) [OF header_fits_small [of tlen]]
  by (simp add: varint_len_def encode_varint_small)

definition example_row :: "pyval list" where
  "example_row = [PInt 300, PNull, PBool True, PStr [104, 233], PBytes [7, 8]]"
definition example_record :: bytes where
  "example_record = [6, 2, 0, 1, 18, 17, 1, 44, 1, 104, 195, 169, 7, 8]"

lemma encode_example: "encode_record example_row = Inr example_record"
  by (simp add: example_row_def example_record_def encode_record_def serial_type_for_def body_for_def
      utf8_encode_def utf8_char_def encode_varint_small to_bytes_signed_def header_size_small
      be_bytes_numeral int_width_def Let_def)
theorem record_roundtrip_witness:
  "encode_record example_row = Inr example_record \<and>
   decode_record ([1] @ example_record @ [2]) (length [1 :: byte])
     = Inr (map stored example_row, length example_record)"
proof -
  have "length example_row \<le> 1820" "length example_record < 2 ^ 62"
    by (simp_all add: example_row_def example_record_def)
  from record_roundtrip [OF encode_example this] encode_example show ?thesis by blast
qed

section \<open>Where the header size is wrong\<close>

lemma header_16382: "header_size_loop 3 16382 [] = encode_varint 16384"
  by (simp add: numeral_3_eq_3 Let_def length_encode_varint varint_len_def)

text \<open>
  C33. The loop of \<open>encode_record\<close> recomputes the same candidate in each of its three passes,
  so it does not reach a fixpoint when counting the size field makes that field longer: a row of
  16382 NULL columns is written with a header size of one byte too few, and \<open>decode_record\<close>
  returns one column fewer and stops one byte short.
\<close>

theorem record_header_off_by_one:
  "\<exists>enc. encode_record (replicate 16382 PNull) = Inr enc \<and>
         decode_record enc 0 = Inr (replicate 16381 PNull, length enc - 1)"
proof -
  have z: "encode_varint 0 = [0]" by (simp add: encode_varint_def varint_len_def and_masks)
  have ser: "mapR serial_type_for (replicate n PNull) = Inr (replicate n 0)" for n
    by (induction n) (simp_all add: serial_type_for_def)
  have bod: "mapR (\<lambda>(v, st). body_for v st) (zip (replicate n PNull) (replicate n 0)) = Inr (replicate n [])" for n
    by (induction n) (simp_all add: body_for_def)
  have cc: "concat (map (\<lambda>st. encode_varint (int st)) (replicate n 0)) = replicate n 0" for n
    by (induction n) (simp_all add: z)
  have nil: "concat (replicate n ([] :: bytes)) = []" for n by (induction n) simp_all
  define enc :: bytes where "enc = encode_varint 16384 @ replicate 16382 0"
  have "encode_record (replicate 16382 PNull) = Inr enc"
    unfolding encode_record_def ser bindR_simps Let_def cc bod nil enc_def length_replicate header_16382
    by simp
  moreover have "decode_record enc 0 = Inr (replicate 16381 PNull, length enc - 1)"
  proof -
    have l: "length (encode_varint 16384) = 3"
      by (simp add: length_encode_varint varint_len_def)
    have d: "drop 0 enc = encode_varint (int 16384) @ replicate 16382 0" by (simp add: enc_def)
    have r: "replicate 16382 (0 :: byte) = replicate 16381 0 @ [0]"
      by (simp only: replicate_append_same flip: replicate_Suc) simp
    have "drop 3 enc = concat (map (\<lambda>st. encode_varint (int st)) (replicate 16381 0)) @ [0]"
      unfolding cc using l by (simp add: enc_def r)
    from decode_types_roundtrip [OF this, unfolded cc]
    have types: "decode_types enc (0 + length (encode_varint (int 16384))) (0 + 16384) = Inr (replicate 16381 0)"
      by (simp add: l)
    have body: "decode_body False enc off (replicate n 0) = Inr (replicate n PNull, off)" for off n
      by (induction n arbitrary: off) (simp_all add: body_size_def decode_cell_def)
    from decode_record_parts [OF d _ types body] show ?thesis by (simp add: enc_def l)
  qed
  ultimately show ?thesis by blast
qed

section \<open>Views and projections agree with the full decoder\<close>

fun as_view :: "pyval \<Rightarrow> pyval" where
  "as_view (PBytes bs) = PView bs"
| "as_view v = v"

lemma decode_cell_view:
  "decode_cell True data off st sz = bindR (decode_cell False data off st sz) (\<lambda>v. Inr (as_view v))"
  by (auto simp: decode_cell_def bindR_def split: sum.splits)

lemma decode_body_view:
  "decode_body True data off sts
     = bindR (decode_body False data off sts) (\<lambda>(vs, e). Inr (map as_view vs, e))"
proof (induction sts arbitrary: off)
  case (Cons st sts)
  show ?case
  proof (cases "body_size st")
    case (Inr sz)
    show ?thesis
    proof (cases "decode_cell False data off st sz")
      case (Inr v)
      then show ?thesis
        using \<open>body_size st = Inr sz\<close> Cons
        by (cases "decode_body False data (off + sz) sts") (auto simp: decode_cell_view)
    qed (simp add: Inr decode_cell_view)
  qed simp
qed simp

lemma record_views:
  "decode_record_views True data off
     = bindR (decode_record data off) (\<lambda>(vs, n). Inr (map as_view vs, n))
   \<and> decode_record_views False data off = decode_record data off"
proof (cases "decode_header data off")
  case (Inr h)
  then show ?thesis
    by (cases h, cases "decode_body False data (snd h) (fst h)")
      (auto simp: decode_record_views_def decode_record_def decode_body_view)
qed (simp add: decode_record_views_def decode_record_def)

text \<open>
  The zero-copy decoder is a drop-in replacement: on any input, well-formed or not,
  \<open>decode_record_views\<close> raises exactly when \<open>decode_record\<close> raises, with the same exception, and
  otherwise returns the same columns and the same length, with blobs as views of equal contents.
\<close>

theorem decode_views_agree:
  "decode_record_views True data off
     = bindR (decode_record data off) (\<lambda>(vs, n). Inr (map as_view vs, n))
   \<and> decode_record_views False data off = decode_record data off"
  by (rule record_views)

lemma decode_projected_body_agrees:
  "decode_body mv data off sts = Inr (vs, e) \<Longrightarrow>
   decode_projected_body mv data off cols i sts
     = Inr (filter (\<lambda>(j, _). j \<in> cols) (enumerate i vs), e)"
proof (induction mv data off cols i sts arbitrary: vs rule: decode_projected_body.induct)
  case (2 mv data off cols i st sts)
  then show ?case by (auto simp: bindR_eq_Inr_iff)
qed simp

lemma decode_body_sizes: "decode_body mv data off sts = Inr (vs, e) \<Longrightarrow> length vs = length sts"
  by (induction mv data off sts arbitrary: vs rule: decode_body.induct) (auto simp: bindR_eq_Inr_iff)

text \<open>
  C34. Projection agrees with full decoding: whenever \<open>decode_record\<close> accepts a record, asking
  \<open>decode_record_projected\<close> for a set of columns of the same buffer returns exactly those columns
  of the full result under their positions, and the same length.
\<close>

theorem decode_projected_agrees:
  assumes "decode_record data off = Inr (vs, n)"
  shows "decode_record_projected False data off cols
           = Inr (filter (\<lambda>(j, _). j \<in> cols) (enumerate 0 vs), n)"
  using assms
  by (auto simp: decode_record_def decode_record_projected_def bindR_eq_Inr_iff
      decode_projected_body_agrees)

theorem decode_projected_agrees_witness:
  "decode_record_projected False ([1] @ example_record @ [2]) 1 {1, 2}
     = Inr ([(1, PNull), (2, PInt 1)], 14)"
proof -
  have "decode_record ([1] @ example_record @ [2]) (length [1 :: byte])
      = Inr (map stored example_row, length example_record)"
    by (rule small_record_roundtrip [OF encode_example])
      (simp_all add: example_row_def example_record_def)
  from decode_projected_agrees [OF this, of "{1, 2}"] show ?thesis
    by (simp add: example_row_def example_record_def)
qed

text \<open>
  A column that was not asked for is not decoded: the projection succeeds whatever the bytes of
  the other bodies are, as long as the serial types of the header have a size and the requested
  cells decode.
\<close>

theorem decode_projected_skips:
  assumes "decode_header data off = Inr (sts, header_end)"
    and "\<forall>st \<in> set sts. \<exists>sz. body_size st = Inr sz"
  shows "\<exists>n. decode_record_projected mv data off {} = Inr ([], n)"
proof -
  have "\<exists>e. decode_projected_body mv data o' {} i sts = Inr ([], e)" for o' i
    using assms(2)
  proof (induction sts arbitrary: o' i)
    case (Cons st sts)
    then obtain sz e where "body_size st = Inr sz"
      "decode_projected_body mv data (o' + sz) {} (i + 1) sts = Inr ([], e)" by fastforce
    then show ?case by simp
  qed simp
  then obtain e where "decode_projected_body mv data header_end {} 0 sts = Inr ([], e)" by blast
  then show ?thesis using assms(1) by (simp add: decode_record_projected_def)
qed

theorem decode_projected_skips_witness:
  "decode_header [4, 0, 18, 1, 0xFF, 0xFF] 0 = Inr ([0, 18, 1], 4) \<and>
   (\<exists>n. decode_record_projected False [4, 0, 18, 1, 0xFF, 0xFF] 0 {} = Inr ([], n))"
proof -
  have h: "decode_header [4, 0, 18, 1, 0xFF, 0xFF] 0 = Inr ([0, 18, 1], 4)"
    by (simp add: decode_header_def decode_varint_tail decode_types.simps)
  have "\<forall>st \<in> set [0, 18, 1]. \<exists>sz. body_size st = Inr sz" by (simp add: body_size_def)
  from decode_projected_skips [OF h this, of False] h show ?thesis by blast
qed

end
