(* ===== verification/SqlTypes.thy ===== *)
theory SqlTypes
  imports RecordCodec
begin

text \<open>
  \<open>sql/types.py\<close>: three-valued comparison and logic, on the Python values of \<open>pyval\<close>. The
  first section models what the operators use of Python: numeric comparison across \<open>bool\<close>,
  \<open>int\<close> and \<open>float\<close> (exact, as in CPython), ordering of strings, bytes and timestamps, the
  \<open>TypeError\<close> of every other pair, and truth values.
\<close>

section \<open>Python values\<close>

datatype pynum = NaN | NInf | Fin int | PInf

definition float_num :: "64 word \<Rightarrow> pynum" where
  \<comment> \<open>a double as an integral multiple of \<open>2 ^ -1074\<close>, the smallest subnormal\<close>
  "float_num w =
     (let e = unat w div 2 ^ 52 mod 2048; m = unat w mod 2 ^ 52; neg = (2 ^ 63 \<le> unat w) in
      if e = 2047 then (if m \<noteq> 0 then NaN else if neg then NInf else PInf)
      else let v = (if e = 0 then int m else int (2 ^ 52 + m) * 2 ^ (e - 1)) in Fin (if neg then - v else v))"

definition SCALE :: int where
  "SCALE = 2 ^ 1074"

lemma SCALE_pos [simp]: "0 < SCALE" "SCALE \<noteq> 0"
  by (simp_all add: SCALE_def)

fun num_of :: "pyval \<Rightarrow> pynum option" where
  "num_of (PBool b) = Some (Fin (of_bool b * SCALE))"
| "num_of (PInt i) = Some (Fin (i * SCALE))"
| "num_of (PFloat w) = Some (float_num w)"
| "num_of _ = None"

fun num_eq :: "pynum \<Rightarrow> pynum \<Rightarrow> bool" where
  "num_eq (Fin a) (Fin b) = (a = b)"
| "num_eq PInf PInf = True"
| "num_eq NInf NInf = True"
| "num_eq _ _ = False"

fun num_less :: "pynum \<Rightarrow> pynum \<Rightarrow> bool" where
  "num_less (Fin a) (Fin b) = (a < b)"
| "num_less NInf (Fin b) = True"
| "num_less NInf PInf = True"
| "num_less (Fin a) PInf = True"
| "num_less _ _ = False"

fun list_less :: "('a :: linorder) list \<Rightarrow> 'a list \<Rightarrow> bool" where
  \<comment> \<open>the order of Python sequences\<close>
  "list_less _ [] = False"
| "list_less [] (y # ys) = True"
| "list_less (x # xs) (y # ys) = (x < y \<or> x = y \<and> list_less xs ys)"

definition days_before_year :: "nat \<Rightarrow> nat" where
  "days_before_year y = (let k = y - 1 in k * 365 + k div 4 - k div 100 + k div 400)"

definition leap :: "nat \<Rightarrow> bool" where
  "leap y \<longleftrightarrow> y mod 4 = 0 \<and> (y mod 100 \<noteq> 0 \<or> y mod 400 = 0)"

definition days_in_month :: "nat \<Rightarrow> nat \<Rightarrow> nat" where
  "days_in_month y m = (if m = 2 then (if leap y then 29 else 28) else if m \<in> {4, 6, 9, 11} then 30 else 31)"

definition ordinal :: "date \<Rightarrow> nat" where
  \<comment> \<open>\<open>date.toordinal\<close>\<close>
  "ordinal d = days_before_year (year d) + sum_list (map (days_in_month (year d)) [1..<month d]) + day d"

definition dt_micros :: "datetime \<Rightarrow> int" where
  \<comment> \<open>the wall clock in microseconds\<close>
  "dt_micros t = int ((((ordinal (dt_date t) * 24 + hour t) * 60 + minute t) * 60 + second t) * 1000000 + microsecond t)"

definition dt_instant :: "datetime \<Rightarrow> int" where
  "dt_instant t = dt_micros t - (case utcoffset t of None \<Rightarrow> 0 | Some off \<Rightarrow> off)"

definition dt_comparable :: "datetime \<Rightarrow> datetime \<Rightarrow> bool" where
  \<comment> \<open>both naive or both aware\<close>
  "dt_comparable a b \<longleftrightarrow> (utcoffset a = None) = (utcoffset b = None)"

fun blob_of :: "pyval \<Rightarrow> bytes option" where
  "blob_of (PBytes b) = Some b"
| "blob_of (PView b) = Some b"
| "blob_of _ = None"

definition py_eq :: "pyval \<Rightarrow> pyval \<Rightarrow> bool" where
  \<comment> \<open>\<open>a == b\<close>; objects of other classes are equal to nothing but themselves\<close>
  "py_eq a b =
     (case (num_of a, num_of b) of
        (Some x, Some y) \<Rightarrow> num_eq x y
      | _ \<Rightarrow>
        (case (blob_of a, blob_of b) of
           (Some x, Some y) \<Rightarrow> x = y
         | _ \<Rightarrow>
           (case (a, b) of
              (PStr x, PStr y) \<Rightarrow> x = y
            | (PDatetime x, PDatetime y) \<Rightarrow> dt_comparable x y \<and> dt_instant x = dt_instant y
            | (PDate x, PDate y) \<Rightarrow> x = y
            | (PNull, PNull) \<Rightarrow> True
            | _ \<Rightarrow> False)))"

definition py_order :: "(pynum \<Rightarrow> pynum \<Rightarrow> bool) \<Rightarrow> (pystr \<Rightarrow> pystr \<Rightarrow> bool) \<Rightarrow> (bytes \<Rightarrow> bytes \<Rightarrow> bool) \<Rightarrow> (int \<Rightarrow> int \<Rightarrow> bool) \<Rightarrow>
    pyval \<Rightarrow> pyval \<Rightarrow> bool res" where
  \<comment> \<open>an ordering operator on the pairs that have one; a \<open>memoryview\<close> has none\<close>
  "py_order on_num on_str on_bytes on_int a b =
     (case (num_of a, num_of b) of
        (Some x, Some y) \<Rightarrow> Inr (on_num x y)
      | _ \<Rightarrow>
        (case (a, b) of
           (PStr x, PStr y) \<Rightarrow> Inr (on_str x y)
         | (PBytes x, PBytes y) \<Rightarrow> Inr (on_bytes x y)
         | (PDatetime x, PDatetime y) \<Rightarrow>
             (if dt_comparable x y then Inr (on_int (dt_instant x) (dt_instant y)) else Inl TypeError)
         | (PDate x, PDate y) \<Rightarrow> Inr (on_int (int (ordinal x)) (int (ordinal y)))
         | _ \<Rightarrow> Inl TypeError))"

definition py_less :: "pyval \<Rightarrow> pyval \<Rightarrow> bool res" where
  "py_less = py_order num_less list_less list_less (<)"

definition py_less_eq :: "pyval \<Rightarrow> pyval \<Rightarrow> bool res" where
  "py_less_eq = py_order (\<lambda>x y. num_less x y \<or> num_eq x y) (\<lambda>x y. list_less x y \<or> x = y) (\<lambda>x y. list_less x y \<or> x = y) (\<le>)"

fun py_truth :: "pyval \<Rightarrow> bool" where
  \<comment> \<open>\<open>bool(a)\<close>\<close>
  "py_truth PNull = False"
| "py_truth (PBool b) = b"
| "py_truth (PInt i) = (i \<noteq> 0)"
| "py_truth (PFloat w) = (float_num w \<noteq> Fin 0)"
| "py_truth (PStr s) = (s \<noteq> [])"
| "py_truth (PBytes b) = (b \<noteq> [])"
| "py_truth (PView b) = (b \<noteq> [])"
| "py_truth (PDatetime t) = True"
| "py_truth (PDate d) = True"
| "py_truth POther = True"

lemma py_int [simp]: "py_eq (PInt a) (PInt b) \<longleftrightarrow> a = b" "py_less (PInt a) (PInt b) = Inr (a < b)" "py_less_eq (PInt a) (PInt b) = Inr (a \<le> b)"
  by (auto simp: py_eq_def py_less_def py_less_eq_def py_order_def)

lemma py_str [simp]: "py_eq (PStr a) (PStr b) \<longleftrightarrow> a = b" "py_less (PStr a) (PStr b) = Inr (list_less a b)"
    "py_less_eq (PStr a) (PStr b) = Inr (list_less a b \<or> a = b)"
  by (simp_all add: py_eq_def py_less_def py_less_eq_def py_order_def)

lemma py_int_str [simp]: "\<not> py_eq (PInt i) (PStr s)" "\<not> py_eq (PStr s) (PInt i)"
    "py_less (PInt i) (PStr s) = Inl TypeError" "py_less (PStr s) (PInt i) = Inl TypeError"
  by (simp_all add: py_eq_def py_less_def py_order_def)

section \<open>Three-valued operators\<close>

definition sql_compare :: "pystr \<Rightarrow> pyval \<Rightarrow> pyval \<Rightarrow> pyval res" where
  "sql_compare op a b =
     (if a = PNull \<or> b = PNull then Inr PNull
      else if op = pystr_of ''='' then Inr (PBool (py_eq a b))
      else if op = pystr_of ''!='' then Inr (PBool (\<not> py_eq a b))
      else if op = pystr_of ''<'' then bindR (py_less a b) (\<lambda>r. Inr (PBool r))
      else if op = pystr_of ''<='' then bindR (py_less_eq a b) (\<lambda>r. Inr (PBool r))
      else if op = pystr_of ''>'' then bindR (py_less b a) (\<lambda>r. Inr (PBool r))
      else if op = pystr_of ''>='' then bindR (py_less_eq b a) (\<lambda>r. Inr (PBool r))
      else Inl ValueError)"

definition sql_is_null :: "pyval \<Rightarrow> bool" where
  "sql_is_null a \<longleftrightarrow> a = PNull"

definition sql_and :: "pyval \<Rightarrow> pyval \<Rightarrow> pyval" where
  "sql_and a b =
     (if a \<noteq> PNull \<and> \<not> py_truth a \<or> b \<noteq> PNull \<and> \<not> py_truth b then PBool False
      else if a = PNull \<or> b = PNull then PNull
      else PBool (py_truth a \<and> py_truth b))"

definition sql_or :: "pyval \<Rightarrow> pyval \<Rightarrow> pyval" where
  "sql_or a b =
     (if a \<noteq> PNull \<and> py_truth a \<or> b \<noteq> PNull \<and> py_truth b then PBool True
      else if a = PNull \<or> b = PNull then PNull
      else PBool (py_truth a \<or> py_truth b))"

definition sql_not :: "pyval \<Rightarrow> pyval" where
  "sql_not a = (if a = PNull then PNull else PBool (\<not> py_truth a))"

section \<open>Kleene's logic\<close>

text \<open>The reference: truth values as a chain, with conjunction as minimum and disjunction as maximum.\<close>

datatype truth = False3 | Unknown | True3

fun rank :: "truth \<Rightarrow> nat" where
  "rank False3 = 0" | "rank Unknown = 1" | "rank True3 = 2"

instantiation truth :: linorder
begin

definition less_eq_truth :: "truth \<Rightarrow> truth \<Rightarrow> bool" where "less_eq_truth a b \<longleftrightarrow> rank a \<le> rank b"

definition less_truth :: "truth \<Rightarrow> truth \<Rightarrow> bool" where "less_truth a b \<longleftrightarrow> rank a < rank b"

instance
proof
  fix a b c :: truth
  show "a < b \<longleftrightarrow> a \<le> b \<and> \<not> b \<le> a" "a \<le> a" "a \<le> b \<or> b \<le> a" by (auto simp: less_eq_truth_def less_truth_def)
  show "a \<le> b \<Longrightarrow> b \<le> c \<Longrightarrow> a \<le> c" by (simp add: less_eq_truth_def)
  show "a \<le> b \<Longrightarrow> b \<le> a \<Longrightarrow> a = b" by (cases a; cases b) (simp_all add: less_eq_truth_def)
qed

end

fun negate :: "truth \<Rightarrow> truth" where
  "negate False3 = True3" | "negate Unknown = Unknown" | "negate True3 = False3"

definition truth_of :: "pyval \<Rightarrow> truth" where
  "truth_of v = (if v = PNull then Unknown else if py_truth v then True3 else False3)"

lemma truth_of_simps [simp]: "truth_of PNull = Unknown" "truth_of (PBool b) = (if b then True3 else False3)"
  by (simp_all add: truth_of_def)

lemma truth_chain [simp]: "False3 \<le> t" "t \<le> True3" "Unknown \<le> False3 \<longleftrightarrow> False" "True3 \<le> Unknown \<longleftrightarrow> False" "True3 \<le> False3 \<longleftrightarrow> False"
  by (cases t; simp add: less_eq_truth_def)+

lemma sql_logic: "truth_of (sql_and a b) = min (truth_of a) (truth_of b)" "truth_of (sql_or a b) = max (truth_of a) (truth_of b)"
    "truth_of (sql_not a) = negate (truth_of a)"
  by (auto simp: sql_and_def sql_or_def sql_not_def truth_of_def min_def max_def)

lemma sql_logic_type: "sql_and a b \<in> insert PNull (range PBool)" "sql_or a b \<in> insert PNull (range PBool)"
    "sql_not a \<in> insert PNull (range PBool)" "sql_compare op a b = Inr v \<Longrightarrow> v \<in> insert PNull (range PBool)"
  by (auto simp: sql_and_def sql_or_def sql_not_def sql_compare_def bindR_eq_Inr_iff split: if_splits)

text \<open>
  C40. The SQL connectives are Kleene's three-valued logic. On all values, NULL, integers used as
  truth values and everything else Python can test, AND is the minimum, OR the maximum and NOT the
  reversal of the chain false, unknown, true; so De Morgan's laws and distributivity hold for
  predicates with NULLs.
\<close>

theorem sql_connectives_kleene:
  "truth_of (sql_and a b) = min (truth_of a) (truth_of b) \<and> truth_of (sql_or a b) = max (truth_of a) (truth_of b) \<and>
   truth_of (sql_not a) = negate (truth_of a) \<and>
   sql_not (sql_and a b) = sql_or (sql_not a) (sql_not b) \<and> sql_not (sql_or a b) = sql_and (sql_not a) (sql_not b) \<and>
   sql_and a (sql_or b c) = sql_or (sql_and a b) (sql_and a c) \<and> sql_or a (sql_and b c) = sql_and (sql_or a b) (sql_or a c)"
  by (auto simp: sql_logic) (auto simp: sql_and_def sql_or_def sql_not_def)

end
