(* ===== verification/SqlExpr.thy ===== *)
theory SqlExpr
  imports SqlTypes
begin

text \<open>
  Expressions of \<open>sql/ast_nodes.py\<close> and their evaluation in \<open>sql/executor.py\<close>:
  \<open>eval_expr\<close>, the LIKE matcher, comparison affinity, \<open>datetime()\<close>, the columns an
  expression reads and the binding of placeholders. What the evaluator takes from the standard library
  beyond the language proper (the text of a float or an object, \<open>datetime.fromisoformat\<close>, the
  case folding and word characters of \<open>re\<close> outside ASCII, \<open>%Y\<close> of \<open>strftime\<close>) is the record
  \<open>pylib\<close>, an argument of the definitions.
\<close>

section \<open>Syntax\<close>

datatype expr =
    Literal pyval
  | NamedParam pystr
  | ColumnRef pystr
  | ExcludedRef pystr
  | BinOp pystr expr expr
  | UnaryOp pystr expr
  | IsNull expr bool
  | InList expr "expr list"
  | Coalesce "expr list"
  | FuncCall pystr "expr list"

record pylib =
  lib_str :: "pyval \<Rightarrow> pystr" \<comment> \<open>\<open>str(v)\<close> of a value that is not \<open>str\<close>, \<open>int\<close> or \<open>bool\<close>\<close>
  lib_fromiso :: "pystr \<Rightarrow> datetime option" \<comment> \<open>\<open>datetime.fromisoformat\<close>, \<open>None\<close> for its \<open>ValueError\<close>\<close>
  lib_nocase :: "nat \<Rightarrow> nat \<Rightarrow> bool" \<comment> \<open>two code points \<open>re.IGNORECASE\<close> identifies, one of them outside ASCII\<close>
  lib_year :: "nat \<Rightarrow> pystr" \<comment> \<open>\<open>%Y\<close> of \<open>strftime\<close>\<close>
  lib_float :: "pystr \<Rightarrow> 64 word option" \<comment> \<open>\<open>float(s)\<close> as a bit pattern, \<open>None\<close> for its \<open>ValueError\<close>\<close>
  lib_word :: "nat \<Rightarrow> bool" \<comment> \<open>the characters outside ASCII that match \<open>\w\<close>\<close>
  lib_lower :: "pystr \<Rightarrow> pystr" \<comment> \<open>\<open>str.lower\<close> of a text with a character outside ASCII\<close>

definition plain_lib :: pylib where
  \<comment> \<open>an instance for examples: four-digit years, no ISO dates, ASCII letters only\<close>
  "plain_lib = \<lparr>lib_str = (\<lambda>v. []), lib_fromiso = (\<lambda>s. None), lib_nocase = (\<lambda>c d. False), lib_year = (\<lambda>y. decimal 4 y), lib_float = (\<lambda>s. None),
     lib_word = (\<lambda>c. False), lib_lower = (\<lambda>s. s)\<rparr>"

type_synonym row = "(pystr \<times> pyval) list" \<comment> \<open>a \<open>dict\<close>, in insertion order\<close>

section \<open>Python text\<close>

definition upper_char :: "nat \<Rightarrow> pystr" where
  \<comment> \<open>one character of \<open>str.upper\<close>: exact for every character whose upper case is ASCII\<close>
  "upper_char c =
     (if 97 \<le> c \<and> c \<le> 122 then [c - 32]
      else if c = 0x131 then pystr_of ''I''
      else if c = 0x17F then pystr_of ''S''
      else if c = 0xDF then pystr_of ''SS''
      else if c = 0xFB00 then pystr_of ''FF''
      else if c = 0xFB01 then pystr_of ''FI''
      else if c = 0xFB02 then pystr_of ''FL''
      else if c = 0xFB03 then pystr_of ''FFI''
      else if c = 0xFB04 then pystr_of ''FFL''
      else if c = 0xFB05 \<or> c = 0xFB06 then pystr_of ''ST''
      else [c])"

definition upper :: "pystr \<Rightarrow> pystr" where
  \<comment> \<open>\<open>str.upper\<close>, as far as comparison with an ASCII word can see it\<close>
  "upper s = concat (map upper_char s)"

definition lower :: "pystr \<Rightarrow> pystr" where
  \<comment> \<open>\<open>str.lower\<close> on ASCII letters\<close>
  "lower s = map (\<lambda>c. if 65 \<le> c \<and> c \<le> 90 then c + 32 else c) s"

definition py_lower :: "pylib \<Rightarrow> pystr \<Rightarrow> pystr" where
  \<comment> \<open>\<open>str.lower\<close>\<close>
  "py_lower lib s = (if list_all (\<lambda>c. c < 128) s then lower s else lib_lower lib s)"

definition is_digit :: "nat \<Rightarrow> bool" where
  "is_digit c \<longleftrightarrow> 48 \<le> c \<and> c \<le> 57"

definition is_space :: "nat \<Rightarrow> bool" where
  \<comment> \<open>\<open>str.isspace\<close>\<close>
  "is_space c \<longleftrightarrow> 9 \<le> c \<and> c \<le> 13 \<or> 28 \<le> c \<and> c \<le> 32 \<or>
     c \<in> {0x85, 0xA0, 0x1680, 0x2028, 0x2029, 0x202F, 0x205F, 0x3000} \<or> 0x2000 \<le> c \<and> c \<le> 0x200A"

definition strip :: "pystr \<Rightarrow> pystr" where
  "strip s = rev (dropWhile is_space (rev (dropWhile is_space s)))"

fun digits_value :: "nat \<Rightarrow> pystr \<Rightarrow> nat option" where
  \<comment> \<open>digits with single underscores between them, after a digit; the value so far\<close>
  "digits_value acc [] = Some acc"
| "digits_value acc (c # s) =
     (if is_digit c then digits_value (acc * 10 + (c - 48)) s
      else if c = 95 then (case s of d # s' \<Rightarrow> if is_digit d then digits_value (acc * 10 + (d - 48)) s' else None | [] \<Rightarrow> None)
      else None)"

definition py_int_of :: "pystr \<Rightarrow> int option" where
  \<comment> \<open>\<open>int(s)\<close> with ASCII digits, \<open>None\<close> for its \<open>ValueError\<close>; more than 4300 digits are refused\<close>
  "py_int_of s =
     (let t = strip s;
          (neg, body) = (case t of c # r \<Rightarrow> if c = 45 then (True, r) else if c = 43 then (False, r) else (False, t) | [] \<Rightarrow> (False, [])) in
      case body of
        [] \<Rightarrow> None
      | c # r \<Rightarrow>
          if \<not> is_digit c \<or> 4300 < length (filter is_digit body) then None
          else map_option (\<lambda>n. if neg then - int n else int n) (digits_value (c - 48) r))"

fun nat_digits :: "nat \<Rightarrow> pystr" where
  "nat_digits n = (if n < 10 then [48 + n] else nat_digits (n div 10) @ [48 + n mod 10])"

declare nat_digits.simps [simp del]

definition int_text :: "int \<Rightarrow> pystr" where
  \<comment> \<open>\<open>str(i)\<close>\<close>
  "int_text i = (if i < 0 then [45] else []) @ nat_digits (nat \<bar>i\<bar>)"

definition py_str :: "pylib \<Rightarrow> pyval \<Rightarrow> pystr" where
  "py_str lib v =
     (case v of
        PStr s \<Rightarrow> s
      | PInt i \<Rightarrow> int_text i
      | PBool b \<Rightarrow> pystr_of (if b then ''True'' else ''False'')
      | _ \<Rightarrow> lib_str lib v)"

fun replace_char :: "nat \<Rightarrow> pystr \<Rightarrow> pystr \<Rightarrow> pystr" where
  "replace_char c t [] = []"
| "replace_char c t (x # s) = (if x = c then t else [x]) @ replace_char c t s"

section \<open>\<open>datetime()\<close>\<close>

fun month_of :: "nat \<Rightarrow> nat \<Rightarrow> nat list \<Rightarrow> nat \<times> nat" where
  \<comment> \<open>month and day of a day of the year (from 0) among the months from \<open>m\<close> on\<close>
  "month_of m n [] = (m, n + 1)"
| "month_of m n (k # ks) = (if n < k then (m, n + 1) else month_of (m + 1) (n - k) ks)"

definition from_ordinal :: "nat \<Rightarrow> date" where
  \<comment> \<open>\<open>date.fromordinal\<close>\<close>
  "from_ordinal ord =
     (let n = ord - 1;
          n400 = n div 146097; n1 = n mod 146097;
          n100 = n1 div 36524; n2 = n1 mod 36524;
          n4 = n2 div 1461; n3 = n2 mod 1461;
          ny = n3 div 365; n5 = n3 mod 365;
          y = n400 * 400 + n100 * 100 + n4 * 4 + ny + 1 in
      if ny = 4 \<or> n100 = 4 then \<lparr>year = y - 1, month = 12, day = 31\<rparr>
      else (case month_of 1 n5 (map (days_in_month y) [1..<12]) of (m, d) \<Rightarrow> \<lparr>year = y, month = m, day = d\<rparr>))"

definition to_utc :: "datetime \<Rightarrow> datetime res" where
  \<comment> \<open>\<open>astimezone(utc).replace(tzinfo=None)\<close> of an aware value; \<open>OverflowError\<close> outside the years 1 to 9999\<close>
  "to_utc t =
     (let us = dt_instant t; days = us div 86400000000; r = nat (us mod 86400000000) in
      if days < 1 \<or> 3652059 < days then Inl OverflowError
      else Inr \<lparr>dt_date = from_ordinal (nat days), hour = r div 3600000000, minute = r div 60000000 mod 60,
                second = r div 1000000 mod 60, microsecond = r mod 1000000, utcoffset = None\<rparr>)"

definition datetime_text :: "pylib \<Rightarrow> datetime \<Rightarrow> pystr" where
  \<comment> \<open>\<open>strftime("%Y-%m-%d %H:%M:%S")\<close>\<close>
  "datetime_text lib t =
     lib_year lib (year (dt_date t)) @ pystr_of ''-'' @ decimal 2 (month (dt_date t)) @ pystr_of ''-'' @ decimal 2 (day (dt_date t))
     @ pystr_of '' '' @ decimal 2 (hour t) @ pystr_of '':'' @ decimal 2 (minute t) @ pystr_of '':'' @ decimal 2 (second t)"

definition iso_input :: "pystr \<Rightarrow> pystr" where
  \<comment> \<open>\<open>.replace("Z", "+00:00").replace(" ", "T")\<close>\<close>
  "iso_input s = replace_char 32 (pystr_of ''T'') (replace_char 90 (pystr_of ''+00:00'') s)"

definition datetime_scalar :: "pylib \<Rightarrow> pyval \<Rightarrow> pyval res" where
  "datetime_scalar lib v =
     (if v = PNull then Inr PNull
      else
        let parsed = (case v of
            PDatetime t \<Rightarrow> Some t
          | PDate d \<Rightarrow> Some \<lparr>dt_date = d, hour = 0, minute = 0, second = 0, microsecond = 0, utcoffset = None\<rparr>
          | _ \<Rightarrow> lib_fromiso lib (iso_input (py_str lib v))) in
        case parsed of
          None \<Rightarrow> Inr PNull
        | Some t \<Rightarrow>
            bindR (if utcoffset t \<noteq> None then to_utc t else Inr t) (\<lambda>t'. Inr (PStr (datetime_text lib t'))))"

section \<open>Comparison affinity and LIKE\<close>

definition coerce_for_compare :: "pyval \<Rightarrow> pyval \<Rightarrow> pyval \<times> pyval" where
  \<comment> \<open>\<open>bool\<close> is a subclass of \<open>int\<close>\<close>
  "coerce_for_compare a b =
     (case (a, b) of
        (PInt i, PStr s) \<Rightarrow> (case py_int_of s of Some j \<Rightarrow> (a, PInt j) | None \<Rightarrow> (a, b))
      | (PBool i, PStr s) \<Rightarrow> (case py_int_of s of Some j \<Rightarrow> (a, PInt j) | None \<Rightarrow> (a, b))
      | (PStr s, PInt i) \<Rightarrow> (case py_int_of s of Some j \<Rightarrow> (PInt j, b) | None \<Rightarrow> (a, b))
      | (PStr s, PBool i) \<Rightarrow> (case py_int_of s of Some j \<Rightarrow> (PInt j, b) | None \<Rightarrow> (a, b))
      | _ \<Rightarrow> (a, b))"

definition same_letter :: "pylib \<Rightarrow> nat \<Rightarrow> nat \<Rightarrow> bool" where
  \<comment> \<open>\<open>re.IGNORECASE\<close> on one character\<close>
  "same_letter lib c d \<longleftrightarrow> c = d \<or> (if c < 128 \<and> d < 128 then lower [c] = lower [d] else lib_nocase lib c d)"

fun like_match :: "pylib \<Rightarrow> pystr \<Rightarrow> pystr \<Rightarrow> bool" where
  \<comment> \<open>the regular expression built from a pattern: \<open>%\<close> is \<open>.*\<close>, \<open>_\<close> is \<open>.\<close>, the dot
     does not match a newline, and \<open>$\<close> also matches before a final newline\<close>
  "like_match lib [] s = (s = [] \<or> s = [10])"
| "like_match lib (p # ps) s =
     (if p = 37 then like_match lib ps s \<or> (case s of c # s' \<Rightarrow> c \<noteq> 10 \<and> like_match lib (p # ps) s' | [] \<Rightarrow> False)
      else (case s of
              [] \<Rightarrow> False
            | c # s' \<Rightarrow> (if p = 95 then c \<noteq> 10 else same_letter lib p c) \<and> like_match lib ps s'))"

definition sql_like :: "pylib \<Rightarrow> pyval \<Rightarrow> pyval \<Rightarrow> pyval" where
  "sql_like lib v pattern =
     (if v = PNull \<or> pattern = PNull then PNull
      else case pattern of
             PStr p \<Rightarrow> PBool (like_match lib p (py_str lib v))
           | _ \<Rightarrow> PBool False)"

section \<open>Evaluation\<close>

definition row_get :: "row \<Rightarrow> pystr \<Rightarrow> pyval" where
  \<comment> \<open>\<open>row.get(name, SqlNull)\<close>\<close>
  "row_get row name = (case map_of row name of None \<Rightarrow> PNull | Some v \<Rightarrow> v)"

fun eval_expr :: "pylib \<Rightarrow> row \<Rightarrow> expr \<Rightarrow> pyval res"
  and eval_in :: "pylib \<Rightarrow> row \<Rightarrow> pyval \<Rightarrow> bool \<Rightarrow> expr list \<Rightarrow> pyval res"
  and eval_coalesce :: "pylib \<Rightarrow> row \<Rightarrow> expr list \<Rightarrow> pyval res"
where
  "eval_expr lib row (Literal v) = Inr v"
| "eval_expr lib row (ColumnRef name) = Inr (row_get row name)"
| "eval_expr lib row (ExcludedRef name) = Inr PNull"
| "eval_expr lib row (BinOp op0 left right) =
     (let op = upper op0 in
      bindR (eval_expr lib row left) (\<lambda>l.
      bindR (eval_expr lib row right) (\<lambda>r.
      if op = pystr_of ''AND'' then Inr (sql_and l r)
      else if op = pystr_of ''OR'' then Inr (sql_or l r)
      else if op = pystr_of ''LIKE'' then Inr (sql_like lib l r)
      else if op = pystr_of ''NOT LIKE'' then Inr (sql_not (sql_like lib l r))
      else (case coerce_for_compare l r of (l', r') \<Rightarrow> sql_compare op l' r'))))"
| "eval_expr lib row (UnaryOp op operand) =
     bindR (eval_expr lib row operand) (\<lambda>v.
     if upper op = pystr_of ''NOT'' then Inr (sql_not v) else Inl ValueError)"
| "eval_expr lib row (IsNull operand negated) =
     bindR (eval_expr lib row operand) (\<lambda>v.
     Inr (PBool (if negated then \<not> sql_is_null v else sql_is_null v)))"
| "eval_expr lib row (InList operand items) =
     bindR (eval_expr lib row operand) (\<lambda>v.
     if v = PNull then Inr PNull else eval_in lib row v False items)"
| "eval_expr lib row (Coalesce args) = eval_coalesce lib row args"
| "eval_expr lib row (FuncCall name args) =
     (if name = pystr_of ''datetime'' then
        (case args of
           [] \<Rightarrow> Inl IndexError
         | a # as \<Rightarrow> bindR (eval_expr lib row a) (datetime_scalar lib))
      else Inl ValueError)"
| "eval_expr lib row (NamedParam name) = Inl ValueError"
| "eval_in lib row v found_null [] = Inr (if found_null then PNull else PBool False)"
| "eval_in lib row v found_null (item # items) =
     bindR (eval_expr lib row item) (\<lambda>w.
     if w = PNull then eval_in lib row v True items
     else bindR (sql_compare (pystr_of ''='') v w) (\<lambda>r.
       if r = PBool True then Inr (PBool True) else eval_in lib row v found_null items))"
| "eval_coalesce lib row [] = Inr PNull"
| "eval_coalesce lib row (arg # args) =
     bindR (eval_expr lib row arg) (\<lambda>v. if v \<noteq> PNull then Inr v else eval_coalesce lib row args)"

fun collect_column_names :: "expr \<Rightarrow> pystr set" where
  "collect_column_names (ColumnRef name) = {name}"
| "collect_column_names (BinOp op l r) = collect_column_names l \<union> collect_column_names r"
| "collect_column_names (UnaryOp op e) = collect_column_names e"
| "collect_column_names (IsNull e n) = collect_column_names e"
| "collect_column_names (InList e es) = collect_column_names e \<union> \<Union> (set (map collect_column_names es))"
| "collect_column_names (Coalesce es) = \<Union> (set (map collect_column_names es))"
| "collect_column_names (FuncCall f es) = \<Union> (set (map collect_column_names es))"
| "collect_column_names _ = {}"

section \<open>Placeholders\<close>

record binding =
  b_queue :: "pyval option list" \<comment> \<open>the positional parameters left; \<open>None\<close> is Python's \<open>None\<close>\<close>
  b_positional :: bool
  b_named :: bool

type_synonym named_params = "(pystr \<Rightarrow> pyval option option) option" \<comment> \<open>the dict of \<open>:name\<close> values, if one was given\<close>

definition none_is_null :: "pyval option \<Rightarrow> pyval" where
  "none_is_null v = (case v of None \<Rightarrow> PNull | Some x \<Rightarrow> x)"

definition placeholder :: expr where
  "placeholder = Literal (PStr (pystr_of ''?''))"

definition bind_named :: "named_params \<Rightarrow> pystr \<Rightarrow> binding \<Rightarrow> (expr \<times> binding) res" where
  "bind_named named name b =
     (case named of
        None \<Rightarrow> Inl ProgrammingError
      | Some m \<Rightarrow>
        (case m name of
           None \<Rightarrow> Inl ProgrammingError
         | Some v \<Rightarrow>
             if b_positional b then Inl ProgrammingError
             else Inr (Literal (none_is_null v), b\<lparr>b_named := True\<rparr>)))"

definition bind_positional :: "binding \<Rightarrow> (expr \<times> binding) res" where
  "bind_positional b =
     (if b_named b then Inl ProgrammingError
      else case b_queue b of
             [] \<Rightarrow> Inl ProgrammingError
           | v # q \<Rightarrow> Inr (Literal (none_is_null v), b\<lparr>b_queue := q, b_positional := True\<rparr>))"

fun bind_params :: "named_params \<Rightarrow> expr \<Rightarrow> binding \<Rightarrow> (expr \<times> binding) res"
  and bind_list :: "named_params \<Rightarrow> expr list \<Rightarrow> binding \<Rightarrow> (expr list \<times> binding) res"
where
  "bind_params named (NamedParam name) b = bind_named named name b"
| "bind_params named (Literal v) b = (if Literal v = placeholder then bind_positional b else Inr (Literal v, b))"
| "bind_params named (BinOp op l r) b =
     bindR (bind_params named l b) (\<lambda>(l', b1). bindR (bind_params named r b1) (\<lambda>(r', b2). Inr (BinOp op l' r', b2)))"
| "bind_params named (UnaryOp op e) b = bindR (bind_params named e b) (\<lambda>(e', b1). Inr (UnaryOp op e', b1))"
| "bind_params named (IsNull e n) b = bindR (bind_params named e b) (\<lambda>(e', b1). Inr (IsNull e' n, b1))"
| "bind_params named (InList e es) b =
     bindR (bind_params named e b) (\<lambda>(e', b1). bindR (bind_list named es b1) (\<lambda>(es', b2). Inr (InList e' es', b2)))"
| "bind_params named (Coalesce es) b = bindR (bind_list named es b) (\<lambda>(es', b1). Inr (Coalesce es', b1))"
| "bind_params named (FuncCall f es) b = bindR (bind_list named es b) (\<lambda>(es', b1). Inr (FuncCall f es', b1))"
| "bind_params named (ColumnRef c) b = Inr (ColumnRef c, b)"
| "bind_params named (ExcludedRef c) b = Inr (ExcludedRef c, b)"
| "bind_list named [] b = Inr ([], b)"
| "bind_list named (e # es) b =
     bindR (bind_params named e b) (\<lambda>(e', b1). bindR (bind_list named es b1) (\<lambda>(es', b2). Inr (e' # es', b2)))"

section \<open>What an expression reads\<close>

lemma eval_list_cong:
  assumes "\<And>x. x \<in> set es \<Longrightarrow> eval_expr lib r x = eval_expr lib r' x"
  shows "eval_in lib r v fn es = eval_in lib r' v fn es" and "eval_coalesce lib r es = eval_coalesce lib r' es"
  using assms by (induction es arbitrary: fn) (auto cong: bindR_cong if_cong)

lemma eval_cong:
  "(\<And>n. n \<in> collect_column_names e \<Longrightarrow> row_get r n = row_get r' n) \<Longrightarrow> eval_expr lib r e = eval_expr lib r' e"
proof (induction e)
  case (InList e es)
  then have "eval_expr lib r e = eval_expr lib r' e" by simp
  moreover have "eval_in lib r v fn es = eval_in lib r' v fn es" for v fn
    using InList by (intro eval_list_cong) auto
  ultimately show ?case by (simp cong: if_cong)
next
  case (Coalesce es)
  then have "eval_coalesce lib r es = eval_coalesce lib r' es" by (intro eval_list_cong) auto
  then show ?case by simp
next
  case (FuncCall f es)
  then show ?case by (cases es) auto
qed auto

end
