(* ===== verification/SqlTyping.thy ===== *)
theory SqlTyping
  imports SqlExpr
begin

text \<open>
  A type system for predicates. Columns have one of the storage classes the codec can store, NULL belongs
  to every class, and ordering is allowed inside a class and between numbers. Evaluation of a typed
  expression stays inside its class and raises nothing, except the \<open>OverflowError\<close> of
  \<open>datetime()\<close> on an instant outside the calendar.
\<close>

datatype ty = TBool | TInt | TReal | TText | TBlob

fun has_ty :: "pyval \<Rightarrow> ty \<Rightarrow> bool" where
  "has_ty PNull t = True"
| "has_ty (PBool b) t = (t = TBool)"
| "has_ty (PInt i) t = (t = TInt)"
| "has_ty (PFloat w) t = (t = TReal)"
| "has_ty (PStr s) t = (t = TText)"
| "has_ty (PBytes b) t = (t = TBlob)"
| "has_ty _ t = False"

definition numeric :: "ty \<Rightarrow> bool" where
  "numeric t \<longleftrightarrow> t \<in> {TBool, TInt, TReal}"

definition comparable :: "ty \<Rightarrow> ty \<Rightarrow> bool" where
  "comparable a b \<longleftrightarrow> a = b \<or> numeric a \<and> numeric b"

abbreviation logic_ops :: "pystr list" where
  "logic_ops \<equiv> map pystr_of [''AND'', ''OR'', ''LIKE'', ''NOT LIKE'']"

abbreviation equality_ops :: "pystr list" where
  "equality_ops \<equiv> map pystr_of [''='', ''!='']"

abbreviation order_ops :: "pystr list" where
  "order_ops \<equiv> map pystr_of [''<'', ''<='', ''>'', ''>='']"

inductive typed :: "(pystr \<Rightarrow> ty option) \<Rightarrow> expr \<Rightarrow> ty \<Rightarrow> bool" for \<Gamma> where
  Lit: "has_ty v t \<Longrightarrow> typed \<Gamma> (Literal v) t"
| Col: "\<Gamma> n = Some t \<Longrightarrow> typed \<Gamma> (ColumnRef n) t"
| Exc: "typed \<Gamma> (ExcludedRef n) t"
| Logic: "upper op \<in> set (logic_ops @ equality_ops) \<Longrightarrow> typed \<Gamma> l t1 \<Longrightarrow> typed \<Gamma> r t2 \<Longrightarrow> typed \<Gamma> (BinOp op l r) TBool"
| Order: "upper op \<in> set order_ops \<Longrightarrow> typed \<Gamma> l t1 \<Longrightarrow> typed \<Gamma> r t2 \<Longrightarrow> comparable t1 t2 \<Longrightarrow>
    typed \<Gamma> (BinOp op l r) TBool"
| Neg: "upper op = pystr_of ''NOT'' \<Longrightarrow> typed \<Gamma> e t \<Longrightarrow> typed \<Gamma> (UnaryOp op e) TBool"
| Null: "typed \<Gamma> e t \<Longrightarrow> typed \<Gamma> (IsNull e neg) TBool"
| In: "typed \<Gamma> e t \<Longrightarrow> (\<And>x. x \<in> set es \<Longrightarrow> \<exists>t'. typed \<Gamma> x t') \<Longrightarrow> typed \<Gamma> (InList e es) TBool"
| Coal: "(\<And>x. x \<in> set es \<Longrightarrow> typed \<Gamma> x t) \<Longrightarrow> typed \<Gamma> (Coalesce es) t"
| Dt: "typed \<Gamma> e t \<Longrightarrow> typed \<Gamma> (FuncCall (pystr_of ''datetime'') [e]) TText"

inductive_cases typed_cases [elim!]: "typed \<Gamma> (BinOp op l r) t" "typed \<Gamma> (UnaryOp op e) t" "typed \<Gamma> (NamedParam n) t"

definition row_typed :: "(pystr \<Rightarrow> ty option) \<Rightarrow> row \<Rightarrow> bool" where
  "row_typed \<Gamma> row \<longleftrightarrow> (\<forall>n t. \<Gamma> n = Some t \<longrightarrow> has_ty (row_get row n) t)"

definition safe :: "pyval res \<Rightarrow> ty \<Rightarrow> bool" where
  "safe r t \<longleftrightarrow> r = Inl OverflowError \<or> (\<exists>v. r = Inr v \<and> has_ty v t)"

lemma safeI: "has_ty v t \<Longrightarrow> safe (Inr v) t"
  by (simp add: safe_def)

lemma safe_bind: "safe r t \<Longrightarrow> (\<And>v. has_ty v t \<Longrightarrow> safe (f v) t') \<Longrightarrow> safe (bindR r f) t'"
  by (cases r) (auto simp: safe_def)

lemma bool_ty: "v \<in> insert PNull (range PBool) \<Longrightarrow> has_ty v TBool"
  by auto

lemma coerce_typed: "has_ty a t1 \<Longrightarrow> has_ty b t2 \<Longrightarrow> comparable t1 t2 \<Longrightarrow> coerce_for_compare a b = (a, b)"
  by (cases a; cases b; auto simp: coerce_for_compare_def comparable_def numeric_def)

lemma ordered_typed: "has_ty a t1 \<Longrightarrow> has_ty b t2 \<Longrightarrow> comparable t1 t2 \<Longrightarrow> a \<noteq> PNull \<Longrightarrow> b \<noteq> PNull \<Longrightarrow>
    \<exists>r. py_order f g h k a b = Inr r"
  by (cases a; cases b; simp add: py_order_def comparable_def numeric_def)

lemma compare_typed:
  assumes "has_ty a t1" "has_ty b t2" and op: "op \<in> set (equality_ops @ order_ops)"
    and "op \<in> set order_ops \<Longrightarrow> comparable t1 t2"
  shows "safe (case coerce_for_compare a b of (a', b') \<Rightarrow> sql_compare op a' b') TBool"
proof (cases "op \<in> set order_ops")
  case True
  note c = assms(4) [OF True]
  then have c': "comparable t2 t1" by (auto simp: comparable_def)
  have "\<exists>v. sql_compare op a b = Inr v"
  proof (cases "a = PNull \<or> b = PNull")
    case False
    then have ab: "\<exists>r. py_order f g h k a b = Inr r" "\<exists>r. py_order f g h k b a = Inr r" for f g h k
      using ordered_typed [OF assms(1,2) c] ordered_typed [OF assms(2,1) c'] by auto
    obtain r1 r2 r3 r4 where "py_less a b = Inr r1" "py_less_eq a b = Inr r2" "py_less b a = Inr r3" "py_less_eq b a = Inr r4"
      unfolding py_less_def py_less_eq_def using ab by metis
    then show ?thesis using True False by (auto simp: sql_compare_def pystr_of_def)
  qed (simp add: sql_compare_def)
  then obtain v where v: "sql_compare op a b = Inr v" ..
  then show ?thesis using coerce_typed [OF assms(1,2) c] bool_ty [OF sql_logic_type(4) [OF v]] by (simp add: safeI)
next
  case False
  then have "\<exists>v. sql_compare op a' b' = Inr v" for a' b' using op by (auto simp: sql_compare_def)
  then show ?thesis
    using sql_logic_type(4) bool_ty by (cases "coerce_for_compare a b") (fastforce simp: safe_def)
qed

lemma in_typed:
  assumes "\<And>x. x \<in> set es \<Longrightarrow> \<exists>t. safe (eval_expr lib row x) t"
  shows "safe (eval_in lib row v fn es) TBool"
  using assms
proof (induction es arbitrary: fn)
  case (Cons e es)
  then obtain t where "safe (eval_expr lib row e) t" by auto
  moreover have rest: "safe (eval_in lib row v b es) TBool" for b using Cons by simp
  moreover have "safe (bindR (sql_compare (pystr_of ''='') v w)
      (\<lambda>r. if r = PBool True then Inr (PBool True) else eval_in lib row v fn es)) TBool" for w
    using rest by (simp add: sql_compare_def safeI)
  ultimately show ?case by (simp add: safe_bind)
qed (simp add: safe_def)

lemma coalesce_typed:
  assumes "\<And>x. x \<in> set es \<Longrightarrow> safe (eval_expr lib row x) t"
  shows "safe (eval_coalesce lib row es) t"
  using assms by (induction es) (auto intro!: safe_bind simp: safeI)

lemma binop_typed:
  assumes "safe (eval_expr lib row l) t1" "safe (eval_expr lib row r) t2"
    and op: "upper op \<in> set (logic_ops @ equality_ops @ order_ops)"
    and "upper op \<in> set order_ops \<Longrightarrow> comparable t1 t2"
  shows "safe (eval_expr lib row (BinOp op l r)) TBool"
  unfolding eval_expr.simps Let_def
proof (intro safe_bind [OF assms(1)] safe_bind [OF assms(2)])
  fix a b assume ab: "has_ty a t1" "has_ty b t2"
  have like: "has_ty (sql_like lib a b) TBool" by (auto simp: sql_like_def split: pyval.split)
  show "safe (if upper op = pystr_of ''AND'' then Inr (sql_and a b)
      else if upper op = pystr_of ''OR'' then Inr (sql_or a b)
      else if upper op = pystr_of ''LIKE'' then Inr (sql_like lib a b)
      else if upper op = pystr_of ''NOT LIKE'' then Inr (sql_not (sql_like lib a b))
      else case coerce_for_compare a b of (l', r') \<Rightarrow> sql_compare (upper op) l' r') TBool"
    using op compare_typed [OF ab, of "upper op"] assms(4) like bool_ty [OF sql_logic_type(1)] bool_ty [OF sql_logic_type(2)]
      bool_ty [OF sql_logic_type(3)]
    by (simp add: safeI) blast
qed

lemma datetime_typed: "safe (datetime_scalar lib v) TText"
proof -
  have "to_utc t = Inl OverflowError \<or> (\<exists>t'. to_utc t = Inr t')" for t by (simp add: to_utc_def Let_def)
  then show ?thesis
    by (auto simp: datetime_scalar_def Let_def safe_def split: option.split if_split)
      (metis bindR_simps has_ty.simps(5))+
qed

text \<open>
  C39. Well-typed predicates do not fail. On every row whose columns have the declared storage classes (or
  are NULL), a typed expression evaluates to a value of its type; the only exception it can raise is
  the \<open>OverflowError\<close> of \<open>datetime()\<close> for an instant outside the years 1 to 9999. No
  comparison raises \<open>TypeError\<close>, no operator is unknown.
\<close>

theorem eval_type_safe:
  assumes "typed \<Gamma> e t" and "row_typed \<Gamma> row"
  shows "eval_expr lib row e = Inl OverflowError \<or> (\<exists>v. eval_expr lib row e = Inr v \<and> has_ty v t)"
proof -
  have "safe (eval_expr lib row e) t"
    using assms
  proof (induction rule: typed.induct)
    case (Logic op l t1 r t2)
    have "upper op \<notin> set order_ops" using Logic(1) by (auto simp: pystr_of_def)
    then show ?case using Logic by (intro binop_typed [of lib row l t1 r t2]) auto
  next
    case (Order op l t1 r t2)
    then show ?case by (intro binop_typed [of lib row l t1 r t2]) auto
  next
    case (In e t es)
    then have "safe (eval_in lib row v False es) TBool" for v by (intro in_typed) blast
    then show ?case using In by (auto intro!: safe_bind simp: safeI)
  next
    case (Coal es t)
    then show ?case by (auto intro!: coalesce_typed)
  next
    case (Dt e t)
    then show ?case by (auto intro!: safe_bind [where t = t] datetime_typed)
  next
    case (Neg op e t)
    then show ?case by (auto intro!: safe_bind safeI bool_ty sql_logic_type)
  qed (auto simp: safeI row_typed_def intro!: safe_bind)
  then show ?thesis by (simp add: safe_def)
qed

definition demo_columns :: "pystr \<Rightarrow> ty option" where
  "demo_columns = [pystr_of ''id'' \<mapsto> TText, pystr_of ''n'' \<mapsto> TInt]"

theorem eval_type_safe_witness:
  "eval_expr plain_lib [(pystr_of ''id'', PStr []), (pystr_of ''n'', PInt 4)]
     (BinOp (pystr_of ''and'') (BinOp (pystr_of ''<'') (ColumnRef (pystr_of ''n'')) (Literal (PInt 5)))
        (UnaryOp (pystr_of ''NOT'') (IsNull (ColumnRef (pystr_of ''id'')) False))) = Inr (PBool True)"
  (is "eval_expr plain_lib ?row ?e = _")
proof -
  have "typed demo_columns ?e TBool"
    by (rule typed.Logic [where ?t1.0 = TBool and ?t2.0 = TBool] typed.Order [where ?t1.0 = TInt and ?t2.0 = TInt] typed.Neg [where t = TBool]
        typed.Null [where t = TText] typed.Col typed.Lit | simp add: demo_columns_def pystr_of_def upper_def upper_char_def comparable_def)+
  moreover have "row_typed demo_columns ?row" by (simp add: row_typed_def row_get_def demo_columns_def pystr_of_def)
  ultimately have "eval_expr plain_lib ?row ?e = Inl OverflowError \<or> (\<exists>v. eval_expr plain_lib ?row ?e = Inr v \<and> has_ty v TBool)"
    by (rule eval_type_safe)
  then show ?thesis
    by (simp add: pystr_of_def upper_def upper_char_def row_get_def coerce_for_compare_def sql_compare_def sql_and_def
        sql_not_def sql_is_null_def)
qed

end
