(* ===== verification/SqlRows.thy ===== *)
theory SqlRows
  imports SqlExpr "HOL-Library.Product_Lexorder" "HOL-Library.List_Lexorder" "HOL-Library.Multiset"
begin

text \<open>
  The row operators of \<open>sql/executor.py\<close>: \<open>filter_op\<close>, \<open>project_op\<close>,
  \<open>limit_op\<close>, the sort keys and \<open>_order_by\<close>, \<open>_order_by_keys\<close>, and the rowid
  pseudo-column. A generator is the list of the rows it yields with the exception that ends it, if one
  does: an operator that stops pulling never sees the exception behind the rows it took.
\<close>

section \<open>Generators and dictionaries\<close>

type_synonym 'a gen = "'a list \<times> pyerr option"

definition gen_list :: "'a gen \<Rightarrow> 'a list res" where
  \<comment> \<open>\<open>list(source)\<close>\<close>
  "gen_list g = (case snd g of None \<Rightarrow> Inr (fst g) | Some e \<Rightarrow> Inl e)"

fun gen_map :: "('a \<Rightarrow> 'b res) \<Rightarrow> 'a list \<Rightarrow> pyerr option \<Rightarrow> 'b gen" where
  \<comment> \<open>a generator that yields \<open>f x\<close> for every element\<close>
  "gen_map f [] e = ([], e)"
| "gen_map f (x # xs) e =
     (case f x of
        Inl err \<Rightarrow> ([], Some err)
      | Inr y \<Rightarrow> (case gen_map f xs e of (ys, e') \<Rightarrow> (y # ys, e')))"

fun dict_put :: "'k \<Rightarrow> 'v \<Rightarrow> ('k \<times> 'v) list \<Rightarrow> ('k \<times> 'v) list" where
  \<comment> \<open>\<open>d[k] = v\<close>: a new key goes to the end\<close>
  "dict_put k v [] = [(k, v)]"
| "dict_put k v ((k', v') # d) = (if k' = k then (k, v) # d else (k', v') # dict_put k v d)"

definition dict_of :: "('k \<times> 'v) list \<Rightarrow> ('k \<times> 'v) list" where
  "dict_of kvs = fold (\<lambda>(k, v). dict_put k v) kvs []"

lemma map_of_dict_put [simp]: "map_of (dict_put k v d) = (map_of d)(k \<mapsto> v)"
  by (induction d) (auto simp: fun_eq_iff)

lemma map_of_dict_fold: "map_of (fold (\<lambda>(k, v). dict_put k v) kvs d) = map_of d ++ map_of (rev kvs)"
proof (induction kvs arbitrary: d)
  case (Cons kv kvs)
  then show ?case by (cases kv) (auto simp: fun_eq_iff map_add_def split: option.split)
qed simp

lemma map_of_dict_of [simp]: "map_of (dict_of kvs) = map_of (rev kvs)"
  by (simp add: dict_of_def map_of_dict_fold)

definition ROWID :: pystr where "ROWID = pystr_of ''rowid''"
definition ROWID_SOURCE :: pystr where "ROWID_SOURCE = pystr_of ''vec_label''"
definition ROWKEY :: pystr where "ROWKEY = pystr_of ''_rowkey''"
definition STAR :: "pystr list" where "STAR = [pystr_of ''*'']"

section \<open>Operators\<close>

definition accepts :: "pyval \<Rightarrow> bool" where
  \<comment> \<open>\<open>result is not SqlNull and result\<close>\<close>
  "accepts v \<longleftrightarrow> v \<noteq> PNull \<and> py_truth v"

fun filter_op :: "pylib \<Rightarrow> expr \<Rightarrow> row list \<Rightarrow> pyerr option \<Rightarrow> row gen" where
  "filter_op lib p [] e = ([], e)"
| "filter_op lib p (row # rows) e =
     (case eval_expr lib row p of
        Inl err \<Rightarrow> ([], Some err)
      | Inr v \<Rightarrow> (case filter_op lib p rows e of (ys, e') \<Rightarrow> (if accepts v then row # ys else ys, e')))"

definition row_item :: "row \<Rightarrow> pystr \<Rightarrow> pyval res" where
  \<comment> \<open>\<open>row[c]\<close>\<close>
  "row_item row c = (case map_of row c of None \<Rightarrow> Inl KeyError | Some v \<Rightarrow> Inr v)"

definition select_columns :: "pystr list \<Rightarrow> row \<Rightarrow> row res" where
  \<comment> \<open>\<open>{c: row[c] for c in columns}\<close>\<close>
  "select_columns columns row =
     bindR (mapR (\<lambda>c. bindR (row_item row c) (\<lambda>v. Inr (c, v))) columns) (\<lambda>kvs. Inr (dict_of kvs))"

definition project_row :: "pystr list \<Rightarrow> row \<Rightarrow> row res" where
  "project_row columns row =
     (if columns = STAR then Inr (filter (\<lambda>(k, v). k \<notin> {ROWKEY, ROWID}) row) else select_columns columns row)"

definition project_op :: "pystr list \<Rightarrow> row gen \<Rightarrow> row gen" where
  "project_op columns g = gen_map (project_row columns) (fst g) (snd g)"

definition limit_op :: "nat \<Rightarrow> 'a gen \<Rightarrow> 'a gen" where
  \<comment> \<open>it pulls one element more than it yields before it stops\<close>
  "limit_op n g = (if n < length (fst g) then (take n (fst g), None) else g)"

definition resolve_rowid :: "row \<Rightarrow> row" where
  "resolve_rowid row =
     dict_put ROWID (case map_of row ROWID_SOURCE of Some v \<Rightarrow> v | None \<Rightarrow> row_get row ROWKEY) row"

section \<open>Sorting\<close>

type_synonym okey = "nat \<times> pyval"

definition order_key :: "pyval \<Rightarrow> okey" where
  "order_key v =
     (case v of
        PNull \<Rightarrow> (0, PInt 0)
      | PBool b \<Rightarrow> (1, PInt (of_bool b))
      | PStr s \<Rightarrow> (2, v)
      | PView b \<Rightarrow> (3, PBytes b)
      | PBytes b \<Rightarrow> (3, v)
      | _ \<Rightarrow> (1, v))"

definition okey_eq :: "okey \<Rightarrow> okey \<Rightarrow> bool" where
  "okey_eq a b \<longleftrightarrow> fst a = fst b \<and> py_eq (snd a) (snd b)"

definition okey_less :: "okey \<Rightarrow> okey \<Rightarrow> bool res" where
  \<comment> \<open>the order of tuples: the first components that differ decide\<close>
  "okey_less a b =
     (if fst a \<noteq> fst b then Inr (fst a < fst b)
      else if py_eq (snd a) (snd b) then Inr False
      else py_less (snd a) (snd b))"

definition directed_less :: "bool \<Rightarrow> okey \<Rightarrow> okey \<Rightarrow> bool res" where
  \<comment> \<open>a key, wrapped in \<open>_Descending\<close> when \<open>desc\<close>\<close>
  "directed_less desc a b = (if desc then okey_less b a else okey_less a b)"

fun keys_less :: "bool list \<Rightarrow> okey list \<Rightarrow> okey list \<Rightarrow> bool res" where
  \<comment> \<open>the order of the composite tuples\<close>
  "keys_less (d # ds) (a # as) (b # bs) = (if okey_eq a b then keys_less ds as bs else directed_less d a b)"
| "keys_less _ _ _ = Inr False"

fun py_insert :: "('k \<Rightarrow> 'k \<Rightarrow> bool res) \<Rightarrow> 'k \<times> 'a \<Rightarrow> ('k \<times> 'a) list \<Rightarrow> ('k \<times> 'a) list res" where
  "py_insert lt x [] = Inr [x]"
| "py_insert lt x (y # ys) =
     bindR (lt (fst y) (fst x)) (\<lambda>b.
     if b then bindR (py_insert lt x ys) (\<lambda>zs. Inr (y # zs)) else Inr (x # y # ys))"

fun py_sort :: "('k \<Rightarrow> 'k \<Rightarrow> bool res) \<Rightarrow> ('k \<times> 'a) list \<Rightarrow> ('k \<times> 'a) list res" where
  \<comment> \<open>\<open>list.sort\<close>, a stable sort that only uses \<open><\<close> on the keys\<close>
  "py_sort lt [] = Inr []"
| "py_sort lt (x # xs) = bindR (py_sort lt xs) (py_insert lt x)"

definition sort_value :: "pylib \<Rightarrow> row \<Rightarrow> pystr \<Rightarrow> bool \<Rightarrow> pyval res" where
  "sort_value lib row col as_datetime =
     (if as_datetime then datetime_scalar lib (row_get row col) else Inr (row_get row col))"

definition order_by :: "pylib \<Rightarrow> row list \<Rightarrow> pystr \<Rightarrow> bool \<Rightarrow> bool \<Rightarrow> row list res" where
  "order_by lib rows col desc as_datetime =
     bindR (mapR (\<lambda>r. bindR (sort_value lib r col as_datetime) (\<lambda>v. Inr (order_key v, r))) rows) (\<lambda>keyed.
     bindR (py_sort (directed_less desc) keyed) (\<lambda>sorted. Inr (map snd sorted)))"

type_synonym sort_key = "pystr \<times> bool \<times> bool" \<comment> \<open>column, descending, \<open>datetime()\<close> of the column\<close>

definition composite_key :: "pylib \<Rightarrow> sort_key list \<Rightarrow> row \<Rightarrow> okey list res" where
  "composite_key lib keys r =
     mapR (\<lambda>(col, desc, as_datetime). bindR (sort_value lib r col as_datetime) (\<lambda>v. Inr (order_key v))) keys"

definition order_by_keys :: "pylib \<Rightarrow> row list \<Rightarrow> sort_key list \<Rightarrow> row list res" where
  "order_by_keys lib rows keys =
     bindR (mapR (\<lambda>r. bindR (composite_key lib keys r) (\<lambda>k. Inr (k, r))) rows) (\<lambda>keyed.
     bindR (py_sort (keys_less (map (\<lambda>(col, desc, dt). desc) keys)) keyed) (\<lambda>sorted. Inr (map snd sorted)))"

section \<open>The operators as list functions\<close>

lemma filter_op_ok:
  assumes "\<And>r. r \<in> set rows \<Longrightarrow> eval_expr lib r p = Inr (f r)"
  shows "filter_op lib p rows e = (filter (\<lambda>r. accepts (f r)) rows, e)"
  using assms by (induction rows) simp_all

lemma gen_map_ok:
  assumes "\<And>x. x \<in> set xs \<Longrightarrow> g x = Inr (f x)"
  shows "gen_map g xs e = (map f xs, e)"
  using assms by (induction xs) simp_all

lemma gen_list_simps [simp]: "gen_list (xs, None) = Inr xs" "gen_list (xs, Some e) = Inl e"
  by (simp_all add: gen_list_def)

lemma limit_op_ok [simp]: "limit_op n (xs, None) = (take n xs, None)"
  by (simp add: limit_op_def)

end
