(* ===== verification/SqlCatalog.thy ===== *)
theory SqlCatalog
  imports SqlExpr
begin

text \<open>
  The schema registry of \<open>sql/catalog.py\<close>: column metadata, the tables and the index entries.
\<close>

record column_meta =
  cm_name :: pystr
  cm_affinity :: pystr
  cm_nullable :: bool
  cm_primary_key :: bool
  cm_default :: "pyval option option" \<comment> \<open>\<open>None\<close>: no default; \<open>Some None\<close>: Python's \<open>None\<close>\<close>

record catalog =
  cat_tables :: "(pystr \<times> column_meta list) list"
  cat_indexes :: "(pystr \<times> (pystr \<times> pystr \<times> bool) list) list"

definition cat_get :: "catalog \<Rightarrow> pystr \<Rightarrow> column_meta list res" where
  "cat_get cat table = (case map_of (cat_tables cat) table of None \<Rightarrow> Inl CatalogError | Some cms \<Rightarrow> Inr cms)"

definition column_names :: "catalog \<Rightarrow> pystr \<Rightarrow> pystr list res" where
  "column_names cat table = bindR (cat_get cat table) (\<lambda>cms. Inr (map cm_name cms))"

end
