(* ===== verification/SqlPlan.thy ===== *)
theory SqlPlan
  imports SqlRows SqlCatalog
begin

text \<open>
  Statements (\<open>sql/ast_nodes.py\<close>) and the planner (\<open>sql/planner.py\<close>). A \<open>PhysicalPlan\<close>
  copies the fields of its statement; the model keeps the statement inside the plan, beside the scan type
  and the bound parameters.
\<close>

section \<open>Statements\<close>

datatype aggregate = CountAgg | SumAgg | MinAgg | MaxAgg

datatype group_item = GroupCol pystr pystr \<comment> \<open>\<open>("col", output name, source name)\<close>\<close> | GroupCount pystr

record select_stmt =
  s_table :: pystr
  s_columns :: "pystr list"
  s_where :: "expr option"
  s_limit :: "int option"
  s_limit_is_param :: bool
  s_offset :: "int option"
  s_offset_is_param :: bool
  s_aggregate :: "aggregate option"
  s_aggregate_column :: "pystr option"
  s_count_alias :: "pystr option"
  s_order_by :: "(pystr \<times> bool \<times> bool) option" \<comment> \<open>\<open>order_by_col\<close>, \<open>order_by_desc\<close>, \<open>order_by_datetime\<close>\<close>
  s_order_by2 :: "(pystr \<times> bool \<times> bool) option"
  s_select_exprs :: "(expr \<times> pystr) list"
  s_group_by_col :: "pystr option"
  s_group_count_alias :: "pystr option"
  s_group_select :: "group_item list"
  s_having_op :: "pystr option"
  s_having_value :: "int option"

datatype conflict_action = DoUpdate | DoNothing

record insert_stmt =
  i_table :: pystr
  i_columns :: "pystr list"
  i_values :: "expr list"
  i_or_ignore :: bool
  i_or_replace :: bool
  i_conflict_keys :: "pystr list"
  i_conflict_action :: "conflict_action option"
  i_set_clauses :: "(pystr \<times> expr) list"

record update_stmt =
  u_table :: pystr
  u_set_clauses :: "(pystr \<times> expr) list"
  u_where :: "expr option"

record delete_stmt =
  d_table :: pystr
  d_where :: "expr option"

datatype ddl_kind = CreateTable | AlterAddColumn | AlterDropColumn | AlterRenameTable | DropTable | CreateIndex | Pragma

datatype stmt =
    SelectS select_stmt
  | InsertS insert_stmt
  | UpdateS update_stmt
  | DeleteS delete_stmt
  | DDLS ddl_kind pystr

section \<open>Plans\<close>

datatype scan_type = FullScan | ConstantScan

record plan =
  pl_stmt :: stmt
  pl_scan_type :: scan_type
  pl_params :: "pyval option list" \<comment> \<open>\<open>None\<close> is Python's \<open>None\<close>; for an INSERT the resolved values\<close>
  pl_named_params :: named_params

definition VIRTUAL_TABLES :: "pystr list" where
  "VIRTUAL_TABLES = [pystr_of ''dbstat'']"

definition plan_select :: "select_stmt \<Rightarrow> catalog \<Rightarrow> pyval option list \<Rightarrow> named_params \<Rightarrow> plan res" where
  "plan_select stmt cat params named_params =
     (if lower (s_table stmt) \<in> set VIRTUAL_TABLES then
        Inr \<lparr>pl_stmt = SelectS stmt, pl_scan_type = ConstantScan, pl_params = params, pl_named_params = named_params\<rparr>
      else
        bindR (column_names cat (s_table stmt)) (\<lambda>_.
        Inr \<lparr>pl_stmt = SelectS stmt, pl_scan_type = FullScan, pl_params = params, pl_named_params = named_params\<rparr>))"

fun resolve_values :: "named_params \<Rightarrow> expr list \<Rightarrow> pyval option list \<Rightarrow> (pyval list \<times> pyval option list) res" where
  \<comment> \<open>the loop over the VALUES expressions: the values and the parameters left\<close>
  "resolve_values named [] queue = Inr ([], queue)"
| "resolve_values named (e # es) queue =
     bindR (case e of
        NamedParam name \<Rightarrow>
          (case named of
             None \<Rightarrow> Inl ValueError
           | Some m \<Rightarrow> (case m name of None \<Rightarrow> Inl ValueError | Some v \<Rightarrow> Inr (none_is_null v, queue)))
      | Literal v \<Rightarrow>
          (if Literal v = placeholder then
             (case queue of [] \<Rightarrow> Inl ProgrammingError | p # ps \<Rightarrow> Inr (none_is_null p, ps))
           else Inr (v, queue))
      | _ \<Rightarrow> Inl ValueError) (\<lambda>(v, queue').
     bindR (resolve_values named es queue') (\<lambda>(vs, queue''). Inr (v # vs, queue'')))"

definition plan_insert :: "insert_stmt \<Rightarrow> catalog \<Rightarrow> pyval option list \<Rightarrow> named_params \<Rightarrow> plan res" where
  "plan_insert stmt cat params named_params =
     bindR (column_names cat (i_table stmt)) (\<lambda>_.
     bindR (resolve_values named_params (i_values stmt) params) (\<lambda>(resolved, queue).
     if queue \<noteq> [] then Inl ProgrammingError
     else Inr \<lparr>pl_stmt = InsertS stmt, pl_scan_type = FullScan, pl_params = map Some resolved, pl_named_params = named_params\<rparr>))"

definition plan_stmt :: "stmt \<Rightarrow> catalog \<Rightarrow> pyval option list \<Rightarrow> named_params \<Rightarrow> plan res" where
  "plan_stmt stmt cat params named_params =
     (case stmt of
        SelectS s \<Rightarrow> plan_select s cat params named_params
      | InsertS s \<Rightarrow> plan_insert s cat params named_params
      | UpdateS s \<Rightarrow>
          bindR (column_names cat (u_table s)) (\<lambda>_.
          Inr \<lparr>pl_stmt = stmt, pl_scan_type = FullScan, pl_params = params, pl_named_params = named_params\<rparr>)
      | DeleteS s \<Rightarrow>
          bindR (column_names cat (d_table s)) (\<lambda>_.
          Inr \<lparr>pl_stmt = stmt, pl_scan_type = FullScan, pl_params = params, pl_named_params = named_params\<rparr>)
      | DDLS k raw \<Rightarrow> Inr \<lparr>pl_stmt = stmt, pl_scan_type = FullScan, pl_params = params, pl_named_params = None\<rparr>)"

end
