(* ===== verification/SqlSort.thy ===== *)
theory SqlSort
  imports SqlRows
begin

text \<open>
  ORDER BY. On keys without NaN the comparison of the sort keys is a total preorder, so the stable sort
  returns the rows in order, none lost, and rows with equal keys in their old order.
\<close>

section \<open>A stable sort\<close>

definition le_of :: "('k \<Rightarrow> 'k \<Rightarrow> bool res) \<Rightarrow> 'k \<Rightarrow> 'k \<Rightarrow> bool" where
  \<comment> \<open>not greater\<close>
  "le_of lt a b \<longleftrightarrow> lt b a = Inr False"

definition preorder_on_keys :: "('k \<Rightarrow> 'k \<Rightarrow> bool res) \<Rightarrow> 'k set \<Rightarrow> bool" where
  "preorder_on_keys lt K \<longleftrightarrow>
     (\<forall>a \<in> K. \<forall>b \<in> K. (\<exists>r. lt a b = Inr r) \<and> (le_of lt a b \<or> le_of lt b a)) \<and>
     (\<forall>a \<in> K. \<forall>b \<in> K. \<forall>c \<in> K. le_of lt a b \<longrightarrow> le_of lt b c \<longrightarrow> le_of lt a c)"

lemma preorder_refl: "preorder_on_keys lt K \<Longrightarrow> a \<in> K \<Longrightarrow> le_of lt a a"
  by (auto simp: preorder_on_keys_def)

lemma py_insert_spec:
  assumes K: "preorder_on_keys lt K" and x: "fst x \<in> K" and ys: "fst ` set ys \<subseteq> K" and srt: "sorted_wrt (\<lambda>a b. le_of lt (fst a) (fst b)) ys"
  shows "\<exists>zs. py_insert lt x ys = Inr zs \<and> mset zs = add_mset x (mset ys) \<and> sorted_wrt (\<lambda>a b. le_of lt (fst a) (fst b)) zs \<and>
    (\<forall>k \<in> K. filter (\<lambda>p. le_of lt (fst p) k \<and> le_of lt k (fst p)) zs = filter (\<lambda>p. le_of lt (fst p) k \<and> le_of lt k (fst p)) (x # ys))"
  using ys srt
proof (induction ys)
  case (Cons y ys)
  have yK: "fst y \<in> K" using Cons.prems by simp
  obtain r where r: "lt (fst y) (fst x) = Inr r" using K x yK unfolding preorder_on_keys_def by blast
  have tr: "le_of lt a c" if "le_of lt a b" "le_of lt b c" "a \<in> K" "b \<in> K" "c \<in> K" for a b c
    using K that unfolding preorder_on_keys_def by blast
  show ?case
  proof (cases r)
    case False
    then have xy: "le_of lt (fst x) (fst y)" using r by (simp add: le_of_def)
    moreover have "le_of lt (fst x) (fst z)" if "z \<in> set ys" for z
      using tr [OF xy] Cons.prems x yK that by auto
    ultimately show ?thesis using r False Cons.prems by simp
  next
    case True
    obtain zs where zs: "py_insert lt x ys = Inr zs" "mset zs = add_mset x (mset ys)"
      "sorted_wrt (\<lambda>a b. le_of lt (fst a) (fst b)) zs"
      "\<forall>k \<in> K. filter (\<lambda>p. le_of lt (fst p) k \<and> le_of lt k (fst p)) zs = filter (\<lambda>p. le_of lt (fst p) k \<and> le_of lt k (fst p)) (x # ys)"
      using Cons.IH Cons.prems by auto
    have nxy: "\<not> le_of lt (fst x) (fst y)" using r True by (simp add: le_of_def)
    then have yx: "le_of lt (fst y) (fst x)" using K x yK unfolding preorder_on_keys_def by blast
    have "set zs = insert x (set ys)" using zs(2) by (metis set_mset_add_mset_insert set_mset_mset)
    then have "sorted_wrt (\<lambda>a b. le_of lt (fst a) (fst b)) (y # zs)" using zs(3) yx Cons.prems by auto
    moreover have "filter (\<lambda>p. le_of lt (fst p) k \<and> le_of lt k (fst p)) (y # zs) =
        filter (\<lambda>p. le_of lt (fst p) k \<and> le_of lt k (fst p)) (x # y # ys)" if k: "k \<in> K" for k
    proof -
      have "\<not> (le_of lt (fst x) k \<and> le_of lt k (fst y))" using tr nxy x yK k by blast
      then show ?thesis using zs(4) k by auto
    qed
    ultimately show ?thesis using zs(1,2) r True by auto
  qed
qed simp

lemma py_sort_spec:
  assumes K: "preorder_on_keys lt K" and xs: "fst ` set xs \<subseteq> K"
  shows "\<exists>zs. py_sort lt xs = Inr zs \<and> mset zs = mset xs \<and> sorted_wrt (\<lambda>a b. le_of lt (fst a) (fst b)) zs \<and>
    (\<forall>k \<in> K. filter (\<lambda>p. le_of lt (fst p) k \<and> le_of lt k (fst p)) zs = filter (\<lambda>p. le_of lt (fst p) k \<and> le_of lt k (fst p)) xs)"
  using xs
proof (induction xs)
  case (Cons x xs)
  then obtain ys where ys: "py_sort lt xs = Inr ys" "mset ys = mset xs" "sorted_wrt (\<lambda>a b. le_of lt (fst a) (fst b)) ys"
    "\<forall>k \<in> K. filter (\<lambda>p. le_of lt (fst p) k \<and> le_of lt k (fst p)) ys = filter (\<lambda>p. le_of lt (fst p) k \<and> le_of lt k (fst p)) xs"
    by auto
  have "set ys = set xs" using ys(2) by (metis set_mset_mset)
  then have "fst x \<in> K" "fst ` set ys \<subseteq> K" using Cons.prems by auto
  from py_insert_spec [OF K this ys(3)] show ?case using ys by (auto simp: bindR_def)
qed simp

section \<open>The order of sort keys\<close>

instantiation pynum :: linorder
begin

fun less_eq_pynum :: "pynum \<Rightarrow> pynum \<Rightarrow> bool" where
  "less_eq_pynum NaN _ = True"
| "less_eq_pynum NInf b = (b \<noteq> NaN)"
| "less_eq_pynum (Fin i) b = (case b of Fin j \<Rightarrow> i \<le> j | PInf \<Rightarrow> True | _ \<Rightarrow> False)"
| "less_eq_pynum PInf b = (b = PInf)"

definition less_pynum :: "pynum \<Rightarrow> pynum \<Rightarrow> bool" where "less_pynum a b \<longleftrightarrow> a \<le> b \<and> \<not> b \<le> a"

instance
proof
  fix a b c :: pynum
  show "a < b \<longleftrightarrow> a \<le> b \<and> \<not> b \<le> a" by (simp add: less_pynum_def)
  show "a \<le> a" "a \<le> b \<or> b \<le> a" by (cases a; cases b; auto)+
  show "a \<le> b \<Longrightarrow> b \<le> c \<Longrightarrow> a \<le> c" by (cases a; cases b; cases c) auto
  show "a \<le> b \<Longrightarrow> b \<le> a \<Longrightarrow> a = b" by (cases a; cases b) auto
qed

end

definition sortable :: "pyval \<Rightarrow> bool" where
  \<comment> \<open>what a stored row can hold, NaN apart\<close>
  "sortable v \<longleftrightarrow> (case v of PDatetime t \<Rightarrow> False | PDate d \<Rightarrow> False | POther \<Rightarrow> False | _ \<Rightarrow> num_of v \<noteq> Some NaN)"

definition rank_key :: "okey \<Rightarrow> nat \<times> pynum \<times> nat list \<times> 8 word list" where
  \<comment> \<open>the sort order as a linear order: class, then number, text or bytes\<close>
  "rank_key k = (fst k, (case num_of (snd k) of Some n \<Rightarrow> n | None \<Rightarrow> NaN),
     (case snd k of PStr s \<Rightarrow> s | _ \<Rightarrow> []), (case snd k of PBytes b \<Rightarrow> b | _ \<Rightarrow> []))"

lemma list_less_iff: "list_less xs ys \<longleftrightarrow> xs < ys"
  by (induction xs ys rule: list_less.induct) auto

lemma pynum_order: "x \<noteq> NaN \<Longrightarrow> y \<noteq> NaN \<Longrightarrow> num_less x y \<longleftrightarrow> x < y" "x \<noteq> NaN \<Longrightarrow> y \<noteq> NaN \<Longrightarrow> num_eq x y \<longleftrightarrow> x = y"
  by (cases x; cases y; auto simp: less_pynum_def)+

lemma order_key_classes [consumes 1, case_names null number string blob]:
  assumes "sortable v"
  obtains (null) "order_key v = (0, PInt 0)"
    | (number) w n where "order_key v = (1, w)" "num_of w = Some n" "n \<noteq> NaN" "blob_of w = None" "\<And>s. w \<noteq> PStr s" "\<And>b. w \<noteq> PBytes b"
    | (string) s where "order_key v = (2, PStr s)"
    | (blob) b where "order_key v = (3, PBytes b)"
proof (cases v)
  case (PBool b)
  then show thesis by (intro number [of "PInt (of_bool b)" "Fin (of_bool b * SCALE)"]) (simp_all add: order_key_def)
next
  case (PInt i)
  then show thesis by (intro number [of v "Fin (i * SCALE)"]) (simp_all add: order_key_def)
next
  case (PFloat w)
  then show thesis using assms by (intro number [of v "float_num w"]) (simp_all add: order_key_def sortable_def)
qed (use assms null string blob in \<open>simp_all add: order_key_def sortable_def\<close>)

lemma rank_order:
  assumes a: "sortable a" and b: "sortable b"
  shows "okey_less (order_key a) (order_key b) = Inr (rank_key (order_key a) < rank_key (order_key b)) \<and>
    (okey_eq (order_key a) (order_key b) \<longleftrightarrow> rank_key (order_key a) = rank_key (order_key b))"
proof -
  note defs = okey_less_def okey_eq_def rank_key_def py_eq_def py_less_def py_order_def pynum_order list_less_iff less_prod_def'
  show ?thesis
  using a proof (cases rule: order_key_classes)
    case null
    show ?thesis using b null by (cases rule: order_key_classes) (simp_all add: defs)
  next
    case (number w n)
    show ?thesis
      using b number by (cases rule: order_key_classes) (auto simp: defs split: pyval.split)
  next
    case (string s)
    show ?thesis using b string by (cases rule: order_key_classes) (simp_all add: defs)
  next
    case (blob bs)
    show ?thesis using b blob by (cases rule: order_key_classes) (simp_all add: defs)
  qed
qed

fun keys_le :: "bool list \<Rightarrow> okey list \<Rightarrow> okey list \<Rightarrow> bool" where
  \<comment> \<open>the reference order of rows: the first key that differs decides, each in its own direction\<close>
  "keys_le (d # ds) (a # as) (b # bs) =
     (if rank_key a = rank_key b then keys_le ds as bs
      else if d then rank_key b < rank_key a else rank_key a < rank_key b)"
| "keys_le _ _ _ = True"

definition sort_keys :: "nat \<Rightarrow> okey list set" where
  "sort_keys n = {map order_key vs | vs. length vs = n \<and> (\<forall>v \<in> set vs. sortable v)}"

lemma keys_less_ok:
  assumes "length ds = n" "length vs = n" "length ws = n" "\<forall>v \<in> set vs. sortable v" "\<forall>w \<in> set ws. sortable w"
  shows "keys_less ds (map order_key vs) (map order_key ws) = Inr (\<not> keys_le ds (map order_key ws) (map order_key vs))"
  using assms
proof (induction n arbitrary: ds vs ws)
  case (Suc n)
  obtain d ds' v vs' w ws' where eqs: "ds = d # ds'" "vs = v # vs'" "ws = w # ws'"
    using Suc.prems(1-3) by (auto simp: length_Suc_conv)
  have "okey_less (order_key v) (order_key w) = Inr (rank_key (order_key v) < rank_key (order_key w))"
    "okey_less (order_key w) (order_key v) = Inr (rank_key (order_key w) < rank_key (order_key v))"
    "okey_eq (order_key v) (order_key w) \<longleftrightarrow> rank_key (order_key v) = rank_key (order_key w)"
    using rank_order [of v w] rank_order [of w v] Suc.prems eqs by simp_all
  then show ?case using Suc eqs by (auto simp: directed_less_def)
qed simp

lemma keys_le_total: "length as = length bs \<Longrightarrow> keys_le ds as bs \<or> keys_le ds bs as"
  by (induction ds as bs rule: keys_le.induct) auto

lemma keys_le_trans: "keys_le ds as bs \<Longrightarrow> keys_le ds bs cs \<Longrightarrow> length as = length bs \<Longrightarrow> length bs = length cs \<Longrightarrow> keys_le ds as cs"
proof (induction ds as bs arbitrary: cs rule: keys_le.induct)
  case (1 d ds a as b bs)
  then show ?case by (cases cs) (auto split: if_splits)
qed auto

lemma keys_preorder:
  assumes "length ds = n"
  shows "preorder_on_keys (keys_less ds) (sort_keys n)" and "a \<in> sort_keys n \<Longrightarrow> b \<in> sort_keys n \<Longrightarrow> le_of (keys_less ds) a b \<longleftrightarrow> keys_le ds a b"
proof -
  have lt: "keys_less ds a b = Inr (\<not> keys_le ds b a)" if "a \<in> sort_keys n" "b \<in> sort_keys n" for a b
    using that keys_less_ok [OF assms] by (auto simp: sort_keys_def)
  then show le: "le_of (keys_less ds) a b \<longleftrightarrow> keys_le ds a b" if "a \<in> sort_keys n" "b \<in> sort_keys n" for a b
    using that by (simp add: le_of_def)
  have len: "length a = n" if "a \<in> sort_keys n" for a using that by (auto simp: sort_keys_def)
  show "preorder_on_keys (keys_less ds) (sort_keys n)"
    unfolding preorder_on_keys_def using lt le len keys_le_total keys_le_trans by metis
qed

section \<open>ORDER BY\<close>

definition row_keys :: "pylib \<Rightarrow> sort_key list \<Rightarrow> row \<Rightarrow> okey list" where
  \<comment> \<open>what the keys read of a row\<close>
  "row_keys lib keys r =
     map (\<lambda>(col, desc, dt). order_key (case sort_value lib r col dt of Inr v \<Rightarrow> v | Inl e \<Rightarrow> PNull)) keys"

definition row_le :: "pylib \<Rightarrow> sort_key list \<Rightarrow> row \<Rightarrow> row \<Rightarrow> bool" where
  "row_le lib keys a b \<longleftrightarrow> keys_le (map (\<lambda>(col, desc, dt). desc) keys) (row_keys lib keys a) (row_keys lib keys b)"

definition sortable_row :: "pylib \<Rightarrow> sort_key list \<Rightarrow> row \<Rightarrow> bool" where
  "sortable_row lib keys r \<longleftrightarrow> (\<forall>(col, desc, dt) \<in> set keys. \<exists>v. sort_value lib r col dt = Inr v \<and> sortable v)"

lemma composite_ok:
  assumes "sortable_row lib keys r"
  shows "composite_key lib keys r = Inr (row_keys lib keys r)" and "row_keys lib keys r \<in> sort_keys (length keys)"
proof -
  show "composite_key lib keys r = Inr (row_keys lib keys r)"
    unfolding composite_key_def row_keys_def
    by (rule mapR_Inr) (use assms in \<open>fastforce simp: sortable_row_def\<close>)
  let ?vs = "map (\<lambda>(col, desc, dt). case sort_value lib r col dt of Inr v \<Rightarrow> v | Inl e \<Rightarrow> PNull) keys"
  have "\<forall>v \<in> set ?vs. sortable v" using assms by (fastforce simp: sortable_row_def)
  then show "row_keys lib keys r \<in> sort_keys (length keys)"
    unfolding sort_keys_def row_keys_def by (intro CollectI exI [of _ ?vs]) (auto simp: comp_def case_prod_beta)
qed

lemma order_by_keys_run:
  assumes ok: "\<forall>r \<in> set rows. sortable_row lib keys r"
  shows "\<exists>out. order_by_keys lib rows keys = Inr out \<and> mset out = mset rows \<and> sorted_wrt (row_le lib keys) out \<and>
    (\<forall>r \<in> set rows. filter (\<lambda>x. row_le lib keys x r \<and> row_le lib keys r x) out =
       filter (\<lambda>x. row_le lib keys x r \<and> row_le lib keys r x) rows)"
proof -
  let ?ds = "map (\<lambda>(col, desc, dt). desc) keys" and ?K = "sort_keys (length keys)"
  let ?lt = "keys_less ?ds" and ?keyed = "map (\<lambda>r. (row_keys lib keys r, r)) rows"
  have len: "length ?ds = length keys" by simp
  note pre = keys_preorder [OF len]
  have keyed: "mapR (\<lambda>r. bindR (composite_key lib keys r) (\<lambda>k. Inr (k, r))) rows = Inr ?keyed"
    by (rule mapR_Inr) (use ok composite_ok(1) in simp)
  have "fst ` set ?keyed \<subseteq> ?K" using ok composite_ok(2) by auto
  from py_sort_spec [OF pre(1) this] obtain zs where zs: "py_sort ?lt ?keyed = Inr zs" "mset zs = mset ?keyed"
    "sorted_wrt (\<lambda>a b. le_of ?lt (fst a) (fst b)) zs"
    "\<And>k. k \<in> ?K \<Longrightarrow> filter (\<lambda>p. le_of ?lt (fst p) k \<and> le_of ?lt k (fst p)) zs = filter (\<lambda>p. le_of ?lt (fst p) k \<and> le_of ?lt k (fst p)) ?keyed"
    by (elim exE conjE) (rule that, assumption, assumption, assumption, drule bspec, assumption, assumption)
  have set': "set zs = set ?keyed" by (rule mset_eq_setD [OF zs(2)])
  then have shape: "fst p = row_keys lib keys (snd p) \<and> fst p \<in> ?K" if "p \<in> set zs" for p
    using that ok composite_ok(2) by auto
  let ?out = "map snd zs"
  have eq: "le_of ?lt (fst p) (fst q) \<longleftrightarrow> row_le lib keys (snd p) (snd q)" if "p \<in> set zs" "q \<in> set zs" for p q
    using pre(2) [of "fst p" "fst q"] shape [OF that(1)] shape [OF that(2)] by (auto simp: row_le_def)
  have "sorted_wrt (\<lambda>a b. row_le lib keys (snd a) (snd b)) zs"
    by (rule sorted_wrt_mono_rel [OF _ zs(3)]) (use eq in blast)
  then have "sorted_wrt (row_le lib keys) ?out" by (simp add: sorted_wrt_map)
  moreover have "mset ?out = mset rows"
    using arg_cong [OF zs(2), of "image_mset snd"] by (simp add: comp_def flip: mset_map)
  moreover have "filter (\<lambda>x. row_le lib keys x r \<and> row_le lib keys r x) ?out = filter (\<lambda>x. row_le lib keys x r \<and> row_le lib keys r x) rows"
    if r: "r \<in> set rows" for r
  proof -
    let ?k = "row_keys lib keys r"
    have k: "?k \<in> ?K" "(?k, r) \<in> set zs" using ok composite_ok(2) r set' by auto
    have "filter (\<lambda>p. row_le lib keys (snd p) r \<and> row_le lib keys r (snd p)) zs = filter (\<lambda>p. le_of ?lt (fst p) ?k \<and> le_of ?lt ?k (fst p)) zs"
      using eq [OF _ k(2)] eq [OF k(2)] by (intro filter_cong) simp_all
    also have "\<dots> = filter (\<lambda>p. le_of ?lt (fst p) ?k \<and> le_of ?lt ?k (fst p)) ?keyed" by (rule zs(4) [OF k(1)])
    also have "\<dots> = filter (\<lambda>p. row_le lib keys (snd p) r \<and> row_le lib keys r (snd p)) ?keyed"
      using eq [OF _ k(2)] eq [OF k(2)] set' by (intro filter_cong) auto
    finally show ?thesis by (simp add: filter_map comp_def)
  qed
  ultimately show ?thesis using zs(1) keyed by (simp add: order_by_keys_def)
qed

lemma py_eq_sym: "py_eq a b \<longleftrightarrow> py_eq b a"
proof -
  have "num_eq x y \<longleftrightarrow> num_eq y x" for x y by (cases x; cases y) auto
  then show ?thesis
    by (auto simp: py_eq_def dt_comparable_def split: option.split pyval.split)
qed

lemma directed_single: "keys_less [d] [a] [b] = directed_less d a b"
proof -
  have "okey_eq a b \<Longrightarrow> okey_less a b = Inr False \<and> okey_less b a = Inr False"
    using py_eq_sym by (auto simp: okey_eq_def okey_less_def)
  then show ?thesis by (simp add: directed_less_def)
qed

lemma py_sort_map:
  assumes "\<And>a b. lt' (g a) (g b) = lt a b"
  shows "py_sort lt' (map (\<lambda>(k, x). (g k, x)) xs) = bindR (py_sort lt xs) (\<lambda>ys. Inr (map (\<lambda>(k, x). (g k, x)) ys))"
proof (induction xs)
  case (Cons x xs)
  obtain k r where x: "x = (k, r)" by (cases x)
  have ins: "py_insert lt' (g k, r) (map (\<lambda>(k, x). (g k, x)) ys) =
      bindR (py_insert lt (k, r) ys) (\<lambda>zs. Inr (map (\<lambda>(k, x). (g k, x)) zs))" for ys
    by (induction ys) (auto simp: assms bindR_assoc intro!: bindR_cong)
  show ?case by (simp add: x Cons ins bindR_assoc)
qed simp

lemma order_by_single: "order_by lib rows col desc dt = order_by_keys lib rows [(col, desc, dt)]"
proof -
  let ?keyed = "mapR (\<lambda>r. bindR (sort_value lib r col dt) (\<lambda>v. Inr (order_key v, r))) rows"
  have "mapR (\<lambda>r. bindR (composite_key lib [(col, desc, dt)] r) (\<lambda>k. Inr (k, r))) rows =
      bindR ?keyed (\<lambda>xs. Inr (map (\<lambda>(k, x). ([k], x)) xs))"
    by (induction rows) (auto simp: composite_key_def bindR_assoc intro!: bindR_cong)
  moreover have "map snd (map (\<lambda>(k, x). ([k], x)) ys) = map snd ys" for ys :: "(okey \<times> row) list"
    by (induction ys) auto
  moreover have "py_sort (keys_less [desc]) (map (\<lambda>(k, x). ([k], x)) xs) =
      bindR (py_sort (directed_less desc) xs) (\<lambda>ys. Inr (map (\<lambda>(k, x). ([k], x)) ys))" for xs :: "(okey \<times> row) list"
    by (rule py_sort_map) (rule directed_single)
  ultimately show ?thesis by (simp add: order_by_def order_by_keys_def bindR_assoc del: map_map)
qed

text \<open>
  C38. ORDER BY sorts. For one key or several, each with its own direction, on rows whose key columns hold
  stored values other than NaN, the sort succeeds and returns every row once, in lexicographic order
  of the keys (NULL below numbers below text below blobs, reversed where the key is descending), and
  rows with equal keys keep the order they had. A single key goes through its own code path and
  gives the same result.
\<close>

theorem order_by_sorts:
  assumes "\<forall>r \<in> set rows. sortable_row lib keys r"
  shows "(\<exists>out. order_by_keys lib rows keys = Inr out \<and> mset out = mset rows \<and> sorted_wrt (row_le lib keys) out \<and>
    (\<forall>r \<in> set rows. filter (\<lambda>x. row_le lib keys x r \<and> row_le lib keys r x) out =
       filter (\<lambda>x. row_le lib keys x r \<and> row_le lib keys r x) rows)) \<and>
    (\<forall>col desc dt. keys = [(col, desc, dt)] \<longrightarrow> order_by lib rows col desc dt = order_by_keys lib rows keys)"
  using order_by_keys_run [OF assms] order_by_single by blast

definition demo_rows :: "row list" where
  "demo_rows = [[(pystr_of ''a'', PInt 2)], [(pystr_of ''a'', PNull)], [(pystr_of ''a'', PStr [65])], [(pystr_of ''a'', PInt 7)]]"

theorem order_by_sorts_witness:
  "order_by plain_lib demo_rows (pystr_of ''a'') True False = order_by_keys plain_lib demo_rows [(pystr_of ''a'', True, False)] \<and>
   order_by plain_lib demo_rows (pystr_of ''a'') True False = Inr [demo_rows ! 2, demo_rows ! 3, demo_rows ! 0, demo_rows ! 1]"
proof -
  have ok: "\<forall>r \<in> set demo_rows. sortable_row plain_lib [(pystr_of ''a'', True, False)] r"
    by (simp add: demo_rows_def sortable_row_def sort_value_def row_get_def sortable_def)
  have "order_by plain_lib demo_rows (pystr_of ''a'') True False = Inr [demo_rows ! 2, demo_rows ! 3, demo_rows ! 0, demo_rows ! 1]"
    by (simp add: demo_rows_def order_by_def sort_value_def row_get_def order_key_def directed_less_def okey_less_def)
  moreover have "order_by plain_lib demo_rows (pystr_of ''a'') True False = order_by_keys plain_lib demo_rows [(pystr_of ''a'', True, False)]"
    using order_by_sorts [OF ok] by blast
  ultimately show ?thesis by simp
qed

end
