(* ===== verification/Freelist.thy ===== *)
theory Freelist
  imports PagerOps "HOL-Library.Multiset"
begin

text \<open>
  \<open>freelist.py\<close>: free pages are kept in a chain of trunk pages, each listing leaf page numbers.
  \<open>alloc_page\<close> and \<open>free_page\<close> are translated over any pager object; the argument \<open>jr\<close> says
  that a \<open>journal\<close> was passed (not \<open>None\<close>). The lemmas show that both implement an abstract
  stack of trunks, and that the walk of \<open>freelist_pages\<close> ends on every chain, also on a corrupt one.
\<close>

section \<open>Trunk pages\<close>

definition TRUNK_FIXED_SIZE :: nat where "TRUNK_FIXED_SIZE = 8"
definition TRUNK_ENTRY_SIZE :: nat where "TRUNK_ENTRY_SIZE = 4"

record trunk =
  next_trunk :: nat
  leaf_pages :: "nat list"

definition max_leaves :: "nat \<Rightarrow> nat" where
  "max_leaves page_size = (page_size - TRUNK_FIXED_SIZE) div TRUNK_ENTRY_SIZE"

definition trunk_decode :: "bytes \<Rightarrow> trunk res" where
  "trunk_decode data =
     bindR (unpack_from 4 data 0) (\<lambda>next_no.
     bindR (unpack_from 4 data 4) (\<lambda>leaf_count.
     bindR (mapR (\<lambda>i. unpack_from 4 data (TRUNK_FIXED_SIZE + i * TRUNK_ENTRY_SIZE)) [0..<leaf_count]) (\<lambda>leaves.
     Inr \<lparr>next_trunk = next_no, leaf_pages = leaves\<rparr>)))"

fun write_entries :: "nat \<Rightarrow> bytes \<Rightarrow> nat list \<Rightarrow> bytes res" where
  "write_entries i buf [] = Inr buf"
| "write_entries i buf (pno # pnos) =
     bindR (pack_into 4 buf (TRUNK_FIXED_SIZE + i * TRUNK_ENTRY_SIZE) (int pno)) (\<lambda>buf'.
     write_entries (i + 1) buf' pnos)"

definition trunk_encode :: "trunk \<Rightarrow> nat \<Rightarrow> bytes res" where
  "trunk_encode t page_size =
     (if max_leaves page_size < length (leaf_pages t) then Inl ValueError
      else
        bindR (pack_into 4 (replicate page_size 0) 0 (int (next_trunk t))) (\<lambda>buf.
        bindR (pack_into 4 buf 4 (int (length (leaf_pages t)))) (\<lambda>buf'.
        write_entries 0 buf' (leaf_pages t))))"

section \<open>Allocation and release\<close>

definition alloc_page :: "'s pager_ops \<Rightarrow> bool \<Rightarrow> ('s, nat) pm" where
  "alloc_page ops jr =
     bindS (op_read_hdr ops HFirstTrunk) (\<lambda>first_trunk.
     if first_trunk = 0 then op_extend_file ops
     else
       bindS (op_read_page ops first_trunk) (\<lambda>trunk_data.
       bindS (if jr then op_record_before ops first_trunk trunk_data else retS ()) (\<lambda>_.
       bindS (if jr then bindS (op_read_page ops 1) (op_record_before ops 1) else retS ()) (\<lambda>_.
       bindS (liftR (trunk_decode trunk_data)) (\<lambda>t.
       if leaf_pages t \<noteq> [] then
         let allocated = last (leaf_pages t) in
         bindS (getS (op_page_size ops)) (\<lambda>page_size.
         bindS (liftR (trunk_encode (t\<lparr>leaf_pages := butlast (leaf_pages t)\<rparr>) page_size)) (\<lambda>enc.
         bindS (op_write_page ops first_trunk enc) (\<lambda>_.
         bindS (op_read_hdr ops HFreelistCount) (\<lambda>freelist_count.
         bindS (op_update_hdr ops HFreelistCount (freelist_count - 1)) (\<lambda>_.
         retS allocated)))))
       else
         bindS (op_update_hdr ops HFirstTrunk (next_trunk t)) (\<lambda>_.
         bindS (op_read_hdr ops HFreelistCount) (\<lambda>freelist_count.
         bindS (op_update_hdr ops HFreelistCount (freelist_count - 1)) (\<lambda>_.
         retS first_trunk))))))))"

definition new_trunk_page :: "'s pager_ops \<Rightarrow> nat \<Rightarrow> nat \<Rightarrow> nat \<Rightarrow> ('s, unit) pm" where
  \<comment> \<open>the two branches of \<open>free_page\<close> in which \<open>page_no\<close> itself becomes the new trunk\<close>
  "new_trunk_page ops page_size page_no next_no =
     bindS (liftR (trunk_encode \<lparr>next_trunk = next_no, leaf_pages = []\<rparr> page_size)) (\<lambda>enc.
     bindS (op_write_page ops page_no enc) (\<lambda>_.
     bindS (op_update_hdr ops HFirstTrunk page_no) (\<lambda>_.
     bindS (op_read_hdr ops HFreelistCount) (\<lambda>freelist_count.
     op_update_hdr ops HFreelistCount (freelist_count + 1)))))"

definition free_page :: "'s pager_ops \<Rightarrow> nat \<Rightarrow> bool \<Rightarrow> ('s, unit) pm" where
  "free_page ops page_no jr =
     bindS (op_read_hdr ops HFirstTrunk) (\<lambda>first_trunk.
     bindS (getS (op_page_size ops)) (\<lambda>page_size.
     bindS (op_read_page ops 1) (\<lambda>header_data.
     bindS (if jr then op_record_before ops 1 header_data else retS ()) (\<lambda>_.
     if first_trunk = 0 then new_trunk_page ops page_size page_no 0
     else
       bindS (op_read_page ops first_trunk) (\<lambda>trunk_data.
       bindS (liftR (trunk_decode trunk_data)) (\<lambda>t.
       if length (leaf_pages t) < max_leaves page_size then
         bindS (if jr then op_record_before ops first_trunk trunk_data else retS ()) (\<lambda>_.
         bindS (liftR (trunk_encode (t\<lparr>leaf_pages := leaf_pages t @ [page_no]\<rparr>) page_size)) (\<lambda>enc.
         bindS (op_write_page ops first_trunk enc) (\<lambda>_.
         bindS (op_read_hdr ops HFreelistCount) (\<lambda>freelist_count.
         op_update_hdr ops HFreelistCount (freelist_count + 1)))))
       else new_trunk_page ops page_size page_no first_trunk))))))"

section \<open>The walk\<close>

fun see_leaves :: "nat list \<Rightarrow> nat set \<Rightarrow> nat set res" where
  "see_leaves [] seen = Inr seen"
| "see_leaves (leaf_no # ls) seen =
     (if leaf_no \<in> seen then Inl FreelistCorruptionError else see_leaves ls (insert leaf_no seen))"

fun freelist_walk :: "'s pager_ops \<Rightarrow> nat \<Rightarrow> nat \<Rightarrow> nat \<Rightarrow> nat set \<Rightarrow> ('s, nat set) pm" where
  \<comment> \<open>the \<open>while trunk_no != 0\<close> loop; \<open>seen\<close> and \<open>result\<close> of the code are always equal\<close>
  "freelist_walk ops 0 db_size trunk_no seen = raiseS Diverges"
| "freelist_walk ops (Suc fuel) db_size trunk_no seen =
     (if trunk_no = 0 then retS seen
      else if trunk_no \<in> seen then raiseS FreelistCorruptionError
      else if db_size < trunk_no then raiseS FreelistCorruptionError
      else
        bindS (op_read_page ops trunk_no) (\<lambda>trunk_data.
        bindS (liftR (trunk_decode trunk_data)) (\<lambda>t.
        bindS (liftR (see_leaves (leaf_pages t) (insert trunk_no seen))) (\<lambda>seen'.
        freelist_walk ops fuel db_size (next_trunk t) seen'))))"

definition freelist_pages :: "'s pager_ops \<Rightarrow> ('s, nat set) pm" where
  "freelist_pages ops =
     bindS (op_read_hdr ops HDbSize) (\<lambda>db_size.
     bindS (op_read_hdr ops HFirstTrunk) (\<lambda>trunk_no.
     freelist_walk ops (db_size + 2) db_size trunk_no {}))"

section \<open>On every pager\<close>

context page_store
begin

lemma alloc_page_refines:
  "refines ok view (alloc_page ops jr) (alloc_page store_ops jr)"
  unfolding alloc_page_def
  by (intro refine_intros op_refines get_refines)

lemma free_page_refines:
  "refines ok view (free_page ops p jr) (free_page store_ops p jr)"
  unfolding free_page_def new_trunk_page_def
  by (intro refine_intros op_refines get_refines)

lemma freelist_walk_refines:
  "refines ok view (freelist_walk ops n d t seen) (freelist_walk store_ops n d t seen)"
  by (induction n arbitrary: t seen) (auto simp del: store_ops_simps intro!: refine_intros op_refines)

lemma freelist_pages_refines:
  "refines ok view (freelist_pages ops) (freelist_pages store_ops)"
  unfolding freelist_pages_def
  by (intro refine_intros op_refines freelist_walk_refines)

end

section \<open>The trunk codec\<close>

definition trunk_ok :: "trunk \<Rightarrow> bool" where
  "trunk_ok t \<longleftrightarrow>
     next_trunk t < 2 ^ 32 \<and> length (leaf_pages t) \<le> max_leaves PAGE_SIZE \<and>
     (\<forall>p \<in> set (leaf_pages t). p < 2 ^ 32)"

lemma max_leaves_PAGE_SIZE: "max_leaves PAGE_SIZE = 2046"
  by (simp add: max_leaves_def PAGE_SIZE_def TRUNK_FIXED_SIZE_def TRUNK_ENTRY_SIZE_def)

lemma length_entry_bytes [simp]: "length (concat (map (be_bytes w) ps)) = w * length ps"
  by (induction ps) auto

lemma write_entries_closed:
  "\<forall>p \<in> set ps. p < 2 ^ 32 \<Longrightarrow> 8 + 4 * i + 4 * length ps \<le> length buf \<Longrightarrow>
   write_entries i buf ps = Inr (blit buf (8 + 4 * i) (concat (map (be_bytes 4) ps)))"
proof (induction ps arbitrary: i buf)
  case (Cons p ps)
  have "pack_into 4 buf (8 + i * 4) (int p) = Inr (blit buf (8 + i * 4) (be_bytes 4 p))"
    using Cons.prems by (intro pack_into_ok) auto
  moreover have "write_entries (i + 1) (blit buf (8 + 4 * i) (be_bytes 4 p)) ps
      = Inr (blit (blit buf (8 + 4 * i) (be_bytes 4 p)) (8 + 4 * (i + 1)) (concat (map (be_bytes 4) ps)))"
    using Cons.prems by (intro Cons.IH) auto
  ultimately show ?case
    using blit_blit_after [of "8 + 4 * i" "be_bytes 4 p" "concat (map (be_bytes 4) ps)" buf] Cons.prems
    by (simp add: TRUNK_FIXED_SIZE_def TRUNK_ENTRY_SIZE_def mult.commute)
qed simp

lemma trunk_codec:
  assumes "trunk_ok t"
  shows "\<exists>pg. trunk_encode t PAGE_SIZE = Inr pg \<and> length pg = PAGE_SIZE \<and> trunk_decode pg = Inr t"
proof -
  let ?ls = "leaf_pages t" and ?n = "length (leaf_pages t)"
  define b1 where "b1 = blit (replicate PAGE_SIZE (0 :: byte)) 0 (be_bytes 4 (next_trunk t))"
  define b2 where "b2 = blit b1 4 (be_bytes 4 ?n)"
  define E where "E = concat (map (be_bytes 4) ?ls)"
  define pg where "pg = blit b2 8 E"
  have n: "?n \<le> 2046" and small: "next_trunk t < 2 ^ 32" "\<forall>p \<in> set ?ls. p < 2 ^ 32"
    using assms by (simp_all add: trunk_ok_def max_leaves_PAGE_SIZE)
  have l1: "length b1 = PAGE_SIZE" by (simp add: b1_def PAGE_SIZE_def)
  then have l2: "length b2 = PAGE_SIZE" by (simp add: b2_def PAGE_SIZE_def)
  have lE: "length E = 4 * ?n" by (simp add: E_def)
  have l3: "length pg = PAGE_SIZE" using l2 lE n by (simp add: pg_def PAGE_SIZE_def)
  have "pack_into 4 (replicate PAGE_SIZE 0) 0 (int (next_trunk t)) = Inr b1"
    unfolding b1_def using small by (intro pack_into_ok) (simp_all add: PAGE_SIZE_def)
  moreover have "pack_into 4 b1 4 (int ?n) = Inr b2"
    unfolding b2_def using n l1 by (intro pack_into_ok) (simp_all add: PAGE_SIZE_def)
  moreover have "write_entries 0 b2 ?ls = Inr pg"
    using write_entries_closed [OF small(2), of 0 b2] l2 n by (simp add: pg_def E_def PAGE_SIZE_def)
  ultimately have enc: "trunk_encode t PAGE_SIZE = Inr pg"
    using n by (simp add: trunk_encode_def max_leaves_PAGE_SIZE)
  have big: "8 + 4 * ?n \<le> PAGE_SIZE" using n by (simp add: PAGE_SIZE_def)
  have "unpack_from 4 pg 0 = Inr (next_trunk t)" "unpack_from 4 pg 4 = Inr ?n"
    using l1 l2 l3 lE n small big
    by (simp_all add: unpack_from_ok pg_def b2_def b1_def pyslice_blit_other PAGE_SIZE_def)
  moreover have "mapR (\<lambda>i. unpack_from 4 pg (TRUNK_FIXED_SIZE + i * TRUNK_ENTRY_SIZE)) [0..<?n]
      = Inr (map (\<lambda>i. ?ls ! i) [0..<?n])"
  proof (rule mapR_Inr)
    fix i assume "i \<in> set [0..<?n]"
    then have i: "i < ?n" by simp
    then have "8 + i * 4 + 4 \<le> 8 + 4 * ?n" by simp
    then have "8 + i * 4 + 4 \<le> length pg" using big l3 by linarith
    moreover have "pyslice pg (8 + i * 4) (8 + i * 4 + 4) = pyslice E (i * 4) (i * 4 + 4)"
      unfolding pg_def using i l2 lE big by (subst pyslice_blit_inside) (simp_all add: add.commute [of 4])
    moreover have "pyslice E (i * 4) (i * 4 + 4) = be_bytes 4 (?ls ! i)"
      unfolding E_def using i by (subst pyslice_concat_map) simp_all
    ultimately show "unpack_from 4 pg (TRUNK_FIXED_SIZE + i * TRUNK_ENTRY_SIZE) = Inr (?ls ! i)"
      using i small by (simp add: unpack_from_ok TRUNK_FIXED_SIZE_def TRUNK_ENTRY_SIZE_def)
  qed
  ultimately have "trunk_decode pg = Inr t" by (simp add: trunk_decode_def map_nth)
  with enc l3 show ?thesis by blast
qed

text \<open>
  A trunk page read back is the trunk that was written, for every trunk whose numbers fit 32
  bits and whose leaf list fits the page; a longer list is refused with \<open>ValueError\<close>.
\<close>

theorem trunk_roundtrip:
  assumes "next_trunk t < 2 ^ 32" and "\<forall>p \<in> set (leaf_pages t). p < 2 ^ 32"
  shows "if length (leaf_pages t) \<le> 2046
         then bindR (trunk_encode t PAGE_SIZE) trunk_decode = Inr t
         else trunk_encode t PAGE_SIZE = Inl ValueError"
  using trunk_codec [of t] assms by (auto simp: trunk_ok_def max_leaves_PAGE_SIZE trunk_encode_def)

theorem trunk_roundtrip_witness:
  "bindR (trunk_encode \<lparr>next_trunk = 9, leaf_pages = [4, 7]\<rparr> PAGE_SIZE) trunk_decode
     = Inr \<lparr>next_trunk = 9, leaf_pages = [4, 7]\<rparr>"
  using trunk_roundtrip [of "\<lparr>next_trunk = 9, leaf_pages = [4, 7]\<rparr>"] by simp

section \<open>The freelist as a stack of trunks\<close>

type_synonym free_stack = "(nat \<times> nat list) list"

fun stack_pages :: "free_stack \<Rightarrow> nat list" where
  "stack_pages [] = []"
| "stack_pages ((n, ls) # ts) = n # ls @ stack_pages ts"

fun chain :: "(nat \<Rightarrow> bytes) \<Rightarrow> nat \<Rightarrow> free_stack \<Rightarrow> bool" where
  \<comment> \<open>the trunk pages linked from page \<open>t\<close> hold exactly this stack\<close>
  "chain pg t [] = (t = 0)"
| "chain pg t ((n, ls) # ts) =
     (t = n \<and> n \<noteq> 0 \<and> length ls \<le> max_leaves PAGE_SIZE \<and>
      (\<exists>nx. trunk_decode (pg n) = Inr \<lparr>next_trunk = nx, leaf_pages = ls\<rparr> \<and> chain pg nx ts))"

fun stack_alloc :: "free_stack \<Rightarrow> nat \<times> free_stack" where
  "stack_alloc ((n, ls) # ts) =
     (if ls \<noteq> [] then (last ls, (n, butlast ls) # ts) else (n, ts))"
| "stack_alloc [] = (0, [])"

fun stack_free :: "nat \<Rightarrow> free_stack \<Rightarrow> free_stack" where
  "stack_free p [] = [(p, [])]"
| "stack_free p ((n, ls) # ts) =
     (if length ls < max_leaves PAGE_SIZE then (n, ls @ [p]) # ts else (p, []) # (n, ls) # ts)"

definition free_list :: "store \<Rightarrow> free_stack \<Rightarrow> bool" where
  \<comment> \<open>the freelist invariant: the chain from the header is this stack, no page is on it twice,
     every page on it is a data page of the file, and the header counts them\<close>
  "free_list st ts \<longleftrightarrow>
     hdr_page_ok st \<and> chain (st_pages st) (store_hdr st HFirstTrunk) ts \<and>
     distinct (stack_pages ts) \<and> (\<forall>p \<in> set (stack_pages ts). 1 < p \<and> p \<le> store_hdr st HDbSize) \<and>
     store_hdr st HFreelistCount = length (stack_pages ts)"

lemma stack_alloc_pages:
  "ts \<noteq> [] \<Longrightarrow> stack_alloc ts = (p, ts') \<Longrightarrow>
   mset (stack_pages ts) = add_mset p (mset (stack_pages ts'))"
proof (induction ts rule: stack_alloc.induct)
  case (1 n ls ts)
  have "ls \<noteq> [] \<Longrightarrow> mset ls = add_mset (last ls) (mset (butlast ls))"
    by (metis append_butlast_last_id mset.simps(1,2) union_mset_add_mset_right mset_append add_0_right)
  with 1 show ?case by (auto split: if_splits)
qed simp

lemma stack_free_pages: "mset (stack_pages (stack_free p ts)) = add_mset p (mset (stack_pages ts))"
  by (cases "(p, ts)" rule: stack_free.cases) auto

lemma chain_cong:
  "\<forall>n \<in> fst ` set ts. pg' n = pg n \<Longrightarrow> chain pg' t ts = chain pg t ts"
  by (induction ts arbitrary: t) auto

lemma trunks_in_pages: "fst ` set ts \<subseteq> set (stack_pages ts)"
  by (induction ts rule: stack_pages.induct) auto

lemma chain_numbers:
  "chain pg t ts \<Longrightarrow> t = 0 \<or> t \<in> set (stack_pages ts)"
  by (cases ts) auto

section \<open>Allocation and release implement the stack\<close>

definition same_data :: "nat set \<Rightarrow> store \<Rightarrow> store \<Rightarrow> bool" where
  \<comment> \<open>outside the pages \<open>A\<close> and the header page nothing changed, and the mode is the same\<close>
  "same_data A st st' \<longleftrightarrow>
     (\<forall>n. n \<noteq> 1 \<longrightarrow> n \<notin> A \<longrightarrow> st_pages st' n = st_pages st n)
     \<and> st_journal st' = st_journal st \<and> st_wal st' = st_wal st
     \<and> (\<forall>f. f \<noteq> HFirstTrunk \<longrightarrow> f \<noteq> HFreelistCount \<longrightarrow> f \<noteq> HDbSize \<longrightarrow> store_hdr st' f = store_hdr st f)"

lemma same_data_refl [simp]: "same_data A st st"
  by (simp add: same_data_def)

lemma same_data_trans:
  "same_data A st st1 \<Longrightarrow> same_data B st1 st2 \<Longrightarrow> same_data (A \<union> B) st st2"
  by (simp add: same_data_def)

lemma same_data_mono: "same_data A st st' \<Longrightarrow> A \<subseteq> B \<Longrightarrow> same_data B st st'"
  by (auto simp: same_data_def)

lemma free_list_page_bound:
  assumes "free_list st ts" and "p \<in> set (stack_pages ts)"
  shows "1 < p" "p < 2 ^ 32"
  using assms store_hdr_bound [of st HDbSize] by (auto simp: free_list_def)

lemma chain_head:
  assumes "free_list st ((n, ls) # ts)"
  obtains nx where "trunk_decode (st_pages st n) = Inr \<lparr>next_trunk = nx, leaf_pages = ls\<rparr>"
    "chain (st_pages st) nx ts" "nx < 2 ^ 32" "store_hdr st HFirstTrunk = n" "1 < n" "n < 2 ^ 32"
    "hdr_page_ok st" "length ls \<le> max_leaves PAGE_SIZE" "\<forall>p \<in> set ls. p < 2 ^ 32"
    "store_hdr st HFreelistCount = Suc (length (ls @ stack_pages ts))"
    "n \<notin> set (ls @ stack_pages ts)" "n \<notin> fst ` set ts" "1 \<notin> fst ` set ts"
proof -
  obtain nx where nx: "trunk_decode (st_pages st n) = Inr \<lparr>next_trunk = nx, leaf_pages = ls\<rparr>"
    "chain (st_pages st) nx ts"
    using assms by (auto simp: free_list_def)
  have "nx < 2 ^ 32"
    using chain_numbers [OF nx(2)] free_list_page_bound(2) [OF assms, of nx] by auto
  moreover have "n \<notin> fst ` set ts" "1 \<notin> fst ` set ts"
    using assms trunks_in_pages [of ts] by (fastforce simp: free_list_def)+
  ultimately show thesis
    using nx assms free_list_page_bound [OF assms] by (intro that) (auto simp: free_list_def)
qed

lemma alloc_page_leaf:
  assumes fl: "free_list st ((n, ls) # ts)" and ls: "ls \<noteq> []"
  shows "\<exists>st'. alloc_page store_ops jr st = (Inr (last ls), st') \<and> free_list st' ((n, butlast ls) # ts)
    \<and> same_data {n} st st' \<and> store_hdr st' HDbSize = store_hdr st HDbSize"
proof -
  obtain nx where h: "trunk_decode (st_pages st n) = Inr \<lparr>next_trunk = nx, leaf_pages = ls\<rparr>"
    "chain (st_pages st) nx ts" "nx < 2 ^ 32" "store_hdr st HFirstTrunk = n" "1 < n" "n < 2 ^ 32"
    "hdr_page_ok st" "length ls \<le> max_leaves PAGE_SIZE" "\<forall>p \<in> set ls. p < 2 ^ 32"
    "store_hdr st HFreelistCount = Suc (length (ls @ stack_pages ts))"
    "n \<notin> set (ls @ stack_pages ts)" "n \<notin> fst ` set ts" "1 \<notin> fst ` set ts"
    by (rule chain_head [OF fl])
  have "trunk_ok \<lparr>next_trunk = nx, leaf_pages = butlast ls\<rparr>"
    using h by (auto simp: trunk_ok_def dest: in_set_butlastD)
  then obtain enc where enc: "trunk_encode \<lparr>next_trunk = nx, leaf_pages = butlast ls\<rparr> PAGE_SIZE = Inr enc"
    "length enc = PAGE_SIZE" "trunk_decode enc = Inr \<lparr>next_trunk = nx, leaf_pages = butlast ls\<rparr>"
    using trunk_codec by blast
  define c where "c = length ls + length (stack_pages ts)"
  have c: "c < 2 ^ 32" "store_hdr st HFreelistCount = Suc c"
    using h(10) store_hdr_bound [OF h(7), of HFreelistCount] by (simp_all add: c_def)
  let ?st = "set_hdr HFreelistCount c (set_page n enc st)"
  have "n \<le> store_hdr st HDbSize" using fl by (simp add: free_list_def)
  then have "alloc_page store_ops jr st = (Inr (last ls), ?st)"
    using h enc ls c by (simp add: alloc_page_def bindS_def store_run)
  moreover have "free_list ?st ((n, butlast ls) # ts)"
  proof -
    have "chain (st_pages ?st) nx ts = chain (st_pages st) nx ts"
      using h(12,13) by (intro chain_cong) (metis pages_set_hdr pages_set_page)
    moreover have "distinct (butlast ls @ stack_pages ts)" "set (butlast ls) \<subseteq> set ls"
      using fl by (auto simp: free_list_def distinct_butlast dest: in_set_butlastD)
    ultimately show ?thesis
      using h enc fl c ls by (auto simp: free_list_def c_def dest: in_set_butlastD)
  qed
  moreover have "same_data {n} st ?st" using h c by (auto simp: same_data_def)
  ultimately show ?thesis using h c by auto
qed

lemma alloc_page_trunk:
  assumes fl: "free_list st ((n, []) # ts)"
  shows "\<exists>st'. alloc_page store_ops jr st = (Inr n, st') \<and> free_list st' ts
    \<and> same_data {} st st' \<and> store_hdr st' HDbSize = store_hdr st HDbSize"
proof -
  obtain nx where h: "trunk_decode (st_pages st n) = Inr \<lparr>next_trunk = nx, leaf_pages = []\<rparr>"
    "chain (st_pages st) nx ts" "nx < 2 ^ 32" "store_hdr st HFirstTrunk = n" "1 < n" "n < 2 ^ 32"
    "hdr_page_ok st" "length ([] :: nat list) \<le> max_leaves PAGE_SIZE" "\<forall>p \<in> set []. p < (2 :: nat) ^ 32"
    "store_hdr st HFreelistCount = Suc (length ([] @ stack_pages ts))"
    "n \<notin> set ([] @ stack_pages ts)" "n \<notin> fst ` set ts" "1 \<notin> fst ` set ts"
    by (rule chain_head [OF fl])
  define c where "c = length (stack_pages ts)"
  have c: "c < 2 ^ 32" "store_hdr st HFreelistCount = Suc c"
    using h(10) store_hdr_bound [OF h(7), of HFreelistCount] by (simp_all add: c_def)
  let ?st = "set_hdr HFreelistCount c (set_hdr HFirstTrunk nx st)"
  have "alloc_page store_ops jr st = (Inr n, ?st)"
    using h c by (simp add: alloc_page_def bindS_def store_run)
  moreover have "free_list ?st ts"
  proof -
    have "chain (st_pages ?st) nx ts = chain (st_pages st) nx ts"
      using h(12,13) by (intro chain_cong) (metis pages_set_hdr pages_set_page)
    then show ?thesis using h fl c by (auto simp: free_list_def c_def)
  qed
  moreover have "same_data {} st ?st" using h c by (auto simp: same_data_def)
  ultimately show ?thesis using h c by auto
qed

lemma alloc_page_extend:
  assumes fl: "free_list st []" and "0 < store_hdr st HDbSize" "store_hdr st HDbSize + 1 < 2 ^ 32"
  shows "\<exists>st'. alloc_page store_ops jr st = (Inr (store_hdr st HDbSize + 1), st') \<and> free_list st' []
    \<and> same_data {store_hdr st HDbSize + 1} st st' \<and> store_hdr st' HDbSize = store_hdr st HDbSize + 1
    \<and> st_pages st' (store_hdr st HDbSize + 1) = replicate PAGE_SIZE 0"
proof -
  let ?n = "store_hdr st HDbSize + 1"
  let ?st = "set_hdr HDbSize ?n (set_page ?n (replicate PAGE_SIZE 0) st)"
  have ok: "hdr_page_ok st" "store_hdr st HFirstTrunk = 0" "store_hdr st HFreelistCount = 0"
    using fl by (simp_all add: free_list_def)
  have ok': "hdr_page_ok (set_page ?n (replicate PAGE_SIZE 0) st)" using ok assms by simp
  have "alloc_page store_ops jr st = (Inr ?n, ?st)"
    using ok assms by (simp add: alloc_page_def bindS_def store_run)
  moreover have "free_list ?st [] \<and> same_data {?n} st ?st \<and> store_hdr ?st HDbSize = ?n"
    using ok ok' assms by (simp add: free_list_def same_data_def)
  moreover have "st_pages ?st ?n = replicate PAGE_SIZE 0" using assms by simp
  ultimately show ?thesis by blast
qed

lemma stack_size:
  assumes "free_list st ts" and "p \<notin> set (stack_pages ts)" and "1 < p" "p \<le> store_hdr st HDbSize"
  shows "length (stack_pages ts) + 1 < 2 ^ 32"
proof -
  have "distinct (p # stack_pages ts)" using assms by (simp add: free_list_def)
  then have "length (p # stack_pages ts) = card (set (p # stack_pages ts))"
    by (simp only: distinct_card)
  also have "\<dots> \<le> card {1..store_hdr st HDbSize}"
    using assms by (intro card_mono) (auto simp: free_list_def)
  finally show ?thesis
    using store_hdr_bound [of st HDbSize] assms(1) by (simp add: free_list_def)
qed

lemma new_trunk_run:
  assumes fl: "free_list st ts" and p: "p \<notin> set (stack_pages ts)" "1 < p" "p \<le> store_hdr st HDbSize"
  shows "\<exists>st'. new_trunk_page store_ops PAGE_SIZE p (store_hdr st HFirstTrunk) st = (Inr (), st')
    \<and> free_list st' ((p, []) # ts) \<and> same_data {p} st st' \<and> store_hdr st' HDbSize = store_hdr st HDbSize"
proof -
  let ?first = "store_hdr st HFirstTrunk" and ?c = "length (stack_pages ts)"
  have ok: "hdr_page_ok st" "chain (st_pages st) ?first ts" "store_hdr st HFreelistCount = ?c"
    using fl by (simp_all add: free_list_def)
  have bounds: "?first < 2 ^ 32" "p < 2 ^ 32" "?c + 1 < 2 ^ 32"
    using store_hdr_bound [OF ok(1), of HFirstTrunk] store_hdr_bound [OF ok(1), of HDbSize] p
      stack_size [OF fl p] by simp_all
  then have "trunk_ok \<lparr>next_trunk = ?first, leaf_pages = []\<rparr>" by (simp add: trunk_ok_def)
  then obtain enc where enc: "trunk_encode \<lparr>next_trunk = ?first, leaf_pages = []\<rparr> PAGE_SIZE = Inr enc"
    "length enc = PAGE_SIZE" "trunk_decode enc = Inr \<lparr>next_trunk = ?first, leaf_pages = []\<rparr>"
    using trunk_codec by blast
  let ?st = "set_hdr HFreelistCount (?c + 1) (set_hdr HFirstTrunk p (set_page p enc st))"
  have "new_trunk_page store_ops PAGE_SIZE p ?first st = (Inr (), ?st)"
    using ok bounds enc p by (simp add: new_trunk_page_def bindS_def store_run)
  moreover have "free_list ?st ((p, []) # ts)"
  proof -
    have "p \<notin> fst ` set ts" "1 \<notin> fst ` set ts"
      using fl p trunks_in_pages [of ts] by (fastforce simp: free_list_def)+
    then have "chain (st_pages ?st) ?first ts = chain (st_pages st) ?first ts"
      by (intro chain_cong) (metis pages_set_hdr pages_set_page)
    then show ?thesis using ok bounds enc p fl by (auto simp: free_list_def)
  qed
  moreover have "same_data {p} st ?st \<and> store_hdr ?st HDbSize = store_hdr st HDbSize"
    using ok bounds p by (auto simp: same_data_def)
  ultimately show ?thesis by blast
qed

lemma free_page_run:
  assumes fl: "free_list st ts" and p: "p \<notin> set (stack_pages ts)" "1 < p" "p \<le> store_hdr st HDbSize"
  shows "\<exists>st'. free_page store_ops p jr st = (Inr (), st') \<and> free_list st' (stack_free p ts)
    \<and> same_data (insert p (set (stack_pages ts))) st st' \<and> store_hdr st' HDbSize = store_hdr st HDbSize"
proof (cases ts)
  case Nil
  then have "hdr_page_ok st" "store_hdr st HFirstTrunk = 0" using fl by (simp_all add: free_list_def)
  then have "free_page store_ops p jr st = new_trunk_page store_ops PAGE_SIZE p (store_hdr st HFirstTrunk) st"
    by (simp add: free_page_def bindS_def store_run)
  then show ?thesis
    using new_trunk_run [OF fl p] Nil same_data_mono by fastforce
next
  case (Cons h ts')
  obtain n ls where "h = (n, ls)" by (cases h)
  then have ts: "ts = (n, ls) # ts'" using Cons by simp
  obtain nx where h: "trunk_decode (st_pages st n) = Inr \<lparr>next_trunk = nx, leaf_pages = ls\<rparr>"
    "chain (st_pages st) nx ts'" "nx < 2 ^ 32" "store_hdr st HFirstTrunk = n" "1 < n" "n < 2 ^ 32"
    "hdr_page_ok st" "length ls \<le> max_leaves PAGE_SIZE" "\<forall>p \<in> set ls. p < 2 ^ 32"
    "store_hdr st HFreelistCount = Suc (length (ls @ stack_pages ts'))"
    "n \<notin> set (ls @ stack_pages ts')" "n \<notin> fst ` set ts'" "1 \<notin> fst ` set ts'"
    by (rule chain_head [OF fl [unfolded ts]])
  show ?thesis
  proof (cases "length ls < max_leaves PAGE_SIZE")
    case False
    then have "free_page store_ops p jr st = new_trunk_page store_ops PAGE_SIZE p (store_hdr st HFirstTrunk) st"
      using h by (simp add: free_page_def bindS_def store_run)
    then show ?thesis
      using new_trunk_run [OF fl p] False ts same_data_mono by fastforce
  next
    case True
    have pb: "p < 2 ^ 32" using p store_hdr_bound [OF h(7), of HDbSize] by simp
    then have "trunk_ok \<lparr>next_trunk = nx, leaf_pages = ls @ [p]\<rparr>"
      using h True by (auto simp: trunk_ok_def)
    then obtain enc where enc: "trunk_encode \<lparr>next_trunk = nx, leaf_pages = ls @ [p]\<rparr> PAGE_SIZE = Inr enc"
      "length enc = PAGE_SIZE" "trunk_decode enc = Inr \<lparr>next_trunk = nx, leaf_pages = ls @ [p]\<rparr>"
      using trunk_codec by blast
    define c where "c = length (stack_pages ts)"
    have c: "c + 1 < 2 ^ 32" "store_hdr st HFreelistCount = c"
      using stack_size [OF fl p] fl by (simp_all add: c_def free_list_def)
    let ?st = "set_hdr HFreelistCount (c + 1) (set_page n enc st)"
    have "n \<le> store_hdr st HDbSize" using fl ts by (simp add: free_list_def)
    then have "free_page store_ops p jr st = (Inr (), ?st)"
      using h enc True c by (simp add: free_page_def bindS_def store_run)
    moreover have "free_list ?st (stack_free p ts)"
    proof -
      have "chain (st_pages ?st) nx ts' = chain (st_pages st) nx ts'"
        using h(12,13) by (intro chain_cong) (metis pages_set_hdr pages_set_page)
      then show ?thesis
        using h enc fl c p True unfolding ts by (auto simp: free_list_def c_def ts)
    qed
    moreover have "same_data (insert p (set (stack_pages ts))) st ?st \<and>
        store_hdr ?st HDbSize = store_hdr st HDbSize"
      using h c ts by (auto simp: same_data_def)
    ultimately show ?thesis by blast
  qed
qed

section \<open>Properties of the freelist\<close>

text \<open>
  C24. Allocation from a freelist that is not empty returns one of its pages and takes exactly that
  page off: the invariant still holds (so the header count stays exact and no page can be handed
  out twice), the file does not grow, and no page outside the freelist changes.
\<close>

theorem alloc_page_reuses:
  assumes "free_list st ts" and "ts \<noteq> []"
  shows "\<exists>p ts' st'. alloc_page store_ops jr st = (Inr p, st') \<and> free_list st' ts'
    \<and> mset (stack_pages ts) = add_mset p (mset (stack_pages ts')) \<and> p \<notin> set (stack_pages ts')
    \<and> same_data (set (stack_pages ts)) st st' \<and> store_hdr st' HDbSize = store_hdr st HDbSize"
proof -
  obtain n ls us where ts: "ts = (n, ls) # us" using assms(2) by (cases ts) auto
  obtain p ts' where a: "stack_alloc ts = (p, ts')" by (cases "stack_alloc ts")
  have m: "mset (stack_pages ts) = add_mset p (mset (stack_pages ts'))"
    by (rule stack_alloc_pages [OF assms(2) a])
  have "distinct (stack_pages ts)" using assms(1) by (simp add: free_list_def)
  then have "p \<notin> set (stack_pages ts')"
    using m by (metis distinct_count_atmost_1 count_add_mset set_mset_mset in_multiset_in_set
        not_in_iff nat.inject One_nat_def union_single_eq_member zero_neq_one)
  moreover have "\<exists>st'. alloc_page store_ops jr st = (Inr p, st') \<and> free_list st' ts'
    \<and> same_data (set (stack_pages ts)) st st' \<and> store_hdr st' HDbSize = store_hdr st HDbSize"
  proof (cases "ls = []")
    case True
    then show ?thesis
      using alloc_page_trunk [of st n us jr] assms(1) a ts same_data_mono by fastforce
  next
    case False
    then show ?thesis
      using alloc_page_leaf [of st n ls us jr] assms(1) a ts same_data_mono by fastforce
  qed
  ultimately show ?thesis using m by blast
qed

lemma free_list_fresh: "n < 2 ^ 32 \<Longrightarrow> free_list (fresh_store n) []"
  by (simp add: free_list_def fresh_store_hdr)

theorem alloc_page_reuses_witness:
  "\<exists>st p st'. free_list st [(3, [])] \<and> alloc_page store_ops True st = (Inr p, st') \<and> p = 3"
proof -
  obtain st where st: "free_list st [(3, [])]"
    using new_trunk_run [OF free_list_fresh, of 5 3] by (auto simp: fresh_store_hdr)
  show ?thesis using alloc_page_reuses [OF st, of True] st by fastforce
qed

text \<open>
  C25. Releasing a data page that is not free puts exactly that page on the freelist and keeps the
  invariant; afterwards the next allocation gives back some free page without growing the file.
\<close>

theorem free_page_returns:
  assumes "free_list st ts" and "p \<notin> set (stack_pages ts)" and "1 < p" "p \<le> store_hdr st HDbSize"
  shows "\<exists>ts' st'. free_page store_ops p jr st = (Inr (), st') \<and> free_list st' ts'
    \<and> mset (stack_pages ts') = add_mset p (mset (stack_pages ts)) \<and> ts' \<noteq> []
    \<and> same_data (insert p (set (stack_pages ts))) st st' \<and> store_hdr st' HDbSize = store_hdr st HDbSize"
proof -
  have "stack_free p ts \<noteq> []" by (cases "(p, ts)" rule: stack_free.cases) auto
  then show ?thesis using free_page_run [OF assms] stack_free_pages [of p ts] by blast
qed

theorem free_page_returns_witness:
  "\<exists>ts' st'. free_page store_ops 3 True (fresh_store 5) = (Inr (), st') \<and> free_list st' ts'
     \<and> stack_pages ts' = [3]"
  using free_page_returns [OF free_list_fresh, of 5 3 True] by (auto simp: fresh_store_hdr)

section \<open>The walk of the whole chain\<close>

lemma mapR_error: "mapR f xs = Inl e \<Longrightarrow> \<exists>x \<in> set xs. f x = Inl e"
  by (induction xs) (auto simp: bindR_def split: sum.splits)

lemma unpack_from_error: "unpack_from w buf off = Inl e \<Longrightarrow> e = StructError"
  by (auto simp: unpack_from_def split: if_splits)

lemma trunk_decode_error: "trunk_decode data = Inl e \<Longrightarrow> e = StructError"
  by (auto simp: trunk_decode_def bindR_def split: sum.splits dest!: unpack_from_error mapR_error)

lemma see_leaves_result:
  "(case see_leaves ls seen of Inl e \<Rightarrow> e = FreelistCorruptionError | Inr seen' \<Rightarrow> seen' = set ls \<union> seen)"
  by (induction ls seen rule: see_leaves.induct) (auto split: sum.splits)

lemma see_leaves_ok:
  "distinct ls \<Longrightarrow> set ls \<inter> seen = {} \<Longrightarrow> see_leaves ls seen = Inr (set ls \<union> seen)"
  by (induction ls seen rule: see_leaves.induct) auto

lemma freelist_walk_ends:
  "card ({1..db_size} - seen) < fuel \<Longrightarrow> fst (freelist_walk store_ops fuel db_size trunk_no seen st) \<noteq> Inl Diverges"
proof (induction fuel arbitrary: trunk_no seen)
  case (Suc fuel)
  show ?case
  proof (cases "trunk_no = 0 \<or> trunk_no \<in> seen \<or> db_size < trunk_no")
    case True
    then show ?thesis by auto
  next
    case False
    then have n: "trunk_no \<noteq> 0" "trunk_no \<notin> seen" "\<not> db_size < trunk_no" by simp_all
    show ?thesis
    proof (cases "trunk_decode (st_pages st trunk_no)")
      case (Inl e)
      then show ?thesis using n trunk_decode_error by (fastforce simp: bindS_def store_run)
    next
      case t: (Inr t)
      show ?thesis
      proof (cases "see_leaves (leaf_pages t) (insert trunk_no seen)")
        case (Inl e)
        then show ?thesis
          using n t see_leaves_result [of "leaf_pages t" "insert trunk_no seen"]
          by (simp add: bindS_def store_run)
      next
        case (Inr seen')
        then have "seen' = set (leaf_pages t) \<union> insert trunk_no seen"
          using see_leaves_result [of "leaf_pages t" "insert trunk_no seen"] by simp
        then have "trunk_no \<in> seen'" "seen \<subseteq> seen'" by auto
        moreover have "trunk_no \<in> {1..db_size} - seen" using n by simp
        ultimately have "{1..db_size} - seen' \<subset> {1..db_size} - seen" by blast
        then have "card ({1..db_size} - seen') < card ({1..db_size} - seen)"
          by (intro psubset_card_mono) auto
        then have "card ({1..db_size} - seen') < fuel" using Suc.prems by linarith
        from Suc.IH [OF this, of "next_trunk t"] show ?thesis
          using n t Inr by (simp add: bindS_def store_run)
      qed
    qed
  qed
qed simp

lemma freelist_pages_halts: "fst (freelist_pages store_ops st) \<noteq> Inl Diverges"
proof -
  have "card ({1..n} - {}) < n + 2" for n :: nat by simp
  then show ?thesis
    using freelist_walk_ends
    by (simp add: freelist_pages_def bindS_def store_read_hdr_def unpack_from_def del: freelist_walk.simps)
qed

text \<open>
  The walk over the freelist ends on every database, whatever its trunk pages hold: a chain
  that comes back to a page is reported as corrupt, and the loop bound \<open>db_size + 2\<close> is never
  what stops it.
\<close>

theorem freelist_pages_ends: "fst (freelist_pages store_ops st) \<noteq> Inl Diverges"
  by (rule freelist_pages_halts)

lemma freelist_walk_stack:
  assumes "chain (st_pages st) t ts" and "distinct (stack_pages ts)"
    and "\<forall>p \<in> set (stack_pages ts). 1 < p \<and> p \<le> db_size"
    and "set (stack_pages ts) \<inter> seen = {}" and "length ts < fuel"
  shows "freelist_walk store_ops fuel db_size t seen st = (Inr (set (stack_pages ts) \<union> seen), st)"
  using assms
proof (induction ts arbitrary: fuel t seen rule: stack_pages.induct)
  case 1
  then obtain k where "fuel = Suc k" by (cases fuel) auto
  with 1 show ?case by simp
next
  case (2 n ls ts)
  obtain k where k: "fuel = Suc k" "length ts < k" using 2(6) by (cases fuel) auto
  obtain nx where nx: "trunk_decode (st_pages st n) = Inr \<lparr>next_trunk = nx, leaf_pages = ls\<rparr>"
    "chain (st_pages st) nx ts" "t = n" "n \<noteq> 0"
    using 2(2) by auto
  have "see_leaves ls (insert n seen) = Inr (set ls \<union> insert n seen)"
    using 2 by (intro see_leaves_ok) auto
  moreover have "freelist_walk store_ops k db_size nx (set ls \<union> insert n seen) st
      = (Inr (set (stack_pages ts) \<union> (set ls \<union> insert n seen)), st)"
    using 2(3-5) nx k by (intro 2(1)) auto
  ultimately show ?case
    using 2(4,5) nx k by (auto simp: bindS_def store_run)
qed

lemma freelist_pages_run:
  assumes "free_list st ts"
  shows "freelist_pages store_ops st = (Inr (set (stack_pages ts)), st)"
proof -
  have "length ts \<le> length (stack_pages ts)" by (induction ts rule: stack_pages.induct) auto
  moreover have "length (stack_pages ts) = card (set (stack_pages ts))"
    using assms by (simp add: free_list_def distinct_card)
  moreover have "\<dots> \<le> card {1..store_hdr st HDbSize}"
    using assms by (intro card_mono) (auto simp: free_list_def)
  ultimately have "length ts < store_hdr st HDbSize + 2" by simp
  then show ?thesis
    using assms freelist_walk_stack [of st _ ts "store_hdr st HDbSize" "{}"]
    by (simp add: freelist_pages_def bindS_def store_run free_list_def del: freelist_walk.simps)
qed

text \<open>
  C26. On a sound freelist the walk returns exactly the pages of the freelist and changes nothing.
\<close>

theorem freelist_pages_exact:
  assumes "free_list st ts"
  shows "freelist_pages store_ops st = (Inr (set (stack_pages ts)), st)"
  using assms by (rule freelist_pages_run)

theorem freelist_pages_exact_witness:
  "\<exists>st. freelist_pages store_ops st = (Inr {3}, st)"
proof -
  obtain st where "free_list st [(3, [])]"
    using new_trunk_run [OF free_list_fresh, of 5 3] by (auto simp: fresh_store_hdr)
  from freelist_pages_exact [OF this] show ?thesis by auto
qed

end
