(* ===== verification/PageSpace.thy ===== *)
theory PageSpace
  imports Freelist
begin

text \<open>
  The abstract view of allocation that the tree and the overflow chains use: a database state has
  a set \<open>L\<close> of live pages, all data pages of the file that are not on the freelist. Allocation
  adds a page to \<open>L\<close>, release removes one, and neither touches the other live pages.
\<close>

definition space :: "store \<Rightarrow> nat set \<Rightarrow> bool" where
  "space st L \<longleftrightarrow>
     (\<exists>ts. free_list st ts \<and> L = {p. 1 < p \<and> p \<le> store_hdr st HDbSize} - set (stack_pages ts))"

definition keeps :: "nat set \<Rightarrow> store \<Rightarrow> store \<Rightarrow> bool" where
  \<comment> \<open>the pages of \<open>L\<close> and the mode are as before\<close>
  "keeps L st st' \<longleftrightarrow> (\<forall>p \<in> L. st_pages st' p = st_pages st p) \<and>
     st_journal st' = st_journal st \<and> st_wal st' = st_wal st"

definition room :: "nat \<Rightarrow> store \<Rightarrow> bool" where
  \<comment> \<open>the file may still grow by \<open>k\<close> pages\<close>
  "room k st \<longleftrightarrow> 0 < store_hdr st HDbSize \<and> store_hdr st HDbSize + k < 2 ^ 32"

lemma keeps_refl [simp]: "keeps L st st"
  by (simp add: keeps_def)

lemma keeps_trans: "keeps L st st' \<Longrightarrow> keeps M st' st'' \<Longrightarrow> N \<subseteq> L \<Longrightarrow> N \<subseteq> M \<Longrightarrow> keeps N st st''"
  unfolding keeps_def by (metis subsetD)

lemma keeps_mono: "keeps L st st' \<Longrightarrow> M \<subseteq> L \<Longrightarrow> keeps M st st'"
  by (auto simp: keeps_def)

lemma keepsD: "keeps L st st' \<Longrightarrow> p \<in> L \<Longrightarrow> st_pages st' p = st_pages st p"
  by (simp add: keeps_def)

lemma room_mono: "room k st \<Longrightarrow> l \<le> k \<Longrightarrow> room l st"
  by (simp add: room_def)

lemma space_page:
  assumes "space st L" and "p \<in> L"
  shows "1 < p" and "p \<noteq> 0" and "p \<noteq> 1" and "p < 2 ^ 32" and "p \<le> store_hdr st HDbSize"
proof -
  show h: "1 < p" "p \<noteq> 0" "p \<noteq> 1" "p \<le> store_hdr st HDbSize"
    using assms by (auto simp: space_def)
  have "hdr_page_ok st" using assms by (auto simp: space_def free_list_def)
  from store_hdr_bound [OF this, of HDbSize] h(4) show "p < 2 ^ 32" by simp
qed

lemma space_hdr_ok: "space st L \<Longrightarrow> hdr_page_ok st"
  by (auto simp: space_def free_list_def)

lemma space_finite: "space st L \<Longrightarrow> finite L"
  by (auto simp: space_def)

lemma same_data_keeps: "same_data A st st' \<Longrightarrow> 1 \<notin> L \<Longrightarrow> A \<inter> L = {} \<Longrightarrow> keeps L st st'"
  unfolding same_data_def keeps_def by (metis disjoint_iff)

lemma alloc_space:
  assumes sp: "space st L" and rm: "room 1 st"
  shows "\<exists>p st'. alloc_page store_ops jr st = (Inr p, st') \<and> p \<notin> L \<and> 1 < p \<and> p < 2 ^ 32 \<and>
    space st' (insert p L) \<and> keeps L st st' \<and>
    store_hdr st HDbSize \<le> store_hdr st' HDbSize \<and> store_hdr st' HDbSize \<le> store_hdr st HDbSize + 1"
proof -
  obtain ts where fl: "free_list st ts"
    and L: "L = {p. 1 < p \<and> p \<le> store_hdr st HDbSize} - set (stack_pages ts)"
    using sp by (auto simp: space_def)
  have b: "\<forall>p \<in> set (stack_pages ts). 1 < p \<and> p < 2 ^ 32 \<and> p \<le> store_hdr st HDbSize"
    using fl free_list_page_bound [OF fl] by (auto simp: free_list_def)
  consider (extend) "ts = []" | (leaf) n ls us where "ts = (n, ls) # us" "ls \<noteq> []"
    | (trunk) n us where "ts = (n, []) # us"
    by (metis list.exhaust surj_pair)
  then show ?thesis
  proof cases
    case extend
    let ?n = "store_hdr st HDbSize + 1"
    obtain st' where st': "alloc_page store_ops jr st = (Inr ?n, st')" "free_list st' []"
      "same_data {?n} st st'" "store_hdr st' HDbSize = ?n"
      using alloc_page_extend [of st jr] fl rm extend by (auto simp: room_def)
    have "space st' (insert ?n L)"
      unfolding space_def using st' extend L rm by (intro exI [of _ "[]"]) (auto simp: room_def)
    moreover have "keeps L st st'" using st'(3) L by (intro same_data_keeps) auto
    moreover have "?n \<notin> L" "1 < ?n" "?n < 2 ^ 32" using L rm by (auto simp: room_def)
    ultimately show ?thesis
      using st'(1,4) by (intro exI [of _ ?n] exI [of _ st']) simp
  next
    case leaf
    obtain st' where st': "alloc_page store_ops jr st = (Inr (last ls), st')"
      "free_list st' ((n, butlast ls) # us)" "same_data {n} st st'"
      "store_hdr st' HDbSize = store_hdr st HDbSize"
      using alloc_page_leaf [of st n ls us jr] fl leaf by auto
    have ls: "set ls = insert (last ls) (set (butlast ls))" "last ls \<notin> set (butlast ls)"
      using fl leaf append_butlast_last_id [OF leaf(2)]
      by (metis Un_insert_right list.set(1,2) set_append sup_bot_right,
          metis (no_types) distinct.simps(2) distinct_append free_list_def in_set_conv_decomp
            not_distinct_conv_prefix append_butlast_last_id leaf stack_pages.simps(2))
    have d: "distinct (n # ls @ stack_pages us)" using fl leaf by (simp add: free_list_def)
    have "last ls \<in> set ls" using leaf(2) by simp
    have "space st' (insert (last ls) L)"
      unfolding space_def
      using st' leaf L ls d b \<open>last ls \<in> set ls\<close>
      by (intro exI [of _ "(n, butlast ls) # us"]) auto
    moreover have "keeps L st st'" using st'(3) L leaf by (intro same_data_keeps) auto
    moreover have "last ls \<notin> L" "1 < last ls" "last ls < 2 ^ 32"
      using L leaf b \<open>last ls \<in> set ls\<close> by auto
    ultimately show ?thesis using st' by auto
  next
    case trunk
    obtain st' where st': "alloc_page store_ops jr st = (Inr n, st')" "free_list st' us"
      "same_data {} st st'" "store_hdr st' HDbSize = store_hdr st HDbSize"
      using alloc_page_trunk [of st n us jr] fl trunk by auto
    have d: "distinct (n # stack_pages us)" using fl trunk by (simp add: free_list_def)
    have "space st' (insert n L)"
      unfolding space_def using st' trunk L d b by (intro exI [of _ us]) auto
    moreover have "keeps L st st'" using st'(3) L by (intro same_data_keeps) auto
    moreover have "n \<notin> L" "1 < n" "n < 2 ^ 32" using L trunk b by auto
    ultimately show ?thesis using st' by auto
  qed
qed

lemma free_space:
  assumes sp: "space st L" and p: "p \<in> L"
  shows "\<exists>st'. free_page store_ops p jr st = (Inr (), st') \<and> space st' (L - {p}) \<and>
    keeps (L - {p}) st st' \<and> store_hdr st' HDbSize = store_hdr st HDbSize"
proof -
  obtain ts where fl: "free_list st ts"
    and L: "L = {p. 1 < p \<and> p \<le> store_hdr st HDbSize} - set (stack_pages ts)"
    using sp by (auto simp: space_def)
  obtain st' where st': "free_page store_ops p jr st = (Inr (), st')" "free_list st' (stack_free p ts)"
    "same_data (insert p (set (stack_pages ts))) st st'" "store_hdr st' HDbSize = store_hdr st HDbSize"
    using free_page_run [OF fl, of p jr] p L by auto
  have "set (stack_pages (stack_free p ts)) = insert p (set (stack_pages ts))"
    using stack_free_pages [of p ts] by (metis set_mset_add_mset_insert set_mset_mset)
  then have "space st' (L - {p})"
    unfolding space_def using st' L by (intro exI [of _ "stack_free p ts"]) auto
  moreover have "keeps (L - {p}) st st'" using st'(3) L by (intro same_data_keeps) auto
  ultimately show ?thesis using st' by auto
qed

lemma write_space:
  assumes sp: "space st L" and p: "p \<in> L"
  shows "space (set_page p data st) L" and "keeps (L - {p}) st (set_page p data st)"
    and "store_hdr (set_page p data st) f = store_hdr st f"
proof -
  obtain ts where fl: "free_list st ts"
    and L: "L = {p. 1 < p \<and> p \<le> store_hdr st HDbSize} - set (stack_pages ts)"
    using sp by (auto simp: space_def)
  show hdr: "store_hdr (set_page p data st) f = store_hdr st f" for f
    using space_page [OF sp p] by simp
  have "p \<notin> fst ` set ts" using p L trunks_in_pages [of ts] by auto
  then have "chain (st_pages (set_page p data st)) t ts = chain (st_pages st) t ts" for t
    by (intro chain_cong) auto
  then have "free_list (set_page p data st) ts"
    using fl space_page [OF sp p] by (simp add: free_list_def hdr)
  then show "space (set_page p data st) L" using L by (auto simp: space_def hdr)
  show "keeps (L - {p}) st (set_page p data st)" by (simp add: keeps_def)
qed

text \<open>A loop of page writes.\<close>

lemma write_pages_run:
  "\<forall>i \<in> set is. 1 < f i \<and> f i \<le> store_hdr st HDbSize \<and> length (g i) = PAGE_SIZE \<Longrightarrow>
   forS (\<lambda>i. store_write (f i) (g i)) is st = (Inr (), fold (\<lambda>i. set_page (f i) (g i)) is st)"
  by (induction "is" arbitrary: st) (auto simp: bindS_def store_run)

lemma write_pages_space:
  assumes "space st L" and "\<forall>i \<in> set is. f i \<in> L"
  shows "space (fold (\<lambda>i. set_page (f i) (g i)) is st) L"
    and "keeps (L - f ` set is) st (fold (\<lambda>i. set_page (f i) (g i)) is st)"
    and "store_hdr (fold (\<lambda>i. set_page (f i) (g i)) is st) h = store_hdr st h"
  using assms
proof (induction "is" arbitrary: st)
  case (Cons i js)
  {
    case 1
    then show ?case using Cons.IH(1) write_space(1) by simp
  next
    case 2
    then have "keeps (L - f ` set js) (set_page (f i) (g i) st)
        (fold (\<lambda>i. set_page (f i) (g i)) js (set_page (f i) (g i) st))"
      using Cons.IH(2) write_space(1) by simp
    moreover have "keeps (L - {f i}) st (set_page (f i) (g i) st)" using 2 write_space(2) by simp
    ultimately show ?case by (auto intro: keeps_trans)
  next
    case 3
    then show ?case using Cons.IH(3) write_space(1,3) by simp
  }
qed simp_all

lemma write_pages_content:
  "inj_on f (set is) \<Longrightarrow> distinct is \<Longrightarrow> i \<in> set is \<Longrightarrow>
   st_pages (fold (\<lambda>i. set_page (f i) (g i)) is st) (f i) = g i"
proof (induction "is" arbitrary: st)
  case (Cons j js)
  have other: "p \<notin> f ` set js \<Longrightarrow> st_pages (fold (\<lambda>i. set_page (f i) (g i)) js st) p = st_pages st p" for p st
    by (induction js arbitrary: st) auto
  show ?case
  proof (cases "i = j")
    case True
    then have "f i \<notin> f ` set js" using Cons.prems by (auto simp: inj_on_def)
    with True show ?thesis by (simp add: other)
  next
    case False
    then show ?thesis using Cons by simp
  qed
qed simp

lemma space_fresh: "n < 2 ^ 32 \<Longrightarrow> space (fresh_store n) {p. 1 < p \<and> p \<le> n}"
  unfolding space_def by (intro exI [of _ "[]"]) (auto simp: free_list_fresh fresh_store_hdr)

lemma alloc_pages_space:
  assumes "space st L" and "room (length xs) st"
  shows "\<exists>ps st'. mapS (\<lambda>_. alloc_page store_ops jr) xs st = (Inr ps, st') \<and> length ps = length xs \<and>
    distinct ps \<and> set ps \<inter> L = {} \<and> space st' (L \<union> set ps) \<and> keeps L st st' \<and>
    store_hdr st HDbSize \<le> store_hdr st' HDbSize \<and>
    store_hdr st' HDbSize \<le> store_hdr st HDbSize + length xs"
  using assms
proof (induction xs arbitrary: st L)
  case Nil
  then show ?case by simp
next
  case (Cons x xs)
  have "room 1 st" using Cons.prems(2) by (auto elim: room_mono)
  from alloc_space [OF Cons.prems(1) this, of jr]
  obtain p st1 where p: "alloc_page store_ops jr st = (Inr p, st1)" "p \<notin> L"
    "space st1 (insert p L)" "keeps L st st1" "store_hdr st HDbSize \<le> store_hdr st1 HDbSize"
    "store_hdr st1 HDbSize \<le> store_hdr st HDbSize + 1"
    by blast
  have "room (length xs) st1" using Cons.prems(2) p by (simp add: room_def)
  from Cons.IH [OF p(3) this] obtain ps st' where ps:
    "mapS (\<lambda>_. alloc_page store_ops jr) xs st1 = (Inr ps, st')" "length ps = length xs" "distinct ps"
    "set ps \<inter> insert p L = {}" "space st' (insert p L \<union> set ps)" "keeps (insert p L) st1 st'"
    "store_hdr st1 HDbSize \<le> store_hdr st' HDbSize"
    "store_hdr st' HDbSize \<le> store_hdr st1 HDbSize + length xs"
    by blast
  have "mapS (\<lambda>_. alloc_page store_ops jr) (x # xs) st = (Inr (p # ps), st')"
    using p ps by (simp add: bindS_def)
  moreover have "keeps L st st'" using p(4) ps(6) by (rule keeps_trans) auto
  ultimately show ?case
    using p ps by (intro exI [of _ "p # ps"] exI [of _ st']) auto
qed

section \<open>The effect of an operation on the pages in use\<close>

definition eff :: "nat set \<Rightarrow> nat set \<Rightarrow> nat \<Rightarrow> store \<Rightarrow> store \<Rightarrow> bool" where
  \<comment> \<open>afterwards the pages in use are \<open>L\<close>, those of \<open>M\<close> are as before, and the file grew by at
     most \<open>n\<close> pages\<close>
  "eff L M n st st' \<longleftrightarrow> space st' L \<and> keeps M st st' \<and>
     store_hdr st HDbSize \<le> store_hdr st' HDbSize \<and> store_hdr st' HDbSize \<le> store_hdr st HDbSize + n"

lemma eff_refl: "space st L \<Longrightarrow> eff L M n st st"
  by (simp add: eff_def)

lemma eff_trans:
  assumes "eff L1 M1 n1 st st1" and "eff L2 M2 n2 st1 st2"
    and "M \<subseteq> M1" "M \<subseteq> M2" "n1 + n2 \<le> n"
  shows "eff L2 M n st st2"
proof -
  have "keeps M st st2" using assms unfolding eff_def by (blast intro: keeps_trans)
  moreover have "store_hdr st HDbSize \<le> store_hdr st2 HDbSize"
    "store_hdr st2 HDbSize \<le> store_hdr st HDbSize + n"
    using assms(1,2,5) unfolding eff_def by linarith+
  ultimately show ?thesis using assms(2) by (simp add: eff_def)
qed

lemma eff_mono: "eff L M n st st' \<Longrightarrow> M' \<subseteq> M \<Longrightarrow> n \<le> n' \<Longrightarrow> eff L M' n' st st'"
  unfolding eff_def using keeps_mono [of M st st' M'] by linarith

lemma eff_space: "eff L M n st st' \<Longrightarrow> space st' L"
  by (simp add: eff_def)

lemma eff_page: "eff L M n st st' \<Longrightarrow> p \<in> M \<Longrightarrow> st_pages st' p = st_pages st p"
  unfolding eff_def keeps_def by blast

lemma eff_modes: "eff L M n st st' \<Longrightarrow> st_journal st' = st_journal st \<and> st_wal st' = st_wal st"
  by (simp add: eff_def keeps_def)

lemma eff_room: "eff L M n st st' \<Longrightarrow> room (n + k) st \<Longrightarrow> room k st'"
  unfolding eff_def room_def by linarith

lemma eff_alloc:
  assumes "space st L" and "room 1 st"
  obtains p st' where "alloc_page store_ops jr st = (Inr p, st')" "p \<notin> L" "1 < p" "p < 2 ^ 32"
    "eff (insert p L) L 1 st st'"
  using alloc_space [OF assms, of jr] unfolding eff_def by blast

lemma eff_allocs:
  assumes "space st L" and "room (length xs) st"
  obtains ps st' where "mapS (\<lambda>_. alloc_page store_ops jr) xs st = (Inr ps, st')" "length ps = length xs"
    "distinct ps" "set ps \<inter> L = {}" "eff (L \<union> set ps) L (length xs) st st'"
  using alloc_pages_space [OF assms, of jr] unfolding eff_def by blast

lemma eff_free:
  assumes "space st L" and "p \<in> L"
  obtains st' where "free_page store_ops p jr st = (Inr (), st')" "eff (L - {p}) (L - {p}) 0 st st'"
proof -
  obtain st' where "free_page store_ops p jr st = (Inr (), st')" "space st' (L - {p})"
    "keeps (L - {p}) st st'" "store_hdr st' HDbSize = store_hdr st HDbSize"
    using free_space [OF assms, of jr] by blast
  then show thesis by (intro that [of st']) (simp_all add: eff_def)
qed

lemma eff_write:
  assumes "space st L" and "p \<in> L" and "length data = PAGE_SIZE"
  shows "store_write p data st = (Inr (), set_page p data st)"
    and "eff L (L - {p}) 0 st (set_page p data st)"
  using assms write_space [OF assms(1,2)] space_page [OF assms(1,2)] by (simp_all add: eff_def store_run)

end
