(* ===== verification/Overflow.thy ===== *)
theory Overflow
  imports PageSpace
begin

text \<open>
  \<open>btree/overflow.py\<close>: a payload above the threshold lives in a chain of overflow pages. The
  loops that follow a chain end because the page numbers seen are distinct and fit 32 bits; they
  are total functions, by that measure. The lemmas show that a chain read back is the payload
  written, that it occupies pages that were not live before, and that freeing it gives them back.
\<close>

definition OVERFLOW_USABLE :: nat where "OVERFLOW_USABLE = PAGE_SIZE - OVERFLOW_DATA_OFFSET"

section \<open>Writing a chain\<close>

definition overflow_page_count :: "bytes \<Rightarrow> nat" where
  \<comment> \<open>\<open>math.ceil(len(payload) / _OVERFLOW_USABLE)\<close>\<close>
  "overflow_page_count payload = (length payload + OVERFLOW_USABLE - 1) div OVERFLOW_USABLE"

definition write_overflow_page :: "'s pager_ops \<Rightarrow> bytes \<Rightarrow> nat list \<Rightarrow> nat \<Rightarrow> ('s, unit) pm" where
  \<comment> \<open>one pass of the second loop\<close>
  "write_overflow_page ops payload page_nos i =
     (let next_pno = if i + 1 < length page_nos then page_nos ! (i + 1) else 0;
          chunk_start = i * OVERFLOW_USABLE;
          chunk = pyslice payload chunk_start (chunk_start + OVERFLOW_USABLE)
      in bindS (liftR (pack_into 4 (replicate PAGE_SIZE 0) OVERFLOW_NEXT_OFFSET (int next_pno))) (\<lambda>buf.
         op_write_page ops (page_nos ! i) (blit buf OVERFLOW_DATA_OFFSET chunk)))"

definition alloc_overflow_chain :: "'s pager_ops \<Rightarrow> bool \<Rightarrow> bytes \<Rightarrow> ('s, nat) pm" where
  "alloc_overflow_chain ops jr payload =
     (if payload = [] then raiseS ValueError
      else
        bindS (mapS (\<lambda>_. alloc_page ops jr) [0..<overflow_page_count payload]) (\<lambda>page_nos.
        bindS (liftR (assertR (page_nos ! 0 \<noteq> 0) AssertionError)) (\<lambda>_.
        bindS (forS (write_overflow_page ops payload page_nos) [0..<length page_nos]) (\<lambda>_.
        retS (page_nos ! 0)))))"

section \<open>Following a chain\<close>

definition chain_measure :: "nat \<Rightarrow> nat set \<Rightarrow> nat" where
  \<comment> \<open>the page numbers a chain may still visit: 32-bit numbers not seen, and the current one\<close>
  "chain_measure current seen = card (insert current {..<2 ^ 32} - seen)"

lemma unpack_from_bound: "unpack_from w buf off = Inr v \<Longrightarrow> v < 256 ^ w"
  using be_nat_bound [of "pyslice buf off (off + w)"] by (auto simp: unpack_from_def split: if_splits)

lemma chain_measure_step:
  assumes "current \<notin> seen" and "unpack_from 4 data off = Inr nx"
  shows "chain_measure nx (insert current seen) < chain_measure current seen"
proof -
  have "nx < 2 ^ 32" using unpack_from_bound [OF assms(2)] by simp
  then have "insert nx {..<2 ^ 32} - insert current seen \<subset> insert current {..<2 ^ 32} - seen"
    using assms(1) by blast
  then show ?thesis unfolding chain_measure_def by (intro psubset_card_mono) auto
qed

function read_overflow_loop ::
  "'s pager_ops \<Rightarrow> nat \<Rightarrow> nat \<Rightarrow> bytes list \<Rightarrow> nat \<Rightarrow> nat \<Rightarrow> nat set \<Rightarrow> 's \<Rightarrow> (bytes list \<times> nat) res \<times> 's"
where
  "read_overflow_loop ops db_size total_len chunks collected current seen s =
     (if current = 0 then retS (chunks, collected) s
      else if current \<in> seen then raiseS OverflowChainError s
      else if current < 1 \<or> db_size < current then raiseS OverflowChainError s
      else
        bindS (op_read_page ops current) (\<lambda>page_data.
        bindS (liftR (unpack_from 4 page_data OVERFLOW_NEXT_OFFSET)) (\<lambda>next_pg.
        let chunk = drop OVERFLOW_DATA_OFFSET page_data;
            remaining = int total_len - int collected;
            chunk' = if next_pg = 0 then take (clamp_index (length chunk) remaining) chunk else chunk
        in read_overflow_loop ops db_size total_len (chunks @ [chunk']) (collected + length chunk')
             next_pg (insert current seen))) s)"
  by pat_completeness auto
termination
  by (relation "measure (\<lambda>(ops, db_size, total_len, chunks, collected, current, seen, s).
      chain_measure current seen)") (auto intro: chain_measure_step)

definition read_overflow_chain :: "'s pager_ops \<Rightarrow> nat \<Rightarrow> nat \<Rightarrow> ('s, bytes) pm" where
  "read_overflow_chain ops first_overflow_page total_len =
     bindS (op_read_hdr ops HDbSize) (\<lambda>db_size.
     bindS (read_overflow_loop ops db_size total_len [] 0 first_overflow_page {}) (\<lambda>(chunks, collected).
     if collected < total_len then raiseS OverflowChainError
     else
       bindS (liftR (assertR (length (concat chunks) = total_len) AssertionError)) (\<lambda>_.
       retS (concat chunks))))"

function free_overflow_loop ::
  "'s pager_ops \<Rightarrow> bool \<Rightarrow> nat \<Rightarrow> nat set \<Rightarrow> 's \<Rightarrow> unit res \<times> 's"
where
  "free_overflow_loop ops jr current seen s =
     (if current = 0 then retS () s
      else if current \<in> seen then raiseS OverflowChainError s
      else
        bindS (op_read_page ops current) (\<lambda>page_data.
        bindS (liftR (unpack_from 4 page_data OVERFLOW_NEXT_OFFSET)) (\<lambda>next_pg.
        bindS (free_page ops current jr) (\<lambda>_.
        free_overflow_loop ops jr next_pg (insert current seen)))) s)"
  by pat_completeness auto
termination
  by (relation "measure (\<lambda>(ops, jr, current, seen, s). chain_measure current seen)")
    (auto intro: chain_measure_step)

definition free_overflow_chain :: "'s pager_ops \<Rightarrow> bool \<Rightarrow> nat \<Rightarrow> ('s, unit) pm" where
  "free_overflow_chain ops jr first_overflow_page = free_overflow_loop ops jr first_overflow_page {}"

declare read_overflow_loop.simps [simp del] free_overflow_loop.simps [simp del]

lemma read_overflow_loop_unfold:
  "read_overflow_loop ops db_size total_len chunks collected current seen =
     (if current = 0 then retS (chunks, collected)
      else if current \<in> seen then raiseS OverflowChainError
      else if current < 1 \<or> db_size < current then raiseS OverflowChainError
      else
        bindS (op_read_page ops current) (\<lambda>page_data.
        bindS (liftR (unpack_from 4 page_data OVERFLOW_NEXT_OFFSET)) (\<lambda>next_pg.
        let chunk = drop OVERFLOW_DATA_OFFSET page_data;
            remaining = int total_len - int collected;
            chunk' = if next_pg = 0 then take (clamp_index (length chunk) remaining) chunk else chunk
        in read_overflow_loop ops db_size total_len (chunks @ [chunk']) (collected + length chunk')
             next_pg (insert current seen))))"
  by (rule ext, subst read_overflow_loop.simps) simp

lemma free_overflow_loop_unfold:
  "free_overflow_loop ops jr current seen =
     (if current = 0 then retS ()
      else if current \<in> seen then raiseS OverflowChainError
      else
        bindS (op_read_page ops current) (\<lambda>page_data.
        bindS (liftR (unpack_from 4 page_data OVERFLOW_NEXT_OFFSET)) (\<lambda>next_pg.
        bindS (free_page ops current jr) (\<lambda>_.
        free_overflow_loop ops jr next_pg (insert current seen)))))"
  by (rule ext, subst free_overflow_loop.simps) simp

section \<open>On every pager\<close>

context page_reader
begin

lemma read_overflow_loread_refines:
  "refines ok view (read_overflow_loop ops d n chunks c p seen) (read_overflow_loop store_ops d n chunks c p seen)"
proof (induction "chain_measure p seen" arbitrary: chunks c p seen rule: less_induct)
  case less
  have IH: "refines ok view (read_overflow_loop ops d n chunks' c' nx (insert p seen))
      (read_overflow_loop store_ops d n chunks' c' nx (insert p seen))"
    if "p \<notin> seen" "unpack_from 4 data off = Inr nx" for chunks' c' nx data off
    by (rule less) (rule chain_measure_step [OF that])
  show ?case
    by (subst (1 2) read_overflow_loop_unfold)
      (intro refine_intros read_refines refines_bind_lift IH; assumption)
qed

lemma read_overflow_chain_refines:
  "refines ok view (read_overflow_chain ops p n) (read_overflow_chain store_ops p n)"
  unfolding read_overflow_chain_def
  by (intro refine_intros read_refines read_overflow_loread_refines)

end

context page_store
begin

lemma alloc_overflow_chain_refines:
  "refines ok view (alloc_overflow_chain ops jr payload) (alloc_overflow_chain store_ops jr payload)"
  unfolding alloc_overflow_chain_def write_overflow_page_def
  by (intro refine_intros op_refines alloc_page_refines)

lemma free_overflow_loop_refines:
  "refines ok view (free_overflow_loop ops jr p seen) (free_overflow_loop store_ops jr p seen)"
proof (induction "chain_measure p seen" arbitrary: p seen rule: less_induct)
  case less
  have IH: "refines ok view (free_overflow_loop ops jr nx (insert p seen))
      (free_overflow_loop store_ops jr nx (insert p seen))"
    if "p \<notin> seen" "unpack_from 4 data off = Inr nx" for nx data off
    by (rule less) (rule chain_measure_step [OF that])
  show ?case
    by (subst (1 2) free_overflow_loop_unfold)
      (intro refine_intros op_refines free_page_refines refines_bind_lift IH; assumption)
qed

lemma free_overflow_chain_refines:
  "refines ok view (free_overflow_chain ops jr p) (free_overflow_chain store_ops jr p)"
  unfolding free_overflow_chain_def by (rule free_overflow_loop_refines)

end

section \<open>What a chain holds\<close>

definition first_page :: "nat list \<Rightarrow> nat" where
  "first_page ps = (case ps of [] \<Rightarrow> 0 | p # _ \<Rightarrow> p)"

lemma first_page_simps [simp]: "first_page [] = 0" "first_page (p # ps) = p"
  by (simp_all add: first_page_def)

lemma OVERFLOW_USABLE_pos: "0 < OVERFLOW_USABLE" "OVERFLOW_USABLE + 4 = PAGE_SIZE"
  by (simp_all add: OVERFLOW_USABLE_def PAGE_SIZE_def OVERFLOW_DATA_OFFSET_def)

lemmas overflow_offsets = OVERFLOW_DATA_OFFSET_def OVERFLOW_NEXT_OFFSET_def

fun ovf_chain :: "(nat \<Rightarrow> bytes) \<Rightarrow> nat list \<Rightarrow> bytes \<Rightarrow> bool" where
  \<comment> \<open>the pages \<open>ps\<close>, linked in this order, hold \<open>data\<close>\<close>
  "ovf_chain pg [] data = (data = [])"
| "ovf_chain pg (p # ps) data =
     (data \<noteq> [] \<and> unpack_from 4 (pg p) 0 = Inr (first_page ps) \<and>
      (\<exists>rest. drop 4 (pg p) = take OVERFLOW_USABLE data @ rest \<and> (ps \<noteq> [] \<longrightarrow> rest = [])) \<and>
      ovf_chain pg ps (drop OVERFLOW_USABLE data))"

lemma ovf_chain_cong:
  "\<forall>p \<in> set ps. pg' p = pg p \<Longrightarrow> ovf_chain pg' ps data = ovf_chain pg ps data"
  by (induction ps arbitrary: data) auto

lemma read_overflow_loop_run:
  assumes "ovf_chain (st_pages st) ps data" and "distinct ps" and "set ps \<inter> seen = {}"
    and "\<forall>p \<in> set ps. 0 < p \<and> p \<le> db_size" and "collected + length data = total_len"
  shows "\<exists>cs. read_overflow_loop store_ops db_size total_len chunks collected (first_page ps) seen st
    = (Inr (chunks @ cs, total_len), st) \<and> concat cs = data"
  using assms
proof (induction ps arbitrary: data seen chunks collected)
  case Nil
  then show ?case by (subst read_overflow_loop_unfold) simp
next
  case (Cons p ps)
  let ?chunk = "take OVERFLOW_USABLE data"
  obtain rest where p: "data \<noteq> []" "unpack_from 4 (st_pages st p) 0 = Inr (first_page ps)"
    "drop 4 (st_pages st p) = ?chunk @ rest" "ps \<noteq> [] \<longrightarrow> rest = []"
    "ovf_chain (st_pages st) ps (drop OVERFLOW_USABLE data)"
    using Cons.prems(1) by auto
  have nz: "first_page ps = 0 \<longleftrightarrow> ps = []"
    using Cons.prems(4) by (cases ps) auto
  have last: "ps = [] \<Longrightarrow> length data \<le> OVERFLOW_USABLE" using p(5) by simp
  have chunk: "(if first_page ps = 0
      then take (clamp_index (length (drop 4 (st_pages st p))) (int total_len - int collected))
             (drop 4 (st_pages st p))
      else drop 4 (st_pages st p)) = ?chunk"
    using Cons.prems(5) p(4) last nz unfolding p(3) by (auto simp: clamp_index_def)
  obtain cs where cs: "read_overflow_loop store_ops db_size total_len (chunks @ [?chunk])
      (collected + length ?chunk) (first_page ps) (insert p seen) st = (Inr ((chunks @ [?chunk]) @ cs, total_len), st)"
    "concat cs = drop OVERFLOW_USABLE data"
  proof -
    have "set ps \<inter> insert p seen = {}" "collected + length ?chunk + length (drop OVERFLOW_USABLE data) = total_len"
      using Cons.prems by auto
    with Cons.IH [OF p(5), of "insert p seen" "collected + length ?chunk" "chunks @ [?chunk]"] Cons.prems
    show ?thesis by (auto intro: that)
  qed
  have "read_overflow_loop store_ops db_size total_len chunks collected (first_page (p # ps)) seen st
      = (Inr (chunks @ (?chunk # cs), total_len), st)"
    using Cons.prems p(2) cs(1)
    by (subst read_overflow_loop_unfold)
      (simp add: bindS_def store_run overflow_offsets Let_def chunk split del: if_split)
  then show ?case using cs(2) by auto
qed

lemma read_overflow_chain_run:
  assumes "ovf_chain (st_pages st) ps data" and "distinct ps" and "space st L" "set ps \<subseteq> L"
  shows "read_overflow_chain store_ops (first_page ps) (length data) st = (Inr data, st)"
proof -
  have "\<forall>p \<in> set ps. 0 < p \<and> p \<le> store_hdr st HDbSize"
    using space_page [OF assms(3)] assms(4) by fastforce
  with read_overflow_loop_run [OF assms(1,2), of "{}" "store_hdr st HDbSize" 0 "length data" "[]"]
  obtain cs where "read_overflow_loop store_ops (store_hdr st HDbSize) (length data) [] 0 (first_page ps) {} st
    = (Inr (cs, length data), st)" "concat cs = data" by auto
  then show ?thesis
    using space_hdr_ok [OF assms(3)] by (simp add: read_overflow_chain_def bindS_def store_run)
qed

lemma free_overflow_loop_run:
  assumes "ovf_chain (st_pages st) ps data" and "distinct ps" and "space st L" "set ps \<subseteq> L"
    and "set ps \<inter> seen = {}"
  shows "\<exists>st'. free_overflow_loop store_ops jr (first_page ps) seen st = (Inr (), st') \<and>
    space st' (L - set ps) \<and> keeps (L - set ps) st st' \<and> store_hdr st' HDbSize = store_hdr st HDbSize"
  using assms
proof (induction ps arbitrary: data seen st L)
  case Nil
  then show ?case by (subst free_overflow_loop_unfold) simp
next
  case (Cons p ps)
  have p: "p \<in> L" "p \<notin> seen" "unpack_from 4 (st_pages st p) 0 = Inr (first_page ps)"
    "ovf_chain (st_pages st) ps (drop OVERFLOW_USABLE data)"
    using Cons.prems by auto
  obtain st1 where st1: "free_page store_ops p jr st = (Inr (), st1)" "space st1 (L - {p})"
    "keeps (L - {p}) st st1" "store_hdr st1 HDbSize = store_hdr st HDbSize"
    using free_space [OF Cons.prems(3) p(1)] by blast
  have "\<forall>q \<in> set ps. st_pages st1 q = st_pages st q"
    using Cons.prems(2,4) keepsD [OF st1(3)] by auto
  then have "ovf_chain (st_pages st1) ps (drop OVERFLOW_USABLE data)"
    using p(4) ovf_chain_cong by blast
  then obtain st' where st': "free_overflow_loop store_ops jr (first_page ps) (insert p seen) st1 = (Inr (), st')"
    "space st' (L - {p} - set ps)" "keeps (L - {p} - set ps) st1 st'"
    "store_hdr st' HDbSize = store_hdr st1 HDbSize"
  proof -
    have "set ps \<subseteq> L - {p}" "set ps \<inter> insert p seen = {}" using Cons.prems by auto
    from Cons.IH [OF \<open>ovf_chain (st_pages st1) ps _\<close> _ st1(2) this] Cons.prems(2)
    show ?thesis by (auto intro: that)
  qed
  have "free_overflow_loop store_ops jr (first_page (p # ps)) seen st = (Inr (), st')"
    using space_page [OF Cons.prems(3) p(1)] p st1(1) st'(1)
    by (subst free_overflow_loop_unfold) (simp add: bindS_def store_run overflow_offsets)
  moreover have "L - {p} - set ps = L - set (p # ps)" by auto
  moreover have "keeps (L - {p} - set ps) st st'"
    using st1(3) st'(3) by (rule keeps_trans) auto
  ultimately show ?case using st'(2,4) st1(4) by auto
qed

section \<open>What the writer leaves\<close>

definition ovf_page :: "nat \<Rightarrow> bytes \<Rightarrow> bytes" where
  "ovf_page next_pno chunk = blit (blit (replicate PAGE_SIZE 0) 0 (be_bytes 4 next_pno)) 4 chunk"

lemma ovf_page:
  assumes "length chunk \<le> OVERFLOW_USABLE" and "nx < 2 ^ 32"
  shows "length (ovf_page nx chunk) = PAGE_SIZE" and "unpack_from 4 (ovf_page nx chunk) 0 = Inr nx"
    and "drop 4 (ovf_page nx chunk) = chunk @ replicate (OVERFLOW_USABLE - length chunk) 0"
proof -
  have l: "length (blit (replicate PAGE_SIZE (0::byte)) 0 (be_bytes 4 nx)) = PAGE_SIZE"
    by (simp add: PAGE_SIZE_def)
  show len: "length (ovf_page nx chunk) = PAGE_SIZE"
    using assms l OVERFLOW_USABLE_pos by (simp add: ovf_page_def)
  show "unpack_from 4 (ovf_page nx chunk) 0 = Inr nx"
  proof -
    have "pyslice (ovf_page nx chunk) 0 4 = be_bytes 4 nx"
      using assms l OVERFLOW_USABLE_pos by (simp add: ovf_page_def pyslice_blit_other PAGE_SIZE_def)
    then show ?thesis using assms len by (simp add: unpack_from_ok PAGE_SIZE_def)
  qed
  show "drop 4 (ovf_page nx chunk) = chunk @ replicate (OVERFLOW_USABLE - length chunk) 0"
    using assms by (simp add: ovf_page_def blit_def PAGE_SIZE_def OVERFLOW_USABLE_def OVERFLOW_DATA_OFFSET_def)
qed

lemma page_count_step:
  "payload \<noteq> [] \<Longrightarrow> overflow_page_count payload = Suc (overflow_page_count (drop OVERFLOW_USABLE payload))"
  using OVERFLOW_USABLE_pos(1)
proof (cases "OVERFLOW_USABLE \<le> length payload")
  case True
  define k where "k = length (drop OVERFLOW_USABLE payload) + OVERFLOW_USABLE - 1"
  have "length payload + OVERFLOW_USABLE - 1 = OVERFLOW_USABLE + k"
    using True OVERFLOW_USABLE_pos(1) by (simp add: k_def)
  then show ?thesis
    using OVERFLOW_USABLE_pos(1) unfolding overflow_page_count_def k_def [symmetric]
    by (simp only: div_add_self1 neq0_conv)
next
  case False
  moreover assume "payload \<noteq> []"
  ultimately have "length payload + OVERFLOW_USABLE - 1 = OVERFLOW_USABLE + (length payload - 1)"
    "length payload - 1 < OVERFLOW_USABLE" by (auto simp: neq_Nil_conv)
  then have "(length payload + OVERFLOW_USABLE - 1) div OVERFLOW_USABLE = 1"
    using OVERFLOW_USABLE_pos(1) by (simp only: div_add_self1 neq0_conv div_less)
  then show ?thesis using False OVERFLOW_USABLE_pos(1) by (simp add: overflow_page_count_def)
qed

lemma page_count_0: "overflow_page_count payload = 0 \<longleftrightarrow> payload = []"
proof (cases "payload = []")
  case True
  then show ?thesis using OVERFLOW_USABLE_pos(1) by (simp add: overflow_page_count_def)
qed (simp add: page_count_step)

lemma ovf_chain_length: "ovf_chain pg ps data \<Longrightarrow> length ps = overflow_page_count data"
  by (induction ps arbitrary: data) (auto simp: page_count_0 page_count_step)

lemma ovf_chain_of_pages:
  assumes "length ps = overflow_page_count data"
    and "\<And>i. i < length ps \<Longrightarrow> pg (ps ! i) =
      ovf_page (if i + 1 < length ps then ps ! (i + 1) else 0)
        (pyslice data (i * OVERFLOW_USABLE) (i * OVERFLOW_USABLE + OVERFLOW_USABLE))"
    and "\<forall>p \<in> set ps. p < 2 ^ 32"
  shows "ovf_chain pg ps data"
  using assms
proof (induction ps arbitrary: data)
  case Nil
  then show ?case using page_count_0 [of data] by simp
next
  case (Cons p ps)
  have ne: "data \<noteq> []" using Cons.prems(1) page_count_0 [of data] by auto
  have cnt: "length ps = overflow_page_count (drop OVERFLOW_USABLE data)"
    using Cons.prems(1) page_count_step [OF ne] by simp
  have nx: "(if 0 + 1 < length (p # ps) then (p # ps) ! (0 + 1) else 0) = first_page ps"
    by (cases ps) auto
  have "pg p = ovf_page (first_page ps) (take OVERFLOW_USABLE data)"
    using Cons.prems(2) [of 0] unfolding nx by (simp add: pyslice_def)
  moreover have "first_page ps < 2 ^ 32" using Cons.prems(3) by (cases ps) auto
  ultimately have page: "unpack_from 4 (pg p) 0 = Inr (first_page ps)"
    "drop 4 (pg p) = take OVERFLOW_USABLE data @ replicate (OVERFLOW_USABLE - length (take OVERFLOW_USABLE data)) 0"
    using ovf_page [of "take OVERFLOW_USABLE data" "first_page ps"] by simp_all
  have full: "ps \<noteq> [] \<Longrightarrow> OVERFLOW_USABLE \<le> length data"
    using cnt page_count_0 [of "drop OVERFLOW_USABLE data"] by (cases ps) auto
  have "pg (ps ! i) = ovf_page (if i + 1 < length ps then ps ! (i + 1) else 0)
      (pyslice (drop OVERFLOW_USABLE data) (i * OVERFLOW_USABLE) (i * OVERFLOW_USABLE + OVERFLOW_USABLE))"
    if "i < length ps" for i
    using Cons.prems(2) [of "Suc i"] that by (simp add: pyslice_def add.commute add.left_commute)
  then have "ovf_chain pg ps (drop OVERFLOW_USABLE data)"
    using cnt Cons.prems(3) by (intro Cons.IH) auto
  then show ?case using page full ne by auto
qed

lemma alloc_overflow_chain_run:
  assumes sp: "space st L" and rm: "room (overflow_page_count payload) st" and ne: "payload \<noteq> []"
  shows "\<exists>ps st'. alloc_overflow_chain store_ops jr payload st = (Inr (first_page ps), st') \<and>
    ovf_chain (st_pages st') ps payload \<and> ps \<noteq> [] \<and> distinct ps \<and> set ps \<inter> L = {} \<and>
    space st' (L \<union> set ps) \<and> keeps L st st' \<and> store_hdr st HDbSize \<le> store_hdr st' HDbSize \<and>
    store_hdr st' HDbSize \<le> store_hdr st HDbSize + overflow_page_count payload"
proof -
  let ?n = "overflow_page_count payload"
  obtain ps st1 where ps: "mapS (\<lambda>_. alloc_page store_ops jr) [0..<?n] st = (Inr ps, st1)"
    "length ps = ?n" "distinct ps" "set ps \<inter> L = {}" "space st1 (L \<union> set ps)" "keeps L st st1"
    "store_hdr st HDbSize \<le> store_hdr st1 HDbSize" "store_hdr st1 HDbSize \<le> store_hdr st HDbSize + ?n"
    using alloc_pages_space [OF sp, of "[0..<?n]" jr] rm by auto
  have "ps \<noteq> []" using ps(2) ne page_count_0 [of payload] by auto
  then have first: "ps ! 0 = first_page ps" by (cases ps) auto
  have b: "\<forall>p \<in> set ps. 1 < p \<and> p < 2 ^ 32" using space_page [OF ps(5)] by auto
  define nx where "nx i = (if i + 1 < length ps then ps ! (i + 1) else 0)" for i
  define g where "g i = ovf_page (nx i)
      (pyslice payload (i * OVERFLOW_USABLE) (i * OVERFLOW_USABLE + OVERFLOW_USABLE))" for i
  have nx: "nx i < 2 ^ 32" for i using b by (simp add: nx_def)
  have "write_overflow_page store_ops payload ps i = store_write (ps ! i) (g i)" for i
    using nx [of i] pack_into_ok [of "nx i" 4 0 "replicate PAGE_SIZE 0"]
    unfolding write_overflow_page_def nx_def [symmetric]
    by (simp add: overflow_offsets Let_def g_def ovf_page_def PAGE_SIZE_def)
  then have wr: "write_overflow_page store_ops payload ps = (\<lambda>i. store_write (ps ! i) (g i))" by blast
  have len: "length (g i) = PAGE_SIZE" for i
    unfolding g_def using nx by (intro ovf_page(1)) auto
  let ?st = "fold (\<lambda>i. set_page (ps ! i) (g i)) [0..<length ps] st1"
  have nz: "i < length ps \<Longrightarrow> ps ! i \<noteq> 0" for i using b nth_mem by fastforce
  have "forS (write_overflow_page store_ops payload ps) [0..<length ps] st1 = (Inr (), ?st)"
    unfolding wr using space_page(1,5) [OF ps(5)] len by (intro write_pages_run) auto
  then have run: "alloc_overflow_chain store_ops jr payload st = (Inr (first_page ps), ?st)"
    using ne ps(1) first nz [of 0] \<open>ps \<noteq> []\<close> by (simp add: alloc_overflow_chain_def bindS_def)
  have "\<forall>i \<in> set [0..<length ps]. ps ! i \<in> L \<union> set ps" by auto
  note fold = write_pages_space [OF ps(5) this, of g]
  have "inj_on ((!) ps) (set [0..<length ps])"
    using ps(3) by (auto simp: inj_on_def nth_eq_iff_index_eq)
  then have "st_pages ?st (ps ! i) = g i" if "i < length ps" for i
    using that by (intro write_pages_content) auto
  then have chain: "ovf_chain (st_pages ?st) ps payload"
    using ps(2) b by (intro ovf_chain_of_pages) (auto simp: g_def nx_def)
  have "(!) ps ` set [0..<length ps] = set ps"
    using nth_image [of "length ps" ps] by simp
  then have "keeps L st ?st"
    using fold(2) ps(4,6) by (auto intro: keeps_trans)
  with run chain fold(1,3) ps \<open>ps \<noteq> []\<close> show ?thesis by (intro exI [of _ ps] exI [of _ ?st]) simp
qed

section \<open>Properties of overflow chains\<close>

text \<open>
  C27. A payload spilled to an overflow chain is read back unchanged from the page number the
  allocation returned; the chain takes \<open>ceil(len / 8188)\<close> pages, none of them in use before, and
  every page that was in use keeps its contents.
\<close>

theorem overflow_chain_roundtrip:
  assumes "space st L" and "room (overflow_page_count payload) st" and "payload \<noteq> []"
  shows "\<exists>first ps st'. alloc_overflow_chain store_ops jr payload st = (Inr first, st') \<and>
    read_overflow_chain store_ops first (length payload) st' = (Inr payload, st') \<and>
    card ps = (length payload + 8187) div 8188 \<and> ps \<inter> L = {} \<and> space st' (L \<union> ps) \<and> keeps L st st'"
proof -
  obtain ps st' where run: "alloc_overflow_chain store_ops jr payload st = (Inr (first_page ps), st')"
    "ovf_chain (st_pages st') ps payload" "distinct ps" "set ps \<inter> L = {}" "space st' (L \<union> set ps)"
    "keeps L st st'"
    using alloc_overflow_chain_run [OF assms] by blast
  have "length ps = overflow_page_count payload"
    using ovf_chain_length [OF run(2)] .
  then have "card (set ps) = (length payload + 8187) div 8188"
    using run(3) by (simp add: distinct_card overflow_page_count_def OVERFLOW_USABLE_def PAGE_SIZE_def
        OVERFLOW_DATA_OFFSET_def)
  moreover have "read_overflow_chain store_ops (first_page ps) (length payload) st' = (Inr payload, st')"
    using read_overflow_chain_run [OF run(2,3,5)] by simp
  ultimately show ?thesis using run by blast
qed

text \<open>
  C28. Freeing a chain that was just written gives every one of its pages back: the pages in use are
  again exactly those in use before it was allocated, with the same contents.
\<close>

theorem overflow_chain_freed:
  assumes "space st L" and "room (overflow_page_count payload) st" and "payload \<noteq> []"
  shows "\<exists>first st1 st2. alloc_overflow_chain store_ops jr payload st = (Inr first, st1) \<and>
    free_overflow_chain store_ops jr' first st1 = (Inr (), st2) \<and> space st2 L \<and> keeps L st st2"
proof -
  obtain ps st' where run: "alloc_overflow_chain store_ops jr payload st = (Inr (first_page ps), st')"
    "ovf_chain (st_pages st') ps payload" "distinct ps" "set ps \<inter> L = {}" "space st' (L \<union> set ps)"
    "keeps L st st'"
    using alloc_overflow_chain_run [OF assms] by blast
  have eq: "L \<union> set ps - set ps = L" using run(4) by auto
  obtain st2 where "free_overflow_loop store_ops jr' (first_page ps) {} st' = (Inr (), st2)"
    "space st2 L" "keeps L st' st2"
    using free_overflow_loop_run [OF run(2,3,5), of "{}" jr'] eq by auto
  then show ?thesis
    using run(1,6) by (auto simp: free_overflow_chain_def intro: keeps_trans)
qed

theorem overflow_chain_roundtrip_witness:
  "\<exists>first st'. alloc_overflow_chain store_ops True (replicate 9000 7) (fresh_store 5) = (Inr first, st') \<and>
     read_overflow_chain store_ops first 9000 st' = (Inr (replicate 9000 7), st')"
  using overflow_chain_roundtrip [OF space_fresh, of 5 "replicate 9000 7" True]
  by (auto simp: room_def fresh_store_hdr overflow_page_count_def OVERFLOW_USABLE_def PAGE_SIZE_def
      OVERFLOW_DATA_OFFSET_def)

theorem overflow_chain_freed_witness:
  "\<exists>first st1 st2. alloc_overflow_chain store_ops True (replicate 9000 7) (fresh_store 5) = (Inr first, st1) \<and>
     free_overflow_chain store_ops True first st1 = (Inr (), st2) \<and> space st2 {p. 1 < p \<and> p \<le> 5}"
  using overflow_chain_freed [OF space_fresh, of 5 "replicate 9000 7" True True]
  by (auto simp: room_def fresh_store_hdr overflow_page_count_def OVERFLOW_USABLE_def PAGE_SIZE_def
      OVERFLOW_DATA_OFFSET_def)

end
