(* ===== verification/LeafCells.thy ===== *)
theory LeafCells
  imports Overflow
begin

text \<open>
  The leaf cells of \<open>btree/page.py\<close> and the leaf helpers of \<open>btree/cursor.py\<close>. A cell is
  the key, the declared payload length and then the payload, or for a payload above the threshold
  the number of the first page of its overflow chain. The argument \<open>pager\<close> that may be \<open>None\<close> is
  an option. \<open>bisect\<close> is the binary search of the standard library.
\<close>

section \<open>bisect\<close>

function bisect_left_loop :: "int list \<Rightarrow> int \<Rightarrow> nat \<Rightarrow> nat \<Rightarrow> nat" where
  "bisect_left_loop a x lo hi =
     (if lo < hi then
        (let mid = (lo + hi) div 2 in
         if a ! mid < x then bisect_left_loop a x (mid + 1) hi else bisect_left_loop a x lo mid)
      else lo)"
  by pat_completeness auto
termination by (relation "measure (\<lambda>(a, x, lo, hi). hi - lo)") auto

definition bisect_left :: "int list \<Rightarrow> int \<Rightarrow> nat" where
  "bisect_left a x = bisect_left_loop a x 0 (length a)"

function bisect_right_loop :: "int list \<Rightarrow> int \<Rightarrow> nat \<Rightarrow> nat \<Rightarrow> nat" where
  "bisect_right_loop a x lo hi =
     (if lo < hi then
        (let mid = (lo + hi) div 2 in
         if x < a ! mid then bisect_right_loop a x lo mid else bisect_right_loop a x (mid + 1) hi)
      else lo)"
  by pat_completeness auto
termination by (relation "measure (\<lambda>(a, x, lo, hi). hi - lo)") auto

definition bisect_right :: "int list \<Rightarrow> int \<Rightarrow> nat" where
  "bisect_right a x = bisect_right_loop a x 0 (length a)"

declare bisect_left_loop.simps [simp del] bisect_right_loop.simps [simp del]

section \<open>Reading cells\<close>

definition cell_head :: "bytes \<Rightarrow> nat \<Rightarrow> (nat \<times> nat \<times> nat \<times> nat \<times> nat) res" where
  \<comment> \<open>\<open>(ptr, key, kn, payload_len, vn)\<close> of cell \<open>i\<close>: the pointer, then the two varints\<close>
  "cell_head page i =
     bindR (unpack_from 2 page (LEAF_PTR_ARRAY_START + i * 2)) (\<lambda>ptr.
     bindR (decode_varint page ptr) (\<lambda>(key, kn).
     bindR (decode_varint page (ptr + kn)) (\<lambda>(payload_len, vn).
     Inr (ptr, key, kn, payload_len, vn))))"

definition read_leaf_cell :: "'s pager_ops option \<Rightarrow> bytes \<Rightarrow> nat \<Rightarrow> ('s, int \<times> bytes) pm" where
  "read_leaf_cell pager page i =
     bindS (liftR (cell_head page i)) (\<lambda>(ptr, key, kn, payload_len, vn).
     let payload_start = ptr + kn + vn in
     if OVERFLOW_THRESHOLD < payload_len then
       bindS (liftR (unpack_from 4 page payload_start)) (\<lambda>first_ovf.
       bindS (case pager of
                Some ops \<Rightarrow> read_overflow_chain ops first_ovf payload_len
              | None \<Rightarrow> retS (pyslice page payload_start (payload_start + 4))) (\<lambda>payload.
       retS (int key, payload)))
     else retS (int key, pyslice page payload_start (payload_start + payload_len)))"

definition read_all_leaf_cells :: "'s pager_ops option \<Rightarrow> bytes \<Rightarrow> ('s, (int \<times> bytes) list) pm" where
  "read_all_leaf_cells pager page =
     bindS (liftR (read_leaf_header page)) (\<lambda>(num_cells, ccs, fb, frag).
     mapS (read_leaf_cell pager page) [0..<num_cells])"

section \<open>Writing cells\<close>

definition leaf_cell :: "'s pager_ops option \<Rightarrow> bool \<Rightarrow> int \<times> bytes \<Rightarrow> ('s, bytes) pm" where
  \<comment> \<open>the bytes of one cell; a payload above the threshold is spilled when there is a pager\<close>
  "leaf_cell pager jr kv =
     (let (key, payload) = kv in
      case pager of
        Some ops \<Rightarrow>
          if OVERFLOW_THRESHOLD < length payload then
            bindS (alloc_overflow_chain ops jr payload) (\<lambda>first_ovf.
            bindS (liftR (pack 4 (int first_ovf))) (\<lambda>ptr.
            retS (encode_varint key @ encode_varint (int (length payload)) @ ptr)))
          else retS (encode_varint key @ encode_varint (int (length payload)) @ payload)
      | None \<Rightarrow> retS (encode_varint key @ encode_varint (int (length payload)) @ payload))"

definition write_leaf_cells ::
  "'s pager_ops option \<Rightarrow> bool \<Rightarrow> bytes \<Rightarrow> (int \<times> bytes) list \<Rightarrow> ('s, bytes) pm"
where
  "write_leaf_cells pager jr page cells =
     bindS (mapS (leaf_cell pager jr) cells) (\<lambda>raw_cells. liftR (leaf_of_cells page raw_cells))"

definition get_next_leaf :: "'s pager_ops \<Rightarrow> nat \<Rightarrow> ('s, nat) pm" where
  "get_next_leaf ops page_no =
     bindS (op_read_page ops page_no) (\<lambda>page. liftR (unpack_from 4 page LEAF_SIBLING_OFFSET))"

definition set_next_leaf :: "'s pager_ops \<Rightarrow> nat \<Rightarrow> nat \<Rightarrow> ('s, unit) pm" where
  "set_next_leaf ops page_no sibling_no =
     bindS (op_read_page ops page_no) (\<lambda>page.
     bindS (liftR (pack_into 4 page LEAF_SIBLING_OFFSET (int sibling_no))) (\<lambda>page'.
     op_write_page ops page_no page'))"

section \<open>Footprints\<close>

definition on_page_cell_size :: "int \<Rightarrow> nat \<Rightarrow> nat" where
  "on_page_cell_size k declared_len =
     (let payload_bytes = if OVERFLOW_THRESHOLD < declared_len then 4 else declared_len
      in length (encode_varint k) + length (encode_varint (int declared_len)) + payload_bytes)"

definition cell_footprint :: "bytes \<Rightarrow> nat \<Rightarrow> nat res" where
  \<comment> \<open>the body of the loops that sum the cells already on a page\<close>
  "cell_footprint page i =
     bindR (cell_head page i) (\<lambda>(ptr, key, kn, declared_len, vn).
     Inr (on_page_cell_size (int key) declared_len))"

definition leaf_has_room_for :: "bytes \<Rightarrow> nat \<Rightarrow> nat option \<Rightarrow> int \<Rightarrow> bytes \<Rightarrow> bool res" where
  "leaf_has_room_for page num_cells exclude_idx new_key new_value =
     (let kept = filter (\<lambda>i. exclude_idx \<noteq> Some i) [0..<num_cells] in
      bindR (mapR (cell_footprint page) kept) (\<lambda>sizes.
      let existing_bytes = sum_list sizes;
          new_cell_bytes = on_page_cell_size new_key (length new_value);
          ptr_area = LEAF_PTR_ARRAY_START + (length kept + 1) * 2
      in Inr (ptr_area + existing_bytes + new_cell_bytes \<le> PAGE_SIZE)))"

definition leaf_used_bytes :: "bytes \<Rightarrow> nat \<Rightarrow> nat res" where
  "leaf_used_bytes page num_cells =
     bindR (mapR (cell_footprint page) [0..<num_cells]) (\<lambda>sizes.
     Inr (LEAF_PTR_ARRAY_START + num_cells * 2 + sum_list sizes))"

definition leaf_underflows :: "bytes \<Rightarrow> nat \<Rightarrow> bool res" where
  "leaf_underflows page num_cells =
     (if num_cells = 0 then Inr True
      else bindR (leaf_used_bytes page num_cells) (\<lambda>used. Inr (used < PAGE_SIZE div 2)))"

definition interior_has_room_for :: "int list \<Rightarrow> int \<Rightarrow> nat \<Rightarrow> bool" where
  "interior_has_room_for keys new_key page_size \<longleftrightarrow>
     (let all_keys = keys @ [new_key];
          ptr_area = INTERIOR_HEADER_SIZE + length all_keys * 2;
          cell_bytes = sum_list (map (\<lambda>k. 4 + length (encode_varint k)) all_keys)
      in ptr_area + cell_bytes \<le> page_size)"

section \<open>Rewriting a leaf from its raw cells\<close>

definition raw_cell_bytes :: "bytes \<Rightarrow> nat \<Rightarrow> bytes res" where
  "raw_cell_bytes page cell_idx =
     bindR (cell_head page cell_idx) (\<lambda>(ptr, key, kn, pl, vn).
     let cell_len = kn + vn + (if OVERFLOW_THRESHOLD < pl then 4 else pl)
     in Inr (pyslice page ptr (ptr + cell_len)))"

definition leaf_with_sibling :: "bytes list \<Rightarrow> nat \<Rightarrow> bytes res" where
  \<comment> \<open>a fresh page holding these raw cells, then the sibling link at byte 8\<close>
  "leaf_with_sibling raw_cells sibling_link =
     bindR (leaf_of_cells (replicate PAGE_SIZE 0) raw_cells) (\<lambda>new_page.
     pack_into 4 new_page 8 (int sibling_link))"

definition raw_copy_leaf_excluding :: "bytes \<Rightarrow> nat \<Rightarrow> nat \<Rightarrow> nat \<Rightarrow> bytes res" where
  "raw_copy_leaf_excluding page num_cells exclude_idx sibling_link =
     bindR (mapR (raw_cell_bytes page) (filter (\<lambda>i. i \<noteq> exclude_idx) [0..<num_cells])) (\<lambda>raw_cells.
     leaf_with_sibling raw_cells sibling_link)"

definition write_leaf_replacing_one ::
  "'s pager_ops \<Rightarrow> bool \<Rightarrow> nat \<Rightarrow> bytes \<Rightarrow> nat \<Rightarrow> nat \<Rightarrow> int \<Rightarrow> bytes \<Rightarrow> nat \<Rightarrow> ('s, unit) pm"
where
  "write_leaf_replacing_one ops jr page_no page num_cells replace_idx new_key new_value sibling_link =
     bindS (leaf_cell (Some ops) jr (new_key, new_value)) (\<lambda>new_cell.
     bindS (liftR (mapR (\<lambda>i. if i = replace_idx then Inr new_cell else raw_cell_bytes page i)
              [0..<num_cells])) (\<lambda>raw_cells.
     bindS (liftR (leaf_with_sibling raw_cells sibling_link)) (\<lambda>new_page.
     op_write_page ops page_no new_page)))"

definition write_leaf_inserting_one ::
  "'s pager_ops \<Rightarrow> bool \<Rightarrow> nat \<Rightarrow> bytes \<Rightarrow> nat \<Rightarrow> nat \<Rightarrow> int \<Rightarrow> bytes \<Rightarrow> nat \<Rightarrow> ('s, unit) pm"
where
  "write_leaf_inserting_one ops jr page_no page num_cells insert_idx new_key new_value sibling_link =
     bindS (leaf_cell (Some ops) jr (new_key, new_value)) (\<lambda>new_cell.
     bindS (liftR (mapR (raw_cell_bytes page) [0..<num_cells])) (\<lambda>raw_cells.
     let raw_cells' = take insert_idx raw_cells @ new_cell # drop insert_idx raw_cells in
     bindS (liftR (leaf_with_sibling raw_cells' sibling_link)) (\<lambda>new_page.
     op_write_page ops page_no new_page)))"

definition free_spilled_cell_chain :: "'s pager_ops \<Rightarrow> bool \<Rightarrow> bytes \<Rightarrow> nat \<Rightarrow> ('s, unit) pm" where
  "free_spilled_cell_chain ops jr page idx =
     bindS (liftR (cell_head page idx)) (\<lambda>(cell_ptr, key, kn, payload_len, vn).
     if OVERFLOW_THRESHOLD < payload_len then
       bindS (liftR (unpack_from 4 page (cell_ptr + kn + vn))) (\<lambda>first_ovf.
       free_overflow_chain ops jr first_ovf)
     else retS ())"

definition free_spilled_cell_chains :: "'s pager_ops \<Rightarrow> bool \<Rightarrow> bytes \<Rightarrow> nat list \<Rightarrow> ('s, unit) pm" where
  "free_spilled_cell_chains ops jr page cell_indices = forS (free_spilled_cell_chain ops jr page) cell_indices"

definition write_leaf_page_with_overflow ::
  "'s pager_ops \<Rightarrow> bool \<Rightarrow> nat \<Rightarrow> (int \<times> bytes) list \<Rightarrow> nat \<Rightarrow> ('s, unit) pm"
where
  "write_leaf_page_with_overflow ops jr page_no cells sibling_link =
     bindS (write_leaf_cells (Some ops) jr (replicate PAGE_SIZE 0) cells) (\<lambda>new_page.
     bindS (liftR (pack_into 4 new_page 8 (int sibling_link))) (\<lambda>new_page'.
     op_write_page ops page_no new_page'))"

definition remove_cell_from_leaf :: "'s pager_ops \<Rightarrow> nat \<Rightarrow> int \<Rightarrow> ('s, bool) pm" where
  "remove_cell_from_leaf ops leaf_page_no key =
     bindS (op_read_page ops leaf_page_no) (\<lambda>page.
     bindS (read_all_leaf_cells None page) (\<lambda>cells.
     let idx = bisect_left (map fst cells) key in
     if length cells \<le> idx \<or> fst (cells ! idx) \<noteq> key then retS False
     else
       bindS (getS (op_has_journal ops)) (\<lambda>jr.
       bindS (free_spilled_cell_chain ops jr page idx) (\<lambda>_.
       bindS (liftR (read_leaf_header page)) (\<lambda>(num_cells, ccs, fb, frag).
       bindS (liftR (unpack_from 4 page 8)) (\<lambda>sibling.
       bindS (liftR (raw_copy_leaf_excluding page num_cells idx sibling)) (\<lambda>new_page.
       bindS (op_write_page ops leaf_page_no new_page) (\<lambda>_.
       retS True))))))))"

section \<open>On every pager\<close>

context page_reader
begin

lemma read_leaf_cell_refines:
  "refines ok view (read_leaf_cell (Some ops) page i) (read_leaf_cell (Some store_ops) page i)"
  "refines ok view (read_leaf_cell None page i) (read_leaf_cell None page i)"
  unfolding read_leaf_cell_def option.case
  by (intro refine_intros read_refines read_overflow_chain_refines)+

lemma read_all_leaf_cells_refines:
  "refines ok view (read_all_leaf_cells (Some ops) page) (read_all_leaf_cells (Some store_ops) page)"
  "refines ok view (read_all_leaf_cells None page) (read_all_leaf_cells None page)"
  unfolding read_all_leaf_cells_def
  by (intro refine_intros read_leaf_cell_refines)+

lemma get_next_leaf_refines: "refines ok view (get_next_leaf ops p) (get_next_leaf store_ops p)"
  unfolding get_next_leaf_def by (intro refine_intros read_refines)

end

context page_store
begin

lemma set_next_leaf_refines: "refines ok view (set_next_leaf ops p q) (set_next_leaf store_ops p q)"
  unfolding set_next_leaf_def by (intro refine_intros op_refines)

lemmas next_leaf_refines = get_next_leaf_refines set_next_leaf_refines

lemma leaf_cell_refines:
  "refines ok view (leaf_cell (Some ops) jr kv) (leaf_cell (Some store_ops) jr kv)"
  unfolding leaf_cell_def option.case Let_def
  by (intro refine_intros alloc_overflow_chain_refines)

lemma write_leaf_cells_refines:
  "refines ok view (write_leaf_cells (Some ops) jr page cells) (write_leaf_cells (Some store_ops) jr page cells)"
  unfolding write_leaf_cells_def by (intro refine_intros leaf_cell_refines)

lemma leaf_rewrite_refines:
  "refines ok view (write_leaf_replacing_one ops jr p page n i k v sib)
     (write_leaf_replacing_one store_ops jr p page n i k v sib)"
  "refines ok view (write_leaf_inserting_one ops jr p page n i k v sib)
     (write_leaf_inserting_one store_ops jr p page n i k v sib)"
  "refines ok view (free_spilled_cell_chain ops jr page i) (free_spilled_cell_chain store_ops jr page i)"
  "refines ok view (write_leaf_page_with_overflow ops jr p cells sib)
     (write_leaf_page_with_overflow store_ops jr p cells sib)"
  unfolding write_leaf_replacing_one_def write_leaf_inserting_one_def free_spilled_cell_chain_def
    write_leaf_page_with_overflow_def
  by (intro refine_intros op_refines leaf_cell_refines free_overflow_chain_refines
      write_leaf_cells_refines)+

lemma free_spilled_cell_chains_refines:
  "refines ok view (free_spilled_cell_chains ops jr page is) (free_spilled_cell_chains store_ops jr page is)"
  unfolding free_spilled_cell_chains_def by (intro refine_intros leaf_rewrite_refines)

lemma remove_cell_from_leaf_refines:
  "refines ok view (remove_cell_from_leaf ops p k) (remove_cell_from_leaf store_ops p k)"
  unfolding remove_cell_from_leaf_def
  by (intro refine_intros op_refines get_refines read_all_leaf_cells_refines leaf_rewrite_refines)

end

end
