(* ===== verification/Partition.thy ===== *)
theory Partition
  imports LeafCells
begin

text \<open>
  The byte partitions of \<open>btree/delete.py\<close> and \<open>btree/split.py\<close>: how a run of cells or of
  separators that does not fit one page is cut into pieces that do.
\<close>

section \<open>Leaf cells\<close>

definition merged_leaf_footprint :: "(int \<times> bytes) list \<Rightarrow> nat" where
  "merged_leaf_footprint cells =
     LEAF_PTR_ARRAY_START + length cells * 2
     + sum_list (map (\<lambda>(k, payload). on_page_cell_size k (length payload)) cells)"

fun midpoint_scan ::
  "(int \<times> bytes) list \<Rightarrow> nat list \<Rightarrow> (nat \<times> nat) option \<Rightarrow> (nat \<times> nat) option"
where
  \<comment> \<open>the scan over the boundaries; the accumulator is \<open>(best_max, best_idx)\<close>\<close>
  "midpoint_scan cells [] best = best"
| "midpoint_scan cells (split_idx # rest) best =
     (let footprint_left = merged_leaf_footprint (take split_idx cells);
          footprint_right = merged_leaf_footprint (drop split_idx cells)
      in if PAGE_SIZE < footprint_left \<or> PAGE_SIZE < footprint_right then midpoint_scan cells rest best
         else
           (let larger_half = max footprint_left footprint_right in
            midpoint_scan cells rest
              (case best of
                 None \<Rightarrow> Some (larger_half, split_idx)
               | Some (best_max, best_idx) \<Rightarrow>
                   if larger_half < best_max then Some (larger_half, split_idx) else best)))"

definition byte_midpoint_split ::
  "(int \<times> bytes) list \<Rightarrow> ((int \<times> bytes) list \<times> (int \<times> bytes) list) res"
where
  "byte_midpoint_split cells =
     (if length cells < 2 then Inl ValueError
      else case midpoint_scan cells [1..<length cells] None of
             None \<Rightarrow> Inl RuntimeErr
           | Some (best_max, best_idx) \<Rightarrow> Inr (take best_idx cells, drop best_idx cells))"

fun nway_leaf_loop ::
  "(int \<times> bytes) list list \<Rightarrow> (int \<times> bytes) list \<Rightarrow> (int \<times> bytes) list \<Rightarrow> (int \<times> bytes) list list"
where
  \<comment> \<open>\<open>groups\<close>, \<open>current\<close> and the cells still to pack\<close>
  "nway_leaf_loop groups current [] = (if current \<noteq> [] then groups @ [current] else groups)"
| "nway_leaf_loop groups current (cell # rest) =
     (if current \<noteq> [] \<and> PAGE_SIZE < merged_leaf_footprint (current @ [cell])
      then nway_leaf_loop (groups @ [current]) [cell] rest
      else nway_leaf_loop groups (current @ [cell]) rest)"

definition balanced_nway_leaf_split :: "(int \<times> bytes) list \<Rightarrow> (int \<times> bytes) list list res" where
  "balanced_nway_leaf_split cells =
     (if \<exists>cell \<in> set cells. PAGE_SIZE < merged_leaf_footprint [cell] then Inl RuntimeErr
      else Inr (nway_leaf_loop [] [] cells))"

definition borrow_fits_receiver :: "(int \<times> bytes) list \<Rightarrow> int \<times> bytes \<Rightarrow> bool" where
  "borrow_fits_receiver receiver_cells borrowed \<longleftrightarrow>
     merged_leaf_footprint (receiver_cells @ [borrowed]) \<le> PAGE_SIZE"

section \<open>Interior nodes\<close>

definition interior_footprint :: "int list \<Rightarrow> nat" where
  "interior_footprint keys =
     INTERIOR_HEADER_SIZE + length keys * 2 + sum_list (map (\<lambda>k. 4 + length (encode_varint k)) keys)"

definition interior_fits :: "int list \<Rightarrow> bool" where
  "interior_fits keys \<longleftrightarrow> interior_footprint keys \<le> PAGE_SIZE"

type_synonym inode = "int list \<times> nat list"

fun nway_interior_loop ::
  "int list \<Rightarrow> nat list \<Rightarrow> (int \<times> nat) list \<Rightarrow> inode list \<times> int list"
where
  \<comment> \<open>\<open>cur_keys\<close>, \<open>cur_children\<close> and the keys to come, each with the child to its right\<close>
  "nway_interior_loop cur_keys cur_children [] = ([(cur_keys, cur_children)], [])"
| "nway_interior_loop cur_keys cur_children ((key, next_child) # rest) =
     (if cur_keys \<noteq> [] \<and> \<not> interior_fits (cur_keys @ [key]) then
        (let (nodes, push_up_keys) = nway_interior_loop [] [next_child] rest
         in ((cur_keys, cur_children) # nodes, key # push_up_keys))
      else nway_interior_loop (cur_keys @ [key]) (cur_children @ [next_child]) rest)"

definition balanced_nway_interior_split :: "int list \<Rightarrow> nat list \<Rightarrow> (inode list \<times> int list) res" where
  \<comment> \<open>\<open>all_children[i + 1]\<close> raises \<open>IndexError\<close> when there are too few children\<close>
  "balanced_nway_interior_split all_keys all_children =
     (if length all_children \<le> length all_keys then Inl IndexError
      else Inr (nway_interior_loop [] [hd all_children] (zip all_keys (tl all_children))))"

section \<open>Facts about footprints\<close>

lemma LEAF_PTR_ARRAY_START_val: "LEAF_PTR_ARRAY_START = 12"
  by (simp add: LEAF_PTR_ARRAY_START_def LEAF_HEADER_SIZE_def)

lemma merged_leaf_footprint_append:
  "merged_leaf_footprint (xs @ ys) + 12 = merged_leaf_footprint xs + merged_leaf_footprint ys"
  by (simp add: merged_leaf_footprint_def LEAF_PTR_ARRAY_START_val)

lemma merged_leaf_footprint_Cons:
  "merged_leaf_footprint (kv # xs) = 2 + on_page_cell_size (fst kv) (length (snd kv)) + merged_leaf_footprint xs"
  by (simp add: merged_leaf_footprint_def split_beta)

lemma merged_leaf_footprint_Nil [simp]: "merged_leaf_footprint [] = 12"
  by (simp add: merged_leaf_footprint_def LEAF_PTR_ARRAY_START_val)

lemma on_page_cell_size_bound: "on_page_cell_size k n \<le> PAGE_SIZE - 14"
proof -
  consider "OVERFLOW_THRESHOLD < n" | "n \<le> OVERFLOW_THRESHOLD" by linarith
  then show ?thesis
  proof cases
    case 1
    then show ?thesis
      using length_encode_varint_bounds [of k] length_encode_varint_bounds [of "int n"]
      by (simp add: on_page_cell_size_def PAGE_SIZE_def)
  next
    case 2
    then have "n < 2 ^ 14" by (simp add: OVERFLOW_THRESHOLD_def PAGE_SIZE_def)
    then have "length (encode_varint (int n)) \<le> 2"
      by (auto simp: length_encode_varint varint_len_def)
    then show ?thesis
      using 2 length_encode_varint_bounds [of k]
      by (simp add: on_page_cell_size_def OVERFLOW_THRESHOLD_def PAGE_SIZE_def)
  qed
qed

lemma single_cell_fits: "merged_leaf_footprint [kv] \<le> PAGE_SIZE"
  using on_page_cell_size_bound [of "fst kv" "length (snd kv)"]
  by (simp add: merged_leaf_footprint_Cons PAGE_SIZE_def)

section \<open>The greedy leaf partition\<close>

lemma nway_leaf_loop_concat: "concat (nway_leaf_loop groups current cells) = concat groups @ current @ cells"
  by (induction groups current cells rule: nway_leaf_loop.induct) auto

lemma nway_leaf_loop_fits:
  "\<forall>g \<in> set groups. g \<noteq> [] \<and> merged_leaf_footprint g \<le> PAGE_SIZE \<Longrightarrow>
   merged_leaf_footprint current \<le> PAGE_SIZE \<Longrightarrow>
   \<forall>g \<in> set (nway_leaf_loop groups current cells). g \<noteq> [] \<and> merged_leaf_footprint g \<le> PAGE_SIZE"
proof (induction groups current cells rule: nway_leaf_loop.induct)
  case (1 groups current)
  then show ?case by simp
next
  case (2 groups current cell rest)
  show ?case
  proof (cases "current \<noteq> [] \<and> PAGE_SIZE < merged_leaf_footprint (current @ [cell])")
    case True
    have "\<forall>g \<in> set (groups @ [current]). g \<noteq> [] \<and> merged_leaf_footprint g \<le> PAGE_SIZE"
      using True 2(3,4) by auto
    from 2(1) [OF True this single_cell_fits] True show ?thesis by simp
  next
    case False
    then have "merged_leaf_footprint (current @ [cell]) \<le> PAGE_SIZE"
      using single_cell_fits [of cell] by (cases "current = []") (simp_all only: append_Nil, simp add: not_less)
    from 2(2) [OF False 2(3) this] False show ?thesis by auto
  qed
qed

lemma nway_leaf_loop_single:
  "merged_leaf_footprint (current @ cells) \<le> PAGE_SIZE \<Longrightarrow> current @ cells \<noteq> [] \<Longrightarrow>
   nway_leaf_loop [] current cells = [current @ cells]"
proof (induction cells arbitrary: current)
  case (Cons c cs)
  have "merged_leaf_footprint (current @ [c]) \<le> PAGE_SIZE"
    using Cons.prems(1) merged_leaf_footprint_append [of "current @ [c]" cs]
    by (simp add: merged_leaf_footprint_def LEAF_PTR_ARRAY_START_val)
  then show ?case using Cons.IH [of "current @ [c]"] Cons.prems by simp
qed simp

lemma balanced_nway_leaf_split_run:
  "balanced_nway_leaf_split cells = Inr (nway_leaf_loop [] [] cells)"
  using single_cell_fits by (fastforce simp: balanced_nway_leaf_split_def not_less)

text \<open>
  C29. The leaf partition never fails: for every run of cells, of any sizes, it returns groups
  that are not empty, that each fit one page, and that put together are the cells in their order.
\<close>

theorem leaf_partition_total:
  "\<exists>groups. balanced_nway_leaf_split cells = Inr groups \<and> concat groups = cells \<and>
     (\<forall>g \<in> set groups. g \<noteq> [] \<and> merged_leaf_footprint g \<le> PAGE_SIZE)"
proof (intro exI conjI)
  show "balanced_nway_leaf_split cells = Inr (nway_leaf_loop [] [] cells)"
    by (rule balanced_nway_leaf_split_run)
  show "concat (nway_leaf_loop [] [] cells) = cells" by (simp add: nway_leaf_loop_concat)
  show "\<forall>g \<in> set (nway_leaf_loop [] [] cells). g \<noteq> [] \<and> merged_leaf_footprint g \<le> PAGE_SIZE"
    by (rule nway_leaf_loop_fits) (simp_all add: PAGE_SIZE_def)
qed

theorem leaf_partition_total_witness:
  "\<exists>groups. balanced_nway_leaf_split [(1, [7, 7]), (2, [8])] = Inr groups \<and> concat groups = [(1, [7, 7]), (2, [8])]"
  using leaf_partition_total [of "[(1, [7, 7]), (2, [8])]"] by blast

section \<open>The two-page redistribution\<close>

definition good_cut :: "(int \<times> bytes) list \<Rightarrow> nat \<Rightarrow> bool" where
  \<comment> \<open>both sides of the boundary fit a page\<close>
  "good_cut cells i \<longleftrightarrow> merged_leaf_footprint (take i cells) \<le> PAGE_SIZE \<and>
     merged_leaf_footprint (drop i cells) \<le> PAGE_SIZE"

definition larger_half :: "(int \<times> bytes) list \<Rightarrow> nat \<Rightarrow> nat" where
  "larger_half cells i = max (merged_leaf_footprint (take i cells)) (merged_leaf_footprint (drop i cells))"

definition best_of :: "(int \<times> bytes) list \<Rightarrow> nat set \<Rightarrow> (nat \<times> nat) option \<Rightarrow> bool" where
  "best_of cells S r =
     (case r of
        None \<Rightarrow> \<forall>i \<in> S. \<not> good_cut cells i
      | Some (m, b) \<Rightarrow> b \<in> S \<and> good_cut cells b \<and> m = larger_half cells b \<and>
          (\<forall>i \<in> S. good_cut cells i \<longrightarrow> m \<le> larger_half cells i))"

lemma midpoint_scan_best:
  "best_of cells seen best \<Longrightarrow> best_of cells (seen \<union> set boundaries) (midpoint_scan cells boundaries best)"
proof (induction boundaries arbitrary: best seen)
  case (Cons i js)
  let ?best = "if good_cut cells i then
      (case best of None \<Rightarrow> Some (larger_half cells i, i)
       | Some (m, b) \<Rightarrow> if larger_half cells i < m then Some (larger_half cells i, i) else best)
     else best"
  have step: "midpoint_scan cells (i # js) best = midpoint_scan cells js ?best"
    unfolding larger_half_def by (auto simp: good_cut_def not_le Let_def)
  have "best_of cells (insert i seen) ?best"
    using Cons.prems by (auto simp: best_of_def split: option.splits prod.splits)
  from Cons.IH [OF this] show ?case unfolding step by simp
qed simp

lemma footprint_mono: "merged_leaf_footprint (take i cells) \<le> merged_leaf_footprint cells"
  using merged_leaf_footprint_append [of "take i cells" "drop i cells"]
  by (simp add: merged_leaf_footprint_def LEAF_PTR_ARRAY_START_val)

text \<open>
  C30. Redistributing two adjacent leaves that each hold a cell and fit a page never fails, and
  the boundary chosen is the best one: both new leaves are nonempty and fit a page, together they
  are the old cells in order, and no other boundary that fits has a smaller larger half.
\<close>

theorem redistribute_total:
  assumes "left \<noteq> []" and "right \<noteq> []"
    and "merged_leaf_footprint left \<le> PAGE_SIZE" and "merged_leaf_footprint right \<le> PAGE_SIZE"
  shows "\<exists>l r. byte_midpoint_split (left @ right) = Inr (l, r) \<and> l @ r = left @ right \<and> l \<noteq> [] \<and> r \<noteq> [] \<and>
    merged_leaf_footprint l \<le> PAGE_SIZE \<and> merged_leaf_footprint r \<le> PAGE_SIZE \<and>
    max (merged_leaf_footprint l) (merged_leaf_footprint r)
      \<le> max (merged_leaf_footprint left) (merged_leaf_footprint right)"
proof -
  let ?cells = "left @ right" and ?b = "length left"
  have b: "?b \<in> set [1..<length ?cells]" "good_cut ?cells ?b"
    using assms by (auto simp: good_cut_def Suc_le_eq)
  have best: "best_of ?cells (set [1..<length ?cells]) (midpoint_scan ?cells [1..<length ?cells] None)"
    using midpoint_scan_best [of ?cells "{}" None "[1..<length ?cells]"] by (simp add: best_of_def)
  obtain m i where mi: "midpoint_scan ?cells [1..<length ?cells] None = Some (m, i)"
    using best b by (cases "midpoint_scan ?cells [1..<length ?cells] None") (auto simp: best_of_def)
  then have i: "i \<in> set [1..<length ?cells]" "good_cut ?cells i"
    "larger_half ?cells i \<le> larger_half ?cells ?b"
    using best b by (auto simp: best_of_def)
  have "byte_midpoint_split ?cells = Inr (take i ?cells, drop i ?cells)"
    using b mi by (auto simp: byte_midpoint_split_def)
  moreover have "take i ?cells \<noteq> []" "drop i ?cells \<noteq> []" using i(1) by auto
  moreover have "larger_half ?cells ?b = max (merged_leaf_footprint left) (merged_leaf_footprint right)"
    by (simp add: larger_half_def)
  ultimately show ?thesis
    using i(2,3) append_take_drop_id [of i ?cells] unfolding good_cut_def larger_half_def by metis
qed

theorem redistribute_total_witness:
  "\<exists>l r. byte_midpoint_split [(1, [7, 7]), (2, [8])] = Inr (l, r) \<and> l \<noteq> [] \<and> r \<noteq> []"
  using redistribute_total [of "[(1, [7, 7])]" "[(2, [8])]"] single_cell_fits by auto

section \<open>The interior partition\<close>


lemma interior_fits_small: "interior_fits []" "interior_fits [key]"
  using length_encode_varint_bounds [of key]
  by (simp_all add: interior_fits_def interior_footprint_def INTERIOR_HEADER_SIZE_def PAGE_SIZE_def)

definition joined_keys :: "inode list \<Rightarrow> int list \<Rightarrow> int list" where
  \<comment> \<open>the keys of the nodes with the boundary keys put back between them\<close>
  "joined_keys nodes ups = fst (hd nodes) @ concat (map2 (\<lambda>u n. u # fst n) ups (tl nodes))"

definition interior_partition :: "inode list \<Rightarrow> int list \<Rightarrow> int list \<Rightarrow> nat list \<Rightarrow> bool" where
  "interior_partition nodes ups keys children \<longleftrightarrow>
     length nodes = length ups + 1 \<and>
     (\<forall>(ks, cs) \<in> set nodes. length cs = length ks + 1 \<and> interior_fits ks) \<and>
     concat (map snd nodes) = children \<and> joined_keys nodes ups = keys"

lemma nway_interior_loop_partition:
  assumes "length cur_children = length cur_keys + 1" and "interior_fits cur_keys"
  shows "case nway_interior_loop cur_keys cur_children kcs of (nodes, ups) \<Rightarrow>
    interior_partition nodes ups (cur_keys @ map fst kcs) (cur_children @ map snd kcs)"
  using assms
proof (induction cur_keys cur_children kcs rule: nway_interior_loop.induct)
  case (1 cur_keys cur_children)
  then show ?case by (simp add: interior_partition_def joined_keys_def)
next
  case (2 cur_keys cur_children key next_child rest)
  show ?case
  proof (cases "cur_keys \<noteq> [] \<and> \<not> interior_fits (cur_keys @ [key])")
    case True
    obtain ns us where r: "nway_interior_loop [] [next_child] rest = (ns, us)" by fastforce
    from 2(1) [OF True] r have p: "interior_partition ns us (map fst rest) (next_child # map snd rest)"
      by (simp add: interior_fits_small)
    then obtain n ns' where "ns = n # ns'" by (cases ns) (auto simp: interior_partition_def)
    with p show ?thesis
      using True r 2(3,4) by (auto simp: interior_partition_def joined_keys_def)
  next
    case False
    then have "interior_fits (cur_keys @ [key])" using interior_fits_small(2) [of key] by (cases "cur_keys = []") auto
    with 2(2) [OF False] 2(3) False show ?thesis by auto
  qed
qed

text \<open>
  Splitting an interior node conserves everything: for every node with one child more than
  keys it returns nodes that fit a page and have one child more than keys, the children in order
  are the old children, and the keys with the pushed-up keys put back between the nodes are the
  old keys.
\<close>

theorem interior_partition_conserves:
  assumes "length children = length keys + 1"
  shows "\<exists>nodes ups. balanced_nway_interior_split keys children = Inr (nodes, ups) \<and>
    length nodes = length ups + 1 \<and>
    (\<forall>(ks, cs) \<in> set nodes. length cs = length ks + 1 \<and> interior_fits ks) \<and>
    concat (map snd nodes) = children \<and>
    fst (hd nodes) @ concat (map2 (\<lambda>u n. u # fst n) ups (tl nodes)) = keys"
proof -
  obtain c cs where c: "children = c # cs" "length cs = length keys"
    using assms by (cases children) auto
  obtain nodes ups where r: "nway_interior_loop [] [c] (zip keys cs) = (nodes, ups)" by fastforce
  then have "interior_partition nodes ups keys children"
    using nway_interior_loop_partition [of "[c]" "[]" "zip keys cs"] c
    by (simp add: interior_fits_small)
  then show ?thesis
    using r c by (auto simp: balanced_nway_interior_split_def interior_partition_def joined_keys_def)
qed

theorem interior_partition_conserves_witness:
  "\<exists>nodes ups. balanced_nway_interior_split [5, 9] [3, 4, 7] = Inr (nodes, ups) \<and>
     concat (map snd nodes) = [3, 4, 7]"
  using interior_partition_conserves [of "[3, 4, 7]" "[5, 9]"] by auto

end
