(* ===== verification/LeafFacts.thy ===== *)
theory LeafFacts
  imports LeafCells Partition
begin

text \<open>
  What the leaf routines do on a well-formed leaf. An abstract cell is a key, its whole payload and
  the pages of its overflow chain (none for an inline cell); \<open>leaf_at\<close> says that a page holds a
  list of such cells. The lemmas give the run of each routine on the reference pager.
\<close>

section \<open>bisect on sorted keys\<close>

lemma bisect_left_loop_sorted:
  assumes "sorted a" and "lo \<le> hi" and "hi \<le> length a"
    and "\<forall>i < lo. a ! i < x" and "\<forall>i. hi \<le> i \<longrightarrow> i < length a \<longrightarrow> x \<le> a ! i"
  shows "bisect_left_loop a x lo hi = length (takeWhile (\<lambda>k. k < x) a)"
  using assms
proof (induction a x lo hi rule: bisect_left_loop.induct)
  case (1 a x lo hi)
  let ?mid = "(lo + hi) div 2"
  note srt = "1.prems"(1) and low = "1.prems"(4) and high = "1.prems"(5) and len = "1.prems"(3)
  show ?case
  proof (cases "lo < hi")
    case False
    then have eq: "lo = hi" using "1.prems"(2) by simp
    have "takeWhile (\<lambda>k. k < x) a = take lo a"
      using low high eq by (intro takeWhile_eq_take_P_nth) (auto simp: not_less)
    then have "length (takeWhile (\<lambda>k. k < x) a) = lo" using eq len by simp
    then show ?thesis using False by (simp add: bisect_left_loop.simps)
  next
    case True
    then have mid: "lo \<le> ?mid" "?mid < hi" "?mid < length a" using len by auto
    show ?thesis
    proof (cases "a ! ?mid < x")
      case less: True
      have "\<forall>i < ?mid + 1. a ! i < x"
      proof (intro allI impI)
        fix i assume "i < ?mid + 1"
        then have "a ! i \<le> a ! ?mid" using srt mid(3) by (intro sorted_nth_mono) auto
        then show "a ! i < x" using less by simp
      qed
      then have "bisect_left_loop a x (?mid + 1) hi = length (takeWhile (\<lambda>k. k < x) a)"
        using "1.IH"(1) [OF True refl less srt _ len _ high] mid by simp
      then show ?thesis using True less by (subst bisect_left_loop.simps) (simp add: Let_def)
    next
      case ge: False
      have "\<forall>i. ?mid \<le> i \<longrightarrow> i < length a \<longrightarrow> x \<le> a ! i"
      proof (intro allI impI)
        fix i assume "?mid \<le> i" "i < length a"
        then have "a ! ?mid \<le> a ! i" using srt by (intro sorted_nth_mono) auto
        then show "x \<le> a ! i" using ge by simp
      qed
      then have "bisect_left_loop a x lo ?mid = length (takeWhile (\<lambda>k. k < x) a)"
        using "1.IH"(2) [OF True refl ge srt _ _ low] mid by simp
      then show ?thesis using True ge by (subst bisect_left_loop.simps) (simp add: Let_def)
    qed
  qed
qed

lemma bisect_left_sorted: "sorted a \<Longrightarrow> bisect_left a x = length (takeWhile (\<lambda>k. k < x) a)"
  unfolding bisect_left_def by (rule bisect_left_loop_sorted) auto

lemma bisect_right_loop_left:
  "bisect_right_loop a x lo hi = bisect_left_loop a (x + 1) lo hi"
proof (induction a x lo hi rule: bisect_right_loop.induct)
  case (1 a x lo hi)
  then show ?case
    by (subst bisect_right_loop.simps, subst bisect_left_loop.simps) (auto simp: Let_def not_less)
qed

lemma bisect_right_sorted: "sorted a \<Longrightarrow> bisect_right a x = length (takeWhile (\<lambda>k. k \<le> x) a)"
  using bisect_left_sorted [of a "x + 1"]
  by (simp add: bisect_right_def bisect_left_def bisect_right_loop_left)

section \<open>Abstract cells\<close>

type_synonym cell = "int \<times> bytes \<times> nat list"

definition spills :: "bytes \<Rightarrow> bool" where "spills v \<longleftrightarrow> OVERFLOW_THRESHOLD < length v"

fun cell_raw :: "cell \<Rightarrow> bytes" where
  "cell_raw (k, v, ps) =
     encode_varint k @ encode_varint (int (length v)) @ (if spills v then be_bytes 4 (first_page ps) else v)"

fun cell_kv :: "cell \<Rightarrow> int \<times> bytes" where "cell_kv (k, v, ps) = (k, v)"
fun cell_pages :: "cell \<Rightarrow> nat list" where "cell_pages (k, v, ps) = ps"

fun cell_shallow :: "cell \<Rightarrow> int \<times> bytes" where
  \<comment> \<open>what a reader without a pager returns\<close>
  "cell_shallow (k, v, ps) = (k, if spills v then be_bytes 4 (first_page ps) else v)"

fun cell_ok :: "(nat \<Rightarrow> bytes) \<Rightarrow> cell \<Rightarrow> bool" where
  "cell_ok pg (k, v, ps) \<longleftrightarrow> key_ok k \<and> length v < 2 ^ 64 \<and>
     (if spills v then ovf_chain pg ps v \<and> distinct ps \<and> first_page ps < 2 ^ 32 else ps = [])"

lemma fst_cell [simp]: "fst (cell_kv c) = fst c" "fst (cell_shallow c) = fst c"
  by (cases c; simp)+

lemma length_cell_raw: "length (cell_raw c) = on_page_cell_size (fst c) (length (snd (cell_kv c)))"
  by (cases c) (auto simp: on_page_cell_size_def spills_def)

lemma cell_ok_cong:
  "\<forall>p \<in> set (cell_pages c). pg' p = pg p \<Longrightarrow> cell_ok pg' c = cell_ok pg c"
  by (cases c) (simp add: ovf_chain_cong [of _ pg' pg])

lemma cell_key_ok: "cell_ok pg c \<Longrightarrow> key_ok (fst c)"
  by (cases c) auto

lemma cell_head_ok:
  assumes at: "cell_at pg LEAF_PTR_ARRAY_START i (cell_raw (k, v, ps))" and ok: "cell_ok pgs (k, v, ps)"
  obtains ptr where
    "cell_head pg i =
       Inr (ptr, nat k, length (encode_varint k), length v, length (encode_varint (int (length v))))"
    "ptr + length (cell_raw (k, v, ps)) \<le> length pg"
    "pyslice pg ptr (ptr + length (cell_raw (k, v, ps))) = cell_raw (k, v, ps)"
    "drop (ptr + length (encode_varint k) + length (encode_varint (int (length v)))) pg =
       (if spills v then be_bytes 4 (first_page ps) else v) @ drop (ptr + length (cell_raw (k, v, ps))) pg"
proof -
  let ?raw = "cell_raw (k, v, ps)" and ?ek = "encode_varint k" and ?el = "encode_varint (int (length v))"
  let ?body = "if spills v then be_bytes 4 (first_page ps) else v"
  obtain ptr where ptr: "unpack_from 2 pg (LEAF_PTR_ARRAY_START + i * 2) = Inr ptr"
    "ptr + length ?raw \<le> length pg" "pyslice pg ptr (ptr + length ?raw) = ?raw"
    using at by (auto simp: cell_at_def)
  have d: "drop ptr pg = ?ek @ ?el @ ?body @ drop (ptr + length ?raw) pg"
    using drop_of_pyslice [OF ptr(3,2)] by simp
  have d2: "drop (ptr + length ?ek) pg = ?el @ ?body @ drop (ptr + length ?raw) pg"
  proof -
    have "drop (ptr + length ?ek) pg = drop (length ?ek) (drop ptr pg)" by (simp add: add.commute)
    then show ?thesis by (simp add: d)
  qed
  have d3: "drop (ptr + length ?ek + length ?el) pg = ?body @ drop (ptr + length ?raw) pg"
  proof -
    have "drop (ptr + length ?ek + length ?el) pg = drop (length ?el) (drop (ptr + length ?ek) pg)"
      by (simp add: add.commute add.left_commute)
    then show ?thesis by (simp add: d2)
  qed
  have "decode_varint pg ptr = Inr (nat k, length ?ek)"
    using ok by (intro varint_roundtrip_nonneg [OF _ _ d]) (auto simp: key_ok_def)
  moreover have "decode_varint pg (ptr + length ?ek) = Inr (nat (int (length v)), length ?el)"
    using ok by (intro varint_roundtrip_nonneg [OF _ _ d2]) auto
  ultimately have "cell_head pg i = Inr (ptr, nat k, length ?ek, length v, length ?el)"
    using ptr(1) by (simp add: cell_head_def)
  then show thesis using ptr(2,3) d3 by (rule that)
qed

lemma raw_cell_bytes_ok:
  assumes "cell_at pg LEAF_PTR_ARRAY_START i (cell_raw c)" and "cell_ok pgs c"
  shows "raw_cell_bytes pg i = Inr (cell_raw c)" and "cell_footprint pg i = Inr (length (cell_raw c))"
proof -
  obtain k v ps where c: "c = (k, v, ps)" by (cases c)
  obtain ptr where h: "cell_head pg i =
       Inr (ptr, nat k, length (encode_varint k), length v, length (encode_varint (int (length v))))"
    "pyslice pg ptr (ptr + length (cell_raw (k, v, ps))) = cell_raw (k, v, ps)"
    using cell_head_ok assms unfolding c by blast
  have l: "length (cell_raw (k, v, ps)) = length (encode_varint k) + length (encode_varint (int (length v)))
      + (if OVERFLOW_THRESHOLD < length v then 4 else length v)"
    by (simp add: spills_def)
  show "raw_cell_bytes pg i = Inr (cell_raw c)"
    unfolding c raw_cell_bytes_def h(1) using h(2) l by (simp only: bindR_simps prod.case Let_def)
  have "0 \<le> k" using assms(2) by (simp add: c key_ok_def)
  then show "cell_footprint pg i = Inr (length (cell_raw c))"
    unfolding c cell_footprint_def h(1) length_cell_raw by simp
qed

lemma read_leaf_cell_ok:
  assumes at: "cell_at pg LEAF_PTR_ARRAY_START i (cell_raw c)" and ok: "cell_ok (st_pages st) c"
  shows "read_leaf_cell None pg i st = (Inr (cell_shallow c), st)"
    and "space st L \<Longrightarrow> set (cell_pages c) \<subseteq> L \<Longrightarrow> read_leaf_cell (Some store_ops) pg i st = (Inr (cell_kv c), st)"
proof -
  obtain k v ps where c: "c = (k, v, ps)" by (cases c)
  obtain ptr where h: "cell_head pg i =
       Inr (ptr, nat k, length (encode_varint k), length v, length (encode_varint (int (length v))))"
    "ptr + length (cell_raw (k, v, ps)) \<le> length pg"
    "drop (ptr + length (encode_varint k) + length (encode_varint (int (length v)))) pg =
       (if spills v then be_bytes 4 (first_page ps) else v) @ drop (ptr + length (cell_raw (k, v, ps))) pg"
    using cell_head_ok at ok unfolding c by blast
  define ps0 where "ps0 = ptr + length (encode_varint k) + length (encode_varint (int (length v)))"
  have body: "pyslice pg ps0 (ps0 + length b) = b"
    if "(if spills v then be_bytes 4 (first_page ps) else v) = b" for b
    using h(3) that by (simp add: pyslice_def ps0_def)
  have "0 \<le> k" using ok by (simp add: c key_ok_def)
  then have k: "0 \<le> k" "int (nat k) = k" by simp_all
  have fit: "ps0 + (if spills v then 4 else length v) \<le> length pg"
    using h(2) by (simp add: ps0_def split: if_splits)
  show "read_leaf_cell None pg i st = (Inr (cell_shallow c), st)"
  proof (cases "spills v")
    case True
    then show ?thesis
      using body [of "be_bytes 4 (first_page ps)"] fit
      unfolding c read_leaf_cell_def h(1)
      by (simp add: k ps0_def [symmetric] bindS_def unpack_from_def spills_def [symmetric] Let_def)
  next
    case False
    then show ?thesis
      using body [of v] fit
      unfolding c read_leaf_cell_def h(1)
      by (simp add: k ps0_def [symmetric] bindS_def spills_def [symmetric] Let_def)
  qed
  show "read_leaf_cell (Some store_ops) pg i st = (Inr (cell_kv c), st)"
    if sp: "space st L" "set (cell_pages c) \<subseteq> L"
  proof (cases "spills v")
    case True
    then have ch: "ovf_chain (st_pages st) ps v" "distinct ps" "first_page ps < 2 ^ 32"
      using ok by (simp_all add: c)
    have "read_overflow_chain store_ops (first_page ps) (length v) st = (Inr v, st)"
      using ch sp by (intro read_overflow_chain_run) (auto simp: c)
    moreover have "unpack_from 4 pg ps0 = Inr (first_page ps)"
      using body [of "be_bytes 4 (first_page ps)"] fit True ch(3) by (simp add: unpack_from_def)
    ultimately show ?thesis
      using True unfolding c read_leaf_cell_def h(1)
      by (simp add: k ps0_def [symmetric] bindS_def spills_def [symmetric] Let_def)
  next
    case False
    then show ?thesis
      using body [of v] fit
      unfolding c read_leaf_cell_def h(1)
      by (simp add: k ps0_def [symmetric] bindS_def spills_def [symmetric] Let_def)
  qed
qed

section \<open>Leaves\<close>

definition leaf_fits :: "cell list \<Rightarrow> bool" where
  "leaf_fits cs \<longleftrightarrow> merged_leaf_footprint (map cell_kv cs) \<le> PAGE_SIZE"

definition leaf_at :: "(nat \<Rightarrow> bytes) \<Rightarrow> bytes \<Rightarrow> cell list \<Rightarrow> nat \<Rightarrow> bool" where
  \<comment> \<open>the page holds these cells and this sibling link, the chains are in \<open>pg\<close>\<close>
  "leaf_at pg page cs sib \<longleftrightarrow>
     leaf_page page (map cell_raw cs) sib \<and> leaf_fits cs \<and> (\<forall>c \<in> set cs. cell_ok pg c)"

definition all_pages :: "cell list \<Rightarrow> nat list" where
  "all_pages cs = concat (map cell_pages cs)"

lemma all_pages_simps [simp]:
  "all_pages [] = []" "all_pages (c # cs) = cell_pages c @ all_pages cs"
  "all_pages (xs @ ys) = all_pages xs @ all_pages ys"
  by (simp_all add: all_pages_def)

lemma set_all_pages: "set (all_pages cs) = (\<Union>c \<in> set cs. set (cell_pages c))"
  by (simp add: all_pages_def)

lemma raw_footprint:
  "merged_leaf_footprint (map cell_kv cs) = LEAF_PTR_ARRAY_START + length cs * 2 + cells_size (map cell_raw cs)"
  by (induction cs)
    (auto simp: merged_leaf_footprint_Cons length_cell_raw LEAF_PTR_ARRAY_START_val)

lemma leaf_at_parts:
  assumes "leaf_at pg page cs sib"
  shows "length page = PAGE_SIZE" and "page_type page = Inr PAGE_LEAF_TABLE"
    and "\<exists>ccs fb fr. read_leaf_header page = Inr (length cs, ccs, fb, fr)"
    and "i < length cs \<Longrightarrow> cell_at page LEAF_PTR_ARRAY_START i (cell_raw (cs ! i))"
    and "i < length cs \<Longrightarrow> cell_ok pg (cs ! i)" and "unpack_from 4 page 8 = Inr sib" and "sib < 2 ^ 32"
proof -
  show len: "length page = PAGE_SIZE" and "page_type page = Inr PAGE_LEAF_TABLE"
    and "\<exists>ccs fb fr. read_leaf_header page = Inr (length cs, ccs, fb, fr)"
    and "i < length cs \<Longrightarrow> cell_at page LEAF_PTR_ARRAY_START i (cell_raw (cs ! i))"
    and "i < length cs \<Longrightarrow> cell_ok pg (cs ! i)"
    using assms by (auto simp: leaf_at_def leaf_page_def)
  have sib: "be_nat (pyslice page 8 12) = sib" using assms by (simp add: leaf_at_def leaf_page_def)
  then show "unpack_from 4 page 8 = Inr sib" using len by (simp add: unpack_from_def PAGE_SIZE_def)
  then show "sib < 2 ^ 32" using unpack_from_bound [of 4 page 8 sib] by simp
qed

lemma mapS_run:
  "(\<And>x. x \<in> set xs \<Longrightarrow> f x st = (Inr (g x), st)) \<Longrightarrow> mapS f xs st = (Inr (map g xs), st)"
  by (induction xs) (auto simp: bindS_def)

lemma read_all_leaf_cells_ok:
  assumes leaf: "leaf_at (st_pages st) page cs sib"
  shows "read_all_leaf_cells None page st = (Inr (map cell_shallow cs), st)"
    and "space st L \<Longrightarrow> set (all_pages cs) \<subseteq> L \<Longrightarrow>
      read_all_leaf_cells (Some store_ops) page st = (Inr (map cell_kv cs), st)"
proof -
  obtain ccs fb fr where hdr: "read_leaf_header page = Inr (length cs, ccs, fb, fr)"
    using leaf_at_parts(3) [OF leaf] by blast
  note parts = leaf_at_parts(4,5) [OF leaf]
  have "mapS (read_leaf_cell None page) [0..<length cs] st
      = (Inr (map (\<lambda>i. cell_shallow (cs ! i)) [0..<length cs]), st)"
    by (intro mapS_run read_leaf_cell_ok(1) parts) auto
  moreover have "map (\<lambda>i. cell_shallow (cs ! i)) [0..<length cs] = map cell_shallow cs"
    by (rule nth_equalityI) auto
  ultimately show "read_all_leaf_cells None page st = (Inr (map cell_shallow cs), st)"
    by (simp add: read_all_leaf_cells_def hdr)
  assume sp: "space st L" "set (all_pages cs) \<subseteq> L"
  have "mapS (read_leaf_cell (Some store_ops) page) [0..<length cs] st
      = (Inr (map (\<lambda>i. cell_kv (cs ! i)) [0..<length cs]), st)"
    using sp(2) nth_mem
    by (intro mapS_run read_leaf_cell_ok(2) [OF parts sp(1)]) (fastforce simp: set_all_pages)+
  moreover have "map (\<lambda>i. cell_kv (cs ! i)) [0..<length cs] = map cell_kv cs"
    by (rule nth_equalityI) auto
  ultimately show "read_all_leaf_cells (Some store_ops) page st = (Inr (map cell_kv cs), st)"
    by (simp add: read_all_leaf_cells_def hdr)
qed

lemma raw_cells_ok:
  assumes leaf: "leaf_at pg page cs sib" and idx: "\<forall>i \<in> set idxs. i < length cs"
  shows "mapR (raw_cell_bytes page) idxs = Inr (map (\<lambda>i. cell_raw (cs ! i)) idxs)"
    and "mapR (cell_footprint page) idxs = Inr (map (\<lambda>i. length (cell_raw (cs ! i))) idxs)"
  using idx by (auto intro!: mapR_Inr raw_cell_bytes_ok leaf_at_parts(4,5) [OF leaf])

lemma skip_index:
  assumes "i < length cs"
  shows "map (\<lambda>j. f (cs ! j)) (filter (\<lambda>j. j \<noteq> i) [0..<length cs]) = map f (take i cs @ drop (Suc i) cs)"
proof -
  have "[0..<length cs] = [0..<i] @ [i..<length cs]"
    using assms upt_add_eq_append [of 0 i "length cs - i"] by simp
  then have "[0..<length cs] = [0..<i] @ i # [Suc i..<length cs]"
    using assms by (simp add: upt_conv_Cons)
  then have "filter (\<lambda>j. j \<noteq> i) [0..<length cs] = [0..<i] @ [Suc i..<length cs]"
    by (auto simp: filter_id_conv)
  moreover have "map (\<lambda>j. f (cs ! j)) [0..<i] = map f (take i cs)"
    using assms by (intro nth_equalityI) auto
  moreover have "map (\<lambda>j. f (cs ! j)) [Suc i..<length cs] = map f (drop (Suc i) cs)"
    by (intro nth_equalityI) auto
  ultimately show ?thesis by simp
qed

lemma all_indices: "map (\<lambda>j. f (cs ! j)) [0..<length cs] = map f cs"
  by (rule nth_equalityI) auto

lemma leaf_has_room_for_new:
  assumes leaf: "leaf_at pg page cs sib"
  shows "leaf_has_room_for page (length cs) None k v
    = Inr (merged_leaf_footprint (map cell_kv cs @ [(k, v)]) \<le> PAGE_SIZE)"
proof -
  have "mapR (cell_footprint page) [0..<length cs] = Inr (map (length \<circ> cell_raw) cs)"
    using raw_cells_ok(2) [OF leaf, of "[0..<length cs]"] all_indices [of "length \<circ> cell_raw" cs]
    by (simp add: o_def)
  moreover have "sum_list (map (length \<circ> cell_raw) cs) = cells_size (map cell_raw cs)"
    by (simp add: cells_size_def)
  moreover have "merged_leaf_footprint (map cell_kv cs @ [(k, v)]) =
      merged_leaf_footprint (map cell_kv cs) + 2 + on_page_cell_size k (length v)"
    using merged_leaf_footprint_append [of "map cell_kv cs" "[(k, v)]"]
    by (simp add: merged_leaf_footprint_Cons)
  ultimately show ?thesis
    by (simp add: leaf_has_room_for_def raw_footprint Let_def add.commute add.left_commute)
qed

lemma leaf_has_room_for_replace:
  assumes leaf: "leaf_at pg page cs sib" and i: "i < length cs"
  shows "leaf_has_room_for page (length cs) (Some i) k v
    = Inr (merged_leaf_footprint (map cell_kv (take i cs @ drop (Suc i) cs) @ [(k, v)]) \<le> PAGE_SIZE)"
proof -
  let ?cs = "take i cs @ drop (Suc i) cs"
  have kept: "filter (\<lambda>j. Some i \<noteq> Some j) [0..<length cs] = filter (\<lambda>j. j \<noteq> i) [0..<length cs]"
    by (rule filter_cong) auto
  have "mapR (cell_footprint page) (filter (\<lambda>j. j \<noteq> i) [0..<length cs]) = Inr (map (length \<circ> cell_raw) ?cs)"
    using raw_cells_ok(2) [OF leaf, of "filter (\<lambda>j. j \<noteq> i) [0..<length cs]"]
      skip_index [OF i, of "length \<circ> cell_raw"] by (simp add: o_def)
  moreover have "length (filter (\<lambda>j. j \<noteq> i) [0..<length cs]) = length ?cs"
    using arg_cong [OF skip_index [OF i, of id], of length] by simp
  moreover have "sum_list (map (length \<circ> cell_raw) ?cs) = cells_size (map cell_raw ?cs)"
    by (simp add: cells_size_def del: map_append)
  moreover have "merged_leaf_footprint (map cell_kv ?cs @ [(k, v)]) =
      merged_leaf_footprint (map cell_kv ?cs) + 2 + on_page_cell_size k (length v)"
    using merged_leaf_footprint_append [of "map cell_kv ?cs" "[(k, v)]"]
    by (simp add: merged_leaf_footprint_Cons)
  ultimately show ?thesis
    unfolding leaf_has_room_for_def kept Let_def raw_footprint
    by (simp add: raw_footprint add.commute add.left_commute del: map_append)
qed

lemma leaf_page_set_sibling:
  assumes "leaf_page page raws s" and "sib < 2 ^ 32"
  shows "pack_into 4 page 8 (int sib) = Inr (blit page 8 (be_bytes 4 sib))"
    and "leaf_page (blit page 8 (be_bytes 4 sib)) raws sib"
proof -
  let ?pg = "blit page 8 (be_bytes 4 sib)"
  have len: "length page = PAGE_SIZE" using assms(1) by (simp add: leaf_page_def)
  then show "pack_into 4 page 8 (int sib) = Inr ?pg"
    using assms(2) by (intro pack_into_ok) (simp_all add: PAGE_SIZE_def)
  have l: "length ?pg = PAGE_SIZE" using len by (simp add: PAGE_SIZE_def)
  have same: "pyslice ?pg i j = pyslice page i j" if "j \<le> 8 \<or> 12 \<le> i" for i j
    using that len by (intro pyslice_blit_other) (auto simp: PAGE_SIZE_def)
  have "cell_at ?pg LEAF_PTR_ARRAY_START i raw" if "cell_at page LEAF_PTR_ARRAY_START i raw" for i raw
    using that l len same unfolding cell_at_def
    by (auto simp: unpack_from_def LEAF_PTR_ARRAY_START_val split: if_splits)
  moreover have "read_leaf_header ?pg = read_leaf_header page" "page_type ?pg = page_type page"
    using l len by (simp_all add: read_leaf_header_def page_type_def unpack_from_def same)
  moreover have "be_nat (pyslice ?pg 8 12) = sib"
    using len assms(2) by (simp add: PAGE_SIZE_def)
  ultimately show "leaf_page ?pg raws sib"
    using assms(1) l unfolding leaf_page_def by simp
qed

lemma leaf_with_sibling_ok:
  assumes "leaf_fits cs" and "sib < 2 ^ 32"
  shows "\<exists>page. leaf_with_sibling (map cell_raw cs) sib = Inr page \<and> leaf_page page (map cell_raw cs) sib"
proof -
  have "LEAF_PTR_ARRAY_START + 2 * length (map cell_raw cs) + cells_size (map cell_raw cs) \<le> PAGE_SIZE"
    using assms(1) by (simp add: leaf_fits_def raw_footprint)
  from leaf_of_cells_ok [OF _ this, of "replicate PAGE_SIZE 0"]
  obtain page s where "leaf_of_cells (replicate PAGE_SIZE 0) (map cell_raw cs) = Inr page"
    "leaf_page page (map cell_raw cs) s" by auto
  then show ?thesis
    using leaf_page_set_sibling [OF _ assms(2)] by (auto simp: leaf_with_sibling_def)
qed

lemma raw_copy_ok:
  assumes leaf: "leaf_at pg page cs sib" and i: "i < length cs"
  shows "\<exists>page'. raw_copy_leaf_excluding page (length cs) i sib = Inr page' \<and>
    leaf_at pg page' (take i cs @ drop (Suc i) cs) sib"
proof -
  let ?cs = "take i cs @ drop (Suc i) cs"
  have sub: "set ?cs \<subseteq> set cs" using set_take_subset [of i cs] set_drop_subset [of "Suc i" cs] by simp
  have "cells_size (map cell_raw cs) = cells_size (map cell_raw (take i cs @ cs ! i # drop (Suc i) cs))"
    using id_take_nth_drop [OF i] by (rule arg_cong)
  then have "cells_size (map cell_raw ?cs) \<le> cells_size (map cell_raw cs)" "length ?cs \<le> length cs"
    using i by simp_all
  then have fits: "leaf_fits ?cs"
    using leaf unfolding leaf_at_def leaf_fits_def raw_footprint by linarith
  have "mapR (raw_cell_bytes page) (filter (\<lambda>j. j \<noteq> i) [0..<length cs]) = Inr (map cell_raw ?cs)"
    using raw_cells_ok(1) [OF leaf, of "filter (\<lambda>j. j \<noteq> i) [0..<length cs]"] skip_index [OF i, of cell_raw]
    by simp
  moreover obtain page' where "leaf_with_sibling (map cell_raw ?cs) sib = Inr page'"
    "leaf_page page' (map cell_raw ?cs) sib"
    using leaf_with_sibling_ok [OF fits leaf_at_parts(7) [OF leaf]] by blast
  ultimately show ?thesis
    using fits sub leaf
    by (intro exI [of _ page']) (auto simp: raw_copy_leaf_excluding_def leaf_at_def simp del: map_append)
qed

section \<open>Writing and freeing cells\<close>

definition spill_need :: "bytes \<Rightarrow> nat" where
  "spill_need v = (if spills v then overflow_page_count v else 0)"

definition cells_need :: "(int \<times> bytes) list \<Rightarrow> nat" where
  "cells_need kvs = sum_list (map (\<lambda>(k, v). spill_need v) kvs)"

lemma cells_need_simps [simp]:
  "cells_need [] = 0" "cells_need ((k, v) # kvs) = spill_need v + cells_need kvs"
  "cells_need (xs @ ys) = cells_need xs + cells_need ys"
  by (simp_all add: cells_need_def)

lemma payload_bound: "room (overflow_page_count v) st \<Longrightarrow> length v < 2 ^ 64"
proof -
  assume "room (overflow_page_count v) st"
  then have "(8187 + length v) div 8188 < 2 ^ 32"
    by (simp add: room_def overflow_page_count_def OVERFLOW_USABLE_def PAGE_SIZE_def OVERFLOW_DATA_OFFSET_def)
  then show ?thesis by simp
qed

lemma short_bound: "\<not> spills v \<Longrightarrow> length v < 2 ^ 64"
  by (simp add: spills_def OVERFLOW_THRESHOLD_def PAGE_SIZE_def)

lemma leaf_cell_run:
  assumes sp: "space st L" and rm: "room (spill_need v) st" and k: "key_ok k"
  obtains ps st' where "leaf_cell (Some store_ops) jr (k, v) st = (Inr (cell_raw (k, v, ps)), st')"
    "cell_ok (st_pages st') (k, v, ps)" "distinct ps" "set ps \<inter> L = {}"
    "eff (L \<union> set ps) L (spill_need v) st st'"
proof (cases "spills v")
  case True
  then have "v \<noteq> []" by (auto simp: spills_def)
  moreover have "room (overflow_page_count v) st" using rm True by (simp add: spill_need_def)
  ultimately obtain ps st' where ps: "alloc_overflow_chain store_ops jr v st = (Inr (first_page ps), st')"
    "ovf_chain (st_pages st') ps v" "ps \<noteq> []" "distinct ps" "set ps \<inter> L = {}" "space st' (L \<union> set ps)"
    "keeps L st st'" "store_hdr st HDbSize \<le> store_hdr st' HDbSize"
    "store_hdr st' HDbSize \<le> store_hdr st HDbSize + overflow_page_count v"
    using alloc_overflow_chain_run [OF sp, of v jr] by blast
  have "first_page ps \<in> L \<union> set ps" using ps(3) by (cases ps) auto
  then have first: "first_page ps < 2 ^ 32" using space_page [OF ps(6)] by blast
  show thesis
  proof (rule that)
    show "leaf_cell (Some store_ops) jr (k, v) st = (Inr (cell_raw (k, v, ps)), st')"
      using ps(1) True pack_ok [of "first_page ps" 4] first
      by (simp add: leaf_cell_def bindS_def spills_def [symmetric] del: pack_ok)
    show "cell_ok (st_pages st') (k, v, ps)"
      using True ps k first payload_bound [OF \<open>room (overflow_page_count v) st\<close>] by simp
    show "distinct ps" "set ps \<inter> L = {}" by fact+
    show "eff (L \<union> set ps) L (spill_need v) st st'"
      using ps True by (simp add: eff_def spill_need_def)
  qed
next
  case False
  show thesis
  proof (rule that)
    show "leaf_cell (Some store_ops) jr (k, v) st = (Inr (cell_raw (k, v, [])), st)"
      using False by (simp add: leaf_cell_def spills_def [symmetric])
    show "cell_ok (st_pages st) (k, v, [])" using False k short_bound [OF False] by simp
    show "eff (L \<union> set []) L (spill_need v) st st" using sp by (simp add: eff_refl)
  qed simp_all
qed

lemma cells_ok_keeps:
  "\<forall>c \<in> set cs. cell_ok (st_pages st) c \<Longrightarrow> keeps L st st' \<Longrightarrow> set (all_pages cs) \<subseteq> L \<Longrightarrow>
   \<forall>c \<in> set cs. cell_ok (st_pages st') c"
proof
  fix c assume ok: "\<forall>c \<in> set cs. cell_ok (st_pages st) c" and k: "keeps L st st'"
    and sub: "set (all_pages cs) \<subseteq> L" and c: "c \<in> set cs"
  have "set (cell_pages c) \<subseteq> L" using sub c unfolding set_all_pages by blast
  then have "\<forall>p \<in> set (cell_pages c). st_pages st' p = st_pages st p" using keepsD [OF k] by blast
  from cell_ok_cong [OF this] show "cell_ok (st_pages st') c" using ok c by blast
qed

lemma leaf_cells_run:
  assumes "space st L" and "room (cells_need kvs) st" and "\<forall>(k, v) \<in> set kvs. key_ok k"
  shows "\<exists>cs st'. mapS (leaf_cell (Some store_ops) jr) kvs st = (Inr (map cell_raw cs), st') \<and>
    map cell_kv cs = kvs \<and> (\<forall>c \<in> set cs. cell_ok (st_pages st') c) \<and> distinct (all_pages cs) \<and>
    set (all_pages cs) \<inter> L = {} \<and> eff (L \<union> set (all_pages cs)) L (cells_need kvs) st st'"
  using assms
proof (induction kvs arbitrary: st L)
  case Nil
  then show ?case by (intro exI [of _ "[]"]) (simp add: eff_refl)
next
  case (Cons kv kvs)
  obtain k v where kv: "kv = (k, v)" by (cases kv)
  have "room (spill_need v) st" "key_ok k" using Cons.prems by (auto simp: kv elim: room_mono)
  from leaf_cell_run [OF Cons.prems(1) this, of jr] obtain ps st1 where ps:
    "leaf_cell (Some store_ops) jr (k, v) st = (Inr (cell_raw (k, v, ps)), st1)"
    "cell_ok (st_pages st1) (k, v, ps)" "distinct ps" "set ps \<inter> L = {}"
    "eff (L \<union> set ps) L (spill_need v) st st1" by blast
  have "room (cells_need kvs) st1" using Cons.prems(2) by (intro eff_room [OF ps(5)]) (simp add: kv)
  with Cons.IH [OF eff_space [OF ps(5)]] Cons.prems(3) obtain cs st' where cs:
    "mapS (leaf_cell (Some store_ops) jr) kvs st1 = (Inr (map cell_raw cs), st')" "map cell_kv cs = kvs"
    "\<forall>c \<in> set cs. cell_ok (st_pages st') c" "distinct (all_pages cs)"
    "set (all_pages cs) \<inter> (L \<union> set ps) = {}"
    "eff (L \<union> set ps \<union> set (all_pages cs)) (L \<union> set ps) (cells_need kvs) st1 st'"
    by auto
  have "cell_ok (st_pages st') (k, v, ps)"
    using ps(2) cell_ok_cong [of "(k, v, ps)" "st_pages st'" "st_pages st1"] eff_page [OF cs(6)] by auto
  moreover have "eff (L \<union> set ps \<union> set (all_pages cs)) L (cells_need (kv # kvs)) st st'"
    by (rule eff_trans [OF ps(5) cs(6)]) (auto simp: kv)
  ultimately show ?case
    using ps cs by (intro exI [of _ "(k, v, ps) # cs"] exI [of _ st']) (auto simp: kv bindS_def Un_assoc)
qed

lemma write_leaf_cells_run:
  assumes sp: "space st L" and rm: "room (cells_need kvs) st" and k: "\<forall>(k, v) \<in> set kvs. key_ok k"
    and fits: "merged_leaf_footprint kvs \<le> PAGE_SIZE"
  obtains page cs st' where
    "write_leaf_cells (Some store_ops) jr (replicate PAGE_SIZE 0) kvs st = (Inr page, st')"
    "leaf_at (st_pages st') page cs 0" "map cell_kv cs = kvs" "distinct (all_pages cs)"
    "set (all_pages cs) \<inter> L = {}" "eff (L \<union> set (all_pages cs)) L (cells_need kvs) st st'"
proof -
  obtain cs st' where cs: "mapS (leaf_cell (Some store_ops) jr) kvs st = (Inr (map cell_raw cs), st')"
    "map cell_kv cs = kvs" "\<forall>c \<in> set cs. cell_ok (st_pages st') c" "distinct (all_pages cs)"
    "set (all_pages cs) \<inter> L = {}" "eff (L \<union> set (all_pages cs)) L (cells_need kvs) st st'"
    using leaf_cells_run [OF sp rm k, of jr] by blast
  have f: "leaf_fits cs" using fits cs(2) by (simp add: leaf_fits_def)
  then have "LEAF_PTR_ARRAY_START + 2 * length (map cell_raw cs) + cells_size (map cell_raw cs) \<le> PAGE_SIZE"
    by (simp add: leaf_fits_def raw_footprint)
  from leaf_of_cells_ok [OF _ this, of "replicate PAGE_SIZE 0"]
  obtain page where page: "leaf_of_cells (replicate PAGE_SIZE 0) (map cell_raw cs) = Inr page"
    "leaf_page page (map cell_raw cs) 0"
    by (auto simp: pyslice_replicate PAGE_SIZE_def)
  show thesis
  proof (rule that [of page st' cs])
    show "write_leaf_cells (Some store_ops) jr (replicate PAGE_SIZE 0) kvs st = (Inr page, st')"
      using cs(1) page(1) by (simp add: write_leaf_cells_def bindS_def)
    show "leaf_at (st_pages st') page cs 0" using page(2) f cs(3) by (simp add: leaf_at_def)
  qed (fact cs)+
qed

lemma write_leaf_page_with_overflow_run:
  assumes sp: "space st L" and rm: "room (cells_need kvs) st" and k: "\<forall>(k, v) \<in> set kvs. key_ok k"
    and fits: "merged_leaf_footprint kvs \<le> PAGE_SIZE" and p: "p \<in> L" and sib: "sib < 2 ^ 32"
  obtains cs st' where "write_leaf_page_with_overflow store_ops jr p kvs sib st = (Inr (), st')"
    "leaf_at (st_pages st') (st_pages st' p) cs sib" "map cell_kv cs = kvs" "distinct (all_pages cs)"
    "set (all_pages cs) \<inter> L = {}" "eff (L \<union> set (all_pages cs)) (L - {p}) (cells_need kvs) st st'"
proof -
  obtain page cs st1 where w:
    "write_leaf_cells (Some store_ops) jr (replicate PAGE_SIZE 0) kvs st = (Inr page, st1)"
    "leaf_at (st_pages st1) page cs 0" "map cell_kv cs = kvs" "distinct (all_pages cs)"
    "set (all_pages cs) \<inter> L = {}" "eff (L \<union> set (all_pages cs)) L (cells_need kvs) st st1"
    by (rule write_leaf_cells_run [OF sp rm k fits])
  let ?pg = "blit page 8 (be_bytes 4 sib)" and ?L = "L \<union> set (all_pages cs)"
  have lp: "leaf_page page (map cell_raw cs) 0" using w(2) by (simp add: leaf_at_def)
  note sibl = leaf_page_set_sibling [OF lp sib]
  have len: "length ?pg = PAGE_SIZE" using sibl(2) by (simp add: leaf_page_def)
  have p': "p \<in> ?L" using p by simp
  note wr = eff_write [OF eff_space [OF w(6)] p' len]
  let ?st = "set_page p ?pg st1"
  show thesis
  proof (rule that [of ?st cs])
    show "write_leaf_page_with_overflow store_ops jr p kvs sib st = (Inr (), ?st)"
      using w(1) sibl(1) wr(1) by (simp add: write_leaf_page_with_overflow_def bindS_def)
    have "\<forall>c \<in> set cs. cell_ok (st_pages ?st) c"
      using w(2,5) p cells_ok_keeps [of cs st1 "?L - {p}" ?st] wr(2)
      by (auto simp: leaf_at_def eff_def)
    then show "leaf_at (st_pages ?st) (st_pages ?st p) cs sib"
      using w(2) sibl(2) by (simp add: leaf_at_def)
    show "eff ?L (L - {p}) (cells_need kvs) st ?st"
      by (rule eff_trans [OF w(6) wr(2)]) auto
  qed (fact w)+
qed

lemma free_spilled_cell_chain_run:
  assumes page: "leaf_page page (map cell_raw cs) sib" and i: "i < length cs"
    and ok: "cell_ok (st_pages st) (cs ! i)" and sp: "space st L" and sub: "set (cell_pages (cs ! i)) \<subseteq> L"
  obtains st' where "free_spilled_cell_chain store_ops jr page i st = (Inr (), st')"
    "eff (L - set (cell_pages (cs ! i))) (L - set (cell_pages (cs ! i))) 0 st st'"
proof -
  obtain k v ps where c: "cs ! i = (k, v, ps)" by (cases "cs ! i")
  have "cell_at page LEAF_PTR_ARRAY_START i (cell_raw (k, v, ps))"
    using page i c by (auto simp: leaf_page_def)
  from cell_head_ok [OF this ok [unfolded c]] obtain ptr where h: "cell_head page i =
       Inr (ptr, nat k, length (encode_varint k), length v, length (encode_varint (int (length v))))"
    "ptr + length (cell_raw (k, v, ps)) \<le> length page"
    "drop (ptr + length (encode_varint k) + length (encode_varint (int (length v)))) page =
       (if spills v then be_bytes 4 (first_page ps) else v) @ drop (ptr + length (cell_raw (k, v, ps))) page" .
  show thesis
  proof (cases "spills v")
    case False
    then have "ps = []" using ok c by simp
    show thesis
    proof (rule that)
      show "free_spilled_cell_chain store_ops jr page i st = (Inr (), st)"
        using False by (simp add: free_spilled_cell_chain_def h(1) spills_def [symmetric])
      show "eff (L - set (cell_pages (cs ! i))) (L - set (cell_pages (cs ! i))) 0 st st"
        using sp \<open>ps = []\<close> c by (simp add: eff_refl)
    qed
  next
    case True
    then have ch: "ovf_chain (st_pages st) ps v" "distinct ps" "first_page ps < 2 ^ 32"
      using ok c by simp_all
    have "unpack_from 4 page (ptr + length (encode_varint k) + length (encode_varint (int (length v))))
        = Inr (first_page ps)"
      using h(2,3) True ch(3) by (simp add: unpack_from_def pyslice_def)
    moreover obtain st' where "free_overflow_loop store_ops jr (first_page ps) {} st = (Inr (), st')"
      "space st' (L - set ps)" "keeps (L - set ps) st st'" "store_hdr st' HDbSize = store_hdr st HDbSize"
      using free_overflow_loop_run [OF ch(1,2) sp, of "{}" jr] sub c by auto
    ultimately show thesis
      using True c
      by (intro that [of st'])
        (simp_all add: free_spilled_cell_chain_def h(1) spills_def [symmetric] eff_def free_overflow_chain_def)
  qed
qed

lemma free_spilled_cell_chains_run:
  assumes "leaf_page page (map cell_raw cs) sib" and "\<forall>i \<in> set idxs. i < length cs"
    and "\<forall>i \<in> set idxs. cell_ok (st_pages st) (cs ! i)" and "space st L"
    and "set (all_pages (map ((!) cs) idxs)) \<subseteq> L" and "distinct (all_pages (map ((!) cs) idxs))"
  shows "\<exists>st'. free_spilled_cell_chains store_ops jr page idxs st = (Inr (), st') \<and>
    eff (L - set (all_pages (map ((!) cs) idxs))) (L - set (all_pages (map ((!) cs) idxs))) 0 st st'"
  using assms(2-)
proof (induction idxs arbitrary: st L)
  case Nil
  then show ?case by (simp add: free_spilled_cell_chains_def eff_refl)
next
  case (Cons i idxs)
  let ?P = "set (cell_pages (cs ! i))" and ?Q = "set (all_pages (map ((!) cs) idxs))"
  have i: "i < length cs" "cell_ok (st_pages st) (cs ! i)" "?P \<subseteq> L" using Cons.prems by auto
  from free_spilled_cell_chain_run [OF assms(1) i(1,2) Cons.prems(3) i(3), of jr]
  obtain st1 where st1: "free_spilled_cell_chain store_ops jr page i st = (Inr (), st1)"
    "eff (L - ?P) (L - ?P) 0 st st1" .
  have disj: "?P \<inter> ?Q = {}" using Cons.prems(5) by auto
  have "\<forall>j \<in> set idxs. cell_ok (st_pages st1) (cs ! j)"
  proof
    fix j assume j: "j \<in> set idxs"
    then have "set (cell_pages (cs ! j)) \<subseteq> L - ?P"
      using Cons.prems(4) disj by (auto simp: set_all_pages)
    then show "cell_ok (st_pages st1) (cs ! j)"
      using Cons.prems(2) j cell_ok_cong [of "cs ! j" "st_pages st1" "st_pages st"] eff_page [OF st1(2)] by auto
  qed
  moreover have "?Q \<subseteq> L - ?P" using Cons.prems(4) disj by auto
  ultimately obtain st' where st': "free_spilled_cell_chains store_ops jr page idxs st1 = (Inr (), st')"
    "eff (L - ?P - ?Q) (L - ?P - ?Q) 0 st1 st'"
    using Cons.IH [of st1 "L - ?P"] Cons.prems eff_space [OF st1(2)] by auto
  have "eff (L - ?P - ?Q) (L - ?P - ?Q) 0 st st'" by (rule eff_trans [OF st1(2) st'(2)]) auto
  moreover have "L - ?P - ?Q = L - set (all_pages (map ((!) cs) (i # idxs)))" by auto
  ultimately show ?case
    using st1(1) st'(1) by (auto simp: free_spilled_cell_chains_def bindS_def)
qed

lemma free_all_chains_run:
  assumes "leaf_at (st_pages st) page cs sib" and "space st L" and "set (all_pages cs) \<subseteq> L"
    and "distinct (all_pages cs)"
  obtains st' where "free_spilled_cell_chains store_ops jr page [0..<length cs] st = (Inr (), st')"
    "eff (L - set (all_pages cs)) (L - set (all_pages cs)) 0 st st'"
proof -
  have "map ((!) cs) [0..<length cs] = cs" by (rule map_nth)
  then show thesis
    using free_spilled_cell_chains_run [of page cs sib "[0..<length cs]" st L jr] assms
    by (auto simp: leaf_at_def intro: that)
qed

end
