(* ===== verification/TreeSplit.thy ===== *)
theory TreeSplit
  imports Partition
begin

text \<open>
  \<open>btree/split.py\<close>: splitting a full leaf (copy-up) or interior node (push-up) and carrying the
  new children up the path. A path stack is a list of (interior page, child index) with the parent
  of the leaf first, that is, in the order \<open>path_stack.pop()\<close> gives. The guard \<open>not in _journaled\<close> before a
  before-image is recorded only saves a call that \<open>record_before_image\<close> would ignore.
\<close>

type_synonym path = "(nat \<times> nat) list"

fun list_index :: "nat \<Rightarrow> nat list \<Rightarrow> nat res" where
  \<comment> \<open>\<open>xs.index(x)\<close>\<close>
  "list_index x [] = Inl ValueError"
| "list_index x (y # ys) = (if x = y then Inr 0 else bindR (list_index x ys) (\<lambda>i. Inr (i + 1)))"

definition root_from_children :: "'s pager_ops \<Rightarrow> bool \<Rightarrow> nat list \<Rightarrow> int list \<Rightarrow> ('s, unit) pm" where
  "root_from_children ops jr node_page_nos separators =
     (let root_page_no = hd node_page_nos in
      bindS (alloc_page ops jr) (\<lambda>new_node0_page_no.
      bindS (op_read_page ops root_page_no) (\<lambda>root_data.
      bindS (op_write_page ops new_node0_page_no root_data) (\<lambda>_.
      let children = new_node0_page_no # tl node_page_nos in
      bindS (liftR (write_interior_node (replicate PAGE_SIZE 0) separators children)) (\<lambda>new_root_page.
      op_write_page ops root_page_no new_root_page)))))"

definition push_up_absent :: "inode list \<Rightarrow> int list \<Rightarrow> bool" where
  \<comment> \<open>each boundary key is in neither of the two nodes it separates\<close>
  "push_up_absent nodes push_up_keys \<longleftrightarrow>
     (\<forall>b < length push_up_keys. push_up_keys ! b \<notin> set (fst (nodes ! b)) \<and>
        push_up_keys ! b \<notin> set (fst (nodes ! (b + 1))))"

definition write_nodes :: "'s pager_ops \<Rightarrow> (nat \<times> inode) list \<Rightarrow> ('s, unit) pm" where
  "write_nodes ops pns =
     forS (\<lambda>(page_no, (keys, children)).
       bindS (liftR (write_interior_node (replicate PAGE_SIZE 0) keys children)) (\<lambda>node_page.
       op_write_page ops page_no node_page)) pns"

definition interior_split ::
  "'s pager_ops \<Rightarrow> bool \<Rightarrow> nat \<Rightarrow> int list \<Rightarrow> nat list \<Rightarrow> ('s, (nat list \<times> int list) option) pm"
where
  \<comment> \<open>\<open>interior_split_and_insert\<close> up to the ascent: the pages of the nodes and the keys pushed
     up, or \<open>None\<close> when everything fits one node\<close>
  "interior_split ops jr interior_page_no all_keys all_children =
     bindS (liftR (balanced_nway_interior_split all_keys all_children)) (\<lambda>(nodes, push_up_keys).
     if length nodes = 1 then
       bindS (liftR (write_interior_node (replicate PAGE_SIZE 0) all_keys all_children)) (\<lambda>node_page.
       bindS (op_write_page ops interior_page_no node_page) (\<lambda>_. retS None))
     else
       bindS (liftR (assertR
         (sum_list (map (\<lambda>(keys, _). length keys) nodes) + length push_up_keys = length all_keys)
         AssertionError)) (\<lambda>_.
       bindS (liftR (assertR (push_up_absent nodes push_up_keys) AssertionError)) (\<lambda>_.
       bindS (mapS (\<lambda>_. alloc_page ops jr) (tl nodes)) (\<lambda>new_page_nos.
       let node_page_nos = interior_page_no # new_page_nos in
       bindS (write_nodes ops (zip node_page_nos nodes)) (\<lambda>_.
       retS (Some (node_page_nos, push_up_keys)))))))"

fun insert_run_into_interior ::
  "'s pager_ops \<Rightarrow> nat \<Rightarrow> bool \<Rightarrow> path \<Rightarrow> nat \<Rightarrow> nat \<Rightarrow> nat list \<Rightarrow> int list \<Rightarrow> ('s, unit) pm"
where
  "insert_run_into_interior ops cap jr path_stack parent_page_no old_child new_children_nos separators =
     bindS (op_read_page ops parent_page_no) (\<lambda>page.
     bindS (liftR (read_interior_node page)) (\<lambda>(old_keys, old_children).
     bindS (liftR (list_index old_child old_children)) (\<lambda>j.
     let new_keys = take j old_keys @ separators @ drop j old_keys;
         new_children = take (j + 1) old_children @ new_children_nos @ drop (j + 1) old_children
     in if length new_keys \<le> cap \<and> interior_fits new_keys then
          bindS (liftR (write_interior_node (replicate PAGE_SIZE 0) new_keys new_children)) (\<lambda>new_page.
          op_write_page ops parent_page_no new_page)
        else
          bindS (getS (op_has_journal ops)) (\<lambda>journaling.
          bindS (if journaling
                 then bindS (op_read_page ops parent_page_no) (op_record_before ops parent_page_no)
                 else retS ()) (\<lambda>_.
          bindS (interior_split ops jr parent_page_no new_keys new_children) (\<lambda>split.
          case split of
            None \<Rightarrow> retS ()
          | Some (node_page_nos, push_up_keys) \<Rightarrow>
              (case path_stack of
                 [] \<Rightarrow> root_from_children ops jr node_page_nos push_up_keys
               | (grandparent_no, _) # rest \<Rightarrow>
                   insert_run_into_interior ops cap jr rest grandparent_no parent_page_no
                     (tl node_page_nos) push_up_keys)))))))"

declare insert_run_into_interior.simps [simp del]

definition write_leaf_groups ::
  "'s pager_ops \<Rightarrow> bool \<Rightarrow> (nat \<times> (int \<times> bytes) list) list \<Rightarrow> ('s, unit) pm"
where
  "write_leaf_groups ops jr pgs =
     forS (\<lambda>(page_no, group).
       bindS (write_leaf_cells (Some ops) jr (replicate PAGE_SIZE 0) group) (\<lambda>new_leaf.
       op_write_page ops page_no new_leaf)) pgs"

definition thread_leaves :: "'s pager_ops \<Rightarrow> nat list \<Rightarrow> nat \<Rightarrow> ('s, unit) pm" where
  \<comment> \<open>the loop that rethreads the sibling chain over the group pages\<close>
  "thread_leaves ops group_page_nos old_right_sibling =
     forS (\<lambda>i. set_next_leaf ops (group_page_nos ! i)
                 (if i + 1 < length group_page_nos then group_page_nos ! (i + 1) else old_right_sibling))
       [0..<length group_page_nos]"

definition leaf_split_and_insert ::
  "'s pager_ops \<Rightarrow> nat \<Rightarrow> bool \<Rightarrow> path \<Rightarrow> nat \<Rightarrow> int \<Rightarrow> bytes \<Rightarrow> ('s, unit) pm"
where
  "leaf_split_and_insert ops cap jr path_stack leaf_page_no new_key new_value =
     bindS (op_read_page ops leaf_page_no) (\<lambda>page.
     bindS (read_all_leaf_cells (Some ops) page) (\<lambda>old_cells.
     bindS (free_spilled_cell_chains ops jr page [0..<length old_cells]) (\<lambda>_.
     let idx = bisect_left (map fst old_cells) new_key;
         all_cells = take idx old_cells @ [(new_key, new_value)] @ drop idx old_cells
     in bindS (liftR (balanced_nway_leaf_split all_cells)) (\<lambda>groups.
     bindS (liftR (unpack_from 4 page 8)) (\<lambda>old_right_sibling.
     if length groups = 1 then
       bindS (write_leaf_cells (Some ops) jr (replicate PAGE_SIZE 0) all_cells) (\<lambda>new_leaf.
       bindS (op_write_page ops leaf_page_no new_leaf) (\<lambda>_.
       set_next_leaf ops leaf_page_no old_right_sibling))
     else
       bindS (mapS (\<lambda>_. alloc_page ops jr) (tl groups)) (\<lambda>new_page_nos.
       let group_page_nos = leaf_page_no # new_page_nos in
       bindS (write_leaf_groups ops jr (zip group_page_nos groups)) (\<lambda>_.
       bindS (thread_leaves ops group_page_nos old_right_sibling) (\<lambda>_.
       let separators = map (\<lambda>group. fst (hd group)) (tl groups) in
       bindS (liftR (assertR (\<forall>(sep, group) \<in> set (zip separators (tl groups)).
         sep = fst (hd group) \<and> sep \<in> fst ` set group) AssertionError)) (\<lambda>_.
       bindS (get_next_leaf ops (last group_page_nos)) (\<lambda>tail_link.
       bindS (liftR (assertR (tail_link = old_right_sibling) AssertionError)) (\<lambda>_.
       bindS (if 1 < length group_page_nos then
                bindS (get_next_leaf ops leaf_page_no) (\<lambda>head_link.
                liftR (assertR (head_link = group_page_nos ! 1) AssertionError))
              else retS ()) (\<lambda>_.
       case path_stack of
         [] \<Rightarrow> root_from_children ops jr group_page_nos separators
       | (parent_page_no, _) # rest \<Rightarrow>
           insert_run_into_interior ops cap jr rest parent_page_no leaf_page_no new_page_nos separators))))))))))))"

section \<open>On every pager\<close>

context page_store
begin

lemma root_from_children_refines:
  "refines ok view (root_from_children ops jr ps ss) (root_from_children store_ops jr ps ss)"
  unfolding root_from_children_def Let_def
  by (intro refine_intros op_refines alloc_page_refines)

lemma interior_split_refines:
  "refines ok view (interior_split ops jr p ks cs) (interior_split store_ops jr p ks cs)"
  unfolding interior_split_def write_nodes_def Let_def
  by (intro refine_intros op_refines alloc_page_refines)

lemma insert_run_refines:
  "refines ok view (insert_run_into_interior ops cap jr stack p c cs ss)
     (insert_run_into_interior store_ops cap jr stack p c cs ss)"
proof (induction stack arbitrary: p c cs ss)
  case Nil
  show ?case
    unfolding insert_run_into_interior.simps [of _ _ _ "[]"] Let_def list.case
    by (intro refine_intros op_refines get_refines interior_split_refines root_from_children_refines)
next
  case (Cons e stack)
  obtain g i where "e = (g, i)" by (cases e)
  with Cons.IH show ?case
    unfolding insert_run_into_interior.simps [of _ _ _ "e # stack"] Let_def list.case
    by (simp del: store_ops_simps, intro refine_intros op_refines get_refines interior_split_refines)
qed

lemma leaf_split_refines:
  "refines ok view (leaf_split_and_insert ops cap jr stack p k v)
     (leaf_split_and_insert store_ops cap jr stack p k v)"
  unfolding leaf_split_and_insert_def write_leaf_groups_def thread_leaves_def Let_def
  by (intro refine_intros op_refines read_all_leaf_cells_refines free_spilled_cell_chains_refines
      alloc_page_refines write_leaf_cells_refines next_leaf_refines root_from_children_refines
      insert_run_refines)

end

end
