(* ===== verification/TreeDelete.thy ===== *)
theory TreeDelete
  imports TreeSplit
begin

text \<open>
  \<open>btree/delete.py\<close>: repairing a leaf or an interior node that a deletion left too empty, by
  borrowing from a sibling, merging with it or redistributing the two, up the path. As in
  \<open>TreeSplit\<close> a path stack has the parent of the leaf first.
\<close>

definition leaf_min_cells :: "nat \<Rightarrow> nat" where "leaf_min_cells cap = cap div 2"
definition interior_min_keys :: "nat \<Rightarrow> nat" where "interior_min_keys cap = cap div 2"

definition read_node :: "'s pager_ops \<Rightarrow> nat \<Rightarrow> ('s, int list \<times> nat list) pm" where
  "read_node ops page_no =
     bindS (op_read_page ops page_no) (\<lambda>page. liftR (read_interior_node page))"

definition write_node :: "'s pager_ops \<Rightarrow> nat \<Rightarrow> int list \<Rightarrow> nat list \<Rightarrow> ('s, unit) pm" where
  "write_node ops page_no keys children =
     bindS (liftR (write_interior_node (replicate PAGE_SIZE 0) keys children)) (\<lambda>page.
     op_write_page ops page_no page)"

definition read_leaf :: "'s pager_ops \<Rightarrow> nat \<Rightarrow> ('s, bytes \<times> (int \<times> bytes) list \<times> nat) pm" where
  \<comment> \<open>a leaf with its payloads reassembled: page, cells, sibling link\<close>
  "read_leaf ops page_no =
     bindS (op_read_page ops page_no) (\<lambda>page.
     bindS (read_all_leaf_cells (Some ops) page) (\<lambda>cells.
     bindS (liftR (unpack_from 4 page 8)) (\<lambda>sibling_link.
     retS (page, cells, sibling_link))))"

definition nth_key :: "int list \<Rightarrow> nat \<Rightarrow> int res" where
  "nth_key keys i = (if i < length keys then Inr (keys ! i) else Inl IndexError)"

definition nth_child :: "nat list \<Rightarrow> nat \<Rightarrow> nat res" where
  "nth_child children i = (if i < length children then Inr (children ! i) else Inl IndexError)"

section \<open>Parent updates\<close>

definition update_parent_separator :: "'s pager_ops \<Rightarrow> nat \<Rightarrow> nat \<Rightarrow> int \<Rightarrow> ('s, unit) pm" where
  "update_parent_separator ops parent_page_no key_idx new_key =
     bindS (read_node ops parent_page_no) (\<lambda>(keys, children).
     bindS (liftR (assertR (key_idx < length keys) IndexError)) (\<lambda>_.
     write_node ops parent_page_no (keys[key_idx := new_key]) children))"

section \<open>Borrowing between leaves\<close>

definition borrow_from_right_leaf ::
  "'s pager_ops \<Rightarrow> nat \<Rightarrow> nat \<Rightarrow> nat \<Rightarrow> nat \<Rightarrow> ('s, unit) pm"
where
  "borrow_from_right_leaf ops leaf_page_no right_sibling_no parent_page_no child_idx =
     bindS (getS (op_has_journal ops)) (\<lambda>jr.
     bindS (read_leaf ops leaf_page_no) (\<lambda>(left_page, left_cells, left_link).
     bindS (read_leaf ops right_sibling_no) (\<lambda>(right_page, right_cells, right_link).
     bindS (free_spilled_cell_chains ops jr right_page [0..<length right_cells]) (\<lambda>_.
     bindS (liftR (assertR (2 \<le> length right_cells) IndexError)) (\<lambda>_.
     let borrowed = hd right_cells;
         new_left_cells = left_cells @ [borrowed];
         new_right_cells = tl right_cells;
         new_separator = fst (hd new_right_cells)
     in bindS (write_leaf_page_with_overflow ops jr leaf_page_no new_left_cells left_link) (\<lambda>_.
        bindS (write_leaf_page_with_overflow ops jr right_sibling_no new_right_cells right_link) (\<lambda>_.
        update_parent_separator ops parent_page_no child_idx new_separator)))))))"

definition borrow_from_left_leaf ::
  "'s pager_ops \<Rightarrow> nat \<Rightarrow> nat \<Rightarrow> nat \<Rightarrow> nat \<Rightarrow> ('s, unit) pm"
where
  "borrow_from_left_leaf ops leaf_page_no left_sibling_no parent_page_no child_idx =
     bindS (getS (op_has_journal ops)) (\<lambda>jr.
     bindS (read_leaf ops left_sibling_no) (\<lambda>(left_page, left_cells, left_link).
     bindS (read_leaf ops leaf_page_no) (\<lambda>(right_page, right_cells, right_link).
     bindS (free_spilled_cell_chains ops jr left_page [0..<length left_cells]) (\<lambda>_.
     bindS (free_spilled_cell_chains ops jr right_page [0..<length right_cells]) (\<lambda>_.
     bindS (liftR (assertR (left_cells \<noteq> []) IndexError)) (\<lambda>_.
     let borrowed = last left_cells;
         new_left_cells = butlast left_cells;
         new_right_cells = borrowed # right_cells;
         new_separator = fst borrowed
     in bindS (write_leaf_page_with_overflow ops jr left_sibling_no new_left_cells left_link) (\<lambda>_.
        bindS (write_leaf_page_with_overflow ops jr leaf_page_no new_right_cells right_link) (\<lambda>_.
        update_parent_separator ops parent_page_no (child_idx - 1) new_separator))))))))"

section \<open>Interior nodes\<close>

definition borrow_from_right_interior ::
  "'s pager_ops \<Rightarrow> nat \<Rightarrow> nat \<Rightarrow> nat \<Rightarrow> nat \<Rightarrow> ('s, unit) pm"
where
  "borrow_from_right_interior ops interior_page_no right_sibling_no parent_page_no child_idx =
     bindS (read_node ops interior_page_no) (\<lambda>(left_keys, left_children).
     bindS (read_node ops right_sibling_no) (\<lambda>(right_keys, right_children).
     bindS (read_node ops parent_page_no) (\<lambda>(parent_keys, parent_children).
     bindS (liftR (nth_key parent_keys child_idx)) (\<lambda>pulled_separator.
     bindS (liftR (nth_key right_keys 0)) (\<lambda>pushed_up.
     bindS (liftR (nth_child right_children 0)) (\<lambda>adopted_child.
     bindS (write_node ops interior_page_no (left_keys @ [pulled_separator]) (left_children @ [adopted_child])) (\<lambda>_.
     bindS (write_node ops right_sibling_no (tl right_keys) (tl right_children)) (\<lambda>_.
     write_node ops parent_page_no
       (take child_idx parent_keys @ [pushed_up] @ drop (child_idx + 1) parent_keys) parent_children))))))))"

definition borrow_from_left_interior ::
  "'s pager_ops \<Rightarrow> nat \<Rightarrow> nat \<Rightarrow> nat \<Rightarrow> nat \<Rightarrow> ('s, unit) pm"
where
  "borrow_from_left_interior ops interior_page_no left_sibling_no parent_page_no child_idx =
     bindS (read_node ops interior_page_no) (\<lambda>(right_keys, right_children).
     bindS (read_node ops left_sibling_no) (\<lambda>(left_keys, left_children).
     bindS (read_node ops parent_page_no) (\<lambda>(parent_keys, parent_children).
     bindS (liftR (nth_key parent_keys (child_idx - 1))) (\<lambda>pulled_separator.
     bindS (liftR (assertR (left_keys \<noteq> []) IndexError)) (\<lambda>_.
     let pushed_up = last left_keys; donated_child = last left_children in
     bindS (write_node ops interior_page_no (pulled_separator # right_keys) (donated_child # right_children)) (\<lambda>_.
     bindS (write_node ops left_sibling_no (butlast left_keys) (butlast left_children)) (\<lambda>_.
     write_node ops parent_page_no
       (take (child_idx - 1) parent_keys @ [pushed_up] @ drop child_idx parent_keys) parent_children)))))))"

definition merge_interior_pages ::
  "'s pager_ops \<Rightarrow> bool \<Rightarrow> nat \<Rightarrow> nat \<Rightarrow> nat \<Rightarrow> nat \<Rightarrow> ('s, int list) pm"
where
  \<comment> \<open>\<open>_merge_interior_nodes\<close> up to the check of the parent: the keys the parent keeps\<close>
  "merge_interior_pages ops jr left_page_no right_page_no parent_page_no separator_idx =
     bindS (read_node ops left_page_no) (\<lambda>(left_keys, left_children).
     bindS (read_node ops right_page_no) (\<lambda>(right_keys, right_children).
     bindS (read_node ops parent_page_no) (\<lambda>(parent_keys, parent_children).
     bindS (liftR (nth_key parent_keys separator_idx)) (\<lambda>pulled_separator.
     bindS (write_node ops left_page_no (left_keys @ [pulled_separator] @ right_keys)
              (left_children @ right_children)) (\<lambda>_.
     bindS (free_page ops right_page_no jr) (\<lambda>_.
     let new_parent_keys = take separator_idx parent_keys @ drop (separator_idx + 1) parent_keys;
         new_parent_children = take (separator_idx + 1) parent_children @ drop (separator_idx + 2) parent_children
     in bindS (write_node ops parent_page_no new_parent_keys new_parent_children) (\<lambda>_.
        retS new_parent_keys)))))))"

definition has_right :: "nat list \<Rightarrow> nat \<Rightarrow> bool" where
  "has_right children child_idx \<longleftrightarrow> child_idx + 1 < length children"

definition spare_keys :: "'s pager_ops \<Rightarrow> nat \<Rightarrow> bool \<Rightarrow> nat \<Rightarrow> ('s, bool) pm" where
  \<comment> \<open>whether the sibling, if there is one, has more keys than the minimum\<close>
  "spare_keys ops cap exists sibling_no =
     (if exists then bindS (read_node ops sibling_no) (\<lambda>(keys, _). retS (interior_min_keys cap < length keys))
      else retS False)"

fun check_interior_underflow ::
  "'s pager_ops \<Rightarrow> nat \<Rightarrow> bool \<Rightarrow> path \<Rightarrow> nat \<Rightarrow> ('s, unit) pm"
where
  "check_interior_underflow ops cap jr [] interior_page_no = retS ()"
| "check_interior_underflow ops cap jr ((parent_page_no, child_idx) # parent_stack) interior_page_no =
     bindS (read_node ops parent_page_no) (\<lambda>(parent_keys, parent_children).
     bindS (liftR (nth_child parent_children child_idx)) (\<lambda>child.
     bindS (liftR (assertR (child = interior_page_no) AssertionError)) (\<lambda>_.
     let right_exists = has_right parent_children child_idx;
         right_no = parent_children ! (child_idx + 1);
         left_exists = 1 \<le> child_idx;
         left_no = parent_children ! (child_idx - 1);
         merge = (\<lambda>l r separator_idx.
           bindS (merge_interior_pages ops jr l r parent_page_no separator_idx) (\<lambda>new_parent_keys.
           if parent_stack = [] then retS ()
           else if length new_parent_keys < interior_min_keys cap
           then check_interior_underflow ops cap jr parent_stack parent_page_no
           else retS ()))
     in bindS (spare_keys ops cap right_exists right_no) (\<lambda>borrow_right.
        if borrow_right then
          borrow_from_right_interior ops interior_page_no right_no parent_page_no child_idx
        else
          bindS (spare_keys ops cap left_exists left_no) (\<lambda>borrow_left.
          if borrow_left then
            borrow_from_left_interior ops interior_page_no left_no parent_page_no child_idx
          else if right_exists then merge interior_page_no right_no child_idx
          else if left_exists then merge left_no interior_page_no (child_idx - 1)
          else retS ())))))"

section \<open>Merging leaves\<close>

definition remove_from_parent ::
  "'s pager_ops \<Rightarrow> nat \<Rightarrow> bool \<Rightarrow> path \<Rightarrow> nat \<Rightarrow> nat \<Rightarrow> nat \<Rightarrow> ('s, unit) pm"
where
  "remove_from_parent ops cap jr path_stack parent_page_no key_idx right_child_idx =
     bindS (read_node ops parent_page_no) (\<lambda>(keys, children).
     let new_keys = take key_idx keys @ drop (key_idx + 1) keys;
         new_children = take right_child_idx children @ drop (right_child_idx + 1) children
     in bindS (write_node ops parent_page_no new_keys new_children) (\<lambda>_.
        if path_stack = [] then retS ()
        else if length new_keys < interior_min_keys cap
        then check_interior_underflow ops cap jr path_stack parent_page_no
        else retS ()))"

definition merge_leaves ::
  "'s pager_ops \<Rightarrow> nat \<Rightarrow> bool \<Rightarrow> path \<Rightarrow> nat \<Rightarrow> nat \<Rightarrow> nat \<Rightarrow> nat \<Rightarrow> ('s, unit) pm"
where
  "merge_leaves ops cap jr path_stack left_page_no right_page_no parent_page_no separator_idx =
     bindS (op_read_page ops left_page_no) (\<lambda>left_page.
     bindS (read_all_leaf_cells (Some ops) left_page) (\<lambda>left_cells.
     bindS (read_leaf ops right_page_no) (\<lambda>(right_page, right_cells, right_link).
     bindS (free_spilled_cell_chains ops jr left_page [0..<length left_cells]) (\<lambda>_.
     bindS (free_spilled_cell_chains ops jr right_page [0..<length right_cells]) (\<lambda>_.
     let merged_cells = left_cells @ right_cells in
     if merged_leaf_footprint merged_cells \<le> PAGE_SIZE then
       bindS (write_leaf_page_with_overflow ops jr left_page_no merged_cells right_link) (\<lambda>_.
       bindS (free_page ops right_page_no jr) (\<lambda>_.
       remove_from_parent ops cap jr path_stack parent_page_no separator_idx (separator_idx + 1)))
     else
       bindS (liftR (byte_midpoint_split merged_cells)) (\<lambda>(new_left, new_right).
       bindS (write_leaf_page_with_overflow ops jr left_page_no new_left right_page_no) (\<lambda>_.
       bindS (write_leaf_page_with_overflow ops jr right_page_no new_right right_link) (\<lambda>_.
       update_parent_separator ops parent_page_no separator_idx (fst (hd new_right))))))))))"

definition borrow_right_ok ::
  "'s pager_ops \<Rightarrow> nat \<Rightarrow> bool \<Rightarrow> nat \<Rightarrow> (int \<times> bytes) list \<Rightarrow> ('s, bool) pm"
where
  \<comment> \<open>the right sibling has a cell to spare and it fits the receiving leaf\<close>
  "borrow_right_ok ops cap exists right_no recv_cells =
     (if \<not> exists then retS False
      else
        bindS (op_read_page ops right_no) (\<lambda>right_page.
        bindS (read_all_leaf_cells None right_page) (\<lambda>right_cells.
        if leaf_min_cells cap < length right_cells then
          bindS (read_all_leaf_cells (Some ops) right_page) (\<lambda>full_cells.
          retS (borrow_fits_receiver recv_cells (hd full_cells)))
        else retS False)))"

definition borrow_left_ok ::
  "'s pager_ops \<Rightarrow> nat \<Rightarrow> bool \<Rightarrow> nat \<Rightarrow> (int \<times> bytes) list \<Rightarrow> ('s, bool) pm"
where
  "borrow_left_ok ops cap exists left_no recv_cells =
     (if \<not> exists then retS False
      else
        bindS (op_read_page ops left_no) (\<lambda>left_page.
        bindS (read_all_leaf_cells None left_page) (\<lambda>left_cells.
        if leaf_min_cells cap < length left_cells then
          bindS (read_all_leaf_cells (Some ops) left_page) (\<lambda>full_cells.
          retS (borrow_fits_receiver recv_cells (last full_cells)))
        else retS False)))"

definition rebalance_leaf :: "'s pager_ops \<Rightarrow> nat \<Rightarrow> bool \<Rightarrow> path \<Rightarrow> nat \<Rightarrow> ('s, unit) pm" where
  "rebalance_leaf ops cap jr path_stack leaf_page_no =
     (case path_stack of
        [] \<Rightarrow> retS ()
      | (parent_page_no, child_idx) # parent_stack \<Rightarrow>
          bindS (read_node ops parent_page_no) (\<lambda>(parent_keys, parent_children).
          bindS (liftR (nth_child parent_children child_idx)) (\<lambda>child.
          bindS (liftR (assertR (child = leaf_page_no) AssertionError)) (\<lambda>_.
          let right_exists = has_right parent_children child_idx;
              right_no = parent_children ! (child_idx + 1);
              left_exists = 1 \<le> child_idx;
              left_no = parent_children ! (child_idx - 1)
          in bindS (op_read_page ops leaf_page_no) (\<lambda>recv_page.
             bindS (read_all_leaf_cells (Some ops) recv_page) (\<lambda>recv_cells.
             bindS (borrow_right_ok ops cap right_exists right_no recv_cells) (\<lambda>from_right.
             if from_right then borrow_from_right_leaf ops leaf_page_no right_no parent_page_no child_idx
             else
               bindS (borrow_left_ok ops cap left_exists left_no recv_cells) (\<lambda>from_left.
               if from_left then borrow_from_left_leaf ops leaf_page_no left_no parent_page_no child_idx
               else if right_exists then
                 merge_leaves ops cap jr parent_stack leaf_page_no right_no parent_page_no child_idx
               else if left_exists then
                 merge_leaves ops cap jr parent_stack left_no leaf_page_no parent_page_no (child_idx - 1)
               else retS ()))))))))"

section \<open>Root shrink\<close>

fun shrink_root_if_needed :: "'s pager_ops \<Rightarrow> bool \<Rightarrow> nat \<Rightarrow> ('s, unit) pm" where
  \<comment> \<open>the \<open>while True\<close> loop; each pass takes one level off the tree\<close>
  "shrink_root_if_needed ops jr 0 = raiseS Diverges"
| "shrink_root_if_needed ops jr (Suc fuel) =
     bindS (op_read_page ops (op_root_page_no ops)) (\<lambda>root_data.
     bindS (liftR (page_type root_data)) (\<lambda>ptype.
     if ptype = PAGE_LEAF_TABLE then retS ()
     else
       bindS (liftR (read_interior_node root_data)) (\<lambda>(root_keys, root_children).
       if root_keys \<noteq> [] then retS ()
       else
         bindS (liftR (assertR (length root_children = 1) AssertionError)) (\<lambda>_.
         let only_child_no = hd root_children in
         bindS (op_read_page ops only_child_no) (\<lambda>child_data.
         bindS (op_write_page ops (op_root_page_no ops) child_data) (\<lambda>_.
         bindS (free_page ops only_child_no jr) (\<lambda>_.
         shrink_root_if_needed ops jr fuel)))))))"

section \<open>On every pager\<close>

context page_store
begin

lemma node_io_refines:
  "refines ok view (read_node ops p) (read_node store_ops p)"
  "refines ok view (write_node ops p ks cs) (write_node store_ops p ks cs)"
  "refines ok view (read_leaf ops p) (read_leaf store_ops p)"
  unfolding read_node_def write_node_def read_leaf_def
  by (intro refine_intros op_refines read_all_leaf_cells_refines)+

lemma update_parent_separator_refines:
  "refines ok view (update_parent_separator ops p i k) (update_parent_separator store_ops p i k)"
  unfolding update_parent_separator_def by (intro refine_intros node_io_refines)

lemma borrow_leaf_refines:
  "refines ok view (borrow_from_right_leaf ops p q r i) (borrow_from_right_leaf store_ops p q r i)"
  "refines ok view (borrow_from_left_leaf ops p q r i) (borrow_from_left_leaf store_ops p q r i)"
  unfolding borrow_from_right_leaf_def borrow_from_left_leaf_def Let_def
  by (intro refine_intros get_refines node_io_refines free_spilled_cell_chains_refines
      leaf_rewrite_refines update_parent_separator_refines)+

lemma interior_refines:
  "refines ok view (borrow_from_right_interior ops p q r i) (borrow_from_right_interior store_ops p q r i)"
  "refines ok view (borrow_from_left_interior ops p q r i) (borrow_from_left_interior store_ops p q r i)"
  "refines ok view (merge_interior_pages ops jr p q r i) (merge_interior_pages store_ops jr p q r i)"
  "refines ok view (spare_keys ops cap b p) (spare_keys store_ops cap b p)"
  unfolding borrow_from_right_interior_def borrow_from_left_interior_def merge_interior_pages_def
    spare_keys_def Let_def
  by (intro refine_intros node_io_refines free_page_refines)+

lemma check_interior_underflow_refines:
  "refines ok view (check_interior_underflow ops cap jr stack p) (check_interior_underflow store_ops cap jr stack p)"
proof (induction stack arbitrary: p)
  case Nil
  show ?case unfolding check_interior_underflow.simps by (rule refines_ret)
next
  case (Cons e stack)
  obtain q i where e: "e = (q, i)" by (cases e)
  show ?case
    unfolding e check_interior_underflow.simps Let_def
    by (intro refine_intros node_io_refines interior_refines Cons.IH)
qed

lemma rebalance_leaf_refines:
  "refines ok view (rebalance_leaf ops cap jr stack p) (rebalance_leaf store_ops cap jr stack p)"
  unfolding rebalance_leaf_def borrow_right_ok_def borrow_left_ok_def merge_leaves_def
    remove_from_parent_def Let_def
  by (intro refine_intros op_refines get_refines node_io_refines read_all_leaf_cells_refines
      borrow_leaf_refines free_spilled_cell_chains_refines leaf_rewrite_refines free_page_refines
      check_interior_underflow_refines update_parent_separator_refines)

lemma shrink_root_refines:
  "refines ok view (shrink_root_if_needed ops jr n) (shrink_root_if_needed store_ops jr n)"
proof (induction n)
  case 0
  show ?case unfolding shrink_root_if_needed.simps by (rule refines_raise)
next
  case (Suc n)
  show ?case
    unfolding shrink_root_if_needed.simps Let_def root_same
    by (intro refine_intros op_refines free_page_refines Suc.IH)
qed

end

end
