(* ===== verification/Cursor.thy ===== *)
theory Cursor
  imports TreeDelete RecordCodec
begin

text \<open>
  \<open>btree/cursor.py\<close>: the cursor over one tree. Descents and scans follow page numbers read from
  the file, so on a damaged file they may not end; they carry fuel, and run out with \<open>Diverges\<close>.
  A cursor object is the record \<open>cursor\<close>; the operations that do not use its state take the root
  page only.
\<close>

section \<open>Descent\<close>

fun descend :: "'s pager_ops \<Rightarrow> nat \<Rightarrow> path \<Rightarrow> nat \<Rightarrow> int \<Rightarrow> ('s, nat \<times> nat \<times> path) pm" where
  \<comment> \<open>the loop of \<open>move_to\<close>: leaf, insert index, and the path with the parent of the leaf first\<close>
  "descend ops 0 stack page_no key = raiseS Diverges"
| "descend ops (Suc fuel) stack page_no key =
     bindS (op_read_page ops page_no) (\<lambda>page.
     bindS (liftR (page_type page)) (\<lambda>ptype.
     if ptype = PAGE_LEAF_TABLE then
       bindS (read_all_leaf_cells None page) (\<lambda>cells.
       retS (page_no, bisect_left (map fst cells) key, stack))
     else
       bindS (liftR (read_interior_node page)) (\<lambda>(keys, children).
       let child_idx = bisect_right keys key in
       bindS (liftR (nth_child children child_idx)) (\<lambda>child.
       descend ops fuel ((page_no, child_idx) # stack) child key))))"

definition move_to :: "'s pager_ops \<Rightarrow> nat \<Rightarrow> nat \<Rightarrow> int \<Rightarrow> ('s, nat \<times> nat \<times> path) pm" where
  "move_to ops fuel root_page_no key = descend ops fuel [] root_page_no key"

fun leftmost_leaf :: "'s pager_ops \<Rightarrow> nat \<Rightarrow> nat \<Rightarrow> ('s, nat) pm" where
  "leftmost_leaf ops 0 page_no = raiseS Diverges"
| "leftmost_leaf ops (Suc fuel) page_no =
     bindS (op_read_page ops page_no) (\<lambda>page.
     bindS (liftR (page_type page)) (\<lambda>ptype.
     if ptype = PAGE_LEAF_TABLE then retS page_no
     else
       bindS (liftR (read_interior_node page)) (\<lambda>(keys, children).
       bindS (liftR (nth_child children 0)) (\<lambda>child.
       leftmost_leaf ops fuel child))))"

fun max_key :: "'s pager_ops \<Rightarrow> nat \<Rightarrow> nat \<Rightarrow> ('s, int option) pm" where
  "max_key ops 0 page_no = raiseS Diverges"
| "max_key ops (Suc fuel) page_no =
     bindS (op_read_page ops page_no) (\<lambda>page.
     bindS (liftR (page_type page)) (\<lambda>ptype.
     if ptype = PAGE_LEAF_TABLE then
       bindS (liftR (read_leaf_header page)) (\<lambda>(num_cells, ccs, fb, frag).
       if num_cells = 0 then retS None
       else
         bindS (liftR (unpack_from 2 page (LEAF_PTR_ARRAY_START + (num_cells - 1) * 2))) (\<lambda>ptr.
         bindS (liftR (decode_varint page ptr)) (\<lambda>(key, n).
         retS (Some (int key)))))
     else
       bindS (liftR (read_interior_header page)) (\<lambda>(num_cells, ccs, rightmost).
       max_key ops fuel rightmost)))"

section \<open>Insertion\<close>

definition insert_new ::
  "'s pager_ops \<Rightarrow> nat \<Rightarrow> path \<Rightarrow> nat \<Rightarrow> nat \<Rightarrow> bytes \<Rightarrow> nat \<Rightarrow> int \<Rightarrow> bytes \<Rightarrow> ('s, unit) pm"
where
  \<comment> \<open>the end of \<open>insert\<close>: \<open>key\<close> is not on the page \<open>page\<close> with \<open>num_cells\<close> cells\<close>
  "insert_new ops cap path_stack leaf_page_no insert_idx page num_cells key val =
     bindS (getS (op_has_journal ops)) (\<lambda>jr.
     bindS (liftR (leaf_has_room_for page num_cells None key val)) (\<lambda>room.
     if room \<and> num_cells < cap then
       bindS (liftR (unpack_from 4 page 8)) (\<lambda>sibling.
       write_leaf_inserting_one ops jr leaf_page_no page num_cells insert_idx key val sibling)
     else
       bindS (getS (op_wal_mode ops)) (\<lambda>wal_mode.
       if \<not> jr \<and> \<not> wal_mode then raiseS RuntimeErr
       else leaf_split_and_insert ops cap jr path_stack leaf_page_no key val)))"

definition btree_insert :: "'s pager_ops \<Rightarrow> nat \<Rightarrow> nat \<Rightarrow> nat \<Rightarrow> int \<Rightarrow> bytes \<Rightarrow> ('s, unit) pm" where
  "btree_insert ops cap fuel root_page_no key val =
     bindS (move_to ops fuel root_page_no key) (\<lambda>(leaf_page_no, insert_idx, path_stack).
     bindS (op_read_page ops leaf_page_no) (\<lambda>page.
     bindS (read_all_leaf_cells None page) (\<lambda>cells.
     if insert_idx < length cells \<and> fst (cells ! insert_idx) = key then
       bindS (getS (op_has_journal ops)) (\<lambda>jr.
       bindS (free_spilled_cell_chain ops jr page insert_idx) (\<lambda>_.
       bindS (liftR (leaf_has_room_for page (length cells) (Some insert_idx) key val)) (\<lambda>room.
       if room then
         bindS (liftR (unpack_from 4 page 8)) (\<lambda>sibling.
         write_leaf_replacing_one ops jr leaf_page_no page (length cells) insert_idx key val sibling)
       else
         bindS (getS (op_wal_mode ops)) (\<lambda>wal_mode.
         if \<not> jr \<and> \<not> wal_mode then raiseS RuntimeErr
         else
           bindS (liftR (unpack_from 4 page 8)) (\<lambda>sibling_link.
           bindS (liftR (raw_copy_leaf_excluding page (length cells) insert_idx sibling_link)) (\<lambda>slimmed_page.
           bindS (op_write_page ops leaf_page_no slimmed_page) (\<lambda>_.
           bindS (read_all_leaf_cells None slimmed_page) (\<lambda>cells'.
           insert_new ops cap path_stack leaf_page_no insert_idx slimmed_page (length cells') key val))))))))
     else insert_new ops cap path_stack leaf_page_no insert_idx page (length cells) key val)))"

section \<open>Deletion\<close>

definition SMALL_CAP_SENTINEL :: nat where "SMALL_CAP_SENTINEL = 9999"

definition btree_delete :: "'s pager_ops \<Rightarrow> nat \<Rightarrow> nat \<Rightarrow> nat \<Rightarrow> int \<Rightarrow> ('s, unit) pm" where
  "btree_delete ops cap fuel root_page_no key =
     bindS (getS (op_has_journal ops)) (\<lambda>jr.
     bindS (getS (op_wal_mode ops)) (\<lambda>wal_mode.
     if \<not> jr \<and> \<not> wal_mode then raiseS RuntimeErr
     else
       bindS (move_to ops fuel root_page_no key) (\<lambda>(leaf_page_no, insert_idx, path_stack).
       bindS (remove_cell_from_leaf ops leaf_page_no key) (\<lambda>removed.
       if \<not> removed then retS ()
       else
         bindS (if leaf_page_no \<noteq> root_page_no then
             bindS (op_read_page ops leaf_page_no) (\<lambda>page.
             bindS (read_all_leaf_cells None page) (\<lambda>cells.
             bindS (liftR (leaf_underflows page (length cells))) (\<lambda>underflow0.
             let underflow =
               (if \<not> underflow0 \<and> cap < SMALL_CAP_SENTINEL then length cells < leaf_min_cells cap
                else underflow0)
             in if underflow then rebalance_leaf ops cap jr path_stack leaf_page_no else retS ())))
           else retS ()) (\<lambda>_.
         shrink_root_if_needed ops jr fuel)))))"

section \<open>Scanning\<close>

record cursor =
  cur_root :: nat
  scan_page_no :: "nat option"
  scan_cell_idx :: nat
  scan_cells :: "(int \<times> bytes) list"

fun scan_advance ::
  "'s pager_ops \<Rightarrow> nat \<Rightarrow> nat \<Rightarrow> nat \<Rightarrow> (int \<times> bytes) list \<Rightarrow> cursor \<Rightarrow> ('s, (int \<times> bytes) option \<times> cursor) pm"
where
  \<comment> \<open>the \<open>while True\<close> loop of \<open>next\<close> on the page, the index and the cells of the scan\<close>
  "scan_advance ops 0 page_no idx cells cur = raiseS Diverges"
| "scan_advance ops (Suc fuel) page_no idx cells cur =
     (if idx < length cells then
        retS (Some (cells ! idx),
              cur\<lparr>scan_page_no := Some page_no, scan_cell_idx := idx + 1, scan_cells := cells\<rparr>)
      else
        bindS (get_next_leaf ops page_no) (\<lambda>sibling.
        if sibling = 0 then
          retS (None, cur\<lparr>scan_page_no := None, scan_cell_idx := idx, scan_cells := cells\<rparr>)
        else
          bindS (op_read_page ops sibling) (\<lambda>page.
          bindS (read_all_leaf_cells (Some ops) page) (\<lambda>cells'.
          scan_advance ops fuel sibling 0 cells' cur))))"

definition cursor_next :: "'s pager_ops \<Rightarrow> nat \<Rightarrow> cursor \<Rightarrow> ('s, (int \<times> bytes) option \<times> cursor) pm" where
  "cursor_next ops fuel cur =
     (case scan_page_no cur of
        None \<Rightarrow>
          bindS (leftmost_leaf ops fuel (cur_root cur)) (\<lambda>page_no.
          bindS (op_read_page ops page_no) (\<lambda>page.
          bindS (read_all_leaf_cells (Some ops) page) (\<lambda>cells.
          scan_advance ops fuel page_no 0 cells cur)))
      | Some page_no \<Rightarrow> scan_advance ops fuel page_no (scan_cell_idx cur) (scan_cells cur) cur)"

fun scan_all ::
  "'s pager_ops \<Rightarrow> nat \<Rightarrow> nat \<Rightarrow> cursor \<Rightarrow> ('s, (int \<times> bytes) list \<times> cursor) pm"
where
  \<comment> \<open>\<open>item = self.next(); while item is not None\<close>\<close>
  "scan_all ops fuel 0 cur = raiseS Diverges"
| "scan_all ops fuel (Suc steps) cur =
     bindS (cursor_next ops fuel cur) (\<lambda>(item, cur').
     case item of
       None \<Rightarrow> retS ([], cur')
     | Some kv \<Rightarrow> bindS (scan_all ops fuel steps cur') (\<lambda>(kvs, cur''). retS (kv # kvs, cur'')))"

definition reset_scan :: "cursor \<Rightarrow> cursor" where
  "reset_scan cur = cur\<lparr>scan_page_no := None, scan_cell_idx := 0, scan_cells := []\<rparr>"

definition full_scan ::
  "'s pager_ops \<Rightarrow> nat \<Rightarrow> nat \<Rightarrow> cursor \<Rightarrow> ('s, (int \<times> bytes) list \<times> cursor) pm"
where
  "full_scan ops fuel steps cur =
     bindS (scan_all ops fuel steps (reset_scan cur)) (\<lambda>(kvs, cur'). retS (kvs, reset_scan cur'))"

section \<open>Column scan\<close>

definition row_column :: "'s pager_ops \<Rightarrow> bytes \<Rightarrow> nat \<Rightarrow> nat \<Rightarrow> ('s, int \<times> pyval option) pm" where
  \<comment> \<open>one row of \<open>scan_column_views\<close>: its key and the column, \<open>None\<close> when the row is shorter\<close>
  "row_column ops page col_index i =
     bindS (liftR (cell_head page i)) (\<lambda>(ptr, key, kn, payload_len, vn).
     let payload_start = ptr + kn + vn in
     bindS (if OVERFLOW_THRESHOLD < payload_len then
              bindS (liftR (unpack_from 4 page payload_start)) (\<lambda>first_ovf.
              bindS (read_overflow_chain ops first_ovf payload_len) (\<lambda>payload_bytes.
              liftR (decode_record_views False payload_bytes 0)))
            else liftR (decode_record_views True (pyslice page payload_start (payload_start + payload_len)) 0))
     (\<lambda>(row_vals, _).
     retS (int key, if col_index < length row_vals then Some (row_vals ! col_index) else None)))"

fun scan_columns :: "'s pager_ops \<Rightarrow> nat \<Rightarrow> nat \<Rightarrow> nat \<Rightarrow> ('s, (int \<times> pyval option) list) pm" where
  "scan_columns ops 0 col_index page_no = raiseS Diverges"
| "scan_columns ops (Suc fuel) col_index page_no =
     (if page_no = 0 then retS []
      else
        bindS (op_read_page ops page_no) (\<lambda>page.
        bindS (liftR (read_leaf_header page)) (\<lambda>(num_cells, ccs, fb, frag).
        bindS (mapS (row_column ops page col_index) [0..<num_cells]) (\<lambda>rows.
        bindS (get_next_leaf ops page_no) (\<lambda>next_no.
        bindS (scan_columns ops fuel col_index next_no) (\<lambda>rest.
        retS (rows @ rest)))))))"

definition scan_column_views :: "'s pager_ops \<Rightarrow> nat \<Rightarrow> nat \<Rightarrow> nat \<Rightarrow> ('s, (int \<times> pyval option) list) pm" where
  \<comment> \<open>all the pairs the generator yields; the scan position of the cursor is as before\<close>
  "scan_column_views ops fuel root_page_no col_index =
     bindS (leftmost_leaf ops fuel root_page_no) (\<lambda>page_no. scan_columns ops fuel col_index page_no)"

section \<open>On every pager\<close>

context page_reader
begin

lemma descend_refines:
  "refines ok view (descend ops n stack p k) (descend store_ops n stack p k)"
proof (induction n arbitrary: stack p)
  case 0
  show ?case unfolding descend.simps by (rule refines_raise)
next
  case (Suc n)
  show ?case
    unfolding descend.simps Let_def
    by (intro refine_intros read_refines read_all_leaf_cells_refines Suc.IH)
qed

lemma leftmost_leaf_refines:
  "refines ok view (leftmost_leaf ops n p) (leftmost_leaf store_ops n p)"
proof (induction n arbitrary: p)
  case 0
  show ?case unfolding leftmost_leaf.simps by (rule refines_raise)
next
  case (Suc n)
  show ?case unfolding leftmost_leaf.simps by (intro refine_intros read_refines Suc.IH)
qed

lemma max_key_refines: "refines ok view (max_key ops n p) (max_key store_ops n p)"
proof (induction n arbitrary: p)
  case 0
  show ?case unfolding max_key.simps by (rule refines_raise)
next
  case (Suc n)
  show ?case unfolding max_key.simps by (intro refine_intros read_refines Suc.IH)
qed

lemma scan_advance_refines:
  "refines ok view (scan_advance ops n p i cells cur) (scan_advance store_ops n p i cells cur)"
proof (induction n arbitrary: p i cells)
  case 0
  show ?case unfolding scan_advance.simps by (rule refines_raise)
next
  case (Suc n)
  show ?case
    unfolding scan_advance.simps
    by (intro refine_intros read_refines get_next_leaf_refines read_all_leaf_cells_refines Suc.IH)
qed

lemma cursor_next_refines:
  "refines ok view (cursor_next ops n cur) (cursor_next store_ops n cur)"
  unfolding cursor_next_def
  by (intro refine_intros read_refines leftmost_leaf_refines read_all_leaf_cells_refines scan_advance_refines)

lemma scan_all_refines:
  "refines ok view (scan_all ops n m cur) (scan_all store_ops n m cur)"
proof (induction m arbitrary: cur)
  case 0
  show ?case unfolding scan_all.simps by (rule refines_raise)
next
  case (Suc m)
  show ?case unfolding scan_all.simps by (intro refine_intros cursor_next_refines Suc.IH)
qed

lemma full_scan_refines:
  "refines ok view (full_scan ops n m cur) (full_scan store_ops n m cur)"
  unfolding full_scan_def by (intro refine_intros scan_all_refines)

end

context page_store
begin

lemma insert_new_refines:
  "refines ok view (insert_new ops cap stack p i page n k v) (insert_new store_ops cap stack p i page n k v)"
  unfolding insert_new_def
  by (intro refine_intros get_refines leaf_rewrite_refines leaf_split_refines)

lemma btree_insert_refines:
  "refines ok view (btree_insert ops cap n r k v) (btree_insert store_ops cap n r k v)"
  unfolding btree_insert_def move_to_def
  by (intro refine_intros op_refines get_refines descend_refines read_all_leaf_cells_refines
      leaf_rewrite_refines insert_new_refines)

lemma btree_delete_refines:
  "refines ok view (btree_delete ops cap n r k) (btree_delete store_ops cap n r k)"
  unfolding btree_delete_def move_to_def Let_def
  by (intro refine_intros op_refines get_refines descend_refines read_all_leaf_cells_refines
      remove_cell_from_leaf_refines rebalance_leaf_refines shrink_root_refines)

end

end
