(* ===== verification/TreeModel.thy ===== *)
theory TreeModel
  imports LeafFacts Cursor
begin

text \<open>
  The abstract B+tree: leaves with abstract cells and interior nodes, each with its page number.
  \<open>stored\<close> relates a tree to the pages, \<open>ordered\<close> is the search-tree order with the separators as
  half-open bounds, and a list of frames is the path from a node up to the root. \<open>tree_at\<close> is the
  invariant of the tree of a database.
\<close>

datatype btree = BLeaf nat "cell list" | BNode nat "int list" "btree list"

fun tpage :: "btree \<Rightarrow> nat" where
  "tpage (BLeaf p cs) = p"
| "tpage (BNode p ks ts) = p"

fun tree_pages :: "btree \<Rightarrow> nat list" where
  "tree_pages (BLeaf p cs) = p # all_pages cs"
| "tree_pages (BNode p ks ts) = p # concat (map tree_pages ts)"

fun cells :: "btree \<Rightarrow> cell list" where
  "cells (BLeaf p cs) = cs"
| "cells (BNode p ks ts) = concat (map cells ts)"

fun leaves :: "btree \<Rightarrow> nat list" where
  "leaves (BLeaf p cs) = [p]"
| "leaves (BNode p ks ts) = concat (map leaves ts)"

fun stored :: "(nat \<Rightarrow> bytes) \<Rightarrow> btree \<Rightarrow> bool" where
  "stored pg (BLeaf p cs) \<longleftrightarrow> (\<exists>sib. leaf_at pg (pg p) cs sib)"
| "stored pg (BNode p ks ts) \<longleftrightarrow>
     interior_page (pg p) ks (map tpage ts) \<and> interior_fits ks \<and> (\<forall>k \<in> set ks. key_ok k) \<and>
     (\<forall>t \<in> set ts. stored pg t)"

fun bal :: "nat \<Rightarrow> btree \<Rightarrow> bool" where
  \<comment> \<open>every leaf is \<open>d\<close> levels down\<close>
  "bal d (BLeaf p cs) \<longleftrightarrow> d = 0"
| "bal d (BNode p ks ts) \<longleftrightarrow> (case d of 0 \<Rightarrow> False | Suc e \<Rightarrow> \<forall>t \<in> set ts. bal e t)"

section \<open>Order\<close>

definition in_range :: "int option \<Rightarrow> int option \<Rightarrow> int \<Rightarrow> bool" where
  "in_range lo hi x \<longleftrightarrow> (case lo of None \<Rightarrow> True | Some l \<Rightarrow> l \<le> x) \<and> (case hi of None \<Rightarrow> True | Some h \<Rightarrow> x < h)"

definition lt_bound :: "int option \<Rightarrow> int option \<Rightarrow> bool" where
  "lt_bound lo hi \<longleftrightarrow> (case lo of None \<Rightarrow> True | Some l \<Rightarrow> (case hi of None \<Rightarrow> True | Some h \<Rightarrow> l < h))"

fun ordered :: "int option \<Rightarrow> int option \<Rightarrow> btree \<Rightarrow> bool"
and ord_list :: "int option \<Rightarrow> int list \<Rightarrow> btree list \<Rightarrow> int option \<Rightarrow> bool" where
  "ordered lo hi (BLeaf p cs) \<longleftrightarrow>
     sorted_wrt (<) (map fst cs) \<and> (\<forall>c \<in> set cs. in_range lo hi (fst c))"
| "ordered lo hi (BNode p ks ts) \<longleftrightarrow> ord_list lo ks ts hi"
| "ord_list lo ks [] hi \<longleftrightarrow> False"
| "ord_list lo ks (t # ts) hi \<longleftrightarrow>
     (case ks of
        [] \<Rightarrow> ts = [] \<and> lt_bound lo hi \<and> ordered lo hi t
      | k # ks' \<Rightarrow> lt_bound lo (Some k) \<and> ordered lo (Some k) t \<and> ord_list (Some k) ks' ts hi)"

lemma ord_list_simps [simp]:
  "ord_list lo [] ts hi \<longleftrightarrow> (\<exists>t. ts = [t] \<and> lt_bound lo hi \<and> ordered lo hi t)"
  "ord_list lo (k # ks) ts hi \<longleftrightarrow>
     (\<exists>t us. ts = t # us \<and> lt_bound lo (Some k) \<and> ordered lo (Some k) t \<and> ord_list (Some k) ks us hi)"
  by (cases ts; simp)+

declare ord_list.simps [simp del]

lemma ord_list_length: "ord_list lo ks ts hi \<Longrightarrow> length ts = length ks + 1"
  by (induction ks arbitrary: lo ts) auto

lemma lt_bound_trans:
  "lt_bound lo (Some k) \<Longrightarrow> lt_bound (Some k) hi \<Longrightarrow> lt_bound lo hi"
  by (auto simp: lt_bound_def split: option.splits)

lemma ord_list_lt: "ord_list lo ks ts hi \<Longrightarrow> lt_bound lo hi"
  by (induction ks arbitrary: lo ts) (auto intro: lt_bound_trans)

definition lastb :: "int option \<Rightarrow> int list \<Rightarrow> int option" where
  "lastb lo ks = (if ks = [] then lo else Some (last ks))"

definition headb :: "int list \<Rightarrow> int option \<Rightarrow> int option" where
  "headb ks hi = (case ks of [] \<Rightarrow> hi | k # _ \<Rightarrow> Some k)"

lemma bound_simps [simp]:
  "lastb lo [] = lo" "lastb lo (k # ks) = lastb (Some k) ks" "headb [] hi = hi" "headb (k # ks) hi = Some k"
  by (auto simp: lastb_def headb_def)

fun ord_pre :: "int option \<Rightarrow> int list \<Rightarrow> btree list \<Rightarrow> bool" where
  \<comment> \<open>children, each with the separator to its right\<close>
  "ord_pre lo [] ls \<longleftrightarrow> ls = []"
| "ord_pre lo (k # ks) ls \<longleftrightarrow>
     (\<exists>t us. ls = t # us \<and> lt_bound lo (Some k) \<and> ordered lo (Some k) t \<and> ord_pre (Some k) ks us)"

fun ord_post :: "int list \<Rightarrow> btree list \<Rightarrow> int option \<Rightarrow> bool" where
  \<comment> \<open>children, each with the separator to its left\<close>
  "ord_post [] rs hi \<longleftrightarrow> rs = []"
| "ord_post (k # ks) rs hi \<longleftrightarrow>
     (\<exists>t us. rs = t # us \<and> lt_bound (Some k) (headb ks hi) \<and> ordered (Some k) (headb ks hi) t \<and>
        ord_post ks us hi)"

lemma ord_list_pre:
  "length kl = length ls \<Longrightarrow>
   ord_list lo (kl @ ks) (ls @ ts) hi \<longleftrightarrow> ord_pre lo kl ls \<and> ord_list (lastb lo kl) ks ts hi"
proof (induction kl arbitrary: lo ls)
  case (Cons k kl)
  then show ?case by (cases ls) auto
qed simp

lemma ord_list_post:
  "length ts = length ks + 1 \<Longrightarrow> length kr = length rs \<Longrightarrow>
   ord_list lo (ks @ kr) (ts @ rs) hi \<longleftrightarrow> ord_list lo ks ts (headb kr hi) \<and> ord_post kr rs hi"
proof (induction ks arbitrary: lo ts)
  case Nil
  then obtain t where t: "ts = [t]" by (cases ts) auto
  show ?case unfolding t using Nil(2)
  proof (induction kr arbitrary: lo t rs)
    case (Cons k kr)
    then obtain u us where rs: "rs = u # us" by (cases rs) auto
    with Cons show ?case by auto
  qed simp
next
  case (Cons k ks)
  then show ?case by (cases ts) auto
qed

lemma ord_pre_length: "ord_pre lo kl ls \<Longrightarrow> length kl = length ls"
  by (induction kl arbitrary: lo ls) auto

lemma ord_post_length: "ord_post kr rs hi \<Longrightarrow> length kr = length rs"
  by (induction kr arbitrary: rs) auto

lemma in_range_weaken:
  "in_range lo hi x \<Longrightarrow> (case lo' of None \<Rightarrow> True | Some l \<Rightarrow> (case lo of None \<Rightarrow> False | Some m \<Rightarrow> l \<le> m)) \<Longrightarrow>
   (case hi' of None \<Rightarrow> True | Some h \<Rightarrow> (case hi of None \<Rightarrow> False | Some m \<Rightarrow> m \<le> h)) \<Longrightarrow> in_range lo' hi' x"
  by (auto simp: in_range_def split: option.splits)

text \<open>An ordered tree lists its cells in strictly ascending key order, within its bounds.\<close>

lemma ordered_cells_aux:
  "ordered lo hi t \<Longrightarrow>
     sorted_wrt (<) (map fst (cells t)) \<and> (\<forall>c \<in> set (cells t). in_range lo hi (fst c))"
  "ord_list lo ks ts hi \<Longrightarrow>
     sorted_wrt (<) (map fst (concat (map cells ts))) \<and>
     (\<forall>c \<in> set (concat (map cells ts)). in_range lo hi (fst c))"
proof (induction lo hi t and lo ks ts hi rule: ordered_ord_list.induct)
  case (4 lo ks t ts hi)
  show ?case
  proof (cases ks)
    case Nil
    then show ?thesis using 4 by simp
  next
    case (Cons k ks')
    then have h: "lt_bound lo (Some k)" "ordered lo (Some k) t" "ord_list (Some k) ks' ts hi"
      using "4.prems" by auto
    note l = "4.IH"(2) [OF Cons h(2)] and r = "4.IH"(3) [OF Cons h(3)]
    have lt: "lt_bound (Some k) hi" using ord_list_lt [OF h(3)] .
    define B where "B = concat (map cells ts)"
    have "fst c < fst c'" if "c \<in> set (cells t)" "c' \<in> set B" for c c'
    proof -
      have "fst c < k" using l that(1) by (auto simp: in_range_def split: option.splits)
      moreover have "k \<le> fst c'" using r that(2) unfolding B_def by (auto simp: in_range_def split: option.splits)
      ultimately show ?thesis by simp
    qed
    then have "\<forall>x \<in> set (map fst (cells t)). \<forall>y \<in> set (map fst B). x < y" by auto
    moreover have "\<forall>c \<in> set (cells t). in_range lo hi (fst c)"
      using l lt by (force simp: in_range_def lt_bound_def split: option.splits)
    moreover have "\<forall>c \<in> set B. in_range lo hi (fst c)"
      using r h(1) unfolding B_def by (force simp: in_range_def lt_bound_def split: option.splits)
    moreover have "sorted_wrt (<) (map fst (cells t))" "sorted_wrt (<) (map fst B)"
      using l r by (simp_all only: B_def)
    moreover have "concat (map cells (t # ts)) = cells t @ B" by (simp add: B_def)
    ultimately show ?thesis
      by (simp only: map_append set_append sorted_wrt_append) blast
  qed
qed (auto simp: ord_list.simps)

lemmas ordered_cells = ordered_cells_aux(1)

section \<open>Frames\<close>

type_synonym frame = "nat \<times> int list \<times> btree list \<times> int list \<times> btree list"
  \<comment> \<open>page, separators and children left of the hole, separators and children right of it\<close>

fun plug :: "frame list \<Rightarrow> btree \<Rightarrow> btree" where
  "plug [] t = t"
| "plug ((p, kl, ls, kr, rs) # fs) t = plug fs (BNode p (kl @ kr) (ls @ t # rs))"

fun bnd :: "int option \<Rightarrow> int option \<Rightarrow> frame list \<Rightarrow> int option \<times> int option" where
  "bnd lo hi [] = (lo, hi)"
| "bnd lo hi ((p, kl, ls, kr, rs) # fs) = (let (l, h) = bnd lo hi fs in (lastb l kl, headb kr h))"

fun frames_ord :: "int option \<Rightarrow> int option \<Rightarrow> frame list \<Rightarrow> bool" where
  "frames_ord lo hi [] \<longleftrightarrow> True"
| "frames_ord lo hi ((p, kl, ls, kr, rs) # fs) \<longleftrightarrow>
     (let (l, h) = bnd lo hi fs in ord_pre l kl ls \<and> ord_post kr rs h) \<and> frames_ord lo hi fs"

fun frames_stored :: "(nat \<Rightarrow> bytes) \<Rightarrow> nat \<Rightarrow> frame list \<Rightarrow> bool" where
  \<comment> \<open>the frames are stored, with the page \<open>c\<close> in the hole\<close>
  "frames_stored pg c [] \<longleftrightarrow> True"
| "frames_stored pg c ((p, kl, ls, kr, rs) # fs) \<longleftrightarrow>
     interior_page (pg p) (kl @ kr) (map tpage ls @ c # map tpage rs) \<and> interior_fits (kl @ kr) \<and>
     (\<forall>k \<in> set (kl @ kr). key_ok k) \<and> (\<forall>t \<in> set (ls @ rs). stored pg t) \<and> frames_stored pg p fs"

fun frames_bal :: "nat \<Rightarrow> frame list \<Rightarrow> bool" where
  \<comment> \<open>the siblings of a hole at height \<open>d\<close> have height \<open>d\<close>\<close>
  "frames_bal d [] \<longleftrightarrow> True"
| "frames_bal d ((p, kl, ls, kr, rs) # fs) \<longleftrightarrow> (\<forall>t \<in> set (ls @ rs). bal d t) \<and> frames_bal (Suc d) fs"

fun root_page :: "nat \<Rightarrow> frame list \<Rightarrow> nat" where
  "root_page c [] = c"
| "root_page c ((p, kl, ls, kr, rs) # fs) = root_page p fs"

fun frames_pages :: "frame list \<Rightarrow> nat list" where
  "frames_pages [] = []"
| "frames_pages ((p, kl, ls, kr, rs) # fs) =
     p # concat (map tree_pages ls) @ concat (map tree_pages rs) @ frames_pages fs"

fun node_pages :: "frame list \<Rightarrow> nat list" where
  "node_pages [] = []"
| "node_pages ((p, kl, ls, kr, rs) # fs) = p # node_pages fs"

fun ctx_left :: "(btree \<Rightarrow> 'a list) \<Rightarrow> frame list \<Rightarrow> 'a list" where
  "ctx_left f [] = []"
| "ctx_left f ((p, kl, ls, kr, rs) # fs) = ctx_left f fs @ concat (map f ls)"

fun ctx_right :: "(btree \<Rightarrow> 'a list) \<Rightarrow> frame list \<Rightarrow> 'a list" where
  "ctx_right f [] = []"
| "ctx_right f ((p, kl, ls, kr, rs) # fs) = concat (map f rs) @ ctx_right f fs"

definition stack_of :: "frame list \<Rightarrow> path" where
  "stack_of fs = map (\<lambda>(p, kl, ls, kr, rs). (p, length kl)) fs"

lemma stack_of_simps [simp]:
  "stack_of [] = []" "stack_of ((p, kl, ls, kr, rs) # fs) = (p, length kl) # stack_of fs"
  "stack_of (fs @ gs) = stack_of fs @ stack_of gs"
  by (simp_all add: stack_of_def)

lemma plug_append: "plug (fs @ gs) t = plug gs (plug fs t)"
  by (induction fs t rule: plug.induct) auto

lemma bnd_append: "bnd lo hi (fs @ gs) = (case bnd lo hi gs of (l, h) \<Rightarrow> bnd l h fs)"
  by (induction fs rule: node_pages.induct) (auto split: prod.splits)

lemma stored_plug:
  "stored pg (plug fs t) \<longleftrightarrow> stored pg t \<and> frames_stored pg (tpage t) fs"
proof (induction fs t rule: plug.induct)
  case (2 p kl ls kr rs fs t)
  then show ?case by auto
qed simp

lemma tpage_plug: "tpage (plug fs t) = root_page (tpage t) fs"
  by (induction fs t rule: plug.induct) auto

lemma ordered_plug:
  "ordered lo hi (plug fs t) \<and> (\<forall>f \<in> set fs. case f of (p, kl, ls, kr, rs) \<Rightarrow>
      length kl = length ls \<and> length kr = length rs) \<longleftrightarrow>
   (case bnd lo hi fs of (l, h) \<Rightarrow> ordered l h t \<and> (fs \<noteq> [] \<longrightarrow> lt_bound l h)) \<and> frames_ord lo hi fs"
proof (induction fs t rule: plug.induct)
  case (2 p kl ls kr rs fs t)
  obtain l h where b: "bnd lo hi fs = (l, h)" by fastforce
  show ?case
  proof (cases "length kl = length ls \<and> length kr = length rs")
    case True
    have "ord_list l (kl @ kr) (ls @ t # rs) h \<longleftrightarrow>
      ord_pre l kl ls \<and> lt_bound (lastb l kl) (headb kr h) \<and> ordered (lastb l kl) (headb kr h) t \<and> ord_post kr rs h"
      using True ord_list_pre [of kl ls l kr "t # rs" h] ord_list_post [of "[t]" "[]" kr rs "lastb l kl" h]
      by auto
    moreover have "ord_list l (kl @ kr) (ls @ t # rs) h \<Longrightarrow> lt_bound l h" by (rule ord_list_lt)
    ultimately show ?thesis using 2 True b by auto
  next
    case False
    then show ?thesis using b ord_pre_length [of l kl ls] ord_post_length [of kr rs h] by auto
  qed
qed simp

lemma cells_plug: "cells (plug fs t) = ctx_left cells fs @ cells t @ ctx_right cells fs"
  by (induction fs t rule: plug.induct) auto

lemma leaves_plug: "leaves (plug fs t) = ctx_left leaves fs @ leaves t @ ctx_right leaves fs"
  by (induction fs t rule: plug.induct) auto

lemma tree_pages_plug:
  "mset (tree_pages (plug fs t)) = mset (tree_pages t) + mset (frames_pages fs)"
  by (induction fs t rule: plug.induct) (auto simp: ac_simps)

lemma bal_plug: "bal (length fs + d) (plug fs t) \<longleftrightarrow> bal d t \<and> frames_bal d fs"
proof (induction fs t arbitrary: d rule: plug.induct)
  case (2 p kl ls kr rs fs t)
  have "bal (length ((p, kl, ls, kr, rs) # fs) + d) (plug ((p, kl, ls, kr, rs) # fs) t)
      = bal (length fs + Suc d) (plug fs (BNode p (kl @ kr) (ls @ t # rs)))" by simp
  then show ?case using 2 [of "Suc d"] by auto
qed simp

end
