(* ===== verification/TreeSearch.thy ===== *)
theory TreeSearch
  imports TreeModel
begin

text \<open>
  The invariant of a tree on the pages, and the operations that only read it: the descent to a key,
  the greatest key, and the scan over the sibling chain.
\<close>

definition sibling_of :: "bytes \<Rightarrow> nat" where
  "sibling_of page = be_nat (pyslice page 8 12)"

fun linked :: "(nat \<Rightarrow> bytes) \<Rightarrow> nat list \<Rightarrow> nat \<Rightarrow> bool" where
  \<comment> \<open>each leaf's sibling link is the next leaf, and the last one's is \<open>e\<close>\<close>
  "linked pg [] e \<longleftrightarrow> True"
| "linked pg (p # ps) e \<longleftrightarrow> sibling_of (pg p) = (case ps of [] \<Rightarrow> e | q # _ \<Rightarrow> q) \<and> linked pg ps e"

definition tree_at :: "store \<Rightarrow> nat set \<Rightarrow> nat \<Rightarrow> btree \<Rightarrow> bool" where
  \<comment> \<open>a tree of height \<open>d\<close>, stored in pages in use\<close>
  "tree_at st L d t \<longleftrightarrow>
     space st L \<and> stored (st_pages st) t \<and> ordered None None t \<and> bal d t \<and>
     distinct (tree_pages t) \<and> set (tree_pages t) \<subseteq> L \<and> linked (st_pages st) (leaves t) 0"

definition tree_map :: "btree \<Rightarrow> int \<Rightarrow> bytes option" where
  \<comment> \<open>what the tree maps a key to\<close>
  "tree_map t = map_of (map cell_kv (cells t))"

lemma leaf_at_sibling: "leaf_at pg page cs sib \<Longrightarrow> sib = sibling_of page"
  by (simp add: leaf_at_def leaf_page_def sibling_of_def)

lemma linked_append:
  "linked pg (ps @ q # qs) e \<longleftrightarrow> linked pg ps q \<and> linked pg (q # qs) e"
  by (induction ps) (auto split: list.splits)

lemma linked_cong: "\<forall>p \<in> set ps. sibling_of (pg' p) = sibling_of (pg p) \<Longrightarrow> linked pg' ps e = linked pg ps e"
  by (induction ps) auto

lemma tpage_in_pages: "tpage t \<in> set (tree_pages t)"
  by (cases t) auto

lemma leaves_in_pages: "set (leaves t) \<subseteq> set (tree_pages t)"
  by (induction t) auto

lemma interior_page_read:
  assumes "interior_page page ks cs"
  shows "read_interior_node page = Inr (ks, cs)" and "page_type page = Inr PAGE_INTERIOR_TABLE"
    and "\<exists>ccs. read_interior_header page = Inr (length ks, ccs, last cs)" and "length page = PAGE_SIZE"
  using assms by (auto simp: interior_page_def)

lemma page_types_differ: "PAGE_INTERIOR_TABLE \<noteq> PAGE_LEAF_TABLE"
  by (simp add: PAGE_INTERIOR_TABLE_def PAGE_LEAF_TABLE_def)

section \<open>The descent\<close>

lemma ord_list_keys:
  "ord_list lo ks ts hi \<Longrightarrow> sorted_wrt (<) ks \<and> (\<forall>k \<in> set ks. lt_bound lo (Some k) \<and> lt_bound (Some k) hi)"
proof (induction ks arbitrary: lo ts)
  case (Cons k ks)
  then obtain t us where h: "lt_bound lo (Some k)" "ord_list (Some k) ks us hi" by auto
  from Cons.IH [OF h(2)] h ord_list_lt [OF h(2)] show ?case
    by (auto simp: lt_bound_def split: option.splits)
qed simp

lemma strict_sorted: "sorted_wrt (<) (ks :: int list) \<Longrightarrow> sorted ks"
  by (simp add: strict_sorted_iff)

definition child_slot :: "int list \<Rightarrow> int \<Rightarrow> nat" where
  "child_slot ks key = length (takeWhile (\<lambda>k. k \<le> key) ks)"

lemma child_slot_bounds:
  assumes "in_range lo hi key"
  shows "in_range (lastb lo (take (child_slot ks key) ks)) (headb (drop (child_slot ks key) ks) hi) key"
proof -
  have t: "take (child_slot ks key) ks = takeWhile (\<lambda>k. k \<le> key) ks"
    by (simp add: child_slot_def takeWhile_eq_take [symmetric])
  have d: "drop (child_slot ks key) ks = dropWhile (\<lambda>k. k \<le> key) ks"
    by (simp add: child_slot_def dropWhile_eq_drop [symmetric])
  have l: "last (takeWhile (\<lambda>k. k \<le> key) ks) \<le> key" if "takeWhile (\<lambda>k. k \<le> key) ks \<noteq> []"
    using last_in_set [OF that] set_takeWhileD by fastforce
  have h: "key < x" if "dropWhile (\<lambda>k. k \<le> key) ks = x # xs" for x xs
    using that hd_dropWhile [of "\<lambda>k. k \<le> key" ks] by fastforce
  have "case lastb lo (takeWhile (\<lambda>k. k \<le> key) ks) of None \<Rightarrow> True | Some m \<Rightarrow> m \<le> key"
    using assms l by (auto simp: in_range_def lastb_def split: option.splits)
  moreover have "case headb (dropWhile (\<lambda>k. k \<le> key) ks) hi of None \<Rightarrow> True | Some m \<Rightarrow> key < m"
    using assms h by (auto simp: in_range_def headb_def split: option.splits list.splits)
  ultimately show ?thesis unfolding t d by (simp add: in_range_def)
qed

fun frames_len :: "frame list \<Rightarrow> bool" where
  "frames_len [] \<longleftrightarrow> True"
| "frames_len ((p, kl, ls, kr, rs) # fs) \<longleftrightarrow> length kl = length ls \<and> length kr = length rs \<and> frames_len fs"

lemma frames_len_append [simp]: "frames_len (fs @ gs) \<longleftrightarrow> frames_len fs \<and> frames_len gs"
  by (induction fs rule: frames_len.induct) auto

lemma frames_len_all: "frames_len fs \<longleftrightarrow> (\<forall>f \<in> set fs. case f of (p, kl, ls, kr, rs) \<Rightarrow>
      length kl = length ls \<and> length kr = length rs)"
  by (induction fs rule: frames_len.induct) auto

lemma descend_run:
  assumes "stored (st_pages st) t" and "ordered lo hi t" and "in_range lo hi key" and "bal d t"
    and "d < fuel" and "0 \<notin> set (tree_pages t)"
  shows "\<exists>fs p cs. t = plug fs (BLeaf p cs) \<and> length fs = d \<and>
    (case bnd lo hi fs of (l, h) \<Rightarrow> in_range l h key) \<and>
    frames_len fs \<and>
    (\<forall>stack. descend store_ops fuel stack (tpage t) key st =
       (Inr (p, bisect_left (map fst cs) key, stack_of fs @ stack), st))"
  using assms
proof (induction fuel arbitrary: t d lo hi)
  case (Suc fuel)
  show ?case
  proof (cases t)
    case (BLeaf p cs)
    then obtain sib where leaf: "leaf_at (st_pages st) (st_pages st p) cs sib" using Suc.prems(1) by auto
    have "p \<noteq> 0" "d = 0" using Suc.prems BLeaf by auto
    then have "descend store_ops (Suc fuel) stack (tpage t) key st =
        (Inr (p, bisect_left (map fst cs) key, stack_of [] @ stack), st)" for stack
      using leaf_at_parts(2) [OF leaf] read_all_leaf_cells_ok(1) [OF leaf] BLeaf
      by (simp add: bindS_def store_run o_def)
    then show ?thesis
      using BLeaf Suc.prems(3) \<open>d = 0\<close> by (intro exI [of _ "[]"]) simp
  next
    case (BNode p ks ts)
    then obtain e where d: "d = Suc e" and balt: "\<forall>u \<in> set ts. bal e u"
      using Suc.prems(4) by (auto split: nat.splits)
    have page: "interior_page (st_pages st p) ks (map tpage ts)" and sts: "\<forall>u \<in> set ts. stored (st_pages st) u"
      using Suc.prems(1) BNode by auto
    have ol: "ord_list lo ks ts hi" using Suc.prems(2) BNode by simp
    define i where "i = child_slot ks key"
    have len: "length ts = length ks + 1" using ord_list_length [OF ol] .
    have i: "i < length ts" unfolding i_def child_slot_def using len length_takeWhile_le [of _ ks] by (simp add: le_imp_less_Suc)
    have bis: "bisect_right ks key = i"
      using ord_list_keys [OF ol] by (simp add: bisect_right_sorted strict_sorted i_def child_slot_def)
    let ?f = "(p, take i ks, take i ts, drop i ks, drop (Suc i) ts)"
    have split: "ks = take i ks @ drop i ks" "ts = take i ts @ ts ! i # drop (Suc i) ts"
      using i id_take_nth_drop by simp_all
    have lens: "length (take i ks) = length (take i ts)" "length (drop i ks) = length (drop (Suc i) ts)"
      using i len by auto
    have "ordered (lastb lo (take i ks)) (headb (drop i ks) hi) (ts ! i)"
      using ol split lens ord_list_pre [OF lens(1), of lo "drop i ks" "ts ! i # drop (Suc i) ts" hi]
        ord_list_post [of "[ts ! i]" "[]" "drop i ks" "drop (Suc i) ts" "lastb lo (take i ks)" hi]
      by simp
    moreover have "in_range (lastb lo (take i ks)) (headb (drop i ks) hi) key"
      unfolding i_def using Suc.prems(3) by (rule child_slot_bounds)
    moreover have mem: "ts ! i \<in> set ts" using i by simp
    moreover have "0 \<notin> set (tree_pages (ts ! i))" using Suc.prems(6) BNode mem by auto
    moreover have "e < fuel" using Suc.prems(5) d by simp
    moreover have "stored (st_pages st) (ts ! i)" "bal e (ts ! i)" using sts balt mem by auto
    ultimately have ih: "\<exists>fs p cs. ts ! i = plug fs (BLeaf p cs) \<and> length fs = e \<and>
      (case bnd (lastb lo (take i ks)) (headb (drop i ks) hi) fs of (l, h) \<Rightarrow> in_range l h key) \<and> frames_len fs \<and>
      (\<forall>stack. descend store_ops fuel stack (tpage (ts ! i)) key st =
         (Inr (p, bisect_left (map fst cs) key, stack_of fs @ stack), st))"
      by (intro Suc.IH)
    obtain fs q cs where IH: "ts ! i = plug fs (BLeaf q cs)" "length fs = e"
      "case bnd (lastb lo (take i ks)) (headb (drop i ks) hi) fs of (l, h) \<Rightarrow> in_range l h key" "frames_len fs"
      "\<forall>stack. descend store_ops fuel stack (tpage (ts ! i)) key st =
         (Inr (q, bisect_left (map fst cs) key, stack_of fs @ stack), st)"
      using ih by (elim exE conjE) (rule that)
    have "descend store_ops (Suc fuel) stack (tpage t) key st =
         (Inr (q, bisect_left (map fst cs) key, stack_of (fs @ [?f]) @ stack), st)" for stack
      using Suc.prems(6) BNode i len IH(5)[THEN spec, of "(p, i) # stack"] interior_page_read(1,2) [OF page]
      by (simp add: bindS_def store_run page_types_differ bis nth_child_def min_def)
    moreover have "t = plug (fs @ [?f]) (BLeaf q cs)"
      using IH(1) BNode split by (simp add: plug_append)
    moreover have "case bnd lo hi (fs @ [?f]) of (l, h) \<Rightarrow> in_range l h key"
      using IH(3) by (simp add: bnd_append)
    ultimately show ?thesis
      using IH(2,4) d lens by (intro exI [of _ "fs @ [?f]"] exI [of _ q] exI [of _ cs]) auto
  qed
qed simp

text \<open>The cells beside the path to a key lie on either side of it.\<close>

lemma ord_pre_cells:
  "ord_pre lo kl ls \<Longrightarrow> c \<in> set (concat (map cells ls)) \<Longrightarrow> \<exists>x. lastb lo kl = Some x \<and> fst c < x"
proof (induction kl arbitrary: lo ls)
  case (Cons k kl)
  then obtain t us where h: "ls = t # us" "ordered lo (Some k) t" "ord_pre (Some k) kl us" by auto
  show ?case
  proof (cases "c \<in> set (cells t)")
    case True
    then have "fst c < k" using ordered_cells [OF h(2)] by (auto simp: in_range_def)
    moreover have "\<exists>x. lastb (Some k) kl = Some x \<and> k \<le> x" using h(3)
    proof (induction kl arbitrary: k us)
      case (Cons k' kl)
      then show ?case by (fastforce simp: lt_bound_def)
    qed simp
    ultimately show ?thesis by fastforce
  next
    case False
    then show ?thesis using Cons h by simp
  qed
qed simp

lemma ord_post_cells:
  "ord_post kr rs hi \<Longrightarrow> c \<in> set (concat (map cells rs)) \<Longrightarrow> \<exists>x. headb kr hi = Some x \<and> x \<le> fst c"
proof (induction kr arbitrary: rs)
  case (Cons k kr)
  then obtain t us where h: "rs = t # us" "lt_bound (Some k) (headb kr hi)" "ordered (Some k) (headb kr hi) t"
    "ord_post kr us hi" by auto
  show ?case
  proof (cases "c \<in> set (cells t)")
    case True
    then show ?thesis using ordered_cells [OF h(3)] by (auto simp: in_range_def)
  next
    case False
    then obtain x where "headb kr hi = Some x" "x \<le> fst c" using Cons h by auto
    then show ?thesis using h(2) by (simp add: lt_bound_def)
  qed
qed simp

lemma lastb_ge: "ord_pre lo kl ls \<Longrightarrow> lo = Some x \<Longrightarrow> \<exists>y. lastb lo kl = Some y \<and> x \<le> y"
proof (induction kl arbitrary: lo ls x)
  case (Cons k kl)
  then show ?case by (fastforce simp: lt_bound_def)
qed simp

lemma headb_le: "ord_post kr rs hi \<Longrightarrow> hi = Some x \<Longrightarrow> \<exists>y. headb kr hi = Some y \<and> y \<le> x"
proof (induction kr arbitrary: rs)
  case (Cons k kr)
  then show ?case by (fastforce simp: lt_bound_def)
qed simp

lemma ctx_bounds:
  "frames_ord lo hi fs \<Longrightarrow> bnd lo hi fs = (l, h) \<Longrightarrow>
     (\<forall>c \<in> set (ctx_left cells fs). \<exists>x. l = Some x \<and> fst c < x) \<and>
     (\<forall>c \<in> set (ctx_right cells fs). \<exists>x. h = Some x \<and> x \<le> fst c)"
proof (induction fs arbitrary: l h rule: node_pages.induct)
  case (2 p kl ls kr rs fs)
  obtain l' h' where b: "bnd lo hi fs = (l', h')" by fastforce
  then have f: "ord_pre l' kl ls" "ord_post kr rs h'" "frames_ord lo hi fs" "l = lastb l' kl" "h = headb kr h'"
    using "2.prems" by auto
  note IH = "2.IH" [OF f(3) b]
  have left: "\<exists>x. l = Some x \<and> fst c < x" if "c \<in> set (ctx_left cells ((p, kl, ls, kr, rs) # fs))" for c
    using that ord_pre_cells [OF f(1), of c] IH lastb_ge [OF f(1)] unfolding f(4) by fastforce
  have right: "\<exists>x. h = Some x \<and> x \<le> fst c" if "c \<in> set (ctx_right cells ((p, kl, ls, kr, rs) # fs))" for c
    using that ord_post_cells [OF f(2), of c] IH headb_le [OF f(2)] unfolding f(5) by fastforce
  show ?case by (intro conjI ballI) (erule left, erule right)
qed simp

lemma tree_at_facts:
  assumes "tree_at st L d t"
  shows "space st L" "stored (st_pages st) t" "ordered None None t" "bal d t" "distinct (tree_pages t)"
    "set (tree_pages t) \<subseteq> L" "linked (st_pages st) (leaves t) 0" "tpage t \<in> L" "0 \<notin> set (tree_pages t)"
proof -
  show h: "space st L" "stored (st_pages st) t" "ordered None None t" "bal d t" "distinct (tree_pages t)"
    "set (tree_pages t) \<subseteq> L" "linked (st_pages st) (leaves t) 0"
    using assms by (auto simp: tree_at_def)
  show "tpage t \<in> L" using h(6) tpage_in_pages by blast
  show "0 \<notin> set (tree_pages t)" using h(1,6) space_page(2) by blast
qed

lemma lookup_plug:
  assumes o: "ordered None None (plug fs (BLeaf p cs))" and len: "frames_len fs"
    and k: "case bnd None None fs of (l, h) \<Rightarrow> in_range l h key"
  shows "tree_map (plug fs (BLeaf p cs)) key = map_of (map cell_kv cs) key"
proof -
  obtain l h where b: "bnd None None fs = (l, h)" by fastforce
  have "frames_ord None None fs"
    using ordered_plug [of None None fs "BLeaf p cs"] o len by (simp add: frames_len_all)
  note ctx = ctx_bounds [OF this b]
  have l: "map_of (map cell_kv (ctx_left cells fs)) key = None"
    using ctx k b by (force simp: map_of_eq_None_iff in_range_def)
  have r: "map_of (map cell_kv (ctx_right cells fs)) key = None"
    using ctx k b by (force simp: map_of_eq_None_iff in_range_def)
  show ?thesis
    by (simp add: tree_map_def cells_plug map_of_append map_add_def l r split: option.splits)
qed

lemma move_to_run:
  assumes "tree_at st L d t" and "d < fuel"
  obtains fs p cs where "t = plug fs (BLeaf p cs)" "length fs = d" "frames_len fs"
    "case bnd None None fs of (l, h) \<Rightarrow> in_range l h key"
    "move_to store_ops fuel (tpage t) key st = (Inr (p, bisect_left (map fst cs) key, stack_of fs), st)"
proof -
  note t = tree_at_facts [OF assms(1)]
  have "in_range None None key" by (simp add: in_range_def)
  from descend_run [OF t(2,3) this t(4) assms(2) t(9)]
  obtain fs p cs where fs: "t = plug fs (BLeaf p cs)" "length fs = d"
    "case bnd None None fs of (l, h) \<Rightarrow> in_range l h key" "frames_len fs"
    "\<forall>stack. descend store_ops fuel stack (tpage t) key st =
       (Inr (p, bisect_left (map fst cs) key, stack_of fs @ stack), st)"
    by (elim exE conjE) (rule that)
  show thesis
    using fs(5)[THEN spec, of "[]"] by (intro that [OF fs(1,2,4,3)]) (simp add: move_to_def)
qed

lemma sorted_lookup:
  assumes "sorted_wrt (<) (map fst cs)"
  shows "i = bisect_left (map fst cs) key \<Longrightarrow>
    map_of (map cell_kv cs) key =
      (if i < length cs \<and> fst (cs ! i) = key then Some (snd (cell_kv (cs ! i))) else None)"
proof -
  assume "i = bisect_left (map fst cs) key"
  then have i: "i = length (takeWhile (\<lambda>k. k < key) (map fst cs))"
    using assms by (simp add: bisect_left_sorted strict_sorted)
  show ?thesis unfolding i using assms
  proof (induction cs)
    case (Cons c cs)
    obtain k v ps where c: "c = (k, v, ps)" by (cases c)
    have "key \<notin> fst ` set cs" if "key < k" using Cons.prems that by (auto simp: c)
    then have "key < k \<Longrightarrow> map_of (map cell_kv cs) key = None"
      by (force simp: map_of_eq_None_iff)
    then show ?case using Cons by (cases rule: linorder_cases [of key k]) (auto simp: c)
  qed simp
qed

text \<open>
  C13. Looking a key up descends to one leaf, without changing the database: the index it returns is
  the key's own cell there when the tree maps the key, and otherwise the position where the sorted
  cells of that leaf stay sorted when the key is inserted.
\<close>

theorem move_to_finds:
  assumes "tree_at st L d t" and "d < fuel"
  shows "\<exists>p i stack cs sib. move_to store_ops fuel (tpage t) key st = (Inr (p, i, stack), st) \<and>
    p \<in> set (leaves t) \<and> leaf_at (st_pages st) (st_pages st p) cs sib \<and> i \<le> length cs \<and>
    sorted_wrt (<) (map fst cs) \<and> (\<forall>j < i. fst (cs ! j) < key) \<and> (\<forall>j < length cs. i \<le> j \<longrightarrow> key \<le> fst (cs ! j)) \<and>
    tree_map t key = (if i < length cs \<and> fst (cs ! i) = key then Some (snd (cell_kv (cs ! i))) else None)"
proof -
  obtain fs p cs where t: "t = plug fs (BLeaf p cs)" "length fs = d" "frames_len fs"
    "case bnd None None fs of (l, h) \<Rightarrow> in_range l h key"
    "move_to store_ops fuel (tpage t) key st = (Inr (p, bisect_left (map fst cs) key, stack_of fs), st)"
    using move_to_run [OF assms] .
  note ta = tree_at_facts [OF assms(1)]
  obtain sib where leaf: "leaf_at (st_pages st) (st_pages st p) cs sib"
    using ta(2) t(1) by (auto simp: stored_plug)
  have o: "ordered None None (plug fs (BLeaf p cs))" using ta(3) t(1) by simp
  then have srt: "sorted_wrt (<) (map fst cs)"
    using ordered_cells [OF o] by (simp add: cells_plug sorted_wrt_append)
  define i where "i = bisect_left (map fst cs) key"
  have i: "i = length (takeWhile (\<lambda>k. k < key) (map fst cs))"
    using srt by (simp add: i_def bisect_left_sorted strict_sorted)
  have le: "i \<le> length cs" using length_takeWhile_le [of "\<lambda>k. k < key" "map fst cs"] by (simp add: i)
  have lower: "fst (cs ! j) < key" if "j < i" for j
    using nth_mem [of j "takeWhile (\<lambda>k. k < key) (map fst cs)"] takeWhile_nth [of j "\<lambda>k. k < key" "map fst cs"]
      set_takeWhileD that le by (fastforce simp: i)
  have upper: "key \<le> fst (cs ! j)" if "j < length cs" "i \<le> j" for j
  proof -
    have "\<not> fst (cs ! i) < key"
      using nth_length_takeWhile [of "\<lambda>k. k < key" "map fst cs"] that by (simp add: i)
    moreover have "fst (cs ! i) \<le> fst (cs ! j)"
      using sorted_nth_mono [OF strict_sorted [OF srt], of i j] that by simp
    ultimately show ?thesis by simp
  qed
  have "p \<in> set (leaves t)" by (simp add: t(1) leaves_plug)
  moreover have "tree_map t key = map_of (map cell_kv cs) key"
    unfolding t(1) by (rule lookup_plug [OF o t(3,4)])
  ultimately show ?thesis
    using t(5) leaf le srt lower upper sorted_lookup [OF srt i_def]
    unfolding i_def [symmetric]
    by (intro exI [of _ p] exI [of _ i] exI [of _ "stack_of fs"] exI [of _ cs] exI [of _ sib]) auto
qed

end
