(* ===== verification/TreeScan.thy ===== *)
theory TreeScan
  imports TreeSearch
begin

text \<open>
  The greatest key and the scan of a stored tree, and a one-leaf tree on which the properties of the
  tree operations are tried.
\<close>

fun leaf_list :: "btree \<Rightarrow> (nat \<times> cell list) list" where
  "leaf_list (BLeaf p cs) = [(p, cs)]"
| "leaf_list (BNode p ks ts) = concat (map leaf_list ts)"

definition last_leaf :: "btree \<Rightarrow> cell list" where
  "last_leaf t = snd (last (leaf_list t))"

lemma leaf_list_leaves: "map fst (leaf_list t) = leaves t"
  by (induction t) (auto simp: map_concat o_def cong: map_cong)

lemma leaf_list_cells: "concat (map snd (leaf_list t)) = cells t"
proof (induction t)
  case (BNode p ks ts)
  then have "map (\<lambda>t. concat (map snd (leaf_list t))) ts = map cells ts" by simp
  moreover have "concat (map snd (concat xss)) = concat (map (\<lambda>xs. concat (map snd xs)) xss)" for xss :: "(nat \<times> cell list) list list"
    by (induction xss) auto
  ultimately show ?case by (simp add: o_def cong: map_cong)
qed simp

lemma leaf_list_not_Nil: "ordered lo hi t \<Longrightarrow> leaf_list t \<noteq> []"
proof (induction t arbitrary: lo hi)
  case (BNode p ks ts)
  then have "ord_list lo ks ts hi" by simp
  then obtain u us where ts: "ts = u # us" by (cases ks) auto
  obtain lo' hi' where "ordered lo' hi' u" using BNode.prems ts by (cases ks) auto
  with BNode.IH [of u] show ?case by (simp add: ts)
qed simp

lemma leaf_list_stored:
  "stored pg t \<Longrightarrow> (p, cs) \<in> set (leaf_list t) \<Longrightarrow> \<exists>sib. leaf_at pg (pg p) cs sib"
  by (induction t) auto

lemma leaf_list_pages:
  "(p, cs) \<in> set (leaf_list t) \<Longrightarrow> p \<in> set (tree_pages t) \<and> set (all_pages cs) \<subseteq> set (tree_pages t)"
  by (induction t) auto

lemma ordered_child: "ord_list lo ks ts hi \<Longrightarrow> t \<in> set ts \<Longrightarrow> \<exists>l h. ordered l h t"
proof (induction ks arbitrary: lo ts)
  case (Cons k ks)
  then obtain u us where "ts = u # us" "ordered lo (Some k) u" "ord_list (Some k) ks us hi" by auto
  then show ?case using Cons by (cases "t = u") auto
next
  case Nil
  then have "ordered lo hi t" by auto
  then show ?case by blast
qed

lemma leaf_sorted: "sorted_wrt (<) (map fst (cells t)) \<Longrightarrow> (p, cs) \<in> set (leaf_list t) \<Longrightarrow> sorted_wrt (<) (map fst cs)"
proof -
  assume s: "sorted_wrt (<) (map fst (cells t))" and p: "(p, cs) \<in> set (leaf_list t)"
  obtain xs ys where "leaf_list t = xs @ (p, cs) # ys" using p by (meson split_list)
  then have "cells t = concat (map snd xs) @ cs @ concat (map snd ys)" by (simp add: leaf_list_cells [symmetric])
  with s show ?thesis by (simp add: sorted_wrt_append)
qed

section \<open>The greatest key\<close>

lemma leaf_last_key:
  assumes leaf: "leaf_at pg page cs sib" and ne: "cs \<noteq> []"
  shows "\<exists>ptr n. unpack_from 2 page (LEAF_PTR_ARRAY_START + (length cs - 1) * 2) = Inr ptr \<and>
    decode_varint page ptr = Inr (nat (fst (last cs)), n) \<and> 0 \<le> fst (last cs)"
proof -
  let ?i = "length cs - 1"
  have i: "?i < length cs" using ne by (cases cs) auto
  obtain k v ps where c: "cs ! ?i = (k, v, ps)" by (cases "cs ! ?i")
  have at: "cell_at page LEAF_PTR_ARRAY_START ?i (cell_raw (k, v, ps))" "cell_ok pg (k, v, ps)"
    using leaf_at_parts(4,5) [OF leaf i] unfolding c .
  obtain ptr where h: "cell_head page ?i =
       Inr (ptr, nat k, length (encode_varint k), length v, length (encode_varint (int (length v))))"
    using cell_head_ok [OF at] by blast
  have "last cs = (k, v, ps)" using ne c by (simp add: last_conv_nth)
  moreover have "0 \<le> k" using at(2) by (simp add: key_ok_def)
  moreover have "unpack_from 2 page (LEAF_PTR_ARRAY_START + ?i * 2) = Inr ptr"
    "decode_varint page ptr = Inr (nat k, length (encode_varint k))"
    using h by (auto simp: cell_head_def bindR_def split: sum.splits prod.splits)
  ultimately show ?thesis by auto
qed

lemma max_key_run:
  assumes "stored (st_pages st) t" and "ordered lo hi t" and "bal d t" and "d < fuel"
    and "0 \<notin> set (tree_pages t)"
  shows "max_key store_ops fuel (tpage t) st =
    (Inr (if last_leaf t = [] then None else Some (fst (last (last_leaf t)))), st)"
  using assms
proof (induction fuel arbitrary: t d lo hi)
  case (Suc fuel)
  show ?case
  proof (cases t)
    case (BLeaf p cs)
    then obtain sib where leaf: "leaf_at (st_pages st) (st_pages st p) cs sib" using Suc.prems(1) by auto
    have p: "p \<noteq> 0" using Suc.prems(5) BLeaf by simp
    obtain ccs fb fr where hdr: "read_leaf_header (st_pages st p) = Inr (length cs, ccs, fb, fr)"
      using leaf_at_parts(3) [OF leaf] by blast
    show ?thesis
    proof (cases "cs = []")
      case True
      then show ?thesis
        using BLeaf p hdr leaf_at_parts(2) [OF leaf] by (simp add: bindS_def store_run last_leaf_def)
    next
      case False
      then show ?thesis
        using BLeaf p hdr leaf_at_parts(2) [OF leaf] leaf_last_key [OF leaf False]
        by (auto simp add: bindS_def store_run last_leaf_def)
    qed
  next
    case (BNode p ks ts)
    then obtain e where d: "d = Suc e" and balt: "\<forall>u \<in> set ts. bal e u"
      using Suc.prems(3) by (auto split: nat.splits)
    have page: "interior_page (st_pages st p) ks (map tpage ts)" and sts: "\<forall>u \<in> set ts. stored (st_pages st) u"
      and ol: "ord_list lo ks ts hi" and p: "p \<noteq> 0"
      using Suc.prems(1,2,5) BNode by auto
    have ne: "ts \<noteq> []" using ord_list_length [OF ol] by auto
    have mem: "last ts \<in> set ts" using ne by simp
    obtain l h where o: "ordered l h (last ts)" using ordered_child [OF ol mem] by blast
    have z: "0 \<notin> set (tree_pages (last ts))" using Suc.prems(5) BNode mem by auto
    have IH: "max_key store_ops fuel (tpage (last ts)) st =
        (Inr (if last_leaf (last ts) = [] then None else Some (fst (last (last_leaf (last ts))))), st)"
      using mem sts balt Suc.prems(4) d by (intro Suc.IH [OF _ o _ _ z, of e]) auto
    have "last_leaf t = last_leaf (last ts)"
      using BNode ne leaf_list_not_Nil [OF o]
      by (cases ts rule: rev_cases) (auto simp: last_leaf_def)
    moreover obtain ccs where "read_interior_header (st_pages st p) = Inr (length ks, ccs, tpage (last ts))"
      using interior_page_read(3) [OF page] ne by (auto simp: last_map)
    ultimately show ?thesis
      using BNode p IH interior_page_read(2) [OF page] by (simp add: bindS_def store_run page_types_differ)
  qed
qed simp

section \<open>The scan\<close>

definition leaf_run :: "store \<Rightarrow> nat set \<Rightarrow> (nat \<times> cell list) list \<Rightarrow> bool" where
  "leaf_run st L rem \<longleftrightarrow>
     (\<forall>(p, cs) \<in> set rem. p \<in> L \<and> set (all_pages cs) \<subseteq> L \<and> (\<exists>sib. leaf_at (st_pages st) (st_pages st p) cs sib))"

fun scan_rest :: "(nat \<times> cell list) list \<Rightarrow> (int \<times> bytes) list" where
  "scan_rest [] = []"
| "scan_rest ((p, cs) # rem) = map cell_kv cs @ scan_rest rem"

definition scan_at :: "store \<Rightarrow> nat set \<Rightarrow> cursor \<Rightarrow> (nat \<times> cell list) list \<Rightarrow> bool" where
  \<comment> \<open>the cursor stands on a stored leaf of the chain and \<open>rem\<close> are the leaves after it\<close>
  "scan_at st L cur rem \<longleftrightarrow>
     (\<exists>p. scan_page_no cur = Some p \<and> p \<in> L \<and> length (st_pages st p) = PAGE_SIZE \<and>
        linked (st_pages st) (p # map fst rem) 0)"

lemma next_leaf_run:
  "space st L \<Longrightarrow> p \<in> L \<Longrightarrow> length (st_pages st p) = PAGE_SIZE \<Longrightarrow>
   get_next_leaf store_ops p st = (Inr (sibling_of (st_pages st p)), st)"
  using space_page(2) [of st L p]
  by (simp add: get_next_leaf_def bindS_def store_run sibling_of_def unpack_from_def LEAF_SIBLING_OFFSET_def
      LEAF_HEADER_SIZE_def PAGE_SIZE_def)

definition advances ::
  "store \<Rightarrow> nat set \<Rightarrow> (nat \<times> cell list) list \<Rightarrow> cursor \<Rightarrow> (int \<times> bytes) list \<Rightarrow>
     ((int \<times> bytes) option \<times> cursor) res \<times> store \<Rightarrow> bool"
where
  \<comment> \<open>a step of the scan with \<open>items\<close> to come, in the current leaf and in \<open>rem\<close>\<close>
  "advances st L rem cur items r \<longleftrightarrow>
     (case items of
        [] \<Rightarrow> \<exists>cur'. r = (Inr (None, cur'), st) \<and> scan_page_no cur' = None \<and> cur_root cur' = cur_root cur
      | x # xs \<Rightarrow> \<exists>cur' rem'. r = (Inr (Some x, cur'), st) \<and> cur_root cur' = cur_root cur \<and>
          scan_at st L cur' rem' \<and> leaf_run st L rem' \<and> length rem' \<le> length rem \<and>
          xs = drop (scan_cell_idx cur') (scan_cells cur') @ scan_rest rem')"

lemma advances_mono:
  "advances st L rem cur items r \<Longrightarrow> length rem \<le> length rem' \<Longrightarrow> advances st L rem' cur items r"
  unfolding advances_def by (fastforce split: list.splits)

lemma scan_advance_run:
  assumes "space st L" and "leaf_run st L rem" and "length rem < fuel" and "p \<in> L"
    and "length (st_pages st p) = PAGE_SIZE" and "linked (st_pages st) (p # map fst rem) 0"
  shows "advances st L rem cur (drop idx kvs @ scan_rest rem) (scan_advance store_ops fuel p idx kvs cur st)"
  using assms(2-)
proof (induction fuel arbitrary: p idx kvs rem)
  case (Suc fuel)
  note nl = next_leaf_run [OF assms(1) Suc.prems(3,4)]
  show ?case
  proof (cases "idx < length kvs")
    case True
    then have "drop idx kvs = kvs ! idx # drop (idx + 1) kvs" by (simp add: Cons_nth_drop_Suc)
    then show ?thesis
      using True Suc.prems
      by (auto simp add: scan_at_def advances_def intro!: exI [of _ rem])
  next
    case False
    show ?thesis
    proof (cases rem)
      case Nil
      then show ?thesis using False Suc.prems(5) nl by (simp add: bindS_def advances_def)
    next
      case (Cons e rem')
      obtain q cs where e: "e = (q, cs)" by (cases e)
      then obtain sib where q: "q \<in> L" "set (all_pages cs) \<subseteq> L" "leaf_at (st_pages st) (st_pages st q) cs sib"
        using Suc.prems(1) Cons by (auto simp: leaf_run_def)
      have "q \<noteq> 0" using space_page(2) [OF assms(1) q(1)] .
      have step: "scan_advance store_ops (Suc fuel) p idx kvs cur st =
          scan_advance store_ops fuel q 0 (map cell_kv cs) cur st"
        using False Suc.prems(5) nl \<open>q \<noteq> 0\<close> read_all_leaf_cells_ok(2) [OF q(3) assms(1) q(2)]
        by (simp add: bindS_def store_run Cons e)
      have "advances st L rem' cur (drop 0 (map cell_kv cs) @ scan_rest rem')
          (scan_advance store_ops fuel q 0 (map cell_kv cs) cur st)"
        using Suc.prems Cons e q leaf_at_parts(1) [OF q(3)] by (intro Suc.IH) (auto simp: leaf_run_def)
      moreover have "drop idx kvs @ scan_rest rem = drop 0 (map cell_kv cs) @ scan_rest rem'"
        using False by (simp add: Cons e)
      ultimately show ?thesis
        unfolding step using advances_mono [of st L rem'] Cons by auto
    qed
  qed
qed simp

lemma leftmost_run:
  assumes "stored (st_pages st) t" and "ordered lo hi t" and "bal d t" and "d < fuel"
    and "0 \<notin> set (tree_pages t)"
  shows "leftmost_leaf store_ops fuel (tpage t) st = (Inr (fst (hd (leaf_list t))), st)"
  using assms
proof (induction fuel arbitrary: t d lo hi)
  case (Suc fuel)
  show ?case
  proof (cases t)
    case (BLeaf p cs)
    then obtain sib where leaf: "leaf_at (st_pages st) (st_pages st p) cs sib" using Suc.prems(1) by auto
    then show ?thesis
      using Suc.prems(5) BLeaf leaf_at_parts(2) [OF leaf] by (simp add: bindS_def store_run)
  next
    case (BNode p ks ts)
    then obtain e where d: "d = Suc e" and balt: "\<forall>u \<in> set ts. bal e u"
      using Suc.prems(3) by (auto split: nat.splits)
    have page: "interior_page (st_pages st p) ks (map tpage ts)" and sts: "\<forall>u \<in> set ts. stored (st_pages st) u"
      and ol: "ord_list lo ks ts hi" and p: "p \<noteq> 0"
      using Suc.prems(1,2,5) BNode by auto
    obtain u us where ts: "ts = u # us" using ord_list_length [OF ol] by (cases ts) auto
    obtain l h where o: "ordered l h u" using ordered_child [OF ol, of u] ts by auto
    have z: "0 \<notin> set (tree_pages u)" using Suc.prems(5) BNode ts by auto
    have "leftmost_leaf store_ops fuel (tpage u) st = (Inr (fst (hd (leaf_list u))), st)"
      using sts balt Suc.prems(4) d ts by (intro Suc.IH [OF _ o _ _ z, of e]) auto
    then show ?thesis
      using BNode p ts interior_page_read(1,2) [OF page] leaf_list_not_Nil [OF o]
      by (simp add: bindS_def store_run page_types_differ nth_child_def hd_append)
  qed
qed simp

lemma scan_all_run:
  assumes "space st L" and "scan_at st L cur rem" and "leaf_run st L rem" and "length rem < fuel"
    and "items = drop (scan_cell_idx cur) (scan_cells cur) @ scan_rest rem" and "length items < steps"
  shows "\<exists>cur'. scan_all store_ops fuel steps cur st = (Inr (items, cur'), st) \<and> cur_root cur' = cur_root cur"
  using assms(2-)
proof (induction steps arbitrary: cur rem items)
  case (Suc steps)
  obtain p where p: "scan_page_no cur = Some p" "p \<in> L" "length (st_pages st p) = PAGE_SIZE"
    "linked (st_pages st) (p # map fst rem) 0" using Suc.prems(1) by (auto simp: scan_at_def)
  have nx: "cursor_next store_ops fuel cur = scan_advance store_ops fuel p (scan_cell_idx cur) (scan_cells cur) cur"
    by (simp add: cursor_next_def p(1))
  have adv: "advances st L rem cur items (cursor_next store_ops fuel cur st)"
    unfolding Suc.prems(4) nx by (rule scan_advance_run [OF assms(1) Suc.prems(2,3) p(2-4)])
  show ?case
  proof (cases items)
    case Nil
    then show ?thesis using adv by (auto simp: bindS_def advances_def)
  next
    case (Cons x xs)
    then obtain cur' rem' where a: "cursor_next store_ops fuel cur st = (Inr (Some x, cur'), st)"
      "scan_at st L cur' rem'" "leaf_run st L rem'" "length rem' \<le> length rem"
      "xs = drop (scan_cell_idx cur') (scan_cells cur') @ scan_rest rem'" "cur_root cur' = cur_root cur"
      using adv by (auto simp: advances_def)
    have "length rem' < fuel" "length xs < steps" using a(4) Suc.prems(3,5) Cons by auto
    from Suc.IH [OF a(2,3) this(1) a(5) this(2)] show ?thesis
      using a(1,6) Cons by (auto simp: bindS_def)
  qed
qed simp

lemma scan_rest_cells: "scan_rest rem = map cell_kv (concat (map snd rem))"
  by (induction rem rule: scan_rest.induct) auto

lemma tree_leaf_run:
  assumes "tree_at st L d t"
  shows "leaf_run st L (leaf_list t)"
  using tree_at_facts(2,6) [OF assms] leaf_list_stored leaf_list_pages
  unfolding leaf_run_def by fast

lemma first_next_run:
  assumes t: "tree_at st L d t" and "d < fuel" and "length (leaves t) \<le> fuel" and c: "cur_root cur = tpage t" "scan_page_no cur = None"
  shows "advances st L (tl (leaf_list t)) cur (map cell_kv (cells t)) (cursor_next store_ops fuel cur st)"
proof -
  note ta = tree_at_facts [OF t]
  obtain p cs rem where ll: "leaf_list t = (p, cs) # rem"
    using leaf_list_not_Nil [OF ta(3)] by (cases "leaf_list t") auto
  have lr: "leaf_run st L ((p, cs) # rem)" using tree_leaf_run [OF t] ll by simp
  then obtain sib where p: "p \<in> L" "set (all_pages cs) \<subseteq> L" "leaf_at (st_pages st) (st_pages st p) cs sib"
    by (auto simp: leaf_run_def)
  have lm: "leftmost_leaf store_ops fuel (tpage t) st = (Inr p, st)"
    using leftmost_run [OF ta(2,3,4) assms(2) ta(9)] ll by simp
  have "p \<noteq> 0" using space_page(2) [OF ta(1) p(1)] .
  have eq: "cursor_next store_ops fuel cur st = scan_advance store_ops fuel p 0 (map cell_kv cs) cur st"
    using c lm \<open>p \<noteq> 0\<close> read_all_leaf_cells_ok(2) [OF p(3) ta(1) p(2)]
    by (simp add: cursor_next_def bindS_def store_run)
  have "linked (st_pages st) (p # map fst rem) 0" using ta(7) ll by (simp add: leaf_list_leaves [symmetric])
  moreover have "length rem < fuel" using assms(3) ll by (simp add: leaf_list_leaves [symmetric])
  ultimately have "advances st L rem cur (drop 0 (map cell_kv cs) @ scan_rest rem)
      (scan_advance store_ops fuel p 0 (map cell_kv cs) cur st)"
    using lr p leaf_at_parts(1) [OF p(3)] by (intro scan_advance_run [OF ta(1)]) (auto simp: leaf_run_def)
  then show ?thesis unfolding eq by (simp add: ll leaf_list_cells [symmetric] scan_rest_cells)
qed

lemma reset_scan_eq: "cur_root cur' = cur_root cur \<Longrightarrow> reset_scan cur' = reset_scan cur"
  by (simp add: reset_scan_def)

lemma full_scan_run:
  assumes t: "tree_at st L d t" and fuel: "d < fuel" "length (leaves t) \<le> fuel" and steps: "length (cells t) < steps"
    and cur: "cur_root cur = tpage t"
  shows "full_scan store_ops fuel steps cur st = (Inr (map cell_kv (cells t), reset_scan cur), st) \<and>
    sorted_wrt (<) (map fst (map cell_kv (cells t))) \<and> map_of (map cell_kv (cells t)) = tree_map t"
proof -
  note ta = tree_at_facts [OF t]
  let ?c = "reset_scan cur"
  have c: "cur_root ?c = tpage t" "scan_page_no ?c = None" using cur by (simp_all add: reset_scan_def)
  note first = first_next_run [OF t fuel c]
  obtain n where steps': "steps = Suc n" using steps by (cases steps) auto
  have "\<exists>cur'. scan_all store_ops fuel steps ?c st = (Inr (map cell_kv (cells t), cur'), st) \<and> cur_root cur' = tpage t"
  proof (cases "map cell_kv (cells t)")
    case Nil
    then show ?thesis using first c by (auto simp: steps' bindS_def advances_def)
  next
    case (Cons x xs)
    then obtain cur' rem' where a: "cursor_next store_ops fuel ?c st = (Inr (Some x, cur'), st)"
      "scan_at st L cur' rem'" "leaf_run st L rem'" "length rem' \<le> length (tl (leaf_list t))"
      "xs = drop (scan_cell_idx cur') (scan_cells cur') @ scan_rest rem'" "cur_root cur' = tpage t"
      using first c by (auto simp: advances_def)
    have "length (leaf_list t) = length (leaves t)" using arg_cong [OF leaf_list_leaves, of length t] by simp
    moreover have "leaf_list t \<noteq> []" by (rule leaf_list_not_Nil [OF ta(3)])
    ultimately have "length rem' < fuel" using a(4) fuel(2) by (cases "leaf_list t") auto
    moreover have "length xs < n" using steps arg_cong [OF Cons, of length] by (simp add: steps')
    ultimately obtain cur'' where "scan_all store_ops fuel n cur' st = (Inr (xs, cur''), st)" "cur_root cur'' = tpage t"
      using scan_all_run [OF ta(1) a(2,3) _ a(5)] a(6) by auto
    then show ?thesis using a(1) Cons by (auto simp: steps' bindS_def)
  qed
  then obtain cur' where "scan_all store_ops fuel steps ?c st = (Inr (map cell_kv (cells t), cur'), st)"
    "cur_root cur' = tpage t" by blast
  moreover have "reset_scan cur' = reset_scan cur" using reset_scan_eq [of cur' cur] cur \<open>cur_root cur' = tpage t\<close> by simp
  moreover have "map fst (map cell_kv (cells t)) = map fst (cells t)" by simp
  ultimately show ?thesis
    using ordered_cells [OF ta(3)] by (simp add: full_scan_def bindS_def tree_map_def o_def)
qed

text \<open>
  C9. A full scan of a tree yields every cell once, with its whole payload (the overflow chains read
  back), in strictly ascending key order; it changes nothing in the database and leaves the
  cursor ready for the next scan. It ends: fuel for the height and the number of leaves is enough.
\<close>

theorem full_scan_in_order:
  assumes "tree_at st L d t" and "d < fuel" "length (leaves t) \<le> fuel" and "length (cells t) < steps"
    and "cur_root cur = tpage t"
  shows "full_scan store_ops fuel steps cur st = (Inr (map cell_kv (cells t), reset_scan cur), st) \<and>
    sorted_wrt (<) (map fst (map cell_kv (cells t))) \<and> map_of (map cell_kv (cells t)) = tree_map t"
  using assms by (rule full_scan_run)

lemma max_key_spec:
  assumes t: "tree_at st L d t" and fuel: "d < fuel" and full: "last_leaf t = [] \<longrightarrow> cells t = []"
  shows "max_key store_ops fuel (tpage t) st =
    (Inr (if dom (tree_map t) = {} then None else Some (Max (dom (tree_map t)))), st)"
proof -
  note ta = tree_at_facts [OF t]
  have dom: "dom (tree_map t) = fst ` set (cells t)"
    by (simp add: tree_map_def dom_map_of_conv_image_fst image_image)
  have run: "max_key store_ops fuel (tpage t) st =
      (Inr (if last_leaf t = [] then None else Some (fst (last (last_leaf t)))), st)"
    using max_key_run [OF ta(2,3,4) fuel ta(9)] by simp
  have app: "cells t = concat (map snd (butlast (leaf_list t))) @ last_leaf t"
    using append_butlast_last_id [OF leaf_list_not_Nil [OF ta(3)]]
    unfolding last_leaf_def leaf_list_cells [symmetric]
    by (metis (no_types, lifting) concat.simps(1) concat_append concat.simps(2) list.simps(8,9) map_append append_Nil2)
  show ?thesis
  proof (cases "last_leaf t = []")
    case True
    then show ?thesis using run full dom by simp
  next
    case False
    then have c: "cells t \<noteq> []" "last (cells t) = last (last_leaf t)" using app by (auto simp: last_append)
    have srt: "sorted_wrt (<) (map fst (cells t))" using ordered_cells [OF ta(3)] by simp
    have "Max (fst ` set (cells t)) = fst (last (cells t))"
    proof (rule Max_eqI)
      fix y assume "y \<in> fst ` set (cells t)"
      then obtain j where j: "j < length (cells t)" "y = fst (cells t ! j)" by (auto simp: in_set_conv_nth)
      have "fst (cells t ! j) \<le> fst (cells t ! (length (cells t) - 1))"
        using sorted_nth_mono [OF strict_sorted [OF srt], of j "length (cells t) - 1"] j(1) by simp
      then show "y \<le> fst (last (cells t))" using c(1) j(2) by (simp add: last_conv_nth)
    next
      have "last (cells t) \<in> set (cells t)" using c(1) by simp
      then show "fst (last (cells t)) \<in> fst ` set (cells t)" by simp
    qed simp
    then show ?thesis using run False c dom by auto
  qed
qed

text \<open>
  \<open>max_key\<close> is the greatest key of a tree whose last leaf is not empty, and \<open>None\<close> on the empty
  one-leaf tree.
\<close>

theorem max_key_greatest:
  assumes "tree_at st L d t" and "d < fuel" and "last_leaf t = [] \<longrightarrow> cells t = []"
  shows "max_key store_ops fuel (tpage t) st =
    (Inr (if dom (tree_map t) = {} then None else Some (Max (dom (tree_map t)))), st)"
  using assms by (rule max_key_spec)

section \<open>A one-leaf tree\<close>

definition one_leaf_store :: "cell list \<Rightarrow> store" where
  \<comment> \<open>a database of two pages whose root leaf holds these inline cells\<close>
  "one_leaf_store cs =
     (case leaf_with_sibling (map cell_raw cs) 0 of Inr page \<Rightarrow> set_page 2 page (fresh_store 2) | Inl e \<Rightarrow> fresh_store 2)"

lemma one_leaf_tree:
  assumes "sorted_wrt (<) (map fst cs)" and "\<forall>(k, v, ps) \<in> set cs. key_ok k \<and> \<not> spills v \<and> ps = []" and "leaf_fits cs"
  shows "tree_at (one_leaf_store cs) {2} 0 (BLeaf 2 cs)" and "room 1000 (one_leaf_store cs)"
proof -
  obtain page where page: "leaf_with_sibling (map cell_raw cs) 0 = Inr page" "leaf_page page (map cell_raw cs) 0"
    using leaf_with_sibling_ok [OF assms(3), of 0] by auto
  then have st: "one_leaf_store cs = set_page 2 page (fresh_store 2)" by (simp add: one_leaf_store_def)
  have ok: "\<forall>c \<in> set cs. cell_ok pg c" for pg using assms(2) short_bound by fastforce
  have none: "all_pages cs = []" using assms(2) by (fastforce simp: all_pages_def)
  have "{p::nat. 1 < p \<and> p \<le> 2} = {2}" by auto
  then have "space (fresh_store 2) {2}" using space_fresh [of 2] by simp
  then have sp: "space (set_page 2 page (fresh_store 2)) {2}" using write_space(1) by blast
  have leaf: "leaf_at (st_pages (one_leaf_store cs)) page cs 0"
    using page ok assms(3) by (simp add: leaf_at_def)
  then show "tree_at (one_leaf_store cs) {2} 0 (BLeaf 2 cs)"
    using sp assms(1) none page(2) by (auto simp: tree_at_def st in_range_def sibling_of_def leaf_page_def)
  show "room 1000 (one_leaf_store cs)" by (simp add: st room_def fresh_store_hdr)
qed

definition demo_cells :: "cell list" where
  "demo_cells = [(3, [1, 2], []), (5, [7], [])]"

definition demo_store :: store where "demo_store = one_leaf_store demo_cells"

lemma on_page_cell_size_small:
  "0 \<le> k \<Longrightarrow> k < 128 \<Longrightarrow> n < 128 \<Longrightarrow> on_page_cell_size k n = 2 + n"
  by (simp add: on_page_cell_size_def encode_varint_small OVERFLOW_THRESHOLD_def PAGE_SIZE_def)

lemma demo_tree: "tree_at demo_store {2} 0 (BLeaf 2 demo_cells)" and demo_room: "room 1000 demo_store"
proof -
  have "leaf_fits demo_cells"
    by (simp add: leaf_fits_def demo_cells_def merged_leaf_footprint_Cons on_page_cell_size_small PAGE_SIZE_def
        LEAF_PTR_ARRAY_START_val merged_leaf_footprint_def)
  then show "tree_at demo_store {2} 0 (BLeaf 2 demo_cells)" "room 1000 demo_store"
    unfolding demo_store_def
    by (intro one_leaf_tree; simp add: demo_cells_def key_ok_def spills_def OVERFLOW_THRESHOLD_def PAGE_SIZE_def)+
qed

theorem move_to_finds_witness:
  "\<exists>p i stack cs sib. move_to store_ops 1 2 5 demo_store = (Inr (p, i, stack), demo_store) \<and>
    p \<in> set (leaves (BLeaf 2 demo_cells)) \<and> leaf_at (st_pages demo_store) (st_pages demo_store p) cs sib \<and> i \<le> length cs \<and>
    sorted_wrt (<) (map fst cs) \<and> (\<forall>j < i. fst (cs ! j) < 5) \<and> (\<forall>j < length cs. i \<le> j \<longrightarrow> 5 \<le> fst (cs ! j)) \<and>
    tree_map (BLeaf 2 demo_cells) 5 = (if i < length cs \<and> fst (cs ! i) = 5 then Some (snd (cell_kv (cs ! i))) else None)"
  using move_to_finds [OF demo_tree, of 1 5] by simp

theorem full_scan_in_order_witness:
  "full_scan store_ops 1 3 \<lparr>cur_root = 2, scan_page_no = Some 9, scan_cell_idx = 4, scan_cells = []\<rparr> demo_store =
     (Inr ([(3, [1, 2]), (5, [7])], \<lparr>cur_root = 2, scan_page_no = None, scan_cell_idx = 0, scan_cells = []\<rparr>), demo_store)"
  using full_scan_in_order [OF demo_tree, of 1 3 "\<lparr>cur_root = 2, scan_page_no = Some 9, scan_cell_idx = 4, scan_cells = []\<rparr>"]
  by (simp add: demo_cells_def reset_scan_def)

theorem max_key_greatest_witness: "max_key store_ops 1 2 demo_store = (Inr (Some 5), demo_store)"
proof -
  have "dom (tree_map (BLeaf 2 demo_cells)) = {3, 5}" by (auto simp: tree_map_def demo_cells_def split: if_splits)
  moreover have "last_leaf (BLeaf 2 demo_cells) = [] \<longrightarrow> cells (BLeaf 2 demo_cells) = []"
    by (simp add: last_leaf_def demo_cells_def)
  ultimately show ?thesis using max_key_greatest [OF demo_tree, of 1] by simp
qed

end
