(* ===== verification/SqlScan.thy ===== *)
theory SqlScan
  imports SqlSort SqlCatalog TreeScan
begin

text \<open>
  The table scans of \<open>sql/executor.py\<close>: \<open>seq_scan\<close> decodes every column, \<open>seq_scan_projected\<close>
  walks the leaves itself and decodes the columns it is asked for, \<open>count_leaf_cells\<close> only
  reads the headers of the leaves. A scan reads its pages first and yields the decoded rows afterwards, as
  \<open>seq_scan\<close> does; \<open>seq_scan_projected\<close> interleaves the two, which shows in the page cache, and in
  the rows it yields before a page that cannot be read.
\<close>

section \<open>Decoding rows\<close>

definition pad :: "nat \<Rightarrow> pyval list \<Rightarrow> pyval list" where
  \<comment> \<open>\<open>while len(values) < n: values.append(SqlNull)\<close>\<close>
  "pad n vs = vs @ replicate (n - length vs) PNull"

definition plain_row :: "pystr list \<Rightarrow> bytes \<Rightarrow> row res" where
  \<comment> \<open>\<open>dict(zip(col_names, values))\<close>\<close>
  "plain_row names payload =
     bindR (decode_record payload 0) (\<lambda>(values, n). Inr (dict_of (zip names (pad (length names) values))))"

definition decode_row :: "pystr list \<Rightarrow> int \<times> bytes \<Rightarrow> row res" where
  "decode_row names = (\<lambda>(btree_key, payload).
     bindR (plain_row names payload) (\<lambda>row. Inr (dict_put ROWKEY (PInt btree_key) row)))"

definition decode_projected_row :: "pystr list \<Rightarrow> nat set \<Rightarrow> int \<times> bool \<times> bytes \<Rightarrow> row res" where
  \<comment> \<open>the flag tells a slice of the page (a view) from a payload read back from an overflow chain; the set of
     indices is walked in ascending order\<close>
  "decode_projected_row names decode_indices = (\<lambda>(key, is_mv, payload).
     bindR (decode_record_projected is_mv payload 0 decode_indices) (\<lambda>(by_index, n).
     Inr (dict_put ROWKEY (PInt key)
       (dict_of (map (\<lambda>i. (names ! i, case map_of by_index i of Some v \<Rightarrow> v | None \<Rightarrow> PNull))
          (filter (\<lambda>i. i \<in> decode_indices) [0..<length names]))))))"

section \<open>Scans\<close>

definition new_cursor :: "nat \<Rightarrow> cursor" where
  \<comment> \<open>\<open>BtreeCursor(pager, root_page_no)\<close>\<close>
  "new_cursor root = \<lparr>cur_root = root, scan_page_no = None, scan_cell_idx = 0, scan_cells = []\<rparr>"

definition scan_cells_of :: "'s pager_ops \<Rightarrow> nat \<Rightarrow> nat \<Rightarrow> ('s, (int \<times> bytes) list) pm" where
  \<comment> \<open>\<open>cursor.full_scan()\<close> of a new cursor\<close>
  "scan_cells_of ops fuel root = bindS (full_scan ops fuel fuel (new_cursor root)) (\<lambda>(rows, cur). retS rows)"

definition seq_scan :: "'s pager_ops \<Rightarrow> nat \<Rightarrow> nat \<Rightarrow> pystr list \<Rightarrow> ('s, row gen) pm" where
  "seq_scan ops fuel root names =
     bindS (scan_cells_of ops fuel root) (\<lambda>cells. retS (gen_map (decode_row names) cells None))"

definition projected_cell :: "'s pager_ops \<Rightarrow> bytes \<Rightarrow> nat \<Rightarrow> ('s, int \<times> bool \<times> bytes) pm" where
  "projected_cell ops page i =
     bindS (liftR (cell_head page i)) (\<lambda>(ptr, key, kn, payload_len, vn).
     let payload_start = ptr + kn + vn in
     if OVERFLOW_THRESHOLD < payload_len then
       bindS (liftR (unpack_from 4 page payload_start)) (\<lambda>first_ovf.
       bindS (read_overflow_chain ops first_ovf payload_len) (\<lambda>payload.
       retS (int key, False, payload)))
     else retS (int key, True, pyslice page payload_start (payload_start + payload_len)))"

fun leaf_walk :: "'s pager_ops \<Rightarrow> (bytes \<Rightarrow> nat \<Rightarrow> ('s, 'b list) pm) \<Rightarrow> nat \<Rightarrow> nat \<Rightarrow> ('s, 'b list) pm" where
  \<comment> \<open>\<open>while page_no != 0\<close> along the sibling links: what is collected of each leaf and its cell count\<close>
  "leaf_walk ops f 0 page_no = raiseS Diverges"
| "leaf_walk ops f (Suc fuel) page_no =
     (if page_no = 0 then retS []
      else
        bindS (op_read_page ops page_no) (\<lambda>page.
        bindS (liftR (read_leaf_header page)) (\<lambda>(num_cells, ccs, fb, frag).
        bindS (f page num_cells) (\<lambda>here.
        bindS (get_next_leaf ops page_no) (\<lambda>sibling.
        bindS (leaf_walk ops f fuel sibling) (\<lambda>later. retS (here @ later)))))))"

definition seq_scan_projected :: "'s pager_ops \<Rightarrow> nat \<Rightarrow> nat \<Rightarrow> nat set \<Rightarrow> pystr list \<Rightarrow> ('s, row gen) pm" where
  "seq_scan_projected ops fuel root decode_indices all_col_names =
     bindS (leftmost_leaf ops fuel root) (\<lambda>page_no.
     bindS (leaf_walk ops (\<lambda>page n. mapS (projected_cell ops page) [0..<n]) fuel page_no) (\<lambda>cells.
     retS (gen_map (decode_projected_row all_col_names decode_indices) cells None)))"

definition count_leaf_cells :: "'s pager_ops \<Rightarrow> nat \<Rightarrow> nat \<Rightarrow> ('s, nat) pm" where
  "count_leaf_cells ops fuel root =
     bindS (leftmost_leaf ops fuel root) (\<lambda>page_no.
     bindS (leaf_walk ops (\<lambda>page n. retS [n]) fuel page_no) (\<lambda>counts. retS (sum_list counts)))"

section \<open>On every pager\<close>

context page_reader
begin

lemma projected_cell_refines: "refines ok view (projected_cell ops page i) (projected_cell store_ops page i)"
  unfolding projected_cell_def by (intro refine_intros read_overflow_chain_refines)

lemma leaf_walk_refines:
  assumes "\<And>page n. refines ok view (f page n) (f' page n)"
  shows "refines ok view (leaf_walk ops f fuel p) (leaf_walk store_ops f' fuel p)"
proof (induction fuel arbitrary: p)
  case 0
  show ?case unfolding leaf_walk.simps by (rule refines_raise)
next
  case (Suc fuel)
  show ?case unfolding leaf_walk.simps by (intro refine_intros read_refines assms get_next_leaf_refines Suc.IH)
qed

lemma scan_cells_refines: "refines ok view (scan_cells_of ops fuel root) (scan_cells_of store_ops fuel root)"
  unfolding scan_cells_of_def by (intro refine_intros full_scan_refines)

lemma seq_scan_refines: "refines ok view (seq_scan ops fuel root names) (seq_scan store_ops fuel root names)"
  unfolding seq_scan_def by (intro refine_intros scan_cells_refines)

lemma seq_scan_projected_refines:
  "refines ok view (seq_scan_projected ops fuel root idx names) (seq_scan_projected store_ops fuel root idx names)"
  unfolding seq_scan_projected_def by (intro refine_intros leftmost_leaf_refines leaf_walk_refines projected_cell_refines)

lemma count_refines: "refines ok view (count_leaf_cells ops fuel root) (count_leaf_cells store_ops fuel root)"
  unfolding count_leaf_cells_def by (intro refine_intros leftmost_leaf_refines leaf_walk_refines)

end

section \<open>Walking the leaves of a tree\<close>

lemma leaf_walk_run:
  assumes sp: "space st L"
    and f: "\<And>p cs sib. leaf_at (st_pages st) (st_pages st p) cs sib \<Longrightarrow> set (all_pages cs) \<subseteq> L \<Longrightarrow>
      f (st_pages st p) (length cs) st = (Inr (g cs), st)"
  shows "leaf_run st L rem \<Longrightarrow> linked (st_pages st) (map fst rem) 0 \<Longrightarrow> length rem < fuel \<Longrightarrow>
    leaf_walk store_ops f fuel (case rem of [] \<Rightarrow> 0 | (p, cs) # _ \<Rightarrow> p) st = (Inr (concat (map (\<lambda>(p, cs). g cs) rem)), st)"
proof (induction fuel arbitrary: rem)
  case (Suc fuel)
  show ?case
  proof (cases rem)
    case (Cons e rem')
    obtain p cs where e: "e = (p, cs)" by (cases e)
    then obtain sib where p: "p \<in> L" "set (all_pages cs) \<subseteq> L" "leaf_at (st_pages st) (st_pages st p) cs sib"
      using Suc.prems(1) Cons by (auto simp: leaf_run_def)
    have nz: "p \<noteq> 0" using space_page(2) [OF sp p(1)] .
    have next': "sibling_of (st_pages st p) = (case rem' of [] \<Rightarrow> 0 | (q, ds) # _ \<Rightarrow> q)"
      using Suc.prems(2) Cons e by (cases rem') auto
    have rest: "linked (st_pages st) (map fst rem') 0" using Suc.prems(2) Cons e by (cases rem') auto
    have IH: "leaf_walk store_ops f fuel (sibling_of (st_pages st p)) st = (Inr (concat (map (\<lambda>(p, cs). g cs) rem')), st)"
      unfolding next' using Suc.prems(1,3) Cons rest by (intro Suc.IH) (auto simp: leaf_run_def)
    obtain ccs fb fr where "read_leaf_header (st_pages st p) = Inr (length cs, ccs, fb, fr)"
      using leaf_at_parts(3) [OF p(3)] by blast
    then show ?thesis
      using Cons e nz f [OF p(3,2)] next_leaf_run [OF sp p(1) leaf_at_parts(1) [OF p(3)]] IH
      by (simp add: bindS_def store_run)
  qed simp
qed simp

lemma tree_walk_run:
  assumes t: "tree_at st L d t" and fuel: "d < fuel" "length (leaves t) < fuel"
    and f: "\<And>p cs sib. leaf_at (st_pages st) (st_pages st p) cs sib \<Longrightarrow> set (all_pages cs) \<subseteq> L \<Longrightarrow>
      f (st_pages st p) (length cs) st = (Inr (g cs), st)"
  shows "leftmost_leaf store_ops fuel (tpage t) st = (Inr (fst (hd (leaf_list t))), st)"
    and "leaf_walk store_ops f fuel (fst (hd (leaf_list t))) st = (Inr (concat (map (\<lambda>(p, cs). g cs) (leaf_list t))), st)"
proof -
  note ta = tree_at_facts [OF t]
  show "leftmost_leaf store_ops fuel (tpage t) st = (Inr (fst (hd (leaf_list t))), st)"
    using leftmost_run [OF ta(2,3,4) fuel(1) ta(9)] by simp
  obtain e rem where ll: "leaf_list t = e # rem" using leaf_list_not_Nil [OF ta(3)] by (cases "leaf_list t") auto
  have "length (leaf_list t) < fuel" using fuel(2) by (simp add: leaf_list_leaves [symmetric])
  have "linked (st_pages st) (map fst (leaf_list t)) 0" using ta(7) by (simp add: leaf_list_leaves)
  with \<open>length (leaf_list t) < fuel\<close> have "leaf_walk store_ops f fuel (case leaf_list t of [] \<Rightarrow> 0 | (p, cs) # _ \<Rightarrow> p) st =
      (Inr (concat (map (\<lambda>(p, cs). g cs) (leaf_list t))), st)"
    by (intro leaf_walk_run [OF ta(1) _ tree_leaf_run [OF t]]) (use f in auto)
  then show "leaf_walk store_ops f fuel (fst (hd (leaf_list t))) st = (Inr (concat (map (\<lambda>(p, cs). g cs) (leaf_list t))), st)"
    by (simp add: ll split: prod.splits)
qed

lemma count_run:
  assumes "tree_at st L d t" and "d < fuel" "length (leaves t) < fuel"
  shows "count_leaf_cells store_ops fuel (tpage t) st = (Inr (length (cells t)), st)"
proof -
  note w = tree_walk_run [OF assms, of "\<lambda>page n. retS [n]" "\<lambda>cs. [length cs]"]
  have "sum_list (concat (map (\<lambda>(p, cs). [length cs]) xs)) = length (concat (map snd xs))" for xs :: "(nat \<times> cell list) list"
    by (induction xs) auto
  then show ?thesis using w by (simp add: count_leaf_cells_def bindS_def leaf_list_cells)
qed

lemma scan_cells_run:
  assumes t: "tree_at st L d t" and fuel: "d < fuel" "length (leaves t) < fuel" "length (cells t) < fuel"
  shows "scan_cells_of store_ops fuel (tpage t) st = (Inr (map cell_kv (cells t)), st)"
proof -
  have "cur_root (new_cursor (tpage t)) = tpage t" by (simp add: new_cursor_def)
  then have "full_scan store_ops fuel fuel (new_cursor (tpage t)) st =
      (Inr (map cell_kv (cells t), reset_scan (new_cursor (tpage t))), st)"
    using full_scan_run [OF t fuel(1)] fuel by simp
  then show ?thesis by (simp add: scan_cells_of_def bindS_def)
qed

text \<open>
  COUNT(*) without a WHERE clause is the number of rows. The sum of the cell counts in the leaf headers,
  which decodes no row, is the number of rows a full scan of the same tree returns, whatever the
  root page of the tree and however many leaves it has; nothing is written.
\<close>

theorem count_counts_rows:
  assumes "tree_at st L d t" and "d < fuel" "length (leaves t) < fuel" "length (cells t) < fuel"
  shows "scan_cells_of store_ops fuel (tpage t) st = (Inr (map cell_kv (cells t)), st) \<and>
    count_leaf_cells store_ops fuel (tpage t) st = (Inr (length (map cell_kv (cells t))), st)"
  using scan_cells_run [OF assms] count_run [OF assms(1-3)] by simp

theorem count_counts_rows_witness:
  "count_leaf_cells store_ops 9 2 demo_store = (Inr 2, demo_store)"
  using count_counts_rows [OF demo_tree, of 9] by (simp add: demo_cells_def)

end
