(* ===== verification/SqlSelect.thy ===== *)
theory SqlSelect
  imports SqlPlan SqlScan
begin

text \<open>
  The SELECT executors of \<open>sql/executor.py\<close>: plain and expression projections, the COUNT fast
  path, the other aggregates, GROUP BY, the point lookup through the id index, ORDER BY, OFFSET and
  LIMIT, each step in the order of the code. The result is the list of row dicts and the column names.
\<close>

type_synonym result_set = "row list \<times> pystr list"
type_synonym id_index = "(pystr \<Rightarrow> int option) option" \<comment> \<open>the dict from id to row key, if one was passed\<close>

section \<open>Parameters of LIMIT and OFFSET\<close>

definition py_int :: "pyval \<Rightarrow> int res" where
  \<comment> \<open>\<open>int(v)\<close>; bytes are read as ASCII\<close>
  "py_int v =
     (case v of
        PInt i \<Rightarrow> Inr i
      | PBool b \<Rightarrow> Inr (of_bool b)
      | PFloat w \<Rightarrow> (case float_num w of
           NaN \<Rightarrow> Inl ValueError
         | Fin k \<Rightarrow> Inr (if k < 0 then - ((- k) div SCALE) else k div SCALE)
         | _ \<Rightarrow> Inl OverflowError)
      | PStr s \<Rightarrow> (case py_int_of s of Some i \<Rightarrow> Inr i | None \<Rightarrow> Inl ValueError)
      | PBytes b \<Rightarrow> (if \<exists>x \<in> set b. 128 \<le> x \<or> 28 \<le> x \<and> x \<le> 31 then Inl ValueError
                    else case py_int_of (map unat b) of Some i \<Rightarrow> Inr i | None \<Rightarrow> Inl ValueError)
      | PView b \<Rightarrow> (if \<exists>x \<in> set b. 128 \<le> x \<or> 28 \<le> x \<and> x \<le> 31 then Inl ValueError
                    else case py_int_of (map unat b) of Some i \<Rightarrow> Inr i | None \<Rightarrow> Inl ValueError)
      | _ \<Rightarrow> Inl TypeError)"

definition bind_count :: "int option \<Rightarrow> bool \<Rightarrow> binding \<Rightarrow> (int option \<times> binding) res" where
  \<comment> \<open>a LIMIT or OFFSET: its literal, or the next positional parameter; none left means no bound\<close>
  "bind_count literal is_param b =
     (if \<not> is_param then Inr (literal, b)
      else if b_named b then Inl ValueError
      else
        let b' = b\<lparr>b_positional := True, b_queue := tl (b_queue b)\<rparr> in
        case b_queue b of
          Some v # q \<Rightarrow> bindR (py_int v) (\<lambda>i. Inr (Some i, b'))
        | _ \<Rightarrow> Inr (None, b'))"

definition skip_rows :: "int option \<Rightarrow> 'a list \<Rightarrow> 'a list" where
  "skip_rows offset rows = (case offset of Some n \<Rightarrow> if 0 < n then drop (nat n) rows else rows | None \<Rightarrow> rows)"

definition top_rows :: "int option \<Rightarrow> 'a list \<Rightarrow> 'a list" where
  "top_rows limit rows = (case limit of Some n \<Rightarrow> if 0 < n then take (nat n) rows else rows | None \<Rightarrow> rows)"

section \<open>Columns to decode\<close>

definition name_to_idx :: "pystr list \<Rightarrow> pystr \<Rightarrow> nat option" where
  \<comment> \<open>\<open>{name: i for i, name in enumerate(col_names)}\<close>\<close>
  "name_to_idx names = map_of (rev (zip names [0..<length names]))"

definition indices_of :: "pystr list \<Rightarrow> pystr set \<Rightarrow> nat set" where
  "indices_of names needed = {i \<in> set [0..<length names]. \<exists>n \<in> set names. n \<in> needed \<and> name_to_idx names n = Some i}"

definition order_names :: "select_stmt \<Rightarrow> pystr set" where
  "order_names stmt =
     (case s_order_by stmt of Some (c, _) \<Rightarrow> {c} | None \<Rightarrow> {}) \<union> (case s_order_by2 stmt of Some (c, _) \<Rightarrow> {c} | None \<Rightarrow> {})"

definition where_names :: "expr option \<Rightarrow> pystr set" where
  "where_names w = (case w of Some e \<Rightarrow> collect_column_names e | None \<Rightarrow> {})"

definition orders_by_rowid :: "select_stmt \<Rightarrow> bool" where
  "orders_by_rowid stmt \<longleftrightarrow> (\<exists>r. s_order_by stmt = Some (ROWID, r))"

definition sort_col :: "pystr list \<Rightarrow> pystr \<Rightarrow> pystr" where
  \<comment> \<open>\<open>_sort_col_exprs\<close>: a sort by \<open>rowid\<close> reads the column that carries it, or the key of the tree\<close>
  "sort_col names c = (if c \<noteq> ROWID then c else if ROWID_SOURCE \<in> set names then ROWID_SOURCE else ROWKEY)"

definition where_filter :: "pylib \<Rightarrow> expr option \<Rightarrow> row gen \<Rightarrow> row gen" where
  "where_filter lib w g = (case w of Some e \<Rightarrow> filter_op lib e (fst g) (snd g) | None \<Rightarrow> g)"

definition sort_rows :: "pylib \<Rightarrow> (pystr \<Rightarrow> pystr) \<Rightarrow> select_stmt \<Rightarrow> row list \<Rightarrow> row list res" where
  "sort_rows lib col stmt rows =
     (case s_order_by stmt of
        None \<Rightarrow> Inr rows
      | Some (c, desc, dt) \<Rightarrow>
          (case s_order_by2 stmt of
             Some (c2, desc2, dt2) \<Rightarrow> order_by_keys lib rows [(col c, desc, dt), (col c2, desc2, dt2)]
           | None \<Rightarrow> order_by lib rows (col c) desc dt))"

section \<open>Expression projections\<close>

definition eval_projection :: "pylib \<Rightarrow> (expr \<times> pystr) list \<Rightarrow> row \<Rightarrow> row res" where
  \<comment> \<open>\<open>{alias: eval_expr(expr, row, []) for expr, alias in bound_select_exprs}\<close>\<close>
  "eval_projection lib exprs row =
     bindR (mapR (\<lambda>(e, alias). bindR (eval_expr lib row e) (\<lambda>v. Inr (alias, v))) exprs) (\<lambda>kvs. Inr (dict_of kvs))"

definition execute_select_exprs ::
  "pylib \<Rightarrow> 's pager_ops \<Rightarrow> nat \<Rightarrow> select_stmt \<Rightarrow> nat \<Rightarrow> pystr list \<Rightarrow> (expr \<times> pystr) list \<Rightarrow> expr option \<Rightarrow>
   int option \<Rightarrow> int option \<Rightarrow> ('s, result_set) pm" where
  "execute_select_exprs lib ops fuel stmt root names exprs bound_where limit offset =
     (let expr_names = \<Union> (set (map (\<lambda>(e, _). collect_column_names e) exprs));
          selects_rowid = ROWID \<in> expr_names;
          decode_indices = indices_of names (expr_names \<union> where_names bound_where \<union> order_names stmt
            \<union> (if selects_rowid \<or> orders_by_rowid stmt then {ROWID_SOURCE} else {})) in
      bindS (seq_scan_projected ops fuel root decode_indices names) (\<lambda>scan.
      bindS (liftR (gen_list (where_filter lib bound_where scan))) (\<lambda>found.
      bindS (liftR (sort_rows lib (sort_col names) stmt found)) (\<lambda>sorted.
      let materialised = (if selects_rowid \<or> orders_by_rowid stmt then map resolve_rowid sorted else sorted) in
      bindS (liftR (mapR (eval_projection lib exprs) materialised)) (\<lambda>out_rows.
      retS (if limit = Some 0 then [] else top_rows limit (skip_rows offset out_rows), map snd exprs))))))"

section \<open>GROUP BY\<close>

fun put_bucket :: "okey \<Rightarrow> row \<Rightarrow> (okey \<times> row \<times> nat) list \<Rightarrow> (okey \<times> row \<times> nat) list" where
  \<comment> \<open>the dict of buckets: keys are found by equality, a new key goes to the end with its first row\<close>
  "put_bucket key row [] = [(key, row, 1)]"
| "put_bucket key row ((k, first_row, n) # bs) =
     (if okey_eq k key then (k, first_row, n + 1) # bs else (k, first_row, n) # put_bucket key row bs)"

definition bucket_rows :: "pystr \<Rightarrow> row list \<Rightarrow> (okey \<times> row \<times> nat) list" where
  "bucket_rows group_col rows = fold (\<lambda>row. put_bucket (order_key (row_get row group_col)) row) rows []"

definition group_row :: "group_item list \<Rightarrow> row \<Rightarrow> nat \<Rightarrow> row" where
  "group_row projection first_row n =
     dict_of (map (\<lambda>item. case item of
        GroupCount out_name \<Rightarrow> (out_name, PInt (int n))
      | GroupCol out_name src_name \<Rightarrow> (out_name, row_get first_row src_name)) projection)"

definition having_keeps :: "pystr \<Rightarrow> int option \<Rightarrow> nat \<Rightarrow> bool res" where
  \<comment> \<open>\<open>sql_compare(op, n, rhs) is True\<close>; Python's \<open>None\<close> compares like any foreign object\<close>
  "having_keeps op rhs n =
     bindR (sql_compare op (PInt (int n)) (case rhs of Some v \<Rightarrow> PInt v | None \<Rightarrow> POther)) (\<lambda>r. Inr (r = PBool True))"

fun filterR :: "('a \<Rightarrow> bool res) \<Rightarrow> 'a list \<Rightarrow> 'a list res" where
  "filterR f [] = Inr []"
| "filterR f (x # xs) = bindR (f x) (\<lambda>b. bindR (filterR f xs) (\<lambda>ys. Inr (if b then x # ys else ys)))"

definition group_item_name :: "group_item \<Rightarrow> pystr" where
  "group_item_name item = (case item of GroupCol out_name src_name \<Rightarrow> out_name | GroupCount out_name \<Rightarrow> out_name)"

definition group_projection :: "select_stmt \<Rightarrow> group_item list" where
  "group_projection stmt =
     (if s_group_select stmt \<noteq> [] then s_group_select stmt else map (\<lambda>c. GroupCol c c) (s_columns stmt))"

definition group_rows :: "pylib \<Rightarrow> select_stmt \<Rightarrow> pystr \<Rightarrow> row list \<Rightarrow> row list res" where
  \<comment> \<open>buckets in key order, projected, filtered by HAVING and sorted\<close>
  "group_rows lib stmt group_col rows =
     bindR (py_sort okey_less (bucket_rows group_col rows)) (\<lambda>ordered_buckets.
     let grouped_pairs = map (\<lambda>(key, first_row, n). (group_row (group_projection stmt) first_row n, n)) ordered_buckets in
     bindR (case s_having_op stmt of
              None \<Rightarrow> Inr grouped_pairs
            | Some op \<Rightarrow> filterR (\<lambda>(row, n). having_keeps op (s_having_value stmt) n) grouped_pairs) (\<lambda>kept.
     let grouped = map fst kept in
     case s_order_by stmt of
       None \<Rightarrow> Inr grouped
     | Some (c, desc, dt) \<Rightarrow>
         order_by_keys lib grouped
           ((c, desc, False) # (case s_order_by2 stmt of Some (c2, desc2, dt2) \<Rightarrow> [(c2, desc2, False)] | None \<Rightarrow> []))))"

definition execute_group_by ::
  "pylib \<Rightarrow> 's pager_ops \<Rightarrow> nat \<Rightarrow> select_stmt \<Rightarrow> pystr \<Rightarrow> nat \<Rightarrow> pystr list \<Rightarrow> expr option \<Rightarrow>
   int option \<Rightarrow> int option \<Rightarrow> ('s, result_set) pm" where
  "execute_group_by lib ops fuel stmt group_col root names bound_where limit offset =
     bindS (seq_scan ops fuel root names) (\<lambda>scan.
     bindS (liftR (gen_list (where_filter lib bound_where scan))) (\<lambda>rows.
     bindS (liftR (group_rows lib stmt group_col rows)) (\<lambda>grouped.
     retS (if limit = Some 0 then [] else top_rows limit (skip_rows offset grouped),
           map group_item_name (group_projection stmt)))))"

section \<open>Aggregates\<close>

definition COUNT_STAR :: pystr where "COUNT_STAR = pystr_of ''COUNT(*)''"

definition agg_label :: "string \<Rightarrow> select_stmt \<Rightarrow> pystr" where
  "agg_label f stmt = pystr_of f @ pystr_of ''('' @ (case s_aggregate_column stmt of Some c \<Rightarrow> c | None \<Rightarrow> []) @ pystr_of '')''"

definition aggregate_label :: "aggregate \<Rightarrow> select_stmt \<Rightarrow> pystr" where
  "aggregate_label agg stmt =
     (case agg of
        CountAgg \<Rightarrow> (case s_count_alias stmt of Some a \<Rightarrow> if a = [] then COUNT_STAR else a | None \<Rightarrow> COUNT_STAR)
      | SumAgg \<Rightarrow> agg_label ''SUM'' stmt
      | MinAgg \<Rightarrow> agg_label ''MIN'' stmt
      | MaxAgg \<Rightarrow> agg_label ''MAX'' stmt)"

definition agg_column :: "select_stmt \<Rightarrow> pystr" where
  "agg_column stmt = (case s_aggregate_column stmt of Some c \<Rightarrow> c | None \<Rightarrow> [])"

definition sum_values :: "pyval list \<Rightarrow> int" where
  \<comment> \<open>only instances of \<open>int\<close> are added, \<open>bool\<close> among them\<close>
  "sum_values vs = sum_list (map (\<lambda>v. case v of PInt i \<Rightarrow> i | PBool b \<Rightarrow> of_bool b | _ \<Rightarrow> 0) vs)"

fun extremum :: "bool \<Rightarrow> pyval list \<Rightarrow> (okey \<times> pyval) option \<Rightarrow> pyval res" where
  \<comment> \<open>the loop of MIN and MAX: the best key so far with its value\<close>
  "extremum want_max [] best = Inr (case best of Some (k, v) \<Rightarrow> v | None \<Rightarrow> PNull)"
| "extremum want_max (v # vs) best =
     (if v = PNull then extremum want_max vs best
      else
        let key = order_key v in
        case best of
          None \<Rightarrow> extremum want_max vs (Some (key, v))
        | Some (best_key, b) \<Rightarrow>
            bindR (if want_max then okey_less best_key key else okey_less key best_key) (\<lambda>better.
            extremum want_max vs (if better then Some (key, v) else best)))"

definition aggregate_value :: "aggregate \<Rightarrow> pystr \<Rightarrow> row list \<Rightarrow> pyval res" where
  "aggregate_value agg col rows =
     (let vals = map (\<lambda>r. row_get r col) rows in
      case agg of
        CountAgg \<Rightarrow> Inr (PInt (int (length rows)))
      | SumAgg \<Rightarrow> Inr (PInt (sum_values vals))
      | MinAgg \<Rightarrow> extremum False vals None
      | MaxAgg \<Rightarrow> extremum True vals None)"

section \<open>The point lookup\<close>

definition extract_id_eq :: "expr \<Rightarrow> pystr option" where
  "extract_id_eq w =
     (case w of
        BinOp op (ColumnRef name) (Literal (PStr s)) \<Rightarrow>
          if op = pystr_of ''='' \<and> name = pystr_of ''id'' then Some s else None
      | _ \<Rightarrow> None)"

definition lookup_row :: "pylib \<Rightarrow> 's pager_ops \<Rightarrow> nat \<Rightarrow> nat \<Rightarrow> pystr list \<Rightarrow> expr \<Rightarrow> int \<Rightarrow> ('s, row option) pm" where
  \<comment> \<open>the row under a key of the index, if the predicate holds on it; the cells are read without the pager,
     so a spilled payload is its chain pointer\<close>
  "lookup_row lib ops fuel root names w row_key =
     bindS (move_to ops fuel root row_key) (\<lambda>(leaf_page_no, insert_idx, path).
     bindS (op_read_page ops leaf_page_no) (\<lambda>page_data.
     bindS (read_all_leaf_cells None page_data) (\<lambda>cells.
     if insert_idx < length cells \<and> fst (cells ! insert_idx) = row_key then
       bindS (liftR (plain_row names (snd (cells ! insert_idx)))) (\<lambda>row.
       bindS (liftR (eval_expr lib row w)) (\<lambda>result.
       retS (if accepts result then Some row else None)))
     else retS None)))"

section \<open>SELECT\<close>

definition out_names :: "pystr list \<Rightarrow> pystr list \<Rightarrow> pystr list" where
  "out_names names columns = (if columns = STAR then names else columns)"

definition star_columns :: "select_stmt \<Rightarrow> pystr list" where
  \<comment> \<open>\<open>list(plan.columns) if plan.columns else ["*"]\<close>\<close>
  "star_columns stmt = (if s_columns stmt = [] then STAR else s_columns stmt)"

definition sort_col_name :: "bool \<Rightarrow> pystr list \<Rightarrow> pystr \<Rightarrow> pystr res" where
  \<comment> \<open>\<open>_sort_col_name\<close>: the variable it reads for \<open>rowid\<close> is only bound on the projected path\<close>
  "sort_col_name projected names c =
     (if c \<noteq> ROWID then Inr c
      else if projected then Inr (if ROWID_SOURCE \<in> set names then ROWID_SOURCE else ROWKEY)
      else Inl NameError)"

definition sort_selected :: "pylib \<Rightarrow> bool \<Rightarrow> pystr list \<Rightarrow> select_stmt \<Rightarrow> row gen \<Rightarrow> row gen res" where
  "sort_selected lib projected names stmt source =
     (if s_aggregate stmt \<noteq> None then Inr source
      else case s_order_by stmt of
        None \<Rightarrow> Inr source
      | Some (c, desc, dt) \<Rightarrow>
          (case s_order_by2 stmt of
             Some (c2, desc2, dt2) \<Rightarrow>
               bindR (sort_col_name projected names c) (\<lambda>col.
               bindR (sort_col_name projected names c2) (\<lambda>col2.
               bindR (gen_list source) (\<lambda>rows.
               bindR (order_by_keys lib rows [(col, desc, dt), (col2, desc2, dt2)]) (\<lambda>out. Inr (out, None)))))
           | None \<Rightarrow>
               bindR (gen_list source) (\<lambda>rows.
               bindR (sort_col_name projected names c) (\<lambda>col.
               bindR (order_by lib rows col desc dt) (\<lambda>out. Inr (out, None))))))"

definition finish_select :: "select_stmt \<Rightarrow> pystr list \<Rightarrow> int option \<Rightarrow> int option \<Rightarrow> row gen \<Rightarrow> result_set res" where
  \<comment> \<open>from the sorted source to the result: LIMIT 0, aggregates, projection, OFFSET, LIMIT\<close>
  "finish_select stmt names limit offset source =
     (let columns = star_columns stmt in
      if limit = Some 0 then
        Inr ([], case s_aggregate stmt of Some agg \<Rightarrow> [aggregate_label agg stmt] | None \<Rightarrow> out_names names columns)
      else case s_aggregate stmt of
        Some agg \<Rightarrow>
          bindR (gen_list source) (\<lambda>rows.
          bindR (aggregate_value agg (agg_column stmt) rows) (\<lambda>v.
          Inr ([[(aggregate_label agg stmt, v)]], [aggregate_label agg stmt])))
      | None \<Rightarrow>
          let source' = (if ROWID \<in> set columns then (map resolve_rowid (fst source), snd source) else source);
              projected = project_op columns source' in
          bindR (case offset of
              Some n \<Rightarrow> if 0 < n then bindR (gen_list projected) (\<lambda>rows. Inr (drop (nat n) rows, None)) else Inr projected
            | None \<Rightarrow> Inr projected) (\<lambda>shifted.
          bindR (gen_list (case limit of Some n \<Rightarrow> if 0 < n then limit_op (nat n) shifted else shifted | None \<Rightarrow> shifted)) (\<lambda>rows.
          Inr (rows, out_names names columns))))"

definition select_decode :: "select_stmt \<Rightarrow> pystr list \<Rightarrow> expr option \<Rightarrow> nat set" where
  \<comment> \<open>the columns of the projected scan: projected, tested, sorted by, and the source of \<open>rowid\<close>\<close>
  "select_decode stmt names bound_where =
     indices_of names (set (star_columns stmt)) \<union> indices_of names (where_names bound_where)
     \<union> indices_of names (order_names stmt)
     \<union> (if ROWID \<in> set (star_columns stmt) \<or> orders_by_rowid stmt then indices_of names {ROWID_SOURCE} else {})"

definition count_select ::
  "pylib \<Rightarrow> 's pager_ops \<Rightarrow> nat \<Rightarrow> select_stmt \<Rightarrow> nat \<Rightarrow> pystr list \<Rightarrow> expr option \<Rightarrow> ('s, result_set) pm" where
  "count_select lib ops fuel stmt root names bound_where =
     (let label = aggregate_label CountAgg stmt in
      bindS (case bound_where of
          None \<Rightarrow> count_leaf_cells ops fuel root
        | Some w \<Rightarrow>
            bindS (seq_scan_projected ops fuel root (indices_of names (collect_column_names w)) names) (\<lambda>scan.
            bindS (liftR (gen_list (where_filter lib bound_where scan))) (\<lambda>rows. retS (length rows)))) (\<lambda>count.
      retS ([[(label, PInt (int count))]], [label])))"

definition scan_select ::
  "pylib \<Rightarrow> 's pager_ops \<Rightarrow> nat \<Rightarrow> select_stmt \<Rightarrow> nat \<Rightarrow> pystr list \<Rightarrow> expr option \<Rightarrow> int option \<Rightarrow> int option \<Rightarrow>
   ('s, result_set) pm" where
  \<comment> \<open>the general path: scan, filter, sort, finish; the scan is a generator, so one that is neither sorted
     nor pulled (LIMIT 0) never starts\<close>
  "scan_select lib ops fuel stmt root names bound_where limit offset =
     (let projected = star_columns stmt \<noteq> STAR \<and> s_aggregate stmt = None in
      bindS (if limit = Some 0 \<and> (s_order_by stmt = None \<or> s_aggregate stmt \<noteq> None) then retS ([], None)
             else if projected then seq_scan_projected ops fuel root (select_decode stmt names bound_where) names
             else seq_scan ops fuel root names) (\<lambda>scan.
      bindS (liftR (sort_selected lib projected names stmt (where_filter lib bound_where scan))) (\<lambda>source.
      liftR (finish_select stmt names limit offset source))))"

definition plain_select ::
  "pylib \<Rightarrow> 's pager_ops \<Rightarrow> nat \<Rightarrow> select_stmt \<Rightarrow> nat \<Rightarrow> pystr list \<Rightarrow> expr option \<Rightarrow> int option \<Rightarrow> int option \<Rightarrow>
   ('s, result_set) pm" where
  "plain_select lib ops fuel stmt root names bound_where limit offset =
     (if s_aggregate stmt = Some CountAgg \<and> s_group_by_col stmt = None \<and> s_order_by stmt = None
      then count_select lib ops fuel stmt root names bound_where
      else scan_select lib ops fuel stmt root names bound_where limit offset)"

definition lookup_select ::
  "pylib \<Rightarrow> 's pager_ops \<Rightarrow> nat \<Rightarrow> select_stmt \<Rightarrow> nat \<Rightarrow> pystr list \<Rightarrow> expr \<Rightarrow> (pystr \<Rightarrow> int option) \<Rightarrow> pystr \<Rightarrow>
   ('s, result_set option) pm" where
  \<comment> \<open>the id fast path: a result, or nothing when the scan has to decide\<close>
  "lookup_select lib ops fuel stmt root names w index id_val =
     (let columns = star_columns stmt in
      case index id_val of
        None \<Rightarrow> retS (Some ([], out_names names columns))
      | Some row_key \<Rightarrow>
          bindS (lookup_row lib ops fuel root names w row_key) (\<lambda>found.
          case found of
            None \<Rightarrow> retS None
          | Some row \<Rightarrow>
              bindS (liftR (if columns = STAR then Inr row
                else select_columns columns (if ROWID \<in> set columns then resolve_rowid row else row))) (\<lambda>out.
              retS (Some ([out], out_names names columns)))))"

definition bind_exprs :: "named_params \<Rightarrow> (expr \<times> pystr) list \<Rightarrow> binding \<Rightarrow> ((expr \<times> pystr) list \<times> binding) res" where
  "bind_exprs named exprs b =
     bindR (bind_list named (map fst exprs) b) (\<lambda>(es, b'). Inr (zip es (map snd exprs), b'))"

definition bind_where :: "named_params \<Rightarrow> expr option \<Rightarrow> binding \<Rightarrow> (expr option \<times> binding) res" where
  "bind_where named w b =
     (case w of None \<Rightarrow> Inr (None, b) | Some e \<Rightarrow> bindR (bind_params named e b) (\<lambda>(e', b'). Inr (Some e', b')))"

definition fresh_binding :: "pyval option list \<Rightarrow> binding" where
  "fresh_binding params = \<lparr>b_queue = params, b_positional = False, b_named = False\<rparr>"

definition bind_select ::
  "named_params \<Rightarrow> select_stmt \<Rightarrow> pyval option list \<Rightarrow> ((expr \<times> pystr) list \<times> expr option \<times> int option \<times> int option) res" where
  \<comment> \<open>placeholders in textual order: the select list, WHERE, LIMIT, OFFSET\<close>
  "bind_select named stmt params =
     bindR (bind_exprs named (s_select_exprs stmt) (fresh_binding params)) (\<lambda>(exprs, b1).
     bindR (bind_where named (s_where stmt) b1) (\<lambda>(w, b2).
     bindR (bind_count (s_limit stmt) (s_limit_is_param stmt) b2) (\<lambda>(limit, b3).
     bindR (bind_count (s_offset stmt) (s_offset_is_param stmt) b3) (\<lambda>(offset, b4).
     Inr (exprs, w, limit, offset)))))"

definition execute_select ::
  "pylib \<Rightarrow> 's pager_ops \<Rightarrow> nat \<Rightarrow> select_stmt \<Rightarrow> pyval option list \<Rightarrow> named_params \<Rightarrow> nat \<Rightarrow> catalog \<Rightarrow> id_index \<Rightarrow>
   ('s, result_set) pm" where
  "execute_select lib ops fuel stmt params named root cat id_index =
     bindS (liftR (column_names cat (s_table stmt))) (\<lambda>names.
     bindS (liftR (bind_select named stmt params)) (\<lambda>(exprs, w, limit, offset).
     if exprs \<noteq> [] then execute_select_exprs lib ops fuel stmt root names exprs w limit offset
     else case s_group_by_col stmt of
       Some group_col \<Rightarrow> execute_group_by lib ops fuel stmt group_col root names w limit offset
     | None \<Rightarrow>
         (case (w, id_index, limit) of
            (Some e, Some index, Some n) \<Rightarrow>
              (case extract_id_eq e of
                 Some id_val \<Rightarrow>
                   if 1 \<le> n then
                     bindS (lookup_select lib ops fuel stmt root names e index id_val) (\<lambda>found.
                     case found of
                       Some result \<Rightarrow> retS result
                     | None \<Rightarrow> plain_select lib ops fuel stmt root names w limit offset)
                   else plain_select lib ops fuel stmt root names w limit offset
               | None \<Rightarrow> plain_select lib ops fuel stmt root names w limit offset)
          | _ \<Rightarrow> plain_select lib ops fuel stmt root names w limit offset)))"

end
