(* ===== verification/SqlModify.thy ===== *)
theory SqlModify
  imports SqlSelect
begin

text \<open>
  The INSERT, UPDATE and DELETE executors of \<open>sql/executor.py\<close>, the constant plan, and the dispatch of
  \<open>execute\<close> and \<open>run\<close>. The pager methods \<open>begin_write\<close> and \<open>commit\<close> are part of the driver
  they run on: a connection replaces both by no-ops while an outer transaction is open.
\<close>

record 's driver =
  dr_ops :: "'s pager_ops"
  dr_begin :: "('s, unit) pm"
  dr_commit :: "('s, unit) pm"

type_synonym value_map = "(pystr \<times> pyval) list"

section \<open>INSERT\<close>

definition value_map_of :: "pystr list \<Rightarrow> pyval option list \<Rightarrow> value_map" where
  \<comment> \<open>short parameter lists are padded with NULL; a Python \<open>None\<close> is NULL\<close>
  "value_map_of cols params =
     dict_of (zip cols (map none_is_null (params @ replicate (length cols - length params) None)))"

definition default_fill :: "value_map \<Rightarrow> column_meta \<Rightarrow> pyval" where
  "default_fill vm cm =
     (let val = row_get vm (cm_name cm) in
      if val = PNull then (case cm_default cm of Some d \<Rightarrow> none_is_null d | None \<Rightarrow> val) else val)"

definition build_payload :: "value_map \<Rightarrow> column_meta list \<Rightarrow> pyval list res" where
  "build_payload vm cms =
     (let out = map (default_fill vm) cms in
      if \<exists>(cm, val) \<in> set (zip cms out). \<not> cm_nullable cm \<and> val = PNull then Inl ValueError else Inr out)"

definition conflict_keys_of :: "insert_stmt \<Rightarrow> column_meta list \<Rightarrow> pystr list" where
  \<comment> \<open>OR IGNORE and OR REPLACE fall back to the primary key, then to the first column\<close>
  "conflict_keys_of stmt cms =
     (if (i_or_ignore stmt \<or> i_or_replace stmt) \<and> i_conflict_keys stmt = [] then
        (case map cm_name (filter cm_primary_key cms) of
           [] \<Rightarrow> (case cms of cm # _ \<Rightarrow> [cm_name cm] | [] \<Rightarrow> [])
         | ks \<Rightarrow> ks)
      else i_conflict_keys stmt)"

definition needs_conflict_scan :: "insert_stmt \<Rightarrow> pystr list \<Rightarrow> bool" where
  "needs_conflict_scan stmt conflict_keys \<longleftrightarrow>
     (i_conflict_action stmt \<noteq> None \<or> i_or_ignore stmt \<or> i_or_replace stmt) \<and> conflict_keys \<noteq> []"

definition key_match :: "value_map \<Rightarrow> pystr list \<Rightarrow> row \<Rightarrow> bool" where
  \<comment> \<open>\<open>all(sql_compare("=", ...) is True)\<close>; NULL matches nothing, and equality never raises\<close>
  "key_match vm conflict_keys existing_row =
     list_all (\<lambda>ck. sql_compare (pystr_of ''='') (row_get existing_row ck) (row_get vm ck) = Inr (PBool True)) conflict_keys"

fun find_conflict :: "pystr list \<Rightarrow> pystr list \<Rightarrow> value_map \<Rightarrow> (int \<times> bytes) list \<Rightarrow> (int \<times> row) option res" where
  "find_conflict names conflict_keys vm [] = Inr None"
| "find_conflict names conflict_keys vm ((key, payload) # pairs) =
     bindR (plain_row names payload) (\<lambda>existing_row.
     if key_match vm conflict_keys existing_row then Inr (Some (key, existing_row))
     else find_conflict names conflict_keys vm pairs)"

fun apply_set :: "pylib \<Rightarrow> value_map \<Rightarrow> row \<Rightarrow> (pystr \<times> expr) list \<Rightarrow> row \<Rightarrow> row res" where
  \<comment> \<open>the SET clauses of ON CONFLICT, evaluated on the existing row\<close>
  "apply_set lib vm existing_row [] updated_row = Inr updated_row"
| "apply_set lib vm existing_row ((set_col, set_expr) # clauses) updated_row =
     bindR (case set_expr of ExcludedRef c \<Rightarrow> Inr (row_get vm c) | _ \<Rightarrow> eval_expr lib existing_row set_expr) (\<lambda>v.
     apply_set lib vm existing_row clauses (dict_put set_col v updated_row))"

definition row_payload :: "pystr list \<Rightarrow> row \<Rightarrow> pyval list" where
  "row_payload names row = map (row_get row) names"

definition write_row :: "'s driver \<Rightarrow> nat \<Rightarrow> nat \<Rightarrow> int \<Rightarrow> pyval list \<Rightarrow> ('s, unit) pm" where
  \<comment> \<open>\<open>cursor.insert(key, encode_record(payload_vals))\<close>\<close>
  "write_row dr fuel root key vals =
     bindS (liftR (encode_record vals)) (\<lambda>payload. btree_insert (dr_ops dr) LEAF_MAX_CELLS_default fuel root key payload)"

definition write_one :: "'s driver \<Rightarrow> nat \<Rightarrow> nat \<Rightarrow> int \<Rightarrow> pyval list \<Rightarrow> ('s, result_set) pm" where
  "write_one dr fuel root key vals =
     bindS (dr_begin dr) (\<lambda>_. bindS (write_row dr fuel root key vals) (\<lambda>_. bindS (dr_commit dr) (\<lambda>_. retS ([], []))))"

definition on_conflict ::
  "pylib \<Rightarrow> 's driver \<Rightarrow> nat \<Rightarrow> insert_stmt \<Rightarrow> nat \<Rightarrow> column_meta list \<Rightarrow> value_map \<Rightarrow> int \<Rightarrow> row \<Rightarrow> ('s, result_set) pm" where
  \<comment> \<open>DO UPDATE wins over REPLACE; DO NOTHING and OR IGNORE skip\<close>
  "on_conflict lib dr fuel stmt root cms vm key existing_row =
     (if i_conflict_action stmt = Some DoUpdate then
        bindS (liftR (apply_set lib vm existing_row (i_set_clauses stmt) existing_row)) (\<lambda>updated_row.
        write_one dr fuel root key (row_payload (map cm_name cms) updated_row))
      else if i_or_replace stmt then
        bindS (liftR (build_payload vm cms)) (\<lambda>payload. write_one dr fuel root key payload)
      else retS ([], []))"

definition next_key :: "int list \<Rightarrow> int" where
  "next_key keys = (case keys of [] \<Rightarrow> 1 | _ \<Rightarrow> Max (set keys) + 1)"

definition execute_insert ::
  "pylib \<Rightarrow> 's driver \<Rightarrow> nat \<Rightarrow> insert_stmt \<Rightarrow> pyval option list \<Rightarrow> nat \<Rightarrow> catalog \<Rightarrow> ('s, result_set) pm" where
  "execute_insert lib dr fuel stmt params root cat =
     bindS (liftR (cat_get cat (i_table stmt))) (\<lambda>cms.
     let names = map cm_name cms;
         vm = value_map_of (i_columns stmt) params;
         conflict_keys = conflict_keys_of stmt cms in
     if needs_conflict_scan stmt conflict_keys then
       bindS (scan_cells_of (dr_ops dr) fuel root) (\<lambda>pairs.
       bindS (liftR (find_conflict names conflict_keys vm pairs)) (\<lambda>found.
       case found of
         Some (key, existing_row) \<Rightarrow> on_conflict lib dr fuel stmt root cms vm key existing_row
       | None \<Rightarrow>
           bindS (liftR (build_payload vm cms)) (\<lambda>payload.
           write_one dr fuel root (next_key (map fst pairs)) payload)))
     else
       bindS (max_key (dr_ops dr) fuel root) (\<lambda>max_existing.
       bindS (liftR (build_payload vm cms)) (\<lambda>payload.
       write_one dr fuel root (case max_existing of Some k \<Rightarrow> k + 1 | None \<Rightarrow> 1) payload)))"

section \<open>UPDATE\<close>

fun bind_set :: "pylib \<Rightarrow> named_params \<Rightarrow> (pystr \<times> expr) list \<Rightarrow> binding \<Rightarrow> ((pystr \<times> pyval) list \<times> binding) res" where
  \<comment> \<open>each SET expression is bound and evaluated on an empty row, in order\<close>
  "bind_set lib named [] b = Inr ([], b)"
| "bind_set lib named ((set_col, set_expr) # clauses) b =
     bindR (bind_params named set_expr b) (\<lambda>(bound_expr, b1).
     bindR (eval_expr lib [] bound_expr) (\<lambda>v.
     bindR (bind_set lib named clauses b1) (\<lambda>(vs, b2). Inr ((set_col, v) # vs, b2))))"

fun matching_rows :: "pylib \<Rightarrow> pystr list \<Rightarrow> expr option \<Rightarrow> (int \<times> bytes) list \<Rightarrow> (int \<times> row) list res" where
  \<comment> \<open>the loop over \<open>full_scan\<close>: keys and rows that satisfy WHERE\<close>
  "matching_rows lib names w [] = Inr []"
| "matching_rows lib names w ((key, payload) # pairs) =
     bindR (plain_row names payload) (\<lambda>row.
     bindR (case w of None \<Rightarrow> Inr True | Some e \<Rightarrow> bindR (eval_expr lib row e) (\<lambda>v. Inr (accepts v))) (\<lambda>hit.
     bindR (matching_rows lib names w pairs) (\<lambda>later. Inr (if hit then (key, row) # later else later))))"

definition set_row :: "(pystr \<times> pyval) list \<Rightarrow> row \<Rightarrow> row" where
  "set_row clauses row = fold (\<lambda>(c, v). dict_put c v) clauses row"

definition scan_matches :: "pylib \<Rightarrow> 's pager_ops \<Rightarrow> nat \<Rightarrow> nat \<Rightarrow> pystr list \<Rightarrow> expr option \<Rightarrow> ('s, (int \<times> row) list) pm" where
  "scan_matches lib ops fuel root names w =
     bindS (scan_cells_of ops fuel root) (\<lambda>pairs. liftR (matching_rows lib names w pairs))"

definition update_targets ::
  "pylib \<Rightarrow> 's pager_ops \<Rightarrow> nat \<Rightarrow> nat \<Rightarrow> pystr list \<Rightarrow> expr option \<Rightarrow> id_index \<Rightarrow> ('s, (int \<times> row) list) pm" where
  \<comment> \<open>the rows to update: through the id index where it answers, else by a scan\<close>
  "update_targets lib ops fuel root names w id_index =
     (case (w, id_index) of
        (Some e, Some index) \<Rightarrow>
          (case extract_id_eq e of
             Some id_val \<Rightarrow>
               (case index id_val of
                  None \<Rightarrow> retS []
                | Some row_key \<Rightarrow>
                    bindS (lookup_row lib ops fuel root names e row_key) (\<lambda>found.
                    retS (case found of Some row \<Rightarrow> [(row_key, row)] | None \<Rightarrow> [])))
           | None \<Rightarrow> scan_matches lib ops fuel root names w)
      | _ \<Rightarrow> scan_matches lib ops fuel root names w)"

definition execute_update ::
  "pylib \<Rightarrow> 's driver \<Rightarrow> nat \<Rightarrow> update_stmt \<Rightarrow> pyval option list \<Rightarrow> named_params \<Rightarrow> nat \<Rightarrow> catalog \<Rightarrow> id_index \<Rightarrow>
   ('s, result_set) pm" where
  "execute_update lib dr fuel stmt params named root cat id_index =
     bindS (liftR (column_names cat (u_table stmt))) (\<lambda>names.
     bindS (liftR (bind_set lib named (u_set_clauses stmt) (fresh_binding params))) (\<lambda>(clauses, b).
     bindS (liftR (bind_where named (u_where stmt) b)) (\<lambda>(w, b').
     bindS (update_targets lib (dr_ops dr) fuel root names w id_index) (\<lambda>to_update.
     if to_update = [] then retS ([], [])
     else
       bindS (dr_begin dr) (\<lambda>_.
       bindS (forS (\<lambda>(key, row). write_row dr fuel root key (row_payload names (set_row clauses row))) to_update) (\<lambda>_.
       bindS (dr_commit dr) (\<lambda>_. retS ([], []))))))))"

section \<open>DELETE\<close>

definition execute_delete ::
  "pylib \<Rightarrow> 's driver \<Rightarrow> nat \<Rightarrow> delete_stmt \<Rightarrow> pyval option list \<Rightarrow> named_params \<Rightarrow> nat \<Rightarrow> catalog \<Rightarrow> ('s, result_set) pm" where
  "execute_delete lib dr fuel stmt params named root cat =
     bindS (liftR (column_names cat (d_table stmt))) (\<lambda>names.
     bindS (liftR (bind_where named (d_where stmt) (fresh_binding params))) (\<lambda>(w, b).
     bindS (scan_matches lib (dr_ops dr) fuel root names w) (\<lambda>to_delete.
     if to_delete = [] then retS ([], [])
     else
       bindS (dr_begin dr) (\<lambda>_.
       bindS (forS (\<lambda>(key, row). btree_delete (dr_ops dr) LEAF_MAX_CELLS_default fuel root key) to_delete) (\<lambda>_.
       bindS (dr_commit dr) (\<lambda>_. retS ([], [])))))))"

section \<open>Dispatch\<close>

definition tryS :: "('s, 'a) pm \<Rightarrow> 'a \<Rightarrow> ('s, 'a) pm" where
  \<comment> \<open>\<open>except Exception\<close> with a default\<close>
  "tryS m d = (\<lambda>s. case m s of (Inl e, s') \<Rightarrow> (Inr d, s') | (Inr x, s') \<Rightarrow> (Inr x, s'))"

definition execute_constant :: "'s pager_ops \<Rightarrow> stmt \<Rightarrow> ('s, result_set) pm" where
  \<comment> \<open>the size estimate of the \<open>dbstat\<close> table\<close>
  "execute_constant ops stmt =
     bindS (tryS (op_read_hdr ops HDbSize) 0) (\<lambda>page_count.
     let col_name = (case stmt of
           SelectS s \<Rightarrow> (if agg_column s = [] then pystr_of ''pgsize'' else agg_column s)
         | _ \<Rightarrow> pystr_of ''pgsize'') in
     retS ([[(col_name, PInt (int (page_count * PAGE_SIZE)))]], [col_name]))"

definition stmt_table :: "stmt \<Rightarrow> pystr" where
  "stmt_table stmt =
     (case stmt of SelectS s \<Rightarrow> s_table s | InsertS s \<Rightarrow> i_table s | UpdateS s \<Rightarrow> u_table s | DeleteS s \<Rightarrow> d_table s | DDLS k raw \<Rightarrow> [])"

definition execute ::
  "pylib \<Rightarrow> 's driver \<Rightarrow> nat \<Rightarrow> plan \<Rightarrow> (pystr \<Rightarrow> nat option) \<Rightarrow> catalog \<Rightarrow> id_index \<Rightarrow> ('s, result_set) pm" where
  "execute lib dr fuel plan root_map cat id_index =
     (if pl_scan_type plan = ConstantScan then execute_constant (dr_ops dr) (pl_stmt plan)
      else case pl_stmt plan of
        DDLS k raw \<Rightarrow> retS ([], [])
      | stmt \<Rightarrow>
        (case root_map (stmt_table stmt) of
           None \<Rightarrow> raiseS ValueError
         | Some root \<Rightarrow>
           (case stmt of
              SelectS s \<Rightarrow> execute_select lib (dr_ops dr) fuel s (pl_params plan) (pl_named_params plan) root cat id_index
            | InsertS s \<Rightarrow> execute_insert lib dr fuel s (pl_params plan) root cat
            | UpdateS s \<Rightarrow> execute_update lib dr fuel s (pl_params plan) (pl_named_params plan) root cat id_index
            | DeleteS s \<Rightarrow> execute_delete lib dr fuel s (pl_params plan) (pl_named_params plan) root cat
            | DDLS k raw \<Rightarrow> retS ([], []))))"

end
