(* ===== verification/TreeGrow.thy ===== *)
theory TreeGrow
  imports TreeScan
begin

text \<open>
  Growth of the interior of a tree: the split of an interior node into several trees, the new root
  page, and the carrying of a run of new children up the path (\<open>split.py\<close>) on a stored tree.
\<close>

section \<open>How many pieces a split gives\<close>

definition icost :: "int list \<Rightarrow> nat" where
  \<comment> \<open>the bytes of these separators in an interior page\<close>
  "icost ks = sum_list (map (\<lambda>k. 6 + length (encode_varint k)) ks)"

lemma icost_simps [simp]:
  "icost [] = 0" "icost (k # ks) = 6 + length (encode_varint k) + icost ks" "icost (xs @ ys) = icost xs + icost ys"
  by (simp_all add: icost_def)

lemma interior_fits_icost: "interior_fits ks \<longleftrightarrow> icost ks \<le> 8180"
proof -
  have "interior_footprint ks = 12 + icost ks"
    by (induction ks) (simp_all add: interior_footprint_def INTERIOR_HEADER_SIZE_def)
  then show ?thesis by (simp add: interior_fits_def PAGE_SIZE_def)
qed

lemma icost_bound: "icost ks \<le> 16 * length ks"
proof (induction ks)
  case (Cons k ks)
  then show ?case using length_encode_varint_bounds [of k] by simp
qed simp

lemma nway_interior_count:
  "nway_interior_loop cur_keys cur_children kcs = (nodes, ups) \<Longrightarrow>
   8181 * length ups \<le> icost cur_keys + icost (map fst kcs)"
proof (induction cur_keys cur_children kcs arbitrary: nodes ups rule: nway_interior_loop.induct)
  case (2 cur_keys cur_children key next_child rest)
  show ?case
  proof (cases "cur_keys \<noteq> [] \<and> \<not> interior_fits (cur_keys @ [key])")
    case True
    obtain ns us where r: "nway_interior_loop [] [next_child] rest = (ns, us)" by fastforce
    have "8181 * length us \<le> icost (map fst rest)" using "2.IH"(1) [OF True r] by simp
    moreover have "8180 < icost (cur_keys @ [key])" using True by (simp add: interior_fits_icost)
    moreover have "ups = key # us" using "2.prems" True r by simp
    ultimately show ?thesis by simp
  next
    case False
    then show ?thesis using "2.IH"(2) [OF False] "2.prems" by auto
  qed
qed simp

fun wide :: "nat list \<Rightarrow> bool" where
  \<comment> \<open>no two neighbours would fit one page\<close>
  "wide (x # y # zs) \<longleftrightarrow> 8180 < x + y \<and> wide (y # zs)"
| "wide xs \<longleftrightarrow> True"

lemma wide_snoc:
  "wide (xs @ [a]) \<Longrightarrow> a \<le> b \<Longrightarrow> wide (xs @ [b])"
  "wide (xs @ [a]) \<Longrightarrow> 8180 < a + b \<Longrightarrow> wide (xs @ [a, b])"
  by (induction xs rule: wide.induct) auto

lemma wide_count: "wide xs \<Longrightarrow> 8181 * (length xs div 2) \<le> sum_list xs"
proof (induction xs rule: induct_list012)
  case (3 x y zs)
  then show ?case by (cases zs) auto
qed simp_all

definition lcost :: "(int \<times> bytes) list \<Rightarrow> nat" where
  "lcost g = merged_leaf_footprint g - 12"

lemma lcost_append [simp]: "lcost (xs @ ys) = lcost xs + lcost ys"
  using merged_leaf_footprint_append [of xs ys]
  by (simp add: lcost_def merged_leaf_footprint_def LEAF_PTR_ARRAY_START_val)

lemma lcost_fits: "merged_leaf_footprint g \<le> PAGE_SIZE \<longleftrightarrow> lcost g \<le> 8180"
  by (simp add: lcost_def PAGE_SIZE_def merged_leaf_footprint_def LEAF_PTR_ARRAY_START_val)

lemma nway_leaf_loop_wide:
  "wide (map lcost (groups @ [current])) \<Longrightarrow> current = [] \<longrightarrow> groups = [] \<Longrightarrow>
   wide (map lcost (nway_leaf_loop groups current kvs))"
proof (induction groups current kvs rule: nway_leaf_loop.induct)
  case (2 groups current cell rest)
  show ?case
  proof (cases "current \<noteq> [] \<and> PAGE_SIZE < merged_leaf_footprint (current @ [cell])")
    case True
    then have "8180 < lcost current + lcost [cell]" using lcost_fits [of "current @ [cell]"] by simp
    then have "wide (map lcost ((groups @ [current]) @ [[cell]]))"
      using wide_snoc(2) [of "map lcost groups" "lcost current" "lcost [cell]"] "2.prems"(1) by simp
    with "2.IH"(1) [OF True] True show ?thesis by simp
  next
    case False
    have "wide (map lcost (groups @ [current @ [cell]]))"
      using wide_snoc(1) [of "map lcost groups" "lcost current" "lcost (current @ [cell])"] "2.prems"(1) by simp
    with "2.IH"(2) [OF False] False show ?thesis by auto
  qed
qed (auto split: if_splits)

lemma leaf_groups_count:
  assumes "merged_leaf_footprint (xs @ ys) \<le> PAGE_SIZE"
  shows "length (nway_leaf_loop [] [] (xs @ kv # ys)) \<le> 3"
proof -
  let ?gs = "nway_leaf_loop [] [] (xs @ kv # ys)"
  have "sum_list (map lcost gs) = lcost (concat gs)" for gs
    by (induction gs) (simp_all, simp add: lcost_def)
  then have "sum_list (map lcost ?gs) = lcost (concat ?gs)" .
  moreover have "lcost (concat ?gs) = lcost (xs @ ys) + lcost [kv]"
    using lcost_append [of "[kv]" ys] by (simp add: nway_leaf_loop_concat)
  moreover have "lcost (xs @ ys) \<le> 8180" "lcost [kv] \<le> 8180"
    using assms single_cell_fits [of kv] unfolding lcost_fits .
  moreover have "8181 * (length ?gs div 2) \<le> sum_list (map lcost ?gs)"
    using wide_count [OF nway_leaf_loop_wide [of "[]" "[]" "xs @ kv # ys"]] by simp
  ultimately have "length ?gs div 2 \<le> 1" by linarith
  then show ?thesis by linarith
qed

section \<open>Pages a tree depends on\<close>

lemma leaf_at_cong:
  "\<forall>p \<in> set (all_pages cs). pg' p = pg p \<Longrightarrow> leaf_at pg' page cs sib = leaf_at pg page cs sib"
  using cell_ok_cong [of _ pg' pg] by (auto simp: leaf_at_def set_all_pages)

lemma stored_cong: "\<forall>p \<in> set (tree_pages t). pg' p = pg p \<Longrightarrow> stored pg' t = stored pg t"
proof (induction t)
  case (BLeaf p cs)
  then have "leaf_at pg' (pg' p) cs = leaf_at pg (pg p) cs"
    using leaf_at_cong [of cs pg' pg] by (intro ext) simp
  then show ?case by simp
next
  case (BNode p ks ts)
  then have "\<forall>t \<in> set ts. stored pg' t = stored pg t" by auto
  then show ?case using BNode.prems by auto
qed

lemma frames_stored_cong:
  "\<forall>p \<in> set (frames_pages fs). pg' p = pg p \<Longrightarrow> frames_stored pg' c fs = frames_stored pg c fs"
proof (induction fs arbitrary: c rule: node_pages.induct)
  case (2 p kl ls kr rs fs)
  have "stored pg' t = stored pg t" if "t \<in> set ls \<union> set rs" for t
    using that "2.prems" by (intro stored_cong) auto
  then show ?case using 2 by auto
qed simp

section \<open>Trees over a run of nodes\<close>

lemma ord_list_split:
  "length ts = length ks + 1 \<Longrightarrow>
   ord_list lo (ks @ u # ks') (ts @ us) hi \<longleftrightarrow> ord_list lo ks ts (Some u) \<and> ord_list (Some u) ks' us hi"
proof (induction ks arbitrary: lo ts)
  case Nil
  then obtain t where "ts = [t]" by (cases ts) auto
  then show ?case by auto
next
  case (Cons k ks)
  then obtain t us' where "ts = t # us'" by (cases ts) auto
  then show ?case using Cons by auto
qed

fun node_trees :: "nat list \<Rightarrow> inode list \<Rightarrow> btree list \<Rightarrow> btree list" where
  \<comment> \<open>the nodes on these pages, with the trees dealt out to them in order\<close>
  "node_trees (p # ps) ((ks, cs) # ns) ts = BNode p ks (take (length cs) ts) # node_trees ps ns (drop (length cs) ts)"
| "node_trees ps ns ts = []"

lemma node_trees_content:
  assumes "length ps = length ns" and "concat (map snd ns) = map tpage ts"
  shows "map tpage (node_trees ps ns ts) = ps \<and>
    concat (map cells (node_trees ps ns ts)) = concat (map cells ts) \<and>
    concat (map leaves (node_trees ps ns ts)) = concat (map leaves ts) \<and>
    mset (concat (map tree_pages (node_trees ps ns ts))) = mset ps + mset (concat (map tree_pages ts)) \<and>
    ((\<forall>t \<in> set ts. bal e t) \<longrightarrow> (\<forall>u \<in> set (node_trees ps ns ts). bal (Suc e) u)) \<and>
    ((\<forall>t \<in> set ts. stored pg t) \<and> (\<forall>(p, ks, cs) \<in> set (zip ps ns). interior_page (pg p) ks cs \<and> interior_fits ks \<and>
           (\<forall>k \<in> set ks. key_ok k)) \<longrightarrow> (\<forall>u \<in> set (node_trees ps ns ts). stored pg u))"
  using assms
proof (induction ps ns ts rule: node_trees.induct)
  case (1 p ps ks cs ns ts)
  have len: "length cs \<le> length ts" using arg_cong [OF "1.prems"(2), of length] by simp
  have h: "length ps = length ns" "concat (map snd ns) = map tpage (drop (length cs) ts)" "cs = map tpage (take (length cs) ts)"
    using "1.prems"(1) arg_cong [OF "1.prems"(2), of "drop (length cs)"] arg_cong [OF "1.prems"(2), of "take (length cs)"]
    by (simp_all add: drop_map take_map)
  note IH = "1.IH" [OF h(1,2)]
  have app: "concat (map f ts) = concat (map f (take (length cs) ts)) @ concat (map f (drop (length cs) ts))"
    for f :: "btree \<Rightarrow> 'x list"
    by (metis append_take_drop_id concat_append map_append)
  have mem: "t \<in> set ts" if "t \<in> set (take (length cs) ts) \<or> t \<in> set (drop (length cs) ts)" for t
    using that in_set_takeD in_set_dropD by fast
  show ?case
  proof (intro conjI)
    show "map tpage (node_trees (p # ps) ((ks, cs) # ns) ts) = p # ps"
      "concat (map cells (node_trees (p # ps) ((ks, cs) # ns) ts)) = concat (map cells ts)"
      "concat (map leaves (node_trees (p # ps) ((ks, cs) # ns) ts)) = concat (map leaves ts)"
      using IH app [of cells] app [of leaves] by simp_all
    show "mset (concat (map tree_pages (node_trees (p # ps) ((ks, cs) # ns) ts))) =
        mset (p # ps) + mset (concat (map tree_pages ts))"
      using IH app [of tree_pages] by (simp add: ac_simps)
    show "(\<forall>t \<in> set ts. bal e t) \<longrightarrow> (\<forall>u \<in> set (node_trees (p # ps) ((ks, cs) # ns) ts). bal (Suc e) u)"
      using IH mem by auto
    show "(\<forall>t \<in> set ts. stored pg t) \<and> (\<forall>(p, ks, cs) \<in> set (zip (p # ps) ((ks, cs) # ns)). interior_page (pg p) ks cs \<and>
           interior_fits ks \<and> (\<forall>k \<in> set ks. key_ok k)) \<longrightarrow>
         (\<forall>u \<in> set (node_trees (p # ps) ((ks, cs) # ns) ts). stored pg u)"
      using IH mem h(3) by auto
  qed
qed simp_all

lemma node_trees_ordered:
  assumes "length ps = length ns" and "length ns = length ups + 1" and "concat (map snd ns) = map tpage ts"
    and "\<forall>(ks, cs) \<in> set ns. length cs = length ks + 1" and "ord_list lo (joined_keys ns ups) ts hi"
  shows "ord_list lo ups (node_trees ps ns ts) hi"
  using assms
proof (induction ps ns ts arbitrary: lo ups rule: node_trees.induct)
  case (1 p ps ks cs ns ts)
  have len: "length cs = length ks + 1" "length cs \<le> length ts"
    using "1.prems"(4) arg_cong [OF "1.prems"(3), of length] by auto
  show ?case
  proof (cases ups)
    case Nil
    then have "ns = []" "ps = []" using "1.prems"(1,2) by auto
    moreover have "length ts = length cs" using arg_cong [OF "1.prems"(3), of length] \<open>ns = []\<close> by simp
    ultimately show ?thesis using "1.prems"(5) Nil ord_list_lt by (auto simp: joined_keys_def)
  next
    case (Cons u ups')
    then obtain n ns' where ns: "ns = n # ns'" using "1.prems"(2) by (cases ns) auto
    have j: "joined_keys ((ks, cs) # ns) ups = ks @ u # joined_keys ns ups'"
      by (simp add: joined_keys_def Cons ns)
    have "ord_list lo (ks @ u # joined_keys ns ups') (take (length cs) ts @ drop (length cs) ts) hi"
      using "1.prems"(5) j by (simp only: append_take_drop_id)
    moreover have "length (take (length cs) ts) = length ks + 1" using len by simp
    ultimately have o: "ord_list lo ks (take (length cs) ts) (Some u)" "ord_list (Some u) (joined_keys ns ups') (drop (length cs) ts) hi"
      using ord_list_split [of "take (length cs) ts" ks] by blast+
    have "concat (map snd ns) = map tpage (drop (length cs) ts)"
      using arg_cong [OF "1.prems"(3), of "drop (length cs)"] by (simp add: drop_map)
    then have "ord_list (Some u) ups' (node_trees ps ns (drop (length cs) ts)) hi"
      using "1.prems" Cons o(2) by (intro "1.IH") auto
    then show ?thesis using o(1) ord_list_lt [OF o(1)] Cons by auto
  qed
qed simp_all

section \<open>Writing interior nodes\<close>

lemma interior_cells_cost:
  "length ks \<le> length cs \<Longrightarrow> 2 * length ks + cells_size (interior_cells ks cs) = icost ks"
proof (induction ks arbitrary: cs)
  case (Cons k ks)
  then obtain c cs' where "cs = c # cs'" by (cases cs) auto
  then show ?case using Cons by (simp add: interior_cells_def)
qed (simp add: interior_cells_def)

lemma interior_node_written:
  assumes "length cs = length ks + 1" and "interior_fits ks" and "\<forall>k \<in> set ks. key_ok k" and "\<forall>c \<in> set cs. c < 2 ^ 32"
  shows "\<exists>pg. write_interior_node (replicate PAGE_SIZE 0) ks cs = Inr pg \<and> interior_page pg ks cs \<and> length pg = PAGE_SIZE"
proof -
  have "INTERIOR_PTR_ARRAY_START + 2 * length ks + cells_size (interior_cells ks cs) \<le> PAGE_SIZE"
    using interior_cells_cost [of ks cs] assms(1,2)
    by (simp add: interior_fits_icost PAGE_SIZE_def INTERIOR_PTR_ARRAY_START_def INTERIOR_HEADER_SIZE_def)
  from write_interior_node_ok [OF _ assms(1) this assms(3,4), of "replicate PAGE_SIZE 0"]
  show ?thesis by (auto simp: interior_page_def)
qed

lemma write_node_run:
  assumes "space st L" and "p \<in> L" and "length cs = length ks + 1" and "interior_fits ks"
    and "\<forall>k \<in> set ks. key_ok k" and "\<forall>c \<in> set cs. c < 2 ^ 32"
  obtains pg where "write_interior_node (replicate PAGE_SIZE 0) ks cs = Inr pg"
    "store_write p pg st = (Inr (), set_page p pg st)" "interior_page pg ks cs"
    "eff L (L - {p}) 0 st (set_page p pg st)"
  using interior_node_written [OF assms(3-6)] eff_write [OF assms(1,2)] by (auto intro: that)

lemma stored_length: "stored pg t \<Longrightarrow> length (pg (tpage t)) = PAGE_SIZE"
  by (cases t) (auto simp: interior_page_def dest: leaf_at_parts(1))

fun retag :: "nat \<Rightarrow> btree \<Rightarrow> btree" where
  "retag r (BLeaf p cs) = BLeaf r cs"
| "retag r (BNode p ks ts) = BNode r ks ts"

lemma retag_simps [simp]:
  "cells (retag r t) = cells t" "tpage (retag r t) = r" "bal d (retag r t) = bal d t"
  "ordered lo hi (retag r t) = ordered lo hi t" "tree_pages (retag r t) = r # tl (tree_pages t)"
  by (cases t; simp)+

lemma stored_retag:
  "stored pg t \<Longrightarrow> pg' r = pg (tpage t) \<Longrightarrow> \<forall>q \<in> set (tl (tree_pages t)). pg' q = pg q \<Longrightarrow> stored pg' (retag r t)"
proof (cases t)
  case (BLeaf p cs)
  moreover assume "stored pg t" "pg' r = pg (tpage t)" "\<forall>q \<in> set (tl (tree_pages t)). pg' q = pg q"
  ultimately show ?thesis using leaf_at_cong [of cs pg' pg] by auto
next
  case (BNode p ks ts)
  assume h: "stored pg t" "pg' r = pg (tpage t)" "\<forall>q \<in> set (tl (tree_pages t)). pg' q = pg q"
  have "stored pg' u = stored pg u" if "u \<in> set ts" for u
    using that h(3) BNode by (intro stored_cong) auto
  then show ?thesis using h BNode by auto
qed

lemma ord_list_retag: "ord_list lo ks (retag r u # us) hi = ord_list lo ks (u # us) hi"
  by (cases ks) auto

lemma small_pages:
  assumes "space st L" and "set (concat (map tree_pages ts)) \<subseteq> L"
  shows "\<forall>c \<in> set (map tpage ts). c < 2 ^ 32"
proof
  fix c assume "c \<in> set (map tpage ts)"
  then obtain t where "t \<in> set ts" "c = tpage t" by auto
  then have "c \<in> L" using assms(2) tpage_in_pages [of t] by auto
  then show "c < 2 ^ 32" by (rule space_page(4) [OF assms(1)])
qed

lemma root_run:
  assumes sp: "space st L" and st: "\<forall>u \<in> set (u0 # us). stored (st_pages st) u"
    and o: "ord_list None ups (u0 # us) None" and n: "length ups \<le> 511" and k: "\<forall>k \<in> set ups. key_ok k"
    and d: "distinct (concat (map tree_pages (u0 # us)))" and sub: "set (concat (map tree_pages (u0 # us))) \<subseteq> L"
    and rm: "room 1 st"
  obtains r st' where "root_from_children store_ops jr (map tpage (u0 # us)) ups st = (Inr (), st')"
    "r \<notin> L" "stored (st_pages st') (BNode (tpage u0) ups (retag r u0 # us))" "st_pages st' r = st_pages st (tpage u0)"
    "eff (insert r L) (L - {tpage u0}) 1 st st'"
proof -
  let ?p = "tpage u0"
  obtain r st1 where r: "alloc_page store_ops jr st = (Inr r, st1)" "r \<notin> L" "1 < r" "r < 2 ^ 32"
    "eff (insert r L) L 1 st st1"
    by (rule eff_alloc [OF sp rm, of jr])
  note sp1 = eff_space [OF r(5)]
  have p: "?p \<in> L" using sub tpage_in_pages [of u0] by auto
  have data: "st_pages st1 ?p = st_pages st ?p" "length (st_pages st ?p) = PAGE_SIZE"
    using eff_page [OF r(5) p] st stored_length by auto
  let ?st2 = "set_page r (st_pages st ?p) st1"
  note w2 = eff_write [OF sp1 insertI1 data(2)]
  have lens: "length (r # map tpage us) = length ups + 1" using ord_list_length [OF o] by simp
  have fits: "interior_fits ups" using icost_bound [of ups] n by (simp add: interior_fits_icost)
  have "set (concat (map tree_pages us)) \<subseteq> L" using sub by simp
  then have small: "\<forall>c \<in> set (r # map tpage us). c < 2 ^ 32"
    using r(4) small_pages [OF sp] by simp
  have p': "?p \<in> insert r L" using p by simp
  obtain pg where pg: "write_interior_node (replicate PAGE_SIZE 0) ups (r # map tpage us) = Inr pg"
    "store_write ?p pg ?st2 = (Inr (), set_page ?p pg ?st2)" "interior_page pg ups (r # map tpage us)"
    "eff (insert r L) (insert r L - {?p}) 0 ?st2 (set_page ?p pg ?st2)"
    by (rule write_node_run [OF eff_space [OF w2(2)] p' lens fits k small])
  have "?p \<noteq> 0" using space_page(2) [OF sp p] .
  have ne: "r \<noteq> ?p" using r(2) p by auto
  let ?st3 = "set_page ?p pg ?st2"
  have e2: "eff (insert r L) (L - {?p}) 0 st1 ?st3"
    by (rule eff_trans [OF w2(2) pg(4)]) (use r(2) in auto)
  have e: "eff (insert r L) (L - {?p}) 1 st ?st3"
    by (rule eff_trans [OF r(5) e2]) auto
  have same: "st_pages ?st3 q = st_pages st q" if "q \<in> L - {?p}" for q
    using eff_page [OF e that] .
  have split: "tree_pages u0 = ?p # tl (tree_pages u0)" by (cases u0) auto
  define R where "R = tl (tree_pages u0)"
  have pages: "concat (map tree_pages (u0 # us)) = ?p # R @ concat (map tree_pages us)"
    using arg_cong [OF split, of "\<lambda>xs. xs @ concat (map tree_pages us)"] by (simp add: R_def)
  have tl: "set (tl (tree_pages u0)) \<subseteq> L - {?p}"
    using d sub unfolding pages R_def [symmetric] by auto
  have others: "\<forall>u \<in> set us. set (tree_pages u) \<subseteq> L - {?p}"
    using d sub unfolding pages by auto
  have "stored (st_pages ?st3) (retag r u0)"
  proof (rule stored_retag [of "st_pages st"])
    show "stored (st_pages st) u0" using st by simp
    show "st_pages ?st3 r = st_pages st ?p" using ne by simp
    show "\<forall>q \<in> set (tl (tree_pages u0)). st_pages ?st3 q = st_pages st q" using tl same by blast
  qed
  moreover have "\<forall>u \<in> set us. stored (st_pages ?st3) u"
  proof
    fix u assume u: "u \<in> set us"
    then have "stored (st_pages ?st3) u = stored (st_pages st) u" using others same by (intro stored_cong) blast
    then show "stored (st_pages ?st3) u" using st u by simp
  qed
  ultimately have "stored (st_pages ?st3) (BNode ?p ups (retag r u0 # us))"
    using pg(3) fits k by auto
  moreover have "st_pages ?st3 r = st_pages st ?p" using ne by simp
  moreover have "root_from_children store_ops jr (map tpage (u0 # us)) ups st = (Inr (), ?st3)"
    using r(1) data w2(1) pg(1,2) \<open>?p \<noteq> 0\<close> by (simp add: root_from_children_def bindS_def store_run Let_def)
  ultimately show thesis using r(2) e by (intro that)
qed

end
