(* ===== verification/TreeAscend.thy ===== *)
theory TreeAscend
  imports TreeGrow
begin

text \<open>
  The ascent of a split: the split of one interior node on the pages, and
  \<open>insert_run_into_interior\<close>, which puts a run of new children beside an old one and goes up while
  nodes overflow. \<open>grown\<close> is its specification: the tree that results holds the old context around
  the new subtrees, in the pages of the old tree and the newly allocated ones, and nothing else changed.
\<close>

lemma write_nodes_run:
  assumes "space st L" and "distinct (map fst pns)"
    and "\<forall>(p, ks, cs) \<in> set pns. p \<in> L \<and> length cs = length ks + 1 \<and> interior_fits ks \<and>
      (\<forall>k \<in> set ks. key_ok k) \<and> (\<forall>c \<in> set cs. c < 2 ^ 32)"
  shows "\<exists>st'. write_nodes store_ops pns st = (Inr (), st') \<and>
    (\<forall>(p, ks, cs) \<in> set pns. interior_page (st_pages st' p) ks cs) \<and> eff L (L - set (map fst pns)) 0 st st'"
  using assms
proof (induction pns arbitrary: st)
  case Nil
  then show ?case by (simp add: write_nodes_def eff_refl)
next
  case (Cons pn pns)
  obtain p ks cs where pn: "pn = (p, ks, cs)" by (cases pn)
  have h: "p \<in> L" "length cs = length ks + 1" "interior_fits ks" "\<forall>k \<in> set ks. key_ok k" "\<forall>c \<in> set cs. c < 2 ^ 32"
    using Cons.prems(3) by (simp_all add: pn)
  obtain pg where pg: "write_interior_node (replicate PAGE_SIZE 0) ks cs = Inr pg"
    "store_write p pg st = (Inr (), set_page p pg st)" "interior_page pg ks cs"
    "eff L (L - {p}) 0 st (set_page p pg st)"
    by (rule write_node_run [OF Cons.prems(1) h])
  obtain st' where st': "write_nodes store_ops pns (set_page p pg st) = (Inr (), st')"
    "\<forall>(p, ks, cs) \<in> set pns. interior_page (st_pages st' p) ks cs"
    "eff L (L - set (map fst pns)) 0 (set_page p pg st) st'"
    using Cons.IH [OF eff_space [OF pg(4)]] Cons.prems(2,3) by auto
  have "st_pages st' p = pg"
    using eff_page [OF st'(3), of p] h(1) Cons.prems(2) by (simp add: pn)
  moreover have "eff L (L - set (map fst (pn # pns))) 0 st st'"
    by (rule eff_trans [OF pg(4) st'(3)]) (auto simp: pn)
  ultimately show ?case
    using pg st'(1,2) by (intro exI [of _ st']) (simp add: write_nodes_def pn bindS_def)
qed

lemma joined_keys_pair: "joined_keys [n0, n1] [u] = fst n0 @ u # fst n1"
  by (simp add: joined_keys_def)

lemma split_in_two:
  assumes lens: "length cs = length ks + 1" and cost: "icost ks < 16362"
    and r: "balanced_nway_interior_split ks cs = Inr (nodes, ups)"
  shows "interior_partition nodes ups ks cs" and
    "nodes = [(ks, cs)] \<and> ups = [] \<and> interior_fits ks \<or> (\<exists>n0 n1 u. nodes = [n0, n1] \<and> ups = [u])"
proof -
  obtain c cs' where c: "cs = c # cs'" "length cs' = length ks" using lens by (cases cs) auto
  have loop: "nway_interior_loop [] [c] (zip ks cs') = (nodes, ups)"
    using r c by (simp add: balanced_nway_interior_split_def)
  then show p: "interior_partition nodes ups ks cs"
    using nway_interior_loop_partition [of "[c]" "[]" "zip ks cs'"] c by (simp add: interior_fits_small)
  have "8181 * length ups \<le> icost ks" using nway_interior_count [OF loop] c by simp
  then have "length ups \<le> 1" using cost by linarith
  moreover have "length nodes = length ups + 1" using p by (simp add: interior_partition_def)
  ultimately consider n where "nodes = [n]" "ups = []" | n0 n1 u where "nodes = [n0, n1]" "ups = [u]"
    by (cases ups; cases nodes; auto simp: length_Suc_conv)
  then show "nodes = [(ks, cs)] \<and> ups = [] \<and> interior_fits ks \<or> (\<exists>n0 n1 u. nodes = [n0, n1] \<and> ups = [u])"
  proof cases
    case 1
    then show ?thesis using p by (cases n) (auto simp: interior_partition_def joined_keys_def)
  qed blast
qed

lemma interior_split_run:
  assumes sp: "space st L" and p: "p \<in> L" and lens: "length cs = length ks + 1" and k: "\<forall>k \<in> set ks. key_ok k"
    and c: "\<forall>c \<in> set cs. c < 2 ^ 32" and srt: "sorted_wrt (<) ks" and cost: "icost ks < 16362" and rm: "room 1 st"
  shows "(\<exists>st'. interior_split store_ops jr p ks cs st = (Inr None, st') \<and> interior_fits ks \<and>
      interior_page (st_pages st' p) ks cs \<and> eff L (L - {p}) 0 st st') \<or>
    (\<exists>n0 n1 u q st'. interior_split store_ops jr p ks cs st = (Inr (Some ([p, q], [u])), st') \<and>
      interior_partition [n0, n1] [u] ks cs \<and> q \<notin> L \<and>
      (\<forall>(p, ks, cs) \<in> set (zip [p, q] [n0, n1]). interior_page (st_pages st' p) ks cs) \<and>
      eff (insert q L) (L - {p}) 1 st st')"
proof -
  obtain nodes ups where r: "balanced_nway_interior_split ks cs = Inr (nodes, ups)"
    using interior_partition_conserves [OF lens] by blast
  note part = split_in_two [OF lens cost r]
  from part(2) show ?thesis
  proof (elim disjE exE conjE)
    assume n: "nodes = [(ks, cs)]" "ups = []" "interior_fits ks"
    obtain pg where pg: "write_interior_node (replicate PAGE_SIZE 0) ks cs = Inr pg"
      "store_write p pg st = (Inr (), set_page p pg st)" "interior_page pg ks cs"
      "eff L (L - {p}) 0 st (set_page p pg st)"
      by (rule write_node_run [OF sp p lens n(3) k c])
    then have "interior_split store_ops jr p ks cs st = (Inr None, set_page p pg st)"
      using r n by (simp add: interior_split_def bindS_def)
    then show ?thesis using pg n(3) by (intro disjI1 exI [of _ "set_page p pg st"]) simp
  next
    fix n0 n1 u assume n: "nodes = [n0, n1]" "ups = [u]"
    obtain k0 c0 k1 c1 where nn: "n0 = (k0, c0)" "n1 = (k1, c1)" by (cases n0, cases n1) auto
    have pt: "interior_partition [n0, n1] [u] ks cs" using part(1) n by simp
    then have parts: "length c0 = length k0 + 1" "interior_fits k0" "length c1 = length k1 + 1" "interior_fits k1"
      "c0 @ c1 = cs" "k0 @ u # k1 = ks"
      by (auto simp: interior_partition_def nn joined_keys_pair)
    then have sets: "set k0 \<subseteq> set ks" "set k1 \<subseteq> set ks" "set c0 \<subseteq> set cs" "set c1 \<subseteq> set cs" by auto
    obtain q st1 where q: "alloc_page store_ops jr st = (Inr q, st1)" "q \<notin> L" "1 < q" "q < 2 ^ 32"
      "eff (insert q L) L 1 st st1"
      by (rule eff_alloc [OF sp rm, of jr])
    let ?pns = "zip [p, q] [n0, n1]"
    have ne: "p \<noteq> q" using p q(2) by auto
    obtain st' where st': "write_nodes store_ops ?pns st1 = (Inr (), st')"
      "\<forall>(p, ks, cs) \<in> set ?pns. interior_page (st_pages st' p) ks cs"
      "eff (insert q L) (insert q L - set (map fst ?pns)) 0 st1 st'"
      using write_nodes_run [OF eff_space [OF q(5)], of ?pns] ne parts sets k c p by (auto simp: nn)
    have "u \<notin> set k0" "u \<notin> set k1" using srt parts(6) by (auto simp: sorted_wrt_append)
    then have "push_up_absent nodes ups" by (simp add: push_up_absent_def n nn)
    moreover have "sum_list (map (\<lambda>(keys, _). length keys) nodes) + length ups = length ks"
      using parts(6) [symmetric] by (simp add: n nn)
    ultimately have "interior_split store_ops jr p ks cs st = (Inr (Some ([p, q], [u])), st')"
      using r q(1) st'(1) by (simp add: interior_split_def bindS_def n assertR_def)
    moreover have "eff (insert q L) (L - {p}) 1 st st'"
      by (rule eff_trans [OF q(5) st'(3)]) (use q(2) in auto)
    ultimately show ?thesis using pt q(2) st'(2) by blast
  qed
qed

section \<open>The ascent\<close>

definition touched :: "frame list \<Rightarrow> nat \<Rightarrow> nat set" where
  \<comment> \<open>the pages an ascent from page \<open>c\<close> writes: the nodes above it, or \<open>c\<close> itself when it is the root\<close>
  "touched fs c = (if fs = [] then {c} else set (node_pages fs))"

definition grown :: "store \<Rightarrow> nat set \<Rightarrow> nat \<Rightarrow> frame list \<Rightarrow> btree list \<Rightarrow> store \<Rightarrow> btree \<Rightarrow> bool" where
  \<comment> \<open>\<open>t'\<close> is the frames with the trees \<open>ts\<close> of height \<open>e\<close> in the hole, after some growth at the top\<close>
  "grown st L e fs ts st' t' \<longleftrightarrow>
     (\<exists>E. stored (st_pages st') t' \<and> ordered None None t' \<and> (bal (length fs + e) t' \<or> bal (length fs + e + 1) t') \<and>
        tpage t' = root_page (tpage (hd ts)) fs \<and>
        cells t' = ctx_left cells fs @ concat (map cells ts) @ ctx_right cells fs \<and>
        leaves t' = ctx_left leaves fs @ concat (map leaves ts) @ ctx_right leaves fs \<and>
        mset (tree_pages t') = mset (concat (map tree_pages ts)) + mset (frames_pages fs) + mset E \<and>
        distinct E \<and> set E \<inter> L = {} \<and> eff (L \<union> set E) (L - touched fs (tpage (hd ts))) (length fs + 1) st st')"

lemma frame_keys_sorted: "ord_list lo ks ts hi \<Longrightarrow> sorted_wrt (<) ks"
  using ord_list_keys by blast

lemma node_pages_sub: "set (node_pages fs) \<subseteq> set (frames_pages fs)"
  by (induction fs rule: node_pages.induct) auto

lemma list_index_first: "x \<notin> set xs \<Longrightarrow> list_index x (xs @ x # ys) = Inr (length xs)"
  by (induction xs) auto

lemma distinct_of_mset: "mset xs = mset ys \<Longrightarrow> distinct ys \<Longrightarrow> distinct xs \<and> set xs = set ys"
  by (metis mset_eq_imp_distinct_iff mset_eq_setD)

definition ready :: "store \<Rightarrow> nat set \<Rightarrow> nat \<Rightarrow> frame list \<Rightarrow> btree list \<Rightarrow> int list \<Rightarrow> bool" where
  \<comment> \<open>the trees \<open>ts\<close> of height \<open>e\<close>, separated by \<open>seps\<close>, may go into the hole of the stored frames, whose
     page there is that of the first of them\<close>
  "ready st L e fs ts seps \<longleftrightarrow>
     space st L \<and> frames_stored (st_pages st) (tpage (hd ts)) fs \<and> (\<forall>t \<in> set ts. stored (st_pages st) t \<and> bal e t) \<and>
     frames_ord None None fs \<and> frames_bal e fs \<and> (case bnd None None fs of (l, h) \<Rightarrow> ord_list l seps ts h) \<and>
     (\<forall>k \<in> set seps. key_ok k) \<and> length seps \<le> 511 \<and> distinct (concat (map tree_pages ts) @ frames_pages fs) \<and>
     set (concat (map tree_pages ts) @ frames_pages fs) \<subseteq> L \<and> room (length fs + 1) st"

lemma ready_frame:
  assumes "ready st L e ((p, kl, ls, kr, rs) # fs) (t0 # news) seps" and "bnd None None fs = (l, h)"
  shows "ord_list l (kl @ seps @ kr) (ls @ (t0 # news) @ rs) h"
    and "\<forall>t \<in> set (ls @ (t0 # news) @ rs). stored (st_pages st) t \<and> bal e t"
    and "\<forall>k \<in> set (kl @ seps @ kr). key_ok k"
    and "icost (kl @ seps @ kr) < 16362"
    and "interior_page (st_pages st p) (kl @ kr) (map tpage ls @ tpage t0 # map tpage rs)"
    and "frames_stored (st_pages st) p fs" and "frames_ord None None fs" and "frames_bal (Suc e) fs"
    and "space st L" and "p \<in> L" and "length kl = length ls" and "tpage t0 \<notin> set (map tpage ls)"
proof -
  note d = assms(1) [unfolded ready_def]
  have f: "frames_stored (st_pages st) (tpage t0) ((p, kl, ls, kr, rs) # fs)" using d by simp
  have o: "ord_pre l kl ls" "ord_post kr rs h" "ord_list (lastb l kl) seps (t0 # news) (headb kr h)"
    using d assms(2) by auto
  have lens: "length kl = length ls" "length kr = length rs" "length (t0 # news) = length seps + 1"
    using ord_pre_length [OF o(1)] ord_post_length [OF o(2)] ord_list_length [OF o(3)] .
  have "ord_list (lastb l kl) (seps @ kr) ((t0 # news) @ rs) h"
    using ord_list_post [OF lens(3,2)] o(2,3) by blast
  then show "ord_list l (kl @ seps @ kr) (ls @ (t0 # news) @ rs) h"
    using ord_list_pre [OF lens(1)] o(1) by blast
  show "\<forall>t \<in> set (ls @ (t0 # news) @ rs). stored (st_pages st) t \<and> bal e t" using d by auto
  show "\<forall>k \<in> set (kl @ seps @ kr). key_ok k" using d by auto
  have "icost (kl @ kr) \<le> 8180" using f by (simp add: interior_fits_icost)
  moreover have "icost seps \<le> 16 * 511" using icost_bound [of seps] d by simp
  ultimately show "icost (kl @ seps @ kr) < 16362" by simp
  show "interior_page (st_pages st p) (kl @ kr) (map tpage ls @ tpage t0 # map tpage rs)"
    "frames_stored (st_pages st) p fs" "frames_ord None None fs" "frames_bal (Suc e) fs" "space st L" "p \<in> L"
    using d by auto
  show "length kl = length ls" by (rule lens(1))
  show "tpage t0 \<notin> set (map tpage ls)"
  proof
    assume "tpage t0 \<in> set (map tpage ls)"
    then have "tpage t0 \<in> set (concat (map tree_pages ls))" using tpage_in_pages by fastforce
    moreover have "tpage t0 \<in> set (tree_pages t0)" by (rule tpage_in_pages)
    ultimately show False using d by auto
  qed
qed

lemma ready_kept:
  assumes r: "ready st L e ((p, kl, ls, kr, rs) # fs) (t0 # news) seps" and e: "eff L' (L - {p}) n st st'"
  shows "\<forall>t \<in> set (ls @ (t0 # news) @ rs). stored (st_pages st') t" and "frames_stored (st_pages st') p fs"
proof -
  have pages: "distinct (concat (map tree_pages (t0 # news)) @ frames_pages ((p, kl, ls, kr, rs) # fs))"
    "set (concat (map tree_pages (t0 # news)) @ frames_pages ((p, kl, ls, kr, rs) # fs)) \<subseteq> L"
    using r by (simp_all add: ready_def)
  have same: "st_pages st' q = st_pages st q" if "q \<in> L" "q \<noteq> p" for q
    using eff_page [OF e] that by simp
  obtain l h where b: "bnd None None fs = (l, h)" by fastforce
  show "\<forall>t \<in> set (ls @ (t0 # news) @ rs). stored (st_pages st') t"
  proof
    fix t assume t: "t \<in> set (ls @ (t0 # news) @ rs)"
    then have "\<forall>q \<in> set (tree_pages t). st_pages st' q = st_pages st q"
      using pages by (intro ballI same) auto
    then show "stored (st_pages st') t" using stored_cong ready_frame(2) [OF r b] t by blast
  qed
  have "\<forall>q \<in> set (frames_pages fs). st_pages st' q = st_pages st q"
    using pages by (intro ballI same) auto
  then show "frames_stored (st_pages st') p fs" using frames_stored_cong ready_frame(6) [OF r b] by blast
qed

lemma fill_frames:
  assumes r: "ready st L e ((p, kl, ls, kr, rs) # fs) (t0 # news) seps" and ef: "eff L (L - {p}) 0 st st'"
    and pg: "interior_page (st_pages st' p) (kl @ seps @ kr) (map tpage (ls @ (t0 # news) @ rs))"
    and fits: "interior_fits (kl @ seps @ kr)"
  shows "grown st L e ((p, kl, ls, kr, rs) # fs) (t0 # news) st' (plug fs (BNode p (kl @ seps @ kr) (ls @ (t0 # news) @ rs)))"
proof -
  let ?u = "BNode p (kl @ seps @ kr) (ls @ (t0 # news) @ rs)"
  obtain l h where b: "bnd None None fs = (l, h)" by fastforce
  note rf = ready_frame [OF r b] and kept = ready_kept [OF r ef]
  have st: "stored (st_pages st') (plug fs ?u)"
    unfolding stored_plug using pg fits rf(3) kept by auto
  have "ordered l h ?u" "lt_bound l h" using rf(1) ord_list_lt [OF rf(1)] by simp_all
  then have o: "ordered None None (plug fs ?u)"
    using ordered_plug [of None None fs ?u] rf(7) b by auto
  have "bal (Suc e) ?u" using rf(2) by auto
  then have bl: "bal (length fs + Suc e) (plug fs ?u)" unfolding bal_plug using rf(8) by blast
  have "eff (L \<union> set []) (L - touched ((p, kl, ls, kr, rs) # fs) (tpage t0)) (length ((p, kl, ls, kr, rs) # fs) + 1) st st'"
    using eff_mono [OF ef, of "L - set (node_pages ((p, kl, ls, kr, rs) # fs))"] by (auto simp: touched_def)
  then show ?thesis
    unfolding grown_def using st o bl
    by (intro exI [of _ "[]"]) (simp add: tpage_plug cells_plug leaves_plug tree_pages_plug ac_simps)
qed

lemma split_ready:
  assumes r: "ready st L e ((p, kl, ls, kr, rs) # fs) (t0 # news) seps" and ef: "eff (insert q L) (L - {p}) 1 st st1"
    and q: "q \<notin> L"
    and pt: "interior_partition [n0, n1] [u] (kl @ seps @ kr) (map tpage (ls @ (t0 # news) @ rs))"
    and pgs: "\<forall>(p, ks, cs) \<in> set (zip [p, q] [n0, n1]). interior_page (st_pages st1 p) ks cs"
  defines "us \<equiv> node_trees [p, q] [n0, n1] (ls @ (t0 # news) @ rs)"
  shows "ready st1 (insert q L) (Suc e) fs us [u]" and "map tpage us = [p, q]"
    and "concat (map cells us) = concat (map cells (ls @ (t0 # news) @ rs))"
    and "concat (map leaves us) = concat (map leaves (ls @ (t0 # news) @ rs))"
    and "mset (concat (map tree_pages us)) = {#p, q#} + mset (concat (map tree_pages (ls @ (t0 # news) @ rs)))"
proof -
  let ?T = "ls @ (t0 # news) @ rs"
  obtain l h where b: "bnd None None fs = (l, h)" by fastforce
  note rf = ready_frame [OF r b] and kept = ready_kept [OF r ef]
  note d = r [unfolded ready_def]
  obtain k0 c0 k1 c1 where nn: "n0 = (k0, c0)" "n1 = (k1, c1)" by (cases n0, cases n1) auto
  have parts: "length c0 = length k0 + 1" "interior_fits k0" "length c1 = length k1 + 1" "interior_fits k1"
    "k0 @ u # k1 = kl @ seps @ kr" "concat (map snd [n0, n1]) = map tpage ?T"
    using pt by (auto simp: interior_partition_def nn joined_keys_pair)
  have keys: "\<forall>k \<in> set k0. key_ok k" "\<forall>k \<in> set k1. key_ok k" "key_ok u"
    using rf(3) unfolding parts(5) [symmetric] by auto
  note nt = node_trees_content [OF _ parts(6), of "[p, q]", folded us_def]
  show c: "map tpage us = [p, q]" "concat (map cells us) = concat (map cells ?T)"
    "concat (map leaves us) = concat (map leaves ?T)"
    "mset (concat (map tree_pages us)) = {#p, q#} + mset (concat (map tree_pages ?T))"
    using nt by simp_all
  have st: "\<forall>t \<in> set us. stored (st_pages st1) t" using nt [of e "st_pages st1"] kept(1) pgs parts keys by (auto simp: nn)
  have bl: "\<forall>t \<in> set us. bal (Suc e) t" using nt [of e "st_pages st1"] rf(2) by auto
  have ou: "ord_list l [u] us h"
    unfolding us_def using parts rf(1) by (intro node_trees_ordered) (auto simp: nn joined_keys_pair)
  have hd: "tpage (hd us) = p" using c(1) by (cases us) auto
  define Q where "Q = concat (map tree_pages (t0 # news)) @ frames_pages ((p, kl, ls, kr, rs) # fs)"
  have "distinct Q" "set Q \<subseteq> L" using d unfolding Q_def by blast+
  then have "distinct (q # Q)" using q by auto
  moreover have "mset (concat (map tree_pages us) @ frames_pages fs) = mset (q # Q)"
    using c(4) by (simp add: Q_def ac_simps)
  ultimately have "distinct (concat (map tree_pages us) @ frames_pages fs)"
    "set (concat (map tree_pages us) @ frames_pages fs) \<subseteq> insert q L"
    using distinct_of_mset [of "concat (map tree_pages us) @ frames_pages fs" "q # Q"] \<open>set Q \<subseteq> L\<close> by auto
  moreover have "room (length fs + 1) st1" using d by (intro eff_room [OF ef]) simp
  ultimately show "ready st1 (insert q L) (Suc e) fs us [u]"
    unfolding ready_def b hd using eff_space [OF ef] kept(2) st bl rf(7,8) keys(3) ou by simp
qed

lemma leaves_retag: "bal (Suc e) t \<Longrightarrow> leaves (retag r t) = leaves t"
  by (cases t) auto

lemma root_grown:
  assumes r: "ready st L (Suc e) [] (u0 # us) ups"
  shows "\<exists>st' t'. root_from_children store_ops jr (map tpage (u0 # us)) ups st = (Inr (), st') \<and>
    grown st L (Suc e) [] (u0 # us) st' t'"
proof -
  have h: "space st L" "\<forall>u \<in> set (u0 # us). stored (st_pages st) u" "ord_list None ups (u0 # us) None"
    "length ups \<le> 511" "\<forall>k \<in> set ups. key_ok k" "distinct (concat (map tree_pages (u0 # us)))"
    "set (concat (map tree_pages (u0 # us))) \<subseteq> L" "room 1 st" "\<forall>u \<in> set (u0 # us). bal (Suc e) u"
    using r by (auto simp: ready_def)
  obtain r st' where st': "root_from_children store_ops jr (map tpage (u0 # us)) ups st = (Inr (), st')"
    "r \<notin> L" "stored (st_pages st') (BNode (tpage u0) ups (retag r u0 # us))"
    "st_pages st' r = st_pages st (tpage u0)" "eff (insert r L) (L - {tpage u0}) 1 st st'"
    by (rule root_run [OF h(1-8), of jr])
  let ?t = "BNode (tpage u0) ups (retag r u0 # us)"
  have o: "ordered None None ?t" using h(3) by (simp add: ord_list_retag)
  have p: "tree_pages u0 = tpage u0 # tl (tree_pages u0)" by (cases u0) auto
  have "mset (tree_pages ?t) = mset (concat (map tree_pages (u0 # us))) + mset [r]"
    using arg_cong [OF p, of mset] by (simp add: ac_simps)
  moreover have "bal (Suc (Suc e)) ?t" using h(9) by auto
  moreover have "leaves (retag r u0) = leaves u0" using h(9) by (intro leaves_retag [of e]) auto
  ultimately have "grown st L (Suc e) [] (u0 # us) st' ?t"
    unfolding grown_def using st'(2,3,5) o
    by (intro exI [of _ "[r]"]) (simp add: touched_def)
  then show ?thesis using st'(1) by blast
qed

lemma grown_above:
  assumes g: "grown st1 (insert q L) (Suc e) fs us st' t'" and ef: "eff (insert q L) (L - {p}) 1 st st1" and q: "q \<notin> L"
    and hd: "tpage (hd us) = p"
    and c: "concat (map cells us) = concat (map cells (ls @ ts @ rs))"
      "concat (map leaves us) = concat (map leaves (ls @ ts @ rs))"
      "mset (concat (map tree_pages us)) = {#p, q#} + mset (concat (map tree_pages (ls @ ts @ rs)))"
  shows "grown st L e ((p, kl, ls, kr, rs) # fs) ts st' t'"
proof -
  obtain E where E: "stored (st_pages st') t'" "ordered None None t'" "bal (length fs + Suc e) t' \<or> bal (length fs + Suc e + 1) t'"
    "tpage t' = root_page p fs" "cells t' = ctx_left cells fs @ concat (map cells us) @ ctx_right cells fs"
    "leaves t' = ctx_left leaves fs @ concat (map leaves us) @ ctx_right leaves fs"
    "mset (tree_pages t') = mset (concat (map tree_pages us)) + mset (frames_pages fs) + mset E"
    "distinct E" "set E \<inter> insert q L = {}"
    "eff (insert q L \<union> set E) (insert q L - touched fs p) (length fs + 1) st1 st'"
    using g unfolding grown_def hd by (elim exE conjE) (rule that)
  let ?F = "(p, kl, ls, kr, rs) # fs"
  have "set (node_pages ?F) = insert p (touched fs p)" by (auto simp: touched_def)
  then have "eff (insert q L \<union> set E) (L - set (node_pages ?F)) (length ?F + 1) st st'"
    using q by (intro eff_trans [OF ef E(10)]) auto
  moreover have "insert q L \<union> set E = L \<union> set (q # E)" by auto
  ultimately have "eff (L \<union> set (q # E)) (L - touched ?F (tpage (hd ts))) (length ?F + 1) st st'"
    by (simp add: touched_def)
  moreover have "distinct (q # E)" "set (q # E) \<inter> L = {}" using E(8,9) q by auto
  moreover have "mset (tree_pages t') = mset (concat (map tree_pages ts)) + mset (frames_pages ?F) + mset (q # E)"
    unfolding E(7) c(3) by (simp add: ac_simps)
  moreover have "cells t' = ctx_left cells ?F @ concat (map cells ts) @ ctx_right cells ?F"
    "leaves t' = ctx_left leaves ?F @ concat (map leaves ts) @ ctx_right leaves ?F"
    unfolding E(5,6) c(1,2) by simp_all
  ultimately show ?thesis
    unfolding grown_def using E(1-4) by (intro exI [of _ "q # E"]) simp
qed

definition carry_up :: "nat \<Rightarrow> bool \<Rightarrow> nat \<Rightarrow> path \<Rightarrow> (nat list \<times> int list) option \<Rightarrow> (store, unit) pm" where
  \<comment> \<open>what \<open>insert_run_into_interior\<close> does once its page has been split\<close>
  "carry_up cap jr p stack split = (case split of None \<Rightarrow> retS ()
     | Some (node_page_nos, push_up_keys) \<Rightarrow>
         (case stack of
            [] \<Rightarrow> root_from_children store_ops jr node_page_nos push_up_keys
          | (grandparent_no, _) # rest \<Rightarrow>
              insert_run_into_interior store_ops cap jr rest grandparent_no p (tl node_page_nos) push_up_keys))"

lemma insert_run_unfold:
  assumes "p \<noteq> 0" and "p < 2 ^ 32" and "read_interior_node (st_pages st p) = Inr (ks, cs)" and "list_index c cs = Inr j"
  shows "insert_run_into_interior store_ops cap jr stack p c news seps st =
      (if length (take j ks @ seps @ drop j ks) \<le> cap \<and> interior_fits (take j ks @ seps @ drop j ks) then
         bindS (liftR (write_interior_node (replicate PAGE_SIZE 0) (take j ks @ seps @ drop j ks)
           (take (j + 1) cs @ news @ drop (j + 1) cs))) (store_write p) st
       else bindS (interior_split store_ops jr p (take j ks @ seps @ drop j ks)
           (take (j + 1) cs @ news @ drop (j + 1) cs)) (carry_up cap jr p stack) st)"
  unfolding insert_run_into_interior.simps [of _ _ _ stack] carry_up_def
  using assms by (simp add: bindS_def store_run Let_def)

lemma ascent_step:
  assumes r: "ready st L e ((p, kl, ls, kr, rs) # fs) (t0 # news) seps"
  shows "(\<exists>st' t'. (\<forall>stack. insert_run_into_interior store_ops cap jr stack p (tpage t0) (map tpage news) seps st = (Inr (), st'))
      \<and> grown st L e ((p, kl, ls, kr, rs) # fs) (t0 # news) st' t') \<or>
    (\<exists>st1 q us u. ready st1 (insert q L) (Suc e) fs us [u] \<and> map tpage us = [p, q] \<and>
      (\<forall>st' t'. grown st1 (insert q L) (Suc e) fs us st' t' \<longrightarrow> grown st L e ((p, kl, ls, kr, rs) # fs) (t0 # news) st' t') \<and>
      (\<forall>stack. insert_run_into_interior store_ops cap jr stack p (tpage t0) (map tpage news) seps st =
        (case stack of [] \<Rightarrow> root_from_children store_ops jr [p, q] [u]
         | (g, _) # rest \<Rightarrow> insert_run_into_interior store_ops cap jr rest g p [q] [u]) st1))"
proof -
  let ?K = "kl @ seps @ kr" and ?T = "ls @ (t0 # news) @ rs"
  obtain l h where b: "bnd None None fs = (l, h)" by fastforce
  note rf = ready_frame [OF r b]
  note p0 = space_page(2,4) [OF rf(9,10)]
  note rd = interior_page_read(1) [OF rf(5)]
  have "set (concat (map tree_pages ?T)) \<subseteq> L" using r by (auto simp: ready_def)
  then have small: "\<forall>c \<in> set (map tpage ?T). c < 2 ^ 32" by (rule small_pages [OF rf(9)])
  have lens: "length (map tpage ?T) = length ?K + 1" using ord_list_length [OF rf(1)] by simp
  have idx: "list_index (tpage t0) (map tpage ls @ tpage t0 # map tpage rs) = Inr (length ls)"
    using list_index_first [OF rf(12)] by simp
  have new: "take (length ls) (kl @ kr) @ seps @ drop (length ls) (kl @ kr) = ?K"
    "take (length ls + 1) (map tpage ls @ tpage t0 # map tpage rs) @ map tpage news @
       drop (length ls + 1) (map tpage ls @ tpage t0 # map tpage rs) = map tpage ?T"
    using rf(11) by simp_all
  note step = insert_run_unfold [OF p0 rd idx, where news = "map tpage news" and seps = seps, unfolded new, where cap = cap and jr = jr]
  show ?thesis
  proof (cases "length ?K \<le> cap \<and> interior_fits ?K")
    case True
    obtain pg where pg: "write_interior_node (replicate PAGE_SIZE 0) ?K (map tpage ?T) = Inr pg"
      "store_write p pg st = (Inr (), set_page p pg st)" "interior_page pg ?K (map tpage ?T)"
      "eff L (L - {p}) 0 st (set_page p pg st)"
      by (rule write_node_run [OF rf(9,10) lens conjunct2 [OF True] rf(3) small])
    have "grown st L e ((p, kl, ls, kr, rs) # fs) (t0 # news) (set_page p pg st) (plug fs (BNode p ?K ?T))"
      using pg(3) True by (intro fill_frames [OF r pg(4)]) auto
    moreover have "insert_run_into_interior store_ops cap jr stack p (tpage t0) (map tpage news) seps st =
        (Inr (), set_page p pg st)" for stack
      unfolding step if_P [OF True] using pg(1,2) by (simp add: bindS_def)
    ultimately show ?thesis by blast
  next
    case False
    have rm: "room 1 st" using r by (auto simp: ready_def elim: room_mono)
    from interior_split_run [OF rf(9,10) lens rf(3) small frame_keys_sorted [OF rf(1)] rf(4) rm, of jr]
    show ?thesis
    proof (elim disjE exE conjE)
      fix st' assume n: "interior_split store_ops jr p ?K (map tpage ?T) st = (Inr None, st')" "interior_fits ?K"
        "interior_page (st_pages st' p) ?K (map tpage ?T)" "eff L (L - {p}) 0 st st'"
      have "insert_run_into_interior store_ops cap jr stack p (tpage t0) (map tpage news) seps st = (Inr (), st')" for stack
        unfolding step if_not_P [OF False] using n(1) by (simp add: bindS_def carry_up_def)
      with fill_frames [OF r n(4,3,2)] show ?thesis by blast
    next
      fix n0 n1 u q st' assume n: "interior_split store_ops jr p ?K (map tpage ?T) st = (Inr (Some ([p, q], [u])), st')"
        "interior_partition [n0, n1] [u] ?K (map tpage ?T)" "q \<notin> L"
        "\<forall>(p, ks, cs) \<in> set (zip [p, q] [n0, n1]). interior_page (st_pages st' p) ks cs"
        "eff (insert q L) (L - {p}) 1 st st'"
      note sr = split_ready [OF r n(5,3,2,4)]
      let ?us = "node_trees [p, q] [n0, n1] ?T"
      have hd: "tpage (hd ?us) = p" using sr(2) by (cases ?us) auto
      have "\<forall>stack. insert_run_into_interior store_ops cap jr stack p (tpage t0) (map tpage news) seps st =
        (case stack of [] \<Rightarrow> root_from_children store_ops jr [p, q] [u]
         | (g, _) # rest \<Rightarrow> insert_run_into_interior store_ops cap jr rest g p [q] [u]) st'"
        unfolding step if_not_P [OF False] using n(1) by (auto simp add: bindS_def carry_up_def split: list.splits)
      moreover have "\<forall>st'' t'. grown st' (insert q L) (Suc e) fs ?us st'' t' \<longrightarrow>
          grown st L e ((p, kl, ls, kr, rs) # fs) (t0 # news) st'' t'"
        using grown_above [OF _ n(5,3) hd sr(3-5)] by blast
      ultimately show ?thesis
        using sr(1,2) by (intro disjI2 exI [of _ st'] exI [of _ q] exI [of _ ?us] exI [of _ u] conjI)
    qed
  qed
qed

text \<open>The run of new children is always taken up: the ascent ends, and gives the grown tree.\<close>

theorem insert_run_run:
  assumes "ready st L e (f # fs) (t0 # news) seps"
  shows "\<exists>st' t'. insert_run_into_interior store_ops cap jr (stack_of fs) (fst f) (tpage t0) (map tpage news) seps st
      = (Inr (), st') \<and> grown st L e (f # fs) (t0 # news) st' t'"
  using assms
proof (induction fs arbitrary: f t0 news seps st L e)
  case (Nil f)
  obtain p kl ls kr rs where f: "f = (p, kl, ls, kr, rs)" by (cases f)
  from ascent_step [OF Nil [unfolded f], of cap jr] show ?case
  proof (elim disjE exE conjE)
    fix st1 q us u assume h: "ready st1 (insert q L) (Suc e) [] us [u]" "map tpage us = [p, q]"
      "\<forall>st' t'. grown st1 (insert q L) (Suc e) [] us st' t' \<longrightarrow> grown st L e [(p, kl, ls, kr, rs)] (t0 # news) st' t'"
      "\<forall>stack. insert_run_into_interior store_ops cap jr stack p (tpage t0) (map tpage news) seps st =
        (case stack of [] \<Rightarrow> root_from_children store_ops jr [p, q] [u]
         | (g, _) # rest \<Rightarrow> insert_run_into_interior store_ops cap jr rest g p [q] [u]) st1"
    obtain u0 u1 where us: "us = [u0, u1]" "tpage u0 = p" "tpage u1 = q" using h(2) by auto
    from root_grown [OF h(1) [unfolded us(1)], of jr] show ?thesis using h(3,4) us by (auto simp: f)
  qed (auto simp: f)
next
  case (Cons g gs f)
  obtain p kl ls kr rs where f: "f = (p, kl, ls, kr, rs)" by (cases f)
  obtain gp i where sg: "stack_of (g # gs) = (gp, i) # stack_of gs" "fst g = gp" by (cases g) auto
  from ascent_step [OF Cons.prems [unfolded f], of cap jr] show ?case
  proof (elim disjE exE conjE)
    fix st1 q us u assume h: "ready st1 (insert q L) (Suc e) (g # gs) us [u]" "map tpage us = [p, q]"
      "\<forall>st' t'. grown st1 (insert q L) (Suc e) (g # gs) us st' t' \<longrightarrow> grown st L e ((p, kl, ls, kr, rs) # g # gs) (t0 # news) st' t'"
      "\<forall>stack. insert_run_into_interior store_ops cap jr stack p (tpage t0) (map tpage news) seps st =
        (case stack of [] \<Rightarrow> root_from_children store_ops jr [p, q] [u]
         | (g, _) # rest \<Rightarrow> insert_run_into_interior store_ops cap jr rest g p [q] [u]) st1"
    obtain u0 u1 where us: "us = [u0, u1]" "tpage u0 = p" "tpage u1 = q" using h(2) by auto
    from Cons.IH [OF h(1) [unfolded us(1)]] show ?thesis using h(3,4) us sg by (auto simp: f)
  qed (auto simp: f)
qed

end
