(* ===== verification/TreeInsert.thy ===== *)
theory TreeInsert
  imports TreeAscend
begin

text \<open>
  Insertion into a stored tree: the rewrite of one leaf, the split of a leaf into up to three, and the
  refinement theorem, by which \<open>btree_insert\<close> updates the abstract map of the tree at one key.
\<close>

section \<open>One leaf of the tree\<close>

lemma footprint_middle:
  "merged_leaf_footprint (xs @ kv # ys) = merged_leaf_footprint ((xs @ ys) @ [kv])"
proof -
  have "merged_leaf_footprint (xs @ kv # ys) + 12 = merged_leaf_footprint xs + merged_leaf_footprint (kv # ys)"
    by (rule merged_leaf_footprint_append)
  moreover have "merged_leaf_footprint (xs @ ys) + 12 = merged_leaf_footprint xs + merged_leaf_footprint ys"
    "merged_leaf_footprint ((xs @ ys) @ [kv]) + 12 = merged_leaf_footprint (xs @ ys) + merged_leaf_footprint [kv]"
    by (rule merged_leaf_footprint_append)+
  ultimately show ?thesis by (simp add: merged_leaf_footprint_Cons)
qed

lemma ctx_leaves_pages: "set (ctx_left leaves fs) \<union> set (ctx_right leaves fs) \<subseteq> set (frames_pages fs)"
proof (induction fs rule: node_pages.induct)
  case (2 p kl ls kr rs fs)
  have "set (concat (map leaves ts)) \<subseteq> set (concat (map tree_pages ts))" for ts
    using leaves_in_pages by (induction ts) auto
  from 2 this [of ls] this [of rs] show ?case by auto
qed simp

lemma bal_length: "bal d (plug fs (BLeaf p cs)) \<Longrightarrow> d = length fs"
proof -
  have "bal d (plug fs t) \<Longrightarrow> \<exists>e. d = length fs + e \<and> bal e t" for t
  proof (induction fs t arbitrary: d rule: plug.induct)
    case (2 p kl ls kr rs fs t)
    then obtain e where "d = length fs + e" "bal e (BNode p (kl @ kr) (ls @ t # rs))" by auto
    moreover then obtain e' where "e = Suc e'" "bal e' t" by (auto split: nat.splits)
    ultimately show ?case by auto
  qed simp
  then show "bal d (plug fs (BLeaf p cs)) \<Longrightarrow> d = length fs" by fastforce
qed

lemma leaf_replaced:
  assumes t: "tree_at st L d (plug fs (BLeaf p cs))"
    and leaf: "leaf_at (st_pages st') (st_pages st' p) cs' (sibling_of (st_pages st p))"
    and ef: "eff L' (L - insert p (set (all_pages cs))) n st st'"
    and L': "L' - set (all_pages cs') = L - set (all_pages cs)" "set (all_pages cs') \<subseteq> L'" "distinct (all_pages cs')"
    and srt: "sorted_wrt (<) (map fst cs')"
    and rng: "\<forall>c \<in> set cs'. case bnd None None fs of (l, h) \<Rightarrow> in_range l h (fst c)" and len: "frames_len fs"
  shows "tree_at st' L' d (plug fs (BLeaf p cs'))"
    and "L' - set (tree_pages (plug fs (BLeaf p cs'))) = L - set (tree_pages (plug fs (BLeaf p cs)))"
proof -
  note ta = tree_at_facts [OF t]
  obtain l h where b: "bnd None None fs = (l, h)" by fastforce
  have fo: "frames_ord None None fs" "fs \<noteq> [] \<longrightarrow> lt_bound l h"
    using ordered_plug [of None None fs "BLeaf p cs"] ta(3) len b by (auto simp: frames_len_all)
  have o: "ordered None None (plug fs (BLeaf p cs'))"
    using ordered_plug [of None None fs "BLeaf p cs'"] fo srt rng b by auto
  have "mset (tree_pages (plug fs (BLeaf p cs))) = mset (p # all_pages cs @ frames_pages fs)"
    by (simp add: tree_pages_plug)
  then have old: "distinct (p # all_pages cs @ frames_pages fs)"
    "set (tree_pages (plug fs (BLeaf p cs))) = set (p # all_pages cs @ frames_pages fs)"
    using distinct_of_mset [OF sym, OF _ ta(5)] distinct_of_mset [OF _ ta(5)] by (metis mset_eq_setD)+
  then have sub: "set (p # all_pages cs @ frames_pages fs) \<subseteq> L" using ta(6) by simp
  have outside: "p \<in> L - set (all_pages cs)" "set (frames_pages fs) \<subseteq> L - set (all_pages cs)"
    using old(1) sub by auto
  then have d': "distinct (p # all_pages cs' @ frames_pages fs)" "set (p # all_pages cs' @ frames_pages fs) \<subseteq> L'"
    using old(1) L' by auto
  have "mset (tree_pages (plug fs (BLeaf p cs'))) = mset (p # all_pages cs' @ frames_pages fs)"
    by (simp add: tree_pages_plug)
  note new = distinct_of_mset [OF this d'(1)]
  have kept: "\<forall>q \<in> set (frames_pages fs). st_pages st' q = st_pages st q"
    using old(1) sub by (intro ballI eff_page [OF ef]) auto
  have fr: "frames_stored (st_pages st) p fs" using ta(2) by (simp add: stored_plug)
  have st: "stored (st_pages st') (plug fs (BLeaf p cs'))"
    using frames_stored_cong [OF kept] fr leaf by (auto simp: stored_plug)
  obtain e where e: "d = length fs" using ta(4) bal_length by blast
  have bl: "bal d (plug fs (BLeaf p cs'))"
    using ta(4) bal_plug [of fs 0] by (simp add: e)
  have "linked (st_pages st') (leaves (plug fs (BLeaf p cs'))) 0"
  proof -
    have "sibling_of (st_pages st' q) = sibling_of (st_pages st q)" if "q \<in> set (leaves (plug fs (BLeaf p cs)))" for q
    proof (cases "q = p")
      case True
      then show ?thesis using leaf_at_sibling [OF leaf] by simp
    next
      case False
      then have "q \<in> set (frames_pages fs)"
        using that ctx_leaves_pages [of fs] by (auto simp: leaves_plug)
      then show ?thesis using kept by simp
    qed
    moreover have "leaves (plug fs (BLeaf p cs')) = leaves (plug fs (BLeaf p cs))" by (simp add: leaves_plug)
    ultimately show ?thesis using linked_cong ta(7) by metis
  qed
  then show "tree_at st' L' d (plug fs (BLeaf p cs'))"
    using st o bl new d'(2) eff_space [OF ef] by (simp add: tree_at_def)
  show "L' - set (tree_pages (plug fs (BLeaf p cs'))) = L - set (tree_pages (plug fs (BLeaf p cs)))"
    using new old(2) L'(1) by auto
qed

lemma put_leaf_run:
  assumes sp: "space st L" and rm: "room (spill_need v) st" and k: "key_ok k" and p: "p \<in> L" and sib: "sib < 2 ^ 32"
    and fits: "merged_leaf_footprint (map cell_kv (xs @ ys) @ [(k, v)]) \<le> PAGE_SIZE"
  obtains ps page st1 st' where "leaf_cell (Some store_ops) jr (k, v) st = (Inr (cell_raw (k, v, ps)), st1)"
    "leaf_with_sibling (map cell_raw (xs @ (k, v, ps) # ys)) sib = Inr page"
    "store_write p page st1 = (Inr (), st')" "leaf_page (st_pages st' p) (map cell_raw (xs @ (k, v, ps) # ys)) sib"
    "leaf_fits (xs @ (k, v, ps) # ys)" "cell_ok (st_pages st') (k, v, ps)" "distinct ps" "set ps \<inter> L = {}"
    "eff (L \<union> set ps) (L - {p}) (spill_need v) st st'"
proof -
  obtain ps st1 where ps: "leaf_cell (Some store_ops) jr (k, v) st = (Inr (cell_raw (k, v, ps)), st1)"
    "cell_ok (st_pages st1) (k, v, ps)" "distinct ps" "set ps \<inter> L = {}" "eff (L \<union> set ps) L (spill_need v) st st1"
    by (rule leaf_cell_run [OF sp rm k, of jr])
  have f: "leaf_fits (xs @ (k, v, ps) # ys)"
    using fits footprint_middle [of "map cell_kv xs" "(k, v)" "map cell_kv ys"] by (simp add: leaf_fits_def)
  obtain page where page: "leaf_with_sibling (map cell_raw (xs @ (k, v, ps) # ys)) sib = Inr page"
    "leaf_page page (map cell_raw (xs @ (k, v, ps) # ys)) sib"
    using leaf_with_sibling_ok [OF f sib] by blast
  have "length page = PAGE_SIZE" using page(2) by (simp add: leaf_page_def)
  note w = eff_write [OF eff_space [OF ps(5)] UnI1 [OF p] this]
  have "p \<notin> set ps" using p ps(4) by auto
  then have "cell_ok (st_pages (set_page p page st1)) (k, v, ps)"
    using ps(2) cell_ok_cong [of "(k, v, ps)" "st_pages (set_page p page st1)" "st_pages st1"] by auto
  moreover have "eff (L \<union> set ps) (L - {p}) (spill_need v) st (set_page p page st1)"
    by (rule eff_trans [OF ps(5) w(2)]) auto
  ultimately show thesis
    using ps page w(1) f by (intro that [of ps st1 page "set_page p page st1"]) auto
qed

lemma map_of_middle:
  assumes "map_of cs' = (map_of cs)(k \<mapsto> v)" and "k \<notin> fst ` set xs"
  shows "map_of (xs @ cs' @ ys) = (map_of (xs @ cs @ ys))(k \<mapsto> v)"
proof -
  have "map_of xs k = None" using assms(2) by (simp add: map_of_eq_None_iff)
  then show ?thesis
    by (intro ext) (simp add: map_of_append map_add_def assms(1) split: option.splits)
qed

lemma sorted_insert_map:
  assumes "sorted_wrt (<) (map fst cs)" and "k \<notin> fst ` set cs"
  shows "map_of (map cell_kv (take i cs @ (k, v, ps) # drop i cs)) = (map_of (map cell_kv cs))(k \<mapsto> v)"
proof -
  have t: "map_of (map cell_kv (take i cs)) k = None"
    using assms(2) set_take_subset [of i cs] by (force simp: map_of_eq_None_iff)
  have "map_of (map cell_kv (take i cs @ (k, v, ps) # drop i cs)) =
      (map_of (map cell_kv (take i cs @ drop i cs)))(k \<mapsto> v)"
    by (intro ext) (simp add: map_of_append map_add_def t del: append_take_drop_id split: option.splits)
  then show ?thesis by simp
qed

lemma sorted_replace_map:
  assumes "sorted_wrt (<) (map fst cs)" and "i < length cs"
  shows "map_of (map cell_kv (take i cs @ (fst (cs ! i), v, ps) # drop (Suc i) cs)) =
      (map_of (map cell_kv cs))(fst (cs ! i) \<mapsto> v)"
    and "map_of (map cell_kv (take i cs @ drop (Suc i) cs)) = (map_of (map cell_kv cs)) (fst (cs ! i) := None)"
    and "fst (cs ! i) \<notin> fst ` set (take i cs @ drop (Suc i) cs)"
proof -
  let ?k = "fst (cs ! i)"
  have cs: "cs = take i cs @ cs ! i # drop (Suc i) cs" using assms(2) by (simp add: id_take_nth_drop)
  have "sorted_wrt (<) (map fst (take i cs @ cs ! i # drop (Suc i) cs))" using assms(1) cs by simp
  then show n: "?k \<notin> fst ` set (take i cs @ drop (Suc i) cs)"
    by (auto simp: sorted_wrt_append image_iff)
  have t: "map_of (map cell_kv (take i cs)) ?k = None" and d: "map_of (map cell_kv (drop (Suc i) cs)) ?k = None"
    using n by (auto simp: map_of_eq_None_iff image_iff)
  obtain v' ps' where c: "cs ! i = (?k, v', ps')" by (metis prod.collapse)
  have m: "map_of (map cell_kv cs) = map_of (map cell_kv (take i cs @ (?k, v', ps') # drop (Suc i) cs))"
    using arg_cong [OF cs, of "\<lambda>xs. map_of (map cell_kv xs)"] c by metis
  show "map_of (map cell_kv (take i cs @ (?k, v, ps) # drop (Suc i) cs)) = (map_of (map cell_kv cs))(?k \<mapsto> v)"
    unfolding m by (intro ext) (simp add: map_of_append map_add_def t split: option.splits)
  show "map_of (map cell_kv (take i cs @ drop (Suc i) cs)) = (map_of (map cell_kv cs)) (?k := None)"
    unfolding m by (intro ext) (simp add: map_of_append map_add_def t d split: option.splits)
qed

lemma sorted_insert_cell:
  assumes "sorted_wrt (<) (map fst cs)" and "k \<notin> fst ` set cs" and "i = bisect_left (map fst cs) k"
  shows "sorted_wrt (<) (map fst (take i cs @ (k, v, ps) # drop i cs))"
proof -
  have i: "i = length (takeWhile (\<lambda>x. x < k) (map fst cs))"
    using assms(1,3) by (simp add: bisect_left_sorted strict_sorted)
  have t: "take i (map fst cs) = takeWhile (\<lambda>x. x < k) (map fst cs)"
    by (simp add: i takeWhile_eq_take [symmetric])
  have d: "drop i (map fst cs) = dropWhile (\<lambda>x. x < k) (map fst cs)"
    by (simp add: i dropWhile_eq_drop [symmetric])
  have low: "\<forall>x \<in> set (take i (map fst cs)). x < k" unfolding t using set_takeWhileD by fast
  have split: "sorted_wrt (<) (take i (map fst cs) @ drop i (map fst cs))" using assms(1) by simp
  have high: "\<forall>x \<in> set (drop i (map fst cs)). k < x"
  proof (cases "drop i (map fst cs)")
    case (Cons y ys)
    then have "\<not> y < k" using hd_dropWhile [of "\<lambda>x. x < k" "map fst cs"] unfolding d by auto
    moreover have "y \<in> set (map fst cs)" using Cons by (metis in_set_dropD list.set_intros(1))
    then have "y \<noteq> k" using assms(2) by auto
    ultimately have "k < y" by simp
    then show ?thesis using split Cons by (auto simp: sorted_wrt_append)
  qed simp
  have "sorted_wrt (<) (take i (map fst cs) @ k # drop i (map fst cs))"
    using split low high unfolding sorted_wrt_append by auto
  then show ?thesis by (simp add: take_map drop_map)
qed

section \<open>What an insertion promises\<close>

definition updated :: "nat \<Rightarrow> nat \<Rightarrow> store \<Rightarrow> nat set \<Rightarrow> btree \<Rightarrow> store \<Rightarrow> (int \<Rightarrow> bytes option) \<Rightarrow> bool" where
  \<comment> \<open>the state holds a tree for the map \<open>m\<close>, at most one level higher; the pages outside the tree are the same
     and as before, and the file grew by at most \<open>n\<close> pages\<close>
  "updated d n st L t st' m \<longleftrightarrow>
     (\<exists>L' d' t'. tree_at st' L' d' t' \<and> tree_map t' = m \<and> tpage t' = tpage t \<and>
        L' - set (tree_pages t') = L - set (tree_pages t) \<and> keeps (L - set (tree_pages t)) st st' \<and> d' \<le> d + 1) \<and>
     store_hdr st HDbSize \<le> store_hdr st' HDbSize \<and> store_hdr st' HDbSize \<le> store_hdr st HDbSize + n"

lemma updated_mono: "updated d n st L t st' m \<Longrightarrow> n \<le> n' \<Longrightarrow> updated d n' st L t st' m"
  by (auto simp: updated_def)

definition leaf_ctx :: "frame list \<Rightarrow> cell list \<Rightarrow> int \<Rightarrow> bool" where
  \<comment> \<open>the key belongs in the hole of the frames, where the leaf holds \<open>cs\<close>\<close>
  "leaf_ctx fs cs k \<longleftrightarrow> frames_len fs \<and> sorted_wrt (<) (map fst cs) \<and> k \<notin> fst ` set (ctx_left cells fs) \<and>
     (case bnd None None fs of (l, h) \<Rightarrow> in_range l h k \<and> (\<forall>c \<in> set cs. in_range l h (fst c)))"

lemma leaf_ctxI:
  assumes t: "tree_at st L d (plug fs (BLeaf p cs))" and len: "frames_len fs"
    and k: "case bnd None None fs of (l, h) \<Rightarrow> in_range l h k"
  shows "leaf_ctx fs cs k"
proof -
  note ta = tree_at_facts [OF t]
  obtain l h where b: "bnd None None fs = (l, h)" by fastforce
  have o: "ordered l h (BLeaf p cs)" "frames_ord None None fs"
    using ordered_plug [of None None fs "BLeaf p cs"] ta(3) len b by (auto simp: frames_len_all)
  have "k \<notin> fst ` set (ctx_left cells fs)"
    using ctx_bounds [OF o(2) b] k b by (force simp: in_range_def)
  then show ?thesis using o(1) len k b by (simp add: leaf_ctx_def)
qed

lemma tree_pages_leaf:
  "set (tree_pages (plug fs (BLeaf p cs))) = insert p (set (all_pages cs) \<union> set (frames_pages fs))"
proof -
  have "mset (tree_pages (plug fs (BLeaf p cs))) = mset (p # all_pages cs @ frames_pages fs)" by (simp add: tree_pages_plug)
  from mset_eq_setD [OF this] show ?thesis by simp
qed

lemma tree_map_leaf:
  "leaf_ctx fs cs k \<Longrightarrow> map_of (map cell_kv cs') = (map_of (map cell_kv cs))(k \<mapsto> v) \<Longrightarrow>
   tree_map (plug fs (BLeaf p cs')) = (tree_map (plug fs (BLeaf q cs)))(k \<mapsto> v)"
  using map_of_middle [of "map cell_kv cs'" "map cell_kv cs" k v "map cell_kv (ctx_left cells fs)"]
  by (simp add: tree_map_def cells_plug leaf_ctx_def image_image)

lemma leaf_updated:
  assumes t: "tree_at st L d (plug fs (BLeaf p cs))"
    and leaf: "leaf_at (st_pages st') (st_pages st' p) cs' (sibling_of (st_pages st p))"
    and ef: "eff L' (L - insert p (set (all_pages cs))) n st st'"
    and L': "L' - set (all_pages cs') = L - set (all_pages cs)" "set (all_pages cs') \<subseteq> L'" "distinct (all_pages cs')"
    and srt: "sorted_wrt (<) (map fst cs')" and c: "leaf_ctx fs cs k" and keys: "fst ` set cs' \<subseteq> insert k (fst ` set cs)"
    and m: "map_of (map cell_kv cs') = (map_of (map cell_kv cs))(k \<mapsto> v)"
  shows "updated d n st L (plug fs (BLeaf p cs)) st' ((tree_map (plug fs (BLeaf p cs)))(k \<mapsto> v))"
proof -
  obtain l h where b: "bnd None None fs = (l, h)" by fastforce
  then have lc: "frames_len fs" "in_range l h k" "\<forall>c \<in> set cs. in_range l h (fst c)" using c by (auto simp: leaf_ctx_def)
  have "in_range l h (fst c)" if "c \<in> set cs'" for c
  proof -
    have "fst c = k \<or> fst c \<in> fst ` set cs" using keys that by auto
    then show ?thesis using lc by auto
  qed
  then have rng: "\<forall>c \<in> set cs'. case bnd None None fs of (l, h) \<Rightarrow> in_range l h (fst c)" using b by simp
  note r = leaf_replaced [OF t leaf ef L' srt rng lc(1)]
  have "keeps (L - set (tree_pages (plug fs (BLeaf p cs)))) st st'"
    using ef by (auto simp: eff_def tree_pages_leaf elim!: keeps_mono)
  moreover have "tpage (plug fs (BLeaf p cs')) = tpage (plug fs (BLeaf p cs))" by (simp add: tpage_plug)
  moreover have "store_hdr st HDbSize \<le> store_hdr st' HDbSize \<and> store_hdr st' HDbSize \<le> store_hdr st HDbSize + n"
    using ef by (simp add: eff_def)
  ultimately show ?thesis
    unfolding updated_def using r tree_map_leaf [OF c m] le_add1 by blast
qed

lemma tree_leaf:
  assumes t: "tree_at st L d (plug fs (BLeaf p cs))"
  shows "leaf_at (st_pages st) (st_pages st p) cs (sibling_of (st_pages st p))" "p \<in> L" "p \<noteq> 0"
    "distinct (all_pages cs)" "set (all_pages cs) \<subseteq> L" "p \<notin> set (all_pages cs)"
    "set (frames_pages fs) \<subseteq> L" "set (frames_pages fs) \<inter> insert p (set (all_pages cs)) = {}" "distinct (frames_pages fs)"
proof -
  note ta = tree_at_facts [OF t]
  obtain sib where l: "leaf_at (st_pages st) (st_pages st p) cs sib" using ta(2) by (auto simp: stored_plug)
  then show "leaf_at (st_pages st) (st_pages st p) cs (sibling_of (st_pages st p))"
    using leaf_at_sibling [OF l] by simp
  have m: "mset (p # all_pages cs @ frames_pages fs) = mset (tree_pages (plug fs (BLeaf p cs)))"
    by (simp add: tree_pages_plug)
  note dm = distinct_of_mset [OF m ta(5)]
  then show "p \<in> L" "distinct (all_pages cs)" "set (all_pages cs) \<subseteq> L" "p \<notin> set (all_pages cs)"
    "set (frames_pages fs) \<subseteq> L" "set (frames_pages fs) \<inter> insert p (set (all_pages cs)) = {}" "distinct (frames_pages fs)"
    using ta(6) by auto
  then show "p \<noteq> 0" using space_page(2) [OF ta(1)] by blast
qed

lemma all_pages_sub: "set cs \<subseteq> set ds \<Longrightarrow> set (all_pages cs) \<subseteq> set (all_pages ds)"
  by (auto simp: set_all_pages)

lemma split_all_pages: "mset (all_pages (take i cs)) + mset (all_pages (drop i cs)) = mset (all_pages cs)"
  by (metis append_take_drop_id all_pages_simps(3) mset_append)

lemma insert_one_run:
  assumes t: "tree_at st L d (plug fs (BLeaf p cs))" and c: "leaf_ctx fs cs k" and new: "k \<notin> fst ` set cs"
    and k: "key_ok k" and rm: "room (spill_need v) st" and i: "i = bisect_left (map fst cs) k"
    and fits: "merged_leaf_footprint (map cell_kv cs @ [(k, v)]) \<le> PAGE_SIZE"
  shows "\<exists>st'. write_leaf_inserting_one store_ops jr p (st_pages st p) (length cs) i k v (sibling_of (st_pages st p)) st
      = (Inr (), st') \<and>
    updated d (spill_need v) st L (plug fs (BLeaf p cs)) st' ((tree_map (plug fs (BLeaf p cs)))(k \<mapsto> v))"
proof -
  note sp = tree_at_facts(1) [OF t] and tl = tree_leaf [OF t]
  let ?sib = "sibling_of (st_pages st p)"
  have fits': "merged_leaf_footprint (map cell_kv (take i cs @ drop i cs) @ [(k, v)]) \<le> PAGE_SIZE" using fits by simp
  obtain ps page st1 st' where w: "leaf_cell (Some store_ops) jr (k, v) st = (Inr (cell_raw (k, v, ps)), st1)"
    "leaf_with_sibling (map cell_raw (take i cs @ (k, v, ps) # drop i cs)) ?sib = Inr page"
    "store_write p page st1 = (Inr (), st')"
    "leaf_page (st_pages st' p) (map cell_raw (take i cs @ (k, v, ps) # drop i cs)) ?sib"
    "leaf_fits (take i cs @ (k, v, ps) # drop i cs)" "cell_ok (st_pages st') (k, v, ps)" "distinct ps" "set ps \<inter> L = {}"
    "eff (L \<union> set ps) (L - {p}) (spill_need v) st st'"
    by (rule put_leaf_run [OF sp rm k tl(2) leaf_at_parts(7) [OF tl(1)] fits', of jr])
  let ?cs = "take i cs @ (k, v, ps) # drop i cs"
  have raws: "mapR (raw_cell_bytes (st_pages st p)) [0..<length cs] = Inr (map cell_raw cs)"
    using raw_cells_ok(1) [OF tl(1), of "[0..<length cs]"] all_indices [of cell_raw cs] by simp
  have "take i (map cell_raw cs) @ cell_raw (k, v, ps) # drop i (map cell_raw cs) = map cell_raw ?cs"
    by (simp add: take_map drop_map del: cell_raw.simps)
  then have run: "write_leaf_inserting_one store_ops jr p (st_pages st p) (length cs) i k v ?sib st = (Inr (), st')"
    using w(1-3) raws by (simp add: write_leaf_inserting_one_def bindS_def del: cell_raw.simps)
  have old: "\<forall>c \<in> set cs. cell_ok (st_pages st') c"
  proof (rule cells_ok_keeps)
    show "\<forall>c \<in> set cs. cell_ok (st_pages st) c" using tl(1) by (simp add: leaf_at_def)
    show "keeps (L - {p}) st st'" using w(9) by (simp add: eff_def)
    show "set (all_pages cs) \<subseteq> L - {p}" using tl by auto
  qed
  have "set (take i cs) \<union> set (drop i cs) = set cs" by (metis append_take_drop_id set_append)
  then have sets: "set ?cs = insert (k, v, ps) (set cs)" by auto
  have pages: "mset (all_pages ?cs) = mset ps + mset (all_pages cs)"
    using split_all_pages [of i cs] by (simp add: ac_simps)
  then have pages': "mset (all_pages ?cs) = mset (ps @ all_pages cs)" by simp
  have dp: "distinct (ps @ all_pages cs)" using w(7,8) tl(4,5) by auto
  note dm = distinct_of_mset [OF pages' dp]
  have "updated d (spill_need v) st L (plug fs (BLeaf p cs)) st' ((tree_map (plug fs (BLeaf p cs)))(k \<mapsto> v))"
  proof (rule leaf_updated [OF t])
    show "leaf_at (st_pages st') (st_pages st' p) ?cs ?sib"
      unfolding leaf_at_def sets using w(4-6) old by (simp del: cell_ok.simps cell_raw.simps)
    show "eff (L \<union> set ps) (L - insert p (set (all_pages cs))) (spill_need v) st st'"
      using eff_mono [OF w(9)] by blast
    show "L \<union> set ps - set (all_pages ?cs) = L - set (all_pages cs)" using dm w(8) by auto
    show "set (all_pages ?cs) \<subseteq> L \<union> set ps" using dm tl(5) by auto
    show "distinct (all_pages ?cs)" using dm by simp
    show "sorted_wrt (<) (map fst ?cs)" using c new i by (intro sorted_insert_cell) (auto simp: leaf_ctx_def)
    show "fst ` set ?cs \<subseteq> insert k (fst ` set cs)" unfolding sets by simp
    show "map_of (map cell_kv ?cs) = (map_of (map cell_kv cs))(k \<mapsto> v)"
      using c new by (intro sorted_insert_map) (auto simp: leaf_ctx_def)
  qed (rule c)
  then show ?thesis using run by blast
qed

end
