(* ===== verification/SqlLookup.thy ===== *)
theory SqlLookup
  imports SqlSelect TreeInsert
begin

text \<open>
  The lookup through the id index, which SELECT with a LIMIT and UPDATE use when WHERE is \<open>id = 'text'\<close> and
  the connection passes an index: what an exact index is, and what \<open>lookup_row\<close> finds under it.
\<close>

definition id_column :: pystr where "id_column = pystr_of ''id''"

definition id_of :: "pystr list \<Rightarrow> bytes \<Rightarrow> pystr option" where
  \<comment> \<open>the id of a row that decodes, when it is a text\<close>
  "id_of names payload =
     (case plain_row names payload of
        Inr row \<Rightarrow> (case row_get row id_column of PStr s \<Rightarrow> Some s | _ \<Rightarrow> None)
      | Inl e \<Rightarrow> None)"

definition exact_index :: "pystr list \<Rightarrow> (pystr \<Rightarrow> int option) \<Rightarrow> (int \<Rightarrow> bytes option) \<Rightarrow> bool" where
  \<comment> \<open>every row has a text as id, no two rows the same, and the index has the key of each\<close>
  "exact_index names index m \<longleftrightarrow> (\<forall>p \<in> ran m. id_of names p \<noteq> None) \<and>
     (\<forall>s k. index s = Some k \<longleftrightarrow> (\<exists>p. m k = Some p \<and> id_of names p = Some s))"

definition row_of :: "pystr list \<Rightarrow> bytes \<Rightarrow> row" where
  "row_of names payload = (case plain_row names payload of Inr row \<Rightarrow> row | Inl e \<Rightarrow> [])"

definition found_in_leaf :: "(pystr \<Rightarrow> int option) \<Rightarrow> pystr \<Rightarrow> (int \<Rightarrow> bytes option) \<Rightarrow> bool" where
  \<comment> \<open>the row of this id is stored in its leaf, not in an overflow chain\<close>
  "found_in_leaf index s m \<longleftrightarrow> (\<forall>k p. index s = Some k \<longrightarrow> m k = Some p \<longrightarrow> \<not> spills p)"

section \<open>The predicate\<close>

lemma extract_id_eqD:
  assumes "extract_id_eq e = Some s"
  shows "e = BinOp (pystr_of ''='') (ColumnRef id_column) (Literal (PStr s))"
  using assms unfolding extract_id_eq_def id_column_def
  by (auto split: expr.splits pyval.splits if_splits)

lemma eval_id_eq:
  assumes "extract_id_eq e = Some s"
  shows "row_get row id_column = PStr s' \<Longrightarrow> eval_expr lib row e = Inr (PBool (s' = s))"
    and "row_get row id_column = PNull \<Longrightarrow> eval_expr lib row e = Inr PNull"
  unfolding extract_id_eqD [OF assms]
  by (simp_all add: upper_def upper_char_def pystr_of_def coerce_for_compare_def sql_compare_def)

lemma id_eq_hit:
  assumes "extract_id_eq e = Some s" and "plain_row names p = Inr row" and "id_of names p \<noteq> None"
  shows "\<exists>v. eval_expr lib row e = Inr v \<and> accepts v = (id_of names p = Some s)"
proof -
  obtain s' where "row_get row id_column = PStr s'" "id_of names p = Some s'"
    using assms(2,3) by (auto simp: id_of_def split: pyval.splits)
  then show ?thesis using eval_id_eq(1) [OF assms(1)] by (auto simp: accepts_def)
qed

section \<open>The row under a key\<close>

lemma key_cell:
  \<comment> \<open>the descent to a key of the tree finds its cell\<close>
  assumes t: "tree_at st L d t" and fuel: "d < fuel" and k: "tree_map t k = Some p"
  obtains q i stack cs sib ps where "move_to store_ops fuel (tpage t) k st = (Inr (q, i, stack), st)" "q \<in> L"
    "leaf_at (st_pages st) (st_pages st q) cs sib" "i < length cs" "cs ! i = (k, p, ps)" "set (cell_pages (cs ! i)) \<subseteq> L"
proof -
  obtain fs q cs where mv: "t = plug fs (BLeaf q cs)" "frames_len fs" "case bnd None None fs of (l, h) \<Rightarrow> in_range l h k"
    "move_to store_ops fuel (tpage t) k st = (Inr (q, bisect_left (map fst cs) k, stack_of fs), st)"
    using move_to_run [OF t fuel] by metis
  note t' = t [unfolded mv(1)] and ta = tree_at_facts [OF t]
  note tl = tree_leaf [OF t']
  have o: "ordered None None (plug fs (BLeaf q cs))" using ta(3) mv(1) by simp
  have srt: "sorted_wrt (<) (map fst cs)" using ordered_cells [OF o] by (simp add: cells_plug sorted_wrt_append)
  define i where "i = bisect_left (map fst cs) k"
  have "map_of (map cell_kv cs) k = Some p"
    using k lookup_plug [OF o mv(2,3)] by (simp add: mv(1))
  then have i: "i < length cs" "fst (cs ! i) = k" "snd (cell_kv (cs ! i)) = p"
    using sorted_lookup [OF srt i_def] by (auto split: if_splits)
  then obtain ps where ps: "cs ! i = (k, p, ps)" by (cases "cs ! i") auto
  have "set (cell_pages (cs ! i)) \<subseteq> L" using tl(5) i(1) all_pages_sub [of "[cs ! i]" cs] by auto
  then show thesis using that mv(4) tl i ps by (auto simp: i_def)
qed

lemma pointer_row:
  \<comment> \<open>the pointer to an overflow chain, read as a record: its first byte says that the record has no columns\<close>
  assumes "n < 2 ^ 24"
  shows "\<exists>row. plain_row names (be_bytes 4 n) = Inr row \<and> row_get row c = PNull"
proof -
  have "be_bytes 4 n = 0 # be_bytes 3 n" using assms by (simp add: be_bytes_numeral div_mult2_eq [symmetric] of_nat_eq_0_iff)
  moreover have "decode_varint_loop (0 # bs) 0 0 0 = Inr (0, 1)" for bs by (subst decode_varint_loop.simps) (simp add: Let_def)
  ultimately have "decode_record (be_bytes 4 n) 0 = Inr ([], 0)"
    by (simp add: decode_record_def decode_header_def decode_varint_def decode_types.simps)
  moreover have "map_of (rev (zip names (replicate (length names) PNull))) c = Some v \<Longrightarrow> v = PNull" for v
    by (drule map_of_SomeD) (auto simp: in_set_zip)
  ultimately show ?thesis
    by (cases "map_of (rev (zip names (replicate (length names) PNull))) c") (auto simp: plain_row_def pad_def row_get_def)
qed

lemma lookup_row_run:
  assumes t: "tree_at st L d t" "d < fuel" and k: "tree_map t k = Some p"
  shows "\<not> spills p \<Longrightarrow> plain_row names p = Inr row \<Longrightarrow> eval_expr lib row e = Inr v \<Longrightarrow>
      lookup_row lib store_ops fuel (tpage t) names e k st = (Inr (if accepts v then Some row else None), st)"
    and "spills p \<Longrightarrow> store_hdr st HDbSize < 2 ^ 24 \<Longrightarrow> extract_id_eq e = Some s \<Longrightarrow>
      lookup_row lib store_ops fuel (tpage t) names e k st = (Inr None, st)"
proof -
  obtain q i stack cs sib ps where c: "move_to store_ops fuel (tpage t) k st = (Inr (q, i, stack), st)" "q \<in> L"
    "leaf_at (st_pages st) (st_pages st q) cs sib" "i < length cs" "cs ! i = (k, p, ps)" "set (cell_pages (cs ! i)) \<subseteq> L"
    by (rule key_cell [OF t k])
  have sp: "space st L" using tree_at_facts(1) [OF t(1)] .
  have q: "q \<noteq> 0" using space_page(2) [OF sp c(2)] .
  note rd = read_all_leaf_cells_ok(1) [OF c(3)]
  have run: "lookup_row lib store_ops fuel (tpage t) names e k st =
      bindS (liftR (plain_row names (snd (cell_shallow (k, p, ps))))) (\<lambda>row.
        bindS (liftR (eval_expr lib row e)) (\<lambda>result. retS (if accepts result then Some row else None))) st"
    using c(1,4,5) q rd by (simp add: lookup_row_def bindS_def store_run)
  show "lookup_row lib store_ops fuel (tpage t) names e k st = (Inr (if accepts v then Some row else None), st)"
    if "\<not> spills p" "plain_row names p = Inr row" "eval_expr lib row e = Inr v"
    using that by (simp add: run)
  assume s: "spills p" and small: "store_hdr st HDbSize < 2 ^ 24" and e: "extract_id_eq e = Some s"
  have "cell_ok (st_pages st) (k, p, ps)" using c(3,4,5) nth_mem [OF c(4)] by (auto simp: leaf_at_def)
  then obtain fp ps' where ps: "ps = fp # ps'" using s by (cases ps) (auto simp: spills_def)
  then have "fp \<in> L" using s c(5,6) by simp
  then have "first_page ps < 2 ^ 24" using small space_page(5) [OF sp] ps by fastforce
  with pointer_row obtain row where "plain_row names (be_bytes 4 (first_page ps)) = Inr row" "row_get row id_column = PNull"
    by blast
  then show "lookup_row lib store_ops fuel (tpage t) names e k st = (Inr None, st)"
    using s eval_id_eq(2) [OF e] by (simp add: run accepts_def)
qed

section \<open>The rows an exact index answers for\<close>

definition index_serves :: "pystr list \<Rightarrow> expr option \<Rightarrow> id_index \<Rightarrow> (int \<Rightarrow> bytes option) \<Rightarrow> bool" where
  \<comment> \<open>where the index is asked it is exact, and the row it names lies in its leaf; without an index, or under
     another predicate, nothing is required\<close>
  "index_serves names w idx m \<longleftrightarrow> (\<forall>e index s. w = Some e \<longrightarrow> idx = Some index \<longrightarrow> extract_id_eq e = Some s \<longrightarrow>
     exact_index names index m \<and> found_in_leaf index s m)"

lemma one_of_distinct: "distinct xs \<Longrightarrow> set xs = {x} \<Longrightarrow> xs = [x]"
  by (cases xs) (auto simp: subset_singleton_iff)

lemma exact_filter:
  assumes "exact_index names index (map_of kvs)" and "distinct (map fst kvs)"
  shows "filter (\<lambda>(k, p). id_of names p = Some s) kvs = (case index s of None \<Rightarrow> [] | Some k \<Rightarrow> [(k, the (map_of kvs k))])"
    and "index s = Some k \<Longrightarrow> \<exists>p. map_of kvs k = Some p \<and> id_of names p = Some s"
proof -
  have ix: "index s = Some k \<longleftrightarrow> (\<exists>p. (k, p) \<in> set kvs \<and> id_of names p = Some s)" for k
    using assms(1) unfolding exact_index_def by (simp add: map_of_eq_Some_iff [OF assms(2)])
  show "filter (\<lambda>(k, p). id_of names p = Some s) kvs = (case index s of None \<Rightarrow> [] | Some k \<Rightarrow> [(k, the (map_of kvs k))])"
  proof (cases "index s")
    case None
    then have "(k, p) \<notin> set kvs \<or> id_of names p \<noteq> Some s" for k p using ix [of k] by auto
    then show ?thesis using None by (auto simp: filter_empty_conv)
  next
    case (Some k)
    then obtain p where p: "(k, p) \<in> set kvs" "id_of names p = Some s" using ix by blast
    have only: "kp = (k, p)" if mem: "kp \<in> set (filter (\<lambda>(k, p). id_of names p = Some s) kvs)" for kp
    proof -
      obtain k' p' where kp': "kp = (k', p')" by (cases kp)
      then have kp: "(k', p') \<in> set kvs" "id_of names p' = Some s" using mem by simp_all
      then have "index s = Some k'" using ix by blast
      then have "k' = k" using Some by simp
      moreover from this have "p' = p" using eq_key_imp_eq_value [OF assms(2) p(1)] kp(1) by blast
      ultimately show ?thesis using kp' by simp
    qed
    have "(k, p) \<in> set (filter (\<lambda>(k, p). id_of names p = Some s) kvs)" using p by simp
    with only have "set (filter (\<lambda>(k, p). id_of names p = Some s) kvs) = {(k, p)}" by blast
    then have "filter (\<lambda>(k, p). id_of names p = Some s) kvs = [(k, p)]"
      using distinct_map [of fst kvs] assms(2) by (intro one_of_distinct distinct_filter) simp_all
    then show ?thesis using Some map_of_is_SomeI [OF assms(2) p(1)] by simp
  qed
  show "\<exists>p. map_of kvs k = Some p \<and> id_of names p = Some s" if "index s = Some k"
    using that ix map_of_eq_Some_iff [OF assms(2)] by metis
qed

section \<open>Building the index\<close>

definition text_at :: "nat \<Rightarrow> pyval list \<Rightarrow> pystr option" where
  \<comment> \<open>\<open>vals[i]\<close>, if the list is that long and the value is a \<open>str\<close>\<close>
  "text_at i vals = (if i < length vals then (case vals ! i of PStr s \<Rightarrow> Some s | _ \<Rightarrow> None) else None)"

fun id_entries :: "nat \<Rightarrow> (int \<times> bytes) list \<Rightarrow> (pystr \<times> int) list \<Rightarrow> (pystr \<times> int) list res" where
  \<comment> \<open>the dict \<open>index\<close> after the rows of the scan: a value that is not a text is skipped\<close>
  "id_entries i [] index = Inr index"
| "id_entries i ((key, payload) # pairs) index =
     bindR (decode_record payload 0) (\<lambda>(vals, n).
     id_entries i pairs (case text_at i vals of Some s \<Rightarrow> dict_put s key index | None \<Rightarrow> index))"

definition position_of :: "'a \<Rightarrow> 'a list \<Rightarrow> nat option" where
  \<comment> \<open>\<open>list.index\<close>\<close>
  "position_of x xs = (if x \<in> set xs then Some (length (takeWhile (\<lambda>y. y \<noteq> x) xs)) else None)"

definition build_id_row_cache :: "'s pager_ops \<Rightarrow> nat \<Rightarrow> nat option \<Rightarrow> catalog \<Rightarrow> pystr \<Rightarrow> ('s, (pystr \<times> int) list) pm" where
  "build_id_row_cache ops fuel root cat table =
     (case root of
        None \<Rightarrow> retS []
      | Some root_page_no \<Rightarrow>
          bindS (liftR (column_names cat table)) (\<lambda>col_names.
          case position_of (pystr_of ''id'') col_names of
            None \<Rightarrow> retS []
          | Some id_col_idx \<Rightarrow>
              bindS (scan_cells_of ops fuel root_page_no) (\<lambda>pairs. liftR (id_entries id_col_idx pairs []))))"

lemma position_nth: "position_of x xs = Some i \<Longrightarrow> i < length xs \<and> xs ! i = x"
proof (induction xs arbitrary: i)
  case (Cons y xs)
  then show ?case by (cases "y = x") (auto simp: position_of_def split: if_splits)
qed (simp add: position_of_def)

lemma id_entries_ok:
  assumes "\<forall>(k, p) \<in> set kvs. \<exists>vals n. decode_record p 0 = Inr (vals, n) \<and>
      id_of names p = text_at i vals"
  shows "\<exists>index'. id_entries i kvs index = Inr index' \<and>
    map_of index' = (\<lambda>s. case find (\<lambda>(k, p). id_of names p = Some s) (rev kvs) of Some (k, p) \<Rightarrow> Some k | None \<Rightarrow> map_of index s)"
  using assms
proof (induction kvs arbitrary: index)
  case (Cons kp kvs)
  obtain k p where kp: "kp = (k, p)" by (cases kp)
  then obtain vals n where v: "decode_record p 0 = Inr (vals, n)"
    "id_of names p = text_at i vals" using Cons.prems by auto
  have ap: "find P (xs @ [x]) = (case find P xs of Some y \<Rightarrow> Some y | None \<Rightarrow> if P x then Some x else None)" for P and xs :: "(int \<times> bytes) list" and x
    by (induction xs) auto
  show ?case
    using Cons.IH [of "case text_at i vals of Some s \<Rightarrow> dict_put s k index | None \<Rightarrow> index"] Cons.prems v
    by (auto simp: kp ap fun_eq_iff split: option.split)
qed simp

lemma id_of_values:
  assumes "distinct names" and "position_of id_column names = Some i" and "decode_record p 0 = Inr (vals, n)"
  shows "id_of names p = text_at i vals"
proof -
  let ?pad = "pad (length names) vals"
  have i: "i < length names" "names ! i = id_column" using position_nth [OF assms(2)] by auto
  have d: "distinct (map fst (zip names ?pad))" using assms(1) by (simp add: map_fst_zip_take)
  have "map_of (zip names ?pad) id_column = Some (?pad ! i)"
    using i d by (intro map_of_is_SomeI) (force simp: set_zip pad_def)+
  moreover have "map_of (rev (zip names ?pad)) = map_of (zip names ?pad)"
    using d by (subst map_of_inject_set) (simp_all flip: rev_map)
  ultimately have "row_get (dict_of (zip names ?pad)) id_column = ?pad ! i" by (simp add: row_get_def)
  then show ?thesis using assms(3) i(1) by (simp add: id_of_def plain_row_def pad_def nth_append text_at_def)
qed

lemma find_SomeD: "find P xs = Some x \<Longrightarrow> x \<in> set xs \<and> P x"
  by (induction xs) (auto split: if_splits)

lemma build_index_exact:
  \<comment> \<open>the index the connection builds is exact when the rows have different texts as ids\<close>
  assumes t: "tree_at st L d t" "d < fuel" "length (leaves t) < fuel" "length (cells t) < fuel"
    and names: "column_names cat table = Inr names" "distinct names" "id_column \<in> set names"
    and texts: "\<forall>p \<in> ran (tree_map t). id_of names p \<noteq> None"
    and unique: "\<And>k k' p p'. tree_map t k = Some p \<Longrightarrow> tree_map t k' = Some p' \<Longrightarrow> id_of names p = id_of names p' \<Longrightarrow> k = k'"
  shows "\<exists>index. build_id_row_cache store_ops fuel (Some (tpage t)) cat table st = (Inr index, st) \<and>
    exact_index names (map_of index) (tree_map t)"
proof -
  let ?kvs = "map cell_kv (cells t)"
  have dist: "distinct (map fst ?kvs)" using ordered_cells [OF tree_at_facts(3) [OF t(1)]] by (simp add: strict_sorted_iff comp_def)
  have m: "tree_map t k = Some p \<longleftrightarrow> (k, p) \<in> set ?kvs" for k p
    unfolding tree_map_def by (rule map_of_eq_Some_iff [OF dist])
  obtain i where i: "position_of id_column names = Some i" using names(3) by (simp add: position_of_def)
  have dec: "\<exists>vals n. decode_record p 0 = Inr (vals, n)" if "(k, p) \<in> set ?kvs" for k p
  proof -
    have "p \<in> ran (tree_map t)" using that m unfolding ran_def by blast
    then have "id_of names p \<noteq> None" using texts by blast
    then show ?thesis by (auto simp: id_of_def plain_row_def bindR_def split: sum.splits)
  qed
  have "\<forall>(k, p) \<in> set ?kvs. \<exists>vals n. decode_record p 0 = Inr (vals, n) \<and>
      id_of names p = text_at i vals"
    using dec id_of_values [OF names(2) i] by blast
  from id_entries_ok [OF this, of "[]"] obtain index where index: "id_entries i ?kvs [] = Inr index"
    "map_of index = (\<lambda>s. case find (\<lambda>(k, p). id_of names p = Some s) (rev ?kvs) of Some (k, p) \<Rightarrow> Some k | None \<Rightarrow> map_of [] s)" by blast
  have "map_of index s = Some k \<longleftrightarrow> (\<exists>p. tree_map t k = Some p \<and> id_of names p = Some s)" for s k
  proof (cases "find (\<lambda>(k, p). id_of names p = Some s) (rev ?kvs)")
    case None
    then have "map_of index s = None" by (simp add: index(2))
    moreover have "\<nexists>kp. kp \<in> set ?kvs \<and> (case kp of (k, p) \<Rightarrow> id_of names p = Some s)"
      using None unfolding find_None_iff by simp
    ultimately show ?thesis unfolding m by auto
  next
    case (Some kp)
    then have "kp \<in> set ?kvs" "case kp of (k, p) \<Rightarrow> id_of names p = Some s" using find_SomeD [OF Some] by simp_all
    moreover obtain k' p' where kp': "kp = (k', p')" by (cases kp)
    ultimately have kp: "tree_map t k' = Some p'" "id_of names p' = Some s" unfolding m by simp_all
    then have "k = k'" if "tree_map t k = Some p" "id_of names p = Some s" for p using unique [OF that(1)] that(2) by simp
    moreover have "map_of index s = Some k'" using Some kp' by (simp add: index(2))
    ultimately show ?thesis using kp by auto
  qed
  then have "exact_index names (map_of index) (tree_map t)" using texts by (simp add: exact_index_def)
  moreover have "build_id_row_cache store_ops fuel (Some (tpage t)) cat table st = (Inr index, st)"
    using names(1) i index(1) scan_cells_run [OF t] by (simp add: build_id_row_cache_def bindS_def id_column_def)
  ultimately show ?thesis by blast
qed

end
