(* ===== verification/SqlQuery.thy ===== *)
theory SqlQuery
  imports SqlLookup
begin

text \<open>
  What a SELECT means, and that the executor computes it. The reference decodes every column of every row
  of the tree, filters, sorts, projects, skips and takes; the executor walks the leaves and decodes the
  columns it believes it needs.
\<close>

section \<open>Related results\<close>

abbreviation rel_res :: "('a \<Rightarrow> 'b \<Rightarrow> bool) \<Rightarrow> 'a res \<Rightarrow> 'b res \<Rightarrow> bool" where
  "rel_res R \<equiv> rel_sum (=) R"

lemma bindR_rel: "rel_res A m m' \<Longrightarrow> (\<And>x y. A x y \<Longrightarrow> rel_res B (f x) (g y)) \<Longrightarrow> rel_res B (bindR m f) (bindR m' g)"
  by (cases m; cases m') auto

lemma mapR_rel:
  "list_all2 A xs ys \<Longrightarrow> (\<And>x y. A x y \<Longrightarrow> rel_res B (f x) (g y)) \<Longrightarrow> rel_res (list_all2 B) (mapR f xs) (mapR g ys)"
  by (induction rule: list_all2_induct) (auto intro!: bindR_rel [where A = B] bindR_rel [where A = "list_all2 B"])

lemma rel_eqD: "rel_res (=) m m' \<Longrightarrow> m = m'"
  by (cases m; cases m') auto

lemma py_insert_rel:
  assumes "fst x = fst y" "R (snd x) (snd y)"
  shows "list_all2 (\<lambda>p q. fst p = fst q \<and> R (snd p) (snd q)) xs ys \<Longrightarrow>
    rel_res (list_all2 (\<lambda>p q. fst p = fst q \<and> R (snd p) (snd q))) (py_insert lt x xs) (py_insert lt y ys)"
proof (induction rule: list_all2_induct)
  case (Cons p xs q ys)
  then show ?case
    using assms by (cases "lt (fst q) (fst y)")
      (auto intro!: bindR_rel [where A = "list_all2 (\<lambda>p q. fst p = fst q \<and> R (snd p) (snd q))"])
qed (use assms in simp)

lemma py_sort_rel:
  "list_all2 (\<lambda>p q. fst p = fst q \<and> R (snd p) (snd q)) xs ys \<Longrightarrow>
    rel_res (list_all2 (\<lambda>p q. fst p = fst q \<and> R (snd p) (snd q))) (py_sort lt xs) (py_sort lt ys)"
  by (induction rule: list_all2_induct)
    (auto intro!: bindR_rel [where A = "list_all2 (\<lambda>p q. fst p = fst q \<and> R (snd p) (snd q))"] py_insert_rel)

section \<open>Rows that agree on some columns\<close>

definition agree :: "pystr set \<Rightarrow> row \<Rightarrow> row \<Rightarrow> bool" where
  "agree A r r' \<longleftrightarrow> (\<forall>n \<in> A. map_of r n = map_of r' n)"

lemma agree_get: "agree A r r' \<Longrightarrow> n \<in> A \<Longrightarrow> row_get r n = row_get r' n"
  by (simp add: agree_def row_get_def)

lemma agree_eval: "agree A r r' \<Longrightarrow> collect_column_names e \<subseteq> A \<Longrightarrow> eval_expr lib r e = eval_expr lib r' e"
  by (rule eval_cong) (auto dest: agree_get)

lemma agree_filter:
  assumes "list_all2 (agree A) rs rs'" and "collect_column_names e \<subseteq> A"
  shows "list_all2 (agree A) (fst (filter_op lib e rs x)) (fst (filter_op lib e rs' x)) \<and>
    snd (filter_op lib e rs x) = snd (filter_op lib e rs' x)"
  using assms(1)
proof (induction rule: list_all2_induct)
  case (Cons r rs r' rs')
  then show ?case
    using agree_eval [OF Cons(1) assms(2), of lib]
    by (cases "filter_op lib e rs x"; cases "filter_op lib e rs' x") (auto split: sum.split)
qed simp

lemma agree_order_by_keys:
  assumes rs: "list_all2 (agree A) rs rs'" and keys: "fst ` set keys \<subseteq> A"
  shows "rel_res (list_all2 (agree A)) (order_by_keys lib rs keys) (order_by_keys lib rs' keys)"
proof -
  have key: "composite_key lib keys r = composite_key lib keys r'" if "agree A r r'" for r r'
    unfolding composite_key_def
    by (rule mapR_cong) (use that keys in \<open>auto simp: sort_value_def agree_get image_subset_iff\<close>)
  let ?P = "\<lambda>p q :: okey list \<times> row. fst p = fst q \<and> agree A (snd p) (snd q)"
  have "rel_res (list_all2 ?P) (mapR (\<lambda>r. bindR (composite_key lib keys r) (\<lambda>k. Inr (k, r))) rs)
      (mapR (\<lambda>r. bindR (composite_key lib keys r) (\<lambda>k. Inr (k, r))) rs')"
    by (rule mapR_rel [OF rs]) (use key in \<open>auto intro!: bindR_rel [where A = "(=)"] simp: sum.rel_eq\<close>)
  then show ?thesis
    unfolding order_by_keys_def
    by (rule bindR_rel) (rule bindR_rel, erule py_sort_rel, auto simp: list_all2_conv_all_nth)
qed

lemma agree_sort_rows:
  assumes "list_all2 (agree A) rs rs'"
    and "\<forall>c r. s_order_by stmt = Some (c, r) \<longrightarrow> col c \<in> A" and "\<forall>c r. s_order_by2 stmt = Some (c, r) \<longrightarrow> col c \<in> A"
  shows "rel_res (list_all2 (agree A)) (sort_rows lib col stmt rs) (sort_rows lib col stmt rs')"
  using assms(2,3) agree_order_by_keys [OF assms(1)]
  by (auto simp: sort_rows_def order_by_single assms(1) split: option.split)

lemma agree_put: "agree A r r' \<Longrightarrow> v = v' \<Longrightarrow> agree (insert n A) (dict_put n v r) (dict_put n v' r')"
  by (auto simp: agree_def)

lemma agree_resolve:
  assumes "agree A r r'" and "ROWKEY \<in> A" and "ROWID_SOURCE \<in> A"
  shows "agree (insert ROWID A) (resolve_rowid r) (resolve_rowid r')"
proof -
  have "map_of r ROWID_SOURCE = map_of r' ROWID_SOURCE" "row_get r ROWKEY = row_get r' ROWKEY"
    using assms by (auto simp: agree_def row_get_def)
  then show ?thesis unfolding resolve_rowid_def by (intro agree_put [OF assms(1)]) (simp split: option.split)
qed

lemma agree_select: "agree A r r' \<Longrightarrow> set columns \<subseteq> A \<Longrightarrow> select_columns columns r = select_columns columns r'"
  unfolding select_columns_def row_item_def by (intro bindR_cong mapR_cong) (auto simp: agree_def)

section \<open>The rows of a table\<close>

definition table_row :: "bool \<Rightarrow> pystr list \<Rightarrow> cell \<Rightarrow> row res" where
  \<comment> \<open>every column of a row; with \<open>views\<close> the blobs of a row stored in the leaf are views of the page\<close>
  "table_row views names = (\<lambda>(k, v, ps).
     bindR (decode_record_views (views \<and> \<not> spills v) v 0) (\<lambda>(values, n).
     Inr (dict_put ROWKEY (PInt k) (dict_of (zip names (pad (length names) values))))))"

definition plain_names :: "pystr list \<Rightarrow> bool" where
  \<comment> \<open>the names of the columns are distinct and none is reserved\<close>
  "plain_names names \<longleftrightarrow> distinct names \<and> ROWKEY \<notin> set names \<and> ROWID \<notin> set names"

lemma decode_row_table: "decode_row names (cell_kv c) = table_row False names c"
  by (cases c)
    (simp add: decode_row_def plain_row_def table_row_def decode_record_views_def decode_record_def bindR_assoc case_prod_beta)

definition cell_view :: "cell \<Rightarrow> int \<times> bool \<times> bytes" where
  "cell_view = (\<lambda>(k, v, ps). (k, \<not> spills v, v))"

lemma projected_cell_ok:
  assumes at: "cell_at pg LEAF_PTR_ARRAY_START i (cell_raw c)" and ok: "cell_ok (st_pages st) c"
    and sp: "space st L" "set (cell_pages c) \<subseteq> L"
  shows "projected_cell store_ops pg i st = (Inr (cell_view c), st)"
proof -
  obtain k v ps where c: "c = (k, v, ps)" by (cases c)
  obtain ptr where h: "cell_head pg i =
       Inr (ptr, nat k, length (encode_varint k), length v, length (encode_varint (int (length v))))"
    "ptr + length (cell_raw (k, v, ps)) \<le> length pg"
    "drop (ptr + length (encode_varint k) + length (encode_varint (int (length v)))) pg =
       (if spills v then be_bytes 4 (first_page ps) else v) @ drop (ptr + length (cell_raw (k, v, ps))) pg"
    using cell_head_ok at ok unfolding c by blast
  define b where "b = ptr + length (encode_varint k) + length (encode_varint (int (length v)))"
  have body: "pyslice pg b (b + length w) = w" if "(if spills v then be_bytes 4 (first_page ps) else v) = w" for w
    using h(3) that by (simp add: pyslice_def b_def)
  have k: "0 \<le> k" using ok by (simp add: c key_ok_def)
  have fit: "b + (if spills v then 4 else length v) \<le> length pg" using h(2) by (simp add: b_def split: if_splits)
  show ?thesis
  proof (cases "spills v")
    case True
    then have ch: "ovf_chain (st_pages st) ps v" "distinct ps" "first_page ps < 2 ^ 32" using ok by (simp_all add: c)
    have "read_overflow_chain store_ops (first_page ps) (length v) st = (Inr v, st)"
      using ch sp by (intro read_overflow_chain_run) (auto simp: c)
    moreover have "unpack_from 4 pg b = Inr (first_page ps)"
      using body [of "be_bytes 4 (first_page ps)"] fit True ch(3) by (simp add: unpack_from_def)
    ultimately show ?thesis
      using True unfolding c projected_cell_def h(1)
      by (simp add: k cell_view_def b_def [symmetric] bindS_def spills_def [symmetric] Let_def)
  next
    case False
    then show ?thesis
      using body [of v] fit unfolding c projected_cell_def h(1)
      by (simp add: k cell_view_def b_def [symmetric] bindS_def spills_def [symmetric] Let_def)
  qed
qed

lemma projected_cells_run:
  assumes t: "tree_at st L d t" and fuel: "d < fuel" "length (leaves t) < fuel"
  shows "seq_scan_projected store_ops fuel (tpage t) D names st =
    (Inr (gen_map (decode_projected_row names D) (map cell_view (cells t)) None), st)"
proof -
  have "mapS (projected_cell store_ops (st_pages st p)) [0..<length cs] st = (Inr (map cell_view cs), st)"
    if "leaf_at (st_pages st) (st_pages st p) cs sib" "set (all_pages cs) \<subseteq> L" for p cs sib
  proof -
    note parts = leaf_at_parts(4,5) [OF that(1)]
    have "mapS (projected_cell store_ops (st_pages st p)) [0..<length cs] st
        = (Inr (map (\<lambda>i. cell_view (cs ! i)) [0..<length cs]), st)"
      using that(2) tree_at_facts(1) [OF t]
      by (intro mapS_run projected_cell_ok [of _ _ _ _ L] parts) (auto simp: all_pages_def dest!: nth_mem)
    moreover have "map (\<lambda>i. cell_view (cs ! i)) [0..<length cs] = map cell_view cs" by (rule nth_equalityI) simp_all
    ultimately show ?thesis by simp
  qed
  note w = tree_walk_run [OF t fuel, of "\<lambda>page n. mapS (projected_cell store_ops page) [0..<n]" "map cell_view", OF this]
  have "concat (map (\<lambda>(p, cs). map cell_view cs) xs) = map cell_view (concat (map snd xs))" for xs :: "(nat \<times> cell list) list"
    by (induction xs) auto
  then show ?thesis using w by (simp add: seq_scan_projected_def bindS_def leaf_list_cells)
qed

section \<open>Decoding fewer columns\<close>

definition seen :: "pystr list \<Rightarrow> nat set \<Rightarrow> pystr set" where
  \<comment> \<open>the names a projected row answers like the full row\<close>
  "seen names D = {n. n \<notin> set names \<or> (\<exists>i \<in> D. i < length names \<and> names ! i = n)}"

lemma map_of_rev_distinct: "distinct (map fst kvs) \<Longrightarrow> map_of (rev kvs) = map_of kvs"
  by (subst map_of_inject_set) (simp_all flip: rev_map)

lemma map_of_zip_nth_eq:
  assumes "distinct xs" and "i < length xs" and "length ys = length xs"
  shows "map_of (zip xs ys) (xs ! i) = Some (ys ! i)"
  using assms by (intro map_of_is_SomeI) (auto simp: set_zip)

lemma pad_nth: "i < n \<Longrightarrow> pad n vs ! i = (if i < length vs then vs ! i else PNull)"
  by (simp add: pad_def nth_append)

lemma length_pad: "n \<le> length (pad n vs)"
  by (simp add: pad_def)

lemma enumerate_lookup: "map_of (filter (\<lambda>(j, _). j \<in> D) (enumerate m vs)) i =
    (if i \<in> D \<and> m \<le> i \<and> i < m + length vs then Some (vs ! (i - m)) else None)"
proof (induction vs arbitrary: m)
  case (Cons v vs)
  then show ?case by (auto simp: nth_Cons')
qed simp

lemma projected_row:
  assumes r: "table_row True names c = Inr r" and names: "plain_names names"
  shows "\<exists>r'. decode_projected_row names D (cell_view c) = Inr r' \<and> agree (seen names D) r' r"
proof -
  obtain k v ps where c: "c = (k, v, ps)" by (cases c)
  let ?mv = "\<not> spills v" and ?n = "length names"
  obtain vals m where views: "decode_record_views ?mv v 0 = Inr (vals, m)"
    and r': "r = dict_put ROWKEY (PInt k) (dict_of (zip names (pad ?n vals)))"
    using r by (auto simp: c table_row_def bindR_eq_Inr_iff)
  obtain sts he b where "decode_header v 0 = Inr (sts, he)" "decode_body ?mv v he sts = Inr (vals, b)"
    using views by (auto simp: decode_record_views_def bindR_eq_Inr_iff)
  then have proj: "decode_record_projected ?mv v 0 D = Inr (filter (\<lambda>(j, _). j \<in> D) (enumerate 0 vals), b)"
    by (simp add: decode_record_projected_def decode_projected_body_agrees)
  let ?g = "\<lambda>i. if i < length vals then vals ! i else PNull"
  let ?is = "filter (\<lambda>i. i \<in> D) [0..<?n]"
  let ?p = "dict_put ROWKEY (PInt k) (dict_of (map (\<lambda>i. (names ! i, ?g i)) ?is))"
  have "map (\<lambda>i. (names ! i, case map_of (filter (\<lambda>(j, _). j \<in> D) (enumerate 0 vals)) i of Some v \<Rightarrow> v | None \<Rightarrow> PNull)) ?is =
      map (\<lambda>i. (names ! i, ?g i)) ?is"
    by (rule map_cong) (auto simp: enumerate_lookup)
  then have "decode_projected_row names D (cell_view c) = Inr ?p"
    using proj by (simp add: c cell_view_def decode_projected_row_def del: map_eq_conv)
  moreover have "map_of ?p n = map_of r n" if sn: "n \<in> seen names D" for n
  proof (cases "n = ROWKEY")
    case False
    have d: "distinct names" using names by (simp add: plain_names_def)
    have keys: "distinct (map fst (map (\<lambda>i. (names ! i, ?g i)) ?is))"
      using d by (auto simp: distinct_map comp_def inj_on_def nth_eq_iff_index_eq)
    have zip_keys: "distinct (map fst (zip names (pad ?n vals)))" using d by (simp add: map_fst_zip_take)
    show ?thesis
    proof (cases "n \<in> set names")
      case True
      then obtain i where i: "i \<in> D" "i < ?n" "names ! i = n" using sn by (auto simp: seen_def)
      have "map_of (map (\<lambda>i. (names ! i, ?g i)) ?is) n = Some (?g i)"
        using keys i by (intro map_of_is_SomeI) auto
      moreover have "map_of (zip names (pad ?n vals)) n = Some (?g i)"
        using zip_keys i length_pad [of ?n vals] by (intro map_of_is_SomeI) (force simp: set_zip pad_nth)+
      ultimately show ?thesis using False by (simp add: r' map_of_rev_distinct [OF keys] map_of_rev_distinct [OF zip_keys])
    next
      case no: False
      then have "map_of (map (\<lambda>i. (names ! i, ?g i)) ?is) n = None" "map_of (zip names (pad ?n vals)) n = None"
        by (auto simp: map_of_eq_None_iff in_set_zip)
      then show ?thesis using False by (simp add: r' map_of_rev_distinct [OF keys] map_of_rev_distinct [OF zip_keys])
    qed
  qed (simp add: r')
  ultimately show ?thesis by (auto simp: agree_def)
qed

lemma projected_rows:
  assumes "mapR (table_row True names) cs = Inr rows" and "plain_names names"
  shows "\<exists>rows'. gen_map (decode_projected_row names D) (map cell_view cs) None = (rows', None) \<and>
    list_all2 (agree (seen names D)) rows' rows"
  using assms(1)
proof (induction cs arbitrary: rows)
  case (Cons c cs)
  then obtain r rs where "table_row True names c = Inr r" "mapR (table_row True names) cs = Inr rs" "rows = r # rs"
    by (auto simp: bindR_eq_Inr_iff)
  with Cons.IH [of rs] projected_row [OF _ assms(2), of c r D] show ?case by auto
qed simp

lemma plain_rows:
  "mapR (table_row False names) cs = Inr rows \<Longrightarrow> gen_map (decode_row names) (map cell_kv cs) None = (rows, None)"
  by (induction cs arbitrary: rows) (auto simp: bindR_eq_Inr_iff decode_row_table)

lemma indices_seen: "set names \<inter> needed \<subseteq> seen names D" if "indices_of names needed \<subseteq> D" "distinct names"
proof
  fix n assume n: "n \<in> set names \<inter> needed"
  then obtain i where i: "i < length names" "names ! i = n" by (auto simp: in_set_conv_nth)
  have d: "distinct (map fst (zip names [0..<length names]))" using that(2) by simp
  have "name_to_idx names n = Some i"
    using i d unfolding name_to_idx_def map_of_rev_distinct [OF d] by (intro map_of_is_SomeI) (auto simp: set_zip)
  then have "i \<in> indices_of names needed" using n i by (auto simp: indices_of_def)
  then show "n \<in> seen names D" using that(1) i by (auto simp: seen_def)
qed

section \<open>The meaning of a query\<close>

definition plain_query ::
  "pylib \<Rightarrow> select_stmt \<Rightarrow> pystr list \<Rightarrow> expr option \<Rightarrow> int option \<Rightarrow> int option \<Rightarrow> row list \<Rightarrow> result_set res" where
  \<comment> \<open>the rows that satisfy WHERE; aggregated, or sorted, projected and cut to OFFSET and LIMIT\<close>
  "plain_query lib stmt names w limit offset rows =
     bindR (gen_list (where_filter lib w (rows, None))) (\<lambda>found.
     case s_aggregate stmt of
       Some agg \<Rightarrow>
         bindR (aggregate_value agg (agg_column stmt) found) (\<lambda>v.
         Inr ([[(aggregate_label agg stmt, v)]], [aggregate_label agg stmt]))
     | None \<Rightarrow>
         bindR (sort_rows lib (sort_col names) stmt found) (\<lambda>sorted.
         bindR (mapR (project_row (star_columns stmt))
                  (if ROWID \<in> set (star_columns stmt) then map resolve_rowid sorted else sorted)) (\<lambda>out.
         Inr (if limit = Some 0 then [] else top_rows limit (skip_rows offset out), out_names names (star_columns stmt)))))"

definition decodes_views :: "select_stmt \<Rightarrow> bool" where
  \<comment> \<open>the executor takes a projected scan, whose blobs are views of the page\<close>
  "decodes_views stmt \<longleftrightarrow> star_columns stmt \<noteq> STAR \<and> s_aggregate stmt = None \<or>
     s_aggregate stmt = Some CountAgg \<and> s_group_by_col stmt = None \<and> s_order_by stmt = None"

definition orderable :: "select_stmt \<Rightarrow> bool" where
  \<comment> \<open>\<open>rowid\<close> is a sort key only where the executor resolves it\<close>
  "orderable stmt \<longleftrightarrow> (\<forall>r. s_order_by2 stmt \<noteq> Some (ROWID, r)) \<and>
     (star_columns stmt = STAR \<longrightarrow> \<not> orders_by_rowid stmt)"

lemma gen_map_of_mapR: "mapR f xs = Inr ys \<Longrightarrow> gen_map f xs e = (ys, e)"
  by (induction xs arbitrary: ys) (auto simp: bindR_eq_Inr_iff)

lemma finish_ok:
  assumes "mapR (project_row (star_columns stmt)) (if ROWID \<in> set (star_columns stmt) then map resolve_rowid rs else rs) = Inr out"
    and "s_aggregate stmt = None"
  shows "finish_select stmt names limit offset (rs, None) =
    Inr (if limit = Some 0 then [] else top_rows limit (skip_rows offset out), out_names names (star_columns stmt))"
proof -
  have "project_op (star_columns stmt) (if ROWID \<in> set (star_columns stmt) then (map resolve_rowid rs, None) else (rs, None)) = (out, None)"
    using gen_map_of_mapR [OF assms(1), of None] by (simp add: project_op_def split: if_splits)
  then show ?thesis
    using assms(2) by (auto simp: finish_select_def Let_def skip_rows_def top_rows_def limit_op_def split: option.split)
qed

lemma finish_aggregate:
  assumes "s_aggregate stmt = Some agg" and "limit \<noteq> Some 0" and "aggregate_value agg (agg_column stmt) rs = Inr v"
  shows "finish_select stmt names limit offset (rs, None) = Inr ([[(aggregate_label agg stmt, v)]], [aggregate_label agg stmt])"
  using assms by (simp add: finish_select_def)

lemma where_agree:
  assumes "list_all2 (agree A) rs rs'" and "where_names w \<subseteq> A"
    and "gen_list (where_filter lib w (rs', None)) = Inr found'"
  shows "\<exists>found. where_filter lib w (rs, None) = (found, None) \<and> list_all2 (agree A) found found'"
proof (cases w)
  case (Some e)
  have "collect_column_names e \<subseteq> A" using assms(2) Some by (simp add: where_names_def)
  from agree_filter [OF assms(1) this, of lib None] assms(3) Some show ?thesis
    by (cases "filter_op lib e rs None") (auto simp: where_filter_def gen_list_def split: option.splits)
qed (use assms in \<open>simp add: where_filter_def gen_list_def\<close>)

lemma sort_selected_eq:
  assumes "orderable stmt" and "projected \<longleftrightarrow> star_columns stmt \<noteq> STAR \<and> s_aggregate stmt = None" and "s_aggregate stmt = None"
    and "sort_rows lib (sort_col names) stmt rs = Inr out"
  shows "sort_selected lib projected names stmt (rs, None) = Inr (out, None)"
proof -
  have col: "sort_col_name projected names c = Inr (sort_col names c)"
    if "s_order_by stmt = Some (c, r) \<or> s_order_by2 stmt = Some (c, r)" for c r
    using that assms(1,2,3) by (cases r) (auto simp: sort_col_name_def sort_col_def orderable_def orders_by_rowid_def)
  note col1 = col [OF disjI1] and col2 = col [OF disjI2]
  show ?thesis
    using assms(3,4) by (auto simp: sort_selected_def sort_rows_def col1 col2 split: option.splits)
qed

lemma select_pipeline:
  assumes rows: "list_all2 (agree A) rows' rows" and star: "star_columns stmt = STAR \<Longrightarrow> rows' = rows"
    and A: "where_names w \<subseteq> A" "ROWKEY \<in> A" "\<And>c. c \<in> set (star_columns stmt) \<Longrightarrow> c \<noteq> ROWID \<Longrightarrow> c \<in> A"
      "ROWID \<in> set (star_columns stmt) \<Longrightarrow> ROWID_SOURCE \<in> A"
      "\<And>c r. s_order_by stmt = Some (c, r) \<or> s_order_by2 stmt = Some (c, r) \<Longrightarrow> sort_col names c \<in> A"
    and agg: "s_aggregate stmt \<noteq> None \<Longrightarrow> rows' = rows \<and> limit \<noteq> Some 0"
    and ord: "orderable stmt" and q: "plain_query lib stmt names w limit offset rows = Inr res"
  shows "bindR (sort_selected lib (star_columns stmt \<noteq> STAR \<and> s_aggregate stmt = None) names stmt (where_filter lib w (rows', None)))
      (finish_select stmt names limit offset) = Inr res"
proof -
  obtain found where found: "gen_list (where_filter lib w (rows, None)) = Inr found"
    using q by (auto simp: plain_query_def bindR_eq_Inr_iff)
  from where_agree [OF rows A(1) this] obtain found' where
    f: "where_filter lib w (rows', None) = (found', None)" "list_all2 (agree A) found' found" by blast
  show ?thesis
  proof (cases "s_aggregate stmt")
    case (Some agg)
    then have "found' = found" using agg f(1) found by simp
    moreover obtain v where "aggregate_value agg (agg_column stmt) found = Inr v"
      "res = ([[(aggregate_label agg stmt, v)]], [aggregate_label agg stmt])"
      using q found Some by (auto simp: plain_query_def bindR_eq_Inr_iff)
    ultimately show ?thesis using f(1) Some assms(8) finish_aggregate [OF Some] by (simp add: sort_selected_def)
  next
    case None
    let ?cols = "star_columns stmt"
    let ?res = "\<lambda>rs. if ROWID \<in> set ?cols then map resolve_rowid rs else rs"
    obtain srt out where s: "sort_rows lib (sort_col names) stmt found = Inr srt"
      "mapR (project_row ?cols) (?res srt) = Inr out"
      "res = (if limit = Some 0 then [] else top_rows limit (skip_rows offset out), out_names names ?cols)"
      using q found None by (auto simp: plain_query_def bindR_eq_Inr_iff)
    have "rel_res (list_all2 (agree A)) (sort_rows lib (sort_col names) stmt found') (sort_rows lib (sort_col names) stmt found)"
      by (rule agree_sort_rows [OF f(2)]) (use A(5) in blast)+
    then obtain srt' where s': "sort_rows lib (sort_col names) stmt found' = Inr srt'" "list_all2 (agree A) srt' srt"
      using s(1) by (cases "sort_rows lib (sort_col names) stmt found'") auto
    have "mapR (project_row ?cols) (?res srt') = mapR (project_row ?cols) (?res srt)"
    proof (cases "?cols = STAR")
      case True
      then have "found' = found" using star f(1) found by simp
      then show ?thesis using s(1) s'(1) by simp
    next
      case False
      have res: "list_all2 (agree (A \<union> (if ROWID \<in> set ?cols then {ROWID} else {}))) (?res srt') (?res srt)"
        using s'(2) agree_resolve [OF _ A(2) A(4)]
        by (auto simp: list_all2_conv_all_nth)
      have "set ?cols \<subseteq> A \<union> (if ROWID \<in> set ?cols then {ROWID} else {})" using A(3) by auto
      with mapR_rel [OF res, of "(=)" "project_row ?cols" "project_row ?cols"] agree_select False show ?thesis
        by (auto simp: project_row_def sum.rel_eq list.rel_eq intro!: rel_eqD)
    qed
    with s(2) have "mapR (project_row ?cols) (?res srt') = Inr out" by simp
    from finish_ok [OF this None] sort_selected_eq [OF ord refl None s'(1)] f(1) s(3) show ?thesis by simp
  qed
qed

lemma full_rows_run:
  assumes t: "tree_at st L d t" "d < fuel" "length (leaves t) < fuel" "length (cells t) < fuel"
    and rows: "mapR (table_row False names) (cells t) = Inr rows"
  shows "seq_scan store_ops fuel (tpage t) names st = (Inr (rows, None), st)"
  using scan_cells_run [OF t] plain_rows [OF rows] by (simp add: seq_scan_def bindS_def)

lemma projected_rows_run:
  assumes t: "tree_at st L d t" "d < fuel" "length (leaves t) < fuel"
    and rows: "mapR (table_row True names) (cells t) = Inr rows" and names: "plain_names names"
  obtains rows' where "seq_scan_projected store_ops fuel (tpage t) D names st = (Inr (rows', None), st)"
    "list_all2 (agree (seen names D)) rows' rows"
  using projected_cells_run [OF t, of D names] projected_rows [OF rows names, of D] by auto

lemma agree_refl: "list_all2 (agree A) rs rs"
  by (simp add: agree_def list_all2_conv_all_nth)

lemma seen_mono: "D \<subseteq> D' \<Longrightarrow> seen names D \<subseteq> seen names D'"
  by (auto simp: seen_def)

lemma needed_seen: "indices_of names needed \<subseteq> D \<Longrightarrow> distinct names \<Longrightarrow> needed \<subseteq> seen names D"
  using indices_seen [of names needed D] by (auto simp: seen_def)

lemma count_select_run:
  assumes t: "tree_at st L d t" "d < fuel" "length (leaves t) < fuel"
    and names: "plain_names names" and rows: "mapR (table_row True names) (cells t) = Inr rows"
    and agg: "s_aggregate stmt = Some CountAgg" and q: "plain_query lib stmt names w limit offset rows = Inr res"
  shows "count_select lib store_ops fuel stmt (tpage t) names w st = (Inr res, st)"
proof -
  obtain found where found: "gen_list (where_filter lib w (rows, None)) = Inr found"
    "res = ([[(aggregate_label CountAgg stmt, PInt (int (length found)))]], [aggregate_label CountAgg stmt])"
    using q agg by (auto simp: plain_query_def bindR_eq_Inr_iff aggregate_value_def)
  show ?thesis
  proof (cases w)
    case None
    then have "length found = length (cells t)"
      using found(1) mapR_length [OF rows] by (simp add: where_filter_def gen_list_def)
    then show ?thesis using None found(2) count_run [OF t] by (simp add: count_select_def bindS_def Let_def)
  next
    case (Some e)
    let ?D = "indices_of names (collect_column_names e)"
    obtain rows' where scan: "seq_scan_projected store_ops fuel (tpage t) ?D names st = (Inr (rows', None), st)"
      "list_all2 (agree (seen names ?D)) rows' rows"
      using projected_rows_run [OF t rows names] .
    have "where_names w \<subseteq> seen names ?D" using needed_seen names Some by (simp add: where_names_def plain_names_def)
    from where_agree [OF scan(2) this found(1)] obtain found' where
      "where_filter lib w (rows', None) = (found', None)" "list_all2 (agree (seen names ?D)) found' found" by blast
    then show ?thesis
      using Some scan(1) found(2) by (simp add: count_select_def bindS_def Let_def list_all2_lengthD)
  qed
qed

lemma scan_select_run:
  assumes t: "tree_at st L d t" "d < fuel" "length (leaves t) < fuel" "length (cells t) < fuel"
    and names: "plain_names names" and ord: "orderable stmt"
    and rows: "mapR (table_row (star_columns stmt \<noteq> STAR \<and> s_aggregate stmt = None) names) (cells t) = Inr rows"
    and limit: "s_aggregate stmt = None \<or> limit \<noteq> Some 0" and q: "plain_query lib stmt names w limit offset rows = Inr res"
  shows "scan_select lib store_ops fuel stmt (tpage t) names w limit offset st = (Inr res, st)"
proof (cases "limit = Some 0 \<and> (s_order_by stmt = None \<or> s_aggregate stmt \<noteq> None)")
  case True
  then have "res = ([], out_names names (star_columns stmt))"
    using q limit by (auto simp: plain_query_def bindR_eq_Inr_iff)
  then show ?thesis
    using True limit by (cases w) (auto simp: scan_select_def Let_def sort_selected_def finish_select_def where_filter_def)
next
  case started: False
  define projected where "projected \<longleftrightarrow> star_columns stmt \<noteq> STAR \<and> s_aggregate stmt = None"
  have d: "distinct names" "ROWKEY \<notin> set names" using names by (simp_all add: plain_names_def)
  obtain rows' A where scan: "(if projected then seq_scan_projected store_ops fuel (tpage t) (select_decode stmt names w) names
        else seq_scan store_ops fuel (tpage t) names) st = (Inr (rows', None), st)"
    and A: "list_all2 (agree A) rows' rows" "\<not> projected \<Longrightarrow> rows' = rows" "where_names w \<subseteq> A" "ROWKEY \<in> A"
      "\<And>c. c \<in> set (star_columns stmt) \<Longrightarrow> c \<in> A" "ROWID \<in> set (star_columns stmt) \<Longrightarrow> ROWID_SOURCE \<in> A"
      "\<And>c r. s_order_by stmt = Some (c, r) \<or> s_order_by2 stmt = Some (c, r) \<Longrightarrow> sort_col names c \<in> A"
  proof (cases projected)
    case True
    let ?D = "select_decode stmt names w"
    have "mapR (table_row True names) (cells t) = Inr rows" using rows True by (simp add: projected_def)
    from projected_rows_run [OF t(1-3) this names] obtain rows' where
      r: "seq_scan_projected store_ops fuel (tpage t) ?D names st = (Inr (rows', None), st)"
        "list_all2 (agree (seen names ?D)) rows' rows" .
    have needed: "needed \<subseteq> seen names ?D" if "indices_of names needed \<subseteq> ?D" for needed
      using needed_seen [OF that d(1)] .
    have "order_names stmt \<subseteq> seen names ?D" by (rule needed) (auto simp: select_decode_def)
    then have plain: "c \<in> seen names ?D" if "s_order_by stmt = Some (c, r) \<or> s_order_by2 stmt = Some (c, r)" for c r
      using that by (auto simp: order_names_def)
    have src: "{ROWID_SOURCE} \<subseteq> seen names ?D" if "ROWID \<in> set (star_columns stmt) \<or> orders_by_rowid stmt"
      by (rule needed) (use that in \<open>auto simp: select_decode_def\<close>)
    show thesis
    proof (rule that [of rows' "seen names ?D"])
      show "where_names w \<subseteq> seen names ?D" by (rule needed) (auto simp: select_decode_def)
      show "ROWKEY \<in> seen names ?D" using d by (simp add: seen_def)
      have "set (star_columns stmt) \<subseteq> seen names ?D" by (rule needed) (auto simp: select_decode_def)
      then show "c \<in> seen names ?D" if "c \<in> set (star_columns stmt)" for c using that by blast
      show "ROWID_SOURCE \<in> seen names ?D" if "ROWID \<in> set (star_columns stmt)" using src that by blast
      show "sort_col names c \<in> seen names ?D" if o: "s_order_by stmt = Some (c, r) \<or> s_order_by2 stmt = Some (c, r)" for c r
      proof (cases "c = ROWID")
        case True
        then have "orders_by_rowid stmt" using o ord by (cases r) (auto simp: orderable_def orders_by_rowid_def)
        then show ?thesis using src True d(2) by (auto simp: sort_col_def seen_def)
      qed (use plain [OF o] in \<open>simp add: sort_col_def\<close>)
    qed (use r True in simp_all)
  next
    case False
    then have "mapR (table_row False names) (cells t) = Inr rows" using rows by (auto simp: projected_def)
    from full_rows_run [OF t this] show thesis
      by (intro that [of rows UNIV]) (use False agree_refl in simp_all)
  qed
  have pipe: "bindR (sort_selected lib projected names stmt (where_filter lib w (rows', None))) (finish_select stmt names limit offset) = Inr res"
    unfolding projected_def
    by (rule select_pipeline [OF A(1) _ A(3,4) _ A(6,7) _ ord q]) (use A(2,5) limit in \<open>auto simp: projected_def\<close>)
  then obtain src where "sort_selected lib projected names stmt (where_filter lib w (rows', None)) = Inr src"
    "finish_select stmt names limit offset src = Inr res" by (auto simp: bindR_eq_Inr_iff)
  then show ?thesis
    using scan unfolding scan_select_def Let_def projected_def [symmetric] if_not_P [OF started] by (simp add: bindS_def)
qed

lemma plain_select_run:
  assumes t: "tree_at st L d t" "d < fuel" "length (leaves t) < fuel" "length (cells t) < fuel"
    and names: "plain_names names" "orderable stmt" and rows: "mapR (table_row (decodes_views stmt) names) (cells t) = Inr rows"
    and limit: "s_aggregate stmt = None \<or> limit \<noteq> Some 0" and q: "plain_query lib stmt names w limit offset rows = Inr res"
  shows "plain_select lib store_ops fuel stmt (tpage t) names w limit offset st = (Inr res, st)"
proof (cases "s_aggregate stmt = Some CountAgg \<and> s_group_by_col stmt = None \<and> s_order_by stmt = None")
  case True
  then have "decodes_views stmt" by (simp add: decodes_views_def)
  then show ?thesis
    using count_select_run [OF t(1-3) names(1) _ _ q] rows True by (simp add: plain_select_def)
next
  case False
  then have "decodes_views stmt \<longleftrightarrow> star_columns stmt \<noteq> STAR \<and> s_aggregate stmt = None" by (auto simp: decodes_views_def)
  then show ?thesis
    using scan_select_run [OF t names _ limit q] rows False by (auto simp: plain_select_def)
qed

section \<open>The id lookup\<close>

definition id_lookup :: "expr option \<Rightarrow> id_index \<Rightarrow> int option \<Rightarrow> ((pystr \<Rightarrow> int option) \<times> pystr) option" where
  \<comment> \<open>the index a SELECT asks and the id it looks up, when it takes the fast path\<close>
  "id_lookup w idx limit =
     (case (w, idx, limit) of
        (Some e, Some index, Some n) \<Rightarrow> (if 1 \<le> n then map_option (Pair index) (extract_id_eq e) else None)
      | _ \<Rightarrow> None)"

definition lookup_plain :: "select_stmt \<Rightarrow> pystr list \<Rightarrow> int option \<Rightarrow> bool" where
  \<comment> \<open>what the fast path handles: no aggregate, no OFFSET, \<open>rowid\<close> from a column of the table\<close>
  "lookup_plain stmt names offset \<longleftrightarrow> s_aggregate stmt = None \<and> (\<forall>n. offset = Some n \<longrightarrow> n \<le> 0) \<and>
     ROWKEY \<notin> set (star_columns stmt) \<and> (ROWID \<in> set (star_columns stmt) \<longrightarrow> ROWID_SOURCE \<in> set names)"

lemma execute_select_path:
  assumes "column_names cat (s_table stmt) = Inr names" and "bind_select named stmt params = Inr ([], w, limit, offset)"
    and "s_group_by_col stmt = None"
  shows "execute_select lib ops fuel stmt params named root cat idx =
    (case id_lookup w idx limit of
       None \<Rightarrow> plain_select lib ops fuel stmt root names w limit offset
     | Some (index, s) \<Rightarrow>
         bindS (lookup_select lib ops fuel stmt root names (the w) index s) (\<lambda>found.
         case found of Some result \<Rightarrow> retS result | None \<Rightarrow> plain_select lib ops fuel stmt root names w limit offset))"
  using assms by (auto simp: execute_select_def id_lookup_def split: option.split)

lemma sort_one: "sort_rows lib col stmt [] = Inr out \<Longrightarrow> out = []" "sort_rows lib col stmt [r] = Inr out \<Longrightarrow> out = [r]"
  by (auto simp: sort_rows_def order_by_def order_by_keys_def bindR_eq_Inr_iff split: option.splits)

lemma full_row_of:
  assumes "table_row False names c = Inr r"
  shows "\<exists>row. plain_row names (snd (cell_kv c)) = Inr row \<and> r = dict_put ROWKEY (PInt (fst (cell_kv c))) row"
  using assms unfolding decode_row_table [symmetric] by (auto simp: decode_row_def bindR_eq_Inr_iff case_prod_beta)

lemma full_rows_of:
  assumes "mapR (table_row False names) cs = Inr rows"
  shows "rows = map (\<lambda>(k, p). dict_put ROWKEY (PInt k) (row_of names p)) (map cell_kv cs) \<and>
    (\<forall>(k, p) \<in> set (map cell_kv cs). plain_row names p = Inr (row_of names p))"
  using assms
proof (induction cs arbitrary: rows)
  case (Cons c cs)
  obtain r rs where r: "table_row False names c = Inr r" "mapR (table_row False names) cs = Inr rs" "rows = r # rs"
    using Cons.prems by (auto simp: bindR_eq_Inr_iff)
  obtain k p where kp: "cell_kv c = (k, p)" by (cases "cell_kv c")
  then obtain row where row: "plain_row names p = Inr row" "r = dict_put ROWKEY (PInt k) row" using full_row_of [OF r(1)] by auto
  then have "row_of names p = row" by (simp add: row_of_def)
  then show ?case using Cons.IH [OF r(2)] kp r(3) row by simp
qed simp

lemma id_column_key: "id_column \<noteq> ROWKEY"
  by (simp add: id_column_def ROWKEY_def pystr_of_def)

lemma id_found:
  \<comment> \<open>the rows of the table with this id are those the index names\<close>
  assumes t: "tree_at st L d t" and rows: "mapR (table_row False names) (cells t) = Inr rows"
    and exact: "exact_index names index (tree_map t)" and e: "extract_id_eq e = Some s"
  shows "where_filter lib (Some e) (rows, None) = (case index s of None \<Rightarrow> ([], None)
    | Some k \<Rightarrow> ([dict_put ROWKEY (PInt k) (row_of names (the (tree_map t k)))], None))"
    and "index s = Some k \<Longrightarrow> \<exists>p. tree_map t k = Some p \<and> id_of names p = Some s \<and> plain_row names p = Inr (row_of names p)"
proof -
  let ?kvs = "map cell_kv (cells t)" and ?full = "\<lambda>(k, p). dict_put ROWKEY (PInt k) (row_of names p)"
  note rs = conjunct1 [OF full_rows_of [OF rows]] conjunct2 [OF full_rows_of [OF rows]]
  have dist: "distinct (map fst ?kvs)" using ordered_cells [OF tree_at_facts(3) [OF t]] by (simp add: strict_sorted_iff comp_def)
  note ex = exact [unfolded tree_map_def]
  have ids: "\<exists>s'. id_of names p = Some s' \<and> row_get (row_of names p) id_column = PStr s'" if "(k, p) \<in> set ?kvs" for k p
  proof -
    have "p \<in> ran (map_of ?kvs)" using that map_of_is_SomeI [OF dist that] by (auto simp: ran_def)
    then have "id_of names p \<noteq> None" using ex by (simp add: exact_index_def)
    then show ?thesis using rs(2) that by (fastforce simp: id_of_def split: pyval.splits)
  qed
  have "eval_expr lib r e = Inr (PBool (row_get r id_column = PStr s))" if mem: "r \<in> set rows" for r
  proof -
    from mem have "r \<in> ?full ` set ?kvs" unfolding rs(1) set_map [of ?full] .
    then obtain kp where "kp \<in> set ?kvs" "r = ?full kp" by (rule imageE)
    then obtain k p where kp: "(k, p) \<in> set ?kvs" "r = ?full (k, p)" by (metis prod.collapse)
    then obtain s' where "row_get r id_column = PStr s'" using ids id_column_key by (auto simp: row_get_def)
    then show ?thesis using eval_id_eq(1) [OF e] by simp
  qed
  from filter_op_ok [of rows lib e, OF this]
  have "where_filter lib (Some e) (rows, None) = (filter (\<lambda>r. row_get r id_column = PStr s) rows, None)"
    by (simp add: where_filter_def accepts_def)
  also have "filter (\<lambda>r. row_get r id_column = PStr s) rows = map ?full (filter (\<lambda>(k, p). id_of names p = Some s) ?kvs)"
  proof -
    have "row_get (?full kp) id_column = PStr s \<longleftrightarrow> (case kp of (k, p) \<Rightarrow> id_of names p = Some s)" if "kp \<in> set ?kvs" for kp
      using ids [of "fst kp" "snd kp"] that id_column_key by (auto simp: row_get_def case_prod_beta)
    then have "filter ((\<lambda>r. row_get r id_column = PStr s) \<circ> ?full) ?kvs = filter (\<lambda>(k, p). id_of names p = Some s) ?kvs"
      by (intro filter_cong refl) simp
    then show ?thesis unfolding rs(1) filter_map [of _ ?full] by (rule arg_cong)
  qed
  finally show "where_filter lib (Some e) (rows, None) = (case index s of None \<Rightarrow> ([], None)
      | Some k \<Rightarrow> ([dict_put ROWKEY (PInt k) (row_of names (the (tree_map t k)))], None))"
    unfolding exact_filter(1) [OF ex dist] by (simp add: tree_map_def split: option.split)
  show "\<exists>p. tree_map t k = Some p \<and> id_of names p = Some s \<and> plain_row names p = Inr (row_of names p)" if "index s = Some k"
    using exact_filter(2) [OF ex dist that] rs(2) map_of_SomeD [of ?kvs k] by (fastforce simp: tree_map_def)
qed

lemma row_keys: "plain_row names p = Inr row \<Longrightarrow> fst ` set row = set names"
proof -
  assume "plain_row names p = Inr row"
  then obtain vals n where row: "row = dict_of (zip names (pad (length names) vals))" by (auto simp: plain_row_def bindR_eq_Inr_iff)
  have "fst ` set row = dom (map_of row)" by (rule dom_map_of_conv_image_fst [symmetric])
  also have "\<dots> = fst ` set (zip names (pad (length names) vals))" by (simp add: row dom_map_of_conv_image_fst)
  also have "\<dots> = set names" by (metis length_pad map_fst_zip_take min.absorb1 set_map take_all_iff order_refl)
  finally show ?thesis .
qed

lemma strip_key:
  assumes "\<forall>(c, v) \<in> set row. c \<notin> {ROWKEY, ROWID}"
  shows "filter (\<lambda>(c, v). c \<notin> {ROWKEY, ROWID}) (dict_put ROWKEY x row) = row"
  using assms by (induction row) auto

lemma lookup_projects:
  \<comment> \<open>the row without its key projects like the scanned row\<close>
  assumes row: "plain_row names p = Inr row" and names: "plain_names names" and plain: "lookup_plain stmt names offset"
  shows "project_row (star_columns stmt) (if ROWID \<in> set (star_columns stmt) then resolve_rowid (dict_put ROWKEY (PInt k) row) else dict_put ROWKEY (PInt k) row) =
    (if star_columns stmt = STAR then Inr row
     else select_columns (star_columns stmt) (if ROWID \<in> set (star_columns stmt) then resolve_rowid row else row))"
proof (cases "star_columns stmt = STAR")
  case True
  have "ROWID \<notin> set STAR" by (simp add: STAR_def ROWID_def pystr_of_def)
  moreover have "c \<in> set names" if "(c, v) \<in> set row" for c v using row_keys [OF row] that by force
  then have "\<forall>(c, v) \<in> set row. c \<notin> {ROWKEY, ROWID}" using names by (auto simp: plain_names_def)
  ultimately show ?thesis using strip_key True by (simp add: project_row_def)
next
  case False
  let ?A = "- {ROWKEY}" and ?full = "dict_put ROWKEY (PInt k) row"
  have full: "agree ?A ?full row" by (simp add: agree_def)
  have cols: "set (star_columns stmt) \<subseteq> ?A" using plain by (auto simp: lookup_plain_def)
  have "agree ?A (resolve_rowid ?full) (resolve_rowid row)" if "ROWID \<in> set (star_columns stmt)"
  proof -
    have src: "ROWID_SOURCE \<in> fst ` set row" using that plain row_keys [OF row] by (simp add: lookup_plain_def)
    then obtain v where "map_of row ROWID_SOURCE = Some v" by (metis dom_map_of_conv_image_fst domD)
    moreover have "ROWID_SOURCE \<noteq> ROWKEY" using src row_keys [OF row] names by (auto simp: plain_names_def)
    ultimately show ?thesis by (simp add: resolve_rowid_def agree_def)
  qed
  then show ?thesis using False agree_select [OF full cols] agree_select [OF _ cols] by (auto simp: project_row_def)
qed

lemma lookup_select_run:
  \<comment> \<open>the fast path returns what the query means\<close>
  assumes t: "tree_at st L d t" "d < fuel" and names: "plain_names names"
    and rows: "mapR (table_row False names) (cells t) = Inr rows"
    and id: "id_lookup w idx limit = Some (index, s)" and plain: "lookup_plain stmt names offset"
    and serves: "exact_index names index (tree_map t)" "found_in_leaf index s (tree_map t)"
    and q: "plain_query lib stmt names w limit offset rows = Inr res"
  shows "lookup_select lib store_ops fuel stmt (tpage t) names (the w) index s st = (Inr (Some res), st)"
proof -
  obtain e n where w: "w = Some e" "limit = Some n" "1 \<le> n" "extract_id_eq e = Some s"
    using id by (auto simp: id_lookup_def split: option.splits if_splits)
  note found = id_found [OF t(1) rows serves(1) w(4)]
  let ?cols = "star_columns stmt"
  let ?res = "\<lambda>rs. if ROWID \<in> set ?cols then map resolve_rowid rs else rs"
  have cut: "(if limit = Some 0 then [] else top_rows limit (skip_rows offset xs)) = xs" if "length xs \<le> 1" for xs :: "row list"
    using plain w(2,3) that by (auto simp: lookup_plain_def skip_rows_def top_rows_def split: option.split)
  have agg: "s_aggregate stmt = None" using plain by (simp add: lookup_plain_def)
  show ?thesis
  proof (cases "index s")
    case None
    then have "where_filter lib w (rows, None) = ([], None)" using found(1) w(1) by simp
    then obtain out where "mapR (project_row ?cols) (?res []) = Inr out" "res = (if limit = Some 0 then [] else top_rows limit (skip_rows offset out), out_names names ?cols)"
      using q agg by (auto simp: plain_query_def gen_list_def bindR_eq_Inr_iff dest!: sort_one(1))
    then have "res = ([], out_names names ?cols)" using cut [of "[]"] by (cases "ROWID \<in> set ?cols") auto
    then show ?thesis using None by (simp add: lookup_select_def)
  next
    case (Some k)
    then obtain p where p: "tree_map t k = Some p" "id_of names p = Some s" "plain_row names p = Inr (row_of names p)"
      using found(2) by blast
    let ?r = "row_of names p" and ?full = "dict_put ROWKEY (PInt k) (row_of names p)"
    have "where_filter lib w (rows, None) = ([?full], None)" using found(1) w(1) Some p(1) by simp
    then obtain out where out: "mapR (project_row ?cols) (?res [?full]) = Inr out" "res = (out, out_names names ?cols)"
      using q agg cut mapR_length by (fastforce simp: plain_query_def gen_list_def bindR_eq_Inr_iff dest!: sort_one(2))
    have "\<not> spills p" using serves(2) Some p(1) by (simp add: found_in_leaf_def)
    moreover obtain v where "eval_expr lib ?r e = Inr v" "accepts v"
      using id_eq_hit [OF w(4) p(3)] p(2) by fastforce
    ultimately have look: "lookup_row lib store_ops fuel (tpage t) names e k st = (Inr (Some ?r), st)"
      using lookup_row_run(1) [OF t p(1) _ p(3)] by simp
    have one: "?res [?full] = [if ROWID \<in> set ?cols then resolve_rowid ?full else ?full]" by simp
    obtain x where "(if ?cols = STAR then Inr ?r else select_columns ?cols (if ROWID \<in> set ?cols then resolve_rowid ?r else ?r)) = Inr x"
      "out = [x]"
      using out(1) unfolding one lookup_projects [OF p(3) names plain, of k, symmetric] by (auto simp: bindR_eq_Inr_iff)
    then show ?thesis using Some w(1) look out(2) by (simp add: lookup_select_def bindS_def Let_def)
  qed
qed

text \<open>
  C4. SELECT answers its query. A SELECT of columns or of one aggregate, with WHERE, ORDER BY (one key or
  two), LIMIT and OFFSET, literals or parameters, on a sound tree whose rows decode: \<open>execute_select\<close>,
  with or without the index from ids to row keys the connection passes, returns what the reference
  returns on the fully decoded rows, that is the rows that satisfy the predicate, aggregated, or sorted,
  projected and cut. So the lookup through the index, decoding only the columns the executor collects,
  counting cells in leaf headers, and pulling rows lazily change nothing, and the database is left as it
  was. The scope: no GROUP BY and no list of expressions; the sort may use \<open>rowid\<close> as the first key of an
  explicit column list only; no aggregate with LIMIT 0, which returns no row. Where the index is asked
  (WHERE is \<open>id = 'text'\<close> and LIMIT at least 1) it has to be exact, the row stored in its leaf, and the
  statement without aggregate, OFFSET, or a \<open>rowid\<close> that no column carries: \<open>aggregate_by_id\<close> and
  \<open>offset_by_id\<close> below show what the fast path returns otherwise.
\<close>

theorem select_answers_query:
  assumes "tree_at st L d t" and "d < fuel" "length (leaves t) < fuel" "length (cells t) < fuel"
    and "column_names cat (s_table stmt) = Inr names" and "bind_select named stmt params = Inr ([], w, limit, offset)"
    and "s_group_by_col stmt = None" and "plain_names names" and "orderable stmt" and "s_aggregate stmt = None \<or> limit \<noteq> Some 0"
    and "\<forall>index s. id_lookup w idx limit = Some (index, s) \<longrightarrow>
           lookup_plain stmt names offset \<and> exact_index names index (tree_map t) \<and> found_in_leaf index s (tree_map t)"
    and "mapR (table_row (decodes_views stmt \<and> id_lookup w idx limit = None) names) (cells t) = Inr rows"
    and "plain_query lib stmt names w limit offset rows = Inr res"
  shows "execute_select lib store_ops fuel stmt params named (tpage t) cat idx st = (Inr res, st)"
proof (cases "id_lookup w idx limit")
  case None
  then show ?thesis
    using plain_select_run [OF assms(1-4,8,9) _ assms(10,13)] assms(12) by (simp add: execute_select_path [OF assms(5-7)])
next
  case (Some ixs)
  obtain index s where ix: "ixs = (index, s)" by (cases ixs)
  have rows: "mapR (table_row False names) (cells t) = Inr rows" using assms(12) Some by simp
  have "lookup_select lib store_ops fuel stmt (tpage t) names (the w) index s st = (Inr (Some res), st)"
    using assms(11) Some ix by (intro lookup_select_run [OF assms(1,2,8) rows Some [unfolded ix] _ _ _ assms(13)]) simp_all
  then show ?thesis using Some ix by (simp add: execute_select_path [OF assms(5-7)] bindS_def)
qed

lemma lookup_hits:
  assumes "tree_at st L d t" "d < fuel" and "exact_index names index (tree_map t)" and "index s = Some k"
    and "tree_map t k = Some p" "\<not> spills p" "plain_row names p = Inr row" and "extract_id_eq e = Some s" and "star_columns stmt = STAR"
  shows "lookup_select lib store_ops fuel stmt (tpage t) names e index s st = (Inr (Some ([row], names)), st)"
proof -
  have "id_of names p = Some s" using assms(3-5) by (auto simp: exact_index_def)
  then obtain v where "eval_expr lib row e = Inr v" "accepts v" using id_eq_hit [OF assms(8,7)] by fastforce
  then show ?thesis
    using lookup_row_run(1) [OF assms(1,2,5,6,7)] assms(4,9) by (simp add: lookup_select_def bindS_def out_names_def)
qed

theorem aggregate_by_id:
  \<comment> \<open>the fast path ignores the aggregate: \<open>SELECT COUNT(*) ... WHERE id = 'x' LIMIT 1\<close> is the row of \<open>x\<close>, where the
     same statement without an index counts\<close>
  assumes "tree_at st L d t" and "d < fuel" "length (leaves t) < fuel" "length (cells t) < fuel"
    and "column_names cat (s_table stmt) = Inr names" and "bind_select named stmt params = Inr ([], w, Some n, offset)" and "1 \<le> n"
    and "s_group_by_col stmt = None" "s_order_by stmt = None" "s_aggregate stmt = Some CountAgg" "s_columns stmt = []"
    and "plain_names names" and "w = Some e" "extract_id_eq e = Some s"
    and "exact_index names index (tree_map t)" "index s = Some k" "tree_map t k = Some p" "\<not> spills p"
    and "mapR (table_row True names) (cells t) = Inr rows" and "mapR (table_row False names) (cells t) = Inr rows"
  shows "execute_select lib store_ops fuel stmt params named (tpage t) cat (Some index) st = (Inr ([row_of names p], names), st)"
    and "execute_select lib store_ops fuel stmt params named (tpage t) cat None st =
      (Inr ([[(aggregate_label CountAgg stmt, PInt 1)]], [aggregate_label CountAgg stmt]), st)"
proof -
  have path: "id_lookup w (Some index) (Some n) = Some (index, s)" "id_lookup w None (Some n) = None"
    using assms(7,13,14) by (simp_all add: id_lookup_def)
  note found = id_found [OF assms(1,20,15,14)]
  obtain p' where p: "tree_map t k = Some p'" "plain_row names p' = Inr (row_of names p')" using found(2) [OF assms(16)] by blast
  have star: "star_columns stmt = STAR" using assms(11) by (simp add: star_columns_def)
  have "lookup_select lib store_ops fuel stmt (tpage t) names e index s st = (Inr (Some ([row_of names p], names)), st)"
    using lookup_hits [OF assms(1,2,15-18) _ assms(14) star] p assms(17) by simp
  then show "execute_select lib store_ops fuel stmt params named (tpage t) cat (Some index) st = (Inr ([row_of names p], names), st)"
    using path(1) assms(13) by (simp add: execute_select_path [OF assms(5,6,8)] bindS_def)
  have "plain_query lib stmt names w (Some n) offset rows =
      Inr ([[(aggregate_label CountAgg stmt, PInt 1)]], [aggregate_label CountAgg stmt])"
    using found(1) assms(10,13,16) by (simp add: plain_query_def gen_list_def aggregate_value_def)
  from count_select_run [OF assms(1-3,12,19,10) this]
  show "execute_select lib store_ops fuel stmt params named (tpage t) cat None st =
      (Inr ([[(aggregate_label CountAgg stmt, PInt 1)]], [aggregate_label CountAgg stmt]), st)"
    using path(2) assms(8-10) by (simp add: execute_select_path [OF assms(5,6,8)] plain_select_def)
qed

theorem offset_by_id:
  \<comment> \<open>and it ignores OFFSET: the row is returned however many rows are to be skipped\<close>
  assumes "tree_at st L d t" "d < fuel" and "column_names cat (s_table stmt) = Inr names"
    and "bind_select named stmt params = Inr ([], Some e, Some n, offset)" and "1 \<le> n" and "s_group_by_col stmt = None" "s_columns stmt = []"
    and "extract_id_eq e = Some s" and "exact_index names index (tree_map t)" "index s = Some k"
    and "tree_map t k = Some p" "\<not> spills p" "plain_row names p = Inr row"
  shows "execute_select lib store_ops fuel stmt params named (tpage t) cat (Some index) st = (Inr ([row], names), st)"
proof -
  have "id_lookup (Some e) (Some index) (Some n) = Some (index, s)" "star_columns stmt = STAR"
    using assms(5,7,8) by (simp_all add: id_lookup_def star_columns_def)
  then show ?thesis
    using lookup_hits [OF assms(1,2,9-13,8)] by (simp add: execute_select_path [OF assms(3,4,6)] bindS_def)
qed

section \<open>A small table\<close>

definition id_col :: pystr where "id_col = pystr_of ''id''"
definition n_col :: pystr where "n_col = pystr_of ''n''"

definition table_cells :: "cell list" where
  \<comment> \<open>the rows \<open>('a', 3)\<close>, \<open>('b', 5)\<close> and \<open>('c', 4)\<close>\<close>
  "table_cells = [(1, [3, 14, 1, 97, 3], []), (2, [3, 14, 1, 98, 5], []), (3, [3, 14, 1, 99, 4], [])]"

definition table_store :: store where "table_store = one_leaf_store table_cells"

lemma table_tree: "tree_at table_store {2} 0 (BLeaf 2 table_cells)" and table_room: "room 1000 table_store"
proof -
  have "leaf_fits table_cells"
    by (simp add: leaf_fits_def table_cells_def merged_leaf_footprint_Cons on_page_cell_size_small PAGE_SIZE_def
        LEAF_PTR_ARRAY_START_val merged_leaf_footprint_def)
  then show "tree_at table_store {2} 0 (BLeaf 2 table_cells)" "room 1000 table_store"
    unfolding table_store_def
    by (intro one_leaf_tree; simp add: table_cells_def key_ok_def spills_def OVERFLOW_THRESHOLD_def PAGE_SIZE_def)+
qed

definition table_rows :: "row list" where
  "table_rows = [[(id_col, PStr [97]), (n_col, PInt 3), (ROWKEY, PInt 1)], [(id_col, PStr [98]), (n_col, PInt 5), (ROWKEY, PInt 2)],
     [(id_col, PStr [99]), (n_col, PInt 4), (ROWKEY, PInt 3)]]"

lemma table_names: "plain_names [id_col, n_col]" "id_col \<noteq> n_col" "n_col \<noteq> id_col" "id_col \<noteq> ROWKEY" "n_col \<noteq> ROWKEY"
  "id_col \<noteq> ROWID" "n_col \<noteq> ROWID" "[id_col] \<noteq> STAR" "[n_col] \<noteq> STAR" "ROWID \<noteq> id_col" "ROWID \<noteq> n_col" "ROWKEY \<noteq> id_col" "ROWKEY \<noteq> n_col"
  by (simp_all add: plain_names_def id_col_def n_col_def ROWKEY_def ROWID_def STAR_def pystr_of_def)

lemma demo_record: "a < 128 \<Longrightarrow> b < 128 \<Longrightarrow> encode_record [PStr [a], PInt (int b)] = Inr [3, 14, 1, of_nat a, of_nat b]" if "2 \<le> b"
  using that
  by (simp add: encode_record_def serial_type_for_def body_for_def utf8_encode_def utf8_char_def encode_varint_small
      to_bytes_signed_def header_size_small be_bytes_numeral int_width_def Let_def)

lemma table_decodes: "mapR (table_row views [id_col, n_col]) table_cells = Inr table_rows"
proof -
  have "decode_record_views mv [3, 14, 1, of_nat a, of_nat b] 0 = Inr ([PStr [a], PInt (int b)], 5)"
    if "a < 128" "b < 128" "2 \<le> b" for a b mv
    using small_record_roundtrip [OF demo_record [OF that(3,1,2)], of "[]" "[]"] record_views
    by (cases mv) simp_all
  from this [of 97 3] this [of 98 5] this [of 99 4] show ?thesis
    by (simp add: table_cells_def table_rows_def table_row_def pad_def dict_of_def table_names)
qed

definition demo_select :: select_stmt where
  \<comment> \<open>\<open>SELECT id FROM t WHERE n >= 4 ORDER BY n DESC LIMIT 1\<close>\<close>
  "demo_select = \<lparr>s_table = pystr_of ''t'', s_columns = [id_col],
     s_where = Some (BinOp (pystr_of ''>='') (ColumnRef n_col) (Literal (PInt 4))),
     s_limit = Some 1, s_limit_is_param = False, s_offset = None, s_offset_is_param = False, s_aggregate = None,
     s_aggregate_column = None, s_count_alias = None, s_order_by = Some (n_col, True, False), s_order_by2 = None,
     s_select_exprs = [], s_group_by_col = None, s_group_count_alias = None, s_group_select = [], s_having_op = None,
     s_having_value = None\<rparr>"

definition table_catalog :: catalog where
  \<comment> \<open>\<open>CREATE TABLE t (id TEXT PRIMARY KEY NOT NULL, n INTEGER DEFAULT 7)\<close>\<close>
  "table_catalog = \<lparr>cat_tables = [(pystr_of ''t'',
     [\<lparr>cm_name = id_col, cm_affinity = pystr_of ''TEXT'', cm_nullable = False, cm_primary_key = True, cm_default = None\<rparr>,
      \<lparr>cm_name = n_col, cm_affinity = pystr_of ''INTEGER'', cm_nullable = True, cm_primary_key = False, cm_default = Some (Some (PInt 7))\<rparr>])],
     cat_indexes = []\<rparr>"

definition id_is :: "pystr \<Rightarrow> expr" where
  "id_is s = BinOp (pystr_of ''='') (ColumnRef id_col) (Literal (PStr s))"

definition demo_by_id :: select_stmt where
  \<comment> \<open>\<open>SELECT n FROM t WHERE id = 'b' LIMIT 1\<close>\<close>
  "demo_by_id = demo_select\<lparr>s_columns := [n_col], s_where := Some (id_is [98]), s_order_by := None\<rparr>"

definition demo_index :: "pystr \<Rightarrow> int option" where
  "demo_index = [[97] \<mapsto> 1, [98] \<mapsto> 2, [99] \<mapsto> 3]"

lemma table_map: "tree_map (BLeaf 2 table_cells) = [1 \<mapsto> [3, 14, 1, 97, 3], 2 \<mapsto> [3, 14, 1, 98, 5], 3 \<mapsto> [3, 14, 1, 99, 4]]"
  by (auto simp: tree_map_def table_cells_def)

lemma small_row: "a < 128 \<Longrightarrow> b < 128 \<Longrightarrow> plain_row [id_col, n_col] [3, 14, 1, of_nat a, of_nat b] = Inr [(id_col, PStr [a]), (n_col, PInt (int b))]"
  if "2 \<le> b"
  using that small_record_roundtrip [OF demo_record [of b a], of "[]" "[]"]
  by (simp add: plain_row_def pad_def dict_of_def table_names)

lemma small_id: "a < 128 \<Longrightarrow> b < 128 \<Longrightarrow> id_of [id_col, n_col] [3, 14, 1, of_nat a, of_nat b] = Some [a]" if "2 \<le> b"
  using that by (simp add: id_of_def small_row row_get_def id_column_def id_col_def [symmetric] table_names)

lemma demo_index_exact: "exact_index [id_col, n_col] demo_index (tree_map (BLeaf 2 table_cells))"
  and demo_index_leaf: "found_in_leaf demo_index s (tree_map (BLeaf 2 table_cells))"
proof -
  note ids = small_id [of 3 97, simplified] small_id [of 5 98, simplified] small_id [of 4 99, simplified]
  have "ran (tree_map (BLeaf 2 table_cells)) = {[3, 14, 1, 97, 3], [3, 14, 1, 98, 5], [3, 14, 1, 99, 4]}"
    unfolding table_map by (auto simp: ran_map_upd)
  then show "exact_index [id_col, n_col] demo_index (tree_map (BLeaf 2 table_cells))"
    unfolding exact_index_def by (auto simp: table_map demo_index_def ids)
  show "found_in_leaf demo_index s (tree_map (BLeaf 2 table_cells))"
    by (auto simp: found_in_leaf_def table_map spills_def OVERFLOW_THRESHOLD_def PAGE_SIZE_def split: if_splits)
qed

theorem select_answers_query_witness:
  "execute_select plain_lib store_ops 9 demo_select [] None 2 table_catalog None table_store =
     (Inr ([[(id_col, PStr [98])]], [id_col]), table_store) \<and>
   execute_select plain_lib store_ops 9 demo_by_id [] None 2 table_catalog (Some demo_index) table_store =
     (Inr ([[(n_col, PInt 5)]], [n_col]), table_store)"
proof -
  let ?names = "[id_col, n_col]"
  note steps = plain_query_def where_filter_def table_rows_def upper_def upper_char_def pystr_of_def row_get_def
    coerce_for_compare_def sql_compare_def accepts_def table_names sort_rows_def order_by_def sort_value_def order_key_def
    directed_less_def okey_less_def sort_col_def star_columns_def project_row_def select_columns_def row_item_def dict_of_def
    top_rows_def skip_rows_def out_names_def
  have lit: "Literal (PStr [98]) \<noteq> placeholder" "Literal (PInt 4) \<noteq> placeholder" by (simp_all add: placeholder_def pystr_of_def)
  have cat: "column_names table_catalog (pystr_of ''t'') = Inr ?names" by (simp add: column_names_def cat_get_def table_catalog_def)
  have "plain_query plain_lib demo_select ?names (s_where demo_select) (Some 1) None table_rows = Inr ([[(id_col, PStr [98])]], [id_col])"
    by (simp add: demo_select_def steps)
  moreover have "orderable demo_select" by (simp add: orderable_def demo_select_def star_columns_def table_names)
  moreover have "bind_select None demo_select [] = Inr ([], s_where demo_select, Some 1, None)"
    by (simp add: demo_select_def bind_select_def bind_exprs_def bind_where_def bind_count_def fresh_binding_def lit)
  ultimately have a: "execute_select plain_lib store_ops 9 demo_select [] None 2 table_catalog None table_store =
      (Inr ([[(id_col, PStr [98])]], [id_col]), table_store)"
    using select_answers_query [OF table_tree, of 9 table_catalog demo_select ?names None "[]" "s_where demo_select" "Some 1" None None table_rows plain_lib]
      table_names(1) table_decodes cat
    by (simp add: table_cells_def demo_select_def id_lookup_def)
  have "plain_query plain_lib demo_by_id ?names (Some (id_is [98])) (Some 1) None table_rows = Inr ([[(n_col, PInt 5)]], [n_col])"
    by (simp add: demo_by_id_def demo_select_def id_is_def steps)
  moreover have "orderable demo_by_id" by (simp add: orderable_def demo_by_id_def demo_select_def star_columns_def table_names)
  moreover have "bind_select None demo_by_id [] = Inr ([], Some (id_is [98]), Some 1, None)"
    by (simp add: demo_by_id_def demo_select_def id_is_def bind_select_def bind_exprs_def bind_where_def bind_count_def fresh_binding_def lit)
  moreover have "id_lookup (Some (id_is [98])) (Some demo_index) (Some 1) = Some (demo_index, [98])"
    by (simp add: id_lookup_def extract_id_eq_def id_is_def id_col_def)
  moreover have "lookup_plain demo_by_id ?names None"
    by (simp add: lookup_plain_def demo_by_id_def demo_select_def star_columns_def table_names)
  ultimately have b: "execute_select plain_lib store_ops 9 demo_by_id [] None 2 table_catalog (Some demo_index) table_store =
      (Inr ([[(n_col, PInt 5)]], [n_col]), table_store)"
    using select_answers_query [OF table_tree, of 9 table_catalog demo_by_id ?names None "[]" "Some (id_is [98])" "Some 1" None "Some demo_index" table_rows plain_lib]
      table_names(1) table_decodes cat demo_index_exact demo_index_leaf
    by (simp add: table_cells_def demo_by_id_def demo_select_def)
  show ?thesis using a b by blast
qed

end
