(* ===== verification/LeafSplit.thy ===== *)
theory LeafSplit
  imports TreeInsert
begin

text \<open>
  The split of a full leaf (\<open>leaf_split_and_insert\<close>): the groups of cells go to the old page and to new
  ones, the sibling chain is threaded through them, and the new leaves are carried up to the parent or
  to a new root.
\<close>

lemma leaf_at_moved:
  "leaf_at pg (pg p) cs s \<Longrightarrow> pg' p = pg p \<Longrightarrow> \<forall>q \<in> set (all_pages cs). pg' q = pg q \<Longrightarrow> leaf_at pg' (pg' p) cs s"
  using leaf_at_cong [of cs pg' pg] by simp

lemma write_leaf_groups_run:
  assumes "length ps = length gs" and "space st L" and "distinct ps" and "set ps \<subseteq> L"
    and "\<forall>g \<in> set gs. merged_leaf_footprint g \<le> PAGE_SIZE" and "\<forall>(k, v) \<in> set (concat gs). key_ok k"
    and "room (cells_need (concat gs)) st"
  shows "\<exists>css st'. write_leaf_groups store_ops jr (zip ps gs) st = (Inr (), st') \<and> map (map cell_kv) css = gs \<and>
    (\<forall>(p, cs) \<in> set (zip ps css). leaf_at (st_pages st') (st_pages st' p) cs 0) \<and>
    distinct (all_pages (concat css)) \<and> set (all_pages (concat css)) \<inter> L = {} \<and>
    eff (L \<union> set (all_pages (concat css))) (L - set ps) (cells_need (concat gs)) st st'"
  using assms
proof (induction ps gs arbitrary: st L rule: list_induct2)
  case Nil
  then show ?case by (intro exI [of _ "[]"]) (simp add: write_leaf_groups_def eff_refl)
next
  case (Cons p ps g gs)
  have "room (cells_need g) st" "\<forall>(k, v) \<in> set g. key_ok k" "merged_leaf_footprint g \<le> PAGE_SIZE"
    using Cons.prems by (auto elim: room_mono)
  then obtain page cs st1 where w:
    "write_leaf_cells (Some store_ops) jr (replicate PAGE_SIZE 0) g st = (Inr page, st1)"
    "leaf_at (st_pages st1) page cs 0" "map cell_kv cs = g" "distinct (all_pages cs)"
    "set (all_pages cs) \<inter> L = {}" "eff (L \<union> set (all_pages cs)) L (cells_need g) st st1"
    by (rule write_leaf_cells_run [OF Cons.prems(1), of g jr])
  let ?L = "L \<union> set (all_pages cs)" and ?st = "set_page p page st1"
  have p: "p \<in> L" "p \<in> ?L" "p \<notin> set ps" using Cons.prems by auto
  note wr = eff_write [OF eff_space [OF w(6)] p(2) leaf_at_parts(1) [OF w(2)]]
  have e1: "eff ?L (L - {p}) (cells_need g) st ?st" by (rule eff_trans [OF w(6) wr(2)]) auto
  have "room (cells_need (concat gs)) ?st" using Cons.prems(6) by (intro eff_room [OF e1]) simp
  moreover have "distinct ps" "set ps \<subseteq> ?L" "\<forall>g \<in> set gs. merged_leaf_footprint g \<le> PAGE_SIZE"
    "\<forall>(k, v) \<in> set (concat gs). key_ok k" using Cons.prems by auto
  ultimately obtain css st' where r: "write_leaf_groups store_ops jr (zip ps gs) ?st = (Inr (), st')"
    "map (map cell_kv) css = gs" "\<forall>(p, cs) \<in> set (zip ps css). leaf_at (st_pages st') (st_pages st' p) cs 0"
    "distinct (all_pages (concat css))" "set (all_pages (concat css)) \<inter> ?L = {}"
    "eff (?L \<union> set (all_pages (concat css))) (?L - set ps) (cells_need (concat gs)) ?st st'"
    using Cons.IH [OF eff_space [OF e1]] by blast
  have "leaf_at (st_pages st') (st_pages st' p) cs 0"
  proof (rule leaf_at_moved)
    have "p \<notin> set (all_pages cs)" using p(1) w(5) by auto
    then show "leaf_at (st_pages ?st) (st_pages ?st p) cs 0"
      using w(2) leaf_at_cong [of cs "st_pages ?st" "st_pages st1"] by auto
    show "st_pages st' p = st_pages ?st p" using p by (intro eff_page [OF r(6)]) simp
    show "\<forall>q \<in> set (all_pages cs). st_pages st' q = st_pages ?st q"
      using Cons.prems(3) w(5) by (intro ballI eff_page [OF r(6)]) auto
  qed
  moreover have "eff (L \<union> set (all_pages (concat (cs # css)))) (L - set (p # ps)) (cells_need (concat (g # gs))) st st'"
    using eff_trans [OF e1 r(6), of "L - set (p # ps)"] by (auto simp: Un_assoc)
  ultimately show ?case
    using w r wr(1) by (intro exI [of _ "cs # css"] exI [of _ st']) (auto simp: write_leaf_groups_def bindS_def)
qed

lemma set_next_leaf_run:
  assumes "space st L" and "p \<in> L" and "leaf_at (st_pages st) (st_pages st p) cs s" and "sib < 2 ^ 32"
    and "p \<notin> set (all_pages cs)"
  shows "\<exists>st'. set_next_leaf store_ops p sib st = (Inr (), st') \<and> leaf_at (st_pages st') (st_pages st' p) cs sib \<and>
    eff L (L - {p}) 0 st st'"
proof -
  let ?pg = "blit (st_pages st p) 8 (be_bytes 4 sib)"
  have lp: "leaf_page (st_pages st p) (map cell_raw cs) s" using assms(3) by (simp add: leaf_at_def)
  note sibl = leaf_page_set_sibling [OF lp assms(4)]
  have len: "length ?pg = PAGE_SIZE" using sibl(2) by (simp add: leaf_page_def)
  note wr = eff_write [OF assms(1,2) len]
  have "leaf_at (st_pages st) ?pg cs sib" using assms(3) sibl(2) by (simp add: leaf_at_def)
  moreover have "\<forall>q \<in> set (all_pages cs). st_pages (set_page p ?pg st) q = st_pages st q"
    using assms(5) by auto
  ultimately have "leaf_at (st_pages (set_page p ?pg st)) ?pg cs sib" using leaf_at_cong by blast
  moreover have "set_next_leaf store_ops p sib st = (Inr (), set_page p ?pg st)"
    using space_page(2) [OF assms(1,2)] sibl(1) wr(1)
    by (simp add: set_next_leaf_def bindS_def store_run LEAF_SIBLING_OFFSET_def LEAF_HEADER_SIZE_def)
  ultimately show ?thesis using wr(2) by auto
qed

lemma thread_run:
  assumes "space st L" and "distinct is" and "inj_on f (set is)"
    and "\<forall>i \<in> set is. f i \<in> L \<and> g i < 2 ^ 32 \<and> leaf_at (st_pages st) (st_pages st (f i)) (h i) (s i)"
    and "\<forall>i \<in> set is. \<forall>j \<in> set is. f i \<notin> set (all_pages (h j))" and "\<forall>i \<in> set is. set (all_pages (h i)) \<subseteq> L"
  shows "\<exists>st'. forS (\<lambda>i. set_next_leaf store_ops (f i) (g i)) is st = (Inr (), st') \<and>
    (\<forall>i \<in> set is. leaf_at (st_pages st') (st_pages st' (f i)) (h i) (g i)) \<and> eff L (L - f ` set is) 0 st st'"
  using assms
proof (induction "is" arbitrary: st)
  case Nil
  then show ?case by (simp add: eff_refl)
next
  case (Cons i js)
  obtain st1 where st1: "set_next_leaf store_ops (f i) (g i) st = (Inr (), st1)"
    "leaf_at (st_pages st1) (st_pages st1 (f i)) (h i) (g i)" "eff L (L - {f i}) 0 st st1"
    using set_next_leaf_run [OF Cons.prems(1), of "f i" "h i" "s i" "g i"] Cons.prems(4,5) by auto
  have other: "leaf_at (st_pages st1) (st_pages st1 (f j)) (h j) (s j)" if "j \<in> set js" for j
  proof (rule leaf_at_moved)
    show "leaf_at (st_pages st) (st_pages st (f j)) (h j) (s j)" using that Cons.prems(4) by simp
    have "f j \<noteq> f i" using that Cons.prems(2,3) by (auto simp: inj_on_def)
    then show "st_pages st1 (f j) = st_pages st (f j)" using that Cons.prems(4) by (intro eff_page [OF st1(3)]) auto
    show "\<forall>q \<in> set (all_pages (h j)). st_pages st1 q = st_pages st q"
      using that Cons.prems(5,6) by (intro ballI eff_page [OF st1(3)]) auto
  qed
  have "\<exists>st'. forS (\<lambda>i. set_next_leaf store_ops (f i) (g i)) js st1 = (Inr (), st') \<and>
    (\<forall>i \<in> set js. leaf_at (st_pages st') (st_pages st' (f i)) (h i) (g i)) \<and> eff L (L - f ` set js) 0 st1 st'"
    using Cons.prems other by (intro Cons.IH eff_space [OF st1(3)]) auto
  then obtain st' where st': "forS (\<lambda>i. set_next_leaf store_ops (f i) (g i)) js st1 = (Inr (), st')"
    "\<forall>i \<in> set js. leaf_at (st_pages st') (st_pages st' (f i)) (h i) (g i)" "eff L (L - f ` set js) 0 st1 st'" by blast
  have "leaf_at (st_pages st') (st_pages st' (f i)) (h i) (g i)"
  proof (rule leaf_at_moved [OF st1(2)])
    have "f i \<notin> f ` set js" using Cons.prems(2,3) by (auto simp: inj_on_def)
    then show "st_pages st' (f i) = st_pages st1 (f i)" using Cons.prems(4) by (intro eff_page [OF st'(3)]) auto
    show "\<forall>q \<in> set (all_pages (h i)). st_pages st' q = st_pages st1 q"
      using Cons.prems(5,6) by (intro ballI eff_page [OF st'(3)]) auto
  qed
  moreover have "eff L (L - f ` set (i # js)) 0 st st'" by (rule eff_trans [OF st1(3) st'(3)]) auto
  ultimately show ?case using st1(1) st'(1,2) by (auto simp: bindS_def)
qed

lemma leaves_ordered:
  assumes "length ps = length css" and "css \<noteq> []" and "\<forall>c \<in> set css. c \<noteq> []"
    and "sorted_wrt (<) (map fst (concat css))" and "\<forall>c \<in> set (concat css). in_range lo hi (fst c)" and "lt_bound lo hi"
  shows "ord_list lo (map (\<lambda>g. fst (hd g)) (tl css)) (map2 BLeaf ps css) hi"
  using assms
proof (induction ps css arbitrary: lo rule: list_induct2)
  case (Cons p ps c css)
  show ?case
  proof (cases css)
    case Nil
    then show ?thesis using Cons.prems Cons.hyps by auto
  next
    case (Cons c2 css')
    let ?k = "fst (hd c2)"
    have c2: "c2 \<noteq> []" "c \<noteq> []" using Cons.prems(2) Cons by auto
    have srt: "sorted_wrt (<) (map fst c)" "sorted_wrt (<) (map fst (concat css))"
      "\<forall>x \<in> set c. \<forall>y \<in> set (concat css). fst x < fst y"
      using Cons.prems(3) by (auto simp: sorted_wrt_append)
    have "hd c2 \<in> set (concat css)" using c2 Cons by simp
    then have lt: "\<forall>x \<in> set c. fst x < ?k" and k: "in_range lo hi ?k" using srt(3) Cons.prems(4) by auto
    have ge: "?k \<le> fst y" if y: "y \<in> set (concat css)" for y
    proof -
      obtain x xs where x: "concat css = x # xs" using c2 Cons by (cases c2) auto
      then have "hd c2 = x" using c2 Cons by (cases c2) auto
      then show ?thesis using y x srt(2) by auto
    qed
    obtain x where x: "x \<in> set c" using c2(2) by (cases c) auto
    then have lo: "lt_bound lo (Some ?k)"
    proof -
      have "fst x < ?k" "in_range lo hi (fst x)" using x lt Cons.prems(4) by auto
      then show ?thesis by (auto simp: in_range_def lt_bound_def split: option.splits)
    qed
    have hi: "lt_bound (Some ?k) hi" using k by (auto simp: in_range_def lt_bound_def split: option.splits)
    have "\<forall>y \<in> set (concat css). in_range (Some ?k) hi (fst y)"
      using ge Cons.prems(4) by (auto simp: in_range_def split: option.splits)
    then have IH: "ord_list (Some ?k) (map (\<lambda>g. fst (hd g)) (tl css)) (map2 BLeaf ps css) hi"
      using Cons.IH [of "Some ?k"] Cons.prems(2) srt(2) hi Cons by auto
    have "ordered lo (Some ?k) (BLeaf p c)"
      using srt(1) lt Cons.prems(4) by (auto simp: in_range_def split: option.splits)
    then show ?thesis using IH lo Cons by simp
  qed
qed simp

section \<open>The pieces of a leaf\<close>

definition new_cells :: "cell list \<Rightarrow> int \<Rightarrow> bytes \<Rightarrow> (int \<times> bytes) list" where
  \<comment> \<open>\<open>old_cells[:idx] + [(new_key, new_value)] + old_cells[idx:]\<close>\<close>
  "new_cells cs k v = (let i = bisect_left (map fst cs) k in
     take i (map cell_kv cs) @ [(k, v)] @ drop i (map cell_kv cs))"

lemma new_cells_facts:
  assumes "leaf_ctx fs cs k" and "k \<notin> fst ` set cs"
  shows "sorted_wrt (<) (map fst (new_cells cs k v))"
    and "map_of (new_cells cs k v) = (map_of (map cell_kv cs))(k \<mapsto> v)"
    and "fst ` set (new_cells cs k v) = insert k (fst ` set cs)"
    and "cells_need (new_cells cs k v) = cells_need (map cell_kv cs @ [(k, v)])"
proof -
  let ?i = "bisect_left (map fst cs) k"
  have n: "new_cells cs k v = map cell_kv (take ?i cs @ (k, v, []) # drop ?i cs)"
    by (simp add: new_cells_def take_map drop_map Let_def)
  have srt: "sorted_wrt (<) (map fst cs)" using assms(1) by (simp add: leaf_ctx_def)
  show "sorted_wrt (<) (map fst (new_cells cs k v))"
    using sorted_insert_cell [OF srt assms(2) refl, of "[]"] by (simp add: n o_def)
  show "map_of (new_cells cs k v) = (map_of (map cell_kv cs))(k \<mapsto> v)"
    unfolding n by (rule sorted_insert_map [OF srt assms(2)])
  have "set (take ?i cs) \<union> set (drop ?i cs) = set cs" by (metis append_take_drop_id set_append)
  then show "fst ` set (new_cells cs k v) = insert k (fst ` set cs)"
    unfolding n by (auto simp: image_Un image_image)
  have "cells_need (map cell_kv (take ?i cs)) + cells_need (map cell_kv (drop ?i cs)) = cells_need (map cell_kv cs)"
    by (metis append_take_drop_id cells_need_simps(3) map_append)
  then show "cells_need (new_cells cs k v) = cells_need (map cell_kv cs @ [(k, v)])" by (simp add: n)
qed

definition pieces ::
  "store \<Rightarrow> nat set \<Rightarrow> nat \<Rightarrow> cell list \<Rightarrow> int \<Rightarrow> bytes \<Rightarrow> nat \<Rightarrow> store \<Rightarrow> nat list \<Rightarrow> cell list list \<Rightarrow> bool"
where
  \<comment> \<open>the cells of the leaf \<open>p\<close> with the new one are cut into \<open>css\<close>, on \<open>p\<close> and the new pages \<open>qs\<close>\<close>
  "pieces st L p cs k v n st1 qs css \<longleftrightarrow>
     length css = Suc (length qs) \<and> length qs \<le> 2 \<and> (\<forall>c \<in> set css. c \<noteq> []) \<and>
     map cell_kv (concat css) = new_cells cs k v \<and>
     (\<forall>i < length css. leaf_at (st_pages st1) (st_pages st1 ((p # qs) ! i)) (css ! i)
        (if i + 1 < length css then (p # qs) ! (i + 1) else sibling_of (st_pages st p))) \<and>
     distinct (p # qs @ all_pages (concat css)) \<and>
     set (qs @ all_pages (concat css)) \<inter> (L - set (all_pages cs)) = {} \<and>
     eff (L - set (all_pages cs) \<union> set (qs @ all_pages (concat css))) (L - insert p (set (all_pages cs))) n st st1"

definition carry_leaf :: "nat \<Rightarrow> bool \<Rightarrow> path \<Rightarrow> nat \<Rightarrow> nat list \<Rightarrow> int list \<Rightarrow> (store, unit) pm" where
  \<comment> \<open>the end of \<open>leaf_split_and_insert\<close>\<close>
  "carry_leaf cap jr path_stack p qs separators =
     (case path_stack of
        [] \<Rightarrow> root_from_children store_ops jr (p # qs) separators
      | (parent_page_no, _) # rest \<Rightarrow>
          insert_run_into_interior store_ops cap jr rest parent_page_no p qs separators)"

lemma get_next_run:
  "space st L \<Longrightarrow> p \<in> L \<Longrightarrow> leaf_at pg (st_pages st p) cs s \<Longrightarrow> get_next_leaf store_ops p st = (Inr s, st)"
  using next_leaf_run [of st L p] leaf_at_parts(1) leaf_at_sibling by metis

lemma all_pages_nth: "i < length css \<Longrightarrow> set (all_pages (css ! i)) \<subseteq> set (all_pages (concat css))"
proof (rule all_pages_sub)
  assume "i < length css"
  then have "css ! i \<in> set css" by (rule nth_mem)
  then show "set (css ! i) \<subseteq> set (concat css)" by auto
qed

lemma thread_leaves_run:
  assumes sp: "space st L" and d: "distinct ps" and ps: "set ps \<subseteq> L" and len: "length css = length ps"
    and leafs: "\<forall>i < length ps. leaf_at (st_pages st) (st_pages st (ps ! i)) (css ! i) s"
    and apart: "set ps \<inter> set (all_pages (concat css)) = {}" and sub: "set (all_pages (concat css)) \<subseteq> L" and sib: "sib < 2 ^ 32"
  shows "\<exists>st'. thread_leaves store_ops ps sib st = (Inr (), st') \<and>
    (\<forall>i < length ps. leaf_at (st_pages st') (st_pages st' (ps ! i)) (css ! i)
       (if i + 1 < length ps then ps ! (i + 1) else sib)) \<and> eff L (L - set ps) 0 st st'"
proof -
  let ?g = "\<lambda>i. if i + 1 < length ps then ps ! (i + 1) else sib" and ?is = "[0..<length ps]"
  have inL: "ps ! i \<in> L" if "i < length ps" for i using nth_mem [OF that] ps by auto
  have chains: "set (all_pages (css ! i)) \<subseteq> set (all_pages (concat css))" if "i < length ps" for i
    using all_pages_nth [of i css] that len by simp
  have img: "(!) ps ` set ?is = set ps"
    by (metis list.set_map map_nth)
  have "\<exists>st'. forS (\<lambda>i. set_next_leaf store_ops (ps ! i) (?g i)) ?is st = (Inr (), st') \<and>
      (\<forall>i \<in> set ?is. leaf_at (st_pages st') (st_pages st' (ps ! i)) (css ! i) (?g i)) \<and>
      eff L (L - (!) ps ` set ?is) 0 st st'"
  proof (rule thread_run [OF sp])
    show "distinct ?is" by simp
    show "inj_on ((!) ps) (set ?is)" using d by (auto simp: inj_on_def nth_eq_iff_index_eq)
    show "\<forall>i \<in> set ?is. ps ! i \<in> L \<and> ?g i < 2 ^ 32 \<and> leaf_at (st_pages st) (st_pages st (ps ! i)) (css ! i) s"
      using inL leafs sib space_page(4) [OF sp] by simp
    show "\<forall>i \<in> set ?is. \<forall>j \<in> set ?is. ps ! i \<notin> set (all_pages (css ! j))"
    proof (intro ballI)
      fix i j assume "i \<in> set ?is" "j \<in> set ?is"
      then have "ps ! i \<in> set ps" "set (all_pages (css ! j)) \<subseteq> set (all_pages (concat css))" using chains by auto
      then show "ps ! i \<notin> set (all_pages (css ! j))" using apart by blast
    qed
    show "\<forall>i \<in> set ?is. set (all_pages (css ! i)) \<subseteq> L"
      by (intro ballI order_trans [OF chains sub]) simp
  qed
  then show ?thesis unfolding img thread_leaves_def by (simp only: set_upt Ball_def atLeastLessThan_iff) simp
qed

lemma leaf_split_pieces:
  assumes t: "tree_at st L d (plug fs (BLeaf p cs))" and c: "leaf_ctx fs cs k" and new: "k \<notin> fst ` set cs"
    and k: "key_ok k" and rm: "room (cells_need (map cell_kv cs @ [(k, v)]) + 2) st"
  shows "\<exists>st1 qs css. pieces st L p cs k v (cells_need (map cell_kv cs @ [(k, v)]) + 2) st1 qs css \<and>
    (\<forall>stack. leaf_split_and_insert store_ops cap jr stack p k v st =
      (if qs = [] then (Inr (), st1) else carry_leaf cap jr stack p qs (map (\<lambda>g. fst (hd g)) (tl css)) st1))"
proof -
  note sp = tree_at_facts(1) [OF t] and tl = tree_leaf [OF t]
  let ?sib = "sibling_of (st_pages st p)" and ?A = "set (all_pages cs)" and ?kvs = "new_cells cs k v"
  let ?n = "cells_need (map cell_kv cs @ [(k, v)])"
  note nc = new_cells_facts [OF c new, of v]
  have sib: "unpack_from 4 (st_pages st p) 8 = Inr ?sib" "?sib < 2 ^ 32" using leaf_at_parts(6,7) [OF tl(1)] .
  obtain st0 where free: "free_spilled_cell_chains store_ops jr (st_pages st p) [0..<length cs] st = (Inr (), st0)"
    "eff (L - ?A) (L - ?A) 0 st st0"
    by (rule free_all_chains_run [OF tl(1) sp tl(5,4), of jr])
  have rd: "read_all_leaf_cells (Some store_ops) (st_pages st p) st = (Inr (map cell_kv cs), st)"
    by (rule read_all_leaf_cells_ok(2) [OF tl(1) sp tl(5)])
  have keys: "\<forall>(a, b) \<in> set ?kvs. key_ok a"
  proof -
    have "\<forall>a \<in> fst ` set ?kvs. key_ok a"
      using nc(3) k tl(1) cell_key_ok by (auto simp: leaf_at_def)
    then show ?thesis by (auto simp: image_iff)
  qed
  define gs where "gs = nway_leaf_loop [] [] ?kvs"
  have split: "balanced_nway_leaf_split ?kvs = Inr gs" by (simp add: gs_def balanced_nway_leaf_split_run)
  have gs: "concat gs = ?kvs" "\<forall>g \<in> set gs. g \<noteq> [] \<and> merged_leaf_footprint g \<le> PAGE_SIZE"
    using nway_leaf_loop_fits [of "[]" "[]" ?kvs] by (simp_all add: gs_def nway_leaf_loop_concat PAGE_SIZE_def)
  have "merged_leaf_footprint (map cell_kv cs) \<le> PAGE_SIZE" using tl(1) by (simp add: leaf_at_def leaf_fits_def)
  then have "length gs \<le> 3"
    unfolding gs_def new_cells_def Let_def append_Cons append_Nil
    by (intro leaf_groups_count) simp
  moreover have "gs \<noteq> []" using gs(1) by (auto simp: new_cells_def Let_def)
  ultimately obtain g0 gr where g: "gs = g0 # gr" "length gr \<le> 2" by (cases gs) auto
  have p0: "p \<in> L - ?A" using tl by auto
  have room0: "room (?n + 2) st0" using rm by (intro eff_room [OF free(2)]) simp
  have room1: "room (length gr) st0" using room0 g(2) by (auto elim: room_mono)
  obtain qs st1 where qs: "mapS (\<lambda>_. alloc_page store_ops jr) gr st0 = (Inr qs, st1)" "length qs = length gr"
    "distinct qs" "set qs \<inter> (L - ?A) = {}" "eff (L - ?A \<union> set qs) (L - ?A) (length gr) st0 st1"
    by (rule eff_allocs [OF eff_space [OF free(2)] room1, of jr])
  let ?L = "L - ?A \<union> set qs" and ?ps = "p # qs"
  have rm1: "room (cells_need (concat gs)) st1"
    using room0 g(2) gs(1) nc(4) by (intro eff_room [OF qs(5)]) (auto elim: room_mono)
  have dps: "distinct ?ps" and psL: "set ?ps \<subseteq> ?L" using qs(3,4) p0 by auto
  have fits: "\<forall>g \<in> set gs. merged_leaf_footprint g \<le> PAGE_SIZE" using gs(2) by blast
  have keys': "\<forall>(a, b) \<in> set (concat gs). key_ok a" using keys by (simp only: gs(1))
  have lg: "length ?ps = length gs" using g(1) qs(2) by simp
  obtain css st2 where w: "write_leaf_groups store_ops jr (zip ?ps gs) st1 = (Inr (), st2)"
    "map (map cell_kv) css = gs" "\<forall>(p, cs) \<in> set (zip ?ps css). leaf_at (st_pages st2) (st_pages st2 p) cs 0"
    "distinct (all_pages (concat css))" "set (all_pages (concat css)) \<inter> ?L = {}"
    "eff (?L \<union> set (all_pages (concat css))) (?L - set ?ps) (cells_need (concat gs)) st1 st2"
    using write_leaf_groups_run [OF lg eff_space [OF qs(5)] dps psL fits keys' rm1, of jr] by blast
  let ?B = "set (all_pages (concat css))" and ?M = "length ?ps"
  have lens: "length css = ?M" using w(2) g(1) qs(2) by (metis length_Cons length_map)
  have leafs: "\<forall>i < ?M. leaf_at (st_pages st2) (st_pages st2 (?ps ! i)) (css ! i) 0"
    using w(3) lens by (auto simp: set_zip)
  have apart: "set ?ps \<inter> ?B = {}" using psL w(5) by blast
  obtain st3 where st3: "thread_leaves store_ops ?ps ?sib st2 = (Inr (), st3)"
    "\<forall>i < ?M. leaf_at (st_pages st3) (st_pages st3 (?ps ! i)) (css ! i) (if i + 1 < ?M then ?ps ! (i + 1) else ?sib)"
    "eff (?L \<union> ?B) (?L \<union> ?B - set ?ps) 0 st2 st3"
    using thread_leaves_run [OF eff_space [OF w(6)] dps le_supI1 [OF psL] lens leafs apart Un_upper2 sib(2)] by blast
  have e13: "eff (?L \<union> ?B) (L - insert p ?A) (cells_need ?kvs) st1 st3"
    using qs(4) gs(1) by (intro eff_trans [OF w(6) st3(3)]) auto
  have e03: "eff (?L \<union> ?B) (L - insert p ?A) (?n + 2) st0 st3"
    using nc(4) g(2) by (intro eff_trans [OF qs(5) e13]) auto
  have e: "eff (?L \<union> ?B) (L - insert p ?A) (?n + 2) st st3"
    by (rule eff_trans [OF free(2) e03]) auto
  have pieces: "pieces st L p cs k v (?n + 2) st3 qs css"
    unfolding pieces_def
  proof (intro conjI)
    show "length css = Suc (length qs)" "length qs \<le> 2" using lens g(2) qs(2) by simp_all
    show "\<forall>c \<in> set css. c \<noteq> []" using gs(2) unfolding w(2) [symmetric] by auto
    show "map cell_kv (concat css) = ?kvs" using w(2) gs(1) by (simp add: map_concat)
    show "\<forall>i < length css. leaf_at (st_pages st3) (st_pages st3 (?ps ! i)) (css ! i)
        (if i + 1 < length css then ?ps ! (i + 1) else ?sib)" using st3(2) lens by simp
    show "distinct (p # qs @ all_pages (concat css))" using dps w(4,5) p0 by auto
    show "set (qs @ all_pages (concat css)) \<inter> (L - ?A) = {}" using qs(4) w(5) by auto
    show "eff (L - ?A \<union> set (qs @ all_pages (concat css))) (L - insert p ?A) (?n + 2) st st3"
      using e by (simp add: Un_assoc)
  qed
  have spx: "space st3 (?L \<union> ?B)" by (rule eff_space [OF st3(3)])
  have nx: "get_next_leaf store_ops (?ps ! i) st3 = (Inr (if i + 1 < ?M then ?ps ! (i + 1) else ?sib), st3)"
    if "i < ?M" for i
    using get_next_run [OF spx, of "?ps ! i"] psL nth_mem [OF that] st3(2) that by blast
  have gsc: "map (\<lambda>g. fst (hd g)) (tl gs) = map (\<lambda>g. fst (hd g)) (tl css)"
  proof -
    have "fst (hd (map cell_kv c)) = fst (hd c)" if "c \<in> set (tl css)" for c
    proof -
      have "c \<noteq> []" using that pieces list.set_sel(2) [of css c] by (cases css) (auto simp: pieces_def)
      then show ?thesis by (cases c) auto
    qed
    then show ?thesis using w(2) by (auto simp: map_tl [symmetric])
  qed
  have seps_ok: "\<forall>(sep, group) \<in> set (zip (map (\<lambda>g. fst (hd g)) (tl gs)) (tl gs)). sep = fst (hd group) \<and> sep \<in> fst ` set group"
    using gs(2) g(1) by (auto simp: set_zip)
  have kfst: "map (fst \<circ> cell_kv) cs = map fst cs" by simp
  have cells: "take (bisect_left (map fst cs) k) (map cell_kv cs) @ [(k, v)] @
      drop (bisect_left (map fst cs) k) (map cell_kv cs) = ?kvs"
    unfolding new_cells_def Let_def ..
  note steps = bindS_def store_run tl(3) rd free(1) kfst cells split sib(1)
  have run: "leaf_split_and_insert store_ops cap jr stack p k v st =
      (if qs = [] then (Inr (), st3) else carry_leaf cap jr stack p qs (map (\<lambda>g. fst (hd g)) (tl css)) st3)" for stack
  proof (cases "gr = []")
    case True
    then have one: "gs = [?kvs]" "qs = []" "st1 = st0" using gs(1) g(1) qs(1,2) by auto
    obtain page st' where "write_leaf_cells (Some store_ops) jr (replicate PAGE_SIZE 0) ?kvs st0 = (Inr page, st')"
      "store_write p page st' = (Inr (), st2)"
      using w(1) one by (auto simp: write_leaf_groups_def bindS_def split: prod.splits sum.splits)
    moreover have "set_next_leaf store_ops p ?sib st2 = (Inr (), st3)"
      using st3(1) one by (auto simp: thread_leaves_def bindS_def split: prod.splits sum.splits)
    ultimately show ?thesis
      using one by (simp add: leaf_split_and_insert_def Let_def steps del: append_Cons append_Nil)
  next
    case False
    then have more: "length gs \<noteq> 1" "tl gs = gr" "1 < ?M" "qs \<noteq> []" using g(1) qs(2) by auto
    have last: "get_next_leaf store_ops (last ?ps) st3 = (Inr ?sib, st3)"
      using nx [of "length qs"] last_conv_nth [of ?ps] by simp
    have head: "get_next_leaf store_ops p st3 = (Inr (?ps ! 1), st3)" using nx [of 0] more(3) by simp
    show ?thesis
      unfolding gsc [symmetric] carry_leaf_def more(2)
      using more qs(1) w(1) st3(1) last head seps_ok
      by (simp add: leaf_split_and_insert_def Let_def steps assertR_def del: append_Cons append_Nil)
  qed
  then show ?thesis using pieces by blast
qed

end
