(* ===== verification/InsertMap.thy ===== *)
theory InsertMap
  imports LeafSplit
begin

text \<open>
  The refinement theorem of \<open>btree_insert\<close>: on a stored tree it always succeeds and yields a stored tree
  for the updated map, in the pages of the old tree and new ones; nothing else in the file is touched
  and no page is lost.
\<close>

lemma linked_chain:
  "\<forall>i < length ps. sibling_of (pg (ps ! i)) = (if i + 1 < length ps then ps ! (i + 1) else e) \<Longrightarrow> linked pg ps e"
proof (induction ps)
  case (Cons p ps)
  have "linked pg ps e"
  proof (rule Cons.IH, intro allI impI)
    fix i assume "i < length ps"
    then show "sibling_of (pg (ps ! i)) = (if i + 1 < length ps then ps ! (i + 1) else e)"
      using Cons.prems [rule_format, of "Suc i"] by simp
  qed
  moreover have "sibling_of (pg p) = (case ps of [] \<Rightarrow> e | q # _ \<Rightarrow> q)"
    using Cons.prems [rule_format, of 0] by (auto split: list.splits)
  ultimately show ?case by simp
qed simp

lemma linked_replace:
  assumes old: "linked pg (A @ p # B) 0" and same: "\<forall>q \<in> set A \<union> set B. sibling_of (pg' q) = sibling_of (pg q)"
    and new: "linked pg' (p # qs) (sibling_of (pg p))"
  shows "linked pg' (A @ (p # qs) @ B) 0"
proof -
  have A: "linked pg' A p" using old same linked_append [of pg A p B 0] linked_cong [of A pg' pg p] by simp
  show ?thesis
  proof (cases B)
    case Nil
    then have "sibling_of (pg p) = 0" using old by (simp add: linked_append)
    then show ?thesis using A new Nil by (simp add: linked_append)
  next
    case (Cons b B')
    have o: "linked pg (p # b # B') 0" using old unfolding Cons linked_append by blast
    then have b: "sibling_of (pg p) = b" "linked pg (b # B') 0" by simp_all
    have "linked pg' (b # B') 0" using b(2) same linked_cong [of "b # B'" pg' pg 0] Cons by simp
    moreover have "linked pg' (A @ p # qs) b" using A new b(1) linked_append by metis
    ultimately have "linked pg' ((A @ p # qs) @ b # B') 0" using linked_append by metis
    then show ?thesis by (simp add: Cons)
  qed
qed

lemma kv_fst: "map cell_kv xs = ys \<Longrightarrow> map fst xs = map fst ys"
  by auto

lemma pieces_facts:
  assumes pc: "pieces st L p cs k v n st1 qs css" and c: "leaf_ctx fs cs k" and new: "k \<notin> fst ` set cs"
  shows "sorted_wrt (<) (map fst (concat css))" and "fst ` set (concat css) = insert k (fst ` set cs)"
    and "map_of (map cell_kv (concat css)) = (map_of (map cell_kv cs))(k \<mapsto> v)"
proof -
  have kv: "map cell_kv (concat css) = new_cells cs k v" using pc by (simp add: pieces_def)
  note nc = new_cells_facts [OF c new, of v]
  show "sorted_wrt (<) (map fst (concat css))" using nc(1) kv_fst [OF kv] by simp
  show "fst ` set (concat css) = insert k (fst ` set cs)"
    using nc(3) arg_cong [OF kv_fst [OF kv], of set] by simp
  show "map_of (map cell_kv (concat css)) = (map_of (map cell_kv cs))(k \<mapsto> v)" using nc(2) kv by simp
qed

lemma pieces_siblings:
  assumes "pieces st L p cs k v n st1 qs css"
  shows "\<forall>i < length css. sibling_of (st_pages st1 ((p # qs) ! i)) =
    (if i + 1 < length css then (p # qs) ! (i + 1) else sibling_of (st_pages st p))"
proof (intro allI impI)
  fix i assume "i < length css"
  then have "leaf_at (st_pages st1) (st_pages st1 ((p # qs) ! i)) (css ! i)
      (if i + 1 < length css then (p # qs) ! (i + 1) else sibling_of (st_pages st p))"
    using assms unfolding pieces_def by blast
  from leaf_at_sibling [OF this] show "sibling_of (st_pages st1 ((p # qs) ! i)) =
    (if i + 1 < length css then (p # qs) ! (i + 1) else sibling_of (st_pages st p))" by (rule sym)
qed

lemma pieces_single:
  assumes t: "tree_at st L d (plug fs (BLeaf p cs))" and c: "leaf_ctx fs cs k" and new: "k \<notin> fst ` set cs"
    and pc: "pieces st L p cs k v n st1 [] css"
  shows "updated d n st L (plug fs (BLeaf p cs)) st1 ((tree_map (plug fs (BLeaf p cs)))(k \<mapsto> v))"
proof -
  obtain cs' where css: "css = [cs']" using pc by (auto simp: pieces_def length_Suc_conv)
  note pf = pieces_facts [OF pc c new, unfolded css, simplified]
  have leaf: "leaf_at (st_pages st1) (st_pages st1 p) cs' (sibling_of (st_pages st p))"
    and d: "distinct (all_pages cs')" "set (all_pages cs') \<inter> (L - set (all_pages cs)) = {}"
    and e: "eff (L - set (all_pages cs) \<union> set (all_pages cs')) (L - insert p (set (all_pages cs))) n st st1"
    using pc by (auto simp: pieces_def css)
  show ?thesis
    by (rule leaf_updated [OF t leaf e _ _ d(1) pf(1) c _ pf(3)]) (use d(2) pf(2) in auto)
qed

definition piece_trees :: "nat list \<Rightarrow> cell list list \<Rightarrow> btree list" where
  "piece_trees ps css = map2 BLeaf ps css"

lemma piece_trees_content:
  assumes "length ps = length css"
  shows "map tpage (piece_trees ps css) = ps" "concat (map cells (piece_trees ps css)) = concat css"
    "concat (map leaves (piece_trees ps css)) = ps" "\<forall>t \<in> set (piece_trees ps css). bal 0 t"
    "mset (concat (map tree_pages (piece_trees ps css))) = mset ps + mset (all_pages (concat css))"
  using assms by (induction ps css rule: list_induct2) (auto simp: piece_trees_def ac_simps)

lemma pieces_ready:
  assumes t: "tree_at st L d (plug fs (BLeaf p cs))" and c: "leaf_ctx fs cs k" and new: "k \<notin> fst ` set cs"
    and pc: "pieces st L p cs k v n st1 qs css" and rm: "room (length fs + 1) st1"
  shows "ready st1 (L - set (all_pages cs) \<union> set (qs @ all_pages (concat css))) 0 fs (piece_trees (p # qs) css)
    (map (\<lambda>g. fst (hd g)) (tl css))"
proof -
  let ?us = "piece_trees (p # qs) css" and ?seps = "map (\<lambda>g. fst (hd g)) (tl css)"
  let ?L = "L - set (all_pages cs) \<union> set (qs @ all_pages (concat css))"
  have len: "length (p # qs) = length css" using pc by (simp add: pieces_def)
  note ta = tree_at_facts [OF t] and tl = tree_leaf [OF t] and pf = pieces_facts [OF pc c new]
    and ct = piece_trees_content [OF len]
  have e: "eff ?L (L - insert p (set (all_pages cs))) n st st1" using pc by (simp add: pieces_def)
  have leafs: "leaf_at (st_pages st1) (st_pages st1 ((p # qs) ! i)) (css ! i)
      (if i + 1 < length css then (p # qs) ! (i + 1) else sibling_of (st_pages st p))" if "i < length css" for i
    using pc that unfolding pieces_def by blast
  have st: "\<forall>u \<in> set ?us. stored (st_pages st1) u"
    using leafs len by (fastforce simp: piece_trees_def set_zip)
  have hd: "tpage (hd ?us) = p" using ct(1) by (cases ?us) auto
  obtain l h where b: "bnd None None fs = (l, h)" by fastforce
  have fo: "frames_ord None None fs" "fs \<noteq> [] \<longrightarrow> lt_bound l h"
    using ordered_plug [of None None fs "BLeaf p cs"] ta(3) c b by (auto simp: frames_len_all leaf_ctx_def)
  then have lt: "lt_bound l h" using b by (cases fs) (auto simp: lt_bound_def)
  have "in_range l h (fst x)" if "x \<in> set (concat css)" for x
  proof -
    have "fst x \<in> fst ` set (concat css)" using that by (rule imageI)
    then have "fst x = k \<or> fst x \<in> fst ` set cs" unfolding pf(2) by simp
    then show ?thesis using c b by (auto simp: leaf_ctx_def)
  qed
  moreover have ne: "css \<noteq> []" "\<forall>c \<in> set css. c \<noteq> []" using pc by (auto simp: pieces_def)
  ultimately have ol: "ord_list l ?seps ?us h"
    unfolding piece_trees_def using len pf(1) lt by (intro leaves_ordered) auto
  have "frames_stored (st_pages st) p fs" using ta(2) by (simp add: stored_plug)
  moreover have "\<forall>q \<in> set (frames_pages fs). st_pages st1 q = st_pages st q"
    using tl(7,8) by (intro ballI eff_page [OF e]) auto
  ultimately have fs: "frames_stored (st_pages st1) p fs" using frames_stored_cong by blast
  have fb: "frames_bal 0 fs"
    using ta(4) bal_plug [of fs 0 "BLeaf p cs"] bal_length [OF ta(4)] by simp
  have ko: "\<forall>s \<in> set ?seps. key_ok s"
  proof
    fix s assume "s \<in> set ?seps"
    then obtain g where g: "g \<in> set (tl css)" "s = fst (hd g)" by auto
    then have "g \<in> set css" using list.set_sel(2) ne(1) by fast
    then obtain i where i: "i < length css" "css ! i = g" by (auto simp: in_set_conv_nth)
    have "hd g \<in> set g" using \<open>g \<in> set css\<close> ne(2) by simp
    then have "cell_ok (st_pages st1) (hd g)" using leafs [OF i(1)] i(2) by (simp add: leaf_at_def)
    then show "key_ok s" unfolding g(2) by (rule cell_key_ok)
  qed
  have dp: "distinct (p # qs @ all_pages (concat css))"
    "set (qs @ all_pages (concat css)) \<inter> (L - set (all_pages cs)) = {}" using pc by (simp_all add: pieces_def)
  have fr: "set (frames_pages fs) \<subseteq> L - set (all_pages cs)" "p \<in> L - set (all_pages cs)" "p \<notin> set (frames_pages fs)"
    using tl by auto
  define Q where "Q = (p # qs @ all_pages (concat css)) @ frames_pages fs"
  have Q: "distinct Q" "set Q \<subseteq> ?L" unfolding Q_def using dp fr tl(9) by auto
  have "mset (concat (map tree_pages ?us) @ frames_pages fs) = mset Q" by (simp add: ct(5) Q_def)
  note dm = distinct_of_mset [OF this Q(1)]
  have "length ?seps \<le> 511" using pc by (simp add: pieces_def)
  then show ?thesis
    unfolding ready_def b hd using eff_space [OF e] st ct(4) fo(1) fb ol ko fs dm Q(2) rm by simp
qed

lemma ctx_leaves_not_nodes:
  "distinct (frames_pages fs) \<Longrightarrow> (set (ctx_left leaves fs) \<union> set (ctx_right leaves fs)) \<inter> set (node_pages fs) = {}"
proof (induction fs rule: node_pages.induct)
  case (2 p kl ls kr rs fs)
  have sub: "set (concat (map leaves ts)) \<subseteq> set (concat (map tree_pages ts))" for ts
    using leaves_in_pages by (induction ts) auto
  have d: "distinct (p # concat (map tree_pages ls) @ concat (map tree_pages rs) @ frames_pages fs)"
    using "2.prems" by (simp only: frames_pages.simps)
  then have dd: "p \<notin> set (concat (map tree_pages ls))" "p \<notin> set (concat (map tree_pages rs))" "p \<notin> set (frames_pages fs)"
    "set (concat (map tree_pages ls)) \<inter> set (frames_pages fs) = {}"
    "set (concat (map tree_pages rs)) \<inter> set (frames_pages fs) = {}" "distinct (frames_pages fs)"
    unfolding distinct.simps distinct_append set_append by blast+
  show ?case
    using dd "2.IH" [OF dd(6)] ctx_leaves_pages [of fs] node_pages_sub [of fs] sub [of ls] sub [of rs]
    unfolding ctx_left.simps ctx_right.simps node_pages.simps set_append list.set by blast
qed simp

lemma pieces_close:
  assumes t: "tree_at st L d (plug fs (BLeaf p cs))" and c: "leaf_ctx fs cs k" and new: "k \<notin> fst ` set cs"
    and pc: "pieces st L p cs k v n st1 qs css"
    and st': "stored (st_pages st') t'" "ordered None None t'" "bal d' t'" "tpage t' = tpage (plug fs (BLeaf p cs))"
    and cl: "cells t' = ctx_left cells fs @ concat css @ ctx_right cells fs"
    and pg: "mset (tree_pages t') = mset (p # qs @ all_pages (concat css)) + mset (frames_pages fs) + mset E"
    and E: "distinct E" "set E \<inter> (L - set (all_pages cs) \<union> set (qs @ all_pages (concat css))) = {}"
    and ef: "eff (L - set (all_pages cs) \<union> set (qs @ all_pages (concat css)) \<union> set E) M m st1 st'"
    and M: "L - set (tree_pages (plug fs (BLeaf p cs))) \<subseteq> M" and lk: "linked (st_pages st') (leaves t') 0" and d': "d' \<le> d + 1"
  shows "updated d (n + m) st L (plug fs (BLeaf p cs)) st' ((tree_map (plug fs (BLeaf p cs)))(k \<mapsto> v))"
proof -
  note tl = tree_leaf [OF t] and pf = pieces_facts [OF pc c new]
  let ?B = "qs @ all_pages (concat css)" and ?A = "set (all_pages cs)"
  let ?L = "L - ?A \<union> set ?B \<union> set E"
  have e1: "eff (L - ?A \<union> set ?B) (L - insert p ?A) n st st1" using pc by (simp add: pieces_def)
  have dp: "distinct (p # ?B)" "set ?B \<inter> (L - ?A) = {}" using pc by (simp_all add: pieces_def)
  have fr: "set (frames_pages fs) \<subseteq> L - ?A" "p \<in> L - ?A" "p \<notin> set (frames_pages fs)" using tl by auto
  define Q where "Q = p # ?B @ frames_pages fs @ E"
  have Q: "distinct Q" "set Q \<subseteq> ?L" unfolding Q_def using dp fr tl(9) E by auto
  have "mset (tree_pages t') = mset Q" using pg by (simp add: Q_def ac_simps)
  note dm = distinct_of_mset [OF this Q(1)]
  have tree: "tree_at st' ?L d' t'" using st' lk dm Q(2) eff_space [OF ef] by (simp add: tree_at_def)
  have "tree_map t' = (tree_map (plug fs (BLeaf p cs)))(k \<mapsto> v)"
    using map_of_middle [OF pf(3), of "map cell_kv (ctx_left cells fs)"] c
    by (simp add: tree_map_def cl cells_plug leaf_ctx_def image_image)
  moreover have "?L - set (tree_pages t') = L - set (tree_pages (plug fs (BLeaf p cs)))"
    using dm dp E fr by (auto simp: Q_def tree_pages_leaf)
  moreover have "keeps (L - set (tree_pages (plug fs (BLeaf p cs)))) st st'"
    using e1 ef M by (auto simp: eff_def tree_pages_leaf intro: keeps_trans)
  moreover have "store_hdr st HDbSize \<le> store_hdr st' HDbSize \<and> store_hdr st' HDbSize \<le> store_hdr st HDbSize + (n + m)"
    using e1 ef by (simp add: eff_def)
  ultimately show ?thesis unfolding updated_def using tree st'(4) d' by blast
qed

lemma root_piece:
  assumes t: "tree_at st L d (plug [] (BLeaf p cs))" and c: "leaf_ctx [] cs k" and new: "k \<notin> fst ` set cs"
    and pc: "pieces st L p cs k v n st1 qs css" and rm: "room 1 st1"
  shows "\<exists>st'. root_from_children store_ops jr (p # qs) (map (\<lambda>g. fst (hd g)) (tl css)) st1 = (Inr (), st') \<and>
    updated d (n + 1) st L (BLeaf p cs) st' ((tree_map (BLeaf p cs))(k \<mapsto> v))"
proof -
  let ?us = "piece_trees (p # qs) css" and ?seps = "map (\<lambda>g. fst (hd g)) (tl css)"
  let ?L = "L - set (all_pages cs) \<union> set (qs @ all_pages (concat css))"
  have rd: "ready st1 ?L 0 [] ?us ?seps" using pieces_ready [OF t c new pc] rm by simp
  have len: "length (p # qs) = length css" using pc by (simp add: pieces_def)
  note ct = piece_trees_content [OF len]
  obtain g0 css' where css: "css = g0 # css'" using len by (cases css) auto
  have us: "?us = BLeaf p g0 # piece_trees qs css'" by (simp add: piece_trees_def css)
  let ?u0 = "BLeaf p g0" and ?us' = "piece_trees qs css'"
  have h: "space st1 ?L" "\<forall>u \<in> set (?u0 # ?us'). stored (st_pages st1) u" "ord_list None ?seps (?u0 # ?us') None"
    "length ?seps \<le> 511" "\<forall>s \<in> set ?seps. key_ok s" "distinct (concat (map tree_pages (?u0 # ?us')))"
    "set (concat (map tree_pages (?u0 # ?us'))) \<subseteq> ?L"
    using rd unfolding us ready_def by auto
  obtain r st' where st': "root_from_children store_ops jr (map tpage (?u0 # ?us')) ?seps st1 = (Inr (), st')"
    "r \<notin> ?L" "stored (st_pages st') (BNode (tpage ?u0) ?seps (retag r ?u0 # ?us'))"
    "st_pages st' r = st_pages st1 (tpage ?u0)" "eff (insert r ?L) (?L - {tpage ?u0}) 1 st1 st'"
    by (rule root_run [OF h rm, of jr])
  let ?t = "BNode p ?seps (BLeaf r g0 # ?us')"
  have tp: "map tpage (?u0 # ?us') = p # qs" using ct(1) unfolding us .
  have lv: "leaves ?t = r # qs" using ct(3) unfolding us by simp
  have lk: "linked (st_pages st') (r # qs) 0"
  proof -
    have p: "p \<in> ?L" using tree_leaf [OF t] by simp
    have sib: "sibling_of (st_pages st p) = 0" using tree_at_facts(7) [OF t] by simp
    have old: "\<forall>i < length css. sibling_of (st_pages st1 ((p # qs) ! i)) = (if i + 1 < length css then (p # qs) ! (i + 1) else 0)"
      using pieces_siblings [OF pc] unfolding sib .
    have same: "st_pages st' q = st_pages st1 q" if "q \<in> set qs" for q
      using that pc by (intro eff_page [OF st'(5)]) (auto simp: pieces_def)
    show ?thesis
    proof (rule linked_chain, intro allI impI)
      fix i assume i: "i < length (r # qs)"
      then have "st_pages st' ((r # qs) ! i) = st_pages st1 ((p # qs) ! i)"
        using st'(4) same by (cases i) auto
      then show "sibling_of (st_pages st' ((r # qs) ! i)) = (if i + 1 < length (r # qs) then (r # qs) ! (i + 1) else 0)"
        using old [rule_format, of i] i len css by (cases i) auto
    qed
  qed
  have "updated d (n + 1) st L (plug [] (BLeaf p cs)) st' ((tree_map (plug [] (BLeaf p cs)))(k \<mapsto> v))"
  proof (rule pieces_close [OF t c new pc])
    show "stored (st_pages st') ?t" using st'(3) by simp
    show "ordered None None ?t" using h(3) ord_list_retag [of None ?seps r ?u0 ?us' None] by simp
    show "bal 1 ?t" using ct(4) unfolding us by simp
    show "tpage ?t = tpage (plug [] (BLeaf p cs))" by simp
    show "cells ?t = ctx_left cells [] @ concat css @ ctx_right cells []" using ct(2) unfolding us by simp
    show "mset (tree_pages ?t) = mset (p # qs @ all_pages (concat css)) + mset (frames_pages []) + mset [r]"
      using ct(5) unfolding us by simp
    show "distinct [r]" "set [r] \<inter> ?L = {}" using st'(2) by simp_all
    show "eff (?L \<union> set [r]) (?L - {p}) 1 st1 st'" using st'(5) by simp
    show "L - set (tree_pages (plug [] (BLeaf p cs))) \<subseteq> ?L - {p}" by auto
    show "linked (st_pages st') (leaves ?t) 0" using lk lv by simp
    show "1 \<le> d + 1" by simp
  qed
  then show ?thesis using st'(1) tp by auto
qed

lemma inner_piece:
  assumes t: "tree_at st L d (plug (f # fs) (BLeaf p cs))" and c: "leaf_ctx (f # fs) cs k" and new: "k \<notin> fst ` set cs"
    and pc: "pieces st L p cs k v n st1 qs css" and rm: "room (length fs + 2) st1"
  shows "\<exists>st'. insert_run_into_interior store_ops cap jr (stack_of fs) (fst f) p qs (map (\<lambda>g. fst (hd g)) (tl css)) st1 = (Inr (), st') \<and>
    updated d (n + (length fs + 2)) st L (plug (f # fs) (BLeaf p cs)) st' ((tree_map (plug (f # fs) (BLeaf p cs)))(k \<mapsto> v))"
proof -
  let ?us = "piece_trees (p # qs) css" and ?seps = "map (\<lambda>g. fst (hd g)) (tl css)"
  let ?L = "L - set (all_pages cs) \<union> set (qs @ all_pages (concat css))"
  have rd: "ready st1 ?L 0 (f # fs) ?us ?seps" using pieces_ready [OF t c new pc] rm by simp
  have len: "length (p # qs) = length css" using pc by (simp add: pieces_def)
  note ct = piece_trees_content [OF len] and ta = tree_at_facts [OF t] and tl = tree_leaf [OF t]
  obtain u0 us' where us: "?us = u0 # us'" using ct(1) by (cases ?us) auto
  then have tp: "tpage u0 = p" "map tpage us' = qs" using ct(1) by simp_all
  obtain st' t' where g: "insert_run_into_interior store_ops cap jr (stack_of fs) (fst f) p qs ?seps st1 = (Inr (), st')"
    "grown st1 ?L 0 (f # fs) ?us st' t'"
    using insert_run_run [OF rd [unfolded us], of cap jr] unfolding tp us by blast
  obtain E where E: "stored (st_pages st') t'" "ordered None None t'" "bal (length (f # fs) + 0) t' \<or> bal (length (f # fs) + 0 + 1) t'"
    "tpage t' = root_page (tpage (hd ?us)) (f # fs)"
    "cells t' = ctx_left cells (f # fs) @ concat (map cells ?us) @ ctx_right cells (f # fs)"
    "leaves t' = ctx_left leaves (f # fs) @ concat (map leaves ?us) @ ctx_right leaves (f # fs)"
    "mset (tree_pages t') = mset (concat (map tree_pages ?us)) + mset (frames_pages (f # fs)) + mset E"
    "distinct E" "set E \<inter> ?L = {}"
    "eff (?L \<union> set E) (?L - touched (f # fs) (tpage (hd ?us))) (length (f # fs) + 1) st1 st'"
    using g(2) unfolding grown_def by (elim exE conjE) (rule that)
  obtain d' where d': "bal d' t'" "d' \<le> length (f # fs) + 1" using E(3) by (metis add_0_right le_add1 le_refl)
  have dl: "d = length (f # fs)" by (rule bal_length [OF ta(4)])
  have kept: "st_pages st' q = st_pages st1 q" if "q \<in> ?L" "q \<notin> set (node_pages (f # fs))" for q
    using eff_page [OF E(10), of q] that by (simp add: touched_def)
  have nodes: "set (node_pages (f # fs)) \<subseteq> set (frames_pages (f # fs))" by (rule node_pages_sub)
  have lk: "linked (st_pages st') (ctx_left leaves (f # fs) @ (p # qs) @ ctx_right leaves (f # fs)) 0"
  proof (rule linked_replace)
    show "linked (st_pages st) (ctx_left leaves (f # fs) @ p # ctx_right leaves (f # fs)) 0"
      using ta(7) by (simp add: leaves_plug)
    have e1: "eff ?L (L - insert p (set (all_pages cs))) n st st1" using pc by (simp add: pieces_def)
    show "\<forall>q \<in> set (ctx_left leaves (f # fs)) \<union> set (ctx_right leaves (f # fs)).
        sibling_of (st_pages st' q) = sibling_of (st_pages st q)"
    proof
      fix q assume q: "q \<in> set (ctx_left leaves (f # fs)) \<union> set (ctx_right leaves (f # fs))"
      then have f: "q \<in> set (frames_pages (f # fs))" using ctx_leaves_pages by blast
      then have "q \<in> L - insert p (set (all_pages cs))" using tl(7,8) by auto
      then have "st_pages st1 q = st_pages st q" by (rule eff_page [OF e1])
      moreover have "q \<notin> set (node_pages (f # fs))" using ctx_leaves_not_nodes [OF tl(9)] q by blast
      then have "st_pages st' q = st_pages st1 q" using f tl(7,8) by (intro kept) auto
      ultimately show "sibling_of (st_pages st' q) = sibling_of (st_pages st q)" by simp
    qed
    have "q \<in> ?L \<and> q \<notin> set (node_pages (f # fs))" if "q \<in> set (p # qs)" for q
    proof -
      have "q = p \<or> q \<in> set qs \<and> q \<notin> L - set (all_pages cs)" using that pc by (auto simp: pieces_def)
      then show ?thesis using nodes tl(2,6,7,8) by auto
    qed
    then have same: "st_pages st' q = st_pages st1 q" if "q \<in> set (p # qs)" for q using kept that by blast
    have pp: "\<forall>i < length css. sibling_of (st_pages st1 ((p # qs) ! i)) =
        (if i + 1 < length css then (p # qs) ! (i + 1) else sibling_of (st_pages st p))"
      by (rule pieces_siblings [OF pc])
    show "linked (st_pages st') (p # qs) (sibling_of (st_pages st p))"
    proof (rule linked_chain, intro allI impI)
      fix i assume i: "i < length (p # qs)"
      then show "sibling_of (st_pages st' ((p # qs) ! i)) =
          (if i + 1 < length (p # qs) then (p # qs) ! (i + 1) else sibling_of (st_pages st p))"
        using pp len same [OF nth_mem [OF i]] by simp
    qed
  qed
  have "updated d (n + (length fs + 2)) st L (plug (f # fs) (BLeaf p cs)) st' ((tree_map (plug (f # fs) (BLeaf p cs)))(k \<mapsto> v))"
  proof (rule pieces_close [OF t c new pc])
    show "stored (st_pages st') t'" "ordered None None t'" "bal d' t'" by fact+
    show "d' \<le> d + 1" using d'(2) dl by simp
    show "tpage t' = tpage (plug (f # fs) (BLeaf p cs))" using E(4) tp(1) us by (simp add: tpage_plug)
    show "cells t' = ctx_left cells (f # fs) @ concat css @ ctx_right cells (f # fs)" using E(5) ct(2) by simp
    show "mset (tree_pages t') = mset (p # qs @ all_pages (concat css)) + mset (frames_pages (f # fs)) + mset E"
      using E(7) ct(5) by simp
    show "distinct E" "set E \<inter> ?L = {}" by fact+
    show "eff (?L \<union> set E) (?L - touched (f # fs) (tpage (hd ?us))) (length fs + 2) st1 st'" using E(10) by simp
    show "L - set (tree_pages (plug (f # fs) (BLeaf p cs))) \<subseteq> ?L - touched (f # fs) (tpage (hd ?us))"
      using nodes by (auto simp: touched_def tree_pages_leaf)
    show "linked (st_pages st') (leaves t') 0" using lk E(6) ct(3) by simp
  qed
  then show ?thesis using g(1) by blast
qed

section \<open>The whole insertion\<close>

definition insert_room :: "btree \<Rightarrow> nat \<Rightarrow> bytes \<Rightarrow> nat" where
  \<comment> \<open>how many pages an insertion may add to the file\<close>
  "insert_room t d v = cells_need (map cell_kv (cells t)) + spill_need v + d + 3"

lemma leaf_need: "cells_need (map cell_kv cs) \<le> cells_need (map cell_kv (cells (plug fs (BLeaf p cs))))"
  by (simp add: cells_plug)

lemma insert_new_run:
  assumes t: "tree_at st L d (plug fs (BLeaf p cs))" and c: "leaf_ctx fs cs k" and new: "k \<notin> fst ` set cs"
    and k: "key_ok k" and rm: "room (cells_need (map cell_kv cs) + spill_need v + d + 3) st"
    and mode: "st_journal st \<or> st_wal st" and i: "i = bisect_left (map fst cs) k"
  shows "\<exists>st'. insert_new store_ops cap (stack_of fs) p i (st_pages st p) (length cs) k v st = (Inr (), st') \<and>
    updated d (cells_need (map cell_kv cs) + spill_need v + d + 3) st L (plug fs (BLeaf p cs)) st' ((tree_map (plug fs (BLeaf p cs)))(k \<mapsto> v))"
proof -
  note ta = tree_at_facts [OF t] and tl = tree_leaf [OF t]
  let ?sib = "sibling_of (st_pages st p)" and ?n = "cells_need (map cell_kv cs @ [(k, v)])"
  define fit where "fit \<longleftrightarrow> merged_leaf_footprint (map cell_kv cs @ [(k, v)]) \<le> PAGE_SIZE"
  have room: "leaf_has_room_for (st_pages st p) (length cs) None k v = Inr fit"
    unfolding fit_def by (rule leaf_has_room_for_new [OF tl(1)])
  note sib = leaf_at_parts(6) [OF tl(1)]
  show ?thesis
  proof (cases "fit \<and> length cs < cap")
    case True
    have "room (spill_need v) st" using rm by (auto elim: room_mono)
    with insert_one_run [OF t c new k this i] True fit_def
    obtain st' where "write_leaf_inserting_one store_ops (st_journal st) p (st_pages st p) (length cs) i k v ?sib st = (Inr (), st')"
      "updated d (spill_need v) st L (plug fs (BLeaf p cs)) st' ((tree_map (plug fs (BLeaf p cs)))(k \<mapsto> v))" by blast
    then show ?thesis
      using room True sib updated_mono [of d "spill_need v"] by (intro exI [of _ st']) (simp add: insert_new_def bindS_def getS_def)
  next
    case False
    have "room (?n + 2) st" using rm by (auto elim: room_mono)
    from leaf_split_pieces [OF t c new k this, where cap = cap and jr = "st_journal st"]
    obtain st1 qs css where pc: "pieces st L p cs k v (?n + 2) st1 qs css" and
      run: "\<forall>stack. leaf_split_and_insert store_ops cap (st_journal st) stack p k v st =
        (if qs = [] then (Inr (), st1) else carry_leaf cap (st_journal st) stack p qs (map (\<lambda>g. fst (hd g)) (tl css)) st1)"
      by (elim exE conjE) (rule that)
    have ins: "insert_new store_ops cap (stack_of fs) p i (st_pages st p) (length cs) k v st =
        leaf_split_and_insert store_ops cap (st_journal st) (stack_of fs) p k v st"
      using room False mode by (auto simp add: insert_new_def bindS_def getS_def)
    have e1: "eff (L - set (all_pages cs) \<union> set (qs @ all_pages (concat css))) (L - insert p (set (all_pages cs))) (?n + 2) st st1"
      using pc by (simp add: pieces_def)
    have d: "d = length fs" by (rule bal_length [OF ta(4)])
    show ?thesis
    proof (cases "qs = []")
      case True
      have "updated d (?n + 2) st L (plug fs (BLeaf p cs)) st1 ((tree_map (plug fs (BLeaf p cs)))(k \<mapsto> v))"
        using pieces_single [OF t c new] pc True by simp
      then have "updated d (cells_need (map cell_kv cs) + spill_need v + d + 3) st L (plug fs (BLeaf p cs)) st1
          ((tree_map (plug fs (BLeaf p cs)))(k \<mapsto> v))" by (rule updated_mono) simp
      then show ?thesis using ins run True by auto
    next
      case ne: False
      have "room (?n + 2 + (length fs + 1)) st" by (rule room_mono [OF rm]) (simp add: d)
      then have rm1: "room (length fs + 1) st1" by (rule eff_room [OF e1])
      show ?thesis
      proof (cases fs)
        case Nil
        have "\<exists>st'. root_from_children store_ops (st_journal st) (p # qs) (map (\<lambda>g. fst (hd g)) (tl css)) st1 = (Inr (), st') \<and>
            updated d (?n + 2 + 1) st L (BLeaf p cs) st' ((tree_map (BLeaf p cs))(k \<mapsto> v))"
          using rm1 Nil by (intro root_piece [OF t [unfolded Nil] c [unfolded Nil] new pc]) simp
        then show ?thesis using ins run ne Nil updated_mono [of d "?n + 2 + 1"] by (auto simp: carry_leaf_def)
      next
        case (Cons f gs)
        obtain g j where g: "stack_of fs = (g, j) # stack_of gs" "fst f = g" unfolding Cons by (cases f) auto
        have "\<exists>st'. insert_run_into_interior store_ops cap (st_journal st) (stack_of gs) (fst f) p qs
              (map (\<lambda>g. fst (hd g)) (tl css)) st1 = (Inr (), st') \<and>
            updated d (?n + 2 + (length gs + 2)) st L (plug (f # gs) (BLeaf p cs)) st' ((tree_map (plug (f # gs) (BLeaf p cs)))(k \<mapsto> v))"
          using rm1 Cons by (intro inner_piece [OF t [unfolded Cons] c [unfolded Cons] new pc]) simp
        moreover have "?n + 2 + (length gs + 2) \<le> cells_need (map cell_kv cs) + spill_need v + d + 3" using d Cons by simp
        ultimately have "\<exists>st'. insert_run_into_interior store_ops cap (st_journal st) (stack_of gs) (fst f) p qs
              (map (\<lambda>g. fst (hd g)) (tl css)) st1 = (Inr (), st') \<and>
            updated d (cells_need (map cell_kv cs) + spill_need v + d + 3) st L (plug (f # gs) (BLeaf p cs)) st'
              ((tree_map (plug (f # gs) (BLeaf p cs)))(k \<mapsto> v))" using updated_mono by blast
        then show ?thesis using ins run ne g unfolding Cons [symmetric] by (simp add: carry_leaf_def)
      qed
    qed
  qed
qed

lemma replace_raws:
  assumes leaf: "leaf_at pg page cs sib" and i: "i < length cs"
  shows "mapR (\<lambda>j. if j = i then Inr raw else raw_cell_bytes page j) [0..<length cs] =
    Inr (map cell_raw (take i cs) @ raw # map cell_raw (drop (Suc i) cs))"
proof -
  have "mapR (\<lambda>j. if j = i then Inr raw else raw_cell_bytes page j) [0..<length cs] =
      Inr (map (\<lambda>j. if j = i then raw else cell_raw (cs ! j)) [0..<length cs])"
    by (intro mapR_Inr) (auto intro: raw_cell_bytes_ok(1) leaf_at_parts(4,5) [OF leaf])
  moreover have "map (\<lambda>j. if j = i then raw else cell_raw (cs ! j)) [0..<length cs] =
      map cell_raw (take i cs) @ raw # map cell_raw (drop (Suc i) cs)"
    using i by (intro nth_equalityI) (auto simp: nth_append nth_Cons' min_def)
  ultimately show ?thesis by simp
qed

lemma replaced_bisect:
  assumes "sorted_wrt (<) (map fst cs)" and "i = bisect_left (map fst cs) k" and "i < length cs" and "fst (cs ! i) = k"
  shows "bisect_left (map fst (take i cs @ drop (Suc i) cs)) k = i"
proof -
  have i: "i = length (takeWhile (\<lambda>x. x < k) (map fst cs))"
    using assms(1,2) by (simp add: bisect_left_sorted strict_sorted)
  have cs: "cs = take i cs @ cs ! i # drop (Suc i) cs" using assms(3) by (simp add: id_take_nth_drop)
  have s: "sorted_wrt (<) (map fst (take i cs @ cs ! i # drop (Suc i) cs))" using assms(1) cs by simp
  have low: "\<forall>x \<in> set (map fst (take i cs)). x < k" and high: "\<forall>x \<in> set (map fst (drop (Suc i) cs)). k < x"
    using s assms(4) by (auto simp: sorted_wrt_append)
  have "sorted_wrt (<) (map fst (take i cs @ drop (Suc i) cs))" using s by (simp add: sorted_wrt_append)
  then have "bisect_left (map fst (take i cs @ drop (Suc i) cs)) k =
      length (takeWhile (\<lambda>x. x < k) (map fst (take i cs) @ map fst (drop (Suc i) cs)))"
    by (simp add: bisect_left_sorted strict_sorted)
  also have "takeWhile (\<lambda>x. x < k) (map fst (take i cs) @ map fst (drop (Suc i) cs)) = map fst (take i cs)"
  proof -
    have "takeWhile (\<lambda>x. x < k) (map fst (drop (Suc i) cs)) = []"
      using high by (cases "drop (Suc i) cs") auto
    then show ?thesis using takeWhile_append2 [of "map fst (take i cs)" "\<lambda>x. x < k"] low by simp
  qed
  finally show ?thesis using assms(3) by simp
qed

lemma index_present:
  assumes "sorted_wrt (<) (map fst (cs :: cell list))" and "i = bisect_left (map fst cs) k" and "\<not> (i < length cs \<and> fst (cs ! i) = k)"
  shows "k \<notin> fst ` set cs"
proof -
  have "map_of (map cell_kv cs) k = None" using sorted_lookup [OF assms(1,2)] assms(3) by simp
  then show ?thesis by (simp add: map_of_eq_None_iff image_image)
qed

text \<open>The key is there and the new value fits its leaf: the cell is replaced in place.\<close>

lemma replace_one_run:
  assumes t: "tree_at st L d (plug fs (BLeaf p cs))" and c: "leaf_ctx fs cs k" and k: "key_ok k"
    and rm: "room (spill_need v) st" and i: "i < length cs" "fst (cs ! i) = k"
    and free: "eff (L - set (cell_pages (cs ! i))) (L - set (cell_pages (cs ! i))) 0 st st0"
    and fits: "merged_leaf_footprint (map cell_kv (take i cs @ drop (Suc i) cs) @ [(k, v)]) \<le> PAGE_SIZE"
  shows "\<exists>st'. write_leaf_replacing_one store_ops jr p (st_pages st p) (length cs) i k v (sibling_of (st_pages st p)) st0
      = (Inr (), st') \<and>
    updated d (spill_need v) st L (plug fs (BLeaf p cs)) st' ((tree_map (plug fs (BLeaf p cs)))(k \<mapsto> v))"
proof -
  note tl = tree_leaf [OF t]
  let ?sib = "sibling_of (st_pages st p)" and ?P = "set (cell_pages (cs ! i))"
  let ?xs = "take i cs" and ?ys = "drop (Suc i) cs"
  have srt: "sorted_wrt (<) (map fst cs)" using c by (simp add: leaf_ctx_def)
  have cs: "cs = ?xs @ cs ! i # ?ys" using i(1) by (simp add: id_take_nth_drop)
  have ap: "mset (all_pages cs) = mset (cell_pages (cs ! i) @ all_pages (?xs @ ?ys))"
    using arg_cong [OF cs, of "\<lambda>xs. mset (all_pages xs)"] by (simp add: ac_simps)
  note dm = distinct_of_mset [OF ap [symmetric] tl(4)]
  have p: "p \<in> L - ?P" using tl(2,6) dm by auto
  have rm0: "room (spill_need v) st0" by (rule eff_room [OF free]) (use rm in simp)
  obtain ps page st1 st' where w: "leaf_cell (Some store_ops) jr (k, v) st0 = (Inr (cell_raw (k, v, ps)), st1)"
    "leaf_with_sibling (map cell_raw (?xs @ (k, v, ps) # ?ys)) ?sib = Inr page"
    "store_write p page st1 = (Inr (), st')" "leaf_page (st_pages st' p) (map cell_raw (?xs @ (k, v, ps) # ?ys)) ?sib"
    "leaf_fits (?xs @ (k, v, ps) # ?ys)" "cell_ok (st_pages st') (k, v, ps)" "distinct ps" "set ps \<inter> (L - ?P) = {}"
    "eff (L - ?P \<union> set ps) (L - ?P - {p}) (spill_need v) st0 st'"
    by (rule put_leaf_run [OF eff_space [OF free] rm0 k p leaf_at_parts(7) [OF tl(1)] fits, of jr])
  let ?cs = "?xs @ (k, v, ps) # ?ys"
  have e: "eff (L - ?P \<union> set ps) (L - ?P - {p}) (spill_need v) st st'" by (rule eff_trans [OF free w(9)]) auto
  have run: "write_leaf_replacing_one store_ops jr p (st_pages st p) (length cs) i k v ?sib st0 = (Inr (), st')"
    using w(1-3) replace_raws [OF tl(1) i(1), of "cell_raw (k, v, ps)"]
    by (simp add: write_leaf_replacing_one_def bindS_def del: cell_raw.simps)
  have sub: "set (?xs @ ?ys) \<subseteq> set cs" using set_take_subset [of i cs] set_drop_subset [of "Suc i" cs] by simp
  have old: "\<forall>c \<in> set (?xs @ ?ys). cell_ok (st_pages st') c"
  proof (rule cells_ok_keeps)
    show "\<forall>c \<in> set (?xs @ ?ys). cell_ok (st_pages st) c" using tl(1) sub by (auto simp only: leaf_at_def)
    show "keeps (L - ?P - {p}) st st'" using e by (simp add: eff_def)
    show "set (all_pages (?xs @ ?ys)) \<subseteq> L - ?P - {p}" using dm tl(5,6) by auto
  qed
  have pages: "mset (all_pages ?cs) = mset (ps @ all_pages (?xs @ ?ys))" by (simp add: ac_simps)
  have "set (all_pages (?xs @ ?ys)) \<subseteq> L - ?P" "distinct (all_pages (?xs @ ?ys))" using dm tl(5) by auto
  then have dp: "distinct (ps @ all_pages (?xs @ ?ys))" using w(7,8) unfolding distinct_append by blast
  note dn = distinct_of_mset [OF pages dp]
  have "updated d (spill_need v) st L (plug fs (BLeaf p cs)) st' ((tree_map (plug fs (BLeaf p cs)))(k \<mapsto> v))"
  proof (rule leaf_updated [OF t])
    have "\<forall>c \<in> set ?cs. cell_ok (st_pages st') c" using old w(6) by (auto simp del: cell_ok.simps)
    then show "leaf_at (st_pages st') (st_pages st' p) ?cs ?sib" unfolding leaf_at_def using w(4,5) by blast
    show "eff (L - ?P \<union> set ps) (L - insert p (set (all_pages cs))) (spill_need v) st st'"
      using eff_mono [OF e, of "L - insert p (set (all_pages cs))"] dm by auto
    show "L - ?P \<union> set ps - set (all_pages ?cs) = L - set (all_pages cs)" using dm dn w(8) by auto
    show "set (all_pages ?cs) \<subseteq> L - ?P \<union> set ps" using dm dn tl(5) by auto
    show "distinct (all_pages ?cs)" using dn by simp
    show "sorted_wrt (<) (map fst ?cs)" using srt cs i(2) by (metis fst_conv list.simps(9) map_append)
    show "fst ` set ?cs \<subseteq> insert k (fst ` set cs)" using sub by auto
    show "map_of (map cell_kv ?cs) = (map_of (map cell_kv cs))(k \<mapsto> v)"
      using sorted_replace_map(1) [OF srt i(1), of v ps] unfolding i(2) .
  qed (rule c)
  then show ?thesis using run by blast
qed

text \<open>The key is there and the new value does not fit: the old cell goes first, then the key is inserted anew.\<close>

lemma slimmed_leaf_run:
  assumes t: "tree_at st L d (plug fs (BLeaf p cs))" and c: "leaf_ctx fs cs k" and i: "i < length cs" "fst (cs ! i) = k"
    and free: "eff (L - set (cell_pages (cs ! i))) (L - set (cell_pages (cs ! i))) 0 st st0"
  shows "\<exists>page st1. raw_copy_leaf_excluding (st_pages st p) (length cs) i (sibling_of (st_pages st p)) = Inr page \<and>
    store_write p page st0 = (Inr (), st1) \<and> st_pages st1 p = page \<and>
    tree_at st1 (L - set (cell_pages (cs ! i))) d (plug fs (BLeaf p (take i cs @ drop (Suc i) cs))) \<and>
    (L - set (cell_pages (cs ! i))) - set (tree_pages (plug fs (BLeaf p (take i cs @ drop (Suc i) cs)))) =
      L - set (tree_pages (plug fs (BLeaf p cs))) \<and>
    eff (L - set (cell_pages (cs ! i))) (L - insert p (set (all_pages cs))) 0 st st1"
proof -
  note tl = tree_leaf [OF t]
  let ?sib = "sibling_of (st_pages st p)" and ?P = "set (cell_pages (cs ! i))"
  let ?cs = "take i cs @ drop (Suc i) cs"
  have srt: "sorted_wrt (<) (map fst cs)" using c by (simp add: leaf_ctx_def)
  have cs: "cs = take i cs @ cs ! i # drop (Suc i) cs" using i(1) by (simp add: id_take_nth_drop)
  have ap: "mset (all_pages cs) = mset (cell_pages (cs ! i) @ all_pages ?cs)"
    using arg_cong [OF cs, of "\<lambda>xs. mset (all_pages xs)"] by (simp add: ac_simps)
  note dm = distinct_of_mset [OF ap [symmetric] tl(4)]
  have p: "p \<in> L - ?P" using tl(2,6) dm by auto
  obtain page where page: "raw_copy_leaf_excluding (st_pages st p) (length cs) i ?sib = Inr page"
    "leaf_at (st_pages st) page ?cs ?sib" using raw_copy_ok [OF tl(1) i(1)] by blast
  note w = eff_write [OF eff_space [OF free] p leaf_at_parts(1) [OF page(2)]]
  let ?st = "set_page p page st0"
  have e: "eff (L - ?P) (L - ?P - {p}) 0 st ?st" by (rule eff_trans [OF free w(2)]) auto
  have e': "eff (L - ?P) (L - insert p (set (all_pages cs))) 0 st ?st"
    by (rule eff_mono [OF e]) (use dm in auto)
  have same: "\<forall>q \<in> set (all_pages ?cs). st_pages ?st q = st_pages st q"
    using dm tl(5,6) by (intro ballI eff_page [OF e]) auto
  have "leaf_at (st_pages ?st) page ?cs ?sib" using page(2) leaf_at_cong [OF same] by blast
  then have leaf: "leaf_at (st_pages ?st) (st_pages ?st p) ?cs ?sib" by simp
  have sub: "set ?cs \<subseteq> set cs" using set_take_subset [of i cs] set_drop_subset [of "Suc i" cs] by simp
  have L': "L - ?P - set (all_pages ?cs) = L - set (all_pages cs)" "set (all_pages ?cs) \<subseteq> L - ?P" "distinct (all_pages ?cs)"
    using dm tl(5) by auto
  have "sorted_wrt (<) (map fst (take i cs @ cs ! i # drop (Suc i) cs))" using srt cs by simp
  then have srt': "sorted_wrt (<) (map fst ?cs)" by (simp add: sorted_wrt_append)
  have all: "\<forall>c \<in> set cs. case bnd None None fs of (l, h) \<Rightarrow> in_range l h (fst c)"
    using c by (auto simp: leaf_ctx_def)
  have rng: "\<forall>c \<in> set ?cs. case bnd None None fs of (l, h) \<Rightarrow> in_range l h (fst c)"
    by (intro ballI bspec [OF all] subsetD [OF sub])
  have len: "frames_len fs" using c by (simp add: leaf_ctx_def)
  note r = leaf_replaced [OF t leaf e' L' srt' rng len]
  show ?thesis
    using page(1) w(1) r e' by (intro exI [of _ page] exI [of _ ?st]) simp
qed

lemma slimmed_map:
  assumes c: "leaf_ctx fs cs k" and i: "i < length cs" "fst (cs ! i) = k"
  shows "leaf_ctx fs (take i cs @ drop (Suc i) cs) k" and "k \<notin> fst ` set (take i cs @ drop (Suc i) cs)"
    and "(tree_map (plug fs (BLeaf p (take i cs @ drop (Suc i) cs))))(k \<mapsto> v) = (tree_map (plug fs (BLeaf p cs)))(k \<mapsto> v)"
proof -
  let ?cs = "take i cs @ drop (Suc i) cs"
  have srt: "sorted_wrt (<) (map fst cs)" using c by (simp add: leaf_ctx_def)
  have cs: "cs = take i cs @ cs ! i # drop (Suc i) cs" using i(1) by (simp add: id_take_nth_drop)
  have "sorted_wrt (<) (map fst (take i cs @ cs ! i # drop (Suc i) cs))" using srt cs by simp
  then have srt': "sorted_wrt (<) (map fst ?cs)" by (simp add: sorted_wrt_append)
  have sub: "set ?cs \<subseteq> set cs" using set_take_subset [of i cs] set_drop_subset [of "Suc i" cs] by simp
  obtain l h where b: "bnd None None fs = (l, h)" by fastforce
  have "\<forall>x \<in> set cs. in_range l h (fst x)" using c b by (simp add: leaf_ctx_def)
  then have "\<forall>x \<in> set ?cs. in_range l h (fst x)" using sub by blast
  then show "leaf_ctx fs ?cs k" using c srt' b by (simp add: leaf_ctx_def)
  show "k \<notin> fst ` set ?cs" using sorted_replace_map(3) [OF srt i(1)] unfolding i(2) .
  have m: "map_of (map cell_kv ?cs) = (map_of (map cell_kv cs)) (k := None)"
    using sorted_replace_map(2) [OF srt i(1)] unfolding i(2) .
  have k: "k \<notin> fst ` set (map cell_kv (ctx_left cells fs))" using c by (simp add: leaf_ctx_def image_image)
  show "(tree_map (plug fs (BLeaf p ?cs)))(k \<mapsto> v) = (tree_map (plug fs (BLeaf p cs)))(k \<mapsto> v)"
    unfolding tree_map_def cells_plug cells.simps map_append [of cell_kv "ctx_left cells fs"] map_append [of cell_kv _ "ctx_right cells fs"]
    by (intro ext) (simp add: map_of_append map_add_def m del: map_append split: option.splits)
qed

lemma demo_modes: "st_wal demo_store"
proof -
  have "st_wal (one_leaf_store cs)" for cs
    by (simp add: one_leaf_store_def fresh_store_def set_page_def split: sum.split)
  then show ?thesis by (simp add: demo_store_def)
qed

lemma btree_insert_run:
  assumes t: "tree_at st L d t" and fuel: "d < fuel" and k: "0 \<le> key" "key < 2 ^ 64"
    and mode: "st_journal st \<or> st_wal st" and rm: "room (insert_room t d val) st"
  shows "\<exists>st' L' d' t'. btree_insert store_ops cap fuel (tpage t) key val st = (Inr (), st') \<and> tree_at st' L' d' t' \<and>
    tree_map t' = (tree_map t)(key \<mapsto> val) \<and> tpage t' = tpage t \<and> L' - set (tree_pages t') = L - set (tree_pages t) \<and>
    (\<forall>p \<in> L - set (tree_pages t). st_pages st' p = st_pages st p) \<and>
    st_journal st' = st_journal st \<and> st_wal st' = st_wal st \<and> d' \<le> d + 1 \<and>
    store_hdr st HDbSize \<le> store_hdr st' HDbSize \<and> store_hdr st' HDbSize \<le> store_hdr st HDbSize + insert_room t d val"
proof -
  define r where "r = tpage t"
  have ko: "key_ok key" using k by (simp add: key_ok_def)
  obtain fs p cs where mv: "t = plug fs (BLeaf p cs)" "length fs = d" "frames_len fs"
    "case bnd None None fs of (l, h) \<Rightarrow> in_range l h key"
    "move_to store_ops fuel r key st = (Inr (p, bisect_left (map fst cs) key, stack_of fs), st)"
    unfolding r_def using move_to_run [OF t fuel] .
  note t' = t [unfolded mv(1)]
  let ?N = "cells_need (map cell_kv cs) + spill_need val + d + 3"
  note tl = tree_leaf [OF t'] and sp = tree_at_facts(1) [OF t']
  have c: "leaf_ctx fs cs key" by (rule leaf_ctxI [OF t' mv(3,4)])
  have srt: "sorted_wrt (<) (map fst cs)" using c by (simp add: leaf_ctx_def)
  define i where "i = bisect_left (map fst cs) key"
  have rd: "read_all_leaf_cells None (st_pages st p) st = (Inr (map cell_shallow cs), st)"
    by (rule read_all_leaf_cells_ok(1) [OF tl(1)])
  have sib: "unpack_from 4 (st_pages st p) 8 = Inr (sibling_of (st_pages st p))" by (rule leaf_at_parts(6) [OF tl(1)])
  have need: "room (cells_need (map cell_kv cs) + spill_need val + d + 3) st"
    by (rule room_mono [OF rm]) (use leaf_need [of cs fs p] in \<open>simp add: insert_room_def mv(1)\<close>)
  have "\<exists>st'. btree_insert store_ops cap fuel r key val st = (Inr (), st') \<and>
    updated d ?N st L (plug fs (BLeaf p cs)) st' ((tree_map (plug fs (BLeaf p cs)))(key \<mapsto> val))"
  proof (cases "i < length cs \<and> fst (cs ! i) = key")
    case False
    have "btree_insert store_ops cap fuel r key val st =
        insert_new store_ops cap (stack_of fs) p i (st_pages st p) (length cs) key val st"
      using mv(5) tl(3) rd False by (auto simp add: btree_insert_def bindS_def store_run i_def [symmetric])
    then show ?thesis
      using insert_new_run [OF t' c index_present [OF srt i_def False] ko need mode i_def] by simp
  next
    case True
    then have i: "i < length cs" "fst (cs ! i) = key" by auto
    have "leaf_page (st_pages st p) (map cell_raw cs) (sibling_of (st_pages st p))"
      "cell_ok (st_pages st) (cs ! i)" "set (cell_pages (cs ! i)) \<subseteq> L"
      using tl(1,5) i(1) all_pages_sub [of "[cs ! i]" cs] by (auto simp: leaf_at_def)
    from free_spilled_cell_chain_run [OF this(1) i(1) this(2) sp this(3), of "st_journal st"]
    obtain st0 where free: "free_spilled_cell_chain store_ops (st_journal st) (st_pages st p) i st = (Inr (), st0)"
      "eff (L - set (cell_pages (cs ! i))) (L - set (cell_pages (cs ! i))) 0 st st0" .
    define fit where "fit \<longleftrightarrow> merged_leaf_footprint (map cell_kv (take i cs @ drop (Suc i) cs) @ [(key, val)]) \<le> PAGE_SIZE"
    have room: "leaf_has_room_for (st_pages st p) (length cs) (Some i) key val = Inr fit"
      unfolding fit_def by (rule leaf_has_room_for_replace [OF tl(1) i(1)])
    note md = eff_modes [OF free(2)]
    note steps = bindS_def store_run getS_def mv(5) tl(3) rd i i_def [symmetric] free(1) room sib md
    show ?thesis
    proof (cases fit)
      case True
      have "room (spill_need val) st" using need by (auto elim: room_mono)
      from replace_one_run [OF t' c ko this i free(2) True [unfolded fit_def], of "st_journal st"] True
      show ?thesis using updated_mono [of d "spill_need val" _ _ _ _ _ ?N] by (auto simp add: btree_insert_def steps)
    next
      case False
      obtain page st1 where sl: "raw_copy_leaf_excluding (st_pages st p) (length cs) i (sibling_of (st_pages st p)) = Inr page"
        "store_write p page st0 = (Inr (), st1)" "st_pages st1 p = page"
        "tree_at st1 (L - set (cell_pages (cs ! i))) d (plug fs (BLeaf p (take i cs @ drop (Suc i) cs)))"
        "(L - set (cell_pages (cs ! i))) - set (tree_pages (plug fs (BLeaf p (take i cs @ drop (Suc i) cs)))) =
          L - set (tree_pages (plug fs (BLeaf p cs)))"
        "eff (L - set (cell_pages (cs ! i))) (L - insert p (set (all_pages cs))) 0 st st1"
        using slimmed_leaf_run [OF t' c i free(2)] by (elim exE conjE) (rule that)
      let ?cs = "take i cs @ drop (Suc i) cs"
      note sm = slimmed_map [OF c i]
      have rd1: "read_all_leaf_cells None page st1 = (Inr (map cell_shallow ?cs), st1)"
        using read_all_leaf_cells_ok(1) [OF tree_leaf(1) [OF sl(4)]] sl(3) by simp
      have "cells_need (map cell_kv ?cs) \<le> cells_need (map cell_kv cs)"
        using arg_cong [OF id_take_nth_drop [OF i(1)], of "\<lambda>xs. cells_need (map cell_kv xs)"]
        by (cases "cell_kv (cs ! i)") simp
      then have "cells_need (map cell_kv ?cs) + spill_need val + d + 3 \<le> cells_need (map cell_kv cs) + spill_need val + d + 3"
        by simp
      from room_mono [OF need this] have rm1: "room (cells_need (map cell_kv ?cs) + spill_need val + d + 3) st1"
        by (intro eff_room [OF sl(6)]) simp
      have md1: "st_journal st1 \<or> st_wal st1" using mode eff_modes [OF sl(6)] by simp
      from insert_new_run [OF sl(4) sm(1,2) ko rm1 md1 replaced_bisect [OF srt i_def i, symmetric], of cap]
      obtain st' where ins: "insert_new store_ops cap (stack_of fs) p i (st_pages st1 p) (length ?cs) key val st1 = (Inr (), st')"
        "updated d (cells_need (map cell_kv ?cs) + spill_need val + d + 3) st1 (L - set (cell_pages (cs ! i))) (plug fs (BLeaf p ?cs)) st' ((tree_map (plug fs (BLeaf p ?cs)))(key \<mapsto> val))"
        by (elim exE conjE) (rule that)
      have "keeps (L - set (tree_pages (plug fs (BLeaf p cs)))) st st1"
        using sl(6) by (auto simp: eff_def tree_pages_leaf elim!: keeps_mono)
      moreover have hd: "store_hdr st1 HDbSize = store_hdr st HDbSize" using sl(6) by (simp add: eff_def)
      moreover have "updated d ?N st1 (L - set (cell_pages (cs ! i))) (plug fs (BLeaf p ?cs)) st'
          ((tree_map (plug fs (BLeaf p ?cs)))(key \<mapsto> val))"
        by (rule updated_mono [OF ins(2)]) fact
      ultimately have "updated d ?N st L (plug fs (BLeaf p cs)) st' ((tree_map (plug fs (BLeaf p cs)))(key \<mapsto> val))"
        unfolding updated_def sl(5) sm(3) tpage_plug tpage.simps hd by (blast intro: keeps_trans)
      moreover have "btree_insert store_ops cap fuel r key val st = (Inr (), st')"
        using False mode sl(1-3) rd1 ins(1) by (auto simp add: btree_insert_def steps)
      ultimately show ?thesis by blast
    qed
  qed
  then obtain st' where ins: "btree_insert store_ops cap fuel r key val st = (Inr (), st')"
    "updated d ?N st L (plug fs (BLeaf p cs)) st' ((tree_map (plug fs (BLeaf p cs)))(key \<mapsto> val))" by blast
  have "?N \<le> insert_room t d val" using leaf_need [of cs fs p] by (simp add: insert_room_def mv(1))
  from updated_mono [OF ins(2) this] ins(1) show ?thesis unfolding updated_def mv(1) keeps_def r_def by blast
qed

text \<open>
  C5. Inserting refines updating a map at one key. On every stored tree, whatever its height, in every
  mode and for every leaf capacity, \<open>insert\<close> succeeds and leaves a stored tree (ordered, balanced,
  with its leaves chained in order and its pages distinct) for the old map with the key bound to the
  value, whether the key is new or replaced, inline or spilled to overflow pages, and whether no node,
  a leaf, or every node up to the root had to be split. The pages that are in use outside the tree
  are the same as before and hold what they held, so no page leaks and none is used twice, and the
  transaction mode is as it was.
\<close>

theorem btree_insert_refines_update:
  assumes "tree_at st L d t" and "d < fuel" and "0 \<le> key" "key < 2 ^ 64"
    and "st_journal st \<or> st_wal st" and "room (insert_room t d val) st"
  shows "\<exists>st' L' d' t'. btree_insert store_ops cap fuel (tpage t) key val st = (Inr (), st') \<and> tree_at st' L' d' t' \<and>
    tree_map t' = (tree_map t)(key \<mapsto> val) \<and> tpage t' = tpage t \<and> L' - set (tree_pages t') = L - set (tree_pages t) \<and>
    (\<forall>p \<in> L - set (tree_pages t). st_pages st' p = st_pages st p) \<and>
    st_journal st' = st_journal st \<and> st_wal st' = st_wal st \<and> d' \<le> d + 1 \<and>
    store_hdr st HDbSize \<le> store_hdr st' HDbSize \<and> store_hdr st' HDbSize \<le> store_hdr st HDbSize + insert_room t d val"
  using assms by (rule btree_insert_run)

theorem btree_insert_refines_update_witness:
  "\<exists>st' L' d' t'. btree_insert store_ops 10000 1 2 4 [9] demo_store = (Inr (), st') \<and> tree_at st' L' d' t' \<and>
     tree_map t' = [3 \<mapsto> [1, 2], 5 \<mapsto> [7], 4 \<mapsto> [9]]"
proof -
  have "room (insert_room (BLeaf 2 demo_cells) 0 [9]) demo_store"
    by (rule room_mono [OF demo_room])
      (simp add: insert_room_def demo_cells_def spill_need_def spills_def OVERFLOW_THRESHOLD_def PAGE_SIZE_def)
  moreover have "st_journal demo_store \<or> st_wal demo_store"
    using demo_modes by simp
  moreover have "(tree_map (BLeaf 2 demo_cells))(4 \<mapsto> [9]) = [3 \<mapsto> [1, 2], 5 \<mapsto> [7], 4 \<mapsto> [9]]"
    by (auto simp: tree_map_def demo_cells_def)
  ultimately show ?thesis
    using btree_insert_refines_update [OF demo_tree, of 1 4 "[9]" 10000] by (simp, blast)
qed

end
