(* ===== verification/Pager.thy ===== *)
theory Pager
  imports Wal
begin

text \<open>
  \<open>pager.py\<close>: the page cache with its LRU order, the dirty and pinned sets, the rollback journal,
  the write-ahead mode and the mapped read path, as one state record with one definition per method.
  The cache is an association list, least recently used page first. The order in which Python
  iterates the dirty set is an argument of \<open>commit\<close>; the salts drawn by the log are arguments too.
  Locks, file modes and log messages are left out.
\<close>

section \<open>State\<close>

definition JOURNAL_MAGIC :: bytes where \<comment> \<open>\<open>b"LILLI-JRNL\x00\x00"\<close>\<close>
  "JOURNAL_MAGIC = [76, 73, 76, 76, 73, 45, 74, 82, 78, 76, 0, 0]"

definition JOURNAL_HEADER_SIZE :: nat where "JOURNAL_HEADER_SIZE = 16"

record journal =
  j_journaled :: "nat set"
  j_pending :: "(nat \<times> bytes) list"
  j_count :: nat

record pager =
  p_page_size :: nat
  p_cache :: "(nat \<times> bytes) list"
  p_dirty :: "nat set"
  p_pinned :: "nat set"
  p_max :: "nat option"
  p_closed :: bool
  p_journal :: "journal option"
  p_wal_mode :: bool
  p_wal :: "wal option"
  p_use_mmap :: bool
  p_mmap :: "nat option" \<comment> \<open>the length of the live mapping of the file\<close>
  p_disk :: disk

definition with_disk :: "(disk, 'a) pm \<Rightarrow> (pager, 'a) pm" where
  "with_disk m = (\<lambda>s. case m (p_disk s) of (r, d) \<Rightarrow> (r, s\<lparr>p_disk := d\<rparr>))"

definition with_wal :: "'a wm \<Rightarrow> (pager, 'a) pm" where
  "with_wal m = (\<lambda>s. case p_wal s of
     None \<Rightarrow> (Inl AttributeError, s)
   | Some w \<Rightarrow> (case m (w, p_disk s) of (r, (w', d)) \<Rightarrow> (r, s\<lparr>p_wal := Some w', p_disk := d\<rparr>)))"

definition check_open :: "(pager, unit) pm" where
  "check_open = (\<lambda>s. if p_closed s then (Inl RuntimeErr, s) else (Inr (), s))"

section \<open>The journal\<close>

definition journal_init :: "(pager, unit) pm" where
  \<comment> \<open>\<open>Journal.__init__\<close>\<close>
  "journal_init =
     bindS (with_disk (side_write Jrn (Pwrite 0 (JOURNAL_MAGIC @ be_bytes 4 0)))) (\<lambda>_.
     modifyS (\<lambda>s. s\<lparr>p_journal := Some \<lparr>j_journaled = {}, j_pending = [], j_count = 0\<rparr>\<rparr>))"

definition record_before_image :: "nat \<Rightarrow> bytes \<Rightarrow> journal \<Rightarrow> journal" where
  "record_before_image page_no data j =
     (if page_no \<in> j_journaled j then j
      else \<lparr>j_journaled = insert page_no (j_journaled j), j_pending = j_pending j @ [(page_no, data)],
            j_count = j_count j + 1\<rparr>)"

fun fill_records :: "bytes \<Rightarrow> nat \<Rightarrow> (nat \<times> bytes) list \<Rightarrow> bytes res" where
  "fill_records buf offset [] = Inr buf"
| "fill_records buf offset ((page_no, data) # recs) =
     bindR (pack_into 4 buf offset (int page_no)) (\<lambda>buf'.
     fill_records (blit buf' (offset + 4) data) (offset + 4 + length data) recs)"

definition journal_body :: "(nat \<times> bytes) list \<Rightarrow> bytes res" where
  "journal_body pending =
     (let page_size = length (snd (hd pending)); record_size = 4 + page_size
      in fill_records (replicate (length pending * record_size) 0) 0 pending)"

definition flush_pending :: "(pager, unit) pm" where
  "flush_pending =
     bindS (getS p_journal) (\<lambda>jo.
     case jo of
       None \<Rightarrow> raiseS AttributeError
     | Some j \<Rightarrow>
         if j_pending j = [] then retS ()
         else
           bindS (liftR (journal_body (j_pending j))) (\<lambda>buf.
           bindS (with_disk (side_write Jrn (Pwrite JOURNAL_HEADER_SIZE buf))) (\<lambda>_.
           modifyS (\<lambda>s. s\<lparr>p_journal := Some (j\<lparr>j_pending := []\<rparr>)\<rparr>))))"

section \<open>The cache\<close>

definition cache_pop :: "nat \<Rightarrow> pager \<Rightarrow> pager" where
  "cache_pop page_no s = s\<lparr>p_cache := AList.delete page_no (p_cache s)\<rparr>"

definition cache_put :: "nat \<Rightarrow> bytes \<Rightarrow> pager \<Rightarrow> pager" where
  "cache_put page_no data s = s\<lparr>p_cache := AList.update page_no data (p_cache s)\<rparr>"

definition touch :: "nat \<Rightarrow> pager \<Rightarrow> pager" where
  "touch page_no s =
     (case map_of (p_cache s) page_no of
        None \<Rightarrow> s
      | Some data \<Rightarrow> s\<lparr>p_cache := AList.delete page_no (p_cache s) @ [(page_no, data)]\<rparr>)"

fun evict_victims :: "nat \<Rightarrow> nat \<Rightarrow> (nat \<Rightarrow> bool) \<Rightarrow> nat list \<Rightarrow> nat list \<Rightarrow> nat list" where
  \<comment> \<open>the scan from the front; \<open>keep\<close>: the page is dirty or pinned\<close>
  "evict_victims cache_len target keep to_evict [] = to_evict"
| "evict_victims cache_len target keep to_evict (page_no # pns) =
     (if cache_len - length to_evict \<le> target then to_evict
      else if keep page_no then evict_victims cache_len target keep to_evict pns
      else evict_victims cache_len target keep (to_evict @ [page_no]) pns)"

definition evict_if_over_budget :: "pager \<Rightarrow> pager" where
  "evict_if_over_budget s =
     (case p_max s of
        None \<Rightarrow> s
      | Some target \<Rightarrow>
          if length (p_cache s) \<le> target then s
          else fold cache_pop
            (evict_victims (length (p_cache s)) target (\<lambda>p. p \<in> p_dirty s \<or> p \<in> p_pinned s) [] (map fst (p_cache s))) s)"

definition set_max_cached_pages :: "nat option \<Rightarrow> (pager, unit) pm" where
  "set_max_cached_pages n = modifyS (\<lambda>s. evict_if_over_budget (s\<lparr>p_max := n\<rparr>))"

definition cache_fresh :: "nat \<Rightarrow> bytes \<Rightarrow> (pager, bytes) pm" where
  \<comment> \<open>a page just read enters the cache\<close>
  "cache_fresh page_no raw =
     bindS (getS p_page_size) (\<lambda>ps.
     let buf = blit (replicate ps 0) 0 raw in
     bindS (modifyS (\<lambda>s. evict_if_over_budget (touch page_no (cache_put page_no buf s)))) (\<lambda>_.
     retS buf))"

definition load_page_from_disk :: "nat \<Rightarrow> (pager, bytes) pm" where
  \<comment> \<open>after \<open>close\<close> the file descriptor is gone and the read fails\<close>
  "load_page_from_disk page_no =
     bindS (getS p_page_size) (\<lambda>ps.
     bindS (getS p_closed) (\<lambda>closed.
     bindS (liftR (assertR (\<not> closed) OSError)) (\<lambda>_.
     bindS (liftR (page_offset ps page_no)) (\<lambda>offset.
     bindS (getS (\<lambda>s. pread (db_content (p_disk s)) ps offset)) (\<lambda>raw.
     cache_fresh page_no raw)))))"

definition refresh_mmap :: "pager \<Rightarrow> pager" where
  "refresh_mmap s =
     (if \<not> p_use_mmap s then s
      else
        let file_size = length (db_content (p_disk s)) in
        s\<lparr>p_mmap := (if file_size = 0 then None else Some file_size)\<rparr>)"

definition mmap_page :: "nat \<Rightarrow> pager \<Rightarrow> bytes option" where
  \<comment> \<open>the mapped slice of a page, when the mapping covers it; page 0 gives Python's empty slice\<close>
  "mmap_page page_no s =
     (case p_mmap s of
        None \<Rightarrow> None
      | Some len \<Rightarrow>
          let ps = p_page_size s in
          if \<not> p_use_mmap s then None
          else if page_no = 0 then Some []
          else if (page_no - 1) * ps + ps \<le> len then Some (pread (db_content (p_disk s)) ps ((page_no - 1) * ps))
          else None)"

section \<open>Pages\<close>

definition pager_read :: "nat \<Rightarrow> (pager, bytes) pm" where
  \<comment> \<open>\<open>read_page\<close>\<close>
  "pager_read page_no =
     bindS check_open (\<lambda>_.
     bindS (getS id) (\<lambda>s.
     if page_no \<in> p_dirty s then
       (case map_of (p_cache s) page_no of
          Some data \<Rightarrow> bindS (modifyS (touch page_no)) (\<lambda>_. retS data)
        | None \<Rightarrow> load_page_from_disk page_no)
     else if p_wal_mode s \<and> p_wal s \<noteq> None then
       bindS (with_wal (wal_read_page page_no)) (\<lambda>page_bytes. cache_fresh page_no page_bytes)
     else
       case map_of (p_cache s) page_no of
         Some data \<Rightarrow> bindS (modifyS (touch page_no)) (\<lambda>_. retS data)
       | None \<Rightarrow>
           (case mmap_page page_no s of
              Some data \<Rightarrow> retS data
            | None \<Rightarrow> load_page_from_disk page_no)))"

definition pager_record :: "nat \<Rightarrow> bytes \<Rightarrow> (pager, unit) pm" where
  \<comment> \<open>\<open>journal.record_before_image\<close> on the journal of the open transaction\<close>
  "pager_record page_no data =
     modifyS (\<lambda>s. s\<lparr>p_journal := map_option (record_before_image page_no data) (p_journal s)\<rparr>)"

definition before_image :: "nat \<Rightarrow> (pager, bytes) pm" where
  \<comment> \<open>what \<open>write_page\<close> records: the cached content, else the page of the file\<close>
  "before_image page_no =
     bindS (getS id) (\<lambda>s.
     case map_of (p_cache s) page_no of
       Some data \<Rightarrow> retS data
     | None \<Rightarrow>
         bindS (liftR (page_offset (p_page_size s) page_no)) (\<lambda>offset.
         let raw = pread (db_content (p_disk s)) (p_page_size s) offset
         in retS (raw @ replicate (p_page_size s - length raw) 0)))"

definition pager_write :: "nat \<Rightarrow> bytes \<Rightarrow> (pager, unit) pm" where
  \<comment> \<open>\<open>write_page\<close>\<close>
  "pager_write page_no data =
     bindS check_open (\<lambda>_.
     bindS (getS id) (\<lambda>s.
     bindS (liftR (assertR (length data = p_page_size s) ValueError)) (\<lambda>_.
     bindS (case p_journal s of
         None \<Rightarrow> retS ()
       | Some j \<Rightarrow>
           if page_no \<in> j_journaled j then retS ()
           else bindS (before_image page_no) (pager_record page_no)) (\<lambda>_.
     modifyS (\<lambda>s. (cache_put page_no data s)\<lparr>p_dirty := insert page_no (p_dirty s)\<rparr>)))))"

definition writable_cache_page :: "nat \<Rightarrow> (pager, bytes) pm" where
  "writable_cache_page page_no =
     bindS (getS id) (\<lambda>s.
     case map_of (p_cache s) page_no of
       None \<Rightarrow> load_page_from_disk page_no
     | Some data \<Rightarrow> retS data)"

definition pager_read_hdr :: "hdr_field \<Rightarrow> (pager, nat) pm" where
  \<comment> \<open>\<open>read_db_header_field\<close>\<close>
  "pager_read_hdr f = bindS (pager_read 1) (\<lambda>page. liftR (unpack_from (hdr_width f) page (hdr_offset f)))"

definition mutate_cached :: "nat \<Rightarrow> bytes \<Rightarrow> pager \<Rightarrow> pager" where
  \<comment> \<open>a mutation of the buffer of a page shows in the cache when the cache still holds the buffer\<close>
  "mutate_cached page_no data s =
     (if map_of (p_cache s) page_no = None then s else cache_put page_no data s)"

definition pager_update_hdr :: "hdr_field \<Rightarrow> nat \<Rightarrow> (pager, unit) pm" where
  \<comment> \<open>\<open>update_db_header\<close>\<close>
  "pager_update_hdr f v =
     bindS (writable_cache_page 1) (\<lambda>page.
     bindS (pager_record 1 page) (\<lambda>_.
     bindS (liftR (pack_into (hdr_width f) page (hdr_offset f) (int v))) (\<lambda>page'.
     modifyS (\<lambda>s. (mutate_cached 1 page' s)\<lparr>p_dirty := insert 1 (p_dirty s)\<rparr>))))"

definition pager_extend :: "(pager, nat) pm" where
  \<comment> \<open>\<open>extend_file\<close>\<close>
  "pager_extend =
     bindS check_open (\<lambda>_.
     bindS (pager_read_hdr HDbSize) (\<lambda>current_size.
     let new_page_no = current_size + 1 in
     bindS (modifyS (\<lambda>s. (cache_put new_page_no (replicate (p_page_size s) 0) s)
              \<lparr>p_dirty := insert new_page_no (p_dirty s)\<rparr>)) (\<lambda>_.
     bindS (pager_update_hdr HDbSize new_page_no) (\<lambda>_.
     retS new_page_no))))"

section \<open>Transactions\<close>

definition begin_write :: "(pager, unit) pm" where
  "begin_write =
     bindS check_open (\<lambda>_.
     bindS (modifyS (\<lambda>s. if 1 < card (p_pinned s) then s\<lparr>p_pinned := {1}\<rparr> else s)) (\<lambda>_.
     bindS (getS id) (\<lambda>s.
     if p_wal_mode s then retS ()
     else if p_journal s \<noteq> None then raiseS RuntimeErr
     else
       bindS (with_disk (side_create_trunc Jrn)) (\<lambda>_.
       journal_init))))"

definition cached_pages :: "nat list \<Rightarrow> pager \<Rightarrow> (nat \<times> bytes) list res" where
  \<comment> \<open>the dirty pages with their cached content, in iteration order\<close>
  "cached_pages order s =
     mapR (\<lambda>pn. case map_of (p_cache s) pn of None \<Rightarrow> Inl KeyError | Some data \<Rightarrow> Inr (pn, data)) order"

definition commit_wal :: "nat \<Rightarrow> nat list \<Rightarrow> (pager, unit) pm" where
  \<comment> \<open>the write-ahead path of \<open>commit\<close>\<close>
  "commit_wal new_salt2 order =
     bindS (if order \<noteq> [] then
         bindS (getS (cached_pages order)) (\<lambda>r.
         bindS (liftR r) (\<lambda>dirty_pages.
         bindS (pager_read_hdr HDbSize) (\<lambda>db_size.
         bindS (with_wal (commit_transaction dirty_pages db_size)) (\<lambda>_.
         bindS (with_wal (getS (\<lambda>(w, d). w_count w))) (\<lambda>committed_frame_count.
         if WAL_AUTOCHECKPOINT_FRAMES \<le> committed_frame_count then
           bindS (with_wal (wal_checkpoint new_salt2)) (\<lambda>_.
           bindS (load_page_from_disk 1) (\<lambda>_.
           modifyS refresh_mmap))
         else retS ())))))
       else retS ()) (\<lambda>_.
     modifyS (\<lambda>s. s\<lparr>p_dirty := {}\<rparr>))"

definition write_dirty_page :: "nat \<Rightarrow> (pager, unit) pm" where
  "write_dirty_page page_no =
     bindS (getS id) (\<lambda>s.
     case map_of (p_cache s) page_no of
       None \<Rightarrow> raiseS KeyError
     | Some page_data \<Rightarrow>
         bindS (liftR (page_offset (p_page_size s) page_no)) (\<lambda>file_offset.
         with_disk (db_pwrite page_data file_offset)))"

definition commit_journal :: "journal \<Rightarrow> nat list \<Rightarrow> (pager, unit) pm" where
  \<comment> \<open>the rollback-journal path of \<open>commit\<close>\<close>
  "commit_journal j order =
     bindS flush_pending (\<lambda>_.
     bindS (with_disk (side_fsync Jrn)) (\<lambda>_.
     bindS (liftR (pack 4 (int (j_count j)))) (\<lambda>count_data.
     bindS (with_disk (side_write Jrn (Pwrite 12 count_data))) (\<lambda>_.
     bindS (with_disk (side_fsync Jrn)) (\<lambda>_.
     bindS (forS write_dirty_page order) (\<lambda>_.
     bindS (with_disk db_fsync) (\<lambda>_.
     bindS (modifyS (\<lambda>s. if p_use_mmap s then fold cache_pop order (refresh_mmap s) else s)) (\<lambda>_.
     bindS (with_disk (side_unlink Jrn)) (\<lambda>_.
     bindS (with_disk dir_fsync) (\<lambda>_.
     modifyS (\<lambda>s. s\<lparr>p_journal := None, p_dirty := {}\<rparr>)))))))))))"

definition pager_commit :: "nat \<Rightarrow> nat list \<Rightarrow> (pager, unit) pm" where
  \<comment> \<open>\<open>commit\<close>; \<open>order\<close>: the dirty pages as the set iterates them\<close>
  "pager_commit new_salt2 order =
     bindS check_open (\<lambda>_.
     bindS (getS id) (\<lambda>s.
     if p_wal_mode s \<and> p_wal s \<noteq> None then commit_wal new_salt2 order
     else
       case p_journal s of
         None \<Rightarrow> raiseS RuntimeErr
       | Some j \<Rightarrow> commit_journal j order))"

definition restore_page :: "nat \<times> bytes \<Rightarrow> pager \<Rightarrow> pager" where
  "restore_page = (\<lambda>(page_no, data) s. (cache_put page_no data s)\<lparr>p_pinned := insert page_no (p_pinned s)\<rparr>)"

fun journal_records :: "nat \<Rightarrow> bytes \<Rightarrow> nat \<Rightarrow> nat \<Rightarrow> (nat \<times> bytes) list" where
  \<comment> \<open>the \<open>for _ in range(page_count)\<close> loop over a journal body\<close>
  "journal_records ps data pos 0 = []"
| "journal_records ps data pos (Suc n) =
     (if length data < pos + 4 + ps then []
      else (be_nat (pyslice data pos (pos + 4)), pyslice data (pos + 4) (pos + 4 + ps))
           # journal_records ps data (pos + 4 + ps) n)"

definition pager_rollback :: "(pager, unit) pm" where
  \<comment> \<open>\<open>rollback\<close>\<close>
  "pager_rollback =
     bindS check_open (\<lambda>_.
     bindS (getS id) (\<lambda>s.
     if p_wal_mode s \<and> p_wal s \<noteq> None then
       bindS (with_wal wal_rollback) (\<lambda>_. modifyS (\<lambda>s. s\<lparr>p_dirty := {}\<rparr>))
     else
       case p_journal s of
         None \<Rightarrow> raiseS RuntimeErr
       | Some j \<Rightarrow>
           bindS (modifyS (fold restore_page (j_pending j))) (\<lambda>_.
           bindS (if j_pending j = [] then
               let ps = p_page_size s;
                   journal_data = pread (side_content Jrn (p_disk s)) (JOURNAL_HEADER_SIZE + j_count j * (4 + ps)) 0
               in modifyS (fold restore_page (journal_records ps journal_data JOURNAL_HEADER_SIZE (j_count j)))
             else retS ()) (\<lambda>_.
           bindS (with_disk (side_unlink Jrn)) (\<lambda>_.
           modifyS (\<lambda>s. s\<lparr>p_journal := None, p_dirty := {}\<rparr>))))))"

definition checkpoint_wal :: "nat \<Rightarrow> (pager, unit) pm" where
  "checkpoint_wal new_salt2 =
     bindS (getS id) (\<lambda>s.
     if \<not> p_wal_mode s \<or> p_wal s = None then retS ()
     else
       bindS (with_wal (wal_checkpoint new_salt2)) (\<lambda>_.
       bindS (load_page_from_disk 1) (\<lambda>_.
       modifyS refresh_mmap)))"

definition enable_wal_mode :: "nat \<Rightarrow> nat \<Rightarrow> (pager, unit) pm" where
  "enable_wal_mode salt1 salt2 =
     bindS (getS id) (\<lambda>s.
     if p_wal_mode s then retS ()
     else
       case wal_open (p_page_size s) salt1 salt2 (p_disk s) of
         (r, d) \<Rightarrow>
       bindS (modifyS (\<lambda>s. s\<lparr>p_disk := d\<rparr>)) (\<lambda>_.
       bindS (liftR r) (\<lambda>w.
       bindS (modifyS (\<lambda>s. s\<lparr>p_wal := Some w, p_wal_mode := True\<rparr>)) (\<lambda>_.
       bindS (writable_cache_page 1) (\<lambda>page1.
       bindS (liftR (bindR (pack_into 1 page1 (hdr_offset HWriteVersion) (int WAL_WRITE_VERSION)) (\<lambda>pg.
                pack_into 1 pg (hdr_offset HReadVersion) (int WAL_WRITE_VERSION)))) (\<lambda>page1'.
       bindS (modifyS (\<lambda>s. (mutate_cached 1 page1' s)\<lparr>p_dirty := insert 1 (p_dirty s)\<rparr>)) (\<lambda>_.
       bindS (with_disk (db_pwrite page1' 0)) (\<lambda>_.
       with_disk db_fsync))))))))"

definition swallow_os_error :: "(pager, unit) pm \<Rightarrow> (pager, unit) pm" where
  \<comment> \<open>\<open>try: ... except OSError: pass\<close>\<close>
  "swallow_os_error m = (\<lambda>s. case m s of (Inl OSError, s') \<Rightarrow> (Inr (), s') | r \<Rightarrow> r)"

definition pager_close :: "nat \<Rightarrow> (pager, unit) pm" where
  \<comment> \<open>\<open>close\<close>\<close>
  "pager_close new_salt2 =
     bindS (getS id) (\<lambda>s.
     if p_closed s then retS ()
     else
       bindS (modifyS (\<lambda>s. s\<lparr>p_closed := True, p_journal := None\<rparr>)) (\<lambda>_.
       bindS (case p_wal s of
           None \<Rightarrow> retS ()
         | Some w \<Rightarrow>
             bindS (if 0 < w_count w then swallow_os_error (with_wal (wal_checkpoint new_salt2)) else retS ()) (\<lambda>_.
             modifyS (\<lambda>s. s\<lparr>p_wal := None\<rparr>))) (\<lambda>_.
       modifyS (\<lambda>s. s\<lparr>p_mmap := None, p_cache := [], p_dirty := {}, p_pinned := {}\<rparr>))))"

section \<open>Opening a database\<close>

definition init_fresh_file :: "(pager, unit) pm" where
  "init_fresh_file =
     bindS (getS p_page_size) (\<lambda>ps.
     let page0 = blit (replicate ps 0) 0 DB_MAGIC in
     bindS (liftR (bindR (pack_into 2 page0 (hdr_offset HPageSize) (int ps)) (\<lambda>p1.
             bindR (pack_into 1 p1 (hdr_offset HWriteVersion) 1) (\<lambda>p2.
             bindR (pack_into 1 p2 (hdr_offset HReadVersion) 1) (\<lambda>p3.
             pack_into 4 p3 (hdr_offset HDbSize) 2))))) (\<lambda>page.
     bindS (with_disk (db_pwrite page 0)) (\<lambda>_.
     bindS (liftR (write_leaf_header (replicate ps 0) 0 (int ps) 0 0)) (\<lambda>root_page.
     bindS (with_disk (db_pwrite root_page ps)) (\<lambda>_.
     bindS (with_disk db_fsync) (\<lambda>_.
     modifyS (\<lambda>s. cache_put 2 root_page (cache_put 1 page s))))))))"

definition replay_record :: "nat \<Rightarrow> nat \<times> bytes \<Rightarrow> (disk, unit) pm" where
  "replay_record ps = (\<lambda>(page_no, page_data).
     bindS (liftR (page_offset ps page_no)) (\<lambda>file_offset. db_pwrite page_data file_offset))"

definition replay_journal :: "nat \<Rightarrow> bytes \<Rightarrow> (disk, unit) pm" where
  \<comment> \<open>what recovery does with the bytes of a rollback journal\<close>
  "replay_journal ps journal_data =
     (if length journal_data < JOURNAL_HEADER_SIZE then side_unlink Jrn
      else if take 12 journal_data \<noteq> JOURNAL_MAGIC then side_unlink Jrn
      else
        let page_count = be_nat (pyslice journal_data 12 16) in
        if page_count = 0 then side_unlink Jrn
        else
          bindS (forS (replay_record ps) (journal_records ps journal_data JOURNAL_HEADER_SIZE page_count)) (\<lambda>_.
          bindS db_fsync (\<lambda>_.
          side_unlink Jrn)))"

definition recover_if_needed :: "nat \<Rightarrow> bool \<Rightarrow> (disk, unit) pm" where
  \<comment> \<open>\<open>readable\<close>: the sidecar can be opened and read\<close>
  "recover_if_needed ps readable =
     bindS (getS (\<lambda>d. pread (db_content d) 1 (hdr_offset HWriteVersion))) (\<lambda>version_raw.
     if version_raw = [of_nat WAL_WRITE_VERSION] then
       bindS (getS (\<lambda>d. sc_cur (d_wal d))) (\<lambda>sidecar.
       if sidecar = None then retS () else recover_wal_on_open ps readable)
     else
       bindS (getS (\<lambda>d. sc_cur (d_jrn d))) (\<lambda>jo.
       case jo of
         None \<Rightarrow> retS ()
       | Some jf \<Rightarrow> if \<not> readable then retS () else replay_journal ps (content jf)))"

definition peek_page_size :: "nat \<Rightarrow> bytes \<Rightarrow> nat" where
  "peek_page_size ps f =
     (let hdr_peek = pread f (hdr_offset HPageSize + 2) 0 in
      if hdr_offset HPageSize + 2 \<le> length hdr_peek
      then (let on_disk_ps = be_nat (pyslice hdr_peek (hdr_offset HPageSize) (hdr_offset HPageSize + 2))
            in if 512 \<le> on_disk_ps then on_disk_ps else ps)
      else ps)"

definition pager_init :: "nat \<Rightarrow> bool \<Rightarrow> nat option \<Rightarrow> disk \<Rightarrow> pager" where
  "pager_init page_size use_mmap max_cached d =
     \<lparr>p_page_size = page_size, p_cache = [], p_dirty = {}, p_pinned = {1}, p_max = max_cached, p_closed = False,
      p_journal = None, p_wal_mode = False, p_wal = None, p_use_mmap = use_mmap, p_mmap = None, p_disk = d\<rparr>"

definition pager_open :: "nat \<Rightarrow> bool \<Rightarrow> nat option \<Rightarrow> bool \<Rightarrow> disk \<Rightarrow> unit res \<times> pager" where
  \<comment> \<open>\<open>Pager.__init__\<close>\<close>
  "pager_open page_size use_mmap max_cached readable d =
     bindS (getS (\<lambda>s. length (db_content (p_disk s)))) (\<lambda>existing_size.
     if existing_size = 0 then bindS init_fresh_file (\<lambda>_. modifyS refresh_mmap)
     else
       bindS (modifyS (\<lambda>s. s\<lparr>p_page_size := peek_page_size (p_page_size s) (db_content (p_disk s))\<rparr>)) (\<lambda>_.
       bindS (getS p_page_size) (\<lambda>ps.
       bindS (with_disk (recover_if_needed ps readable)) (\<lambda>_.
       bindS (modifyS refresh_mmap) (\<lambda>_.
       bindS (load_page_from_disk 1) (\<lambda>_.
       retS ()))))))
     (pager_init page_size use_mmap max_cached d)"

section \<open>The pager as an object\<close>

definition pg_ops :: "pager pager_ops" where
  "pg_ops = \<lparr>
     op_page_size = p_page_size,
     op_read_page = pager_read,
     op_write_page = pager_write,
     op_extend_file = pager_extend,
     op_read_hdr = pager_read_hdr,
     op_update_hdr = pager_update_hdr,
     op_record_before = pager_record,
     op_has_journal = (\<lambda>s. p_journal s \<noteq> None),
     op_wal_mode = p_wal_mode,
     op_root_page_no = 2\<rparr>"

end
