(* ===== verification/PagerView.thy ===== *)
theory PagerView
  imports Pager WalTxn Cursor
begin

text \<open>
  The pager is a table of pages: \<open>pager_view\<close> reads the table off the cache, the dirty set, the log
  and the file, \<open>pager_ok\<close> is the invariant of the pager while a transaction runs, and every method
  refines the method of the reference pager. The contract of \<open>PagerOps\<close> is interpreted on it, so
  that what is proved of the B+tree, the freelist and the overflow chains on the reference pager
  holds on this one, whatever its cache bound, its mode and its read path.
\<close>

section \<open>The table of pages\<close>

definition base_page :: "disk \<Rightarrow> wal option \<Rightarrow> nat \<Rightarrow> bytes" where
  \<comment> \<open>the committed content of a page\<close>
  "base_page d wo n = (case wo of Some w \<Rightarrow> wal_pages w d n | None \<Rightarrow> page_img (db_content d) n)"

definition base_store :: "disk \<Rightarrow> wal option \<Rightarrow> bool \<Rightarrow> store" where
  "base_store d wo jr =
     \<lparr>st_pages = (\<lambda>n. if n = 0 then [] else base_page d wo n), st_journal = jr, st_wal = (wo \<noteq> None)\<rparr>"

definition pager_page :: "pager \<Rightarrow> nat \<Rightarrow> bytes" where
  "pager_page s n =
     (if n = 0 then []
      else case map_of (p_cache s) n of
        Some data \<Rightarrow> if n \<in> p_dirty s \<or> p_wal s = None then data else base_page (p_disk s) (p_wal s) n
      | None \<Rightarrow> base_page (p_disk s) (p_wal s) n)"

definition pager_view :: "pager \<Rightarrow> store" where
  "pager_view s = \<lparr>st_pages = pager_page s, st_journal = (p_journal s \<noteq> None), st_wal = p_wal_mode s\<rparr>"

lemma pager_view_simps [simp]:
  "st_pages (pager_view s) = pager_page s" "st_journal (pager_view s) \<longleftrightarrow> p_journal s \<noteq> None"
  "st_wal (pager_view s) = p_wal_mode s"
  by (simp_all add: pager_view_def)

lemma base_store_simps [simp]:
  "st_pages (base_store d wo jr) n = (if n = 0 then [] else base_page d wo n)"
  "st_journal (base_store d wo jr) = jr" "st_wal (base_store d wo jr) \<longleftrightarrow> wo \<noteq> None"
  by (simp_all add: base_store_def)

section \<open>The invariant\<close>

definition images_ok :: "disk \<Rightarrow> journal \<Rightarrow> bool" where
  \<comment> \<open>the journal holds the committed content of the pages it names, once each\<close>
  "images_ok d j \<longleftrightarrow> j_journaled j = fst ` set (j_pending j) \<and> distinct (map fst (j_pending j)) \<and>
     j_count j = length (j_pending j) \<and>
     (\<forall>(p, data) \<in> set (j_pending j). 1 \<le> p \<and> p < 2 ^ 32 \<and> data = page_img (db_content d) p)"

definition cache_ok :: "pager \<Rightarrow> bool" where
  "cache_ok s \<longleftrightarrow> p_dirty s \<subseteq> dom (map_of (p_cache s)) \<and>
     (\<forall>n data. map_of (p_cache s) n = Some data \<longrightarrow> length data = PAGE_SIZE) \<and>
     0 \<notin> p_dirty s \<and> 1 \<in> p_pinned s"

definition journal_mode_ok :: "pager \<Rightarrow> bool" where
  \<comment> \<open>a clean cached page is the page of the file; the file is zero beyond its size; a page without a
     before-image has not changed\<close>
  "journal_mode_ok s \<longleftrightarrow>
     (let d = p_disk s; n0 = store_hdr (base_store d None False) HDbSize in
      1 \<le> n0 \<and> n0 \<le> store_hdr (pager_view s) HDbSize \<and>
      (\<forall>n > n0. page_img (db_content d) n = replicate PAGE_SIZE 0) \<and>
      (\<forall>n data. 1 \<le> n \<longrightarrow> n \<notin> p_dirty s \<longrightarrow> map_of (p_cache s) n = Some data \<longrightarrow> data = page_img (db_content d) n) \<and>
      (\<forall>j. p_journal s = Some j \<longrightarrow> images_ok d j \<and>
         (\<forall>n \<in> p_dirty s. n \<notin> j_journaled j \<longrightarrow> pager_page s n = page_img (db_content d) n)))"

definition wal_mode_ok :: "pager \<Rightarrow> wal \<Rightarrow> bool" where
  \<comment> \<open>the header page is cached with its current content: the header writes change the cached copy\<close>
  "wal_mode_ok s w \<longleftrightarrow> p_journal s = None \<and> (\<exists>ts. wal_inv w (p_disk s) ts) \<and>
     1 \<le> store_hdr (pager_view s) HDbSize \<and> map_of (p_cache s) 1 = Some (pager_page s 1)"

definition pager_ok :: "disk \<Rightarrow> wal option \<Rightarrow> pager \<Rightarrow> bool" where
  \<comment> \<open>the pager works on disk \<open>d\<close> with log \<open>wo\<close>\<close>
  "pager_ok d wo s \<longleftrightarrow> p_disk s = d \<and> p_wal s = wo \<and> (p_wal_mode s \<longleftrightarrow> wo \<noteq> None) \<and>
     \<not> p_closed s \<and> p_page_size s = PAGE_SIZE \<and> cache_ok s \<and>
     (\<forall>len. p_mmap s = Some len \<longrightarrow> len \<le> length (db_content d)) \<and>
     (case wo of None \<Rightarrow> journal_mode_ok s | Some w \<Rightarrow> wal_mode_ok s w)"

lemma pager_ok_basics:
  assumes "pager_ok d wo s"
  shows "p_disk s = d" and "p_wal s = wo" and "p_wal_mode s \<longleftrightarrow> wo \<noteq> None" and "\<not> p_closed s"
    and "p_page_size s = PAGE_SIZE" and "cache_ok s"
    and "p_mmap s = Some len \<Longrightarrow> len \<le> length (db_content d)"
    and "wo = None \<Longrightarrow> journal_mode_ok s" and "wo = Some w \<Longrightarrow> wal_mode_ok s w"
  using assms by (auto simp: pager_ok_def)

lemma wal_pages_length:
  assumes "wal_inv w d ts"
  shows "length (wal_pages w d n) = PAGE_SIZE"
  using logged_pages [of ts n] assms
  by (auto simp: wal_pages_overlay [OF assms] overlay_def wal_inv_def writer_ok_def split: option.split)

lemma base_length: "pager_ok d wo s \<Longrightarrow> length (base_page d wo n) = PAGE_SIZE"
  by (auto simp: base_page_def pager_ok_def wal_mode_ok_def wal_pages_length split: option.splits)

lemma pager_page_length: "pager_ok d wo s \<Longrightarrow> n \<noteq> 0 \<Longrightarrow> length (pager_page s n) = PAGE_SIZE"
  using base_length [of d wo s n] pager_ok_basics(1,2,6) [of d wo s]
  by (auto simp: pager_page_def cache_ok_def split: option.split)

lemma view_hdr_ok: "pager_ok d wo s \<Longrightarrow> hdr_page_ok (pager_view s)"
  by (simp add: hdr_page_ok_def pager_page_length)

lemma clean_page_base:
  assumes "pager_ok d wo s" and "n \<notin> p_dirty s" and "n \<noteq> 0"
  shows "pager_page s n = base_page d wo n"
  using assms pager_ok_basics(1,2,8) [OF assms(1)]
  by (auto simp: pager_page_def journal_mode_ok_def base_page_def Let_def split: option.split)

text \<open>A cache with the same dirty pages and only true copies of clean ones makes no difference.\<close>

lemma recached:
  assumes ok: "pager_ok d wo s" and s': "s' = s\<lparr>p_cache := c\<rparr>"
    and dirty: "\<And>n. n \<in> p_dirty s \<Longrightarrow> map_of c n = map_of (p_cache s) n"
    and clean: "\<And>n data. n \<notin> p_dirty s \<Longrightarrow> map_of c n = Some data \<Longrightarrow>
      length data = PAGE_SIZE \<and> (wo = None \<longrightarrow> 1 \<le> n \<longrightarrow> data = base_page d wo n)"
    and one: "wo \<noteq> None \<Longrightarrow> map_of c 1 = Some (pager_page s 1)"
  shows "pager_ok d wo s'" and "pager_view s' = pager_view s"
proof -
  note b = pager_ok_basics [OF ok]
  have eq: "pager_page s' n = pager_page s n" for n
  proof (cases "n = 0 \<or> n \<in> p_dirty s")
    case True
    then show ?thesis using dirty [of n] s' by (auto simp: pager_page_def split: option.split)
  next
    case False
    then show ?thesis
      using clean_page_base [OF ok, of n] clean [of n] b(1,2) s' by (auto simp: pager_page_def split: option.split)
  qed
  then show v: "pager_view s' = pager_view s" using s' by (simp add: pager_view_def fun_eq_iff)
  have "length data = PAGE_SIZE" if "map_of c n = Some data" for n data
    using that dirty [of n] clean [of n data] b(6) by (cases "n \<in> p_dirty s") (auto simp: cache_ok_def)
  then have "cache_ok s'" using b(6) dirty s' v by (auto simp: cache_ok_def dom_def)
  moreover have "journal_mode_ok s'" if "wo = None"
    using b(1) b(8) [OF that] clean that v eq s' by (auto simp: journal_mode_ok_def Let_def base_page_def)
  moreover have "wal_mode_ok s' w" if "wo = Some w" for w
    using b(9) [OF that] one that v eq s' by (auto simp: wal_mode_ok_def)
  ultimately show "pager_ok d wo s'" using ok s' by (auto simp: pager_ok_def split: option.splits)
qed

section \<open>The cache\<close>

lemma map_of_put [simp]: "map_of (p_cache (cache_put n data s)) = (map_of (p_cache s))(n \<mapsto> data)"
  by (simp add: cache_put_def update_conv')

lemma cache_put_fields [simp]:
  "p_dirty (cache_put n data s) = p_dirty s" "p_disk (cache_put n data s) = p_disk s"
  "p_wal (cache_put n data s) = p_wal s" "p_journal (cache_put n data s) = p_journal s"
  "p_pinned (cache_put n data s) = p_pinned s" "p_wal_mode (cache_put n data s) = p_wal_mode s"
  "p_closed (cache_put n data s) = p_closed s" "p_page_size (cache_put n data s) = p_page_size s"
  "p_mmap (cache_put n data s) = p_mmap s" "p_use_mmap (cache_put n data s) = p_use_mmap s"
  by (simp_all add: cache_put_def)

lemma touch_map:
  obtains c where "touch n s = s\<lparr>p_cache := c\<rparr>" "map_of c = map_of (p_cache s)"
proof (cases "map_of (p_cache s) n")
  case None
  then show thesis by (intro that [of "p_cache s"]) (simp_all add: touch_def)
next
  case (Some data)
  then have "map_of (AList.delete n (p_cache s) @ [(n, data)]) = map_of (p_cache s)"
    by (auto simp: delete_conv' map_add_def fun_eq_iff split: option.split)
  with Some show thesis by (intro that [of "AList.delete n (p_cache s) @ [(n, data)]"]) (simp_all add: touch_def)
qed

lemma victims_free: "p \<in> set (evict_victims len target keep vs ps) \<Longrightarrow> p \<in> set vs \<or> \<not> keep p"
  by (induction len target keep vs ps rule: evict_victims.induct) (auto split: if_splits)

lemma fold_pop: "fold cache_pop vs s = s\<lparr>p_cache := fold AList.delete vs (p_cache s)\<rparr>"
  by (induction vs arbitrary: s) (simp_all add: cache_pop_def)

lemma cache_only [simp]:
  "p_dirty (touch n s) = p_dirty s" "p_pinned (touch n s) = p_pinned s"
  "p_dirty (evict_if_over_budget s) = p_dirty s"
  by (simp_all add: touch_def evict_if_over_budget_def fold_pop split: option.split)

lemma map_of_fold_delete: "map_of (fold AList.delete vs c) = map_of c |` (- set vs)"
  by (induction vs arbitrary: c) (auto simp: delete_conv' restrict_map_def fun_eq_iff)

lemma evict_map:
  obtains c V where "evict_if_over_budget s = s\<lparr>p_cache := c\<rparr>" "map_of c = map_of (p_cache s) |` (- V)"
    "\<And>n. n \<in> V \<Longrightarrow> n \<notin> p_dirty s \<and> n \<notin> p_pinned s"
proof -
  have none: "evict_if_over_budget s = s \<Longrightarrow> thesis"
    by (rule that [of "p_cache s" "{}"]) (simp_all add: restrict_map_def)
  show thesis
  proof (cases "p_max s")
    case (Some target)
    let ?vs = "evict_victims (length (p_cache s)) target (\<lambda>p. p \<in> p_dirty s \<or> p \<in> p_pinned s) [] (map fst (p_cache s))"
    show thesis
    proof (cases "length (p_cache s) \<le> target")
      case False
      have free: "n \<notin> p_dirty s \<and> n \<notin> p_pinned s" if "n \<in> set ?vs" for n
        using victims_free [OF that] by simp
      have "evict_if_over_budget s = s\<lparr>p_cache := fold AList.delete ?vs (p_cache s)\<rparr>"
        using Some False by (simp add: evict_if_over_budget_def fold_pop)
      then show thesis by (rule that [OF _ map_of_fold_delete free])
    qed (use Some none in \<open>simp add: evict_if_over_budget_def\<close>)
  qed (use none in \<open>simp add: evict_if_over_budget_def\<close>)
qed

lemma touch_ok:
  assumes "pager_ok d wo s"
  shows "pager_ok d wo (touch n s)" and "pager_view (touch n s) = pager_view s"
proof -
  obtain c where c: "touch n s = s\<lparr>p_cache := c\<rparr>" "map_of c = map_of (p_cache s)" by (rule touch_map)
  note b = pager_ok_basics [OF assms]
  have "length data = PAGE_SIZE \<and> (wo = None \<longrightarrow> 1 \<le> n \<longrightarrow> data = base_page d wo n)"
    if "n \<notin> p_dirty s" "map_of c n = Some data" for n data
    using that c(2) b(6,8) b(1) by (auto simp: cache_ok_def journal_mode_ok_def base_page_def Let_def)
  moreover have "map_of c 1 = Some (pager_page s 1)" if "wo \<noteq> None"
    using that b(9) c(2) by (auto simp: wal_mode_ok_def)
  ultimately show "pager_ok d wo (touch n s)" "pager_view (touch n s) = pager_view s"
    using recached [OF assms c(1)] c(2) by auto
qed

lemma evict_ok:
  assumes "pager_ok d wo s"
  shows "pager_ok d wo (evict_if_over_budget s)" and "pager_view (evict_if_over_budget s) = pager_view s"
proof -
  obtain c V where c: "evict_if_over_budget s = s\<lparr>p_cache := c\<rparr>" "map_of c = map_of (p_cache s) |` (- V)"
    "\<And>n. n \<in> V \<Longrightarrow> n \<notin> p_dirty s \<and> n \<notin> p_pinned s" by (rule evict_map) blast
  note b = pager_ok_basics [OF assms]
  have "length data = PAGE_SIZE \<and> (wo = None \<longrightarrow> 1 \<le> n \<longrightarrow> data = base_page d wo n)"
    if "n \<notin> p_dirty s" "map_of c n = Some data" for n data
    using that c(2) b(6,8) b(1) by (auto simp: cache_ok_def journal_mode_ok_def base_page_def Let_def restrict_map_def split: if_splits)
  moreover have "map_of c 1 = Some (pager_page s 1)" if "wo \<noteq> None"
    using that b(6,9) c(2,3) by (auto simp: wal_mode_ok_def cache_ok_def restrict_map_def)
  moreover have "map_of c n = map_of (p_cache s) n" if "n \<in> p_dirty s" for n
    using that c(2,3) by (auto simp: restrict_map_def)
  ultimately show "pager_ok d wo (evict_if_over_budget s)" "pager_view (evict_if_over_budget s) = pager_view s"
    using recached [OF assms c(1)] by auto
qed

lemma put_clean_ok:
  assumes "pager_ok d wo s" and "n \<notin> p_dirty s" and "n \<noteq> 0"
  shows "pager_ok d wo (cache_put n (base_page d wo n) s)" and "pager_view (cache_put n (base_page d wo n) s) = pager_view s"
proof -
  note b = pager_ok_basics [OF assms(1)]
  let ?c = "AList.update n (base_page d wo n) (p_cache s)"
  have "length data = PAGE_SIZE \<and> (wo = None \<longrightarrow> 1 \<le> m \<longrightarrow> data = base_page d wo m)"
    if "m \<notin> p_dirty s" "map_of ?c m = Some data" for m data
    using that b(6,8) b(1) base_length [OF assms(1), of n]
    by (auto simp: update_conv' cache_ok_def journal_mode_ok_def base_page_def Let_def split: if_splits)
  moreover have "map_of ?c 1 = Some (pager_page s 1)" if "wo \<noteq> None"
    using that b(9) clean_page_base [OF assms] by (auto simp: wal_mode_ok_def update_conv')
  moreover have "map_of ?c m = map_of (p_cache s) m" if "m \<in> p_dirty s" for m
    using that assms(2) by (auto simp: update_conv')
  ultimately show "pager_ok d wo (cache_put n (base_page d wo n) s)" "pager_view (cache_put n (base_page d wo n) s) = pager_view s"
    using recached [OF assms(1), of "cache_put n (base_page d wo n) s" ?c] by (auto simp: cache_put_def)
qed

section \<open>Reading\<close>

definition same :: "disk \<Rightarrow> wal option \<Rightarrow> pager \<Rightarrow> pager \<Rightarrow> bool" where
  \<comment> \<open>a step that shows no difference\<close>
  "same d wo s s' \<longleftrightarrow> pager_ok d wo s' \<and> pager_view s' = pager_view s \<and> p_dirty s' = p_dirty s"

lemma fill_page: "length raw \<le> n \<Longrightarrow> blit (replicate n 0) 0 raw = raw @ replicate (n - length raw) 0"
  by (simp add: blit_def)

lemma cache_fresh_run:
  assumes "pager_ok d wo s" and "n \<notin> p_dirty s" and "n \<noteq> 0"
    and "blit (replicate PAGE_SIZE 0) 0 raw = base_page d wo n"
  obtains s' where "cache_fresh n raw s = (Inr (base_page d wo n), s')" "same d wo s s'"
    "n \<in> p_pinned s \<longrightarrow> map_of (p_cache s') n = Some (base_page d wo n)"
proof -
  let ?s1 = "cache_put n (base_page d wo n) s"
  let ?s' = "evict_if_over_budget (touch n ?s1)"
  obtain c where c: "touch n ?s1 = ?s1\<lparr>p_cache := c\<rparr>" "map_of c = map_of (p_cache ?s1)" by (rule touch_map)
  obtain c' V where c': "?s' = (touch n ?s1)\<lparr>p_cache := c'\<rparr>" "map_of c' = map_of (p_cache (touch n ?s1)) |` (- V)"
    "\<And>m. m \<in> V \<Longrightarrow> m \<notin> p_dirty (touch n ?s1) \<and> m \<notin> p_pinned (touch n ?s1)" by (rule evict_map) blast
  have "n \<in> p_pinned s \<longrightarrow> map_of (p_cache ?s') n = Some (base_page d wo n)"
    using c c'(1,2) c'(3) [of n] by (auto simp: restrict_map_def)
  have "cache_fresh n raw s = (Inr (base_page d wo n), ?s')"
    using assms(4) pager_ok_basics(5) [OF assms(1)] by (simp add: cache_fresh_def bindS_def Let_def)
  moreover have "same d wo s ?s'"
    using put_clean_ok [OF assms(1-3)] touch_ok [of d wo ?s1 n] evict_ok [of d wo "touch n ?s1"]
    by (simp add: same_def)
  ultimately show thesis using \<open>n \<in> p_pinned s \<longrightarrow> _\<close> by (intro that)
qed

lemma load_run:
  assumes "pager_ok d None s" and "n \<notin> p_dirty s" and "n \<noteq> 0"
  obtains s' where "load_page_from_disk n s = (Inr (base_page d None n), s')" "same d None s s'"
    "n \<in> p_pinned s \<longrightarrow> map_of (p_cache s') n = Some (base_page d None n)"
proof -
  note b = pager_ok_basics [OF assms(1)]
  let ?raw = "pread (db_content d) PAGE_SIZE ((n - 1) * PAGE_SIZE)"
  have "blit (replicate PAGE_SIZE 0) 0 ?raw = base_page d None n"
    using fill_page [of ?raw PAGE_SIZE] page_img_pread [of "db_content d" n] by (simp add: base_page_def)
  from cache_fresh_run [OF assms this] obtain s' where
    "cache_fresh n ?raw s = (Inr (base_page d None n), s')" "same d None s s'"
    "n \<in> p_pinned s \<longrightarrow> map_of (p_cache s') n = Some (base_page d None n)" by blast
  then show thesis
    using b(1,4,5) assms(3) by (intro that) (simp_all add: load_page_from_disk_def bindS_def page_offset_def)
qed

lemma wal_read_run:
  assumes "wal_inv w d ts" and "n \<noteq> 0"
  obtains raw where "wal_read_page n (w, d) = (Inr raw, (w, d))" "blit (replicate PAGE_SIZE 0) 0 raw = wal_pages w d n"
proof (cases "map_of (w_index w) n")
  case None
  let ?raw = "pread (db_content d) PAGE_SIZE ((n - 1) * PAGE_SIZE)"
  have "w_page_size w = PAGE_SIZE" using assms(1) by (simp add: wal_inv_def writer_ok_def)
  then have "wal_read_page n (w, d) = (Inr ?raw, (w, d))"
    using None assms(2) by (simp add: wal_read_page_def bindS_def page_offset_def)
  moreover have "blit (replicate PAGE_SIZE 0) 0 ?raw = wal_pages w d n"
    using fill_page [of ?raw PAGE_SIZE] page_img_pread [of "db_content d" n] None by (simp add: wal_pages_def)
  ultimately show thesis by (rule that)
next
  case (Some i)
  then have "wal_pages w d n = frame_data w d i" by (simp add: wal_pages_def)
  moreover from this have "length (frame_data w d i) = PAGE_SIZE" using wal_pages_length [OF assms(1), of n] by simp
  moreover have "wal_read_page n (w, d) = (Inr (frame_data w d i), (w, d))"
    using Some by (simp add: wal_read_page_def bindS_def)
  ultimately show thesis using fill_page [of "frame_data w d i" PAGE_SIZE] by (intro that) simp_all
qed

lemma mmap_page_base:
  assumes "pager_ok d None s" and "mmap_page n s = Some data" and "n \<noteq> 0"
  shows "data = base_page d None n"
proof -
  note b = pager_ok_basics [OF assms(1)]
  obtain len where len: "p_mmap s = Some len" "(n - 1) * PAGE_SIZE + PAGE_SIZE \<le> len"
    "data = pread (db_content d) PAGE_SIZE ((n - 1) * PAGE_SIZE)"
    using assms(2,3) b(1,5) by (auto simp: mmap_page_def Let_def split: option.splits if_splits)
  then have "length data = PAGE_SIZE" using b(7) [OF len(1)] by simp
  then show ?thesis using len(3) page_img_pread [of "db_content d" n] by (simp add: base_page_def)
qed

lemma same_refl: "pager_ok d wo s \<Longrightarrow> same d wo s s"
  by (simp add: same_def)

lemma pager_read_run:
  assumes ok: "pager_ok d wo s" and n: "n \<noteq> 0"
  obtains s' where "pager_read n s = (Inr (pager_page s n), s')" "same d wo s s'"
proof -
  note b = pager_ok_basics [OF ok]
  have open': "check_open s = (Inr (), s)" using b(4) by (simp add: check_open_def)
  have touched: "same d wo s (touch n s)" using touch_ok [OF ok] by (simp add: same_def)
  show thesis
  proof (cases "n \<in> p_dirty s")
    case True
    then obtain data where "map_of (p_cache s) n = Some data" using b(6) by (auto simp: cache_ok_def)
    then show thesis
      using True n touched open' by (intro that [of "touch n s"]) (simp_all add: pager_read_def bindS_def pager_page_def)
  next
    case False
    note page = clean_page_base [OF ok False n]
    show thesis
    proof (cases wo)
      case (Some w)
      obtain ts where "wal_inv w d ts" using b(1,9) Some by (auto simp: wal_mode_ok_def)
      then obtain raw where raw: "wal_read_page n (w, d) = (Inr raw, (w, d))"
        "blit (replicate PAGE_SIZE 0) 0 raw = base_page d wo n"
        using n by (elim wal_read_run) (auto simp: base_page_def Some)
      from cache_fresh_run [OF ok False n raw(2)] obtain s' where
        s': "cache_fresh n raw s = (Inr (base_page d wo n), s')" "same d wo s s'" by blast
      have "with_wal (wal_read_page n) s = (Inr raw, s\<lparr>p_wal := Some w, p_disk := d\<rparr>)"
        using raw(1) b(1,2) Some by (simp add: with_wal_def)
      also have "s\<lparr>p_wal := Some w, p_disk := d\<rparr> = s" using b(1,2) Some by simp
      finally show thesis
        using False s' open' b(2,3) Some page by (intro that [of s']) (simp_all add: pager_read_def bindS_def)
    next
      case None
      show thesis
      proof (cases "map_of (p_cache s) n")
        case cached: (Some data)
        then show thesis
          using False n None touched open' b(2,3)
          by (intro that [of "touch n s"]) (simp_all add: pager_read_def bindS_def pager_page_def)
      next
        case uncached: None
        show thesis
        proof (cases "mmap_page n s")
          case (Some data)
          then show thesis
            using uncached False None open' b(2,3) page mmap_page_base [OF ok [unfolded None] Some n] same_refl [OF ok]
            by (intro that [of s]) (simp_all add: pager_read_def bindS_def)
        next
          case unmapped: None
          from load_run [OF ok [unfolded None] False n] obtain s' where
            "load_page_from_disk n s = (Inr (base_page d None n), s')" "same d None s s'" by blast
          then show thesis
            using unmapped uncached False None open' b(2,3) page
            by (intro that [of s']) (simp_all add: pager_read_def bindS_def)
        qed
      qed
    qed
  qed
qed

lemma pager_read_hdr_run:
  assumes "pager_ok d wo s"
  obtains s' where "pager_read_hdr f s = (unpack_from (hdr_width f) (pager_page s 1) (hdr_offset f), s')" "same d wo s s'"
proof -
  obtain s' where "pager_read 1 s = (Inr (pager_page s 1), s')" "same d wo s s'"
    by (rule pager_read_run [OF assms one_neq_zero])
  then show thesis by (intro that) (simp_all add: pager_read_hdr_def bindS_def)
qed

section \<open>Writing\<close>

text \<open>A page gets new content in the cache and becomes dirty.\<close>

definition put_dirty :: "nat \<Rightarrow> bytes \<Rightarrow> pager \<Rightarrow> pager" where
  "put_dirty n data s = (cache_put n data s)\<lparr>p_dirty := insert n (p_dirty s)\<rparr>"

lemma put_dirty_fields [simp]:
  "p_dirty (put_dirty n data s) = insert n (p_dirty s)" "p_disk (put_dirty n data s) = p_disk s"
  "p_wal (put_dirty n data s) = p_wal s" "p_journal (put_dirty n data s) = p_journal s"
  "p_pinned (put_dirty n data s) = p_pinned s" "p_wal_mode (put_dirty n data s) = p_wal_mode s"
  "p_closed (put_dirty n data s) = p_closed s" "p_page_size (put_dirty n data s) = p_page_size s"
  "p_mmap (put_dirty n data s) = p_mmap s"
  "map_of (p_cache (put_dirty n data s)) = (map_of (p_cache s))(n \<mapsto> data)"
  by (simp_all add: put_dirty_def)

lemma put_dirty_page:
  "n \<noteq> 0 \<Longrightarrow> pager_page (put_dirty n data s) = (pager_page s)(n := data)"
  by (auto simp: pager_page_def fun_eq_iff split: option.split)

lemma put_dirty_view: "n \<noteq> 0 \<Longrightarrow> pager_view (put_dirty n data s) = set_page n data (pager_view s)"
  by (simp add: pager_view_def put_dirty_page set_page_def)

lemma put_dirty_ok:
  assumes ok: "pager_ok d wo s" and n: "n \<noteq> 0" "length data = PAGE_SIZE"
    and size': "store_hdr (pager_view s) HDbSize \<le> store_hdr (set_page n data (pager_view s)) HDbSize"
    and saved: "\<And>j. p_journal s = Some j \<Longrightarrow> n \<in> j_journaled j \<or> data = page_img (db_content d) n"
  shows "pager_ok d wo (put_dirty n data s)"
proof -
  note b = pager_ok_basics [OF ok] and v = put_dirty_view [OF n(1), of data s]
  have "cache_ok (put_dirty n data s)"
    using b(6) n by (auto simp: cache_ok_def)
  moreover have "journal_mode_ok (put_dirty n data s)" if "wo = None"
    using b(1) b(8) [OF that] n size' saved by (auto simp: journal_mode_ok_def Let_def v put_dirty_page)
  moreover have "wal_mode_ok (put_dirty n data s) w" if "wo = Some w" for w
    using b(9) [OF that] n size' by (auto simp: wal_mode_ok_def v put_dirty_page)
  ultimately show ?thesis using ok by (auto simp: pager_ok_def split: option.splits)
qed

text \<open>A before-image enters the journal.\<close>

definition with_image :: "nat \<Rightarrow> bytes \<Rightarrow> pager \<Rightarrow> pager" where
  "with_image n data s = s\<lparr>p_journal := map_option (record_before_image n data) (p_journal s)\<rparr>"

lemma with_image_fields [simp]:
  "p_dirty (with_image n data s) = p_dirty s" "p_disk (with_image n data s) = p_disk s"
  "p_wal (with_image n data s) = p_wal s" "p_cache (with_image n data s) = p_cache s"
  "p_pinned (with_image n data s) = p_pinned s" "p_wal_mode (with_image n data s) = p_wal_mode s"
  "p_closed (with_image n data s) = p_closed s" "p_page_size (with_image n data s) = p_page_size s"
  "p_mmap (with_image n data s) = p_mmap s"
  "p_journal (with_image n data s) = map_option (record_before_image n data) (p_journal s)"
  by (simp_all add: with_image_def)

lemma with_image_view [simp]: "pager_page (with_image n data s) = pager_page s" "pager_view (with_image n data s) = pager_view s"
proof -
  show "pager_page (with_image n data s) = pager_page s" by (auto simp: pager_page_def fun_eq_iff split: option.split)
  then show "pager_view (with_image n data s) = pager_view s" by (simp add: pager_view_def)
qed

lemma pager_record_run: "pager_record n data s = (Inr (), with_image n data s)"
  by (simp add: pager_record_def with_image_def)

lemma journaled_recorded: "j_journaled (record_before_image n data j) = insert n (j_journaled j)"
  by (auto simp: record_before_image_def)

lemma unchanged_page:
  \<comment> \<open>a page without a before-image still has its committed content\<close>
  assumes "pager_ok d None s" and "p_journal s = Some j" and "n \<notin> j_journaled j" and "n \<noteq> 0"
  shows "pager_page s n = page_img (db_content d) n"
proof (cases "n \<in> p_dirty s")
  case True
  then show ?thesis using pager_ok_basics(1,8) [OF assms(1)] assms(2,3) by (auto simp: journal_mode_ok_def Let_def)
next
  case False
  then show ?thesis using clean_page_base [OF assms(1) False assms(4)] by (simp add: base_page_def)
qed

lemma with_image_ok:
  assumes ok: "pager_ok d wo s" and n: "1 \<le> n" "n < 2 ^ 32" and data: "data = pager_page s n"
  shows "pager_ok d wo (with_image n data s)"
proof -
  note b = pager_ok_basics [OF ok]
  have "cache_ok (with_image n data s)" using b(6) by (simp add: cache_ok_def)
  moreover have "journal_mode_ok (with_image n data s)" if "wo = None"
  proof -
    have img: "images_ok d (record_before_image n data j)" if j: "p_journal s = Some j" "images_ok d j" for j
      using j(2) n unchanged_page [OF ok [unfolded \<open>wo = None\<close>] j(1), of n] data
      by (auto simp: images_ok_def record_before_image_def)
    show ?thesis
      using b(1) b(8) [OF that] img by (auto simp: journal_mode_ok_def Let_def journaled_recorded)
  qed
  moreover have "wal_mode_ok (with_image n data s) w" if "wo = Some w" for w
    using b(9) [OF that] by (simp add: wal_mode_ok_def)
  ultimately show ?thesis using ok by (auto simp: pager_ok_def split: option.splits)
qed

lemma before_image_run:
  assumes ok: "pager_ok d None s" and n: "n \<noteq> 0"
  shows "before_image n s = (Inr (pager_page s n), s)"
proof (cases "map_of (p_cache s) n")
  case None
  note b = pager_ok_basics [OF ok]
  then show ?thesis
    using None n page_img_pread [of "db_content d" n]
    by (simp add: before_image_def bindS_def page_offset_def pager_page_def base_page_def Let_def)
next
  case (Some data)
  then show ?thesis using n pager_ok_basics(2) [OF ok] by (simp add: before_image_def bindS_def pager_page_def)
qed

section \<open>The header\<close>

lemma writable_run:
  assumes ok: "pager_ok d wo s"
  obtains s' where "writable_cache_page 1 s = (Inr (pager_page s 1), s')" "same d wo s s'"
    "map_of (p_cache s') 1 = Some (pager_page s 1)"
proof (cases "map_of (p_cache s) 1")
  case (Some data)
  have "data = pager_page s 1"
    using Some pager_ok_basics(2,9) [OF ok] by (cases wo) (auto simp: pager_page_def wal_mode_ok_def)
  then show thesis
    using Some same_refl [OF ok] by (intro that [of s]) (simp_all add: writable_cache_page_def bindS_def)
next
  case None
  note b = pager_ok_basics [OF ok]
  have wo: "wo = None" using b(9) None by (cases wo) (auto simp: wal_mode_ok_def)
  have one: "1 \<notin> p_dirty s" "1 \<in> p_pinned s" using b(6) None by (auto simp: cache_ok_def)
  note ok' = ok [unfolded wo]
  obtain s' where s': "load_page_from_disk 1 s = (Inr (base_page d None 1), s')" "same d None s s'"
    "1 \<in> p_pinned s \<longrightarrow> map_of (p_cache s') 1 = Some (base_page d None 1)"
    by (rule load_run [OF ok' one(1) one_neq_zero])
  show thesis
    using s' one(2) clean_page_base [OF ok' one(1) one_neq_zero] None wo
    by (intro that [of s']) (simp_all add: writable_cache_page_def bindS_def)
qed

lemma update_hdr_run:
  assumes ok: "pager_ok d wo s" and pack: "pack_into (hdr_width f) (pager_page s 1) (hdr_offset f) (int v) = Inr page"
    and size': "store_hdr (pager_view s) HDbSize \<le> store_hdr (set_page 1 page (pager_view s)) HDbSize"
  obtains s' where "pager_update_hdr f v s = (Inr (), s')" "pager_ok d wo s'"
    "pager_view s' = set_page 1 page (pager_view s)" "p_dirty s' = insert 1 (p_dirty s)"
proof -
  obtain s1 where s1: "writable_cache_page 1 s = (Inr (pager_page s 1), s1)" "same d wo s s1"
    "map_of (p_cache s1) 1 = Some (pager_page s 1)" by (rule writable_run [OF ok])
  have ok1: "pager_ok d wo s1" and v1: "pager_view s1 = pager_view s" and d1: "p_dirty s1 = p_dirty s"
    using s1(2) by (simp_all add: same_def)
  from v1 have p1: "pager_page s1 = pager_page s" by (metis pager_view_simps(1))
  let ?s2 = "with_image 1 (pager_page s 1) s1"
  have ok2: "pager_ok d wo ?s2" using with_image_ok [OF ok1, of 1] p1 by simp
  have len: "length page = PAGE_SIZE" using pack_into_length [OF pack] pager_page_length [OF ok, of 1] by simp
  have run: "pager_update_hdr f v s = (Inr (), put_dirty 1 page ?s2)"
    using s1(1,3) pack by (simp add: pager_update_hdr_def bindS_def pager_record_run mutate_cached_def put_dirty_def)
  have "pager_ok d wo (put_dirty 1 page ?s2)"
    by (rule put_dirty_ok [OF ok2 one_neq_zero len]) (use size' v1 in \<open>auto simp: journaled_recorded\<close>)
  moreover have "p_dirty (put_dirty 1 page ?s2) = insert 1 (p_dirty s)" by (simp only: put_dirty_fields with_image_fields d1)
  ultimately show thesis using run put_dirty_view [OF one_neq_zero, of page ?s2] v1
    by (intro that [of "put_dirty 1 page ?s2"]) simp_all
qed

lemma pack_into_bound: "pack_into w buf off (int v) = Inr page \<Longrightarrow> off + w \<le> length buf \<Longrightarrow>
    v < 256 ^ w \<and> page = blit buf off (be_bytes w v)"
  by (auto simp: pack_into_def int_less_256_power split: if_splits)

lemma hdr_put:
  assumes ok: "hdr_page_ok st" and pack: "pack_into (hdr_width f) (st_pages st 1) (hdr_offset f) (int v) = Inr page"
  shows "v < 256 ^ hdr_width f" and "set_page 1 page st = set_hdr f v st"
    and "st\<lparr>st_pages := (st_pages st)(1 := page)\<rparr> = set_hdr f v st"
  using pack_into_bound [OF pack] ok hdr_in_page [of f]
  by (auto simp: set_page_def set_hdr_def hdr_page_ok_def PAGE_SIZE_def)

lemma pager_update_hdr_refines:
  assumes "f = HFirstTrunk \<or> f = HFreelistCount" and ok: "pager_ok d wo s"
    and run: "store_put_hdr f v (pager_view s) = (Inr x, t)"
  obtains s' where "pager_update_hdr f v s = (Inr x, s')" "pager_ok d wo s'" "pager_view s' = t"
    "p_dirty s' = insert 1 (p_dirty s)" "t = set_hdr f v (pager_view s)" "v < 256 ^ hdr_width f"
proof -
  from run obtain page where page: "pack_into (hdr_width f) (pager_page s 1) (hdr_offset f) (int v) = Inr page"
    "t = (pager_view s)\<lparr>st_pages := (pager_page s)(1 := page)\<rparr>"
    by (auto simp: store_put_hdr_def split: sum.splits)
  note h = hdr_put [OF view_hdr_ok [OF ok], of f v page, simplified, OF page(1)[unfolded One_nat_def]]
  have t: "t = set_page 1 page (pager_view s)" using page(2) by (simp add: set_page_def)
  have size': "store_hdr t HDbSize = store_hdr (pager_view s) HDbSize"
    using h view_hdr_ok [OF ok] assms(1) by (auto simp: t)
  obtain s' where "pager_update_hdr f v s = (Inr (), s')" "pager_ok d wo s'"
    "pager_view s' = set_page 1 page (pager_view s)" "p_dirty s' = insert 1 (p_dirty s)"
    by (rule update_hdr_run [OF ok page(1)]) (use size' t in auto)
  then show thesis using t h run by (intro that) (auto simp: store_put_hdr_def split: sum.splits)
qed

section \<open>The interface\<close>

definition format_fields :: "hdr_field list" where
  "format_fields = [HPageSize, HWriteVersion, HReadVersion]"

definition pager_at :: "disk \<Rightarrow> wal option \<Rightarrow> pager \<Rightarrow> bool" where
  \<comment> \<open>the invariant between calls: the dirty pages are pages of the file, the format of the file is as
     committed\<close>
  "pager_at d wo s \<longleftrightarrow> pager_ok d wo s \<and> (\<forall>n \<in> p_dirty s. n \<le> store_hdr (pager_view s) HDbSize) \<and>
     (\<forall>f \<in> set format_fields. store_hdr (pager_view s) f = store_hdr (base_store d wo False) f)"

lemma format_set_hdr:
  assumes "hdr_page_ok st" and "v < 256 ^ hdr_width g" and "g \<notin> set format_fields" and "f \<in> set format_fields"
  shows "store_hdr (set_hdr g v st) f = store_hdr st f"
  using assms by (cases "f = g") auto

lemma pager_at_ok: "pager_at d wo s \<Longrightarrow> pager_ok d wo s"
  by (simp add: pager_at_def)

lemma same_at: "pager_at d wo s \<Longrightarrow> same d wo s s' \<Longrightarrow> pager_at d wo s'"
  by (simp add: pager_at_def same_def)

lemma size_positive: "pager_ok d wo s \<Longrightarrow> 1 \<le> store_hdr (pager_view s) HDbSize"
  using pager_ok_basics(8,9) [of d wo s] by (cases wo) (auto simp: journal_mode_ok_def wal_mode_ok_def Let_def)

lemma beyond_zero:
  assumes "pager_ok d None s" and "store_hdr (pager_view s) HDbSize < n"
  shows "page_img (db_content d) n = replicate PAGE_SIZE 0"
  using assms pager_ok_basics(1,8) [OF assms(1)] by (auto simp: journal_mode_ok_def Let_def)

lemma extend_run:
  assumes at: "pager_at d wo s" and run: "store_extend (pager_view s) = (Inr n, t)"
  obtains s' where "pager_extend s = (Inr n, s')" "pager_at d wo s'" "pager_view s' = t"
proof -
  have ok: "pager_ok d wo s" using at by (rule pager_at_ok)
  note b = pager_ok_basics [OF ok] and vok = view_hdr_ok [OF ok]
  define cur where "cur = store_hdr (pager_view s) HDbSize"
  have cur: "1 \<le> cur" using size_positive [OF ok] by (simp add: cur_def)
  let ?z = "replicate PAGE_SIZE 0 :: bytes"
  have hdr: "store_read_hdr HDbSize (pager_view s) = (Inr cur, pager_view s)"
    using store_read_hdr_run [OF vok] by (simp add: cur_def)
  let ?v2 = "set_page (cur + 1) ?z (pager_view s)"
  have "store_extend (pager_view s) = bindS (store_put_hdr HDbSize (cur + 1)) (\<lambda>_. retS (cur + 1)) ?v2"
    unfolding store_extend_def using hdr by (simp add: bindS_def set_page_def)
  then have put: "store_put_hdr HDbSize (cur + 1) ?v2 = (Inr (), t)" and n: "n = cur + 1"
    using run by (auto simp: bindS_def split: prod.splits sum.splits)
  then obtain page where page: "pack_into (hdr_width HDbSize) (st_pages ?v2 1) (hdr_offset HDbSize) (int n) = Inr page"
    "t = set_page 1 page ?v2"
    by (auto simp: store_put_hdr_def set_page_def split: sum.splits)
  have v2ok: "hdr_page_ok ?v2" using vok cur by simp
  note h = hdr_put [OF v2ok page(1)]
  have size': "store_hdr t HDbSize = n" "store_hdr ?v2 HDbSize = cur"
    using h v2ok cur by (simp_all add: page(2) cur_def)
  obtain s1 where s1: "pager_read_hdr HDbSize s = (unpack_from (hdr_width HDbSize) (pager_page s 1) (hdr_offset HDbSize), s1)"
    "same d wo s s1" by (rule pager_read_hdr_run [OF ok])
  have ok1: "pager_ok d wo s1" and v1: "pager_view s1 = pager_view s" and d1: "p_dirty s1 = p_dirty s"
    using s1(2) by (simp_all add: same_def)
  have rd: "pager_read_hdr HDbSize s = (Inr cur, s1)" using s1(1) hdr by (simp add: store_read_hdr_def)
  let ?s2 = "put_dirty n ?z s1"
  have v2: "pager_view ?s2 = ?v2" using put_dirty_view [of n ?z s1] v1 n by simp
  have z: "?z = page_img (db_content d) n" if "p_journal s1 = Some j" for j
  proof -
    have "wo = None" using pager_ok_basics(9) [OF ok1] that by (cases wo) (auto simp: wal_mode_ok_def)
    then show ?thesis using beyond_zero [of d s n] ok n by (simp add: cur_def)
  qed
  have ok2: "pager_ok d wo ?s2"
    by (rule put_dirty_ok [OF ok1]) (use v1 z n size'(2) in \<open>simp_all add: cur_def\<close>)
  have pk: "pack_into (hdr_width HDbSize) (pager_page ?s2 1) (hdr_offset HDbSize) (int n) = Inr page"
    using page(1) v2 by (metis pager_view_simps(1))
  obtain s' where s': "pager_update_hdr HDbSize n ?s2 = (Inr (), s')" "pager_ok d wo s'"
    "pager_view s' = set_page 1 page (pager_view ?s2)" "p_dirty s' = insert 1 (p_dirty ?s2)"
    by (rule update_hdr_run [OF ok2 pk]) (use size' page(2) v2 n in auto)
  have v': "pager_view s' = t" using s'(3) v2 page(2) by simp
  have "pager_extend s = (Inr n, s')"
    using rd s'(1) n b(4) pager_ok_basics(5) [OF ok1]
    by (simp add: pager_extend_def check_open_def bindS_def Let_def put_dirty_def)
  moreover have "store_hdr t f = store_hdr (pager_view s) f" if "f \<in> set format_fields" for f
    using format_set_hdr [OF v2ok h(1) _ that] h(2) page(2) cur by (simp add: format_fields_def)
  then have "pager_at d wo s'"
    using s'(2,4) at size'(1) d1 n v' by (auto simp: pager_at_def cur_def)
  ultimately show thesis using v' by (rule that)
qed

lemma write_run:
  assumes at: "pager_at d wo s" and run: "store_write n data (pager_view s) = (Inr x, t)"
  obtains s' where "pager_write n data s = (Inr x, s')" "pager_at d wo s'" "pager_view s' = t"
proof -
  have ok: "pager_ok d wo s" using at by (rule pager_at_ok)
  have n: "1 < n" "n \<le> store_hdr (pager_view s) HDbSize" "length data = PAGE_SIZE"
    and t: "t = set_page n data (pager_view s)"
    using run by (simp_all add: store_write_def set_page_def split: if_splits)
  note b = pager_ok_basics [OF ok]
  have n32: "n < 2 ^ 32" using n(2) store_hdr_bound [OF view_hdr_ok [OF ok], of HDbSize] by simp
  define s1 where "s1 = (case p_journal s of None \<Rightarrow> s
    | Some j \<Rightarrow> if n \<in> j_journaled j then s else with_image n (pager_page s n) s)"
  have jr: "wo = None" if "p_journal s = Some j" for j
    using that b(9) by (cases wo) (auto simp: wal_mode_ok_def)
  have s1: "pager_ok d wo s1" "pager_view s1 = pager_view s"
    using ok with_image_ok [OF ok _ n32 refl] n(1) by (auto simp: s1_def split: option.split)
  have "pager_write n data s = (Inr (), put_dirty n data s1)"
  proof (cases "p_journal s")
    case None
    then show ?thesis
      using b(4,5) n by (simp add: pager_write_def check_open_def bindS_def s1_def put_dirty_def)
  next
    case (Some j)
    then have "before_image n s = (Inr (pager_page s n), s)" using ok jr n(1) by (intro before_image_run) auto
    then show ?thesis
      using b(4,5) n Some
      by (simp add: pager_write_def check_open_def bindS_def s1_def put_dirty_def pager_record_run)
  qed
  moreover have "n \<in> j_journaled j" if "p_journal s1 = Some j" for j
    using that by (auto simp: s1_def journaled_recorded split: option.splits if_splits)
  then have "pager_ok d wo (put_dirty n data s1)"
    using n s1 by (intro put_dirty_ok [OF s1(1)]) (auto simp: s1(2))
  moreover have "p_dirty s1 = p_dirty s" by (simp add: s1_def split: option.split)
  then have "\<forall>m \<in> p_dirty (put_dirty n data s1). m \<le> store_hdr (pager_view (put_dirty n data s1)) HDbSize"
    "\<forall>f \<in> set format_fields. store_hdr (pager_view (put_dirty n data s1)) f = store_hdr (base_store d wo False) f"
    using at n s1(2) put_dirty_view [of n data s1] by (simp_all add: pager_at_def)
  ultimately show thesis
    using put_dirty_view [of n data s1] n(1) s1(2) t
    by (intro that [of "put_dirty n data s1"]) (simp_all add: pager_at_def)
qed

lemma pg_ops_simps [simp]:
  "op_page_size pg_ops s = p_page_size s" "op_read_page pg_ops = pager_read"
  "op_write_page pg_ops = pager_write" "op_extend_file pg_ops = pager_extend"
  "op_read_hdr pg_ops = pager_read_hdr" "op_update_hdr pg_ops = pager_update_hdr"
  "op_record_before pg_ops = pager_record" "op_has_journal pg_ops s \<longleftrightarrow> p_journal s \<noteq> None"
  "op_wal_mode pg_ops s = p_wal_mode s" "op_root_page_no pg_ops = 2"
  by (simp_all add: pg_ops_def)

lemma with_image_at: "pager_at d wo s \<Longrightarrow> 1 \<le> n \<Longrightarrow> n < 2 ^ 32 \<Longrightarrow> data = pager_page s n \<Longrightarrow>
    pager_at d wo (with_image n data s)"
  using with_image_ok by (simp add: pager_at_def)

interpretation pg: page_store pg_ops pager_view "pager_at d wo" for d wo
proof
  fix s n data f v
  show "refines (pager_at d wo) pager_view (op_read_page pg_ops n) (op_read_page store_ops n)"
    unfolding pg_ops_simps store_ops_simps
  proof (rule refinesI)
    fix s x t assume at: "pager_at d wo s" and run: "store_read n (pager_view s) = (Inr x, t)"
    from run have n: "n \<noteq> 0" "x = pager_page s n" "t = pager_view s"
      by (simp_all add: store_read_def split: if_splits)
    obtain s' where s': "pager_read n s = (Inr (pager_page s n), s')" "same d wo s s'"
      by (rule pager_read_run [OF pager_at_ok [OF at] n(1)])
    show "\<exists>s'. pager_read n s = (Inr x, s') \<and> pager_at d wo s' \<and> pager_view s' = t"
      using s' same_at [OF at s'(2)] n by (simp add: same_def)
  qed
  show "refines (pager_at d wo) pager_view (op_read_hdr pg_ops f) (op_read_hdr store_ops f)"
    unfolding pg_ops_simps store_ops_simps
  proof (rule refinesI)
    fix s x t assume at: "pager_at d wo s" and run: "store_read_hdr f (pager_view s) = (Inr x, t)"
    obtain s' where "pager_read_hdr f s = (unpack_from (hdr_width f) (pager_page s 1) (hdr_offset f), s')" "same d wo s s'"
      by (rule pager_read_hdr_run [OF pager_at_ok [OF at]])
    then show "\<exists>s'. pager_read_hdr f s = (Inr x, s') \<and> pager_at d wo s' \<and> pager_view s' = t"
      using run at by (auto simp: store_read_hdr_def same_def pager_at_def)
  qed
  show "refines (pager_at d wo) pager_view (op_extend_file pg_ops) (op_extend_file store_ops)"
    unfolding pg_ops_simps store_ops_simps by (rule refinesI) (metis extend_run)
  show "refines (pager_at d wo) pager_view (op_record_before pg_ops n data) (op_record_before store_ops n data)"
    unfolding pg_ops_simps store_ops_simps
  proof (rule refinesI)
    fix s x t assume at: "pager_at d wo s" and run: "store_record n data (pager_view s) = (Inr x, t)"
    then have "1 \<le> n" "n < 2 ^ 32" "data = pager_page s n" "t = pager_view s"
      by (simp_all add: store_record_def split: if_splits)
    then show "\<exists>s'. pager_record n data s = (Inr x, s') \<and> pager_at d wo s' \<and> pager_view s' = t"
      using with_image_at [OF at] by (simp add: pager_record_run)
  qed
  show "refines (pager_at d wo) pager_view (op_update_hdr pg_ops f v) (op_update_hdr store_ops f v)"
    unfolding pg_ops_simps store_ops_simps
  proof (rule refinesI)
    fix s x t assume at: "pager_at d wo s" and run: "store_update_hdr f v (pager_view s) = (Inr x, t)"
    then have f: "f = HFirstTrunk \<or> f = HFreelistCount" "store_put_hdr f v (pager_view s) = (Inr x, t)"
      by (auto simp: store_update_hdr_def split: if_splits)
    show "\<exists>s'. pager_update_hdr f v s = (Inr x, s') \<and> pager_at d wo s' \<and> pager_view s' = t"
      by (rule pager_update_hdr_refines [OF f(1) pager_at_ok [OF at] f(2)])
        (use at f(1) size_positive [OF pager_at_ok [OF at]] view_hdr_ok [OF pager_at_ok [OF at]] in
          \<open>auto simp: pager_at_def format_fields_def\<close>)
  qed
  show "refines (pager_at d wo) pager_view (op_write_page pg_ops n data) (op_write_page store_ops n data)"
    unfolding pg_ops_simps store_ops_simps by (rule refinesI) (metis write_run)
qed (auto simp: pager_at_def pager_ok_def)

end
