(* ===== verification/JournalFile.thy ===== *)
theory JournalFile
  imports PagerView WalCommit
begin

text \<open>
  The rollback journal as a file: what the commit writes into it, what recovery takes from it, and
  when replaying it changes nothing. The recovery of a database in journal mode is run on any disk.
\<close>

section \<open>The body of a journal\<close>

definition journal_bytes :: "(nat \<times> bytes) list \<Rightarrow> bytes" where
  "journal_bytes recs = concat (map (\<lambda>(p, data). be_bytes 4 p @ data) recs)"

definition images :: "(nat \<times> bytes) list \<Rightarrow> bool" where
  \<comment> \<open>page numbers that fit their field, whole pages\<close>
  "images recs \<longleftrightarrow> (\<forall>(p, data) \<in> set recs. 1 \<le> p \<and> p < 2 ^ 32 \<and> length data = PAGE_SIZE)"

lemma images_simps [simp]:
  "images []" "images ((p, data) # recs) \<longleftrightarrow> 1 \<le> p \<and> p < 2 ^ 32 \<and> length data = PAGE_SIZE \<and> images recs"
  by (auto simp: images_def)

lemma journal_bytes_simps [simp]:
  "journal_bytes [] = []" "journal_bytes ((p, data) # recs) = be_bytes 4 p @ data @ journal_bytes recs"
  by (simp_all add: journal_bytes_def)

lemma length_journal_bytes: "images recs \<Longrightarrow> length (journal_bytes recs) = length recs * (4 + PAGE_SIZE)"
  by (induction recs) auto

lemma blit_append: "length ys \<le> length zs \<Longrightarrow> blit (xs @ zs) (length xs) ys = (xs @ ys) @ drop (length ys) zs"
  by (simp add: blit_def)

lemma fill_records_run:
  "images recs \<Longrightarrow> fill_records (pre @ replicate (length recs * (4 + PAGE_SIZE)) 0) (length pre) recs
     = Inr (pre @ journal_bytes recs)"
proof (induction recs arbitrary: pre)
  case (Cons rec recs)
  obtain p data where r: "rec = (p, data)" by (cases rec)
  have i: "p < 2 ^ 32" "length data = PAGE_SIZE" "images recs" using Cons.prems r by auto
  let ?z = "\<lambda>n. replicate n (0 :: byte)" and ?n = "length recs * (4 + PAGE_SIZE)"
  have "pack_into 4 (pre @ ?z (4 + PAGE_SIZE + ?n)) (length pre) (int p) =
      Inr (blit (pre @ ?z (4 + PAGE_SIZE + ?n)) (length pre) (be_bytes 4 p))"
    using i by (intro pack_into_ok) auto
  also have "blit (pre @ ?z (4 + PAGE_SIZE + ?n)) (length pre) (be_bytes 4 p) = (pre @ be_bytes 4 p) @ ?z (PAGE_SIZE + ?n)"
    by (subst blit_append) simp_all
  finally have pk: "pack_into 4 (pre @ ?z (4 + PAGE_SIZE + ?n)) (length pre) (int p) =
      Inr ((pre @ be_bytes 4 p) @ ?z (PAGE_SIZE + ?n))" .
  have "blit ((pre @ be_bytes 4 p) @ ?z (PAGE_SIZE + ?n)) (length pre + 4) data =
      (pre @ be_bytes 4 p @ data) @ ?z ?n"
    using blit_append [of data "?z (PAGE_SIZE + ?n)" "pre @ be_bytes 4 p"] i by simp
  then show ?case
    using pk Cons.IH [OF i(3), of "pre @ be_bytes 4 p @ data"] i by (simp add: r add.assoc)
qed simp

lemma journal_body_run:
  assumes "images recs" and "recs \<noteq> []"
  shows "journal_body recs = Inr (journal_bytes recs)"
proof -
  have "length (snd (hd recs)) = PAGE_SIZE" using assms by (cases recs) auto
  then show ?thesis using fill_records_run [OF assms(1), of "[]"] by (simp add: journal_body_def)
qed

lemma journal_records_bytes:
  "images recs \<Longrightarrow> journal_records PAGE_SIZE (pre @ journal_bytes recs) (length pre) n = take n recs"
proof (induction recs arbitrary: pre n)
  case Nil
  then show ?case by (cases n) simp_all
next
  case (Cons rec recs)
  obtain p data where r: "rec = (p, data)" by (cases rec)
  have i: "p < 2 ^ 32" "length data = PAGE_SIZE" "images recs" using Cons.prems r by auto
  show ?case
  proof (cases n)
    case (Suc m)
    let ?all = "pre @ be_bytes 4 p @ data @ journal_bytes recs"
    have "pyslice ?all (length pre) (length pre + 4) = be_bytes 4 p" by (intro pyslice_middle) simp_all
    moreover have "pyslice ?all (length pre + 4) (length pre + 4 + PAGE_SIZE) = data"
      using pyslice_middle [of _ "pre @ be_bytes 4 p" _ data] i by simp
    moreover have "journal_records PAGE_SIZE ?all (length pre + 4 + PAGE_SIZE) m = take m recs"
      using Cons.IH [OF i(3), of "pre @ be_bytes 4 p @ data" m] i by (simp add: add.assoc)
    ultimately show ?thesis using i by (simp add: Suc r)
  qed simp
qed

section \<open>What recovery takes from a journal\<close>

definition jrn_recs :: "bytes option \<Rightarrow> (nat \<times> bytes) list" where
  \<comment> \<open>the before-images recovery writes back\<close>
  "jrn_recs side =
     (case side of
        None \<Rightarrow> []
      | Some g \<Rightarrow>
          if length g < JOURNAL_HEADER_SIZE \<or> take 12 g \<noteq> JOURNAL_MAGIC then []
          else journal_records PAGE_SIZE g JOURNAL_HEADER_SIZE (be_nat (pyslice g 12 16)))"

definition journal_file :: "bytes \<Rightarrow> (nat \<times> bytes) list \<Rightarrow> bytes" where
  "journal_file cnt recs = JOURNAL_MAGIC @ cnt @ journal_bytes recs"

lemma journal_file_recs:
  assumes "images recs" and "length cnt = 4"
  shows "jrn_recs (Some (journal_file cnt recs)) = take (be_nat cnt) recs"
proof -
  have "length (JOURNAL_MAGIC @ cnt) = JOURNAL_HEADER_SIZE" "length JOURNAL_MAGIC = 12"
    using assms(2) by (simp_all add: JOURNAL_MAGIC_def JOURNAL_HEADER_SIZE_def)
  then show ?thesis
    using assms journal_records_bytes [OF assms(1), of "JOURNAL_MAGIC @ cnt" "be_nat cnt"]
      pyslice_middle [of 12 JOURNAL_MAGIC 16 cnt]
    by (simp add: jrn_recs_def journal_file_def JOURNAL_HEADER_SIZE_def)
qed

lemma recs_count_zero:
  assumes "be_nat (pyslice g 12 16) = 0"
  shows "jrn_recs (Some g) = []"
  using assms by (simp add: jrn_recs_def)

definition true_copies :: "(nat \<times> bytes) list \<Rightarrow> bytes \<Rightarrow> bool" where
  \<comment> \<open>writing these pages over that file changes nothing\<close>
  "true_copies recs f \<longleftrightarrow> dict_pages recs \<and> (\<forall>(p, data) \<in> set recs. data = page_img f p)"

lemma true_copies_Nil [simp]: "true_copies [] f"
  by (simp add: true_copies_def dict_pages_def)

lemma true_copies_take: "true_copies recs f \<Longrightarrow> true_copies (take n recs) f"
  by (auto simp: true_copies_def dict_pages_def pages_ok_take take_map [symmetric] distinct_take dest: in_set_takeD)

lemma true_copies_overlay: "true_copies recs f \<Longrightarrow> overlay (map_of recs) f = page_img f"
  by (rule ext) (auto simp: true_copies_def overlay_def dest!: map_of_SomeD split: option.split)

definition quiet_jrn :: "sidecar \<Rightarrow> bytes \<Rightarrow> bool" where
  \<comment> \<open>whatever a crash makes of this journal, replaying it changes nothing\<close>
  "quiet_jrn sc f \<longleftrightarrow> (\<forall>sc'. crash_side sc sc' \<longrightarrow> true_copies (jrn_recs (side_image sc')) f)"

section \<open>Recovery in journal mode\<close>

definition jrn_recovered :: "disk \<Rightarrow> nat \<Rightarrow> bytes" where
  \<comment> \<open>the pages after the replay of the journal of this disk\<close>
  "jrn_recovered d = overlay (map_of (jrn_recs (side_image (d_jrn d)))) (db_content d)"

definition replaying :: "(nat \<times> bytes) list \<Rightarrow> disk \<Rightarrow> disk \<Rightarrow> bool" where
  \<comment> \<open>the replay is in the middle of its writes, or has synced them\<close>
  "replaying recs d d' \<longleftrightarrow> d_wal d' = d_wal d \<and> d_jrn d' = d_jrn d \<and>
     ((\<exists>k. d_db d' = add_wrs (map page_write (take k recs)) (d_db d)) \<or>
      d_db d' = sync_file (add_wrs (map page_write recs) (d_db d)))"

definition replayed :: "(nat \<times> bytes) list \<Rightarrow> disk \<Rightarrow> disk \<Rightarrow> bool" where
  "replayed recs d d' \<longleftrightarrow> d_wal d' = d_wal d \<and>
     d_jrn d' = (case sc_cur (d_jrn d) of None \<Rightarrow> d_jrn d | Some f \<Rightarrow> \<lparr>sc_cur = None, sc_stale = Some f # sc_stale (d_jrn d)\<rparr>) \<and>
     (d_db d' = d_db d \<and> recs = [] \<or> d_db d' = sync_file (add_wrs (map page_write recs) (d_db d)))"

lemma upd_side_Jrn: "upd_side Jrn h d = d\<lparr>d_jrn := h (d_jrn d)\<rparr>"
  by (simp add: upd_side_def)

lemma unlink_replayed:
  assumes "d_wal d1 = d_wal d" "d_jrn d1 = d_jrn d"
    and "d_db d1 = d_db d \<and> recs = [] \<or> d_db d1 = sync_file (add_wrs (map page_write recs) (d_db d))"
  obtains r d2 where "side_unlink Jrn d1 = (r, d2)" "r = Inr () \<and> replayed recs d d2 \<or> r = Inl OSError \<and> replaying recs d d2"
    "d_budget d1 = None \<Longrightarrow> r = Inr () \<and> d_budget d2 = None"
proof (cases rule: side_unlink_cases [of Jrn d1])
  case fail
  have "replaying recs d d1"
    using assms by (auto simp: replaying_def intro!: exI [of _ 0])
  with fail show thesis by (intro that [of "Inl OSError" d1]) auto
next
  case (ok b)
  let ?d2 = "upd_side Jrn (\<lambda>sc. case sc_cur sc of None \<Rightarrow> sc
        | Some f \<Rightarrow> \<lparr>sc_cur = None, sc_stale = Some f # sc_stale sc\<rparr>) (d1\<lparr>d_budget := b\<rparr>)"
  have "replayed recs d ?d2" using assms by (auto simp: replayed_def upd_side_Jrn split: option.split)
  with ok show thesis by (intro that [of "Inr ()" ?d2]) (auto simp: upd_side_Jrn)
qed

lemma replay_run:
  assumes c: "recs = jrn_recs (Some g)" "dict_pages recs"
  obtains r d' where "replay_journal PAGE_SIZE g d = (r, d')"
    "r = Inr () \<and> replayed recs d d' \<or> r = Inl OSError \<and> replaying recs d d'"
    "d_budget d = None \<Longrightarrow> r = Inr () \<and> d_budget d' = None"
proof -
  note goal = that
  let ?n = "be_nat (pyslice g 12 16)"
  have skip: thesis if run: "replay_journal PAGE_SIZE g d = side_unlink Jrn d" and none: "recs = []"
  proof -
    obtain r d2 where "side_unlink Jrn d = (r, d2)" "r = Inr () \<and> replayed recs d d2 \<or> r = Inl OSError \<and> replaying recs d d2"
      "d_budget d = None \<Longrightarrow> r = Inr () \<and> d_budget d2 = None"
      by (rule unlink_replayed [of d d recs]) (use none in simp_all)
    then show thesis by (intro goal [of r d2]) (simp_all add: run)
  qed
  show thesis
  proof (cases "length g < JOURNAL_HEADER_SIZE \<or> take 12 g \<noteq> JOURNAL_MAGIC \<or> ?n = 0")
    case True
    then have "replay_journal PAGE_SIZE g = side_unlink Jrn" "recs = []"
      using c(1) by (auto simp: replay_journal_def jrn_recs_def)
    then show thesis by (intro skip) simp_all
  next
    case False
    have recs: "recs = journal_records PAGE_SIZE g JOURNAL_HEADER_SIZE ?n" using False c(1) by (simp add: jrn_recs_def)
    have run: "replay_journal PAGE_SIZE g = bindS (forS (replay_record PAGE_SIZE) recs) (\<lambda>_. bindS db_fsync (\<lambda>_. side_unlink Jrn))"
      using False recs by (simp add: replay_journal_def Let_def)
    have step: "replay_record PAGE_SIZE (p, data) x = db_pwrite data ((p - 1) * PAGE_SIZE) x" if "(p, data) \<in> set recs" for p data x
      using that c(2) by (auto simp: replay_record_def page_offset_def dict_pages_def pages_ok_def)
    obtain k b r where k: "k \<le> length recs"
      "forS (replay_record PAGE_SIZE) recs d = (r, d\<lparr>d_db := add_wrs (map page_write (take k recs)) (d_db d), d_budget := b\<rparr>)"
      "r = Inr () \<and> k = length recs \<or> r = Inl OSError" "d_budget d = None \<Longrightarrow> b = None \<and> r = Inr ()"
      by (rule forS_page_writes [of recs "replay_record PAGE_SIZE" d, OF step], assumption, rule that, assumption, assumption, assumption, simp)
    let ?d1 = "d\<lparr>d_db := add_wrs (map page_write (take k recs)) (d_db d), d_budget := b\<rparr>"
    show thesis
    proof (cases "r = Inr ()")
      case no: False
      then have "replay_journal PAGE_SIZE g d = (Inl OSError, ?d1)" using k(2,3) by (simp add: run bindS_def)
      moreover have "replaying recs d ?d1" by (auto simp: replaying_def)
      ultimately show thesis using k(4) no by (intro that [of "Inl OSError" ?d1]) auto
    next
      case yes: True
      then have kl: "k = length recs" using k(3) by auto
      show thesis
      proof (cases rule: db_fsync_cases [of ?d1])
        case fail
        then have "replay_journal PAGE_SIZE g d = (Inl OSError, ?d1)" using k(2) yes by (simp add: run bindS_def)
        moreover have "replaying recs d ?d1" by (auto simp: replaying_def)
        ultimately show thesis using k(4) fail(2) by (intro that [of "Inl OSError" ?d1]) auto
      next
        case (ok b2)
        let ?d2 = "?d1\<lparr>d_db := sync_file (d_db ?d1), d_budget := b2\<rparr>"
        have "replay_journal PAGE_SIZE g d = side_unlink Jrn ?d2" using k(2) yes ok(1) by (simp add: run bindS_def)
        moreover obtain r' d3 where "side_unlink Jrn ?d2 = (r', d3)"
          "r' = Inr () \<and> replayed recs d d3 \<or> r' = Inl OSError \<and> replaying recs d d3"
          "d_budget ?d2 = None \<Longrightarrow> r' = Inr () \<and> d_budget d3 = None"
          by (rule unlink_replayed [of ?d2 d recs]) (use kl in simp_all)
        ultimately show thesis using k(4) ok(2) by (intro that [of r' d3]) auto
      qed
    qed
  qed
qed

lemma recover_jrn_run:
  assumes mode: "pread (db_content d) 1 (hdr_offset HWriteVersion) \<noteq> [of_nat WAL_WRITE_VERSION]"
    and c: "recs = jrn_recs (side_image (d_jrn d))" "dict_pages recs"
  obtains r d' where "recover_if_needed PAGE_SIZE True d = (r, d')"
    "r = Inr () \<and> replayed recs d d' \<or> r = Inl OSError \<and> replaying recs d d'"
    "d_budget d = None \<Longrightarrow> r = Inr () \<and> d_budget d' = None"
proof (cases "sc_cur (d_jrn d)")
  case None
  then have "recover_if_needed PAGE_SIZE True d = (Inr (), d)" "recs = []"
    using mode c(1) by (simp_all add: recover_if_needed_def bindS_def side_image_def jrn_recs_def)
  then show thesis using None by (intro that [of "Inr ()" d]) (auto simp: replayed_def)
next
  case (Some f)
  then have img: "side_image (d_jrn d) = Some (content f)" by (simp add: side_image_def)
  have run: "recover_if_needed PAGE_SIZE True d = replay_journal PAGE_SIZE (content f) d"
    using mode Some by (simp add: recover_if_needed_def bindS_def)
  show thesis
    by (rule replay_run [of recs "content f" d]) (use c img in \<open>auto simp: run intro: that\<close>)
qed

lemma replayed_pages:
  assumes r: "replayed recs d d'" and c: "recs = jrn_recs (side_image (d_jrn d))" "dict_pages recs" and p: "1 \<le> p"
  shows "page_img (db_content d') p = jrn_recovered d p"
  using r overlay_written [OF c(2) p, of "db_content d"]
  by (auto simp: jrn_recovered_def replayed_def db_content_def overlay_def simp flip: c(1))

lemma copies_crash:
  \<comment> \<open>a crash in the middle of writing pages, or after, is repaired by writing them again\<close>
  assumes pend: "f_pending f0 = []" and c: "dict_pages c" and p: "1 \<le> p" and crash: "crash_file f1 g"
    and f1: "(\<exists>k. f1 = add_wrs (map page_write (take k c)) f0) \<or> f1 = sync_file (add_wrs (map page_write c) f0)"
  shows "overlay (map_of c) g p = overlay (map_of c) (content f0) p"
proof -
  have f0: "content f0 = f_synced f0" using pend by (simp add: content_def)
  consider k where "f1 = add_wrs (map page_write (take k c)) f0" | "f1 = sync_file (add_wrs (map page_write c) f0)"
    using f1 by blast
  then show ?thesis
  proof cases
    case 1
    then have "crash_bytes (map page_write (take k c)) (content f0) g"
      using crash pend by (simp add: crash_file_def f0)
    then show ?thesis
      by (rule overlay_crash [OF _ pages_ok_take _ p])
        (use c in \<open>auto simp: dict_pages_def dom_map_of_conv_image_fst dest: in_set_takeD\<close>)
  next
    case 2
    then have "g = fold apply_wr (map page_write c) (content f0)" using crash by (simp add: crash_synced)
    then show ?thesis using overlay_copied [OF c p] by simp
  qed
qed

lemma jrn_recovered_same:
  assumes d: "settled d" and c: "recs = jrn_recs (side_image (d_jrn d))" "dict_pages recs"
    and run: "replayed recs d d' \<or> replaying recs d d'" and crash: "crash_disk d' d2" and p: "1 \<le> p"
  shows "jrn_recovered d2 p = jrn_recovered d p"
proof -
  obtain g where g: "crash_file (d_db d') g" "db_content d2 = g" "crash_side (d_jrn d') (d_jrn d2)"
    using crash_disk_parts [OF crash] by metis
  have pend: "f_pending (d_db d) = []" and jrn: "sc_stale (d_jrn d) = []" "\<forall>f. sc_cur (d_jrn d) = Some f \<longrightarrow> f_pending f = []"
    using d by (auto simp: settled_def)
  have db: "(\<exists>k. d_db d' = add_wrs (map page_write (take k recs)) (d_db d)) \<or> d_db d' = sync_file (add_wrs (map page_write recs) (d_db d))"
    using run by (auto simp: replayed_def replaying_def intro: exI [of _ 0])
  have again: "overlay (map_of recs) g p = jrn_recovered d p"
    using copies_crash [OF pend c(2) p g(1) db] by (simp add: jrn_recovered_def c(1) db_content_def)
  show ?thesis
    using run
  proof
    assume "replaying recs d d'"
    then have "d_jrn d2 = d_jrn d" using crash_side_settled [OF g(3)] jrn by (simp add: replaying_def)
    then show ?thesis using again g(2) c(1) by (simp add: jrn_recovered_def)
  next
    assume r: "replayed recs d d'"
    have "g = db_content d'"
      using g(1) r pend by (auto simp: replayed_def crash_synced db_content_def)
    then have page: "page_img g p = jrn_recovered d p" using replayed_pages [OF r c p] by simp
    have "side_image (d_jrn d2) = None \<or> side_image (d_jrn d2) = side_image (d_jrn d)"
    proof (cases "sc_cur (d_jrn d)")
      case None
      then have "d_jrn d' = d_jrn d" using r by (simp add: replayed_def)
      then show ?thesis using crash_side_settled [OF g(3)] jrn by simp
    next
      case (Some f)
      then have "d_jrn d' = \<lparr>sc_cur = None, sc_stale = [Some f]\<rparr>" using r jrn by (simp add: replayed_def)
      then show ?thesis
        using crash_side_unlinked [of f "d_jrn d2"] g(3) jrn(2) Some by (simp add: side_image_def)
    qed
    then show ?thesis
      using again page g(2) c(1) by (auto simp: jrn_recovered_def overlay_def jrn_recs_def split: option.splits)
  qed
qed

section \<open>Bytes that no write changes\<close>

lemma crash_value:
  assumes "crash_bytes ws f g" and "only_pwrites ws" and "byte_at f i = v"
    and "\<And>off data. Pwrite off data \<in> set ws \<Longrightarrow> off \<le> i \<Longrightarrow> i < off + length data \<Longrightarrow> data ! (i - off) = v"
  shows "byte_at g i = v"
  using assms
proof (induction rule: crash_bytes.induct)
  case (crash_step w f g ws h)
  then obtain off data where w: "w = Pwrite off data" by (cases w) auto
  have "byte_at g i = v"
    using torn_byte(1) [of off data f g i] crash_step.hyps(1) crash_step.prems(2,3) by (auto simp: w)
  then show ?case using crash_step by (auto simp: w)
qed simp_all

lemma crash_same_page:
  \<comment> \<open>writes that put into a page what it holds cannot tear it\<close>
  assumes crash: "crash_bytes (map page_write items) f g" and ok: "pages_ok items" and q: "1 \<le> q"
    and same: "\<And>data. (q, data) \<in> set items \<Longrightarrow> data = page_img f q"
  shows "page_img g q = page_img f q"
proof (rule page_img_eqI)
  fix i assume i: "(q - 1) * PAGE_SIZE \<le> i" "i < (q - 1) * PAGE_SIZE + PAGE_SIZE"
  show "byte_at g i = byte_at f i"
  proof (rule crash_value [OF crash only_page_writes refl])
    fix off data assume w: "Pwrite off data \<in> set (map page_write items)" "off \<le> i" "i < off + length data"
    then obtain p where p: "(p, data) \<in> set items" "off = (p - 1) * PAGE_SIZE" "1 \<le> p" "length data = PAGE_SIZE"
      using ok by (auto simp: page_write_def pages_ok_def)
    have "p = q"
    proof (rule ccontr)
      assume "p \<noteq> q"
      then show False using page_blocks [OF p(3) q] i w(2,3) p(2,4) by linarith
    qed
    then have "data = page_img f q" using same p(1) by simp
    then show "data ! (i - off) = byte_at f i"
      using page_img_nth [of "i - off" f q] i p(2) \<open>p = q\<close> by simp
  qed
qed

end
