(* ===== verification/JournalCommit.thy ===== *)
theory JournalCommit
  imports JournalFile
begin

text \<open>
  The commit in journal mode as a sequence of system calls, and what a crash leaves after any prefix
  of it: before the journal is armed every replay is harmless, from then on the replay restores the
  old pages, and when the journal is gone the new pages are there.
\<close>

section \<open>Sequences of system calls\<close>

fun trace :: "(disk \<Rightarrow> disk) list \<Rightarrow> disk \<Rightarrow> disk list" where
  \<comment> \<open>the disks between the calls\<close>
  "trace [] d = [d]"
| "trace (h # hs) d = d # trace hs (h d)"

definition after :: "(disk \<Rightarrow> disk) list \<Rightarrow> disk \<Rightarrow> disk" where
  "after hs d = fold (\<lambda>h. h) hs d"

definition budget_free :: "(disk \<Rightarrow> disk) \<Rightarrow> bool" where
  "budget_free h \<longleftrightarrow> (\<forall>d b. h (d\<lparr>d_budget := b\<rparr>) = (h d)\<lparr>d_budget := b\<rparr>)"

lemma after_simps [simp]:
  "after [] d = d" "after (h # hs) d = after hs (h d)" "after (hs @ gs) d = after gs (after hs d)"
  by (simp_all add: after_def)

lemma trace_append: "set (trace (hs @ gs) d) = set (trace hs d) \<union> set (trace gs (after hs d))"
proof (induction hs arbitrary: d)
  case Nil
  then show ?case by (cases gs) auto
next
  case (Cons h hs)
  then show ?case by auto
qed

lemma io_steps_run:
  assumes "\<forall>h \<in> set hs. budget_free h"
  obtains d' b r where "forS io_call hs d = (r, d'\<lparr>d_budget := b\<rparr>)" "d' \<in> set (trace hs d)"
    "r = Inr () \<and> d' = after hs d \<or> r = Inl OSError" "d_budget d = None \<Longrightarrow> b = None \<and> r = Inr ()"
  using assms
proof (induction hs arbitrary: d thesis)
  case Nil
  show ?case by (rule Nil.prems(1) [of "Inr ()" "d_budget d" d]) simp_all
next
  case (Cons h hs)
  have h: "h (x\<lparr>d_budget := c\<rparr>) = (h x)\<lparr>d_budget := c\<rparr>" for x c using Cons.prems(2) by (simp add: budget_free_def)
  show ?case
  proof (cases rule: io_call_cases [of h d])
    case fail
    then show ?thesis
      by (intro Cons.prems(1) [of "Inl OSError" "d_budget d" d]) (simp_all add: bindS_def)
  next
    case (ok b)
    have gen: "\<exists>d' b' r. forS io_call hs ((h d)\<lparr>d_budget := b\<rparr>) = (r, d'\<lparr>d_budget := b'\<rparr>) \<and> d' \<in> set (trace hs (h d)) \<and>
        (r = Inr () \<and> d' = after hs (h d) \<or> r = Inl OSError) \<and> (b = None \<longrightarrow> b' = None \<and> r = Inr ())"
    proof -
      have free: "\<forall>g \<in> set hs. budget_free g" using Cons.prems(2) by simp
      have tr: "trace hs (x\<lparr>d_budget := c\<rparr>) = map (\<lambda>y. y\<lparr>d_budget := c\<rparr>) (trace hs x)
          \<and> after hs (x\<lparr>d_budget := c\<rparr>) = (after hs x)\<lparr>d_budget := c\<rparr>" for x c
        using free by (induction hs arbitrary: x) (simp_all add: budget_free_def)
      obtain d' b' r where k: "forS io_call hs ((h d)\<lparr>d_budget := b\<rparr>) = (r, d'\<lparr>d_budget := b'\<rparr>)"
        "d' \<in> set (trace hs ((h d)\<lparr>d_budget := b\<rparr>))" "r = Inr () \<and> d' = after hs ((h d)\<lparr>d_budget := b\<rparr>) \<or> r = Inl OSError"
        "d_budget ((h d)\<lparr>d_budget := b\<rparr>) = None \<Longrightarrow> b' = None \<and> r = Inr ()"
        by (rule Cons.IH [of "(h d)\<lparr>d_budget := b\<rparr>"]) (use free in auto)
      obtain x where x: "x \<in> set (trace hs (h d))" "d' = x\<lparr>d_budget := b\<rparr>" using k(2) tr by auto
      show ?thesis
      proof (cases "r = Inr ()")
        case True
        have "after hs (h d) \<in> set (trace hs (h d))" for d by (induction hs arbitrary: h d) auto
        then show ?thesis using k True tr by (intro exI [of _ "after hs (h d)"] exI [of _ b'] exI [of _ r]) auto
      next
        case False
        then show ?thesis using k x by (intro exI [of _ x] exI [of _ b'] exI [of _ r]) auto
      qed
    qed
    then obtain d' b' r where "forS io_call hs ((h d)\<lparr>d_budget := b\<rparr>) = (r, d'\<lparr>d_budget := b'\<rparr>)" "d' \<in> set (trace hs (h d))"
      "r = Inr () \<and> d' = after hs (h d) \<or> r = Inl OSError" "b = None \<longrightarrow> b' = None \<and> r = Inr ()" by blast
    then show ?thesis
      using ok by (intro Cons.prems(1) [of r b' d']) (auto simp: bindS_def h)
  qed
qed

section \<open>A computation of the pager that follows a sequence of calls\<close>

definition follows :: "(pager, unit) pm \<Rightarrow> (disk \<Rightarrow> disk) list \<Rightarrow> (pager \<Rightarrow> bool) \<Rightarrow> pager \<Rightarrow> bool" where
  "follows m hs post s \<longleftrightarrow>
     (case forS io_call hs (p_disk s) of (r, d') \<Rightarrow>
        \<exists>s'. m s = (r, s') \<and> p_disk s' = d' \<and> (r = Inr () \<longrightarrow> post s'))"

lemma follows_modify: "p_disk (h s) = p_disk s \<Longrightarrow> post (h s) \<Longrightarrow> follows (modifyS h) [] post s"
  by (simp add: follows_def)

lemma follows_bind_modify: "p_disk (h s) = p_disk s \<Longrightarrow> follows (K ()) hs post (h s) \<Longrightarrow> follows (bindS (modifyS h) K) hs post s"
  by (simp add: follows_def bindS_def)

lemma follows_bind_get: "follows (K (g s)) hs post s \<Longrightarrow> follows (bindS (getS g) K) hs post s"
  by (simp add: follows_def bindS_def)

lemma follows_call:
  assumes "\<And>d'. io_call h (p_disk s) = (Inr (), d') \<Longrightarrow> follows (K ()) hs post (s\<lparr>p_disk := d'\<rparr>)"
  shows "follows (bindS (with_disk (io_call h)) K) (h # hs) post s"
proof -
  obtain r d' where c: "io_call h (p_disk s) = (r, d')" by fastforce
  show ?thesis
  proof (cases r)
    case (Inl e)
    then show ?thesis using c by (simp add: follows_def bindS_def with_disk_def)
  next
    case (Inr u)
    then show ?thesis using assms c by (simp add: follows_def bindS_def with_disk_def)
  qed
qed

lemma follows_bind:
  \<comment> \<open>two computations in a row\<close>
  assumes "follows m hs Q s" and "\<And>s'. Q s' \<Longrightarrow> follows (K ()) gs post s'"
  shows "follows (bindS m K) (hs @ gs) post s"
proof -
  have app: "forS io_call (hs @ gs) d = bindS (forS io_call hs) (\<lambda>_. forS io_call gs) d" for d
    by (induction hs arbitrary: d) (auto simp: bindS_def split: prod.split sum.split)
  obtain r d' s' where r: "forS io_call hs (p_disk s) = (r, d')" "m s = (r, s')" "p_disk s' = d'" "r = Inr () \<longrightarrow> Q s'"
    using assms(1) by (auto simp: follows_def split: prod.splits)
  show ?thesis
  proof (cases r)
    case (Inl e)
    then show ?thesis using r by (simp add: follows_def bindS_def app)
  next
    case (Inr u)
    then show ?thesis using r assms(2) [of s'] by (auto simp: follows_def bindS_def app)
  qed
qed

lemma followsD:
  assumes "follows m hs post s" and "\<forall>h \<in> set hs. budget_free h"
  obtains r s' d' b where "m s = (r, s')" "p_disk s' = d'\<lparr>d_budget := b\<rparr>" "d' \<in> set (trace hs (p_disk s))"
    "r = Inr () \<and> d' = after hs (p_disk s) \<and> post s' \<or> r = Inl OSError" "d_budget (p_disk s) = None \<Longrightarrow> b = None \<and> r = Inr ()"
proof -
  obtain d' b r where k: "forS io_call hs (p_disk s) = (r, d'\<lparr>d_budget := b\<rparr>)" "d' \<in> set (trace hs (p_disk s))"
    "r = Inr () \<and> d' = after hs (p_disk s) \<or> r = Inl OSError" "d_budget (p_disk s) = None \<Longrightarrow> b = None \<and> r = Inr ()"
    by (rule io_steps_run [OF assms(2), of "p_disk s"], rule that, assumption, assumption, assumption, simp)
  moreover from assms(1) k(1) obtain s' where "m s = (r, s')" "p_disk s' = d'\<lparr>d_budget := b\<rparr>" "r = Inr () \<longrightarrow> post s'"
    by (auto simp: follows_def)
  ultimately show thesis by (intro that [of r s' b d']) auto
qed

lemma follows_disk:
  assumes "follows m hs post s" and "\<forall>h \<in> set hs. budget_free h"
  shows "follows m hs (\<lambda>s'. post s' \<and> (\<exists>b. p_disk s' = (after hs (p_disk s))\<lparr>d_budget := b\<rparr>)) s"
proof -
  obtain d' b r where k: "forS io_call hs (p_disk s) = (r, d'\<lparr>d_budget := b\<rparr>)" "d' \<in> set (trace hs (p_disk s))"
    "r = Inr () \<and> d' = after hs (p_disk s) \<or> r = Inl OSError" "d_budget (p_disk s) = None \<Longrightarrow> b = None \<and> r = Inr ()"
    by (rule io_steps_run [OF assms(2), of "p_disk s"], rule that, assumption, assumption, assumption, simp)
  then show ?thesis using assms(1) by (auto simp: follows_def)
qed

lemma io_steps_exact:
  assumes "\<forall>h \<in> set hs. budget_free h" and "d_budget d = Some (length hs + b)"
  shows "forS io_call hs d = (Inr (), (after hs d)\<lparr>d_budget := Some b\<rparr>)"
  using assms
proof (induction hs arbitrary: d)
  case (Cons h hs)
  have h: "h (x\<lparr>d_budget := c\<rparr>) = (h x)\<lparr>d_budget := c\<rparr>" for x c using Cons.prems(1) by (simp add: budget_free_def)
  have af: "after hs (x\<lparr>d_budget := c\<rparr>) = (after hs x)\<lparr>d_budget := c\<rparr>" for x c
    using Cons.prems(1) by (induction hs arbitrary: x) (simp_all add: budget_free_def)
  have "io_call h d = (Inr (), (h d)\<lparr>d_budget := Some (length hs + b)\<rparr>)"
    using Cons.prems(2) h [where x = d and c = "Some (length hs + b)"] by (simp add: io_call_def)
  then show ?case using Cons.IH [of "(h d)\<lparr>d_budget := Some (length hs + b)\<rparr>"] Cons.prems(1) by (simp add: bindS_def af)
qed simp

lemma follows_exact:
  \<comment> \<open>the calls of the computation, and \<open>b\<close> more, succeed\<close>
  assumes "follows m hs post s" and "\<forall>h \<in> set hs. budget_free h" and "d_budget (p_disk s) = Some (length hs + b)"
  obtains s' where "m s = (Inr (), s')" "p_disk s' = (after hs (p_disk s))\<lparr>d_budget := Some b\<rparr>" "post s'"
  using assms(1) io_steps_exact [OF assms(2,3)] that by (auto simp: follows_def)

section \<open>The calls of a commit\<close>

definition jrn_write :: "nat \<Rightarrow> bytes \<Rightarrow> disk \<Rightarrow> disk" where
  "jrn_write off data = upd_side Jrn (\<lambda>sc. sc\<lparr>sc_cur := map_option (add_wr (Pwrite off data)) (sc_cur sc)\<rparr>)"

definition jrn_sync :: "disk \<Rightarrow> disk" where
  "jrn_sync d = upd_side Jrn (\<lambda>sc. \<lparr>sc_cur = map_option sync_file (sc_cur sc), sc_stale = (if d_links d then [] else sc_stale sc)\<rparr>) d"

definition db_write :: "nat \<times> bytes \<Rightarrow> disk \<Rightarrow> disk" where
  "db_write item d = d\<lparr>d_db := add_wr (page_write item) (d_db d)\<rparr>"

definition db_sync :: "disk \<Rightarrow> disk" where
  "db_sync d = d\<lparr>d_db := sync_file (d_db d)\<rparr>"

definition jrn_unlink :: "disk \<Rightarrow> disk" where
  "jrn_unlink = upd_side Jrn (\<lambda>sc. case sc_cur sc of None \<Rightarrow> sc | Some f \<Rightarrow> \<lparr>sc_cur = None, sc_stale = Some f # sc_stale sc\<rparr>)"

definition dir_sync :: "disk \<Rightarrow> disk" where
  "dir_sync d = d\<lparr>d_jrn := (d_jrn d)\<lparr>sc_stale := []\<rparr>, d_wal := (d_wal d)\<lparr>sc_stale := []\<rparr>\<rparr>"

lemma calls:
  "side_write Jrn (Pwrite off data) = io_call (jrn_write off data)" "side_fsync Jrn = io_call jrn_sync"
  "db_pwrite data ((p - 1) * PAGE_SIZE) = io_call (db_write (p, data))" "db_fsync = io_call db_sync"
  "side_unlink Jrn = io_call jrn_unlink" "dir_fsync = io_call dir_sync"
proof -
  have "db_sync = (\<lambda>d. d\<lparr>d_db := sync_file (d_db d)\<rparr>)" "db_write (p, data) = (\<lambda>d. d\<lparr>d_db := add_wr (Pwrite ((p - 1) * PAGE_SIZE) data) (d_db d)\<rparr>)"
    "dir_sync = (\<lambda>d. d\<lparr>d_jrn := (d_jrn d)\<lparr>sc_stale := []\<rparr>, d_wal := (d_wal d)\<lparr>sc_stale := []\<rparr>\<rparr>)"
    by (simp_all add: db_sync_def db_write_def page_write_def dir_sync_def fun_eq_iff)
  then show "db_fsync = io_call db_sync" "db_pwrite data ((p - 1) * PAGE_SIZE) = io_call (db_write (p, data))"
    "dir_fsync = io_call dir_sync"
    by (simp_all add: db_fsync_def db_pwrite_def dir_fsync_def)
qed (simp_all add: side_write_def jrn_write_def side_fsync_def jrn_sync_def [abs_def] side_unlink_def jrn_unlink_def)

lemma budget_free_calls [simp]:
  "budget_free (jrn_write off data)" "budget_free jrn_sync" "budget_free (db_write item)" "budget_free db_sync"
  "budget_free jrn_unlink" "budget_free dir_sync"
  by (simp_all add: budget_free_def jrn_write_def jrn_sync_def db_write_def db_sync_def jrn_unlink_def dir_sync_def upd_side_def
      split: option.split)

definition arm_steps :: "(nat \<times> bytes) list \<Rightarrow> (disk \<Rightarrow> disk) list" where
  "arm_steps pend = (if pend = [] then [] else [jrn_write JOURNAL_HEADER_SIZE (journal_bytes pend)]) @
     [jrn_sync, jrn_write 12 (be_bytes 4 (length pend)), jrn_sync]"

definition copy_steps :: "(nat \<times> bytes) list \<Rightarrow> (disk \<Rightarrow> disk) list" where
  "copy_steps pages = map db_write pages @ [db_sync]"

definition end_steps :: "(disk \<Rightarrow> disk) list" where
  "end_steps = [jrn_unlink, dir_sync]"

definition commit_steps :: "(nat \<times> bytes) list \<Rightarrow> (nat \<times> bytes) list \<Rightarrow> (disk \<Rightarrow> disk) list" where
  "commit_steps pend pages = arm_steps pend @ copy_steps pages @ end_steps"

lemma steps_free [simp]:
  "\<forall>h \<in> set (arm_steps pend). budget_free h" "\<forall>h \<in> set (copy_steps pages). budget_free h"
  "\<forall>h \<in> set end_steps. budget_free h" "\<forall>h \<in> set (commit_steps pend pages). budget_free h"
  by (auto simp: commit_steps_def arm_steps_def copy_steps_def end_steps_def)

definition still :: "pager \<Rightarrow> pager \<Rightarrow> bool" where
  \<comment> \<open>only the disk and the buffer of the journal moved\<close>
  "still s s' \<longleftrightarrow> (\<exists>d j. s' = s\<lparr>p_disk := d, p_journal := j\<rparr>)"

lemma stillI [simp]: "still s (s\<lparr>p_disk := d, p_journal := j\<rparr>)" "still s (s\<lparr>p_journal := j, p_disk := d\<rparr>)"
  unfolding still_def by (rule exI [of _ d], rule exI [of _ j], simp)+

lemma still_refl: "still s s"
  unfolding still_def by (rule exI [of _ "p_disk s"], rule exI [of _ "p_journal s"]) simp

definition flushed :: "journal \<Rightarrow> pager \<Rightarrow> pager \<Rightarrow> bool" where
  \<comment> \<open>the records of the journal are in its file; only the disk moved besides\<close>
  "flushed j s s' \<longleftrightarrow> (\<exists>d. s' = s\<lparr>p_disk := d, p_journal := Some (j\<lparr>j_pending := []\<rparr>)\<rparr>)"

lemma flushedI [simp]: "flushed j s (s\<lparr>p_disk := d, p_journal := Some (j\<lparr>j_pending := []\<rparr>)\<rparr>)"
  unfolding flushed_def by (rule exI [of _ d]) simp

lemma flushed_disk: "flushed j s s' \<Longrightarrow> flushed j s (s'\<lparr>p_disk := d\<rparr>)"
  by (auto simp: flushed_def intro!: exI [of _ d])

lemma flushed_still: "flushed j s s' \<Longrightarrow> still s s'"
  by (auto simp: flushed_def)

lemma follows_flush:
  assumes "p_journal s = Some j" and "images (j_pending j)"
  shows "follows flush_pending (if j_pending j = [] then [] else [jrn_write JOURNAL_HEADER_SIZE (journal_bytes (j_pending j))]) (flushed j s) s"
proof (cases "j_pending j = []")
  case True
  then have "s = s\<lparr>p_disk := p_disk s, p_journal := Some (j\<lparr>j_pending := []\<rparr>)\<rparr>" using assms(1) by simp
  then have "flushed j s s" unfolding flushed_def by (rule exI)
  then show ?thesis using True assms(1) by (simp add: flush_pending_def follows_def bindS_def)
next
  case False
  have "follows (bindS (with_disk (io_call (jrn_write JOURNAL_HEADER_SIZE (journal_bytes (j_pending j))))) (\<lambda>_.
      modifyS (\<lambda>s. s\<lparr>p_journal := Some (j\<lparr>j_pending := []\<rparr>)\<rparr>))) [jrn_write JOURNAL_HEADER_SIZE (journal_bytes (j_pending j))] (flushed j s) s"
    by (intro follows_call follows_modify) simp_all
  then show ?thesis
    using False assms(1) journal_body_run [OF assms(2) False]
    by (simp add: flush_pending_def follows_def bindS_def calls)
qed

lemma follows_pages:
  assumes "flushed j s s1" and "p_page_size s = PAGE_SIZE" and "\<forall>n \<in> set order. n \<noteq> 0 \<and> map_of (p_cache s) n = Some (c n)"
  shows "follows (forS write_dirty_page order) (map db_write (map (\<lambda>n. (n, c n)) order)) (flushed j s) s1"
  using assms
proof (induction order arbitrary: s1)
  case Nil
  then show ?case by (simp add: follows_def)
next
  case (Cons n order)
  let ?h = "db_write (n, c n)"
  obtain d1 where s1: "s1 = s\<lparr>p_disk := d1, p_journal := Some (j\<lparr>j_pending := []\<rparr>)\<rparr>" using Cons.prems(1) by (auto simp: flushed_def)
  have run: "write_dirty_page n s1 = with_disk (io_call ?h) s1"
    using Cons.prems(2,3) by (simp add: write_dirty_page_def bindS_def page_offset_def calls [unfolded One_nat_def] s1)
  have "follows (bindS (with_disk (io_call ?h)) (\<lambda>_. forS write_dirty_page order))
      (?h # map db_write (map (\<lambda>n. (n, c n)) order)) (flushed j s) s1"
    by (intro follows_call Cons.IH flushed_disk) (use Cons.prems in auto)
  then show ?case using run by (simp add: follows_def bindS_def)
qed

text \<open>The two barriers of the journal.\<close>

definition arm_journal :: "journal \<Rightarrow> (pager, unit) pm" where
  "arm_journal j =
     bindS flush_pending (\<lambda>_.
     bindS (with_disk (side_fsync Jrn)) (\<lambda>_.
     bindS (liftR (pack 4 (int (j_count j)))) (\<lambda>count_data.
     bindS (with_disk (side_write Jrn (Pwrite 12 count_data))) (\<lambda>_.
     with_disk (side_fsync Jrn)))))"

lemma commit_journal_arm:
  "commit_journal j order = bindS (arm_journal j) (\<lambda>_.
     bindS (forS write_dirty_page order) (\<lambda>_.
     bindS (with_disk db_fsync) (\<lambda>_.
     bindS (modifyS (\<lambda>s. if p_use_mmap s then fold cache_pop order (refresh_mmap s) else s)) (\<lambda>_.
     bindS (with_disk (side_unlink Jrn)) (\<lambda>_.
     bindS (with_disk dir_fsync) (\<lambda>_.
     modifyS (\<lambda>s. s\<lparr>p_journal := None, p_dirty := {}\<rparr>)))))))"
  by (simp add: commit_journal_def arm_journal_def bindS_assoc)

lemma follows_last: "follows (bindS (with_disk (io_call h)) (\<lambda>_. modifyS (\<lambda>s. s))) [h] post s \<Longrightarrow> follows (with_disk (io_call h)) [h] post s"
proof -
  have "(\<lambda>_::unit. modifyS (\<lambda>s. s)) = (retS :: unit \<Rightarrow> (pager, unit) pm)" by (simp add: fun_eq_iff)
  then show "follows (bindS (with_disk (io_call h)) (\<lambda>_. modifyS (\<lambda>s. s))) [h] post s \<Longrightarrow> follows (with_disk (io_call h)) [h] post s"
    by (simp only: bindS_ret_right)
qed

lemma follows_arm:
  assumes j: "p_journal s = Some j" "images (j_pending j)" and cnt: "pack 4 (int (j_count j)) = Inr (be_bytes 4 (length (j_pending j)))"
  shows "follows (arm_journal j) (arm_steps (j_pending j)) (flushed j s) s"
  unfolding arm_journal_def cnt arm_steps_def
proof (rule follows_bind [OF follows_flush [OF j]])
  fix s1 assume "flushed j s s1"
  then show "follows (bindS (with_disk (side_fsync Jrn)) (\<lambda>_.
      bindS (liftR (Inr (be_bytes 4 (length (j_pending j))))) (\<lambda>count_data.
      bindS (with_disk (side_write Jrn (Pwrite 12 count_data))) (\<lambda>_. with_disk (side_fsync Jrn)))))
    [jrn_sync, jrn_write 12 (be_bytes 4 (length (j_pending j))), jrn_sync] (flushed j s) s1"
    unfolding calls(1,2) bindS_simps
    by (intro follows_call follows_last follows_modify flushed_disk) simp_all
qed

text \<open>The whole commit.\<close>

definition committed :: "pager \<Rightarrow> disk \<Rightarrow> pager \<Rightarrow> bool" where
  \<comment> \<open>the pager after a commit: no transaction, the cache holds nothing new, a new mapping covers the
     file\<close>
  "committed s d s' \<longleftrightarrow> (\<exists>b. p_disk s' = d\<lparr>d_budget := b\<rparr>) \<and> p_journal s' = None \<and> p_dirty s' = {} \<and> p_wal s' = p_wal s \<and>
     p_wal_mode s' = p_wal_mode s \<and> p_closed s' = p_closed s \<and> p_page_size s' = p_page_size s \<and>
     p_pinned s' = p_pinned s \<and>
     (\<forall>n data. map_of (p_cache s') n = Some data \<longrightarrow> map_of (p_cache s) n = Some data) \<and>
     (\<forall>len. p_mmap s' = Some len \<longrightarrow> p_mmap s = Some len \<or> len = length (db_content d))"

definition transaction_order :: "pager \<Rightarrow> nat list \<Rightarrow> bool" where
  \<comment> \<open>the dirty set in the order it is iterated\<close>
  "transaction_order s order \<longleftrightarrow> distinct order \<and> set order = p_dirty s"

definition dirty_items :: "pager \<Rightarrow> nat list \<Rightarrow> (nat \<times> bytes) list" where
  "dirty_items s order = map (\<lambda>n. (n, pager_page s n)) order"

lemma distinct_images_length:
  assumes "images recs" and "distinct (map fst recs)"
  shows "length recs < 2 ^ 32"
proof -
  have "fst ` set recs \<subseteq> {1..<2 ^ 32}" using assms(1) by (auto simp: images_def)
  then have "card (fst ` set recs) \<le> card {1..<2 ^ 32 :: nat}" by (rule card_mono [rotated]) simp
  moreover have "card (fst ` set recs) = length recs" using distinct_card [OF assms(2)] by simp
  ultimately show ?thesis by simp
qed

lemma images_of_ok: "images_ok d j \<Longrightarrow> images (j_pending j)"
  by (auto simp: images_ok_def images_def)

lemma pop_cache:
  "map_of (p_cache (fold cache_pop vs s)) n = Some data \<Longrightarrow> map_of (p_cache s) n = Some data"
  by (simp add: fold_pop map_of_fold_delete restrict_map_def split: if_splits)

lemma txn_images:
  assumes ok: "pager_ok d None s" and j: "p_journal s = Some j" and order: "transaction_order s order"
  shows "images (j_pending j)" and "pack 4 (int (j_count j)) = Inr (be_bytes 4 (length (j_pending j)))"
    and "\<forall>n \<in> set order. n \<noteq> 0 \<and> map_of (p_cache s) n = Some (pager_page s n)" and "p_page_size s = PAGE_SIZE"
proof -
  note b = pager_ok_basics [OF ok]
  have im: "images_ok d j" using b(1) b(8) j by (simp add: journal_mode_ok_def Let_def)
  show imgs: "images (j_pending j)" by (rule images_of_ok [OF im])
  have cnt: "j_count j = length (j_pending j)" "length (j_pending j) < 2 ^ 32"
    using im distinct_images_length [OF imgs] by (simp_all add: images_ok_def)
  then show "pack 4 (int (j_count j)) = Inr (be_bytes 4 (length (j_pending j)))" by (simp add: pack_ok)
  have nz: "n \<noteq> 0" if "n \<in> p_dirty s" for n using that b(6) unfolding cache_ok_def by metis
  show "\<forall>n \<in> set order. n \<noteq> 0 \<and> map_of (p_cache s) n = Some (pager_page s n)"
    using order b(6) nz
    by (auto simp: transaction_order_def cache_ok_def pager_page_def subset_iff dom_def simp del: neq0_conv split: option.split)
  show "p_page_size s = PAGE_SIZE" by (rule b(5))
qed

lemma commit_follows:
  assumes ok: "pager_ok d None s" and j: "p_journal s = Some j" and order: "transaction_order s order"
  shows "follows (commit_journal j order) (commit_steps (j_pending j) (dirty_items s order))
    (committed s (after (commit_steps (j_pending j) (dirty_items s order)) d)) s"
proof -
  note b = pager_ok_basics [OF ok] and t = txn_images [OF ok j order]
  let ?items = "dirty_items s order"
  let ?pre = "arm_steps (j_pending j) @ copy_steps ?items"
  define tail1 where "tail1 = (\<lambda>_::unit. bindS (modifyS (\<lambda>s. if p_use_mmap s then fold cache_pop order (refresh_mmap s) else s)) (\<lambda>_.
       bindS (with_disk (side_unlink Jrn)) (\<lambda>_.
       bindS (with_disk dir_fsync) (\<lambda>_.
       modifyS (\<lambda>s. s\<lparr>p_journal := None, p_dirty := {}\<rparr>)))))"
  define head where "head = bindS (arm_journal j) (\<lambda>_. bindS (forS write_dirty_page order) (\<lambda>_. with_disk db_fsync))"
  have split': "commit_journal j order = bindS head tail1"
    by (simp add: commit_journal_arm head_def tail1_def bindS_assoc)
  have "follows head ?pre (still s) s"
    unfolding head_def copy_steps_def dirty_items_def
  proof (rule follows_bind [OF follows_arm [OF j t(1,2)]], rule follows_bind [OF follows_pages])
    fix s' assume "flushed j s s'"
    then obtain d1 j1 where s': "s' = s\<lparr>p_disk := d1, p_journal := j1\<rparr>" by (auto simp: flushed_def)
    show "follows (with_disk db_fsync) [db_sync] (still s) s'"
      unfolding calls by (intro follows_last follows_call follows_modify) (simp_all add: s')
  qed (use t(3,4) in auto)
  from follows_disk [OF this] have h: "follows head ?pre (\<lambda>s'. still s s' \<and> (\<exists>b. p_disk s' = (after ?pre d)\<lparr>d_budget := b\<rparr>)) s"
    by (simp add: b(1) ball_Un)
  have "follows (bindS head tail1) (?pre @ end_steps) (\<lambda>s'. committed s (p_disk s') s') s"
  proof (rule follows_bind [OF h])
    fix s1 assume "still s s1 \<and> (\<exists>b. p_disk s1 = (after ?pre d)\<lparr>d_budget := b\<rparr>)"
    then obtain d1 j1 where s1: "s1 = s\<lparr>p_disk := d1, p_journal := j1\<rparr>" by (auto simp: still_def)
    show "follows (tail1 ()) end_steps (\<lambda>s'. committed s (p_disk s') s') s1"
      unfolding tail1_def calls end_steps_def
    proof (intro follows_bind_modify follows_call follows_modify)
      show "p_disk (if p_use_mmap s1 then fold cache_pop order (refresh_mmap s1) else s1) = p_disk s1"
        by (simp add: fold_pop refresh_mmap_def Let_def)
      let ?s2 = "if p_use_mmap s1 then fold cache_pop order (refresh_mmap s1) else s1"
      fix d2 d3
      assume c: "io_call jrn_unlink (p_disk ?s2) = (Inr (), d2)" "io_call dir_sync (p_disk (?s2\<lparr>p_disk := d2\<rparr>)) = (Inr (), d3)"
      have "d_db d3 = d_db d1"
        using c by (auto simp: io_call_def s1 jrn_unlink_def dir_sync_def upd_side_def fold_pop refresh_mmap_def Let_def
            split: option.splits nat.splits if_splits)
      then have "db_content d3 = db_content d1" by (simp add: db_content_def)
      moreover have "\<exists>b. d3 = d3\<lparr>d_budget := b\<rparr>" by (rule exI [of _ "d_budget d3"]) simp
      ultimately show "committed s (p_disk (?s2\<lparr>p_disk := d2, p_disk := d3, p_journal := None, p_dirty := {}\<rparr>))
          (?s2\<lparr>p_disk := d2, p_disk := d3, p_journal := None, p_dirty := {}\<rparr>)"
        by (auto simp: committed_def s1 fold_pop refresh_mmap_def Let_def map_of_fold_delete restrict_map_def split: if_splits)
    qed simp_all
  qed
  then have "follows (commit_journal j order) (commit_steps (j_pending j) ?items) (\<lambda>s'. committed s (p_disk s') s') s"
    by (simp add: split' commit_steps_def)
  from follows_disk [OF this steps_free(4)] show ?thesis
    unfolding follows_def b(1)
    by (auto simp: committed_def db_content_def split: prod.splits)
qed

end
