(* ===== verification/JournalAtomic.thy ===== *)
theory JournalAtomic
  imports JournalCommit WalAtomic
begin

text \<open>
  What the disk is worth after a crash at any point of a commit in journal mode.
\<close>

section \<open>Files of the journal\<close>

definition safe_file :: "dfile \<Rightarrow> bytes \<Rightarrow> bool" where
  \<comment> \<open>whatever a crash makes of this journal file, replaying it changes nothing\<close>
  "safe_file F f \<longleftrightarrow> (\<forall>g. crash_file F g \<longrightarrow> true_copies (jrn_recs (Some g)) f)"

lemma quiet_jrn_iff:
  "quiet_jrn sc f \<longleftrightarrow> (\<forall>F. Some F \<in> set (sc_cur sc # sc_stale sc) \<longrightarrow> safe_file F f)"
proof
  assume q: "quiet_jrn sc f"
  show "\<forall>F. Some F \<in> set (sc_cur sc # sc_stale sc) \<longrightarrow> safe_file F f"
    unfolding safe_file_def
  proof (intro allI impI)
    fix F g assume F: "Some F \<in> set (sc_cur sc # sc_stale sc)" "crash_file F g"
    then have "crash_side sc \<lparr>sc_cur = Some (settled_file g), sc_stale = []\<rparr>"
      unfolding crash_side_def by (intro conjI bexI [of _ "Some F"]) auto
    then show "true_copies (jrn_recs (Some g)) f" using q by (auto simp: quiet_jrn_def side_image_def)
  qed
next
  assume s: "\<forall>F. Some F \<in> set (sc_cur sc # sc_stale sc) \<longrightarrow> safe_file F f"
  show "quiet_jrn sc f"
    unfolding quiet_jrn_def
  proof (intro allI impI)
    fix sc' assume "crash_side sc sc'"
    then show "true_copies (jrn_recs (side_image sc')) f"
    proof (cases rule: crash_side_cases)
      case gone
      then show ?thesis by (simp add: jrn_recs_def)
    next
      case (held F g)
      then show ?thesis using s by (auto simp: safe_file_def)
    qed
  qed
qed

definition journal_header :: bytes where
  "journal_header = JOURNAL_MAGIC @ be_bytes 4 0"

lemma length_magic [simp]: "length JOURNAL_MAGIC = 12"
  by (simp add: JOURNAL_MAGIC_def)

lemma length_journal_header [simp]: "length journal_header = JOURNAL_HEADER_SIZE"
  by (simp add: journal_header_def JOURNAL_HEADER_SIZE_def)

lemma be_bytes_zero: "be_bytes n 0 = replicate n 0"
  by (induction n) (simp_all add: replicate_append_same)

lemma header_zero: "12 \<le> i \<Longrightarrow> i < 16 \<Longrightarrow> journal_header ! i = 0"
proof -
  assume i: "12 \<le> i" "i < 16"
  then show "journal_header ! i = 0" using be_bytes_zero [of 4] by (simp add: journal_header_def nth_append)
qed

lemma unarmed_file:
  \<comment> \<open>before the first sync the count is zero in every torn file\<close>
  assumes "ws = [] \<or> ws = [Pwrite JOURNAL_HEADER_SIZE body]"
  shows "safe_file \<lparr>f_synced = [], f_pending = Pwrite 0 journal_header # ws\<rparr> f"
  unfolding safe_file_def
proof (intro allI impI)
  fix g assume "crash_file \<lparr>f_synced = [], f_pending = Pwrite 0 journal_header # ws\<rparr> g"
  then have c: "crash_bytes (Pwrite 0 journal_header # ws) [] g" by (simp add: crash_file_def)
  have "byte_at g i = 0" if i: "12 \<le> i" "i < 16" for i
    by (rule crash_value [OF c])
      (use assms i header_zero in \<open>auto simp: byte_at_def JOURNAL_HEADER_SIZE_def\<close>)
  then have "pyslice g 12 16 = replicate (length (pyslice g 12 16)) 0"
  proof (intro nth_equalityI)
    fix i assume "i < length (pyslice g 12 16)"
    then show "pyslice g 12 16 ! i = replicate (length (pyslice g 12 16)) 0 ! i"
      using \<open>\<And>i. 12 \<le> i \<Longrightarrow> i < 16 \<Longrightarrow> byte_at g i = 0\<close> [of "12 + i"]
      by (auto simp: pyslice_def byte_at_def less_diff_conv add.commute split: if_splits)
  qed simp
  then have "jrn_recs (Some g) = []" by (metis recs_count_zero be_nat_zeros)
  then show "true_copies (jrn_recs (Some g)) f" by simp
qed

lemma crash_patch:
  assumes crash: "crash_bytes [Pwrite (length a) b'] (a @ b @ c) g" and len: "length b' = length b"
  obtains b'' where "length b'' = length b" "g = a @ b'' @ c"
proof -
  have l: "length g = length (a @ b @ c)"
    using crash_length [OF crash] crash_length_le [OF crash, of "length (a @ b @ c)"] len by simp
  have out: "byte_at g i = byte_at (a @ b @ c) i" if "i < length a \<or> length a + length b \<le> i" for i
    by (rule crash_outside [OF crash]) (use that len in auto)
  let ?b = "take (length b) (drop (length a) g)"
  have "g = a @ ?b @ c"
  proof (rule nth_equalityI)
    show "length g = length (a @ ?b @ c)" using l by simp
    fix i assume "i < length g"
    then have "g ! i = byte_at g i" "(a @ b @ c) ! i = byte_at (a @ b @ c) i" using l by (simp_all add: byte_at_def)
    then show "g ! i = (a @ ?b @ c) ! i"
      using out [of i] l by (cases "i < length a \<or> length a + length b \<le> i") (auto simp: nth_append)
  qed
  then show thesis using l by (intro that [of ?b]) simp_all
qed

lemma synced_file:
  assumes "true_copies recs f" and "images recs" and "length cnt = 4"
  shows "safe_file (settled_file (journal_file cnt recs)) f"
  using assms journal_file_recs [OF assms(2,3)] true_copies_take [OF assms(1)]
  by (simp add: safe_file_def crash_synced)

lemma arming_file:
  assumes "true_copies recs f" and "images recs" and "length cnt = 4" and "length cnt' = 4"
  shows "safe_file (add_wr (Pwrite 12 cnt') (settled_file (journal_file cnt recs))) f"
  unfolding safe_file_def
proof (intro allI impI)
  fix g assume "crash_file (add_wr (Pwrite 12 cnt') (settled_file (journal_file cnt recs))) g"
  then have "crash_bytes [Pwrite (length JOURNAL_MAGIC) cnt'] (JOURNAL_MAGIC @ cnt @ journal_bytes recs) g"
    by (simp add: crash_file_def journal_file_def)
  then obtain b where "length b = 4" "g = journal_file b recs"
    using assms(3,4) by (elim crash_patch) (auto simp: journal_file_def)
  then show "true_copies (jrn_recs (Some g)) f"
    using journal_file_recs [OF assms(2), of b] true_copies_take [OF assms(1)] by simp
qed

section \<open>The states of a commit\<close>

definition begun :: "disk \<Rightarrow> bytes \<Rightarrow> bool" where
  \<comment> \<open>a transaction is open on a database file with content \<open>f\<close>; nothing but the journal is pending\<close>
  "begun d f \<longleftrightarrow> d_db d = settled_file f \<and>
     (\<exists>st. d_jrn d = \<lparr>sc_cur = Some \<lparr>f_synced = [], f_pending = [Pwrite 0 journal_header]\<rparr>, sc_stale = None # st\<rparr> \<and>
        quiet_jrn \<lparr>sc_cur = None, sc_stale = st\<rparr> f)"

definition armed_file :: "(nat \<times> bytes) list \<Rightarrow> dfile" where
  "armed_file pend = settled_file (journal_file (be_bytes 4 (length pend)) pend)"

lemma pwrite_middle: "b' \<noteq> [] \<Longrightarrow> length b' = length b \<Longrightarrow> pwrite (a @ b @ c) b' (length a) = a @ b' @ c"
  by (simp add: pwrite_def blit_def)

lemma pwrite_first: "data \<noteq> [] \<Longrightarrow> pwrite [] data 0 = data"
  by (simp add: pwrite_def blit_def)

lemma header_file: "journal_header @ journal_bytes pend = journal_file (be_bytes 4 0) pend"
  by (simp add: journal_header_def journal_file_def)

lemma arm_run:
  assumes b: "begun d f" and t: "true_copies pend f" "images pend"
  shows "after (arm_steps pend) d =
      d\<lparr>d_jrn := \<lparr>sc_cur = Some (armed_file pend), sc_stale = (if d_links d then [] else sc_stale (d_jrn d))\<rparr>\<rparr>"
    and "\<forall>d' \<in> set (trace (arm_steps pend) d). d_db d' = settled_file f \<and> quiet_jrn (d_jrn d') f"
proof -
  obtain st where db: "d_db d = settled_file f"
    and jrn: "d_jrn d = \<lparr>sc_cur = Some \<lparr>f_synced = [], f_pending = [Pwrite 0 journal_header]\<rparr>, sc_stale = None # st\<rparr>"
    and st: "quiet_jrn \<lparr>sc_cur = None, sc_stale = st\<rparr> f"
    using b by (auto simp: begun_def)
  have ne: "journal_header \<noteq> []" "be_bytes 4 (length pend) \<noteq> []"
    by (simp_all add: journal_header_def JOURNAL_MAGIC_def flip: length_0_conv)
  let ?F0 = "\<lparr>f_synced = [], f_pending = [Pwrite 0 journal_header]\<rparr>"
  let ?F1 = "if pend = [] then ?F0 else \<lparr>f_synced = [], f_pending = [Pwrite 0 journal_header, Pwrite JOURNAL_HEADER_SIZE (journal_bytes pend)]\<rparr>"
  let ?F2 = "settled_file (journal_file (be_bytes 4 0) pend)"
  let ?F3 = "add_wr (Pwrite 12 (be_bytes 4 (length pend))) ?F2"
  have F1: "sync_file ?F1 = ?F2"
    using pwrite_first [OF ne(1)] pwrite_end [of journal_header "journal_bytes pend"] header_file [of pend]
    by (auto simp: sync_file_def settled_file_def content_def simp flip: length_journal_header)
  have "pwrite (journal_file (be_bytes 4 0) pend) (be_bytes 4 (length pend)) 12 = journal_file (be_bytes 4 (length pend)) pend"
    using pwrite_middle [OF ne(2), of "be_bytes 4 0" JOURNAL_MAGIC "journal_bytes pend"] by (simp add: journal_file_def)
  then have F3: "sync_file ?F3 = armed_file pend"
    by (simp add: sync_file_def armed_file_def settled_file_def content_def add_wr_def)
  let ?D = "\<lambda>F s. d\<lparr>d_jrn := \<lparr>sc_cur = Some F, sc_stale = s\<rparr>\<rparr>"
  have d0: "d = ?D ?F0 (None # st)" using jrn by simp
  have s1: "after (if pend = [] then [] else [jrn_write JOURNAL_HEADER_SIZE (journal_bytes pend)]) d = ?D ?F1 (None # st)"
    using jrn by (simp add: jrn_write_def upd_side_def add_wr_def)
  have s0: "set (trace (if pend = [] then [] else [jrn_write JOURNAL_HEADER_SIZE (journal_bytes pend)]) d)
      \<subseteq> {?D ?F0 (None # st), ?D ?F1 (None # st)}"
    using d0 s1 by (simp split: if_splits)
  let ?st = "if d_links d then [] else None # st"
  have s2: "jrn_sync (?D F s) = ?D (sync_file F) (if d_links d then [] else s)" for F s by (simp add: jrn_sync_def upd_side_def)
  have s3: "jrn_write 12 x (?D F s) = ?D (add_wr (Pwrite 12 x) F) s" for F s x by (simp add: jrn_write_def upd_side_def)
  show "after (arm_steps pend) d = ?D (armed_file pend) (if d_links d then [] else sc_stale (d_jrn d))"
    unfolding arm_steps_def after_simps s1 s2 s3 F1 F3 by (simp add: jrn)
  have "set (trace (arm_steps pend) d) \<subseteq>
      {?D ?F0 (None # st), ?D ?F1 (None # st), ?D ?F2 ?st, ?D ?F3 ?st, ?D (armed_file pend) ?st}"
    unfolding arm_steps_def trace_append s1
    using s0 by (auto simp: s2 s3 F1 F3 simp del: if_split cong: if_cong)
  moreover have "safe_file ?F0 f" "safe_file ?F1 f" using unarmed_file [of "[]"] unarmed_file by auto
  moreover have "safe_file ?F2 f" "safe_file (armed_file pend) f" "safe_file ?F3 f"
    unfolding armed_file_def using synced_file [OF t] arming_file [OF t] by simp_all
  moreover have "Some F \<in> set ?st \<Longrightarrow> safe_file F f" for F using st by (auto simp: quiet_jrn_iff split: if_splits)
  ultimately show "\<forall>d' \<in> set (trace (arm_steps pend) d). d_db d' = settled_file f \<and> quiet_jrn (d_jrn d') f"
    using db st unfolding quiet_jrn_iff by (auto dest!: subsetD)
qed

lemma after_in_trace: "after hs d \<in> set (trace hs d)"
  by (induction hs arbitrary: d) auto

lemma trace_snoc: "set (trace (hs @ [h]) d) = insert (h (after hs d)) (set (trace hs d))"
  using after_in_trace [of hs d] by (auto simp: trace_append)

lemma copy_run:
  "after (map db_write pages) d = d\<lparr>d_db := add_wrs (map page_write pages) (d_db d)\<rparr>"
  "d' \<in> set (trace (map db_write pages) d) \<Longrightarrow> \<exists>k. d' = d\<lparr>d_db := add_wrs (map page_write (take k pages)) (d_db d)\<rparr>"
proof (induction pages arbitrary: d)
  case Nil
  { case 1 show ?case by simp }
  { case 2 then show ?case by simp }
next
  case (Cons x pages)
  have step: "db_write x e = e\<lparr>d_db := add_wrs [page_write x] (d_db e)\<rparr>" for e
    by (simp add: db_write_def add_wr_def add_wrs_def)
  { case 1 show ?case by (simp add: Cons.IH(1) step) }
  { case 2
    then consider "d' = d" | "d' \<in> set (trace (map db_write pages) (db_write x d))" by auto
    then show ?case
    proof cases
      case 1
      then show ?thesis by (intro exI [of _ 0]) simp
    next
      case 2
      from Cons.IH(2) [OF this] obtain k where "d' = (db_write x d)\<lparr>d_db := add_wrs (map page_write (take k pages)) (d_db (db_write x d))\<rparr>"
        by blast
      then show ?thesis by (intro exI [of _ "Suc k"]) (simp add: step)
    qed }
qed

section \<open>What a crash leaves\<close>

definition opens_as :: "disk \<Rightarrow> (nat \<Rightarrow> bytes) \<Rightarrow> bytes \<Rightarrow> bool" where
  \<comment> \<open>recovery of this disk gives these pages, and the file still has the format of \<open>f\<close>\<close>
  "opens_as d pg f \<longleftrightarrow> settled d \<and> dict_pages (jrn_recs (side_image (d_jrn d))) \<and> (\<forall>p \<ge> 1. jrn_recovered d p = pg p) \<and>
     length f \<le> length (db_content d) \<and> (\<forall>i. 16 \<le> i \<and> i < 19 \<longrightarrow> byte_at (db_content d) i = byte_at f i)"

lemma crash_budget: "crash_disk (d\<lparr>d_budget := b\<rparr>) d2 \<longleftrightarrow> crash_disk d d2"
  by (simp add: crash_disk_def)

lemma quiet_crash:
  assumes db: "f_pending (d_db d) = []" and q: "quiet_jrn (d_jrn d) (db_content d)" and crash: "crash_disk d d2"
  shows "opens_as d2 (page_img (db_content d)) (db_content d)"
proof -
  obtain g where g: "crash_file (d_db d) g" "db_content d2 = g" "crash_side (d_jrn d) (d_jrn d2)"
    using crash_disk_parts [OF crash] by metis
  have "g = db_content d" using g(1) db by (simp add: crash_synced db_content_def)
  moreover have "true_copies (jrn_recs (side_image (d_jrn d2))) (db_content d)" using q g(3) by (simp add: quiet_jrn_def)
  ultimately show ?thesis
    using true_copies_overlay crash_settled [OF crash] g(2)
    by (simp add: opens_as_def jrn_recovered_def true_copies_def)
qed

definition well_saved :: "(nat \<times> bytes) list \<Rightarrow> (nat \<times> bytes) list \<Rightarrow> bytes \<Rightarrow> bool" where
  \<comment> \<open>the before-images are those of the file, every other page to be written is already in it, and the
     format fields of the header page do not change\<close>
  "well_saved pend pages f \<longleftrightarrow> true_copies pend f \<and> images pend \<and> length pend < 2 ^ 32 \<and>
     pages_ok pages \<and> distinct (map fst pages) \<and>
     (\<forall>(p, x) \<in> set pages. p \<notin> fst ` set pend \<longrightarrow> x = page_img f p) \<and>
     (\<forall>x i. (1, x) \<in> set pages \<longrightarrow> 16 \<le> i \<longrightarrow> i < 19 \<longrightarrow> x ! i = byte_at f i)"

lemma format_kept:
  assumes crash: "crash_bytes (map page_write items) f g" and ok: "pages_ok items" and i: "16 \<le> i" "i < 19"
    and fmt: "\<And>x. (1, x) \<in> set items \<Longrightarrow> x ! i = byte_at f i"
  shows "byte_at g i = byte_at f i"
proof (rule crash_value [OF crash only_page_writes refl])
  fix off data assume w: "Pwrite off data \<in> set (map page_write items)" "off \<le> i" "i < off + length data"
  then obtain p where p: "(p, data) \<in> set items" "off = (p - 1) * PAGE_SIZE" "1 \<le> p"
    using ok by (auto simp: page_write_def pages_ok_def)
  have "(p - 1) * PAGE_SIZE < 19" using w(2) p(2) i(2) by simp
  then have "p = 1" using p(3) by (cases "p - 1") (auto simp: PAGE_SIZE_def)
  then show "data ! (i - off) = byte_at f i" using fmt p by simp
qed

lemma armed_overlay:
  assumes ws: "well_saved pend pages f" and crash: "crash_bytes (map page_write (take k pages)) f g" and q: "1 \<le> q"
  shows "overlay (map_of pend) g q = page_img f q"
proof (cases "map_of pend q")
  case (Some data)
  then show ?thesis using ws by (auto simp: overlay_def well_saved_def true_copies_def dest!: map_of_SomeD)
next
  case None
  then have "q \<notin> fst ` set pend" by (simp add: map_of_eq_None_iff)
  then have same: "data = page_img f q" if "(q, data) \<in> set (take k pages)" for data
    using ws in_set_takeD [OF that] by (auto simp: well_saved_def)
  have ok: "pages_ok (take k pages)" using ws pages_ok_take by (auto simp: well_saved_def)
  show ?thesis using crash_same_page [OF crash ok q same] None by (simp add: overlay_def)
qed

lemma armed_crash:
  \<comment> \<open>the journal is durable: whatever was written of the pages, the old ones come back\<close>
  assumes ws: "well_saved pend pages f" and side: "side_image (d_jrn d2) = Some (journal_file (be_bytes 4 (length pend)) pend)"
    and g: "crash_bytes (map page_write (take k pages)) f (db_content d2)" and st: "settled d2"
  shows "opens_as d2 (page_img f) f"
proof -
  have t: "images pend" "length pend < 2 ^ 32" "dict_pages pend" using ws by (simp_all add: well_saved_def true_copies_def)
  have recs: "jrn_recs (side_image (d_jrn d2)) = pend"
    using journal_file_recs [OF t(1), of "be_bytes 4 (length pend)"] t(2) by (simp add: side)
  have ok: "pages_ok (take k pages)" using ws pages_ok_take by (auto simp: well_saved_def)
  have "jrn_recovered d2 p = page_img f p" if "1 \<le> p" for p
    using armed_overlay [OF ws g that] by (simp add: jrn_recovered_def recs)
  moreover have "length f \<le> length (db_content d2)" by (rule crash_length [OF g only_page_writes])
  moreover have "byte_at (db_content d2) i = byte_at f i" if "16 \<le> i" "i < 19" for i
    by (rule format_kept [OF g ok that]) (use ws that in \<open>auto simp: well_saved_def dest: in_set_takeD\<close>)
  ultimately show ?thesis using st t(3) recs by (simp add: opens_as_def)
qed

definition new_content :: "(nat \<times> bytes) list \<Rightarrow> bytes \<Rightarrow> bytes" where
  "new_content pages f = fold apply_wr (map page_write pages) f"

lemma new_content_format:
  assumes "well_saved pend pages f"
  shows "length f \<le> length (new_content pages f)"
    and "16 \<le> i \<Longrightarrow> i < 19 \<Longrightarrow> byte_at (new_content pages f) i = byte_at f i"
proof -
  have c: "crash_bytes (map page_write pages) f (new_content pages f)" by (simp add: new_content_def crash_all)
  show "length f \<le> length (new_content pages f)" by (rule crash_length [OF c only_page_writes])
  show "byte_at (new_content pages f) i = byte_at f i" if "16 \<le> i" "i < 19"
    by (rule format_kept [OF c _ that]) (use assms that in \<open>auto simp: well_saved_def\<close>)
qed

lemma done_crash:
  assumes ws: "well_saved pend pages f" and d: "d_db d = settled_file (new_content pages f)"
    "d_jrn d = \<lparr>sc_cur = None, sc_stale = st\<rparr>" "st = [] \<or> st = [Some (armed_file pend)]" and crash: "crash_disk d d2"
  shows "opens_as d2 (page_img (new_content pages f)) f \<or> st \<noteq> [] \<and> opens_as d2 (page_img f) f"
proof -
  obtain g where g: "crash_file (d_db d) g" "db_content d2 = g" "crash_side (d_jrn d) (d_jrn d2)"
    using crash_disk_parts [OF crash] by metis
  have st2: "settled d2" by (rule crash_settled [OF crash])
  have g': "g = new_content pages f" using g(1) d(1) by (simp add: crash_synced)
  from g(3) show ?thesis
  proof (cases rule: crash_side_cases)
    case gone
    then have "opens_as d2 (page_img g) f"
      using new_content_format [OF ws] g(2) g' st2 by (simp add: opens_as_def jrn_recovered_def jrn_recs_def overlay_def dict_pages_def fun_eq_iff)
    then show ?thesis by (simp add: g')
  next
    case (held F x)
    then have "st \<noteq> []" "F = armed_file pend" using d(2,3) by auto
    then have "side_image (d_jrn d2) = Some (journal_file (be_bytes 4 (length pend)) pend)"
      using held by (simp add: armed_file_def crash_synced)
    moreover have "crash_bytes (map page_write (take (length pages) pages)) f (db_content d2)"
      using crash_all [of "map page_write pages" f] g(2) g' by (simp add: new_content_def)
    ultimately have "opens_as d2 (page_img f) f" by (rule armed_crash [OF ws _ _ st2])
    then show ?thesis using \<open>st \<noteq> []\<close> by simp
  qed
qed

lemma commit_trace_crash:
  \<comment> \<open>the entry of the journal is durable with its content: one of the two versions\<close>
  assumes b: "begun d f" and links: "d_links d" and ws: "well_saved pend pages f"
    and d': "d' \<in> set (trace (commit_steps pend pages) d)" and crash: "crash_disk d' d2"
  shows "opens_as d2 (page_img f) f \<or> opens_as d2 (page_img (new_content pages f)) f"
proof -
  have t: "true_copies pend f" "images pend" using ws by (simp_all add: well_saved_def)
  note ar = arm_run [OF b t]
  have db: "d_db d = settled_file f" using b by (auto simp: begun_def)
  let ?A = "d\<lparr>d_jrn := \<lparr>sc_cur = Some (armed_file pend), sc_stale = []\<rparr>\<rparr>"
  have st2: "settled d2" by (rule crash_settled [OF crash])
  obtain g where g: "crash_file (d_db d') g" "db_content d2 = g" "crash_side (d_jrn d') (d_jrn d2)"
    using crash_disk_parts [OF crash] by metis
  have cp: "after (copy_steps pages) ?A = ?A\<lparr>d_db := settled_file (new_content pages f)\<rparr>"
    by (simp add: copy_steps_def copy_run(1) db_sync_def db sync_file_def settled_file_def new_content_def content_def add_wrs_def)
  have armed: "opens_as d2 (page_img f) f"
    if "d_jrn d' = \<lparr>sc_cur = Some (armed_file pend), sc_stale = []\<rparr>" "crash_bytes (map page_write (take k pages)) f g" for k
  proof (rule armed_crash [OF ws _ _ st2])
    have "d_jrn d2 = d_jrn d'" using g(3) that(1) by (intro crash_side_settled) (auto simp: armed_file_def)
    then show "side_image (d_jrn d2) = Some (journal_file (be_bytes 4 (length pend)) pend)"
      using that(1) by (simp add: side_image_def armed_file_def)
  qed (use that(2) g(2) in simp)
  consider (arm) "d' \<in> set (trace (arm_steps pend) d)" | (copy) "d' \<in> set (trace (copy_steps pages) ?A)"
    | (fin) "d' \<in> set (trace end_steps (?A\<lparr>d_db := settled_file (new_content pages f)\<rparr>))"
    using d' by (auto simp: commit_steps_def trace_append ar(1) links cp)
  then show ?thesis
  proof cases
    case arm
    then have "d_db d' = settled_file f" "quiet_jrn (d_jrn d') f" using arm_run(2) [OF b t] by auto
    then show ?thesis using quiet_crash [OF _ _ crash] by (simp add: db_content_def)
  next
    case copy
    then consider k where "d' = ?A\<lparr>d_db := add_wrs (map page_write (take k pages)) (d_db ?A)\<rparr>"
      | "d' = db_sync (after (map db_write pages) ?A)"
      using copy_run(2) [of d' pages ?A] unfolding copy_steps_def trace_snoc by blast
    then show ?thesis
    proof cases
      case (1 k)
      then have "crash_bytes (map page_write (take k pages)) f g" using g(1) db by (simp add: crash_file_def)
      then show ?thesis using armed [of k] 1 by simp
    next
      case 2
      then have "g = new_content pages f" using g(1) db
        by (simp add: copy_run(1) db_sync_def crash_synced new_content_def)
      then have "crash_bytes (map page_write (take (length pages) pages)) f g" by (simp add: new_content_def crash_all)
      then show ?thesis using armed [of "length pages"] 2 by (simp add: copy_run(1) db_sync_def)
    qed
  next
    case fin
    let ?E = "?A\<lparr>d_db := settled_file (new_content pages f)\<rparr>"
    let ?U = "?E\<lparr>d_jrn := \<lparr>sc_cur = None, sc_stale = [Some (armed_file pend)]\<rparr>\<rparr>"
    have "jrn_unlink ?E = ?U" by (simp add: jrn_unlink_def upd_side_def)
    then consider "d' = ?E" | "d' = ?U" | "d' = dir_sync ?U" using fin by (auto simp: end_steps_def)
    then show ?thesis
    proof cases
      case 1
      then have "crash_bytes (map page_write (take (length pages) pages)) f g"
        using g(1) by (simp add: crash_synced new_content_def crash_all)
      then show ?thesis using armed [of "length pages"] 1 by simp
    next
      case 2
      then show ?thesis using done_crash [OF ws, of d' "[Some (armed_file pend)]" d2] crash by auto
    next
      case 3
      then show ?thesis using done_crash [OF ws, of d' "[]" d2] crash by (auto simp: dir_sync_def)
    qed
  qed
qed

lemma commit_after:
  assumes b: "begun d f" and ws: "well_saved pend pages f"
  shows "d_db (after (commit_steps pend pages) d) = settled_file (new_content pages f)"
    and "d_jrn (after (commit_steps pend pages) d) = \<lparr>sc_cur = None, sc_stale = []\<rparr>"
proof -
  have t: "true_copies pend f" "images pend" using ws by (simp_all add: well_saved_def)
  have db: "d_db d = settled_file f" using b by (auto simp: begun_def)
  show "d_db (after (commit_steps pend pages) d) = settled_file (new_content pages f)"
    "d_jrn (after (commit_steps pend pages) d) = \<lparr>sc_cur = None, sc_stale = []\<rparr>"
    by (simp_all add: commit_steps_def arm_run(1) [OF b t] copy_steps_def copy_run(1) end_steps_def db_sync_def dir_sync_def
        jrn_unlink_def upd_side_def db sync_file_def settled_file_def new_content_def content_def add_wrs_def)
qed

end
