(* ===== verification/PagerTxn.thy ===== *)
theory PagerTxn
  imports JournalAtomic
begin

text \<open>
  Transactions of the pager in journal mode, from \<open>begin_write\<close> to the next opening of the file:
  a commit is atomic and durable, a rollback restores the pages, and an interrupted recovery can be
  run again.
\<close>

section \<open>Between transactions\<close>

definition idle :: "disk \<Rightarrow> bool" where
  "idle d \<longleftrightarrow> f_pending (d_db d) = [] \<and> sc_cur (d_jrn d) = None \<and> quiet_jrn (d_jrn d) (db_content d)"

definition journal_format :: "disk \<Rightarrow> bool" where
  \<comment> \<open>a file in rollback-journal format\<close>
  "journal_format d \<longleftrightarrow> PAGE_SIZE \<le> length (db_content d) \<and>
     store_hdr (base_store d None False) HPageSize = PAGE_SIZE \<and>
     store_hdr (base_store d None False) HWriteVersion \<noteq> WAL_WRITE_VERSION"

definition between_txns :: "pager \<Rightarrow> bool" where
  "between_txns s \<longleftrightarrow> pager_at (p_disk s) None s \<and> p_journal s = None \<and> p_dirty s = {} \<and>
     idle (p_disk s) \<and> journal_format (p_disk s)"

lemma hdr_value: "hdr_page_ok st \<Longrightarrow> hdr_page_ok st' \<Longrightarrow> store_hdr st f = store_hdr st' f \<Longrightarrow>
    hdr_offset f \<le> i \<Longrightarrow> i < hdr_offset f + hdr_width f \<Longrightarrow> st_pages st 1 ! i = st_pages st' 1 ! i"
proof -
  assume ok: "hdr_page_ok st" "hdr_page_ok st'" and eq: "store_hdr st f = store_hdr st' f"
    and i: "hdr_offset f \<le> i" "i < hdr_offset f + hdr_width f"
  let ?sl = "\<lambda>st. pyslice (st_pages st 1) (hdr_offset f) (hdr_offset f + hdr_width f)"
  have l: "length (?sl st) = hdr_width f" "length (?sl st') = hdr_width f"
    using ok hdr_in_page [of f] by (simp_all add: hdr_page_ok_def PAGE_SIZE_def)
  have "?sl st = be_bytes (hdr_width f) (be_nat (?sl st))" using be_bytes_be_nat l(1) by metis
  also have "\<dots> = ?sl st'" using eq be_bytes_be_nat l(2) unfolding store_hdr_def by metis
  finally have "?sl st ! (i - hdr_offset f) = ?sl st' ! (i - hdr_offset f)" by simp
  then show ?thesis
    using i ok hdr_in_page [of f] by (simp add: pyslice_nth hdr_page_ok_def PAGE_SIZE_def)
qed

lemma base_hdr_ok: "hdr_page_ok (base_store d None jr)"
  by (simp add: hdr_page_ok_def base_page_def)

lemma base_byte: "i < PAGE_SIZE \<Longrightarrow> st_pages (base_store d None jr) 1 ! i = byte_at (db_content d) i"
  by (simp add: base_page_def page_img_nth)

lemma store_hdr_flags [simp]: "store_hdr (base_store d wo True) f = store_hdr (base_store d wo False) f"
  by (simp add: store_hdr_def)

lemma view_hdr_pages: "pager_page s = pager_page s' \<Longrightarrow> store_hdr (pager_view s) f = store_hdr (pager_view s') f"
  by (simp add: store_hdr_def)

lemma format_bytes:
  assumes at: "pager_at d None s" and i: "16 \<le> i" "i < 19"
  shows "pager_page s 1 ! i = byte_at (db_content d) i"
proof -
  have ok: "pager_ok d None s" using at by (simp add: pager_at_def)
  have off: "hdr_offset HPageSize = 16 \<and> hdr_width HPageSize = 2" "hdr_offset HWriteVersion = 18 \<and> hdr_width HWriteVersion = 1"
    by simp_all
  have eq: "store_hdr (pager_view s) f = store_hdr (base_store d None False) f" if "f \<in> {HPageSize, HWriteVersion}" for f
    using at that by (auto simp: pager_at_def format_fields_def)
  consider "i < 18" | "i = 18" using i by linarith
  then have "st_pages (pager_view s) 1 ! i = st_pages (base_store d None False) 1 ! i"
  proof cases
    case 1
    then show ?thesis
      using hdr_value [OF view_hdr_ok [OF ok] base_hdr_ok eq, of HPageSize i] off(1) i by simp
  next
    case 2
    then show ?thesis
      using hdr_value [OF view_hdr_ok [OF ok] base_hdr_ok eq, of HWriteVersion i] off(2) by simp
  qed
  then show ?thesis using base_byte [of i d False] i by (simp add: PAGE_SIZE_def)
qed

section \<open>Begin\<close>

lemma journal_ok_parts:
  assumes "pager_ok d None s"
  shows "1 \<le> store_hdr (base_store d None False) HDbSize"
    and "store_hdr (base_store d None False) HDbSize \<le> store_hdr (pager_view s) HDbSize"
    and "n > store_hdr (base_store d None False) HDbSize \<Longrightarrow> page_img (db_content d) n = replicate PAGE_SIZE 0"
    and "1 \<le> n \<Longrightarrow> n \<notin> p_dirty s \<Longrightarrow> map_of (p_cache s) n = Some data \<Longrightarrow> data = page_img (db_content d) n"
    and "p_journal s = Some j \<Longrightarrow> images_ok d j"
    and "p_journal s = Some j \<Longrightarrow> n \<in> p_dirty s \<Longrightarrow> n \<notin> j_journaled j \<Longrightarrow> pager_page s n = page_img (db_content d) n"
  using pager_ok_basics(1,8) [OF assms] by (auto simp: journal_mode_ok_def Let_def)

lemma base_store_db: "db_content d' = db_content d \<Longrightarrow> base_store d' None jr = base_store d None jr"
  by (simp add: base_store_def base_page_def fun_eq_iff)

lemma begin_run:
  assumes s0: "between_txns s0" and run: "begin_write s0 = (Inr (), s1)"
  shows "begun (p_disk s1) (db_content (p_disk s0))" and "pager_at (p_disk s1) None s1"
    and "pager_page s1 = pager_page s0" and "db_content (p_disk s1) = db_content (p_disk s0)"
    and "p_journal s1 \<noteq> None" and "d_budget (p_disk s0) = None \<Longrightarrow> d_budget (p_disk s1) = None"
    and "d_links (p_disk s1) = d_links (p_disk s0)"
proof -
  let ?d = "p_disk s0"
  have at: "pager_at ?d None s0" and none: "p_journal s0 = None" "p_dirty s0 = {}" and id: "idle ?d"
    using s0 by (simp_all add: between_txns_def)
  have ok: "pager_ok ?d None s0" using at by (simp add: pager_at_def)
  note b = pager_ok_basics [OF ok]
  define sp where "sp = (if 1 < card (p_pinned s0) then s0\<lparr>p_pinned := {1}\<rparr> else s0)"
  have sp: "p_disk sp = ?d" "\<not> p_wal_mode sp" "p_journal sp = None" using b(3) none(1) by (simp_all add: sp_def)
  have r: "bindS (with_disk (side_create_trunc Jrn)) (\<lambda>_. journal_init) sp = (Inr (), s1)"
    using run b(3,4) none(1) by (auto simp: begin_write_def check_open_def bindS_def sp_def split: if_splits)
  obtain d1 where d1: "side_create_trunc Jrn ?d = (Inr (), d1)" "journal_init (sp\<lparr>p_disk := d1\<rparr>) = (Inr (), s1)"
    using r sp(1) by (auto simp: bindS_def with_disk_def split: prod.splits sum.splits)
  obtain d2 where d2: "side_write Jrn (Pwrite 0 journal_header) d1 = (Inr (), d2)"
    and s1: "s1 = (sp\<lparr>p_disk := d1\<rparr>)\<lparr>p_disk := d2, p_journal := Some \<lparr>j_journaled = {}, j_pending = [], j_count = 0\<rparr>\<rparr>"
    using d1(2) by (auto simp: journal_init_def bindS_def with_disk_def journal_header_def split: prod.splits sum.splits)
  have cur: "sc_cur (d_jrn ?d) = None" and q: "quiet_jrn (d_jrn ?d) (db_content ?d)" and pend: "f_pending (d_db ?d) = []"
    using id by (simp_all add: idle_def)
  obtain b1 where e1: "d1 = ?d\<lparr>d_budget := b1, d_jrn := \<lparr>sc_cur = Some (settled_file []), sc_stale = None # sc_stale (d_jrn ?d)\<rparr>\<rparr>"
    "d_budget ?d = None \<Longrightarrow> b1 = None"
    using d1(1) cur unfolding side_create_trunc_def
    by (cases rule: io_call_cases [of "upd_side Jrn (\<lambda>sc. case sc_cur sc of None \<Rightarrow> \<lparr>sc_cur = Some (settled_file []), sc_stale = None # sc_stale sc\<rparr>
       | Some f \<Rightarrow> sc\<lparr>sc_cur := Some (add_wr (Ftruncate 0) f)\<rparr>)" ?d]) (auto simp: upd_side_def)
  obtain b2 where e2: "d2 = d1\<lparr>d_budget := b2, d_jrn := \<lparr>sc_cur = Some \<lparr>f_synced = [], f_pending = [Pwrite 0 journal_header]\<rparr>, sc_stale = None # sc_stale (d_jrn ?d)\<rparr>\<rparr>"
    "d_budget d1 = None \<Longrightarrow> b2 = None"
    using d2 e1(1) unfolding side_write_def
    by (cases rule: io_call_cases [of "upd_side Jrn (\<lambda>sc. sc\<lparr>sc_cur := map_option (add_wr (Pwrite 0 journal_header)) (sc_cur sc)\<rparr>)" d1])
      (auto simp: upd_side_def add_wr_def settled_file_def)
  have disk: "p_disk s1 = d2" by (simp add: s1)
  have db: "d_db d2 = d_db ?d" by (simp add: e2(1) e1(1))
  then show content: "db_content (p_disk s1) = db_content ?d" by (simp add: disk db_content_def)
  have "\<lparr>sc_cur = None, sc_stale = sc_stale (d_jrn ?d)\<rparr> = d_jrn ?d" using cur by simp
  then show "begun (p_disk s1) (db_content ?d)"
    using q pend db by (auto simp: begun_def disk e2(1) settled_file_id db_content_def intro!: exI [of _ "sc_stale (d_jrn ?d)"])
  have fields: "p_cache s1 = p_cache s0" "p_dirty s1 = {}" "p_wal s1 = None" "p_wal_mode s1 = p_wal_mode s0" "p_closed s1 = p_closed s0"
    "p_page_size s1 = p_page_size s0" "p_mmap s1 = p_mmap s0" "p_journal s1 = Some \<lparr>j_journaled = {}, j_pending = [], j_count = 0\<rparr>"
    "1 \<in> p_pinned s1"
    using b(2,6) none(2) by (simp_all add: s1 sp_def cache_ok_def)
  show pages: "pager_page s1 = pager_page s0"
    using content b(2) fields(1-3) none(2) by (auto simp: pager_page_def base_page_def disk fun_eq_iff split: option.split)
  have hdr: "store_hdr (pager_view s1) f = store_hdr (pager_view s0) f" for f using pages by (rule view_hdr_pages)
  have "journal_mode_ok s1"
    using b(8) content none fields(1,2,8) hdr base_store_db [OF content]
    by (simp add: journal_mode_ok_def Let_def images_ok_def)
  moreover have "cache_ok s1" using b(6) fields(1,2,9) by (simp add: cache_ok_def)
  ultimately have "pager_ok (p_disk s1) None s1"
    using b(2-5,7) fields content by (simp add: pager_ok_def)
  then show "pager_at (p_disk s1) None s1"
    using at fields(2) hdr base_store_db [OF content] by (simp add: pager_at_def)
  show "p_journal s1 \<noteq> None" by (simp add: s1)
  show "d_budget (p_disk s1) = None" if "d_budget ?d = None"
    using e1 e2 that by (simp add: disk)
  show "d_links (p_disk s1) = d_links ?d" by (simp add: disk e2(1) e1(1))
qed

section \<open>Commit\<close>

lemma txn_saved:
  assumes at: "pager_at d None s" and j: "p_journal s = Some j" and order: "transaction_order s order"
  shows "well_saved (j_pending j) (dirty_items s order) (db_content d)"
proof -
  have ok: "pager_ok d None s" using at by (simp add: pager_at_def)
  note b = pager_ok_basics [OF ok] and parts = journal_ok_parts [OF ok]
  have im: "images_ok d j" using j by (rule parts(5))
  note imgs = images_of_ok [OF im]
  have nz: "n \<noteq> 0" if "n \<in> p_dirty s" for n using that b(6) unfolding cache_ok_def by metis
  have "true_copies (j_pending j) (db_content d)"
    using im imgs by (fastforce simp: true_copies_def dict_pages_def images_ok_def images_def pages_ok_def)
  moreover have "pages_ok (dirty_items s order)"
    using order nz pager_page_length [OF ok] by (fastforce simp: pages_ok_def dirty_items_def transaction_order_def)
  moreover have "map fst (dirty_items s order) = order" by (simp add: dirty_items_def comp_def)
  moreover have "x = page_img (db_content d) p" if "(p, x) \<in> set (dirty_items s order)" "p \<notin> fst ` set (j_pending j)" for p x
    using that order parts(6) [OF j, of p] im by (auto simp: dirty_items_def transaction_order_def images_ok_def)
  moreover have "x ! i = byte_at (db_content d) i" if "(1, x) \<in> set (dirty_items s order)" "16 \<le> i" "i < 19" for x i
    using that format_bytes [OF at] by (auto simp: dirty_items_def)
  ultimately show ?thesis
    using imgs distinct_images_length [OF imgs] im order by (auto simp: well_saved_def images_ok_def transaction_order_def)
qed

lemma committed_pages:
  assumes at: "pager_at d None s" and j: "p_journal s = Some j" and order: "transaction_order s order" and p: "1 \<le> p"
  shows "page_img (new_content (dirty_items s order) (db_content d)) p = pager_page s p"
proof -
  have ok: "pager_ok d None s" using at by (simp add: pager_at_def)
  have ws: "well_saved (j_pending j) (dirty_items s order) (db_content d)" by (rule txn_saved [OF at j order])
  have "page_img (new_content (dirty_items s order) (db_content d)) p =
      (case map_of (dirty_items s order) p of Some data \<Rightarrow> data | None \<Rightarrow> page_img (db_content d) p)"
    unfolding new_content_def using ws p by (intro page_writes_img) (auto simp: well_saved_def)
  also have "map_of (dirty_items s order) p = (if p \<in> p_dirty s then Some (pager_page s p) else None)"
    using order by (auto simp: dirty_items_def transaction_order_def map_of_map_restrict)
  also have "(case if p \<in> p_dirty s then Some (pager_page s p) else None of Some data \<Rightarrow> data | None \<Rightarrow> page_img (db_content d) p)
      = pager_page s p"
    using clean_page_base [OF ok, of p] p by (simp add: base_page_def)
  finally show ?thesis .
qed

lemma base_pages_eq:
  assumes "\<And>p. 1 \<le> p \<Longrightarrow> page_img (db_content d) p = pager_page s p"
  shows "st_pages (base_store d None jr) = pager_page s"
  using assms by (auto simp: fun_eq_iff base_page_def pager_page_def)

lemma clean_pager_at:
  \<comment> \<open>a pager whose cache only holds pages of a sound file\<close>
  assumes size': "1 \<le> store_hdr (base_store d None False) HDbSize"
    and zero: "\<And>n. store_hdr (base_store d None False) HDbSize < n \<Longrightarrow> page_img (db_content d) n = replicate PAGE_SIZE 0"
    and cache: "\<And>n data. map_of (p_cache s) n = Some data \<Longrightarrow> length data = PAGE_SIZE \<and> (1 \<le> n \<longrightarrow> data = page_img (db_content d) n)"
    and s: "p_disk s = d" "p_wal s = None" "\<not> p_wal_mode s" "\<not> p_closed s" "p_page_size s = PAGE_SIZE" "1 \<in> p_pinned s"
      "p_dirty s = {}" "p_journal s = None" "\<And>len. p_mmap s = Some len \<Longrightarrow> len \<le> length (db_content d)"
  shows "pager_at d None s" and "\<And>p. 1 \<le> p \<Longrightarrow> pager_page s p = page_img (db_content d) p"
proof -
  show pages: "pager_page s p = page_img (db_content d) p" if "1 \<le> p" for p
    using that s(1,2) cache [of p] by (auto simp: pager_page_def base_page_def split: option.split)
  have eq: "store_hdr (pager_view s) f = store_hdr (base_store d None False) f" for f
    using pages [of 1] by (simp add: store_hdr_def base_page_def)
  have "cache_ok s" using s cache by (auto simp: cache_ok_def)
  moreover have "journal_mode_ok s" using s size' zero cache eq by (auto simp: journal_mode_ok_def Let_def)
  ultimately show "pager_at d None s" using s eq by (simp add: pager_at_def pager_ok_def)
qed

lemma commit_done:
  assumes at: "pager_at d None s" and j: "p_journal s = Some j" and order: "transaction_order s order"
    and b: "begun d (db_content d)" and fmt: "journal_format d"
    and c: "committed s (after (commit_steps (j_pending j) (dirty_items s order)) d) s'"
  shows "between_txns s'" and "pager_page s' = pager_page s"
proof -
  have ok: "pager_ok d None s" using at by (simp add: pager_at_def)
  note bb = pager_ok_basics [OF ok] and parts = journal_ok_parts [OF ok]
  let ?f = "new_content (dirty_items s order) (db_content d)"
  let ?d' = "p_disk s'"
  have ws: "well_saved (j_pending j) (dirty_items s order) (db_content d)" by (rule txn_saved [OF at j order])
  note fin = commit_after [OF b ws]
  have db: "d_db ?d' = settled_file ?f" "d_jrn ?d' = \<lparr>sc_cur = None, sc_stale = []\<rparr>"
    using c fin by (auto simp: committed_def)
  have f: "db_content ?d' = ?f" using db(1) by (simp add: db_content_def)
  have pages: "page_img (db_content ?d') p = pager_page s p" if "1 \<le> p" for p
    using committed_pages [OF at j order that] f by simp
  have eq: "store_hdr (base_store ?d' None False) f = store_hdr (pager_view s) f" for f
    using pages [of 1] by (simp add: store_hdr_def base_page_def)
  have "page_img (db_content ?d') n = replicate PAGE_SIZE 0" if "store_hdr (base_store ?d' None False) HDbSize < n" for n
  proof -
    have n: "store_hdr (pager_view s) HDbSize < n" "1 \<le> n" using that eq by simp_all
    then have "n \<notin> p_dirty s" using at by (auto simp: pager_at_def)
    then have "pager_page s n = page_img (db_content d) n"
      using clean_page_base [OF ok, of n] n by (simp add: base_page_def)
    moreover have "store_hdr (base_store d None False) HDbSize < n" using n parts(2) by linarith
    ultimately show ?thesis using parts(3) pages [OF n(2)] by simp
  qed
  moreover have "length data = PAGE_SIZE \<and> (1 \<le> n \<longrightarrow> data = page_img (db_content ?d') n)"
    if "map_of (p_cache s') n = Some data" for n data
  proof -
    have m: "map_of (p_cache s) n = Some data" using c that by (simp add: committed_def)
    moreover have "data = pager_page s n" if "1 \<le> n"
      using that m bb(2) by (simp add: pager_page_def)
    ultimately show ?thesis using bb(6) pages by (auto simp: cache_ok_def)
  qed
  moreover have "len \<le> length (db_content ?d')" if "p_mmap s' = Some len" for len
  proof -
    have "p_mmap s = Some len \<or> len = length (db_content ?d')" using c that by (auto simp: committed_def db_content_def)
    then show ?thesis using bb(7) [of len] new_content_format(1) [OF ws] f by auto
  qed
  moreover have "1 \<le> store_hdr (base_store ?d' None False) HDbSize" using parts(1,2) eq by simp
  moreover have "p_wal s' = None" "\<not> p_wal_mode s'" "\<not> p_closed s'" "p_page_size s' = PAGE_SIZE" "1 \<in> p_pinned s'"
    "p_dirty s' = {}" "p_journal s' = None"
    using c bb(2-6) by (simp_all add: committed_def cache_ok_def)
  ultimately have at': "pager_at ?d' None s'" and pg: "\<And>p. 1 \<le> p \<Longrightarrow> pager_page s' p = page_img (db_content ?d') p"
    using clean_pager_at [of ?d' s'] by auto
  show "pager_page s' = pager_page s"
  proof
    fix p show "pager_page s' p = pager_page s p"
      using pg [of p] pages [of p] by (cases "p = 0") (simp_all add: pager_page_def)
  qed
  have "idle ?d'" using db by (simp add: idle_def quiet_jrn_iff)
  moreover have "journal_format ?d'"
    using fmt eq at f new_content_format(1) [OF ws] by (auto simp: journal_format_def pager_at_def format_fields_def)
  ultimately show "between_txns s'"
    using at' c by (simp add: between_txns_def committed_def)
qed

section \<open>Opening\<close>

lemma pyslice_take: "j \<le> n \<Longrightarrow> pyslice (take n xs) i j = pyslice xs i j"
  by (simp add: pyslice_def drop_take)

lemma hdr_of_file:
  assumes "PAGE_SIZE \<le> length (db_content d)"
  shows "store_hdr (base_store d None jr) f = be_nat (pyslice (db_content d) (hdr_offset f) (hdr_offset f + hdr_width f))"
proof -
  have "page_img (db_content d) 1 = take PAGE_SIZE (db_content d)"
    using assms by (intro nth_equalityI) (auto simp: page_img_nth byte_at_def)
  moreover have "hdr_offset f + hdr_width f \<le> PAGE_SIZE" using hdr_in_page [of f] by (simp add: PAGE_SIZE_def)
  ultimately show ?thesis by (simp add: store_hdr_def base_page_def pyslice_take)
qed

lemma format_opens:
  assumes fmt: "journal_format d0" and g: "length (db_content d0) \<le> length g"
    "\<And>i. 16 \<le> i \<Longrightarrow> i < 19 \<Longrightarrow> byte_at g i = byte_at (db_content d0) i"
  shows "peek_page_size PAGE_SIZE g = PAGE_SIZE" and "pread g 1 (hdr_offset HWriteVersion) \<noteq> [of_nat WAL_WRITE_VERSION]"
    and "length g \<noteq> 0"
proof -
  let ?f = "db_content d0"
  have len: "PAGE_SIZE \<le> length ?f" "PAGE_SIZE \<le> length g" using fmt g(1) by (simp_all add: journal_format_def)
  have sl: "pyslice g i j = pyslice ?f i j" if "16 \<le> i" "j \<le> 19" for i j
    using that len g(2) by (intro nth_equalityI) (auto simp: pyslice_def byte_at_def PAGE_SIZE_def)
  have "be_nat (pyslice ?f 16 18) = PAGE_SIZE"
    using fmt hdr_of_file [OF len(1), of False HPageSize] by (simp add: journal_format_def)
  then show "peek_page_size PAGE_SIZE g = PAGE_SIZE"
    using len(2) sl [of 16 18] by (simp add: peek_page_size_def Let_def pread_def pyslice_take PAGE_SIZE_def)
  have "be_nat (pyslice ?f 18 19) \<noteq> WAL_WRITE_VERSION"
    using fmt hdr_of_file [OF len(1), of False HWriteVersion] by (simp add: journal_format_def)
  moreover have "pread g 1 18 = pyslice g 18 19" by (simp add: pread_def pyslice_def)
  moreover have "be_nat [of_nat WAL_WRITE_VERSION] = WAL_WRITE_VERSION" by (simp add: WAL_WRITE_VERSION_def)
  ultimately show "pread g 1 (hdr_offset HWriteVersion) \<noteq> [of_nat WAL_WRITE_VERSION]"
    using sl [of 18 19] by (metis hdr_offset.simps(2) order_refl numeral_le_iff semiring_norm(68) semiring_norm(71) semiring_norm(72))
  show "length g \<noteq> 0" using len by (auto simp: PAGE_SIZE_def)
qed

lemma refresh_fields [simp]:
  "p_page_size (refresh_mmap s) = p_page_size s" "p_cache (refresh_mmap s) = p_cache s" "p_dirty (refresh_mmap s) = p_dirty s"
  "p_pinned (refresh_mmap s) = p_pinned s" "p_closed (refresh_mmap s) = p_closed s" "p_journal (refresh_mmap s) = p_journal s"
  "p_wal_mode (refresh_mmap s) = p_wal_mode s" "p_wal (refresh_mmap s) = p_wal s" "p_disk (refresh_mmap s) = p_disk s"
  "p_use_mmap (refresh_mmap s) = p_use_mmap s"
  by (simp_all add: refresh_mmap_def Let_def)

lemma refresh_mmap_len: "p_mmap s = None \<Longrightarrow> p_mmap (refresh_mmap s) = Some len \<Longrightarrow> len = length (db_content (p_disk s))"
  by (auto simp: refresh_mmap_def Let_def split: if_splits)

definition sound_pages :: "(nat \<Rightarrow> bytes) \<Rightarrow> bool" where
  \<comment> \<open>the header knows the size, and there is nothing beyond it\<close>
  "sound_pages pg \<longleftrightarrow>
     (let n = be_nat (pyslice (pg 1) (hdr_offset HDbSize) (hdr_offset HDbSize + hdr_width HDbSize))
      in 1 \<le> n \<and> (\<forall>p > n. pg p = replicate PAGE_SIZE 0))"

lemma replayed_idle:
  assumes st: "settled d" and c: "recs = jrn_recs (side_image (d_jrn d))" "dict_pages recs" and r: "replayed recs d d'"
  shows "idle d'"
proof -
  have pend: "f_pending (d_db d') = []" using r st by (auto simp: replayed_def settled_def)
  have stale: "sc_stale (d_jrn d) = []" using st by (simp add: settled_def)
  show ?thesis
  proof (cases "sc_cur (d_jrn d)")
    case None
    then show ?thesis using r stale pend by (simp add: idle_def replayed_def quiet_jrn_iff)
  next
    case (Some F)
    then have F: "f_pending F = []" using st by (simp add: settled_def)
    have "page_img (db_content d') p = data" if "(p, data) \<in> set recs" for p data
    proof -
      have "1 \<le> p" "map_of recs p = Some data" using that c(2) by (auto simp: dict_pages_def pages_ok_def)
      then show ?thesis using replayed_pages [OF r c] by (simp add: jrn_recovered_def overlay_def flip: c(1))
    qed
    then have "true_copies recs (db_content d')" using c(2) by (auto simp: true_copies_def)
    then have "safe_file F (db_content d')" using F c(1) Some by (simp add: safe_file_def crash_synced side_image_def)
    then show ?thesis using r stale pend Some by (simp add: idle_def replayed_def quiet_jrn_iff)
  qed
qed

lemma open_run:
  assumes o: "opens_as d pg (db_content d0)" and fmt: "journal_format d0" and free: "d_budget d = None"
    and sound: "sound_pages pg" and same: "\<And>i. 16 \<le> i \<Longrightarrow> i < 19 \<Longrightarrow> pg 1 ! i = byte_at (db_content d0) i"
  obtains s where "pager_open PAGE_SIZE um mc True d = (Inr (), s)" "between_txns s" "\<And>p. 1 \<le> p \<Longrightarrow> pager_page s p = pg p"
proof -
  let ?recs = "jrn_recs (side_image (d_jrn d))"
  have st: "settled d" and recs: "dict_pages ?recs" and pages: "\<And>p. 1 \<le> p \<Longrightarrow> jrn_recovered d p = pg p"
    and len: "length (db_content d0) \<le> length (db_content d)"
    and bytes: "\<And>i. 16 \<le> i \<Longrightarrow> i < 19 \<Longrightarrow> byte_at (db_content d) i = byte_at (db_content d0) i"
    using o by (simp_all add: opens_as_def)
  note f = format_opens [OF fmt len bytes]
  have "\<exists>d'. recover_if_needed PAGE_SIZE True d = (Inr (), d') \<and> replayed ?recs d d'"
  proof (rule recover_jrn_run [OF f(2) refl recs])
    fix r d' assume "recover_if_needed PAGE_SIZE True d = (r, d')"
      "r = Inr () \<and> replayed ?recs d d' \<or> r = Inl OSError \<and> replaying ?recs d d'"
      "d_budget d = None \<Longrightarrow> r = Inr () \<and> d_budget d' = None"
    then show ?thesis using free by auto
  qed
  then obtain d' where rec: "recover_if_needed PAGE_SIZE True d = (Inr (), d')" "replayed ?recs d d'" by blast
  have pg': "page_img (db_content d') p = pg p" if "1 \<le> p" for p
    using replayed_pages [OF rec(2) refl recs that] pages [OF that] by simp
  have hdr: "store_hdr (base_store d' None False) HDbSize =
      be_nat (pyslice (pg 1) (hdr_offset HDbSize) (hdr_offset HDbSize + hdr_width HDbSize))"
    using pg' [of 1] by (simp add: store_hdr_def base_page_def)
  have len': "length (db_content d) \<le> length (db_content d')"
    using rec(2) crash_length [OF crash_all only_page_writes] by (auto simp: replayed_def db_content_def)
  let ?s0 = "(pager_init PAGE_SIZE um mc d)\<lparr>p_disk := d'\<rparr>"
  let ?s1 = "refresh_mmap ?s0"
  have at1: "pager_at d' None ?s1"
  proof (rule clean_pager_at(1))
    show "1 \<le> store_hdr (base_store d' None False) HDbSize"
      and "\<And>n. store_hdr (base_store d' None False) HDbSize < n \<Longrightarrow> page_img (db_content d') n = replicate PAGE_SIZE 0"
      using sound pg' by (auto simp: hdr sound_pages_def Let_def)
    show "\<And>len. p_mmap ?s1 = Some len \<Longrightarrow> len \<le> length (db_content d')"
      using refresh_mmap_len [of ?s0] by (auto simp: pager_init_def)
  qed (simp_all add: pager_init_def)
  have ok1: "pager_ok d' None ?s1" using at1 by (simp add: pager_at_def)
  have "1 \<notin> p_dirty ?s1" by (simp add: pager_init_def)
  from load_run [OF ok1 this one_neq_zero] obtain s where
    s: "load_page_from_disk 1 ?s1 = (Inr (base_page d' None 1), s)" "same d' None ?s1 s" by blast
  have at: "pager_at d' None s" by (rule same_at [OF at1 s(2)])
  have v: "pager_view s = pager_view ?s1" "p_dirty s = {}" using s(2) by (simp_all add: same_def pager_init_def)
  have jr: "p_journal s = None" using arg_cong [OF v(1), of st_journal] by (simp add: pager_init_def)
  have ok: "pager_ok d' None s" using at by (simp add: pager_at_def)
  have disk: "p_disk s = d'" using pager_ok_basics(1) [OF ok] .
  have page: "pager_page s p = pg p" if "1 \<le> p" for p
    using clean_page_base [OF ok, of p] v(2) that pg' [OF that] by (simp add: base_page_def)
  have run_open: "pager_open PAGE_SIZE um mc True d = (Inr (), s)"
    using f rec(1) s(1)
    by (simp add: pager_open_def bindS_def pager_init_def with_disk_def)
  have "store_hdr (base_store d' None False) f = store_hdr (base_store d0 None False) f" if "f \<in> {HPageSize, HWriteVersion}" for f
  proof -
    have "pyslice (db_content d') (hdr_offset f) (hdr_offset f + hdr_width f) = pyslice (db_content d0) (hdr_offset f) (hdr_offset f + hdr_width f)"
    proof (rule nth_equalityI)
      have l: "PAGE_SIZE \<le> length (db_content d0)" "PAGE_SIZE \<le> length (db_content d')"
        using fmt len len' by (simp_all add: journal_format_def)
      show "length (pyslice (db_content d') (hdr_offset f) (hdr_offset f + hdr_width f)) =
          length (pyslice (db_content d0) (hdr_offset f) (hdr_offset f + hdr_width f))"
        using l hdr_in_page [of f] by (simp add: PAGE_SIZE_def)
      fix i assume i: "i < length (pyslice (db_content d') (hdr_offset f) (hdr_offset f + hdr_width f))"
      let ?k = "hdr_offset f + i"
      have k: "16 \<le> ?k" "?k < 19" using i \<open>f \<in> {HPageSize, HWriteVersion}\<close> by auto
      have "byte_at (db_content d') ?k = pg 1 ! ?k"
        using pg' [of 1] page_img_nth [of ?k "db_content d'" 1] k by (simp add: PAGE_SIZE_def)
      then have "byte_at (db_content d') ?k = byte_at (db_content d0) ?k" using same [OF k] by simp
      then show "pyslice (db_content d') (hdr_offset f) (hdr_offset f + hdr_width f) ! i =
          pyslice (db_content d0) (hdr_offset f) (hdr_offset f + hdr_width f) ! i"
        using i l k by (simp add: pyslice_def byte_at_def PAGE_SIZE_def)
    qed
    moreover have "PAGE_SIZE \<le> length (db_content d0)" "PAGE_SIZE \<le> length (db_content d')"
      using fmt len len' by (simp_all add: journal_format_def)
    ultimately show ?thesis using hdr_of_file by metis
  qed
  then have "journal_format d'" using fmt len len' by (auto simp: journal_format_def)
  then have "between_txns s"
    using at jr v(2) replayed_idle [OF st refl recs rec(2)] by (simp add: between_txns_def disk)
  then show thesis using run_open page that by blast
qed

section \<open>Atomicity\<close>

lemma sound_view:
  assumes at: "pager_at d None s"
  shows "sound_pages (pager_page s)"
proof -
  have ok: "pager_ok d None s" using at by (simp add: pager_at_def)
  note parts = journal_ok_parts [OF ok]
  have size': "be_nat (pyslice (pager_page s 1) (hdr_offset HDbSize) (hdr_offset HDbSize + hdr_width HDbSize)) = store_hdr (pager_view s) HDbSize"
    by (simp only: store_hdr_def pager_view_simps)
  have "pager_page s p = replicate PAGE_SIZE 0" if p: "store_hdr (pager_view s) HDbSize < p" for p
  proof -
    have "p \<notin> p_dirty s" "p \<noteq> 0" using at p by (auto simp: pager_at_def)
    then have "pager_page s p = page_img (db_content d) p" using clean_page_base [OF ok, of p] by (simp add: base_page_def)
    moreover have "store_hdr (base_store d None False) HDbSize < p" using parts(2) p by linarith
    ultimately show ?thesis using parts(3) by simp
  qed
  then show ?thesis unfolding sound_pages_def Let_def size' using parts(1,2) by auto
qed

lemma pages_ext: "(\<And>p. 1 \<le> p \<Longrightarrow> pager_page s p = pager_page s' p) \<Longrightarrow> pager_page s = pager_page s'"
proof
  fix p assume "\<And>p. 1 \<le> p \<Longrightarrow> pager_page s p = pager_page s' p"
  then show "pager_page s p = pager_page s' p" by (cases "p = 0") (simp_all add: pager_page_def)
qed

lemma opens_again:
  \<comment> \<open>a disk that recovers to the pages of a pager opens as a pager with those pages\<close>
  assumes o: "opens_as d pg (db_content d0)" and fmt: "journal_format d0" and free: "d_budget d = None"
    and at: "pager_at d0 None s" and pg: "\<And>p. 1 \<le> p \<Longrightarrow> pg p = pager_page s p"
  obtains s2 where "pager_open PAGE_SIZE um mc True d = (Inr (), s2)" "between_txns s2" "pager_page s2 = pager_page s"
proof -
  have "sound_pages pg" using sound_view [OF at] pg by (simp add: sound_pages_def Let_def)
  moreover have "pg 1 ! i = byte_at (db_content d0) i" if "16 \<le> i" "i < 19" for i
    using format_bytes [OF at that] pg by simp
  ultimately obtain s2 where s2: "pager_open PAGE_SIZE um mc True d = (Inr (), s2)" "between_txns s2"
    "\<And>p. 1 \<le> p \<Longrightarrow> pager_page s2 p = pg p"
    using open_run [OF o fmt free] by blast
  then have "pager_page s2 = pager_page s" by (intro pages_ext) (simp add: pg)
  then show thesis using s2(1,2) by (intro that)
qed

lemma crash_between:
  \<comment> \<open>a crash between transactions loses nothing\<close>
  assumes s: "between_txns s" and crash: "crash_disk (p_disk s) d"
  obtains s2 where "pager_open PAGE_SIZE um mc True d = (Inr (), s2)" "between_txns s2" "pager_page s2 = pager_page s"
proof -
  let ?d = "p_disk s"
  have at: "pager_at ?d None s" and id: "idle ?d" and fmt: "journal_format ?d" and clean: "p_dirty s = {}"
    using s by (simp_all add: between_txns_def)
  have ok: "pager_ok ?d None s" using at by (simp add: pager_at_def)
  have o: "opens_as d (page_img (db_content ?d)) (db_content ?d)"
    by (rule quiet_crash [OF _ _ crash]) (use id in \<open>simp_all add: idle_def\<close>)
  have "page_img (db_content ?d) p = pager_page s p" if "1 \<le> p" for p
    using clean_page_base [OF ok, of p] clean that by (simp add: base_page_def)
  moreover have "d_budget d = None" using crash by (simp add: crash_disk_def)
  ultimately show thesis using opens_again [OF o fmt _ at] that by blast
qed

lemma begun_format:
  assumes "between_txns s0" and "begin_write s0 = (Inr (), s1)"
  shows "journal_format (p_disk s1)" and "begun (p_disk s1) (db_content (p_disk s1))"
proof -
  note b = begin_run [OF assms]
  show "journal_format (p_disk s1)"
    using assms(1) by (simp add: between_txns_def journal_format_def base_store_db [OF b(4)] b(4))
  show "begun (p_disk s1) (db_content (p_disk s1))" using b(1,4) by simp
qed

lemma journal_commit_cases:
  assumes s0: "between_txns s0" and b: "begin_write s0 = (Inr (), s1)"
    and at: "pager_at (p_disk s1) None s" and jr: "p_journal s \<noteq> None" and order: "transaction_order s order"
    and run: "pager_commit salt order s = (r, s')" and crash: "crash_disk (p_disk s') d"
  shows "d_links (p_disk s0) \<Longrightarrow> \<exists>s2. pager_open PAGE_SIZE um mc True d = (Inr (), s2) \<and> between_txns s2 \<and>
      (pager_page s2 = pager_page s0 \<or> pager_page s2 = pager_page s)"
    and "r = Inr () \<Longrightarrow> between_txns s' \<and> pager_page s' = pager_page s"
    and "d_budget (p_disk s0) = None \<Longrightarrow> r = Inr () \<and> d_budget (p_disk s') = None"
proof -
  let ?d = "p_disk s1" and ?f = "db_content (p_disk s1)"
  note br = begin_run [OF s0 b] and bf = begun_format [OF s0 b]
  obtain j where j: "p_journal s = Some j" using jr by blast
  have ok: "pager_ok ?d None s" using at by (simp add: pager_at_def)
  note bb = pager_ok_basics [OF ok]
  have run': "commit_journal j order s = (r, s')"
    using run bb(3,4) j by (simp add: pager_commit_def check_open_def bindS_def)
  note fol = commit_follows [OF ok j order]
  obtain r' s'' d' b' where k: "commit_journal j order s = (r', s'')" "p_disk s'' = d'\<lparr>d_budget := b'\<rparr>"
    "d' \<in> set (trace (commit_steps (j_pending j) (dirty_items s order)) ?d)"
    "r' = Inr () \<and> d' = after (commit_steps (j_pending j) (dirty_items s order)) ?d \<and>
       committed s (after (commit_steps (j_pending j) (dirty_items s order)) ?d) s'' \<or> r' = Inl OSError"
    "d_budget ?d = None \<Longrightarrow> b' = None \<and> r' = Inr ()"
    by (rule followsD [OF fol steps_free(4), unfolded bb(1)], rule that, assumption, assumption, assumption, assumption, simp)
  then have eq: "r' = r" "s'' = s'" using run' by simp_all
  have ws: "well_saved (j_pending j) (dirty_items s order) ?f" by (rule txn_saved [OF at j order])
  have crash': "crash_disk d' d" using crash k(2) eq(2) by (simp add: crash_budget)
  have free: "d_budget d = None" using crash by (simp add: crash_disk_def)
  have ok1: "pager_ok ?d None s1" using br(2) by (simp add: pager_at_def)
  have dirty1: "p_dirty s1 = {}"
  proof -
    have "p_dirty s1 = p_dirty s0"
      using b s0 by (auto simp: begin_write_def check_open_def bindS_def journal_init_def with_disk_def between_txns_def
          split: prod.splits sum.splits if_splits)
    then show ?thesis using s0 by (simp add: between_txns_def)
  qed
  show "\<exists>s2. pager_open PAGE_SIZE um mc True d = (Inr (), s2) \<and> between_txns s2 \<and>
      (pager_page s2 = pager_page s0 \<or> pager_page s2 = pager_page s)" if links: "d_links (p_disk s0)"
    using commit_trace_crash [OF bf(2) links [folded br(7)] ws k(3) crash']
  proof
    assume o: "opens_as d (page_img ?f) ?f"
    have "page_img ?f p = pager_page s1 p" if "1 \<le> p" for p
      using clean_page_base [OF ok1, of p] dirty1 that by (simp add: base_page_def)
    from opens_again [OF o bf(1) free br(2) this] br(3) show ?thesis by metis
  next
    assume o: "opens_as d (page_img (new_content (dirty_items s order) ?f)) ?f"
    from opens_again [OF o bf(1) free at committed_pages [OF at j order]] show ?thesis by metis
  qed
  show "between_txns s' \<and> pager_page s' = pager_page s" if "r = Inr ()"
    using commit_done [OF at j order bf(2,1)] k(4) eq that by auto
  show "r = Inr () \<and> d_budget (p_disk s') = None" if "d_budget (p_disk s0) = None"
    using k(2,5) br(6) that eq by auto
qed

text \<open>
  C10. A commit in rollback-journal mode is durable when it returns, and atomic when it does not, provided that
  the directory entry of the journal is durable with its content. Open a transaction on a pager at rest, change
  pages through the pager in any way its interface allows, and commit: let any of the system calls of the
  commit fail, and let the machine crash right after, with every write that was not synced torn byte by byte,
  lost or kept. If the commit returned, the pager is at rest and shows the pages of the transaction, and
  opening the file again succeeds on exactly those pages, on every file system. If it did not return, and the
  file system makes the entry of a synced file durable with it, opening the file succeeds on the pages from
  before the transaction or on all the pages of the transaction, never a mixture. The code syncs the journal
  but not the directory it created the journal in, and \<open>fsync(2)\<close> leaves the entry open; where it is lost the
  second part is false (\<open>journal_entry_lost\<close>).
\<close>

theorem journal_commit_atomic:
  assumes "between_txns s0" and "begin_write s0 = (Inr (), s1)"
    and "pager_at (p_disk s1) None s" and "p_journal s \<noteq> None" and "transaction_order s order"
    and "pager_commit salt order s = (r, s')" and "crash_disk (p_disk s') d"
  shows "(r = Inr () \<longrightarrow> between_txns s' \<and> pager_page s' = pager_page s \<and>
      (\<exists>s2. pager_open PAGE_SIZE um mc True d = (Inr (), s2) \<and> between_txns s2 \<and> pager_page s2 = pager_page s)) \<and>
    (d_links (p_disk s0) \<longrightarrow>
      (\<exists>s2. pager_open PAGE_SIZE um mc True d = (Inr (), s2) \<and> between_txns s2 \<and>
         (pager_page s2 = pager_page s0 \<or> pager_page s2 = pager_page s)))"
proof -
  have "\<exists>s2. pager_open PAGE_SIZE um mc True d = (Inr (), s2) \<and> between_txns s2 \<and> pager_page s2 = pager_page s'"
    if "between_txns s'" using crash_between [OF that assms(7), of um mc] by metis
  then show ?thesis using journal_commit_cases(1) [OF assms, of um mc] journal_commit_cases(2) [OF assms] by metis
qed

section \<open>Rollback\<close>

lemma restore_pages:
  "map_of (p_cache (fold restore_page recs s)) = map_of (p_cache s) ++ map_of (rev recs)"
  "p_dirty (fold restore_page recs s) = p_dirty s" "p_disk (fold restore_page recs s) = p_disk s"
  "p_wal (fold restore_page recs s) = p_wal s" "p_journal (fold restore_page recs s) = p_journal s"
  "p_wal_mode (fold restore_page recs s) = p_wal_mode s" "p_closed (fold restore_page recs s) = p_closed s"
  "p_page_size (fold restore_page recs s) = p_page_size s" "p_mmap (fold restore_page recs s) = p_mmap s"
  "p_pinned s \<subseteq> p_pinned (fold restore_page recs s)"
proof (induction recs arbitrary: s)
  case (Cons rec recs)
  { case 1 show ?case using Cons.IH(1) by (cases rec) (auto simp: restore_page_def fun_eq_iff map_add_def split: option.split) }
  { case 2 show ?case using Cons.IH(2) by (cases rec) (simp add: restore_page_def) }
  { case 3 show ?case using Cons.IH(3) by (cases rec) (simp add: restore_page_def) }
  { case 4 show ?case using Cons.IH(4) by (cases rec) (simp add: restore_page_def) }
  { case 5 show ?case using Cons.IH(5) by (cases rec) (simp add: restore_page_def) }
  { case 6 show ?case using Cons.IH(6) by (cases rec) (simp add: restore_page_def) }
  { case 7 show ?case using Cons.IH(7) by (cases rec) (simp add: restore_page_def) }
  { case 8 show ?case using Cons.IH(8) by (cases rec) (simp add: restore_page_def) }
  { case 9 show ?case using Cons.IH(9) by (cases rec) (simp add: restore_page_def) }
  { case 10 show ?case using Cons.IH(10) by (cases rec) (fastforce simp: restore_page_def) }
qed simp_all

lemma rollback_run:
  assumes ok: "pager_ok d None s" and j: "p_journal s = Some j"
  shows "pager_rollback s = bindS (with_disk (side_unlink Jrn)) (\<lambda>_. modifyS (\<lambda>s. s\<lparr>p_journal := None, p_dirty := {}\<rparr>))
    (fold restore_page (j_pending j) s)"
proof -
  have "j_count j = length (j_pending j)" using journal_ok_parts(5) [OF ok j] by (simp add: images_ok_def)
  then show ?thesis
    using pager_ok_basics(3,4) [OF ok] j
    by (simp add: pager_rollback_def check_open_def bindS_def Let_def)
qed

lemma restored_cache:
  \<comment> \<open>with the before-images put back, the cache holds pages of the file as it was\<close>
  assumes ok: "pager_ok d None s" and j: "p_journal s = Some j" and s2: "p_cache s2 = p_cache s"
    and m: "map_of (p_cache (fold restore_page (j_pending j) s2)) n = Some data"
  shows "length data = PAGE_SIZE" and "1 \<le> n \<Longrightarrow> data = page_img (db_content d) n"
proof -
  note bb = pager_ok_basics [OF ok]
  have im: "images_ok d j" by (rule journal_ok_parts(5) [OF ok j])
  have c: "map_of (p_cache s) n = Some data \<and> n \<notin> fst ` set (j_pending j) \<or> (n, data) \<in> set (j_pending j)"
  proof (cases "map_of (rev (j_pending j)) n")
    case None
    then have "map_of (p_cache s) n = Some data" using m by (simp add: restore_pages s2 map_add_def)
    moreover have "n \<notin> fst ` set (j_pending j)" using None by (simp add: map_of_eq_None_iff)
    ultimately show ?thesis by simp
  next
    case (Some x)
    then show ?thesis using m map_of_SomeD [OF Some] by (simp add: restore_pages s2 map_add_def)
  qed
  then show "length data = PAGE_SIZE" using bb(6) images_of_ok [OF im] by (auto simp: cache_ok_def images_def)
  assume n: "1 \<le> n"
  show "data = page_img (db_content d) n"
    using c
  proof
    assume cached: "map_of (p_cache s) n = Some data \<and> n \<notin> fst ` set (j_pending j)"
    then have "pager_page s n = data" using n bb(2) by (simp add: pager_page_def)
    then show ?thesis using unchanged_page [OF ok j, of n] cached im n by (simp add: images_ok_def)
  qed (use im in \<open>auto simp: images_ok_def\<close>)
qed

lemma begun_pages:
  \<comment> \<open>the file of an open transaction holds the pages from before it\<close>
  assumes "between_txns s0" and "begin_write s0 = (Inr (), s1)" and "1 \<le> p"
  shows "page_img (db_content (p_disk s1)) p = pager_page s0 p"
proof -
  have "pager_ok (p_disk s0) None s0" "p_dirty s0 = {}" using assms(1) by (simp_all add: between_txns_def pager_at_def)
  then show ?thesis
    using clean_page_base [of "p_disk s0" None s0 p] assms(3) begin_run(4) [OF assms(1,2)] by (simp add: base_page_def)
qed

lemma rollback_disk:
  \<comment> \<open>a rollback before any commit: the journal goes, the file is untouched\<close>
  assumes ok: "pager_ok d None s" and j: "p_journal s = Some j" and b: "begun d f" and run: "pager_rollback s = (Inr (), s')"
  obtains d1 where "s' = (fold restore_page (j_pending j) s)\<lparr>p_disk := d1, p_journal := None, p_dirty := {}\<rparr>"
    "d_db d1 = settled_file f" "idle d1"
proof -
  note bb = pager_ok_basics [OF ok]
  obtain d1 where d1: "side_unlink Jrn d = (Inr (), d1)"
    "s' = (fold restore_page (j_pending j) s)\<lparr>p_disk := d1, p_journal := None, p_dirty := {}\<rparr>"
    using run unfolding rollback_run [OF ok j]
    by (auto simp: bindS_def with_disk_def restore_pages bb(1) split: prod.splits sum.splits)
  obtain b where e1: "d1 = (jrn_unlink d)\<lparr>d_budget := b\<rparr>"
  proof (cases rule: io_call_cases [of jrn_unlink d])
    case (ok b)
    then have "d1 = (jrn_unlink d)\<lparr>d_budget := b\<rparr>"
      using d1(1) budget_free_calls(5) by (simp add: calls budget_free_def)
    then show thesis by (rule that)
  qed (use d1(1) in \<open>simp add: calls\<close>)
  obtain st where st: "d_db d = settled_file f"
    "d_jrn d = \<lparr>sc_cur = Some \<lparr>f_synced = [], f_pending = [Pwrite 0 journal_header]\<rparr>, sc_stale = None # st\<rparr>"
    "quiet_jrn \<lparr>sc_cur = None, sc_stale = st\<rparr> f"
    using assms(3) by (auto simp: begun_def)
  have db: "d_db d1 = settled_file f" using st by (simp add: e1 jrn_unlink_def upd_side_def)
  have "d_jrn d1 = \<lparr>sc_cur = None, sc_stale = Some \<lparr>f_synced = [], f_pending = [Pwrite 0 journal_header]\<rparr> # None # st\<rparr>"
    using st by (simp add: e1 jrn_unlink_def upd_side_def)
  then have "idle d1" using st(3) unarmed_file [of "[]" _ f] db by (auto simp: idle_def db_content_def quiet_jrn_iff)
  then show thesis using d1(2) db that by blast
qed

text \<open>
  C11. A rollback before any commit restores every page. Open a transaction on a pager at rest in
  rollback-journal mode, change pages through the pager in any way its interface allows, and roll back without
  having tried to commit: when the rollback returns, the pager is at rest again, on the same file, and every page
  it shows is the page from before the transaction. (After a failed commit it need not be:
  \<open>rollback_after_commit\<close>.)
\<close>

theorem rollback_restores:
  assumes "between_txns s0" and "begin_write s0 = (Inr (), s1)"
    and "pager_at (p_disk s1) None s" and "p_journal s \<noteq> None" and "pager_rollback s = (Inr (), s')"
  shows "between_txns s' \<and> pager_page s' = pager_page s0"
proof -
  let ?d = "p_disk s1" and ?f = "db_content (p_disk s1)"
  note bf = begun_format [OF assms(1,2)]
  obtain j where j: "p_journal s = Some j" using assms(4) by blast
  have ok: "pager_ok ?d None s" using assms(3) by (simp add: pager_at_def)
  note bb = pager_ok_basics [OF ok] and parts = journal_ok_parts [OF ok]
  obtain d1 where d1: "s' = (fold restore_page (j_pending j) s)\<lparr>p_disk := d1, p_journal := None, p_dirty := {}\<rparr>"
    "d_db d1 = settled_file ?f" "idle d1"
    by (rule rollback_disk [OF ok j bf(2) assms(5)])
  have f1: "db_content d1 = ?f" and disk: "p_disk s' = d1" by (simp_all add: db_content_def d1)
  have base: "base_store d1 None False = base_store ?d None False" by (rule base_store_db [OF f1])
  have "length data = PAGE_SIZE \<and> (1 \<le> n \<longrightarrow> data = page_img (db_content d1) n)" if "map_of (p_cache s') n = Some data" for n data
    using restored_cache [OF ok j refl, of n data] that by (simp add: d1(1) f1)
  moreover have "p_wal s' = None" "\<not> p_wal_mode s'" "\<not> p_closed s'" "p_page_size s' = PAGE_SIZE" "p_dirty s' = {}" "p_journal s' = None"
    "p_mmap s' = p_mmap s"
    using bb(2-5) by (simp_all add: d1(1) restore_pages)
  moreover have "1 \<in> p_pinned s'" using bb(6) restore_pages(10) [of s "j_pending j"] by (auto simp: d1(1) cache_ok_def)
  moreover have "len \<le> length (db_content d1)" if "p_mmap s = Some len" for len using bb(7) [OF that] f1 by simp
  ultimately have at: "pager_at d1 None s'" and pg: "\<And>p. 1 \<le> p \<Longrightarrow> pager_page s' p = page_img ?f p"
    using clean_pager_at [of d1 s'] parts(1,3) disk by (simp_all add: base f1)
  have "pager_page s' = pager_page s0"
    using begun_pages [OF assms(1,2)] by (intro pages_ext) (simp add: pg)
  moreover have "journal_format d1" using bf(1) by (simp add: journal_format_def base f1)
  ultimately show ?thesis using at d1(3) by (simp add: between_txns_def disk) (simp add: d1(1))
qed

end
