(* ===== verification/FreshFile.thy ===== *)
theory FreshFile
  imports PagerTxn WalCheckpoint TreeScan
begin

text \<open>
  A new database: opening a path that does not exist creates a file of two pages, the header and an
  empty root leaf, and the pager is at rest on the empty tree.
\<close>

definition fresh_header :: bytes where
  "fresh_header = blit (blit (blit (blit (blit (replicate PAGE_SIZE 0) 0 DB_MAGIC)
     16 (be_bytes 2 PAGE_SIZE)) 18 (be_bytes 1 1)) 19 (be_bytes 1 1)) 28 (be_bytes 4 2)"

lemma length_fresh_header [simp]: "length fresh_header = PAGE_SIZE"
  by (simp add: fresh_header_def DB_MAGIC_def PAGE_SIZE_def)

lemma fresh_header_fields:
  "pyslice fresh_header 16 18 = be_bytes 2 PAGE_SIZE" "pyslice fresh_header 18 19 = be_bytes 1 1"
  "pyslice fresh_header 19 20 = be_bytes 1 1"
  "pyslice fresh_header 28 32 = be_bytes 4 2" "pyslice fresh_header 32 36 = replicate 4 0"
  "pyslice fresh_header 36 40 = replicate 4 0"
  by (simp_all add: fresh_header_def pyslice_blit_other pyslice_replicate DB_MAGIC_def PAGE_SIZE_def)

lemma fresh_root:
  obtains root where "write_leaf_header (replicate PAGE_SIZE 0) 0 (int PAGE_SIZE) 0 0 = Inr root" "leaf_page root [] 0"
proof -
  have "leaf_of_cells (replicate PAGE_SIZE 0) [] = write_leaf_header (replicate PAGE_SIZE 0) 0 (int PAGE_SIZE) 0 0"
    by (simp add: leaf_of_cells_def)
  moreover have "pyslice (replicate PAGE_SIZE 0) 8 12 = replicate 4 (0 :: byte)" by (simp add: pyslice_replicate PAGE_SIZE_def)
  ultimately show thesis
    using leaf_of_cells_ok [of "replicate PAGE_SIZE 0" "[]"] that by (auto simp: LEAF_PTR_ARRAY_START_val PAGE_SIZE_def)
qed

lemma empty_tree_at:
  assumes pages: "st_pages st 1 = fresh_header" "leaf_page (st_pages st 2) [] 0"
  shows "tree_at st {2} 0 (BLeaf 2 [])" and "room 1000 st" and "store_hdr st HDbSize = 2"
proof -
  have hdr: "store_hdr st HDbSize = 2" "store_hdr st HFirstTrunk = 0" "store_hdr st HFreelistCount = 0"
  proof -
    have "pyslice fresh_header 28 (28 + 4) = be_bytes 4 2" "pyslice fresh_header 32 (32 + 4) = be_bytes 4 0"
      "pyslice fresh_header 36 (36 + 4) = be_bytes 4 0"
      using fresh_header_fields(4-6) by (simp_all add: be_bytes_zero)
    then show "store_hdr st HDbSize = 2" "store_hdr st HFirstTrunk = 0" "store_hdr st HFreelistCount = 0"
      unfolding store_hdr_def pages(1) hdr_offset.simps hdr_width.simps by (simp_all only: be_nat_be_bytes) simp_all
  qed
  have "free_list st []" using hdr pages(1) by (simp add: free_list_def hdr_page_ok_def)
  moreover have "{p. 1 < p \<and> p \<le> store_hdr st HDbSize} = {2}" using hdr(1) by auto
  ultimately have sp: "space st {2}" unfolding space_def by (intro exI [of _ "[]"]) simp
  have "leaf_fits []" by (simp add: leaf_fits_def merged_leaf_footprint_def LEAF_PTR_ARRAY_START_val PAGE_SIZE_def)
  then have leaf: "leaf_at (st_pages st) (st_pages st 2) [] 0" using pages(2) by (simp add: leaf_at_def)
  then show "tree_at st {2} 0 (BLeaf 2 [])"
    using sp pages(2) by (simp add: tree_at_def sibling_of_def leaf_page_def) blast
  show "room 1000 st" "store_hdr st HDbSize = 2" by (simp_all add: room_def hdr)
qed

lemma fresh_file_pages:
  assumes "length root = PAGE_SIZE" and "f = pwrite (pwrite [] fresh_header 0) root PAGE_SIZE"
  shows "page_img f 1 = fresh_header" and "page_img f 2 = root" and "2 < n \<Longrightarrow> page_img f n = replicate PAGE_SIZE 0"
    and "length f = 2 * PAGE_SIZE"
proof -
  have ne: "fresh_header \<noteq> []" "root \<noteq> []" using assms(1) length_fresh_header by (auto simp: PAGE_SIZE_def simp del: length_fresh_header)
  have h: "page_img (pwrite [] fresh_header ((1 - 1) * PAGE_SIZE)) q = (if q = 1 then fresh_header else page_img [] q)" if "1 \<le> q" for q
    using page_img_pwrite [of 1 q fresh_header "[]"] that by auto
  have f: "page_img f q = (if q = 2 then root else if q = 1 then fresh_header else replicate PAGE_SIZE 0)" if "1 \<le> q" for q
    using page_img_pwrite [of 2 q root "pwrite [] fresh_header 0"] h [OF that] that assms by (auto simp: page_img_Nil)
  show "page_img f 1 = fresh_header" "page_img f 2 = root" "2 < n \<Longrightarrow> page_img f n = replicate PAGE_SIZE 0"
    using f by auto
  show "length f = 2 * PAGE_SIZE" using ne assms by (simp add: length_pwrite)
qed

lemma fresh_open_run:
  assumes "d_db d = settled_file []" and "d_jrn d = \<lparr>sc_cur = None, sc_stale = []\<rparr>" and "d_budget d = None"
  shows "\<exists>s. pager_open PAGE_SIZE um mc rd d = (Inr (), s) \<and> between_txns s \<and> tree_at (pager_view s) {2} 0 (BLeaf 2 []) \<and>
    tree_map (BLeaf 2 []) = Map.empty \<and> store_hdr (pager_view s) HDbSize = 2 \<and>
    room 1000 (pager_view s) \<and> d_budget (p_disk s) = None"
proof -
  obtain root where root: "write_leaf_header (replicate PAGE_SIZE 0) 0 (int PAGE_SIZE) 0 0 = Inr root" "leaf_page root [] 0"
    by (rule fresh_root)
  have len: "length root = PAGE_SIZE" using root(2) by (simp add: leaf_page_def)
  define f where "f = pwrite (pwrite [] fresh_header 0) root PAGE_SIZE"
  note fp = fresh_file_pages [OF len f_def]
  let ?d = "d\<lparr>d_db := settled_file f\<rparr>"
  let ?s = "refresh_mmap ((pager_init PAGE_SIZE um mc d)\<lparr>p_disk := ?d, p_cache := [(1, fresh_header), (2, root)]\<rparr>)"
  have packs: "pack_into 2 (blit (replicate PAGE_SIZE 0) 0 DB_MAGIC) 16 (int PAGE_SIZE) =
      Inr (blit (blit (replicate PAGE_SIZE 0) 0 DB_MAGIC) 16 (be_bytes 2 PAGE_SIZE))"
    "pack_into 1 (blit (blit (replicate PAGE_SIZE 0) 0 DB_MAGIC) 16 (be_bytes 2 PAGE_SIZE)) 18 1 =
      Inr (blit (blit (blit (replicate PAGE_SIZE 0) 0 DB_MAGIC) 16 (be_bytes 2 PAGE_SIZE)) 18 (be_bytes 1 1))"
    "pack_into 1 (blit (blit (blit (replicate PAGE_SIZE 0) 0 DB_MAGIC) 16 (be_bytes 2 PAGE_SIZE)) 18 (be_bytes 1 1)) 19 1 =
      Inr (blit (blit (blit (blit (replicate PAGE_SIZE 0) 0 DB_MAGIC) 16 (be_bytes 2 PAGE_SIZE)) 18 (be_bytes 1 1)) 19 (be_bytes 1 1))"
    "pack_into 4 (blit (blit (blit (blit (replicate PAGE_SIZE 0) 0 DB_MAGIC) 16 (be_bytes 2 PAGE_SIZE)) 18 (be_bytes 1 1)) 19 (be_bytes 1 1)) 28 2 =
      Inr fresh_header"
    by (simp_all add: pack_into_def fresh_header_def DB_MAGIC_def PAGE_SIZE_def)
  have disk: "d\<lparr>d_db := sync_file (add_wr (Pwrite PAGE_SIZE root) (add_wr (Pwrite 0 fresh_header) (d_db d)))\<rparr> = ?d"
    by (simp add: assms(1) sync_file_def settled_file_def add_wr_def content_def f_def)
  have io: "db_pwrite x off e = (Inr (), e\<lparr>d_db := add_wr (Pwrite off x) (d_db e)\<rparr>)" "db_fsync e = (Inr (), e\<lparr>d_db := sync_file (d_db e)\<rparr>)"
    if "d_budget e = None" for x off e
    using that by (simp_all add: db_pwrite_def db_fsync_def io_call_free)
  have "init_fresh_file (pager_init PAGE_SIZE um mc d) = (Inr (), (pager_init PAGE_SIZE um mc d)\<lparr>p_disk := ?d, p_cache := [(1, fresh_header), (2, root)]\<rparr>)"
    using assms(3) packs root(1) disk
    by (simp add: init_fresh_file_def bindS_def pager_init_def with_disk_def io cache_put_def Let_def)
  then have run: "pager_open PAGE_SIZE um mc rd d = (Inr (), ?s)"
    using assms(1) by (simp add: pager_open_def bindS_def) (simp add: pager_init_def db_content_def)
  have db: "db_content ?d = f" by (simp add: db_content_def)
  have hdr: "store_hdr (base_store ?d None False) HDbSize = 2" "store_hdr (base_store ?d None False) HPageSize = PAGE_SIZE"
    "store_hdr (base_store ?d None False) HWriteVersion = 1"
    using fp(1) by (simp_all add: store_hdr_def base_page_def db fresh_header_fields PAGE_SIZE_def)
  have at: "pager_at ?d None ?s" and pg: "\<And>p. 1 \<le> p \<Longrightarrow> pager_page ?s p = page_img f p"
  proof -
    have mm: "p_mmap ?s = Some l \<Longrightarrow> l \<le> length (db_content ?d)" for l
      by (auto simp: refresh_mmap_def pager_init_def Let_def split: if_splits)
    have cache: "length data = PAGE_SIZE \<and> (1 \<le> n \<longrightarrow> data = page_img (db_content ?d) n)"
      if "map_of (p_cache ?s) n = Some data" for n data
      using that fp len by (auto simp: db split: if_splits)
    have zero: "page_img (db_content ?d) n = replicate PAGE_SIZE 0" if "store_hdr (base_store ?d None False) HDbSize < n" for n
      using that fp(3) by (simp add: hdr db)
    have fields: "p_disk ?s = ?d" "p_wal ?s = None" "\<not> p_wal_mode ?s" "\<not> p_closed ?s" "p_page_size ?s = PAGE_SIZE"
      "1 \<in> p_pinned ?s" "p_dirty ?s = {}" "p_journal ?s = None" "1 \<le> store_hdr (base_store ?d None False) HDbSize"
      by (simp_all add: pager_init_def hdr)
    show "pager_at ?d None ?s" by (rule clean_pager_at(1); fact fields zero cache mm)
    show "pager_page ?s p = page_img f p" if "1 \<le> p" for p
    proof -
      have "pager_page ?s p = page_img (db_content ?d) p" by (rule clean_pager_at(2); fact fields zero cache mm that)
      then show ?thesis by (simp only: db)
    qed
  qed
  have "idle ?d" using assms(2) by (simp add: idle_def quiet_jrn_iff)
  moreover have "journal_format ?d" using hdr fp(4) by (simp add: journal_format_def db WAL_WRITE_VERSION_def)
  ultimately have "between_txns ?s" using at by (simp add: between_txns_def) (simp add: pager_init_def)
  moreover have "tree_at (pager_view ?s) {2} 0 (BLeaf 2 [])" "room 1000 (pager_view ?s)"
    "store_hdr (pager_view ?s) HDbSize = 2"
    using empty_tree_at [of "pager_view ?s"] pg [of 1] pg [of 2] fp root(2) by simp_all
  ultimately show ?thesis using run assms(3) by (intro exI [of _ ?s]) (simp add: tree_map_def)
qed

text \<open>
  C12. Opening a path that does not exist gives a sound empty database. The call returns; the pager is at
  rest in rollback-journal mode on a file of two pages, whatever the cache bound and the read path; the
  tree at the root page is the empty tree, so the map it stores is empty.
\<close>

theorem open_fresh:
  assumes "d_db d = settled_file []" and "d_jrn d = \<lparr>sc_cur = None, sc_stale = []\<rparr>" and "d_budget d = None"
  shows "\<exists>s. pager_open PAGE_SIZE um mc rd d = (Inr (), s) \<and> between_txns s \<and> tree_at (pager_view s) {2} 0 (BLeaf 2 []) \<and>
    tree_map (BLeaf 2 []) = Map.empty \<and> store_hdr (pager_view s) HDbSize = 2 \<and>
    room 1000 (pager_view s) \<and> d_budget (p_disk s) = None"
  using assms by (rule fresh_open_run)

theorem open_fresh_witness:
  "\<exists>s. pager_open PAGE_SIZE True (Some 4) True empty_disk = (Inr (), s) \<and> between_txns s \<and>
     tree_at (pager_view s) {2} 0 (BLeaf 2 [])"
  using open_fresh [of empty_disk True "Some 4" True] by (auto simp: empty_disk_def)

end
