(* ===== verification/Durable.thy ===== *)
theory Durable
  imports InsertMap FreshFile
begin

text \<open>
  The whole storage engine at once: the B-tree of \<open>btree\<close> on the pager of \<open>pager.py\<close> in
  rollback-journal mode. An insert inside a transaction is durable when the commit returned, atomic when
  it did not, and a scan of the reopened database lists the rows of one of the two maps.
\<close>

section \<open>Trees and pagers\<close>

lemma tree_at_cong:
  assumes "st_pages st' = st_pages st"
  shows "tree_at st' L h t = tree_at st L h t" and "room k st' = room k st"
  using assms by (simp_all add: tree_at_def space_def free_list_def hdr_page_ok_def store_hdr_def room_def)

lemma tree_at_pages:
  "pager_page s' = pager_page s \<Longrightarrow> tree_at (pager_view s') L h t = tree_at (pager_view s) L h t"
  "pager_page s' = pager_page s \<Longrightarrow> room k (pager_view s') = room k (pager_view s)"
  by (simp_all add: tree_at_cong [of "pager_view s'" "pager_view s"])

lemma begin_returns:
  assumes "between_txns s0" and "d_budget (p_disk s0) = None"
  obtains s1 where "begin_write s0 = (Inr (), s1)"
proof -
  have "pager_ok (p_disk s0) None s0" "p_journal s0 = None" using assms(1) by (simp_all add: between_txns_def pager_at_def)
  note b = pager_ok_basics(3,4) [OF this(1)] this(2)
  have calls: "\<exists>d'. side_create_trunc Jrn d = (Inr (), d') \<and> d_budget d' = None" "\<exists>d'. side_write Jrn w d = (Inr (), d') \<and> d_budget d' = None"
    if "d_budget d = None" for d w
    using that by (auto simp: side_create_trunc_def side_write_def io_call_free upd_side_def)
  from calls(1) [OF assms(2)] obtain d1 where d1: "side_create_trunc Jrn (p_disk s0) = (Inr (), d1)" "d_budget d1 = None" by blast
  from calls(2) [OF d1(2)] obtain d2 where d2: "side_write Jrn (Pwrite 0 journal_header) d1 = (Inr (), d2)" by blast
  have "\<exists>s1. begin_write s0 = (Inr (), s1)"
    using b d1(1) d2 by (simp add: begin_write_def check_open_def bindS_def journal_init_def with_disk_def journal_header_def)
  then show thesis using that by blast
qed

lemma insert_runs:
  \<comment> \<open>an insert on the pager, in a transaction\<close>
  assumes at: "pager_at d None s1" and jr: "p_journal s1 \<noteq> None"
    and t: "tree_at (pager_view s1) L h t" "h < fuel" "0 \<le> key" "key < 2 ^ 64" "room (insert_room t h val) (pager_view s1)"
  obtains s L' h' t' where "btree_insert pg_ops cap fuel (tpage t) key val s1 = (Inr (), s)" "pager_at d None s" "p_journal s \<noteq> None"
    "tree_at (pager_view s) L' h' t'" "tree_map t' = (tree_map t)(key \<mapsto> val)" "tpage t' = tpage t"
proof -
  have "st_journal (pager_view s1) \<or> st_wal (pager_view s1)" using jr by (auto simp: pager_view_def)
  from btree_insert_run [OF t(1-4) this t(5)] obtain st' L' h' t' where
    ins: "btree_insert store_ops cap fuel (tpage t) key val (pager_view s1) = (Inr (), st')" "tree_at st' L' h' t'"
      "tree_map t' = (tree_map t)(key \<mapsto> val)" "tpage t' = tpage t" "st_journal st' = st_journal (pager_view s1)"
    by blast
  from pg.run [OF pg.btree_insert_refines at ins(1)] obtain s where
    s: "btree_insert pg_ops cap fuel (tpage t) key val s1 = (Inr (), s)" "pager_at d None s" "pager_view s = st'" .
  then have "p_journal s \<noteq> None" using ins(5) jr by (auto simp: pager_view_def)
  with that s(1,2) ins(2-4) [folded s(3)] show thesis by blast
qed

abbreviation cursor_at :: "nat \<Rightarrow> cursor" where
  "cursor_at root \<equiv> \<lparr>cur_root = root, scan_page_no = None, scan_cell_idx = 0, scan_cells = []\<rparr>"

lemma reopened_scan:
  \<comment> \<open>what a scan of a database at rest returns\<close>
  assumes s: "between_txns s" and t: "tree_at (pager_view s) L h t"
  obtains n s' where "full_scan pg_ops n n (cursor_at (tpage t)) s = (Inr (map cell_kv (cells t), cursor_at (tpage t)), s')"
    "pager_view s' = pager_view s" "pager_at (p_disk s) None s'"
proof -
  let ?c = "cursor_at (tpage t)"
  let ?n = "Suc (h + length (leaves t) + length (cells t))"
  have at: "pager_at (p_disk s) None s" using s by (simp add: between_txns_def)
  have "full_scan store_ops ?n ?n ?c (pager_view s) = (Inr (map cell_kv (cells t), reset_scan ?c), pager_view s)"
    using full_scan_run [OF t, of ?n ?n ?c] by simp
  from pg.run [OF pg.full_scan_refines at this] obtain s' where
    "full_scan pg_ops ?n ?n ?c s = (Inr (map cell_kv (cells t), reset_scan ?c), s')" "pager_at (p_disk s) None s'"
    "pager_view s' = pager_view s" .
  then show thesis using that [of ?n s'] by (simp add: reset_scan_def)
qed

section \<open>Durability of an insert\<close>

definition bindings :: "(int \<times> bytes) list \<Rightarrow> (int \<Rightarrow> bytes option) \<Rightarrow> bool" where
  \<comment> \<open>the rows of a map, in key order\<close>
  "bindings rows m \<longleftrightarrow> sorted_wrt (<) (map fst rows) \<and> map_of rows = m"

definition reads_as :: "bool \<Rightarrow> nat option \<Rightarrow> disk \<Rightarrow> nat \<Rightarrow> (int \<Rightarrow> bytes option) \<Rightarrow> bool" where
  \<comment> \<open>the file opens, and a scan of the tree at this root returns the rows of this map\<close>
  "reads_as um mc d root m \<longleftrightarrow>
     (\<exists>s n rows s'. pager_open PAGE_SIZE um mc True d = (Inr (), s) \<and> between_txns s \<and>
        full_scan pg_ops n n (cursor_at root) s = (Inr (rows, cursor_at root), s') \<and> bindings rows m)"

lemma tree_bindings: "tree_at st L h t \<Longrightarrow> bindings (map cell_kv (cells t)) (tree_map t)"
  using full_scan_run [of st L h t "Suc (h + length (leaves t))" "Suc (length (cells t))" "cursor_at (tpage t)"]
  by (simp add: bindings_def)

lemma reads_asI:
  assumes "pager_open PAGE_SIZE um mc True d = (Inr (), s)" "between_txns s" "tree_at (pager_view s) L h t"
  shows "reads_as um mc d (tpage t) (tree_map t)"
proof -
  from reopened_scan [OF assms(2,3)] obtain n s' where
    "full_scan pg_ops n n (cursor_at (tpage t)) s = (Inr (map cell_kv (cells t), cursor_at (tpage t)), s')" by metis
  then show ?thesis using assms tree_bindings [OF assms(3)] unfolding reads_as_def by blast
qed

lemma txn_commit_run:
  \<comment> \<open>any computation on the tree at a root that leaves a tree there is atomic and durable in a transaction\<close>
  assumes s0: "between_txns s0" and t: "tree_at (pager_view s0) L h t"
    and b: "begin_write s0 = (Inr (), s1)" and ref: "refines (pager_at (p_disk s1) None) pager_view m m'"
    and m': "m' (pager_view s1) = (Inr x, st)" "tree_at st L' h' t'" "tpage t' = tpage t" "st_journal st"
    and run_m: "m s1 = (q, s)" and order: "transaction_order s order" and run: "pager_commit salt order s = (r, s')"
    and crash: "crash_disk (p_disk s') d"
  shows "q = Inr x" and "d_links (p_disk s0) \<Longrightarrow> reads_as um mc d (tpage t) (tree_map t) \<or> reads_as um mc d (tpage t) (tree_map t')"
    and "r = Inr () \<Longrightarrow> reads_as um mc d (tpage t) (tree_map t')"
    and "d_budget (p_disk s0) = None \<Longrightarrow> r = Inr ()"
proof -
  note br = begin_run [OF s0 b]
  from refinesD [OF ref br(2) m'(1)] obtain s2 where s2: "m s1 = (Inr x, s2)" "pager_at (p_disk s1) None s2" "pager_view s2 = st" by blast
  have eq: "q = Inr x" "s2 = s" using s2(1) run_m by simp_all
  then show "q = Inr x" by simp
  have i: "tree_at (pager_view s2) L' h' t'" "p_journal s2 \<noteq> None" using m'(2,4) s2(3) by auto
  note jc = journal_commit_cases [OF s0 b s2(2) i(2) order [folded eq(2)] run [folded eq(2)] crash]
  note tree = tree_at_pages(1)
  show "reads_as um mc d (tpage t) (tree_map t) \<or> reads_as um mc d (tpage t) (tree_map t')" if links: "d_links (p_disk s0)"
  proof -
    from jc(1) [OF links, of um mc] obtain s3 where s3: "pager_open PAGE_SIZE um mc True d = (Inr (), s3)" "between_txns s3"
      "pager_page s3 = pager_page s0 \<or> pager_page s3 = pager_page s2" by blast
    then show ?thesis using reads_asI [OF s3(1,2)] t i(1) m'(3) tree by metis
  qed
  show "d_budget (p_disk s0) = None \<Longrightarrow> r = Inr ()" using jc(3) by simp
  assume "r = Inr ()"
  then have done': "between_txns s'" "pager_page s' = pager_page s2" using jc(2) by simp_all
  from crash_between [OF done'(1) crash, of um mc] obtain s4 where
    s4: "pager_open PAGE_SIZE um mc True d = (Inr (), s4)" "between_txns s4" "pager_page s4 = pager_page s'" by metis
  then show "reads_as um mc d (tpage t) (tree_map t')"
    using reads_asI [OF s4(1,2)] i(1) m'(3) tree done'(2) by metis
qed

lemma insert_commit_run:
  assumes s0: "between_txns s0" and t: "tree_at (pager_view s0) L h t" "h < fuel" "0 \<le> key" "key < 2 ^ 64"
    "room (insert_room t h val) (pager_view s0)"
    and b: "begin_write s0 = (Inr (), s1)" and ins: "btree_insert pg_ops cap fuel (tpage t) key val s1 = (q, s)"
    and order: "transaction_order s order" and run: "pager_commit salt order s = (r, s')" and crash: "crash_disk (p_disk s') d"
  shows "q = Inr ()"
    and "d_links (p_disk s0) \<Longrightarrow> reads_as um mc d (tpage t) (tree_map t) \<or> reads_as um mc d (tpage t) ((tree_map t)(key \<mapsto> val))"
    and "r = Inr () \<Longrightarrow> reads_as um mc d (tpage t) ((tree_map t)(key \<mapsto> val))"
    and "d_budget (p_disk s0) = None \<Longrightarrow> r = Inr ()"
proof -
  note br = begin_run [OF s0 b]
  have view: "tree_at (pager_view s1) L h t" "room (insert_room t h val) (pager_view s1)"
    using t(1,5) tree_at_pages [OF br(3)] by simp_all
  have jr: "st_journal (pager_view s1)" using br(5) by simp
  from btree_insert_run [OF view(1) t(2-4) disjI1 [OF jr] view(2), of cap] obtain st L' h' t' where
    i: "btree_insert store_ops cap fuel (tpage t) key val (pager_view s1) = (Inr (), st)" "tree_at st L' h' t'"
      "tree_map t' = (tree_map t)(key \<mapsto> val)" "tpage t' = tpage t" "st_journal st = st_journal (pager_view s1)" by blast
  have st: "st_journal st" using i(5) jr by simp
  note c = txn_commit_run [OF s0 t(1) b pg.btree_insert_refines i(1,2,4) st ins order run crash]
  show "q = Inr ()"
    "d_links (p_disk s0) \<Longrightarrow> reads_as um mc d (tpage t) (tree_map t) \<or> reads_as um mc d (tpage t) ((tree_map t)(key \<mapsto> val))"
    "r = Inr () \<Longrightarrow> reads_as um mc d (tpage t) ((tree_map t)(key \<mapsto> val))" "d_budget (p_disk s0) = None \<Longrightarrow> r = Inr ()"
    using c i(3) by simp_all
qed

text \<open>
  C1. An insert whose commit returned is durable, and an insert is atomic where the entry of the journal is.
  Take a database at rest in rollback-journal mode that stores a map, begin a transaction, insert a key
  (whatever the tree has to split for it) and commit. The insert succeeds. Let any system call of the commit
  fail and the machine crash after it, tearing every write that was not synced. If the commit returned, the
  file opens again on every file system, and a scan of it returns, in key order, the rows of the map with the
  new binding; and it does return when no system call fails. If it did not return, and the file system makes
  the directory entry of a synced file durable with it (which \<open>fsync(2)\<close> does not promise and the code does
  not do itself), the scan returns the rows of the old map or of the new one.
\<close>

theorem insert_durable:
  assumes "between_txns s0" and "tree_at (pager_view s0) L h t" and "h < fuel" and "0 \<le> key" "key < 2 ^ 64"
    and "room (insert_room t h val) (pager_view s0)" and "begin_write s0 = (Inr (), s1)"
    and "btree_insert pg_ops cap fuel (tpage t) key val s1 = (q, s)" and "transaction_order s order"
    and "pager_commit salt order s = (r, s')" and "crash_disk (p_disk s') d"
  shows "q = Inr () \<and>
    (d_links (p_disk s0) \<longrightarrow> reads_as um mc d (tpage t) (tree_map t) \<or> reads_as um mc d (tpage t) ((tree_map t)(key \<mapsto> val))) \<and>
    (r = Inr () \<longrightarrow> reads_as um mc d (tpage t) ((tree_map t)(key \<mapsto> val))) \<and> (d_budget (p_disk s0) = None \<longrightarrow> r = Inr ())"
  using insert_commit_run [OF assms] by blast

section \<open>A transaction on a new database\<close>

lemma dirty_order: "pager_at d wo s \<Longrightarrow> \<exists>order. transaction_order s order"
proof -
  assume "pager_at d wo s"
  then have "p_dirty s \<subseteq> {..store_hdr (pager_view s) HDbSize}" by (auto simp: pager_at_def)
  then have "finite (p_dirty s)" using finite_subset by blast
  then show ?thesis using finite_distinct_list [of "p_dirty s"] by (auto simp: transaction_order_def)
qed

definition first_txn :: "pager \<Rightarrow> pager \<Rightarrow> pager \<Rightarrow> nat list \<Rightarrow> bool" where
  \<comment> \<open>a new database, and a transaction on it with one row, not yet committed\<close>
  "first_txn s0 s1 s order \<longleftrightarrow>
     pager_open PAGE_SIZE True None True empty_disk = (Inr (), s0) \<and> between_txns s0 \<and>
     tree_at (pager_view s0) {2} 0 (BLeaf 2 []) \<and> room (insert_room (BLeaf 2 []) 0 [1, 2]) (pager_view s0) \<and>
     begin_write s0 = (Inr (), s1) \<and> btree_insert pg_ops 10000 1 2 7 [1, 2] s1 = (Inr (), s) \<and>
     pager_at (p_disk s1) None s \<and> p_journal s \<noteq> None \<and> transaction_order s order \<and> d_budget (p_disk s0) = None"

lemma first_txn_parts:
  assumes "first_txn s0 s1 s order"
  shows "pager_open PAGE_SIZE True None True empty_disk = (Inr (), s0)" "between_txns s0"
    "tree_at (pager_view s0) {2} 0 (BLeaf 2 [])" "room (insert_room (BLeaf 2 []) 0 [1, 2]) (pager_view s0)"
    "begin_write s0 = (Inr (), s1)" "btree_insert pg_ops 10000 1 2 7 [1, 2] s1 = (Inr (), s)"
    "pager_at (p_disk s1) None s" "p_journal s \<noteq> None" "transaction_order s order" "d_budget (p_disk s0) = None"
  using assms by (simp_all add: first_txn_def)

lemma first_row:
  obtains s0 s1 s order where "first_txn s0 s1 s order"
proof -
  from fresh_open_run [of empty_disk True None True] obtain s0 where
    s0: "pager_open PAGE_SIZE True None True empty_disk = (Inr (), s0)" "between_txns s0"
      "tree_at (pager_view s0) {2} 0 (BLeaf 2 [])" "room 1000 (pager_view s0)" "d_budget (p_disk s0) = None"
    by (auto simp: empty_disk_def)
  from begin_returns [OF s0(2,5)] obtain s1 where s1: "begin_write s0 = (Inr (), s1)" .
  have rm: "room (insert_room (BLeaf 2 []) 0 [1, 2]) (pager_view s0)"
    by (rule room_mono [OF s0(4)]) (simp add: insert_room_def spill_need_def spills_def OVERFLOW_THRESHOLD_def PAGE_SIZE_def)
  note br = begin_run [OF s0(2) s1]
  have view: "tree_at (pager_view s1) {2} 0 (BLeaf 2 [])" "room (insert_room (BLeaf 2 []) 0 [1, 2]) (pager_view s1)"
    using s0(3) rm tree_at_pages [OF br(3)] by simp_all
  have range: "(0::nat) < 1" "(0::int) \<le> 7" "(7::int) < 2 ^ 64" by simp_all
  from insert_runs [OF br(2,5) view(1) range view(2), of 10000, unfolded tpage.simps] obtain s where
    s: "btree_insert pg_ops 10000 1 2 7 [1, 2] s1 = (Inr (), s)" "pager_at (p_disk s1) None s" "p_journal s \<noteq> None"
    by blast
  from dirty_order [OF s(2)] obtain order where "transaction_order s order" by blast
  then show thesis using s0 s1 rm s that by (auto simp: first_txn_def)
qed

theorem insert_durable_witness:
  "\<exists>s0 s1 s order s'. pager_open PAGE_SIZE True None True empty_disk = (Inr (), s0) \<and> begin_write s0 = (Inr (), s1) \<and>
     btree_insert pg_ops 10000 1 2 7 [1, 2] s1 = (Inr (), s) \<and> pager_commit 5 order s = (Inr (), s') \<and>
     reads_as False (Some 3) (reboot (p_disk s')) 2 [7 \<mapsto> [1, 2]]"
proof -
  obtain s0 s1 s order where "first_txn s0 s1 s order" by (rule first_row)
  note f = first_txn_parts [OF this]
  obtain r s' where run: "pager_commit 5 order s = (r, s')" by fastforce
  have ins: "btree_insert pg_ops 10000 1 (tpage (BLeaf 2 [])) 7 [1, 2] s1 = (Inr (), s)" using f(6) by simp
  have "(tree_map (BLeaf 2 []))(7 \<mapsto> [1, 2]) = [7 \<mapsto> [1, 2]]" by (simp add: tree_map_def)
  then show ?thesis
    using insert_durable [OF f(2,3) _ _ _ f(4,5) ins f(9) run crash_reboot,
        of False "Some 3"] f(1,5,6,10) run by auto
qed

theorem journal_commit_atomic_witness:
  "\<exists>s0 s1 s order s' s2. pager_open PAGE_SIZE True None True empty_disk = (Inr (), s0) \<and> begin_write s0 = (Inr (), s1) \<and>
     btree_insert pg_ops 10000 1 2 7 [1, 2] s1 = (Inr (), s) \<and> pager_commit 5 order s = (Inr (), s') \<and>
     pager_open PAGE_SIZE True None True (reboot (p_disk s')) = (Inr (), s2) \<and> pager_page s2 = pager_page s"
proof -
  obtain s0 s1 s order where "first_txn s0 s1 s order" by (rule first_row)
  note f = first_txn_parts [OF this]
  obtain r s' where run: "pager_commit 5 order s = (r, s')" by fastforce
  have "r = Inr ()" using journal_commit_cases(3) [OF f(2,5,7-9) run crash_reboot f(10)] by simp
  then show ?thesis
    using journal_commit_atomic [OF f(2,5,7-9) run crash_reboot, of True None] f(1,5,6) run by auto
qed

theorem rollback_restores_witness:
  "\<exists>s0 s1 s s'. pager_open PAGE_SIZE True None True empty_disk = (Inr (), s0) \<and> begin_write s0 = (Inr (), s1) \<and>
     btree_insert pg_ops 10000 1 2 7 [1, 2] s1 = (Inr (), s) \<and> pager_rollback s = (Inr (), s') \<and>
     between_txns s' \<and> pager_page s' = pager_page s0"
proof -
  obtain s0 s1 s order where "first_txn s0 s1 s order" by (rule first_row)
  note f = first_txn_parts [OF this]
  have ok: "pager_ok (p_disk s1) None s" using f(7) by (simp add: pager_at_def)
  then have disk: "p_disk s = p_disk s1" by (rule pager_ok_basics(1))
  obtain j where j: "p_journal s = Some j" using f(8) by blast
  have "d_budget (p_disk s1) = None" using begin_run(6) [OF f(2,5,10)] .
  then have "\<exists>s'. pager_rollback s = (Inr (), s')"
    unfolding rollback_run [OF ok j]
    by (simp add: bindS_def with_disk_def restore_pages disk side_unlink_def io_call_free modifyS_def)
  then obtain s' where s': "pager_rollback s = (Inr (), s')" ..
  then show ?thesis using rollback_restores [OF f(2,5,7,8) s'] f(1,5,6) by blast
qed

end
