(* ===== verification/SqlDml.thy ===== *)
theory SqlDml
  imports SqlModify SqlQuery Durable
begin

text \<open>
  What INSERT and UPDATE do to the map a table stores, and their durability. The statements run inside
  an outer transaction, where the connection has replaced \<open>begin_write\<close> and \<open>commit\<close> by no-ops.
\<close>

definition quiet :: "'s pager_ops \<Rightarrow> 's driver" where
  \<comment> \<open>the pager inside an outer transaction: \<open>_suppress_pager_txn\<close>\<close>
  "quiet ops = \<lparr>dr_ops = ops, dr_begin = retS (), dr_commit = retS ()\<rparr>"

lemma quiet_simps [simp]: "dr_ops (quiet ops) = ops" "dr_begin (quiet ops) = retS ()" "dr_commit (quiet ops) = retS ()"
  by (simp_all add: quiet_def)

section \<open>Refinement to every pager\<close>

context page_store
begin

lemma lookup_row_refines: "refines ok view (lookup_row lib ops fuel root names w k) (lookup_row lib store_ops fuel root names w k)"
  unfolding lookup_row_def move_to_def by (intro refine_intros op_refines descend_refines read_all_leaf_cells_refines)

lemma scan_matches_refines: "refines ok view (scan_matches lib ops fuel root names w) (scan_matches lib store_ops fuel root names w)"
  unfolding scan_matches_def scan_cells_of_def by (intro refine_intros full_scan_refines)

lemma update_targets_refines:
  "refines ok view (update_targets lib ops fuel root names w idx) (update_targets lib store_ops fuel root names w idx)"
  unfolding update_targets_def
  by (auto intro!: refine_intros scan_matches_refines lookup_row_refines split: option.split)

lemma write_row_refines:
  "refines ok view (write_row (quiet ops) fuel root key vals) (write_row (quiet store_ops) fuel root key vals)"
  unfolding write_row_def quiet_simps by (intro refine_intros btree_insert_refines)

lemma execute_update_refines:
  "refines ok view (execute_update lib (quiet ops) fuel stmt params named root cat idx)
     (execute_update lib (quiet store_ops) fuel stmt params named root cat idx)"
  unfolding execute_update_def quiet_simps
  by (intro refine_intros update_targets_refines write_row_refines)

lemma write_one_refines:
  "refines ok view (write_one (quiet ops) fuel root key vals) (write_one (quiet store_ops) fuel root key vals)"
  unfolding write_one_def quiet_simps by (intro refine_intros write_row_refines)

lemma execute_insert_refines:
  "refines ok view (execute_insert lib (quiet ops) fuel stmt params root cat)
     (execute_insert lib (quiet store_ops) fuel stmt params root cat)"
  unfolding execute_insert_def on_conflict_def quiet_simps scan_cells_of_def
  by (intro refine_intros full_scan_refines write_one_refines max_key_refines)

end

section \<open>A run of insertions\<close>

fun run_room :: "nat \<Rightarrow> nat \<Rightarrow> (int \<times> bytes) list \<Rightarrow> nat" where
  \<comment> \<open>how many pages these insertions may add to the file, for a tree of this height whose payloads spill on
     \<open>c\<close> pages\<close>
  "run_room c d [] = 0"
| "run_room c d ((k, v) # kvs) = (c + spill_need v + d + 3) + run_room (c + spill_need v) (d + 1) kvs"

lemma run_room_mono: "c \<le> c' \<Longrightarrow> d \<le> d' \<Longrightarrow> run_room c d kvs \<le> run_room c' d' kvs"
proof (induction kvs arbitrary: c c' d d')
  case (Cons kv kvs)
  obtain k v where kv: "kv = (k, v)" by (cases kv)
  have "run_room (c + spill_need v) (d + 1) kvs \<le> run_room (c' + spill_need v) (d' + 1) kvs"
    by (rule Cons.IH) (use Cons.prems in simp_all)
  then show ?case using Cons.prems by (simp add: kv)
qed simp

definition puts :: "('k \<times> 'v) list \<Rightarrow> ('k \<Rightarrow> 'v option) \<Rightarrow> 'k \<Rightarrow> 'v option" where
  "puts kvs m = fold (\<lambda>(k, v) m. m(k \<mapsto> v)) kvs m"

lemma puts_lookup: "puts kvs m k = (case map_of (rev kvs) k of Some v \<Rightarrow> Some v | None \<Rightarrow> m k)"
proof (induction kvs arbitrary: m)
  case (Cons kv kvs)
  then show ?case by (cases kv) (auto simp: puts_def map_of_append map_add_def split: option.splits)
qed (simp add: puts_def)

definition payload_pages :: "btree \<Rightarrow> nat" where
  \<comment> \<open>the overflow pages of a tree\<close>
  "payload_pages t = cells_need (map cell_kv (cells t))"

lemma cells_need_sum: "distinct (map fst kvs) \<Longrightarrow> cells_need kvs = (\<Sum>k \<in> dom (map_of kvs). spill_need (the (map_of kvs k)))"
proof (induction kvs)
  case (Cons kv kvs)
  obtain k v where kv: "kv = (k, v)" by (cases kv)
  have k: "k \<notin> dom (map_of kvs)" using Cons.prems kv by (simp add: dom_map_of_conv_image_fst)
  then have "(\<Sum>x \<in> dom (map_of kvs). spill_need (the (((map_of kvs)(k \<mapsto> v)) x))) = (\<Sum>x \<in> dom (map_of kvs). spill_need (the (map_of kvs x)))"
    by (intro sum.cong) auto
  moreover have "(\<Sum>x \<in> dom (map_of (kv # kvs)). spill_need (the (map_of (kv # kvs) x))) =
      spill_need v + (\<Sum>x \<in> dom (map_of kvs). spill_need (the (((map_of kvs)(k \<mapsto> v)) x)))"
    using k by (simp add: kv finite_dom_map_of del: fun_upd_apply add: fun_upd_same)
  ultimately show ?case using Cons kv by (simp del: fun_upd_apply)
qed simp

lemma tree_keys_distinct: "tree_at st L d t \<Longrightarrow> distinct (map fst (map cell_kv (cells t)))"
  using ordered_cells [OF tree_at_facts(3)] by (simp add: strict_sorted_iff comp_def)

lemma tree_key_range:
  assumes "tree_at st L d t" and "(k, v) \<in> set (map cell_kv (cells t))"
  shows "0 \<le> k \<and> k < 2 ^ 64"
proof -
  obtain c where c: "c \<in> set (cells t)" "cell_kv c = (k, v)" using assms(2) by auto
  then obtain p cs where "(p, cs) \<in> set (leaf_list t)" "c \<in> set cs" by (auto simp flip: leaf_list_cells)
  then have "cell_ok (st_pages st) c" using tree_leaf_run [OF assms(1)] by (fastforce simp: leaf_run_def leaf_at_def)
  then show ?thesis using c(2) by (cases c) (auto simp: key_ok_def)
qed

lemma payload_pages_grow:
  assumes "tree_at st L d t" and "tree_at st' L' d' t'" and "tree_map t' = (tree_map t)(k \<mapsto> v)"
  shows "payload_pages t' \<le> payload_pages t + spill_need v"
proof -
  let ?f = "\<lambda>k. spill_need (the (tree_map t k))" and ?g = "\<lambda>k. spill_need (the (tree_map t' k))"
  have fin: "finite (dom (tree_map t))" by (simp add: tree_map_def finite_dom_map_of)
  have "payload_pages t' = sum ?g (insert k (dom (tree_map t)))"
    using cells_need_sum [OF tree_keys_distinct [OF assms(2)]] assms(3) by (simp add: payload_pages_def tree_map_def)
  also have "\<dots> = ?g k + sum ?g (dom (tree_map t) - {k})" by (rule sum.insert_remove [OF fin])
  also have "sum ?g (dom (tree_map t) - {k}) = sum ?f (dom (tree_map t) - {k})" by (rule sum.cong) (simp_all add: assms(3))
  also have "\<dots> \<le> sum ?f (dom (tree_map t))" by (rule sum_mono2 [OF fin]) auto
  also have "\<dots> = payload_pages t"
    using cells_need_sum [OF tree_keys_distinct [OF assms(1)]] by (simp add: payload_pages_def tree_map_def)
  finally show ?thesis by (simp add: assms(3))
qed

lemma puts_run:
  assumes "tree_at st L d t" and "st_journal st \<or> st_wal st" and "d + length kvs \<le> fuel"
    and "\<forall>(k, v) \<in> set kvs. 0 \<le> k \<and> k < 2 ^ 64" and "room (run_room (payload_pages t) d kvs) st"
  shows "\<exists>st' L' d' t'. forS (\<lambda>(k, v). btree_insert store_ops cap fuel (tpage t) k v) kvs st = (Inr (), st') \<and>
    tree_at st' L' d' t' \<and> tree_map t' = puts kvs (tree_map t) \<and> tpage t' = tpage t \<and>
    st_journal st' = st_journal st \<and> st_wal st' = st_wal st"
  using assms
proof (induction kvs arbitrary: st L d t)
  case (Cons kv kvs)
  obtain k v where kv: "kv = (k, v)" by (cases kv)
  have k: "0 \<le> k" "k < 2 ^ 64" "d < fuel" using Cons.prems(3,4) kv by auto
  have rm: "room (insert_room t d v) st"
    by (rule room_mono [OF Cons.prems(5)]) (simp add: kv insert_room_def payload_pages_def)
  from btree_insert_run [OF Cons.prems(1) k(3,1,2) Cons.prems(2) rm, of cap]
  obtain st1 L1 d1 t1 where i: "btree_insert store_ops cap fuel (tpage t) k v st = (Inr (), st1)" "tree_at st1 L1 d1 t1"
    "tree_map t1 = (tree_map t)(k \<mapsto> v)" "tpage t1 = tpage t" "st_journal st1 = st_journal st" "st_wal st1 = st_wal st" "d1 \<le> d + 1"
    "store_hdr st HDbSize \<le> store_hdr st1 HDbSize" "store_hdr st1 HDbSize \<le> store_hdr st HDbSize + insert_room t d v" by blast
  have "run_room (payload_pages t1) d1 kvs \<le> run_room (payload_pages t + spill_need v) (d + 1) kvs"
    using payload_pages_grow [OF Cons.prems(1) i(2,3)] i(7) by (rule run_room_mono)
  then have "room (run_room (payload_pages t1) d1 kvs) st1"
    using Cons.prems(5) i(8,9) by (simp add: kv room_def insert_room_def payload_pages_def)
  with Cons.IH [OF i(2)] Cons.prems(2-4) i(5-7) obtain st' L' d' t' where
    "forS (\<lambda>(k, v). btree_insert store_ops cap fuel (tpage t1) k v) kvs st1 = (Inr (), st')"
    "tree_at st' L' d' t'" "tree_map t' = puts kvs (tree_map t1)" "tpage t' = tpage t1" "st_journal st' = st_journal st1"
    "st_wal st' = st_wal st1" by fastforce
  then show ?case
    using i(1,3-6) by (intro exI [of _ st'] exI [of _ L'] exI [of _ d'] exI [of _ t']) (simp add: kv bindS_def puts_def)
qed (auto simp: puts_def)

section \<open>UPDATE\<close>

definition hits :: "pylib \<Rightarrow> pystr list \<Rightarrow> expr option \<Rightarrow> bytes \<Rightarrow> bool" where
  \<comment> \<open>the row satisfies the WHERE clause\<close>
  "hits lib names w payload \<longleftrightarrow>
     (case plain_row names payload of
        Inl e \<Rightarrow> False
      | Inr row \<Rightarrow> (case w of None \<Rightarrow> True | Some p \<Rightarrow> (case eval_expr lib row p of Inr v \<Rightarrow> accepts v | Inl e \<Rightarrow> False)))"

definition readable :: "pylib \<Rightarrow> pystr list \<Rightarrow> expr option \<Rightarrow> bytes \<Rightarrow> bool" where
  \<comment> \<open>the row decodes and the predicate evaluates on it\<close>
  "readable lib names w payload \<longleftrightarrow>
     (\<exists>row. plain_row names payload = Inr row \<and> (\<forall>p. w = Some p \<longrightarrow> (\<exists>v. eval_expr lib row p = Inr v)))"

definition rewrite :: "pystr list \<Rightarrow> (pystr \<times> pyval) list \<Rightarrow> bytes \<Rightarrow> bytes res" where
  \<comment> \<open>the record of the row with the columns set\<close>
  "rewrite names clauses payload =
     encode_record (map (\<lambda>c. case map_of (rev clauses) c of Some v \<Rightarrow> v | None \<Rightarrow> row_get (row_of names payload) c) names)"

lemma row_payload_set: "row_payload names (set_row clauses row) = map (\<lambda>c. case map_of (rev clauses) c of Some v \<Rightarrow> v | None \<Rightarrow> row_get row c) names"
  by (simp add: row_payload_def set_row_def row_get_def map_of_dict_fold map_add_def split: option.split)

definition update_value :: "pylib \<Rightarrow> pystr list \<Rightarrow> expr option \<Rightarrow> (pystr \<times> pyval) list \<Rightarrow> bytes \<Rightarrow> bytes" where
  "update_value lib names w clauses payload =
     (if hits lib names w payload then (case rewrite names clauses payload of Inr b \<Rightarrow> b | Inl e \<Rightarrow> payload) else payload)"

definition writes_fit :: "nat \<Rightarrow> nat \<Rightarrow> btree \<Rightarrow> (int \<times> bytes) list \<Rightarrow> store \<Rightarrow> bool" where
  \<comment> \<open>enough fuel and room in the file for these insertions\<close>
  "writes_fit fuel d t kvs st \<longleftrightarrow> d + length kvs \<le> fuel \<and> room (run_room (payload_pages t) d kvs) st"

lemma matching_rows_run:
  assumes "\<forall>(k, p) \<in> set kvs. readable lib names w p"
  shows "matching_rows lib names w kvs = Inr (map (\<lambda>(k, p). (k, row_of names p)) (filter (\<lambda>(k, p). hits lib names w p) kvs))"
  using assms
proof (induction kvs)
  case (Cons kp kvs)
  obtain k p where kp: "kp = (k, p)" by (cases kp)
  then obtain row where row: "plain_row names p = Inr row" "\<And>e. w = Some e \<Longrightarrow> \<exists>v. eval_expr lib row e = Inr v"
    using Cons.prems by (auto simp: readable_def)
  then show ?case using Cons by (cases w) (auto simp: kp hits_def row_of_def)
qed simp

lemma forS_map: "forS f (map g xs) = forS (\<lambda>x. f (g x)) xs"
  by (induction xs) simp_all

lemma forS_cong: "(\<And>x. x \<in> set xs \<Longrightarrow> f x = g x) \<Longrightarrow> forS f xs = forS g xs"
  by (induction xs) simp_all

definition rewritten :: "pylib \<Rightarrow> pystr list \<Rightarrow> expr option \<Rightarrow> (pystr \<times> pyval) list \<Rightarrow> (int \<times> bytes) list \<Rightarrow> (int \<times> bytes) list" where
  \<comment> \<open>the rows an UPDATE writes\<close>
  "rewritten lib names w clauses kvs =
     map (\<lambda>(k, p). (k, update_value lib names w clauses p)) (filter (\<lambda>(k, p). hits lib names w p) kvs)"

lemma puts_rewritten:
  assumes "distinct (map fst kvs)"
  shows "puts (rewritten lib names w clauses kvs) (map_of kvs) = (\<lambda>k. map_option (update_value lib names w clauses) (map_of kvs k))"
proof
  fix k
  let ?R = "rewritten lib names w clauses kvs"
  have keys: "distinct (map fst ?R)"
    unfolding rewritten_def using assms distinct_filter [OF assms] by (auto simp: distinct_map comp_def case_prod_beta inj_on_def)
  show "puts ?R (map_of kvs) k = map_option (update_value lib names w clauses) (map_of kvs k)"
  proof (cases "map_of kvs k")
    case None
    then have "map_of ?R k = None" by (force simp: map_of_eq_None_iff rewritten_def)
    then show ?thesis using None by (simp add: puts_lookup map_of_rev_distinct [OF keys])
  next
    case (Some p)
    then have mem: "(k, p) \<in> set kvs" by (rule map_of_SomeD)
    show ?thesis
    proof (cases "hits lib names w p")
      case True
      then have "(k, update_value lib names w clauses p) \<in> set ?R" using mem by (force simp: rewritten_def)
      then show ?thesis using Some keys by (simp add: puts_lookup map_of_rev_distinct [OF keys] map_of_is_SomeI)
    next
      case False
      have "map_of ?R k = None"
        using False eq_key_imp_eq_value [OF assms mem] by (auto simp: map_of_eq_None_iff rewritten_def)
      then show ?thesis using Some False by (simp add: puts_lookup map_of_rev_distinct [OF keys] update_value_def)
    qed
  qed
qed

definition update_ok ::
  "pylib \<Rightarrow> update_stmt \<Rightarrow> pyval option list \<Rightarrow> named_params \<Rightarrow> catalog \<Rightarrow> pystr list \<Rightarrow> (pystr \<times> pyval) list \<Rightarrow> expr option \<Rightarrow>
   (int \<Rightarrow> bytes option) \<Rightarrow> bool" where
  \<comment> \<open>the statement binds to these clauses and this predicate, every row can be read, and the new rows can be stored\<close>
  "update_ok lib stmt params named cat names clauses w m \<longleftrightarrow>
     column_names cat (u_table stmt) = Inr names \<and>
     (\<exists>b b'. bind_set lib named (u_set_clauses stmt) (fresh_binding params) = Inr (clauses, b) \<and>
        bind_where named (u_where stmt) b = Inr (w, b')) \<and>
     (\<forall>p \<in> ran m. readable lib names w p \<and> (hits lib names w p \<longrightarrow> (\<exists>b. rewrite names clauses p = Inr b)))"

lemma hits_id:
  \<comment> \<open>under \<open>id = 's'\<close> the rows hit are those whose id is \<open>s\<close>\<close>
  assumes "extract_id_eq e = Some s" and "id_of names p \<noteq> None" and "plain_row names p = Inr row"
  shows "hits lib names (Some e) p \<longleftrightarrow> id_of names p = Some s"
  using id_eq_hit [OF assms(1,3,2), of lib] assms(3) by (auto simp: hits_def)

lemma targets_run:
  assumes t: "tree_at st L d t" "d < fuel" "length (leaves t) < fuel" "length (cells t) < fuel"
    and rd: "\<forall>(k, p) \<in> set (map cell_kv (cells t)). readable lib names w p" and serves: "index_serves names w idx (tree_map t)"
  shows "update_targets lib store_ops fuel (tpage t) names w idx st =
    (Inr (map (\<lambda>(k, p). (k, row_of names p)) (filter (\<lambda>(k, p). hits lib names w p) (map cell_kv (cells t)))), st)"
proof (cases "\<exists>e index s. w = Some e \<and> idx = Some index \<and> extract_id_eq e = Some s")
  case False
  have "scan_matches lib store_ops fuel (tpage t) names w st =
      (Inr (map (\<lambda>(k, p). (k, row_of names p)) (filter (\<lambda>(k, p). hits lib names w p) (map cell_kv (cells t)))), st)"
    using scan_cells_run [OF t] matching_rows_run [OF rd] by (simp add: scan_matches_def bindS_def)
  then show ?thesis using False by (auto simp: update_targets_def split: option.split)
next
  case True
  let ?kvs = "map cell_kv (cells t)"
  obtain e index s where w: "w = Some e" "idx = Some index" "extract_id_eq e = Some s" using True by blast
  then have ex: "exact_index names index (map_of ?kvs)" "found_in_leaf index s (tree_map t)"
    using serves by (simp_all add: index_serves_def tree_map_def)
  note dist = tree_keys_distinct [OF t(1)]
  have row: "\<exists>row. plain_row names p = Inr row \<and> id_of names p \<noteq> None" if "(k, p) \<in> set ?kvs" for k p
  proof -
    have "p \<in> ran (map_of ?kvs)" using map_of_is_SomeI [OF dist that] by (auto simp: ran_def)
    then show ?thesis using that rd ex(1) by (fastforce simp: readable_def exact_index_def)
  qed
  have "filter (\<lambda>(k, p). hits lib names w p) ?kvs = filter (\<lambda>(k, p). id_of names p = Some s) ?kvs"
    by (rule filter_cong) (use row hits_id [OF w(3), of names _ _ lib] w(1) in \<open>fastforce\<close>)+
  note only = this [unfolded exact_filter(1) [OF ex(1) dist]]
  show ?thesis
  proof (cases "index s")
    case None
    then show ?thesis using w only by (simp add: update_targets_def)
  next
    case (Some k)
    then obtain p where p: "tree_map t k = Some p" "id_of names p = Some s" using exact_filter(2) [OF ex(1) dist] by (auto simp: tree_map_def)
    then have "(k, p) \<in> set ?kvs" unfolding tree_map_def by (blast dest: map_of_SomeD)
    then obtain r where r: "plain_row names p = Inr r" using row by blast
    obtain v where "eval_expr lib r e = Inr v" "accepts v" using id_eq_hit [OF w(3) r, of lib] p(2) by fastforce
    moreover have "\<not> spills p" using ex(2) Some p(1) by (simp add: found_in_leaf_def)
    ultimately have "lookup_row lib store_ops fuel (tpage t) names e k st = (Inr (Some r), st)"
      using lookup_row_run(1) [OF t(1,2) p(1) _ r] by simp
    then show ?thesis using w Some only p(1) r by (simp add: update_targets_def bindS_def tree_map_def row_of_def)
  qed
qed

lemma update_run:
  assumes t: "tree_at st L d t" "d < fuel" "length (leaves t) < fuel" "length (cells t) < fuel"
    and mode: "st_journal st \<or> st_wal st" and ok: "update_ok lib stmt params named cat names clauses w (tree_map t)"
    and serves: "index_serves names w idx (tree_map t)"
    and fits: "writes_fit fuel d t (rewritten lib names w clauses (map cell_kv (cells t))) st"
  shows "\<exists>st' L' d' t'. execute_update lib (quiet store_ops) fuel stmt params named (tpage t) cat idx st = (Inr ([], []), st') \<and>
    tree_at st' L' d' t' \<and> tree_map t' = (\<lambda>k. map_option (update_value lib names w clauses) (tree_map t k)) \<and>
    tpage t' = tpage t \<and> st_journal st' = st_journal st \<and> st_wal st' = st_wal st"
proof -
  let ?kvs = "map cell_kv (cells t)"
  have dist: "distinct (map fst ?kvs)" by (rule tree_keys_distinct [OF t(1)])
  have m: "tree_map t = map_of ?kvs" by (simp add: tree_map_def)
  have ran: "p \<in> ran (tree_map t)" if "(k, p) \<in> set ?kvs" for k p
    unfolding m ran_def using map_of_is_SomeI [OF dist that] by blast
  then have rd: "\<forall>(k, p) \<in> set ?kvs. readable lib names w p" using ok unfolding update_ok_def by blast
  obtain b b' where bind: "bind_set lib named (u_set_clauses stmt) (fresh_binding params) = Inr (clauses, b)"
    "bind_where named (u_where stmt) b = Inr (w, b')" "column_names cat (u_table stmt) = Inr names"
    using ok by (auto simp: update_ok_def)
  define hit where "hit = filter (\<lambda>(k, p). hits lib names w p) ?kvs"
  let ?ms = "map (\<lambda>(k, p). (k, row_of names p)) hit"
  have scan: "update_targets lib store_ops fuel (tpage t) names w idx st = (Inr ?ms, st)"
    unfolding hit_def by (rule targets_run [OF t rd serves])
  have put: "write_row (quiet store_ops) fuel (tpage t) k (row_payload names (set_row clauses (row_of names p))) =
      btree_insert store_ops LEAF_MAX_CELLS_default fuel (tpage t) k (update_value lib names w clauses p)"
    if "(k, p) \<in> set hit" for k p
  proof -
    have h: "hits lib names w p" "p \<in> ran (tree_map t)" using that ran [of k p] by (simp_all add: hit_def)
    then obtain x where "rewrite names clauses p = Inr x" using ok by (auto simp: update_ok_def)
    then show ?thesis using h(1) by (simp add: write_row_def row_payload_set rewrite_def update_value_def)
  qed
  have "forS (\<lambda>(key, row). write_row (quiet store_ops) fuel (tpage t) key (row_payload names (set_row clauses row))) ?ms =
      forS (\<lambda>(k, v). btree_insert store_ops LEAF_MAX_CELLS_default fuel (tpage t) k v) (rewritten lib names w clauses ?kvs)"
    unfolding rewritten_def hit_def [symmetric] forS_map by (rule forS_cong) (auto simp: put)
  moreover have "\<forall>(k, v) \<in> set (rewritten lib names w clauses ?kvs). 0 \<le> k \<and> k < 2 ^ 64"
    using tree_key_range [OF t(1)] by (force simp: rewritten_def)
  note puts_run [OF t(1) mode _ this, of fuel LEAF_MAX_CELLS_default]
  ultimately obtain st' L' d' t' where
    run: "forS (\<lambda>(key, row). write_row (quiet store_ops) fuel (tpage t) key (row_payload names (set_row clauses row))) ?ms st = (Inr (), st')"
    and t': "tree_at st' L' d' t'" "tree_map t' = puts (rewritten lib names w clauses ?kvs) (tree_map t)" "tpage t' = tpage t"
      "st_journal st' = st_journal st" "st_wal st' = st_wal st"
    using fits unfolding writes_fit_def by auto
  have "execute_update lib (quiet store_ops) fuel stmt params named (tpage t) cat idx st = (Inr ([], []), st')"
    using bind scan run by (auto simp: execute_update_def bindS_def)
  then show ?thesis using t' puts_rewritten [OF dist] by (auto simp: m)
qed

lemma update_in_txn:
  assumes "between_txns s0" and "tree_at (pager_view s0) L h t" and "h < fuel" "length (leaves t) < fuel" "length (cells t) < fuel"
    and "update_ok lib stmt params named cat names clauses w (tree_map t)"
    and "index_serves names w idx (tree_map t)" and "begin_write s0 = (Inr (), s1)" and "writes_fit fuel h t (rewritten lib names w clauses (map cell_kv (cells t))) (pager_view s0)"
  obtains st L' h' t' where "execute_update lib (quiet store_ops) fuel stmt params named (tpage t) cat idx (pager_view s1) = (Inr ([], []), st)"
    "tree_at st L' h' t'" "tree_map t' = (\<lambda>k. map_option (update_value lib names w clauses) (tree_map t k))" "tpage t' = tpage t"
    "st_journal st"
proof -
  note br = begin_run [OF assms(1,8)]
  have view: "tree_at (pager_view s1) L h t" using assms(2) tree_at_pages(1) [OF br(3)] by simp
  have jr: "st_journal (pager_view s1)" using br(5) by simp
  have "writes_fit fuel h t (rewritten lib names w clauses (map cell_kv (cells t))) (pager_view s1)"
    using assms(9) tree_at_pages(2) [OF br(3)] by (simp add: writes_fit_def)
  from update_run [OF view assms(3-5) disjI1 [OF jr] assms(6,7) this] show thesis using that jr by auto
qed

text \<open>
  C6. UPDATE maps over the rows. In an outer transaction, on a sound table whose rows can be read, an
  UPDATE with any SET list and WHERE clause succeeds, and the table afterwards stores, under the same
  keys, the record with the columns set where the predicate holds, and the old record everywhere else;
  it stays a sound tree at the same root, whatever leaves had to be rewritten or split. This holds with
  the index from ids to row keys the connection passes as without it: where WHERE is \<open>id = 'text'\<close> the
  index has to be exact and the row of that id stored in its leaf, not in an overflow chain. A longer row
  the lookup reads as empty and does not update: \<open>update_by_id_skips_spilled\<close>.
\<close>

theorem update_maps_rows:
  assumes "tree_at st L d t" and "d < fuel" "length (leaves t) < fuel" "length (cells t) < fuel"
    and "st_journal st \<or> st_wal st" and "update_ok lib stmt params named cat names clauses w (tree_map t)"
    and "index_serves names w idx (tree_map t)" and "writes_fit fuel d t (rewritten lib names w clauses (map cell_kv (cells t))) st"
  shows "\<exists>st' L' d' t'. execute_update lib (quiet store_ops) fuel stmt params named (tpage t) cat idx st = (Inr ([], []), st') \<and>
    tree_at st' L' d' t' \<and> tree_map t' = (\<lambda>k. map_option (update_value lib names w clauses) (tree_map t k)) \<and> tpage t' = tpage t"
  using update_run [OF assms] by blast

theorem update_by_id_skips_spilled:
  \<comment> \<open>the lookup reads the pointer of a spilled row as a record: the UPDATE succeeds and changes nothing, although
     the row satisfies WHERE\<close>
  assumes "tree_at st L d t" and "d < fuel" and "update_ok lib stmt params named cat names clauses (Some e) (tree_map t)"
    and "extract_id_eq e = Some s" and "index s = Some k" and "tree_map t k = Some p" "id_of names p = Some s" "spills p"
    and "store_hdr st HDbSize < 2 ^ 24"
  shows "hits lib names (Some e) p \<and>
    execute_update lib (quiet store_ops) fuel stmt params named (tpage t) cat (Some index) st = (Inr ([], []), st)"
proof -
  obtain b b' where bind: "bind_set lib named (u_set_clauses stmt) (fresh_binding params) = Inr (clauses, b)"
    "bind_where named (u_where stmt) b = Inr (Some e, b')" "column_names cat (u_table stmt) = Inr names"
    using assms(3) by (auto simp: update_ok_def)
  obtain row where "plain_row names p = Inr row" using assms(3,6) by (auto simp: update_ok_def readable_def ran_def)
  then have "hits lib names (Some e) p" using hits_id [OF assms(4)] assms(7) by simp
  moreover have "update_targets lib store_ops fuel (tpage t) names (Some e) (Some index) st = (Inr [], st)"
    using lookup_row_run(2) [OF assms(1,2,6,8,9,4)] assms(4,5) by (simp add: update_targets_def bindS_def)
  ultimately show ?thesis using bind by (simp add: execute_update_def bindS_def)
qed

text \<open>
  C2. UPDATE is durable. Between \<open>BEGIN\<close> and \<open>COMMIT\<close> of rollback-journal mode an UPDATE by the scan, or by
  an index from ids to row keys that is exact and finds the row in its leaf, does what it should. With any
  system call of the commit failing and any crash after it: if the commit returned, the file opens again
  and a scan of the table returns the updated rows, whatever the file system does; it returns when no
  system call fails. If it did not return, the file opens on the rows from before or on all rows updated,
  provided the file system keeps the entry of the new journal in its directory (\<open>d_links\<close>; the code never
  syncs that directory, see \<open>journal_entry_lost\<close>).
\<close>

theorem update_durable:
  assumes "between_txns s0" and "tree_at (pager_view s0) L h t" and "h < fuel" "length (leaves t) < fuel" "length (cells t) < fuel"
    and "update_ok lib stmt params named cat names clauses w (tree_map t)" and "index_serves names w idx (tree_map t)"
    and "begin_write s0 = (Inr (), s1)" and "writes_fit fuel h t (rewritten lib names w clauses (map cell_kv (cells t))) (pager_view s0)"
    and "execute_update lib (quiet pg_ops) fuel stmt params named (tpage t) cat idx s1 = (q, s)"
    and "transaction_order s order" and "pager_commit salt order s = (r, s')" and "crash_disk (p_disk s') d"
    and "m = (\<lambda>k. map_option (update_value lib names w clauses) (tree_map t k))"
  shows "q = Inr ([], []) \<and>
    (d_links (p_disk s0) \<longrightarrow> reads_as um mc d (tpage t) (tree_map t) \<or> reads_as um mc d (tpage t) m) \<and>
    (r = Inr () \<longrightarrow> reads_as um mc d (tpage t) m) \<and> (d_budget (p_disk s0) = None \<longrightarrow> r = Inr ())"
proof -
  from update_in_txn [OF assms(1-9)] obtain st L' h' t' where
    u: "execute_update lib (quiet store_ops) fuel stmt params named (tpage t) cat idx (pager_view s1) = (Inr ([], []), st)"
      "tree_at st L' h' t'" "tree_map t' = m" "tpage t' = tpage t" "st_journal st" unfolding assms(14) .
  from txn_commit_run [OF assms(1,2,8) pg.execute_update_refines u(1,2,4,5) assms(10-13)] u(3) show ?thesis by simp
qed

section \<open>An UPDATE on the small table\<close>

lemma table_wal: "st_wal table_store"
  by (simp add: table_store_def one_leaf_store_def fresh_store_def set_page_def split: sum.split)

definition demo_update :: update_stmt where
  \<comment> \<open>\<open>UPDATE t SET n = 9 WHERE id = 'b'\<close>\<close>
  "demo_update = \<lparr>u_table = pystr_of ''t'', u_set_clauses = [(n_col, Literal (PInt 9))], u_where = Some (id_is [98])\<rparr>"

lemma small_rewrite: "a < 128 \<Longrightarrow> b < 128 \<Longrightarrow> 2 \<le> b \<Longrightarrow>
  rewrite [id_col, n_col] [(n_col, PInt 9)] [3, 14, 1, of_nat a, of_nat b] = Inr [3, 14, 1, of_nat a, 9]"
  using demo_record [of 9 a] by (simp add: rewrite_def row_of_def small_row row_get_def table_names)

lemma small_hits: "a < 128 \<Longrightarrow> b < 128 \<Longrightarrow> 2 \<le> b \<Longrightarrow>
  hits plain_lib [id_col, n_col] (Some (id_is [c])) [3, 14, 1, of_nat a, of_nat b] = (a = c)"
  "a < 128 \<Longrightarrow> b < 128 \<Longrightarrow> 2 \<le> b \<Longrightarrow> readable plain_lib [id_col, n_col] (Some (id_is [c])) [3, 14, 1, of_nat a, of_nat b]"
  by (simp_all add: hits_def readable_def small_row id_is_def upper_def upper_char_def pystr_of_def row_get_def
      coerce_for_compare_def sql_compare_def accepts_def)

theorem update_maps_rows_witness:
  "\<exists>st' L' d' t'. execute_update plain_lib (quiet store_ops) 9 demo_update [] None 2 table_catalog (Some demo_index) table_store = (Inr ([], []), st') \<and>
     tree_at st' L' d' t' \<and> tree_map t' = [1 \<mapsto> [3, 14, 1, 97, 3], 2 \<mapsto> [3, 14, 1, 98, 9], 3 \<mapsto> [3, 14, 1, 99, 4]] \<and> tpage t' = 2"
proof -
  let ?names = "[id_col, n_col]" and ?set = "[(n_col, PInt 9)]" and ?w = "Some (id_is [98])"
  note f = small_rewrite [of 97 3, simplified] small_rewrite [of 98 5, simplified] small_rewrite [of 99 4, simplified]
    small_hits [of 97 3, simplified] small_hits [of 98 5, simplified] small_hits [of 99 4, simplified]
  note m = table_map
  have ran: "ran (tree_map (BLeaf 2 table_cells)) = {[3, 14, 1, 97, 3], [3, 14, 1, 98, 5], [3, 14, 1, 99, 4]}"
    unfolding m by (auto simp: ran_map_upd)
  have lit: "Literal (PStr [98]) \<noteq> placeholder" "Literal (PInt 9) \<noteq> placeholder" by (simp_all add: placeholder_def pystr_of_def)
  have "update_ok plain_lib demo_update [] None table_catalog ?names ?set ?w (tree_map (BLeaf 2 table_cells))"
    unfolding update_ok_def ran 
    by (simp add: f column_names_def cat_get_def table_catalog_def demo_update_def bind_where_def fresh_binding_def id_is_def lit f [unfolded id_is_def])
  moreover have "rewritten plain_lib ?names ?w ?set (map cell_kv table_cells) = [(2, [3, 14, 1, 98, 9])]"
    by (simp add: rewritten_def table_cells_def f update_value_def)
  moreover have "payload_pages (BLeaf 2 table_cells) = 0"
    by (simp add: payload_pages_def table_cells_def spill_need_def spills_def OVERFLOW_THRESHOLD_def PAGE_SIZE_def)
  then have "writes_fit 9 0 (BLeaf 2 table_cells) [(2, [3, 14, 1, 98, 9])] table_store"
    using room_mono [OF table_room, of "run_room 0 0 [(2, [3, 14, 1, 98, 9])]"]
    by (simp add: writes_fit_def spill_need_def spills_def OVERFLOW_THRESHOLD_def PAGE_SIZE_def)
  moreover have "(\<lambda>k. map_option (update_value plain_lib ?names ?w ?set) (tree_map (BLeaf 2 table_cells) k)) =
      [1 \<mapsto> [3, 14, 1, 97, 3], 2 \<mapsto> [3, 14, 1, 98, 9], 3 \<mapsto> [3, 14, 1, 99, 4]]"
    unfolding m by (auto simp: f update_value_def)
  ultimately show ?thesis
    using update_maps_rows [OF table_tree, of 9 plain_lib demo_update "[]" None table_catalog ?names ?set ?w "Some demo_index"] table_wal
      demo_index_exact demo_index_leaf
    by (simp add: table_cells_def index_serves_def)
qed

lemma single_map:
  assumes "distinct (map fst kvs)" and "map_of kvs = [k \<mapsto> v]"
  shows "kvs = [(k, v)]"
proof -
  have all: "kv = (k, v)" if "kv \<in> set kvs" for kv
    using map_of_is_SomeI [OF assms(1), of "fst kv" "snd kv"] that assms(2) by (cases kv) (auto split: if_splits)
  have "kvs \<noteq> []" using fun_cong [OF assms(2), of k] by auto
  then obtain kv rest where kvs: "kvs = kv # rest" by (cases kvs) auto
  moreover have "rest = []" using assms(1) all [of kv] all [of "hd rest"] kvs by (cases rest) auto
  ultimately show ?thesis using all by simp
qed

lemma loaded_database:
  \<comment> \<open>a new database after a committed transaction: a table at page 2 with the row \<open>('a', 3)\<close>\<close>
  obtains s0 L h t where "between_txns s0" "tree_at (pager_view s0) L h t" "h \<le> 1" "tpage t = 2" "tree_map t = [1 \<mapsto> [3, 14, 1, 97, 3]]"
    "payload_pages t = 0" "room 900 (pager_view s0)" "d_budget (p_disk s0) = None"
proof -
  let ?v = "[3, 14, 1, 97, 3] :: bytes" and ?t = "BLeaf 2 []"
  from fresh_open_run [of empty_disk True None True] obtain s0 where s0: "between_txns s0" "tree_at (pager_view s0) {2} 0 ?t"
    "room 1000 (pager_view s0)" "d_budget (p_disk s0) = None" by (auto simp: empty_disk_def)
  obtain s1 where s1: "begin_write s0 = (Inr (), s1)" using begin_returns [OF s0(1,4)] .
  note br = begin_run [OF s0(1) s1]
  have need: "insert_room ?t 0 ?v \<le> 10"
    by (simp add: insert_room_def spill_need_def spills_def OVERFLOW_THRESHOLD_def PAGE_SIZE_def)
  have view: "tree_at (pager_view s1) {2} 0 ?t" "room 1000 (pager_view s1)" using s0(2,3) tree_at_pages [OF br(3)] by simp_all
  have mode: "st_journal (pager_view s1) \<or> st_wal (pager_view s1)" using br(5) by simp
  have fits: "(0::nat) < 1" "(0::int) \<le> 1" "(1::int) < 2 ^ 64" "room (insert_room ?t 0 ?v) (pager_view s1)"
    using room_mono [OF view(2)] need by simp_all
  from btree_insert_run [OF view(1) fits(1-3) mode fits(4), of 9] obtain st L h t where
    i: "btree_insert store_ops 9 1 (tpage ?t) 1 ?v (pager_view s1) = (Inr (), st)" "tree_at st L h t"
      "tree_map t = (tree_map ?t)(1 \<mapsto> ?v)" "tpage t = tpage ?t" "st_journal st = st_journal (pager_view s1)" "h \<le> 0 + 1"
      "store_hdr st HDbSize \<le> store_hdr (pager_view s1) HDbSize + insert_room ?t 0 ?v"
      "store_hdr (pager_view s1) HDbSize \<le> store_hdr st HDbSize" by blast
  from pg.run [OF pg.btree_insert_refines br(2) i(1)] obtain s where
    s: "pager_at (p_disk s1) None s" "pager_view s = st" .
  then have "p_journal s \<noteq> None" using i(5) br(5) by auto
  obtain order where "transaction_order s order" using dirty_order [OF s(1)] by blast
  obtain r s' where commit: "pager_commit 5 order s = (r, s')" by fastforce
  note jc = journal_commit_cases [OF s0(1) s1 s(1) \<open>p_journal s \<noteq> None\<close> \<open>transaction_order s order\<close> commit crash_reboot]
  have "r = Inr ()" "d_budget (p_disk s') = None" using jc(3) s0(4) by simp_all
  then have rest: "between_txns s'" "pager_page s' = pager_page s" using jc(2) by simp_all
  have "tree_at (pager_view s') L h t" "room 900 (pager_view s)"
    using i(2,7,8) s(2) need tree_at_pages(1) [OF rest(2)] view(2) by (simp_all add: room_def)
  moreover have "payload_pages t = 0"
    using payload_pages_grow [OF view(1) i(2,3)]
    by (simp add: payload_pages_def spill_need_def spills_def OVERFLOW_THRESHOLD_def PAGE_SIZE_def)
  ultimately show thesis
    using that [of s' L h t] rest i(3,4,6) tree_at_pages(2) [OF rest(2)] \<open>d_budget (p_disk s') = None\<close> by (simp add: tree_map_def)
qed

definition set_all :: update_stmt where
  \<comment> \<open>\<open>UPDATE t SET n = 9\<close>\<close>
  "set_all = \<lparr>u_table = pystr_of ''t'', u_set_clauses = [(n_col, Literal (PInt 9))], u_where = None\<rparr>"

theorem update_durable_witness:
  "\<exists>fuel s0 s1 s order s'. begin_write s0 = (Inr (), s1) \<and>
     execute_update plain_lib (quiet pg_ops) fuel set_all [] None 2 table_catalog None s1 = (Inr ([], []), s) \<and>
     pager_commit 5 order s = (Inr (), s') \<and> reads_as False (Some 3) (reboot (p_disk s')) 2 [1 \<mapsto> [3, 14, 1, 97, 9]]"
proof -
  let ?names = "[id_col, n_col]" and ?set = "[(n_col, PInt 9)]" and ?v = "[3, 14, 1, 97, 3] :: bytes"
  obtain s0 L h t where s0: "between_txns s0" "tree_at (pager_view s0) L h t" "h \<le> 1" "tpage t = 2" "tree_map t = [1 \<mapsto> ?v]"
    "payload_pages t = 0" "room 900 (pager_view s0)" "d_budget (p_disk s0) = None" by (rule loaded_database)
  obtain s1 where s1: "begin_write s0 = (Inr (), s1)" using begin_returns [OF s0(1,8)] .
  define fuel where "fuel = Suc (Suc (length (leaves t) + length (cells t)))"
  have kvs: "map cell_kv (cells t) = [(1, ?v)]"
    using single_map [OF tree_keys_distinct [OF s0(2)]] s0(5) by (simp add: tree_map_def)
  have "hits plain_lib ?names None ?v" "readable plain_lib ?names None ?v" using small_row [of 3 97] by (simp_all add: hits_def readable_def)
  note f = this small_rewrite [of 97 3, simplified]
  have lit: "Literal (PInt 9) \<noteq> placeholder" by (simp add: placeholder_def)
  have ok: "update_ok plain_lib set_all [] None table_catalog ?names ?set None (tree_map t)"
    unfolding s0(5) by (simp add: update_ok_def ran_map_upd f lit column_names_def cat_get_def table_catalog_def set_all_def bind_where_def fresh_binding_def)
  have serves: "index_serves ?names None None (tree_map t)" by (simp add: index_serves_def)
  have new: "rewritten plain_lib ?names None ?set (map cell_kv (cells t)) = [(1, [3, 14, 1, 97, 9])]"
    unfolding kvs by (simp add: rewritten_def f update_value_def)
  have fit: "writes_fit fuel h t (rewritten plain_lib ?names None ?set (map cell_kv (cells t))) (pager_view s0)"
    unfolding new using s0(3,6) room_mono [OF s0(7), of "run_room 0 h [(1, [3, 14, 1, 97, 9])]"]
    by (simp add: writes_fit_def fuel_def spill_need_def spills_def OVERFLOW_THRESHOLD_def PAGE_SIZE_def)
  have fuel: "h < fuel" "length (leaves t) < fuel" "length (cells t) < fuel" using s0(3) by (simp_all add: fuel_def)
  have m: "(\<lambda>k. map_option (update_value plain_lib ?names None ?set) (tree_map t k)) = [1 \<mapsto> [3, 14, 1, 97, 9]]"
    unfolding s0(5) by (auto simp: f update_value_def)
  obtain st where "execute_update plain_lib (quiet store_ops) fuel set_all [] None (tpage t) table_catalog None (pager_view s1) = (Inr ([], []), st)"
    by (rule update_in_txn [OF s0(1,2) fuel ok serves s1 fit])
  from pg.run [OF pg.execute_update_refines begin_run(2) [OF s0(1) s1] this] obtain s where
    s: "execute_update plain_lib (quiet pg_ops) fuel set_all [] None (tpage t) table_catalog None s1 = (Inr ([], []), s)"
      "pager_at (p_disk s1) None s" .
  obtain order where order: "transaction_order s order" using dirty_order [OF s(2)] by blast
  obtain r s' where commit: "pager_commit 5 order s = (r, s')" by fastforce
  from update_durable [OF s0(1,2) fuel ok serves s1 fit s(1) order commit crash_reboot, of _ False "Some 3", OF m [symmetric]] s0(4,8)
  have res: "r = Inr ()" "reads_as False (Some 3) (reboot (p_disk s')) 2 [1 \<mapsto> [3, 14, 1, 97, 9]]" by simp_all
  show ?thesis using s1 s(1) [unfolded s0(4)] commit [unfolded res(1)] res(2) by blast
qed

end
