(* ===== verification/SqlInsert.thy ===== *)
theory SqlInsert
  imports SqlDml
begin

text \<open>
  What an INSERT does to a table: the new row under a fresh key, and the conflict clauses against a
  reference that looks at the rows in key order.
\<close>

section \<open>INSERT\<close>

definition insert_ok :: "insert_stmt \<Rightarrow> pyval option list \<Rightarrow> catalog \<Rightarrow> column_meta list \<Rightarrow> bool" where
  \<comment> \<open>an INSERT into a known table that has nothing to check for conflicts\<close>
  "insert_ok stmt params cat cms \<longleftrightarrow>
     cat_get cat (i_table stmt) = Inr cms \<and> \<not> needs_conflict_scan stmt (conflict_keys_of stmt cms)"

definition fresh_key :: "(int \<Rightarrow> bytes option) \<Rightarrow> int" where
  \<comment> \<open>one past the greatest key\<close>
  "fresh_key m = (if dom m = {} then 1 else Max (dom m) + 1)"

lemma fresh_key_new: "finite (dom m) \<Longrightarrow> fresh_key m \<notin> dom m"
proof
  assume fin: "finite (dom m)" and new: "fresh_key m \<in> dom m"
  then have "fresh_key m = Max (dom m) + 1" by (auto simp: fresh_key_def)
  with Max_ge [OF fin new] show False by simp
qed

lemma tree_map_finite: "finite (dom (tree_map t))"
  by (simp add: tree_map_def finite_dom_map_of)

lemma fresh_key_range: "tree_at st L d t \<Longrightarrow> 0 \<le> fresh_key (tree_map t)"
proof -
  assume t: "tree_at st L d t"
  have "0 \<le> k" if key: "k \<in> dom (tree_map t)" for k
  proof -
    obtain v where "map_of (map cell_kv (cells t)) k = Some v" using key unfolding tree_map_def by blast
    then show ?thesis using tree_key_range [OF t map_of_SomeD] by blast
  qed
  then have "0 \<le> Max (dom (tree_map t))" if "dom (tree_map t) \<noteq> {}"
    using Max_in [OF tree_map_finite that] by blast
  then show ?thesis by (auto simp: fresh_key_def)
qed

lemma write_one_run:
  assumes t: "tree_at st L d t" "d < fuel" and mode: "st_journal st \<or> st_wal st" and k: "0 \<le> k" "k < 2 ^ 64"
    and enc: "encode_record vals = Inr payload" and rm: "room (insert_room t d payload) st"
  shows "\<exists>st' L' d' t'. write_one (quiet store_ops) fuel (tpage t) k vals st = (Inr ([], []), st') \<and> tree_at st' L' d' t' \<and>
    tree_map t' = (tree_map t)(k \<mapsto> payload) \<and> tpage t' = tpage t \<and> st_journal st' = st_journal st \<and> st_wal st' = st_wal st"
proof -
  from btree_insert_run [OF t k mode rm, of LEAF_MAX_CELLS_default] obtain st' L' d' t' where
    "btree_insert store_ops LEAF_MAX_CELLS_default fuel (tpage t) k payload st = (Inr (), st')" "tree_at st' L' d' t'"
    "tree_map t' = (tree_map t)(k \<mapsto> payload)" "tpage t' = tpage t" "st_journal st' = st_journal st" "st_wal st' = st_wal st" by blast
  then show ?thesis
    using enc by (intro exI [of _ st'] exI [of _ L'] exI [of _ d'] exI [of _ t']) (simp add: write_one_def write_row_def bindS_def)
qed

lemma insert_stmt_run:
  assumes t: "tree_at st L d t" "d < fuel" "last_leaf t = [] \<longrightarrow> cells t = []" and mode: "st_journal st \<or> st_wal st"
    and ok: "insert_ok stmt params cat cms" and row: "build_payload (value_map_of (i_columns stmt) params) cms = Inr vals"
    "encode_record vals = Inr payload" and k: "fresh_key (tree_map t) < 2 ^ 64" and rm: "room (insert_room t d payload) st"
  shows "\<exists>st' L' d' t'. execute_insert lib (quiet store_ops) fuel stmt params (tpage t) cat st = (Inr ([], []), st') \<and>
    tree_at st' L' d' t' \<and> tree_map t' = (tree_map t)(fresh_key (tree_map t) \<mapsto> payload) \<and> tpage t' = tpage t \<and>
    st_journal st' = st_journal st \<and> st_wal st' = st_wal st"
proof -
  have "execute_insert lib (quiet store_ops) fuel stmt params (tpage t) cat st =
      write_one (quiet store_ops) fuel (tpage t) (fresh_key (tree_map t)) vals st"
    using ok row(1) max_key_spec [OF t] by (simp add: execute_insert_def insert_ok_def bindS_def fresh_key_def Let_def)
  then show ?thesis using write_one_run [OF t(1,2) mode fresh_key_range [OF t(1)] k row(2) rm] by simp
qed

definition column_value :: "value_map \<Rightarrow> column_meta \<Rightarrow> pyval" where
  \<comment> \<open>what a new row holds in a column: the value of the statement, else the declared default, else NULL\<close>
  "column_value vm cm =
     (case map_of vm (cm_name cm) of
        Some v \<Rightarrow> if v = PNull then (case cm_default cm of Some (Some d) \<Rightarrow> d | _ \<Rightarrow> PNull) else v
      | None \<Rightarrow> (case cm_default cm of Some (Some d) \<Rightarrow> d | _ \<Rightarrow> PNull))"

lemma default_fill_value: "default_fill vm cm = column_value vm cm"
  by (simp add: default_fill_def column_value_def row_get_def none_is_null_def Let_def split: option.split)

text \<open>
  C7. INSERT adds a row. In an outer transaction an INSERT without a conflict clause stores one new row
  under a key no row had, one past the greatest, and leaves every other row as it was. Reading the new row
  back gives the values of the statement under their columns, in storage form, and the declared default
  for a column without a value.
\<close>

theorem insert_adds_row:
  assumes "tree_at st L d t" and "d < fuel" and "last_leaf t = [] \<longrightarrow> cells t = []" and "st_journal st \<or> st_wal st"
    and "insert_ok stmt params cat cms" and "build_payload (value_map_of (i_columns stmt) params) cms = Inr vals"
    and "encode_record vals = Inr payload" and "fresh_key (tree_map t) < 2 ^ 64" and "room (insert_room t d payload) st"
    and "length cms \<le> 1820" "length payload < 2 ^ 62"
  shows "\<exists>st' L' d' t'. execute_insert lib (quiet store_ops) fuel stmt params (tpage t) cat st = (Inr ([], []), st') \<and>
    tree_at st' L' d' t' \<and> fresh_key (tree_map t) \<notin> dom (tree_map t) \<and>
    tree_map t' = (tree_map t)(fresh_key (tree_map t) \<mapsto> payload) \<and>
    plain_row (map cm_name cms) payload =
      Inr (dict_of (zip (map cm_name cms) (map (\<lambda>cm. RecordCodec.stored (column_value (value_map_of (i_columns stmt) params) cm)) cms)))"
proof -
  have vals: "vals = map (default_fill (value_map_of (i_columns stmt) params)) cms"
    using assms(6) by (simp add: build_payload_def Let_def split: if_splits)
  then have "length vals \<le> 1820" using assms(10) by simp
  from small_record_roundtrip [OF assms(7) this assms(11), of "[]" "[]"]
  have "plain_row (map cm_name cms) payload =
      Inr (dict_of (zip (map cm_name cms) (map (\<lambda>cm. RecordCodec.stored (column_value (value_map_of (i_columns stmt) params) cm)) cms)))"
    by (simp add: plain_row_def pad_def vals comp_def default_fill_value)
  then show ?thesis
    using insert_stmt_run [OF assms(1-9)] fresh_key_new [OF tree_map_finite, of t] by blast
qed

section \<open>Conflict clauses\<close>

definition upsert :: "pylib \<Rightarrow> insert_stmt \<Rightarrow> column_meta list \<Rightarrow> value_map \<Rightarrow> (int \<times> bytes) list \<Rightarrow> (int \<times> pyval list) option res" where
  \<comment> \<open>what an INSERT with a conflict clause has to write, given the rows in key order: the first row that agrees on
     the conflict columns is updated, replaced or kept, and without one the row is new\<close>
  "upsert lib stmt cms vm kvs =
     (case find (\<lambda>(k, p). key_match vm (conflict_keys_of stmt cms) (row_of (map cm_name cms) p)) kvs of
        Some (k, p) \<Rightarrow>
          (if i_conflict_action stmt = Some DoUpdate then
             bindR (apply_set lib vm (row_of (map cm_name cms) p) (i_set_clauses stmt) (row_of (map cm_name cms) p)) (\<lambda>row.
             Inr (Some (k, row_payload (map cm_name cms) row)))
           else if i_or_replace stmt then bindR (build_payload vm cms) (\<lambda>vals. Inr (Some (k, vals)))
           else Inr None)
      | None \<Rightarrow> bindR (build_payload vm cms) (\<lambda>vals. Inr (Some (fresh_key (map_of kvs), vals))))"

lemma find_conflict_run:
  assumes "\<forall>(k, p) \<in> set kvs. \<exists>row. plain_row names p = Inr row"
  shows "find_conflict names ks vm kvs =
    Inr (map_option (\<lambda>(k, p). (k, row_of names p)) (find (\<lambda>(k, p). key_match vm ks (row_of names p)) kvs))"
  using assms
proof (induction kvs)
  case (Cons kp kvs)
  then show ?case by (cases kp) (auto simp: row_of_def)
qed simp

lemma next_key_fresh: "distinct (map fst kvs) \<Longrightarrow> next_key (map fst kvs) = fresh_key (map_of kvs)"
  by (cases kvs) (auto simp: next_key_def fresh_key_def dom_map_of_conv_image_fst image_Un)

text \<open>
  C8. Conflict clauses. ON CONFLICT DO UPDATE, INSERT OR REPLACE, OR IGNORE and DO NOTHING find the
  first row, in key order, that agrees with the new values on all conflict columns, where NULL agrees
  with nothing. Then the table changes exactly as the reference says: that row is updated, replaced or
  kept, or a row is added under a new key; nothing else changes.
\<close>

theorem insert_on_conflict:
  assumes "tree_at st L d t" and "d < fuel" "length (leaves t) < fuel" "length (cells t) < fuel"
    and "st_journal st \<or> st_wal st" and "cat_get cat (i_table stmt) = Inr cms"
    and "needs_conflict_scan stmt (conflict_keys_of stmt cms)" and "vm = value_map_of (i_columns stmt) params"
    and "\<forall>p \<in> ran (tree_map t). \<exists>row. plain_row (map cm_name cms) p = Inr row"
    and "upsert lib stmt cms vm (map cell_kv (cells t)) = Inr w"
    and "\<forall>k vals. w = Some (k, vals) \<longrightarrow> k < 2 ^ 64 \<and> (\<exists>b. encode_record vals = Inr b \<and> room (insert_room t d b) st)"
  shows "\<exists>st' L' d' t'. execute_insert lib (quiet store_ops) fuel stmt params (tpage t) cat st = (Inr ([], []), st') \<and>
    tree_at st' L' d' t' \<and> tpage t' = tpage t \<and>
    (case w of None \<Rightarrow> tree_map t' = tree_map t
     | Some (k, vals) \<Rightarrow> \<exists>b. encode_record vals = Inr b \<and> tree_map t' = (tree_map t)(k \<mapsto> b))"
proof -
  let ?kvs = "map cell_kv (cells t)" and ?names = "map cm_name cms"
  note dist = tree_keys_distinct [OF assms(1)]
  have ran: "p \<in> ran (tree_map t)" if "(k, p) \<in> set ?kvs" for k p
    unfolding tree_map_def ran_def using map_of_is_SomeI [OF dist that] by blast
  then have "\<forall>(k, p) \<in> set ?kvs. \<exists>row. plain_row ?names p = Inr row" using assms(9) by blast
  note fc = find_conflict_run [OF this]
  let ?f = "find (\<lambda>(k, p). key_match vm (conflict_keys_of stmt cms) (row_of ?names p)) ?kvs"
  have start: "execute_insert lib (quiet store_ops) fuel stmt params (tpage t) cat st =
      (case ?f of
         Some (k, p) \<Rightarrow> on_conflict lib (quiet store_ops) fuel stmt (tpage t) cms vm k (row_of ?names p) st
       | None \<Rightarrow> bindS (liftR (build_payload vm cms)) (write_one (quiet store_ops) fuel (tpage t) (fresh_key (tree_map t))) st)"
    using assms(6-8) scan_cells_run [OF assms(1-4)] fc next_key_fresh [OF dist]
    by (auto simp: execute_insert_def bindS_def Let_def tree_map_def simp del: map_map split: option.split sum.split)
  have none: ?thesis if "w = None" "execute_insert lib (quiet store_ops) fuel stmt params (tpage t) cat st = (Inr ([], []), st)"
    using that assms(1) by auto
  have some: ?thesis if w: "w = Some (k, vals)" and run: "execute_insert lib (quiet store_ops) fuel stmt params (tpage t) cat st =
      write_one (quiet store_ops) fuel (tpage t) k vals st" and k0: "0 \<le> k" for k vals
  proof -
    obtain b where b: "k < 2 ^ 64" "encode_record vals = Inr b" "room (insert_room t d b) st" using assms(11) w by blast
    from write_one_run [OF assms(1,2,5) k0 b] show ?thesis using run w b(2) by auto
  qed
  show ?thesis
  proof (cases ?f)
    case None
    then obtain vals where "build_payload vm cms = Inr vals" "w = Some (fresh_key (tree_map t), vals)"
      using assms(10) by (auto simp: upsert_def tree_map_def bindR_eq_Inr_iff)
    then show ?thesis using start None fresh_key_range [OF assms(1)] by (intro some [of "fresh_key (tree_map t)" vals]) simp_all
  next
    case (Some kp)
    obtain k p where kp: "kp = (k, p)" by (cases kp)
    have "(k, p) \<in> set ?kvs" using Some kp by (auto simp: find_Some_iff in_set_conv_nth simp del: set_map)
    then have k0: "0 \<le> k" using tree_key_range [OF assms(1)] by blast
    consider "i_conflict_action stmt = Some DoUpdate" | "i_conflict_action stmt \<noteq> Some DoUpdate" "i_or_replace stmt"
      | "i_conflict_action stmt \<noteq> Some DoUpdate" "\<not> i_or_replace stmt" by blast
    then show ?thesis
    proof cases
      case 1
      then obtain row where "apply_set lib vm (row_of ?names p) (i_set_clauses stmt) (row_of ?names p) = Inr row"
        "w = Some (k, row_payload ?names row)"
        using assms(10) Some kp by (auto simp: upsert_def bindR_eq_Inr_iff)
      then show ?thesis using start Some kp 1 k0 by (intro some [of k "row_payload ?names row"]) (simp_all add: on_conflict_def)
    next
      case 2
      then obtain vals where "build_payload vm cms = Inr vals" "w = Some (k, vals)"
        using assms(10) Some kp by (auto simp: upsert_def bindR_eq_Inr_iff)
      then show ?thesis using start Some kp 2 k0 by (intro some [of k vals]) (simp_all add: on_conflict_def)
    next
      case 3
      then have "w = None" using assms(10) Some kp by (simp add: upsert_def)
      then show ?thesis using start Some kp 3 by (intro none) (simp_all add: on_conflict_def)
    qed
  qed
qed

section \<open>Rows inserted into the small table\<close>

definition demo_insert :: insert_stmt where
  \<comment> \<open>\<open>INSERT INTO t (id) VALUES (?)\<close>\<close>
  "demo_insert = \<lparr>i_table = pystr_of ''t'', i_columns = [id_col], i_values = [placeholder], i_or_ignore = False, i_or_replace = False,
     i_conflict_keys = [], i_conflict_action = None, i_set_clauses = []\<rparr>"

definition demo_upsert :: insert_stmt where
  \<comment> \<open>\<open>INSERT INTO t (id, n) VALUES (?, ?) ON CONFLICT (id) DO UPDATE SET n = excluded.n\<close>\<close>
  "demo_upsert = \<lparr>i_table = pystr_of ''t'', i_columns = [id_col, n_col], i_values = [placeholder, placeholder], i_or_ignore = False,
     i_or_replace = False, i_conflict_keys = [id_col], i_conflict_action = Some DoUpdate, i_set_clauses = [(n_col, ExcludedRef n_col)]\<rparr>"

lemma table_next: "tree_map (BLeaf 2 table_cells) = [1 \<mapsto> [3, 14, 1, 97, 3], 2 \<mapsto> [3, 14, 1, 98, 5], 3 \<mapsto> [3, 14, 1, 99, 4]]"
  "fresh_key (tree_map (BLeaf 2 table_cells)) = 4"
proof -
  show m: "tree_map (BLeaf 2 table_cells) = [1 \<mapsto> [3, 14, 1, 97, 3], 2 \<mapsto> [3, 14, 1, 98, 5], 3 \<mapsto> [3, 14, 1, 99, 4]]"
    by (auto simp: tree_map_def table_cells_def)
  show "fresh_key (tree_map (BLeaf 2 table_cells)) = 4" unfolding m by (simp add: fresh_key_def)
qed

lemma small_write_room: "room (insert_room (BLeaf 2 table_cells) 0 [3, 14, 1, x, y]) table_store"
  by (rule room_mono [OF table_room])
    (simp add: insert_room_def table_cells_def spill_need_def spills_def OVERFLOW_THRESHOLD_def PAGE_SIZE_def)

lemma table_columns:
  obtains cms where "cat_get table_catalog (pystr_of ''t'') = Inr cms" "map cm_name cms = [id_col, n_col]" "length cms = 2"
    "build_payload [(id_col, PStr [100])] cms = Inr [PStr [100], PInt 7]"
    "build_payload [(id_col, PStr [98]), (n_col, PInt 8)] cms = Inr [PStr [98], PInt 8]"
    "conflict_keys_of demo_insert cms = []"
  by (rule that [of "snd (hd (cat_tables table_catalog))"])
    (simp_all add: cat_get_def table_catalog_def build_payload_def default_fill_def none_is_null_def row_get_def table_names conflict_keys_of_def demo_insert_def)

theorem insert_adds_row_witness:
  "\<exists>st' L' d' t'. execute_insert plain_lib (quiet store_ops) 9 demo_insert [Some (PStr [100])] 2 table_catalog table_store =
       (Inr ([], []), st') \<and> tree_at st' L' d' t' \<and>
     tree_map t' = [1 \<mapsto> [3, 14, 1, 97, 3], 2 \<mapsto> [3, 14, 1, 98, 5], 3 \<mapsto> [3, 14, 1, 99, 4], 4 \<mapsto> [3, 14, 1, 100, 7]]"
proof -
  obtain cms where c: "cat_get table_catalog (pystr_of ''t'') = Inr cms" "length cms = 2"
    "build_payload [(id_col, PStr [100])] cms = Inr [PStr [100], PInt 7]" "conflict_keys_of demo_insert cms = []"
    by (rule table_columns)
  have ok: "insert_ok demo_insert [Some (PStr [100])] table_catalog cms"
    using c by (simp add: insert_ok_def needs_conflict_scan_def) (simp add: demo_insert_def)
  have vals: "build_payload (value_map_of (i_columns demo_insert) [Some (PStr [100])]) cms = Inr [PStr [100], PInt 7]"
    using c(3) by (simp add: value_map_of_def none_is_null_def demo_insert_def dict_of_def)
  have rest: "(0::nat) < 9" "last_leaf (BLeaf 2 table_cells) = [] \<longrightarrow> cells (BLeaf 2 table_cells) = []" "st_journal table_store \<or> st_wal table_store"
    "encode_record [PStr [100], PInt 7] = Inr [3, 14, 1, 100, 7]" "fresh_key (tree_map (BLeaf 2 table_cells)) < 2 ^ 64" "length cms \<le> 1820"
    "length ([3, 14, 1, 100, 7] :: bytes) < 2 ^ 62"
    using table_wal demo_record [of 7 100] c(2) table_next(2) by (simp_all add: table_next(1) last_leaf_def)
  note run = insert_adds_row [OF table_tree rest(1-3) ok vals rest(4,5) small_write_room rest(6,7), unfolded table_next(2) tpage.simps, unfolded table_next(1)]
  from run [of plain_lib] show ?thesis by blast
qed

theorem insert_on_conflict_witness:
  "\<exists>st' L' d' t'. execute_insert plain_lib (quiet store_ops) 9 demo_upsert [Some (PStr [98]), Some (PInt 8)] 2 table_catalog table_store =
       (Inr ([], []), st') \<and> tree_at st' L' d' t' \<and>
     tree_map t' = [1 \<mapsto> [3, 14, 1, 97, 3], 2 \<mapsto> [3, 14, 1, 98, 8], 3 \<mapsto> [3, 14, 1, 99, 4]]"
proof -
  let ?vm = "[(id_col, PStr [98]), (n_col, PInt 8)]"
  obtain cms where c: "cat_get table_catalog (pystr_of ''t'') = Inr cms" "map cm_name cms = [id_col, n_col]" by (rule table_columns)
  have vm: "?vm = value_map_of (i_columns demo_upsert) [Some (PStr [98]), Some (PInt 8)]"
    by (simp add: value_map_of_def none_is_null_def demo_upsert_def dict_of_def table_names)
  have keys: "conflict_keys_of demo_upsert cms = [id_col]" "needs_conflict_scan demo_upsert [id_col]"
    by (simp_all add: conflict_keys_of_def demo_upsert_def needs_conflict_scan_def)
  note rows = small_row [of 3 97, simplified] small_row [of 5 98, simplified] small_row [of 4 99, simplified]
  have ran: "\<forall>p \<in> ran (tree_map (BLeaf 2 table_cells)). \<exists>row. plain_row (map cm_name cms) p = Inr row"
    unfolding table_next c(2) by (auto simp: ran_map_upd rows)
  have ups: "upsert plain_lib demo_upsert cms ?vm (map cell_kv table_cells) = Inr (Some (2, [PStr [98], PInt 8]))"
    unfolding upsert_def c(2) keys
    by (simp add: table_cells_def row_of_def rows key_match_def row_get_def sql_compare_def demo_upsert_def table_names row_payload_def pystr_of_def)
  have rest: "(0::nat) < 9" "length (leaves (BLeaf 2 table_cells)) < 9" "length (cells (BLeaf 2 table_cells)) < 9"
    "st_journal table_store \<or> st_wal table_store" "cat_get table_catalog (i_table demo_upsert) = Inr cms"
    "needs_conflict_scan demo_upsert (conflict_keys_of demo_upsert cms)"
    "encode_record [PStr [98], PInt 8] = Inr [3, 14, 1, 98, 8]"
    using table_wal demo_record [of 8 98] c(1) keys by (simp_all add: table_cells_def) (simp add: demo_upsert_def)
  have fits: "\<forall>k vals. Some (2 :: int, [PStr [98], PInt 8]) = Some (k, vals) \<longrightarrow>
      k < 2 ^ 64 \<and> (\<exists>b. encode_record vals = Inr b \<and> room (insert_room (BLeaf 2 table_cells) 0 b) table_store)"
    using rest(7) small_write_room by auto
  have "map cell_kv (cells (BLeaf 2 table_cells)) = map cell_kv table_cells" by simp
  note run = insert_on_conflict [OF table_tree rest(1-6) vm ran ups [folded this] fits, unfolded table_next tpage.simps option.case prod.case]
  from run obtain st' L' d' t' b where
    r: "execute_insert plain_lib (quiet store_ops) 9 demo_upsert [Some (PStr [98]), Some (PInt 8)] 2 table_catalog table_store = (Inr ([], []), st')"
      "tree_at st' L' d' t'" "encode_record [PStr [98], PInt 8] = Inr b"
      "tree_map t' = [1 \<mapsto> [3, 14, 1, 97, 3], 2 \<mapsto> [3, 14, 1, 98, 5], 3 \<mapsto> [3, 14, 1, 99, 4], 2 \<mapsto> b]" by blast
  have "b = [3, 14, 1, 98, 8]" using r(3) rest(7) by simp
  then have "tree_map t' = [1 \<mapsto> [3, 14, 1, 97, 3], 2 \<mapsto> [3, 14, 1, 98, 8], 3 \<mapsto> [3, 14, 1, 99, 4]]"
    unfolding r(4) by (intro ext) simp
  then show ?thesis using r(1,2) by blast
qed

end
