(* ===== verification/Integrity.thy ===== *)
theory Integrity
  imports InsertMap
begin

text \<open>
  The structural checker of \<open>check_integrity.py\<close>: the walk of the tree and of its overflow chains,
  the freelist, the accounting of pages, and the leaf chain. A violation is a value with the data of its
  message. The recursion and the loops have fuel; none of them visits a page twice, so one unit per page
  of the file is enough.
\<close>

datatype violation =
    ChainCycle nat | ChainOutside nat nat | ChainShort nat nat nat | ChainLength nat nat nat | ChainUnreadable nat pyerr
  | PageOutside nat nat | PageTwice nat | PageKind nat pyerr | LeafOrder nat nat | InteriorOrder nat nat
  | ChildCount nat nat nat | ChildOutside nat nat nat | UnevenDepth nat nat nat | BadDbSize nat | RootOutside nat nat
  | FreelistCorrupt pyerr | LiveAndFree "nat list" | Orphan nat | FreeCount nat nat | GlobalOrder nat
  | SiblingOutside nat nat | SiblingCycle nat | SiblingOrder "nat list" "nat list"
  | NodeAndOverflow "nat list" | FreeAndOverflow "nat list"

record walk =
  w_visited :: "nat set"
  w_leaves :: "nat list" \<comment> \<open>\<open>leaf_order\<close>\<close>
  w_errors :: "violation list"
  w_overflow :: "nat set"

definition report :: "violation list \<Rightarrow> walk \<Rightarrow> walk" where
  "report vs w = w\<lparr>w_errors := w_errors w @ vs\<rparr>"

section \<open>Overflow chains\<close>

fun walk_chain_loop :: "'s pager_ops \<Rightarrow> nat \<Rightarrow> nat \<Rightarrow> nat \<Rightarrow> nat \<Rightarrow> nat set \<Rightarrow> walk \<Rightarrow> ('s, nat option \<times> walk) pm" where
  \<comment> \<open>the \<open>while\<close> loop: the bytes collected, or nothing after an early return\<close>
  "walk_chain_loop ops db_size 0 current collected seen w = raiseS Diverges"
| "walk_chain_loop ops db_size (Suc fuel) current collected seen w =
     (if current = 0 then retS (Some collected, w)
      else if current \<in> seen then retS (None, report [ChainCycle current] w)
      else if current < 1 \<or> db_size < current then retS (None, report [ChainOutside current db_size] w)
      else
        bindS (op_read_page ops current) (\<lambda>page_data.
        bindS (liftR (unpack_from 4 page_data OVERFLOW_NEXT_OFFSET)) (\<lambda>next_pg.
        walk_chain_loop ops db_size fuel next_pg (collected + (length page_data - OVERFLOW_DATA_OFFSET)) (insert current seen)
          (w\<lparr>w_overflow := insert current (w_overflow w)\<rparr>))))"

definition catchS :: "('s, 'a) pm \<Rightarrow> ('s, 'a res) pm" where
  \<comment> \<open>\<open>try ... except Exception as exc\<close>: the outcome as a value\<close>
  "catchS m = (\<lambda>s. case m s of (r, s') \<Rightarrow> (Inr r, s'))"

definition walk_overflow_chain :: "'s pager_ops \<Rightarrow> nat \<Rightarrow> nat \<Rightarrow> nat \<Rightarrow> walk \<Rightarrow> ('s, walk) pm" where
  "walk_overflow_chain ops db_size first_page_no total_len w =
     bindS (walk_chain_loop ops db_size (db_size + 2) first_page_no 0 {} w) (\<lambda>(result, w1).
     case result of
       None \<Rightarrow> retS w1
     | Some collected \<Rightarrow>
         if collected < total_len then retS (report [ChainShort first_page_no collected total_len] w1)
         else
           bindS (catchS (read_overflow_chain ops first_page_no total_len)) (\<lambda>outcome.
           case outcome of
             Inl e \<Rightarrow> retS (report [ChainUnreadable first_page_no e] w1)
           | Inr reassembled \<Rightarrow>
               retS (if length reassembled \<noteq> total_len
                     then report [ChainLength first_page_no (length reassembled) total_len] w1 else w1)))"

fun walk_cells :: "'s pager_ops \<Rightarrow> nat \<Rightarrow> bytes \<Rightarrow> nat list \<Rightarrow> walk \<Rightarrow> ('s, walk) pm" where
  \<comment> \<open>the loop over the cells of a leaf\<close>
  "walk_cells ops db_size page [] w = retS w"
| "walk_cells ops db_size page (ci # cis) w =
     bindS (liftR (cell_head page ci)) (\<lambda>(cell_ptr, key, kn, payload_len, vn).
     bindS (if OVERFLOW_THRESHOLD < payload_len then
              bindS (liftR (unpack_from 4 page (cell_ptr + kn + vn))) (\<lambda>first_ovf.
              walk_overflow_chain ops db_size first_ovf payload_len w)
            else retS w) (\<lambda>w1.
     walk_cells ops db_size page cis w1))"

section \<open>The tree\<close>

definition disorder :: "int list \<Rightarrow> nat list" where
  \<comment> \<open>the positions whose key is not above the key before it\<close>
  "disorder keys = filter (\<lambda>i. keys ! i \<le> keys ! (i - 1)) [1..<length keys]"

definition walk_leaf :: "'s pager_ops \<Rightarrow> nat \<Rightarrow> nat \<Rightarrow> bytes \<Rightarrow> walk \<Rightarrow> ('s, walk) pm" where
  "walk_leaf ops db_size page_no page w =
     bindS (read_all_leaf_cells None page) (\<lambda>cells.
     bindS (walk_cells ops db_size page [0..<length cells] (report (map (LeafOrder page_no) (disorder (map fst cells))) w)) (\<lambda>w1.
     retS (w1\<lparr>w_leaves := w_leaves w1 @ [page_no]\<rparr>)))"

definition check_children :: "nat \<Rightarrow> nat \<Rightarrow> int list \<Rightarrow> nat list \<Rightarrow> violation list" where
  "check_children db_size page_no node_keys children =
     map (InteriorOrder page_no) (disorder node_keys) @
     (if length children \<noteq> length node_keys + 1 then [ChildCount page_no (length children) (length node_keys + 1)] else []) @
     map (\<lambda>c. ChildOutside page_no c db_size) (filter (\<lambda>c. c < 1 \<or> db_size < c) children)"

fun walk_children :: "(nat \<Rightarrow> walk \<Rightarrow> ('s, nat option \<times> walk) pm) \<Rightarrow> nat list \<Rightarrow> walk \<Rightarrow> ('s, nat list \<times> walk) pm" where
  \<comment> \<open>the loop over the children: the leaf depths found\<close>
  "walk_children f [] w = retS ([], w)"
| "walk_children f (c # cs) w =
     bindS (f c w) (\<lambda>(d, w1).
     bindS (walk_children f cs w1) (\<lambda>(ds, w2). retS (case d of Some x \<Rightarrow> x # ds | None \<Rightarrow> ds, w2)))"

definition join_depths :: "nat \<Rightarrow> nat list \<Rightarrow> walk \<Rightarrow> nat option \<times> walk" where
  "join_depths page_no leaf_depths w =
     (case leaf_depths of
        [] \<Rightarrow> (None, w)
      | first_depth # ds \<Rightarrow> (Some first_depth, report (map (UnevenDepth page_no first_depth) (filter (\<lambda>ld. ld \<noteq> first_depth) ds)) w))"

fun walk_tree :: "nat \<Rightarrow> 's pager_ops \<Rightarrow> nat \<Rightarrow> nat \<Rightarrow> nat \<Rightarrow> walk \<Rightarrow> ('s, nat option \<times> walk) pm" where
  "walk_tree 0 ops db_size depth page_no w = raiseS Diverges"
| "walk_tree (Suc fuel) ops db_size depth page_no w =
     (if page_no < 1 \<or> db_size < page_no then retS (None, report [PageOutside page_no db_size] w)
      else if page_no \<in> w_visited w then retS (None, report [PageTwice page_no] w)
      else
        let w0 = w\<lparr>w_visited := insert page_no (w_visited w)\<rparr> in
        bindS (op_read_page ops page_no) (\<lambda>page.
        case page_type page of
          Inl e \<Rightarrow> (if e = ValueError then retS (None, report [PageKind page_no e] w0) else raiseS e)
        | Inr ptype \<Rightarrow>
            if ptype = PAGE_LEAF_TABLE then
              bindS (walk_leaf ops db_size page_no page w0) (\<lambda>w1. retS (Some depth, w1))
            else
              bindS (liftR (read_interior_node page)) (\<lambda>(node_keys, children).
              bindS (walk_children (walk_tree fuel ops db_size (depth + 1)) children
                       (report (check_children db_size page_no node_keys children) w0)) (\<lambda>(leaf_depths, w1).
              retS (join_depths page_no leaf_depths w1)))))"

section \<open>The leaf chain\<close>

fun walk_siblings ::
  "nat \<Rightarrow> 's pager_ops \<Rightarrow> nat \<Rightarrow> nat \<Rightarrow> nat set \<Rightarrow> nat list \<Rightarrow> violation list \<Rightarrow> ('s, nat list \<times> violation list) pm" where
  "walk_siblings 0 ops db_size current seen links errors = raiseS Diverges"
| "walk_siblings (Suc fuel) ops db_size current seen links errors =
     (if current = 0 then retS (links, errors)
      else if db_size < current \<or> current < 1 then retS (links, errors @ [SiblingOutside current db_size])
      else if current \<in> seen then retS (links, errors @ [SiblingCycle current])
      else
        bindS (get_next_leaf ops current) (\<lambda>next_no.
        walk_siblings fuel ops db_size next_no (insert current seen) (links @ [current]) errors))"

definition about_siblings :: "violation \<Rightarrow> bool" where
  \<comment> \<open>the messages that contain the word sibling\<close>
  "about_siblings v \<longleftrightarrow> (case v of SiblingOutside p n \<Rightarrow> True | SiblingCycle p \<Rightarrow> True | SiblingOrder a b \<Rightarrow> True | _ \<Rightarrow> False)"

definition check_siblings :: "'s pager_ops \<Rightarrow> nat \<Rightarrow> nat list \<Rightarrow> violation list \<Rightarrow> ('s, violation list) pm" where
  "check_siblings ops db_size leaf_order errors =
     (case leaf_order of
        [] \<Rightarrow> retS errors
      | leftmost # _ \<Rightarrow>
          bindS (walk_siblings (db_size + 2) ops db_size leftmost {} [] errors) (\<lambda>(sibling_chain, errors1).
          retS (if sibling_chain \<noteq> leaf_order \<and> (errors1 = [] \<or> \<not> (\<exists>e \<in> set errors1. about_siblings e))
                then errors1 @ [SiblingOrder sibling_chain leaf_order] else errors1)))"

definition leaf_keys :: "'s pager_ops \<Rightarrow> nat \<Rightarrow> ('s, int list) pm" where
  "leaf_keys ops leaf_no =
     bindS (op_read_page ops leaf_no) (\<lambda>page. bindS (read_all_leaf_cells None page) (\<lambda>cells. retS (map fst cells)))"

section \<open>The check\<close>

definition finish_check :: "bool \<Rightarrow> violation list \<Rightarrow> ('s, violation list) pm" where
  \<comment> \<open>the list, or an \<open>IntegrityError\<close> if there is something to report and the caller asked for it\<close>
  "finish_check raise_on_error errors = (if raise_on_error \<and> errors \<noteq> [] then raiseS RuntimeErr else retS errors)"

definition safe_freelist :: "'s pager_ops \<Rightarrow> ('s, nat set \<times> violation list) pm" where
  "safe_freelist ops =
     bindS (catchS (freelist_pages ops)) (\<lambda>outcome.
     case outcome of
       Inr free_set \<Rightarrow> retS (free_set, [])
     | Inl e \<Rightarrow> (if e = FreelistCorruptionError then retS ({}, [FreelistCorrupt e]) else raiseS e))"

definition some_pages :: "nat set \<Rightarrow> (nat list \<Rightarrow> violation) \<Rightarrow> violation list" where
  "some_pages S v = (if S \<noteq> {} then [v (sorted_list_of_set S)] else [])"

definition check_pages :: "nat \<Rightarrow> nat \<Rightarrow> nat set \<Rightarrow> walk \<Rightarrow> violation list" where
  \<comment> \<open>no page is live and free, none is lost, and the header counts the free pages\<close>
  "check_pages db_size header_count free_set w =
     some_pages (w_visited w \<inter> free_set) LiveAndFree @
     map Orphan (filter (\<lambda>p. p \<notin> w_visited w \<and> p \<notin> free_set \<and> p \<notin> w_overflow w) [2..<db_size + 1]) @
     (if header_count \<noteq> card free_set then [FreeCount header_count (card free_set)] else [])"

definition check_integrity :: "'s pager_ops \<Rightarrow> bool \<Rightarrow> ('s, violation list) pm" where
  "check_integrity ops raise_on_error =
     bindS (op_read_hdr ops HDbSize) (\<lambda>db_size.
     let root = op_root_page_no ops in
     if db_size < 1 then finish_check raise_on_error [BadDbSize db_size]
     else if root < 1 \<or> db_size < root then finish_check raise_on_error [RootOutside root db_size]
     else
       bindS (walk_tree (db_size + 1) ops db_size 0 root \<lparr>w_visited = {}, w_leaves = [], w_errors = [], w_overflow = {}\<rparr>) (\<lambda>(depth, w).
       bindS (safe_freelist ops) (\<lambda>(free_set, corrupt).
       bindS (op_read_hdr ops HFreelistCount) (\<lambda>header_count.
       bindS (mapS (leaf_keys ops) (w_leaves w)) (\<lambda>keys.
       bindS (check_siblings ops db_size (w_leaves w)
                (w_errors w @ corrupt @ check_pages db_size header_count free_set w @
                 map GlobalOrder (take 1 (disorder (concat keys))))) (\<lambda>errors.
       finish_check raise_on_error
         (errors @ some_pages (w_visited w \<inter> w_overflow w) NodeAndOverflow @ some_pages (free_set \<inter> w_overflow w) FreeAndOverflow)))))))"

end
