(* ===== verification/IntegrityClean.thy ===== *)
theory IntegrityClean
  imports Integrity
begin

text \<open>
  A sound database passes the check: the walk of a stored tree sees its nodes, its leaves in order and
  its overflow pages, and reports nothing; with the accounting of the pages complete the whole check
  returns the empty list. An insertion keeps that.
\<close>

section \<open>Overflow chains\<close>

lemma walk_chain_loop_run:
  assumes "ovf_chain (st_pages st) ps data" and "distinct ps" and "set ps \<inter> seen = {}"
    and "\<forall>p \<in> set ps. 0 < p \<and> p \<le> db_size" and "length ps < fuel"
  shows "\<exists>c. walk_chain_loop store_ops db_size fuel (first_page ps) collected seen w st =
      (Inr (Some c, w\<lparr>w_overflow := set ps \<union> w_overflow w\<rparr>), st) \<and> collected + length data \<le> c"
  using assms
proof (induction ps arbitrary: data seen collected w fuel)
  case Nil
  then show ?case by (cases fuel) simp_all
next
  case (Cons p ps)
  obtain n where n: "fuel = Suc n" "length ps < n" using Cons.prems(5) by (cases fuel) simp_all
  obtain rest where p: "unpack_from 4 (st_pages st p) 0 = Inr (first_page ps)"
    "drop 4 (st_pages st p) = take OVERFLOW_USABLE data @ rest" "ovf_chain (st_pages st) ps (drop OVERFLOW_USABLE data)"
    using Cons.prems(1) by auto
  have "length data \<le> (length (st_pages st p) - 4) + length (drop OVERFLOW_USABLE data)"
    using arg_cong [OF p(2), of length] by simp
  moreover have "set ps \<inter> insert p seen = {}" "distinct ps" "\<forall>q \<in> set ps. 0 < q \<and> q \<le> db_size" using Cons.prems by auto
  note Cons.IH [OF p(3) this(2,1,3) n(2), of "collected + (length (st_pages st p) - 4)" "w\<lparr>w_overflow := insert p (w_overflow w)\<rparr>"]
  ultimately show ?case
    using Cons.prems(3,4) p(1) by (fastforce simp: n(1) bindS_def store_run overflow_offsets)
qed

lemma walk_overflow_chain_run:
  assumes "ovf_chain (st_pages st) ps data" and "distinct ps" and "space st L" "set ps \<subseteq> L" and "db_size = store_hdr st HDbSize"
  shows "walk_overflow_chain store_ops db_size (first_page ps) (length data) w st = (Inr (w\<lparr>w_overflow := set ps \<union> w_overflow w\<rparr>), st)"
proof -
  have r: "\<forall>p \<in> set ps. 0 < p \<and> p \<le> db_size" using space_page [OF assms(3)] assms(4,5) by fastforce
  then have "card (set ps) \<le> card {1..db_size}" by (intro card_mono) auto
  then have "length ps < db_size + 2" using distinct_card [OF assms(2)] by simp
  with walk_chain_loop_run [OF assms(1,2) _ r, of "{}" "db_size + 2" 0 w] obtain c where
    "walk_chain_loop store_ops db_size (db_size + 2) (first_page ps) 0 {} w st = (Inr (Some c, w\<lparr>w_overflow := set ps \<union> w_overflow w\<rparr>), st)"
    "length data \<le> c" by auto
  then show ?thesis
    using read_overflow_chain_run [OF assms(1-4)] by (simp add: walk_overflow_chain_def bindS_def catchS_def)
qed

section \<open>Leaves\<close>

lemma cell_chain_pointer:
  assumes at: "cell_at pg LEAF_PTR_ARRAY_START i (cell_raw (k, v, ps))" and ok: "cell_ok pgs (k, v, ps)"
  obtains ptr kn vn where "cell_head pg i = Inr (ptr, nat k, kn, length v, vn)"
    "spills v \<Longrightarrow> unpack_from 4 pg (ptr + kn + vn) = Inr (first_page ps)"
proof -
  obtain ptr where h: "cell_head pg i =
       Inr (ptr, nat k, length (encode_varint k), length v, length (encode_varint (int (length v))))"
    "ptr + length (cell_raw (k, v, ps)) \<le> length pg"
    "drop (ptr + length (encode_varint k) + length (encode_varint (int (length v)))) pg =
       (if spills v then be_bytes 4 (first_page ps) else v) @ drop (ptr + length (cell_raw (k, v, ps))) pg"
    using cell_head_ok [OF at ok] by blast
  show thesis
  proof (rule that [OF h(1)])
    assume s: "spills v"
    let ?o = "ptr + length (encode_varint k) + length (encode_varint (int (length v)))"
    have "pyslice pg ?o (?o + 4) = be_bytes 4 (first_page ps)" using h(3) s by (simp add: pyslice_def)
    moreover have "?o + 4 \<le> length pg" using h(2) s by simp
    moreover have "first_page ps < 2 ^ 32" using ok s by simp
    ultimately show "unpack_from 4 pg ?o = Inr (first_page ps)" by (simp add: unpack_from_def)
  qed
qed

lemma walk_cells_run:
  assumes leaf: "leaf_at (st_pages st) page cs sib" and sp: "space st L" "set (all_pages cs) \<subseteq> L"
    and db: "db_size = store_hdr st HDbSize"
  shows "\<forall>i \<in> set js. i < length cs \<Longrightarrow> walk_cells store_ops db_size page js w st =
    (Inr (w\<lparr>w_overflow := (\<Union>i \<in> set js. set (cell_pages (cs ! i))) \<union> w_overflow w\<rparr>), st)"
proof (induction js arbitrary: w)
  case (Cons i js)
  then have i: "i < length cs" by simp
  obtain k v ps where c: "cs ! i = (k, v, ps)" by (cases "cs ! i")
  note at = leaf_at_parts(4,5) [OF leaf i, unfolded c]
  obtain ptr kn vn where h: "cell_head page i = Inr (ptr, nat k, kn, length v, vn)"
    "spills v \<Longrightarrow> unpack_from 4 page (ptr + kn + vn) = Inr (first_page ps)"
    using cell_chain_pointer [OF at] by blast
  have sub: "set ps \<subseteq> L" using sp(2) i c nth_mem [OF i] by (force simp: set_all_pages)
  have step: "(if spills v then walk_overflow_chain store_ops db_size (first_page ps) (length v) w else retS w) st =
      (Inr (w\<lparr>w_overflow := set ps \<union> w_overflow w\<rparr>), st)"
    using at(2) walk_overflow_chain_run [OF _ _ sp(1) sub db, of v w] by (auto split: if_splits)
  have "walk_cells store_ops db_size page (i # js) w st =
      walk_cells store_ops db_size page js (w\<lparr>w_overflow := set ps \<union> w_overflow w\<rparr>) st"
    using h step by (cases "spills v") (simp_all add: bindS_def spills_def [symmetric])
  then show ?case using Cons by (simp add: c Un_assoc Un_left_commute)
qed simp

lemma disorder_sorted: "sorted_wrt (<) ks \<Longrightarrow> disorder ks = []"
proof -
  assume s: "sorted_wrt (<) ks"
  have "\<not> ks ! i \<le> ks ! (i - 1)" if "i \<in> set [1..<length ks]" for i
    using sorted_wrt_nth_less [OF s, of "i - 1" i] that by simp
  then show ?thesis unfolding disorder_def filter_empty_conv by blast
qed

lemma walk_leaf_run:
  assumes leaf: "leaf_at (st_pages st) page cs sib" and sp: "space st L" "set (all_pages cs) \<subseteq> L"
    and s: "sorted_wrt (<) (map fst cs)"
  shows "walk_leaf store_ops (store_hdr st HDbSize) p page w st =
    (Inr (w\<lparr>w_leaves := w_leaves w @ [p], w_overflow := set (all_pages cs) \<union> w_overflow w\<rparr>), st)"
proof -
  have keys: "map fst (map cell_shallow cs) = map fst cs" by simp
  have "(\<Union>i \<in> set [0..<length cs]. set (cell_pages (cs ! i))) = (\<Union>c \<in> set (map ((!) cs) [0..<length cs]). set (cell_pages c))"
    by (simp only: set_map image_image)
  then have "(\<Union>i \<in> set [0..<length cs]. set (cell_pages (cs ! i))) = set (all_pages cs)"
    by (simp only: map_nth set_all_pages)
  with walk_cells_run [OF leaf sp refl, of "[0..<length cs]" w] show ?thesis
    using read_all_leaf_cells_ok(1) [OF leaf] disorder_sorted [OF s]
    by (simp add: walk_leaf_def bindS_def keys report_def del: map_map)
qed

section \<open>The tree\<close>

fun nodes :: "btree \<Rightarrow> nat list" where
  "nodes (BLeaf p cs) = [p]"
| "nodes (BNode p ks ts) = p # concat (map nodes ts)"

lemma tree_pages_split: "mset (tree_pages t) = mset (nodes t) + mset (all_pages (cells t))"
proof (induction t)
  case (BNode p ks ts)
  have "mset (concat (map tree_pages us)) = mset (concat (map nodes us)) + mset (all_pages (concat (map cells us)))"
    if "set us \<subseteq> set ts" for us
    using that by (induction us) (auto simp: BNode.IH ac_simps)
  then show ?case by simp
qed simp

lemma tree_pages_parts:
  "set (tree_pages t) = set (nodes t) \<union> set (all_pages (cells t))"
  "distinct (tree_pages t) \<Longrightarrow> distinct (nodes t) \<and> set (nodes t) \<inter> set (all_pages (cells t)) = {}"
proof -
  have m: "mset (tree_pages t) = mset (nodes t @ all_pages (cells t))" by (simp add: tree_pages_split)
  show "set (tree_pages t) = set (nodes t) \<union> set (all_pages (cells t))" using mset_eq_setD [OF m] by simp
  show "distinct (tree_pages t) \<Longrightarrow> distinct (nodes t) \<and> set (nodes t) \<inter> set (all_pages (cells t)) = {}"
    using mset_eq_imp_distinct_iff [OF m] by simp
qed

definition seen_tree :: "btree \<Rightarrow> walk \<Rightarrow> walk" where
  \<comment> \<open>what the walk of a sound tree adds\<close>
  "seen_tree t w = w\<lparr>w_visited := set (nodes t) \<union> w_visited w, w_leaves := w_leaves w @ leaves t,
     w_overflow := set (all_pages (cells t)) \<union> w_overflow w\<rparr>"

lemma report_none [simp]: "report [] w = w"
  by (simp add: report_def)

lemma fold_seen_tree:
  "fold seen_tree us w = w\<lparr>w_visited := set (concat (map nodes us)) \<union> w_visited w, w_leaves := w_leaves w @ concat (map leaves us),
     w_overflow := set (all_pages (concat (map cells us))) \<union> w_overflow w\<rparr>"
proof (induction us arbitrary: w)
  case (Cons u us)
  show ?case
    by (simp only: fold_simps Cons.IH, simp add: seen_tree_def Un_left_commute Un_assoc)
qed simp

lemma join_depths_same: "join_depths p (x # replicate n x) w = (Some x, w)"
  by (simp add: join_depths_def filter_empty_conv)

lemma walk_children_run:
  assumes "\<And>u w. u \<in> set us \<Longrightarrow> set (nodes u) \<inter> w_visited w = {} \<Longrightarrow> f (tpage u) w st = (Inr (Some x, seen_tree u w), st)"
    and "distinct (concat (map nodes us))" and "set (concat (map nodes us)) \<inter> w_visited w = {}"
  shows "walk_children f (map tpage us) w st = (Inr (replicate (length us) x, fold seen_tree us w), st)"
  using assms
proof (induction us arbitrary: w)
  case (Cons u us)
  have "set (nodes u) \<inter> w_visited w = {}" "set (concat (map nodes us)) \<inter> w_visited (seen_tree u w) = {}"
    using Cons.prems(2,3) by (auto simp: seen_tree_def)
  then show ?case using Cons.prems(1) [of u w] Cons.prems(2) Cons.IH [of "seen_tree u w"] Cons.prems(1) by (simp add: bindS_def)
qed simp

lemma walk_tree_run:
  assumes sp: "space st L"
    and "stored (st_pages st) t" and "ordered lo hi t" and "bal d t" and "d < fuel" and "distinct (nodes t)"
    and "set (tree_pages t) \<subseteq> L" and "set (nodes t) \<inter> w_visited w = {}"
  shows "walk_tree fuel store_ops (store_hdr st HDbSize) depth (tpage t) w st = (Inr (Some (depth + d), seen_tree t w), st)"
  using assms(2-)
proof (induction fuel arbitrary: t d lo hi depth w)
  case (Suc fuel)
  let ?db = "store_hdr st HDbSize"
  have p: "tpage t \<in> L" "tpage t \<in> set (nodes t)" using Suc.prems(6) tpage_in_pages [of t] by (auto, cases t, auto)
  then have r: "\<not> tpage t < 1" "\<not> ?db < tpage t" "tpage t \<noteq> 0" "tpage t \<notin> w_visited w"
    using space_page [OF sp p(1)] Suc.prems(7) by auto
  show ?case
  proof (cases t)
    case (BLeaf q cs)
    obtain sib where leaf: "leaf_at (st_pages st) (st_pages st q) cs sib" using Suc.prems(1) BLeaf by auto
    have sub: "set (all_pages cs) \<subseteq> L" and s: "sorted_wrt (<) (map fst cs)" and d: "d = 0"
      using Suc.prems(2,3,6) BLeaf by auto
    show ?thesis
      using r leaf_at_parts(2) [OF leaf] walk_leaf_run [OF leaf sp sub s, of q] d
      by (simp add: BLeaf bindS_def store_run seen_tree_def Let_def)
  next
    case (BNode q ks ts)
    obtain e where d: "d = Suc e" and balt: "\<forall>u \<in> set ts. bal e u" using Suc.prems(3) BNode by (auto split: nat.splits)
    have page: "interior_page (st_pages st q) ks (map tpage ts)" and sts: "\<forall>u \<in> set ts. stored (st_pages st) u"
      and ol: "ord_list lo ks ts hi" and subs: "\<forall>u \<in> set ts. set (tree_pages u) \<subseteq> L" and dist: "q \<notin> set (concat (map nodes ts))"
        "distinct (concat (map nodes ts))" and fresh: "set (concat (map nodes ts)) \<inter> w_visited w = {}"
      using Suc.prems BNode by auto
    let ?w0 = "w\<lparr>w_visited := insert q (w_visited w)\<rparr>"
    have child: "walk_tree fuel store_ops ?db (depth + 1) (tpage u) w' st = (Inr (Some (depth + 1 + e), seen_tree u w'), st)"
      if u: "u \<in> set ts" and f: "set (nodes u) \<inter> w_visited w' = {}" for u w'
    proof -
      obtain l h where o: "ordered l h u" using ordered_child [OF ol u] by blast
      have "distinct (nodes u)" using dist(2) u by (simp add: distinct_concat_iff)
      then show ?thesis using sts balt subs u f d Suc.prems(4) by (intro Suc.IH [OF _ o]) auto
    qed
    have "set (concat (map nodes ts)) \<inter> w_visited ?w0 = {}" using fresh dist(1) by auto
    then have kids: "walk_children (walk_tree fuel store_ops ?db (depth + 1)) (map tpage ts) ?w0 st =
        (Inr (replicate (length ts) (depth + 1 + e), fold seen_tree ts ?w0), st)"
      by (intro walk_children_run child dist(2))
    have "check_children ?db q ks (map tpage ts) = []"
      using disorder_sorted ord_list_keys [OF ol] ord_list_length [OF ol] space_page [OF sp] subs tpage_in_pages
      by (force simp: check_children_def filter_empty_conv not_less)
    then show ?thesis
      using r interior_page_read(1,2) [OF page] kids ord_list_length [OF ol] d
      by (simp add: BNode bindS_def Let_def store_run page_types_differ join_depths_same fold_seen_tree seen_tree_def)
  qed
qed simp

section \<open>The whole check\<close>

lemma walk_siblings_run:
  assumes "space st L"
  shows "linked (st_pages st) ps 0 \<Longrightarrow> distinct ps \<Longrightarrow> set ps \<subseteq> L \<Longrightarrow> set ps \<inter> seen = {} \<Longrightarrow>
    \<forall>p \<in> set ps. length (st_pages st p) = PAGE_SIZE \<Longrightarrow> length ps < fuel \<Longrightarrow>
    walk_siblings fuel store_ops (store_hdr st HDbSize) (first_page ps) seen links errors st = (Inr (links @ ps, errors), st)"
proof (induction ps arbitrary: fuel seen links)
  case Nil
  then show ?case by (cases fuel) simp_all
next
  case (Cons p ps)
  obtain n where n: "fuel = Suc n" using Cons.prems(6) by (cases fuel) simp_all
  have p: "p \<in> L" "length (st_pages st p) = PAGE_SIZE" using Cons.prems by simp_all
  have "sibling_of (st_pages st p) = first_page ps" using Cons.prems(1) by (cases ps) simp_all
  then show ?case
    using Cons space_page [OF assms p(1)] next_leaf_run [OF assms p] by (simp add: n bindS_def)
qed

lemma leaf_keys_run:
  assumes "tree_at st L d t"
  shows "mapS (leaf_keys store_ops) (leaves t) st = (Inr (map (\<lambda>(p, cs). map fst cs) (leaf_list t)), st)"
proof -
  note ta = assms [unfolded tree_at_def]
  have "mapS (leaf_keys store_ops) (map fst xs) st = (Inr (map (\<lambda>(p, cs). map fst cs) xs), st)"
    if "set xs \<subseteq> set (leaf_list t)" for xs
    using that
  proof (induction xs)
    case (Cons e xs)
    obtain p cs where e: "e = (p, cs)" "(p, cs) \<in> set (leaf_list t)" using Cons.prems by (cases e) auto
    obtain sib where leaf: "leaf_at (st_pages st) (st_pages st p) cs sib" using leaf_list_stored [OF _ e(2)] ta by blast
    have "p \<noteq> 0" using leaf_list_pages [OF e(2)] ta space_page(2) by blast
    then have "leaf_keys store_ops p st = (Inr (map fst cs), st)"
      using read_all_leaf_cells_ok(1) [OF leaf] by (simp add: leaf_keys_def bindS_def store_run comp_def)
    then show ?case using Cons by (simp add: e(1) bindS_def)
  qed simp
  from this [of "leaf_list t"] show ?thesis by (simp add: leaf_list_leaves)
qed

lemma leaves_nodes: "mset (leaves t) \<subseteq># mset (nodes t)"
proof (induction t)
  case (BNode p ks ts)
  have "mset (concat (map leaves us)) \<subseteq># mset (concat (map nodes us))" if "set us \<subseteq> set ts" for us
    using that by (induction us) (auto intro: subset_mset.add_mono BNode.IH)
  then have "mset (concat (map leaves ts)) \<subseteq># mset (concat (map nodes ts))" by blast
  then show ?case using subset_mset.add_increasing [of "{#p#}"] by simp
qed simp

lemma height_nodes: "ordered lo hi t \<Longrightarrow> bal d t \<Longrightarrow> d < length (nodes t)"
proof (induction t arbitrary: lo hi d)
  case (BNode p ks ts)
  then obtain e where d: "d = Suc e" "\<forall>u \<in> set ts. bal e u" by (auto split: nat.splits)
  obtain u us where ts: "ts = u # us" using BNode.prems(1) ord_list_length [of lo ks ts hi] by (cases ts) auto
  obtain l h where "ordered l h u" using BNode.prems(1) ordered_child [of lo ks ts hi u] ts by auto
  then have "e < length (nodes u)" using BNode.IH [of u l h e] d(2) ts by simp
  then show ?case using d ts by simp
qed simp

lemma tree_sizes:
  assumes "tree_at st L d t"
  shows "distinct (leaves t)" and "length (leaves t) \<le> store_hdr st HDbSize" and "d < store_hdr st HDbSize + 1"
proof -
  note ta = assms [unfolded tree_at_def]
  let ?db = "store_hdr st HDbSize"
  have dist: "distinct (nodes t)" using ta tree_pages_parts(2) [of t] by blast
  have sub: "set (nodes t) \<subseteq> {1..?db}" using ta tree_pages_parts(1) [of t] space_page [of st L] by fastforce
  have le: "length (nodes t) \<le> ?db" using card_mono [OF _ sub] dist by (simp add: distinct_card)
  show "distinct (leaves t)"
  proof -
    have "count (mset (leaves t)) a = (if a \<in> set (leaves t) then 1 else 0)" for a
    proof (cases "a \<in> set (leaves t)")
      case True
      then have "count (mset (leaves t)) a \<noteq> 0" by (simp add: count_eq_zero_iff)
      moreover have "count (mset (nodes t)) a \<le> 1" using dist by (simp add: distinct_count_atmost_1)
      ultimately have "count (mset (leaves t)) a = 1" using mset_subset_eq_count [OF leaves_nodes [of t], of a] by linarith
      then show ?thesis using True by simp
    qed (simp add: count_eq_zero_iff)
    then show ?thesis unfolding distinct_count_atmost_1 by blast
  qed
  show "length (leaves t) \<le> ?db" using size_mset_mono [OF leaves_nodes [of t]] le by simp
  show "d < ?db + 1" using height_nodes [of None None t d] ta le by simp
qed

lemma check_integrity_run:
  assumes t: "tree_at st L d t" and root: "tpage t = 2" and all: "set (tree_pages t) = L"
  shows "check_integrity store_ops raise_on_error st = (Inr [], st)"
proof -
  note ta = t [unfolded tree_at_def]
  let ?db = "store_hdr st HDbSize"
  obtain ts where fl: "free_list st ts" "L = {p. 1 < p \<and> p \<le> ?db} - set (stack_pages ts)" using ta by (auto simp: space_def)
  note parts = tree_pages_parts(1) [of t] tree_pages_parts(2) [of t]
  have sp: "space st L" and two: "2 \<in> L" using ta tpage_in_pages [of t] root all by simp_all
  let ?w = "\<lparr>w_visited = {}, w_leaves = [], w_errors = [], w_overflow = {}\<rparr>"
  have walk: "walk_tree (?db + 1) store_ops ?db 0 2 ?w st = (Inr (Some d, seen_tree t ?w), st)"
    using walk_tree_run [OF sp, of t None None d "?db + 1" ?w 0] ta tree_sizes(3) [OF t] parts(2) root by auto
  have free: "safe_freelist store_ops st = (Inr (set (stack_pages ts), []), st)"
    by (simp add: safe_freelist_def bindS_def catchS_def freelist_pages_run [OF fl(1)])
  have pages: "check_pages ?db (store_hdr st HFreelistCount) (set (stack_pages ts)) (seen_tree t ?w) = []"
    using fl parts all ta by (auto simp: check_pages_def some_pages_def seen_tree_def free_list_def distinct_card filter_empty_conv)
  have cross: "some_pages (w_visited (seen_tree t ?w) \<inter> w_overflow (seen_tree t ?w)) NodeAndOverflow = []"
    "some_pages (set (stack_pages ts) \<inter> w_overflow (seen_tree t ?w)) FreeAndOverflow = []"
    using fl parts all ta by (auto simp: some_pages_def seen_tree_def)
  have "concat (map (\<lambda>(p, cs). map fst cs) (leaf_list t)) = map fst (cells t)"
    by (simp add: leaf_list_cells [symmetric] map_concat case_prod_unfold comp_def)
  then have order: "disorder (concat (map (\<lambda>(p, cs). map fst cs) (leaf_list t))) = []"
    using ordered_cells [of None None t] ta by (simp add: disorder_sorted)
  have chain: "check_siblings store_ops ?db (leaves t) [] st = (Inr [], st)"
  proof -
    obtain p ps where l: "leaves t = p # ps"
      using leaf_list_not_Nil [of None None t] ta by (cases "leaves t") (auto simp: leaf_list_leaves [symmetric])
    have len: "\<forall>p \<in> set (leaves t). length (st_pages st p) = PAGE_SIZE"
      using leaf_list_stored [of "st_pages st" t] ta leaf_at_parts(1) by (fastforce simp: leaf_list_leaves [symmetric])
    have "walk_siblings (?db + 2) store_ops ?db (first_page (leaves t)) {} [] [] st = (Inr ([] @ leaves t, []), st)"
      using ta leaves_in_pages [of t] len tree_sizes(1,2) [OF t] all by (intro walk_siblings_run [OF sp]) auto
    then show ?thesis by (simp add: check_siblings_def l bindS_def)
  qed
  show ?thesis
    using two space_page [OF sp two] space_hdr_ok [OF sp] walk free leaf_keys_run [OF t] chain pages cross order
    by (simp add: check_integrity_def bindS_def store_run Let_def seen_tree_def finish_check_def)
qed

text \<open>
  C35. An insertion keeps the database clean. Take a sound tree at the root of the file to which every
  page belongs that is not free. Inserting a key, with all the splits and releases of pages it takes,
  leaves a database on which the structural check finds nothing to report: no page lost or used twice,
  keys in order in every node and over all leaves, all leaves at one depth and linked in order, overflow
  chains whole, and a freelist that the header counts right.
\<close>

theorem insert_passes_check:
  assumes "tree_at st L d t" and "tpage t = 2" and "set (tree_pages t) = L" and "d < fuel" and "0 \<le> key" "key < 2 ^ 64"
    and "st_journal st \<or> st_wal st" and "room (insert_room t d val) st"
  shows "check_integrity store_ops True st = (Inr [], st) \<and>
    (\<exists>st'. btree_insert store_ops cap fuel 2 key val st = (Inr (), st') \<and> check_integrity store_ops True st' = (Inr [], st'))"
proof -
  from btree_insert_run [OF assms(1,4-8), of cap] assms(2,3) obtain st' L' d' t' where
    i: "btree_insert store_ops cap fuel 2 key val st = (Inr (), st')" "tree_at st' L' d' t'" "tpage t' = 2" "L' - set (tree_pages t') = {}"
    by auto
  moreover have "set (tree_pages t') \<subseteq> L'" using i(2) by (simp add: tree_at_def)
  ultimately have "set (tree_pages t') = L'" by blast
  then show ?thesis using i check_integrity_run assms(1-3) by blast
qed

theorem insert_passes_check_witness:
  "\<exists>st'. btree_insert store_ops 10000 1 2 4 [9] demo_store = (Inr (), st') \<and> check_integrity store_ops True st' = (Inr [], st')"
proof -
  have room: "room (insert_room (BLeaf 2 demo_cells) 0 [9]) demo_store"
    by (rule room_mono [OF demo_room])
      (simp add: insert_room_def demo_cells_def spill_need_def spills_def OVERFLOW_THRESHOLD_def PAGE_SIZE_def)
  have pages: "set (tree_pages (BLeaf 2 demo_cells)) = {2}" by (simp add: demo_cells_def)
  show ?thesis using insert_passes_check [OF demo_tree _ pages, of 1 4 "[9]" 10000] room demo_modes by simp
qed

end
