(* ===== verification/IntegrityEnds.thy ===== *)
theory IntegrityEnds
  imports IntegrityClean
begin

text \<open>
  The structural check ends on every file, also on a damaged one: the walks over the tree, over each
  overflow chain, over the freelist and over the leaf chain never take a page a second time.
\<close>

section \<open>The check ends\<close>

definition ends :: "'a res \<Rightarrow> bool" where "ends r \<longleftrightarrow> r \<noteq> Inl Diverges"

definition safe :: "('a \<Rightarrow> bool) \<Rightarrow> ('s, 'a) pm \<Rightarrow> bool" where
  \<comment> \<open>the fuel never runs out, and what is returned satisfies \<open>Q\<close>\<close>
  "safe Q m \<longleftrightarrow> (\<forall>s. case fst (m s) of Inl e \<Rightarrow> e \<noteq> Diverges | Inr x \<Rightarrow> Q x)"

abbreviation safely :: "('s, 'a) pm \<Rightarrow> bool" where "safely \<equiv> safe (\<lambda>_. True)"

named_theorems ends_intros

lemma ends_basics [ends_intros]: "ends (Inr x)" "e \<noteq> Diverges \<Longrightarrow> ends (Inl e)" "(\<And>a b. ends (g a b)) \<Longrightarrow> ends (case_prod g p)"
  by (auto simp: ends_def split: prod.split)

lemma ends_bind [ends_intros]: "ends m \<Longrightarrow> (\<And>x. ends (f x)) \<Longrightarrow> ends (bindR m f)"
  by (cases m) (auto simp: ends_def)

lemma ends_mapR [ends_intros]: "(\<And>x. ends (f x)) \<Longrightarrow> ends (mapR f xs)"
  by (induction xs) (auto intro!: ends_intros)

lemma ends_decoders [ends_intros]:
  "ends (unpack_from w b j)" "ends (decode_varint b j)" "ends (cell_head b j)" "ends (read_leaf_header b)" "ends (page_type b)"
  "ends (read_interior_node b)"
proof -
  show u: "ends (unpack_from w b j)" for w b j by (simp add: unpack_from_def ends_def)
  have "ends (decode_varint_loop b j i v)" for b j i v
  proof (induction b j i v rule: decode_varint_loop.induct)
    case (1 data off i v)
    then show ?case by (subst decode_varint_loop.simps) (auto simp: Let_def intro: ends_intros)
  qed
  then show v: "ends (decode_varint b j)" for b j by (simp add: decode_varint_def)
  show "ends (cell_head b j)" unfolding cell_head_def by (intro ends_intros u v)
  show "ends (read_leaf_header b)" by (simp add: read_leaf_header_def ends_def)
  show "ends (page_type b)" unfolding page_type_def by (auto intro!: ends_intros u)
  show "ends (read_interior_node b)"
    unfolding read_interior_node_def read_interior_header_def read_interior_cell_def by (intro ends_intros u v) (auto intro: ends_intros)
qed

lemma safe_then: "safe P m \<Longrightarrow> (\<And>x. P x \<Longrightarrow> safe Q (f x)) \<Longrightarrow> safe Q (bindS m f)"
  unfolding safe_def bindS_def by (auto split: prod.split sum.split) (metis fst_conv sum.case)+

lemma safe_mono: "safe P m \<Longrightarrow> (\<And>x. P x \<Longrightarrow> Q x) \<Longrightarrow> safe Q m"
  unfolding safe_def by (fastforce split: sum.splits)

lemma safe_basics [ends_intros]:
  "Q x \<Longrightarrow> safe Q (retS x)" "e \<noteq> Diverges \<Longrightarrow> safe Q (raiseS e)" "ends r \<Longrightarrow> safely (liftR r)" "safely (catchS m)"
  "(\<And>a b. safe Q (g a b)) \<Longrightarrow> safe Q (case_prod g p)"
  "(c \<Longrightarrow> safe Q m1) \<Longrightarrow> (\<not> c \<Longrightarrow> safe Q m2) \<Longrightarrow> safe Q (if c then m1 else m2)"
  by (auto simp: safe_def catchS_def ends_def split: prod.splits sum.splits)

lemma safely_bind [ends_intros]: "safely m \<Longrightarrow> (\<And>x. safely (f x)) \<Longrightarrow> safely (bindS m f)"
  by (rule safe_then)

lemma safe_mapS [ends_intros]: "(\<And>x. safely (f x)) \<Longrightarrow> safely (mapS f xs)"
  by (induction xs) (auto intro!: ends_intros)

lemma safe_reads [ends_intros]: "safely (op_read_page store_ops p)" "safely (op_read_hdr store_ops f)"
  by (auto simp: safe_def store_read_def store_read_hdr_def unpack_from_def)

lemma safe_leaf_cells [ends_intros]: "safely (read_all_leaf_cells None page)"
  unfolding read_all_leaf_cells_def read_leaf_cell_def Let_def option.case by (intro ends_intros TrueI)

lemma left_less:
  fixes p :: nat
  assumes "0 < p" "p \<le> n" "p \<notin> S" "card ({1..n} - S) < Suc fuel"
  shows "card ({1..n} - insert p S) < fuel"
proof -
  have "p \<in> {1..n} - S" using assms(1-3) by (simp add: Suc_le_eq)
  then have "{1..n} - insert p S \<subset> {1..n} - S" by blast
  then have "card ({1..n} - insert p S) < card ({1..n} - S)" by (intro psubset_card_mono) auto
  then show ?thesis using assms(4) by simp
qed

lemma chain_loop_ends:
  "card ({1..db} - seen) < fuel \<Longrightarrow> safe (\<lambda>(r, w'). w_visited w' = w_visited w) (walk_chain_loop store_ops db fuel cur c seen w)"
proof (induction fuel arbitrary: cur c seen w)
  case (Suc fuel)
  let ?w = "w\<lparr>w_overflow := insert cur (w_overflow w)\<rparr>"
  have IH: "safe (\<lambda>(r, w'). w_visited w' = w_visited w) (walk_chain_loop store_ops db fuel nx c' (insert cur seen) ?w)"
    if cur: "cur \<noteq> 0" "cur \<notin> seen" "\<not> (cur < 1 \<or> db < cur)" for nx c'
  proof -
    have "card ({1..db} - insert cur seen) < fuel" using left_less [OF _ _ cur(2) Suc.prems] cur(3) by simp
    from Suc.IH [OF this, where w = ?w] show ?thesis by simp
  qed
  have step: "safe (\<lambda>(r, w'). w_visited w' = w_visited w)
      (bindS (op_read_page store_ops cur) (\<lambda>page_data.
       bindS (liftR (unpack_from 4 page_data OVERFLOW_NEXT_OFFSET)) (\<lambda>next_pg.
       walk_chain_loop store_ops db fuel next_pg (c + (length page_data - OVERFLOW_DATA_OFFSET)) (insert cur seen) ?w)))"
    if "cur \<noteq> 0" "cur \<notin> seen" "\<not> (cur < 1 \<or> db < cur)"
    by (rule safe_then [OF safe_reads(1)], rule safe_then [OF safe_basics(3) [OF ends_decoders(1)]], rule IH [OF that])
  show ?case unfolding walk_chain_loop.simps
    by (rule safe_basics(6), simp add: safe_basics(1), rule safe_basics(6), simp add: safe_basics(1) report_def, rule safe_basics(6),
      simp add: safe_basics(1) report_def, rule step)
qed simp

lemma overflow_chain_ends: "safe (\<lambda>w'. w_visited w' = w_visited w) (walk_overflow_chain store_ops db p n w)"
proof -
  have "card ({1..db} - {}) < db + 2" by simp
  note chain_loop_ends [OF this, of w p 0]
  then show ?thesis
    unfolding walk_overflow_chain_def
    by (rule safe_then) (auto intro!: ends_intros safe_then [OF safe_basics(4)] simp: report_def split: option.split sum.split)
qed

lemma walk_cells_ends: "safe (\<lambda>w'. w_visited w' = w_visited w) (walk_cells store_ops db page js w)"
proof (induction js arbitrary: w)
  case (Cons j js)
  have step: "safe (\<lambda>w'. w_visited w' = w_visited w)
      (if OVERFLOW_THRESHOLD < n then bindS (liftR (unpack_from 4 page q)) (\<lambda>p. walk_overflow_chain store_ops db p n w) else retS w)" for n q
    by (intro ends_intros safe_then [OF safe_basics(3)] overflow_chain_ends refl)
  have rest: "safe (\<lambda>w'. w_visited w' = w_visited w) (walk_cells store_ops db page js w1)" if "w_visited w1 = w_visited w" for w1
    using Cons [of w1] that by simp
  show ?case
    unfolding walk_cells.simps
    by (intro safe_then [OF safe_basics(3) [OF ends_decoders(3)]]) (auto intro!: safe_then [OF step] rest)
qed (simp add: ends_intros)

lemma walk_leaf_ends: "safe (\<lambda>w'. w_visited w' = w_visited w) (walk_leaf store_ops db p page w)"
proof -
  have cells: "safe (\<lambda>w'. w_visited w' = w_visited w) (walk_cells store_ops db page js (report vs w))" for js vs
    using walk_cells_ends [of "report vs w" db page js] by (simp add: report_def)
  show ?thesis unfolding walk_leaf_def by (intro safe_then [OF safe_leaf_cells] safe_then [OF cells] ends_intros) simp
qed

lemma walk_children_ends:
  assumes "\<And>c w. V \<subseteq> w_visited w \<Longrightarrow> safe (\<lambda>(d, w'). w_visited w \<subseteq> w_visited w') (f c w)"
  shows "V \<subseteq> w_visited w \<Longrightarrow> safe (\<lambda>(ds, w'). w_visited w \<subseteq> w_visited w') (walk_children f cs w)"
proof (induction cs arbitrary: w)
  case (Cons c cs)
  have rest: "safe (\<lambda>(ds, w'). w_visited w \<subseteq> w_visited w') (walk_children f cs w1)" if "w_visited w \<subseteq> w_visited w1" for w1
    by (rule safe_mono [OF Cons.IH]) (use that Cons.prems in auto)
  show ?case
    unfolding walk_children.simps
  proof (rule safe_then [OF assms [OF Cons.prems]], clarify)
    fix d and w1 :: walk
    assume "w_visited w \<subseteq> w_visited w1"
    then show "safe (\<lambda>(ds, w'). w_visited w \<subseteq> w_visited w')
        (bindS (walk_children f cs w1) (\<lambda>(ds, w2). retS (case d of Some x \<Rightarrow> x # ds | None \<Rightarrow> ds, w2)))"
      by (rule safe_then [OF rest]) (auto intro!: safe_basics(1))
  qed
qed (simp add: ends_intros)

lemma walk_tree_ends:
  "card ({1..db} - w_visited w) < fuel \<Longrightarrow> safe (\<lambda>(d, w'). w_visited w \<subseteq> w_visited w') (walk_tree fuel store_ops db depth p w)"
proof (induction fuel arbitrary: depth p w)
  case (Suc fuel)
  have kids: "safe (\<lambda>(ds, w'). insert p (w_visited w) \<subseteq> w_visited w')
      (walk_children (walk_tree fuel store_ops db (depth + 1)) cs (report vs (w\<lparr>w_visited := insert p (w_visited w)\<rparr>)))"
    if "\<not> (p < 1 \<or> db < p)" "p \<notin> w_visited w" for cs vs
  proof -
    have less: "card ({1..db} - insert p (w_visited w)) < fuel" using left_less [OF _ _ that(2) Suc.prems] that(1) by simp
    have "safe (\<lambda>(d, w'). w_visited w1 \<subseteq> w_visited w') (walk_tree fuel store_ops db (depth + 1) c w1)"
      if "insert p (w_visited w) \<subseteq> w_visited w1" for c w1
    proof (rule Suc.IH)
      have "card ({1..db} - w_visited w1) \<le> card ({1..db} - insert p (w_visited w))" using that by (intro card_mono) auto
      then show "card ({1..db} - w_visited w1) < fuel" using less by simp
    qed
    from walk_children_ends [where V = "insert p (w_visited w)", OF this, where w = "report vs (w\<lparr>w_visited := insert p (w_visited w)\<rparr>)" and cs = cs]
    show ?thesis by (simp add: report_def)
  qed
  let ?w = "w\<lparr>w_visited := insert p (w_visited w)\<rparr>" and ?Q = "\<lambda>(d :: nat option, w'). w_visited w \<subseteq> w_visited w'"
  have leaf: "safe ?Q (bindS (walk_leaf store_ops db p page ?w) (\<lambda>w1. retS (Some depth, w1)))" for page
    by (rule safe_then [OF walk_leaf_ends]) (auto intro!: safe_basics(1))
  have node: "safe ?Q (bindS (liftR (read_interior_node page)) (\<lambda>(node_keys, children).
      bindS (walk_children (walk_tree fuel store_ops db (depth + 1)) children (report (check_children db p node_keys children) ?w))
        (\<lambda>(leaf_depths, w1). retS (join_depths p leaf_depths w1))))"
    if "\<not> (p < 1 \<or> db < p)" "p \<notin> w_visited w" for page
  proof (rule safe_then [OF safe_basics(3) [OF ends_decoders(6)]], clarify)
    fix ks cs
    show "safe ?Q (bindS (walk_children (walk_tree fuel store_ops db (depth + 1)) cs (report (check_children db p ks cs) ?w))
        (\<lambda>(leaf_depths, w1). retS (join_depths p leaf_depths w1)))"
      by (rule safe_then [OF kids [OF that]]) (auto intro!: safe_basics(1) simp: join_depths_def report_def split: list.splits)
  qed
  have kinds: "e \<noteq> Diverges" if "page_type page = Inl e" for page e
    using ends_decoders(5) [of page] that by (auto simp: ends_def)
  show ?case
    unfolding walk_tree.simps Let_def
    by (rule safe_basics(6), simp add: safe_basics(1) report_def, rule safe_basics(6), simp add: safe_basics(1) report_def,
      rule safe_then [OF safe_reads(1)], split sum.split, intro conjI allI impI safe_basics(6) leaf node)
      (auto intro!: safe_basics(1,2) kinds simp: report_def)
qed simp

lemma next_leaf_ends: "safely (get_next_leaf store_ops p)"
  unfolding get_next_leaf_def by (intro ends_intros)

lemma walk_siblings_ends: "card ({1..db} - seen) < fuel \<Longrightarrow> safely (walk_siblings fuel store_ops db cur seen links errors)"
proof (induction fuel arbitrary: cur seen links)
  case (Suc fuel)
  have "safely (walk_siblings fuel store_ops db nx (insert cur seen) (links @ [cur]) errors)"
    if "cur \<noteq> 0" "\<not> (db < cur \<or> cur < 1)" "cur \<notin> seen" for nx
    using that left_less [of cur db seen fuel] Suc by simp
  then show ?case by (auto intro!: ends_intros next_leaf_ends)
qed simp

lemma check_integrity_ends_run: "safely (check_integrity store_ops raise_on_error)"
proof -
  have free: "safely (safe_freelist store_ops)"
  proof -
    have "safe (\<lambda>r. r \<noteq> Inl Diverges) (catchS (freelist_pages store_ops))"
      using freelist_pages_halts by (auto simp: safe_def catchS_def split: prod.split) (metis fst_conv)
    then show ?thesis unfolding safe_freelist_def by (rule safe_then) (auto intro!: ends_intros split: sum.split)
  qed
  have walk: "safely (walk_tree (db + 1) store_ops db 0 p \<lparr>w_visited = {}, w_leaves = [], w_errors = [], w_overflow = {}\<rparr>)" for db p
    by (rule safe_mono [OF walk_tree_ends]) simp_all
  have sib: "safely (check_siblings store_ops db ls errors)" for db ls errors
    unfolding check_siblings_def by (cases ls) (auto intro!: ends_intros walk_siblings_ends simp del: walk_siblings.simps)
  have keys: "safely (leaf_keys store_ops p)" for p unfolding leaf_keys_def by (intro ends_intros TrueI)
  show ?thesis
    unfolding check_integrity_def finish_check_def Let_def
    by (intro ends_intros free walk sib keys TrueI) simp_all
qed

text \<open>
  C36. The structural check ends on every database, whatever its pages hold: cycles in the tree, in an
  overflow chain, in the freelist or in the leaf chain are reported, never followed, and the bounds of
  the model (one step per page of the file) are never what stops it.
\<close>

theorem check_integrity_ends: "fst (check_integrity store_ops raise_on_error st) \<noteq> Inl Diverges"
  using check_integrity_ends_run [of raise_on_error, unfolded safe_def, rule_format, of st] by auto

end
