(* ===== verification/SqlLexer.thy ===== *)
theory SqlLexer
  imports SqlExpr
begin

text \<open>
  The tokenizer of \<open>sql/lexer.py\<close>: the patterns of its \<open>re.Scanner\<close>, each as a function from the text
  to the part it matches and the rest, tried in the order of the source. The patterns never need to
  backtrack into a shorter match, so each is a left-to-right scan. The second half shows that printing
  tokens and scanning the text gives the tokens back.
\<close>

section \<open>Tokens\<close>

datatype TT = KEYWORD | IDENT | INTEGER | REAL | STRING | BLOB | PLACEHOLDER | NAMED_PARAM | OP | PUNCT | EOF

datatype token = Token (tok_type: TT) (tok_value: pystr)

definition KEYWORDS :: "pystr list" where
  "KEYWORDS = map pystr_of
     [''SELECT'', ''INSERT'', ''UPDATE'', ''DELETE'', ''FROM'', ''WHERE'', ''AND'', ''OR'', ''NOT'',
      ''IS'', ''NULL'', ''IN'', ''LIKE'', ''LIMIT'', ''INTO'', ''VALUES'', ''SET'', ''ON'', ''CONFLICT'',
      ''DO'', ''NOTHING'', ''EXCLUDED'', ''CREATE'', ''TABLE'', ''IF'', ''EXISTS'', ''INDEX'',
      ''ALTER'', ''ADD'', ''COLUMN'', ''PRAGMA'', ''BEGIN'', ''COMMIT'', ''ROLLBACK'',
      ''INTEGER'', ''TEXT'', ''REAL'', ''BLOB'', ''PRIMARY'', ''KEY'', ''AUTOINCREMENT'',
      ''UNIQUE'', ''DEFAULT'', ''ORDER'', ''BY'', ''ASC'', ''DESC'', ''COUNT'', ''SUM'',
      ''MIN'', ''MAX'', ''IGNORE'', ''REPLACE'', ''TRUE'', ''FALSE'']"

section \<open>Patterns\<close>

type_synonym pattern = "pystr \<Rightarrow> (pystr \<times> pystr) option" \<comment> \<open>what \<open>match\<close> takes, and the text after it\<close>

definition is_alpha :: "nat \<Rightarrow> bool" where
  "is_alpha c \<longleftrightarrow> 65 \<le> c \<and> c \<le> 90 \<or> 97 \<le> c \<and> c \<le> 122 \<or> c = 95"

definition is_word :: "nat \<Rightarrow> bool" where
  "is_word c \<longleftrightarrow> is_alpha c \<or> is_digit c"

definition is_hex :: "nat \<Rightarrow> bool" where
  "is_hex c \<longleftrightarrow> is_digit c \<or> 97 \<le> c \<and> c \<le> 102 \<or> 65 \<le> c \<and> c \<le> 70"

definition plus :: "(nat \<Rightarrow> bool) \<Rightarrow> pattern" where
  \<comment> \<open>\<open>[...]+\<close>\<close>
  "plus P s = (if takeWhile P s = [] then None else Some (takeWhile P s, dropWhile P s))"

definition after :: "nat \<Rightarrow> pattern \<Rightarrow> pattern" where
  \<comment> \<open>one character, then a pattern\<close>
  "after c p s =
     (case s of
        [] \<Rightarrow> None
      | d # r \<Rightarrow> if d = c then map_option (\<lambda>(t, r'). (d # t, r')) (p r) else None)"

fun one_of :: "pystr list \<Rightarrow> pattern" where
  \<comment> \<open>an alternation of fixed texts\<close>
  "one_of [] s = None"
| "one_of (w # ws) s = (if take (length w) s = w then Some (w, drop (length w) s) else one_of ws s)"

definition match_comment :: pattern where
  "match_comment s = after 45 (after 45 (\<lambda>r. Some (takeWhile (\<lambda>c. c \<noteq> 10) r, dropWhile (\<lambda>c. c \<noteq> 10) r))) s"

definition match_op :: pattern where
  "match_op = one_of (map pystr_of [''=='', ''!='', ''<>'', ''<='', ''>='', ''='', ''<'', ''>''])"

definition match_word :: pattern where
  "match_word s =
     (case s of
        [] \<Rightarrow> None
      | c # r \<Rightarrow> if is_alpha c then Some (c # takeWhile is_word r, dropWhile is_word r) else None)"

definition match_punct :: pattern where
  "match_punct = one_of (map pystr_of [''('', '')'', '','', '';'', ''.'', ''*''])"

definition match_real :: pattern where
  "match_real s =
     (case plus is_digit s of
        None \<Rightarrow> None
      | Some (whole, r) \<Rightarrow> map_option (\<lambda>(t, r'). (whole @ t, r')) (after 46 (plus is_digit) r))"

fun string_body :: pattern where
  \<comment> \<open>up to and with the closing quote; a backslash takes the next character unless that is a newline\<close>
  "string_body [] = None"
| "string_body (c # s) =
     (if c = 39 then Some ([c], s)
      else if c = 92 then
        (case s of
           [] \<Rightarrow> None
         | d # s' \<Rightarrow> if d = 10 then None else map_option (\<lambda>(t, r). (c # d # t, r)) (string_body s'))
      else map_option (\<lambda>(t, r). (c # t, r)) (string_body s))"

definition match_string :: pattern where
  "match_string = after 39 string_body"

definition hex_body :: pattern where
  "hex_body s = after 39 (\<lambda>r. map_option (\<lambda>(t, r'). (takeWhile is_hex r @ t, r')) (after 39 (\<lambda>u. Some ([], u)) (dropWhile is_hex r))) s"

definition match_blob :: pattern where
  "match_blob s = (case after 120 hex_body s of Some m \<Rightarrow> Some m | None \<Rightarrow> after 88 hex_body s)"

definition match_bracket :: pattern where
  "match_bracket = after 91 (\<lambda>r.
     case plus (\<lambda>c. c \<noteq> 93) r of
       None \<Rightarrow> None
     | Some (t, r') \<Rightarrow> map_option (\<lambda>(u, r''). (t @ u, r'')) (after 93 (\<lambda>u. Some ([], u)) r'))"

definition word_token :: "pystr \<Rightarrow> token" where
  "word_token t = Token (if upper t \<in> set KEYWORDS then KEYWORD else IDENT) t"

definition SCANNER :: "(pattern \<times> (pystr \<Rightarrow> token option)) list" where
  "SCANNER =
     [(match_comment, \<lambda>t. None),
      (plus is_space, \<lambda>t. None),
      (match_op, \<lambda>t. Some (Token OP (if t = pystr_of ''=='' then pystr_of ''='' else t))),
      (one_of [pystr_of ''?''], \<lambda>t. Some (Token PLACEHOLDER t)),
      (after 58 match_word, \<lambda>t. Some (Token NAMED_PARAM t)),
      (match_punct, \<lambda>t. Some (Token PUNCT t)),
      (match_real, \<lambda>t. Some (Token REAL t)),
      (plus is_digit, \<lambda>t. Some (Token INTEGER t)),
      (match_string, \<lambda>t. Some (Token STRING t)),
      (match_blob, \<lambda>t. Some (Token BLOB t)),
      (match_bracket, \<lambda>t. Some (Token IDENT (butlast (tl t)))),
      (match_word, \<lambda>t. Some (word_token t))]"

section \<open>Scanning\<close>

fun first_match :: "(pattern \<times> (pystr \<Rightarrow> token option)) list \<Rightarrow> pystr \<Rightarrow> (token option \<times> pystr) option" where
  "first_match [] s = None"
| "first_match ((p, action) # lexicon) s =
     (case p s of Some (t, r) \<Rightarrow> Some (action t, r) | None \<Rightarrow> first_match lexicon s)"

function scan :: "pystr \<Rightarrow> token list \<times> pystr" where
  \<comment> \<open>\<open>re.Scanner.scan\<close>: the tokens and the text it could not match; an empty match ends it\<close>
  "scan s =
     (case first_match SCANNER s of
        None \<Rightarrow> ([], s)
      | Some (t, r) \<Rightarrow>
          if length s \<le> length r then ([], s)
          else (case scan r of (ts, remainder) \<Rightarrow> (case t of None \<Rightarrow> ts | Some tok \<Rightarrow> tok # ts, remainder)))"
  by pat_completeness auto
termination
  by (relation "measure length") auto

declare scan.simps [simp del]

definition tokenize :: "pystr \<Rightarrow> token list res" where
  "tokenize sql =
     (case scan sql of (tokens, remainder) \<Rightarrow>
        if strip remainder \<noteq> [] then Inl SyntaxErr else Inr (tokens @ [Token EOF []]))"


section \<open>Printing tokens\<close>

definition word_shaped :: "pystr \<Rightarrow> bool" where
  "word_shaped v \<longleftrightarrow> (case v of [] \<Rightarrow> False | c # r \<Rightarrow> is_alpha c \<and> list_all is_word r)"

definition show_token :: "token \<Rightarrow> pystr" where
  \<comment> \<open>the text of a token: an identifier that is no plain word is put in brackets\<close>
  "show_token t =
     (if tok_type t = IDENT \<and> (\<not> word_shaped (tok_value t) \<or> upper (tok_value t) \<in> set KEYWORDS)
      then [91] @ tok_value t @ [93] else tok_value t)"

definition show_tokens :: "token list \<Rightarrow> pystr" where
  "show_tokens ts = concat (map (\<lambda>t. show_token t @ [32]) ts)"

fun token_ok :: "token \<Rightarrow> bool" where
  \<comment> \<open>the tokens that have a text\<close>
  "token_ok (Token KEYWORD v) \<longleftrightarrow> word_shaped v \<and> upper v \<in> set KEYWORDS"
| "token_ok (Token IDENT v) \<longleftrightarrow> v \<noteq> [] \<and> 93 \<notin> set v"
| "token_ok (Token INTEGER v) \<longleftrightarrow> v \<noteq> [] \<and> list_all is_digit v"
| "token_ok (Token REAL v) \<longleftrightarrow>
     takeWhile is_digit v \<noteq> [] \<and> (\<exists>f. dropWhile is_digit v = 46 # f \<and> f \<noteq> [] \<and> list_all is_digit f)"
| "token_ok (Token STRING v) \<longleftrightarrow> (\<exists>b. v = 39 # b \<and> string_body b = Some (b, []))"
| "token_ok (Token BLOB v) \<longleftrightarrow> (\<exists>b. (v = 120 # 39 # b @ [39] \<or> v = 88 # 39 # b @ [39]) \<and> list_all is_hex b)"
| "token_ok (Token PLACEHOLDER v) \<longleftrightarrow> v = pystr_of ''?''"
| "token_ok (Token NAMED_PARAM v) \<longleftrightarrow> (\<exists>w. v = 58 # w \<and> word_shaped w)"
| "token_ok (Token OP v) \<longleftrightarrow> v \<in> pystr_of ` {''!='', ''<>'', ''<='', ''>='', ''='', ''<'', ''>''}"
| "token_ok (Token PUNCT v) \<longleftrightarrow> v \<in> pystr_of ` {''('', '')'', '','', '';'', ''.'', ''*''}"
| "token_ok (Token EOF v) \<longleftrightarrow> False"

definition ends_token :: "pystr \<Rightarrow> bool" where
  \<comment> \<open>the text is over, or a blank follows\<close>
  "ends_token r \<longleftrightarrow> r = [] \<or> (\<exists>r'. r = 32 # r')"

lemma span_all: "list_all P v \<Longrightarrow> \<not> P c \<Longrightarrow> takeWhile P (v @ c # r) = v \<and> dropWhile P (v @ c # r) = c # r"
  by (induction v) auto

lemma span_end: "list_all P v \<Longrightarrow> \<not> P 32 \<Longrightarrow> ends_token r \<Longrightarrow> takeWhile P (v @ r) = v \<and> dropWhile P (v @ r) = r"
  using span_all [of P v 32] by (auto simp: ends_token_def list_all_iff)

lemma space_is_no:
  "\<not> is_word 32" "\<not> is_digit 32" "\<not> is_alpha 32" "\<not> is_digit 46" "\<not> is_hex 39" "is_space 32"
  by (simp_all add: is_word_def is_alpha_def is_digit_def is_hex_def is_space_def)

lemma plus_span: "list_all P v \<Longrightarrow> v \<noteq> [] \<Longrightarrow> \<not> P c \<Longrightarrow> plus P (v @ c # r) = Some (v, c # r)"
  by (simp add: plus_def span_all)

lemma plus_end: "list_all P v \<Longrightarrow> v \<noteq> [] \<Longrightarrow> \<not> P 32 \<Longrightarrow> ends_token r \<Longrightarrow> plus P (v @ r) = Some (v, r)"
  by (simp add: plus_def span_end)

lemma plus_other: "\<not> P c \<Longrightarrow> plus P (c # r) = None"
  by (simp add: plus_def)

lemma after_char: "after c p [] = None" "d \<noteq> c \<Longrightarrow> after c p (d # r) = None" "after c p (c # r) = map_option (\<lambda>(t, r'). (c # t, r')) (p r)"
  by (simp_all add: after_def)

lemma after_end: "ends_token r \<Longrightarrow> c \<noteq> 32 \<Longrightarrow> after c p r = None"
  by (auto simp: ends_token_def after_char)

lemma word_span: "word_shaped v \<Longrightarrow> ends_token r \<Longrightarrow> match_word (v @ r) = Some (v, r)"
  by (cases v) (auto simp: word_shaped_def match_word_def span_end space_is_no)

lemmas pattern_defs = match_comment_def match_op_def match_punct_def match_real_def match_string_def match_blob_def match_bracket_def pystr_of_def

lemma not_alpha:
  "is_alpha c \<Longrightarrow> \<not> is_digit c \<and> \<not> is_space c \<and> c \<notin> {45, 33, 60, 61, 62, 63, 58, 40, 41, 44, 59, 46, 42, 39, 91}"
  by (auto simp: is_alpha_def is_digit_def is_space_def)

lemma not_digit:
  "is_digit c \<Longrightarrow> \<not> is_alpha c \<and> \<not> is_space c \<and> c \<notin> {45, 33, 60, 61, 62, 63, 58, 40, 41, 44, 59, 46, 42, 39, 91, 120, 88}"
  by (auto simp: is_alpha_def is_digit_def is_space_def)

lemma hex_body_quote: "c \<noteq> 39 \<Longrightarrow> hex_body (c # r) = None"
  by (simp add: hex_body_def after_char)

lemma hex_body_end: "ends_token r \<Longrightarrow> hex_body r = None"
  by (simp add: hex_body_def after_end)

lemma scan_word:
  assumes "word_shaped v" "ends_token r"
  shows "first_match SCANNER (v @ r) = Some (Some (word_token v), r)"
proof -
  from assms obtain c w where v: "v = c # w" "is_alpha c" "list_all is_word w" by (cases v) (auto simp: word_shaped_def)
  have "hex_body (w @ r) = None"
    using v(3) hex_body_end [OF assms(2)] by (cases w) (auto simp: hex_body_quote is_word_def is_alpha_def is_digit_def)
  then have blob: "match_blob (v @ r) = None" by (auto simp: match_blob_def v(1) after_def)
  show ?thesis
    using not_alpha [OF v(2)] word_span [OF assms] blob
    by (auto simp: SCANNER_def v(1) pattern_defs(1-5,7-) after_char plus_other)
qed

lemma scan_digits:
  assumes "list_all is_digit v" "v \<noteq> []" "ends_token r"
  shows "first_match SCANNER (v @ r) = Some (Some (Token INTEGER v), r)"
proof -
  from assms obtain c w where v: "v = c # w" "is_digit c" by (cases v) auto
  have "match_real (v @ r) = None" using assms by (simp add: match_real_def plus_end space_is_no after_end)
  then show ?thesis
    using not_digit [OF v(2)] plus_end [OF assms(1,2) space_is_no(2) assms(3)]
    by (auto simp: SCANNER_def v(1) pattern_defs(1-3,5-) after_char plus_other)
qed

lemma string_body_more: "string_body b = Some (t, u) \<Longrightarrow> string_body (b @ r) = Some (t, u @ r)"
proof (induction b arbitrary: t u rule: string_body.induct)
  case (2 c s)
  show ?case
  proof (cases "c = 39 \<or> c \<noteq> 92")
    case True
    then show ?thesis using 2 by (auto split: if_splits)
  next
    case False
    then obtain d s' where "s = d # s'" using 2(3) by (cases s) auto
    then show ?thesis using False 2(1)[of d s'] 2(3) by (auto split: if_splits)
  qed
qed simp

lemma string_body_text: "string_body b = Some (t, u) \<Longrightarrow> b = t @ u"
  by (induction b arbitrary: t u rule: string_body.induct) (auto split: if_splits list.splits)

lemma scan_real:
  assumes "token_ok (Token REAL v)" "ends_token r"
  shows "first_match SCANNER (v @ r) = Some (Some (Token REAL v), r)"
proof -
  define a where "a = takeWhile is_digit v"
  from assms(1) obtain f where f: "v = a @ 46 # f" "f \<noteq> []" "list_all is_digit f" "a \<noteq> []" "list_all is_digit a"
    using takeWhile_dropWhile_id [of is_digit v] by (metis a_def list_all_iff set_takeWhileD token_ok.simps(4))
  from f obtain c w where v: "a = c # w" "is_digit c" by (cases a) auto
  have "match_real (v @ r) = Some (v, r)"
    using plus_span [OF f(5,4) space_is_no(4), of "f @ r"] plus_end [OF f(3,2) space_is_no(2) assms(2)]
    by (simp add: match_real_def f(1) after_char)
  then show ?thesis
    using not_digit [OF v(2)] by (auto simp: SCANNER_def f(1) v(1) pattern_defs(1-3,5-) after_char plus_other)
qed

lemma scan_string:
  assumes "string_body b = Some (b, [])"
  shows "first_match SCANNER (39 # b @ r) = Some (Some (Token STRING (39 # b)), r)"
  using string_body_more [OF assms, of r]
  by (simp add: SCANNER_def pattern_defs(1-5,7-) after_char plus_other is_space_def is_digit_def match_real_def)

lemma scan_blob:
  assumes "list_all is_hex b" "c = 120 \<or> c = 88"
  shows "first_match SCANNER (c # 39 # b @ 39 # r) = Some (Some (Token BLOB (c # 39 # b @ [39])), r)"
proof -
  have "hex_body (39 # b @ 39 # r) = Some (39 # b @ [39], r)"
    using span_all [OF assms(1) space_is_no(5), of r] by (simp add: hex_body_def after_char)
  then show ?thesis
    using assms(2) by (auto simp: SCANNER_def pattern_defs(1-5,6-) after_char plus_other is_space_def is_digit_def)
qed

lemma scan_named:
  assumes "word_shaped w" "ends_token r"
  shows "first_match SCANNER (58 # w @ r) = Some (Some (Token NAMED_PARAM (58 # w)), r)"
  using word_span [OF assms]
  by (simp add: SCANNER_def pattern_defs(1-3,7-) after_char plus_other is_space_def)

lemma scan_bracket:
  assumes "v \<noteq> []" "93 \<notin> set v"
  shows "first_match SCANNER (91 # v @ 93 # r) = Some (Some (Token IDENT v), r)"
proof -
  have "list_all (\<lambda>c. c \<noteq> 93) v" using assms(2) by (auto simp: list_all_iff)
  then have "plus (\<lambda>c. c \<noteq> 93) (v @ 93 # r) = Some (v, 93 # r)" using assms(1) by (simp add: plus_span)
  then show ?thesis
    by (simp add: SCANNER_def pattern_defs after_char plus_other is_space_def is_digit_def hex_body_def)
qed

lemma scan_fixed:
  "v \<in> pystr_of ` {''!='', ''<>'', ''<='', ''>='', ''='', ''<'', ''>''} \<Longrightarrow> ends_token r \<Longrightarrow>
     first_match SCANNER (v @ r) = Some (Some (Token OP v), r)"
  "v \<in> pystr_of ` {''('', '')'', '','', '';'', ''.'', ''*''} \<Longrightarrow>
     first_match SCANNER (v @ r) = Some (Some (Token PUNCT v), r)"
  "first_match SCANNER (pystr_of ''?'' @ r) = Some (Some (Token PLACEHOLDER (pystr_of ''?'')), r)"
  by (auto simp: SCANNER_def pattern_defs after_char plus_other is_space_def ends_token_def)

lemma scan_token:
  assumes "token_ok t" "ends_token r"
  shows "first_match SCANNER (show_token t @ r) = Some (Some t, r)"
proof (cases t)
  case (Token k v)
  then show ?thesis
  proof (cases k)
    case IDENT
    then show ?thesis using assms Token scan_word [of v r] scan_bracket [of v r]
      by (auto simp: show_token_def word_token_def)
  next
    case REAL
    then show ?thesis using assms Token scan_real [of v r] by (simp add: show_token_def)
  next
    case BLOB
    then show ?thesis using assms Token scan_blob [of _ _ r] by (auto simp: show_token_def)
  qed (use assms Token scan_word [of v r] scan_digits [of v r] scan_string [of _ r] scan_named [of _ r] scan_fixed(1,2) [of v r] scan_fixed(3) [of r]
      in \<open>auto simp: show_token_def word_token_def\<close>)
qed

lemma first_match_space: "s = [] \<or> \<not> is_space (hd s) \<Longrightarrow> first_match SCANNER (32 # s) = Some (None, s)"
  by (cases s) (auto simp: SCANNER_def match_comment_def after_char plus_def space_is_no)

lemma show_token_head:
  assumes "token_ok t"
  shows "\<exists>c w. show_token t = c # w \<and> \<not> is_space c"
proof (cases "show_token t")
  case Nil
  then show ?thesis using scan_token [OF assms, of "[]"]
    by (simp add: ends_token_def SCANNER_def pattern_defs after_char plus_def match_word_def)
next
  case (Cons c w)
  then have "first_match SCANNER (c # w) = Some (Some t, [])" using scan_token [OF assms, of "[]"] by (simp add: ends_token_def)
  moreover have "is_space c \<Longrightarrow> c \<noteq> 45 \<and> plus is_space (c # w) = Some (c # takeWhile is_space w, dropWhile is_space w)"
    by (auto simp: plus_def is_space_def)
  ultimately show ?thesis using Cons by (auto simp: SCANNER_def match_comment_def after_char)
qed

lemma scan_shown: "list_all token_ok ts \<Longrightarrow> scan (show_tokens ts) = (ts, [])"
proof (induction ts)
  case Nil
  have "first_match SCANNER [] = None" by (simp add: SCANNER_def pattern_defs after_char plus_def match_word_def)
  then show ?case by (simp add: show_tokens_def scan.simps)
next
  case (Cons t ts)
  let ?s = "show_tokens ts"
  have "?s = [] \<or> \<not> is_space (hd ?s)"
    using Cons.prems show_token_head by (cases ts) (fastforce simp: show_tokens_def)+
  then have "scan (32 # ?s) = scan ?s" by (subst scan.simps) (simp add: first_match_space split: prod.split)
  moreover have "show_token t \<noteq> []" using show_token_head [of t] Cons.prems by force
  moreover have "first_match SCANNER (show_token t @ 32 # ?s) = Some (Some t, 32 # ?s)"
    using Cons.prems by (intro scan_token) (auto simp: ends_token_def)
  ultimately show ?case using Cons
    by (subst scan.simps) (simp add: show_tokens_def Let_def)
qed

text \<open>
  Scanning is a left inverse of printing: whatever tokens a text is put together from, with a blank after each,
  the tokenizer finds exactly these tokens and closes them with the end marker. Words in brackets,
  strings with quotes behind a backslash, and operators of two characters are found whole.
\<close>

theorem tokenize_shown: "list_all token_ok ts \<Longrightarrow> tokenize (show_tokens ts) = Inr (ts @ [Token EOF []])"
  by (simp add: tokenize_def scan_shown strip_def)

end
