(* ===== verification/SqlParser.thy ===== *)
theory SqlParser
  imports SqlLexer SqlPlan
begin

text \<open>
  The recursive-descent parser of \<open>sql/parser.py\<close>. The state of a parser is the list of tokens from the
  current position on; the end marker is never consumed, so the list is never empty. The nesting depth,
  which the code counts up before a bracket and down after it, is an argument: an exception ends the whole
  parse, so the two always balance. The recursion through brackets and the loops over commas and
  connectives carry fuel, one unit per token being enough.
\<close>

section \<open>Token navigation\<close>

type_synonym 'a parser = "(token list, 'a) pm"

definition MAX_NESTING_DEPTH :: nat where "MAX_NESTING_DEPTH = 50"
definition MAX_IN_LIST_SIZE :: nat where "MAX_IN_LIST_SIZE = 1000"

definition ifS :: "('s \<Rightarrow> bool) \<Rightarrow> ('s, 'a) pm \<Rightarrow> ('s, 'a) pm \<Rightarrow> ('s, 'a) pm" where
  "ifS c m m' = (\<lambda>s. if c s then m s else m' s)"

definition peek :: "token parser" where
  "peek = (\<lambda>ts. case ts of [] \<Rightarrow> (Inl IndexError, ts) | t # _ \<Rightarrow> (Inr t, ts))"

definition advance :: "token parser" where
  "advance = (\<lambda>ts. case ts of [] \<Rightarrow> (Inl IndexError, ts) | t # r \<Rightarrow> (Inr t, r))"

definition expect :: "string \<Rightarrow> token parser" where
  "expect v = bindS peek (\<lambda>tok. if upper (tok_value tok) \<noteq> pystr_of v then raiseS ParseError else advance)"

definition expect_type :: "TT \<Rightarrow> token parser" where
  "expect_type tt = bindS peek (\<lambda>tok. if tok_type tok \<noteq> tt then raiseS ParseError else advance)"

definition expect_name :: "pystr parser" where
  "expect_name =
     bindS peek (\<lambda>tok.
     if tok_type tok \<notin> {IDENT, KEYWORD} then raiseS ParseError
     else bindS advance (\<lambda>t. retS (tok_value t)))"

definition is_type :: "TT \<Rightarrow> token list \<Rightarrow> bool" where
  "is_type tt ts \<longleftrightarrow> (case ts of [] \<Rightarrow> False | t # _ \<Rightarrow> tok_type t = tt)"

definition at_eof :: "token list \<Rightarrow> bool" where
  "at_eof ts \<longleftrightarrow> ts = [] \<or> is_type EOF ts"

definition is_keyword :: "string list \<Rightarrow> token \<Rightarrow> bool" where
  "is_keyword vs t \<longleftrightarrow> tok_type t \<in> {KEYWORD, IDENT} \<and> upper (tok_value t) \<in> set (map pystr_of vs)"

definition at_keyword :: "string list \<Rightarrow> token list \<Rightarrow> bool" where
  "at_keyword vs ts \<longleftrightarrow> (case ts of [] \<Rightarrow> False | t # _ \<Rightarrow> is_keyword vs t)"

definition is_punct :: "string \<Rightarrow> token \<Rightarrow> bool" where
  "is_punct v t \<longleftrightarrow> tok_type t = PUNCT \<and> tok_value t = pystr_of v"

definition at_punct :: "string \<Rightarrow> token list \<Rightarrow> bool" where
  "at_punct v ts \<longleftrightarrow> (case ts of [] \<Rightarrow> False | t # _ \<Rightarrow> is_punct v t)"

definition next_is_open_paren :: "token list \<Rightarrow> bool" where
  "next_is_open_paren ts \<longleftrightarrow> 1 < length ts \<and> is_punct ''('' (ts ! 1)"

definition optionally :: "string \<Rightarrow> bool parser" where
  \<comment> \<open>take the keyword if it is there\<close>
  "optionally v = ifS (at_keyword [v]) (bindS advance (\<lambda>_. retS True)) (retS False)"

section \<open>Loops over commas\<close>

fun comma_rest :: "nat \<Rightarrow> 'a parser \<Rightarrow> 'a list parser" where
  "comma_rest 0 item = raiseS Diverges"
| "comma_rest (Suc fuel) item =
     ifS (at_punct '','')
       (bindS advance (\<lambda>_. bindS item (\<lambda>x. bindS (comma_rest fuel item) (\<lambda>xs. retS (x # xs)))))
       (retS [])"

definition comma_list :: "nat \<Rightarrow> 'a parser \<Rightarrow> 'a list parser" where
  "comma_list fuel item = bindS item (\<lambda>x. bindS (comma_rest fuel item) (\<lambda>xs. retS (x # xs)))"

fun in_rest :: "nat \<Rightarrow> nat \<Rightarrow> expr parser \<Rightarrow> expr list parser" where
  \<comment> \<open>the loop of \<open>_parse_in_items\<close> after \<open>n\<close> items\<close>
  "in_rest 0 n item = raiseS Diverges"
| "in_rest (Suc fuel) n item =
     ifS (at_punct '','')
       (bindS advance (\<lambda>_.
        ifS (at_keyword [''SELECT'']) (raiseS ParseError)
          (bindS item (\<lambda>x.
           if MAX_IN_LIST_SIZE < n + 1 then raiseS ParseError
           else bindS (in_rest fuel (n + 1) item) (\<lambda>xs. retS (x # xs))))))
       (retS [])"

definition parse_in_items :: "nat \<Rightarrow> expr parser \<Rightarrow> expr list parser" where
  "parse_in_items fuel item = bindS item (\<lambda>x. bindS (in_rest fuel 1 item) (\<lambda>xs. retS (x # xs)))"

section \<open>Expressions\<close>

definition in_list :: "nat \<Rightarrow> expr parser \<Rightarrow> expr \<Rightarrow> expr parser" where
  \<comment> \<open>after \<open>IN\<close>\<close>
  "in_list fuel primary left =
     bindS (expect ''('') (\<lambda>_.
     ifS (at_keyword [''SELECT'']) (raiseS ParseError)
       (bindS (parse_in_items fuel primary) (\<lambda>items.
        bindS (expect '')'') (\<lambda>_. retS (InList left items)))))"

definition next_value_is :: "string \<Rightarrow> token list \<Rightarrow> bool" where
  "next_value_is v ts \<longleftrightarrow> 1 < length ts \<and> upper (tok_value (ts ! 1)) = pystr_of v"

definition parse_comparison :: "nat \<Rightarrow> expr parser \<Rightarrow> expr parser" where
  "parse_comparison fuel primary =
     bindS primary (\<lambda>left.
     ifS (at_keyword [''OVER'']) (raiseS ParseError) (
     ifS (at_keyword [''IS''])
       (bindS advance (\<lambda>_.
        bindS (optionally ''NOT'') (\<lambda>negated.
        bindS (expect ''NULL'') (\<lambda>_. retS (IsNull left negated))))) (
     ifS (at_keyword [''IN''])
       (bindS advance (\<lambda>_. in_list fuel primary left)) (
     ifS (\<lambda>ts. at_keyword [''NOT''] ts \<and> next_value_is ''IN'' ts)
       (bindS advance (\<lambda>_. bindS advance (\<lambda>_.
        bindS (in_list fuel primary left) (\<lambda>e. retS (UnaryOp (pystr_of ''NOT'') e))))) (
     ifS (at_keyword [''LIKE''])
       (bindS advance (\<lambda>_. bindS primary (\<lambda>right. retS (BinOp (pystr_of ''LIKE'') left right)))) (
     ifS (\<lambda>ts. at_keyword [''NOT''] ts \<and> next_value_is ''LIKE'' ts)
       (bindS advance (\<lambda>_. bindS advance (\<lambda>_.
        bindS primary (\<lambda>right. retS (BinOp (pystr_of ''NOT LIKE'') left right))))) (
     ifS (is_type OP)
       (bindS advance (\<lambda>op. bindS primary (\<lambda>right. retS (BinOp (tok_value op) left right))))
       (retS left))))))))"

definition parse_not :: "nat \<Rightarrow> expr parser \<Rightarrow> expr parser" where
  "parse_not fuel primary =
     ifS (at_keyword [''NOT''])
       (bindS advance (\<lambda>_. bindS (parse_comparison fuel primary) (\<lambda>operand. retS (UnaryOp (pystr_of ''NOT'') operand))))
       (parse_comparison fuel primary)"

fun connective_loop :: "nat \<Rightarrow> string \<Rightarrow> expr parser \<Rightarrow> expr \<Rightarrow> expr parser" where
  \<comment> \<open>the loops of \<open>_parse_or\<close> and \<open>_parse_and\<close>\<close>
  "connective_loop 0 op level left = raiseS Diverges"
| "connective_loop (Suc fuel) op level left =
     ifS (at_keyword [op])
       (bindS advance (\<lambda>_. bindS level (\<lambda>right. connective_loop fuel op level (BinOp (pystr_of op) left right))))
       (retS left)"

definition parse_and :: "nat \<Rightarrow> expr parser \<Rightarrow> expr parser" where
  "parse_and fuel primary = bindS (parse_not fuel primary) (connective_loop fuel ''AND'' (parse_not fuel primary))"

definition parse_or :: "nat \<Rightarrow> expr parser \<Rightarrow> expr parser" where
  "parse_or fuel primary = bindS (parse_and fuel primary) (connective_loop fuel ''OR'' (parse_and fuel primary))"

definition hex_value :: "nat \<Rightarrow> nat" where
  "hex_value c = (if is_digit c then c - 48 else if 97 \<le> c then c - 87 else c - 55)"

fun fromhex :: "pystr \<Rightarrow> bytes res" where
  \<comment> \<open>\<open>bytes.fromhex\<close>: pairs of digits, with ASCII white space allowed between the pairs\<close>
  "fromhex [] = Inr []"
| "fromhex (c # s) =
     (if c = 32 \<or> 9 \<le> c \<and> c \<le> 13 then fromhex s
      else case s of
             [] \<Rightarrow> Inl ValueError
           | d # r \<Rightarrow>
               if is_hex c \<and> is_hex d then bindR (fromhex r) (\<lambda>bs. Inr (of_nat (16 * hex_value c + hex_value d) # bs))
               else Inl ValueError)"

definition unquote :: "pystr \<Rightarrow> pystr" where
  "unquote raw = (if raw \<noteq> [] \<and> hd raw = 39 \<and> last raw = 39 then butlast (tl raw) else raw)"

definition int_of :: "pystr \<Rightarrow> int res" where
  "int_of s = (case py_int_of s of Some i \<Rightarrow> Inr i | None \<Rightarrow> Inl ValueError)"

definition literal_of :: "pylib \<Rightarrow> token \<Rightarrow> expr res option" where
  \<comment> \<open>the tokens that are an expression by themselves\<close>
  "literal_of lib tok =
     (case tok_type tok of
        PLACEHOLDER \<Rightarrow> Some (Inr placeholder)
      | NAMED_PARAM \<Rightarrow> Some (Inr (NamedParam (tl (tok_value tok))))
      | STRING \<Rightarrow> Some (Inr (Literal (PStr (unquote (tok_value tok)))))
      | BLOB \<Rightarrow> Some (bindR (fromhex (butlast (drop 2 (tok_value tok)))) (\<lambda>bs. Inr (Literal (PBytes bs))))
      | INTEGER \<Rightarrow> Some (bindR (int_of (tok_value tok)) (\<lambda>i. Inr (Literal (PInt i))))
      | REAL \<Rightarrow> Some (case lib_float lib (tok_value tok) of Some f \<Rightarrow> Inr (Literal (PFloat f)) | None \<Rightarrow> Inl ValueError)
      | KEYWORD \<Rightarrow>
          if upper (tok_value tok) = pystr_of ''NULL'' then Some (Inr (Literal PNull))
          else if upper (tok_value tok) = pystr_of ''TRUE'' then Some (Inr (Literal (PInt 1)))
          else if upper (tok_value tok) = pystr_of ''FALSE'' then Some (Inr (Literal (PInt 0)))
          else None
      | _ \<Rightarrow> None)"

definition coalesce_args :: "nat \<Rightarrow> expr parser \<Rightarrow> expr parser" where
  \<comment> \<open>after the word \<open>COALESCE\<close>\<close>
  "coalesce_args fuel primary =
     bindS (expect ''('') (\<lambda>_.
     bindS (comma_list fuel primary) (\<lambda>args.
     bindS (expect '')'') (\<lambda>_.
     if length args \<noteq> 2 then raiseS ParseError else retS (Coalesce args))))"

definition datetime_args :: "nat \<Rightarrow> expr parser \<Rightarrow> expr parser" where
  "datetime_args fuel primary =
     bindS (expect ''('') (\<lambda>_.
     bindS (comma_list fuel primary) (\<lambda>args.
     bindS (expect '')'') (\<lambda>_.
     if length args \<noteq> 1 then raiseS ParseError else retS (FuncCall (pystr_of ''datetime'') args))))"

definition column_ref :: "expr parser" where
  \<comment> \<open>an identifier, possibly with a dot and another one\<close>
  "column_ref =
     bindS advance (\<lambda>tok.
     ifS (at_punct ''.'')
       (bindS advance (\<lambda>_. bindS expect_name (\<lambda>col. retS (ColumnRef (tok_value tok @ [46] @ col)))))
       (ifS (at_keyword [''OVER'']) (raiseS ParseError) (retS (ColumnRef (tok_value tok)))))"

fun parse_primary :: "pylib \<Rightarrow> nat \<Rightarrow> nat \<Rightarrow> expr parser" where
  "parse_primary lib 0 depth = raiseS Diverges"
| "parse_primary lib (Suc fuel) depth =
     bindS peek (\<lambda>tok.
     if is_punct ''('' tok then
       bindS advance (\<lambda>_.
       if MAX_NESTING_DEPTH < depth + 1 then raiseS ParseError
       else
         ifS (at_keyword [''SELECT'']) (raiseS ParseError)
           (bindS (parse_or fuel (parse_primary lib fuel (depth + 1))) (\<lambda>e.
            bindS (expect '')'') (\<lambda>_. retS e))))
     else case literal_of lib tok of
       Some r \<Rightarrow> bindS advance (\<lambda>_. liftR r)
     | None \<Rightarrow>
         ifS (\<lambda>ts. at_keyword [''COALESCE''] ts \<and> next_is_open_paren ts)
           (bindS advance (\<lambda>_. coalesce_args fuel (parse_primary lib fuel depth)))
         (ifS (\<lambda>ts. at_keyword [''DATETIME''] ts \<and> next_is_open_paren ts)
           (bindS advance (\<lambda>_.
            if MAX_NESTING_DEPTH < depth + 1 then raiseS ParseError
            else datetime_args fuel (parse_primary lib fuel (depth + 1))))
         (if tok_type tok = KEYWORD \<and> upper (tok_value tok) = pystr_of ''EXCLUDED'' then raiseS ParseError
          else if tok_type tok \<in> {IDENT, KEYWORD} then column_ref
          else raiseS ParseError)))"

definition primary :: "pylib \<Rightarrow> expr parser" where
  \<comment> \<open>\<open>_parse_primary\<close> outside every bracket\<close>
  "primary lib = (\<lambda>ts. parse_primary lib (Suc (length ts)) 0 ts)"

definition parse_expr :: "pylib \<Rightarrow> expr parser" where
  "parse_expr lib = (\<lambda>ts. parse_or (Suc (length ts)) (parse_primary lib (Suc (length ts)) 0) ts)"

definition parse_where :: "pylib \<Rightarrow> expr option parser" where
  "parse_where lib =
     ifS (at_keyword [''WHERE'']) (bindS advance (\<lambda>_. bindS (parse_expr lib) (\<lambda>e. retS (Some e)))) (retS None)"

end
