(* ===== verification/SqlStatement.thy ===== *)
theory SqlStatement
  imports SqlParser
begin

text \<open>
  The statements of \<open>sql/parser.py\<close>: SELECT with its select list and clauses, INSERT with its conflict
  clause, UPDATE, DELETE, the passthrough of DDL, PRAGMA and EXPLAIN as their text, and \<open>parse_sql\<close>.
\<close>

definition COUNT_STAR_MARKER :: pystr where
  "COUNT_STAR_MARKER = [0] @ pystr_of ''COUNT(*)''"

definition JOIN_KEYWORDS :: "string list" where
  "JOIN_KEYWORDS = [''JOIN'', ''LEFT'', ''RIGHT'', ''INNER'', ''OUTER'', ''CROSS'', ''FULL'', ''NATURAL'']"

definition in_state :: "(nat \<Rightarrow> 'a parser) \<Rightarrow> 'a parser" where
  \<comment> \<open>a loop with one unit of fuel per token left\<close>
  "in_state f = (\<lambda>ts. f (Suc (length ts)) ts)"

section \<open>SELECT\<close>

datatype item_node = NameNode pystr | ExprNode expr

definition parse_optional_alias :: "pystr option parser" where
  "parse_optional_alias =
     ifS (at_keyword [''AS'']) (bindS advance (\<lambda>_. bindS expect_name (\<lambda>n. retS (Some n))))
     (ifS (\<lambda>ts. (is_type IDENT ts \<or> is_type KEYWORD ts) \<and> \<not> at_keyword [''FROM''] ts)
        (bindS advance (\<lambda>t. retS (Some (tok_value t))))
        (retS None))"

definition count_star :: "unit parser" where
  \<comment> \<open>\<open>(*)\<close> after \<open>COUNT\<close>\<close>
  "count_star = bindS (expect ''('') (\<lambda>_. bindS (expect ''*'') (\<lambda>_. bindS (expect '')'') (\<lambda>_. retS ())))"

definition with_alias :: "item_node \<Rightarrow> (item_node \<times> pystr option) parser" where
  "with_alias node = bindS parse_optional_alias (\<lambda>alias. retS (node, alias))"

definition starts_literal :: "token list \<Rightarrow> bool" where
  "starts_literal ts \<longleftrightarrow>
     (case ts of
        [] \<Rightarrow> False
      | t # _ \<Rightarrow> tok_type t \<in> {INTEGER, REAL, STRING, BLOB, PLACEHOLDER, NAMED_PARAM} \<or>
          tok_type t = KEYWORD \<and> upper (tok_value t) \<in> pystr_of ` {''NULL'', ''TRUE'', ''FALSE''})"

definition parse_select_item :: "pylib \<Rightarrow> (item_node \<times> pystr option) parser" where
  \<comment> \<open>a bracket after a plain name is an error whatever follows; the skip to its end only picks the message\<close>
  "parse_select_item lib =
     ifS (\<lambda>ts. at_keyword [''COUNT''] ts \<and> next_is_open_paren ts)
       (bindS advance (\<lambda>_. bindS count_star (\<lambda>_. with_alias (NameNode COUNT_STAR_MARKER)))) (
     ifS (\<lambda>ts. at_keyword [''COALESCE''] ts \<and> next_is_open_paren ts)
       (bindS advance (\<lambda>_.
        bindS (in_state (\<lambda>fuel. coalesce_args fuel (primary lib))) (\<lambda>e. with_alias (ExprNode e)))) (
     ifS starts_literal
       (bindS (primary lib) (\<lambda>e. with_alias (ExprNode e)))
       (bindS expect_name (\<lambda>name.
        ifS (at_punct ''('') (raiseS ParseError) (with_alias (NameNode name))))))"

definition count_star_is_sole_select :: "token list \<Rightarrow> bool" where
  "count_star_is_sole_select toks \<longleftrightarrow>
     3 < length toks \<and> is_punct ''('' (toks ! 1) \<and> is_punct ''*'' (toks ! 2) \<and> is_punct '')'' (toks ! 3) \<and>
     (length toks \<le> 4 \<or>
      (let nxt = toks ! 4 in
       \<not> is_punct '','' nxt \<and>
       (let aft = (if upper (tok_value nxt) = pystr_of ''AS'' \<and> 5 < length toks then 6
                   else if tok_type nxt \<in> {IDENT, KEYWORD} \<and> upper (tok_value nxt) \<noteq> pystr_of ''FROM'' then 5 else 4)
        in \<not> (aft < length toks \<and> is_punct '','' (toks ! aft)))))"

record select_list =
  sl_columns :: "pystr list"
  sl_aggregate :: "aggregate option"
  sl_aggregate_column :: "pystr option"
  sl_count_alias :: "pystr option"
  sl_exprs :: "(expr \<times> pystr) list"
  sl_group_select :: "group_item list"
  sl_group_count_alias :: "pystr option"

definition no_list :: select_list where
  "no_list = \<lparr>sl_columns = [], sl_aggregate = None, sl_aggregate_column = None, sl_count_alias = None,
     sl_exprs = [], sl_group_select = [], sl_group_count_alias = None\<rparr>"

definition alias_or :: "pystr option \<Rightarrow> pystr \<Rightarrow> pystr" where
  \<comment> \<open>\<open>alias or default\<close>\<close>
  "alias_or alias d = (case alias of Some a \<Rightarrow> if a = [] then d else a | None \<Rightarrow> d)"

fun group_items :: "(item_node \<times> pystr option) list \<Rightarrow> select_list \<Rightarrow> select_list res" where
  "group_items [] sl = Inr sl"
| "group_items ((node, alias) # items) sl =
     (case node of
        NameNode n \<Rightarrow>
          if n = COUNT_STAR_MARKER then
            (let a = alias_or alias (pystr_of ''COUNT(*)'') in
             group_items items (sl\<lparr>sl_group_count_alias := Some a, sl_group_select := sl_group_select sl @ [GroupCount a]\<rparr>))
          else group_items items (sl\<lparr>sl_group_select := sl_group_select sl @ [GroupCol (alias_or alias n) n]\<rparr>)
      | ExprNode e \<Rightarrow> Inl ParseError)"

definition expr_item :: "pylib \<Rightarrow> item_node \<times> pystr option \<Rightarrow> (expr \<times> pystr) res" where
  "expr_item lib item =
     (case item of
        (NameNode n, alias) \<Rightarrow> Inr (ColumnRef n, alias_or alias n)
      | (ExprNode e, Some a) \<Rightarrow> Inr (e, a)
      | (ExprNode (Literal v), None) \<Rightarrow> Inr (Literal v, py_str lib v)
      | (ExprNode e, None) \<Rightarrow> Inl ParseError)"

definition plain_names :: "(item_node \<times> pystr option) list \<Rightarrow> pystr list option" where
  \<comment> \<open>the names, if every item is a name without an alias\<close>
  "plain_names items =
     (if list_all (\<lambda>(node, alias). (case node of NameNode n \<Rightarrow> True | ExprNode e \<Rightarrow> False) \<and> alias = None) items
      then Some (map (\<lambda>(node, alias). case node of NameNode n \<Rightarrow> n | ExprNode e \<Rightarrow> []) items) else None)"

definition sort_items :: "pylib \<Rightarrow> (item_node \<times> pystr option) list \<Rightarrow> select_list res" where
  "sort_items lib items =
     (if \<exists>(node, alias) \<in> set items. node = NameNode COUNT_STAR_MARKER then group_items items no_list
      else case plain_names items of
        Some names \<Rightarrow> Inr (no_list\<lparr>sl_columns := names\<rparr>)
      | None \<Rightarrow> bindR (mapR (expr_item lib) items) (\<lambda>es. Inr (no_list\<lparr>sl_exprs := es\<rparr>)))"

definition column_in_parens :: "pystr parser" where
  "column_in_parens = bindS (expect ''('') (\<lambda>_. bindS expect_name (\<lambda>c. bindS (expect '')'') (\<lambda>_. retS c)))"

definition parse_select_list :: "pylib \<Rightarrow> select_list parser" where
  "parse_select_list lib =
     ifS (at_punct ''*'') (bindS advance (\<lambda>_. retS (no_list\<lparr>sl_columns := [pystr_of ''*'']\<rparr>))) (
     ifS (\<lambda>ts. at_keyword [''COUNT''] ts \<and> count_star_is_sole_select ts)
       (bindS advance (\<lambda>_. bindS count_star (\<lambda>_. bindS parse_optional_alias (\<lambda>alias.
        retS (no_list\<lparr>sl_aggregate := Some CountAgg, sl_count_alias := alias\<rparr>))))) (
     ifS (at_keyword [''SUM''])
       (bindS advance (\<lambda>_. bindS column_in_parens (\<lambda>c.
        retS (no_list\<lparr>sl_aggregate := Some SumAgg, sl_aggregate_column := Some c\<rparr>)))) (
     ifS (at_keyword [''MIN'', ''MAX''])
       (bindS advance (\<lambda>kw. bindS column_in_parens (\<lambda>c.
        retS (no_list\<lparr>sl_aggregate := Some (if upper (tok_value kw) = pystr_of ''MIN'' then MinAgg else MaxAgg),
                      sl_aggregate_column := Some c\<rparr>))))
       (bindS (in_state (\<lambda>fuel. comma_list fuel (parse_select_item lib))) (\<lambda>items. liftR (sort_items lib items))))))"

definition parse_having :: "(pystr \<times> int) parser" where
  \<comment> \<open>after \<open>HAVING\<close>\<close>
  "parse_having =
     bindS (expect ''COUNT'') (\<lambda>_. bindS count_star (\<lambda>_.
     bindS peek (\<lambda>tok.
     if tok_type tok \<noteq> OP \<or> tok_value tok \<notin> pystr_of ` {''>='', ''>'', ''<='', ''<'', ''='', ''!='', ''<>''} then raiseS ParseError
     else
       bindS advance (\<lambda>t.
       bindS (expect_type INTEGER) (\<lambda>val_tok.
       bindS (liftR (int_of (tok_value val_tok))) (\<lambda>i.
       retS (if tok_value t = pystr_of ''<>'' then pystr_of ''!='' else tok_value t, i)))))))"

definition parse_group_by :: "(pystr option \<times> (pystr \<times> int) option) parser" where
  "parse_group_by =
     ifS (at_keyword [''GROUP''])
       (bindS advance (\<lambda>_. bindS (expect ''BY'') (\<lambda>_. bindS expect_name (\<lambda>col.
        ifS (at_keyword [''HAVING''])
          (bindS advance (\<lambda>_. bindS parse_having (\<lambda>h. retS (Some col, Some h))))
          (retS (Some col, None))))))
     (ifS (at_keyword [''HAVING'']) (raiseS ParseError) (retS (None, None)))"

definition parse_order_by_key :: "(pystr \<times> bool) parser" where
  "parse_order_by_key =
     ifS (\<lambda>ts. at_keyword [''DATETIME''] ts \<and> next_is_open_paren ts)
       (bindS advance (\<lambda>_. bindS column_in_parens (\<lambda>c. retS (c, True))))
       (bindS expect_name (\<lambda>c. retS (c, False)))"

definition parse_direction :: "bool parser" where
  "parse_direction =
     ifS (at_keyword [''DESC'']) (bindS advance (\<lambda>_. retS True))
     (ifS (at_keyword [''ASC'']) (bindS advance (\<lambda>_. retS False)) (retS False))"

definition order_key_parser :: "(pystr \<times> bool \<times> bool) parser" where
  \<comment> \<open>a key with its direction: the column, descending, wrapped in \<open>datetime\<close>\<close>
  "order_key_parser = bindS parse_order_by_key (\<lambda>(c, dt). bindS parse_direction (\<lambda>desc. retS (c, desc, dt)))"

definition parse_order_by :: "((pystr \<times> bool \<times> bool) option \<times> (pystr \<times> bool \<times> bool) option) parser" where
  "parse_order_by =
     ifS (at_keyword [''ORDER''])
       (bindS advance (\<lambda>_. bindS (expect ''BY'') (\<lambda>_.
        bindS order_key_parser (\<lambda>k1.
        ifS (at_punct '','') (bindS advance (\<lambda>_. bindS order_key_parser (\<lambda>k2. retS (Some k1, Some k2)))) (retS (Some k1, None))))))
       (retS (None, None))"

definition parse_count :: "(int option \<times> bool) parser" where
  \<comment> \<open>an integer or a placeholder\<close>
  "parse_count =
     ifS (is_type PLACEHOLDER) (bindS advance (\<lambda>_. retS (None, True)))
       (bindS (expect_type INTEGER) (\<lambda>t. bindS (liftR (int_of (tok_value t))) (\<lambda>i. retS (Some i, False))))"

definition parse_limit :: "((int option \<times> bool) \<times> (int option \<times> bool)) parser" where
  "parse_limit =
     ifS (at_keyword [''LIMIT''])
       (bindS advance (\<lambda>_. bindS parse_count (\<lambda>l.
        ifS (at_keyword [''OFFSET'']) (bindS advance (\<lambda>_. bindS parse_count (\<lambda>f. retS (l, f)))) (retS (l, (None, False))))))
       (retS ((None, False), (None, False)))"

definition parse_select :: "pylib \<Rightarrow> select_stmt parser" where
  "parse_select lib =
     bindS (expect ''SELECT'') (\<lambda>_.
     ifS (at_keyword [''DISTINCT'']) (raiseS ParseError) (
     bindS (parse_select_list lib) (\<lambda>sl.
     bindS (expect ''FROM'') (\<lambda>_.
     bindS expect_name (\<lambda>table.
     ifS (at_keyword JOIN_KEYWORDS) (raiseS ParseError) (
     bindS (parse_where lib) (\<lambda>whr.
     bindS parse_group_by (\<lambda>(group_col, having).
     bindS parse_order_by (\<lambda>(k1, k2).
     bindS parse_limit (\<lambda>((limit, limit_is_param), (offset, offset_is_param)).
     retS \<lparr>s_table = table, s_columns = sl_columns sl, s_where = whr, s_limit = limit, s_limit_is_param = limit_is_param,
       s_offset = offset, s_offset_is_param = offset_is_param, s_aggregate = sl_aggregate sl,
       s_aggregate_column = sl_aggregate_column sl, s_count_alias = sl_count_alias sl, s_order_by = k1, s_order_by2 = k2,
       s_select_exprs = sl_exprs sl, s_group_by_col = group_col, s_group_count_alias = sl_group_count_alias sl,
       s_group_select = sl_group_select sl, s_having_op = map_option fst having, s_having_value = map_option snd having\<rparr>))))))))))"

section \<open>INSERT, UPDATE, DELETE\<close>

definition in_parens :: "'a parser \<Rightarrow> 'a list parser" where
  "in_parens item =
     bindS (expect ''('') (\<lambda>_. bindS (in_state (\<lambda>fuel. comma_list fuel item)) (\<lambda>xs. bindS (expect '')'') (\<lambda>_. retS xs)))"

definition parse_set_rhs :: "pylib \<Rightarrow> bool \<Rightarrow> expr parser" where
  "parse_set_rhs lib allow_excluded =
     ifS (\<lambda>ts. allow_excluded \<and> is_type KEYWORD ts \<and> at_keyword [''EXCLUDED''] ts)
       (bindS advance (\<lambda>_. bindS (expect ''.'') (\<lambda>_. bindS expect_name (\<lambda>c. retS (ExcludedRef c)))))
       (primary lib)"

definition set_clause :: "pylib \<Rightarrow> bool \<Rightarrow> (pystr \<times> expr) parser" where
  "set_clause lib allow_excluded =
     bindS expect_name (\<lambda>col. bindS (expect ''='') (\<lambda>_. bindS (parse_set_rhs lib allow_excluded) (\<lambda>v. retS (col, v))))"

definition parse_set_clauses :: "pylib \<Rightarrow> bool \<Rightarrow> (pystr \<times> expr) list parser" where
  "parse_set_clauses lib allow_excluded = in_state (\<lambda>fuel. comma_list fuel (set_clause lib allow_excluded))"

definition parse_or_clause :: "(bool \<times> bool) parser" where
  "parse_or_clause =
     ifS (at_keyword [''OR''])
       (bindS advance (\<lambda>_.
        ifS (at_keyword [''IGNORE'']) (bindS advance (\<lambda>_. retS (True, False)))
        (ifS (at_keyword [''REPLACE'']) (bindS advance (\<lambda>_. retS (False, True))) (raiseS ParseError))))
       (retS (False, False))"

definition parse_on_conflict :: "pylib \<Rightarrow> (pystr list \<times> conflict_action option \<times> (pystr \<times> expr) list) parser" where
  "parse_on_conflict lib =
     ifS (at_keyword [''ON''])
       (bindS advance (\<lambda>_. bindS (expect ''CONFLICT'') (\<lambda>_.
        bindS (in_parens expect_name) (\<lambda>keys.
        bindS (expect ''DO'') (\<lambda>_.
        ifS (at_keyword [''NOTHING'']) (bindS advance (\<lambda>_. retS (keys, Some DoNothing, [])))
        (ifS (at_keyword [''UPDATE''])
           (bindS advance (\<lambda>_. bindS (expect ''SET'') (\<lambda>_.
            bindS (parse_set_clauses lib True) (\<lambda>clauses. retS (keys, Some DoUpdate, clauses)))))
           (raiseS ParseError)))))))
       (retS ([], None, []))"

definition parse_insert :: "pylib \<Rightarrow> insert_stmt parser" where
  "parse_insert lib =
     bindS (expect ''INSERT'') (\<lambda>_.
     bindS parse_or_clause (\<lambda>(or_ignore, or_replace).
     bindS (expect ''INTO'') (\<lambda>_.
     bindS expect_name (\<lambda>table.
     bindS (in_parens expect_name) (\<lambda>columns.
     bindS (expect ''VALUES'') (\<lambda>_.
     bindS (in_parens (primary lib)) (\<lambda>vals.
     bindS (parse_on_conflict lib) (\<lambda>(keys, action, clauses).
     retS \<lparr>i_table = table, i_columns = columns, i_values = vals, i_or_ignore = or_ignore, i_or_replace = or_replace,
       i_conflict_keys = keys, i_conflict_action = action, i_set_clauses = clauses\<rparr>))))))))"

definition parse_update :: "pylib \<Rightarrow> update_stmt parser" where
  "parse_update lib =
     bindS (expect ''UPDATE'') (\<lambda>_.
     bindS expect_name (\<lambda>table.
     bindS (expect ''SET'') (\<lambda>_.
     bindS (parse_set_clauses lib False) (\<lambda>clauses.
     bindS (parse_where lib) (\<lambda>whr.
     retS \<lparr>u_table = table, u_set_clauses = clauses, u_where = whr\<rparr>)))))"

definition parse_delete :: "pylib \<Rightarrow> delete_stmt parser" where
  "parse_delete lib =
     bindS (expect ''DELETE'') (\<lambda>_.
     bindS (expect ''FROM'') (\<lambda>_.
     bindS expect_name (\<lambda>table.
     bindS (parse_where lib) (\<lambda>whr. retS \<lparr>d_table = table, d_where = whr\<rparr>))))"

section \<open>DDL and the dispatch\<close>

fun join_values :: "token list \<Rightarrow> pystr" where
  \<comment> \<open>\<open>" ".join(...)\<close> of the values up to the end marker\<close>
  "join_values [] = []"
| "join_values (t # ts) =
     (if tok_type t = EOF then [] else tok_value t @ (if at_eof ts then [] else [32] @ join_values ts))"

definition raw_rest :: "pystr parser" where
  \<comment> \<open>the loop that consumes every token left\<close>
  "raw_rest = (\<lambda>ts. (Inr (join_values ts), dropWhile (\<lambda>t. tok_type t \<noteq> EOF) ts))"

fun contains :: "pystr \<Rightarrow> pystr \<Rightarrow> bool" where
  \<comment> \<open>\<open>w in s\<close>\<close>
  "contains w [] = (w = [])"
| "contains w (c # s) = (take (length w) (c # s) = w \<or> contains w s)"

function words :: "pystr \<Rightarrow> pystr list" where
  \<comment> \<open>\<open>s.split()\<close>\<close>
  "words s =
     (case dropWhile is_space s of
        [] \<Rightarrow> []
      | c # r \<Rightarrow> (c # takeWhile (\<lambda>d. \<not> is_space d) r) # words (dropWhile (\<lambda>d. \<not> is_space d) r))"
  by pat_completeness auto
termination
proof (relation "measure length", simp)
  fix s :: pystr and c r
  assume "dropWhile is_space s = c # r"
  then have "length (c # r) \<le> length s" by (metis length_dropWhile_le)
  then show "(dropWhile (\<lambda>d. \<not> is_space d) r, s) \<in> measure length"
    using length_dropWhile_le [of "\<lambda>d. \<not> is_space d" r] by simp
qed

definition word_is :: "pystr list \<Rightarrow> nat \<Rightarrow> string \<Rightarrow> bool" where
  "word_is ws i w \<longleftrightarrow> i < length ws \<and> upper (ws ! i) = pystr_of w"

definition ddl_kind_of :: "pystr \<Rightarrow> pystr \<Rightarrow> ddl_kind" where
  "ddl_kind_of first raw =
     (let ws = words raw; raw_upper = upper raw in
      if first = pystr_of ''CREATE'' then
        (if word_is ws 1 ''INDEX'' \<or> word_is ws 1 ''UNIQUE'' \<and> word_is ws 2 ''INDEX'' then CreateIndex else CreateTable)
      else if first = pystr_of ''ALTER'' then
        (if contains (pystr_of '' RENAME '') raw_upper then AlterRenameTable
         else if contains (pystr_of '' DROP '') raw_upper then AlterDropColumn else AlterAddColumn)
      else if first = pystr_of ''DROP'' then DropTable
      else Pragma)"

definition parse_ddl :: "stmt parser" where
  "parse_ddl = bindS peek (\<lambda>tok. bindS raw_rest (\<lambda>raw. retS (DDLS (ddl_kind_of (upper (tok_value tok)) raw) raw)))"

definition parse_explain :: "stmt parser" where
  "parse_explain =
     bindS advance (\<lambda>_.
     bindS (ifS (at_keyword [''QUERY'']) (bindS advance (\<lambda>_. bindS (optionally ''PLAN'') (\<lambda>_. retS ()))) (retS ())) (\<lambda>_.
     bindS raw_rest (\<lambda>raw. retS (DDLS Pragma raw))))"

definition parse_body :: "pylib \<Rightarrow> pystr \<Rightarrow> stmt parser" where
  "parse_body lib kw =
     (if kw = pystr_of ''SELECT'' then bindS (parse_select lib) (\<lambda>s. retS (SelectS s))
      else if kw = pystr_of ''INSERT'' then bindS (parse_insert lib) (\<lambda>s. retS (InsertS s))
      else if kw = pystr_of ''UPDATE'' then bindS (parse_update lib) (\<lambda>s. retS (UpdateS s))
      else if kw = pystr_of ''DELETE'' then bindS (parse_delete lib) (\<lambda>s. retS (DeleteS s))
      else if kw \<in> pystr_of ` {''CREATE'', ''ALTER'', ''DROP'', ''PRAGMA''} then parse_ddl
      else raiseS ParseError)"

definition parse :: "pylib \<Rightarrow> stmt parser" where
  "parse lib =
     bindS peek (\<lambda>tok.
     let kw = upper (tok_value tok) in
     if tok_type tok = EOF then raiseS ParseError
     else if kw = pystr_of ''WITH'' then raiseS ParseError
     else if kw = pystr_of ''EXPLAIN'' then parse_explain
     else
       bindS (parse_body lib kw) (\<lambda>stmt.
       ifS (at_keyword [''UNION'', ''INTERSECT'', ''EXCEPT'']) (raiseS ParseError)
         (ifS (\<lambda>ts. \<not> at_eof ts) (raiseS ParseError) (retS stmt))))"

definition parse_sql :: "pylib \<Rightarrow> pystr \<Rightarrow> stmt res" where
  "parse_sql lib sql = bindR (tokenize sql) (\<lambda>tokens. fst (parse lib tokens))"

end
