(* ===== verification/SqlDdl.thy ===== *)
theory SqlDdl
  imports SqlStatement SqlRows
begin

text \<open>
  The DDL half of \<open>sql/catalog.py\<close>: the text kept in a DDL statement is tokenized again and read by a small
  parser per statement, which works on the values of the tokens; the outcome changes the registry. The
  state of these parsers is the list of tokens left; reading past its end is Python's \<open>IndexError\<close>.
\<close>

section \<open>Type affinity\<close>

definition AFFINITY_MAP :: "(string \<times> string) list" where
  \<comment> \<open>in the order the code iterates over it\<close>
  "AFFINITY_MAP =
     [(''INTEGER'', ''INTEGER''), (''INT'', ''INTEGER''), (''REAL'', ''REAL''), (''FLOAT'', ''REAL''), (''DOUBLE'', ''REAL''),
      (''BLOB'', ''BLOB''), (''NONE'', ''BLOB''), (''NUMERIC'', ''NUMERIC''), (''DECIMAL'', ''NUMERIC''),
      (''BOOLEAN'', ''NUMERIC''), (''DATE'', ''NUMERIC''), (''DATETIME'', ''NUMERIC''), (''TEXT'', ''TEXT''),
      (''CHAR'', ''TEXT''), (''CLOB'', ''TEXT''), (''VARCHAR'', ''TEXT'')]"

definition affinity_table :: "(pystr \<times> pystr) list" where
  "affinity_table = map (\<lambda>(k, a). (pystr_of k, pystr_of a)) AFFINITY_MAP"

fun first_contained :: "pystr \<Rightarrow> (pystr \<times> pystr) list \<Rightarrow> pystr option" where
  "first_contained s [] = None"
| "first_contained s ((k, a) # m) = (if contains k s then Some a else first_contained s m)"

definition affinity_for :: "pystr \<Rightarrow> pystr" where
  "affinity_for type_token =
     (let s = upper type_token in
      case map_of affinity_table s of
        Some a \<Rightarrow> a
      | None \<Rightarrow> (case first_contained s affinity_table of Some a \<Rightarrow> a | None \<Rightarrow> pystr_of ''TEXT''))"

section \<open>Reading values\<close>

definition next_upper :: "token list \<Rightarrow> pystr" where
  \<comment> \<open>the local \<open>peek()\<close>: empty at the end marker and past it\<close>
  "next_upper ts = (case ts of [] \<Rightarrow> [] | t # _ \<Rightarrow> upper (tok_value t))"

definition next_in :: "string list \<Rightarrow> token list \<Rightarrow> bool" where
  "next_in ws ts \<longleftrightarrow> next_upper ts \<in> set (map pystr_of ws)"

definition advance_value :: "pystr parser" where
  "advance_value = bindS advance (\<lambda>t. retS (tok_value t))"

definition expect_value :: "string \<Rightarrow> unit parser" where
  \<comment> \<open>the local \<open>expect(value)\<close>: the token is consumed before it is compared\<close>
  "expect_value v = bindS advance_value (\<lambda>got. if upper got \<noteq> pystr_of v then raiseS CatalogError else retS ())"

definition skip_if :: "string \<Rightarrow> bool parser" where
  "skip_if w = ifS (next_in [w]) (bindS advance (\<lambda>_. retS True)) (retS False)"

definition is_name :: "token list \<Rightarrow> bool" where
  "is_name ts \<longleftrightarrow> is_type KEYWORD ts \<or> is_type IDENT ts"

section \<open>CREATE TABLE\<close>

fun constraint_columns :: "nat \<Rightarrow> token list \<Rightarrow> pystr list \<times> token list" where
  \<comment> \<open>inside the brackets of a table constraint: the values at depth 1 other than commas, and what follows\<close>
  "constraint_columns depth [] = ([], [])"
| "constraint_columns depth (t # ts) =
     (let v = tok_value t in
      if v = pystr_of ''('' then constraint_columns (depth + 1) ts
      else if v = pystr_of '')'' then (if depth = 1 then ([], ts) else constraint_columns (depth - 1) ts)
      else if v = pystr_of '','' \<and> depth = 1 then constraint_columns depth ts
      else case constraint_columns depth ts of (ns, r) \<Rightarrow> (if depth = 1 then v # ns else ns, r))"

definition mark_primary :: "pylib \<Rightarrow> pystr list \<Rightarrow> column_meta list \<Rightarrow> column_meta list" where
  "mark_primary lib pk_col_names columns =
     map (\<lambda>cm. if py_lower lib (cm_name cm) \<in> set (map (py_lower lib) pk_col_names)
               then cm\<lparr>cm_primary_key := True, cm_nullable := False\<rparr> else cm) columns"

definition table_constraint :: "pylib \<Rightarrow> column_meta list \<Rightarrow> column_meta list parser" where
  "table_constraint lib columns = (\<lambda>ts.
     let is_primary = next_in [''PRIMARY''] ts;
         (names, r) = (case dropWhile (\<lambda>t. tok_value t \<noteq> pystr_of ''('') ts of [] \<Rightarrow> ([], []) | _ # r \<Rightarrow> constraint_columns 1 r)
     in bindS (skip_if '','') (\<lambda>_. retS (if is_primary then mark_primary lib names columns else columns)) r)"

definition number_or_word :: "pylib \<Rightarrow> pystr \<Rightarrow> pyval" where
  \<comment> \<open>\<open>int\<close>, else \<open>float\<close>, else the text\<close>
  "number_or_word lib s =
     (case py_int_of s of Some i \<Rightarrow> PInt i | None \<Rightarrow> (case lib_float lib s of Some f \<Rightarrow> PFloat f | None \<Rightarrow> PStr s))"

definition strip_quotes :: "pystr \<Rightarrow> pystr" where
  \<comment> \<open>\<open>s.strip("'")\<close>\<close>
  "strip_quotes s = rev (dropWhile (\<lambda>c. c = 39) (rev (dropWhile (\<lambda>c. c = 39) s)))"

definition default_value :: "pylib \<Rightarrow> pyval option parser" where
  \<comment> \<open>the token or tokens after \<open>DEFAULT\<close>\<close>
  "default_value lib =
     bindS advance_value (\<lambda>first_default.
     if upper first_default = pystr_of ''X'' then
       ifS (is_type STRING)
         (bindS advance_value (\<lambda>hex_str. bindS (liftR (fromhex (strip_quotes hex_str))) (\<lambda>bs. retS (Some (PBytes bs)))))
         (retS (Some (number_or_word lib first_default)))
     else if first_default \<noteq> [] \<and> hd first_default = 39 \<and> last first_default = 39 then
       retS (Some (PStr (butlast (tl first_default))))
     else if upper first_default = pystr_of ''NULL'' then retS None
     else retS (Some (number_or_word lib first_default)))"

record column_flags =
  cf_nullable :: bool
  cf_primary_key :: bool
  cf_default :: "pyval option option"

definition references_clause :: "unit parser" where
  "references_clause =
     bindS advance (\<lambda>_. bindS advance (\<lambda>_.
     ifS (next_in [''('']) (bindS advance (\<lambda>_. bindS advance (\<lambda>_. bindS advance (\<lambda>_. retS ())))) (retS ())))"

fun column_constraints :: "pylib \<Rightarrow> nat \<Rightarrow> column_flags \<Rightarrow> column_flags parser" where
  "column_constraints lib 0 cf = raiseS Diverges"
| "column_constraints lib (Suc fuel) cf =
     ifS (\<lambda>ts. next_in ['','', '')'', []] ts \<or> is_type EOF ts) (retS cf) (
     ifS (next_in [''PRIMARY''])
       (bindS advance (\<lambda>_. bindS advance (\<lambda>_. column_constraints lib fuel (cf\<lparr>cf_primary_key := True\<rparr>)))) (
     ifS (next_in [''NOT''])
       (bindS advance (\<lambda>_. bindS (skip_if ''NULL'') (\<lambda>b.
        column_constraints lib fuel (if b then cf\<lparr>cf_nullable := False\<rparr> else cf)))) (
     ifS (next_in [''AUTOINCREMENT'', ''UNIQUE'']) (bindS advance (\<lambda>_. column_constraints lib fuel cf)) (
     ifS (next_in [''DEFAULT''])
       (bindS advance (\<lambda>_.
        ifS (\<lambda>ts. ts = []) (column_constraints lib fuel cf)
          (bindS (default_value lib) (\<lambda>d. column_constraints lib fuel (cf\<lparr>cf_default := Some d\<rparr>))))) (
     ifS (next_in [''REFERENCES'']) (bindS references_clause (\<lambda>_. column_constraints lib fuel cf))
       (retS cf))))))"

definition column_type :: "string list \<Rightarrow> pystr parser" where
  \<comment> \<open>the affinity of the type token, if there is one; \<open>stop\<close> are the words that are no type\<close>
  "column_type stop =
     ifS (\<lambda>ts. is_name ts \<and> \<not> next_in stop ts)
       (bindS advance_value (\<lambda>type_token. retS (affinity_for type_token))) (retS (pystr_of ''TEXT''))"

definition column_def :: "pylib \<Rightarrow> column_meta parser" where
  "column_def lib =
     bindS advance_value (\<lambda>col_name.
     bindS (column_type ['','', '')'', ''PRIMARY'', ''NOT'', ''UNIQUE'', ''DEFAULT'', ''REFERENCES'', ''CHECK'', ''CONSTRAINT'', ''AUTOINCREMENT''])
       (\<lambda>affinity.
     bindS (in_state (\<lambda>fuel. column_constraints lib fuel \<lparr>cf_nullable = True, cf_primary_key = False, cf_default = None\<rparr>)) (\<lambda>cf.
     bindS (skip_if '','') (\<lambda>_.
     retS \<lparr>cm_name = col_name, cm_affinity = affinity, cm_nullable = cf_nullable cf, cm_primary_key = cf_primary_key cf,
       cm_default = cf_default cf\<rparr>))))"

fun column_defs :: "pylib \<Rightarrow> nat \<Rightarrow> column_meta list \<Rightarrow> column_meta list parser" where
  "column_defs lib 0 columns = raiseS Diverges"
| "column_defs lib (Suc fuel) columns =
     ifS (next_in ['')'', []]) (retS columns) (
     ifS (next_in [''PRIMARY'', ''UNIQUE'', ''CHECK'', ''FOREIGN'', ''CONSTRAINT''])
       (bindS (table_constraint lib columns) (column_defs lib fuel))
       (bindS (column_def lib) (\<lambda>cm. column_defs lib fuel (columns @ [cm]))))"

definition create_table :: "pylib \<Rightarrow> (pystr \<times> column_meta list) parser" where
  "create_table lib =
     bindS (expect_value ''CREATE'') (\<lambda>_. bindS (expect_value ''TABLE'') (\<lambda>_.
     bindS (ifS (next_in [''IF'']) (bindS advance (\<lambda>_. bindS (expect_value ''NOT'') (\<lambda>_. expect_value ''EXISTS''))) (retS ())) (\<lambda>_.
     bindS advance_value (\<lambda>table_name.
     bindS (expect_value ''('') (\<lambda>_.
     bindS (in_state (\<lambda>fuel. column_defs lib fuel [])) (\<lambda>columns. retS (table_name, columns)))))))"

section \<open>The other statements\<close>

definition after_alter :: "pystr parser" where
  \<comment> \<open>\<open>ALTER TABLE\<close> and the table\<close>
  "after_alter = bindS (expect_value ''ALTER'') (\<lambda>_. bindS (expect_value ''TABLE'') (\<lambda>_. advance_value))"

definition add_column :: "(pystr \<times> column_meta) parser" where
  "add_column =
     bindS after_alter (\<lambda>table_name.
     bindS (expect_value ''ADD'') (\<lambda>_.
     bindS (skip_if ''COLUMN'') (\<lambda>_.
     bindS advance_value (\<lambda>col_name.
     bindS (column_type ['','', '')'']) (\<lambda>affinity.
     retS (table_name, \<lparr>cm_name = col_name, cm_affinity = affinity, cm_nullable = True, cm_primary_key = False, cm_default = None\<rparr>))))))"

definition drop_column :: "(pystr \<times> pystr) parser" where
  "drop_column =
     bindS after_alter (\<lambda>table_name.
     bindS (expect_value ''DROP'') (\<lambda>_.
     bindS (skip_if ''COLUMN'') (\<lambda>_.
     bindS advance_value (\<lambda>col_name. retS (table_name, col_name)))))"

definition rename_table :: "(pystr \<times> pystr) parser" where
  "rename_table =
     bindS after_alter (\<lambda>old_name.
     bindS (expect_value ''RENAME'') (\<lambda>_. bindS (expect_value ''TO'') (\<lambda>_.
     bindS advance_value (\<lambda>new_name. retS (old_name, new_name)))))"

definition drop_table :: "(bool \<times> pystr) parser" where
  "drop_table =
     bindS (expect_value ''DROP'') (\<lambda>_. bindS (expect_value ''TABLE'') (\<lambda>_.
     bindS (skip_if ''IF'') (\<lambda>if_exists.
     bindS (if if_exists then expect_value ''EXISTS'' else retS ()) (\<lambda>_.
     bindS advance_value (\<lambda>name. retS (if_exists, name))))))"

definition create_index :: "(pystr \<times> pystr \<times> pystr \<times> bool) parser" where
  \<comment> \<open>the table and its entry: index name, column, partial\<close>
  "create_index =
     bindS advance (\<lambda>_. bindS advance (\<lambda>_.
     bindS (skip_if ''IF'') (\<lambda>b.
     bindS (if b then bindS advance (\<lambda>_. bindS advance (\<lambda>_. retS ())) else retS ()) (\<lambda>_.
     bindS advance_value (\<lambda>index_name.
     bindS advance (\<lambda>_.
     bindS advance_value (\<lambda>table_name.
     bindS advance (\<lambda>_.
     bindS advance_value (\<lambda>col_name.
     bindS advance (\<lambda>_. (\<lambda>ts. (Inr (table_name, index_name, col_name, next_in [''WHERE''] ts), ts))))))))))))"

section \<open>The registry\<close>

definition dict_del :: "'k \<Rightarrow> ('k \<times> 'v) list \<Rightarrow> ('k \<times> 'v) list" where
  "dict_del k d = filter (\<lambda>e. fst e \<noteq> k) d"

definition rekey :: "'k \<Rightarrow> 'k \<Rightarrow> ('k \<times> 'v) list \<Rightarrow> ('k \<times> 'v) list" where
  \<comment> \<open>\<open>d[new] = d.pop(old)\<close>, nothing without \<open>old\<close>\<close>
  "rekey old new d = (case map_of d old of None \<Rightarrow> d | Some v \<Rightarrow> dict_put new v (dict_del old d))"

definition read_ddl :: "'a parser \<Rightarrow> pystr \<Rightarrow> 'a res" where
  "read_ddl p raw = bindR (tokenize raw) (\<lambda>tokens. fst (p tokens))"

definition cat_register :: "catalog \<Rightarrow> pystr \<Rightarrow> column_meta list \<Rightarrow> catalog" where
  "cat_register cat table columns = cat\<lparr>cat_tables := dict_put table columns (cat_tables cat)\<rparr>"

definition apply_create_table :: "pylib \<Rightarrow> catalog \<Rightarrow> pystr \<Rightarrow> catalog res" where
  "apply_create_table lib cat raw =
     bindR (read_ddl (create_table lib) raw) (\<lambda>(table_name, columns). Inr (cat_register cat table_name columns))"

definition apply_alter_add_column :: "catalog \<Rightarrow> pystr \<Rightarrow> catalog res" where
  "apply_alter_add_column cat raw =
     bindR (read_ddl add_column raw) (\<lambda>(table_name, col).
     bindR (cat_get cat table_name) (\<lambda>cms. Inr (cat_register cat table_name (cms @ [col]))))"

definition apply_alter_drop_column :: "catalog \<Rightarrow> pystr \<Rightarrow> catalog res" where
  "apply_alter_drop_column cat raw =
     bindR (read_ddl drop_column raw) (\<lambda>(table_name, col_name).
     case map_of (cat_tables cat) table_name of
       None \<Rightarrow> Inr cat
     | Some cms \<Rightarrow> Inr (cat_register cat table_name (filter (\<lambda>cm. cm_name cm \<noteq> col_name) cms)))"

definition apply_alter_rename :: "catalog \<Rightarrow> pystr \<Rightarrow> catalog res" where
  "apply_alter_rename cat raw =
     bindR (read_ddl rename_table raw) (\<lambda>(old_name, new_name).
     bindR (cat_get cat old_name) (\<lambda>_.
     Inr (cat\<lparr>cat_tables := rekey old_name new_name (cat_tables cat), cat_indexes := rekey old_name new_name (cat_indexes cat)\<rparr>)))"

definition apply_drop_table :: "catalog \<Rightarrow> pystr \<Rightarrow> catalog res" where
  "apply_drop_table cat raw =
     bindR (read_ddl drop_table raw) (\<lambda>(if_exists, name).
     case map_of (cat_tables cat) name of
       None \<Rightarrow> if if_exists then Inr cat else Inl CatalogError
     | Some _ \<Rightarrow> Inr (cat\<lparr>cat_tables := dict_del name (cat_tables cat), cat_indexes := dict_del name (cat_indexes cat)\<rparr>))"

definition apply_create_index :: "pylib \<Rightarrow> catalog \<Rightarrow> pystr \<Rightarrow> catalog res" where
  "apply_create_index lib cat raw =
     bindR (read_ddl create_index raw) (\<lambda>(table_name, index_name, col_name, is_partial).
     let entries = (case map_of (cat_indexes cat) table_name of Some es \<Rightarrow> es | None \<Rightarrow> []) in
     if \<exists>(name, _, _) \<in> set entries. py_lower lib name = py_lower lib index_name then Inr cat
     else Inr (cat\<lparr>cat_indexes := dict_put table_name (entries @ [(index_name, col_name, is_partial)]) (cat_indexes cat)\<rparr>))"

definition apply_ddl :: "pylib \<Rightarrow> catalog \<Rightarrow> ddl_kind \<Rightarrow> pystr \<Rightarrow> catalog res" where
  "apply_ddl lib cat kind raw =
     (case kind of
        CreateTable \<Rightarrow> apply_create_table lib cat raw
      | AlterAddColumn \<Rightarrow> apply_alter_add_column cat raw
      | AlterDropColumn \<Rightarrow> apply_alter_drop_column cat raw
      | AlterRenameTable \<Rightarrow> apply_alter_rename cat raw
      | DropTable \<Rightarrow> apply_drop_table cat raw
      | CreateIndex \<Rightarrow> apply_create_index lib cat raw
      | Pragma \<Rightarrow> Inr cat)"

end
