(* ===== verification/MetaTable.thy ===== *)
theory MetaTable
  imports SqlDdl SqlDml
begin

text \<open>
  The bootstrap table of \<open>connection.py\<close>: a B+tree pinned at page 3 whose rows hold the DDL texts
  (\<open>"ddl", seq, text\<close>), the root page of every table (\<open>"root", name, page\<close>) and the label
  high-water marks (\<open>"hwm", name, mark\<close>); registering a table in it, and its replay into a catalog and a
  root map when a file is opened again. The names in DDL texts are found by regular expressions, spelled
  out as left-to-right matches: no two ways of matching them differ in what they find.
\<close>

section \<open>A pager with its transactions\<close>

record 's pager_obj =
  po_driver :: "'s driver"
  po_rollback :: "('s, unit) pm"

abbreviation po_ops :: "'s pager_obj \<Rightarrow> 's pager_ops" where "po_ops po \<equiv> dr_ops (po_driver po)"

definition suppress :: "'s pager_obj \<Rightarrow> 's pager_obj" where
  \<comment> \<open>\<open>_suppress_pager_txn\<close>: the transaction methods are replaced by \<open>_noop\<close>\<close>
  "suppress po = \<lparr>po_driver = quiet (po_ops po), po_rollback = retS ()\<rparr>"

section \<open>Rows of the meta table\<close>

definition META_TABLE_PAGE :: nat where "META_TABLE_PAGE = 3"

definition page_is_initialised_btree :: "bytes \<Rightarrow> bool" where
  "page_is_initialised_btree page \<longleftrightarrow> page \<noteq> [] \<and> unat (hd page) \<in> {PAGE_LEAF_TABLE, PAGE_INTERIOR_TABLE}"

definition next_meta_key :: "(int \<times> bytes) list \<Rightarrow> int" where
  "next_meta_key rows = (case rows of [] \<Rightarrow> 1 | _ \<Rightarrow> fst (last rows) + 1)"

definition meta_next_key :: "'s pager_ops \<Rightarrow> nat \<Rightarrow> ('s, int) pm" where
  "meta_next_key ops fuel = bindS (scan_cells_of ops fuel META_TABLE_PAGE) (\<lambda>rows. retS (next_meta_key rows))"

definition empty_leaf :: "bytes res" where
  "empty_leaf = write_leaf_header (replicate PAGE_SIZE 0) 0 (int PAGE_SIZE) 0 0"

definition init_meta_page :: "'s pager_obj \<Rightarrow> ('s, unit) pm" where
  "init_meta_page po =
     bindS (dr_begin (po_driver po)) (\<lambda>_.
     bindS (op_extend_file (po_ops po)) (\<lambda>new_page_no.
     if new_page_no \<noteq> META_TABLE_PAGE then bindS (po_rollback po) (\<lambda>_. raiseS RuntimeErr)
     else
       bindS (liftR empty_leaf) (\<lambda>page.
       bindS (op_write_page (po_ops po) META_TABLE_PAGE page) (\<lambda>_. dr_commit (po_driver po)))))"

definition meta_insert :: "'s pager_ops \<Rightarrow> nat \<Rightarrow> int \<Rightarrow> bytes \<Rightarrow> ('s, unit) pm" where
  "meta_insert ops fuel key payload = btree_insert ops LEAF_MAX_CELLS_default fuel META_TABLE_PAGE key payload"

definition append_meta_row :: "'s driver \<Rightarrow> nat \<Rightarrow> pyval list \<Rightarrow> ('s, unit) pm" where
  \<comment> \<open>a row behind the last one, in a transaction of its own\<close>
  "append_meta_row dr fuel row =
     bindS (meta_next_key (dr_ops dr) fuel) (\<lambda>key.
     bindS (liftR (encode_record row)) (\<lambda>payload.
     bindS (dr_begin dr) (\<lambda>_.
     bindS (meta_insert (dr_ops dr) fuel key payload) (\<lambda>_. dr_commit dr))))"

definition ddl_row :: "int \<Rightarrow> pystr \<Rightarrow> pyval list" where "ddl_row seq ddl_text = [PStr (pystr_of ''ddl''), PInt seq, PStr ddl_text]"
definition root_row :: "pystr \<Rightarrow> int \<Rightarrow> pyval list" where "root_row table root = [PStr (pystr_of ''root''), PStr table, PInt root]"
definition hwm_row :: "pystr \<Rightarrow> int \<Rightarrow> pyval list" where "hwm_row table hwm = [PStr (pystr_of ''hwm''), PStr table, PInt hwm]"

definition write_meta_ddl_row :: "'s driver \<Rightarrow> nat \<Rightarrow> int \<Rightarrow> pystr \<Rightarrow> ('s, unit) pm" where
  "write_meta_ddl_row dr fuel seq ddl_text = append_meta_row dr fuel (ddl_row seq ddl_text)"

definition write_meta_root_row :: "'s driver \<Rightarrow> nat \<Rightarrow> pystr \<Rightarrow> int \<Rightarrow> ('s, unit) pm" where
  "write_meta_root_row dr fuel table root_page_no = append_meta_row dr fuel (root_row table root_page_no)"

definition decoded_cells :: "(int \<times> bytes) list \<Rightarrow> (int \<times> pyval list) list res" where
  "decoded_cells pairs = mapR (\<lambda>(key, payload). bindR (decode_record payload 0) (\<lambda>(values, n). Inr (key, values))) pairs"

definition read_meta_rows :: "'s pager_ops \<Rightarrow> nat \<Rightarrow> ('s, pyval list list) pm" where
  "read_meta_rows ops fuel =
     bindS (scan_cells_of ops fuel META_TABLE_PAGE) (\<lambda>pairs.
     bindS (liftR (decoded_cells pairs)) (\<lambda>rows. retS (map snd rows)))"

definition is_row :: "string \<Rightarrow> pyval list \<Rightarrow> bool" where
  "is_row kind row \<longleftrightarrow> 3 \<le> length row \<and> row ! 0 = PStr (pystr_of kind)"

definition row_for :: "string \<Rightarrow> pystr \<Rightarrow> pyval list \<Rightarrow> bool" where
  "row_for kind table row \<longleftrightarrow> is_row kind row \<and> row ! 1 = PStr table"

fun last_hwm :: "pystr \<Rightarrow> pyval list list \<Rightarrow> int \<Rightarrow> int res" where
  "last_hwm table [] hwm = Inr hwm"
| "last_hwm table (row # rows) hwm =
     (if row_for ''hwm'' table row then bindR (py_int (row ! 2)) (last_hwm table rows) else last_hwm table rows hwm)"

definition read_hwm_from_meta :: "'s pager_ops \<Rightarrow> nat \<Rightarrow> pystr \<Rightarrow> ('s, int) pm" where
  "read_hwm_from_meta ops fuel table = bindS (read_meta_rows ops fuel) (\<lambda>rows. liftR (last_hwm table rows 0))"

fun first_hwm_key :: "pystr \<Rightarrow> (int \<times> bytes) list \<Rightarrow> int option res" where
  \<comment> \<open>the rows behind the hit are never decoded\<close>
  "first_hwm_key table [] = Inr None"
| "first_hwm_key table ((key, payload) # pairs) =
     bindR (decode_record payload 0) (\<lambda>(values, n).
     if row_for ''hwm'' table values then Inr (Some key) else first_hwm_key table pairs)"

definition find_hwm_meta_key :: "'s pager_ops \<Rightarrow> nat \<Rightarrow> pystr \<Rightarrow> ('s, int option) pm" where
  "find_hwm_meta_key ops fuel table =
     bindS (scan_cells_of ops fuel META_TABLE_PAGE) (\<lambda>pairs. liftR (first_hwm_key table pairs))"

definition meta_last_key :: "'s pager_ops \<Rightarrow> nat \<Rightarrow> ('s, int) pm" where
  \<comment> \<open>\<open>_meta_next_key_after\<close>\<close>
  "meta_last_key ops fuel =
     bindS (scan_cells_of ops fuel META_TABLE_PAGE) (\<lambda>rows. retS (case rows of [] \<Rightarrow> 1 | _ \<Rightarrow> fst (last rows)))"

definition update_hwm_in_meta :: "'s driver \<Rightarrow> nat \<Rightarrow> pystr \<Rightarrow> int option \<Rightarrow> int \<Rightarrow> ('s, int) pm" where
  "update_hwm_in_meta dr fuel table old_meta_key new_hwm =
     bindS (liftR (encode_record (hwm_row table new_hwm))) (\<lambda>payload.
     bindS (dr_begin dr) (\<lambda>_.
     bindS (case old_meta_key of
         None \<Rightarrow> bindS (meta_next_key (dr_ops dr) fuel) (\<lambda>key. meta_insert (dr_ops dr) fuel key payload)
       | Some key \<Rightarrow> meta_insert (dr_ops dr) fuel key payload) (\<lambda>_.
     bindS (dr_commit dr) (\<lambda>_.
     case old_meta_key of Some key \<Rightarrow> retS key | None \<Rightarrow> meta_last_key (dr_ops dr) fuel))))"

definition find_root_meta_keys :: "'s pager_ops \<Rightarrow> nat \<Rightarrow> pystr \<Rightarrow> ('s, int list) pm" where
  "find_root_meta_keys ops fuel table =
     bindS (scan_cells_of ops fuel META_TABLE_PAGE) (\<lambda>pairs.
     bindS (liftR (decoded_cells pairs)) (\<lambda>rows. retS (map fst (filter (\<lambda>(key, values). row_for ''root'' table values) rows))))"

section \<open>Names in DDL texts\<close>

definition word_char :: "pylib \<Rightarrow> nat \<Rightarrow> bool" where
  "word_char lib c \<longleftrightarrow> (if c < 128 then is_word c else lib_word lib c)"

definition skip_text :: "pylib \<Rightarrow> string \<Rightarrow> pystr \<Rightarrow> pystr option" where
  \<comment> \<open>a fixed text under \<open>re.IGNORECASE\<close>\<close>
  "skip_text lib w s =
     (if length w \<le> length s \<and> list_all2 (same_letter lib) (pystr_of w) (take (length w) s) then Some (drop (length w) s) else None)"

definition skip_spaces :: "pystr \<Rightarrow> pystr option" where
  \<comment> \<open>\<open>\s+\<close>\<close>
  "skip_spaces s = (case s of [] \<Rightarrow> None | c # r \<Rightarrow> if is_space c then Some (dropWhile is_space r) else None)"

definition skip_word :: "pylib \<Rightarrow> string \<Rightarrow> pystr \<Rightarrow> pystr option" where
  \<comment> \<open>a word and the white space behind it\<close>
  "skip_word lib w s = Option.bind (skip_text lib w s) skip_spaces"

fun skip_words :: "pylib \<Rightarrow> string list \<Rightarrow> pystr \<Rightarrow> pystr option" where
  "skip_words lib [] s = Some s"
| "skip_words lib (w # ws) s = Option.bind (skip_word lib w s) (skip_words lib ws)"

definition name_run :: "pylib \<Rightarrow> pystr \<Rightarrow> (pystr \<times> pystr) option" where
  \<comment> \<open>\<open>(\w+)\<close>\<close>
  "name_run lib s = (if takeWhile (word_char lib) s = [] then None else Some (takeWhile (word_char lib) s, dropWhile (word_char lib) s))"

definition strip_char :: "nat \<Rightarrow> pystr \<Rightarrow> pystr" where
  \<comment> \<open>an optional character\<close>
  "strip_char c s = (case s of [] \<Rightarrow> [] | d # r \<Rightarrow> if d = c then r else s)"

definition bracket_name :: "pylib \<Rightarrow> pystr \<Rightarrow> (pystr \<times> pystr) option" where
  \<comment> \<open>a name, possibly in brackets\<close>
  "bracket_name lib s = map_option (\<lambda>(n, r). (n, strip_char 93 r)) (name_run lib (strip_char 91 s))"

definition optional_words :: "pylib \<Rightarrow> string list \<Rightarrow> (pystr \<Rightarrow> 'a option) \<Rightarrow> pystr \<Rightarrow> 'a option" where
  \<comment> \<open>a group that may be left out: first with it, then without\<close>
  "optional_words lib ws m s =
     (case Option.bind (skip_words lib ws s) m of Some x \<Rightarrow> Some x | None \<Rightarrow> m s)"

fun search :: "(pystr \<Rightarrow> 'a option) \<Rightarrow> pystr \<Rightarrow> 'a option" where
  \<comment> \<open>\<open>re.search\<close>\<close>
  "search m [] = m []"
| "search m (c # s) = (case m (c # s) of Some x \<Rightarrow> Some x | None \<Rightarrow> search m s)"

definition found :: "'a option \<Rightarrow> 'a res" where
  "found x = (case x of None \<Rightarrow> Inl ValueError | Some a \<Rightarrow> Inr a)"

definition extract_table_name :: "pylib \<Rightarrow> pystr \<Rightarrow> pystr res" where
  "extract_table_name lib ddl =
     found (map_option fst (search (\<lambda>s. Option.bind (skip_words lib [''CREATE'', ''TABLE''] s)
       (optional_words lib [''IF'', ''NOT'', ''EXISTS''] (bracket_name lib))) ddl))"

definition extract_rename_names :: "pylib \<Rightarrow> pystr \<Rightarrow> (pystr \<times> pystr) res" where
  "extract_rename_names lib ddl =
     found (search (\<lambda>s. Option.bind (skip_words lib [''ALTER'', ''TABLE''] s) (\<lambda>s1.
       Option.bind (bracket_name lib s1) (\<lambda>(old, s2).
       Option.bind (skip_spaces s2) (\<lambda>s3.
       Option.bind (skip_words lib [''RENAME'', ''TO''] s3) (\<lambda>s4.
       map_option (\<lambda>(new, r). (old, new)) (bracket_name lib s4)))))) ddl)"

definition extract_drop_name :: "pylib \<Rightarrow> pystr \<Rightarrow> pystr res" where
  "extract_drop_name lib ddl =
     found (map_option fst (search (\<lambda>s. Option.bind (skip_words lib [''DROP'', ''TABLE''] s)
       (optional_words lib [''IF'', ''EXISTS''] (bracket_name lib))) ddl))"

section \<open>Running a statement\<close>

type_synonym root_map = "(pystr \<times> int) list"

definition root_of :: "root_map \<Rightarrow> pystr \<Rightarrow> nat option" where
  "root_of root_map table = map_option nat (map_of root_map table)"

definition run_sql ::
  "pylib \<Rightarrow> 's driver \<Rightarrow> nat \<Rightarrow> pystr \<Rightarrow> pyval option list \<Rightarrow> named_params \<Rightarrow> root_map \<Rightarrow> id_index \<Rightarrow> ('s \<times> catalog, result_set) pm" where
  \<comment> \<open>\<open>executor.run\<close>: parse, then apply DDL to the catalog, or plan and execute\<close>
  "run_sql lib dr fuel sql params named root_map id_index = (\<lambda>(s, cat).
     case parse_sql lib sql of
       Inl e \<Rightarrow> (Inl e, (s, cat))
     | Inr (DDLS kind raw) \<Rightarrow>
         (case apply_ddl lib cat kind raw of Inl e \<Rightarrow> (Inl e, (s, cat)) | Inr cat' \<Rightarrow> (Inr ([], []), (s, cat')))
     | Inr stmt \<Rightarrow>
         (case plan_stmt stmt cat params named of
            Inl e \<Rightarrow> (Inl e, (s, cat))
          | Inr plan \<Rightarrow> (case execute lib dr fuel plan (root_of root_map) cat id_index s of (r, s') \<Rightarrow> (r, (s', cat)))))"

section \<open>Registering a table\<close>

record schema =
  sch_catalog :: catalog
  sch_root_map :: root_map

definition run_ddl :: "pylib \<Rightarrow> 's driver \<Rightarrow> nat \<Rightarrow> pystr \<Rightarrow> ('s \<times> schema, unit) pm" where
  \<comment> \<open>\<open>run(ddl, [], pager, catalog, root_map)\<close>\<close>
  "run_ddl lib dr fuel ddl = (\<lambda>(s, sch).
     case run_sql lib dr fuel ddl [] None (sch_root_map sch) None (s, sch_catalog sch) of
       (r, (s', cat')) \<Rightarrow> (case r of Inl e \<Rightarrow> Inl e | Inr _ \<Rightarrow> Inr (), (s', sch\<lparr>sch_catalog := cat'\<rparr>)))"

definition on_state :: "('s, 'a) pm \<Rightarrow> ('s \<times> 'c, 'a) pm" where
  "on_state m = (\<lambda>(s, c). case m s of (r, s') \<Rightarrow> (r, (s', c)))"

definition alloc_root :: "'s driver \<Rightarrow> ('s, nat) pm" where
  \<comment> \<open>a fresh page with an empty leaf\<close>
  "alloc_root dr =
     bindS (dr_begin dr) (\<lambda>_.
     bindS (op_extend_file (dr_ops dr)) (\<lambda>root_page_no.
     bindS (liftR empty_leaf) (\<lambda>root_page.
     bindS (op_write_page (dr_ops dr) root_page_no root_page) (\<lambda>_.
     bindS (dr_commit dr) (\<lambda>_. retS root_page_no)))))"

definition ddl_count :: "pyval list list \<Rightarrow> int" where
  \<comment> \<open>the next sequence number\<close>
  "ddl_count rows = int (length (filter (\<lambda>r. r \<noteq> [] \<and> r ! 0 = PStr (pystr_of ''ddl'')) rows))"

definition register_table :: "pylib \<Rightarrow> 's driver \<Rightarrow> nat \<Rightarrow> pystr \<Rightarrow> ('s \<times> schema, nat) pm" where
  "register_table lib dr fuel ddl =
     bindS (liftR (extract_table_name lib ddl)) (\<lambda>table_name.
     bindS (getS snd) (\<lambda>sch.
     case map_of (sch_root_map sch) table_name of
       Some root \<Rightarrow>
         bindS (if map_of (cat_tables (sch_catalog sch)) table_name = None then run_ddl lib dr fuel ddl else retS ()) (\<lambda>_. retS (nat root))
     | None \<Rightarrow>
         bindS (on_state (read_meta_rows (dr_ops dr) fuel)) (\<lambda>existing.
         bindS (on_state (alloc_root dr)) (\<lambda>root_page_no.
         bindS (on_state (write_meta_ddl_row dr fuel (ddl_count existing) ddl)) (\<lambda>_.
         bindS (on_state (write_meta_root_row dr fuel table_name (int root_page_no))) (\<lambda>_.
         bindS (run_ddl lib dr fuel ddl) (\<lambda>_.
         bindS (modifyS (\<lambda>(s, sch). (s, sch\<lparr>sch_root_map := dict_put table_name (int root_page_no) (sch_root_map sch)\<rparr>))) (\<lambda>_.
         retS root_page_no))))))))"

section \<open>Replay\<close>

definition str_of :: "pylib \<Rightarrow> pyval \<Rightarrow> pystr" where
  \<comment> \<open>\<open>str(v)\<close> of a decoded value: NULL is Python's \<open>None\<close>\<close>
  "str_of lib v = (if v = PNull then pystr_of ''None'' else py_str lib v)"

fun meta_entries :: "pylib \<Rightarrow> pyval list list \<Rightarrow> ((int \<times> pystr) list \<times> (pystr \<times> int) list) res" where
  \<comment> \<open>the DDL rows and the root rows\<close>
  "meta_entries lib [] = Inr ([], [])"
| "meta_entries lib (row # rows) =
     (if is_row ''ddl'' row then
        bindR (py_int (row ! 1)) (\<lambda>seq. bindR (meta_entries lib rows) (\<lambda>(ddls, roots). Inr ((seq, str_of lib (row ! 2)) # ddls, roots)))
      else if is_row ''root'' row then
        bindR (py_int (row ! 2)) (\<lambda>root. bindR (meta_entries lib rows) (\<lambda>(ddls, roots). Inr (ddls, (str_of lib (row ! 1), root) # roots)))
      else meta_entries lib rows)"

fun replay_ddl :: "pylib \<Rightarrow> pystr list \<Rightarrow> catalog \<Rightarrow> catalog res" where
  "replay_ddl lib [] cat = Inr cat"
| "replay_ddl lib (ddl_text # texts) cat =
     bindR (parse_sql lib ddl_text) (\<lambda>stmt.
     bindR (case stmt of DDLS kind raw \<Rightarrow> apply_ddl lib cat kind raw | _ \<Rightarrow> Inr cat) (replay_ddl lib texts))"

definition replay_rows :: "pylib \<Rightarrow> pyval list list \<Rightarrow> schema res" where
  \<comment> \<open>into an empty schema; root rows of names that are not in the catalog are dropped\<close>
  "replay_rows lib rows =
     bindR (meta_entries lib rows) (\<lambda>(ddls, roots).
     bindR (replay_ddl lib (map snd (sort_key fst ddls)) \<lparr>cat_tables = [], cat_indexes = []\<rparr>) (\<lambda>cat.
     Inr \<lparr>sch_catalog = cat,
          sch_root_map = filter (\<lambda>(name, root). map_of (cat_tables cat) name \<noteq> None) (dict_of roots)\<rparr>))"

definition replay_meta :: "pylib \<Rightarrow> 's pager_ops \<Rightarrow> nat \<Rightarrow> ('s, schema) pm" where
  "replay_meta lib ops fuel = bindS (read_meta_rows ops fuel) (\<lambda>rows. liftR (replay_rows lib rows))"

definition empty_schema :: schema where
  "empty_schema = \<lparr>sch_catalog = \<lparr>cat_tables = [], cat_indexes = []\<rparr>, sch_root_map = []\<rparr>"

definition open_lilli_db :: "pylib \<Rightarrow> 's pager_obj \<Rightarrow> nat \<Rightarrow> ('s, schema) pm" where
  \<comment> \<open>on a pager that has opened the file\<close>
  "open_lilli_db lib po fuel =
     bindS (op_read_hdr (po_ops po) HDbSize) (\<lambda>db_size.
     if db_size < META_TABLE_PAGE then bindS (init_meta_page po) (\<lambda>_. retS empty_schema)
     else
       bindS (op_read_page (po_ops po) META_TABLE_PAGE) (\<lambda>page3.
       if \<not> page_is_initialised_btree page3 then bindS (init_meta_page po) (\<lambda>_. retS empty_schema)
       else replay_meta lib (po_ops po) fuel))"

end
