(* ===== verification/SqlPrinter.thy ===== *)
theory SqlPrinter
  imports SqlStatement
begin

text \<open>
  A printer for expressions, with the brackets precedence asks for and no others, and the proof that the
  expression parser reads its output back. A level is a rank of the grammar: 0 for OR, 1 for AND, 2 for
  NOT, 3 for a comparison, 4 for an operand.
\<close>

section \<open>Fixed tokens\<close>

definition word :: "string \<Rightarrow> token" where "word w = word_token (pystr_of w)"
definition pu :: "string \<Rightarrow> token" where "pu w = Token PUNCT (pystr_of w)"

definition capital :: "string \<Rightarrow> bool" where
  "capital w \<longleftrightarrow> list_all (\<lambda>c. 65 \<le> (of_char c :: nat) \<and> (of_char c :: nat) \<le> 90) w \<and> w \<noteq> []"

lemma pystr_of_eq [simp]: "pystr_of v = pystr_of w \<longleftrightarrow> v = w"
  by (metis inj_map_eq_map inj_of_char pystr_of_def)

lemma pystr_of_image [simp]: "pystr_of w \<in> pystr_of ` S \<longleftrightarrow> w \<in> S"
  by auto

lemma upper_capital: "capital w \<Longrightarrow> upper (pystr_of w) = pystr_of w"
proof -
  have "list_all (\<lambda>c. 65 \<le> (of_char c :: nat) \<and> (of_char c :: nat) \<le> 90) w \<Longrightarrow> upper (pystr_of w) = pystr_of w"
    by (induction w) (auto simp: upper_def pystr_of_def upper_char_def)
  then show "capital w \<Longrightarrow> upper (pystr_of w) = pystr_of w" by (simp add: capital_def)
qed

lemma word_simps [simp]:
  "tok_value (word w) = pystr_of w" "tok_type (word w) \<in> {IDENT, KEYWORD}" "tok_type (word w) = KEYWORD \<or> tok_type (word w) = IDENT"
  "tok_type (word w) \<noteq> PUNCT" "tok_type (word w) \<noteq> OP" "tok_type (word w) \<noteq> EOF" "tok_type (word w) \<noteq> INTEGER" "tok_type (word w) \<noteq> PLACEHOLDER"
  "tok_type (word w) \<noteq> REAL" "tok_type (word w) \<noteq> STRING" "tok_type (word w) \<noteq> BLOB" "tok_type (word w) \<noteq> NAMED_PARAM"
  "\<not> is_punct v (word w)"
  by (auto simp: word_def word_token_def is_punct_def)

lemma word_keyword: "capital w \<Longrightarrow> is_keyword vs (word w) \<longleftrightarrow> w \<in> set vs"
  using word_simps(2) [of w] by (auto simp: is_keyword_def upper_capital simp del: word_simps(2))

lemma pu_simps [simp]:
  "tok_type (pu w) = PUNCT" "tok_value (pu w) = pystr_of w" "is_punct v (pu w) \<longleftrightarrow> v = w" "\<not> is_keyword vs (pu w)"
  by (auto simp: pu_def is_punct_def is_keyword_def)

lemma upper_punct: "upper (pystr_of ''('') = pystr_of ''(''" "upper (pystr_of '')'') = pystr_of '')''"
  "upper (pystr_of ''*'') = pystr_of ''*''" "upper (pystr_of ''.'') = pystr_of ''.''" "upper (pystr_of ''='') = pystr_of ''=''"
  by (simp_all add: upper_def upper_char_def pystr_of_def)

lemma capitals [simp]:
  "capital ''SELECT''" "capital ''FROM''" "capital ''WHERE''" "capital ''AND''" "capital ''OR''" "capital ''NOT''" "capital ''IS''"
  "capital ''NULL''" "capital ''IN''" "capital ''LIKE''" "capital ''LIMIT''" "capital ''OFFSET''" "capital ''GROUP''" "capital ''BY''"
  "capital ''HAVING''" "capital ''COUNT''" "capital ''SUM''" "capital ''MIN''" "capital ''MAX''" "capital ''ORDER''" "capital ''ASC''"
  "capital ''DESC''" "capital ''AS''" "capital ''COALESCE''" "capital ''DATETIME''" "capital ''INSERT''" "capital ''INTO''" "capital ''VALUES''"
  "capital ''IGNORE''" "capital ''REPLACE''" "capital ''ON''" "capital ''CONFLICT''" "capital ''DO''" "capital ''NOTHING''"
  "capital ''UPDATE''" "capital ''SET''" "capital ''EXCLUDED''" "capital ''DELETE''"
  by (simp_all add: capital_def)

section \<open>Steps of the parser on known tokens\<close>

named_theorems steps

lemma ifS_run [steps]: "ifS c m m' ts = (if c ts then m ts else m' ts)"
  by (simp add: ifS_def)

lemma bind_peek [steps]: "bindS peek f (t # ts) = f t (t # ts)"
  by (simp add: bindS_def peek_def)

lemma bind_advance [steps]: "bindS advance f (t # ts) = f t ts"
  by (simp add: bindS_def advance_def)

lemma bind_expect_word [steps]: "capital w \<Longrightarrow> bindS (expect w) f (word w # ts) = f (word w) ts"
  by (simp add: bindS_def expect_def peek_def advance_def upper_capital)

lemma bind_expect_punct [steps]: "upper (pystr_of w) = pystr_of w \<Longrightarrow> bindS (expect w) f (pu w # ts) = f (pu w) ts"
  by (simp add: bindS_def expect_def peek_def advance_def)

lemma bind_expect_name [steps]: "tok_type t \<in> {IDENT, KEYWORD} \<Longrightarrow> bindS expect_name f (t # ts) = f (tok_value t) ts"
  by (auto simp: bindS_def expect_name_def peek_def advance_def)

lemma at_steps [steps]:
  "at_keyword vs (t # ts) = is_keyword vs t" "at_punct v (t # ts) = is_punct v t" "is_type k (t # ts) \<longleftrightarrow> tok_type t = k"
  "next_is_open_paren (t # u # ts) = is_punct ''('' u" "\<not> next_is_open_paren [t]"
  "next_value_is v (t # u # ts) \<longleftrightarrow> upper (tok_value u) = pystr_of v"
  by (simp_all add: at_keyword_def at_punct_def is_type_def next_is_open_paren_def next_value_is_def)

lemma bind_optionally [steps]:
  "bindS (optionally w) f (t # ts) = (if is_keyword [w] t then f True ts else f False (t # ts))"
  by (simp add: bindS_def optionally_def ifS_def at_steps advance_def)

section \<open>Printing\<close>

fun commas :: "token list list \<Rightarrow> token list" where
  "commas [] = []"
| "commas (x # xs) = x @ concat (map (\<lambda>y. pu '','' # y) xs)"

definition hex_digit :: "nat \<Rightarrow> nat" where "hex_digit n = (if n < 10 then 48 + n else 87 + n)"

definition show_hex :: "bytes \<Rightarrow> pystr" where
  "show_hex bs = concat (map (\<lambda>b. [hex_digit (unat b div 16), hex_digit (unat b mod 16)]) bs)"

definition show_literal :: "pyval \<Rightarrow> token" where
  "show_literal v =
     (case v of
        PInt i \<Rightarrow> Token INTEGER (nat_digits (nat i))
      | PStr s \<Rightarrow> if s = pystr_of ''?'' then Token PLACEHOLDER s else Token STRING ([39] @ s @ [39])
      | PBytes bs \<Rightarrow> Token BLOB ([120, 39] @ show_hex bs @ [39])
      | _ \<Rightarrow> word ''NULL'')"

definition op_tokens :: "pystr \<Rightarrow> token list" where
  "op_tokens op =
     (if op \<in> pystr_of ` {''OR'', ''AND'', ''LIKE''} then [word_token op]
      else if op = pystr_of ''NOT LIKE'' then [word ''NOT'', word ''LIKE''] else [Token OP op])"

definition op_rank :: "pystr \<Rightarrow> nat \<times> nat \<times> nat" where
  \<comment> \<open>the level of the operator and of its operands; equal operators group to the left\<close>
  "op_rank op = (if op = pystr_of ''OR'' then (0, 0, 1) else if op = pystr_of ''AND'' then (1, 1, 2) else (3, 4, 4))"

fun rank :: "expr \<Rightarrow> nat" where
  "rank (BinOp op l r) = fst (op_rank op)"
| "rank (UnaryOp op e) = 2"
| "rank (IsNull e n) = 3"
| "rank (InList e es) = 3"
| "rank _ = 4"

definition bracket :: "bool \<Rightarrow> token list \<Rightarrow> token list" where
  "bracket b ts = (if b then [pu ''(''] @ ts @ [pu '')''] else ts)"

fun show_expr :: "nat \<Rightarrow> expr \<Rightarrow> token list" where
  "show_expr lvl (Literal v) = [show_literal v]"
| "show_expr lvl (NamedParam n) = [Token NAMED_PARAM ([58] @ n)]"
| "show_expr lvl (ColumnRef n) = [Token IDENT n]"
| "show_expr lvl (ExcludedRef n) = [word ''EXCLUDED'', pu ''.'', Token IDENT n]"
| "show_expr lvl (BinOp op l r) =
     (case op_rank op of (own, lo, ro) \<Rightarrow> bracket (own < lvl) (show_expr lo l @ op_tokens op @ show_expr ro r))"
| "show_expr lvl (UnaryOp op e) = bracket (2 < lvl) ([word ''NOT''] @ show_expr 3 e)"
| "show_expr lvl (IsNull e negated) =
     bracket (3 < lvl) (show_expr 4 e @ [word ''IS''] @ (if negated then [word ''NOT''] else []) @ [word ''NULL''])"
| "show_expr lvl (InList e es) =
     bracket (3 < lvl) (show_expr 4 e @ [word ''IN'', pu ''(''] @ commas (map (show_expr 4) es) @ [pu '')''])"
| "show_expr lvl (Coalesce es) = [word ''COALESCE'', pu ''(''] @ commas (map (show_expr 4) es) @ [pu '')'']"
| "show_expr lvl (FuncCall f es) = [word ''DATETIME'', pu ''(''] @ commas (map (show_expr 4) es) @ [pu '')'']"

fun nest :: "nat \<Rightarrow> expr \<Rightarrow> nat" where
  \<comment> \<open>how deep the brackets and \<open>datetime\<close> calls of the text go\<close>
  "nest lvl (BinOp op l r) =
     (case op_rank op of (own, lo, ro) \<Rightarrow> (if own < lvl then 1 else 0) + max (nest lo l) (nest ro r))"
| "nest lvl (UnaryOp op e) = (if 2 < lvl then 1 else 0) + nest 3 e"
| "nest lvl (IsNull e n) = (if 3 < lvl then 1 else 0) + nest 4 e"
| "nest lvl (InList e es) = (if 3 < lvl then 1 else 0) + fold max (map (nest 4) es) (nest 4 e)"
| "nest lvl (Coalesce es) = fold max (map (nest 4) es) 0"
| "nest lvl (FuncCall f es) = 1 + fold max (map (nest 4) es) 0"
| "nest lvl e = 0"

section \<open>What has a text\<close>

definition reserved :: "string list" where
  "reserved = [''NOT'', ''SELECT'', ''DISTINCT'', ''SUM'', ''MIN'', ''MAX'']"

definition name_ok :: "pystr \<Rightarrow> bool" where
  "name_ok n \<longleftrightarrow> n \<noteq> [] \<and> 93 \<notin> set n \<and> upper n \<notin> set (map pystr_of reserved)"

definition comparisons :: "string list" where
  "comparisons = [''!='', ''<>'', ''<='', ''>='', ''='', ''<'', ''>'']"

fun literal_ok :: "pyval \<Rightarrow> bool" where
  \<comment> \<open>the grammar has no sign, so no negative number; a quote needs a backslash before it\<close>
  "literal_ok PNull \<longleftrightarrow> True"
| "literal_ok (PInt i) \<longleftrightarrow> 0 \<le> i \<and> length (nat_digits (nat i)) \<le> 4300"
| "literal_ok (PStr s) \<longleftrightarrow> string_body (s @ [39]) = Some (s @ [39], [])"
| "literal_ok (PBytes bs) \<longleftrightarrow> True"
| "literal_ok _ \<longleftrightarrow> False"

fun expr_ok :: "expr \<Rightarrow> bool" where
  "expr_ok (Literal v) \<longleftrightarrow> literal_ok v"
| "expr_ok (NamedParam n) \<longleftrightarrow> word_shaped n"
| "expr_ok (ColumnRef n) \<longleftrightarrow> name_ok n"
| "expr_ok (ExcludedRef n) \<longleftrightarrow> False"
| "expr_ok (BinOp op l r) \<longleftrightarrow>
     op \<in> set (map pystr_of ([''OR'', ''AND'', ''LIKE'', ''NOT LIKE''] @ comparisons)) \<and> expr_ok l \<and> expr_ok r"
| "expr_ok (UnaryOp op e) \<longleftrightarrow> op = pystr_of ''NOT'' \<and> expr_ok e"
| "expr_ok (IsNull e n) \<longleftrightarrow> expr_ok e"
| "expr_ok (InList e es) \<longleftrightarrow> expr_ok e \<and> es \<noteq> [] \<and> length es \<le> MAX_IN_LIST_SIZE \<and> list_all expr_ok es"
| "expr_ok (Coalesce es) \<longleftrightarrow> length es = 2 \<and> list_all expr_ok es"
| "expr_ok (FuncCall f es) \<longleftrightarrow> f = pystr_of ''datetime'' \<and> length es = 1 \<and> list_all expr_ok es"


section \<open>Literals\<close>

lemma hex_digit_facts: "n < 16 \<Longrightarrow> is_hex (hex_digit n) \<and> hex_value (hex_digit n) = n \<and> 32 < hex_digit n"
  by (auto simp: hex_digit_def hex_value_def is_hex_def is_digit_def)

lemma fromhex_show: "fromhex (show_hex bs) = Inr bs"
proof (induction bs)
  case (Cons b bs)
  have "unat b < 256" using unsigned_less [of b, where ?'a = nat] by simp
  then have "unat b div 16 < 16" "unat b mod 16 < 16" by (simp_all add: div_less_iff_less_mult)
  then show ?case using Cons hex_digit_facts [of "unat b div 16"] hex_digit_facts [of "unat b mod 16"]
    by (simp add: show_hex_def)
qed (simp add: show_hex_def)

lemma show_hex_hex: "list_all is_hex (show_hex bs)"
proof -
  have "is_hex (hex_digit (unat b div 16))" for b :: byte
    using hex_digit_facts [of "unat b div 16"] unsigned_less [of b, where ?'a = nat] by (simp add: div_less_iff_less_mult)
  then show ?thesis using hex_digit_facts by (auto simp: show_hex_def list_all_iff)
qed

lemma nat_digits_digits: "list_all is_digit (nat_digits n) \<and> nat_digits n \<noteq> []"
proof (induction n rule: nat_digits.induct)
  case (1 n)
  have "is_digit (48 + n mod 10)" "n < 10 \<Longrightarrow> is_digit (48 + n)" by (simp_all add: is_digit_def)
  with 1 show ?case by (subst (1 2) nat_digits.simps) auto
qed

lemma digits_value_append:
  "list_all is_digit s \<Longrightarrow> list_all is_digit t \<Longrightarrow> digits_value a (s @ t) = Option.bind (digits_value a s) (\<lambda>b. digits_value b t)"
  by (induction s arbitrary: a) auto

lemma nat_digits_value: "digits_value 0 (nat_digits n) = Some n"
proof (induction n rule: nat_digits.induct)
  case (1 n)
  have d: "is_digit (48 + n mod 10)" by (simp add: is_digit_def)
  show ?case
  proof (cases "n < 10")
    case True
    then show ?thesis by (subst nat_digits.simps) (simp add: is_digit_def)
  next
    case False
    then show ?thesis using 1 d nat_digits_digits [of "n div 10"]
      by (subst nat_digits.simps) (simp add: digits_value_append)
  qed
qed

lemma digits_not_space: "list_all is_digit s \<Longrightarrow> strip s = s"
proof -
  have "list_all is_digit s \<Longrightarrow> dropWhile is_space s = s" for s
    using not_digit by (cases s) auto
  from this [of s] this [of "rev s"] show "list_all is_digit s \<Longrightarrow> strip s = s"
    by (simp add: strip_def list_all_rev)
qed

lemma py_int_digits: "length (nat_digits n) \<le> 4300 \<Longrightarrow> py_int_of (nat_digits n) = Some (int n)"
proof -
  assume len: "length (nat_digits n) \<le> 4300"
  obtain c r where c: "nat_digits n = c # r" "is_digit c" "list_all is_digit (c # r)"
    using nat_digits_digits [of n] by (cases "nat_digits n") auto
  have "c \<noteq> 45 \<and> c \<noteq> 43" using c(2) by (auto simp: is_digit_def)
  moreover have "filter is_digit (c # r) = c # r" using c(3) by (simp add: filter_id_conv list_all_iff)
  moreover have "digits_value (c - 48) r = Some n" using nat_digits_value [of n] c by simp
  ultimately show ?thesis using len c digits_not_space [OF c(3)] by (simp add: py_int_of_def)
qed

lemma literal_of_shown:
  assumes "literal_ok v"
  shows "literal_of lib (show_literal v) = Some (Inr (Literal v))" and "\<not> is_punct p (show_literal v)"
    and "\<not> is_keyword vs (show_literal v) \<or> show_literal v = word ''NULL''"
proof -
  show "literal_of lib (show_literal v) = Some (Inr (Literal v))"
  proof (cases v)
    case (PInt i)
    then show ?thesis using assms py_int_digits [of "nat i"] by (simp add: show_literal_def literal_of_def int_of_def)
  next
    case (PBytes bs)
    then show ?thesis by (simp add: show_literal_def literal_of_def fromhex_show)
  next
    case PNull
    then show ?thesis
      by (simp add: show_literal_def literal_of_def word_def word_token_def upper_capital KEYWORDS_def)
  qed (use assms in \<open>auto simp: show_literal_def literal_of_def placeholder_def unquote_def\<close>)
  show "\<not> is_punct p (show_literal v)" "\<not> is_keyword vs (show_literal v) \<or> show_literal v = word ''NULL''"
    using assms by (cases v; auto simp: show_literal_def is_punct_def is_keyword_def)+
qed

section \<open>Where an expression stops\<close>

definition absorbs :: "nat \<Rightarrow> token \<Rightarrow> bool" where
  \<comment> \<open>the tokens with which an expression of a level would go on\<close>
  "absorbs lvl t \<longleftrightarrow>
     is_punct ''.'' t \<or> is_punct ''('' t \<or> is_keyword [''OVER''] t \<or>
     lvl \<le> 3 \<and> (is_keyword [''IS'', ''IN'', ''NOT'', ''LIKE''] t \<or> tok_type t = OP) \<or>
     lvl \<le> 1 \<and> is_keyword [''AND''] t \<or> lvl = 0 \<and> is_keyword [''OR''] t"

definition stops :: "nat \<Rightarrow> token list \<Rightarrow> bool" where
  "stops lvl ts \<longleftrightarrow> (\<exists>t r. ts = t # r \<and> \<not> absorbs lvl t)"

lemma stops_mono: "stops l ts \<Longrightarrow> l \<le> l' \<Longrightarrow> stops l' ts"
  by (auto simp: stops_def absorbs_def)

lemma stops_Cons [simp]: "stops l (t # r) \<longleftrightarrow> \<not> absorbs l t"
  by (simp add: stops_def)

lemma is_keyword_subset: "is_keyword vs t \<Longrightarrow> set vs \<subseteq> set ws \<Longrightarrow> is_keyword ws t"
  by (auto simp: is_keyword_def)

lemma absorbs_word: "capital w \<Longrightarrow> absorbs lvl (word w) \<longleftrightarrow>
    w = ''OVER'' \<or> lvl \<le> 3 \<and> w \<in> {''IS'', ''IN'', ''NOT'', ''LIKE''} \<or> lvl \<le> 1 \<and> w = ''AND'' \<or> lvl = 0 \<and> w = ''OR''"
  by (auto simp: absorbs_def word_keyword)

lemma absorbs_pu: "absorbs lvl (pu w) \<longleftrightarrow> w = ''.'' \<or> w = ''(''"
  by (auto simp: absorbs_def)

lemma kind_simps [simp]:
  "is_punct p (Token k v) \<longleftrightarrow> k = PUNCT \<and> v = pystr_of p" "k \<notin> {IDENT, KEYWORD} \<Longrightarrow> \<not> is_keyword vs (Token k v)"
  by (auto simp: is_punct_def is_keyword_def)

lemma absorbs_op: "absorbs lvl (Token OP op) \<longleftrightarrow> lvl \<le> 3"
  by (simp add: absorbs_def)

definition parse_level :: "nat \<Rightarrow> nat \<Rightarrow> expr parser \<Rightarrow> expr parser" where
  "parse_level lvl fuel p =
     (if lvl = 0 then parse_or fuel p else if lvl = 1 then parse_and fuel p else if lvl = 2 then parse_not fuel p
      else if lvl = 3 then parse_comparison fuel p else p)"

definition reads :: "pylib \<Rightarrow> nat \<Rightarrow> expr \<Rightarrow> bool" where
  \<comment> \<open>the text of the level, read at that level\<close>
  "reads lib lvl e \<longleftrightarrow>
     (\<forall>fuel depth rest. length (show_expr lvl e) < fuel \<longrightarrow> depth + nest lvl e \<le> MAX_NESTING_DEPTH \<longrightarrow> stops lvl rest \<longrightarrow>
        parse_level lvl fuel (parse_primary lib fuel depth) (show_expr lvl e @ rest) = (Inr e, rest))"

definition spine :: "pylib \<Rightarrow> nat \<Rightarrow> string \<Rightarrow> expr \<Rightarrow> bool" where
  \<comment> \<open>at OR and AND: reading the text leaves the loop about to look for another operand\<close>
  "spine lib lvl op e \<longleftrightarrow>
     (\<forall>fuel depth rest. length (show_expr lvl e) < fuel \<longrightarrow> depth + nest lvl e \<le> MAX_NESTING_DEPTH \<longrightarrow> stops (Suc lvl) rest \<longrightarrow>
        (\<exists>n \<le> length (show_expr lvl e).
          parse_level lvl fuel (parse_primary lib fuel depth) (show_expr lvl e @ rest) =
          connective_loop (fuel - n) op (parse_level (Suc lvl) fuel (parse_primary lib fuel depth)) e rest))"

lemma level_unfold:
  "parse_level 0 fuel p = bindS (parse_level 1 fuel p) (connective_loop fuel ''OR'' (parse_level 1 fuel p))"
  "parse_level 1 fuel p = bindS (parse_level 2 fuel p) (connective_loop fuel ''AND'' (parse_level 2 fuel p))"
  "parse_level 4 fuel p = p" "parse_level 3 fuel p = parse_comparison fuel p" "parse_level 2 fuel p = parse_not fuel p"
  by (simp_all add: parse_level_def parse_or_def parse_and_def)

lemma show_level_same:
  "rank e \<noteq> lvl \<Longrightarrow> show_expr (Suc lvl) e = show_expr lvl e \<and> nest (Suc lvl) e = nest lvl e"
  by (cases e) (auto simp: bracket_def op_rank_def less_Suc_eq split: if_splits)

lemma loop_stops:
  "lvl = 0 \<and> op = ''OR'' \<or> lvl = 1 \<and> op = ''AND'' \<Longrightarrow> stops lvl rest \<Longrightarrow> 0 < fuel \<Longrightarrow> connective_loop fuel op p e rest = (Inr e, rest)"
  by (cases fuel) (auto simp: steps stops_def absorbs_def)

lemma spine_reads:
  assumes "spine lib lvl op e" "lvl = 0 \<and> op = ''OR'' \<or> lvl = 1 \<and> op = ''AND''"
  shows "reads lib lvl e"
  unfolding reads_def
proof (intro allI impI)
  fix fuel depth rest
  assume a: "length (show_expr lvl e) < fuel" "depth + nest lvl e \<le> MAX_NESTING_DEPTH" "stops lvl rest"
  then have "stops (Suc lvl) rest" by (auto intro: stops_mono)
  with assms(1) a obtain n where "n \<le> length (show_expr lvl e)"
    "parse_level lvl fuel (parse_primary lib fuel depth) (show_expr lvl e @ rest) =
     connective_loop (fuel - n) op (parse_level (Suc lvl) fuel (parse_primary lib fuel depth)) e rest"
    unfolding spine_def by blast
  with a loop_stops [OF assms(2) a(3)] show "parse_level lvl fuel (parse_primary lib fuel depth) (show_expr lvl e @ rest) = (Inr e, rest)"
    by simp
qed

lemma reads_spine:
  assumes "reads lib (Suc lvl) e" "rank e \<noteq> lvl" "lvl = 0 \<and> op = ''OR'' \<or> lvl = 1 \<and> op = ''AND''"
  shows "spine lib lvl op e"
  unfolding spine_def
proof (intro allI impI exI conjI)
  fix fuel depth rest
  assume "length (show_expr lvl e) < fuel" "depth + nest lvl e \<le> MAX_NESTING_DEPTH" "stops (Suc lvl) rest"
  with assms(1) show_level_same [OF assms(2)]
  have "parse_level (Suc lvl) fuel (parse_primary lib fuel depth) (show_expr lvl e @ rest) = (Inr e, rest)"
    by (simp add: reads_def)
  then show "parse_level lvl fuel (parse_primary lib fuel depth) (show_expr lvl e @ rest) =
      connective_loop (fuel - 0) op (parse_level (Suc lvl) fuel (parse_primary lib fuel depth)) e rest"
    using assms(3) level_unfold(1) [of fuel] level_unfold(2) [of fuel] by (elim disjE conjE) (simp_all add: bindS_def numeral_2_eq_2)
qed simp

section \<open>The first token\<close>

lemma name_not_reserved: "name_ok n \<Longrightarrow> w \<in> set reserved \<Longrightarrow> \<not> is_keyword [w] (Token IDENT n)"
  by (auto simp: name_ok_def is_keyword_def)

lemma show_first:
  assumes "expr_ok e"
  shows "\<exists>t ts. show_expr lvl e = t # ts \<and> \<not> is_keyword [''SELECT''] t \<and>
    (3 \<le> lvl \<longrightarrow> \<not> is_keyword [''NOT''] t) \<and> (tok_type t = KEYWORD \<longrightarrow> \<not> is_keyword [''EXCLUDED''] t)"
  using assms
proof (induction e arbitrary: lvl)
  case (Literal v)
  then show ?case
    using literal_of_shown(3) [of v "[''SELECT'']"] literal_of_shown(3) [of v "[''NOT'']"] literal_of_shown(3) [of v "[''EXCLUDED'']"]
    by (auto simp: word_keyword)
next
  case (ColumnRef n)
  then show ?case using name_not_reserved [of n] by (simp add: reserved_def)
next
  case (BinOp op l r)
  show ?case
  proof (cases "fst (op_rank op) < lvl")
    case True
    then show ?thesis by (auto simp: bracket_def split: prod.split)
  next
    case False
    moreover have "3 \<le> lvl \<Longrightarrow> \<not> fst (op_rank op) < lvl \<Longrightarrow> fst (snd (op_rank op)) = 4" by (auto simp: op_rank_def)
    ultimately show ?thesis using BinOp.IH(1) [of "fst (snd (op_rank op))"] BinOp.prems
      by (auto simp: bracket_def split: prod.split)
  qed
next
  case (UnaryOp op e)
  then show ?case by (auto simp: bracket_def word_keyword)
next
  case (IsNull e n)
  then show ?case using IsNull.IH [of 4] by (auto simp: bracket_def)
next
  case (InList e es)
  then show ?case using InList.IH(1) [of 4] by (auto simp: bracket_def)
next
  case (NamedParam n)
  then show ?case by (simp add: is_keyword_def)
qed (simp_all add: word_keyword)

lemma lower_reads:
  assumes "reads lib (Suc lvl) e" "rank e \<noteq> lvl" "lvl < 4" "expr_ok e"
  shows "reads lib lvl e"
proof -
  consider "lvl = 0" | "lvl = 1" | "lvl = 2" | "lvl = 3" using assms(3) by linarith
  then show ?thesis
  proof cases
    case 1
    then show ?thesis using spine_reads [OF reads_spine [OF assms(1,2)]] by blast
  next
    case 2
    then show ?thesis using spine_reads [OF reads_spine [OF assms(1,2)]] by blast
  next
    case 3
    obtain t ts where t: "show_expr 2 e = t # ts" "\<not> is_keyword [''NOT''] t"
      using show_first [OF assms(4), of 3] show_level_same [OF assms(2)] 3 by (auto simp: eval_nat_numeral)
    show ?thesis unfolding 3 reads_def
    proof (intro allI impI)
      fix fuel depth rest
      assume "length (show_expr 2 e) < fuel" "depth + nest 2 e \<le> MAX_NESTING_DEPTH" "stops 2 rest"
      moreover have "show_expr 3 e = show_expr 2 e" "nest 3 e = nest 2 e"
        using show_level_same [OF assms(2)] 3 by (simp_all add: eval_nat_numeral)
      ultimately have "parse_comparison fuel (parse_primary lib fuel depth) (show_expr 2 e @ rest) = (Inr e, rest)"
        using assms(1) 3 stops_mono [of 2 rest 3] by (simp add: reads_def level_unfold)
      then show "parse_level 2 fuel (parse_primary lib fuel depth) (show_expr 2 e @ rest) = (Inr e, rest)"
        using t by (simp add: level_unfold parse_not_def steps)
    qed
  next
    case 4
    show ?thesis unfolding 4 reads_def
    proof (intro allI impI)
      fix fuel depth rest
      assume a: "length (show_expr 3 e) < fuel" "depth + nest 3 e \<le> MAX_NESTING_DEPTH" "stops 3 rest"
      have s: "show_expr 4 e = show_expr 3 e" "nest 4 e = nest 3 e"
        using show_level_same [OF assms(2)] 4 by (simp_all add: eval_nat_numeral)
      have "parse_primary lib fuel depth (show_expr 3 e @ rest) = (Inr e, rest)"
        using assms(1) 4 a s stops_mono [OF a(3), of 4] by (simp add: reads_def level_unfold)
      moreover obtain t r where "rest = t # r" "\<not> absorbs 3 t" using a(3) by (auto simp: stops_def)
      moreover have "\<not> is_keyword [''IS''] t" "\<not> is_keyword [''IN''] t" "\<not> is_keyword [''NOT''] t" "\<not> is_keyword [''LIKE''] t"
        using calculation(3) by (auto simp: absorbs_def is_keyword_def)
      ultimately show "parse_level 3 fuel (parse_primary lib fuel depth) (show_expr 3 e @ rest) = (Inr e, rest)"
        by (simp add: level_unfold parse_comparison_def bindS_def steps absorbs_def)
    qed
  qed
qed

section \<open>Reading back, case by case\<close>

lemma rank_le: "rank e \<le> 4"
  by (cases e) (auto simp: op_rank_def)

lemma reads_down:
  assumes "reads lib k e" "k \<le> 4" "expr_ok e"
  shows "l \<le> k \<Longrightarrow> rank e < l \<or> k \<le> rank e \<Longrightarrow> reads lib l e"
proof (induction "k - l" arbitrary: l)
  case 0
  then show ?case using assms(1) by simp
next
  case (Suc d)
  from Suc.hyps(2) have lt: "l < k" by simp
  have "reads lib (Suc l) e" by (rule Suc.hyps(1)) (use Suc.hyps(2) Suc.prems lt in linarith)+
  then show ?case by (rule lower_reads) (use Suc.prems lt assms(2,3) in \<open>linarith | simp\<close>)+
qed

lemma brackets_read:
  assumes "reads lib 0 e" "rank e < 4" "expr_ok e"
  shows "reads lib 4 e"
  unfolding reads_def
proof (intro allI impI)
  fix fuel depth rest
  assume a: "length (show_expr 4 e) < fuel" "depth + nest 4 e \<le> MAX_NESTING_DEPTH" "stops 4 rest"
  have s: "show_expr 4 e = [pu ''(''] @ show_expr 0 e @ [pu '')'']" "nest 4 e = Suc (nest 0 e)"
    using assms(2) by (cases e; auto simp: bracket_def split: prod.split)+
  obtain f where f: "fuel = Suc f" using a(1) by (cases fuel) auto
  obtain t ts where t: "show_expr 0 e = t # ts" "\<not> is_keyword [''SELECT''] t" using show_first [OF assms(3)] by blast
  have "parse_or f (parse_primary lib f (Suc depth)) (show_expr 0 e @ pu '')'' # rest) = (Inr e, pu '')'' # rest)"
    using assms(1) a s f by (simp add: reads_def parse_level_def absorbs_pu)
  then have "parse_or f (parse_primary lib f (Suc depth)) (t # ts @ pu '')'' # rest) = (Inr e, pu '')'' # rest)"
    using t(1) by simp
  then show "parse_level 4 fuel (parse_primary lib fuel depth) (show_expr 4 e @ rest) = (Inr e, rest)"
    using a(2) s f t by (simp add: level_unfold steps upper_punct MAX_NESTING_DEPTH_def bindS_Inr)
qed

lemma all_levels:
  assumes "reads lib (rank e) e" "expr_ok e" "l \<le> 4"
  shows "reads lib l e"
proof (cases "l \<le> rank e")
  case True
  then show ?thesis by (rule reads_down [OF assms(1) rank_le assms(2)]) simp
next
  case False
  have "reads lib 0 e" by (rule reads_down [OF assms(1) rank_le assms(2)]) simp_all
  moreover have "rank e < 4" using False assms(3) by linarith
  ultimately have "reads lib 4 e" using assms(2) by (rule brackets_read)
  then show ?thesis by (rule reads_down [OF _ order_refl assms(2)]) (use False assms(3) in simp_all)
qed

lemma operand_reads:
  assumes "reads lib 4 e" "length (show_expr 4 e) < fuel" "depth + nest 4 e \<le> MAX_NESTING_DEPTH" "stops 4 rest"
  shows "bindS (parse_primary lib fuel depth) g (show_expr 4 e @ rest) = g e rest"
  using assms by (intro bindS_Inr) (simp add: reads_def level_unfold)

lemma fold_max: "x \<in> set xs \<Longrightarrow> x \<le> fold max xs (a :: nat)" "a \<le> fold max xs a"
proof -
  show base: "a \<le> fold max xs a" for a :: nat and xs
  proof (induction xs arbitrary: a)
    case (Cons y xs)
    from Cons [of "max y a"] show ?case by simp
  qed simp
  show "x \<in> set xs \<Longrightarrow> x \<le> fold max xs a"
  proof (induction xs arbitrary: a)
    case (Cons y xs)
    then show ?case using base [of "max y a" xs] by auto
  qed simp
qed

lemma commas_length: "x \<in> set xs \<Longrightarrow> length (f x) \<le> length (commas (map f xs))" "length xs \<le> Suc (length (commas (map f xs)))"
proof -
  show "x \<in> set xs \<Longrightarrow> length (f x) \<le> length (commas (map f xs))"
  proof (cases xs)
    case (Cons y ys)
    have "x \<in> set ys \<Longrightarrow> length (f x) \<le> length (concat (map ((#) (pu '','')) (map f ys)))"
      by (induction ys) auto
    then show "x \<in> set xs \<Longrightarrow> ?thesis" using Cons by fastforce
  qed simp
  show "length xs \<le> Suc (length (commas (map f xs)))"
  proof (cases xs)
    case (Cons y ys)
    have "length ys \<le> length (concat (map ((#) (pu '','')) (map f ys)))" by (induction ys) auto
    then show ?thesis using Cons by simp
  qed simp
qed

text \<open>Lists between commas, for any reader of an item.\<close>

definition item_reads :: "'a parser \<Rightarrow> ('a \<Rightarrow> token list) \<Rightarrow> (token list \<Rightarrow> bool) \<Rightarrow> 'a \<Rightarrow> bool" where
  "item_reads p f good x \<longleftrightarrow> (\<forall>rest. good rest \<longrightarrow> p (f x @ rest) = (Inr x, rest))"

lemma item_readsD: "item_reads p f good x \<Longrightarrow> good rest \<Longrightarrow> bindS p g (f x @ rest) = g x rest"
  by (rule bindS_Inr) (simp add: item_reads_def)

lemma comma_rest_reads:
  assumes "\<And>x. x \<in> set xs \<Longrightarrow> item_reads p f good x" "\<And>r. good (pu '','' # r)" "good rest" "\<not> at_punct '','' rest"
  shows "length xs < n \<Longrightarrow> comma_rest n p (concat (map (\<lambda>x. pu '','' # f x) xs) @ rest) = (Inr xs, rest)"
  using assms(1)
proof (induction xs arbitrary: n)
  case Nil
  then show ?case using assms(4) by (cases n) (simp_all add: steps)
next
  case (Cons x xs)
  obtain m where m: "n = Suc m" using Cons.prems(1) by (cases n) auto
  let ?r = "concat (map (\<lambda>x. pu '','' # f x) xs) @ rest"
  have "good ?r" using assms(2,3) by (cases xs) auto
  moreover have "comma_rest m p ?r = (Inr xs, rest)" using Cons m by auto
  moreover have "item_reads p f good x" using Cons.prems(2) by simp
  ultimately show ?case using m by (simp add: steps bindS_Inr item_readsD)
qed

lemma comma_list_reads:
  assumes "\<And>x. x \<in> set xs \<Longrightarrow> item_reads p f good x" "\<And>r. good (pu '','' # r)" "good rest" "\<not> at_punct '','' rest"
    and "xs \<noteq> []" "length xs \<le> n"
  shows "bindS (comma_list n p) g (commas (map f xs) @ rest) = g xs rest"
proof -
  obtain x ys where xs: "xs = x # ys" using assms(5) by (cases xs) auto
  let ?r = "concat (map (\<lambda>x. pu '','' # f x) ys) @ rest"
  have "good ?r" using assms(2,3) by (cases ys) auto
  moreover have "comma_rest n p ?r = (Inr ys, rest)" using assms xs by (intro comma_rest_reads [where good = good]) auto
  ultimately have "comma_list n p (commas (map f xs) @ rest) = (Inr xs, rest)"
    using assms(1) [of x] xs by (simp add: comma_list_def bindS_Inr o_def item_readsD)
  then show ?thesis by (rule bindS_Inr)
qed

subsection \<open>Operands\<close>

lemma column_shown:
  assumes "expr_ok (ColumnRef n)" shows "reads lib 4 (ColumnRef n)"
  unfolding reads_def
proof (intro allI impI)
  fix fuel depth rest
  assume a: "length (show_expr 4 (ColumnRef n)) < fuel" "stops 4 rest"
  then obtain f t r where f: "fuel = Suc f" and r: "rest = t # r" "\<not> absorbs 4 t" by (cases fuel) (auto simp: stops_def)
  show "parse_level 4 fuel (parse_primary lib fuel depth) (show_expr 4 (ColumnRef n) @ rest) = (Inr (ColumnRef n), rest)"
    using r by (simp add: f level_unfold steps literal_of_def column_ref_def absorbs_def)
qed

lemma literal_shown:
  assumes "expr_ok e" "\<And>n. e \<noteq> ColumnRef n" "e = Literal v \<or> e = NamedParam m" shows "reads lib 4 e"
  unfolding reads_def
proof (intro allI impI)
  fix fuel depth rest
  assume a: "length (show_expr 4 e) < fuel"
  then obtain f where f: "fuel = Suc f" by (cases fuel) auto
  show "parse_level 4 fuel (parse_primary lib fuel depth) (show_expr 4 e @ rest) = (Inr e, rest)"
    using assms literal_of_shown(1) [of v lib] literal_of_shown(2) [of v] by (auto simp: f level_unfold steps literal_of_def)
qed

lemma no_literal: "capital w \<Longrightarrow> w \<notin> {''NULL'', ''TRUE'', ''FALSE''} \<Longrightarrow> literal_of lib (word w) = None"
  using word_simps(2) [of w] by (auto simp: literal_of_def upper_capital simp del: word_simps(2))

definition operand :: "pylib \<Rightarrow> nat \<Rightarrow> nat \<Rightarrow> expr \<Rightarrow> bool" where
  "operand lib fuel depth e \<longleftrightarrow> item_reads (parse_primary lib fuel depth) (show_expr 4) (stops 4) e"

lemma operandI: "reads lib 4 e \<Longrightarrow> length (show_expr 4 e) < fuel \<Longrightarrow> depth + nest 4 e \<le> MAX_NESTING_DEPTH \<Longrightarrow> operand lib fuel depth e"
  by (auto simp: operand_def item_reads_def reads_def level_unfold)

lemma operands_read:
  assumes "\<And>x. x \<in> set es \<Longrightarrow> reads lib 4 x" "es \<noteq> []"
    "length (commas (map (show_expr 4) es)) < fuel" "depth + fold max (map (nest 4) es) 0 \<le> MAX_NESTING_DEPTH"
  shows "bindS (comma_list fuel (parse_primary lib fuel depth)) g (commas (map (show_expr 4) es) @ pu '')'' # rest) = g es (pu '')'' # rest)"
proof (rule comma_list_reads)
  fix x assume x: "x \<in> set es"
  then have "length (show_expr 4 x) \<le> length (commas (map (show_expr 4) es))" by (rule commas_length)
  moreover have "nest 4 x \<le> fold max (map (nest 4) es) 0" using x by (intro fold_max) simp
  ultimately show "item_reads (parse_primary lib fuel depth) (show_expr 4) (stops 4) x"
    using operandI [OF assms(1) [OF x]] assms(3,4) by (simp add: operand_def)
qed (use assms(2,3) commas_length(2) [of es "show_expr 4"] in \<open>auto simp: absorbs_pu steps\<close>)

lemma call_shown:
  assumes "\<And>x. x \<in> set es \<Longrightarrow> reads lib 4 x" "expr_ok e" "e = Coalesce es \<or> e = FuncCall g es"
  shows "reads lib 4 e"
  unfolding reads_def
proof (intro allI impI)
  fix fuel depth rest
  assume a: "length (show_expr 4 e) < fuel" "depth + nest 4 e \<le> MAX_NESTING_DEPTH"
  obtain f where f: "fuel = Suc f" using a by (cases fuel) auto
  have "es \<noteq> []" using assms(2,3) by auto
  then show "parse_level 4 fuel (parse_primary lib fuel depth) (show_expr 4 e @ rest) = (Inr e, rest)"
    using assms(2,3) a operands_read [OF assms(1)]
    by (auto simp: f level_unfold steps no_literal word_keyword coalesce_args_def datetime_args_def upper_punct operands_read [OF assms(1)])
qed

subsection \<open>Comparisons\<close>

lemma in_rest_reads:
  assumes "stops 4 rest" "\<not> at_punct '','' rest"
  shows "(\<And>x. x \<in> set es \<Longrightarrow> item_reads p (show_expr 4) (stops 4) x \<and> expr_ok x) \<Longrightarrow> length es < n \<Longrightarrow> k + length es \<le> MAX_IN_LIST_SIZE \<Longrightarrow>
    in_rest n k p (concat (map (\<lambda>x. pu '','' # show_expr 4 x) es) @ rest) = (Inr es, rest)"
proof (induction es arbitrary: n k)
  case Nil
  then show ?case using assms(2) by (cases n) (simp_all add: steps)
next
  case (Cons x es)
  obtain m where m: "n = Suc m" using Cons.prems(2) by (cases n) auto
  let ?r = "concat (map (\<lambda>x. pu '','' # show_expr 4 x) es) @ rest"
  have "stops 4 ?r" using assms(1) by (cases es) (auto simp: absorbs_pu)
  moreover have "in_rest m (Suc k) p ?r = (Inr es, rest)" using Cons.prems m by (intro Cons.IH) auto
  moreover have x: "item_reads p (show_expr 4) (stops 4) x" "expr_ok x" using Cons.prems(1) [of x] by auto
  ultimately have "bindS p (\<lambda>x. if MAX_IN_LIST_SIZE < k + 1 then raiseS ParseError
      else bindS (in_rest m (k + 1) p) (\<lambda>xs. retS (x # xs))) (show_expr 4 x @ ?r) = (Inr (x # es), rest)"
    using Cons.prems(3) by (simp add: item_readsD bindS_Inr)
  moreover obtain t ts where "show_expr 4 x = t # ts" "\<not> is_keyword [''SELECT''] t" using show_first [OF x(2)] by blast
  ultimately show ?case using m by (simp add: steps)
qed

lemma in_list_reads:
  assumes "\<And>x. x \<in> set es \<Longrightarrow> operand lib fuel depth x \<and> expr_ok x" "es \<noteq> []" "length es \<le> MAX_IN_LIST_SIZE" "length es \<le> fuel"
  shows "in_list fuel (parse_primary lib fuel depth) left (pu ''('' # commas (map (show_expr 4) es) @ pu '')'' # rest) = (Inr (InList left es), rest)"
proof -
  let ?p = "parse_primary lib fuel depth"
  obtain x ys where xs: "es = x # ys" using assms(2) by (cases es) auto
  let ?r = "concat (map (\<lambda>x. pu '','' # show_expr 4 x) ys) @ pu '')'' # rest"
  have "stops 4 ?r" by (cases ys) (auto simp: absorbs_pu)
  moreover have "in_rest fuel 1 ?p ?r = (Inr ys, pu '')'' # rest)"
    using assms xs by (intro in_rest_reads) (auto simp: absorbs_pu steps operand_def)
  moreover have x: "item_reads ?p (show_expr 4) (stops 4) x" "expr_ok x" using assms(1) xs by (auto simp: operand_def)
  ultimately have items: "parse_in_items fuel ?p (show_expr 4 x @ ?r) = (Inr es, pu '')'' # rest)"
    using xs by (simp add: parse_in_items_def item_readsD bindS_Inr)
  obtain t ts where t: "show_expr 4 x = t # ts" "\<not> is_keyword [''SELECT''] t" using show_first [OF x(2)] by blast
  then show ?thesis using items xs by (simp add: in_list_def steps upper_punct bindS_Inr o_def)
qed

lemma comparison_shown:
  assumes "reads lib 4 l" "reads lib 4 r" "expr_ok (BinOp op l r)" "rank (BinOp op l r) = 3"
  shows "reads lib 3 (BinOp op l r)"
  unfolding reads_def
proof (intro allI impI)
  fix fuel depth rest
  assume a: "length (show_expr 3 (BinOp op l r)) < fuel" "depth + nest 3 (BinOp op l r) \<le> MAX_NESTING_DEPTH" "stops 3 rest"
  have rk: "op_rank op = (3, 4, 4)" using assms(4) by (auto simp: op_rank_def split: if_splits)
  then have p: "operand lib fuel depth l" "operand lib fuel depth r" "stops 4 rest"
    using a assms(1,2) by (auto simp: bracket_def intro!: operandI intro: stops_mono)
  have "stops 4 (op_tokens op @ show_expr 4 r @ rest)"
    using assms(3) by (auto simp: op_tokens_def absorbs_word word_def [symmetric] absorbs_op)
  with p have "parse_primary lib fuel depth (show_expr 4 l @ op_tokens op @ show_expr 4 r @ rest) = (Inr l, op_tokens op @ show_expr 4 r @ rest)"
    "bindS (parse_primary lib fuel depth) (\<lambda>x. retS (BinOp op l x)) (show_expr 4 r @ rest) = (Inr (BinOp op l r), rest)"
    by (simp_all add: operand_def item_reads_def bindS_Inr)
  moreover have "op \<in> set (map pystr_of ([''LIKE'', ''NOT LIKE''] @ comparisons))"
    using assms(3) rk by (auto simp: op_rank_def split: if_splits)
  ultimately show "parse_level 3 fuel (parse_primary lib fuel depth) (show_expr 3 (BinOp op l r) @ rest) = (Inr (BinOp op l r), rest)"
    using rk by (auto simp: level_unfold parse_comparison_def bindS_Inr bracket_def op_tokens_def word_def [symmetric] steps word_keyword upper_capital
        comparisons_def is_keyword_def)
qed

lemma is_null_shown:
  assumes "reads lib 4 e"
  shows "reads lib 3 (IsNull e negated)"
  unfolding reads_def
proof (intro allI impI)
  fix fuel depth rest
  let ?ts = "[word ''IS''] @ (if negated then [word ''NOT''] else []) @ [word ''NULL''] @ rest"
  assume a: "length (show_expr 3 (IsNull e negated)) < fuel" "depth + nest 3 (IsNull e negated) \<le> MAX_NESTING_DEPTH" "stops 3 rest"
  then have "operand lib fuel depth e" using assms by (auto simp: bracket_def intro!: operandI)
  then have "parse_primary lib fuel depth (show_expr 4 e @ ?ts) = (Inr e, ?ts)"
    by (auto simp: operand_def item_reads_def absorbs_word)
  then show "parse_level 3 fuel (parse_primary lib fuel depth) (show_expr 3 (IsNull e negated) @ rest) = (Inr (IsNull e negated), rest)"
    by (auto simp: level_unfold parse_comparison_def bindS_Inr bracket_def steps word_keyword upper_capital)
qed

lemma in_list_shown:
  assumes "reads lib 4 e" "\<And>x. x \<in> set es \<Longrightarrow> reads lib 4 x" "expr_ok (InList e es)"
  shows "reads lib 3 (InList e es)"
  unfolding reads_def
proof (intro allI impI)
  fix fuel depth rest
  let ?ts = "word ''IN'' # pu ''('' # commas (map (show_expr 4) es) @ pu '')'' # rest"
  assume a: "length (show_expr 3 (InList e es)) < fuel" "depth + nest 3 (InList e es) \<le> MAX_NESTING_DEPTH" "stops 3 rest"
  have b: "operand lib fuel depth x \<and> expr_ok x" if "x \<in> set es" for x
    using a assms that commas_length(1) [OF that, of "show_expr 4"] fold_max(1) [of "nest 4 x" "map (nest 4) es" "nest 4 e"]
    by (auto simp: bracket_def list_all_iff intro!: operandI)
  have "operand lib fuel depth e" using a assms(1) fold_max(2) [of "nest 4 e" "map (nest 4) es"] by (auto simp: bracket_def intro!: operandI)
  then have "parse_primary lib fuel depth (show_expr 4 e @ ?ts) = (Inr e, ?ts)"
    by (auto simp: operand_def item_reads_def absorbs_word)
  moreover have "in_list fuel (parse_primary lib fuel depth) e (pu ''('' # commas (map (show_expr 4) es) @ pu '')'' # rest) = (Inr (InList e es), rest)"
    using assms(3) b a commas_length(2) [of es "show_expr 4"] by (intro in_list_reads) (auto simp: bracket_def)
  ultimately show "parse_level 3 fuel (parse_primary lib fuel depth) (show_expr 3 (InList e es) @ rest) = (Inr (InList e es), rest)"
    by (auto simp: level_unfold parse_comparison_def bindS_Inr bracket_def steps word_keyword)
qed

subsection \<open>Connectives\<close>

lemma not_shown:
  assumes "reads lib 3 e"
  shows "reads lib 2 (UnaryOp (pystr_of ''NOT'') e)"
  unfolding reads_def
proof (intro allI impI)
  fix fuel depth rest
  let ?e = "UnaryOp (pystr_of ''NOT'') e"
  assume a: "length (show_expr 2 ?e) < fuel" "depth + nest 2 ?e \<le> MAX_NESTING_DEPTH" "stops 2 rest"
  then have "parse_comparison fuel (parse_primary lib fuel depth) (show_expr 3 e @ rest) = (Inr e, rest)"
    using assms stops_mono [of 2 rest 3] by (simp add: reads_def level_unfold bracket_def)
  then show "parse_level 2 fuel (parse_primary lib fuel depth) (show_expr 2 ?e @ rest) = (Inr ?e, rest)"
    by (simp add: level_unfold parse_not_def bracket_def steps word_keyword bindS_Inr)
qed

lemma spine_step:
  assumes "spine lib lvl op l" "reads lib (Suc lvl) r" "lvl = 0 \<and> op = ''OR'' \<or> lvl = 1 \<and> op = ''AND''"
  shows "spine lib lvl op (BinOp (pystr_of op) l r)"
  unfolding spine_def
proof (intro allI impI)
  fix fuel depth rest
  let ?e = "BinOp (pystr_of op) l r" and ?p = "parse_primary lib fuel depth"
  let ?next = "parse_level (Suc lvl) fuel ?p" and ?ts = "word op # show_expr (Suc lvl) r @ rest"
  assume a: "length (show_expr lvl ?e) < fuel" "depth + nest lvl ?e \<le> MAX_NESTING_DEPTH" "stops (Suc lvl) rest"
  have shown: "show_expr lvl ?e = show_expr lvl l @ word op # show_expr (Suc lvl) r" "nest lvl ?e = max (nest lvl l) (nest (Suc lvl) r)"
    using assms(3) by (auto simp: op_rank_def bracket_def op_tokens_def word_def numeral_2_eq_2)
  have "stops (Suc lvl) ?ts" using assms(3) by (auto simp: absorbs_word)
  moreover have "length (show_expr lvl l) < fuel" "depth + nest lvl l \<le> MAX_NESTING_DEPTH" using a shown by simp_all
  ultimately obtain n where n: "n \<le> length (show_expr lvl l)" "parse_level lvl fuel ?p (show_expr lvl l @ ?ts) = connective_loop (fuel - n) op ?next l ?ts"
    using assms(1) unfolding spine_def by blast
  have "fuel - n = Suc (fuel - Suc n)" using a(1) n(1) shown by simp
  moreover have "?next (show_expr (Suc lvl) r @ rest) = (Inr r, rest)" using assms(2) a shown by (simp add: reads_def)
  moreover have "is_keyword [op] (word op)" using assms(3) by (auto simp: word_keyword)
  ultimately have "connective_loop (fuel - n) op ?next l ?ts = connective_loop (fuel - Suc n) op ?next ?e rest"
    by (simp add: steps bindS_Inr)
  then show "\<exists>n \<le> length (show_expr lvl ?e). parse_level lvl fuel ?p (show_expr lvl ?e @ rest) = connective_loop (fuel - n) op ?next ?e rest"
    using n shown by (intro exI [of _ "Suc n"]) simp
qed

lemma reads_all_and:
  assumes "reads lib (rank e) e" "expr_ok e" "rank e = 1" "spine lib 1 ''AND'' e"
  shows "(\<forall>l \<le> 4. reads lib l e) \<and> spine lib 0 ''OR'' e \<and> spine lib 1 ''AND'' e"
  using assms all_levels [OF assms(1,2)] reads_spine [of lib 0 e "''OR''"] by simp

lemma reads_all_or:
  assumes "reads lib (rank e) e" "expr_ok e" "rank e = 0" "spine lib 0 ''OR'' e"
  shows "(\<forall>l \<le> 4. reads lib l e) \<and> spine lib 0 ''OR'' e \<and> spine lib 1 ''AND'' e"
  using assms all_levels [OF assms(1,2)] reads_spine [of lib 1 e "''AND''"] by simp

lemma reads_all:
  assumes "reads lib (rank e) e" "expr_ok e" "1 < rank e"
  shows "(\<forall>l \<le> 4. reads lib l e) \<and> spine lib 0 ''OR'' e \<and> spine lib 1 ''AND'' e"
  using assms all_levels [OF assms(1,2)] reads_spine [of lib 0 e "''OR''"] reads_spine [of lib 1 e "''AND''"] by simp

lemma expr_reads: "expr_ok e \<Longrightarrow> (\<forall>l \<le> 4. reads lib l e) \<and> spine lib 0 ''OR'' e \<and> spine lib 1 ''AND'' e"
proof (induction e)
  case (Literal v)
  have "reads lib 4 (Literal v)" by (rule literal_shown [OF Literal]) simp_all
  then show ?case by (intro reads_all [OF _ Literal]) simp_all
next
  case (NamedParam n)
  have "reads lib 4 (NamedParam n)" by (rule literal_shown [OF NamedParam]) simp_all
  then show ?case by (intro reads_all [OF _ NamedParam]) simp_all
next
  case (ColumnRef n)
  have "reads lib 4 (ColumnRef n)" by (rule column_shown [OF ColumnRef])
  then show ?case by (intro reads_all [OF _ ColumnRef]) simp_all
next
  case (BinOp op l r)
  have ok: "expr_ok l" "expr_ok r" using BinOp.prems by simp_all
  note l = BinOp.IH(1) [OF ok(1)] and r = BinOp.IH(2) [OF ok(2)]
  have sub: "reads lib 4 l" "reads lib 1 r" "reads lib 2 r" "reads lib 4 r" using l r by simp_all
  have "op = pystr_of ''OR'' \<or> op = pystr_of ''AND'' \<or> rank (BinOp op l r) = 3" by (simp add: op_rank_def)
  then consider "op = pystr_of ''OR''" | "op = pystr_of ''AND''" | "rank (BinOp op l r) = 3" by blast
  then show ?case
  proof cases
    case 1
    then have rk: "rank (BinOp op l r) = 0" by (simp add: op_rank_def)
    have s: "spine lib 0 ''OR'' (BinOp op l r)" unfolding 1 by (rule spine_step) (use l sub(2) in simp_all)
    then have "reads lib 0 (BinOp op l r)" by (rule spine_reads) simp
    then show ?thesis by (rule reads_all_or [OF _ BinOp.prems rk s, unfolded rk])
  next
    case 2
    then have rk: "rank (BinOp op l r) = 1" by (simp add: op_rank_def)
    have s: "spine lib 1 ''AND'' (BinOp op l r)" unfolding 2 by (rule spine_step) (use l sub(3) in \<open>simp_all add: numeral_2_eq_2\<close>)
    then have "reads lib 1 (BinOp op l r)" by (rule spine_reads) simp
    then show ?thesis by (rule reads_all_and [OF _ BinOp.prems rk s, unfolded rk])
  next
    case 3
    have "reads lib 3 (BinOp op l r)" by (rule comparison_shown [OF sub(1,4) BinOp.prems 3])
    then show ?thesis by (rule reads_all [OF _ BinOp.prems, unfolded 3]) simp
  qed
next
  case (UnaryOp op e)
  then have "reads lib 2 (UnaryOp op e)" using not_shown [of lib e] by simp
  then show ?case by (intro reads_all [OF _ UnaryOp.prems]) simp_all
next
  case (IsNull e n)
  then have "reads lib 3 (IsNull e n)" using is_null_shown [of lib e n] by simp
  then show ?case by (intro reads_all [OF _ IsNull.prems]) simp_all
next
  case (InList e es)
  have "reads lib 3 (InList e es)"
    by (rule in_list_shown [OF _ _ InList.prems]) (use InList in \<open>simp_all add: list_all_iff\<close>)
  then show ?case by (intro reads_all [OF _ InList.prems]) simp_all
next
  case (Coalesce es)
  have "reads lib 4 (Coalesce es)"
    by (rule call_shown [of es, OF _ Coalesce.prems]) (use Coalesce in \<open>simp_all add: list_all_iff\<close>)
  then show ?case by (intro reads_all [OF _ Coalesce.prems]) simp_all
next
  case (FuncCall f es)
  have "reads lib 4 (FuncCall f es)"
    by (rule call_shown [of es, OF _ FuncCall.prems]) (use FuncCall in \<open>simp_all add: list_all_iff\<close>)
  then show ?case by (intro reads_all [OF _ FuncCall.prems]) simp_all
qed simp

end
