(* ===== verification/SqlRoundTrip.thy ===== *)
theory SqlRoundTrip
  imports SqlPrinter
begin

text \<open>
  The text of a statement, and the proof that \<open>parse_sql\<close> reads it back as that statement. The statements
  printed are the SELECT, INSERT, UPDATE and DELETE statements of \<open>stmt_ok\<close>: no REAL literal, names that are
  not one of six words the parser looks for first, operands inside the nesting bound, lists that are not
  empty, and a select list of one of its five forms.
\<close>

section \<open>Clauses\<close>

abbreviation ident :: "pystr \<Rightarrow> token" where "ident \<equiv> Token IDENT"
abbreviation the_end :: token where "the_end \<equiv> Token EOF []"

definition show_names :: "pystr list \<Rightarrow> token list" where "show_names ns = commas (map (\<lambda>n. [ident n]) ns)"

definition number :: "int \<Rightarrow> token" where "number i = Token INTEGER (nat_digits (nat i))"

definition number_ok :: "int \<Rightarrow> bool" where "number_ok i \<longleftrightarrow> 0 \<le> i \<and> length (nat_digits (nat i)) \<le> 4300"

definition operand_ok :: "nat \<Rightarrow> expr \<Rightarrow> bool" where "operand_ok lvl e \<longleftrightarrow> expr_ok e \<and> nest lvl e \<le> MAX_NESTING_DEPTH"

definition show_where :: "expr option \<Rightarrow> token list" where
  "show_where w = (case w of None \<Rightarrow> [] | Some e \<Rightarrow> word ''WHERE'' # show_expr 0 e)"

definition show_set :: "(pystr \<times> expr) \<Rightarrow> token list" where
  "show_set c = [ident (fst c), Token OP (pystr_of ''='')] @
     (case snd c of ExcludedRef n \<Rightarrow> [word ''EXCLUDED'', pu ''.'', ident n] | e \<Rightarrow> show_expr 4 e)"

definition set_ok :: "bool \<Rightarrow> (pystr \<times> expr) \<Rightarrow> bool" where
  "set_ok excluded c \<longleftrightarrow> name_ok (fst c) \<and> (case snd c of ExcludedRef n \<Rightarrow> excluded \<and> name_ok n | e \<Rightarrow> operand_ok 4 e)"

definition show_update :: "update_stmt \<Rightarrow> token list" where
  "show_update u = [word ''UPDATE'', ident (u_table u), word ''SET''] @ commas (map show_set (u_set_clauses u)) @ show_where (u_where u)"

definition where_ok :: "expr option \<Rightarrow> bool" where "where_ok w \<longleftrightarrow> (case w of None \<Rightarrow> True | Some e \<Rightarrow> operand_ok 0 e)"

definition update_ok :: "update_stmt \<Rightarrow> bool" where
  "update_ok u \<longleftrightarrow> name_ok (u_table u) \<and> u_set_clauses u \<noteq> [] \<and> list_all (set_ok False) (u_set_clauses u) \<and> where_ok (u_where u)"

definition show_delete :: "delete_stmt \<Rightarrow> token list" where
  "show_delete d = [word ''DELETE'', word ''FROM'', ident (d_table d)] @ show_where (d_where d)"

definition show_conflict :: "insert_stmt \<Rightarrow> token list" where
  "show_conflict i =
     (case i_conflict_action i of
        None \<Rightarrow> []
      | Some a \<Rightarrow> [word ''ON'', word ''CONFLICT'', pu ''(''] @ show_names (i_conflict_keys i) @ [pu '')'', word ''DO''] @
          (case a of DoNothing \<Rightarrow> [word ''NOTHING'']
           | DoUpdate \<Rightarrow> [word ''UPDATE'', word ''SET''] @ commas (map show_set (i_set_clauses i))))"

definition show_insert :: "insert_stmt \<Rightarrow> token list" where
  "show_insert i =
     [word ''INSERT''] @
     (if i_or_ignore i then [word ''OR'', word ''IGNORE''] else if i_or_replace i then [word ''OR'', word ''REPLACE''] else []) @
     [word ''INTO'', ident (i_table i), pu ''(''] @ show_names (i_columns i) @ [pu '')'', word ''VALUES'', pu ''(''] @
     commas (map (show_expr 4) (i_values i)) @ [pu '')''] @ show_conflict i"

definition insert_ok :: "insert_stmt \<Rightarrow> bool" where
  "insert_ok i \<longleftrightarrow>
     name_ok (i_table i) \<and> i_columns i \<noteq> [] \<and> list_all name_ok (i_columns i) \<and>
     i_values i \<noteq> [] \<and> list_all (operand_ok 4) (i_values i) \<and> \<not> (i_or_ignore i \<and> i_or_replace i) \<and>
     (case i_conflict_action i of
        None \<Rightarrow> i_conflict_keys i = [] \<and> i_set_clauses i = []
      | Some a \<Rightarrow> i_conflict_keys i \<noteq> [] \<and> list_all name_ok (i_conflict_keys i) \<and>
          (if a = DoNothing then i_set_clauses i = [] else i_set_clauses i \<noteq> [] \<and> list_all (set_ok True) (i_set_clauses i)))"

section \<open>The text of a SELECT\<close>

definition show_alias :: "pystr option \<Rightarrow> token list" where
  "show_alias a = (case a of None \<Rightarrow> [] | Some n \<Rightarrow> [word ''AS'', ident n])"

definition show_item :: "item_node \<times> pystr option \<Rightarrow> token list" where
  "show_item item =
     (case fst item of
        NameNode n \<Rightarrow> if n = COUNT_STAR_MARKER then [word ''COUNT'', pu ''('', pu ''*'', pu '')''] else [ident n]
      | ExprNode e \<Rightarrow> show_expr 4 e) @ show_alias (snd item)"

definition group_entry :: "group_item \<Rightarrow> item_node \<times> pystr option" where
  "group_entry g = (case g of GroupCount a \<Rightarrow> (NameNode COUNT_STAR_MARKER, Some a) | GroupCol out src \<Rightarrow> (NameNode src, Some out))"

definition expr_entry :: "expr \<times> pystr \<Rightarrow> item_node \<times> pystr option" where
  "expr_entry x = (case fst x of ColumnRef n \<Rightarrow> (NameNode n, Some (snd x)) | e \<Rightarrow> (ExprNode e, Some (snd x)))"

definition item_list :: "select_stmt \<Rightarrow> (item_node \<times> pystr option) list" where
  "item_list s =
     (if s_group_select s \<noteq> [] then map group_entry (s_group_select s)
      else if s_select_exprs s \<noteq> [] then map expr_entry (s_select_exprs s)
      else map (\<lambda>n. (NameNode n, None)) (s_columns s))"

definition agg_word :: "aggregate \<Rightarrow> string" where
  "agg_word a = (case a of CountAgg \<Rightarrow> ''COUNT'' | SumAgg \<Rightarrow> ''SUM'' | MinAgg \<Rightarrow> ''MIN'' | MaxAgg \<Rightarrow> ''MAX'')"

definition show_select_list :: "select_stmt \<Rightarrow> token list" where
  "show_select_list s =
     (case s_aggregate s of
        Some CountAgg \<Rightarrow> [word ''COUNT'', pu ''('', pu ''*'', pu '')''] @ show_alias (s_count_alias s)
      | Some a \<Rightarrow> [word (agg_word a), pu ''('', ident (the (s_aggregate_column s)), pu '')'']
      | None \<Rightarrow> if s_columns s = [pystr_of ''*''] then [pu ''*''] else commas (map show_item (item_list s)))"

definition show_group_by :: "select_stmt \<Rightarrow> token list" where
  "show_group_by s =
     (case s_group_by_col s of
        None \<Rightarrow> []
      | Some c \<Rightarrow> [word ''GROUP'', word ''BY'', ident c] @
          (case (s_having_op s, s_having_value s) of
             (Some op, Some v) \<Rightarrow> [word ''HAVING'', word ''COUNT'', pu ''('', pu ''*'', pu '')'', Token OP op, number v]
           | _ \<Rightarrow> []))"

definition show_key :: "pystr \<times> bool \<times> bool \<Rightarrow> token list" where
  "show_key k =
     (case k of (c, desc, dt) \<Rightarrow>
        (if dt then [word ''DATETIME'', pu ''('', ident c, pu '')''] else [ident c]) @ (if desc then [word ''DESC''] else []))"

definition show_order_by :: "select_stmt \<Rightarrow> token list" where
  "show_order_by s =
     (case s_order_by s of
        None \<Rightarrow> []
      | Some k \<Rightarrow> [word ''ORDER'', word ''BY''] @ show_key k @
          (case s_order_by2 s of None \<Rightarrow> [] | Some k2 \<Rightarrow> [pu '',''] @ show_key k2))"

definition show_count :: "int option \<Rightarrow> token" where
  "show_count i = (case i of None \<Rightarrow> Token PLACEHOLDER (pystr_of ''?'') | Some n \<Rightarrow> number n)"

definition show_limit :: "select_stmt \<Rightarrow> token list" where
  "show_limit s =
     (if s_limit s = None \<and> \<not> s_limit_is_param s then []
      else [word ''LIMIT'', show_count (s_limit s)] @
        (if s_offset s = None \<and> \<not> s_offset_is_param s then [] else [word ''OFFSET'', show_count (s_offset s)]))"

definition show_select :: "select_stmt \<Rightarrow> token list" where
  "show_select s = [word ''SELECT''] @ show_select_list s @ [word ''FROM'', ident (s_table s)] @ show_where (s_where s) @
     show_group_by s @ show_order_by s @ show_limit s"

definition column_ok :: "pystr \<Rightarrow> bool" where "column_ok n \<longleftrightarrow> name_ok n \<and> n \<noteq> COUNT_STAR_MARKER"

definition expr_item_ok :: "expr \<times> pystr \<Rightarrow> bool" where
  "expr_item_ok x \<longleftrightarrow> name_ok (snd x) \<and>
     (case fst x of ColumnRef n \<Rightarrow> column_ok n | Literal v \<Rightarrow> literal_ok v | NamedParam n \<Rightarrow> word_shaped n
      | Coalesce es \<Rightarrow> operand_ok 4 (Coalesce es) | _ \<Rightarrow> False)"

definition last_count :: "group_item list \<Rightarrow> pystr option" where
  "last_count gs = fold (\<lambda>g a. case g of GroupCount n \<Rightarrow> Some n | GroupCol out src \<Rightarrow> a) gs None"

definition group_item_ok :: "group_item \<Rightarrow> bool" where
  "group_item_ok g \<longleftrightarrow> (case g of GroupCount a \<Rightarrow> name_ok a | GroupCol out src \<Rightarrow> name_ok out \<and> column_ok src)"

definition select_list_ok :: "select_stmt \<Rightarrow> bool" where
  "select_list_ok s \<longleftrightarrow>
     (case s_aggregate s of
        Some a \<Rightarrow>
          s_columns s = [] \<and> s_select_exprs s = [] \<and> s_group_select s = [] \<and> s_group_count_alias s = None \<and>
          (if a = CountAgg then s_aggregate_column s = None \<and> (\<forall>n \<in> set_option (s_count_alias s). name_ok n)
           else (\<exists>c. s_aggregate_column s = Some c \<and> name_ok c) \<and> s_count_alias s = None)
      | None \<Rightarrow>
          s_aggregate_column s = None \<and> s_count_alias s = None \<and> s_group_count_alias s = last_count (s_group_select s) \<and>
          (if s_group_select s \<noteq> [] then
             s_columns s = [] \<and> s_select_exprs s = [] \<and> 1 < length (s_group_select s) \<and>
             last_count (s_group_select s) \<noteq> None \<and> list_all group_item_ok (s_group_select s)
           else if s_select_exprs s \<noteq> [] then s_columns s = [] \<and> list_all expr_item_ok (s_select_exprs s)
           else s_columns s \<noteq> [] \<and> list_all column_ok (s_columns s)))"

definition group_by_ok :: "select_stmt \<Rightarrow> bool" where
  "group_by_ok s \<longleftrightarrow>
     (case s_group_by_col s of None \<Rightarrow> s_having_op s = None \<and> s_having_value s = None
      | Some c \<Rightarrow> name_ok c \<and>
          (case (s_having_op s, s_having_value s) of
             (None, None) \<Rightarrow> True
           | (Some op, Some v) \<Rightarrow> op \<in> pystr_of ` {''>='', ''>'', ''<='', ''<'', ''='', ''!=''} \<and> number_ok v
           | _ \<Rightarrow> False))"

definition order_by_ok :: "select_stmt \<Rightarrow> bool" where
  "order_by_ok s \<longleftrightarrow>
     (case s_order_by s of None \<Rightarrow> s_order_by2 s = None
      | Some k \<Rightarrow> name_ok (fst k) \<and> (case s_order_by2 s of None \<Rightarrow> True | Some k2 \<Rightarrow> name_ok (fst k2)))"

definition count_ok :: "int option \<Rightarrow> bool \<Rightarrow> bool" where
  "count_ok i param \<longleftrightarrow> (case i of None \<Rightarrow> True | Some n \<Rightarrow> number_ok n \<and> \<not> param)"

definition limit_ok :: "select_stmt \<Rightarrow> bool" where
  "limit_ok s \<longleftrightarrow> count_ok (s_limit s) (s_limit_is_param s) \<and> count_ok (s_offset s) (s_offset_is_param s) \<and>
     (s_limit s = None \<and> \<not> s_limit_is_param s \<longrightarrow> s_offset s = None \<and> \<not> s_offset_is_param s)"

definition select_ok :: "select_stmt \<Rightarrow> bool" where
  "select_ok s \<longleftrightarrow> name_ok (s_table s) \<and> select_list_ok s \<and> where_ok (s_where s) \<and> group_by_ok s \<and> order_by_ok s \<and> limit_ok s"

fun show_stmt :: "stmt \<Rightarrow> token list" where
  "show_stmt (SelectS s) = show_select s"
| "show_stmt (InsertS i) = show_insert i"
| "show_stmt (UpdateS u) = show_update u"
| "show_stmt (DeleteS d) = show_delete d"
| "show_stmt (DDLS k raw) = []"

fun stmt_ok :: "stmt \<Rightarrow> bool" where
  "stmt_ok (SelectS s) \<longleftrightarrow> select_ok s"
| "stmt_ok (InsertS i) \<longleftrightarrow> insert_ok i"
| "stmt_ok (UpdateS u) \<longleftrightarrow> update_ok u"
| "stmt_ok (DeleteS d) \<longleftrightarrow> name_ok (d_table d) \<and> where_ok (d_where d)"
| "stmt_ok (DDLS k raw) \<longleftrightarrow> False"

section \<open>Reading a clause\<close>

declare parse_primary.simps [simp del]

definition follow :: "nat \<Rightarrow> token list \<Rightarrow> bool" where
  \<comment> \<open>what may come after the clauses before the \<open>k\<close>-th\<close>
  "follow k ts \<longleftrightarrow> (\<exists>t r. ts = t # r \<and> t \<in> set (drop k [word ''WHERE'', word ''GROUP'', word ''ORDER'', word ''LIMIT'', the_end]))"

lemma bind_name [steps]: "bindS expect_name f (ident n # ts) = f n ts"
  by (simp add: bind_expect_name)

lemma bind_expect_equals [steps]: "bindS (expect ''='') f (Token OP (pystr_of ''='') # ts) = f (Token OP (pystr_of ''='')) ts"
  by (simp add: bindS_def expect_def peek_def advance_def upper_punct)

lemma bind_expect_dot [steps]: "bindS (expect ''.'') f (pu ''.'' # ts) = f (pu ''.'') ts"
  by (simp add: bindS_def expect_def peek_def advance_def upper_def upper_char_def)

lemma bind_expect_type [steps]: "tok_type t = k \<Longrightarrow> bindS (expect_type k) f (t # ts) = f t ts"
  by (simp add: bindS_def expect_type_def peek_def advance_def)

lemma bind_ifS [steps]: "bindS (ifS c m m') f ts = (if c ts then bindS m f ts else bindS m' f ts)"
  by (simp add: bindS_def ifS_def)

lemma the_end_simps [simp]: "\<not> is_keyword vs the_end" "\<not> absorbs l the_end"
  by (simp_all add: is_keyword_def absorbs_def)

lemma follow_mono:
  assumes "follow k ts" "j \<le> k"
  shows "follow j ts"
proof -
  let ?L = "[word ''WHERE'', word ''GROUP'', word ''ORDER'', word ''LIMIT'', the_end]"
  have sub: "set (drop k ?L) \<subseteq> set (drop j ?L)" by (rule set_drop_subset_set_drop [OF assms(2)])
  obtain t r where "ts = t # r" "t \<in> set (drop k ?L)" using assms(1) unfolding follow_def by blast
  then show ?thesis using subsetD [OF sub] unfolding follow_def by blast
qed

lemma follow_token:
  assumes "follow k ts"
  shows "\<exists>t r. ts = t # r \<and> (t = the_end \<or> (\<exists>w \<in> {''WHERE'', ''GROUP'', ''ORDER'', ''LIMIT''}. t = word w))"
proof -
  from assms obtain t r where t: "ts = t # r" "t \<in> set (drop k [word ''WHERE'', word ''GROUP'', word ''ORDER'', word ''LIMIT'', the_end])"
    by (auto simp: follow_def)
  from in_set_dropD [OF t(2)] t(1) show ?thesis by auto
qed

lemma follow_stops: "follow k ts \<Longrightarrow> stops l ts"
  using follow_token [of k ts] by (auto simp: absorbs_word)

lemma follow_plain:
  assumes "follow k ts"
  shows "\<not> at_punct v ts" and "set vs \<inter> {''WHERE'', ''GROUP'', ''ORDER'', ''LIMIT''} = {} \<Longrightarrow> \<not> at_keyword vs ts"
  using follow_token [OF assms] by (auto simp: steps word_keyword)

lemma follow_own:
  "follow 1 ts \<Longrightarrow> \<not> at_keyword [''WHERE''] ts" "follow 2 ts \<Longrightarrow> \<not> at_keyword [''GROUP''] ts"
  "follow 3 ts \<Longrightarrow> \<not> at_keyword [''ORDER''] ts" "follow 4 ts \<Longrightarrow> \<not> at_keyword [''LIMIT''] ts" "follow 4 ts \<longleftrightarrow> (\<exists>r. ts = the_end # r)"
  by (auto simp: follow_def steps word_keyword)

lemma primary_reads: "operand_ok 4 e \<Longrightarrow> item_reads (primary lib) (show_expr 4) (stops 4) e"
  using expr_reads [of e lib] by (auto simp: item_reads_def operand_ok_def primary_def reads_def level_unfold)

lemma where_reads:
  assumes "where_ok w" "follow 1 rest"
  shows "bindS (parse_where lib) f (show_where w @ rest) = f w rest"
proof (cases w)
  case None
  then show ?thesis using follow_own(1) [OF assms(2)] by (intro bindS_Inr) (simp add: show_where_def parse_where_def steps)
next
  case (Some e)
  then have e: "expr_ok e" "nest 0 e \<le> MAX_NESTING_DEPTH" using assms(1) by (auto simp: where_ok_def operand_ok_def)
  have "parse_expr lib (show_expr 0 e @ rest) = (Inr e, rest)"
    using expr_reads [OF e(1), of lib] e(2) follow_stops [OF assms(2)] by (auto simp: parse_expr_def reads_def parse_level_def)
  then show ?thesis by (intro bindS_Inr) (simp add: Some show_where_def parse_where_def steps word_keyword bindS_Inr)
qed

lemma list_reads:
  assumes "\<And>x. x \<in> set xs \<Longrightarrow> item_reads p f good x" "\<And>r. good (pu '','' # r)" "good rest" "\<not> at_punct '','' rest" "xs \<noteq> []"
  shows "bindS (in_state (\<lambda>fuel. comma_list fuel p)) g (commas (map f xs) @ rest) = g xs rest"
proof -
  have "bindS (comma_list n p) retS (commas (map f xs) @ rest) = retS xs rest" if "length xs \<le> n" for n
    by (rule comma_list_reads [OF assms that])
  then show ?thesis using commas_length(2) [of xs f] by (intro bindS_Inr) (simp add: in_state_def)
qed

lemma parens_read:
  assumes "\<And>x. x \<in> set xs \<Longrightarrow> item_reads p f good x" "\<And>r. good (pu '','' # r)" "\<And>r. good (pu '')'' # r)" "xs \<noteq> []"
  shows "bindS (in_parens p) g (pu ''('' # commas (map f xs) @ pu '')'' # rest) = g xs rest"
  using assms by (intro bindS_Inr) (simp add: in_parens_def steps upper_punct list_reads [where good = good])

lemma name_reads: "item_reads expect_name (\<lambda>n. [ident n]) (\<lambda>_. True) n"
  using bind_name [of retS n] by (simp add: item_reads_def)

lemma names_read: "ns \<noteq> [] \<Longrightarrow> bindS (in_parens expect_name) g (pu ''('' # show_names ns @ pu '')'' # rest) = g ns rest"
  unfolding show_names_def by (rule parens_read [OF name_reads]) simp_all

lemma excluded_keyword: "tok_type (word ''EXCLUDED'') = KEYWORD"
  by (simp add: word_def word_token_def upper_capital KEYWORDS_def)

lemma set_reads: "set_ok excluded c \<Longrightarrow> item_reads (set_clause lib excluded) show_set (stops 4) c"
proof -
  assume ok: "set_ok excluded c"
  obtain n e where c: "c = (n, e)" by fastforce
  show ?thesis
  proof (cases "\<exists>m. e = ExcludedRef m")
    case True
    then show ?thesis using ok
      by (auto simp: c item_reads_def set_clause_def show_set_def set_ok_def parse_set_rhs_def steps bindS_assoc word_keyword upper_punct excluded_keyword)
  next
    case False
    then have e: "operand_ok 4 e" "show_set c = ident n # Token OP (pystr_of ''='') # show_expr 4 e"
      using ok by (cases e; simp add: c set_ok_def show_set_def)+
    then obtain t ts where "show_expr 4 e = t # ts" "\<not> (tok_type t = KEYWORD \<and> is_keyword [''EXCLUDED''] t)"
      using show_first [of e 4] by (auto simp: operand_ok_def)
    then show ?thesis using e primary_reads [OF e(1), of lib]
      by (auto simp: c item_reads_def set_clause_def parse_set_rhs_def steps bindS_Inr)
  qed
qed

section \<open>UPDATE, DELETE, INSERT\<close>

lemma where_follows: "follow 1 rest \<Longrightarrow> follow 0 (show_where w @ rest)"
  by (cases w) (auto simp: show_where_def follow_def)

lemma sets_read:
  assumes "list_all (set_ok excluded) cs" "cs \<noteq> []" "follow k rest"
  shows "bindS (parse_set_clauses lib excluded) g (commas (map show_set cs) @ rest) = g cs rest"
  unfolding parse_set_clauses_def
proof (rule list_reads [where good = "stops 4"])
  show "item_reads (set_clause lib excluded) show_set (stops 4) c" if "c \<in> set cs" for c
    using assms(1) that by (intro set_reads) (auto simp: list_all_iff)
qed (use assms(2,3) follow_stops [OF assms(3)] follow_plain(1) [OF assms(3)] in \<open>simp_all add: absorbs_pu\<close>)

lemma end_follow: "follow k (the_end # r)" if "k \<le> 4"
proof -
  have "k = 0 \<or> k = 1 \<or> k = 2 \<or> k = 3 \<or> k = 4" using that by linarith
  then show ?thesis by (auto simp: follow_def eval_nat_numeral)
qed

lemma update_reads:
  assumes "update_ok u"
  shows "parse_update lib (show_update u @ [the_end]) = (Inr u, [the_end])"
  using assms by (simp add: parse_update_def show_update_def update_ok_def steps sets_read [where k = 0] where_reads end_follow where_follows)

lemma delete_reads:
  assumes "name_ok (d_table d)" "where_ok (d_where d)"
  shows "parse_delete lib (show_delete d @ [the_end]) = (Inr d, [the_end])"
  using assms by (simp add: parse_delete_def show_delete_def steps where_reads end_follow)

lemma conflict_reads:
  assumes "insert_ok i"
  shows "bindS (parse_on_conflict lib) g (show_conflict i @ [the_end]) =
    g (i_conflict_keys i, i_conflict_action i, i_set_clauses i) [the_end]"
proof (cases "i_conflict_action i")
  case None
  then show ?thesis using assms by (simp add: show_conflict_def parse_on_conflict_def steps insert_ok_def)
next
  case (Some a)
  then show ?thesis using assms
    by (cases a) (simp_all add: show_conflict_def parse_on_conflict_def steps insert_ok_def word_keyword names_read bindS_assoc
      sets_read [where k = 0] end_follow)
qed

lemma or_clause_reads:
  "\<not> (a \<and> b) \<Longrightarrow> bindS parse_or_clause g
     ((if a then [word ''OR'', word ''IGNORE''] else if b then [word ''OR'', word ''REPLACE''] else []) @ word ''INTO'' # ts) = g (a, b) (word ''INTO'' # ts)"
  by (auto simp: parse_or_clause_def steps word_keyword bindS_assoc)

lemma insert_reads:
  assumes "insert_ok i"
  shows "parse_insert lib (show_insert i @ [the_end]) = (Inr i, [the_end])"
proof -
  have vals: "bindS (in_parens (primary lib)) g (pu ''('' # commas (map (show_expr 4) (i_values i)) @ pu '')'' # ts) = g (i_values i) ts" for ts and g :: "_ \<Rightarrow> insert_stmt parser"
    using assms by (intro parens_read [OF primary_reads]) (auto simp: insert_ok_def absorbs_pu list_all_iff)
  show ?thesis
    using assms by (simp add: parse_insert_def show_insert_def steps or_clause_reads names_read vals conflict_reads insert_ok_def)
qed

section \<open>The clauses of a SELECT\<close>

lemma number_steps [simp]: "tok_type (number i) = INTEGER" "\<not> is_keyword vs (number i)" "\<not> is_punct p (number i)"
  by (simp_all add: number_def is_keyword_def)

lemma number_read: "number_ok i \<Longrightarrow> int_of (tok_value (number i)) = Inr i"
  using py_int_digits [of "nat i"] by (simp add: number_ok_def number_def int_of_def)

lemma count_star_reads: "bindS count_star g (pu ''('' # pu ''*'' # pu '')'' # ts) = g () ts"
  by (simp add: count_star_def steps bindS_assoc upper_punct)

lemma column_in_parens_reads: "bindS column_in_parens g (pu ''('' # ident c # pu '')'' # ts) = g c ts"
  by (simp add: column_in_parens_def steps bindS_assoc upper_punct)

definition having_of :: "select_stmt \<Rightarrow> (pystr \<times> int) option" where
  "having_of s = (case (s_having_op s, s_having_value s) of (Some op, Some v) \<Rightarrow> Some (op, v) | _ \<Rightarrow> None)"

lemma having_reads:
  assumes "op \<in> pystr_of ` {''>='', ''>'', ''<='', ''<'', ''='', ''!=''}" "number_ok v"
  shows "bindS parse_having g (word ''COUNT'' # pu ''('' # pu ''*'' # pu '')'' # Token OP op # number v # ts) = g (op, v) ts"
proof -
  have "op \<noteq> pystr_of ''<>''" "op \<in> pystr_of ` {''>='', ''>'', ''<='', ''<'', ''='', ''!='', ''<>''}" using assms(1) by auto
  then show ?thesis using number_read [OF assms(2)]
    by (simp add: parse_having_def steps bindS_assoc count_star_reads del: insert_iff image_insert)
qed

lemma group_by_reads:
  assumes "group_by_ok s" "follow 2 rest"
  shows "bindS parse_group_by g (show_group_by s @ rest) = g (s_group_by_col s, having_of s) rest"
proof (cases "s_group_by_col s")
  case None
  then show ?thesis using assms follow_own(2) [OF assms(2)] follow_plain(2) [OF assms(2), of "[''HAVING'']"]
    by (simp add: show_group_by_def parse_group_by_def steps group_by_ok_def having_of_def)
next
  case (Some c)
  show ?thesis
  proof (cases "s_having_op s")
    case None
    then show ?thesis using Some assms follow_plain(2) [OF assms(2), of "[''HAVING'']"]
      by (cases "s_having_value s") (simp_all add: show_group_by_def parse_group_by_def steps bindS_assoc group_by_ok_def having_of_def word_keyword)
  next
    case (Some op)
    then obtain v where v: "s_having_value s = Some v" and h: "op \<in> pystr_of ` {''>='', ''>'', ''<='', ''<'', ''='', ''!=''}" "number_ok v"
      using assms(1) \<open>s_group_by_col s = Some c\<close> by (cases "s_having_value s") (auto simp: group_by_ok_def)
    show ?thesis using v Some \<open>s_group_by_col s = Some c\<close>
      by (simp add: show_group_by_def parse_group_by_def steps bindS_assoc having_of_def word_keyword having_reads [OF h])
  qed
qed

lemma key_reads:
  assumes "name_ok (fst k)" "stops 4 rest" "\<not> at_keyword [''DESC'', ''ASC''] rest"
  shows "bindS order_key_parser g (show_key k @ rest) = g k rest"
proof -
  obtain c desc dt where k: "k = (c, desc, dt)" by (cases k) auto
  obtain t ts where r: "rest = t # ts" "\<not> is_punct ''('' t" using assms(2) by (auto simp: stops_def absorbs_def)
  have "\<not> is_keyword [''DESC''] t" "\<not> is_keyword [''ASC''] t" using assms(3) r by (auto simp: steps is_keyword_def)
  then show ?thesis using r
    by (auto simp: k show_key_def order_key_parser_def parse_order_by_key_def parse_direction_def steps bindS_assoc word_keyword
        column_in_parens_reads)
qed

lemma order_by_reads:
  assumes "order_by_ok s" "follow 3 rest"
  shows "bindS parse_order_by g (show_order_by s @ rest) = g (s_order_by s, s_order_by2 s) rest"
proof -
  have rest: "stops 4 rest" "\<not> at_keyword [''DESC'', ''ASC''] rest" "\<not> at_punct '','' rest" "\<not> at_keyword [''ORDER''] rest"
    using follow_stops [OF assms(2)] follow_plain [OF assms(2)] follow_own(3) [OF assms(2)] by auto
  show ?thesis
  proof (cases "s_order_by s")
    case None
    then show ?thesis using assms(1) rest by (simp add: show_order_by_def parse_order_by_def steps order_by_ok_def)
  next
    case (Some k)
    then show ?thesis using assms(1) rest
      by (cases "s_order_by2 s") (simp_all add: show_order_by_def parse_order_by_def steps bindS_assoc order_by_ok_def word_keyword
          key_reads absorbs_pu)
  qed
qed

lemma count_reads:
  "count_ok i param \<Longrightarrow> i \<noteq> None \<or> param \<Longrightarrow> bindS parse_count g (show_count i # ts) = g (i, param) ts"
  by (cases i) (auto simp: parse_count_def show_count_def count_ok_def steps bindS_assoc number_read)

lemma limit_reads:
  assumes "limit_ok s"
  shows "bindS parse_limit g (show_limit s @ [the_end]) = g ((s_limit s, s_limit_is_param s), (s_offset s, s_offset_is_param s)) [the_end]"
  using assms by (auto simp: limit_ok_def show_limit_def parse_limit_def steps bindS_assoc word_keyword count_reads)

lemma follow_words: "follow 1 (word ''GROUP'' # r)" "follow 2 (word ''ORDER'' # r)" "follow 3 (word ''LIMIT'' # r)"
  by (simp_all add: follow_def eval_nat_numeral)

lemma clauses_follow:
  "follow 4 r \<Longrightarrow> follow 3 (show_limit s @ r)" "follow 3 r \<Longrightarrow> follow 2 (show_order_by s @ r)" "follow 2 r \<Longrightarrow> follow 1 (show_group_by s @ r)"
  using follow_mono [of 4 r 3] follow_mono [of 3 r 2] follow_mono [of 2 r 1]
  by (simp_all add: show_limit_def show_order_by_def show_group_by_def follow_words follow_words(1) [unfolded One_nat_def] split: option.split)

section \<open>The select list\<close>

definition item_ok :: "item_node \<times> pystr option \<Rightarrow> bool" where
  "item_ok item \<longleftrightarrow>
     (case item of
        (NameNode n, a) \<Rightarrow> (if n = COUNT_STAR_MARKER then a \<noteq> None else name_ok n)
      | (ExprNode e, a) \<Rightarrow> a \<noteq> None \<and> operand_ok 4 e \<and>
          (case e of Literal v \<Rightarrow> True | NamedParam n \<Rightarrow> True | Coalesce es \<Rightarrow> True | _ \<Rightarrow> False))"

definition after_item :: "token list \<Rightarrow> bool" where
  "after_item ts \<longleftrightarrow> (\<exists>t r. ts = t # r \<and> (t = pu '','' \<or> t = word ''FROM''))"

lemma alias_reads:
  assumes "after_item rest"
  shows "bindS parse_optional_alias g (show_alias a @ rest) = g a rest"
proof (cases a)
  case None
  then show ?thesis using assms
    by (auto simp: after_item_def show_alias_def parse_optional_alias_def steps bindS_assoc word_keyword)
next
  case (Some n)
  then show ?thesis by (simp add: show_alias_def parse_optional_alias_def steps bindS_assoc word_keyword)
qed

lemma alias_stops: "after_item rest \<Longrightarrow> stops 4 (show_alias a @ rest)"
  by (cases a) (auto simp: show_alias_def after_item_def absorbs_pu absorbs_word)

lemma show_literal_starts: "literal_ok v \<Longrightarrow> starts_literal (show_literal v # ts)"
  by (cases v) (auto simp: starts_literal_def show_literal_def word_def word_token_def upper_capital KEYWORDS_def)

lemma literal_keyword: "literal_ok v \<Longrightarrow> ''NULL'' \<notin> set ws \<Longrightarrow> \<not> is_keyword ws (show_literal v)"
  using literal_of_shown(3) [of v ws] word_keyword [of "''NULL''" ws] by auto

lemma coalesce_reads:
  assumes "operand_ok 4 (Coalesce es)"
  shows "bindS (in_state (\<lambda>fuel. coalesce_args fuel (primary lib))) g (pu ''('' # commas (map (show_expr 4) es) @ pu '')'' # rest) = g (Coalesce es) rest"
proof -
  have es: "length es = 2" "list_all (operand_ok 4) es"
    using assms fold_max(1) [of _ "map (nest 4) es" 0] by (auto simp: operand_ok_def list_all_iff intro: order_trans)
  then have "es \<noteq> []" by auto
  have "bindS (comma_list n (primary lib)) h (commas (map (show_expr 4) es) @ pu '')'' # rest) = h es (pu '')'' # rest)"
    if "length es \<le> n" for n and h :: "expr list \<Rightarrow> expr parser"
    using es \<open>es \<noteq> []\<close> that by (intro comma_list_reads [OF primary_reads]) (auto simp: list_all_iff absorbs_pu steps)
  then show ?thesis using es commas_length(2) [of es "show_expr 4"]
    by (intro bindS_Inr) (simp add: in_state_def coalesce_args_def steps upper_punct)
qed

lemma item_shown: "item_ok item \<Longrightarrow> item_reads (parse_select_item lib) show_item after_item item"
  unfolding item_reads_def
proof (intro allI impI)
  fix rest
  assume ok: "item_ok item" and rest: "after_item rest"
  obtain node a where item: "item = (node, a)" by fastforce
  show "parse_select_item lib (show_item item @ rest) = (Inr item, rest)"
  proof (cases node)
    case (NameNode n)
    obtain t ts where t: "show_alias a @ rest = t # ts" "\<not> is_punct ''('' t"
      using alias_stops [OF rest, of a] by (auto simp: stops_def absorbs_def)
    then have "starts_literal (ident n # t # ts) = False" "bindS parse_optional_alias g (t # ts) = g a rest" for g :: "pystr option \<Rightarrow> (item_node \<times> pystr option) parser"
      using alias_reads [OF rest, of g a] by (auto simp: starts_literal_def)
    then show ?thesis using t
      by (simp add: item NameNode show_item_def parse_select_item_def steps word_keyword count_star_reads with_alias_def alias_reads [OF rest])
  next
    case (ExprNode e)
    then have e: "operand_ok 4 e" "expr_ok e" using ok item by (auto simp: item_ok_def operand_ok_def)
    consider v where "e = Literal v" | n where "e = NamedParam n" | es where "e = Coalesce es"
      using ok item ExprNode by (cases e) (auto simp: item_ok_def)
    then show ?thesis
    proof cases
      case 1
      have "primary lib (show_literal v # show_alias a @ rest) = (Inr e, show_alias a @ rest)"
        using primary_reads [OF e(1), of lib] alias_stops [OF rest] by (simp add: item_reads_def 1)
      moreover have "show_alias a @ rest \<noteq> []" using rest by (auto simp: after_item_def)
      ultimately show ?thesis using e(2) 1 show_literal_starts [of v] literal_keyword [of v "[''COUNT'']"] literal_keyword [of v "[''COALESCE'']"]
        by (simp add: item ExprNode show_item_def parse_select_item_def steps with_alias_def alias_reads [OF rest] bindS_Inr)
    next
      case 2
      have "primary lib (Token NAMED_PARAM (58 # n) # show_alias a @ rest) = (Inr e, show_alias a @ rest)"
        using primary_reads [OF e(1), of lib] alias_stops [OF rest] by (simp add: item_reads_def 2)
      then show ?thesis using 2
        by (simp add: item ExprNode show_item_def parse_select_item_def steps with_alias_def alias_reads [OF rest] bindS_Inr starts_literal_def)
    next
      case 3
      then show ?thesis using coalesce_reads [of es lib] e(1)
        by (simp add: item ExprNode show_item_def parse_select_item_def steps word_keyword with_alias_def alias_reads [OF rest] coalesce_reads)
    qed
  qed
qed

lemma item_first:
  assumes "item_ok item"
  shows "\<exists>t ts. show_item item = t # ts \<and> \<not> is_keyword [''DISTINCT'', ''SUM'', ''MIN'', ''MAX''] t \<and> \<not> is_punct ''*'' t \<and>
    (is_keyword [''COUNT''] t \<longrightarrow> fst item = NameNode COUNT_STAR_MARKER \<or> (\<exists>n. fst item = NameNode n \<and> ts = show_alias (snd item)))"
proof (cases "fst item")
  case (NameNode n)
  show ?thesis
  proof (cases "n = COUNT_STAR_MARKER")
    case True
    then show ?thesis using NameNode by (simp add: show_item_def word_keyword)
  next
    case False
    then have "name_ok n" using assms NameNode by (cases item) (simp add: item_ok_def)
    then show ?thesis using NameNode False by (auto simp: show_item_def name_ok_def reserved_def is_keyword_def)
  qed
next
  case (ExprNode e)
  then have "operand_ok 4 e" "(\<exists>v. e = Literal v) \<or> (\<exists>n. e = NamedParam n) \<or> (\<exists>es. e = Coalesce es)"
    using assms by (cases item; cases e; simp add: item_ok_def)+
  then show ?thesis using ExprNode literal_of_shown(2) literal_keyword [where ws = "[''DISTINCT'', ''SUM'', ''MIN'', ''MAX'']"]
      literal_keyword [where ws = "[''COUNT'']"]
    by (auto simp: show_item_def operand_ok_def word_keyword)
qed

lemma not_sole:
  assumes "\<forall>x \<in> set items. item_ok x" "items = item # its" "fst item = NameNode COUNT_STAR_MARKER \<longrightarrow> its \<noteq> []"
    and "show_item item = t # ts" "is_keyword [''COUNT''] t"
  shows "\<not> count_star_is_sole_select (commas (map show_item items) @ word ''FROM'' # rest)"
proof -
  let ?rest = "concat (map (\<lambda>x. pu '','' # show_item x) its) @ word ''FROM'' # rest"
  have items: "commas (map show_item items) @ word ''FROM'' # rest = show_item item @ ?rest" using assms(2) by (simp add: o_def)
  show ?thesis
  proof (cases "fst item = NameNode COUNT_STAR_MARKER")
    case True
    then obtain a where a: "snd item = Some a" using assms(1,2) by (cases item) (auto simp: item_ok_def)
    obtain x xs where "its = x # xs" using assms(3) True by (cases its) auto
    then show ?thesis unfolding items using True a
      by (simp add: count_star_is_sole_select_def show_item_def show_alias_def Let_def upper_capital)
  next
    case False
    then have "ts = show_alias (snd item)" using item_first [of item] assms by auto
    then have "show_item item @ ?rest = t # show_alias (snd item) @ ?rest" using assms(4) by simp
    moreover have "\<exists>u us. show_alias (snd item) @ ?rest = u # us \<and> \<not> is_punct ''('' u"
      by (cases "snd item"; cases its) (auto simp: show_alias_def)
    ultimately show ?thesis unfolding items by (auto simp: count_star_is_sole_select_def)
  qed
qed

lemma items_read:
  assumes "\<forall>x \<in> set items. item_ok x" "items = item # its" "fst item = NameNode COUNT_STAR_MARKER \<longrightarrow> its \<noteq> []"
    and "sort_items lib items = Inr sl"
  shows "bindS (parse_select_list lib) g (commas (map show_item items) @ word ''FROM'' # rest) = g sl (word ''FROM'' # rest)"
proof -
  let ?ts = "commas (map show_item items) @ word ''FROM'' # rest"
  obtain t ts where t: "show_item item = t # ts" "\<not> is_keyword [''DISTINCT'', ''SUM'', ''MIN'', ''MAX''] t" "\<not> is_punct ''*'' t"
    using item_first [of item] assms(1,2) by auto
  then have head: "at_keyword vs ?ts = is_keyword vs t" "at_punct v ?ts = is_punct v t" for vs v
    using assms(2) by (simp_all add: steps)
  have "\<not> (is_keyword [''COUNT''] t \<and> count_star_is_sole_select ?ts)"
    using not_sole [OF assms(1-3) t(1), of rest] by blast
  moreover have "\<not> is_keyword [''SUM''] t" "\<not> is_keyword [''MIN'', ''MAX''] t" using t(2) by (auto simp: is_keyword_def)
  moreover have "bindS (in_state (\<lambda>fuel. comma_list fuel (parse_select_item lib))) h ?ts = h items (word ''FROM'' # rest)" for h :: "_ \<Rightarrow> select_list parser"
    using assms(1,2) by (intro list_reads [OF item_shown]) (auto simp: after_item_def steps)
  ultimately show ?thesis using t(3) assms(4)
    by (intro bindS_Inr) (auto simp: parse_select_list_def ifS_run head)
qed

lemma group_items_run:
  "list_all group_item_ok gs \<Longrightarrow>
   group_items (map group_entry gs) sl =
     Inr (sl\<lparr>sl_group_select := sl_group_select sl @ gs,
             sl_group_count_alias := fold (\<lambda>g a. case g of GroupCount n \<Rightarrow> Some n | GroupCol out src \<Rightarrow> a) gs (sl_group_count_alias sl)\<rparr>)"
proof (induction gs arbitrary: sl)
  case (Cons g gs)
  then show ?case
    by (cases g) (auto simp: group_entry_def group_item_ok_def column_ok_def name_ok_def alias_or_def Let_def)
qed simp

lemma last_count_mem: "last_count gs \<noteq> None \<Longrightarrow> \<exists>a. GroupCount a \<in> set gs"
proof -
  have "fold (\<lambda>g a. case g of GroupCount n \<Rightarrow> Some n | GroupCol out src \<Rightarrow> a) gs b \<noteq> b \<Longrightarrow> \<exists>a. GroupCount a \<in> set gs" for b
    by (induction gs arbitrary: b) (auto split: group_item.splits)
  then show "last_count gs \<noteq> None \<Longrightarrow> \<exists>a. GroupCount a \<in> set gs" by (auto simp: last_count_def)
qed

definition list_of :: "select_stmt \<Rightarrow> select_list" where
  "list_of s = \<lparr>sl_columns = s_columns s, sl_aggregate = s_aggregate s, sl_aggregate_column = s_aggregate_column s,
     sl_count_alias = s_count_alias s, sl_exprs = s_select_exprs s, sl_group_select = s_group_select s,
     sl_group_count_alias = s_group_count_alias s\<rparr>"

lemma mapR_entries: "(\<And>x. x \<in> set xs \<Longrightarrow> p (f x) = Inr x) \<Longrightarrow> mapR p (map f xs) = Inr xs"
  by (induction xs) auto

lemma item_list_sorted:
  assumes "select_list_ok s" "s_aggregate s = None"
  shows "sort_items lib (item_list s) = Inr (list_of s)" and "\<forall>x \<in> set (item_list s). item_ok x"
    and "\<exists>item its. item_list s = item # its \<and> (fst item = NameNode COUNT_STAR_MARKER \<longrightarrow> its \<noteq> [])"
proof -
  consider (group) "s_group_select s \<noteq> []" | (exprs) "s_group_select s = []" "s_select_exprs s \<noteq> []"
    | (columns) "s_group_select s = []" "s_select_exprs s = []" by blast
  then have "sort_items lib (item_list s) = Inr (list_of s) \<and> (\<forall>x \<in> set (item_list s). item_ok x) \<and>
    (\<exists>item its. item_list s = item # its \<and> (fst item = NameNode COUNT_STAR_MARKER \<longrightarrow> its \<noteq> []))"
  proof cases
    case group
    let ?gs = "s_group_select s"
    have ok: "list_all group_item_ok ?gs" "1 < length ?gs" "last_count ?gs \<noteq> None"
      using assms group by (simp_all add: select_list_ok_def)
    obtain a where "GroupCount a \<in> set ?gs" using last_count_mem [OF ok(3)] by blast
    then have "\<exists>(node, alias) \<in> set (map group_entry ?gs). node = NameNode COUNT_STAR_MARKER"
      by (force simp: group_entry_def)
    then have "sort_items lib (item_list s) = Inr (list_of s)"
      using assms group by (simp add: sort_items_def item_list_def group_items_run [OF ok(1)] list_of_def no_list_def select_list_ok_def last_count_def)
    moreover have "item_ok (group_entry x)" if "group_item_ok x" for x
      using that by (cases x) (auto simp: group_entry_def group_item_ok_def item_ok_def column_ok_def)
    moreover have "\<exists>g h gs. ?gs = g # h # gs" using ok(2) by (cases ?gs; cases "tl ?gs") auto
    ultimately show ?thesis using group ok(1) by (auto simp: item_list_def list_all_iff)
  next
    case exprs
    let ?xs = "s_select_exprs s"
    have ok: "list_all expr_item_ok ?xs" using assms exprs by (simp add: select_list_ok_def)
    have entry: "fst (expr_entry x) \<noteq> NameNode COUNT_STAR_MARKER \<and> snd (expr_entry x) = Some (snd x) \<and> item_ok (expr_entry x) \<and> expr_item lib (expr_entry x) = Inr x"
      if "expr_item_ok x" for x
      using that by (cases x; cases "fst x")
        (auto simp: expr_entry_def expr_item_ok_def column_ok_def item_ok_def expr_item_def alias_or_def name_ok_def operand_ok_def MAX_NESTING_DEPTH_def)
    have all: "\<forall>x \<in> set ?xs. expr_item_ok x" using ok by (simp add: list_all_iff)
    have "plain_names (map expr_entry ?xs) = None"
      using exprs all entry by (cases ?xs) (auto simp: plain_names_def case_prod_unfold)
    moreover have "mapR (expr_item lib) (map expr_entry ?xs) = Inr ?xs"
      using all entry by (intro mapR_entries) auto
    moreover have "\<not> (\<exists>(node, alias) \<in> set (map expr_entry ?xs). node = NameNode COUNT_STAR_MARKER)"
      using all entry by (auto simp: case_prod_unfold)
    ultimately have "sort_items lib (item_list s) = Inr (list_of s)"
      using assms exprs by (simp add: sort_items_def item_list_def list_of_def no_list_def select_list_ok_def last_count_def)
    then show ?thesis using exprs all entry by (cases ?xs) (auto simp: item_list_def)
  next
    case columns
    let ?ns = "s_columns s" and ?items = "map (\<lambda>n. (NameNode n, None :: pystr option)) (s_columns s)"
    have ok: "?ns \<noteq> []" "\<forall>n \<in> set ?ns. column_ok n" using assms columns by (auto simp: select_list_ok_def list_all_iff)
    have "plain_names ?items = Some ?ns" by (simp add: plain_names_def list_all_iff o_def)
    moreover have "\<not> (\<exists>(node, alias) \<in> set ?items. node = NameNode COUNT_STAR_MARKER)" using ok by (auto simp: column_ok_def)
    ultimately have "sort_items lib (item_list s) = Inr (list_of s)"
      using assms columns by (simp add: sort_items_def item_list_def list_of_def no_list_def select_list_ok_def last_count_def)
    then show ?thesis using columns ok by (cases ?ns) (auto simp: item_list_def item_ok_def column_ok_def)
  qed
  then show "sort_items lib (item_list s) = Inr (list_of s)" "\<forall>x \<in> set (item_list s). item_ok x"
    "\<exists>item its. item_list s = item # its \<and> (fst item = NameNode COUNT_STAR_MARKER \<longrightarrow> its \<noteq> [])" by blast+
qed

section \<open>Statements\<close>

lemma agg_reads:
  assumes "select_list_ok s" "s_aggregate s = Some a"
  shows "bindS (parse_select_list lib) g (show_select_list s @ word ''FROM'' # rest) = g (list_of s) (word ''FROM'' # rest)"
proof (cases "a = CountAgg")
  case True
  have "count_star_is_sole_select (word ''COUNT'' # pu ''('' # pu ''*'' # pu '')'' # show_alias (s_count_alias s) @ word ''FROM'' # rest)"
    by (cases "s_count_alias s") (auto simp: count_star_is_sole_select_def show_alias_def Let_def upper_capital)
  then show ?thesis using assms True alias_reads [of "word ''FROM'' # rest"]
    by (intro bindS_Inr) (simp add: show_select_list_def parse_select_list_def steps word_keyword count_star_reads list_of_def no_list_def
        select_list_ok_def alias_reads after_item_def)
next
  case False
  then obtain c where "s_aggregate_column s = Some c" using assms by (auto simp: select_list_ok_def)
  then show ?thesis using assms False
    by (intro bindS_Inr, cases a) (simp_all add: show_select_list_def parse_select_list_def steps word_keyword agg_word_def
        column_in_parens_reads list_of_def no_list_def select_list_ok_def upper_capital)
qed

lemma select_list_reads:
  assumes "select_list_ok s"
  shows "bindS (parse_select_list lib) g (show_select_list s @ word ''FROM'' # rest) = g (list_of s) (word ''FROM'' # rest)"
    and "\<exists>t ts. show_select_list s = t # ts \<and> \<not> is_keyword [''DISTINCT''] t"
proof -
  have "bindS (parse_select_list lib) g (show_select_list s @ word ''FROM'' # rest) = g (list_of s) (word ''FROM'' # rest) \<and>
    (\<exists>t ts. show_select_list s = t # ts \<and> \<not> is_keyword [''DISTINCT''] t)"
  proof (cases "s_aggregate s")
    case (Some a)
    then show ?thesis using agg_reads [OF assms Some] by (cases a) (auto simp: show_select_list_def word_keyword agg_word_def)
  next
    case None
    show ?thesis
    proof (cases "s_columns s = [pystr_of ''*'']")
      case True
      then have "s_group_select s = [] \<and> s_select_exprs s = []" using assms None by (auto simp: select_list_ok_def split: if_splits)
      then show ?thesis using True None assms
        by (simp add: show_select_list_def parse_select_list_def steps bindS_assoc list_of_def no_list_def select_list_ok_def last_count_def)
    next
      case False
      obtain item its where items: "item_list s = item # its" "fst item = NameNode COUNT_STAR_MARKER \<longrightarrow> its \<noteq> []"
        using item_list_sorted(3) [OF assms None] by blast
      have "item_ok item" using item_list_sorted(2) [OF assms None] items by simp
      then obtain t ts where "show_item item = t # ts" "\<not> is_keyword [''DISTINCT''] t"
        using item_first [of item] by (auto simp: is_keyword_def)
      then show ?thesis using items_read [OF item_list_sorted(2) [OF assms None] items item_list_sorted(1) [OF assms None]] None False items
        by (simp add: show_select_list_def)
    qed
  qed
  then show "bindS (parse_select_list lib) g (show_select_list s @ word ''FROM'' # rest) = g (list_of s) (word ''FROM'' # rest)"
    "\<exists>t ts. show_select_list s = t # ts \<and> \<not> is_keyword [''DISTINCT''] t" by blast+
qed

lemma select_record:
  assumes "group_by_ok s"
  shows "\<lparr>s_table = s_table s, s_columns = sl_columns (list_of s), s_where = s_where s, s_limit = s_limit s,
      s_limit_is_param = s_limit_is_param s, s_offset = s_offset s, s_offset_is_param = s_offset_is_param s,
      s_aggregate = sl_aggregate (list_of s), s_aggregate_column = sl_aggregate_column (list_of s), s_count_alias = sl_count_alias (list_of s),
      s_order_by = s_order_by s, s_order_by2 = s_order_by2 s, s_select_exprs = sl_exprs (list_of s), s_group_by_col = s_group_by_col s,
      s_group_count_alias = sl_group_count_alias (list_of s), s_group_select = sl_group_select (list_of s),
      s_having_op = map_option fst (having_of s), s_having_value = map_option snd (having_of s)\<rparr> = s"
proof -
  have "map_option fst (having_of s) = s_having_op s" "map_option snd (having_of s) = s_having_value s"
    using assms by (auto simp: having_of_def group_by_ok_def split: option.splits)
  then show ?thesis by (simp add: list_of_def)
qed

lemma select_reads:
  assumes "select_ok s"
  shows "parse_select lib (show_select s @ [the_end]) = (Inr s, [the_end])"
proof -
  let ?limit = "show_limit s @ [the_end]"
  let ?order = "show_order_by s @ ?limit" let ?group = "show_group_by s @ ?order"
  have f1: "follow 3 ?limit" by (rule clauses_follow(1) [OF end_follow]) simp
  note f2 = clauses_follow(2) [OF f1, of s] note f3 = clauses_follow(3) [OF f2, of s]
  have ok: "select_list_ok s" "where_ok (s_where s)" "group_by_ok s" "order_by_ok s" "limit_ok s" using assms by (simp_all add: select_ok_def)
  have join: "\<not> at_keyword JOIN_KEYWORDS (show_where (s_where s) @ ?group)"
    by (rule follow_plain(2) [OF where_follows [OF f3]]) (simp add: JOIN_KEYWORDS_def)
  have distinct: "\<not> at_keyword [''DISTINCT''] (show_select_list s @ r)" for r using select_list_reads(2) [OF ok(1)] by (auto simp: steps)
  show ?thesis
    by (simp add: parse_select_def show_select_def bind_expect_word ifS_run bind_ifS distinct select_list_reads(1) [OF ok(1)] bind_name join
        where_reads [OF ok(2) f3] group_by_reads [OF ok(3) f2] order_by_reads [OF ok(4) f1] limit_reads [OF ok(5)] select_record [OF ok(3)]
        del: One_nat_def)
qed

lemma stmt_first:
  assumes "stmt_ok st"
  shows "\<exists>w ts. show_stmt st = word w # ts \<and> w \<in> {''SELECT'', ''INSERT'', ''UPDATE'', ''DELETE''} \<and>
    (\<forall>lib. parse_body lib (pystr_of w) (show_stmt st @ [the_end]) = (Inr st, [the_end]))"
proof (cases st)
  case (SelectS s)
  then show ?thesis using assms select_reads [of s]
    by (intro exI [of _ "''SELECT''"]) (simp add: show_select_def parse_body_def bindS_Inr)
next
  case (InsertS i)
  then show ?thesis using assms insert_reads [of i]
    by (intro exI [of _ "''INSERT''"]) (simp add: show_insert_def parse_body_def bindS_Inr)
next
  case (UpdateS u)
  then show ?thesis using assms update_reads [of u]
    by (intro exI [of _ "''UPDATE''"]) (simp add: show_update_def parse_body_def bindS_Inr)
next
  case (DeleteS d)
  then show ?thesis using assms delete_reads [of d]
    by (intro exI [of _ "''DELETE''"]) (simp add: show_delete_def parse_body_def bindS_Inr)
qed (use assms in simp)

lemma parse_shown:
  assumes "stmt_ok st"
  shows "parse lib (show_stmt st @ [the_end]) = (Inr st, [the_end])"
proof -
  obtain w ts where w: "show_stmt st = word w # ts" "w \<in> {''SELECT'', ''INSERT'', ''UPDATE'', ''DELETE''}"
    "parse_body lib (pystr_of w) (show_stmt st @ [the_end]) = (Inr st, [the_end])" using stmt_first [OF assms] by blast
  then have "capital w" "w \<noteq> ''WITH''" "w \<noteq> ''EXPLAIN''" by auto
  then show ?thesis using w by (simp add: parse_def steps upper_capital Let_def bindS_Inr at_eof_def)
qed

section \<open>The text of the tokens\<close>

lemma capital_shape: "capital w \<Longrightarrow> word_shaped (pystr_of w) \<and> 93 \<notin> set (pystr_of w)"
  by (cases w) (auto simp: capital_def pystr_of_def word_shaped_def is_alpha_def is_word_def list_all_iff)

lemma token_ok_word: "capital w \<Longrightarrow> token_ok (word w)"
  using capital_shape [of w] by (auto simp: word_def word_token_def upper_capital word_shaped_def)

lemma token_ok_pu: "w \<in> {''('', '')'', '','', '';'', ''.'', ''*''} \<Longrightarrow> token_ok (pu w)"
  by (auto simp: pu_def)

lemma token_ok_name: "name_ok n \<Longrightarrow> token_ok (ident n)"
  by (simp add: name_ok_def)

lemma token_ok_number: "token_ok (number i)"
  using nat_digits_digits by (simp add: number_def)

lemma token_ok_literal: "literal_ok v \<Longrightarrow> token_ok (show_literal v)"
  using nat_digits_digits show_hex_hex
  by (cases v) (auto simp: show_literal_def token_ok_word)

lemma token_ok_op: "op \<in> set (map pystr_of comparisons) \<Longrightarrow> token_ok (Token OP op)"
  by (auto simp: comparisons_def)

lemma token_ok_named: "word_shaped n \<Longrightarrow> token_ok (Token NAMED_PARAM (58 # n))"
  by simp

lemma token_ok_mark: "token_ok (Token PLACEHOLDER (pystr_of ''?''))"
  by simp

declare token_ok.simps [simp del]

lemma token_ok_equals: "token_ok (Token OP (pystr_of ''=''))"
  by (rule token_ok_op) (simp add: comparisons_def)

lemmas token_oks = token_ok_word token_ok_pu token_ok_name token_ok_number token_ok_literal token_ok_named token_ok_mark token_ok_equals

lemma commas_ok: "(\<And>x. x \<in> set xs \<Longrightarrow> list_all token_ok (f x)) \<Longrightarrow> list_all token_ok (commas (map f xs))"
proof (cases xs)
  case (Cons y ys)
  assume all: "\<And>x. x \<in> set xs \<Longrightarrow> list_all token_ok (f x)"
  then have "list_all token_ok (concat (map ((#) (pu '','')) (map f ys)))"
    using Cons by (induction ys arbitrary: xs) (auto simp: token_ok_pu)
  then show ?thesis using all Cons by simp
qed simp

lemma bracket_ok: "list_all token_ok ts \<Longrightarrow> list_all token_ok (bracket b ts)"
  by (simp add: bracket_def token_ok_pu)

lemma op_tokens_ok: "expr_ok (BinOp op l r) \<Longrightarrow> list_all token_ok (op_tokens op)"
  using token_ok_op [of op] by (auto simp: op_tokens_def word_def [symmetric] token_ok_word)

lemma show_expr_ok: "expr_ok e \<Longrightarrow> list_all token_ok (show_expr lvl e)"
proof (induction e arbitrary: lvl)
  case (BinOp op l r)
  then show ?case using op_tokens_ok [OF BinOp.prems] by (auto split: prod.split intro!: bracket_ok)
next
  case (InList e es)
  then have "list_all token_ok (commas (map (show_expr 4) es))" by (intro commas_ok) (auto simp: list_all_iff)
  then show ?case using InList by (auto intro!: bracket_ok simp: token_oks)
next
  case (Coalesce es)
  then have "list_all token_ok (commas (map (show_expr 4) es))" by (intro commas_ok) (auto simp: list_all_iff)
  then show ?case by (simp add: token_oks)
next
  case (FuncCall f es)
  then have "list_all token_ok (commas (map (show_expr 4) es))" by (intro commas_ok) (auto simp: list_all_iff)
  then show ?case by (simp add: token_oks)
qed (auto intro!: bracket_ok simp: token_oks)

lemma names_ok: "list_all name_ok ns \<Longrightarrow> list_all token_ok (show_names ns)"
  unfolding show_names_def by (intro commas_ok) (auto simp: list_all_iff token_ok_name)

lemma where_tokens: "where_ok w \<Longrightarrow> list_all token_ok (show_where w)"
  by (cases w) (auto simp: show_where_def where_ok_def operand_ok_def show_expr_ok token_ok_word)

lemma sets_tokens: "list_all (set_ok x) cs \<Longrightarrow> list_all token_ok (commas (map show_set cs))"
proof (intro commas_ok)
  fix c assume "list_all (set_ok x) cs" "c \<in> set cs"
  then have "set_ok x c" by (simp add: list_all_iff)
  then show "list_all token_ok (show_set c)"
    by (cases "snd c") (auto simp: show_set_def set_ok_def operand_ok_def token_oks
        simp del: show_expr.simps expr_ok.simps(1-3,5-) intro!: show_expr_ok)
qed

lemma alias_tokens: "(\<And>n. a = Some n \<Longrightarrow> name_ok n) \<Longrightarrow> list_all token_ok (show_alias a)"
  by (cases a) (auto simp: show_alias_def token_oks)

lemma key_tokens: "name_ok (fst k) \<Longrightarrow> list_all token_ok (show_key k)"
  by (cases k) (auto simp: show_key_def token_oks)

lemma item_tokens:
  assumes "select_list_ok s" "s_aggregate s = None" "item \<in> set (item_list s)"
  shows "list_all token_ok (show_item item)"
proof -
  have "item_ok item" using item_list_sorted(2) [OF assms(1,2)] assms(3) by blast
  then have node: "list_all token_ok (case fst item of NameNode n \<Rightarrow> if n = COUNT_STAR_MARKER
      then [word ''COUNT'', pu ''('', pu ''*'', pu '')''] else [ident n] | ExprNode e \<Rightarrow> show_expr 4 e)"
    by (cases item; cases "fst item") (auto simp: item_ok_def token_oks operand_ok_def show_expr_ok)
  have group: "group_item_ok x \<Longrightarrow> snd (group_entry x) = Some n \<Longrightarrow> name_ok n" for x n
    by (cases x) (auto simp: group_entry_def group_item_ok_def)
  have expr: "expr_item_ok x \<Longrightarrow> snd (expr_entry x) = Some n \<Longrightarrow> name_ok n" for x n
    by (cases "fst x") (auto simp: expr_entry_def expr_item_ok_def)
  have "name_ok n" if "snd item = Some n" for n
    using assms that by (auto simp: item_list_def select_list_ok_def list_all_iff split: if_splits dest: group expr)
  then show ?thesis using node alias_tokens [of "snd item"] by (simp add: show_item_def)
qed

lemma select_list_tokens: "select_list_ok s \<Longrightarrow> list_all token_ok (show_select_list s)"
proof (cases "s_aggregate s")
  case None
  assume ok: "select_list_ok s"
  have "list_all token_ok (commas (map show_item (item_list s)))" by (intro commas_ok item_tokens [OF ok None])
  then show ?thesis using None by (simp add: show_select_list_def token_oks)
next
  case (Some a)
  assume "select_list_ok s"
  then show ?thesis using Some alias_tokens [of "s_count_alias s"]
    by (cases a) (auto simp: show_select_list_def select_list_ok_def token_oks agg_word_def)
qed

lemma group_by_tokens: "group_by_ok s \<Longrightarrow> list_all token_ok (show_group_by s)"
  using token_ok_op by (auto simp: show_group_by_def group_by_ok_def token_oks comparisons_def split: option.splits)

lemma order_by_tokens: "order_by_ok s \<Longrightarrow> list_all token_ok (show_order_by s)"
  using key_tokens by (auto simp: show_order_by_def order_by_ok_def token_oks split: option.splits)

lemma limit_tokens: "list_all token_ok (show_limit s)"
  by (auto simp: show_limit_def show_count_def token_oks split: option.splits)

lemma conflict_tokens:
  assumes "insert_ok i"
  shows "list_all token_ok (show_conflict i)"
proof (cases "i_conflict_action i")
  case None
  then show ?thesis by (simp add: show_conflict_def)
next
  case (Some a)
  then have "list_all token_ok (show_names (i_conflict_keys i))" "a = DoUpdate \<Longrightarrow> list_all token_ok (commas (map show_set (i_set_clauses i)))"
    using assms by (auto simp: insert_ok_def intro!: names_ok sets_tokens [of True])
  then show ?thesis using Some by (cases a) (simp_all add: show_conflict_def token_oks)
qed

lemma insert_tokens: "insert_ok i \<Longrightarrow> list_all token_ok (show_insert i)"
proof -
  assume ok: "insert_ok i"
  then have "list_all token_ok (show_names (i_columns i))" by (simp add: insert_ok_def names_ok)
  moreover have "list_all token_ok (commas (map (show_expr 4) (i_values i)))"
  proof (intro commas_ok show_expr_ok)
    show "expr_ok e" if "e \<in> set (i_values i)" for e using ok that by (auto simp: insert_ok_def list_all_iff operand_ok_def)
  qed
  ultimately show ?thesis using conflict_tokens [OF ok] ok by (simp add: show_insert_def token_oks insert_ok_def)
qed

lemma stmt_tokens: "stmt_ok st \<Longrightarrow> list_all token_ok (show_stmt st)"
proof (cases st)
  case (SelectS s)
  assume "stmt_ok st"
  then show ?thesis using SelectS select_list_tokens [of s] where_tokens [of "s_where s"] group_by_tokens [of s] order_by_tokens [of s] limit_tokens [of s]
    by (simp add: show_select_def select_ok_def token_oks)
next
  case (InsertS i)
  assume "stmt_ok st"
  then show ?thesis using InsertS insert_tokens [of i] by simp
next
  case (UpdateS u)
  assume "stmt_ok st"
  then show ?thesis using UpdateS sets_tokens [of False "u_set_clauses u"] where_tokens [of "u_where u"]
    by (simp add: show_update_def update_ok_def token_oks)
next
  case (DeleteS d)
  assume "stmt_ok st"
  then show ?thesis using DeleteS where_tokens [of "d_where d"] by (simp add: show_delete_def token_oks)
qed simp

text \<open>
  C20. Reading SQL text is a left inverse of writing it, on the SELECT, INSERT, UPDATE and DELETE statements
  of \<open>stmt_ok\<close>. Such a statement, printed with no brackets but those that precedence and left grouping ask
  for, is tokenized and parsed back to the same statement. OR binds weaker than AND, AND weaker than NOT, NOT
  weaker than a comparison. \<open>stmt_ok\<close> admits: as literals NULL, blobs, non-negative integers of at most 4300
  digits and texts in which a backslash stands before every quote, but no REAL; as names every non-empty text
  without a closing bracket (they are printed in brackets) except NOT, SELECT, DISTINCT, SUM, MIN and MAX;
  operands that nest within the parser's bound, COALESCE of two and \<open>datetime\<close> of one; lists that are not
  empty; and the five forms of a select list. DDL statements, PRAGMA and EXPLAIN are outside the claim.
\<close>

theorem parse_sql_shown: "stmt_ok st \<Longrightarrow> parse_sql lib (show_tokens (show_stmt st)) = Inr st"
  using parse_shown [of st lib] scan_shown [OF stmt_tokens, of st] by (simp add: parse_sql_def tokenize_def strip_def)

definition demo_stmt :: stmt where
  \<comment> \<open>\<open>UPDATE t SET a = ? WHERE (a = 1 OR b) AND NOT c IS NULL OR d IN (2, 3)\<close>\<close>
  "demo_stmt = UpdateS \<lparr>u_table = [116], u_set_clauses = [([97], placeholder)],
     u_where = Some (BinOp (pystr_of ''OR'')
       (BinOp (pystr_of ''AND'')
         (BinOp (pystr_of ''OR'') (BinOp (pystr_of ''='') (ColumnRef [97]) (Literal (PInt 1))) (ColumnRef [98]))
         (UnaryOp (pystr_of ''NOT'') (IsNull (ColumnRef [99]) False)))
       (InList (ColumnRef [100]) [Literal (PInt 2), Literal (PInt 3)]))\<rparr>"

theorem parse_sql_shown_witness:
  "parse_sql plain_lib (show_tokens (show_stmt demo_stmt)) = Inr demo_stmt"
proof (rule parse_sql_shown)
  have names: "name_ok [c]" if "c \<in> {97, 98, 99, 100, 116}" for c
    using that by (auto simp: name_ok_def reserved_def upper_def upper_char_def pystr_of_def)
  have ints: "literal_ok (PInt 1)" "literal_ok (PInt 2)" "literal_ok (PInt 3)" by (simp_all add: nat_digits.simps)
  have "literal_ok (PStr (pystr_of ''?''))" by (simp add: pystr_of_def)
  then show "stmt_ok demo_stmt"
    using names ints
    by (simp add: demo_stmt_def update_ok_def set_ok_def where_ok_def operand_ok_def placeholder_def comparisons_def op_rank_def
        MAX_NESTING_DEPTH_def MAX_IN_LIST_SIZE_def del: literal_ok.simps(2,3))
qed

end
