(* ===== verification/SqlParserEnds.thy ===== *)
theory SqlParserEnds
  imports SqlStatement
begin

text \<open>
  Parsing ends on every text: one unit of fuel per token is never used up. A parser is measured by how many
  tokens it takes at least; a rule per construct of the parsers carries the measure through.
\<close>

section \<open>Parsers that take tokens\<close>

definition takes :: "nat \<Rightarrow> nat \<Rightarrow> 'a parser \<Rightarrow> bool" where
  \<comment> \<open>on at most \<open>n\<close> tokens the fuel does not run out, and a result has used up at least \<open>k\<close> of them\<close>
  "takes n k m \<longleftrightarrow>
     (\<forall>ts r ts'. length ts \<le> n \<longrightarrow> m ts = (r, ts') \<longrightarrow> r \<noteq> Inl Diverges \<and> (\<forall>x. r = Inr x \<longrightarrow> length ts' + k \<le> length ts))"

named_theorems taking

lemma takesD:
  "takes n k m \<Longrightarrow> length ts \<le> n \<Longrightarrow> m ts \<noteq> (Inl Diverges, ts')"
  "takes n k m \<Longrightarrow> length ts \<le> n \<Longrightarrow> m ts = (Inr x, ts') \<Longrightarrow> length ts' + k \<le> length ts"
  unfolding takes_def by blast+

lemma takes_mono: "takes n k m \<Longrightarrow> n' \<le> n \<Longrightarrow> k' \<le> k \<Longrightarrow> takes n' k' m"
proof -
  assume m: "takes n k m" and n: "n' \<le> n" "k' \<le> k"
  show ?thesis unfolding takes_def
  proof (intro allI impI)
    fix ts r ts' assume "length ts \<le> n'" "m ts = (r, ts')"
    then show "r \<noteq> Inl Diverges \<and> (\<forall>x. r = Inr x \<longrightarrow> length ts' + k' \<le> length ts)"
      using takesD(1) [OF m, of ts ts'] takesD(2) [OF m, of ts _ ts'] n by fastforce
  qed
qed

lemma takes_bind:
  assumes "takes n 0 m" "\<And>x. takes n k (f x)"
  shows "takes n k (bindS m f)"
  unfolding takes_def
proof (intro allI impI)
  fix ts r ts'
  assume n: "length ts \<le> n" and run: "bindS m f ts = (r, ts')"
  show "r \<noteq> Inl Diverges \<and> (\<forall>x. r = Inr x \<longrightarrow> length ts' + k \<le> length ts)"
  proof (cases "m ts")
    case (Pair q ts1)
    show ?thesis
    proof (cases q)
      case (Inl e)
      then show ?thesis using takesD(1) [OF assms(1) n, of ts1] Pair run by (auto simp: bindS_def)
    next
      case (Inr x)
      then have l: "length ts1 \<le> length ts" using takesD(2) [OF assms(1) n] Pair by fastforce
      moreover have "f x ts1 = (r, ts')" using run Pair Inr by (simp add: bindS_def)
      ultimately show ?thesis using takesD(1) [OF assms(2), of ts1 x] takesD(2) [OF assms(2), of ts1 x] n by fastforce
    qed
  qed
qed

lemma takes_then:
  \<comment> \<open>after a parser that takes a token there is one less\<close>
  assumes "takes n 1 m" "\<And>x n'. n = Suc n' \<Longrightarrow> takes n' 0 (f x)"
  shows "takes n 1 (bindS m f)"
  unfolding takes_def
proof (intro allI impI)
  fix ts r ts'
  assume n: "length ts \<le> n" and run: "bindS m f ts = (r, ts')"
  show "r \<noteq> Inl Diverges \<and> (\<forall>x. r = Inr x \<longrightarrow> length ts' + 1 \<le> length ts)"
  proof (cases "m ts")
    case (Pair q ts1)
    show ?thesis
    proof (cases q)
      case (Inl e)
      then show ?thesis using takesD(1) [OF assms(1) n, of ts1] Pair run by (auto simp: bindS_def)
    next
      case (Inr x)
      then have l: "length ts1 + 1 \<le> length ts" using takesD(2) [OF assms(1) n] Pair by fastforce
      then obtain n' where n': "n = Suc n'" "length ts1 \<le> n'" using n by (cases n) auto
      moreover have "f x ts1 = (r, ts')" using run Pair Inr by (simp add: bindS_def)
      ultimately show ?thesis using assms(2) [OF n'(1), of x] takesD(1) [of n' 0 "f x" ts1] takesD(2) [of n' 0 "f x" ts1] l by fastforce
    qed
  qed
qed

lemma takes_then0: "takes n 1 m \<Longrightarrow> (\<And>x n'. n = Suc n' \<Longrightarrow> takes n' 0 (f x)) \<Longrightarrow> takes n 0 (bindS m f)"
  by (rule takes_mono [OF takes_then]) auto

lemma takes_basic [taking]:
  "takes n 0 (retS x)" "e \<noteq> Diverges \<Longrightarrow> takes n k (raiseS e)" "takes n 0 peek" "r \<noteq> Inl Diverges \<Longrightarrow> takes n 0 (liftR r)"
  "takes n k m \<Longrightarrow> takes n k m' \<Longrightarrow> takes n k (ifS c m m')"
  "takes n 1 advance" "takes n 0 advance" "takes n 1 (expect v)" "takes n 0 (expect v)" "takes n 1 (expect_type tt)" "takes n 0 (expect_type tt)"
  "takes n 1 expect_name" "takes n 0 expect_name" "takes n 0 (optionally w)" "takes n 0 raw_rest"
  by (auto simp: takes_def peek_def advance_def expect_def expect_type_def expect_name_def optionally_def raw_rest_def ifS_def bindS_def
      length_dropWhile_le split: list.splits sum.splits)

lemma takes_cases [taking]:
  "takes n k m \<Longrightarrow> takes n k m' \<Longrightarrow> takes n k (if c then m else m')"
  "(\<And>a b. takes n k (g a b)) \<Longrightarrow> takes n k (case_prod g p)"
  "(\<And>a b. takes n k (h a b z)) \<Longrightarrow> takes n k (case_prod h p z)"
  by (auto split: prod.split)

lemma takes_advance: "(\<And>x. takes n 0 (f x)) \<Longrightarrow> takes (Suc n) 1 (bindS advance f)"
  by (rule takes_then [OF takes_basic(6)]) simp

lemmas takes_binds = takes_bind [OF takes_basic(7)] takes_bind [OF takes_basic(9)] takes_bind [OF takes_basic(11)] takes_bind [OF takes_basic(13)]
  takes_bind [OF takes_basic(3)] takes_bind [OF takes_basic(4)] takes_bind [OF takes_basic(14)] takes_bind [OF takes_basic(15)]

section \<open>Expressions\<close>

lemma comma_rest_takes: "n < fuel \<Longrightarrow> takes n 0 item \<Longrightarrow> takes n 0 (comma_rest fuel item)"
proof (induction fuel arbitrary: n)
  case (Suc fuel)
  have "takes n 0 (bindS advance (\<lambda>_. bindS item (\<lambda>x. bindS (comma_rest fuel item) (\<lambda>xs. retS (x # xs)))))"
    using Suc by (intro takes_then0 takes_bind taking Suc.IH) (auto intro: takes_mono)
  then show ?case by (simp add: taking)
qed simp

lemma comma_list_takes: "n < fuel \<Longrightarrow> takes n 0 item \<Longrightarrow> takes n 0 (comma_list fuel item)"
  unfolding comma_list_def by (intro takes_bind comma_rest_takes taking)

lemma in_rest_takes: "n < fuel \<Longrightarrow> takes n 0 item \<Longrightarrow> takes n 0 (in_rest fuel k item)"
proof (induction fuel arbitrary: n k)
  case (Suc fuel)
  have "takes n 0 (bindS advance (\<lambda>_. ifS (at_keyword [''SELECT'']) (raiseS ParseError)
      (bindS item (\<lambda>x. if MAX_IN_LIST_SIZE < k + 1 then raiseS ParseError
         else bindS (in_rest fuel (k + 1) item) (\<lambda>xs. retS (x # xs))))))"
    using Suc by (intro takes_then0 takes_bind taking Suc.IH) (auto intro: takes_mono)
  then show ?case by (simp add: taking)
qed simp

lemma in_list_takes: "n < fuel \<Longrightarrow> takes n 0 p \<Longrightarrow> takes n 0 (in_list fuel p left)"
  unfolding in_list_def parse_in_items_def by (intro takes_bind in_rest_takes taking) auto

lemma comparison_takes: "n < fuel \<Longrightarrow> takes n 1 p \<Longrightarrow> takes n 1 (parse_comparison fuel p)"
proof -
  assume n: "n < fuel" and p: "takes n 1 p"
  have p0: "takes n' 0 p" "n' < fuel" if "n = Suc n'" for n' using takes_mono [OF p, of n' 0] n that by simp_all
  show ?thesis
    unfolding parse_comparison_def by (intro takes_then [OF p] takes_bind taking in_list_takes p0) auto
qed

lemma not_takes: "n < fuel \<Longrightarrow> takes n 1 p \<Longrightarrow> takes n 1 (parse_not fuel p)"
proof -
  assume n: "n < fuel" and p: "takes n 1 p"
  have "takes n' 0 (parse_comparison fuel p)" if "n = Suc n'" for n'
    by (rule takes_mono [OF comparison_takes [OF n p]]) (use that in auto)
  then show ?thesis unfolding parse_not_def
    by (intro takes_basic(5) comparison_takes [OF n p] takes_then takes_basic(6) takes_bind taking) auto
qed

lemma loop_takes: "n < fuel \<Longrightarrow> takes n 0 level \<Longrightarrow> takes n 0 (connective_loop fuel op level left)"
proof (induction fuel arbitrary: n left)
  case (Suc fuel)
  have "takes n 0 (bindS advance (\<lambda>_. bindS level (\<lambda>right. connective_loop fuel op level (BinOp (pystr_of op) left right))))"
    using Suc by (intro takes_then0 takes_bind taking Suc.IH) (auto intro: takes_mono)
  then show ?case by (simp add: taking)
qed simp

lemma chain_takes:
  assumes "n < fuel" "takes n 1 level"
  shows "takes n 1 (bindS level (connective_loop fuel op level))"
proof (rule takes_then [OF assms(2)])
  fix x n' assume "n = Suc n'"
  then show "takes n' 0 (connective_loop fuel op level x)" using assms by (intro loop_takes) (auto intro: takes_mono)
qed

lemma or_takes: "n < fuel \<Longrightarrow> takes n 1 p \<Longrightarrow> takes n 1 (parse_or fuel p)"
  unfolding parse_or_def parse_and_def by (intro chain_takes not_takes)

lemma args_take:
  "n < fuel \<Longrightarrow> takes n 0 p \<Longrightarrow> takes n 0 (coalesce_args fuel p)" "n < fuel \<Longrightarrow> takes n 0 p \<Longrightarrow> takes n 0 (datetime_args fuel p)"
  unfolding coalesce_args_def datetime_args_def by (intro takes_bind comma_list_takes taking; simp)+

lemma column_ref_takes: "takes n 1 column_ref"
  unfolding column_ref_def by (intro takes_then takes_bind taking) auto

lemma fromhex_ends: "fromhex s \<noteq> Inl Diverges"
  by (induction s rule: fromhex.induct) (auto simp: bindR_def split: sum.splits list.splits)

lemma literal_ends: "literal_of lib tok = Some r \<Longrightarrow> r \<noteq> Inl Diverges"
  using fromhex_ends
  by (auto simp: literal_of_def int_of_def bindR_def split: TT.splits if_splits option.splits sum.splits)

declare parse_primary.simps [simp del]

lemma primary_takes: "takes n 1 (parse_primary lib (Suc n) depth)"
proof (induction n arbitrary: depth)
  case 0
  show ?case by (simp add: takes_def bindS_def peek_def parse_primary.simps(2))
next
  case (Suc n)
  have p: "takes n 0 (parse_primary lib (Suc n) d)" for d by (rule takes_mono [OF Suc]) simp_all
  have o: "takes n 0 (parse_or (Suc n) (parse_primary lib (Suc n) d))" for d by (rule takes_mono [OF or_takes [OF lessI Suc]]) simp_all
  have lit: "takes (Suc n) 1 (case literal_of lib tok of Some r \<Rightarrow> bindS advance (\<lambda>_. liftR r) | None \<Rightarrow> m)"
    if "takes (Suc n) 1 m" for tok m
  proof (cases "literal_of lib tok")
    case (Some r)
    then show ?thesis using takes_advance [OF takes_basic(4) [OF literal_ends [OF Some]], of n] by simp
  qed (use that in simp)
  have bracket: "takes (Suc n) 1 (bindS advance (\<lambda>_.
       if MAX_NESTING_DEPTH < depth + 1 then raiseS ParseError
       else ifS (at_keyword [''SELECT'']) (raiseS ParseError)
         (bindS (parse_or (Suc n) (parse_primary lib (Suc n) (depth + 1))) (\<lambda>e. bindS (expect '')'') (\<lambda>_. retS e)))))"
    by (rule takes_advance, intro takes_cases(1) takes_basic(5) takes_bind [OF o] takes_binds(2) takes_basic(1)) (auto intro: takes_basic)
  have calls: "takes (Suc n) 1 (bindS advance (\<lambda>_. coalesce_args (Suc n) (parse_primary lib (Suc n) depth)))"
    "takes (Suc n) 1 (bindS advance (\<lambda>_. if MAX_NESTING_DEPTH < depth + 1 then raiseS ParseError
       else datetime_args (Suc n) (parse_primary lib (Suc n) (depth + 1))))"
    by (rule takes_advance, intro takes_cases(1) args_take [OF lessI p], (rule takes_basic, simp)?)+
  show ?case
    by (subst parse_primary.simps(2), rule takes_bind [OF takes_basic(3)],
        intro takes_cases(1) bracket lit takes_basic(5) calls column_ref_takes) (simp_all add: takes_basic(2))
qed

lemma in_state_takes [taking]:
  assumes "\<And>m. takes m 0 (f (Suc m))"
  shows "takes n 0 (in_state f)"
  unfolding takes_def in_state_def
proof (intro allI impI)
  fix ts r ts' assume "f (Suc (length ts)) ts = (r, ts')"
  then show "r \<noteq> Inl Diverges \<and> (\<forall>x. r = Inr x \<longrightarrow> length ts' + 0 \<le> length ts)"
    using takesD(1) [OF assms order_refl, of ts ts'] takesD(2) [OF assms order_refl, of ts _ ts'] by fastforce
qed

lemma primary_run [taking]: "takes n 0 (primary lib)"
proof -
  have "takes m 0 (parse_primary lib (Suc m) 0)" for m by (rule takes_mono [OF primary_takes]) simp_all
  then show ?thesis using in_state_takes [of "\<lambda>fuel. parse_primary lib fuel 0"] by (simp add: primary_def in_state_def)
qed

lemma parse_expr_run [taking]: "takes n 0 (parse_expr lib)"
proof -
  have "takes m 0 (parse_or (Suc m) (parse_primary lib (Suc m) 0))" for m by (rule takes_mono [OF or_takes [OF lessI primary_takes]]) simp_all
  then show ?thesis using in_state_takes [of "\<lambda>fuel. parse_or fuel (parse_primary lib fuel 0)"] by (simp add: parse_expr_def in_state_def)
qed

section \<open>Statements\<close>

lemma comma_state [taking]: "(\<And>m. takes m 0 item) \<Longrightarrow> takes n 0 (in_state (\<lambda>fuel. comma_list fuel item))"
  by (intro in_state_takes comma_list_takes) simp_all

lemma coalesce_state [taking]: "takes n 0 (in_state (\<lambda>fuel. coalesce_args fuel (primary lib)))"
  by (intro in_state_takes args_take taking) simp

lemma parts_take [taking]:
  "takes n 0 parse_optional_alias" "takes n 0 count_star" "takes n 0 column_in_parens" "takes n 0 (with_alias node)"
  "takes n 0 parse_direction" "takes n 0 parse_or_clause" "takes n 0 (parse_where lib)"
  unfolding parse_optional_alias_def count_star_def column_in_parens_def with_alias_def parse_direction_def parse_or_clause_def parse_where_def
  by (intro takes_bind taking; simp)+

lemma int_of_ends [taking]: "takes n 0 (liftR (int_of s))"
  by (rule takes_basic(4)) (simp add: int_of_def split: option.split)

lemma sort_items_ends [taking]: "takes n 0 (liftR (sort_items lib items))"
proof (rule takes_basic(4))
  have g: "group_items items sl \<noteq> Inl Diverges" for sl
    by (induction items sl rule: group_items.induct) (auto simp: Let_def split: item_node.splits)
  have "expr_item lib x \<noteq> Inl Diverges" for x
    by (cases x rule: prod.exhaust; cases "fst x"; cases "snd x") (auto simp: expr_item_def split: expr.splits)
  then have "mapR (expr_item lib) items \<noteq> Inl Diverges"
    by (induction items) (auto simp: bindR_def split: sum.splits)
  then show "sort_items lib items \<noteq> Inl Diverges"
    using g by (auto simp: sort_items_def bindR_def split: option.splits sum.splits)
qed

lemma clauses_take [taking]:
  "takes n 0 (parse_select_item lib)" "takes n 0 parse_having" "takes n 0 parse_order_by_key" "takes n 0 parse_count"
  "takes n 0 (parse_set_rhs lib x)"
  unfolding parse_select_item_def parse_having_def parse_order_by_key_def parse_count_def parse_set_rhs_def
  by (intro takes_bind taking; simp)+

lemma order_key_take [taking]: "takes n 0 order_key_parser"
  unfolding order_key_parser_def by (intro takes_bind taking)

lemma lists_take [taking]:
  "takes n 0 (parse_select_list lib)" "takes n 0 parse_group_by" "takes n 0 parse_order_by" "takes n 0 parse_limit"
  "takes n 0 (set_clause lib x)"
  unfolding parse_select_list_def parse_group_by_def parse_order_by_def parse_limit_def set_clause_def
  by (intro takes_bind taking; simp)+

lemma sets_take [taking]: "takes n 0 (parse_set_clauses lib x)"
  unfolding parse_set_clauses_def by (intro taking)

lemma parens_take [taking]: "(\<And>m. takes m 0 item) \<Longrightarrow> takes n 0 (in_parens item)"
  unfolding in_parens_def by (intro takes_bind taking) simp

lemma conflict_take [taking]: "takes n 0 (parse_on_conflict lib)"
  unfolding parse_on_conflict_def by (intro takes_bind taking; simp)

lemma statements_take [taking]:
  "takes n 0 (parse_select lib)" "takes n 0 (parse_insert lib)" "takes n 0 (parse_update lib)" "takes n 0 (parse_delete lib)"
  "takes n 0 parse_ddl" "takes n 0 parse_explain"
  unfolding parse_select_def parse_insert_def parse_update_def parse_delete_def parse_ddl_def parse_explain_def
  by (intro takes_bind taking; simp)+

lemma parse_takes: "takes n 0 (parse lib)"
  unfolding parse_def parse_body_def Let_def by (intro takes_bind taking; simp)

text \<open>
  C21. Parsing ends. Whatever the text, the tokenizer reaches its end or stops at a character no pattern takes, and the
  parser gives a statement or an exception: the recursion through brackets and every loop take a token
  before they go on, so the fuel of the model, one unit per token, is never what stops it.
\<close>

theorem parse_sql_ends: "parse_sql lib sql \<noteq> Inl Diverges"
proof (cases "tokenize sql")
  case (Inl e)
  then show ?thesis by (auto simp: parse_sql_def tokenize_def split: prod.splits if_splits)
next
  case (Inr ts)
  then show ?thesis using takesD(1) [OF parse_takes, of ts "length ts" lib] by (cases "parse lib ts") (auto simp: parse_sql_def)
qed

end
