(* ===== verification/SqlDdlRoundTrip.thy ===== *)
theory SqlDdlRoundTrip
  imports SqlRoundTrip SqlParserEnds SqlDdl
begin

text \<open>
  CREATE TABLE from its text to the registry: the text of a list of columns, the proof that the lexer, the
  parser and the catalog together register exactly these columns, the proof that every DDL text is read to
  an end, and what the catalog makes of some texts whose meaning in SQL is another.
\<close>

section \<open>The text of a table\<close>

definition show_default :: "pyval option option \<Rightarrow> token list" where
  "show_default d =
     (case d of
        None \<Rightarrow> []
      | Some None \<Rightarrow> [word ''DEFAULT'', word ''NULL'']
      | Some (Some (PStr s)) \<Rightarrow> [word ''DEFAULT'', Token STRING ([39] @ s @ [39])]
      | Some (Some v) \<Rightarrow> [word ''DEFAULT'', show_literal v])"

definition show_column :: "column_meta \<Rightarrow> token list" where
  "show_column cm =
     [word_token (cm_name cm), word_token (cm_affinity cm)] @
     (if cm_primary_key cm then [word ''PRIMARY'', word ''KEY''] else []) @
     (if cm_nullable cm then [] else [word ''NOT'', word ''NULL'']) @ show_default (cm_default cm)"

definition show_create :: "bool \<Rightarrow> pystr \<Rightarrow> column_meta list \<Rightarrow> token list" where
  "show_create guarded table cols =
     [word ''CREATE'', word ''TABLE''] @ (if guarded then [word ''IF'', word ''NOT'', word ''EXISTS''] else []) @
     [word_token table, pu ''(''] @ commas (map show_column cols) @ [pu '')'']"

definition column_words :: "string list" where
  \<comment> \<open>the words that start a table constraint\<close>
  "column_words = [''PRIMARY'', ''UNIQUE'', ''CHECK'', ''FOREIGN'', ''CONSTRAINT'']"

definition default_ok :: "pyval option option \<Rightarrow> bool" where
  \<comment> \<open>no default, NULL, an integer or a string\<close>
  "default_ok d \<longleftrightarrow>
     (case d of Some (Some v) \<Rightarrow> literal_ok v \<and> (case v of PInt _ \<Rightarrow> True | PStr _ \<Rightarrow> True | _ \<Rightarrow> False) | _ \<Rightarrow> True)"

definition declarable :: "column_meta \<Rightarrow> bool" where
  "declarable cm \<longleftrightarrow>
     word_shaped (cm_name cm) \<and> upper (cm_name cm) \<notin> set (map pystr_of column_words) \<and>
     cm_affinity cm \<in> pystr_of ` {''INTEGER'', ''TEXT'', ''REAL'', ''BLOB'', ''NUMERIC''} \<and> default_ok (cm_default cm)"

definition table_name_ok :: "pystr \<Rightarrow> bool" where
  "table_name_ok n \<longleftrightarrow> word_shaped n \<and> upper n \<noteq> pystr_of ''IF''"

section \<open>Scanning the joined values\<close>

lemma join_last: "list_all token_ok ts \<Longrightarrow> at_eof (ts @ [the_end]) \<longleftrightarrow> ts = []"
proof (cases ts)
  case (Cons t u)
  moreover assume "list_all token_ok ts"
  ultimately show ?thesis by (cases t; cases "tok_type t") (auto simp: at_eof_def is_type_def token_ok.simps)
qed (simp add: at_eof_def is_type_def)

lemma scan_joined:
  assumes "list_all token_ok ts" "list_all (\<lambda>t. show_token t = tok_value t) ts"
  shows "scan (join_values (ts @ [the_end])) = (ts, [])"
  using assms
proof (induction ts)
  case Nil
  have "first_match SCANNER [] = None" by (simp add: SCANNER_def pattern_defs after_char plus_def match_word_def)
  then show ?case by (simp add: scan.simps)
next
  case (Cons t ts)
  have eof: "tok_type t \<noteq> EOF" using Cons.prems by (cases t) (auto simp: token_ok.simps)
  have t: "first_match SCANNER (tok_value t @ r) = Some (Some t, r)" if "ends_token r" for r
    using scan_token [of t r] Cons.prems that by simp
  have ne: "tok_value t \<noteq> []" using show_token_head [of t] Cons.prems by force
  show ?case
  proof (cases ts)
    case Nil
    then show ?thesis using t [of "[]"] eof ne Cons.IH
      by (subst scan.simps) (simp add: at_eof_def is_type_def ends_token_def)
  next
    case (Cons u us)
    let ?s = "join_values (ts @ [the_end])"
    have "token_ok u" "show_token u = tok_value u" "tok_type u \<noteq> EOF" using Cons.prems Cons
      by (cases u; auto simp: token_ok.simps)+
    then have "\<not> is_space (hd ?s) \<and> ?s \<noteq> []" using show_token_head [of u] Cons by force
    then have "scan (32 # ?s) = scan ?s" by (subst scan.simps) (simp add: first_match_space split: prod.split)
    then show ?thesis using t [of "32 # ?s"] eof ne Cons.IH Cons.prems join_last [of ts] Cons
      by (subst scan.simps) (simp add: ends_token_def)
  qed
qed

section \<open>Reading a column\<close>

lemma ddl_steps [steps]:
  "bindS advance_value f (t # ts) = f (tok_value t) ts"
  "capital w \<Longrightarrow> bindS (expect_value w) g (word w # ts) = g () ts"
  "upper (pystr_of p) = pystr_of p \<Longrightarrow> bindS (expect_value p) g (pu p # ts) = g () ts"
  "bindS (skip_if v) h (t # ts) = (if upper (tok_value t) = pystr_of v then h True ts else h False (t # ts))"
  "next_in ws (t # ts) \<longleftrightarrow> upper (tok_value t) \<in> set (map pystr_of ws)"
  by (simp_all add: bindS_def advance_value_def expect_value_def skip_if_def next_in_def next_upper_def advance_def ifS_def upper_capital)

lemma upper_alpha: "is_alpha c \<Longrightarrow> upper_char c = [if 97 \<le> c \<and> c \<le> 122 then c - 32 else c]"
proof -
  assume "is_alpha c"
  then have "c \<le> 122" by (auto simp: is_alpha_def)
  then have "c \<noteq> 0x131" "c \<noteq> 0x17F" "c \<noteq> 0xDF" "c \<noteq> 0xFB00" "c \<noteq> 0xFB01" "c \<noteq> 0xFB02" "c \<noteq> 0xFB03" "c \<noteq> 0xFB04"
    "c \<noteq> 0xFB05" "c \<noteq> 0xFB06" by simp_all
  then show ?thesis by (simp add: upper_char_def)
qed

lemma upper_shaped:
  assumes "word_shaped n"
  shows "upper n \<noteq> [] \<and> upper n \<notin> pystr_of ` {'')'', '','', ''(''}"
proof -
  from assms obtain c w where n: "n = c # w" "is_alpha c" by (cases n) (auto simp: word_shaped_def)
  then obtain d where "upper n = d # upper w" "65 \<le> d" by (auto simp: upper_def upper_alpha is_alpha_def)
  then show ?thesis by (auto simp: pystr_of_def)
qed

lemma word_token_simps [simp]: "tok_value (word_token n) = n" "tok_type (word_token n) = KEYWORD \<or> tok_type (word_token n) = IDENT"
  by (simp_all add: word_token_def)

definition separated :: "token list \<Rightarrow> bool" where
  "separated ts \<longleftrightarrow> (\<exists>r. ts = pu '','' # r \<or> ts = pu '')'' # r)"

lemma separated_upper: "upper (pystr_of '','') = pystr_of '',''"
  by (simp add: upper_def upper_char_def pystr_of_def)

lemmas uppers = upper_capital upper_punct separated_upper

lemma more_capitals [simp]:
  "capital ''PRIMARY''" "capital ''KEY''" "capital ''DEFAULT''" "capital ''CREATE''" "capital ''TABLE''" "capital ''IF''" "capital ''EXISTS''"
  by (simp_all add: capital_def)

declare column_constraints.simps [simp del]

lemma constraints_stop: "separated r \<Longrightarrow> column_constraints lib (Suc n) cf r = (Inr cf, r)"
  by (subst column_constraints.simps) (auto simp: separated_def steps uppers retS_def)

lemma quoted_default: "default_value lib (Token STRING ([39] @ s @ [39]) # r) = (Inr (Some (PStr s)), r)"
  by (simp add: default_value_def steps retS_def upper_def upper_char_def pystr_of_def)

lemma digits_upper: "list_all is_digit s \<Longrightarrow> upper s = s"
  by (induction s) (auto simp: upper_def upper_char_def is_digit_def)

lemma number_default:
  assumes "0 \<le> i" "length (nat_digits (nat i)) \<le> 4300"
  shows "default_value lib (Token INTEGER (nat_digits (nat i)) # r) = (Inr (Some (PInt i)), r)"
proof -
  let ?s = "nat_digits (nat i)"
  obtain c w where s: "?s = c # w" "is_digit c" using nat_digits_digits [of "nat i"] by (cases ?s) auto
  have "upper ?s = ?s" using nat_digits_digits by (simp add: digits_upper)
  moreover have "c \<noteq> 39 \<and> c \<noteq> 88 \<and> c \<noteq> 78" using s(2) by (auto simp: is_digit_def)
  ultimately show ?thesis using s py_int_digits [OF assms(2)] assms(1)
    by (simp add: default_value_def steps retS_def number_or_word_def pystr_of_def)
qed

lemma default_reads:
  assumes "default_ok d" "separated r"
    and "(if d = None then 0 else 1) \<le> n"
  shows "column_constraints lib (Suc n) cf (show_default d @ r) = (Inr (case d of None \<Rightarrow> cf | Some x \<Rightarrow> cf\<lparr>cf_default := Some x\<rparr>), r)"
proof (cases d)
  case None
  then show ?thesis using assms by (simp add: show_default_def constraints_stop)
next
  case (Some x)
  obtain m where n: "n = Suc m" using assms(3) Some by (cases n) auto
  have D: "column_constraints lib (Suc n) cf (word ''DEFAULT'' # t # r) =
      bindS (default_value lib) (\<lambda>d. column_constraints lib n (cf\<lparr>cf_default := Some d\<rparr>)) (t # r)" for t
    by (subst column_constraints.simps) (simp add: steps uppers)
  have run: "default_value lib (t # r) = (Inr x, r) \<Longrightarrow>
      column_constraints lib (Suc n) cf (word ''DEFAULT'' # t # r) = (Inr (cf\<lparr>cf_default := Some x\<rparr>), r)" for t
    using constraints_stop [OF assms(2)] by (simp add: D) (simp add: n bindS_def)
  show ?thesis
  proof (cases x)
    case None
    have "default_value lib (word ''NULL'' # r) = (Inr x, r)"
      using None by (simp add: default_value_def steps uppers retS_def pystr_of_def upper_def upper_char_def)
    then show ?thesis using run Some None by (simp add: show_default_def)
  next
    case [simp]: (Some v)
    show ?thesis
    proof (cases v)
      case (PInt i)
      then show ?thesis using run [of "show_literal v"] number_default [of i lib r] assms(1) \<open>d = Some x\<close>
        by (simp add: show_default_def default_ok_def show_literal_def)
    next
      case (PStr s)
      then show ?thesis using run [of "Token STRING ([39] @ s @ [39])"] quoted_default [of lib s r] \<open>d = Some x\<close>
        by (simp add: show_default_def)
    qed (use assms(1) \<open>d = Some x\<close> in \<open>auto simp: default_ok_def\<close>)
  qed
qed

abbreviation flags :: "bool \<Rightarrow> bool \<Rightarrow> pyval option option \<Rightarrow> column_flags" where
  "flags nullable pk d \<equiv> \<lparr>cf_nullable = nullable, cf_primary_key = pk, cf_default = d\<rparr>"

lemma null_reads:
  assumes "default_ok d" "separated r" "(if nullable then 0 else 1) + (if d = None then 0 else 1) \<le> n"
  shows "column_constraints lib (Suc n) (flags True pk None)
      ((if nullable then [] else [word ''NOT'', word ''NULL'']) @ show_default d @ r) = (Inr (flags nullable pk d), r)"
proof -
  have run: "column_constraints lib (Suc k) (flags b pk None) (show_default d @ r) = (Inr (flags b pk d), r)"
    if "(if d = None then 0 else 1) \<le> k" for b k
    using default_reads [OF assms(1,2) that, of lib "flags b pk None"] by (cases d) auto
  show ?thesis
  proof (cases nullable)
    case False
    then obtain m where "n = Suc m" "(if d = None then 0 else 1) \<le> m" using assms(3) by (cases n) (auto split: if_splits)
    then show ?thesis using run [of m False] False by (subst column_constraints.simps) (simp add: steps uppers)
  qed (use run assms(3) in simp)
qed

lemma constraints_read:
  assumes "default_ok d" "separated r" "(if pk then 1 else 0) + (if nullable then 0 else 1) + (if d = None then 0 else 1) \<le> n"
  shows "column_constraints lib (Suc n) (flags True False None)
      ((if pk then [word ''PRIMARY'', word ''KEY''] else []) @ (if nullable then [] else [word ''NOT'', word ''NULL'']) @ show_default d @ r)
      = (Inr (flags nullable pk d), r)"
proof (cases pk)
  case True
  then obtain m where "n = Suc m" "(if nullable then 0 else 1) + (if d = None then 0 else 1) \<le> m"
    using assms(3) by (cases n) (auto split: if_splits)
  then show ?thesis using null_reads [OF assms(1,2), of nullable m lib True] True
    by (subst column_constraints.simps) (simp add: steps uppers)
next
  case False
  then show ?thesis using null_reads [OF assms(1,2), of nullable n lib False] assms(3) by simp
qed

lemma show_default_length: "(if d = None then 0 else 1) \<le> length (show_default d)"
  by (auto simp: show_default_def split: option.split pyval.split)

lemma affinity_words:
  assumes "a \<in> pystr_of ` {''INTEGER'', ''TEXT'', ''REAL'', ''BLOB'', ''NUMERIC''}"
  shows "affinity_for a = a" and "upper a = a" and "word_shaped a"
    and "a \<notin> pystr_of ` {'','', '')'', ''PRIMARY'', ''NOT'', ''UNIQUE'', ''DEFAULT'', ''REFERENCES'', ''CHECK'', ''CONSTRAINT'', ''AUTOINCREMENT''}"
proof -
  obtain w where w: "a = pystr_of w" "w \<in> {''INTEGER'', ''TEXT'', ''REAL'', ''BLOB'', ''NUMERIC''}" using assms by blast
  have c: "capital w" using w(2) by (auto simp: capital_def)
  show "upper a = a" "word_shaped a" using upper_capital [OF c] capital_shape [OF c] w(1) by simp_all
  show "affinity_for a = a" using w(2) upper_capital [OF c] by (auto simp: w(1) affinity_for_def affinity_table_def AFFINITY_MAP_def)
  show "a \<notin> pystr_of ` {'','', '')'', ''PRIMARY'', ''NOT'', ''UNIQUE'', ''DEFAULT'', ''REFERENCES'', ''CHECK'', ''CONSTRAINT'', ''AUTOINCREMENT''}"
    using w by auto
qed

lemma type_reads:
  assumes "a \<in> pystr_of ` {''INTEGER'', ''TEXT'', ''REAL'', ''BLOB'', ''NUMERIC''}"
    and "set stop \<subseteq> {'','', '')'', ''PRIMARY'', ''NOT'', ''UNIQUE'', ''DEFAULT'', ''REFERENCES'', ''CHECK'', ''CONSTRAINT'', ''AUTOINCREMENT''}"
  shows "bindS (column_type stop) f (word_token a # r) = f a r"
proof -
  have "is_name (word_token a # r)" using word_token_simps(2) [of a] by (auto simp: is_name_def steps)
  moreover have "\<not> next_in stop (word_token a # r)" using affinity_words(2,4) [OF assms(1)] assms(2) by (auto simp: steps)
  ultimately show ?thesis using affinity_words(1) [OF assms(1)] by (simp add: column_type_def steps bindS_assoc)
qed

lemma column_reads:
  assumes "declarable cm" "separated r"
  shows "bindS (column_def lib) f (show_column cm @ r) = bindS (skip_if '','') (\<lambda>_. f cm) r"
proof -
  let ?r = "(if cm_primary_key cm then [word ''PRIMARY'', word ''KEY''] else []) @
     (if cm_nullable cm then [] else [word ''NOT'', word ''NULL'']) @ show_default (cm_default cm) @ r"
  have d: "default_ok (cm_default cm)" "cm_affinity cm \<in> pystr_of ` {''INTEGER'', ''TEXT'', ''REAL'', ''BLOB'', ''NUMERIC''}"
    using assms(1) by (auto simp: declarable_def)
  have run: "in_state (\<lambda>fuel. column_constraints lib fuel (flags True False None)) ?r
      = (Inr (flags (cm_nullable cm) (cm_primary_key cm) (cm_default cm)), r)"
    unfolding in_state_def using show_default_length [of "cm_default cm"] 
    by (intro constraints_read [OF d(1) assms(2)]) (auto split: if_splits)
  have cm: "\<lparr>cm_name = cm_name cm, cm_affinity = cm_affinity cm, cm_nullable = cm_nullable cm,
      cm_primary_key = cm_primary_key cm, cm_default = cm_default cm\<rparr> = cm" by (cases cm) simp
  have shown: "show_column cm @ r = word_token (cm_name cm) # word_token (cm_affinity cm) # ?r" by (simp add: show_column_def)
  show ?thesis unfolding shown column_def_def
    by (simp add: ddl_steps(1) bindS_assoc type_reads [OF d(2)] 
          bindS_Inr [where m = "in_state (\<lambda>fuel. column_constraints lib fuel (flags True False None))", OF run] cm)
qed

declare column_defs.simps [simp del]

lemma columns_read:
  assumes "list_all declarable cols" "length cols \<le> n"
  shows "column_defs lib (Suc n) acc (commas (map show_column cols) @ pu '')'' # r) = (Inr (acc @ cols), pu '')'' # r)"
  using assms
proof (induction cols arbitrary: acc n)
  case Nil
  show ?case by (subst column_defs.simps) (simp add: steps uppers retS_def)
next
  case (Cons cm cols)
  obtain m where n: "n = Suc m" "length cols \<le> m" using Cons.prems(2) by (cases n) auto
  let ?rest = "(if cols = [] then [] else pu '','' # commas (map show_column cols)) @ pu '')'' # r"
  have shown: "commas (map show_column (cm # cols)) @ pu '')'' # r = show_column cm @ ?rest" by (cases cols) simp_all
  have cm: "declarable cm" "word_shaped (cm_name cm)" "upper (cm_name cm) \<notin> set (map pystr_of column_words)"
    using Cons.prems(1) by (auto simp: declarable_def)
  have first: "\<not> next_in ['')'', []] (show_column cm @ ?rest)"
    "\<not> next_in [''PRIMARY'', ''UNIQUE'', ''CHECK'', ''FOREIGN'', ''CONSTRAINT''] (show_column cm @ ?rest)"
    using upper_shaped [OF cm(2)] cm(3) by (auto simp: show_column_def steps column_words_def pystr_of_def)
  have sep: "separated ?rest" by (auto simp: separated_def)
  have "bindS (skip_if '','') (\<lambda>_. column_defs lib (Suc m) (acc @ [cm])) ?rest = (Inr (acc @ cm # cols), pu '')'' # r)"
    using Cons.IH [of m "acc @ [cm]"] Cons.prems(1) n(2) by (cases cols) (simp_all add: steps uppers)
  then show ?case unfolding shown n(1) using first by (subst column_defs.simps) (simp add: ifS_run column_reads [OF cm(1) sep])
qed

lemma commas_longer: "(\<And>x. x \<in> set xs \<Longrightarrow> f x \<noteq> []) \<Longrightarrow> length xs \<le> length (commas (map f xs))"
proof (cases xs)
  case (Cons y ys)
  moreover have "length ys \<le> length (concat (map ((#) (pu '','')) (map f ys)))" by (induction ys) auto
  moreover assume "\<And>x. x \<in> set xs \<Longrightarrow> f x \<noteq> []"
  ultimately show ?thesis by (cases "f y") auto
qed simp

lemma create_reads:
  assumes "table_name_ok t" "list_all declarable cols"
  shows "create_table lib (show_create guarded t cols @ r) = (Inr (t, cols), pu '')'' # r)"
proof -
  have "length cols \<le> length (commas (map show_column cols))" by (rule commas_longer) (simp add: show_column_def)
  then have "in_state (\<lambda>fuel. column_defs lib fuel []) (commas (map show_column cols) @ pu '')'' # r) = (Inr cols, pu '')'' # r)"
    unfolding in_state_def using columns_read [OF assms(2), of _ lib "[]" r] by simp
  note run = bindS_Inr [where m = "in_state (\<lambda>fuel. column_defs lib fuel [])", OF this]
  have t: "upper t \<noteq> pystr_of ''IF''" using assms(1) by (simp add: table_name_ok_def)
  show ?thesis
    using t by (cases guarded; simp add: create_table_def show_create_def bindS_assoc bind_ifS steps uppers run; simp add: retS_def)
qed

section \<open>From the text to the registry\<close>

lemma token_ok_word_token: "word_shaped n \<Longrightarrow> token_ok (word_token n) \<and> show_token (word_token n) = n"
  proof -
  have "is_word 93 = False" by (simp add: is_word_def is_alpha_def is_digit_def)
  then have "list_all is_word w \<Longrightarrow> 93 \<notin> set w" for w by (auto simp: list_all_iff)
  then show "word_shaped n \<Longrightarrow> token_ok (word_token n) \<and> show_token (word_token n) = n"
    by (auto simp: word_token_def token_ok.simps show_token_def word_shaped_def is_alpha_def split: list.splits)
qed

lemma token_plain: "capital w \<Longrightarrow> show_token (word w) = tok_value (word w)" "show_token (pu p) = tok_value (pu p)"
  using capital_shape [of w] by (auto simp: word_def word_token_def upper_capital show_token_def pu_def)

lemma show_plain: "k \<noteq> IDENT \<Longrightarrow> show_token (Token k v) = v"
  by (simp add: show_token_def)

lemma show_default_tokens:
  assumes "default_ok d"
  shows "list_all token_ok (show_default d) \<and> list_all (\<lambda>t. show_token t = tok_value t) (show_default d)"
proof (cases d)
  case (Some x)
  show ?thesis
  proof (cases x)
    case [simp]: (Some v)
    show ?thesis
    proof (cases v)
      case (PInt i)
      then show ?thesis using nat_digits_digits by (simp add: \<open>d = Some x\<close> show_default_def show_literal_def token_oks token_plain show_plain token_ok.simps)
    next
      case (PStr s)
      then show ?thesis using assms by (simp add: \<open>d = Some x\<close> default_ok_def show_default_def token_oks token_plain show_plain token_ok.simps)
    qed (use assms in \<open>simp_all add: \<open>d = Some x\<close> default_ok_def\<close>)
  qed (simp add: \<open>d = Some x\<close> show_default_def token_oks token_plain)
qed (simp add: show_default_def)

lemma show_column_tokens:
  "declarable cm \<Longrightarrow> list_all token_ok (show_column cm) \<and> list_all (\<lambda>t. show_token t = tok_value t) (show_column cm)"
  using show_default_tokens [of "cm_default cm"] affinity_words(3) [of "cm_affinity cm"]
  by (auto simp: declarable_def show_column_def token_ok_word_token token_oks token_plain)

lemma commas_all: "(\<And>x. x \<in> set xs \<Longrightarrow> list_all P (f x)) \<Longrightarrow> P (pu '','') \<Longrightarrow> list_all P (commas (map f xs))"
  by (cases xs) (auto simp: list_all_iff)

lemma show_create_tokens:
  assumes "table_name_ok t" "list_all declarable cols"
  shows "list_all token_ok (show_create guarded t cols)" and "list_all (\<lambda>t. show_token t = tok_value t) (show_create guarded t cols)"
proof -
  have cols: "list_all token_ok (commas (map show_column cols)) \<and> list_all (\<lambda>t. show_token t = tok_value t) (commas (map show_column cols))"
    using assms(2) show_column_tokens by (intro conjI commas_all) (auto simp: list_all_iff token_oks token_plain)
  have "word_shaped t" using assms(1) by (simp add: table_name_ok_def)
  with cols show "list_all token_ok (show_create guarded t cols)"
    "list_all (\<lambda>t. show_token t = tok_value t) (show_create guarded t cols)"
    by (simp_all add: show_create_def token_ok_word_token token_oks token_plain)
qed

declare words.simps [simp del]

lemma words_blank: "words (32 # s) = words s"
  by (subst (1 2) words.simps) (simp add: space_is_no)

lemma words_word: "list_all (\<lambda>c. \<not> is_space c) w \<Longrightarrow> w \<noteq> [] \<Longrightarrow> words (w @ 32 # s) = w # words s"
proof (cases w)
  case (Cons c r)
  moreover assume "list_all (\<lambda>c. \<not> is_space c) w"
  moreover from this Cons have "takeWhile (\<lambda>d. \<not> is_space d) (r @ 32 # s) = r \<and> dropWhile (\<lambda>d. \<not> is_space d) (r @ 32 # s) = 32 # s"
    by (intro span_all) (auto simp: space_is_no)
  ultimately show ?thesis by (subst words.simps) (simp add: words_blank)
qed simp

lemma create_kind:
  assumes "ts = word ''CREATE'' # word ''TABLE'' # u" "u \<noteq> []" "list_all token_ok u"
  shows "ddl_kind_of (pystr_of ''CREATE'') (join_values (ts @ [the_end])) = CreateTable"
proof -
  have blanks: "list_all (\<lambda>c. \<not> is_space c) (pystr_of ''CREATE'')" "list_all (\<lambda>c. \<not> is_space c) (pystr_of ''TABLE'')"
    "pystr_of ''CREATE'' \<noteq> []" "pystr_of ''TABLE'' \<noteq> []"
    by (simp_all add: pystr_of_def is_space_def)
  have "join_values (ts @ [the_end]) = pystr_of ''CREATE'' @ 32 # pystr_of ''TABLE'' @ 32 # join_values (u @ [the_end])"
    using assms(2) join_last [OF assms(3)] by (simp add: assms(1) at_eof_def is_type_def)
  then have "words (join_values (ts @ [the_end])) = pystr_of ''CREATE'' # pystr_of ''TABLE'' # words (join_values (u @ [the_end]))"
    using blanks by (simp add: words_word)
  then show ?thesis by (simp add: ddl_kind_of_def word_is_def upper_capital Let_def)
qed

lemma create_text_parses:
  assumes "list_all token_ok u" and "u \<noteq> []"
  defines "ts \<equiv> word ''CREATE'' # word ''TABLE'' # u"
  shows "parse lib (ts @ [the_end]) = (Inr (DDLS CreateTable (join_values (ts @ [the_end]))), [the_end])"
    and "parse_sql lib (show_tokens ts) = Inr (DDLS CreateTable (join_values (ts @ [the_end])))"
proof -
  have ok: "list_all token_ok ts" using assms(1) by (simp add: ts_def token_oks)
  then have "list_all (\<lambda>t. tok_type t \<noteq> EOF) ts"
    by (auto simp: list_all_iff) (metis token_ok.simps(11) token.collapse)
  then have rest: "dropWhile (\<lambda>t. tok_type t \<noteq> EOF) (ts @ [the_end]) = [the_end]" by (induction ts) (auto simp: list_all_iff)
  have kind: "ddl_kind_of (pystr_of ''CREATE'') (join_values (ts @ [the_end])) = CreateTable"
    using create_kind [OF _ assms(2,1), of ts] by (simp add: ts_def)
  show p: "parse lib (ts @ [the_end]) = (Inr (DDLS CreateTable (join_values (ts @ [the_end]))), [the_end])"
    using rest kind unfolding ts_def
    by (simp add: parse_def parse_body_def parse_ddl_def raw_rest_def steps upper_capital Let_def bindS_Inr at_eof_def)
  show "parse_sql lib (show_tokens ts) = Inr (DDLS CreateTable (join_values (ts @ [the_end])))"
    using p scan_shown [OF ok] by (simp add: parse_sql_def tokenize_def strip_def)
qed

lemma create_parses:
  assumes "table_name_ok t" "list_all declarable cols"
  shows "parse_sql lib (show_tokens (show_create guarded t cols)) = Inr (DDLS CreateTable (join_values (show_create guarded t cols @ [the_end])))"
proof -
  obtain u where u: "show_create guarded t cols = word ''CREATE'' # word ''TABLE'' # u" "u \<noteq> []" by (simp add: show_create_def)
  then have "list_all token_ok u" using show_create_tokens(1) [OF assms, of guarded] by simp
  from create_text_parses(2) [OF this u(2)] show ?thesis unfolding u(1) .
qed

lemma create_applies:
  assumes "table_name_ok t" "list_all declarable cols"
  shows "apply_ddl lib cat CreateTable (join_values (show_create guarded t cols @ [the_end])) = Inr (cat_register cat t cols)"
  using create_reads [OF assms, of lib guarded "[the_end]"] scan_joined [OF show_create_tokens [OF assms, of guarded]]
  by (simp add: apply_ddl_def apply_create_table_def read_ddl_def tokenize_def strip_def)

text \<open>
  C22. CREATE TABLE from its text: a list of columns, each with a name, an affinity, PRIMARY KEY, NOT NULL and a default as
  declared, with or without IF NOT EXISTS, is written as a text that the tokenizer and the parser turn into a DDL
  statement; the catalog, which tokenizes what the statement kept of the text again, registers exactly these columns
  under the name, and changes no other table and no index.
\<close>

theorem create_table_registers:
  assumes "table_name_ok t" "list_all declarable cols"
  shows "\<exists>raw cat'. parse_sql lib (show_tokens (show_create guarded t cols)) = Inr (DDLS CreateTable raw) \<and>
     apply_ddl lib cat CreateTable raw = Inr cat' \<and>
     map_of (cat_tables cat') = (map_of (cat_tables cat))(t \<mapsto> cols) \<and> cat_indexes cat' = cat_indexes cat"
  using create_parses [OF assms, of lib guarded] create_applies [OF assms, of lib cat guarded]
  by (intro exI conjI) (assumption, assumption, simp_all add: cat_register_def)

definition demo_columns :: "column_meta list" where
  \<comment> \<open>\<open>k TEXT PRIMARY KEY NOT NULL, n INTEGER DEFAULT 0, v TEXT DEFAULT ''\<close>\<close>
  "demo_columns =
     [\<lparr>cm_name = [107], cm_affinity = pystr_of ''TEXT'', cm_nullable = False, cm_primary_key = True, cm_default = None\<rparr>,
      \<lparr>cm_name = [110], cm_affinity = pystr_of ''INTEGER'', cm_nullable = True, cm_primary_key = False, cm_default = Some (Some (PInt 0))\<rparr>,
      \<lparr>cm_name = [118], cm_affinity = pystr_of ''TEXT'', cm_nullable = True, cm_primary_key = False, cm_default = Some (Some (PStr []))\<rparr>]"

theorem create_table_registers_witness:
  "\<exists>raw cat'. parse_sql plain_lib (show_tokens (show_create True [116] demo_columns)) = Inr (DDLS CreateTable raw) \<and>
     apply_ddl plain_lib \<lparr>cat_tables = [], cat_indexes = []\<rparr> CreateTable raw = Inr cat' \<and>
     map_of (cat_tables cat') = (map_of [])([116] \<mapsto> demo_columns) \<and> cat_indexes cat' = []"
proof -
  have "table_name_ok [116]" by (simp add: table_name_ok_def word_shaped_def is_alpha_def upper_def upper_char_def pystr_of_def)
  moreover have "list_all declarable demo_columns"
    by (simp add: demo_columns_def declarable_def default_ok_def word_shaped_def is_alpha_def upper_def upper_char_def column_words_def
        nat_digits.simps pystr_of_def)
  ultimately show ?thesis
    using create_table_registers [of "[116]" demo_columns plain_lib True "\<lparr>cat_tables = [], cat_indexes = []\<rparr>"] by simp
qed

section \<open>Texts the catalog reads otherwise\<close>

abbreviation text_column :: "pystr \<Rightarrow> pystr \<Rightarrow> pyval option option \<Rightarrow> column_meta" where
  "text_column n a d \<equiv> \<lparr>cm_name = n, cm_affinity = a, cm_nullable = True, cm_primary_key = False, cm_default = d\<rparr>"

lemma bind_in_state: "bindS (in_state p) f ts = bindS (p (Suc (length ts))) f ts"
  by (simp add: bindS_def in_state_def)

lemma bind_column_defs:
  "bindS (column_defs lib (Suc n) acc) f (t # ts) =
     (if upper (tok_value t) \<in> set (map pystr_of ['')'', []]) then f acc (t # ts)
      else if upper (tok_value t) \<in> set (map pystr_of column_words)
           then bindS (table_constraint lib acc) (\<lambda>cms. bindS (column_defs lib n cms) f) (t # ts)
      else bindS (column_def lib) (\<lambda>cm. bindS (column_defs lib n (acc @ [cm])) f) (t # ts))"
  by (subst column_defs.simps) (simp add: bind_ifS bindS_assoc ddl_steps column_words_def)

lemma bind_stray:
  \<comment> \<open>a value no constraint begins with ends the constraints of a column\<close>
  "upper (tok_value t) \<notin> set (map pystr_of [''PRIMARY'', ''NOT'', ''AUTOINCREMENT'', ''UNIQUE'', ''DEFAULT'', ''REFERENCES'']) \<Longrightarrow>
     bindS (column_constraints lib (Suc n) cf) f (t # ts) = f cf (t # ts)"
  by (subst column_constraints.simps) (simp add: bind_ifS ddl_steps)

lemma bind_column_type:
  "bindS (column_type stop) f (t # ts) =
     (if tok_type t \<in> {KEYWORD, IDENT} \<and> upper (tok_value t) \<notin> set (map pystr_of stop) then f (affinity_for (tok_value t)) ts
      else f (pystr_of ''TEXT'') (t # ts))"
  by (auto simp: column_type_def bind_ifS bindS_assoc ddl_steps is_name_def at_steps)

text \<open>
  The length of a type, as in \<open>a VARCHAR(10), b TEXT\<close>, is no constraint the catalog knows: its bracket and its
  number become columns, and the closing bracket ends the list before the columns behind it.
\<close>

theorem sized_type_loses_columns:
  "create_table lib [word ''CREATE'', word ''TABLE'', ident [116], pu ''('', ident [97], word ''VARCHAR'', pu ''('',
      Token INTEGER (pystr_of ''10''), pu '')'', pu '','', ident [98], word ''TEXT'', pu '')'', the_end]
   = (Inr ([116], [text_column [97] (pystr_of ''TEXT'') None, text_column (pystr_of ''('') (pystr_of ''TEXT'') None,
             text_column (pystr_of ''10'') (pystr_of ''TEXT'') None]),
      [pu '')'', pu '','', ident [98], word ''TEXT'', pu '')'', the_end])"
proof -
  have up: "upper [116] = pystr_of ''T''" "upper [97] = pystr_of ''A''" "upper (pystr_of ''10'') = pystr_of ''10''" "capital ''VARCHAR''"
    by (simp_all add: upper_def upper_char_def pystr_of_def capital_def)
  have aff: "affinity_for (pystr_of ''VARCHAR'') = pystr_of ''TEXT''" 
    using upper_capital [OF up(4)] by (simp add: affinity_for_def affinity_table_def AFFINITY_MAP_def)
  show ?thesis
    by (simp add: create_table_def column_def_def bindS_assoc bind_ifS ddl_steps bind_in_state bind_column_defs bind_stray
        bind_column_type column_words_def uppers up aff)
qed

text \<open>
  \<open>x''\<close> is one BLOB token, not the two tokens the catalog expects, so a column declared
  \<open>DEFAULT x''\<close> gets the string \<open>x''\<close> and not the empty byte string.
\<close>

theorem blob_default_is_text:
  assumes "lib_float lib [120, 39, 39] = None"
  shows "default_value lib (Token BLOB [120, 39, 39] # r) = (Inr (Some (PStr [120, 39, 39])), r)"
  using assms by (simp add: default_value_def steps retS_def number_or_word_def py_int_of_def strip_def is_space_def is_digit_def
      upper_def upper_char_def pystr_of_def)

section \<open>Every DDL text is read to an end\<close>

lemma ddl_basics_take [taking]:
  "takes n 1 advance_value" "takes n 0 advance_value" "takes n 0 (expect_value v)" "takes n 0 (skip_if w)"
  by (auto simp: takes_def advance_value_def expect_value_def skip_if_def advance_def ifS_def bindS_def raiseS_def retS_def
      split: list.splits sum.splits)

lemma default_value_takes [taking]: "takes n 0 (default_value lib)"
  unfolding default_value_def by (intro takes_bind taking fromhex_ends)

lemma references_takes: "takes n 1 references_clause"
  unfolding references_clause_def by (intro takes_then takes_bind taking)

lemma column_constraints_takes: "n < fuel \<Longrightarrow> takes n 0 (column_constraints lib fuel cf)"
proof (induction fuel arbitrary: n cf)
  case (Suc fuel)
  have fewer: "n = Suc n' \<Longrightarrow> n' < fuel" for n' using Suc.prems by simp
  show ?case
    by (subst column_constraints.simps)
       (intro takes_basic(5) taking takes_then0 [OF takes_basic(6)] takes_then0 [OF references_takes] takes_bind [OF takes_basic(7)]
          takes_bind [OF ddl_basics_take(4)] takes_bind [OF default_value_takes] Suc.IH fewer; assumption)
qed simp

lemma column_type_takes [taking]: "takes n 0 (column_type stop)"
  unfolding column_type_def by (intro takes_bind taking)

lemma column_def_takes: "takes n 1 (column_def lib)"
  unfolding column_def_def by (intro takes_then takes_bind taking column_constraints_takes) simp

lemma constraint_columns_length: "length (snd (constraint_columns d ts)) \<le> length ts"
  by (induction d ts rule: constraint_columns.induct) (auto simp: Let_def split: prod.splits)

lemma table_constraint_takes:
  "takes n 1 (ifS (next_in [''PRIMARY'', ''UNIQUE'', ''CHECK'', ''FOREIGN'', ''CONSTRAINT'']) (table_constraint lib columns) (raiseS IndexError))"
  unfolding takes_def
proof (intro allI impI)
  fix ts r ts'
  let ?guard = "next_in [''PRIMARY'', ''UNIQUE'', ''CHECK'', ''FOREIGN'', ''CONSTRAINT'']"
  assume n: "length ts \<le> n" and run: "ifS ?guard (table_constraint lib columns) (raiseS IndexError) ts = (r, ts')"
  show "r \<noteq> Inl Diverges \<and> (\<forall>x. r = Inr x \<longrightarrow> length ts' + 1 \<le> length ts)"
  proof (cases "?guard ts")
    case True
    then obtain t u where ts: "ts = t # u" by (cases ts) (auto simp: next_in_def next_upper_def pystr_of_def)
    with True have t: "tok_value t \<noteq> pystr_of ''(''" by (auto simp: ddl_steps upper_punct)
    define rest where "rest = (case dropWhile (\<lambda>t. tok_value t \<noteq> pystr_of ''('') ts of [] \<Rightarrow> ([], []) | _ # r \<Rightarrow> constraint_columns 1 r)"
    have "dropWhile (\<lambda>t. tok_value t \<noteq> pystr_of ''('') ts = dropWhile (\<lambda>t. tok_value t \<noteq> pystr_of ''('') u" using t by (simp add: ts)
    then have len: "length (snd rest) \<le> length u"
      using constraint_columns_length [of 1] length_dropWhile_le [of "\<lambda>t. tok_value t \<noteq> pystr_of ''(''" u]
      by (auto simp: rest_def split: list.splits) (meson Suc_leD le_trans)
    define f where "f = (if next_in [''PRIMARY''] ts then mark_primary lib (fst rest) columns else columns)"
    have "bindS (skip_if '','') (\<lambda>_. retS f) (snd rest) = (r, ts')"
      using run True by (cases "next_in [''PRIMARY''] ts") (simp_all add: ifS_def table_constraint_def rest_def [symmetric] f_def case_prod_beta Let_def)
    moreover have "takes (length u) 0 (bindS (skip_if '','') (\<lambda>_. retS f))" by (intro takes_bind taking)
    ultimately show ?thesis using takesD [of "length u" 0 "bindS (skip_if '','') (\<lambda>_. retS f)" "snd rest"] len ts
      by (cases r) fastforce+
  qed (use run in \<open>auto simp: ifS_def raiseS_def\<close>)
qed

lemma column_defs_takes: "n < fuel \<Longrightarrow> takes n 0 (column_defs lib fuel columns)"
proof (induction fuel arbitrary: n columns)
  case (Suc fuel)
  let ?guard = "next_in [''PRIMARY'', ''UNIQUE'', ''CHECK'', ''FOREIGN'', ''CONSTRAINT'']"
  have fewer: "n = Suc n' \<Longrightarrow> n' < fuel" for n' using Suc.prems by simp
  let ?guarded = "ifS ?guard (table_constraint lib columns) (raiseS IndexError)"
  have guarded: "ifS ?guard (bindS (table_constraint lib columns) f) m = ifS ?guard (bindS ?guarded f) m" for f m
    by (auto simp: ifS_def bindS_def)
  show ?case
    unfolding column_defs.simps guarded
    by (intro takes_basic(5) taking takes_then0 [OF table_constraint_takes] takes_then0 [OF column_def_takes] Suc.IH fewer)
qed simp

lemma create_table_takes: "takes n 0 (create_table lib)"
  unfolding create_table_def by (intro takes_bind taking column_defs_takes) simp

lemma other_ddl_take:
  "takes n 0 add_column" "takes n 0 drop_column" "takes n 0 rename_table" "takes n 0 drop_table" "takes n 0 create_index"
  unfolding add_column_def drop_column_def rename_table_def drop_table_def create_index_def after_alter_def
  by (intro takes_bind taking; simp add: takes_def)+

lemma read_ddl_ends: "(\<And>n. takes n 0 p) \<Longrightarrow> read_ddl p raw \<noteq> Inl Diverges"
proof (cases "tokenize raw")
  case (Inl e)
  then show ?thesis by (auto simp: read_ddl_def tokenize_def split: prod.splits if_splits)
next
  case (Inr ts)
  assume "\<And>n. takes n 0 p"
  then show ?thesis using takesD(1) [of "length ts" 0 p ts] Inr by (cases "p ts") (auto simp: read_ddl_def)
qed

text \<open>
  Whatever the text of a DDL statement, the catalog reads it to an end and either changes the registry or raises:
  the loops over columns, constraints and brackets take a token in every round.
\<close>

theorem apply_ddl_ends: "apply_ddl lib cat kind raw \<noteq> Inl Diverges"
  using read_ddl_ends [OF create_table_takes, of lib raw] read_ddl_ends [OF other_ddl_take(1), of raw] read_ddl_ends [OF other_ddl_take(2), of raw]
    read_ddl_ends [OF other_ddl_take(3), of raw] read_ddl_ends [OF other_ddl_take(4), of raw] read_ddl_ends [OF other_ddl_take(5), of raw]
  by (cases kind)
     (auto simp: apply_ddl_def apply_create_table_def apply_alter_add_column_def apply_alter_drop_column_def apply_alter_rename_def
        apply_drop_table_def apply_create_index_def cat_get_def bindR_def Let_def split: sum.splits option.splits)

end
