(* ===== verification/MetaRows.thy ===== *)
theory MetaRows
  imports MetaTable IntegrityClean SqlDdlRoundTrip
begin

text \<open>
  The rows of the bootstrap table as a log of the schema: what replaying them gives when a table has been
  added, and how a row is added on the pages. Between these lie a frame rule for trees on the same pages and
  the space the file needs.
\<close>

section \<open>What the rows say\<close>

definition numbered :: "pyval list list \<Rightarrow> bool" where
  \<comment> \<open>every DDL row carries a number below the number of DDL rows\<close>
  "numbered rows \<longleftrightarrow>
     (\<forall>row \<in> set rows. is_row ''ddl'' row \<longrightarrow> (\<exists>q. py_int (row ! 1) = Inr q \<and> q < ddl_count rows))"

definition persists :: "pylib \<Rightarrow> pyval list list \<Rightarrow> schema \<Rightarrow> bool" where
  \<comment> \<open>replaying these rows gives this schema\<close>
  "persists lib rows sch \<longleftrightarrow> numbered rows \<and>
     (\<exists>roots. replay_rows lib rows = Inr \<lparr>sch_catalog = sch_catalog sch, sch_root_map = roots\<rparr> \<and>
        map_of roots = map_of (sch_root_map sch))"

lemma meta_entries_append:
  "meta_entries lib (xs @ ys) = bindR (meta_entries lib xs) (\<lambda>(a, b). bindR (meta_entries lib ys) (\<lambda>(c, d). Inr (a @ c, b @ d)))"
proof (induction xs)
  case Nil
  show ?case by (cases "meta_entries lib ys") auto
next
  case (Cons row xs)
  show ?case by (cases "py_int (row ! 1)"; cases "py_int (row ! 2)"; cases "meta_entries lib xs"; cases "meta_entries lib ys") (auto simp: Cons)
qed

lemma meta_row_kinds:
  "is_row ''ddl'' (ddl_row q s)" "\<not> is_row ''root'' (ddl_row q s)" "\<not> is_row ''ddl'' (root_row n p)" "is_row ''root'' (root_row n p)"
  by (simp_all add: is_row_def ddl_row_def root_row_def pystr_of_def)

lemma new_entries: "meta_entries lib [ddl_row q s, root_row n p] = Inr ([(q, s)], [(n, p)])"
  by (simp add: meta_row_kinds) (simp add: ddl_row_def root_row_def str_of_def py_str_def py_int_def)

lemma ddl_count_append: "ddl_count (xs @ ys) = ddl_count xs + ddl_count ys"
  by (simp add: ddl_count_def)

lemma ddl_count_rows: "ddl_count [ddl_row q s, root_row n p] = 1"
  by (simp add: ddl_count_def ddl_row_def root_row_def pystr_of_def)

lemma meta_entries_numbers:
  assumes "meta_entries lib rows = Inr (ddls, roots)" and "(q, s) \<in> set ddls"
  obtains row where "row \<in> set rows" "is_row ''ddl'' row" "py_int (row ! 1) = Inr q"
proof -
  have "\<exists>row \<in> set rows. is_row ''ddl'' row \<and> py_int (row ! 1) = Inr q"
    using assms
  proof (induction rows arbitrary: ddls roots)
    case (Cons row rows)
    then show ?case by (fastforce simp: bindR_eq_Inr_iff split: if_splits)
  qed simp
  then show thesis using that by blast
qed

lemma sort_key_last:
  assumes "\<forall>x \<in> set xs. f x \<le> f y"
  shows "sort_key f (xs @ [y]) = sort_key f xs @ [y]"
proof (rule properties_for_sort_key)
  show "mset (sort_key f xs @ [y]) = mset (xs @ [y])" by simp
  show "filter (\<lambda>k'. f k = f k') (sort_key f xs @ [y]) = filter (\<lambda>k'. f k = f k') (xs @ [y])" for k
    using sort_key_stable [of f "f k" xs] by (simp add: eq_commute [of "f k"])
  show "sorted (map f (sort_key f xs @ [y]))" using assms by (auto simp: sorted_append)
qed

lemma replay_append:
  "replay_ddl lib (xs @ [s]) cat = bindR (replay_ddl lib xs cat) (replay_ddl lib [s])"
proof (induction xs arbitrary: cat)
  case (Cons x xs)
  show ?case by (cases "parse_sql lib x") (auto simp: Cons bindR_assoc intro!: bindR_cong split: stmt.splits)
qed simp

lemma dict_of_append: "dict_of (xs @ [(k, v)]) = dict_put k v (dict_of xs)"
  by (simp add: dict_of_def)

lemma map_of_filter_keys: "map_of (filter (\<lambda>(k, v). P k) xs) k = (if P k then map_of xs k else None)"
  by (induction xs) auto

lemma replay_rows_append:
  assumes p: "persists lib rows sch" and parse: "parse_sql lib ddl = Inr (DDLS kind raw)"
  obtains rts where "replay_rows lib (rows @ [ddl_row (ddl_count rows) ddl, root_row t root]) =
      bindR (apply_ddl lib (sch_catalog sch) kind raw) (\<lambda>cat. Inr \<lparr>sch_catalog = cat,
        sch_root_map = filter (\<lambda>(name, root). map_of (cat_tables cat) name \<noteq> None) (dict_put t root (dict_of rts))\<rparr>)"
    "map_of (filter (\<lambda>(name, root). map_of (cat_tables (sch_catalog sch)) name \<noteq> None) (dict_of rts)) = map_of (sch_root_map sch)"
proof -
  let ?c0 = "\<lparr>cat_tables = [], cat_indexes = []\<rparr>" and ?q = "ddl_count rows"
  obtain ddls rts roots where e: "meta_entries lib rows = Inr (ddls, rts)"
    "replay_ddl lib (map snd (sort_key fst ddls)) ?c0 = Inr (sch_catalog sch)"
    and roots: "roots = filter (\<lambda>(name, root). map_of (cat_tables (sch_catalog sch)) name \<noteq> None) (dict_of rts)"
      "map_of roots = map_of (sch_root_map sch)" and num: "numbered rows"
    using p by (auto simp: persists_def replay_rows_def bindR_eq_Inr_iff)
  have e': "meta_entries lib (rows @ [ddl_row ?q ddl, root_row t root]) = Inr (ddls @ [(?q, ddl)], rts @ [(t, root)])"
    by (simp add: meta_entries_append e(1) new_entries del: meta_entries.simps)
  have "fst x \<le> fst (?q, ddl)" if "x \<in> set ddls" for x
  proof -
    from that have "(fst x, snd x) \<in> set ddls" by simp
    from meta_entries_numbers [OF e(1) this] obtain row where "row \<in> set rows" "is_row ''ddl'' row" "py_int (row ! 1) = Inr (fst x)" .
    then show ?thesis using num by (auto simp: numbered_def)
  qed
  then have "sort_key fst (ddls @ [(?q, ddl)]) = sort_key fst ddls @ [(?q, ddl)]" by (intro sort_key_last ballI)
  then have "replay_ddl lib (map snd (sort_key fst (ddls @ [(?q, ddl)]))) ?c0 = apply_ddl lib (sch_catalog sch) kind raw"
    using e(2) parse by (simp add: replay_append del: replay_ddl.simps) (cases "apply_ddl lib (sch_catalog sch) kind raw"; simp)
  then show thesis using that [of rts] roots by (simp add: replay_rows_def e' dict_of_append)
qed

lemma replay_refused:
  assumes "persists lib rows sch" and "parse_sql lib ddl = Inr (DDLS kind raw)" and "apply_ddl lib (sch_catalog sch) kind raw = Inl e"
  shows "replay_rows lib (rows @ [ddl_row (ddl_count rows) ddl, root_row t root]) = Inl e"
  using replay_rows_append [OF assms(1,2), of t root] assms(3) by auto

lemma persists_create:
  assumes p: "persists lib rows sch" and parse: "parse_sql lib ddl = Inr (DDLS kind raw)"
    and app: "apply_ddl lib (sch_catalog sch) kind raw = Inr cat"
    and new: "dom (map_of (cat_tables cat)) = insert t (dom (map_of (cat_tables (sch_catalog sch))))"
  shows "persists lib (rows @ [ddl_row (ddl_count rows) ddl, root_row t root])
     \<lparr>sch_catalog = cat, sch_root_map = dict_put t root (sch_root_map sch)\<rparr>"
proof -
  let ?rows = "rows @ [ddl_row (ddl_count rows) ddl, root_row t root]"
  obtain rts where r: "replay_rows lib ?rows = bindR (apply_ddl lib (sch_catalog sch) kind raw) (\<lambda>cat. Inr \<lparr>sch_catalog = cat,
        sch_root_map = filter (\<lambda>(name, root). map_of (cat_tables cat) name \<noteq> None) (dict_put t root (dict_of rts))\<rparr>)"
    "map_of (filter (\<lambda>(name, root). map_of (cat_tables (sch_catalog sch)) name \<noteq> None) (dict_of rts)) = map_of (sch_root_map sch)"
    by (rule replay_rows_append [OF p parse])
  have in_cat: "map_of (cat_tables cat) name \<noteq> None \<longleftrightarrow> name = t \<or> map_of (cat_tables (sch_catalog sch)) name \<noteq> None" for name
    using new by (auto simp: dom_def set_eq_iff)
  have "map_of (filter (\<lambda>(name, root). map_of (cat_tables cat) name \<noteq> None) (dict_put t root (dict_of rts))) = map_of (dict_put t root (sch_root_map sch))"
    unfolding in_cat map_of_dict_put r(2) [symmetric] by (rule ext) (simp add: map_of_filter_keys)
  moreover have "numbered ?rows"
    unfolding numbered_def ddl_count_append ddl_count_rows
  proof (intro ballI impI)
    fix row assume "row \<in> set ?rows" "is_row ''ddl'' row"
    then consider "row \<in> set rows" "is_row ''ddl'' row" | "row = ddl_row (ddl_count rows) ddl" by (auto simp: meta_row_kinds)
    then show "\<exists>q. py_int (row ! 1) = Inr q \<and> q < ddl_count rows + 1"
      using p by cases (force simp: persists_def numbered_def, simp add: ddl_row_def py_int_def)
  qed
  ultimately show ?thesis using r(1) app by (simp add: persists_def)
qed

section \<open>Trees and pages\<close>

lemma tree_frame:
  \<comment> \<open>a tree whose pages are kept is kept\<close>
  assumes t: "tree_at st L d u" and sp: "space st' L'" and sub: "set (tree_pages u) \<subseteq> L'"
    and same: "\<forall>p \<in> set (tree_pages u). st_pages st' p = st_pages st p"
  shows "tree_at st' L' d u"
proof -
  have "linked (st_pages st') (leaves u) 0 = linked (st_pages st) (leaves u) 0"
    using same leaves_in_pages [of u] by (intro linked_cong) auto
  then show ?thesis using t sp sub stored_cong [OF same] by (simp add: tree_at_def)
qed

lemma extend_space:
  assumes sp: "space st L" and rm: "room 1 st"
  obtains st' where "store_extend st = (Inr (store_hdr st HDbSize + 1), st')" "space st' (insert (store_hdr st HDbSize + 1) L)"
    "keeps L st st'" "store_hdr st HDbSize + 1 \<notin> L" "store_hdr st' HDbSize = store_hdr st HDbSize + 1"
proof -
  define n where "n = store_hdr st HDbSize + 1"
  define st' where "st' = set_hdr HDbSize n (set_page n (replicate PAGE_SIZE 0) st)"
  obtain ts where fl: "free_list st ts" and L: "L = {p. 1 < p \<and> p \<le> store_hdr st HDbSize} - set (stack_pages ts)"
    using sp by (auto simp: space_def)
  have ok: "hdr_page_ok st" and n: "1 < n" "n < 2 ^ 32" using fl rm by (simp_all add: n_def free_list_def room_def)
  have ok': "hdr_page_ok (set_page n (replicate PAGE_SIZE 0) st)" using ok n by simp
  have hdr: "store_hdr st' f = (if f = HDbSize then n else store_hdr st f)" for f using ok' n by (simp add: st'_def)
  have same: "st_pages st' p = st_pages st p" if "1 < p" "p \<le> store_hdr st HDbSize" for p
    using that by (simp add: st'_def n_def set_hdr_def set_page_def)
  have st: "\<forall>p \<in> set (stack_pages ts). 1 < p \<and> p \<le> store_hdr st HDbSize" using fl by (simp add: free_list_def)
  then have "chain (st_pages st') t ts = chain (st_pages st) t ts" for t
    using same trunks_in_pages [of ts] by (intro chain_cong) blast
  moreover have "hdr_page_ok st'" using ok' by (simp add: st'_def)
  moreover have "\<forall>p \<in> set (stack_pages ts). 1 < p \<and> p \<le> n" using st by (auto simp: n_def)
  ultimately have "free_list st' ts" using fl by (simp add: free_list_def hdr)
  moreover have "insert n L = {p. 1 < p \<and> p \<le> n} - set (stack_pages ts)" using L st n by (auto simp: n_def)
  ultimately have "space st' (insert n L)" unfolding space_def by (intro exI [of _ ts]) (simp add: hdr)
  moreover have "keeps L st st'" using L same by (auto simp: keeps_def st'_def set_hdr_def set_page_def)
  moreover have "store_extend st = (Inr n, st')" using store_extend_run [OF ok] n by (simp add: n_def st'_def)
  ultimately show thesis using L hdr [of HDbSize] that [of st'] by (simp add: n_def)
qed

lemma sorted_map_unique:
  fixes xs ys :: "('k :: linorder \<times> 'v) list"
  assumes "sorted_wrt (<) (map fst xs)" and "sorted_wrt (<) (map fst ys)" and "map_of xs = map_of ys"
  shows "xs = ys"
proof -
  have d: "distinct (map fst xs)" "sorted (map fst xs)" "distinct (map fst ys)" "sorted (map fst ys)"
    using assms(1,2) by (simp_all add: strict_sorted_iff)
  have "set (map fst xs) = set (map fst ys)" using assms(3) by (metis dom_map_of_conv_image_fst list.set_map)
  then have keys: "map fst xs = map fst ys" using d by (intro sorted_distinct_set_unique)

  have graph: "zs = map (\<lambda>k. (k, the (map_of zs k))) (map fst zs)" if "distinct (map fst zs)" for zs :: "('k \<times> 'v) list"
  proof (rule nth_equalityI)
    fix i assume i: "i < length zs"
    then have "map_of zs (fst (zs ! i)) = Some (snd (zs ! i))" using that by (intro map_of_is_SomeI) simp_all
    then show "zs ! i = map (\<lambda>k. (k, the (map_of zs k))) (map fst zs) ! i" using i by simp
  qed simp
  show ?thesis using graph [OF d(1)] graph [OF d(3)] keys assms(3) by metis
qed

section \<open>One more row\<close>

definition meta_tree :: "store \<Rightarrow> nat set \<Rightarrow> nat \<Rightarrow> btree \<Rightarrow> pyval list list \<Rightarrow> bool" where
  \<comment> \<open>the bootstrap table is stored, and these are its rows\<close>
  "meta_tree st L d t rows \<longleftrightarrow> tree_at st L d t \<and> tpage t = META_TABLE_PAGE \<and>
     (\<exists>krs. decoded_cells (map cell_kv (cells t)) = Inr krs \<and> map snd krs = rows)"

definition plain_text :: "pyval list \<Rightarrow> bytes \<Rightarrow> bool" where
  \<comment> \<open>a row the codec stores as it is\<close>
  "plain_text row payload \<longleftrightarrow> encode_record row = Inr payload \<and> length row \<le> 1820 \<and> length payload < 2 ^ 62 \<and> map RecordCodec.stored row = row"

lemma decoded_append:
  assumes "decoded_cells kvs = Inr krs" and "plain_text row payload"
  shows "decoded_cells (kvs @ [(k, payload)]) = Inr (krs @ [(k, row)])"
proof -
  have "decode_record payload 0 = Inr (row, length payload)"
    using small_record_roundtrip [of row payload "[]" "[]"] assms(2) by (simp add: plain_text_def)
  moreover have "mapR f (xs @ [x]) = bindR (mapR f xs) (\<lambda>ys. bindR (f x) (\<lambda>y. Inr (ys @ [y])))" for f :: "int \<times> bytes \<Rightarrow> (int \<times> pyval list) res" and xs x
    by (induction xs) (auto simp: bindR_assoc intro!: bindR_cong)
  ultimately show ?thesis using assms(1) by (simp add: decoded_cells_def)
qed

lemma next_meta_key_snoc [simp]: "next_meta_key (ys @ [kv]) = fst kv + 1"
  by (cases ys) (simp_all add: next_meta_key_def)

lemma last_key_greatest:
  assumes "sorted_wrt (<) (map fst kvs)" and "(k, v) \<in> set kvs"
  shows "k < next_meta_key kvs"
proof -
  have "kvs \<noteq> []" using assms(2) by auto
  then obtain ys k' v' where kvs: "kvs = ys @ [(k', v')]" by (metis rev_exhaust surj_pair)
  then show ?thesis using assms unfolding kvs by (force simp: sorted_wrt_append)
qed

lemma meta_key_range: "meta_tree st L d t rows \<Longrightarrow> 0 \<le> next_meta_key (map cell_kv (cells t))"
proof -
  assume m: "meta_tree st L d t rows"
  show ?thesis
  proof (cases "map cell_kv (cells t)" rule: rev_cases)
    case (snoc ys kv)
    then have "(fst kv, snd kv) \<in> set (map cell_kv (cells t))" by simp
    then have "0 \<le> fst kv" using m tree_key_range unfolding meta_tree_def by blast
    then show ?thesis unfolding snoc by simp
  qed (simp add: next_meta_key_def)
qed

definition walk_fuel :: "nat \<Rightarrow> store \<Rightarrow> btree \<Rightarrow> bool" where
  \<comment> \<open>enough fuel for every walk over a tree: more than its rows and than the pages of the file\<close>
  "walk_fuel fuel st t \<longleftrightarrow> length (cells t) < fuel \<and> store_hdr st HDbSize < fuel"

lemma meta_rows_run:
  assumes m: "meta_tree st L d t rows" and fuel: "walk_fuel fuel st t"
  shows "scan_cells_of store_ops fuel META_TABLE_PAGE st = (Inr (map cell_kv (cells t)), st)"
    and "meta_next_key store_ops fuel st = (Inr (next_meta_key (map cell_kv (cells t))), st)"
    and "read_meta_rows store_ops fuel st = (Inr rows, st)"
proof -
  have t: "tree_at st L d t" "tpage t = META_TABLE_PAGE" using m by (simp_all add: meta_tree_def)
  have "d < fuel" "length (leaves t) < fuel" using tree_sizes [OF t(1)] fuel by (simp_all add: walk_fuel_def)
  then show scan: "scan_cells_of store_ops fuel META_TABLE_PAGE st = (Inr (map cell_kv (cells t)), st)"
    using scan_cells_run [OF t(1), of fuel] fuel t(2) by (simp add: walk_fuel_def)
  show "meta_next_key store_ops fuel st = (Inr (next_meta_key (map cell_kv (cells t))), st)"
    by (simp add: meta_next_key_def bindS_def scan)
  show "read_meta_rows store_ops fuel st = (Inr rows, st)"
    using m by (auto simp: read_meta_rows_def bindS_def scan meta_tree_def)
qed

definition apart :: "btree \<Rightarrow> nat set \<Rightarrow> btree \<Rightarrow> nat set \<Rightarrow> store \<Rightarrow> store \<Rightarrow> bool" where
  \<comment> \<open>nothing outside the tree has changed\<close>
  "apart t L t' L' st st' \<longleftrightarrow> L' - set (tree_pages t') = L - set (tree_pages t) \<and>
     (\<forall>p \<in> L - set (tree_pages t). st_pages st' p = st_pages st p)"

lemma append_run:
  assumes m: "meta_tree st L d t rows" and fuel: "walk_fuel fuel st t" and mode: "st_journal st \<or> st_wal st"
    and row: "plain_text row payload" and key: "next_meta_key (map cell_kv (cells t)) < 2 ^ 64" and rm: "room (insert_room t d payload) st"
  obtains st' L' d' t' where
    "btree_insert store_ops cap fuel META_TABLE_PAGE (next_meta_key (map cell_kv (cells t))) payload st = (Inr (), st')"
    "meta_tree st' L' d' t' (rows @ [row])" "apart t L t' L' st st'" "d' \<le> d + 1" "length (cells t') = length (cells t) + 1"
    "next_meta_key (map cell_kv (cells t')) = next_meta_key (map cell_kv (cells t)) + 1"
    "store_hdr st HDbSize \<le> store_hdr st' HDbSize" "store_hdr st' HDbSize \<le> store_hdr st HDbSize + insert_room t d payload"
    "payload_pages t' \<le> payload_pages t + spill_need payload" "st_journal st' = st_journal st" "st_wal st' = st_wal st"
proof -
  let ?kvs = "map cell_kv (cells t)"
  let ?k = "next_meta_key ?kvs"
  have t: "tree_at st L d t" "tpage t = META_TABLE_PAGE" "d < fuel"
    using m fuel tree_sizes(3) [of st L d t] by (auto simp: meta_tree_def walk_fuel_def)
  from btree_insert_run [OF t(1,3) meta_key_range [OF m] key mode rm, of cap] obtain st' L' d' t' where
    i: "btree_insert store_ops cap fuel (tpage t) ?k payload st = (Inr (), st')" "tree_at st' L' d' t'"
      "tree_map t' = (tree_map t)(?k \<mapsto> payload)" "tpage t' = tpage t" "L' - set (tree_pages t') = L - set (tree_pages t)"
      "\<forall>p \<in> L - set (tree_pages t). st_pages st' p = st_pages st p" "d' \<le> d + 1"
      "store_hdr st HDbSize \<le> store_hdr st' HDbSize" "store_hdr st' HDbSize \<le> store_hdr st HDbSize + insert_room t d payload"
      "st_journal st' = st_journal st" "st_wal st' = st_wal st" by blast
  have srt: "sorted_wrt (<) (map fst (map cell_kv (cells u)))" if "tree_at s M e u" for s M e u
    using ordered_cells [OF tree_at_facts(3) [OF that]] by (simp add: comp_def)
  have below: "k < ?k" if "k \<in> set (map fst ?kvs)" for k
  proof -
    from that obtain kv where "kv \<in> set ?kvs" "fst kv = k" unfolding set_map by blast
    then have "(k, snd kv) \<in> set ?kvs" by (metis prod.collapse)
    then show ?thesis by (rule last_key_greatest [OF srt [OF t(1)]])
  qed
  have "sorted_wrt (<) (map fst (?kvs @ [(?k, payload)]))"
    unfolding map_append sorted_wrt_append using srt [OF t(1)] below by auto
  moreover have "map_of ?kvs ?k = None" using below by (force simp: map_of_eq_None_iff)
  then have "map_of (map cell_kv (cells t')) = map_of (?kvs @ [(?k, payload)])"
    using i(3) unfolding tree_map_def by (auto simp: map_of_append fun_eq_iff map_add_def split: option.split)
  ultimately have kvs: "map cell_kv (cells t') = ?kvs @ [(?k, payload)]" using srt [OF i(2)] by (intro sorted_map_unique)
  obtain krs where krs: "decoded_cells ?kvs = Inr krs" "map snd krs = rows" using m by (auto simp: meta_tree_def)
  then have "meta_tree st' L' d' t' (rows @ [row])"
    using i(2,4) t(2) decoded_append [OF krs(1) row, of ?k] by (simp add: meta_tree_def kvs)
  moreover have "next_meta_key (map cell_kv (cells t')) = ?k + 1" unfolding kvs by simp
  moreover have "length (cells t') = length (cells t) + 1" using arg_cong [OF kvs, of length] by simp
  ultimately show thesis
    using that [of st' L' d' t'] i t(2) payload_pages_grow [OF t(1) i(2,3)] by (simp add: apart_def)
qed

definition new_leaf :: "'s pager_ops \<Rightarrow> ('s, nat) pm" where
  \<comment> \<open>the body of the transaction of \<open>alloc_root\<close>\<close>
  "new_leaf ops = bindS (op_extend_file ops) (\<lambda>root. bindS (liftR empty_leaf) (\<lambda>page. bindS (op_write_page ops root page) (\<lambda>_. retS root)))"

lemma empty_leaf_page:
  obtains page where "empty_leaf = Inr page" "leaf_page page [] 0"
  using fresh_root by (auto simp: empty_leaf_def)

lemma new_leaf_run:
  assumes sp: "space st L" and rm: "room 1 st"
  obtains st' where "new_leaf store_ops st = (Inr (store_hdr st HDbSize + 1), st')"
    "tree_at st' (insert (store_hdr st HDbSize + 1) L) 0 (BLeaf (store_hdr st HDbSize + 1) [])" "keeps L st st'"
    "store_hdr st HDbSize + 1 \<notin> L" "store_hdr st' HDbSize = store_hdr st HDbSize + 1"
proof -
  let ?n = "store_hdr st HDbSize + 1"
  obtain st1 where st1: "store_extend st = (Inr ?n, st1)" "space st1 (insert ?n L)" "keeps L st st1" "?n \<notin> L" "store_hdr st1 HDbSize = ?n"
    by (rule extend_space [OF sp rm])
  obtain page where page: "empty_leaf = Inr page" "leaf_page page [] 0"
    by (rule empty_leaf_page)
  have n: "1 < ?n" using rm by (simp add: room_def)
  let ?st = "set_page ?n page st1"
  have "store_write ?n page st1 = (Inr (), ?st)" using n st1(5) page(2) by (simp add: store_write_run leaf_page_def)
  then have run: "new_leaf store_ops st = (Inr ?n, ?st)" using st1(1) by (simp add: new_leaf_def bindS_def page(1))
  have "leaf_fits []" by (simp add: leaf_fits_def merged_leaf_footprint_def LEAF_PTR_ARRAY_START_val PAGE_SIZE_def)
  then have leaf: "leaf_at (st_pages ?st) page [] 0" using page(2) by (simp add: leaf_at_def)
  have w: "space ?st (insert ?n L)" "store_hdr ?st HDbSize = ?n"
    using write_space(1,3) [OF st1(2), of ?n page] st1(5) by simp_all
  have "tree_at ?st (insert ?n L) 0 (BLeaf ?n [])"
    using w(1) leaf page(2) by (simp add: tree_at_def sibling_of_def leaf_page_def) blast
  moreover have "keeps L st ?st" using st1(3,4) by (auto simp: keeps_def set_page_def)
  ultimately show thesis using run st1(4) w(2) that [of ?st] by simp
qed

end
