(* ===== verification/MetaDriver.thy ===== *)
theory MetaDriver
  imports MetaRows
begin

text \<open>
  Registering a table on any driver whose transactions are atomic for its table of pages, stated as the
  locale \<open>txn_driver\<close>, and its two drivers: the pager of \<open>pager.py\<close> between transactions in rollback-journal
  mode, and the quiet driver of an outer transaction on the reference store.
\<close>

section \<open>Transactions of a driver\<close>

definition in_txn :: "'s driver \<Rightarrow> ('s, 'a) pm \<Rightarrow> ('s, 'a) pm" where
  "in_txn dr m = bindS (dr_begin dr) (\<lambda>_. bindS m (\<lambda>x. bindS (dr_commit dr) (\<lambda>_. retS x)))"

lemma unit_ret: "bindS m (\<lambda>_. retS ()) = (m :: ('s, unit) pm)"
proof -
  have "(\<lambda>_. retS ()) = (retS :: unit \<Rightarrow> ('s, unit) pm)" by (intro ext) simp
  then show ?thesis by (simp add: bindS_ret_right)
qed

lemma alloc_root_txn: "alloc_root dr = in_txn dr (new_leaf (dr_ops dr))"
  by (simp add: alloc_root_def in_txn_def new_leaf_def bindS_assoc)

lemma append_row_txn:
  "append_meta_row dr fuel row =
     bindS (meta_next_key (dr_ops dr) fuel) (\<lambda>key. bindS (liftR (encode_record row)) (\<lambda>payload.
     in_txn dr (btree_insert (dr_ops dr) LEAF_MAX_CELLS_default fuel META_TABLE_PAGE key payload)))"
  by (simp add: append_meta_row_def in_txn_def meta_insert_def unit_ret)

text \<open>
  A driver whose transactions are transactions of the table of pages it shows: between them the pages are
  \<open>view\<close>, inside one they are \<open>inner\<close>. The laws are stated for the two bodies the bootstrap table needs.
\<close>

definition same_mode :: "store \<Rightarrow> store \<Rightarrow> bool" where
  "same_mode st st' \<longleftrightarrow> st_journal st = st_journal st' \<and> st_wal st = st_wal st'"

locale txn_driver = page_reader "dr_ops dr" view ok for dr :: "'s driver" and view :: "'s \<Rightarrow> store" and ok :: "'s \<Rightarrow> bool" +
  fixes inner :: "'s \<Rightarrow> store"
  assumes inner_pages: "ok s \<Longrightarrow> st_pages (inner s) = st_pages (view s)"
    and inner_mode: "ok s \<Longrightarrow> st_journal (inner s) \<or> st_wal (inner s)"
    and insert_txn: "ok s \<Longrightarrow> btree_insert store_ops cap fuel root k v (inner s) = (Inr (), st) \<Longrightarrow> same_mode st (inner s) \<Longrightarrow>
      \<exists>s'. in_txn dr (btree_insert (dr_ops dr) cap fuel root k v) s = (Inr (), s') \<and> ok s' \<and> st_pages (view s') = st_pages st"
    and leaf_txn: "ok s \<Longrightarrow> new_leaf store_ops (inner s) = (Inr p, st) \<Longrightarrow> same_mode st (inner s) \<Longrightarrow>
      \<exists>s'. in_txn dr (new_leaf (dr_ops dr)) s = (Inr p, s') \<and> ok s' \<and> st_pages (view s') = st_pages st"

lemma pages_determine:
  assumes "st_pages st' = st_pages st"
  shows "store_hdr st' f = store_hdr st f" and "meta_tree st' L d t rows = meta_tree st L d t rows"
    and "walk_fuel fuel st' t = walk_fuel fuel st t" and "tree_at st' L d t = tree_at st L d t" and "room k st' = room k st"
proof -
  show hdr: "store_hdr st' f = store_hdr st f" for f using assms by (simp add: store_hdr_def)
  show "tree_at st' L d t = tree_at st L d t" "room k st' = room k st" by (rule tree_at_cong [OF assms])+
  then show "meta_tree st' L d t rows = meta_tree st L d t rows" by (simp add: meta_tree_def)
  show "walk_fuel fuel st' t = walk_fuel fuel st t" by (simp add: walk_fuel_def hdr)
qed

lemma on_state_run: "m s = (Inr x, s') \<Longrightarrow> bindS (on_state m) f (s, c) = f x (s', c)"
  by (simp add: bindS_def on_state_def)

context txn_driver
begin

lemma meta_reads_refine:
  "refines ok view (meta_next_key (dr_ops dr) fuel) (meta_next_key store_ops fuel)"
  "refines ok view (read_meta_rows (dr_ops dr) fuel) (read_meta_rows store_ops fuel)"
  unfolding meta_next_key_def read_meta_rows_def by (intro refine_intros scan_cells_refines)+

lemma append_row:
  assumes s: "ok s" and m: "meta_tree (view s) L d t rows" and fuel: "walk_fuel fuel (view s) t"
    and row: "plain_text row payload" and key: "next_meta_key (map cell_kv (cells t)) < 2 ^ 64" and rm: "room (insert_room t d payload) (view s)"
  obtains s' L' d' t' where "append_meta_row dr fuel row s = (Inr (), s')" "ok s'" "meta_tree (view s') L' d' t' (rows @ [row])"
    "apart t L t' L' (view s) (view s')" "d' \<le> d + 1" "length (cells t') = length (cells t) + 1"
    "next_meta_key (map cell_kv (cells t')) = next_meta_key (map cell_kv (cells t)) + 1"
    "store_hdr (view s) HDbSize \<le> store_hdr (view s') HDbSize"
    "store_hdr (view s') HDbSize \<le> store_hdr (view s) HDbSize + insert_room t d payload"
    "payload_pages t' \<le> payload_pages t + spill_need payload"
proof -
  from run [OF meta_reads_refine(1) s meta_rows_run(2) [OF m fuel]] obtain s1 where
    s1: "meta_next_key (dr_ops dr) fuel s = (Inr (next_meta_key (map cell_kv (cells t))), s1)" "ok s1" "view s1 = view s" .
  note eq = pages_determine [OF inner_pages [OF s1(2)], unfolded s1(3)]
  note inner = m [folded eq(2)] fuel [folded eq(3)] inner_mode [OF s1(2)] row key rm [folded eq(5)]
  from append_run [OF inner, of LEAF_MAX_CELLS_default] obtain st' L' d' t' where
    i: "btree_insert store_ops LEAF_MAX_CELLS_default fuel META_TABLE_PAGE (next_meta_key (map cell_kv (cells t))) payload (inner s1) = (Inr (), st')"
      "meta_tree st' L' d' t' (rows @ [row])" "apart t L t' L' (inner s1) st'" and rest: "d' \<le> d + 1" "length (cells t') = length (cells t) + 1"
      "next_meta_key (map cell_kv (cells t')) = next_meta_key (map cell_kv (cells t)) + 1"
      "store_hdr (inner s1) HDbSize \<le> store_hdr st' HDbSize" "store_hdr st' HDbSize \<le> store_hdr (inner s1) HDbSize + insert_room t d payload"
      "payload_pages t' \<le> payload_pages t + spill_need payload" and jr: "same_mode st' (inner s1)" unfolding same_mode_def by metis
  from insert_txn [OF s1(2) i(1) jr] obtain s' where
    s': "in_txn dr (btree_insert (dr_ops dr) LEAF_MAX_CELLS_default fuel META_TABLE_PAGE (next_meta_key (map cell_kv (cells t))) payload) s1 = (Inr (), s')"
      "ok s'" "st_pages (view s') = st_pages st'" by blast
  note eq' = pages_determine [OF s'(3)]
  have "append_meta_row dr fuel row s = (Inr (), s')"
    using s1(1) row s'(1) by (simp add: append_row_txn bindS_def plain_text_def)
  then show thesis
    using that s'(2) i(2) [folded eq'(2)] i(3) rest s1(3) inner_pages [OF s1(2)] by (simp add: apart_def s'(3) eq eq')
qed

lemma new_root:
  assumes s: "ok s" and m: "meta_tree (view s) L d t rows" and rm: "room 1 (view s)"
  obtains s' n where "alloc_root dr s = (Inr n, s')" "ok s'" "n = store_hdr (view s) HDbSize + 1" "n \<notin> L"
    "meta_tree (view s') (insert n L) d t rows" "tree_at (view s') (insert n L) 0 (BLeaf n [])"
    "\<forall>p \<in> L. st_pages (view s') p = st_pages (view s) p" "store_hdr (view s') HDbSize = n"
proof -
  note eq = pages_determine [OF inner_pages [OF s]]
  have t: "tree_at (view s) L d t" using m by (simp add: meta_tree_def)
  from tree_at_facts(1) [OF t [folded eq(4)]] obtain st' where
    st': "new_leaf store_ops (inner s) = (Inr (store_hdr (view s) HDbSize + 1), st')"
      "tree_at st' (insert (store_hdr (view s) HDbSize + 1) L) 0 (BLeaf (store_hdr (view s) HDbSize + 1) [])" "keeps L (inner s) st'"
      "store_hdr (view s) HDbSize + 1 \<notin> L" "store_hdr st' HDbSize = store_hdr (view s) HDbSize + 1"
    using new_leaf_run [of "inner s" L] rm [folded eq(5)] unfolding eq(1) by metis
  have "same_mode st' (inner s)" using st'(3) by (simp add: keeps_def same_mode_def)
  from leaf_txn [OF s st'(1) this] obtain s' where s': "in_txn dr (new_leaf (dr_ops dr)) s = (Inr (store_hdr (view s) HDbSize + 1), s')"
    "ok s'" "st_pages (view s') = st_pages st'" by blast
  note eq' = pages_determine [OF s'(3)]
  have same: "\<forall>p \<in> L. st_pages (view s') p = st_pages (view s) p"
    using st'(3) inner_pages [OF s] by (simp add: keeps_def s'(3))
  have "tree_at (view s') (insert (store_hdr (view s) HDbSize + 1) L) d t"
    using tree_at_facts(1) [OF st'(2) [folded eq'(4)]] tree_at_facts(6) [OF t] same by (intro tree_frame [OF t]) auto
  then show thesis
    using that s'(1,2) st'(2,4,5) m same by (simp add: alloc_root_txn meta_tree_def eq')
qed

end

section \<open>Registering a table\<close>

definition register_room :: "nat \<Rightarrow> btree \<Rightarrow> bytes \<Rightarrow> bytes \<Rightarrow> nat" where
  \<comment> \<open>the pages a registration may add: the root, and what the two rows need\<close>
  "register_room d t ddl_payload root_payload = 1 + run_room (payload_pages t) d [(0, ddl_payload), (0, root_payload)]"

definition register_fits :: "nat \<Rightarrow> nat \<Rightarrow> btree \<Rightarrow> bytes \<Rightarrow> bytes \<Rightarrow> store \<Rightarrow> bool" where
  "register_fits fuel d t b1 b2 st \<longleftrightarrow> length (cells t) + 2 < fuel \<and> store_hdr st HDbSize + register_room d t b1 b2 < fuel \<and>
     room (register_room d t b1 b2) st \<and> next_meta_key (map cell_kv (cells t)) + 1 < 2 ^ 64"

definition registers :: "pylib \<Rightarrow> pystr \<Rightarrow> schema \<Rightarrow> pystr \<Rightarrow> catalog \<Rightarrow> bool" where
  \<comment> \<open>a text that creates a table of this name, and the catalog with it\<close>
  "registers lib ddl sch name cat \<longleftrightarrow> extract_table_name lib ddl = Inr name \<and> map_of (sch_root_map sch) name = None \<and>
     (\<exists>kind raw. parse_sql lib ddl = Inr (DDLS kind raw) \<and> apply_ddl lib (sch_catalog sch) kind raw = Inr cat) \<and>
     dom (map_of (cat_tables cat)) = insert name (dom (map_of (cat_tables (sch_catalog sch))))"

lemma apart_trans: "apart t L t1 L1 st st1 \<Longrightarrow> apart t1 L1 t2 L2 st1 st2 \<Longrightarrow> apart t L t2 L2 st st2"
  by (auto simp: apart_def)

lemma apart_leaf:
  assumes "apart t L t' L' st st'" and "tree_at st L e (BLeaf n [])" and "n \<notin> set (tree_pages t)" and "tree_at st' L' d t'"
  shows "tree_at st' L' e (BLeaf n [])"
proof -
  have n: "n \<in> L - set (tree_pages t)" using tree_at_facts(6) [OF assms(2)] assms(3) by simp
  then have "n \<in> L'" "st_pages st' n = st_pages st n" using assms(1) by (auto simp: apart_def)
  then show ?thesis using tree_at_facts(1) [OF assms(4)] by (intro tree_frame [OF assms(2)]) simp_all
qed

lemma bind_get: "bindS (getS g) f s = f (g s) s"
  by (simp add: bindS_def)

lemma run_ddl_run:
  "parse_sql lib ddl = Inr (DDLS kind raw) \<Longrightarrow> apply_ddl lib (sch_catalog sch) kind raw = Inr cat \<Longrightarrow>
   run_ddl lib dr fuel ddl (s, sch) = (Inr (), (s, sch\<lparr>sch_catalog := cat\<rparr>))"
  by (simp add: run_ddl_def run_sql_def)

context txn_driver
begin

lemma register_writes:
  \<comment> \<open>what is written before the text is run\<close>
  assumes s: "ok s" and m: "meta_tree (view s) L d t rows" and name: "extract_table_name lib ddl = Inr name" "map_of (sch_root_map sch) name = None"
    and row1: "plain_text (ddl_row (ddl_count rows) ddl) b1" and row2: "plain_text (root_row name (int (store_hdr (view s) HDbSize + 1))) b2"
    and fits: "register_fits fuel d t b1 b2 (view s)"
  obtains s' L' d' t' n where
    "register_table lib dr fuel ddl (s, sch) = bindS (run_ddl lib dr fuel ddl) (\<lambda>_.
       bindS (modifyS (\<lambda>(s, sch). (s, sch\<lparr>sch_root_map := dict_put name (int n) (sch_root_map sch)\<rparr>))) (\<lambda>_. retS n)) (s', sch)"
    "ok s'" "meta_tree (view s') L' d' t' (rows @ [ddl_row (ddl_count rows) ddl, root_row name (int n)])" "walk_fuel fuel (view s') t'"
    "tree_at (view s') L' 0 (BLeaf n [])" "n \<notin> L"
    "\<forall>p \<in> L - set (tree_pages t). p \<in> L' - set (tree_pages t') \<and> st_pages (view s') p = st_pages (view s) p"
proof -
  let ?n = "store_hdr (view s) HDbSize + 1" and ?R = "register_room d t b1 b2"
  have f: "length (cells t) + 2 < fuel" "store_hdr (view s) HDbSize + ?R < fuel" "room ?R (view s)" "next_meta_key (map cell_kv (cells t)) + 1 < 2 ^ 64"
    using fits by (simp_all add: register_fits_def)
  have R: "?R = 1 + (insert_room t d b1 + (payload_pages t + spill_need b1 + spill_need b2 + d + 4))"
    by (simp add: register_room_def insert_room_def payload_pages_def)
  have fuel0: "walk_fuel fuel (view s) t" using f(1,2) by (simp add: walk_fuel_def)
  from run [OF meta_reads_refine(2) s meta_rows_run(3) [OF m fuel0]] obtain s0 where
    s0: "read_meta_rows (dr_ops dr) fuel s = (Inr rows, s0)" "ok s0" "view s0 = view s" .
  have "room 1 (view s0)" unfolding s0(3) by (rule room_mono [OF f(3)]) (simp add: R)
  from new_root [OF s0(2) _ this, of L d t rows, unfolded s0(3), OF m] obtain s1 n where
    s1: "alloc_root dr s0 = (Inr n, s1)" "ok s1" "n = ?n" "n \<notin> L" "meta_tree (view s1) (insert n L) d t rows"
      "tree_at (view s1) (insert n L) 0 (BLeaf n [])" "\<forall>p \<in> L. st_pages (view s1) p = st_pages (view s) p" "store_hdr (view s1) HDbSize = n" .
  have fuel1: "walk_fuel fuel (view s1) t" and room1: "room (insert_room t d b1) (view s1)" and key1: "next_meta_key (map cell_kv (cells t)) < 2 ^ 64"
    using f s1(3,8) by (simp_all add: walk_fuel_def room_def R)
  from append_row [OF s1(2,5) fuel1 row1 key1 room1] obtain s2 L2 d2 t2 where
    s2: "append_meta_row dr fuel (ddl_row (ddl_count rows) ddl) s1 = (Inr (), s2)" "ok s2"
      "meta_tree (view s2) L2 d2 t2 (rows @ [ddl_row (ddl_count rows) ddl])" "apart t (insert n L) t2 L2 (view s1) (view s2)" "d2 \<le> d + 1"
      "length (cells t2) = length (cells t) + 1" "next_meta_key (map cell_kv (cells t2)) = next_meta_key (map cell_kv (cells t)) + 1"
      "store_hdr (view s1) HDbSize \<le> store_hdr (view s2) HDbSize" "store_hdr (view s2) HDbSize \<le> store_hdr (view s1) HDbSize + insert_room t d b1"
      "payload_pages t2 \<le> payload_pages t + spill_need b1" .
  have r2: "insert_room t2 d2 b2 \<le> payload_pages t + spill_need b1 + spill_need b2 + d + 4"
    using s2(5,10) by (simp add: insert_room_def payload_pages_def)
  have fuel2: "walk_fuel fuel (view s2) t2" and room2: "room (insert_room t2 d2 b2) (view s2)" and key2: "next_meta_key (map cell_kv (cells t2)) < 2 ^ 64"
    using f s1(3,8) s2(6-9) r2 by (simp_all add: walk_fuel_def room_def R)
  from append_row [OF s2(2,3) fuel2 row2 key2 room2] obtain s3 L3 d3 t3 where
    s3: "append_meta_row dr fuel (root_row name (int ?n)) s2 = (Inr (), s3)" "ok s3"
      "meta_tree (view s3) L3 d3 t3 ((rows @ [ddl_row (ddl_count rows) ddl]) @ [root_row name (int ?n)])"
      "apart t2 L2 t3 L3 (view s2) (view s3)" "length (cells t3) = length (cells t2) + 1"
      "store_hdr (view s2) HDbSize \<le> store_hdr (view s3) HDbSize" "store_hdr (view s3) HDbSize \<le> store_hdr (view s2) HDbSize + insert_room t2 d2 b2" .
  have apart: "apart t (insert n L) t3 L3 (view s1) (view s3)" by (rule apart_trans [OF s2(4) s3(4)])
  have t: "tree_at (view s) L d t" "tree_at (view s3) L3 d3 t3" using m s3(3) by (simp_all add: meta_tree_def)
  then have "n \<notin> set (tree_pages t)" using tree_at_facts(6) s1(4) by blast
  note leaf = apart_leaf [OF apart s1(6) this t(2)]
  have run: "register_table lib dr fuel ddl (s, sch) = bindS (run_ddl lib dr fuel ddl) (\<lambda>_.
       bindS (modifyS (\<lambda>(s, sch). (s, sch\<lparr>sch_root_map := dict_put name (int n) (sch_root_map sch)\<rparr>))) (\<lambda>_. retS n)) (s3, sch)"
    unfolding register_table_def
    by (simp add: name bind_get write_meta_ddl_row_def write_meta_root_row_def
        on_state_run [where m = "read_meta_rows (dr_ops dr) fuel", OF s0(1)] on_state_run [where m = "alloc_root dr", OF s1(1)]
        on_state_run [where m = "append_meta_row dr fuel (ddl_row (ddl_count rows) ddl)", OF s2(1)]
        on_state_run [where m = "append_meta_row dr fuel (root_row name (int n))", OF s3(1) [folded s1(3)]])
  have fuel3: "walk_fuel fuel (view s3) t3" using f s1(3,8) s2(6-9) s3(5-7) r2 by (simp add: walk_fuel_def R)
  have same: "\<forall>p \<in> L - set (tree_pages t). p \<in> L3 - set (tree_pages t3) \<and> st_pages (view s3) p = st_pages (view s) p"
    using apart s1(7) unfolding apart_def by (metis DiffD1 DiffD2 DiffI insertCI)
  have rows3: "meta_tree (view s3) L3 d3 t3 (rows @ [ddl_row (ddl_count rows) ddl, root_row name (int n)])"
    using s3(3) s1(3) by simp
  show thesis by (rule that [OF run s3(2) rows3 fuel3 leaf s1(4) same])
qed

lemma register_run:
  assumes s: "ok s" and m: "meta_tree (view s) L d t rows" and pers: "persists lib rows sch" and reg: "registers lib ddl sch name cat"
    and row1: "plain_text (ddl_row (ddl_count rows) ddl) b1" and row2: "plain_text (root_row name (int (store_hdr (view s) HDbSize + 1))) b2"
    and fits: "register_fits fuel d t b1 b2 (view s)"
  obtains s' L' d' t' rows' n where
    "register_table lib dr fuel ddl (s, sch) = (Inr n, (s', \<lparr>sch_catalog = cat, sch_root_map = dict_put name (int n) (sch_root_map sch)\<rparr>))"
    "ok s'" "meta_tree (view s') L' d' t' rows'" "walk_fuel fuel (view s') t'"
    "persists lib rows' \<lparr>sch_catalog = cat, sch_root_map = dict_put name (int n) (sch_root_map sch)\<rparr>"
    "tree_at (view s') L' 0 (BLeaf n [])" "n \<notin> L"
    "\<forall>p \<in> L - set (tree_pages t). p \<in> L' - set (tree_pages t') \<and> st_pages (view s') p = st_pages (view s) p"
proof -
  obtain kind raw where ddl: "extract_table_name lib ddl = Inr name" "map_of (sch_root_map sch) name = None"
    "parse_sql lib ddl = Inr (DDLS kind raw)" "apply_ddl lib (sch_catalog sch) kind raw = Inr cat"
    "dom (map_of (cat_tables cat)) = insert name (dom (map_of (cat_tables (sch_catalog sch))))"
    using reg unfolding registers_def by blast
  from register_writes [OF s m ddl(1,2) row1 row2 fits] obtain s' L' d' t' n where
    w: "register_table lib dr fuel ddl (s, sch) = bindS (run_ddl lib dr fuel ddl) (\<lambda>_.
       bindS (modifyS (\<lambda>(s, sch). (s, sch\<lparr>sch_root_map := dict_put name (int n) (sch_root_map sch)\<rparr>))) (\<lambda>_. retS n)) (s', sch)"
    and rest: "ok s'" "meta_tree (view s') L' d' t' (rows @ [ddl_row (ddl_count rows) ddl, root_row name (int n)])" "walk_fuel fuel (view s') t'"
    "tree_at (view s') L' 0 (BLeaf n [])" "n \<notin> L"
    "\<forall>p \<in> L - set (tree_pages t). p \<in> L' - set (tree_pages t') \<and> st_pages (view s') p = st_pages (view s) p" .
  have "register_table lib dr fuel ddl (s, sch) = (Inr n, (s', \<lparr>sch_catalog = cat, sch_root_map = dict_put name (int n) (sch_root_map sch)\<rparr>))"
    unfolding w by (simp add: bindS_Inr [where m = "run_ddl lib dr fuel ddl", OF run_ddl_run [OF ddl(3,4)]]) (simp add: bindS_def modifyS_def retS_def)
  then show thesis using rest persists_create [OF pers ddl(3-5)] that by blast
qed

lemma register_refused:
  assumes s: "ok s" and m: "meta_tree (view s) L d t rows" and pers: "persists lib rows sch"
    and ref: "extract_table_name lib ddl = Inr name" "map_of (sch_root_map sch) name = None"
      "parse_sql lib ddl = Inr (DDLS kind raw)" "apply_ddl lib (sch_catalog sch) kind raw = Inl e"
    and row1: "plain_text (ddl_row (ddl_count rows) ddl) b1" and row2: "plain_text (root_row name (int (store_hdr (view s) HDbSize + 1))) b2"
    and fits: "register_fits fuel d t b1 b2 (view s)"
  obtains s' L' d' t' rows' where "register_table lib dr fuel ddl (s, sch) = (Inl e, (s', sch))" "ok s'"
    "meta_tree (view s') L' d' t' rows'" "walk_fuel fuel (view s') t'" "replay_rows lib rows' = Inl e"
proof -
  from register_writes [OF s m ref(1,2) row1 row2 fits] obtain s' L' d' t' n where
    w: "register_table lib dr fuel ddl (s, sch) = bindS (run_ddl lib dr fuel ddl) (\<lambda>_.
       bindS (modifyS (\<lambda>(s, sch). (s, sch\<lparr>sch_root_map := dict_put name (int n) (sch_root_map sch)\<rparr>))) (\<lambda>_. retS n)) (s', sch)"
    and rest: "ok s'" "meta_tree (view s') L' d' t' (rows @ [ddl_row (ddl_count rows) ddl, root_row name (int n)])" "walk_fuel fuel (view s') t'" .
  have "run_ddl lib dr fuel ddl (s', sch) = (Inl e, (s', sch))" using ref(3,4) by (simp add: run_ddl_def run_sql_def)
  then have "register_table lib dr fuel ddl (s, sch) = (Inl e, (s', sch))" unfolding w by (simp add: bindS_def)
  then show thesis using rest replay_refused [OF pers ref(3,4)] that by blast
qed

end

section \<open>The driver of the pager\<close>

definition dirty_order :: "(pager \<Rightarrow> nat list) \<Rightarrow> pager \<Rightarrow> nat list" where
  \<comment> \<open>the order in which Python iterates over the set of dirty pages: any\<close>
  "dirty_order ord s = (if transaction_order s (ord s) then ord s else sorted_list_of_set (p_dirty s))"

lemma dirty_order_ok: "finite (p_dirty s) \<Longrightarrow> transaction_order s (dirty_order ord s)"
  by (simp add: dirty_order_def) (simp add: transaction_order_def)

definition pager_driver :: "nat \<Rightarrow> (pager \<Rightarrow> nat list) \<Rightarrow> pager driver" where
  "pager_driver salt ord = \<lparr>dr_ops = pg_ops, dr_begin = begin_write, dr_commit = (\<lambda>s. pager_commit salt (dirty_order ord s) s)\<rparr>"

lemma pager_driver_simps [simp]:
  "dr_ops (pager_driver salt ord) = pg_ops" "dr_begin (pager_driver salt ord) = begin_write"
  "dr_commit (pager_driver salt ord) s = pager_commit salt (dirty_order ord s) s"
  by (simp_all add: pager_driver_def)

definition resting :: "(disk \<Rightarrow> bool) \<Rightarrow> pager \<Rightarrow> bool" where
  \<comment> \<open>between transactions, in rollback-journal mode, on such a disk\<close>
  "resting P s \<longleftrightarrow> between_txns s \<and> P (p_disk s)"

abbreviation at_rest :: "pager \<Rightarrow> bool" where
  \<comment> \<open>and no system call will fail\<close>
  "at_rest \<equiv> resting (\<lambda>d. d_budget d = None)"


definition in_journal :: "pager \<Rightarrow> store" where
  \<comment> \<open>what the pager shows after \<open>begin_write\<close>\<close>
  "in_journal s = (pager_view s)\<lparr>st_journal := True\<rparr>"

lemma txn_step:
  assumes s0: "at_rest s0" and ref: "\<And>d. refines (pager_at d None) pager_view m m'"
    and m': "m' (in_journal s0) = (Inr x, st)" "st_journal st"
  shows "\<exists>s'. in_txn (pager_driver salt ord) m s0 = (Inr x, s') \<and> at_rest s' \<and> st_pages (pager_view s') = st_pages st"
proof -
  have rest: "between_txns s0" "d_budget (p_disk s0) = None" using s0 by (simp_all add: resting_def)
  from begin_returns [OF rest] obtain s1 where b: "begin_write s0 = (Inr (), s1)" .
  note br = begin_run [OF rest(1) b]
  have "p_wal_mode s1 = p_wal_mode s0"
    using rest(1) br(2) by (simp add: between_txns_def pager_at_def pager_ok_def)
  then have view: "pager_view s1 = in_journal s0" using br(3,5) by (simp add: pager_view_def in_journal_def)
  from refinesD [OF ref br(2) m'(1) [folded view]] obtain s2 where
    s2: "m s1 = (Inr x, s2)" "pager_at (p_disk s1) None s2" "pager_view s2 = st" by blast
  have jr: "p_journal s2 \<noteq> None" using m'(2) s2(3) by auto
  have "finite (p_dirty s2)"
    using s2(2) finite_subset [of "p_dirty s2" "{..store_hdr (pager_view s2) HDbSize}"] by (auto simp: pager_at_def)
  then have order: "transaction_order s2 (dirty_order ord s2)" by (rule dirty_order_ok)
  obtain r s' where run: "pager_commit salt (dirty_order ord s2) s2 = (r, s')" by fastforce
  note jc = journal_commit_cases(2,3) [OF rest(1) b s2(2) jr order run crash_reboot]
  have "in_txn (pager_driver salt ord) m s0 = (Inr x, s')"
    using b s2(1) run jc(2) [OF rest(2)] by (simp add: in_txn_def bindS_def retS_def)
  then show ?thesis using jc rest(2) s2(3) by (auto simp: resting_def)
qed

lemma resting_reader: "page_reader pg_ops pager_view (resting P)"
proof
  fix n f
  have kept: "resting P s'" if "resting P s" "same (p_disk s) None s s'" for s s'
  proof -
    have "pager_at (p_disk s) None s" "p_journal s = None" using that(1) by (simp_all add: resting_def between_txns_def)
    moreover from that(2) have "p_disk s' = p_disk s" "pager_view s' = pager_view s" "p_dirty s' = p_dirty s"
      by (simp_all add: same_def pager_ok_def)
    moreover from this(2) calculation(2) have "p_journal s' = None" by (simp add: pager_view_def)
    ultimately show ?thesis using that same_at [of "p_disk s" None s s'] by (simp add: resting_def between_txns_def)
  qed
  have ok: "pager_ok (p_disk s) None s" if "resting P s" for s using that by (simp add: resting_def between_txns_def pager_at_def)
  show "resting P s \<Longrightarrow> op_page_size pg_ops s = PAGE_SIZE" for s using ok [of s] by (simp add: pager_ok_def)
  show "refines (resting P) pager_view (op_read_page pg_ops n) (op_read_page store_ops n)"
    unfolding pg_ops_simps store_ops_simps
  proof (rule refinesI)
    fix s x t assume at: "resting P s" and run: "store_read n (pager_view s) = (Inr x, t)"
    then have n: "n \<noteq> 0" "x = pager_page s n" "t = pager_view s" by (simp_all add: store_read_def split: if_splits)
    obtain s' where "pager_read n s = (Inr (pager_page s n), s')" "same (p_disk s) None s s'"
      by (rule pager_read_run [OF ok [OF at] n(1)])
    then show "\<exists>s'. pager_read n s = (Inr x, s') \<and> resting P s' \<and> pager_view s' = t"
      using kept [OF at] n by (auto simp: same_def)
  qed
  show "refines (resting P) pager_view (op_read_hdr pg_ops f) (op_read_hdr store_ops f)"
    unfolding pg_ops_simps store_ops_simps
  proof (rule refinesI)
    fix s x t assume at: "resting P s" and run: "store_read_hdr f (pager_view s) = (Inr x, t)"
    obtain s' where "pager_read_hdr f s = (unpack_from (hdr_width f) (pager_page s 1) (hdr_offset f), s')" "same (p_disk s) None s s'"
      by (rule pager_read_hdr_run [OF ok [OF at]])
    then show "\<exists>s'. pager_read_hdr f s = (Inr x, s') \<and> resting P s' \<and> pager_view s' = t"
      using run kept [OF at] by (auto simp: store_read_hdr_def same_def)
  qed
qed

interpretation rest: page_reader pg_ops pager_view "resting P" for P
  by (rule resting_reader)

context page_store
begin

lemma new_leaf_refines: "refines ok view (new_leaf ops) (new_leaf store_ops)"
  unfolding new_leaf_def by (intro refine_intros op_refines)

end

interpretation pgtx: txn_driver "pager_driver salt ord" pager_view at_rest in_journal for salt ord
proof (intro txn_driver.intro txn_driver_axioms.intro)
  show "page_reader (dr_ops (pager_driver salt ord)) pager_view at_rest" using resting_reader by simp
  show "st_pages (in_journal s) = st_pages (pager_view s)" "st_journal (in_journal s) \<or> st_wal (in_journal s)" for s
    by (simp_all add: in_journal_def)
  show "\<exists>s'. in_txn (pager_driver salt ord) (btree_insert (dr_ops (pager_driver salt ord)) cap fuel root k v) s = (Inr (), s') \<and>
      at_rest s' \<and> st_pages (pager_view s') = st_pages st"
    if "at_rest s" "btree_insert store_ops cap fuel root k v (in_journal s) = (Inr (), st)" "same_mode st (in_journal s)"
    for s cap fuel root k v st
    using txn_step [OF that(1) pg.btree_insert_refines that(2)] that(3) by (simp add: in_journal_def same_mode_def)
  show "\<exists>s'. in_txn (pager_driver salt ord) (new_leaf (dr_ops (pager_driver salt ord))) s = (Inr p, s') \<and>
      at_rest s' \<and> st_pages (pager_view s') = st_pages st"
    if "at_rest s" "new_leaf store_ops (in_journal s) = (Inr p, st)" "same_mode st (in_journal s)" for s p st
    using txn_step [OF that(1) pg.new_leaf_refines that(2)] that(3) by (simp add: in_journal_def same_mode_def)
qed

text \<open>Inside an outer transaction the driver is quiet, and the reference store is its own view.\<close>

lemma in_txn_quiet: "in_txn (quiet ops) m = m"
  by (auto simp: in_txn_def bindS_def fun_eq_iff split: prod.split sum.split)

interpretation quiet_txn: txn_driver "quiet store_ops" "\<lambda>st. st" "\<lambda>st. st_journal st \<or> st_wal st" "\<lambda>st. st"
  by (intro txn_driver.intro page_reader.intro txn_driver_axioms.intro)
    (auto simp: in_txn_quiet same_mode_def store_read_hdr_def store_read_def intro!: refinesI split: if_splits)

end
