(* ===== verification/MetaDurable.thy ===== *)
theory MetaDurable
  imports MetaDriver
begin

text \<open>
  CREATE TABLE from the text of the statement to the file opened again: the name the regular expressions find
  in the text, the opening of a file with its bootstrap table, and the durability of a registration.
\<close>

section \<open>The name in the text\<close>

lemma skip_text_same: "skip_text lib w (pystr_of w @ s) = Some s"
proof -
  have "list_all2 (same_letter lib) (pystr_of w) (pystr_of w)" by (rule list_all2_refl) (simp add: same_letter_def)
  then show ?thesis by (simp add: skip_text_def pystr_of_def)
qed

lemma skip_word_same: "skip_word lib w (pystr_of w @ 32 # s) = Some (dropWhile is_space s)"
  by (simp add: skip_word_def skip_text_same skip_spaces_def is_space_def)

lemma word_stop:
  assumes "word_shaped n"
  shows "takeWhile (word_char lib) (n @ 32 # r) = n" and "dropWhile is_space (n @ s) = n @ s" and "strip_char 91 (n @ s) = n @ s" and "n \<noteq> []"
proof -
  obtain c m where n: "n = c # m" "is_alpha c" "list_all is_word m" using assms by (cases n) (auto simp: word_shaped_def)
  have "word_char lib x" if "x \<in> set n" for x
    using that n by (auto simp: word_char_def is_word_def is_alpha_def is_digit_def list_all_iff)
  moreover have "\<not> word_char lib 32" by (simp add: word_char_def is_word_def is_alpha_def is_digit_def)
  ultimately show "takeWhile (word_char lib) (n @ 32 # r) = n" by (subst takeWhile_append2) auto
  show "dropWhile is_space (n @ s) = n @ s" "strip_char 91 (n @ s) = n @ s" "n \<noteq> []"
    using n by (auto simp: is_space_def is_alpha_def strip_char_def)
qed

lemma bracket_name_plain: "word_shaped n \<Longrightarrow> \<exists>r'. bracket_name lib (n @ 32 # r) = Some (n, r')"
  by (simp add: bracket_name_def name_run_def word_stop)

lemma if_letters: "lower [c] = lower [73] \<Longrightarrow> lower [d] = lower [70] \<Longrightarrow> c \<in> {73, 105} \<and> d \<in> {70, 102}"
  by (auto simp: lower_def split: if_splits)

lemma upper_if: "c \<in> {73, 105} \<and> d \<in> {70, 102} \<Longrightarrow> upper [c, d] = pystr_of ''IF''"
  by (elim conjE insertE emptyE) (simp_all add: upper_def upper_char_def pystr_of_def)

lemma word_no_space: "is_word e \<Longrightarrow> \<not> is_space e"
  by (auto simp: is_word_def is_alpha_def is_digit_def is_space_def)

lemma shown_word: "word_shaped n \<Longrightarrow> show_token (word_token n) = n"
  by (simp add: show_token_def word_token_def)

lemma word_capitals:
  "capital ''CREATE''" "capital ''TABLE''" "capital ''IF''" "capital ''NOT''" "capital ''EXISTS''"
  by (simp_all add: capital_def)

lemma shown_capital: "capital w \<Longrightarrow> show_token (word w) = pystr_of w"
  by (simp add: word_def shown_word capital_shape)

lemma no_if:
  assumes "table_name_ok n"
  shows "skip_word lib ''IF'' (n @ 32 # r) = None"
proof -
  obtain c m where n: "n = c # m" "is_alpha c" "list_all is_word m" using assms by (cases n) (auto simp: table_name_ok_def word_shaped_def)
  have letter: "lower [x] = lower [y]" if "same_letter lib y x" "y < 128" "x < 128" for x y
    using that by (auto simp: same_letter_def split: if_splits)
  have small: "x < 128" if "x \<in> set n" for x using that n by (auto simp: is_word_def is_alpha_def is_digit_def list_all_iff)
  show ?thesis
  proof (cases "skip_text lib ''IF'' (n @ 32 # r)")
    case (Some s)
    then have two: "list_all2 (same_letter lib) [73, 70] (take (Suc (Suc 0)) (n @ 32 # r))" "s = drop (Suc (Suc 0)) (n @ 32 # r)"
      by (auto simp add: skip_text_def pystr_of_def split: if_splits)
    have "m \<noteq> []"
    proof
      assume "m = []"
      then have "same_letter lib 70 32" using two(1) n(1) by simp
      then show False using letter [of 70 32] by (simp add: lower_def)
    qed
    then obtain d m' where m: "m = d # m'" by (cases m) auto
    then have l: "lower [c] = lower [73]" "lower [d] = lower [70]"
      using two(1) n(1) letter small by simp_all
    have "m' \<noteq> []"
    proof
      assume "m' = []"
      then have "n = [c, d]" using n(1) m by simp
      then have "upper n = pystr_of ''IF''" by (simp only: upper_if [OF if_letters [OF l]])
      then show False using assms by (simp add: table_name_ok_def)
    qed
    then obtain e m'' where "m' = e # m''" by (cases m') auto
    then have "s = e # m'' @ 32 # r" "is_word e" using two(2) n m by simp_all
    then show ?thesis using Some by (simp add: skip_word_def skip_spaces_def word_no_space)
  qed (simp add: skip_word_def)
qed

lemma search_here: "m s = Some x \<Longrightarrow> search m s = Some x"
  by (cases s) simp_all

lemma name_found:
  assumes "table_name_ok n"
  shows "extract_table_name lib (pystr_of ''CREATE'' @ 32 # pystr_of ''TABLE'' @ 32 # (if guarded then pystr_of ''IF'' @ 32 # pystr_of ''NOT'' @ 32 # pystr_of ''EXISTS'' @ 32 # n @ 32 # r else n @ 32 # r)) = Inr n"
proof -
  let ?create = "\<lambda>s. pystr_of ''CREATE'' @ 32 # pystr_of ''TABLE'' @ 32 # s"
  let ?text = "if guarded then pystr_of ''IF'' @ 32 # pystr_of ''NOT'' @ 32 # pystr_of ''EXISTS'' @ 32 # n @ 32 # r else n @ 32 # r"
  have n: "word_shaped n" using assms by (simp add: table_name_ok_def)
  have drop_caps: "dropWhile is_space (pystr_of w @ s) = pystr_of w @ s" if "capital w" for w s
    using word_stop(2) [OF conjunct1 [OF capital_shape [OF that]]] .
  note drop_caps = word_capitals [THEN drop_caps]
  have create: "skip_words lib [''CREATE'', ''TABLE''] (?create s) = Some (dropWhile is_space s)" for s
    by (simp add: skip_word_same drop_caps)
  obtain r' where name: "bracket_name lib (n @ 32 # r) = Some (n, r')" using bracket_name_plain [OF n] by blast
  have "optional_words lib [''IF'', ''NOT'', ''EXISTS''] (bracket_name lib) (dropWhile is_space ?text) = Some (n, r')"
    by (cases guarded) (simp_all add: optional_words_def skip_word_same drop_caps word_stop(2) [OF n] no_if [OF assms] name)
  then have "search (\<lambda>s. Option.bind (skip_words lib [''CREATE'', ''TABLE''] s) (optional_words lib [''IF'', ''NOT'', ''EXISTS''] (bracket_name lib)))
      (?create ?text) = Some (n, r')"
    by (intro search_here) (simp only: create Option.bind.simps)
  then show ?thesis unfolding extract_table_name_def by (simp only: option.map fst_conv found_def option.case)
qed

lemma create_name:
  assumes "table_name_ok n"
  shows "extract_table_name lib (show_tokens (show_create guarded n cols)) = Inr n"
proof -
  have n: "word_shaped n" using assms by (simp add: table_name_ok_def)
  obtain r where "show_tokens (show_create guarded n cols) = pystr_of ''CREATE'' @ 32 # pystr_of ''TABLE'' @ 32 #
      (if guarded then pystr_of ''IF'' @ 32 # pystr_of ''NOT'' @ 32 # pystr_of ''EXISTS'' @ 32 # n @ 32 # r else n @ 32 # r)"
    by (cases guarded) (auto simp: show_tokens_def show_create_def shown_word [OF n] word_capitals [THEN shown_capital])
  then show ?thesis using name_found [OF assms, of lib guarded r] by simp
qed

definition bare_create :: "pystr \<Rightarrow> token list" where
  \<comment> \<open>a CREATE TABLE without a column list\<close>
  "bare_create n = [word ''CREATE'', word ''TABLE'', word_token n]"

lemma bare_create_refused:
  assumes "table_name_ok n"
  shows "extract_table_name lib (show_tokens (bare_create n)) = Inr n"
    and "parse_sql lib (show_tokens (bare_create n)) = Inr (DDLS CreateTable (join_values (bare_create n @ [the_end])))"
    and "apply_ddl lib cat CreateTable (join_values (bare_create n @ [the_end])) = Inl CatalogError"
proof -
  have n: "word_shaped n" "upper n \<noteq> pystr_of ''IF''" using assms by (simp_all add: table_name_ok_def)
  note tok = token_ok_word_token [OF n(1)]
  show "extract_table_name lib (show_tokens (bare_create n)) = Inr n"
    using name_found [OF assms, of lib False "[]"]
    by (simp add: show_tokens_def bare_create_def shown_word [OF n(1)] word_capitals [THEN shown_capital])
  show "parse_sql lib (show_tokens (bare_create n)) = Inr (DDLS CreateTable (join_values (bare_create n @ [the_end])))"
    using create_text_parses(2) [of "[word_token n]" lib] tok by (simp add: bare_create_def)
  have ok: "list_all token_ok (bare_create n)" "list_all (\<lambda>t. show_token t = tok_value t) (bare_create n)"
    using tok by (simp_all add: bare_create_def token_oks token_plain)
  have miss: "bindS (expect_value v) g (t # ts) = (Inl CatalogError, ts)" if "upper (tok_value t) \<noteq> pystr_of v" for v t ts and g :: "unit \<Rightarrow> (pystr \<times> column_meta list) parser"
    using that by (simp add: expect_value_def bindS_assoc ddl_steps(1))
  have the_end: "upper (tok_value the_end) \<noteq> pystr_of ''(''" by (simp add: upper_def pystr_of_def)
  have "create_table lib (bare_create n @ [the_end]) = (Inl CatalogError, [])"
    using n(2) by (simp add: create_table_def bare_create_def bind_ifS ddl_steps word_token_simps miss [OF the_end])
  then show "apply_ddl lib cat CreateTable (join_values (bare_create n @ [the_end])) = Inl CatalogError"
    using scan_joined [OF ok] by (simp add: apply_ddl_def apply_create_table_def read_ddl_def tokenize_def strip_def)
qed

section \<open>Opening a database\<close>

lemma root_page_initialised:
  assumes "tree_at st L d t"
  shows "page_is_initialised_btree (st_pages st (tpage t))" and "tpage t \<le> store_hdr st HDbSize"
proof -
  have "\<exists>k. page_type (st_pages st (tpage t)) = Inr k \<and> length (st_pages st (tpage t)) = PAGE_SIZE"
    using tree_at_facts(2) [OF assms] leaf_at_parts(1,2) interior_page_read(2,4) by (cases t) fastforce+
  then obtain k where k: "page_type (st_pages st (tpage t)) = Inr k" "st_pages st (tpage t) \<noteq> []"
    using PAGE_SIZE_def by fastforce
  then show "page_is_initialised_btree (st_pages st (tpage t))"
    by (cases "st_pages st (tpage t)")
      (auto simp: page_type_def page_is_initialised_btree_def unpack_from_def pyslice_def be_nat_def bindR_eq_Inr_iff split: if_splits)
  show "tpage t \<le> store_hdr st HDbSize" using tree_at_facts(1,8) [OF assms] space_page(5) by blast
qed

context page_reader
begin

lemma open_replays:
  assumes s: "ok s" and m: "meta_tree (view s) L d t rows" and fuel: "walk_fuel fuel (view s) t"
    and po: "po_ops po = ops"
  obtains s' where "open_lilli_db lib po fuel s = (replay_rows lib rows, s')" "ok s'" "view s' = view s"
proof -
  have t: "tree_at (view s) L d t" "tpage t = META_TABLE_PAGE" using m by (simp_all add: meta_tree_def)
  note root = root_page_initialised [OF t(1), unfolded t(2)]
  have "store_read_hdr HDbSize (view s) = (Inr (store_hdr (view s) HDbSize), view s)"
    using space_hdr_ok [OF tree_at_facts(1) [OF t(1)]] by (rule store_read_hdr_run)
  then obtain s1 where s1: "op_read_hdr ops HDbSize s = (Inr (store_hdr (view s) HDbSize), s1)" "ok s1" "view s1 = view s"
    using run [OF read_hdr s] by simp metis
  have "store_read META_TABLE_PAGE (view s1) = (Inr (st_pages (view s1) META_TABLE_PAGE), view s1)"
    by (simp add: store_read_run META_TABLE_PAGE_def)
  then obtain s2 where s2: "op_read_page ops META_TABLE_PAGE s1 = (Inr (st_pages (view s) META_TABLE_PAGE), s2)" "ok s2" "view s2 = view s"
    using run [OF read_page s1(2)] s1(3) by simp metis
  have "refines ok view (read_meta_rows ops fuel) (read_meta_rows store_ops fuel)"
    unfolding read_meta_rows_def by (intro refine_intros scan_cells_refines)
  from run [OF this s2(2)] meta_rows_run(3) [OF m fuel] s2(3) obtain s3 where
    s3: "read_meta_rows ops fuel s2 = (Inr rows, s3)" "ok s3" "view s3 = view s" by metis
  have "open_lilli_db lib po fuel s = (replay_rows lib rows, s3)"
    using root by (simp add: open_lilli_db_def po bindS_Inr [where m = "op_read_hdr ops HDbSize", OF s1(1)]
        bindS_Inr [where m = "op_read_page ops META_TABLE_PAGE", OF s2(1)] replay_meta_def bindS_Inr [where m = "read_meta_rows ops fuel", OF s3(1)])
  then show thesis using that s3(2,3) by blast
qed

end

section \<open>A new database\<close>

context txn_driver
begin

lemma init_meta_run:
  assumes "in_txn dr (new_leaf (dr_ops dr)) s = (Inr META_TABLE_PAGE, s')" and "po_driver po = dr"
  shows "init_meta_page po s = (Inr (), s')"
proof -
  obtain page where page: "empty_leaf = Inr page" by (rule empty_leaf_page)
  show ?thesis
    using assms
    by (auto simp: init_meta_page_def in_txn_def new_leaf_def bindS_def retS_def page split: prod.splits sum.splits if_splits)
qed

lemma three: "2 + 1 = META_TABLE_PAGE"
  by (simp add: META_TABLE_PAGE_def)

lemma open_new:
  assumes s: "ok s" and t: "tree_at (view s) L d t" and size: "store_hdr (view s) HDbSize = 2" and po: "po_driver po = dr"
  obtains s' where "open_lilli_db lib po fuel s = (Inr empty_schema, s')" "ok s'"
    "meta_tree (view s') (insert META_TABLE_PAGE L) 0 (BLeaf META_TABLE_PAGE []) []" "store_hdr (view s') HDbSize = META_TABLE_PAGE"
proof -
  have sp: "space (view s) L" and hdr: "hdr_page_ok (view s)"
    using tree_at_facts(1) [OF t] space_hdr_ok by blast+
  have "store_read_hdr HDbSize (view s) = (Inr 2, view s)" using store_read_hdr_run [OF hdr, of HDbSize] size by simp
  then obtain s1 where s1: "op_read_hdr (dr_ops dr) HDbSize s = (Inr 2, s1)" "ok s1" "view s1 = view s"
    using run [OF read_hdr s] by simp metis
  note eq = pages_determine [OF inner_pages [OF s1(2)], unfolded s1(3)]
  have "room 1 (inner s1)" unfolding eq(5) by (simp add: room_def size)
  moreover have "space (inner s1) L" using tree_at_facts(1) t eq(4) by blast
  ultimately obtain st' where st': "new_leaf store_ops (inner s1) = (Inr (2 + 1), st')"
    "tree_at st' (insert (2 + 1) L) 0 (BLeaf (2 + 1) [])" "keeps L (inner s1) st'" "store_hdr st' HDbSize = 2 + 1"
    using new_leaf_run [of "inner s1" L, unfolded eq(1) size] by metis
  note st' = st' [unfolded three]
  have "same_mode st' (inner s1)" using st'(3) by (simp add: keeps_def same_mode_def)
  from leaf_txn [OF s1(2) st'(1) this] obtain s' where
    s': "in_txn dr (new_leaf (dr_ops dr)) s1 = (Inr META_TABLE_PAGE, s')" "ok s'" "st_pages (view s') = st_pages st'" by blast
  note eq' = pages_determine [OF s'(3)]
  have "open_lilli_db lib po fuel s = (Inr empty_schema, s')"
    using init_meta_run [OF s'(1) po] s1(1) po by (simp add: open_lilli_db_def bindS_def) (simp add: META_TABLE_PAGE_def)
  moreover have "meta_tree (view s') (insert META_TABLE_PAGE L) 0 (BLeaf META_TABLE_PAGE []) []"
    using st'(2) by (simp add: meta_tree_def eq' decoded_cells_def)
  ultimately show thesis using s'(2) st'(4) that by (simp add: eq')
qed

end

section \<open>A file and its schema\<close>

definition pager_object :: "nat \<Rightarrow> (pager \<Rightarrow> nat list) \<Rightarrow> pager pager_obj" where
  "pager_object salt ord = \<lparr>po_driver = pager_driver salt ord, po_rollback = pager_rollback\<rparr>"

definition open_file :: "pylib \<Rightarrow> nat \<Rightarrow> (pager \<Rightarrow> nat list) \<Rightarrow> bool \<Rightarrow> nat option \<Rightarrow> nat \<Rightarrow> disk \<Rightarrow> schema res \<times> pager" where
  \<comment> \<open>\<open>_open_lilli_db\<close> from the path on: the pager with its recovery, then the bootstrap table\<close>
  "open_file lib salt ord um mc fuel d =
     (case pager_open PAGE_SIZE um mc True d of
        (Inl e, s) \<Rightarrow> (Inl e, s)
      | (Inr _, s) \<Rightarrow> open_lilli_db lib (pager_object salt ord) fuel s)"

lemma open_file_replays:
  assumes s: "at_rest s" and m: "meta_tree (pager_view s) L d t rows" and fuel: "walk_fuel fuel (pager_view s) t"
    and crash: "crash_disk (p_disk s) d'"
  shows "\<exists>s'. open_file lib salt ord um mc fuel d' = (replay_rows lib rows, s') \<and> pager_page s' = pager_page s"
proof -
  have "between_txns s" using s by (simp add: resting_def)
  from crash_between [OF this crash, of um mc] obtain s2 where
    s2: "pager_open PAGE_SIZE um mc True d' = (Inr (), s2)" "between_txns s2" "pager_page s2 = pager_page s" .
  note eq = pages_determine [of "pager_view s2" "pager_view s"]
  have m2: "meta_tree (pager_view s2) L d t rows" "walk_fuel fuel (pager_view s2) t" using m fuel eq s2(3) by simp_all
  have "resting (\<lambda>_. True) s2" using s2(2) by (simp add: resting_def)
  from rest.open_replays [OF this m2, of "pager_object salt ord"] obtain s3 where
    "open_lilli_db lib (pager_object salt ord) fuel s2 = (replay_rows lib rows, s3)" "pager_view s3 = pager_view s2"
    by (auto simp: pager_object_def)
  then show ?thesis using s2(1,3) by (auto simp: open_file_def pager_view_def)
qed

text \<open>
  C3. CREATE TABLE is durable. On a database at rest whose bootstrap table holds the schema, registering the
  text of a list of columns under a new name returns, and puts the table with exactly these columns into the
  catalog and its root page, which no table used before, into the root map. After any crash from then on the
  file opens again on that catalog and these roots, the new table is the empty tree at its root, and every other table is as it was.
\<close>

theorem create_table_durable:
  assumes "at_rest s" and "meta_tree (pager_view s) L d t rows" and "persists lib rows sch"
    and "table_name_ok name" "list_all declarable cols" and "map_of (sch_root_map sch) name = None"
    and "plain_text (ddl_row (ddl_count rows) (show_tokens (show_create guarded name cols))) b1"
    and "plain_text (root_row name (int (store_hdr (pager_view s) HDbSize + 1))) b2"
    and "register_fits fuel d t b1 b2 (pager_view s)"
  shows "\<exists>s' root cat sch'. register_table lib (pager_driver salt ord) fuel (show_tokens (show_create guarded name cols)) (s, sch) = (Inr root, (s', sch')) \<and>
     map_of (cat_tables cat) = (map_of (cat_tables (sch_catalog sch)))(name \<mapsto> cols) \<and> root \<notin> L \<and>
     sch' = \<lparr>sch_catalog = cat, sch_root_map = dict_put name (int root) (sch_root_map sch)\<rparr> \<and>
     (\<forall>d'. crash_disk (p_disk s') d' \<longrightarrow> (\<exists>s2 roots L2. open_file lib salt ord um mc fuel d' = (Inr \<lparr>sch_catalog = cat, sch_root_map = roots\<rparr>, s2) \<and>
        map_of roots = (map_of (sch_root_map sch))(name \<mapsto> int root) \<and> tree_at (pager_view s2) L2 0 (BLeaf root []) \<and>
        (\<forall>e u. tree_at (pager_view s) L e u \<and> set (tree_pages u) \<inter> set (tree_pages t) = {} \<longrightarrow> tree_at (pager_view s2) L2 e u)))"
proof -
  define ddl where "ddl = show_tokens (show_create guarded name cols)"
  define cat where "cat = cat_register (sch_catalog sch) name cols"
  have cat: "map_of (cat_tables cat) = (map_of (cat_tables (sch_catalog sch)))(name \<mapsto> cols)" by (simp add: cat_def cat_register_def)
  have reg: "registers lib ddl sch name cat"
    using create_name [OF assms(4)] create_parses [OF assms(4,5)] create_applies [OF assms(4,5)] assms(6) cat
    by (auto simp: registers_def ddl_def cat_def)
  from pgtx.register_run [OF assms(1-3) reg assms(7) [folded ddl_def] assms(8,9), of salt ord] obtain s' L' d1 t' rows' n where
    r: "register_table lib (pager_driver salt ord) fuel ddl (s, sch) = (Inr n, (s', \<lparr>sch_catalog = cat, sch_root_map = dict_put name (int n) (sch_root_map sch)\<rparr>))"
      "at_rest s'" "meta_tree (pager_view s') L' d1 t' rows'" "walk_fuel fuel (pager_view s') t'"
      "persists lib rows' \<lparr>sch_catalog = cat, sch_root_map = dict_put name (int n) (sch_root_map sch)\<rparr>"
      "tree_at (pager_view s') L' 0 (BLeaf n [])" "n \<notin> L"
      "\<forall>p \<in> L - set (tree_pages t). p \<in> L' - set (tree_pages t') \<and> st_pages (pager_view s') p = st_pages (pager_view s) p" .
  have other: "tree_at (pager_view s') L' e u" if "tree_at (pager_view s) L e u" "set (tree_pages u) \<inter> set (tree_pages t) = {}" for e u
    using tree_at_facts(6) [OF that(1)] that(2) r(8) by (intro tree_frame [OF that(1) tree_at_facts(1) [OF r(6)]]) blast+
  have "\<exists>s2 roots L2. open_file lib salt ord um mc fuel d' = (Inr \<lparr>sch_catalog = cat, sch_root_map = roots\<rparr>, s2) \<and>
      map_of roots = (map_of (sch_root_map sch))(name \<mapsto> int n) \<and> tree_at (pager_view s2) L2 0 (BLeaf n []) \<and>
      (\<forall>e u. tree_at (pager_view s) L e u \<and> set (tree_pages u) \<inter> set (tree_pages t) = {} \<longrightarrow> tree_at (pager_view s2) L2 e u)"
    if "crash_disk (p_disk s') d'" for d'
  proof -
    from open_file_replays [OF r(2-4) that, of lib salt ord um mc] obtain s2 where
      s2: "open_file lib salt ord um mc fuel d' = (replay_rows lib rows', s2)" "pager_page s2 = pager_page s'" by blast
    moreover obtain roots where "replay_rows lib rows' = Inr \<lparr>sch_catalog = cat, sch_root_map = roots\<rparr>"
      "map_of roots = (map_of (sch_root_map sch))(name \<mapsto> int n)"
      using r(5) by (auto simp: persists_def)
    moreover have "tree_at (pager_view s2) M e u \<longleftrightarrow> tree_at (pager_view s') M e u" for M e u
      using s2(2) by (intro pages_determine(4)) simp
    ultimately show ?thesis using r(6) other by (intro exI [of _ s2] exI [of _ roots] exI [of _ L']) simp
  qed
  then show ?thesis using r(1,7) cat unfolding ddl_def by blast
qed

text \<open>
  C32. A CREATE TABLE without a column list makes the file unusable. The text of the statement is committed to
  the bootstrap table before it is read: the statement raises CatalogError, and after any crash from then on,
  or none, opening the file raises the same error.
\<close>

theorem bare_create_bricks:
  assumes "at_rest s" and "meta_tree (pager_view s) L d t rows" and "persists lib rows sch"
    and "table_name_ok name" and "map_of (sch_root_map sch) name = None"
    and "plain_text (ddl_row (ddl_count rows) (show_tokens (bare_create name))) b1"
    and "plain_text (root_row name (int (store_hdr (pager_view s) HDbSize + 1))) b2"
    and "register_fits fuel d t b1 b2 (pager_view s)"
  shows "\<exists>s'. register_table lib (pager_driver salt ord) fuel (show_tokens (bare_create name)) (s, sch) = (Inl CatalogError, (s', sch)) \<and>
     (\<forall>d'. crash_disk (p_disk s') d' \<longrightarrow> fst (open_file lib salt ord um mc fuel d') = Inl CatalogError)"
proof -
  note ref = bare_create_refused [OF assms(4)]
  from pgtx.register_refused [OF assms(1-3) ref(1) assms(5) ref(2) ref(3) assms(6-8), of salt ord] obtain s' L' d' t' rows' where
    r: "register_table lib (pager_driver salt ord) fuel (show_tokens (bare_create name)) (s, sch) = (Inl CatalogError, (s', sch))"
      "at_rest s'" "meta_tree (pager_view s') L' d' t' rows'" "walk_fuel fuel (pager_view s') t'" "replay_rows lib rows' = Inl CatalogError" .
  then show ?thesis using open_file_replays [OF r(2-4)] by (metis fst_conv)
qed

section \<open>Registering on a new database\<close>

lemma ascii_values_encode:
  assumes "\<forall>v \<in> set vs. (\<exists>s. v = PStr s \<and> (\<forall>c \<in> set s. c < 128) \<and> length s \<le> 1000) \<or> (\<exists>q. v = PInt q \<and> 0 \<le> q \<and> q < 2 ^ 31)"
  shows "\<exists>sts bodies. mapR serial_type_for vs = Inr sts \<and> mapR (\<lambda>(v, st). body_for v st) (zip vs sts) = Inr bodies \<and>
    length (concat (map (\<lambda>st. encode_varint (int st)) sts)) \<le> 9 * length vs \<and> length (concat bodies) \<le> 1000 * length vs"
  using assms
proof (induction vs)
  case (Cons v vs)
  have "\<exists>st b. serial_type_for v = Inr st \<and> body_for v st = Inr b \<and> length b \<le> 1000"
    using Cons.prems
  proof (cases v)
    case (PStr s)
    then have "utf8_encode s = Inr (map of_nat s)" "length s \<le> 1000" using Cons.prems utf8_encode_ascii [of s] by auto
    then show ?thesis using PStr by (simp add: serial_type_for_def body_for_def)
  next
    case (PInt q)
    then have "0 \<le> q" "q < 2 ^ 31" using Cons.prems by auto
    then show ?thesis using PInt by (simp add: serial_type_for_def body_for_def to_bytes_signed_def int_width_def)
  qed auto
  then obtain st b where "serial_type_for v = Inr st" "body_for v st = Inr b" "length b \<le> 1000" by blast
  then show ?case using Cons length_encode_varint_bounds(2) [of "int st"] by fastforce
qed simp

lemma ascii_row:
  assumes "\<forall>v \<in> set vs. (\<exists>s. v = PStr s \<and> (\<forall>c \<in> set s. c < 128) \<and> length s \<le> 1000) \<or> (\<exists>q. v = PInt q \<and> 0 \<le> q \<and> q < 2 ^ 31)"
    and "length vs \<le> 3"
  obtains b where "plain_text vs b" "length b \<le> 3100"
proof -
  obtain sts bodies where e: "mapR serial_type_for vs = Inr sts" "mapR (\<lambda>(v, st). body_for v st) (zip vs sts) = Inr bodies"
    "length (concat (map (\<lambda>st. encode_varint (int st)) sts)) \<le> 9 * length vs" "length (concat bodies) \<le> 1000 * length vs"
    using ascii_values_encode [OF assms(1)] by blast
  let ?tc = "concat (map (\<lambda>st. encode_varint (int st)) sts)"
  have h: "header_size_loop 3 (length ?tc) [] = [of_nat (length ?tc + 1)]" using e(3) assms(2) by (intro header_size_small) simp
  let ?b = "[of_nat (length ?tc + 1)] @ ?tc @ concat bodies"
  have "encode_record vs = Inr ?b" using e(1,2) h by (simp add: encode_record_def Let_def)
  moreover have "length ?b \<le> 3100" using e(3,4) assms(2) by simp
  moreover have "map RecordCodec.stored vs = vs" using assms(1) by (intro map_idI) auto
  ultimately show thesis using that [of ?b] assms(2) by (simp add: plain_text_def)
qed

lemma new_database:
  obtains s where "open_file lib salt ord um mc fuel empty_disk = (Inr empty_schema, s)" "at_rest s"
    "meta_tree (pager_view s) {2, 3} 0 (BLeaf 3 []) []" "store_hdr (pager_view s) HDbSize = 3"
proof -
  from fresh_open_run [of empty_disk um mc True] obtain s0 where
    s0: "pager_open PAGE_SIZE um mc True empty_disk = (Inr (), s0)" "between_txns s0" "tree_at (pager_view s0) {2} 0 (BLeaf 2 [])"
      "store_hdr (pager_view s0) HDbSize = 2" "d_budget (p_disk s0) = None"
    by (auto simp: empty_disk_def)
  have "at_rest s0" using s0(2,5) by (simp add: resting_def)
  from pgtx.open_new [OF this s0(3,4), of "pager_object salt ord" salt ord lib fuel] obtain s where
    "open_lilli_db lib (pager_object salt ord) fuel s0 = (Inr empty_schema, s)" "at_rest s"
    "meta_tree (pager_view s) (insert META_TABLE_PAGE {2}) 0 (BLeaf META_TABLE_PAGE []) []" "store_hdr (pager_view s) HDbSize = META_TABLE_PAGE"
    by (auto simp: pager_object_def)
  then show thesis using that s0(1) by (simp add: open_file_def META_TABLE_PAGE_def insert_commute)
qed

lemma new_persists: "persists lib [] empty_schema"
  by (simp add: persists_def numbered_def replay_rows_def empty_schema_def dict_of_def)

lemma small_registration:
  assumes "store_hdr st HDbSize = 3" and "length b1 \<le> 3100" "length b2 \<le> 3100"
  shows "register_fits 1000 0 (BLeaf 3 []) b1 b2 st"
proof -
  have "spill_need b1 = 0" "spill_need b2 = 0" using assms by (simp_all add: spill_need_def spills_def OVERFLOW_THRESHOLD_def PAGE_SIZE_def)
  then show ?thesis using assms(1)
    by (simp add: register_fits_def register_room_def payload_pages_def cells_need_def room_def next_meta_key_def)
qed

lemma demo_texts:
  "(\<forall>c \<in> set (show_tokens (bare_create [116])). c < 128) \<and> length (show_tokens (bare_create [116])) \<le> 1000"
  "(\<forall>c \<in> set (show_tokens (show_create True [116] demo_columns)). c < 128) \<and> length (show_tokens (show_create True [116] demo_columns)) \<le> 1000"
  by (simp_all add: show_tokens_def bare_create_def show_create_def demo_columns_def show_column_def show_default_def show_literal_def
      word_capitals [THEN shown_capital] more_capitals [THEN shown_capital] shown_word shown_capital capital_def pu_def show_plain word_shaped_def is_word_def is_alpha_def pystr_of_def nat_digits.simps)

lemma demo_name: "table_name_ok [116]" "list_all declarable demo_columns"
  by (simp_all add: table_name_ok_def demo_columns_def declarable_def default_ok_def word_shaped_def is_alpha_def upper_def upper_char_def
      column_words_def nat_digits.simps pystr_of_def)

theorem create_table_durable_witness:
  "\<exists>s s' root cat sch'. open_file plain_lib 5 (\<lambda>_. []) True None 1000 empty_disk = (Inr empty_schema, s) \<and>
     register_table plain_lib (pager_driver 5 (\<lambda>_. [])) 1000 (show_tokens (show_create True [116] demo_columns)) (s, empty_schema) = (Inr root, (s', sch')) \<and>
     map_of (cat_tables cat) = [[116] \<mapsto> demo_columns] \<and>
     (\<exists>s2 roots. open_file plain_lib 5 (\<lambda>_. []) False (Some 3) 1000 (reboot (p_disk s')) = (Inr \<lparr>sch_catalog = cat, sch_root_map = roots\<rparr>, s2) \<and>
        map_of roots = [[116] \<mapsto> int root])"
proof -
  obtain s where s: "open_file plain_lib 5 (\<lambda>_. []) True None 1000 empty_disk = (Inr empty_schema, s)" "at_rest s"
    "meta_tree (pager_view s) {2, 3} 0 (BLeaf 3 []) []" "store_hdr (pager_view s) HDbSize = 3" by (rule new_database)
  obtain b1 where b1: "plain_text (ddl_row (ddl_count []) (show_tokens (show_create True [116] demo_columns))) b1" "length b1 \<le> 3100"
    by (rule ascii_row [of "ddl_row (ddl_count []) (show_tokens (show_create True [116] demo_columns))"])
      (use demo_texts in \<open>auto simp: ddl_row_def ddl_count_def pystr_of_def\<close>)
  obtain b2 where b2: "plain_text (root_row [116] (int (store_hdr (pager_view s) HDbSize + 1))) b2" "length b2 \<le> 3100"
    by (rule ascii_row [of "root_row [116] (int (store_hdr (pager_view s) HDbSize + 1))"]) (auto simp: root_row_def pystr_of_def s(4))
  have none: "map_of (sch_root_map empty_schema) [116] = None" by (simp add: empty_schema_def)
  note d = create_table_durable [where salt = 5 and ord = "\<lambda>_. []" and um = False and mc = "Some 3", OF s(2,3) new_persists demo_name none b1(1) b2(1) small_registration [OF s(4) b1(2) b2(2)]]
  show ?thesis using d crash_reboot s(1) by (fastforce simp: empty_schema_def)
qed

theorem bare_create_bricks_witness:
  "\<exists>s s'. open_file plain_lib 5 (\<lambda>_. []) True None 1000 empty_disk = (Inr empty_schema, s) \<and>
     register_table plain_lib (pager_driver 5 (\<lambda>_. [])) 1000 (show_tokens (bare_create [116])) (s, empty_schema) = (Inl CatalogError, (s', empty_schema)) \<and>
     fst (open_file plain_lib 5 (\<lambda>_. []) True None 1000 (reboot (p_disk s'))) = Inl CatalogError"
proof -
  obtain s where s: "open_file plain_lib 5 (\<lambda>_. []) True None 1000 empty_disk = (Inr empty_schema, s)" "at_rest s"
    "meta_tree (pager_view s) {2, 3} 0 (BLeaf 3 []) []" "store_hdr (pager_view s) HDbSize = 3" by (rule new_database)
  obtain b1 where b1: "plain_text (ddl_row (ddl_count []) (show_tokens (bare_create [116]))) b1" "length b1 \<le> 3100"
    by (rule ascii_row [of "ddl_row (ddl_count []) (show_tokens (bare_create [116]))"])
      (use demo_texts in \<open>auto simp: ddl_row_def ddl_count_def pystr_of_def\<close>)
  obtain b2 where b2: "plain_text (root_row [116] (int (store_hdr (pager_view s) HDbSize + 1))) b2" "length b2 \<le> 3100"
    by (rule ascii_row [of "root_row [116] (int (store_hdr (pager_view s) HDbSize + 1))"]) (auto simp: root_row_def pystr_of_def s(4))
  have none: "map_of (sch_root_map empty_schema) [116] = None" by (simp add: empty_schema_def)
  note d = bare_create_bricks [where salt = 5 and ord = "\<lambda>_. []" and um = True and mc = None and lib = plain_lib, OF s(2,3) new_persists demo_name(1) none b1(1) b2(1) small_registration [OF s(4) b1(2) b2(2)]]
  show ?thesis using d crash_reboot s(1) by blast
qed

end
