(* ===== verification/CommitFaults.thy ===== *)
theory CommitFaults
  imports Durable
begin

text \<open>
  Two commits that go wrong in rollback-journal mode, and why. The journal is synced but the directory it
  was created in is not, so a crash may find the half-written database file without its journal; and a
  rollback after a failed commit deletes the journal while the file already holds pages of the transaction.
\<close>

section \<open>A commit that stops between two pages\<close>

lemma forS_append: "forS m (xs @ ys) = bindS (forS m xs) (\<lambda>_. forS m ys)"
proof
  fix s show "forS m (xs @ ys) s = bindS (forS m xs) (\<lambda>_. forS m ys) s"
    by (induction xs arbitrary: s) (auto simp: bindS_def split: prod.split sum.split)
qed

definition stops_at :: "journal \<Rightarrow> nat \<Rightarrow> pager \<Rightarrow> bool" where
  \<comment> \<open>the calls on the journal and the writes of \<open>k\<close> pages succeed, the next call fails\<close>
  "stops_at j k s \<longleftrightarrow> d_budget (p_disk s) = Some (length (arm_steps (j_pending j)) + k)"

lemma stopped_commit:
  assumes s0: "between_txns s0" and b: "begin_write s0 = (Inr (), s1)" and at: "pager_at (p_disk s1) None s"
    and j: "p_journal s = Some j" and order: "transaction_order s order" and k: "k \<le> length order" "stops_at j k s"
  obtains s' where "pager_commit salt order s = (Inl OSError, s')" "flushed j s s'" "d_budget (p_disk s') = Some 0"
    "d_db (p_disk s') = add_wrs (map page_write (dirty_items s (take k order))) (settled_file (db_content (p_disk s1)))"
    "d_jrn (p_disk s') = \<lparr>sc_cur = Some (armed_file (j_pending j)),
       sc_stale = (if d_links (p_disk s0) then [] else sc_stale (d_jrn (p_disk s1)))\<rparr>"
proof -
  let ?d = "p_disk s1" and ?items = "dirty_items s (take k order)"
  let ?hs = "arm_steps (j_pending j) @ map db_write ?items"
  note bf = begun_format [OF s0 b]
  have ok: "pager_ok ?d None s" using at by (simp add: pager_at_def)
  note bb = pager_ok_basics [OF ok] and t = txn_images [OF ok j order]
  have ws: "true_copies (j_pending j) (db_content ?d)" "images (j_pending j)"
    using txn_saved [OF at j order] by (simp_all add: well_saved_def)
  have taken: "\<forall>n \<in> set (take k order). n \<noteq> 0 \<and> map_of (p_cache s) n = Some (pager_page s n)" using t(3) by (auto dest: in_set_takeD)
  have fol: "follows (bindS (arm_journal j) (\<lambda>_. forS write_dirty_page (take k order))) ?hs (flushed j s) s"
    unfolding dirty_items_def
    by (rule follows_bind [OF follows_arm [OF j t(1,2)]], rule follows_pages) (use t(4) taken in auto)
  have free: "\<forall>h \<in> set ?hs. budget_free h" by (auto simp: ball_Un)
  have "length ?items = k" using k(1) by (simp add: dirty_items_def)
  then have "d_budget (p_disk s) = Some (length ?hs + 0)" using k(2) by (simp add: stops_at_def)
  from follows_exact [OF fol free this] obtain s' where
    s': "bindS (arm_journal j) (\<lambda>_. forS write_dirty_page (take k order)) s = (Inr (), s')" "flushed j s s'"
      "p_disk s' = (after ?hs (p_disk s))\<lparr>d_budget := Some 0\<rparr>" by metis
  have zero: "io_call h (p_disk s') = (Inl OSError, p_disk s')" for h using s'(3) by (simp add: io_call_def)
  have same: "s'\<lparr>p_disk := p_disk s'\<rparr> = s'" by simp
  have stop: "bindS (forS write_dirty_page (drop k order)) (\<lambda>_. bindS (with_disk db_fsync) K) s' = (Inl OSError, s')" for K :: "unit \<Rightarrow> (pager, unit) pm"
  proof (cases "drop k order")
    case Nil
    then show ?thesis by (simp add: bindS_def with_disk_def calls zero)
  next
    case (Cons n ns)
    then have "n \<in> set order" by (metis in_set_dropD list.set_intros(1))
    then have "write_dirty_page n s' = with_disk (io_call (db_write (n, pager_page s n))) s'"
      using t(3,4) s'(2) by (auto simp: write_dirty_page_def bindS_def page_offset_def calls [unfolded One_nat_def] flushed_def)
    then show ?thesis by (simp add: Cons bindS_def with_disk_def zero)
  qed
  obtain K where K: "commit_journal j order = bindS (arm_journal j) (\<lambda>_. bindS (forS write_dirty_page order) (\<lambda>_. bindS (with_disk db_fsync) K))"
    by (rule that [OF commit_journal_arm])
  have "forS write_dirty_page order = bindS (forS write_dirty_page (take k order)) (\<lambda>_. forS write_dirty_page (drop k order))"
    using forS_append [of write_dirty_page "take k order" "drop k order"] by simp
  then have "commit_journal j order = bindS (bindS (arm_journal j) (\<lambda>_. forS write_dirty_page (take k order)))
      (\<lambda>_. bindS (forS write_dirty_page (drop k order)) (\<lambda>_. bindS (with_disk db_fsync) K))"
    by (simp only: K bindS_assoc)
  then have "commit_journal j order s = (Inl OSError, s')"
    using stop by (simp only: bindS_Inr [where m = "bindS (arm_journal j) (\<lambda>_. forS write_dirty_page (take k order))", OF s'(1)])
  then have run: "pager_commit salt order s = (Inl OSError, s')" using bb(3,4) j by (simp add: pager_commit_def check_open_def bindS_def)
  have links: "d_links ?d = d_links (p_disk s0)" by (rule begin_run(7) [OF s0 b])
  have "d_db ?d = settled_file (db_content ?d)" using bf(2) by (auto simp: begun_def)
  then show thesis
    using that [OF run s'(2)] arm_run(1) [OF bf(2) ws] links by (simp add: s'(3) bb(1) copy_run(1))
qed

section \<open>Opening a file with some pages of a transaction\<close>

definition mixed_page :: "pager \<Rightarrow> pager \<Rightarrow> nat list \<Rightarrow> nat \<Rightarrow> bytes" where
  \<comment> \<open>the new content of the pages \<open>ps\<close>, the old content of the others\<close>
  "mixed_page s0 s ps p = (if p \<in> set ps then pager_page s p else pager_page s0 p)"

definition readable_prefix :: "pager \<Rightarrow> nat list \<Rightarrow> bool" where
  \<comment> \<open>the header page is among these pages, or none of them lies beyond the old end of the file\<close>
  "readable_prefix s0 ps \<longleftrightarrow> 1 \<in> set ps \<or> (\<forall>p \<in> set ps. p \<le> store_hdr (pager_view s0) HDbSize)"

lemma mixed_opens:
  assumes s0: "between_txns s0" and b: "begin_write s0 = (Inr (), s1)" and at: "pager_at (p_disk s1) None s"
    and jr: "p_journal s \<noteq> None" and ps: "set ps \<subseteq> p_dirty s" "distinct ps" "readable_prefix s0 ps"
    and d: "settled d" "d_budget d = None" "sc_cur (d_jrn d) = None"
    and f: "db_content d = fold apply_wr (map page_write (dirty_items s ps)) (db_content (p_disk s1))"
  obtains s2 where "pager_open PAGE_SIZE um mc True d = (Inr (), s2)" "between_txns s2" "pager_page s2 = mixed_page s0 s ps"
proof -
  let ?d = "p_disk s1" and ?f = "db_content (p_disk s1)" and ?items = "dirty_items s ps"
  note bf = begun_format [OF s0 b]
  have ok: "pager_ok ?d None s" using at by (simp add: pager_at_def)
  note parts = journal_ok_parts [OF ok]
  have nz: "n \<noteq> 0" if "n \<in> p_dirty s" for n using that pager_ok_basics(6) [OF ok] unfolding cache_ok_def by metis
  have items: "pages_ok ?items" "map fst ?items = ps"
    using ps(1) nz pager_page_length [OF ok] by (fastforce simp: pages_ok_def dirty_items_def comp_def)+
  have crash: "crash_bytes (map page_write ?items) ?f (db_content d)" unfolding f by (rule crash_all)
  have new: "x ! i = byte_at ?f i" if "(1, x) \<in> set ?items" "16 \<le> i" "i < 19" for x i
    using that format_bytes [OF at] by (auto simp: dirty_items_def)
  have bytes: "byte_at (db_content d) i = byte_at ?f i" if "16 \<le> i" "i < 19" for i
    by (rule format_kept [OF crash items(1) that]) (use new that in blast)
  have o: "opens_as d (page_img (db_content d)) ?f"
    using d bytes crash_length [OF crash only_page_writes]
    by (simp add: opens_as_def jrn_recovered_def jrn_recs_def side_image_def overlay_def dict_pages_def)
  have pg: "page_img (db_content d) p = mixed_page s0 s ps p" if p: "1 \<le> p" for p
  proof -
    have "map_of ?items p = (if p \<in> set ps then Some (pager_page s p) else None)"
      by (auto simp: dirty_items_def map_of_map_restrict)
    then show ?thesis
      unfolding f using page_writes_img [OF items(1) _ p, of ?f] items(2) ps(2) begun_pages [OF s0 b p] by (simp add: mixed_page_def)
  qed
  have at0: "pager_at (p_disk s0) None s0" using s0 by (simp add: between_txns_def)
  have view: "be_nat (pyslice (pager_page s' 1) (hdr_offset HDbSize) (hdr_offset HDbSize + hdr_width HDbSize)) = store_hdr (pager_view s') HDbSize" for s'
    by (simp only: store_hdr_def pager_view_simps)
  have old: "1 \<le> store_hdr (pager_view s0) HDbSize" "\<And>p. store_hdr (pager_view s0) HDbSize < p \<Longrightarrow> pager_page s0 p = replicate PAGE_SIZE 0"
    and cur: "1 \<le> store_hdr (pager_view s) HDbSize" "\<And>p. store_hdr (pager_view s) HDbSize < p \<Longrightarrow> pager_page s p = replicate PAGE_SIZE 0"
    using sound_view [OF at0, unfolded sound_pages_def Let_def view] sound_view [OF at, unfolded sound_pages_def Let_def view] by blast+
  have beyond: "p \<notin> set ps" if "store_hdr (pager_view s) HDbSize < p" for p
    using that ps(1) at by (force simp: pager_at_def)
  have far: "pager_page s0 p = replicate PAGE_SIZE 0" if "store_hdr (pager_view s) HDbSize < p" for p
  proof -
    have "store_hdr (base_store ?d None False) HDbSize < p" using parts(2) that by linarith
    then show ?thesis using parts(3) begun_pages [OF s0 b, of p] that by simp
  qed
  have "sound_pages (page_img (db_content d))"
  proof (cases "1 \<in> set ps")
    case True
    have "be_nat (pyslice (page_img (db_content d) 1) (hdr_offset HDbSize) (hdr_offset HDbSize + hdr_width HDbSize)) = store_hdr (pager_view s) HDbSize"
      using pg [of 1] True view by (simp add: mixed_page_def)
    then show ?thesis using cur(1) far beyond pg by (simp add: sound_pages_def Let_def mixed_page_def)
  next
    case False
    have "be_nat (pyslice (page_img (db_content d) 1) (hdr_offset HDbSize) (hdr_offset HDbSize + hdr_width HDbSize)) = store_hdr (pager_view s0) HDbSize"
      using pg [of 1] False view by (simp add: mixed_page_def)
    moreover have "p \<notin> set ps" if "store_hdr (pager_view s0) HDbSize < p" for p
      using that ps(3) False by (auto simp: readable_prefix_def)
    ultimately show ?thesis using old pg by (simp add: sound_pages_def Let_def mixed_page_def)
  qed
  moreover have "page_img (db_content d) 1 ! i = byte_at ?f i" if "16 \<le> i" "i < 19" for i
    using bytes [OF that] that page_img_nth [of i "db_content d" 1] by (simp add: PAGE_SIZE_def)
  ultimately obtain s2 where s2: "pager_open PAGE_SIZE um mc True d = (Inr (), s2)" "between_txns s2"
    "\<And>p. 1 \<le> p \<Longrightarrow> pager_page s2 p = page_img (db_content d) p"
    using open_run [OF o bf(1) d(2)] by metis
  have "pager_page s2 p = mixed_page s0 s ps p" for p
  proof (cases "p = 0")
    case True
    then show ?thesis using nz ps(1) by (auto simp: mixed_page_def pager_page_def)
  qed (use s2(3) pg in simp)
  then show thesis using s2(1,2) by (intro that) (auto simp: fun_eq_iff)
qed

section \<open>The journal without its directory entry\<close>

lemma taken_pages:
  assumes "transaction_order s order"
  shows "set (take k order) \<subseteq> p_dirty s" and "distinct (take k order)"
  using assms by (auto simp: transaction_order_def dest: in_set_takeD)

lemma begun_entry:
  \<comment> \<open>when a transaction has begun, a crash may still find no journal\<close>
  assumes "between_txns s0" and "begin_write s0 = (Inr (), s1)"
  shows "None \<in> set (sc_stale (d_jrn (p_disk s1)))"
  using begun_format(2) [OF assms] by (auto simp: begun_def)

text \<open>
  C18. A commit can be torn when the directory entry of the journal is lost. \<open>begin_write\<close> creates the journal
  and \<open>commit\<close> syncs its content twice, but nothing syncs the directory before the pages are written. On a file
  system that does not make the entry durable with the file, let the commit stop after any number \<open>k\<close> of
  page writes: some crash loses the entry and keeps those writes, and the file then opens without error on
  exactly the mixture: the new content of the first \<open>k\<close> pages and the old content of all others.
\<close>

theorem journal_entry_lost:
  assumes "between_txns s0" and "begin_write s0 = (Inr (), s1)" and "pager_at (p_disk s1) None s"
    and "p_journal s = Some j" and "transaction_order s order" and "k \<le> length order" and "stops_at j k s"
    and "\<not> d_links (p_disk s0)" and "readable_prefix s0 (take k order)"
  shows "\<exists>s' d s2. pager_commit salt order s = (Inl OSError, s') \<and> crash_disk (p_disk s') d \<and>
    pager_open PAGE_SIZE um mc True d = (Inr (), s2) \<and> pager_page s2 = mixed_page s0 s (take k order)"
proof -
  let ?items = "dirty_items s (take k order)" and ?f = "db_content (p_disk s1)"
  from stopped_commit [OF assms(1-7)] obtain s' where s': "pager_commit salt order s = (Inl OSError, s')"
    "d_db (p_disk s') = add_wrs (map page_write ?items) (settled_file ?f)"
    "d_jrn (p_disk s') = \<lparr>sc_cur = Some (armed_file (j_pending j)), sc_stale = (if d_links (p_disk s0) then [] else sc_stale (d_jrn (p_disk s1)))\<rparr>"
    by blast
  let ?d = "(reboot (p_disk s'))\<lparr>d_jrn := \<lparr>sc_cur = None, sc_stale = []\<rparr>\<rparr>"
  have "crash_side (d_jrn (p_disk s')) \<lparr>sc_cur = None, sc_stale = []\<rparr>"
    using begun_entry [OF assms(1,2)] assms(8) s'(3) by (auto simp: crash_side_def intro!: bexI [of _ None])
  then have crash: "crash_disk (p_disk s') ?d" using crash_reboot [of "p_disk s'"] by (auto simp: crash_disk_def)
  have "db_content ?d = fold apply_wr (map page_write ?items) ?f"
    by (simp add: reboot_def Let_def db_content_def s'(2))
  from mixed_opens [OF assms(1-3) _ taken_pages [OF assms(5)] assms(9) crash_settled [OF crash] _ _ this, of um mc] assms(4)
  obtain s2 where "pager_open PAGE_SIZE um mc True ?d = (Inr (), s2)" "pager_page s2 = mixed_page s0 s (take k order)"
    by (auto simp: reboot_def Let_def)
  with s'(1) crash show ?thesis by blast
qed

section \<open>A rollback after a failed commit\<close>

lemma armed_records:
  \<comment> \<open>what the rollback reads back from the journal of a failed commit\<close>
  assumes "images recs" and "length recs = n" and "d_jrn d = \<lparr>sc_cur = Some (armed_file recs), sc_stale = st\<rparr>"
  shows "journal_records PAGE_SIZE (pread (side_content Jrn d) (JOURNAL_HEADER_SIZE + n * (4 + PAGE_SIZE)) 0) JOURNAL_HEADER_SIZE n = recs"
proof -
  have "side_content Jrn d = (JOURNAL_MAGIC @ be_bytes 4 n) @ journal_bytes recs"
    using assms(2,3) by (simp add: side_content_def d_side_def armed_file_def journal_file_def)
  moreover have "length (JOURNAL_MAGIC @ be_bytes 4 n) = JOURNAL_HEADER_SIZE" by (simp add: JOURNAL_HEADER_SIZE_def)
  ultimately show ?thesis
    using journal_records_bytes [OF assms(1), of "JOURNAL_MAGIC @ be_bytes 4 n" n] assms(1,2)
    by (simp add: pread_def length_journal_bytes)
qed

lemma rollback_flushed:
  \<comment> \<open>a rollback with the records in the journal file, the calls working again\<close>
  assumes ok: "pager_ok d None s" and j: "p_journal s = Some j" and fl: "flushed j s s'"
    and jrn: "d_jrn (p_disk s') = \<lparr>sc_cur = Some (armed_file (j_pending j)), sc_stale = st\<rparr>" and free: "d_budget (p_disk s') = None"
  shows "pager_rollback s' = (Inr (), (fold restore_page (j_pending j) s')\<lparr>p_disk := jrn_unlink (p_disk s'), p_journal := None, p_dirty := {}\<rparr>)"
proof -
  note bb = pager_ok_basics [OF ok]
  have im: "images_ok d j" by (rule journal_ok_parts(5) [OF ok j])
  have cnt: "j_count j = length (j_pending j)" using im by (simp add: images_ok_def)
  obtain d' where s': "s' = s\<lparr>p_disk := d', p_journal := Some (j\<lparr>j_pending := []\<rparr>)\<rparr>" using fl by (auto simp: flushed_def)
  have f: "p_journal s' = Some (j\<lparr>j_pending := []\<rparr>)" "\<not> p_closed s'" "\<not> p_wal_mode s'" "p_page_size s' = PAGE_SIZE"
    using bb(3-5) by (simp_all add: s')
  note recs = armed_records [OF images_of_ok [OF im] refl jrn]
  show ?thesis
    using f free recs by (simp add: pager_rollback_def check_open_def bindS_def Let_def cnt with_disk_def calls io_call_free restore_pages)
qed

lemma restored_pages:
  \<comment> \<open>the before-images cover every page of the transaction that changed\<close>
  assumes s0: "between_txns s0" and b: "begin_write s0 = (Inr (), s1)" and at: "pager_at (p_disk s1) None s"
    and j: "p_journal s = Some j" and order: "transaction_order s order"
    and r: "map_of (p_cache r) = map_of (p_cache (fold restore_page (j_pending j) s))" "p_wal r = None"
    and f: "db_content (p_disk r) = fold apply_wr (map page_write (dirty_items s (take k order))) (db_content (p_disk s1))"
  shows "pager_page r = pager_page s0"
proof (rule pages_ext)
  fix p :: nat assume p: "1 \<le> p"
  have ok: "pager_ok (p_disk s1) None s" using at by (simp add: pager_at_def)
  note bb = pager_ok_basics [OF ok]
  let ?items = "dirty_items s (take k order)" and ?f = "db_content (p_disk s1)"
  show "pager_page r p = pager_page s0 p"
  proof (cases "map_of (p_cache r) p")
    case (Some data)
    then have "data = page_img ?f p" using restored_cache(2) [OF ok j refl, of p data] r(1) p by simp
    then have "pager_page r p = page_img ?f p" using Some p r(2) by (simp add: pager_page_def)
    then show ?thesis using begun_pages [OF s0 b p] by simp
  next
    case None
    then have "map_of (p_cache s) p = None" by (simp add: r(1) restore_pages map_add_def split: option.splits)
    then have clean: "p \<notin> p_dirty s" using bb(6) by (auto simp: cache_ok_def dom_def)
    have nz: "n \<noteq> 0" if "n \<in> p_dirty s" for n using that bb(6) unfolding cache_ok_def by metis
    have items: "pages_ok ?items" "p \<notin> fst ` set ?items" "distinct (map fst ?items)"
      using taken_pages [OF order, of k] clean nz pager_page_length [OF ok]
      by (fastforce simp: pages_ok_def dirty_items_def comp_def)+
    then have "map_of ?items p = None" by (simp add: map_of_eq_None_iff)
    then have "page_img (db_content (p_disk r)) p = page_img ?f p"
      unfolding f using page_writes_img [OF items(1,3) p] by simp
    then have "pager_page r p = page_img ?f p" using None p r(2) by (simp add: pager_page_def base_page_def)
    then show ?thesis using begun_pages [OF s0 b p] by simp
  qed
qed

text \<open>
  C19. A rollback after a failed commit does not undo it. Let a commit fail after any number \<open>k\<close> of page writes
  and the calls work again afterwards. \<open>rollback\<close> then returns; the pager has no transaction and shows every page as it
  was before. But the rollback has deleted the journal and left the written pages in the database file: opening
  the file again, with no crash at all, succeeds on the new content of the first \<open>k\<close> pages (all of them, when only
  the sync failed) and the old content of the others.
\<close>

theorem rollback_after_commit:
  assumes "between_txns s0" and "begin_write s0 = (Inr (), s1)" and "pager_at (p_disk s1) None s"
    and "p_journal s = Some j" and "transaction_order s order" and "k \<le> length order" and "stops_at j k s"
    and "readable_prefix s0 (take k order)"
  shows "\<exists>s' s'' s2. pager_commit salt order s = (Inl OSError, s') \<and>
    pager_rollback (s'\<lparr>p_disk := (p_disk s')\<lparr>d_budget := None\<rparr>\<rparr>) = (Inr (), s'') \<and>
    p_journal s'' = None \<and> p_dirty s'' = {} \<and> pager_page s'' = pager_page s0 \<and>
    pager_open PAGE_SIZE um mc True (reboot (p_disk s'')) = (Inr (), s2) \<and> pager_page s2 = mixed_page s0 s (take k order)"
proof -
  let ?items = "dirty_items s (take k order)" and ?f = "db_content (p_disk s1)"
  have ok: "pager_ok (p_disk s1) None s" using assms(3) by (simp add: pager_at_def)
  note bb = pager_ok_basics [OF ok]
  from stopped_commit [OF assms(1-7)] obtain s' st where s': "pager_commit salt order s = (Inl OSError, s')" "flushed j s s'"
    "d_db (p_disk s') = add_wrs (map page_write ?items) (settled_file ?f)"
    "d_jrn (p_disk s') = \<lparr>sc_cur = Some (armed_file (j_pending j)), sc_stale = st\<rparr>"
    by blast
  let ?s = "s'\<lparr>p_disk := (p_disk s')\<lparr>d_budget := None\<rparr>\<rparr>"
  let ?r = "(fold restore_page (j_pending j) ?s)\<lparr>p_disk := jrn_unlink (p_disk ?s), p_journal := None, p_dirty := {}\<rparr>"
  have run: "pager_rollback ?s = (Inr (), ?r)"
    by (rule rollback_flushed [OF ok assms(4) flushed_disk [OF s'(2)]]) (simp_all add: s'(4))
  have cache: "p_cache s' = p_cache s" "p_wal s' = p_wal s" using s'(2) by (auto simp: flushed_def)
  have content: "db_content (p_disk ?r) = fold apply_wr (map page_write ?items) ?f" "sc_cur (d_jrn (p_disk ?r)) = None"
    by (simp_all add: jrn_unlink_def upd_side_def db_content_def s'(3,4))
  have "map_of (p_cache ?r) = map_of (p_cache (fold restore_page (j_pending j) s))" "p_wal ?r = None"
    using cache bb(2) by (simp_all add: restore_pages)
  then have shown: "pager_page ?r = pager_page s0"
    by (rule restored_pages [OF assms(1-5)]) (rule content(1))
  let ?d = "reboot (p_disk ?r)"
  have "db_content ?d = fold apply_wr (map page_write ?items) ?f" "sc_cur (d_jrn ?d) = None" "d_budget ?d = None"
    using content by (simp_all add: reboot_def Let_def db_content_def)
  from mixed_opens [OF assms(1-3) _ taken_pages [OF assms(5)] assms(8) crash_settled [OF crash_reboot] this(3,2,1), of um mc] assms(4)
  obtain s2 where "pager_open PAGE_SIZE um mc True ?d = (Inr (), s2)" "pager_page s2 = mixed_page s0 s (take k order)" by auto
  then show ?thesis using s'(1) run shown by (intro exI [of _ s'] exI [of _ ?r] exI [of _ s2]) simp
qed

section \<open>A transaction of two pages that stops after the first\<close>

definition on_disk_of :: "(disk \<Rightarrow> disk) \<Rightarrow> pager \<Rightarrow> pager" where
  "on_disk_of h s = s\<lparr>p_disk := h (p_disk s)\<rparr>"

definition failing_after :: "nat \<Rightarrow> bool \<Rightarrow> disk \<Rightarrow> disk" where
  "failing_after b l d = d\<lparr>d_budget := Some b, d_links := l\<rparr>"

lemma failing_disk [simp]:
  "db_content (failing_after b l d) = db_content d" "d_db (failing_after b l d) = d_db d" "d_jrn (failing_after b l d) = d_jrn d"
  "d_budget (failing_after b l d) = Some b" "d_links (failing_after b l d) = l"
  by (simp_all add: failing_after_def db_content_def)

lemma failing_between:
  assumes s: "between_txns s"
  shows "between_txns (on_disk_of (failing_after b l) s)" and "pager_page (on_disk_of (failing_after b l) s) = pager_page s"
proof -
  let ?s = "on_disk_of (failing_after b l) s"
  have base: "base_page (failing_after b l d) None = base_page d None" "base_store (failing_after b l d) None False = base_store d None False" for d
    by (auto simp: base_page_def base_store_def fun_eq_iff)
  have ok: "pager_ok (p_disk s) None s" using s by (simp add: between_txns_def pager_at_def)
  have fields: "p_disk ?s = failing_after b l (p_disk s)" "p_cache ?s = p_cache s" "p_dirty ?s = p_dirty s" "p_wal ?s = p_wal s"
    "p_journal ?s = p_journal s" "p_wal_mode ?s = p_wal_mode s" "p_closed ?s = p_closed s" "p_page_size ?s = p_page_size s"
    "p_mmap ?s = p_mmap s" "p_pinned ?s = p_pinned s"
    by (simp_all add: on_disk_of_def)
  show "pager_page ?s = pager_page s"
    using pager_ok_basics(2) [OF ok] base(1) by (auto simp: pager_page_def fields fun_eq_iff split: option.split)
  have at: "pager_at (p_disk ?s) None ?s"
  proof (rule clean_pager_at(1))
    note bb = pager_ok_basics [OF ok] and parts = journal_ok_parts [OF ok]
    have clean: "p_dirty s = {}" "p_journal s = None" using s by (simp_all add: between_txns_def)
    show "1 \<le> store_hdr (base_store (p_disk ?s) None False) HDbSize" using parts(1) by (simp add: fields base)
    show "page_img (db_content (p_disk ?s)) n = replicate PAGE_SIZE 0" if "store_hdr (base_store (p_disk ?s) None False) HDbSize < n" for n
      using parts(3) that by (simp add: fields base)
    show "length data = PAGE_SIZE \<and> (1 \<le> n \<longrightarrow> data = page_img (db_content (p_disk ?s)) n)" if "map_of (p_cache ?s) n = Some data" for n data
      using that bb(6) parts(4) [of n data] clean by (auto simp: fields cache_ok_def)
    show "len \<le> length (db_content (p_disk ?s))" if "p_mmap ?s = Some len" for len using that bb(7) by (simp add: fields)
    show "1 \<in> p_pinned ?s" using bb(6) by (simp add: fields cache_ok_def)
  qed (use pager_ok_basics [OF ok] s in \<open>simp_all add: fields between_txns_def\<close>)
  then show "between_txns ?s" using s by (simp add: between_txns_def fields idle_def journal_format_def base)
qed

lemma failing_begin:
  assumes "between_txns s0" and "d_budget (p_disk s0) = Some (Suc (Suc b))"
  obtains s1 where "begin_write s0 = (Inr (), s1)" "d_budget (p_disk s1) = Some b"
proof -
  have "pager_ok (p_disk s0) None s0" "p_journal s0 = None" using assms(1) by (simp_all add: between_txns_def pager_at_def)
  note p = pager_ok_basics(3,4) [OF this(1)] this(2)
  have "\<exists>s1. begin_write s0 = (Inr (), s1) \<and> d_budget (p_disk s1) = Some b"
    using p assms(2)
    by (simp add: begin_write_def check_open_def bindS_def journal_init_def with_disk_def side_create_trunc_def side_write_def io_call_def upd_side_def)
  then show thesis using that by blast
qed

lemma other_page:
  obtains x :: bytes where "length x = PAGE_SIZE" "x \<noteq> y"
proof (cases "replicate PAGE_SIZE 0 = y")
  case True
  have "replicate PAGE_SIZE (1 :: byte) ! 0 \<noteq> replicate PAGE_SIZE 0 ! 0" by (simp add: PAGE_SIZE_def)
  then show thesis using that [of "replicate PAGE_SIZE 1"] True by (metis length_replicate)
qed (use that [of "replicate PAGE_SIZE 0"] in simp)

lemma two_page_txn:
  obtains s0 s1 s j rest where "between_txns s0" "begin_write s0 = (Inr (), s1)" "pager_at (p_disk s1) None s" "p_journal s = Some j"
    "transaction_order s (2 # rest)" "stops_at j 1 s" "d_links (p_disk s0) = l" "readable_prefix s0 [2]"
    "pager_page s 2 \<noteq> pager_page s0 2" "pager_page s 1 \<noteq> pager_page s0 1"
proof -
  from fresh_open_run [of empty_disk True None True] obtain s00 where
    s00: "between_txns s00" "store_hdr (pager_view s00) HDbSize = 2" by (auto simp: empty_disk_def)
  let ?s0 = "on_disk_of (failing_after 7 l) s00"
  have s0: "between_txns ?s0" by (rule failing_between(1) [OF s00(1)])
  have bud: "d_budget (p_disk ?s0) = Some (Suc (Suc 5))" "d_links (p_disk ?s0) = l" by (simp_all add: on_disk_of_def)
  obtain s1 where s1: "begin_write ?s0 = (Inr (), s1)" "d_budget (p_disk s1) = Some 5" by (rule failing_begin [OF s0 bud(1)])
  note br = begin_run [OF s0 s1(1)]
  have pages0: "pager_page ?s0 = pager_page s00" by (rule failing_between(2) [OF s00(1)])
  have size0: "store_hdr (pager_view ?s0) HDbSize = 2" using view_hdr_pages [OF pages0] s00(2) by simp
  have size1: "store_hdr (pager_view s1) HDbSize = 2" using view_hdr_pages [OF br(3)] size0 by simp
  obtain x :: bytes where x: "length x = PAGE_SIZE" "x \<noteq> pager_page ?s0 2" by (rule other_page)
  have ok1: "pager_ok (p_disk s1) None s1" using br(2) by (simp add: pager_at_def)
  have w: "op_write_page store_ops 2 x (pager_view s1) = (Inr (), set_page 2 x (pager_view s1))"
    using store_write_run [of 2 "pager_view s1" x] size1 x(1) by simp
  from refinesD [OF pg.write_page br(2) w] obtain s2 where
    s2: "pager_at (p_disk s1) None s2" "pager_view s2 = set_page 2 x (pager_view s1)" by blast
  have hdr2: "store_hdr (pager_view s2) HDbSize = 2" using s2(2) size1 by simp
  have okh: "hdr_page_ok (pager_view s2)" using s2(1) view_hdr_ok by (auto simp: pager_at_def)
  have e: "op_extend_file store_ops (pager_view s2) =
      (Inr (2 + 1), set_hdr HDbSize (2 + 1) (set_page (2 + 1) (replicate PAGE_SIZE 0) (pager_view s2)))"
    using store_extend_run [OF okh] hdr2 by simp
  from refinesD [OF pg.extend_file s2(1) e] obtain s where
    s: "pager_at (p_disk s1) None s" "pager_view s = set_hdr HDbSize 3 (set_page 3 (replicate PAGE_SIZE 0) (pager_view s2))" by auto
  have ok: "pager_ok (p_disk s1) None s" using s(1) by (simp add: pager_at_def)
  note bb = pager_ok_basics [OF ok]
  have "st_pages (pager_view s) 2 = x" unfolding s(2) s2(2) by (simp add: set_hdr_def set_page_def)
  then have p2: "pager_page s 2 = x" by simp
  have "store_hdr (pager_view s) HDbSize = 3" using s(2) okh by (simp add: PAGE_SIZE_def)
  then have p1: "pager_page s 1 \<noteq> pager_page ?s0 1" using size0 by (auto simp: store_hdr_def)
  have jr: "st_journal (pager_view s)" using br(5) s(2) s2(2) by (simp add: set_hdr_def set_page_def pager_view_def)
  then obtain j where j: "p_journal s = Some j" by (auto simp: pager_view_def)
  have differs: "pager_page s 2 \<noteq> page_img (db_content (p_disk s1)) 2" using p2 x(2) begun_pages [OF s0 s1(1), of 2] by simp
  then have "2 \<in> j_journaled j" using unchanged_page [OF ok j, of 2] by auto
  then have "j_pending j \<noteq> []" using journal_ok_parts(5) [OF ok j] by (auto simp: images_ok_def)
  then have stop: "stops_at j 1 s" using s1(2) bb(1) by (simp add: stops_at_def arm_steps_def)
  have dirty: "2 \<in> p_dirty s" using differs clean_page_base [OF ok, of 2] by (auto simp: base_page_def)
  have "finite (p_dirty s)"
    using s(1) finite_subset [of "p_dirty s" "{..store_hdr (pager_view s) HDbSize}"] by (auto simp: pager_at_def)
  then obtain rest where "transaction_order s (2 # rest)"
    using finite_distinct_list [of "p_dirty s - {2}"] dirty by (auto simp: transaction_order_def)
  then show thesis
    using that [OF s0 s1(1) s(1) j _ stop bud(2)] size0 p1 p2 x(2) by (simp add: readable_prefix_def)
qed

theorem journal_entry_lost_witness:
  "\<exists>s0 s1 s order s' d s2. between_txns s0 \<and> begin_write s0 = (Inr (), s1) \<and> pager_commit 5 order s = (Inl OSError, s') \<and>
     crash_disk (p_disk s') d \<and> pager_open PAGE_SIZE True None True d = (Inr (), s2) \<and>
     pager_page s2 2 = pager_page s 2 \<and> pager_page s 2 \<noteq> pager_page s0 2 \<and>
     pager_page s2 1 = pager_page s0 1 \<and> pager_page s 1 \<noteq> pager_page s0 1"
proof -
  obtain s0 s1 s j rest where t: "between_txns s0" "begin_write s0 = (Inr (), s1)" "pager_at (p_disk s1) None s" "p_journal s = Some j"
    "transaction_order s (2 # rest)" "stops_at j 1 s" "\<not> d_links (p_disk s0)" "readable_prefix s0 [2]"
    "pager_page s 2 \<noteq> pager_page s0 2" "pager_page s 1 \<noteq> pager_page s0 1"
    by (rule two_page_txn [of False]) blast
  have k: "1 \<le> length (2 # rest)" "take 1 (2 # rest) = [2]" by simp_all
  from journal_entry_lost [OF t(1-5) k(1) t(6,7), unfolded k(2), OF t(8), of 5 True None] obtain s' d s2 where
    r: "pager_commit 5 (2 # rest) s = (Inl OSError, s')" "crash_disk (p_disk s') d"
      "pager_open PAGE_SIZE True None True d = (Inr (), s2)" "pager_page s2 = mixed_page s0 s [2]" by blast
  then have "pager_page s2 2 = pager_page s 2" "pager_page s2 1 = pager_page s0 1" by (simp_all add: mixed_page_def)
  with r(1-3) t(1,2,9,10) show ?thesis by blast
qed

theorem rollback_after_commit_witness:
  "\<exists>s0 s1 s order s' s'' s2. between_txns s0 \<and> begin_write s0 = (Inr (), s1) \<and> pager_commit 5 order s = (Inl OSError, s') \<and>
     pager_rollback (s'\<lparr>p_disk := (p_disk s')\<lparr>d_budget := None\<rparr>\<rparr>) = (Inr (), s'') \<and> pager_page s'' = pager_page s0 \<and>
     pager_open PAGE_SIZE True None True (reboot (p_disk s'')) = (Inr (), s2) \<and>
     pager_page s2 2 = pager_page s 2 \<and> pager_page s 2 \<noteq> pager_page s0 2 \<and>
     pager_page s2 1 = pager_page s0 1 \<and> pager_page s 1 \<noteq> pager_page s0 1"
proof -
  obtain s0 s1 s j rest where t: "between_txns s0" "begin_write s0 = (Inr (), s1)" "pager_at (p_disk s1) None s" "p_journal s = Some j"
    "transaction_order s (2 # rest)" "stops_at j 1 s" "d_links (p_disk s0)" "readable_prefix s0 [2]"
    "pager_page s 2 \<noteq> pager_page s0 2" "pager_page s 1 \<noteq> pager_page s0 1"
    by (rule two_page_txn [of True]) blast
  have k: "1 \<le> length (2 # rest)" "take 1 (2 # rest) = [2]" by simp_all
  from rollback_after_commit [OF t(1-5) k(1) t(6), unfolded k(2), OF t(8), of 5 True None] obtain s' s'' s2 where
    r: "pager_commit 5 (2 # rest) s = (Inl OSError, s')" "pager_rollback (s'\<lparr>p_disk := (p_disk s')\<lparr>d_budget := None\<rparr>\<rparr>) = (Inr (), s'')"
      "pager_page s'' = pager_page s0" "pager_open PAGE_SIZE True None True (reboot (p_disk s'')) = (Inr (), s2)"
      "pager_page s2 = mixed_page s0 s [2]" by blast
  then have "pager_page s2 2 = pager_page s 2" "pager_page s2 1 = pager_page s0 1" by (simp_all add: mixed_page_def)
  with r(1-4) t(1,2,9,10) show ?thesis by blast
qed

end
