(* ===== verification/Spec2Isabelle.thy ===== *)
theory Spec2Isabelle
  imports WalCheckpoint SqlTyping SqlInsert IntegrityEnds MetaDurable CommitFaults
begin

text \<open>
  A verification of the storage engine of the repository, the Python package
  \<open>src/src/iai_mcp/lillibrain\<close>: a page file with a rollback journal or a write-ahead log, B+trees on it,
  and a SQL layer on the trees. File names below are relative to that directory. The Rust crate
  \<open>src/crates/lillibrain\<close> is a second implementation of the same design and is not modelled.

  \<^bold>\<open>The program and the theories\<close>, from the disk upwards.

  \<^item> \<open>Prelude\<close>, \<open>PyText\<close>: Python's exceptions as the datatype \<open>pyerr\<close>, results \<open>'a res\<close>, computations
    \<open>('s, 'a) pm\<close> over a state that keep their effects when they raise, bytes, UTF-8 and date texts.
  \<^item> \<open>Constants\<close>, \<open>PageHeader\<close>, \<open>LeafCells\<close>: \<open>constants.py\<close> and \<open>btree/page.py\<close>. A page is its list of
    8-bit words. Page numbers are \<open>nat\<close>, keys are \<open>int\<close> and are masked to 64 bits where the code packs them.
  \<^item> \<open>Varint\<close>, \<open>RecordCodec\<close>: \<open>record.py\<close>, varints and the codec of rows with its three decoders.
  \<^item> \<open>FileIO\<close>: the files and \<open>io.py\<close>. A file is its durable bytes and the writes since the last sync.
    After a crash each byte of an unsynced write is old or new, in any combination; a truncation that is lost
    takes the later writes with it; the creation or removal of a sidecar file may be undone until the directory
    is synced, or the file itself on a file system that then makes its entry durable too (the field \<open>d_links\<close>
    of a \<open>disk\<close>). The field \<open>d_budget\<close> of a \<open>disk\<close> is the number
    of system calls that still succeed (\<open>None\<close>: all of them), so a theorem with an arbitrary budget speaks of
    a failure at every point of an operation, and of a crash there.
  \<^item> \<open>Wal\<close>, with \<open>WalLog\<close>, \<open>WalTxn\<close>, \<open>WalCommit\<close>, \<open>WalAtomic\<close>, \<open>WalCheckpoint\<close>: \<open>wal.py\<close>, the log, its
    checksums, its writer and its recovery scan.
  \<^item> \<open>Pager\<close>, with \<open>PagerView\<close>, \<open>JournalFile\<close>, \<open>JournalCommit\<close>, \<open>JournalAtomic\<close>, \<open>PagerTxn\<close>: \<open>pager.py\<close>, the page
    cache with eviction, the rollback journal, transactions in both modes, recovery on opening. The record
    \<open>pager\<close> has the attributes of the Python object.
  \<^item> \<open>PagerOps\<close>, \<open>PageSpace\<close>, \<open>Freelist\<close>, \<open>Overflow\<close>: the freelist and the overflow chains. This code and
    the tree code call methods of whatever pager they are given, so their definitions take a record
    \<open>pager_ops\<close>. \<open>store\<close> is the simplest such pager, a total map of pages. The locale \<open>page_reader\<close> states
    what a pager has to provide for programs that only read to do on it what they do on a store, and
    \<open>page_store\<close> extends it to programs that write, with the lemmas that lift a run on the store to a run on
    the pager. \<open>page_store\<close> is interpreted on the model of \<open>pager.py\<close> in a transaction (\<open>PagerView\<close>),
    \<open>page_reader\<close> on the pager at rest (\<open>MetaDriver\<close>).
  \<^item> \<open>Partition\<close>, \<open>TreeSplit\<close>, \<open>TreeDelete\<close>, \<open>Cursor\<close>: \<open>btree/split.py\<close>, \<open>btree/delete.py\<close>, \<open>btree/cursor.py\<close>.
    The facts are in \<open>LeafFacts\<close>, \<open>TreeModel\<close>, \<open>TreeSearch\<close>, \<open>TreeScan\<close>, \<open>TreeGrow\<close>, \<open>TreeAscend\<close>,
    \<open>TreeInsert\<close>, \<open>LeafSplit\<close> and \<open>InsertMap\<close>: \<open>stored\<close> relates an abstract tree to the pages, \<open>tree_map\<close> is the
    finite map it denotes, and an insertion refines the update of that map.
  \<^item> \<open>Integrity\<close>, \<open>IntegrityClean\<close>, \<open>IntegrityEnds\<close>: \<open>check_integrity.py\<close>.
  \<^item> \<open>Durable\<close>, \<open>FreshFile\<close>: the tree on the pager on the disk, across a commit, a crash and a new opening.
    \<open>CommitFaults\<close>: the two ways a commit of the journal mode can leave a mixture of old and new pages.
  \<^item> \<open>SqlTypes\<close>, \<open>SqlExpr\<close>, \<open>SqlTyping\<close>: \<open>sql/types.py\<close>, \<open>sql/ast_nodes.py\<close> and the evaluation of expressions in
    \<open>sql/executor.py\<close>. Dynamically typed Python values are the datatype \<open>pyval\<close>; a comparison that Python
    refuses is a \<open>TypeError\<close>.
  \<^item> \<open>SqlRows\<close>, \<open>SqlSort\<close>, \<open>SqlScan\<close>, \<open>SqlSelect\<close>, \<open>SqlModify\<close>, with \<open>SqlLookup\<close>, \<open>SqlQuery\<close>,
    \<open>SqlInsert\<close>, \<open>SqlDml\<close>: the row operators and the executors of SELECT, INSERT, UPDATE and DELETE. \<open>SqlLookup\<close>
    has the index from ids to row keys that the connection builds and passes to SELECT and UPDATE; theorems
    about these cover the run with and without it, and \<open>build_index_exact\<close> shows that the index built is
    exact when the ids of the rows are different texts.
  \<^item> \<open>SqlCatalog\<close>, \<open>SqlDdl\<close>, \<open>SqlDdlRoundTrip\<close>, \<open>SqlPlan\<close>: \<open>sql/catalog.py\<close> and \<open>sql/planner.py\<close>.
  \<^item> \<open>SqlLexer\<close>, \<open>SqlParser\<close>, \<open>SqlStatement\<close>, with \<open>SqlPrinter\<close>, \<open>SqlRoundTrip\<close>, \<open>SqlParserEnds\<close>: \<open>sql/lexer.py\<close> and
    \<open>sql/parser.py\<close>.
  \<^item> \<open>MetaTable\<close>: the first part of \<open>connection.py\<close>, the table of DDL texts and roots at page 3, the
    registration of a table and the replay on opening. In \<open>MetaRows\<close>, \<open>persists\<close> relates the rows of
    that table to the schema in memory. The locale \<open>txn_driver\<close> of \<open>MetaDriver\<close> is the contract of a pager with
    transactions (what ran inside one that returned is there afterwards) and proves the registration under
    it; it is interpreted on the pager in journal mode and on a bare store. \<open>MetaDurable\<close> joins this with the
    recovery of the pager.

  \<^bold>\<open>What is shown.\<close> Durability: in rollback-journal mode a commit that returned is durable under every crash
  and every file system, and a commit that fails or crashes at any system call leaves the old or the new
  pages where the file system keeps the entry of the new journal (\<open>d_links\<close>). In write-ahead mode a commit is
  atomic on every file system, and durable when the entry of the log is. The code syncs neither directory
  after creating the file, and \<open>journal_entry_lost\<close> and \<open>new_log_lost\<close> show what this costs. Recovery can be
  interrupted any number of times and still ends in the committed pages, a checkpoint never changes what
  recovery finds, and an insertion or a SQL UPDATE that has committed is read back by a scan of the file
  opened again. A table that has been created is found by every later opening, in the catalog and under its
  root. Trees: an insertion updates the map, a scan lists it in key order, the descent finds the leaf of a
  key. Pages: the freelist and overflow chains give back what they were given and leak nothing; a sound
  database passes the structural check and keeps passing it after an insertion; the check ends on every
  file, damaged ones included. Codecs: varints, records, overflow payloads and the texts of SELECT, INSERT,
  UPDATE and DELETE are read back as what was written; the decoders agree. SQL: a SELECT answers the query
  its statement means, UPDATE maps the rows that match, INSERT adds one row and its conflict clauses do what
  the reference says, ORDER BY sorts stably, the connectives are Kleene's, typed predicates do not raise,
  parsing ends on every text, and a CREATE TABLE text registers the columns it declares.

  \<^bold>\<open>Defects.\<close> Some theorems state what the code should not do: \<open>journal_entry_lost\<close>, \<open>new_log_lost\<close>,
  \<open>rollback_after_commit\<close> (a rollback after a failed commit deletes the journal of a half-written file),
  \<open>rolled_back_commit_returns\<close>, \<open>record_header_off_by_one\<close>, \<open>sized_type_loses_columns\<close>, \<open>blob_default_is_text\<close>,
  \<open>bare_create_bricks\<close> (a text the catalog refuses is committed first, and no later opening succeeds), and of
  the lookup through the id index \<open>aggregate_by_id\<close>, \<open>offset_by_id\<close> and \<open>update_by_id_skips_spilled\<close>.

  \<^bold>\<open>Fuel and bounds.\<close> Walks along page numbers read from disk may go round in a cycle, so they carry fuel and
  raise \<open>Diverges\<close> when it is used up: \<open>Diverges\<close> is no exception of the program and stands for a run that
  does not return. Theorems about these walks assume a fuel above the height of the tree or the length of the
  chain and conclude that the result is a value. The walks of the structural check have a little
  more fuel than the file has pages, which \<open>check_integrity_ends\<close> shows to be enough for every file. The lexer, the parser and
  the DDL readers have one unit per character or token, which \<open>parse_sql_ends\<close> and \<open>apply_ddl_ends\<close> show
  to be enough for every text. \<open>room n s\<close> says that \<open>n\<close> further pages fit into 32-bit page numbers;
  \<open>insert_room\<close> and \<open>run_room\<close> are how many an insertion and a list of insertions can take.

  \<^bold>\<open>Assumptions.\<close> Reads do not fail, and a write call fails or writes all its bytes (the code ignores the
  count it returns). Whether syncing a new sidecar file makes its directory entry durable is left open: it is
  the field \<open>d_links\<close>, and a theorem that needs it says so. An unlinked file may come back until the
  directory is synced. The theorems on the log speak of the
  crashes whose damage its checksums notice; \<open>wal_checksum_detects\<close> shows that any change inside one aligned
  block is among them. A process does not share the file
  with another. The record \<open>pylib\<close> collects what is taken from Python's library and cannot be written here:
  conversions of decimal numbers, \<open>float\<close> arithmetic, \<open>str.lower\<close> outside ASCII, \<open>repr\<close> and the classes of
  Unicode characters (\<open>int\<close> of a text is modelled for ASCII digits only); floats themselves are their 64-bit patterns with Python's order on them. A generator is
  the list of what it yields and the exception that ends it, and a scan reads its pages before the consumer
  takes the first row. The limit on Python's recursion depth is not modelled, nor is memory.

  \<^bold>\<open>Not modelled.\<close> The rest of \<open>connection.py\<close>: the connection object (the dispatch of PRAGMA and DDL
  statements, the life of the id cache, label injection, \<open>executemany\<close>), the wrappers of rows and cursors, and the
  adapters over the native engine, which call code outside Python. The texts of error messages.
  Deletion from a tree is modelled whole, but of its rebalancing only the partitions are proved.
  Everything outside \<open>lillibrain\<close> is listed, with reasons, in the components of the manifest.
\<close>

end
